(* ===== verification/Prelude.thy ===== *)
theory Prelude
  imports Main "HOL-Library.Word" "HOL-Library.Multiset"
begin

text \<open>
  Shared vocabulary of the development: the result type of a fallible Rust function, the machine
  integer casts, list and printing helpers, and the interfaces (locales) that several components
  implement.

  A Rust function of type \<open>Result<T>\<close> either returns, fails with an error value, or panics
  (an index out of range, an \<open>expect\<close> on \<open>None\<close>). The three outcomes are the constructors
  of \<open>res\<close>. A function that cannot fail but can panic returns an \<open>option\<close>, with \<open>None\<close>
  for the panic.
\<close>

section \<open>Results\<close>

datatype ('e, 'a) res = Ok 'a | Err 'e | Panic

primrec rbind :: "('e, 'a) res \<Rightarrow> ('a \<Rightarrow> ('e, 'b) res) \<Rightarrow> ('e, 'b) res" where
  "rbind (Ok x) f = f x"
| "rbind (Err e) f = Err e"
| "rbind Panic f = Panic"

text \<open>\<open>ensure!(c, e)\<close>: continue when the condition holds, fail with the error otherwise.\<close>

definition ensure :: "bool \<Rightarrow> 'e \<Rightarrow> ('e, 'a) res \<Rightarrow> ('e, 'a) res" where
  "ensure c e k = (if c then k else Err e)"

text \<open>\<open>expect\<close> and every checked access: \<open>None\<close> is a panic.\<close>

definition expect :: "'a option \<Rightarrow> ('a \<Rightarrow> ('e, 'b) res) \<Rightarrow> ('e, 'b) res" where
  "expect m k = (case m of None \<Rightarrow> Panic | Some x \<Rightarrow> k x)"

named_theorems res_simps \<open>case analysis of results\<close>

lemma rbind_Ok_iff [res_simps]: "rbind m f = Ok y \<longleftrightarrow> (\<exists>x. m = Ok x \<and> f x = Ok y)"
  by (cases m) auto

lemma rbind_Panic_iff [res_simps]: "rbind m f = Panic \<longleftrightarrow> m = Panic \<or> (\<exists>x. m = Ok x \<and> f x = Panic)"
  by (cases m) auto

lemma ensure_Ok_iff [res_simps]: "ensure c e k = Ok y \<longleftrightarrow> c \<and> k = Ok y"
  by (simp add: ensure_def)

lemma ensure_Panic_iff [res_simps]: "ensure c e k = Panic \<longleftrightarrow> c \<and> k = Panic"
  by (simp add: ensure_def)

lemma ensure_Err_iff [res_simps]: "ensure c e k = Err x \<longleftrightarrow> (\<not> c \<and> e = x) \<or> (c \<and> k = Err x)"
  by (auto simp: ensure_def)

lemma expect_Ok_iff [res_simps]: "expect m k = Ok y \<longleftrightarrow> (\<exists>x. m = Some x \<and> k x = Ok y)"
  by (cases m) (auto simp: expect_def)

lemma expect_Panic_iff [res_simps]: "expect m k = Panic \<longleftrightarrow> m = None \<or> (\<exists>x. m = Some x \<and> k x = Panic)"
  by (cases m) (auto simp: expect_def)

lemma expect_Some [simp]: "expect (Some x) k = k x"
  by (simp add: expect_def)

lemma expect_None [simp]: "expect None k = Panic"
  by (simp add: expect_def)

section \<open>Machine integers and printing\<close>

text \<open>A user id is a 128-bit UUID; the rules only compare ids for equality.\<close>

type_synonym uuid = "128 word"

text \<open>The Rust cast \<open>n as u8\<close>.\<close>

definition as_u8 :: "nat \<Rightarrow> nat" where
  "as_u8 n = n mod 256"

lemma as_u8_small [simp]: "n < 256 \<Longrightarrow> as_u8 n = n"
  by (simp add: as_u8_def)

lemma as_u8_lt: "as_u8 n < 256"
  by (simp add: as_u8_def)

text \<open>The Rust cast \<open>n as i8\<close>, and the wrapping arithmetic of the type.\<close>

definition as_i8 :: "int \<Rightarrow> int" where
  "as_i8 n = (n + 128) mod 256 - 128"

lemma as_i8_id [simp]: "-128 \<le> n \<Longrightarrow> n < 128 \<Longrightarrow> as_i8 n = n"
  by (simp add: as_i8_def)

text \<open>The \<open>rand\<close> crate is not part of the program. A call \<open>gen_range(0..=max)\<close> returns some number in
  that range: a stream of arbitrary raw draws stands for the generator, and the returned number is
  the residue of its raw draw.\<close>

definition gen_upto :: "nat \<Rightarrow> nat \<Rightarrow> nat" where
  "gen_upto bound raw = raw mod (bound + 1)"

lemma gen_upto_le: "gen_upto bound raw \<le> bound"
  using mod_less_divisor [of "bound + 1" raw] by (simp add: gen_upto_def del: mod_less_divisor)

lemma gen_upto_id: "n \<le> bound \<Longrightarrow> gen_upto bound n = n"
  by (simp add: gen_upto_def)

text \<open>The decimal form that \<open>format!\<close> writes for an unsigned integer.\<close>

definition digit_char :: "nat \<Rightarrow> char" where
  "digit_char d = char_of (48 + d)"

fun dec_string :: "nat \<Rightarrow> string" where
  "dec_string n = (if n < 10 then [digit_char n] else dec_string (n div 10) @ [digit_char (n mod 10)])"

declare dec_string.simps [simp del]

text \<open>The character \<open>base + n\<close> of a square or column name.\<close>

definition letter_from :: "char \<Rightarrow> nat \<Rightarrow> char" where
  "letter_from base n = char_of (of_char base + n)"

text \<open>\<open>parts.join(sep)\<close>.\<close>

fun join_with :: "string \<Rightarrow> string list \<Rightarrow> string" where
  "join_with sep [] = []"
| "join_with sep [x] = x"
| "join_with sep (x # y # zs) = x @ sep @ join_with sep (y # zs)"

section \<open>Replays\<close>

text \<open>A history replayed step by step; a step that panics is \<open>None\<close>.\<close>

fun fold_opt :: "('s \<Rightarrow> 'm \<Rightarrow> 's option) \<Rightarrow> 's \<Rightarrow> 'm list \<Rightarrow> 's option" where
  "fold_opt f s [] = Some s"
| "fold_opt f s (m # ms) = Option.bind (f s m) (\<lambda>s'. fold_opt f s' ms)"

lemma fold_opt_append: "fold_opt f s (xs @ ys) = Option.bind (fold_opt f s xs) (\<lambda>t. fold_opt f t ys)"
  by (induction xs arbitrary: s) (simp_all add: Option.bind_assoc)

lemma fold_opt_snoc: "fold_opt f s (xs @ [x]) = Option.bind (fold_opt f s xs) (\<lambda>t. f t x)"
proof -
  have "Option.bind m Some = m" for m :: "'a option" by (cases m) simp_all
  then show ?thesis by (simp add: fold_opt_append)
qed

section \<open>Persisted spellings\<close>

text \<open>
  An enum that is stored as text has a list of all its variants and a spelling per variant; parsing
  is \<open>ALL.into_iter().find(|x| x.code() == s)\<close>.
\<close>

definition find_code :: "'a list \<Rightarrow> ('a \<Rightarrow> string) \<Rightarrow> string \<Rightarrow> 'a option" where
  "find_code all code s = find (\<lambda>x. code x = s) all"

locale code_table =
  fixes all :: "'a list" and code :: "'a \<Rightarrow> string"
  assumes all_complete: "x \<in> set all"
    and codes_distinct: "distinct (map code all)"
begin

lemma code_inj: "code x = code y \<longleftrightarrow> x = y"
  using codes_distinct all_complete by (auto simp: distinct_map inj_on_def)

lemma find_code_iff: "find_code all code s = Some x \<longleftrightarrow> code x = s"
proof
  assume "find_code all code s = Some x"
  then show "code x = s" by (auto simp: find_code_def find_Some_iff)
next
  assume x: "code x = s"
  have "find_code all code s \<noteq> None"
    using x all_complete [of x] by (auto simp: find_code_def find_None_iff)
  then obtain y where y: "find_code all code s = Some y" by blast
  then have "code y = s" by (auto simp: find_code_def find_Some_iff)
  with x have "y = x" using code_inj [of y x] by simp
  with y show "find_code all code s = Some x" by simp
qed

lemma find_code_None: "find_code all code s = None \<longleftrightarrow> (\<forall>x. code x \<noteq> s)"
  by (metis find_code_iff option.exhaust option.distinct(1))

end

section \<open>Boards\<close>

text \<open>
  A fixed-size board \<open>[[Option<T>; N]; M]\<close> is a function of row and column; the code reads it only
  after a bounds check or at indices the loops keep in range, and \<open>set_cell\<close> is
  \<open>grid[row][col] = v\<close>. \<open>at_cell\<close> reads a board of the given size at signed coordinates, with
  nothing outside it.
\<close>

type_synonym 'd board = "nat \<Rightarrow> nat \<Rightarrow> 'd option"

definition set_cell :: "'d board \<Rightarrow> nat \<Rightarrow> nat \<Rightarrow> 'd option \<Rightarrow> 'd board" where
  "set_cell g r c v = g(r := (g r)(c := v))"

definition empty_board :: "'d board" where
  "empty_board = (\<lambda>_ _. None)"

lemma set_cell_apply: "set_cell g r c v r' c' = (if r' = r \<and> c' = c then v else g r' c')"
  by (simp add: set_cell_def)

lemma empty_board_apply [simp]: "empty_board r c = None"
  by (simp add: empty_board_def)

definition in_board :: "nat \<Rightarrow> nat \<Rightarrow> int \<Rightarrow> int \<Rightarrow> bool" where
  "in_board rows cols r c \<longleftrightarrow> 0 \<le> r \<and> r < int rows \<and> 0 \<le> c \<and> c < int cols"

definition at_cell :: "nat \<Rightarrow> nat \<Rightarrow> 'd board \<Rightarrow> int \<Rightarrow> int \<Rightarrow> 'd option" where
  "at_cell rows cols g r c = (if in_board rows cols r c then g (nat r) (nat c) else None)"

lemma at_cell_int [simp]: "r < rows \<Longrightarrow> c < cols \<Longrightarrow> at_cell rows cols g (int r) (int c) = g r c"
  by (simp add: at_cell_def in_board_def)

lemma at_cell_Some: "at_cell rows cols g r c = Some d \<longleftrightarrow> in_board rows cols r c \<and> g (nat r) (nat c) = Some d"
  by (simp add: at_cell_def)

text \<open>Setting many squares, and counting the squares that satisfy a predicate in row-major order.\<close>

definition set_cells :: "'d board \<Rightarrow> (nat \<times> nat) list \<Rightarrow> 'd option \<Rightarrow> 'd board" where
  "set_cells g cells v = fold (\<lambda>(r, c) g. set_cell g r c v) cells g"

lemma set_cells_apply: "set_cells g cells v r c = (if (r, c) \<in> set cells then v else g r c)"
  unfolding set_cells_def by (induction cells arbitrary: g) (auto simp: set_cell_apply split: prod.split)

definition squares :: "nat \<Rightarrow> nat \<Rightarrow> (nat \<times> nat) list" where
  "squares rows cols = List.product [0..<rows] [0..<cols]"

lemma set_squares [simp]: "set (squares rows cols) = {..<rows} \<times> {..<cols}"
  by (auto simp: squares_def)

lemma distinct_squares: "distinct (squares rows cols)"
  by (simp add: squares_def distinct_product)

definition count_squares :: "nat \<Rightarrow> nat \<Rightarrow> (nat \<times> nat \<Rightarrow> bool) \<Rightarrow> nat" where
  "count_squares rows cols p = length (filter p (squares rows cols))"

lemma count_squares_card: "count_squares rows cols p = card {x \<in> {..<rows} \<times> {..<cols}. p x}"
proof -
  have "card (set (filter p (squares rows cols))) = length (filter p (squares rows cols))"
    by (rule distinct_card) (simp add: distinct_squares)
  moreover have "set (filter p (squares rows cols)) = {x \<in> {..<rows} \<times> {..<cols}. p x}"
    by auto
  ultimately show ?thesis by (simp add: count_squares_def)
qed

lemma count_squares_le: "count_squares rows cols p \<le> rows * cols"
  unfolding count_squares_def squares_def
  by (rule order_trans [OF length_filter_le]) simp

text \<open>A concatenation is distinct when its parts are, and a key tells the parts apart.\<close>

lemma distinct_concat_key:
  assumes "distinct ds" and "\<And>d. d \<in> set ds \<Longrightarrow> distinct (f d)" and "\<And>d x. d \<in> set ds \<Longrightarrow> x \<in> set (f d) \<Longrightarrow> key x = d"
  shows "distinct (concat (map f ds))"
  using assms
proof (induction ds)
  case Nil
  then show ?case by simp
next
  case (Cons d ds)
  have "set (f d) \<inter> set (concat (map f ds)) = {}"
  proof (rule ccontr)
    assume "set (f d) \<inter> set (concat (map f ds)) \<noteq> {}"
    then obtain x e where x: "x \<in> set (f d)" and e: "e \<in> set ds" "x \<in> set (f e)" by auto
    from Cons.prems(3) [of d x] Cons.prems(3) [of e x] x e have "d = e" by simp
    with e Cons.prems(1) show False by simp
  qed
  moreover have "distinct (concat (map f ds))" using Cons by simp
  ultimately show ?case using Cons.prems(2) [of d] by simp
qed

text \<open>Collecting the results of the tries that succeed.\<close>

lemma set_concat_option:
  "x \<in> set (concat (map (\<lambda>d. case f d of None \<Rightarrow> [] | Some j \<Rightarrow> g j) ds)) \<longleftrightarrow>
     (\<exists>d \<in> set ds. \<exists>j. f d = Some j \<and> x \<in> set (g j))"
  by (induction ds) (auto split: option.splits)

lemma concat_option_Nil:
  assumes "\<And>j. g j \<noteq> []"
  shows "concat (map (\<lambda>d. case f d of None \<Rightarrow> [] | Some j \<Rightarrow> g j) ds) = [] \<longleftrightarrow> (\<forall>d \<in> set ds. f d = None)"
proof (induction ds)
  case (Cons d ds)
  then show ?case using assms by (cases "f d") auto
qed simp

section \<open>Plays submitted one after another\<close>

text \<open>
  A game's \<open>apply_*\<close> method takes the stored state and a move. The caller keeps the new state when
  the move is accepted and the old one when it is refused, so a session is a list of submitted moves
  folded over the stored state.
\<close>

fun submit_all :: "('s \<Rightarrow> 'm \<Rightarrow> ('e, 's \<times> 'o) res) \<Rightarrow> 's \<Rightarrow> 'm list \<Rightarrow> ('e, 's) res" where
  "submit_all play s [] = Ok s"
| "submit_all play s (m # ms) =
     (case play s m of
        Ok (s', _) \<Rightarrow> submit_all play s' ms
      | Err _ \<Rightarrow> submit_all play s ms
      | Panic \<Rightarrow> Panic)"

text \<open>
  The contract of a rules engine: an invariant of the stored state that every accepted move keeps,
  and under which no move can panic.
\<close>

locale rules_engine =
  fixes play :: "'s \<Rightarrow> 'm \<Rightarrow> ('e, 's \<times> 'o) res"
    and inv :: "'s \<Rightarrow> bool"
  assumes play_keeps: "inv s \<Longrightarrow> play s m = Ok (s', out) \<Longrightarrow> inv s'"
    and play_safe: "inv s \<Longrightarrow> play s m \<noteq> Panic"
begin

lemma session_ok: "inv s \<Longrightarrow> \<exists>s'. submit_all play s ms = Ok s' \<and> inv s'"
proof (induction ms arbitrary: s)
  case Nil
  then show ?case by simp
next
  case (Cons m ms)
  show ?case
  proof (cases "play s m")
    case (Ok r)
    then obtain s' out where "play s m = Ok (s', out)" by (cases r) auto
    with Cons show ?thesis by (auto dest: play_keeps)
  next
    case (Err e)
    with Cons show ?thesis by simp
  next
    case Panic
    with Cons.prems play_safe show ?thesis by blast
  qed
qed

lemma session_never_panics: "inv s \<Longrightarrow> submit_all play s ms \<noteq> Panic"
  by (auto dest: session_ok [where ms = ms])

lemma session_inv: "inv s \<Longrightarrow> submit_all play s ms = Ok s' \<Longrightarrow> inv s'"
  by (auto dest: session_ok [where ms = ms])

end

text \<open>
  An event-sourced engine also keeps the history of what was played: an accepted move appends one
  entry and nothing else ever changes the history.
\<close>

locale logged_engine = rules_engine play inv
  for play :: "'s \<Rightarrow> 'm \<Rightarrow> ('e, 's \<times> 'o) res" and inv :: "'s \<Rightarrow> bool" +
  fixes history :: "'s \<Rightarrow> 'h list"
    and entry :: "'s \<Rightarrow> 'm \<Rightarrow> 'h"
  assumes play_logs: "inv s \<Longrightarrow> play s m = Ok (s', out) \<Longrightarrow> history s' = history s @ [entry s m]"
begin

lemma session_extends:
  "inv s \<Longrightarrow> submit_all play s ms = Ok s' \<Longrightarrow>
     \<exists>es. history s' = history s @ es \<and> length es \<le> length ms"
proof (induction ms arbitrary: s)
  case Nil
  then show ?case by simp
next
  case (Cons m ms)
  show ?case
  proof (cases "play s m")
    case (Ok r)
    then obtain t out where t: "play s m = Ok (t, out)" by (cases r) auto
    with Cons.prems have "submit_all play t ms = Ok s'" and "inv t"
      by (auto dest: play_keeps)
    with Cons.IH obtain es where "history s' = history t @ es" "length es \<le> length ms" by blast
    with play_logs [OF Cons.prems(1) t] show ?thesis
      by (intro exI [of _ "entry s m # es"]) auto
  next
    case (Err e)
    with Cons.prems have "submit_all play s ms = Ok s'" by simp
    with Cons.IH Cons.prems(1) obtain es where
      "history s' = history s @ es" "length es \<le> length ms" by blast
    then show ?thesis by (intro exI [of _ es]) simp
  next
    case Panic
    with Cons.prems show ?thesis by simp
  qed
qed

end

section \<open>Two seats, two users\<close>

text \<open>
  Every daily match seats two users. Each game has a side type with an opponent function, a lookup
  from side to user and one back.
\<close>

locale two_sides =
  fixes other :: "'c \<Rightarrow> 'c"
    and valid :: "'c \<Rightarrow> bool"
    and user_of :: "'s \<Rightarrow> 'c \<Rightarrow> uuid"
    and side_of :: "'s \<Rightarrow> uuid \<Rightarrow> 'c option"
  assumes other_valid: "valid c \<Longrightarrow> valid (other c)"
    and other_other: "valid c \<Longrightarrow> other (other c) = c"
    and other_neq: "valid c \<Longrightarrow> other c \<noteq> c"
    and side_sound: "side_of s u = Some c \<Longrightarrow> valid c \<and> user_of s c = u"
    and side_complete: "valid c \<Longrightarrow> side_of s (user_of s c) \<noteq> None"
    and two_only: "valid c \<Longrightarrow> valid d \<Longrightarrow> d = c \<or> d = other c"
begin

lemma side_of_None_iff: "side_of s u = None \<longleftrightarrow> (\<forall>c. valid c \<longrightarrow> user_of s c \<noteq> u)"
proof
  assume "side_of s u = None"
  then show "\<forall>c. valid c \<longrightarrow> user_of s c \<noteq> u" using side_complete by fastforce
next
  assume none: "\<forall>c. valid c \<longrightarrow> user_of s c \<noteq> u"
  show "side_of s u = None"
  proof (cases "side_of s u")
    case (Some c)
    then have "valid c \<and> user_of s c = u" by (rule side_sound)
    with none show ?thesis by blast
  qed
qed

lemma side_of_user:
  assumes "valid c" and "user_of s c \<noteq> user_of s (other c)"
  shows "side_of s (user_of s c) = Some c"
proof -
  obtain d where d: "side_of s (user_of s c) = Some d" using side_complete [OF assms(1)] by blast
  then have "valid d" and "user_of s d = user_of s c" using side_sound by blast+
  with two_only [OF assms(1), of d] assms(2) have "d = c" by auto
  with d show ?thesis by simp
qed

end

end
