(* ===== verification/Policy.thy ===== *)
theory Policy
  imports Prelude
begin

unbundle bit_operations_syntax

text \<open>
  The moderation policy (\<open>late-ssh/src/moderation/policy.rs\<close>): the staff tiers, the capability
  bit flags, and the rules that decide whether an actor may take an action against a target. A set
  of capabilities is the 64-bit word that \<open>bitflags!\<close> stores; \<open>cap\<close> gives each named flag its
  bit.
\<close>

section \<open>Tiers\<close>

datatype tier = Regular | Moderator | Admin

fun tier_rank :: "tier \<Rightarrow> nat" where
  "tier_rank Regular = 0"
| "tier_rank Moderator = 1"
| "tier_rank Admin = 2"

instantiation tier :: linorder
begin

definition less_eq_tier :: "tier \<Rightarrow> tier \<Rightarrow> bool" where
  "less_eq_tier a b \<longleftrightarrow> tier_rank a \<le> tier_rank b"

definition less_tier :: "tier \<Rightarrow> tier \<Rightarrow> bool" where
  "less_tier a b \<longleftrightarrow> tier_rank a < tier_rank b"

instance
proof
  fix a b :: tier
  show "a \<le> b \<Longrightarrow> b \<le> a \<Longrightarrow> a = b"
    by (cases a; cases b) (auto simp: less_eq_tier_def)
qed (auto simp: less_eq_tier_def less_tier_def)

end

definition from_user_flags :: "bool \<Rightarrow> bool \<Rightarrow> tier" where
  "from_user_flags is_admin is_moderator =
     (if is_admin then Admin else if is_moderator then Moderator else Regular)"

section \<open>Capabilities\<close>

type_synonym caps = "64 word"

datatype cap_name =
    EDIT_OTHER_MESSAGE | DELETE_OTHER_MESSAGE | KICK_FROM_ROOM | BAN_FROM_ROOM | UNBAN_FROM_ROOM
  | KICK_USER | TEMP_BAN_USER | PERMA_BAN_USER | UNBAN_USER | BAN_FROM_ARTBOARD
  | UNBAN_FROM_ARTBOARD | GRANT_MOD | REVOKE_MOD | OPEN_MOD_SURFACE | VIEW_STAFF_INFO | RENAME_ROOM
  | RESTORE_ARTBOARD | RENAME_USER | BAN_FROM_AUDIO | UNBAN_FROM_AUDIO | DELETE_AUDIO_TRACK
  | KICK_FROM_VOICE | UNBLOCK_VOICE | SET_ROOM_VOICE | KICK_STREAM | BAN_FROM_STREAM
  | UNBAN_FROM_STREAM | BAN_FROM_CALENDAR | UNBAN_FROM_CALENDAR | REMOVE_DEADCHANNEL_POSTER

fun cap :: "cap_name \<Rightarrow> caps" where
  "cap EDIT_OTHER_MESSAGE = push_bit 0 1"
| "cap DELETE_OTHER_MESSAGE = push_bit 1 1"
| "cap KICK_FROM_ROOM = push_bit 2 1"
| "cap BAN_FROM_ROOM = push_bit 3 1"
| "cap UNBAN_FROM_ROOM = push_bit 4 1"
| "cap KICK_USER = push_bit 5 1"
| "cap TEMP_BAN_USER = push_bit 6 1"
| "cap PERMA_BAN_USER = push_bit 7 1"
| "cap UNBAN_USER = push_bit 8 1"
| "cap BAN_FROM_ARTBOARD = push_bit 9 1"
| "cap UNBAN_FROM_ARTBOARD = push_bit 10 1"
| "cap GRANT_MOD = push_bit 11 1"
| "cap REVOKE_MOD = push_bit 12 1"
| "cap OPEN_MOD_SURFACE = push_bit 13 1"
| "cap VIEW_STAFF_INFO = push_bit 14 1"
| "cap RENAME_ROOM = push_bit 15 1"
| "cap RESTORE_ARTBOARD = push_bit 16 1"
| "cap RENAME_USER = push_bit 17 1"
| "cap BAN_FROM_AUDIO = push_bit 18 1"
| "cap UNBAN_FROM_AUDIO = push_bit 19 1"
| "cap DELETE_AUDIO_TRACK = push_bit 21 1"
| "cap KICK_FROM_VOICE = push_bit 22 1"
| "cap UNBLOCK_VOICE = push_bit 23 1"
| "cap SET_ROOM_VOICE = push_bit 24 1"
| "cap KICK_STREAM = push_bit 25 1"
| "cap BAN_FROM_STREAM = push_bit 26 1"
| "cap UNBAN_FROM_STREAM = push_bit 27 1"
| "cap BAN_FROM_CALENDAR = push_bit 28 1"
| "cap UNBAN_FROM_CALENDAR = push_bit 29 1"
| "cap REMOVE_DEADCHANNEL_POSTER = push_bit 30 1"

text \<open>\<open>union\<close> and \<open>contains\<close> as \<open>bitflags\<close> documents them: bitwise or, and subset of bits.\<close>

fun caps_union :: "cap_name list \<Rightarrow> caps" where
  "caps_union [] = 0"
| "caps_union (c # cs) = cap c OR caps_union cs"

definition contains :: "caps \<Rightarrow> caps \<Rightarrow> bool" where
  "contains bits action \<longleftrightarrow> bits AND action = action"

definition REGULAR :: caps where
  "REGULAR = 0"

definition ROOM_OWNER :: caps where
  "ROOM_OWNER = cap KICK_FROM_ROOM"

definition STREAM_OWNER :: caps where
  "STREAM_OWNER = caps_union [KICK_FROM_ROOM, BAN_FROM_ROOM, UNBAN_FROM_ROOM]"

datatype ownership = PrivateRoom | StreamRoom

fun owner_caps :: "ownership \<Rightarrow> caps" where
  "owner_caps PrivateRoom = ROOM_OWNER"
| "owner_caps StreamRoom = STREAM_OWNER"

definition MODERATOR :: caps where
  "MODERATOR = caps_union
     [EDIT_OTHER_MESSAGE, DELETE_OTHER_MESSAGE, KICK_FROM_ROOM, BAN_FROM_ROOM, UNBAN_FROM_ROOM,
      KICK_USER, TEMP_BAN_USER, UNBAN_USER, BAN_FROM_ARTBOARD, UNBAN_FROM_ARTBOARD,
      OPEN_MOD_SURFACE, VIEW_STAFF_INFO, RENAME_ROOM, RESTORE_ARTBOARD, RENAME_USER,
      BAN_FROM_AUDIO, UNBAN_FROM_AUDIO, DELETE_AUDIO_TRACK, KICK_FROM_VOICE, UNBLOCK_VOICE,
      SET_ROOM_VOICE, KICK_STREAM, BAN_FROM_STREAM, UNBAN_FROM_STREAM, BAN_FROM_CALENDAR,
      UNBAN_FROM_CALENDAR, REMOVE_DEADCHANNEL_POSTER]"

text \<open>\<open>Caps::all()\<close> is the union of every declared flag: bit 20 is not declared.\<close>

definition ADMIN :: caps where
  "ADMIN = caps_union
     [EDIT_OTHER_MESSAGE, DELETE_OTHER_MESSAGE, KICK_FROM_ROOM, BAN_FROM_ROOM, UNBAN_FROM_ROOM,
      KICK_USER, TEMP_BAN_USER, PERMA_BAN_USER, UNBAN_USER, BAN_FROM_ARTBOARD,
      UNBAN_FROM_ARTBOARD, GRANT_MOD, REVOKE_MOD, OPEN_MOD_SURFACE, VIEW_STAFF_INFO, RENAME_ROOM,
      RESTORE_ARTBOARD, RENAME_USER, BAN_FROM_AUDIO, UNBAN_FROM_AUDIO, DELETE_AUDIO_TRACK,
      KICK_FROM_VOICE, UNBLOCK_VOICE, SET_ROOM_VOICE, KICK_STREAM, BAN_FROM_STREAM,
      UNBAN_FROM_STREAM, BAN_FROM_CALENDAR, UNBAN_FROM_CALENDAR, REMOVE_DEADCHANNEL_POSTER]"

section \<open>Permissions\<close>

record permissions =
  tier :: tier
  owns :: "ownership option"

definition new_permissions :: "bool \<Rightarrow> bool \<Rightarrow> permissions" where
  "new_permissions is_admin is_moderator =
     \<lparr>tier = from_user_flags is_admin is_moderator, owns = None\<rparr>"

definition as_room_owner :: "permissions \<Rightarrow> permissions" where
  "as_room_owner p = \<lparr>tier = tier p, owns = Some PrivateRoom\<rparr>"

definition as_stream_owner :: "permissions \<Rightarrow> permissions" where
  "as_stream_owner p = \<lparr>tier = tier p, owns = Some StreamRoom\<rparr>"

definition is_admin :: "permissions \<Rightarrow> bool" where
  "is_admin p \<longleftrightarrow> tier p = Admin"

definition is_moderator :: "permissions \<Rightarrow> bool" where
  "is_moderator p \<longleftrightarrow> tier p = Moderator"

definition can_moderate :: "permissions \<Rightarrow> bool" where
  "can_moderate p \<longleftrightarrow> tier p = Moderator \<or> tier p = Admin"

definition caps_of :: "permissions \<Rightarrow> caps" where
  "caps_of p =
     (let base = (case tier p of Regular \<Rightarrow> REGULAR | Moderator \<Rightarrow> MODERATOR | Admin \<Rightarrow> ADMIN)
      in case owns p of Some o' \<Rightarrow> base OR owner_caps o' | None \<Rightarrow> base)"

definition has :: "permissions \<Rightarrow> caps \<Rightarrow> bool" where
  "has p action \<longleftrightarrow> contains (caps_of p) action"

definition can_access_admin_surface :: "permissions \<Rightarrow> bool" where
  "can_access_admin_surface p \<longleftrightarrow> is_admin p"

definition can_access_mod_surface :: "permissions \<Rightarrow> bool" where
  "can_access_mod_surface p \<longleftrightarrow> has p (cap OPEN_MOD_SURFACE)"

definition can_manage_permanent_rooms :: "permissions \<Rightarrow> bool" where
  "can_manage_permanent_rooms p \<longleftrightarrow> is_admin p"

definition can_post_announcements :: "permissions \<Rightarrow> bool" where
  "can_post_announcements p \<longleftrightarrow> is_admin p"

definition can_edit_message :: "permissions \<Rightarrow> bool \<Rightarrow> bool" where
  "can_edit_message p is_owner \<longleftrightarrow> is_owner \<or> has p (cap EDIT_OTHER_MESSAGE)"

definition can_delete_message :: "permissions \<Rightarrow> bool \<Rightarrow> bool" where
  "can_delete_message p is_owner \<longleftrightarrow> is_owner \<or> has p (cap DELETE_OTHER_MESSAGE)"

definition can_delete_article :: "permissions \<Rightarrow> bool \<Rightarrow> bool" where
  "can_delete_article p is_owner \<longleftrightarrow> is_owner \<or> has p (cap DELETE_OTHER_MESSAGE)"

definition can_delete_audio_track :: "permissions \<Rightarrow> bool \<Rightarrow> bool" where
  "can_delete_audio_track p is_owner \<longleftrightarrow> is_owner \<or> has p (cap DELETE_AUDIO_TRACK)"

definition can :: "permissions \<Rightarrow> caps \<Rightarrow> tier \<Rightarrow> bool" where
  "can p action target =
     (if \<not> has p action then False
      else if tier p > target then True
      else (case owns p of
              Some o' \<Rightarrow> target = Regular \<and> contains (owner_caps o') action
            | None \<Rightarrow> False))"

definition should_audit :: "permissions \<Rightarrow> bool \<Rightarrow> bool" where
  "should_audit p target_is_self \<longleftrightarrow> \<not> target_is_self \<and> (can_moderate p \<or> owns p \<noteq> None)"

section \<open>Facts about the flags\<close>

lemma contains_bit: "contains bits action \<longleftrightarrow> (\<forall>n. bit action n \<longrightarrow> bit bits n)"
proof
  assume "contains bits action"
  then have "bit (bits AND action) n = bit action n" for n by (simp only: contains_def)
  then show "\<forall>n. bit action n \<longrightarrow> bit bits n" unfolding bit_and_iff by blast
next
  assume "\<forall>n. bit action n \<longrightarrow> bit bits n"
  then show "contains bits action"
    unfolding contains_def by (intro bit_word_eqI) (auto simp: bit_and_iff)
qed

lemma contains_mono: "contains big small \<Longrightarrow> contains small action \<Longrightarrow> contains big action"
  by (simp add: contains_bit)

lemma contains_OR1: "contains a action \<Longrightarrow> contains (a OR b) action"
  by (simp add: contains_bit bit_or_iff)

lemma contains_OR_mono: "contains a b \<Longrightarrow> contains (a OR c) (b OR c)"
  by (auto simp: contains_bit bit_or_iff)

lemma contains_OR_left: "contains (a OR b) a"
  by (simp add: contains_bit bit_or_iff)

lemma contains_OR_right: "contains (a OR b) b"
  by (simp add: contains_bit bit_or_iff)

lemma contains_caps_union: "c \<in> set cs \<Longrightarrow> contains (caps_union cs) (cap c)"
  by (induction cs) (auto intro: contains_OR_left contains_mono [OF contains_OR_right])

lemma caps_union_mono: "set cs \<subseteq> set ds \<Longrightarrow> contains (caps_union ds) (caps_union cs)"
proof (induction cs)
  case Nil
  then show ?case by (simp add: contains_def)
next
  case (Cons c cs)
  then have "contains (caps_union ds) (cap c)" and "contains (caps_union ds) (caps_union cs)"
    by (auto intro: contains_caps_union)
  then show ?case by (auto simp: contains_bit bit_or_iff)
qed

lemma MODERATOR_value: "MODERATOR = 0x7FEFE77F"
  by (simp add: MODERATOR_def)

lemma ADMIN_value: "ADMIN = 0x7FEFFFFF"
  by (simp add: ADMIN_def)

lemma ADMIN_contains_MODERATOR: "contains ADMIN MODERATOR"
  unfolding ADMIN_def MODERATOR_def by (rule caps_union_mono) simp

lemma MODERATOR_contains_owner: "contains MODERATOR (owner_caps o')"
  by (cases o') (simp_all add: MODERATOR_value ROOM_OWNER_def STREAM_OWNER_def contains_def)

lemmas caps_values =
  has_def caps_of_def contains_def MODERATOR_value ADMIN_value REGULAR_def ROOM_OWNER_def STREAM_OWNER_def

lemma owns_cases [case_names None Private Stream]:
  assumes "o' = None \<Longrightarrow> P" and "o' = Some PrivateRoom \<Longrightarrow> P" and "o' = Some StreamRoom \<Longrightarrow> P"
  shows P
  using assms by (cases o') (auto intro: ownership.exhaust)

section \<open>Properties\<close>

lemma has_tier_mono:
  assumes "tier p \<le> tier q" and "owns p = owns q" and "has p action"
  shows "has q action"
proof -
  have "contains (caps_of q) (caps_of p)"
    using assms(1,2) ADMIN_contains_MODERATOR
    by (cases "tier p"; cases "tier q")
      (auto simp: caps_of_def REGULAR_def less_eq_tier_def contains_bit bit_or_iff split: option.splits)
  with assms(3) show ?thesis by (auto simp: has_def intro: contains_mono)
qed

text \<open>
  C7. Nobody acts upwards or sideways: an action is allowed only against a strictly lower tier, or,
  for an actor of no staff tier who owns the room, against a regular user and only with the
  capabilities that ownership itself grants.
\<close>

theorem can_only_below:
  "can p action target \<Longrightarrow>
     target < tier p \<or>
     (target = Regular \<and> tier p = Regular \<and>
      (\<exists>o'. owns p = Some o' \<and> contains (owner_caps o') action))"
  by (cases "tier p"; cases target)
    (auto simp: can_def less_tier_def split: option.splits if_splits)

theorem can_only_below_witness:
  "can (as_room_owner (new_permissions False False)) (cap KICK_FROM_ROOM) Regular \<and>
   (Regular < tier (as_room_owner (new_permissions False False)) \<or>
    (Regular = Regular \<and> tier (as_room_owner (new_permissions False False)) = Regular \<and>
     (\<exists>o'. owns (as_room_owner (new_permissions False False)) = Some o' \<and>
        contains (owner_caps o') (cap KICK_FROM_ROOM))))"
proof -
  have "can (as_room_owner (new_permissions False False)) (cap KICK_FROM_ROOM) Regular"
    by (simp add: can_def as_room_owner_def new_permissions_def from_user_flags_def has_def
        caps_of_def contains_def REGULAR_def ROOM_OWNER_def less_tier_def)
  then show ?thesis using can_only_below by blast
qed

text \<open>
  C8. The capability matrix: an admin holds every declared capability, a moderator every one except
  permanent bans and the granting and revoking of moderators, and a regular user exactly what room
  ownership grants.
\<close>

theorem capability_matrix:
  "has \<lparr>tier = t, owns = o'\<rparr> (cap c) =
     (case t of
        Admin \<Rightarrow> True
      | Moderator \<Rightarrow> c \<noteq> PERMA_BAN_USER \<and> c \<noteq> GRANT_MOD \<and> c \<noteq> REVOKE_MOD
      | Regular \<Rightarrow>
          (case o' of
             None \<Rightarrow> False
           | Some PrivateRoom \<Rightarrow> c = KICK_FROM_ROOM
           | Some StreamRoom \<Rightarrow> c = KICK_FROM_ROOM \<or> c = BAN_FROM_ROOM \<or> c = UNBAN_FROM_ROOM))"
proof (cases o' rule: owns_cases)
  case None
  then show ?thesis by (cases t; cases c) (simp_all add: caps_values)
next
  case Private
  then show ?thesis by (cases t; cases c) (simp_all add: caps_values)
next
  case Stream
  then show ?thesis by (cases t; cases c) (simp_all add: caps_values)
qed

text \<open>
  Authority grows with the tier: whatever an actor may do against a target, an actor of the same
  ownership and a tier at least as high may do too.
\<close>

theorem can_tier_mono:
  assumes "tier p \<le> tier q" and "owns p = owns q" and "can p action target"
  shows "can q action target"
  using assms has_tier_mono [OF assms(1,2), of action]
  by (auto simp: can_def split: option.splits if_splits)

theorem can_tier_mono_witness:
  "tier (new_permissions False True) \<le> tier (new_permissions True False) \<and>
   can (new_permissions False True) (cap KICK_USER) Regular \<and>
   can (new_permissions True False) (cap KICK_USER) Regular"
proof -
  have 1: "tier (new_permissions False True) \<le> tier (new_permissions True False)"
    and 2: "owns (new_permissions False True) = owns (new_permissions True False)"
    by (simp_all add: new_permissions_def from_user_flags_def less_eq_tier_def)
  have 3: "can (new_permissions False True) (cap KICK_USER) Regular"
    by (simp add: can_def new_permissions_def from_user_flags_def has_def caps_of_def contains_def
        MODERATOR_value less_tier_def)
  from can_tier_mono [OF 1 2 3] 1 3 show ?thesis by blast
qed

end
