(* ===== verification/ChipMove.thy ===== *)
theory ChipMove
  imports Prelude
begin

text \<open>
  The roster of chip moves (\<open>late-core/src/models/chips.rs\<close>): every way chips move, with the persisted
  ledger reason, the source kind, the direction and its floor guard, and whether the move counts
  toward the monthly leaderboard; and the puzzle difficulty tiers of the same file.
\<close>

section \<open>Constants and difficulty tiers\<close>

definition CHIP_FLOOR :: int where "CHIP_FLOOR = 100"
definition INITIAL_CHIP_BALANCE :: int where "INITIAL_CHIP_BALANCE = 1000"
definition PROFILE_LEDGER_ROWS :: int where "PROFILE_LEDGER_ROWS = 100"

datatype difficulty = Easy | Medium | Hard

definition DIFFICULTIES :: "difficulty list" where
  "DIFFICULTIES = [Easy, Medium, Hard]"

primrec difficulty_key :: "difficulty \<Rightarrow> string" where
  "difficulty_key Easy = ''easy''"
| "difficulty_key Medium = ''medium''"
| "difficulty_key Hard = ''hard''"

primrec difficulty_chips :: "difficulty \<Rightarrow> int" where
  "difficulty_chips Easy = 100"
| "difficulty_chips Medium = 250"
| "difficulty_chips Hard = 500"

primrec difficulty_points :: "difficulty \<Rightarrow> int" where
  "difficulty_points Easy = 1"
| "difficulty_points Medium = 3"
| "difficulty_points Hard = 5"

section \<open>Chip moves\<close>

datatype (plugins only: code) chip_move =
  LegacyTableCredit | LegacyTableDebit | BlackjackBet | BlackjackPayout | PokerBet |
  PokerPayout | BonsaiWatered | PetFed | AquariumFed | PetPetted | FloorRestore | GiftSent |
  GiftReceived | InitialBalance | GildSent | GildReceived | CrownTaken | PotTicket | PotWon |
  NewsShared | ArtboardPrize | SongQueued | RoundPurchase | DrinkGift | DrinkPurchase |
  ShopPurchase | QuestReward | DailyQuestStreakReward | DailyPuzzleWin | AsterionEscape |
  DailyChessWin | DailyChess960Win | DailyBattleshipWin | DailyConnectFourWin |
  DailyReversiWin | DailyCheckersWin | DailyBackgammonWin | DailyBriscolaWin |
  DailyCribbageWin | DailyGinWin | DailyEightBallWin | DailyNineBallWin | DailySnookerWin |
  RealmConquest | TronWin | SsnakeArenaEarned | SsnakeArenaLost | GreendragonDragonSlain |
  DarkroomEscape | DarkroomBeaconEscape | NethackAmuletAcquired | NethackAscension |
  DcssOrbFound | DcssOrbEscape | BrogueEscape | BrogueMastery | LateaniaArchdemonDefeat |
  LateaniaFrontierKingDefeat | LateaniaSunderingDeepDefeat | LateaniaKaethyrAscendantDefeat |
  OldSignalSlain | ReferralReward | ReferralWelcome

definition CHIP_MOVES :: "chip_move list" where
  "CHIP_MOVES =
    [LegacyTableCredit, LegacyTableDebit, BlackjackBet, BlackjackPayout, PokerBet, PokerPayout,
    BonsaiWatered, PetFed, AquariumFed, PetPetted, FloorRestore, GiftSent, GiftReceived,
    InitialBalance, GildSent, GildReceived, CrownTaken, PotTicket, PotWon, NewsShared,
    ArtboardPrize, SongQueued, RoundPurchase, DrinkGift, DrinkPurchase, ShopPurchase,
    QuestReward, DailyQuestStreakReward, DailyPuzzleWin, AsterionEscape, DailyChessWin,
    DailyChess960Win, DailyBattleshipWin, DailyConnectFourWin, DailyReversiWin,
    DailyCheckersWin, DailyBackgammonWin, DailyBriscolaWin, DailyCribbageWin, DailyGinWin,
    DailyEightBallWin, DailyNineBallWin, DailySnookerWin, RealmConquest, TronWin,
    SsnakeArenaEarned, SsnakeArenaLost, GreendragonDragonSlain, DarkroomEscape,
    DarkroomBeaconEscape, NethackAmuletAcquired, NethackAscension, DcssOrbFound, DcssOrbEscape,
    BrogueEscape, BrogueMastery, LateaniaArchdemonDefeat, LateaniaFrontierKingDefeat,
    LateaniaSunderingDeepDefeat, LateaniaKaethyrAscendantDefeat, OldSignalSlain,
    ReferralReward, ReferralWelcome]"

primrec reason :: "chip_move \<Rightarrow> string" where
  "reason LegacyTableCredit = ''chip_credit''"
| "reason LegacyTableDebit = ''chip_debit''"
| "reason BlackjackBet = ''blackjack_bet''"
| "reason BlackjackPayout = ''blackjack_payout''"
| "reason PokerBet = ''poker_bet''"
| "reason PokerPayout = ''poker_payout''"
| "reason BonsaiWatered = ''bonsai_watered''"
| "reason PetFed = ''pet_fed''"
| "reason AquariumFed = ''aquarium_fed''"
| "reason PetPetted = ''pet_petted''"
| "reason FloorRestore = ''floor_restore''"
| "reason GiftSent = ''chip_gift_sent''"
| "reason GiftReceived = ''chip_gift_received''"
| "reason InitialBalance = ''initial_balance''"
| "reason GildSent = ''chip_gild_sent''"
| "reason GildReceived = ''chip_gild_received''"
| "reason CrownTaken = ''chip_crown_taken''"
| "reason PotTicket = ''pot_ticket''"
| "reason PotWon = ''pot_won''"
| "reason NewsShared = ''news_shared''"
| "reason ArtboardPrize = ''artboard_prize''"
| "reason SongQueued = ''song_queued''"
| "reason RoundPurchase = ''round_purchase''"
| "reason DrinkGift = ''drink_gift''"
| "reason DrinkPurchase = ''drink_purchase''"
| "reason ShopPurchase = ''shop_purchase''"
| "reason QuestReward = ''quest_reward''"
| "reason DailyQuestStreakReward = ''daily_quest_streak_reward''"
| "reason DailyPuzzleWin = ''daily_puzzle_win''"
| "reason AsterionEscape = ''asterion_escape''"
| "reason DailyChessWin = ''daily_chess_win''"
| "reason DailyChess960Win = ''daily_chess960_win''"
| "reason DailyBattleshipWin = ''daily_battleship_win''"
| "reason DailyConnectFourWin = ''daily_connect4_win''"
| "reason DailyReversiWin = ''daily_reversi_win''"
| "reason DailyCheckersWin = ''daily_checkers_win''"
| "reason DailyBackgammonWin = ''daily_backgammon_win''"
| "reason DailyBriscolaWin = ''daily_briscola_win''"
| "reason DailyCribbageWin = ''daily_cribbage_win''"
| "reason DailyGinWin = ''daily_gin_win''"
| "reason DailyEightBallWin = ''daily_eightball_win''"
| "reason DailyNineBallWin = ''daily_nineball_win''"
| "reason DailySnookerWin = ''daily_snooker_win''"
| "reason RealmConquest = ''realm_conquest''"
| "reason TronWin = ''tron_win''"
| "reason SsnakeArenaEarned = ''ssnake_arena_earned''"
| "reason SsnakeArenaLost = ''ssnake_arena_lost''"
| "reason GreendragonDragonSlain = ''greendragon_dragon_slain''"
| "reason DarkroomEscape = ''darkroom_escape''"
| "reason DarkroomBeaconEscape = ''darkroom_beacon_escape''"
| "reason NethackAmuletAcquired = ''nethack_amulet_acquired''"
| "reason NethackAscension = ''nethack_ascension''"
| "reason DcssOrbFound = ''dcss_orb_found''"
| "reason DcssOrbEscape = ''dcss_orb_escape''"
| "reason BrogueEscape = ''brogue_escape''"
| "reason BrogueMastery = ''brogue_mastery''"
| "reason LateaniaArchdemonDefeat = ''lateania_archdemon_defeat''"
| "reason LateaniaFrontierKingDefeat = ''lateania_frontier_king_defeat''"
| "reason LateaniaSunderingDeepDefeat = ''lateania_sundering_deep_defeat''"
| "reason LateaniaKaethyrAscendantDefeat = ''lateania_kaethyr_ascendant_defeat''"
| "reason OldSignalSlain = ''old_signal_slain''"
| "reason ReferralReward = ''referral_reward''"
| "reason ReferralWelcome = ''referral_welcome''"

primrec source_kind :: "chip_move \<Rightarrow> string" where
  "source_kind LegacyTableCredit = ''user_chips''"
| "source_kind LegacyTableDebit = ''user_chips''"
| "source_kind BlackjackBet = ''blackjack_rounds''"
| "source_kind BlackjackPayout = ''blackjack_rounds''"
| "source_kind PokerBet = ''poker_hands''"
| "source_kind PokerPayout = ''poker_hands''"
| "source_kind BonsaiWatered = ''bonsai_trees''"
| "source_kind PetFed = ''pet_companions''"
| "source_kind AquariumFed = ''user_aquarium_care''"
| "source_kind PetPetted = ''pet_companions''"
| "source_kind FloorRestore = ''house_rounds''"
| "source_kind GiftSent = ''users''"
| "source_kind GiftReceived = ''users''"
| "source_kind InitialBalance = ''users''"
| "source_kind GildSent = ''chat_message_gilds''"
| "source_kind GildReceived = ''chat_message_gilds''"
| "source_kind CrownTaken = ''crown_reigns''"
| "source_kind PotTicket = ''pots''"
| "source_kind PotWon = ''pots''"
| "source_kind NewsShared = ''articles''"
| "source_kind ArtboardPrize = ''profile_awards''"
| "source_kind SongQueued = ''media_queue_items''"
| "source_kind RoundPurchase = ''drink_rounds''"
| "source_kind DrinkGift = ''drink_rounds''"
| "source_kind DrinkPurchase = ''bartender''"
| "source_kind ShopPurchase = ''marketplace_item''"
| "source_kind QuestReward = ''quest_assignment''"
| "source_kind DailyQuestStreakReward = ''daily_quest_streak''"
| "source_kind DailyPuzzleWin = ''game_payout_claims''"
| "source_kind AsterionEscape = ''game_payout_claims''"
| "source_kind DailyChessWin = ''game_payout_claims''"
| "source_kind DailyChess960Win = ''game_payout_claims''"
| "source_kind DailyBattleshipWin = ''game_payout_claims''"
| "source_kind DailyConnectFourWin = ''game_payout_claims''"
| "source_kind DailyReversiWin = ''game_payout_claims''"
| "source_kind DailyCheckersWin = ''game_payout_claims''"
| "source_kind DailyBackgammonWin = ''game_payout_claims''"
| "source_kind DailyBriscolaWin = ''game_payout_claims''"
| "source_kind DailyCribbageWin = ''game_payout_claims''"
| "source_kind DailyGinWin = ''game_payout_claims''"
| "source_kind DailyEightBallWin = ''game_payout_claims''"
| "source_kind DailyNineBallWin = ''game_payout_claims''"
| "source_kind DailySnookerWin = ''game_payout_claims''"
| "source_kind RealmConquest = ''game_payout_claims''"
| "source_kind TronWin = ''game_payout_claims''"
| "source_kind SsnakeArenaEarned = ''ssnake_visits''"
| "source_kind SsnakeArenaLost = ''ssnake_visits''"
| "source_kind GreendragonDragonSlain = ''game_payout_claims''"
| "source_kind DarkroomEscape = ''game_payout_claims''"
| "source_kind DarkroomBeaconEscape = ''game_payout_claims''"
| "source_kind NethackAmuletAcquired = ''game_payout_claims''"
| "source_kind NethackAscension = ''game_payout_claims''"
| "source_kind DcssOrbFound = ''game_payout_claims''"
| "source_kind DcssOrbEscape = ''game_payout_claims''"
| "source_kind BrogueEscape = ''game_payout_claims''"
| "source_kind BrogueMastery = ''game_payout_claims''"
| "source_kind LateaniaArchdemonDefeat = ''game_payout_claims''"
| "source_kind LateaniaFrontierKingDefeat = ''game_payout_claims''"
| "source_kind LateaniaSunderingDeepDefeat = ''game_payout_claims''"
| "source_kind LateaniaKaethyrAscendantDefeat = ''game_payout_claims''"
| "source_kind OldSignalSlain = ''game_payout_claims''"
| "source_kind ReferralReward = ''referrals''"
| "source_kind ReferralWelcome = ''referrals''"

text \<open>Which way a move touches the balance, and under what guard.\<close>

datatype chip_direction = Credit | Debit int | Restore | Retired

primrec direction :: "chip_move \<Rightarrow> chip_direction" where
  "direction LegacyTableCredit = Retired"
| "direction LegacyTableDebit = Retired"
| "direction BlackjackBet = Debit 0"
| "direction BlackjackPayout = Credit"
| "direction PokerBet = Debit 0"
| "direction PokerPayout = Credit"
| "direction BonsaiWatered = Credit"
| "direction PetFed = Credit"
| "direction AquariumFed = Credit"
| "direction PetPetted = Credit"
| "direction FloorRestore = Restore"
| "direction GiftSent = Debit CHIP_FLOOR"
| "direction GiftReceived = Credit"
| "direction InitialBalance = Credit"
| "direction GildSent = Debit CHIP_FLOOR"
| "direction GildReceived = Credit"
| "direction CrownTaken = Retired"
| "direction PotTicket = Debit CHIP_FLOOR"
| "direction PotWon = Credit"
| "direction NewsShared = Credit"
| "direction ArtboardPrize = Credit"
| "direction SongQueued = Credit"
| "direction RoundPurchase = Debit CHIP_FLOOR"
| "direction DrinkGift = Debit CHIP_FLOOR"
| "direction DrinkPurchase = Debit CHIP_FLOOR"
| "direction ShopPurchase = Debit 0"
| "direction QuestReward = Credit"
| "direction DailyQuestStreakReward = Credit"
| "direction DailyPuzzleWin = Credit"
| "direction AsterionEscape = Credit"
| "direction DailyChessWin = Credit"
| "direction DailyChess960Win = Credit"
| "direction DailyBattleshipWin = Credit"
| "direction DailyConnectFourWin = Credit"
| "direction DailyReversiWin = Credit"
| "direction DailyCheckersWin = Credit"
| "direction DailyBackgammonWin = Credit"
| "direction DailyBriscolaWin = Credit"
| "direction DailyCribbageWin = Credit"
| "direction DailyGinWin = Credit"
| "direction DailyEightBallWin = Credit"
| "direction DailyNineBallWin = Credit"
| "direction DailySnookerWin = Credit"
| "direction RealmConquest = Credit"
| "direction TronWin = Credit"
| "direction SsnakeArenaEarned = Credit"
| "direction SsnakeArenaLost = Debit 0"
| "direction GreendragonDragonSlain = Credit"
| "direction DarkroomEscape = Credit"
| "direction DarkroomBeaconEscape = Credit"
| "direction NethackAmuletAcquired = Credit"
| "direction NethackAscension = Credit"
| "direction DcssOrbFound = Credit"
| "direction DcssOrbEscape = Credit"
| "direction BrogueEscape = Credit"
| "direction BrogueMastery = Credit"
| "direction LateaniaArchdemonDefeat = Credit"
| "direction LateaniaFrontierKingDefeat = Credit"
| "direction LateaniaSunderingDeepDefeat = Credit"
| "direction LateaniaKaethyrAscendantDefeat = Credit"
| "direction OldSignalSlain = Credit"
| "direction ReferralReward = Credit"
| "direction ReferralWelcome = Credit"

primrec counts_as_earnings :: "chip_move \<Rightarrow> bool" where
  "counts_as_earnings LegacyTableCredit = False"
| "counts_as_earnings LegacyTableDebit = False"
| "counts_as_earnings BlackjackBet = False"
| "counts_as_earnings BlackjackPayout = False"
| "counts_as_earnings PokerBet = False"
| "counts_as_earnings PokerPayout = False"
| "counts_as_earnings BonsaiWatered = True"
| "counts_as_earnings PetFed = True"
| "counts_as_earnings AquariumFed = True"
| "counts_as_earnings PetPetted = True"
| "counts_as_earnings FloorRestore = False"
| "counts_as_earnings GiftSent = False"
| "counts_as_earnings GiftReceived = False"
| "counts_as_earnings InitialBalance = False"
| "counts_as_earnings GildSent = False"
| "counts_as_earnings GildReceived = True"
| "counts_as_earnings CrownTaken = False"
| "counts_as_earnings PotTicket = False"
| "counts_as_earnings PotWon = True"
| "counts_as_earnings NewsShared = True"
| "counts_as_earnings ArtboardPrize = False"
| "counts_as_earnings SongQueued = True"
| "counts_as_earnings RoundPurchase = False"
| "counts_as_earnings DrinkGift = False"
| "counts_as_earnings DrinkPurchase = False"
| "counts_as_earnings ShopPurchase = False"
| "counts_as_earnings QuestReward = True"
| "counts_as_earnings DailyQuestStreakReward = True"
| "counts_as_earnings DailyPuzzleWin = True"
| "counts_as_earnings AsterionEscape = True"
| "counts_as_earnings DailyChessWin = True"
| "counts_as_earnings DailyChess960Win = True"
| "counts_as_earnings DailyBattleshipWin = True"
| "counts_as_earnings DailyConnectFourWin = True"
| "counts_as_earnings DailyReversiWin = True"
| "counts_as_earnings DailyCheckersWin = True"
| "counts_as_earnings DailyBackgammonWin = True"
| "counts_as_earnings DailyBriscolaWin = True"
| "counts_as_earnings DailyCribbageWin = True"
| "counts_as_earnings DailyGinWin = True"
| "counts_as_earnings DailyEightBallWin = True"
| "counts_as_earnings DailyNineBallWin = True"
| "counts_as_earnings DailySnookerWin = True"
| "counts_as_earnings RealmConquest = True"
| "counts_as_earnings TronWin = True"
| "counts_as_earnings SsnakeArenaEarned = True"
| "counts_as_earnings SsnakeArenaLost = False"
| "counts_as_earnings GreendragonDragonSlain = True"
| "counts_as_earnings DarkroomEscape = True"
| "counts_as_earnings DarkroomBeaconEscape = True"
| "counts_as_earnings NethackAmuletAcquired = True"
| "counts_as_earnings NethackAscension = True"
| "counts_as_earnings DcssOrbFound = True"
| "counts_as_earnings DcssOrbEscape = True"
| "counts_as_earnings BrogueEscape = True"
| "counts_as_earnings BrogueMastery = True"
| "counts_as_earnings LateaniaArchdemonDefeat = True"
| "counts_as_earnings LateaniaFrontierKingDefeat = True"
| "counts_as_earnings LateaniaSunderingDeepDefeat = True"
| "counts_as_earnings LateaniaKaethyrAscendantDefeat = True"
| "counts_as_earnings OldSignalSlain = True"
| "counts_as_earnings ReferralReward = False"
| "counts_as_earnings ReferralWelcome = False"

section \<open>Reading the roster back\<close>

definition from_reason :: "string \<Rightarrow> chip_move option" where
  "from_reason s = find_code CHIP_MOVES reason s"

definition excluded_earning_reasons :: "string list" where
  "excluded_earning_reasons = map reason (filter (\<lambda>mv. \<not> counts_as_earnings mv) CHIP_MOVES)"

interpretation chip_table: code_table CHIP_MOVES reason
proof
  show "x \<in> set CHIP_MOVES" for x by (cases x) (simp_all add: CHIP_MOVES_def)
  show "distinct (map reason CHIP_MOVES)" by code_simp
qed

end
