(* ===== verification/ChipLedger.thy ===== *)
theory ChipLedger
  imports ChipMove
begin

text \<open>
  The chip accounts (\<open>UserChips\<close> in \<open>late-core/src/models/chips.rs\<close>). The two tables the statements
  read and write are explicit: \<open>user_chips\<close> is a map from user to row, \<open>chip_ledger\<close> the list of its
  rows in insertion order, \<open>db_users\<close> the users the foreign keys refer to and \<open>db_now\<close> the
  transaction clock behind \<open>current_timestamp\<close>. Each SQL statement is one atomic update; a statement
  that violates a foreign key or leaves the range of \<open>BIGINT\<close> fails and changes nothing. A call that
  fails returns no new state, since the transaction it runs in is rolled back. The printed form of a
  user id comes from the \<open>uuid\<close> crate and is the parameter \<open>us\<close>.
\<close>

section \<open>Tables\<close>

record user_chips =
  uc_balance :: int
  uc_last_stipend_date :: "int option"

record ledger_row =
  lr_user :: uuid
  lr_delta :: int
  lr_reason :: string
  lr_source_kind :: string
  lr_source_ref :: string
  lr_created_at :: int

record chip_db =
  db_users :: "uuid set"
  db_chips :: "uuid \<Rightarrow> user_chips option"
  db_ledger :: "ledger_row list"
  db_now :: int

record chip_entry =
  ce_delta :: int
  ce_reason :: string
  ce_source_ref :: string
  ce_created_at :: int

record month_chips =
  mc_earned :: int
  mc_net :: int

datatype chip_error =
  ChipAmountNotPositive | ChipSourceRefEmpty | ChipRestorePath | ChipRetired string
| ChipOutOfRange | ChipNoSuchUser | ChipSelfTransfer | ChipBadShare | ChipNoRow | ChipBadLimit

definition bigint :: "int \<Rightarrow> bool" where
  "bigint x \<longleftrightarrow> - (2 ^ 63) \<le> x \<and> x < 2 ^ 63"

section \<open>Statements\<close>

text \<open>\<open>INSERT INTO user_chips (user_id, balance)\<close>.\<close>

definition insert_chips :: "chip_db \<Rightarrow> uuid \<Rightarrow> int \<Rightarrow> (chip_error, chip_db) res" where
  "insert_chips db u b =
     ensure (u \<in> db_users db) ChipNoSuchUser
       (Ok (db\<lparr>db_chips := (db_chips db)(u \<mapsto> \<lparr>uc_balance = b, uc_last_stipend_date = None\<rparr>)\<rparr>))"

text \<open>\<open>UPDATE user_chips SET balance = b\<close> for one user.\<close>

definition update_chips :: "chip_db \<Rightarrow> uuid \<Rightarrow> user_chips \<Rightarrow> int \<Rightarrow> chip_db" where
  "update_chips db u row b = db\<lparr>db_chips := (db_chips db)(u \<mapsto> row\<lparr>uc_balance := b\<rparr>)\<rparr>"

text \<open>\<open>INSERT INTO chip_ledger (user_id, delta, reason, source_kind, source_ref)\<close>.\<close>

definition log_move :: "chip_db \<Rightarrow> uuid \<Rightarrow> int \<Rightarrow> chip_move \<Rightarrow> string \<Rightarrow> chip_db" where
  "log_move db u delta mv ref =
     db\<lparr>db_ledger := db_ledger db @
       [\<lparr>lr_user = u, lr_delta = delta, lr_reason = reason mv, lr_source_kind = source_kind mv,
         lr_source_ref = ref, lr_created_at = db_now db\<rparr>]\<rparr>"

text \<open>\<open>RETURNING *\<close>: the row as it now stands.\<close>

definition returning :: "chip_db \<Rightarrow> uuid \<Rightarrow> (chip_error, chip_db \<times> user_chips) res" where
  "returning db u = (case db_chips db u of None \<Rightarrow> Err ChipNoRow | Some row \<Rightarrow> Ok (db, row))"

section \<open>Operations\<close>

definition find_chips :: "chip_db \<Rightarrow> uuid \<Rightarrow> user_chips option" where
  "find_chips db u = db_chips db u"

definition ensure_in ::
  "(uuid \<Rightarrow> string) \<Rightarrow> chip_db \<Rightarrow> uuid \<Rightarrow> (chip_error, chip_db \<times> user_chips) res" where
  "ensure_in us db u =
     (case db_chips db u of
        Some row \<Rightarrow> Ok (db, row)
      | None \<Rightarrow>
          rbind (insert_chips db u INITIAL_CHIP_BALANCE) (\<lambda>db.
            returning (log_move db u INITIAL_CHIP_BALANCE InitialBalance (us u)) u))"

definition apply_chips ::
  "chip_db \<Rightarrow> uuid \<Rightarrow> chip_move \<Rightarrow> int \<Rightarrow> string \<Rightarrow> (chip_error, chip_db \<times> user_chips option) res" where
  "apply_chips db u mv amount ref =
     ensure (amount > 0) ChipAmountNotPositive
     (ensure (ref \<noteq> []) ChipSourceRefEmpty
     (case direction mv of
        Credit \<Rightarrow>
          rbind
            (case db_chips db u of
               None \<Rightarrow> insert_chips db u amount
             | Some row \<Rightarrow>
                 ensure (bigint (uc_balance row + amount)) ChipOutOfRange
                   (Ok (update_chips db u row (uc_balance row + amount))))
            (\<lambda>db'. rbind (returning (log_move db' u amount mv ref) u) (\<lambda>(db', row). Ok (db', Some row)))
      | Debit floor \<Rightarrow>
          (case db_chips db u of
             None \<Rightarrow> Ok (db, None)
           | Some row \<Rightarrow>
               ensure (bigint (uc_balance row - amount)) ChipOutOfRange
               (if uc_balance row - amount \<ge> floor
                then rbind (returning (log_move (update_chips db u row (uc_balance row - amount))
                                         u (- amount) mv ref) u)
                       (\<lambda>(db', row). Ok (db', Some row))
                else Ok (db, None)))
      | Restore \<Rightarrow> Err ChipRestorePath
      | Retired \<Rightarrow> Err (ChipRetired (reason mv))))"

definition admin_grant ::
  "(uuid \<Rightarrow> string) \<Rightarrow> chip_db \<Rightarrow> uuid \<Rightarrow> int \<Rightarrow> (chip_error, chip_db \<times> user_chips) res" where
  "admin_grant us db u amount =
     ensure (amount > 0) ChipAmountNotPositive
     (rbind (ensure_in us db u) (\<lambda>(db, row).
        ensure (bigint (uc_balance row + amount)) ChipOutOfRange
          (returning (update_chips db u row (uc_balance row + amount)) u)))"

definition restore_floor ::
  "chip_db \<Rightarrow> uuid \<Rightarrow> string \<Rightarrow> (chip_error, chip_db \<times> user_chips) res" where
  "restore_floor db u ref =
     ensure (ref \<noteq> []) ChipSourceRefEmpty
     (let prior = map_option uc_balance (db_chips db u);
          gap = CHIP_FLOOR - (case prior of None \<Rightarrow> CHIP_FLOOR | Some b \<Rightarrow> b);
          delta = max gap 0
      in ensure (bigint gap) ChipOutOfRange
         (rbind
            (case db_chips db u of
               None \<Rightarrow> insert_chips db u CHIP_FLOOR
             | Some row \<Rightarrow> Ok (update_chips db u row (max (uc_balance row) CHIP_FLOOR)))
            (\<lambda>db'. returning (if delta > 0 then log_move db' u delta FloorRestore ref else db') u)))"

definition transfer_gift ::
  "(uuid \<Rightarrow> string) \<Rightarrow> chip_db \<Rightarrow> uuid \<Rightarrow> uuid \<Rightarrow> int \<Rightarrow>
     (chip_error, chip_db \<times> (user_chips \<times> user_chips) option) res" where
  "transfer_gift us db sender_id recipient_id amount =
     ensure (amount > 0) ChipAmountNotPositive
     (ensure (sender_id \<noteq> recipient_id) ChipSelfTransfer
     (rbind (ensure_in us db sender_id) (\<lambda>(db, _).
      rbind (ensure_in us db recipient_id) (\<lambda>(db, _).
      rbind (apply_chips db sender_id GiftSent amount (us recipient_id)) (\<lambda>(db, sender).
        case sender of
          None \<Rightarrow> Ok (db, None)
        | Some sender \<Rightarrow>
            rbind (apply_chips db recipient_id GiftReceived amount (us sender_id)) (\<lambda>(db, recipient).
              case recipient of
                None \<Rightarrow> Err ChipNoRow
              | Some recipient \<Rightarrow> Ok (db, Some (sender, recipient))))))))"

definition transfer_gild ::
  "(uuid \<Rightarrow> string) \<Rightarrow> chip_db \<Rightarrow> uuid \<Rightarrow> uuid \<Rightarrow> int \<Rightarrow> int \<Rightarrow> uuid \<Rightarrow>
     (chip_error, chip_db \<times> (user_chips \<times> user_chips) option) res" where
  "transfer_gild us db sender_id author_id price author_share gild_id =
     ensure (price > 0) ChipAmountNotPositive
     (ensure (author_share > 0 \<and> author_share < price) ChipBadShare
     (ensure (sender_id \<noteq> author_id) ChipSelfTransfer
     (rbind (ensure_in us db sender_id) (\<lambda>(db, _).
      rbind (ensure_in us db author_id) (\<lambda>(db, _).
      rbind (apply_chips db sender_id GildSent price (us gild_id)) (\<lambda>(db, sender).
        case sender of
          None \<Rightarrow> Ok (db, None)
        | Some sender \<Rightarrow>
            rbind (apply_chips db author_id GildReceived author_share (us gild_id)) (\<lambda>(db, author).
              case author of
                None \<Rightarrow> Err ChipNoRow
              | Some author \<Rightarrow> Ok (db, Some (sender, author)))))))))"

text \<open>The newest rows of one user: newest first, rows of the same instant by descending id, which
  is insertion order.\<close>

definition recent_ledger :: "chip_db \<Rightarrow> uuid \<Rightarrow> int \<Rightarrow> (chip_error, chip_entry list) res" where
  "recent_ledger db u limit =
     ensure (limit \<ge> 0) ChipBadLimit
       (Ok (map (\<lambda>r. \<lparr>ce_delta = lr_delta r, ce_reason = lr_reason r,
                       ce_source_ref = lr_source_ref r, ce_created_at = lr_created_at r\<rparr>)
              (take (nat limit)
                (sort_key (\<lambda>r. - lr_created_at r) (rev (filter (\<lambda>r. lr_user r = u) (db_ledger db)))))))"

definition entry_chip_move :: "chip_entry \<Rightarrow> chip_move option" where
  "entry_chip_move e = from_reason (ce_reason e)"

definition sum_delta :: "(ledger_row \<Rightarrow> bool) \<Rightarrow> chip_db \<Rightarrow> int" where
  "sum_delta p db = sum_list (map lr_delta (filter p (db_ledger db)))"

text \<open>The two sums of this month; \<open>month_start\<close> is the instant \<open>MONTH_TS_FILTER\<close> computes.\<close>

definition month_figures :: "chip_db \<Rightarrow> int \<Rightarrow> uuid \<Rightarrow> (chip_error, month_chips) res" where
  "month_figures db month_start u =
     (let row = (\<lambda>r. lr_user r = u \<and> lr_created_at r \<ge> month_start);
          earned = sum_delta (\<lambda>r. row r \<and> lr_reason r \<notin> set excluded_earning_reasons) db;
          net = sum_delta row db
      in ensure (bigint earned \<and> bigint net) ChipOutOfRange (Ok \<lparr>mc_earned = earned, mc_net = net\<rparr>))"

definition all_balances :: "chip_db \<Rightarrow> uuid \<Rightarrow> int option" where
  "all_balances db = (\<lambda>u. map_option uc_balance (db_chips db u))"

section \<open>Postings\<close>

definition held :: "chip_db \<Rightarrow> uuid \<Rightarrow> int" where
  "held db u = (case db_chips db u of None \<Rightarrow> 0 | Some row \<Rightarrow> uc_balance row)"

definition ledger_sum :: "chip_db \<Rightarrow> uuid \<Rightarrow> int" where
  "ledger_sum db u = sum_delta (\<lambda>r. lr_user r = u) db"

text \<open>The effect every successful move comes down to: one balance changes by \<open>d\<close> and one ledger row
  with that \<open>d\<close> is appended.\<close>

definition posted ::
  "chip_db \<Rightarrow> chip_db \<Rightarrow> uuid \<Rightarrow> int \<Rightarrow> chip_move \<Rightarrow> string \<Rightarrow> user_chips \<Rightarrow> bool" where
  "posted db db' u d mv ref row \<longleftrightarrow>
     db' = log_move (db\<lparr>db_chips := (db_chips db)(u \<mapsto> row)\<rparr>) u d mv ref \<and>
     uc_balance row = held db u + d"

text \<open>The sign a ledger row of each move carries.\<close>

definition signed_for :: "chip_move \<Rightarrow> int \<Rightarrow> bool" where
  "signed_for mv d \<longleftrightarrow>
     (case direction mv of Credit \<Rightarrow> d > 0 | Debit _ \<Rightarrow> d < 0 | Restore \<Rightarrow> d > 0 | Retired \<Rightarrow> False)"

lemma posted_held: "posted db db' u d mv ref row \<Longrightarrow> held db' = (held db)(u := held db u + d)"
  by (rule ext) (auto simp: posted_def log_move_def held_def)

lemma posted_ledger_sum:
  "posted db db' u d mv ref row \<Longrightarrow> ledger_sum db' = (ledger_sum db)(u := ledger_sum db u + d)"
  by (rule ext) (auto simp: posted_def log_move_def ledger_sum_def sum_delta_def)

lemma posted_row: "posted db db' u d mv ref row \<Longrightarrow> db_chips db' u = Some row"
  by (simp add: posted_def log_move_def)

lemma posted_rows:
  "posted db db' u d mv ref row \<Longrightarrow> r \<in> set (db_ledger db') \<longleftrightarrow>
     r \<in> set (db_ledger db) \<or>
     r = \<lparr>lr_user = u, lr_delta = d, lr_reason = reason mv, lr_source_kind = source_kind mv,
          lr_source_ref = ref, lr_created_at = db_now db\<rparr>"
  by (auto simp: posted_def log_move_def)

lemma returning_Ok: "returning db u = Ok (db', row) \<longleftrightarrow> db' = db \<and> db_chips db u = Some row"
  by (auto simp: returning_def split: option.splits)

lemma ensure_in_Ok:
  "ensure_in us db u = Ok (db', row) \<Longrightarrow>
     (db' = db \<and> db_chips db u = Some row) \<or>
     (db_chips db u = None \<and> posted db db' u INITIAL_CHIP_BALANCE InitialBalance (us u) row)"
  by (auto simp: ensure_in_def insert_chips_def res_simps returning_Ok posted_def log_move_def held_def
      split: option.splits)

lemma apply_Some:
  assumes "apply_chips db u mv amount ref = Ok (db', Some row)"
  shows "amount > 0 \<and> ref \<noteq> [] \<and>
    ((direction mv = Credit \<and> posted db db' u amount mv ref row) \<or>
     (\<exists>floor. direction mv = Debit floor \<and> posted db db' u (- amount) mv ref row \<and>
        uc_balance row \<ge> floor \<and> db_chips db u \<noteq> None))"
  using assms
  by (auto simp: apply_chips_def insert_chips_def update_chips_def res_simps returning_Ok posted_def
      log_move_def held_def split: option.splits chip_direction.splits if_splits)

lemma apply_None:
  assumes "apply_chips db u mv amount ref = Ok (db', None)"
  shows "db' = db \<and> (\<exists>floor. direction mv = Debit floor \<and>
           (db_chips db u = None \<or> held db u - amount < floor))"
  using assms
  by (auto simp: apply_chips_def res_simps returning_Ok held_def
      split: option.splits chip_direction.splits if_splits)

lemma restore_Ok:
  assumes "restore_floor db u ref = Ok (db', row)" and "db_chips db u \<noteq> None"
  shows "(db' = db \<and> CHIP_FLOOR \<le> held db u) \<or>
         (held db u < CHIP_FLOOR \<and> posted db db' u (CHIP_FLOOR - held db u) FloorRestore ref row)"
proof -
  from assms(2) obtain r where r: "db_chips db u = Some r" by blast
  have triv: "db\<lparr>db_chips := (db_chips db)(u \<mapsto> r)\<rparr> = db"
    using r fun_upd_triv [of "db_chips db" u] by simp
  from assms(1) r triv show ?thesis
    by (auto simp: restore_floor_def update_chips_def res_simps returning_Ok posted_def log_move_def
        held_def Let_def max_def split: if_splits)
qed

text \<open>One posting, by a move that may be written, that leaves a debited account nonnegative.\<close>

definition posting :: "chip_db \<Rightarrow> chip_db \<Rightarrow> bool" where
  "posting db db' \<longleftrightarrow>
     (\<exists>u d mv ref row. posted db db' u d mv ref row \<and> signed_for mv d \<and> (d < 0 \<longrightarrow> 0 \<le> uc_balance row))"

lemma postingI:
  "posted db db' u d mv ref row \<Longrightarrow> signed_for mv d \<Longrightarrow> (d < 0 \<Longrightarrow> 0 \<le> uc_balance row) \<Longrightarrow> posting db db'"
  unfolding posting_def by blast

lemma debit_floors: "direction mv = Debit floor \<Longrightarrow> 0 \<le> floor"
  by (cases mv) (auto simp: CHIP_FLOOR_def)

lemma ensure_in_posting: "ensure_in us db u = Ok (db', row) \<Longrightarrow> posting\<^sup>*\<^sup>* db db'"
proof (drule ensure_in_Ok, elim disjE conjE)
  assume "posted db db' u INITIAL_CHIP_BALANCE InitialBalance (us u) row"
  moreover have "signed_for InitialBalance INITIAL_CHIP_BALANCE"
    by (simp add: signed_for_def INITIAL_CHIP_BALANCE_def)
  ultimately have "posting db db'" by (rule postingI) (simp add: INITIAL_CHIP_BALANCE_def)
  then show ?thesis by (rule r_into_rtranclp)
qed simp

lemma apply_posting: "apply_chips db u mv amount ref = Ok (db', out) \<Longrightarrow> posting\<^sup>*\<^sup>* db db'"
proof (cases out)
  case None
  then show "apply_chips db u mv amount ref = Ok (db', out) \<Longrightarrow> posting\<^sup>*\<^sup>* db db'" by (auto dest: apply_None)
next
  case (Some row)
  assume "apply_chips db u mv amount ref = Ok (db', out)"
  from apply_Some [OF this [unfolded Some]] have "posting db db'"
    unfolding posting_def signed_for_def using debit_floors by fastforce
  then show ?thesis by (rule r_into_rtranclp)
qed

lemma restore_posting:
  assumes "restore_floor db u ref = Ok (db', row)" and "db_chips db u \<noteq> None"
  shows "posting\<^sup>*\<^sup>* db db'"
proof -
  have "signed_for FloorRestore (CHIP_FLOOR - held db u)" if "held db u < CHIP_FLOOR"
    using that by (simp add: signed_for_def)
  with restore_Ok [OF assms] have "db' = db \<or> posting db db'"
    unfolding posting_def by fastforce
  then show ?thesis by auto
qed

lemma transfer_gift_posting: "transfer_gift us db a b n = Ok (db', out) \<Longrightarrow> posting\<^sup>*\<^sup>* db db'"
  by (auto simp: transfer_gift_def res_simps split: option.splits
      dest!: ensure_in_posting apply_posting) (meson rtranclp_trans)+

lemma transfer_gild_posting: "transfer_gild us db a b n m g = Ok (db', out) \<Longrightarrow> posting\<^sup>*\<^sup>* db db'"
  by (auto simp: transfer_gild_def res_simps split: option.splits
      dest!: ensure_in_posting apply_posting) (meson rtranclp_trans)+

section \<open>The books\<close>

text \<open>What holds of the two tables: every balance is the sum of its user's ledger rows and is not
  negative, and every ledger row was written by a move that may still be written, under its reason
  and source kind and with the sign of its direction.\<close>

definition books :: "chip_db \<Rightarrow> bool" where
  "books db \<longleftrightarrow>
     (\<forall>u. held db u = ledger_sum db u \<and> 0 \<le> held db u) \<and>
     (\<forall>r \<in> set (db_ledger db). \<exists>mv. lr_reason r = reason mv \<and> lr_source_kind r = source_kind mv \<and>
        signed_for mv (lr_delta r))"

lemma posting_books:
  assumes "books db" and "posting db db'"
  shows "books db'"
proof -
  from assms(2) obtain u d mv ref row where
    p: "posted db db' u d mv ref row" "signed_for mv d" "d < 0 \<longrightarrow> 0 \<le> uc_balance row"
    unfolding posting_def by blast
  have "0 \<le> held db u" using assms(1) unfolding books_def by blast
  then have "0 \<le> held db u + d"
    using p(1,3) by (cases "d < 0") (auto simp: posted_def)
  moreover have "\<exists>mv. lr_reason r = reason mv \<and> lr_source_kind r = source_kind mv \<and> signed_for mv (lr_delta r)"
    if "r \<in> set (db_ledger db')" for r
    using that p(2) assms(1) unfolding posted_rows [OF p(1)] books_def by auto
  moreover have "held db v = ledger_sum db v" "0 \<le> held db v" for v
    using assms(1) unfolding books_def by blast+
  ultimately show ?thesis
    unfolding books_def by (metis (mono_tags, lifting) fun_upd_apply posted_held [OF p(1)] posted_ledger_sum [OF p(1)])
qed

lemma postings_books: "posting\<^sup>*\<^sup>* db db' \<Longrightarrow> books db \<Longrightarrow> books db'"
  by (induction rule: rtranclp_induct) (auto intro: posting_books)

lemma posting_keeps_rows: "posting db db' \<Longrightarrow> db_chips db u \<noteq> None \<Longrightarrow> db_chips db' u \<noteq> None"
  by (auto simp: posting_def posted_def log_move_def)

text \<open>
  The calls of the API as steps of the database. A restore is a step only on an account that exists,
  which is how the house tables call it after a settlement; \<open>admin_grant\<close> is not a step, since it is
  the one call documented to move a balance off the ledger. Signups and the passing of time are the
  environment.
\<close>

inductive chip_step :: "(uuid \<Rightarrow> string) \<Rightarrow> chip_db \<Rightarrow> chip_db \<Rightarrow> bool" for us where
  signup: "chip_step us db (db\<lparr>db_users := insert u (db_users db)\<rparr>)"
| tick: "t \<ge> db_now db \<Longrightarrow> chip_step us db (db\<lparr>db_now := t\<rparr>)"
| login: "ensure_in us db u = Ok (db', row) \<Longrightarrow> chip_step us db db'"
| move: "apply_chips db u mv amount ref = Ok (db', out) \<Longrightarrow> chip_step us db db'"
| top_up: "restore_floor db u ref = Ok (db', row) \<Longrightarrow> db_chips db u \<noteq> None \<Longrightarrow> chip_step us db db'"
| gift: "transfer_gift us db a b n = Ok (db', pair) \<Longrightarrow> chip_step us db db'"
| gild: "transfer_gild us db a b price share g = Ok (db', pair) \<Longrightarrow> chip_step us db db'"

lemma books_env:
  "books (db\<lparr>db_users := us\<rparr>) = books db" "books (db\<lparr>db_now := t\<rparr>) = books db"
  by (simp_all add: books_def held_def ledger_sum_def sum_delta_def)

lemma chip_step_books: "chip_step us db db' \<Longrightarrow> books db \<Longrightarrow> books db'"
  by (induction rule: chip_step.induct)
    (auto simp: books_env intro: postings_books dest: ensure_in_posting apply_posting restore_posting
      transfer_gift_posting transfer_gild_posting)

definition empty_db :: "uuid set \<Rightarrow> int \<Rightarrow> chip_db" where
  "empty_db users t = \<lparr>db_users = users, db_chips = (\<lambda>_. None), db_ledger = [], db_now = t\<rparr>"

lemma books_empty: "books (empty_db users t)"
  by (simp add: books_def empty_db_def held_def ledger_sum_def sum_delta_def)

lemma reachable_books: "(chip_step us)\<^sup>*\<^sup>* db db' \<Longrightarrow> books db \<Longrightarrow> books db'"
  by (induction rule: rtranclp_induct) (auto intro: chip_step_books)

lemma counts_is_credit: "counts_as_earnings mv \<Longrightarrow> direction mv = Credit"
  by (cases mv) simp_all

lemma excluded_iff: "reason mv \<in> set excluded_earning_reasons \<longleftrightarrow> \<not> counts_as_earnings mv"
  using chip_table.all_complete by (auto simp: excluded_earning_reasons_def chip_table.code_inj)

text \<open>The balance an account has once its row exists.\<close>

definition opened :: "chip_db \<Rightarrow> uuid \<Rightarrow> int" where
  "opened db u = (if db_chips db u = None then INITIAL_CHIP_BALANCE else held db u)"

lemma ensure_in_held:
  assumes "ensure_in us db u = Ok (db', row)"
  shows "held db' = (held db)(u := opened db u)" and "db_chips db' u = Some row"
    and "v \<noteq> u \<Longrightarrow> db_chips db' v = db_chips db v"
  using ensure_in_Ok [OF assms] posted_held [of db db' u]
  by (auto simp: opened_def held_def posted_def log_move_def)

text \<open>A transfer is two openings, a debit of \<open>n\<close> and a credit of \<open>m\<close>.\<close>

lemma two_openings:
  assumes "ensure_in us db a = Ok (db1, r1)" and "ensure_in us db1 b = Ok (db2, r2)" and "a \<noteq> b"
  shows "held db2 = (held db)(a := opened db a, b := opened db b)"
    and "db_chips db2 a \<noteq> None" and "db_chips db2 b \<noteq> None"
proof -
  note e1 = ensure_in_held [OF assms(1)] and e2 = ensure_in_held [OF assms(2)]
  have "opened db1 b = opened db b" using assms(3) e1 by (simp add: opened_def)
  then show "held db2 = (held db)(a := opened db a, b := opened db b)" using e1(1) e2(1) by simp
  show "db_chips db2 a \<noteq> None" using e2(3) [of a] e1(2) assms(3) by simp
  show "db_chips db2 b \<noteq> None" using e2(2) by simp
qed

lemma debit_then_credit:
  assumes "apply_chips db a mv n ref = Ok (db1, Some r1)" and "direction mv = Debit floor"
    and "apply_chips db1 b mv' m ref' = Ok (db2, Some r2)" and "direction mv' = Credit" and "a \<noteq> b"
  shows "held db2 = (held db)(a := held db a - n, b := held db b + m)"
    and "floor \<le> held db a - n" and "uc_balance r1 = held db a - n" and "uc_balance r2 = held db b + m"
proof -
  have p1: "posted db db1 a (- n) mv ref r1" and f: "uc_balance r1 \<ge> floor"
    using apply_Some [OF assms(1)] assms(2) by auto
  have p2: "posted db1 db2 b m mv' ref' r2" using apply_Some [OF assms(3)] assms(4) by auto
  show "held db2 = (held db)(a := held db a - n, b := held db b + m)"
    using posted_held [OF p1] posted_held [OF p2] assms(5) by simp
  show "uc_balance r1 = held db a - n" using p1 by (simp add: posted_def)
  with f show "floor \<le> held db a - n" by simp
  show "uc_balance r2 = held db b + m" using p2 posted_held [OF p1] assms(5) by (simp add: posted_def)
qed

section \<open>Properties\<close>


lemma chip_demo_step:
  "\<exists>db pair. (chip_step (\<lambda>_. ''id''))\<^sup>*\<^sup>* (empty_db {1, 2} 0) db \<and>
     transfer_gift (\<lambda>_. ''id'') (empty_db {1, 2} 0) 1 2 100 = Ok (db, Some pair) \<and>
     held db 1 = 900 \<and> held db 2 = 1100"
proof -
  obtain db pair where g: "transfer_gift (\<lambda>_. ''id'') (empty_db {1, 2} 0) 1 2 100 = Ok (db, Some pair)"
    and h: "held db 1 = 900" "held db 2 = 1100"
    by (simp add: transfer_gift_def ensure_def ensure_in_def empty_db_def insert_chips_def returning_def
        log_move_def INITIAL_CHIP_BALANCE_def apply_chips_def bigint_def update_chips_def held_def
        CHIP_FLOOR_def)
  from g have "chip_step (\<lambda>_. ''id'') (empty_db {1, 2} 0) db" by (rule chip_step.gift)
  with g h show ?thesis by blast
qed


text \<open>What a transfer of \<open>n\<close> from \<open>a\<close> of which \<open>m\<close> reaches \<open>b\<close> does to the balances.\<close>

definition pays :: "chip_db \<Rightarrow> chip_db \<Rightarrow> uuid \<Rightarrow> uuid \<Rightarrow> int \<Rightarrow> int \<Rightarrow> (user_chips \<times> user_chips) option \<Rightarrow> bool" where
  "pays db db' a b n m pair \<longleftrightarrow>
     (case pair of
        None \<Rightarrow> opened db a - n < CHIP_FLOOR \<and>
          held db' = (held db)(a := opened db a, b := opened db b)
      | Some (ra, rb) \<Rightarrow> CHIP_FLOOR \<le> opened db a - n \<and>
          uc_balance ra = opened db a - n \<and> uc_balance rb = opened db b + m \<and>
          held db' = (held db)(a := opened db a - n, b := opened db b + m))"

lemma paysI:
  assumes "ensure_in us db a = Ok (db1, r1)" and "ensure_in us db1 b = Ok (db2, r2)" and "a \<noteq> b"
    and "apply_chips db2 a mv n ref = Ok (db3, ra)" and "direction mv = Debit CHIP_FLOOR"
    and "direction mv' = Credit"
    and "case ra of None \<Rightarrow> db' = db3 \<and> pair = None
         | Some ra \<Rightarrow> \<exists>rb. apply_chips db3 b mv' m ref' = Ok (db', Some rb) \<and> pair = Some (ra, rb)"
  shows "pays db db' a b n m pair"
proof -
  note two = two_openings [OF assms(1-3)]
  have at: "held db2 a = opened db a" "held db2 b = opened db b" using assms(3) by (simp_all add: two(1))
  show ?thesis
  proof (cases ra)
    case None
    with assms(4) have "db3 = db2" "held db2 a - n < CHIP_FLOOR"
      using two(2) assms(5) apply_None [of db2 a mv n ref db3] by auto
    with assms(7) None two at show ?thesis by (simp add: pays_def)
  next
    case (Some x)
    with assms(7) obtain y where y: "apply_chips db3 b mv' m ref' = Ok (db', Some y)" "pair = Some (x, y)" by auto
    from debit_then_credit [OF assms(4) [unfolded Some] assms(5) y(1) assms(6) assms(3)] y(2) two at
    show ?thesis by (simp add: pays_def fun_upd_twist)
  qed
qed

text \<open>
  C22. Moving chips between two users. A gift takes exactly what it gives and touches no one else; a
  gild burns exactly the price less the author's share; a missing account is opened with the starting
  balance first. When the call reports that the sender cannot pay, nothing but those openings has
  happened, and the sender could not have paid and kept the floor.
\<close>

theorem transfers_conserve_chips:
  "(transfer_gift us db a b n = Ok (db', pair) \<longrightarrow> 0 < n \<and> a \<noteq> b \<and> pays db db' a b n n pair) \<and>
   (transfer_gild us db a b n m g = Ok (db', pair) \<longrightarrow>
      0 < m \<and> m < n \<and> a \<noteq> b \<and> pays db db' a b n m pair)"
proof (intro conjI impI)
  assume "transfer_gift us db a b n = Ok (db', pair)"
  then show "0 < n" "a \<noteq> b" "pays db db' a b n n pair"
    by (auto simp: transfer_gift_def res_simps split: option.splits
        intro!: paysI [where mv = GiftSent and mv' = GiftReceived])
next
  assume "transfer_gild us db a b n m g = Ok (db', pair)"
  then show "0 < m" "m < n" "a \<noteq> b" "pays db db' a b n m pair"
    by (auto simp: transfer_gild_def res_simps split: option.splits
        intro!: paysI [where mv = GildSent and mv' = GildReceived])
qed

theorem transfers_conserve_chips_witness:
  "\<exists>db' ra rb. transfer_gift (\<lambda>_. ''id'') (empty_db {1, 2} 0) 1 2 100 = Ok (db', Some (ra, rb)) \<and>
     pays (empty_db {1, 2} 0) db' 1 2 100 100 (Some (ra, rb)) \<and> uc_balance ra = 900"
proof -
  from chip_demo_step obtain db' pair where
    g: "transfer_gift (\<lambda>_. ''id'') (empty_db {1, 2} 0) 1 2 100 = Ok (db', Some pair)" by blast
  obtain ra rb where pair: "pair = (ra, rb)" by (cases pair)
  have "pays (empty_db {1, 2} 0) db' 1 2 100 100 (Some (ra, rb))"
    using transfers_conserve_chips [THEN conjunct1, rule_format, OF g] by (simp add: pair)
  with g show ?thesis by (auto simp: pair pays_def opened_def empty_db_def INITIAL_CHIP_BALANCE_def)
qed

text \<open>
  The debit guard. A debit that succeeds takes exactly the amount and leaves at least the floor of
  its move; one that does not succeed changes nothing, and the account is missing or could not have
  kept the floor. A restore and a retired move are refused whatever the account, and a credit always
  succeeds within the range of the column on an account that exists.
\<close>

theorem apply_guard:
  "case direction mv of
     Debit floor \<Rightarrow>
       (\<forall>db' row. apply_chips db u mv amount ref = Ok (db', Some row) \<longrightarrow>
          held db' = (held db)(u := held db u - amount) \<and> 0 < amount \<and> floor \<le> held db' u) \<and>
       (\<forall>db'. apply_chips db u mv amount ref = Ok (db', None) \<longrightarrow>
          db' = db \<and> (db_chips db u = None \<or> held db u - amount < floor))
   | Credit \<Rightarrow>
       0 < amount \<and> ref \<noteq> [] \<and> db_chips db u \<noteq> None \<and> bigint (held db u + amount) \<longrightarrow>
       (\<exists>db' row. apply_chips db u mv amount ref = Ok (db', Some row) \<and>
          held db' = (held db)(u := held db u + amount))
   | _ \<Rightarrow> \<exists>e. apply_chips db u mv amount ref = Err e"
proof (cases "direction mv")
  case Credit
  have "\<exists>db' row. apply_chips db u mv amount ref = Ok (db', Some row)"
    if "0 < amount" "ref \<noteq> []" "db_chips db u \<noteq> None" "bigint (held db u + amount)"
    using that Credit
    by (auto simp: apply_chips_def ensure_def held_def returning_def log_move_def update_chips_def)
  moreover have "held db' = (held db)(u := held db u + amount)"
    if "apply_chips db u mv amount ref = Ok (db', Some row)" for db' row
    using apply_Some [OF that] Credit posted_held by auto
  ultimately show ?thesis using Credit by simp blast
next
  case (Debit floor)
  have "held db' = (held db)(u := held db u - amount) \<and> 0 < amount \<and> floor \<le> held db' u"
    if "apply_chips db u mv amount ref = Ok (db', Some row)" for db' row
  proof -
    from apply_Some [OF that] Debit have p: "posted db db' u (- amount) mv ref row"
      and f: "floor \<le> uc_balance row" "0 < amount" by auto
    from p have "uc_balance row = held db u - amount" by (simp add: posted_def)
    with posted_held [OF p] f show ?thesis by simp
  qed
  moreover have "db' = db \<and> (db_chips db u = None \<or> held db u - amount < floor)"
    if "apply_chips db u mv amount ref = Ok (db', None)" for db'
    using apply_None [OF that] Debit by auto
  ultimately show ?thesis unfolding Debit by (simp only: chip_direction.case) blast
qed (auto simp: apply_chips_def ensure_def)

definition demo_account :: chip_db where
  "demo_account = (empty_db {1} 0)\<lparr>db_chips := [1 \<mapsto> \<lparr>uc_balance = 500, uc_last_stipend_date = None\<rparr>]\<rparr>"

theorem apply_guard_witness:
  "\<exists>db' row. apply_chips demo_account 1 GiftSent 400 ''id'' = Ok (db', Some row) \<and>
     held db' 1 = 100 \<and> CHIP_FLOOR \<le> held db' 1"
proof -
  obtain db' row where a: "apply_chips demo_account 1 GiftSent 400 ''id'' = Ok (db', Some row)"
    by (simp add: apply_chips_def demo_account_def empty_db_def ensure_def bigint_def returning_def
        update_chips_def log_move_def CHIP_FLOOR_def)
  moreover have "held demo_account 1 = 500" by (simp add: held_def demo_account_def)
  ultimately show ?thesis
    using apply_guard [where mv = GiftSent and db = demo_account and u = 1 and amount = 400 and ref = "''id''"]
    by (simp add: CHIP_FLOOR_def)
qed

text \<open>
  The monthly earnings figure. On any reachable database the figure is the sum of this month's
  ledger rows whose reason is a counting move, every such row is a credit, so the figure is never
  negative and no debit, gift or house table can lower or raise it.
\<close>

theorem month_earnings_are_credits:
  assumes "(chip_step us)\<^sup>*\<^sup>* (empty_db users t) db" and "month_figures db m u = Ok f"
  shows "mc_earned f = sum_delta (\<lambda>r. lr_user r = u \<and> m \<le> lr_created_at r \<and>
           (\<exists>mv. lr_reason r = reason mv \<and> counts_as_earnings mv \<and> direction mv = Credit \<and> 0 < lr_delta r)) db
         \<and> 0 \<le> mc_earned f"
proof -
  have rows: "\<exists>mv. lr_reason r = reason mv \<and> signed_for mv (lr_delta r)" if "r \<in> set (db_ledger db)" for r
    using reachable_books [OF assms(1) books_empty] that unfolding books_def by blast
  have iff: "lr_reason r \<notin> set excluded_earning_reasons \<longleftrightarrow>
      (\<exists>mv. lr_reason r = reason mv \<and> counts_as_earnings mv \<and> direction mv = Credit \<and> 0 < lr_delta r)"
    if "r \<in> set (db_ledger db)" for r
  proof -
    from rows [OF that] obtain mv where mv: "lr_reason r = reason mv" "signed_for mv (lr_delta r)" by blast
    then show ?thesis using counts_is_credit [of mv]
      by (auto simp: excluded_iff chip_table.code_inj signed_for_def)
  qed
  have "mc_earned f = sum_delta (\<lambda>r. (lr_user r = u \<and> m \<le> lr_created_at r) \<and>
      lr_reason r \<notin> set excluded_earning_reasons) db"
    using assms(2) by (auto simp: month_figures_def Let_def res_simps)
  also have "\<dots> = sum_delta (\<lambda>r. lr_user r = u \<and> m \<le> lr_created_at r \<and>
      (\<exists>mv. lr_reason r = reason mv \<and> counts_as_earnings mv \<and> direction mv = Credit \<and> 0 < lr_delta r)) db"
    unfolding sum_delta_def using iff by (auto intro!: arg_cong [where f = "\<lambda>x. sum_list (map lr_delta x)"] filter_cong)
  finally show ?thesis by (auto simp: sum_delta_def intro!: sum_list_nonneg)
qed

theorem month_earnings_are_credits_witness:
  "\<exists>db f. month_figures db 0 2 = Ok f \<and> held db 2 = 1100 \<and> 0 \<le> mc_earned f"
proof -
  from chip_demo_step obtain db pair where
    db: "(chip_step (\<lambda>_. ''id''))\<^sup>*\<^sup>* (empty_db {1, 2} 0) db" "held db 2 = 1100"
    and g: "transfer_gift (\<lambda>_. ''id'') (empty_db {1, 2} 0) 1 2 100 = Ok (db, Some pair)" by blast
  from g have "db_ledger db =
     [\<lparr>lr_user = 1, lr_delta = 1000, lr_reason = ''initial_balance'', lr_source_kind = ''users'', lr_source_ref = ''id'', lr_created_at = 0\<rparr>,
      \<lparr>lr_user = 2, lr_delta = 1000, lr_reason = ''initial_balance'', lr_source_kind = ''users'', lr_source_ref = ''id'', lr_created_at = 0\<rparr>,
      \<lparr>lr_user = 1, lr_delta = -100, lr_reason = ''chip_gift_sent'', lr_source_kind = ''users'', lr_source_ref = ''id'', lr_created_at = 0\<rparr>,
      \<lparr>lr_user = 2, lr_delta = 100, lr_reason = ''chip_gift_received'', lr_source_kind = ''users'', lr_source_ref = ''id'', lr_created_at = 0\<rparr>]"
    by (auto simp: transfer_gift_def ensure_def ensure_in_def empty_db_def insert_chips_def returning_def
        log_move_def INITIAL_CHIP_BALANCE_def apply_chips_def bigint_def update_chips_def CHIP_FLOOR_def)
  then obtain f where f: "month_figures db 0 2 = Ok f"
    using excluded_iff [of InitialBalance] excluded_iff [of GiftReceived]
    by (simp add: month_figures_def Let_def sum_delta_def bigint_def ensure_def)
  with month_earnings_are_credits [OF db(1) f] db(2) show ?thesis by blast
qed

text \<open>
  The floor restore. On an existing account it lifts the balance to the floor, never lowers it, and
  logs exactly what it added; on a missing account it opens the account at the floor and logs nothing,
  so that the account's balance and ledger part by the floor. No other user's balance changes.
\<close>

theorem restore_floor_exact:
  assumes "restore_floor db u ref = Ok (db', row)"
  shows "held db' = (held db)(u := if db_chips db u = None then CHIP_FLOOR else max (held db u) CHIP_FLOOR) \<and>
    ledger_sum db' = (ledger_sum db)(u := ledger_sum db u +
      (if db_chips db u = None then 0 else max 0 (CHIP_FLOOR - held db u)))"
proof (cases "db_chips db u")
  case None
  with assms have ch: "db_chips db' = (db_chips db)(u \<mapsto> \<lparr>uc_balance = CHIP_FLOOR, uc_last_stipend_date = None\<rparr>)"
    and l: "db_ledger db' = db_ledger db"
    by (auto simp: restore_floor_def insert_chips_def returning_Ok res_simps)
  have "held db' = (held db)(u := CHIP_FLOOR)" by (rule ext) (simp add: held_def ch)
  moreover have "ledger_sum db' = ledger_sum db" by (rule ext) (simp add: ledger_sum_def sum_delta_def l)
  ultimately show ?thesis using None by simp
next
  case (Some r)
  then have "db_chips db u \<noteq> None" by simp
  from restore_Ok [OF assms this] show ?thesis
  proof
    assume "db' = db \<and> CHIP_FLOOR \<le> held db u"
    then have "db' = db" "max (held db u) CHIP_FLOOR = held db u" "max 0 (CHIP_FLOOR - held db u) = 0" by simp_all
    then show ?thesis using Some by simp
  next
    assume p: "held db u < CHIP_FLOOR \<and> posted db db' u (CHIP_FLOOR - held db u) FloorRestore ref row"
    then show ?thesis
      using Some posted_held [OF conjunct2 [OF p]] posted_ledger_sum [OF conjunct2 [OF p]] by (simp add: max_def)
  qed
qed

theorem restore_floor_exact_witness:
  "\<exists>db' row. restore_floor (empty_db {1} 0) 1 ''round'' = Ok (db', row) \<and> held db' 1 = 100 \<and> ledger_sum db' 1 = 0"
proof -
  obtain db' row where r: "restore_floor (empty_db {1} 0) 1 ''round'' = Ok (db', row)"
    by (simp add: restore_floor_def empty_db_def insert_chips_def returning_def ensure_def bigint_def)
  have "db_chips (empty_db {1} 0) 1 = None" "ledger_sum (empty_db {1} 0) 1 = 0"
    by (simp_all add: empty_db_def ledger_sum_def sum_delta_def)
  with restore_floor_exact [OF r] r show ?thesis by (auto simp: CHIP_FLOOR_def)
qed

end
