(* ===== verification/Roster.thy ===== *)
theory Roster
  imports ChipMove
begin

text \<open>
  The daily-games roster (\<open>late-ssh/src/app/lobby/daily/games.rs\<close>) with the persisted match facts it
  names: the kinds and results of \<open>late-core/src/models/daily_match.rs\<close>, the reward keys of
  \<open>late-core/src/models/reward.rs\<close> and the chip move of each win.
\<close>

section \<open>Games\<close>

datatype daily_game =
  Chess | Chess960 | Battleship | ConnectFour | Reversi | Checkers | Backgammon | Briscola
| Cribbage | GinRummy | EightBall | NineBall | Snooker

definition DAILY_GAMES :: "daily_game list" where
  "DAILY_GAMES = [Chess, Chess960, Battleship, ConnectFour, Reversi, Checkers, Backgammon, Briscola,
     Cribbage, GinRummy, EightBall, NineBall, Snooker]"

primrec game_kind :: "daily_game \<Rightarrow> string" where
  "game_kind Chess = ''chess''"
| "game_kind Chess960 = ''chess960''"
| "game_kind Battleship = ''battleship''"
| "game_kind ConnectFour = ''connect4''"
| "game_kind Reversi = ''reversi''"
| "game_kind Checkers = ''checkers''"
| "game_kind Backgammon = ''backgammon''"
| "game_kind Briscola = ''briscola''"
| "game_kind Cribbage = ''cribbage''"
| "game_kind GinRummy = ''gin''"
| "game_kind EightBall = ''eightball''"
| "game_kind NineBall = ''nineball''"
| "game_kind Snooker = ''snooker''"

primrec game_label :: "daily_game \<Rightarrow> string" where
  "game_label Chess = ''chess''"
| "game_label Chess960 = ''chess960''"
| "game_label Battleship = ''battleship''"
| "game_label ConnectFour = ''connect4''"
| "game_label Reversi = ''reversi''"
| "game_label Checkers = ''checkers''"
| "game_label Backgammon = ''backgammon''"
| "game_label Briscola = ''briscola''"
| "game_label Cribbage = ''cribbage''"
| "game_label GinRummy = ''gin''"
| "game_label EightBall = ''8ball''"
| "game_label NineBall = ''9ball''"
| "game_label Snooker = ''snooker''"

primrec display_name :: "daily_game \<Rightarrow> string" where
  "display_name Chess = ''Chess''"
| "display_name Chess960 = ''Chess960''"
| "display_name Battleship = ''Battleship''"
| "display_name ConnectFour = ''Connect Four''"
| "display_name Reversi = ''Reversi''"
| "display_name Checkers = ''Checkers''"
| "display_name Backgammon = ''Backgammon''"
| "display_name Briscola = ''Briscola''"
| "display_name Cribbage = ''Cribbage''"
| "display_name GinRummy = ''Gin Rummy''"
| "display_name EightBall = ''Eight-Ball''"
| "display_name NineBall = ''Nine-Ball''"
| "display_name Snooker = ''Snooker''"

primrec win_payout :: "daily_game \<Rightarrow> int" where
  "win_payout Chess = 500"
| "win_payout Chess960 = 500"
| "win_payout Battleship = 300"
| "win_payout ConnectFour = 400"
| "win_payout Reversi = 400"
| "win_payout Checkers = 400"
| "win_payout Backgammon = 400"
| "win_payout Briscola = 400"
| "win_payout Cribbage = 500"
| "win_payout GinRummy = 500"
| "win_payout EightBall = 400"
| "win_payout NineBall = 400"
| "win_payout Snooker = 700"

primrec reward_key :: "daily_game \<Rightarrow> string" where
  "reward_key Chess = ''daily_chess_win_payout''"
| "reward_key Chess960 = ''daily_chess960_win_payout''"
| "reward_key Battleship = ''daily_battleship_win_payout''"
| "reward_key ConnectFour = ''daily_connect4_win_payout''"
| "reward_key Reversi = ''daily_reversi_win_payout''"
| "reward_key Checkers = ''daily_checkers_win_payout''"
| "reward_key Backgammon = ''daily_backgammon_win_payout''"
| "reward_key Briscola = ''daily_briscola_win_payout''"
| "reward_key Cribbage = ''daily_cribbage_win_payout''"
| "reward_key GinRummy = ''daily_gin_win_payout''"
| "reward_key EightBall = ''daily_eightball_win_payout''"
| "reward_key NineBall = ''daily_nineball_win_payout''"
| "reward_key Snooker = ''daily_snooker_win_payout''"

primrec win_move :: "daily_game \<Rightarrow> chip_move" where
  "win_move Chess = DailyChessWin"
| "win_move Chess960 = DailyChess960Win"
| "win_move Battleship = DailyBattleshipWin"
| "win_move ConnectFour = DailyConnectFourWin"
| "win_move Reversi = DailyReversiWin"
| "win_move Checkers = DailyCheckersWin"
| "win_move Backgammon = DailyBackgammonWin"
| "win_move Briscola = DailyBriscolaWin"
| "win_move Cribbage = DailyCribbageWin"
| "win_move GinRummy = DailyGinWin"
| "win_move EightBall = DailyEightBallWin"
| "win_move NineBall = DailyNineBallWin"
| "win_move Snooker = DailySnookerWin"

primrec is_pool :: "daily_game \<Rightarrow> bool" where
  "is_pool EightBall = True"
| "is_pool NineBall = True"
| "is_pool Snooker = True"
| "is_pool Chess = False"
| "is_pool Chess960 = False"
| "is_pool Battleship = False"
| "is_pool ConnectFour = False"
| "is_pool Reversi = False"
| "is_pool Checkers = False"
| "is_pool Backgammon = False"
| "is_pool Briscola = False"
| "is_pool Cribbage = False"
| "is_pool GinRummy = False"

text \<open>The separator U+00B7 of a tagline, as its two bytes.\<close>

definition mid_dot :: string where
  "mid_dot = [CHR '' '', char_of (0xC2 :: nat), char_of (0xB7 :: nat), CHR '' '']"

primrec tagline :: "daily_game \<Rightarrow> string" where
  "tagline Chess = ''one move per day''"
| "tagline Chess960 = ''shuffled back rank'' @ mid_dot @ ''castle onto your rook''"
| "tagline Battleship = ''one salvo per day'' @ mid_dot @ ''a hit fires again''"
| "tagline ConnectFour = ''one drop per day'' @ mid_dot @ ''four in a row wins''"
| "tagline Reversi = ''one move per day'' @ mid_dot @ ''most discs wins''"
| "tagline Checkers = ''one move per day'' @ mid_dot @ ''capture or block to win''"
| "tagline Backgammon = ''one roll per day'' @ mid_dot @ ''bear off all fifteen''"
| "tagline Briscola = ''one card per day'' @ mid_dot @ ''most points wins''"
| "tagline Cribbage = ''one card per day'' @ mid_dot @ ''first to 61''"
| "tagline GinRummy = ''draw, discard, knock'' @ mid_dot @ ''first to 100''"
| "tagline EightBall = ''one shot per day'' @ mid_dot @ ''potting shoots again''"
| "tagline NineBall = ''one shot per day'' @ mid_dot @ ''lowest ball first''"
| "tagline Snooker = ''one shot per day'' @ mid_dot @ ''reds, colours, and a scoreboard''"

section \<open>Parsing\<close>

text \<open>\<open>eq_ignore_ascii_case\<close> compares the strings after lowering the ASCII capitals.\<close>

definition ascii_lower :: "char \<Rightarrow> char" where
  "ascii_lower c =
     (if 65 \<le> (of_char c :: nat) \<and> (of_char c :: nat) \<le> 90 then char_of ((of_char c :: nat) + 32) else c)"

definition eq_ignore_ascii_case :: "string \<Rightarrow> string \<Rightarrow> bool" where
  "eq_ignore_ascii_case a b \<longleftrightarrow> map ascii_lower a = map ascii_lower b"

definition from_kind :: "string \<Rightarrow> daily_game option" where
  "from_kind kind = find_code DAILY_GAMES game_kind kind"

definition from_label :: "string \<Rightarrow> daily_game option" where
  "from_label label = find (\<lambda>game. eq_ignore_ascii_case (game_label game) label) DAILY_GAMES"

definition usage_labels :: string where
  "usage_labels = join_with ''|'' (map game_label DAILY_GAMES)"

section \<open>Results of a match\<close>

datatype daily_result =
  Checkmate | Draw | Resign | Timeout | FleetSunk | FourInARow | MostDiscs | NoMoves | BorneOff
| MostPoints | EightPotted | EarlyEight | NinePotted | FrameWon | PeggedOut | ReachedHundred

definition DAILY_RESULTS :: "daily_result list" where
  "DAILY_RESULTS = [Checkmate, Draw, Resign, Timeout, FleetSunk, FourInARow, MostDiscs, NoMoves,
     BorneOff, MostPoints, EightPotted, EarlyEight, NinePotted, FrameWon, PeggedOut, ReachedHundred]"

primrec result_str :: "daily_result \<Rightarrow> string" where
  "result_str Checkmate = ''checkmate''"
| "result_str Draw = ''draw''"
| "result_str Resign = ''resign''"
| "result_str Timeout = ''timeout''"
| "result_str FleetSunk = ''fleet_sunk''"
| "result_str FourInARow = ''four_in_a_row''"
| "result_str MostDiscs = ''most_discs''"
| "result_str NoMoves = ''no_moves''"
| "result_str BorneOff = ''borne_off''"
| "result_str MostPoints = ''most_points''"
| "result_str EightPotted = ''eight_potted''"
| "result_str EarlyEight = ''early_eight''"
| "result_str NinePotted = ''nine_potted''"
| "result_str FrameWon = ''frame_won''"
| "result_str PeggedOut = ''pegged_out''"
| "result_str ReachedHundred = ''reached_hundred''"

definition parse_result :: "string \<Rightarrow> (string, daily_result) res" where
  "parse_result value =
     (case find_code DAILY_RESULTS result_str value of Some result \<Rightarrow> Ok result | None \<Rightarrow> Err value)"

interpretation kind_table: code_table DAILY_GAMES game_kind
proof
  show "x \<in> set DAILY_GAMES" for x by (cases x) (simp_all add: DAILY_GAMES_def)
  show "distinct (map game_kind DAILY_GAMES)" by (simp add: DAILY_GAMES_def)
qed

interpretation label_table: code_table DAILY_GAMES game_label
proof
  show "x \<in> set DAILY_GAMES" for x by (cases x) (simp_all add: DAILY_GAMES_def)
  show "distinct (map game_label DAILY_GAMES)" by (simp add: DAILY_GAMES_def)
qed

interpretation result_table: code_table DAILY_RESULTS result_str
proof
  show "x \<in> set DAILY_RESULTS" for x by (cases x) (simp_all add: DAILY_RESULTS_def)
  show "distinct (map result_str DAILY_RESULTS)" by (simp add: DAILY_RESULTS_def)
qed

text \<open>The labels are written in lower case, so lowering them changes nothing.\<close>

lemma ascii_lower_label: "map ascii_lower (game_label g) = game_label g"
  by (cases g) (simp_all add: ascii_lower_def)

lemma from_label_lower: "from_label s = find_code DAILY_GAMES game_label (map ascii_lower s)"
  by (simp add: from_label_def find_code_def eq_ignore_ascii_case_def ascii_lower_label)

section \<open>Properties\<close>

text \<open>
  The persisted and typed spellings read back. Parsing the \<open>game_kind\<close> column, a ledger reason or
  a result column gives a variant exactly when that variant writes that spelling; a label typed by a
  user names a game exactly when it is the game's label up to the case of its letters. No two
  variants share a spelling, so nothing the code writes reads back as something else.
\<close>

theorem spellings_read_back:
  "(from_kind s = Some g \<longleftrightarrow> game_kind g = s) \<and>
   (from_label s = Some g \<longleftrightarrow> game_label g = map ascii_lower s) \<and>
   (from_reason s = Some mv \<longleftrightarrow> reason mv = s) \<and>
   (parse_result s = Ok r \<longleftrightarrow> result_str r = s) \<and>
   (parse_result s = Err e \<longleftrightarrow> e = s \<and> (\<forall>r. result_str r \<noteq> s))"
proof -
  have "parse_result s = Err e \<longleftrightarrow> e = s \<and> (\<forall>r. result_str r \<noteq> s)"
    using result_table.find_code_None [of s] by (auto simp: parse_result_def split: option.splits)
  moreover have "parse_result s = Ok r \<longleftrightarrow> result_str r = s"
    using result_table.find_code_iff [of s r] by (auto simp: parse_result_def split: option.splits)
  ultimately show ?thesis
    by (simp add: from_kind_def kind_table.find_code_iff from_label_lower label_table.find_code_iff
        from_reason_def chip_table.find_code_iff)
qed

text \<open>
  Every daily win is a credit that counts toward the monthly board, written under a claim row,
  with a positive payout; distinct games pay under distinct moves and distinct reward keys.
\<close>

theorem daily_wins_pay:
  "direction (win_move g) = Credit \<and> counts_as_earnings (win_move g) \<and>
   source_kind (win_move g) = ''game_payout_claims'' \<and> 0 < win_payout g \<and>
   (win_move g = win_move h \<longleftrightarrow> g = h) \<and> (reward_key g = reward_key h \<longleftrightarrow> g = h)"
proof -
  have "distinct (map reward_key DAILY_GAMES)" by (simp add: DAILY_GAMES_def)
  then have "reward_key g = reward_key h \<longleftrightarrow> g = h"
    using kind_table.all_complete by (auto simp: distinct_map inj_on_def)
  moreover have "distinct (map win_move DAILY_GAMES)" by (simp add: DAILY_GAMES_def)
  then have "win_move g = win_move h \<longleftrightarrow> g = h"
    using kind_table.all_complete by (auto simp: distinct_map inj_on_def)
  ultimately show ?thesis by (cases g) simp_all
qed

end
