(* ===== verification/Connect4.thy ===== *)
theory Connect4
  imports Prelude
begin

text \<open>
  Connect Four (\<open>late-ssh/src/app/lobby/daily/connect4.rs\<close>). The stored state is the drop history;
  the grid, the turn and the winning run are derived from it. Row 0 is the bottom of the board.
\<close>

section \<open>Data\<close>

definition c4_COLS :: nat where [simp]: "c4_COLS = 7"
definition c4_ROWS :: nat where [simp]: "c4_ROWS = 6"
definition c4_CELLS :: nat where [simp]: "c4_CELLS = c4_COLS * c4_ROWS"
definition c4_STATE_VERSION :: nat where [simp]: "c4_STATE_VERSION = 1"

definition column_label :: "nat \<Rightarrow> char" where
  "column_label column = letter_from (CHR ''a'') (as_u8 column)"

datatype c4_disc = C4Red | C4Yellow

fun c4_disc_label :: "c4_disc \<Rightarrow> string" where
  "c4_disc_label C4Red = ''red''"
| "c4_disc_label C4Yellow = ''yellow''"

fun c4_other :: "c4_disc \<Rightarrow> c4_disc" where
  "c4_other C4Red = C4Yellow"
| "c4_other C4Yellow = C4Red"

record drop_outcome =
  drop_row :: nat
  drop_disc :: c4_disc
  connected :: bool
  drop_draw :: bool

definition drop_label :: "drop_outcome \<Rightarrow> nat \<Rightarrow> string" where
  "drop_label out column =
     (let spot = column_label column # dec_string (drop_row out + 1)
      in if connected out then spot @ '', four in a row''
         else if drop_draw out then spot @ '', board full''
         else spot)"

record c4_state =
  c4_version :: nat
  c4_revision :: nat
  c4_red :: uuid
  c4_yellow :: uuid
  c4_drops :: "nat list"

datatype c4_error = C4Corrupt | C4UnsupportedVersion nat | C4OffBoard | C4ColumnFull char

section \<open>Operations\<close>

text \<open>The coin flip of \<open>rng.gen_bool(0.5)\<close> is an argument.\<close>

definition c4_new :: "bool \<Rightarrow> uuid \<Rightarrow> uuid \<Rightarrow> c4_state" where
  "c4_new coin challenger claimer =
     (let (red, yellow) = (if coin then (challenger, claimer) else (claimer, challenger))
      in \<lparr>c4_version = c4_STATE_VERSION, c4_revision = 0, c4_red = red, c4_yellow = yellow, c4_drops = []\<rparr>)"

text \<open>\<open>decoded\<close> is what \<open>serde_json::from_value\<close> makes of the stored JSON.\<close>

definition c4_parse :: "c4_state option \<Rightarrow> (c4_error, c4_state) res" where
  "c4_parse decoded =
     (case decoded of
        None \<Rightarrow> Err C4Corrupt
      | Some s \<Rightarrow> ensure (c4_version s = c4_STATE_VERSION) (C4UnsupportedVersion (c4_version s)) (Ok s))"

definition c4_turn :: "c4_state \<Rightarrow> c4_disc" where
  "c4_turn s = (if length (c4_drops s) mod 2 = 0 then C4Red else C4Yellow)"

fun c4_user_of :: "c4_state \<Rightarrow> c4_disc \<Rightarrow> uuid" where
  "c4_user_of s C4Red = c4_red s"
| "c4_user_of s C4Yellow = c4_yellow s"

definition c4_disc_of :: "c4_state \<Rightarrow> uuid \<Rightarrow> c4_disc option" where
  "c4_disc_of s u = (if u = c4_red s then Some C4Red else if u = c4_yellow s then Some C4Yellow else None)"

text \<open>
  \<open>grid\<close> replays the drops; \<open>heights\<close> and \<open>grid\<close> are indexed by the stored column, so a column
  past the board or a seventh disc in one column is an index panic (\<open>None\<close>).
\<close>

fun c4_fill :: "c4_disc board \<Rightarrow> (nat \<Rightarrow> nat) \<Rightarrow> nat \<Rightarrow> nat list \<Rightarrow> c4_disc board option" where
  "c4_fill grid heights index [] = Some grid"
| "c4_fill grid heights index (column # rest) =
     (let disc = (if index mod 2 = 0 then C4Red else C4Yellow)
      in if column < c4_COLS \<and> heights column < c4_ROWS
         then c4_fill (set_cell grid (heights column) column (Some disc))
                (heights(column := heights column + 1)) (Suc index) rest
         else None)"

definition c4_grid :: "c4_state \<Rightarrow> c4_disc board option" where
  "c4_grid s = c4_fill empty_board (\<lambda>_. 0) 0 (c4_drops s)"

definition last_drop :: "c4_state \<Rightarrow> (nat \<times> nat) option" where
  "last_drop s =
     (if c4_drops s = [] then None
      else let column = last (c4_drops s);
               row = length (filter (\<lambda>c. c = column) (c4_drops s)) - 1
           in Some (row, column))"

definition c4_move_count :: "c4_state \<Rightarrow> nat" where
  "c4_move_count s = length (c4_drops s)"

definition C4_DIRECTIONS :: "(int \<times> int) list" where
  "C4_DIRECTIONS = [(0, 1), (1, 0), (1, 1), (1, -1)]"

text \<open>
  The walk's \<open>loop\<close> ends only because a step leaves the board or the run of discs; with a zero step
  it would not end, so its value is an option, with \<open>None\<close> for not returning.
\<close>

partial_function (option) run_cells ::
  "c4_disc board \<Rightarrow> int \<Rightarrow> int \<Rightarrow> int \<Rightarrow> int \<Rightarrow> c4_disc \<Rightarrow> (nat \<times> nat) list option" where
  "run_cells grid row column dr dc disc =
     (let row' = row + dr; column' = column + dc
      in if \<not> (0 \<le> row' \<and> row' < int c4_ROWS) \<or> \<not> (0 \<le> column' \<and> column' < int c4_COLS) then Some []
         else if grid (nat row') (nat column') \<noteq> Some disc then Some []
         else Option.bind (run_cells grid row' column' dr dc disc)
                (\<lambda>cells. Some ((nat row', nat column') # cells)))"

fun c4_any_run :: "(int \<times> int) list \<Rightarrow> c4_disc board \<Rightarrow> nat \<Rightarrow> nat \<Rightarrow> c4_disc \<Rightarrow> bool option" where
  "c4_any_run [] grid row column disc = Some False"
| "c4_any_run ((dr, dc) # ds) grid row column disc =
     Option.bind (run_cells grid (int row) (int column) dr dc disc) (\<lambda>ahead.
     Option.bind (run_cells grid (int row) (int column) (- dr) (- dc) disc) (\<lambda>behind.
       if 1 + length ahead + length behind \<ge> 4 then Some True
       else c4_any_run ds grid row column disc))"

definition connects_four :: "c4_disc board \<Rightarrow> nat \<Rightarrow> nat \<Rightarrow> c4_disc \<Rightarrow> bool option" where
  "connects_four = c4_any_run C4_DIRECTIONS"

fun c4_find_run ::
  "(int \<times> int) list \<Rightarrow> c4_disc board \<Rightarrow> nat \<Rightarrow> nat \<Rightarrow> c4_disc \<Rightarrow> (nat \<times> nat) list option option" where
  "c4_find_run [] grid row column disc = Some None"
| "c4_find_run ((dr, dc) # ds) grid row column disc =
     Option.bind (run_cells grid (int row) (int column) (- dr) (- dc) disc) (\<lambda>behind.
     Option.bind (run_cells grid (int row) (int column) dr dc disc) (\<lambda>ahead.
       let cells = rev behind @ [(row, column)] @ ahead
       in if length cells \<ge> 4 then Some (Some cells)
          else c4_find_run ds grid row column disc))"

text \<open>The outer option is the panic of an out-of-range read, the inner one the code's own.\<close>

definition winning_line :: "c4_state \<Rightarrow> (nat \<times> nat) list option option" where
  "winning_line s =
     (case last_drop s of
        None \<Rightarrow> Some None
      | Some (row, column) \<Rightarrow>
          Option.bind (c4_grid s) (\<lambda>grid.
            if row < c4_ROWS \<and> column < c4_COLS then
              (case grid row column of
                 None \<Rightarrow> Some None
               | Some disc \<Rightarrow> c4_find_run C4_DIRECTIONS grid row column disc)
            else None))"

definition apply_drop :: "c4_state \<Rightarrow> nat \<Rightarrow> (c4_error, c4_state \<times> drop_outcome) res" where
  "apply_drop s column =
     ensure (column < c4_COLS) C4OffBoard
       (expect (c4_grid s) (\<lambda>grid.
          case find (\<lambda>row. grid row column = None) [0..<c4_ROWS] of
            None \<Rightarrow> Err (C4ColumnFull (column_label column))
          | Some row \<Rightarrow>
              let disc = c4_turn s;
                  grid' = set_cell grid row column (Some disc);
                  s' = s\<lparr>c4_drops := c4_drops s @ [as_u8 column]\<rparr>
              in expect (connects_four grid' row column disc) (\<lambda>conn.
                   Ok (s', \<lparr>drop_row = row, drop_disc = disc, connected = conn,
                            drop_draw = \<not> conn \<and> length (c4_drops s') = c4_CELLS\<rparr>))))"

section \<open>The walk along a line\<close>

lemma length_filter_count: "length (filter (\<lambda>c. c = x) ds) = count_list ds x"
  by (induction ds) auto

definition c4_at :: "c4_disc board \<Rightarrow> int \<Rightarrow> int \<Rightarrow> c4_disc option" where
  "c4_at = at_cell c4_ROWS c4_COLS"

definition c4_unit :: "int \<Rightarrow> int \<Rightarrow> bool" where
  "c4_unit dr dc \<longleftrightarrow> dr \<in> {-1, 0, 1} \<and> dc \<in> {-1, 0, 1} \<and> (dr, dc) \<noteq> (0, 0)"

text \<open>What the walk returns: the maximal run of the disc along the ray, in walk order.\<close>

definition c4_run_of :: "c4_disc board \<Rightarrow> int \<Rightarrow> int \<Rightarrow> int \<Rightarrow> int \<Rightarrow> c4_disc \<Rightarrow> nat \<Rightarrow> bool" where
  "c4_run_of g r c dr dc d n \<longleftrightarrow>
     (\<forall>k. 1 \<le> k \<and> k \<le> int n \<longrightarrow> c4_at g (r + k * dr) (c + k * dc) = Some d) \<and>
     c4_at g (r + (int n + 1) * dr) (c + (int n + 1) * dc) \<noteq> Some d"

definition c4_ray :: "int \<Rightarrow> int \<Rightarrow> int \<Rightarrow> int \<Rightarrow> nat \<Rightarrow> (nat \<times> nat) list" where
  "c4_ray r c dr dc n = map (\<lambda>k. (nat (r + int k * dr), nat (c + int k * dc))) [1..<Suc n]"

definition c4_left :: "int \<Rightarrow> int \<Rightarrow> int \<Rightarrow> int \<Rightarrow> nat" where
  "c4_left r c dr dc =
     nat (if dr > 0 then 6 - r else if dr < 0 then r + 1 else if dc > 0 then 7 - c else c + 1)"

lemma c4_ray_Suc:
  "c4_ray r c dr dc (Suc n) = (nat (r + dr), nat (c + dc)) # c4_ray (r + dr) (c + dc) dr dc n"
proof -
  have "[1..<Suc (Suc n)] = 1 # map Suc [1..<Suc n]"
    by (simp add: upt_conv_Cons map_Suc_upt del: upt_Suc)
  then show ?thesis unfolding c4_ray_def by (simp add: algebra_simps del: upt_Suc)
qed

lemma c4_run_of_step:
  assumes "c4_at g (r + dr) (c + dc) = Some d" and "c4_run_of g (r + dr) (c + dc) dr dc d n"
  shows "c4_run_of g r c dr dc d (Suc n)"
  unfolding c4_run_of_def
proof (intro conjI allI impI)
  fix k :: int
  assume k: "1 \<le> k \<and> k \<le> int (Suc n)"
  show "c4_at g (r + k * dr) (c + k * dc) = Some d"
  proof (cases "k = 1")
    case True
    with assms(1) show ?thesis by simp
  next
    case False
    with k have "1 \<le> k - 1 \<and> k - 1 \<le> int n" by simp
    with assms(2) have "c4_at g (r + dr + (k - 1) * dr) (c + dc + (k - 1) * dc) = Some d"
      unfolding c4_run_of_def by blast
    then show ?thesis by (simp add: algebra_simps)
  qed
next
  from assms(2) have "c4_at g (r + dr + (int n + 1) * dr) (c + dc + (int n + 1) * dc) \<noteq> Some d"
    unfolding c4_run_of_def by blast
  then show "c4_at g (r + (int (Suc n) + 1) * dr) (c + (int (Suc n) + 1) * dc) \<noteq> Some d"
    by (simp add: algebra_simps)
qed

lemma run_cells_run:
  assumes "c4_unit dr dc"
  shows "\<exists>n. run_cells g r c dr dc d = Some (c4_ray r c dr dc n) \<and> c4_run_of g r c dr dc d n"
proof (induction "c4_left r c dr dc" arbitrary: r c rule: less_induct)
  case less
  show ?case
  proof (cases "c4_at g (r + dr) (c + dc) = Some d")
    case False
    then have "run_cells g r c dr dc d = Some (c4_ray r c dr dc 0)"
      by (subst run_cells.simps) (auto simp: Let_def c4_at_def at_cell_def in_board_def c4_ray_def)
    moreover from False have "c4_run_of g r c dr dc d 0" by (auto simp: c4_run_of_def)
    ultimately show ?thesis by blast
  next
    case True
    then have board: "in_board 6 7 (r + dr) (c + dc)" and here: "g (nat (r + dr)) (nat (c + dc)) = Some d"
      by (auto simp: c4_at_def at_cell_Some)
    with assms have "c4_left (r + dr) (c + dc) dr dc < c4_left r c dr dc"
      by (auto simp: c4_left_def c4_unit_def in_board_def)
    from less [OF this] obtain n where
      n: "run_cells g (r + dr) (c + dc) dr dc d = Some (c4_ray (r + dr) (c + dc) dr dc n)"
      and run: "c4_run_of g (r + dr) (c + dc) dr dc d n" by blast
    from n board here have "run_cells g r c dr dc d = Some (c4_ray r c dr dc (Suc n))"
      by (subst run_cells.simps) (simp add: Let_def in_board_def c4_ray_Suc)
    with c4_run_of_step [OF True run] show ?thesis by blast
  qed
qed

text \<open>Four aligned discs of one colour, read on the board alone.\<close>

definition c4_line :: "c4_disc board \<Rightarrow> c4_disc \<Rightarrow> int \<Rightarrow> int \<Rightarrow> int \<Rightarrow> int \<Rightarrow> bool" where
  "c4_line g d r c dr dc \<longleftrightarrow> (\<forall>k \<in> {0, 1, 2, 3}. c4_at g (r + k * dr) (c + k * dc) = Some d)"

definition c4_has_line :: "c4_disc board \<Rightarrow> bool" where
  "c4_has_line g \<longleftrightarrow> (\<exists>d r c dr dc. (dr, dc) \<in> set C4_DIRECTIONS \<and> c4_line g d r c dr dc)"

lemma four_in_runs:
  assumes here: "c4_at g r c = Some d"
    and ahead: "c4_run_of g r c dr dc d a" and behind: "c4_run_of g r c (- dr) (- dc) d b"
  shows "4 \<le> 1 + a + b \<longleftrightarrow> (\<exists>j \<in> {0, 1, 2, 3}. c4_line g d (r - j * dr) (c - j * dc) dr dc)"
    (is "?long \<longleftrightarrow> ?window")
proof -
  define L where "L k \<longleftrightarrow> c4_at g (r + k * dr) (c + k * dc) = Some d" for k :: int
  have L0: "L 0" using here by (simp add: L_def)
  have up: "L k" if "1 \<le> k" "k \<le> int a" for k
    using ahead that by (auto simp: L_def c4_run_of_def)
  have down: "L (- k)" if "1 \<le> k" "k \<le> int b" for k
    using behind that by (auto simp: L_def c4_run_of_def)
  have within: "L k" if "- int b \<le> k" "k \<le> int a" for k
    using that up [of k] down [of "- k"] L0 by (cases "k = 0"; cases "k < 0") auto
  have stop_up: "\<not> L (int a + 1)" using ahead by (simp add: L_def c4_run_of_def)
  have "c4_at g (r + (int b + 1) * (- dr)) (c + (int b + 1) * (- dc)) \<noteq> Some d"
    using behind unfolding c4_run_of_def by blast
  then have stop_down: "\<not> L (- (int b + 1))" by (simp add: L_def algebra_simps)
  have window: "c4_line g d (r - j * dr) (c - j * dc) dr dc \<longleftrightarrow> (\<forall>k \<in> {0, 1, 2, 3}. L (k - j))" for j
    by (simp add: c4_line_def L_def algebra_simps)
  show ?thesis
  proof
    assume long: ?long
    define j where "j = min (int b) 3"
    have "j \<in> {0, 1, 2, 3}" by (auto simp: j_def min_def)
    moreover have "\<forall>k \<in> {0, 1, 2, 3}. L (k - j)"
      using long by (intro ballI within) (auto simp: j_def min_def split: if_splits)
    ultimately show ?window unfolding window by blast
  next
    assume ?window
    then obtain j where j: "j \<in> {0, 1, 2, 3}" and all: "\<forall>k \<in> {0, 1, 2, 3}. L (k - j)"
      unfolding window by blast
    have "int b \<ge> j"
    proof (rule ccontr)
      assume "\<not> int b \<ge> j"
      then have "j - (int b + 1) \<in> {0, 1, 2, 3}" using j by auto
      with all have "L (j - (int b + 1) - j)" by blast
      with stop_down show False by simp
    qed
    moreover have "int a \<ge> 3 - j"
    proof (rule ccontr)
      assume "\<not> int a \<ge> 3 - j"
      then have "j + (int a + 1) \<in> {0, 1, 2, 3}" using j by auto
      with all have "L (j + (int a + 1) - j)" by blast
      with stop_up show False by simp
    qed
    ultimately show ?long by linarith
  qed
qed

lemma C4_DIRECTIONS_unit: "(dr, dc) \<in> set C4_DIRECTIONS \<Longrightarrow> c4_unit dr dc \<and> c4_unit (- dr) (- dc)"
  by (auto simp: C4_DIRECTIONS_def c4_unit_def)

definition c4_through :: "c4_disc board \<Rightarrow> nat \<Rightarrow> nat \<Rightarrow> c4_disc \<Rightarrow> int \<times> int \<Rightarrow> bool" where
  "c4_through g row column d dir \<longleftrightarrow>
     (\<exists>j \<in> {0, 1, 2, 3}. c4_line g d (int row - j * fst dir) (int column - j * snd dir) (fst dir) (snd dir))"

lemma c4_any_run_iff:
  assumes "c4_at g (int row) (int column) = Some d" and "\<forall>(dr, dc) \<in> set ds. c4_unit dr dc \<and> c4_unit (- dr) (- dc)"
  shows "c4_any_run ds g row column d = Some (\<exists>dir \<in> set ds. c4_through g row column d dir)"
  using assms(2)
proof (induction ds)
  case Nil
  then show ?case by simp
next
  case (Cons dir ds)
  obtain dr dc where dir: "dir = (dr, dc)" by (cases dir)
  with Cons.prems have unit: "c4_unit dr dc" "c4_unit (- dr) (- dc)" by auto
  from run_cells_run [OF unit(1)] obtain a where
    a: "run_cells g (int row) (int column) dr dc d = Some (c4_ray (int row) (int column) dr dc a)"
    and ra: "c4_run_of g (int row) (int column) dr dc d a" by blast
  from run_cells_run [OF unit(2)] obtain b where
    b: "run_cells g (int row) (int column) (- dr) (- dc) d = Some (c4_ray (int row) (int column) (- dr) (- dc) b)"
    and rb: "c4_run_of g (int row) (int column) (- dr) (- dc) d b" by blast
  have "c4_any_run ds g row column d = Some (\<exists>dir \<in> set ds. c4_through g row column d dir)"
    using Cons by simp
  with four_in_runs [OF assms(1) ra rb] show ?case
    by (simp add: dir a b c4_through_def c4_ray_def del: upt_Suc)
qed

lemma connects_four_iff:
  assumes "c4_at g (int row) (int column) = Some d"
  shows "connects_four g row column d = Some (\<exists>dir \<in> set C4_DIRECTIONS. c4_through g row column d dir)"
  unfolding connects_four_def
  by (rule c4_any_run_iff [OF assms]) (use C4_DIRECTIONS_unit in blast)

section \<open>The replayed grid\<close>

text \<open>A well-formed history stays on the board: seven columns, at most six discs in each.\<close>

definition c4_wf :: "nat list \<Rightarrow> bool" where
  "c4_wf ds \<longleftrightarrow> (\<forall>c \<in> set ds. c < c4_COLS) \<and> (\<forall>c. count_list ds c \<le> c4_ROWS)"

definition c4_parity :: "nat \<Rightarrow> c4_disc" where
  "c4_parity i = (if i mod 2 = 0 then C4Red else C4Yellow)"

lemma c4_fill_Cons:
  "c4_fill g h i (c # rest) =
     (if c < 7 \<and> h c < 6
      then c4_fill (set_cell g (h c) c (Some (c4_parity i))) (h(c := Suc (h c))) (Suc i) rest else None)"
  by (simp add: Let_def c4_parity_def)

lemma c4_fill_snoc:
  "c4_fill g h i (ds @ [c]) =
     (case c4_fill g h i ds of None \<Rightarrow> None
      | Some g' \<Rightarrow>
          if c < 7 \<and> h c + count_list ds c < 6
          then Some (set_cell g' (h c + count_list ds c) c (Some (c4_parity (i + length ds)))) else None)"
proof (induction ds arbitrary: g h i)
  case Nil
  then show ?case by (simp add: Let_def c4_parity_def)
next
  case (Cons a ds)
  show ?case unfolding append_Cons c4_fill_Cons Cons.IH by (auto split: option.split)
qed

lemma c4_wf_snoc: "c4_wf (ds @ [c]) \<longleftrightarrow> c4_wf ds \<and> c < 7 \<and> count_list ds c < 6"
proof -
  have "(\<forall>x. count_list (ds @ [c]) x \<le> 6) \<longleftrightarrow> (\<forall>x. count_list ds x \<le> 6) \<and> count_list ds c < 6"
  proof (intro iffI conjI allI)
    fix x
    assume all: "\<forall>x. count_list (ds @ [c]) x \<le> 6"
    have "count_list (ds @ [c]) x \<le> 6" using all by blast
    then show "count_list ds x \<le> 6" by (simp split: if_splits)
    have "count_list (ds @ [c]) c \<le> 6" using all by blast
    then show "count_list ds c < 6" by simp
  next
    fix x
    assume "(\<forall>x. count_list ds x \<le> 6) \<and> count_list ds c < 6"
    then show "count_list (ds @ [c]) x \<le> 6" by (cases "x = c") auto
  qed
  then show ?thesis by (auto simp: c4_wf_def)
qed

definition c4_filled :: "nat list \<Rightarrow> c4_disc board \<Rightarrow> bool" where
  "c4_filled ds g \<longleftrightarrow> (\<forall>r c. g r c = None \<longleftrightarrow> count_list ds c \<le> r)"

lemma c4_fill_wf:
  "c4_wf ds \<Longrightarrow> \<exists>g. c4_fill empty_board (\<lambda>_. 0) 0 ds = Some g \<and> c4_filled ds g"
proof (induction ds rule: rev_induct)
  case Nil
  then show ?case by (simp add: c4_filled_def)
next
  case (snoc c ds)
  from snoc.prems have wf: "c4_wf ds" and c: "c < 7" "count_list ds c < 6"
    by (simp_all add: c4_wf_snoc)
  from snoc.IH [OF wf] obtain g where
    g: "c4_fill empty_board (\<lambda>_. 0) 0 ds = Some g" "c4_filled ds g" by blast
  from g c have "c4_fill empty_board (\<lambda>_. 0) 0 (ds @ [c]) =
      Some (set_cell g (count_list ds c) c (Some (c4_parity (length ds))))"
    by (simp add: c4_fill_snoc)
  moreover have "c4_filled (ds @ [c]) (set_cell g (count_list ds c) c (Some (c4_parity (length ds))))"
    using g(2) by (auto simp: c4_filled_def set_cell_apply Suc_le_eq)
  ultimately show ?case by blast
qed

lemma c4_wf_grid: "c4_wf (c4_drops s) \<Longrightarrow> \<exists>g. c4_grid s = Some g \<and> c4_filled (c4_drops s) g"
  unfolding c4_grid_def by (rule c4_fill_wf)

lemma find_row:
  assumes "c4_filled ds g"
  shows "find (\<lambda>row. g row column = None) [0..<6] =
           (if count_list ds column < 6 then Some (count_list ds column) else None)"
proof (cases "count_list ds column < 6")
  case True
  have "find (\<lambda>row. g row column = None) [0..<6] = Some (count_list ds column)"
    unfolding find_Some_iff using assms True
    by (intro exI [of _ "count_list ds column"]) (auto simp: c4_filled_def)
  with True show ?thesis by simp
next
  case False
  then have "find (\<lambda>row. g row column = None) [0..<6] = None"
    unfolding find_None_iff using assms by (force simp: c4_filled_def)
  with False show ?thesis by simp
qed

definition c4_dropped :: "c4_state \<Rightarrow> nat \<Rightarrow> c4_state" where
  "c4_dropped s column = s\<lparr>c4_drops := c4_drops s @ [column]\<rparr>"

definition c4_after :: "c4_state \<Rightarrow> nat \<Rightarrow> c4_disc board \<Rightarrow> c4_disc board" where
  "c4_after s column g = set_cell g (count_list (c4_drops s) column) column (Some (c4_turn s))"

definition c4_connects :: "c4_disc board \<Rightarrow> nat \<Rightarrow> nat \<Rightarrow> c4_disc \<Rightarrow> bool" where
  "c4_connects g row column d \<longleftrightarrow> (\<exists>dir \<in> set C4_DIRECTIONS. c4_through g row column d dir)"

lemma c4_wf_dropped:
  "c4_wf (c4_drops (c4_dropped s column)) \<longleftrightarrow>
     c4_wf (c4_drops s) \<and> column < 7 \<and> count_list (c4_drops s) column < 6"
  by (simp add: c4_dropped_def c4_wf_snoc)

lemma c4_grid_dropped:
  assumes "c4_grid s = Some g" and "column < 7" and "count_list (c4_drops s) column < 6"
  shows "c4_grid (c4_dropped s column) = Some (c4_after s column g)"
  using assms
  by (simp add: c4_grid_def c4_dropped_def c4_after_def c4_fill_snoc c4_turn_def c4_parity_def)

lemma c4_at_after:
  assumes "column < 7" and "count_list (c4_drops s) column < 6"
  shows "c4_at (c4_after s column g) (int (count_list (c4_drops s) column)) (int column) = Some (c4_turn s)"
  using assms by (simp add: c4_at_def c4_after_def set_cell_apply)

lemma apply_drop_eq:
  assumes "c4_grid s = Some g" and "c4_filled (c4_drops s) g"
  shows "apply_drop s column =
    (if \<not> column < 7 then Err C4OffBoard
     else if \<not> count_list (c4_drops s) column < 6 then Err (C4ColumnFull (column_label column))
     else let row = count_list (c4_drops s) column;
              conn = c4_connects (c4_after s column g) row column (c4_turn s)
          in Ok (c4_dropped s column,
                 \<lparr>drop_row = row, drop_disc = c4_turn s, connected = conn,
                  drop_draw = \<not> conn \<and> length (c4_drops s) + 1 = 42\<rparr>))"
  using assms find_row [OF assms(2), of column] connects_four_iff [OF c4_at_after, of column s g]
  by (auto simp: apply_drop_def ensure_def c4_connects_def c4_dropped_def c4_after_def Let_def)

lemma c4_wf_length_sum:
  assumes "c4_wf ds"
  shows "length ds = (\<Sum>c < 7. count_list ds c)"
proof -
  have sub: "set ds \<subseteq> {..<7}" using assms by (auto simp: c4_wf_def)
  have "length ds = (\<Sum>c \<in> set ds. count_list ds c)" by (simp add: sum_count_set)
  also have "\<dots> = (\<Sum>c < 7. count_list ds c)"
    by (rule sum.mono_neutral_left [OF _ sub]) (auto simp: count_list_0_iff)
  finally show ?thesis .
qed

lemma c4_wf_length: "c4_wf ds \<Longrightarrow> length ds \<le> 42"
  using sum_mono [of "{..<7}" "count_list ds" "\<lambda>_. 6"]
  by (simp add: c4_wf_length_sum c4_wf_def)

lemma c4_full_iff:
  assumes "c4_wf ds" and "c4_filled ds g"
  shows "length ds = 42 \<longleftrightarrow> (\<forall>r < 6. \<forall>c < 7. g r c \<noteq> None)"
proof -
  have le: "count_list ds c \<le> 6" for c using assms(1) by (simp add: c4_wf_def)
  have "length ds = 42 \<longleftrightarrow> (\<forall>c < 7. count_list ds c = 6)"
  proof
    assume "length ds = 42"
    then have total: "(\<Sum>c < 7. count_list ds c) = (\<Sum>c < (7::nat). 6)"
      using c4_wf_length_sum [OF assms(1)] by simp
    show "\<forall>c < 7. count_list ds c = 6"
    proof (intro allI impI)
      fix c :: nat
      assume "c < 7"
      with total le show "count_list ds c = 6"
        by (intro sum_mono_inv [where f = "count_list ds" and g = "\<lambda>_. 6" and I = "{..<7}"]) auto
    qed
  next
    assume "\<forall>c < 7. count_list ds c = 6"
    then show "length ds = 42" using c4_wf_length_sum [OF assms(1)] by simp
  qed
  also have "\<dots> \<longleftrightarrow> (\<forall>r < 6. \<forall>c < 7. g r c \<noteq> None)"
  proof
    assume "\<forall>c < 7. count_list ds c = 6"
    then show "\<forall>r < 6. \<forall>c < 7. g r c \<noteq> None" using assms(2) by (simp add: c4_filled_def)
  next
    assume all: "\<forall>r < 6. \<forall>c < 7. g r c \<noteq> None"
    show "\<forall>c < 7. count_list ds c = 6"
    proof (intro allI impI)
      fix c :: nat
      assume "c < 7"
      with all have "g 5 c \<noteq> None" by simp
      with assms(2) le [of c] show "count_list ds c = 6" by (auto simp: c4_filled_def)
    qed
  qed
  finally show ?thesis .
qed

lemma c4_at_set_cell:
  "c4_at (set_cell g row column v) x y =
     (if x = int row \<and> y = int column \<and> row < 6 \<and> column < 7 then v else c4_at g x y)"
  by (auto simp: c4_at_def at_cell_def in_board_def set_cell_apply)

text \<open>Only a line through the new disc can be new.\<close>

lemma new_line_through:
  assumes "\<not> c4_has_line g" and "g' = set_cell g row column (Some d)" and "row < 6" and "column < 7"
  shows "c4_connects g' row column d \<longleftrightarrow> c4_has_line g'"
proof
  assume "c4_connects g' row column d"
  then show "c4_has_line g'" unfolding c4_connects_def c4_through_def c4_has_line_def
    by (metis prod.collapse)
next
  assume "c4_has_line g'"
  then obtain e r c dr dc where dir: "(dr, dc) \<in> set C4_DIRECTIONS" and line: "c4_line g' e r c dr dc"
    by (auto simp: c4_has_line_def)
  with assms(1) have "\<not> c4_line g e r c dr dc" by (auto simp: c4_has_line_def)
  then obtain k where k: "k \<in> {0, 1, 2, 3}" and old: "c4_at g (r + k * dr) (c + k * dc) \<noteq> Some e"
    unfolding c4_line_def by blast
  from line k have "c4_at g' (r + k * dr) (c + k * dc) = Some e" unfolding c4_line_def by blast
  with old have "r + k * dr = int row \<and> c + k * dc = int column \<and> e = d"
    by (simp add: assms(2) c4_at_set_cell split: if_splits)
  then have "r = int row - k * dr" and "c = int column - k * dc" and "e = d" by auto
  with k line dir show "c4_connects g' row column d"
    unfolding c4_connects_def c4_through_def by (intro bexI [of _ "(dr, dc)"] bexI [of _ k]) auto
qed

text \<open>The cells of the run through the last disc.\<close>

lemma c4_find_run_result:
  assumes here: "c4_at g (int row) (int column) = Some d"
    and units: "\<forall>(dr, dc) \<in> set ds. c4_unit dr dc \<and> c4_unit (- dr) (- dc)"
  shows "\<exists>res. c4_find_run ds g row column d = Some res \<and>
    (res \<noteq> None \<longleftrightarrow> (\<exists>dir \<in> set ds. c4_through g row column d dir)) \<and>
    (\<forall>cells. res = Some cells \<longrightarrow> 4 \<le> length cells \<and> (row, column) \<in> set cells \<and>
       (\<forall>(r, c) \<in> set cells. g r c = Some d))"
  using units
proof (induction ds)
  case Nil
  then show ?case by simp
next
  case (Cons dir ds)
  obtain dr dc where dir: "dir = (dr, dc)" by (cases dir)
  with Cons.prems have unit: "c4_unit dr dc" "c4_unit (- dr) (- dc)" by auto
  from run_cells_run [OF unit(1)] obtain a where
    a: "run_cells g (int row) (int column) dr dc d = Some (c4_ray (int row) (int column) dr dc a)"
    and ra: "c4_run_of g (int row) (int column) dr dc d a" by blast
  from run_cells_run [OF unit(2)] obtain b where
    b: "run_cells g (int row) (int column) (- dr) (- dc) d = Some (c4_ray (int row) (int column) (- dr) (- dc) b)"
    and rb: "c4_run_of g (int row) (int column) (- dr) (- dc) d b" by blast
  note four = four_in_runs [OF here ra rb]
  have cells_d: "\<forall>(r, c) \<in> set (c4_ray (int row) (int column) er ec n). g r c = Some d"
    if "c4_run_of g (int row) (int column) er ec d n" for er ec n
    using that by (auto simp: c4_ray_def c4_run_of_def c4_at_def at_cell_Some simp del: upt_Suc)
  have lens: "length (c4_ray (int row) (int column) er ec n) = n" for er ec n
    by (simp add: c4_ray_def)
  have self: "g row column = Some d" using here by (simp add: c4_at_def at_cell_Some)
  show ?case
  proof (cases "4 \<le> 1 + a + b")
    case True
    then have "c4_through g row column d dir" using four by (simp add: c4_through_def dir)
    with True self cells_d [OF ra] cells_d [OF rb] show ?thesis
      by (auto simp: dir a b lens)
  next
    case False
    then have no: "\<not> c4_through g row column d dir" using four by (simp add: c4_through_def dir)
    have "c4_find_run (dir # ds) g row column d = c4_find_run ds g row column d"
      using False by (simp add: dir a b lens)
    with no Cons show ?thesis by simp
  qed
qed

section \<open>Interfaces\<close>

interpretation c4_engine: logged_engine apply_drop "\<lambda>s. c4_wf (c4_drops s)" c4_drops "\<lambda>s m. m"
proof
  fix s s' m out
  assume wf: "c4_wf (c4_drops s)" and ok: "apply_drop s m = Ok (s', out)"
  from c4_wf_grid [OF wf] obtain g where "c4_grid s = Some g" "c4_filled (c4_drops s) g" by blast
  from apply_drop_eq [OF this, of m] ok wf
  show "c4_wf (c4_drops s')" and "c4_drops s' = c4_drops s @ [m]"
    by (auto simp: Let_def c4_wf_dropped c4_dropped_def c4_wf_snoc split: if_splits)
next
  fix s :: c4_state and m
  assume "c4_wf (c4_drops s)"
  from c4_wf_grid [OF this] obtain g where "c4_grid s = Some g" "c4_filled (c4_drops s) g" by blast
  from apply_drop_eq [OF this, of m] show "apply_drop s m \<noteq> Panic" by (simp add: Let_def)
qed

interpretation c4_sides: two_sides c4_other "\<lambda>_. True" c4_user_of c4_disc_of
proof
  show "c4_other (c4_other c) = c" for c by (cases c) simp_all
  show "c4_other c \<noteq> c" for c by (cases c) simp_all
  show "c4_disc_of s u = Some c \<Longrightarrow> True \<and> c4_user_of s c = u" for s u c
    by (auto simp: c4_disc_of_def split: if_splits)
  show "c4_disc_of s (c4_user_of s c) \<noteq> None" for s c by (cases c) (simp_all add: c4_disc_of_def)
  show "d = c \<or> d = c4_other c" for c d by (cases c; cases d) simp_all
qed simp

section \<open>Properties\<close>

text \<open>
  Gravity. On a well-formed history a drop never panics; it is refused exactly off the board and
  on a full column, and otherwise the disc of the side to move lands on top of its column, the
  column is appended to the history, and replaying the new history gives the old grid plus that
  disc.
\<close>

theorem drop_lands_on_top:
  assumes "c4_wf (c4_drops s)"
  shows "case apply_drop s column of
      Panic \<Rightarrow> False
    | Err e \<Rightarrow>
        (e = C4OffBoard \<and> 7 \<le> column) \<or>
        (e = C4ColumnFull (column_label column) \<and> column < 7 \<and> count_list (c4_drops s) column = 6)
    | Ok (s', out) \<Rightarrow>
        column < 7 \<and> drop_row out = count_list (c4_drops s) column \<and> drop_row out < 6 \<and>
        drop_disc out = c4_turn s \<and> s' = s\<lparr>c4_drops := c4_drops s @ [column]\<rparr> \<and>
        c4_turn s' = c4_other (c4_turn s) \<and>
        (\<exists>g. c4_grid s = Some g \<and> g (drop_row out) column = None \<and>
             c4_grid s' = Some (set_cell g (drop_row out) column (Some (c4_turn s))))"
proof -
  from c4_wf_grid [OF assms] obtain g where g: "c4_grid s = Some g" "c4_filled (c4_drops s) g" by blast
  have six: "count_list (c4_drops s) column \<le> 6" using assms by (simp add: c4_wf_def)
  have turn: "c4_turn (c4_dropped s column) = c4_other (c4_turn s)"
    by (auto simp: c4_turn_def c4_dropped_def) presburger+
  show ?thesis
    using six turn c4_grid_dropped [OF g(1), of column] g
    by (auto simp: apply_drop_eq [OF g] Let_def c4_after_def c4_dropped_def c4_filled_def)
qed

theorem drop_lands_on_top_witness:
  "c4_wf (c4_drops (c4_new True 1 2)) \<and>
   (\<exists>s' out. apply_drop (c4_new True 1 2) 3 = Ok (s', out) \<and> drop_row out = 0)"
proof -
  have wf: "c4_wf (c4_drops (c4_new True 1 2))" by (simp add: c4_wf_def c4_new_def)
  from drop_lands_on_top [OF wf, of 3] wf show ?thesis
    by (auto simp: c4_new_def split: res.splits)
qed

text \<open>
  A match never wedges: whatever columns are submitted to a new match, valid or not, no call
  panics, every column holds at most six discs and the board at most forty-two.
\<close>

theorem connect4_session_safe:
  "\<exists>s. submit_all apply_drop (c4_new coin challenger claimer) columns = Ok s \<and>
       c4_wf (c4_drops s) \<and> length (c4_drops s) \<le> 42 \<and> length (c4_drops s) \<le> length columns"
proof -
  have wf0: "c4_wf (c4_drops (c4_new coin challenger claimer))"
    by (simp add: c4_wf_def c4_new_def split: prod.split)
  from c4_engine.session_ok [OF wf0, of columns] obtain s where
    s: "submit_all apply_drop (c4_new coin challenger claimer) columns = Ok s" "c4_wf (c4_drops s)" by blast
  from c4_engine.session_extends [OF wf0 s(1)] have "length (c4_drops s) \<le> length columns"
    by (auto simp: c4_new_def)
  moreover have "length (c4_drops s) \<le> 42" using s(2) by (rule c4_wf_length)
  ultimately show ?thesis using s by blast
qed


lemma c4_grid_start: "c4_grid (c4_new True 1 2) = Some empty_board"
  by (simp add: c4_grid_def c4_new_def)

lemma c4_no_line_start: "\<not> c4_has_line empty_board"
  by (auto simp: c4_has_line_def c4_line_def c4_at_def at_cell_def)


text \<open>
  C39. After an accepted drop, \<open>winning_line\<close> is set exactly when the drop connected; its cells then
  include the last disc, number at least four, and all hold the winner's colour.
\<close>

theorem winning_line_iff_connected:
  assumes wf: "c4_wf (c4_drops s)" and ok: "apply_drop s column = Ok (s', out)"
  shows "\<exists>g' res. c4_grid s' = Some g' \<and> winning_line s' = Some res \<and>
           (res \<noteq> None \<longleftrightarrow> connected out) \<and>
           (\<forall>cells. res = Some cells \<longrightarrow>
              4 \<le> length cells \<and> (drop_row out, column) \<in> set cells \<and>
              (\<forall>(r, c) \<in> set cells. g' r c = Some (drop_disc out)))"
proof -
  let ?row = "count_list (c4_drops s) column"
  from c4_wf_grid [OF wf] obtain g where g: "c4_grid s = Some g" "c4_filled (c4_drops s) g" by blast
  from ok have c: "column < 7" "?row < 6" and s': "s' = c4_dropped s column"
    and out: "connected out = c4_connects (c4_after s column g) ?row column (c4_turn s)"
      "drop_row out = ?row" "drop_disc out = c4_turn s"
    by (auto simp: apply_drop_eq [OF g] Let_def split: if_splits)
  note g' = c4_grid_dropped [OF g(1) c]
  have here: "c4_at (c4_after s column g) (int ?row) (int column) = Some (c4_turn s)"
    using c by (rule c4_at_after)
  have "last_drop s' = Some (?row, column)"
    by (simp add: last_drop_def s' c4_dropped_def Let_def length_filter_count)
  moreover have "c4_after s column g ?row column = Some (c4_turn s)"
    by (simp add: c4_after_def set_cell_apply)
  ultimately have "winning_line s' = c4_find_run C4_DIRECTIONS (c4_after s column g) ?row column (c4_turn s)"
    using c g' by (simp add: winning_line_def s')
  moreover have "\<forall>(dr, dc) \<in> set C4_DIRECTIONS. c4_unit dr dc \<and> c4_unit (- dr) (- dc)"
    using C4_DIRECTIONS_unit by blast
  ultimately show ?thesis
    using c4_find_run_result [OF here, of C4_DIRECTIONS] g' s' out by (simp add: c4_connects_def)
qed

theorem winning_line_iff_connected_witness:
  "\<exists>s' out. apply_drop (c4_new True 1 2) 6 = Ok (s', out) \<and>
     (\<exists>g' res. c4_grid s' = Some g' \<and> winning_line s' = Some res \<and> (res \<noteq> None \<longleftrightarrow> connected out))"
proof -
  have wf: "c4_wf (c4_drops (c4_new True 1 2))" by (simp add: c4_wf_def c4_new_def)
  have "c4_filled (c4_drops (c4_new True 1 2)) empty_board" by (simp add: c4_filled_def c4_new_def)
  from apply_drop_eq [OF c4_grid_start this, of 6] obtain s' out where
    ok: "apply_drop (c4_new True 1 2) 6 = Ok (s', out)"
    by (auto simp: Let_def c4_new_def)
  from winning_line_iff_connected [OF wf ok] ok show ?thesis by blast
qed

end
