(* ===== verification/Reversi.thy ===== *)
theory Reversi
  imports Prelude
begin

text \<open>
  Reversi (\<open>late-ssh/src/app/lobby/daily/reversi.rs\<close>). The stored state is the placement history;
  the board and the side on the clock are replayed from the four-disc opening, and a forced pass is
  never stored. Row 0 is the bottom rank, column 0 the \<open>a\<close> file.
\<close>

section \<open>Data\<close>

definition rv_SIZE :: nat where [simp]: "rv_SIZE = 8"
definition rv_STATE_VERSION :: nat where [simp]: "rv_STATE_VERSION = 1"

definition rv_cell_label :: "nat \<Rightarrow> nat \<Rightarrow> string" where
  "rv_cell_label row col = letter_from (CHR ''a'') (as_u8 col) # dec_string (row + 1)"

datatype rv_disc = RvBlack | RvWhite

fun rv_disc_label :: "rv_disc \<Rightarrow> string" where
  "rv_disc_label RvBlack = ''black''"
| "rv_disc_label RvWhite = ''white''"

fun rv_other :: "rv_disc \<Rightarrow> rv_disc" where
  "rv_other RvBlack = RvWhite"
| "rv_other RvWhite = RvBlack"

record rv_outcome =
  rv_mover :: rv_disc
  rv_flipped :: "(nat \<times> nat) list"
  rv_finished :: bool
  rv_draw :: bool
  rv_winner :: "rv_disc option"

definition rv_move_label :: "rv_outcome \<Rightarrow> nat \<Rightarrow> nat \<Rightarrow> string" where
  "rv_move_label out row col =
     (let spot = rv_cell_label row col
      in if \<not> rv_finished out then spot
         else (case rv_winner out of
                 Some disc \<Rightarrow> spot @ '', '' @ rv_disc_label disc @ '' wins''
               | None \<Rightarrow> spot @ '', draw''))"

record rv_state =
  rv_version :: nat
  rv_revision :: nat
  rv_black :: uuid
  rv_white :: uuid
  rv_moves :: "nat list"

datatype rv_error =
  RvCorrupt | RvUnsupportedVersion nat | RvOffBoard | RvTaken string | RvFlipsNothing string

section \<open>The board\<close>

type_synonym rv_grid = "rv_disc board"

definition rv_starting_grid :: rv_grid where
  "rv_starting_grid =
     set_cell (set_cell (set_cell (set_cell empty_board
       3 3 (Some RvWhite)) 3 4 (Some RvBlack)) 4 3 (Some RvBlack)) 4 4 (Some RvWhite)"

definition RV_DIRECTIONS :: "(int \<times> int) list" where
  "RV_DIRECTIONS = [(-1, -1), (-1, 0), (-1, 1), (0, -1), (0, 1), (1, -1), (1, 0), (1, 1)]"

text \<open>
  The inner \<open>while\<close> of \<open>flips_for\<close>: what one direction adds to the flips. The fuel is the board
  size: a ray leaves the board within eight steps, so the fuel never runs out.
\<close>

fun rv_line ::
  "nat \<Rightarrow> rv_grid \<Rightarrow> rv_disc \<Rightarrow> int \<Rightarrow> int \<Rightarrow> int \<Rightarrow> int \<Rightarrow> (nat \<times> nat) list \<Rightarrow> (nat \<times> nat) list" where
  "rv_line 0 grid disc r c dr dc line = []"
| "rv_line (Suc fuel) grid disc r c dr dc line =
     (if 0 \<le> r \<and> r < int rv_SIZE \<and> 0 \<le> c \<and> c < int rv_SIZE then
        (case grid (nat r) (nat c) of
           Some d \<Rightarrow>
             if d = rv_other disc
             then rv_line fuel grid disc (r + dr) (c + dc) dr dc (line @ [(nat r, nat c)])
             else line
         | None \<Rightarrow> [])
      else [])"

definition flips_for :: "rv_grid \<Rightarrow> nat \<Rightarrow> nat \<Rightarrow> rv_disc \<Rightarrow> (nat \<times> nat) list" where
  "flips_for grid row col disc =
     (if row \<ge> rv_SIZE \<or> col \<ge> rv_SIZE \<or> grid row col \<noteq> None then []
      else concat (map (\<lambda>(dr, dc). rv_line rv_SIZE grid disc (int row + dr) (int col + dc) dr dc [])
                     RV_DIRECTIONS))"

definition legal_cells :: "rv_grid \<Rightarrow> rv_disc \<Rightarrow> (nat \<times> nat) list" where
  "legal_cells grid disc =
     filter (\<lambda>(row, col). grid row col = None \<and> flips_for grid row col disc \<noteq> [])
       (squares rv_SIZE rv_SIZE)"

definition rv_count :: "rv_grid \<Rightarrow> nat \<times> nat" where
  "rv_count grid =
     (count_squares rv_SIZE rv_SIZE (\<lambda>(r, c). grid r c = Some RvBlack),
      count_squares rv_SIZE rv_SIZE (\<lambda>(r, c). grid r c = Some RvWhite))"

section \<open>Operations\<close>

definition rv_new :: "bool \<Rightarrow> uuid \<Rightarrow> uuid \<Rightarrow> rv_state" where
  "rv_new coin challenger claimer =
     (let (black, white) = (if coin then (challenger, claimer) else (claimer, challenger))
      in \<lparr>rv_version = rv_STATE_VERSION, rv_revision = 0, rv_black = black, rv_white = white, rv_moves = []\<rparr>)"

definition rv_parse :: "rv_state option \<Rightarrow> (rv_error, rv_state) res" where
  "rv_parse decoded =
     (case decoded of
        None \<Rightarrow> Err RvCorrupt
      | Some s \<Rightarrow> ensure (rv_version s = rv_STATE_VERSION) (RvUnsupportedVersion (rv_version s)) (Ok s))"

fun rv_user_of :: "rv_state \<Rightarrow> rv_disc \<Rightarrow> uuid" where
  "rv_user_of s RvBlack = rv_black s"
| "rv_user_of s RvWhite = rv_white s"

definition rv_disc_of :: "rv_state \<Rightarrow> uuid \<Rightarrow> rv_disc option" where
  "rv_disc_of s u = (if u = rv_black s then Some RvBlack else if u = rv_white s then Some RvWhite else None)"

text \<open>One stored placement: a side without a move has passed, then the disc and its flips go down.
  A stored square past the board is an index panic.\<close>

fun rv_replay_moves :: "rv_grid \<Rightarrow> rv_disc \<Rightarrow> nat list \<Rightarrow> (rv_grid \<times> rv_disc) option" where
  "rv_replay_moves grid turn [] = Some (grid, turn)"
| "rv_replay_moves grid turn (cell # cells) =
     (let turn' = (if legal_cells grid turn = [] then rv_other turn else turn);
          row = cell div rv_SIZE; col = cell mod rv_SIZE;
          grid' = set_cells grid (flips_for grid row col turn') (Some turn')
      in if row < rv_SIZE
         then rv_replay_moves (set_cell grid' row col (Some turn')) (rv_other turn') cells
         else None)"

definition rv_replay :: "rv_state \<Rightarrow> (rv_grid \<times> rv_disc) option" where
  "rv_replay s =
     map_option (\<lambda>(grid, turn).
       (grid, if legal_cells grid turn = [] \<and> legal_cells grid (rv_other turn) \<noteq> []
              then rv_other turn else turn))
     (rv_replay_moves rv_starting_grid RvBlack (rv_moves s))"

definition rv_grid_of :: "rv_state \<Rightarrow> rv_grid option" where
  "rv_grid_of s = map_option fst (rv_replay s)"

definition rv_turn :: "rv_state \<Rightarrow> rv_disc option" where
  "rv_turn s = map_option snd (rv_replay s)"

definition rv_over :: "rv_grid \<Rightarrow> bool" where
  "rv_over grid \<longleftrightarrow> legal_cells grid RvBlack = [] \<and> legal_cells grid RvWhite = []"

definition rv_is_finished :: "rv_state \<Rightarrow> bool option" where
  "rv_is_finished s = map_option rv_over (rv_grid_of s)"

definition disc_counts :: "rv_state \<Rightarrow> (nat \<times> nat) option" where
  "disc_counts s = map_option rv_count (rv_grid_of s)"

definition rv_legal_moves :: "rv_state \<Rightarrow> rv_disc \<Rightarrow> (nat \<times> nat) list option" where
  "rv_legal_moves s disc = map_option (\<lambda>grid. legal_cells grid disc) (rv_grid_of s)"

definition preview_flips :: "rv_state \<Rightarrow> nat \<Rightarrow> nat \<Rightarrow> rv_disc \<Rightarrow> (nat \<times> nat) list option" where
  "preview_flips s row col disc =
     map_option (\<lambda>grid.
       if row \<ge> rv_SIZE \<or> col \<ge> rv_SIZE \<or> grid row col \<noteq> None then []
       else flips_for grid row col disc) (rv_grid_of s)"

definition rv_last_move :: "rv_state \<Rightarrow> (nat \<times> nat) option" where
  "rv_last_move s =
     (if rv_moves s = [] then None
      else Some (last (rv_moves s) div rv_SIZE, last (rv_moves s) mod rv_SIZE))"

definition rv_move_count :: "rv_state \<Rightarrow> nat" where
  "rv_move_count s = length (rv_moves s)"

text \<open>The verdict of a finished board: \<open>black.cmp(&white)\<close>.\<close>

definition rv_verdict :: "rv_grid \<Rightarrow> rv_disc option \<times> bool" where
  "rv_verdict grid =
     (if rv_over grid then
        (case rv_count grid of (black, white) \<Rightarrow>
           if black > white then (Some RvBlack, False)
           else if black < white then (Some RvWhite, False)
           else (None, True))
      else (None, False))"

definition rv_apply_move :: "rv_state \<Rightarrow> nat \<times> nat \<Rightarrow> (rv_error, rv_state \<times> rv_outcome) res" where
  "rv_apply_move s = (\<lambda>(row, col).
     ensure (row < rv_SIZE \<and> col < rv_SIZE) RvOffBoard
       (expect (rv_replay s) (\<lambda>(grid, disc).
          ensure (grid row col = None) (RvTaken (rv_cell_label row col))
            (let flipped = flips_for grid row col disc
             in ensure (flipped \<noteq> []) (RvFlipsNothing (rv_cell_label row col))
                  (let grid' = set_cells (set_cell grid row col (Some disc)) flipped (Some disc);
                       s' = s\<lparr>rv_moves := rv_moves s @ [as_u8 (row * rv_SIZE + col)]\<rparr>;
                       (winner, draw) = rv_verdict grid'
                   in Ok (s', \<lparr>rv_mover = disc, rv_flipped = flipped, rv_finished = rv_over grid',
                               rv_draw = draw, rv_winner = winner\<rparr>))))))"

section \<open>Flips and brackets\<close>

definition rv_at :: "rv_grid \<Rightarrow> int \<Rightarrow> int \<Rightarrow> rv_disc option" where
  "rv_at = at_cell rv_SIZE rv_SIZE"

lemma rv_other_neq [simp]: "rv_other d \<noteq> d" "d \<noteq> rv_other d"
  by (cases d; simp)+

lemma rv_other_other [simp]: "rv_other (rv_other d) = d"
  by (cases d) simp_all

lemma rv_disc_cases: "e = d \<or> e = rv_other d"
  by (cases d; cases e) simp_all

text \<open>From \<open>(r, c)\<close> on, \<open>m\<close> opposing discs and then an own one.\<close>

definition rv_closes :: "rv_grid \<Rightarrow> rv_disc \<Rightarrow> int \<Rightarrow> int \<Rightarrow> int \<Rightarrow> int \<Rightarrow> nat \<Rightarrow> bool" where
  "rv_closes g d r c dr dc m \<longleftrightarrow>
     (\<forall>k < m. rv_at g (r + int k * dr) (c + int k * dc) = Some (rv_other d)) \<and>
     rv_at g (r + int m * dr) (c + int m * dc) = Some d"

definition rv_ray :: "int \<Rightarrow> int \<Rightarrow> int \<Rightarrow> int \<Rightarrow> nat \<Rightarrow> (nat \<times> nat) list" where
  "rv_ray r c dr dc m = map (\<lambda>k. (nat (r + int k * dr), nat (c + int k * dc))) [0..<m]"

lemma rv_ray_Suc: "rv_ray r c dr dc (Suc m) = (nat r, nat c) # rv_ray (r + dr) (c + dc) dr dc m"
proof -
  have "[0..<Suc m] = 0 # map Suc [0..<m]" by (simp add: upt_conv_Cons map_Suc_upt del: upt_Suc)
  then show ?thesis unfolding rv_ray_def by (simp add: algebra_simps del: upt_Suc)
qed

lemma rv_closes_Suc:
  "rv_closes g d r c dr dc (Suc m) \<longleftrightarrow>
     rv_at g r c = Some (rv_other d) \<and> rv_closes g d (r + dr) (c + dc) dr dc m"
proof -
  have "(\<forall>k < Suc m. P k) \<longleftrightarrow> P 0 \<and> (\<forall>k < m. P (Suc k))" for P :: "nat \<Rightarrow> bool"
    using less_Suc_eq_0_disj by auto
  then show ?thesis by (simp add: rv_closes_def algebra_simps)
qed

lemma rv_line_step:
  "rv_line (Suc n) g d r c dr dc acc =
     (case rv_at g r c of None \<Rightarrow> []
      | Some e \<Rightarrow> if e = rv_other d then rv_line n g d (r + dr) (c + dc) dr dc (acc @ [(nat r, nat c)])
                  else acc)"
  by (simp add: rv_at_def at_cell_def in_board_def split: option.split)

lemma rv_line_closed:
  "rv_closes g d r c dr dc m \<Longrightarrow> m < n \<Longrightarrow> rv_line n g d r c dr dc acc = acc @ rv_ray r c dr dc m"
proof (induction m arbitrary: n r c acc)
  case 0
  then obtain n' where "n = Suc n'" by (cases n) auto
  with 0 show ?case by (simp add: rv_line_step rv_closes_def rv_ray_def del: rv_line.simps)
next
  case (Suc m)
  then obtain n' where n: "n = Suc n'" by (cases n) auto
  from Suc n show ?case
    by (simp add: rv_line_step rv_closes_Suc rv_ray_Suc del: rv_line.simps)
qed

lemma rv_line_open:
  "\<nexists>m. m < n \<and> rv_closes g d r c dr dc m \<Longrightarrow> rv_line n g d r c dr dc acc = []"
proof (induction n arbitrary: r c acc)
  case 0
  then show ?case by simp
next
  case (Suc n)
  have "\<not> rv_closes g d r c dr dc 0" using Suc.prems by blast
  then have own: "rv_at g r c \<noteq> Some d" by (simp add: rv_closes_def)
  show ?case
  proof (cases "rv_at g r c = Some (rv_other d)")
    case True
    then have "\<nexists>m. m < n \<and> rv_closes g d (r + dr) (c + dc) dr dc m"
      using Suc.prems rv_closes_Suc by blast
    from Suc.IH [OF this] True show ?thesis by (simp add: rv_line_step del: rv_line.simps)
  next
    case False
    have "rv_at g r c = None"
    proof (cases "rv_at g r c")
      case (Some e)
      with own False rv_disc_cases [of e d] show ?thesis by auto
    qed
    then show ?thesis by (simp add: rv_line_step del: rv_line.simps)
  qed
qed

lemma rv_closes_short:
  assumes "row < 8" and "col < 8" and "(dr, dc) \<in> set RV_DIRECTIONS"
    and "rv_closes g d (int row + dr) (int col + dc) dr dc m"
  shows "m < 8"
proof -
  from assms(4) have "in_board 8 8 (int row + dr + int m * dr) (int col + dc + int m * dc)"
    by (simp add: rv_closes_def rv_at_def at_cell_Some)
  with assms(1-3) show ?thesis by (auto simp: RV_DIRECTIONS_def in_board_def)
qed

text \<open>The fuel of the ray walk is never exhausted: more fuel gives the same line.\<close>

lemma rv_line_fuel:
  assumes "row < 8" and "col < 8" and "(dr, dc) \<in> set RV_DIRECTIONS" and "8 \<le> n"
  shows "rv_line n g d (int row + dr) (int col + dc) dr dc [] = rv_line 8 g d (int row + dr) (int col + dc) dr dc []"
proof (cases "\<exists>m. rv_closes g d (int row + dr) (int col + dc) dr dc m")
  case True
  then obtain m where m: "rv_closes g d (int row + dr) (int col + dc) dr dc m" by blast
  from rv_closes_short [OF assms(1-3) m] have "m < 8" .
  with assms(4) show ?thesis by (simp add: rv_line_closed [OF m])
next
  case False
  then show ?thesis by (simp add: rv_line_open del: rv_line.simps)
qed

lemma set_rv_line:
  assumes "row < 8" and "col < 8" and "(dr, dc) \<in> set RV_DIRECTIONS"
  shows "x \<in> set (rv_line 8 g d (int row + dr) (int col + dc) dr dc []) \<longleftrightarrow>
    (\<exists>m. rv_closes g d (int row + dr) (int col + dc) dr dc m \<and> x \<in> set (rv_ray (int row + dr) (int col + dc) dr dc m))"
    (is "?L \<longleftrightarrow> ?R")
proof
  assume ?L
  then have "\<exists>m. m < 8 \<and> rv_closes g d (int row + dr) (int col + dc) dr dc m"
    using rv_line_open [of 8 g d "int row + dr" "int col + dc" dr dc "[]"] by (metis empty_iff list.set(1))
  then obtain m where "m < 8" "rv_closes g d (int row + dr) (int col + dc) dr dc m" by blast
  with \<open>?L\<close> show ?R by (auto simp: rv_line_closed)
next
  assume ?R
  then obtain m where m: "rv_closes g d (int row + dr) (int col + dc) dr dc m"
    and x: "x \<in> set (rv_ray (int row + dr) (int col + dc) dr dc m)" by blast
  from rv_closes_short [OF assms m] have "m < 8" .
  with x show ?L by (simp add: rv_line_closed [OF m])
qed

text \<open>The declarative rule: a square flips when it lies strictly between the placed disc and an own
  disc on one of the eight lines, with opposing discs all the way.\<close>

definition rv_bracketed :: "rv_grid \<Rightarrow> rv_disc \<Rightarrow> nat \<Rightarrow> nat \<Rightarrow> nat \<times> nat \<Rightarrow> bool" where
  "rv_bracketed g d row col x \<longleftrightarrow>
     (\<exists>dr dc n j. dr \<in> {-1, 0, 1} \<and> dc \<in> {-1, 0, 1} \<and> (dr, dc) \<noteq> (0, 0) \<and> 1 \<le> j \<and> j < n \<and>
        int (fst x) = int row + j * dr \<and> int (snd x) = int col + j * dc \<and>
        rv_at g (int row + n * dr) (int col + n * dc) = Some d \<and>
        (\<forall>i. 1 \<le> i \<and> i < n \<longrightarrow> rv_at g (int row + i * dr) (int col + i * dc) = Some (rv_other d)))"

lemma rv_directions_iff: "(dr, dc) \<in> set RV_DIRECTIONS \<longleftrightarrow>
    dr \<in> {-1, 0, 1} \<and> dc \<in> {-1, 0, 1} \<and> (dr, dc) \<noteq> (0, 0)"
  by (auto simp: RV_DIRECTIONS_def)

lemma rv_closes_bracket:
  "rv_closes g d (int row + dr) (int col + dc) dr dc m \<longleftrightarrow>
     rv_at g (int row + (int m + 1) * dr) (int col + (int m + 1) * dc) = Some d \<and>
     (\<forall>i. 1 \<le> i \<and> i < int m + 1 \<longrightarrow> rv_at g (int row + i * dr) (int col + i * dc) = Some (rv_other d))"
proof -
  have "(\<forall>k < m. rv_at g (int row + dr + int k * dr) (int col + dc + int k * dc) = Some (rv_other d)) \<longleftrightarrow>
    (\<forall>i. 1 \<le> i \<and> i < int m + 1 \<longrightarrow> rv_at g (int row + i * dr) (int col + i * dc) = Some (rv_other d))"
  proof (intro iffI allI impI)
    fix i :: int
    assume *: "\<forall>k < m. rv_at g (int row + dr + int k * dr) (int col + dc + int k * dc) = Some (rv_other d)"
      and i: "1 \<le> i \<and> i < int m + 1"
    from i have "nat (i - 1) < m" by auto
    with * have "rv_at g (int row + dr + int (nat (i - 1)) * dr) (int col + dc + int (nat (i - 1)) * dc) =
        Some (rv_other d)" by blast
    with i show "rv_at g (int row + i * dr) (int col + i * dc) = Some (rv_other d)"
      by (simp add: algebra_simps)
  next
    fix k
    assume *: "\<forall>i. 1 \<le> i \<and> i < int m + 1 \<longrightarrow>
        rv_at g (int row + i * dr) (int col + i * dc) = Some (rv_other d)" and "k < m"
    then have "rv_at g (int row + (int k + 1) * dr) (int col + (int k + 1) * dc) = Some (rv_other d)" by auto
    then show "rv_at g (int row + dr + int k * dr) (int col + dc + int k * dc) = Some (rv_other d)"
      by (simp add: algebra_simps)
  qed
  then show ?thesis by (auto simp: rv_closes_def algebra_simps)
qed

lemma rv_ray_bracket:
  assumes "rv_closes g d (int row + dr) (int col + dc) dr dc m" and "row < 8" and "col < 8"
  shows "x \<in> set (rv_ray (int row + dr) (int col + dc) dr dc m) \<longleftrightarrow>
    (\<exists>j. 1 \<le> j \<and> j < int m + 1 \<and> int (fst x) = int row + j * dr \<and> int (snd x) = int col + j * dc)"
    (is "?L \<longleftrightarrow> ?R")
proof -
  have on: "0 \<le> int row + dr + int k * dr \<and> 0 \<le> int col + dc + int k * dc" if "k < m" for k
  proof -
    from assms(1) that have "rv_at g (int row + dr + int k * dr) (int col + dc + int k * dc) = Some (rv_other d)"
      by (simp add: rv_closes_def)
    then show ?thesis by (simp add: rv_at_def at_cell_Some in_board_def)
  qed
  show ?thesis
  proof
    assume ?L
    then obtain k where k: "k < m" "x = (nat (int row + dr + int k * dr), nat (int col + dc + int k * dc))"
      by (auto simp: rv_ray_def)
    with on [OF k(1)] show ?R by (intro exI [of _ "int k + 1"]) (auto simp: algebra_simps)
  next
    assume ?R
    then obtain j where j: "1 \<le> j" "j < int m + 1" "int (fst x) = int row + j * dr" "int (snd x) = int col + j * dc"
      by blast
    then have "x = (nat (int row + dr + int (nat (j - 1)) * dr), nat (int col + dc + int (nat (j - 1)) * dc))"
      by (cases x) (auto simp: algebra_simps)
    moreover have "nat (j - 1) < m" using j by auto
    ultimately show ?L unfolding rv_ray_def by force
  qed
qed

lemma set_flips_for:
  assumes "row < 8" and "col < 8" and "g row col = None"
  shows "x \<in> set (flips_for g row col d) \<longleftrightarrow> rv_bracketed g d row col x"
    (is "?L \<longleftrightarrow> ?R")
proof -
  have "?L \<longleftrightarrow> (\<exists>(dr, dc) \<in> set RV_DIRECTIONS. x \<in> set (rv_line 8 g d (int row + dr) (int col + dc) dr dc []))"
    using assms by (auto simp: flips_for_def simp del: rv_line.simps)
  also have "\<dots> \<longleftrightarrow> (\<exists>(dr, dc) \<in> set RV_DIRECTIONS. \<exists>m.
      rv_closes g d (int row + dr) (int col + dc) dr dc m \<and> x \<in> set (rv_ray (int row + dr) (int col + dc) dr dc m))"
    by (intro bex_cong refl) (auto simp: set_rv_line [OF assms(1,2)] simp del: rv_line.simps)
  also have "\<dots> \<longleftrightarrow> ?R"
  proof
    assume "\<exists>(dr, dc) \<in> set RV_DIRECTIONS. \<exists>m. rv_closes g d (int row + dr) (int col + dc) dr dc m \<and>
      x \<in> set (rv_ray (int row + dr) (int col + dc) dr dc m)"
    then obtain dr dc m where dir: "(dr, dc) \<in> set RV_DIRECTIONS"
      and m: "rv_closes g d (int row + dr) (int col + dc) dr dc m"
      and x: "x \<in> set (rv_ray (int row + dr) (int col + dc) dr dc m)" by blast
    from x rv_ray_bracket [OF m assms(1,2)] obtain j where
      "1 \<le> j" "j < int m + 1" "int (fst x) = int row + j * dr" "int (snd x) = int col + j * dc" by blast
    with dir m show ?R unfolding rv_bracketed_def rv_directions_iff rv_closes_bracket by blast
  next
    assume ?R
    then obtain dr dc n j where dir: "(dr, dc) \<in> set RV_DIRECTIONS" and j: "1 \<le> j" "j < n"
      "int (fst x) = int row + j * dr" "int (snd x) = int col + j * dc"
      and n: "rv_at g (int row + n * dr) (int col + n * dc) = Some d"
        "\<forall>i. 1 \<le> i \<and> i < n \<longrightarrow> rv_at g (int row + i * dr) (int col + i * dc) = Some (rv_other d)"
      unfolding rv_bracketed_def rv_directions_iff by blast
    have "int (nat (n - 1)) + 1 = n" using j by auto
    with n have m: "rv_closes g d (int row + dr) (int col + dc) dr dc (nat (n - 1))"
      by (simp add: rv_closes_bracket)
    with j have "x \<in> set (rv_ray (int row + dr) (int col + dc) dr dc (nat (n - 1)))"
      unfolding rv_ray_bracket [OF m assms(1,2)] by (intro exI [of _ j]) auto
    with dir m show "\<exists>(dr, dc) \<in> set RV_DIRECTIONS. \<exists>m. rv_closes g d (int row + dr) (int col + dc) dr dc m \<and>
      x \<in> set (rv_ray (int row + dr) (int col + dc) dr dc m)" by blast
  qed
  finally show ?thesis .
qed

lemma distinct_rv_ray:
  assumes "rv_closes g d r c dr dc m" and "(dr, dc) \<in> set RV_DIRECTIONS"
  shows "distinct (rv_ray r c dr dc m)"
proof -
  have on: "0 \<le> r + int k * dr \<and> 0 \<le> c + int k * dc" if "k < m" for k
  proof -
    from assms(1) that have "rv_at g (r + int k * dr) (c + int k * dc) = Some (rv_other d)"
      by (simp add: rv_closes_def)
    then show ?thesis by (simp add: rv_at_def at_cell_Some in_board_def)
  qed
  have "i = j" if ij: "i < m" "j < m" "nat (r + int i * dr) = nat (r + int j * dr)" "nat (c + int i * dc) = nat (c + int j * dc)"
    for i j
  proof -
    from on [OF ij(1)] on [OF ij(2)] have "r + int i * dr = r + int j * dr" "c + int i * dc = c + int j * dc"
      using ij(3,4) by (simp_all only: eq_nat_nat_iff)
    then have "int i * dr = int j * dr" "int i * dc = int j * dc" by simp_all
    with assms(2) show ?thesis by (auto simp: RV_DIRECTIONS_def)
  qed
  then show ?thesis by (auto simp: rv_ray_def distinct_map intro!: inj_onI)
qed

lemma flips_for_illegal: "8 \<le> row \<or> 8 \<le> col \<or> g row col \<noteq> None \<Longrightarrow> flips_for g row col d = []"
  by (auto simp: flips_for_def)

text \<open>Every flipped square is on the board and holds an opposing disc.\<close>

lemma flips_for_opposing:
  assumes "(x, y) \<in> set (flips_for g row col d)"
  shows "x < 8 \<and> y < 8 \<and> g x y = Some (rv_other d)"
proof -
  have here: "row < 8" "col < 8" "g row col = None"
    using assms flips_for_illegal [of row col g d] by (metis empty_iff list.set(1) not_le)+
  from assms set_flips_for [where g = g and d = d and x = "(x, y)", OF here]
  have "rv_bracketed g d row col (x, y)" by blast
  then obtain dr dc j where "int x = int row + j * dr" "int y = int col + j * dc"
    and "rv_at g (int row + j * dr) (int col + j * dc) = Some (rv_other d)"
    unfolding rv_bracketed_def by auto
  then have "rv_at g (int x) (int y) = Some (rv_other d)" by simp
  then show ?thesis by (auto simp: rv_at_def at_cell_Some in_board_def)
qed

lemma distinct_flips_for: "distinct (flips_for g row col d)"
proof (cases "row < 8 \<and> col < 8 \<and> g row col = None")
  case False
  then have "flips_for g row col d = []" by (intro flips_for_illegal) auto
  then show ?thesis by simp
next
  case True
  let ?f = "\<lambda>(dr, dc). rv_line 8 g d (int row + dr) (int col + dc) dr dc []"
  let ?key = "\<lambda>(x, y). (sgn (int x - int row), sgn (int y - int col))"
  have line: "?f (dr, dc) = [] \<or> (\<exists>m. rv_closes g d (int row + dr) (int col + dc) dr dc m \<and>
      ?f (dr, dc) = rv_ray (int row + dr) (int col + dc) dr dc m)" for dr dc
    using rv_line_open [of 8 g d "int row + dr" "int col + dc" dr dc "[]"]
      rv_line_closed [of g d "int row + dr" "int col + dc" dr dc _ 8 "[]"] by auto
  have "distinct (concat (map ?f RV_DIRECTIONS))"
  proof (rule distinct_concat_key [where key = ?key])
    show "distinct RV_DIRECTIONS" by (simp add: RV_DIRECTIONS_def)
  next
    fix dir
    assume dir: "dir \<in> set RV_DIRECTIONS"
    obtain dr dc where d: "dir = (dr, dc)" by (cases dir)
    show "distinct (?f dir)"
    proof (cases "?f dir = []")
      case True
      then show ?thesis by simp
    next
      case False
      with line [of dr dc] d obtain m where m: "rv_closes g d (int row + dr) (int col + dc) dr dc m"
        and f: "?f dir = rv_ray (int row + dr) (int col + dc) dr dc m" by auto
      show ?thesis unfolding f by (rule distinct_rv_ray [OF m dir [unfolded d]])
    qed
  next
    fix dir x
    assume dir: "dir \<in> set RV_DIRECTIONS" and x: "x \<in> set (?f dir)"
    obtain dr dc where d: "dir = (dr, dc)" by (cases dir)
    from x line [of dr dc] d obtain m where m: "rv_closes g d (int row + dr) (int col + dc) dr dc m"
      and f: "x \<in> set (rv_ray (int row + dr) (int col + dc) dr dc m)" by auto
    from f rv_ray_bracket [OF m] True obtain j where
      j: "1 \<le> j" "int (fst x) = int row + j * dr" "int (snd x) = int col + j * dc" by auto
    then have "?key x = (sgn (j * dr), sgn (j * dc))" by (cases x) simp
    also have "\<dots> = dir" using j(1) dir d by (auto simp: RV_DIRECTIONS_def)
    finally show "?key x = dir" .
  qed
  with True show ?thesis by (auto simp: flips_for_def simp del: rv_line.simps)
qed

section \<open>Counting discs\<close>

definition rv_discs :: "rv_grid \<Rightarrow> rv_disc \<Rightarrow> nat" where
  "rv_discs g d = count_squares rv_SIZE rv_SIZE (\<lambda>(r, c). g r c = Some d)"

definition rv_total :: "rv_grid \<Rightarrow> nat" where
  "rv_total g = rv_discs g RvBlack + rv_discs g RvWhite"

lemma rv_count_discs: "rv_count g = (rv_discs g RvBlack, rv_discs g RvWhite)"
  by (simp add: rv_count_def rv_discs_def)

definition rv_squares_of :: "rv_grid \<Rightarrow> rv_disc \<Rightarrow> (nat \<times> nat) set" where
  "rv_squares_of g d = {(r, c). r < 8 \<and> c < 8 \<and> g r c = Some d}"

lemma rv_discs_card: "rv_discs g d = card (rv_squares_of g d)"
  unfolding rv_discs_def count_squares_card rv_squares_of_def
  by (rule arg_cong [where f = card]) auto

lemma rv_squares_finite [simp]: "finite (rv_squares_of g d)"
  by (rule finite_subset [of _ "{..<8} \<times> {..<8}"]) (auto simp: rv_squares_of_def)

lemma rv_total_card: "rv_total g = card (rv_squares_of g RvBlack \<union> rv_squares_of g RvWhite)"
  unfolding rv_total_def rv_discs_card
  by (rule card_Un_disjoint [symmetric, OF rv_squares_finite rv_squares_finite])
    (auto simp: rv_squares_of_def)

lemma rv_total_le: "rv_total g \<le> 64"
proof -
  have "card (rv_squares_of g RvBlack \<union> rv_squares_of g RvWhite) \<le> card ({..<8::nat} \<times> {..<8::nat})"
    by (rule card_mono) (auto simp: rv_squares_of_def)
  then show ?thesis by (simp add: rv_total_card)
qed

text \<open>The board after a placement and its flips.\<close>

definition rv_placed :: "rv_grid \<Rightarrow> rv_disc \<Rightarrow> nat \<Rightarrow> nat \<Rightarrow> rv_grid" where
  "rv_placed g d row col = set_cells (set_cell g row col (Some d)) (flips_for g row col d) (Some d)"

lemma rv_placed_replay:
  "set_cell (set_cells g (flips_for g row col d) (Some d)) row col (Some d) = rv_placed g d row col"
  by (intro ext) (simp add: rv_placed_def set_cells_apply set_cell_apply)

lemma rv_placed_discs:
  assumes "row < 8" and "col < 8" and "g row col = None"
  shows "rv_discs (rv_placed g d row col) d = rv_discs g d + 1 + length (flips_for g row col d)"
    and "rv_discs (rv_placed g d row col) (rv_other d) + length (flips_for g row col d) = rv_discs g (rv_other d)"
proof -
  let ?F = "set (flips_for g row col d)"
  have F: "?F \<subseteq> rv_squares_of g (rv_other d)"
    using flips_for_opposing by (auto simp: rv_squares_of_def)
  have len: "card ?F = length (flips_for g row col d)"
    by (rule distinct_card) (rule distinct_flips_for)
  have new: "(row, col) \<notin> ?F" using F assms(3) by (auto simp: rv_squares_of_def)
  have own: "rv_squares_of (rv_placed g d row col) d = rv_squares_of g d \<union> insert (row, col) ?F"
    using assms F by (auto simp: rv_squares_of_def rv_placed_def set_cells_apply set_cell_apply)
  have disj: "rv_squares_of g d \<inter> insert (row, col) ?F = {}"
    using assms(3) F by (auto simp: rv_squares_of_def)
  have "card (rv_squares_of g d \<union> insert (row, col) ?F) = card (rv_squares_of g d) + card (insert (row, col) ?F)"
    by (rule card_Un_disjoint [OF _ _ disj]) simp_all
  with new len show "rv_discs (rv_placed g d row col) d = rv_discs g d + 1 + length (flips_for g row col d)"
    by (simp add: rv_discs_card own)
  have opp: "rv_squares_of (rv_placed g d row col) (rv_other d) = rv_squares_of g (rv_other d) - ?F"
    using assms(3) by (auto simp: rv_squares_of_def rv_placed_def set_cells_apply set_cell_apply)
  have "card (rv_squares_of g (rv_other d) - ?F) = card (rv_squares_of g (rv_other d)) - card ?F"
    by (rule card_Diff_subset) (simp_all add: F)
  moreover have "card ?F \<le> card (rv_squares_of g (rv_other d))" by (rule card_mono [OF _ F]) simp
  ultimately show "rv_discs (rv_placed g d row col) (rv_other d) + length (flips_for g row col d) = rv_discs g (rv_other d)"
    by (simp add: rv_discs_card opp len)
qed

lemma rv_total_sides: "rv_total g = rv_discs g d + rv_discs g (rv_other d)"
  by (cases d) (simp_all add: rv_total_def)

lemma rv_placed_total:
  assumes "row < 8" and "col < 8" and "g row col = None"
  shows "rv_total (rv_placed g d row col) = rv_total g + 1"
  using rv_placed_discs [where g = g and d = d, OF assms] by (simp add: rv_total_sides [of _ d])

lemma rv_total_start: "rv_total rv_starting_grid = 4"
proof -
  have "rv_squares_of rv_starting_grid RvBlack = {(3, 4), (4, 3)}"
    by (auto simp: rv_squares_of_def rv_starting_grid_def set_cell_apply split: if_splits)
  moreover have "rv_squares_of rv_starting_grid RvWhite = {(3, 3), (4, 4)}"
    by (auto simp: rv_squares_of_def rv_starting_grid_def set_cell_apply split: if_splits)
  ultimately show ?thesis by (simp add: rv_total_def rv_discs_card)
qed

section \<open>Replay and moves\<close>

lemma legal_cells_iff:
  "(row, col) \<in> set (legal_cells g d) \<longleftrightarrow>
     row < 8 \<and> col < 8 \<and> g row col = None \<and> flips_for g row col d \<noteq> []"
  by (auto simp: legal_cells_def)

lemma rv_replay_append:
  "rv_replay_moves g t (xs @ ys) =
     Option.bind (rv_replay_moves g t xs) (\<lambda>(g', t'). rv_replay_moves g' t' ys)"
  by (induction xs arbitrary: g t) (simp_all add: Let_def)

text \<open>The side on the clock: the natural one, or the other one when it must pass.\<close>

definition rv_clock :: "rv_grid \<Rightarrow> rv_disc \<Rightarrow> rv_disc" where
  "rv_clock g t = (if legal_cells g t = [] \<and> legal_cells g (rv_other t) \<noteq> [] then rv_other t else t)"

definition rv_inv :: "rv_state \<Rightarrow> bool" where
  "rv_inv s \<longleftrightarrow> (\<exists>g t. rv_replay_moves rv_starting_grid RvBlack (rv_moves s) = Some (g, t) \<and>
                      rv_total g = 4 + length (rv_moves s))"

lemma rv_over_clock: "rv_over g \<longleftrightarrow> legal_cells g (rv_clock g t) = []"
  by (cases t) (auto simp: rv_over_def rv_clock_def)

lemma rv_replay_clock:
  "rv_replay_moves rv_starting_grid RvBlack (rv_moves s) = Some (g, t) \<Longrightarrow> rv_replay s = Some (g, rv_clock g t)"
  by (simp add: rv_replay_def rv_clock_def)

lemma rv_apply_move_eq:
  assumes "rv_replay s = Some (g, d)"
  shows "rv_apply_move s (row, col) =
    (if \<not> (row < 8 \<and> col < 8) then Err RvOffBoard
     else if g row col \<noteq> None then Err (RvTaken (rv_cell_label row col))
     else if flips_for g row col d = [] then Err (RvFlipsNothing (rv_cell_label row col))
     else Ok (s\<lparr>rv_moves := rv_moves s @ [row * 8 + col]\<rparr>,
              \<lparr>rv_mover = d, rv_flipped = flips_for g row col d,
               rv_finished = rv_over (rv_placed g d row col),
               rv_draw = snd (rv_verdict (rv_placed g d row col)),
               rv_winner = fst (rv_verdict (rv_placed g d row col))\<rparr>))"
  using assms by (auto simp: rv_apply_move_def ensure_def Let_def rv_placed_def split: prod.split)

lemma rv_replay_after:
  assumes "rv_replay_moves rv_starting_grid RvBlack (rv_moves s) = Some (g, t)"
    and "(row, col) \<in> set (legal_cells g (rv_clock g t))"
  shows "rv_replay_moves rv_starting_grid RvBlack (rv_moves s @ [row * 8 + col]) =
    Some (rv_placed g (rv_clock g t) row col, rv_other (rv_clock g t))"
proof -
  have legal: "legal_cells g (rv_clock g t) \<noteq> []" using assms(2) by auto
  then have "(if legal_cells g t = [] then rv_other t else t) = rv_clock g t"
    by (auto simp: rv_clock_def)
  moreover have "row < 8" "col < 8" using assms(2) by (simp_all add: legal_cells_iff)
  ultimately show ?thesis
    using assms(1) by (simp add: rv_replay_append Let_def rv_placed_replay)
qed

lemma rv_apply_ok:
  assumes rep: "rv_replay_moves rv_starting_grid RvBlack (rv_moves s) = Some (g, t)"
    and ok: "rv_apply_move s (row, col) = Ok (s', out)"
  shows "(row, col) \<in> set (legal_cells g (rv_clock g t))"
    and "s' = s\<lparr>rv_moves := rv_moves s @ [row * 8 + col]\<rparr>"
    and "rv_replay_moves rv_starting_grid RvBlack (rv_moves s') =
      Some (rv_placed g (rv_clock g t) row col, rv_other (rv_clock g t))"
proof -
  note eq = rv_apply_move_eq [OF rv_replay_clock [OF rep]]
  from ok show legal: "(row, col) \<in> set (legal_cells g (rv_clock g t))"
    and s': "s' = s\<lparr>rv_moves := rv_moves s @ [row * 8 + col]\<rparr>"
    by (auto simp: eq legal_cells_iff split: if_splits)
  from rv_replay_after [OF rep legal] s'
  show "rv_replay_moves rv_starting_grid RvBlack (rv_moves s') =
      Some (rv_placed g (rv_clock g t) row col, rv_other (rv_clock g t))" by simp
qed

section \<open>Interfaces\<close>

interpretation rv_engine: logged_engine rv_apply_move rv_inv rv_moves "\<lambda>s m. fst m * 8 + snd m"
proof
  fix s s' :: rv_state and m out
  assume inv: "rv_inv s" and ok: "rv_apply_move s m = Ok (s', out)"
  obtain row col where m: "m = (row, col)" by (cases m)
  from inv obtain g t where rep: "rv_replay_moves rv_starting_grid RvBlack (rv_moves s) = Some (g, t)"
    and total: "rv_total g = 4 + length (rv_moves s)" by (auto simp: rv_inv_def)
  note res = rv_apply_ok [OF rep ok [unfolded m]]
  from res(1) have "row < 8" "col < 8" "g row col = None" by (simp_all add: legal_cells_iff)
  from rv_placed_total [where g = g and d = "rv_clock g t", OF this] total res(2,3) show "rv_inv s'"
    by (simp add: rv_inv_def)
  from res(2) show "rv_moves s' = rv_moves s @ [fst m * 8 + snd m]" by (simp add: m)
next
  fix s :: rv_state and m
  assume "rv_inv s"
  then obtain g t where rep: "rv_replay_moves rv_starting_grid RvBlack (rv_moves s) = Some (g, t)"
    by (auto simp: rv_inv_def)
  show "rv_apply_move s m \<noteq> Panic"
    by (cases m) (simp add: rv_apply_move_eq [OF rv_replay_clock [OF rep]])
qed

interpretation rv_sides: two_sides rv_other "\<lambda>_. True" rv_user_of rv_disc_of
proof
  show "rv_disc_of s u = Some c \<Longrightarrow> True \<and> rv_user_of s c = u" for s u c
    by (auto simp: rv_disc_of_def split: if_splits)
  show "rv_disc_of s (rv_user_of s c) \<noteq> None" for s c by (cases c) (simp_all add: rv_disc_of_def)
  show "d = c \<or> d = rv_other c" for c d by (rule rv_disc_cases)
qed simp_all

lemma rv_inv_new: "rv_inv (rv_new coin challenger claimer)"
  by (simp add: rv_inv_def rv_new_def rv_total_start split: prod.split)

section \<open>Properties\<close>

text \<open>
  C37. The flips of a placement are exactly the bracketed squares: on an empty square of the board,
  a square is turned over if and only if it lies strictly between the new disc and an own disc on
  one of the eight lines with opposing discs all the way; none is listed twice.
\<close>

theorem flips_are_the_brackets:
  assumes "row < 8" and "col < 8" and "g row col = None"
  shows "distinct (flips_for g row col d) \<and>
         (\<forall>x. x \<in> set (flips_for g row col d) \<longleftrightarrow> rv_bracketed g d row col x)"
  using set_flips_for [where g = g and d = d, OF assms] distinct_flips_for by blast

theorem flips_are_the_brackets_witness:
  "distinct (flips_for rv_starting_grid 2 3 RvBlack) \<and>
   (\<forall>x. x \<in> set (flips_for rv_starting_grid 2 3 RvBlack) \<longleftrightarrow> rv_bracketed rv_starting_grid RvBlack 2 3 x)"
  by (rule flips_are_the_brackets)
    (simp_all add: rv_starting_grid_def set_cell_apply)

text \<open>
  A submitted square is accepted exactly when it is legal for the side on the clock (which a
  forced pass may have changed); the accepted move adds one disc to the mover plus the flipped
  ones, takes the flipped ones from the opponent, and the board that later replays rebuild from the
  history is the board the move computed.
\<close>

theorem reversi_move_counts:
  assumes "rv_inv s"
  shows "\<exists>g d. rv_replay s = Some (g, d) \<and>
    (case rv_apply_move s (row, col) of
       Panic \<Rightarrow> False
     | Err e \<Rightarrow> (row, col) \<notin> set (legal_cells g d)
     | Ok (s', out) \<Rightarrow>
         (row, col) \<in> set (legal_cells g d) \<and> rv_mover out = d \<and>
         rv_grid_of s' = Some (rv_placed g d row col) \<and>
         rv_discs (rv_placed g d row col) d = rv_discs g d + 1 + length (rv_flipped out) \<and>
         rv_discs (rv_placed g d row col) (rv_other d) + length (rv_flipped out) = rv_discs g (rv_other d))"
proof -
  from assms obtain g t where rep: "rv_replay_moves rv_starting_grid RvBlack (rv_moves s) = Some (g, t)"
    by (auto simp: rv_inv_def)
  let ?d = "rv_clock g t"
  note clock = rv_replay_clock [OF rep]
  show ?thesis
  proof (cases "(row, col) \<in> set (legal_cells g ?d)")
    case False
    then show ?thesis using clock
      by (intro exI [of _ g] exI [of _ ?d]) (auto simp: rv_apply_move_eq [OF clock] legal_cells_iff)
  next
    case True
    then have on: "row < 8" "col < 8" "g row col = None" and fl: "flips_for g row col ?d \<noteq> []"
      by (simp_all add: legal_cells_iff)
    obtain s' out where ok: "rv_apply_move s (row, col) = Ok (s', out)"
      and out: "rv_mover out = ?d" "rv_flipped out = flips_for g row col ?d"
      using on fl by (simp add: rv_apply_move_eq [OF clock])
    have "rv_grid_of s' = Some (rv_placed g ?d row col)"
      using rv_replay_clock [OF rv_apply_ok(3) [OF rep ok]] by (simp add: rv_grid_of_def)
    with clock ok out True rv_placed_discs [where g = g and d = ?d, OF on] show ?thesis by simp
  qed
qed

theorem reversi_move_counts_witness:
  "rv_inv (rv_new True 1 2) \<and>
   (\<exists>g d. rv_replay (rv_new True 1 2) = Some (g, d) \<and>
      (case rv_apply_move (rv_new True 1 2) (0, 0) of
         Panic \<Rightarrow> False
       | Err e \<Rightarrow> (0, 0) \<notin> set (legal_cells g d)
       | Ok (s', out) \<Rightarrow> rv_mover out = d))"
  using reversi_move_counts [OF rv_inv_new, of True 1 2 0 0] rv_inv_new
  by (auto split: res.splits)

text \<open>
  Whatever squares are submitted to a new match, no call panics, the board holds four discs
  plus one per accepted move, and a match never exceeds sixty moves.
\<close>

theorem reversi_session_safe:
  "\<exists>s g. submit_all rv_apply_move (rv_new coin challenger claimer) cells = Ok s \<and>
     rv_grid_of s = Some g \<and> rv_total g = 4 + length (rv_moves s) \<and> length (rv_moves s) \<le> 60"
proof -
  from rv_engine.session_ok [OF rv_inv_new] obtain s where
    s: "submit_all rv_apply_move (rv_new coin challenger claimer) cells = Ok s" "rv_inv s" by blast
  from s(2) obtain g t where rep: "rv_replay_moves rv_starting_grid RvBlack (rv_moves s) = Some (g, t)"
    and total: "rv_total g = 4 + length (rv_moves s)" by (auto simp: rv_inv_def)
  have "rv_grid_of s = Some g" using rv_replay_clock [OF rep] by (simp add: rv_grid_of_def)
  moreover have "length (rv_moves s) \<le> 60" using rv_total_le [of g] total by simp
  ultimately show ?thesis using s(1) total by blast
qed

text \<open>
  The turn after an accepted move: the match is reported finished exactly when neither side can
  move; while it runs the side on the clock always has a legal move, and it is the opponent of the
  mover unless the opponent must pass; when it finishes, the winner is the side with more discs and
  an equal count is the draw.
\<close>

theorem reversi_turn_and_verdict:
  assumes "rv_inv s" and "rv_apply_move s sq = Ok (s', out)"
  shows "\<exists>g' d'. rv_replay s' = Some (g', d') \<and>
    rv_is_finished s' = Some (rv_finished out) \<and>
    (\<not> rv_finished out \<longrightarrow> legal_cells g' d' \<noteq> [] \<and> rv_draw out = False \<and> rv_winner out = None \<and>
       (d' = rv_other (rv_mover out) \<or> legal_cells g' (rv_other (rv_mover out)) = [])) \<and>
    (rv_finished out \<longrightarrow>
       (rv_draw out \<longleftrightarrow> rv_discs g' RvBlack = rv_discs g' RvWhite) \<and>
       (\<forall>d. rv_winner out = Some d \<longleftrightarrow> rv_discs g' (rv_other d) < rv_discs g' d))"
proof -
  obtain row col where sq: "sq = (row, col)" by (cases sq)
  from assms(1) obtain g t where rep: "rv_replay_moves rv_starting_grid RvBlack (rv_moves s) = Some (g, t)"
    by (auto simp: rv_inv_def)
  let ?d = "rv_clock g t" let ?g' = "rv_placed g ?d row col"
  have eq: "rv_finished out = rv_over ?g'" "rv_draw out = snd (rv_verdict ?g')"
    "rv_winner out = fst (rv_verdict ?g')" "rv_mover out = ?d"
    using assms(2) by (auto simp: sq rv_apply_move_eq [OF rv_replay_clock [OF rep]] split: if_splits)
  have rep': "rv_replay s' = Some (?g', rv_clock ?g' (rv_other ?d))"
    by (rule rv_replay_clock) (rule rv_apply_ok(3) [OF rep assms(2) [unfolded sq]])
  have fin: "rv_is_finished s' = Some (rv_over ?g')"
    by (simp add: rv_is_finished_def rv_grid_of_def rep')
  have win: "fst (rv_verdict ?g') = Some e \<longleftrightarrow> rv_discs ?g' (rv_other e) < rv_discs ?g' e"
    if "rv_over ?g'" for e
    using that by (cases e) (auto simp: rv_verdict_def rv_count_discs)
  have drw: "snd (rv_verdict ?g') \<longleftrightarrow> rv_discs ?g' RvBlack = rv_discs ?g' RvWhite" if "rv_over ?g'"
    using that by (auto simp: rv_verdict_def rv_count_discs)
  have run: "rv_verdict ?g' = (None, False)" if "\<not> rv_over ?g'"
    using that by (simp add: rv_verdict_def)
  have "rv_clock ?g' (rv_other ?d) = rv_other ?d \<or> legal_cells ?g' (rv_other ?d) = []"
    by (auto simp: rv_clock_def)
  then show ?thesis
    using rep' fin eq win drw run rv_over_clock [of ?g' "rv_other ?d"]
    by (intro exI [of _ ?g'] exI [of _ "rv_clock ?g' (rv_other ?d)"]) auto
qed

lemma rv_opening_move: "\<exists>s' out. rv_apply_move (rv_new True 1 2) (2, 3) = Ok (s', out)"
proof -
  have flips: "flips_for rv_starting_grid 2 3 RvBlack \<noteq> []"
  proof -
    have "rv_bracketed rv_starting_grid RvBlack 2 3 (3, 3)"
      unfolding rv_bracketed_def
      by (rule exI [of _ 1], rule exI [of _ 0], rule exI [of _ 2], rule exI [of _ 1])
        (auto simp: rv_at_def at_cell_def in_board_def rv_starting_grid_def set_cell_apply)
    then have "(3, 3) \<in> set (flips_for rv_starting_grid 2 3 RvBlack)"
      by (subst set_flips_for) (simp_all add: rv_starting_grid_def set_cell_apply)
    then show ?thesis by auto
  qed
  have rep: "rv_replay_moves rv_starting_grid RvBlack (rv_moves (rv_new True 1 2)) =
      Some (rv_starting_grid, RvBlack)"
    by (simp add: rv_new_def)
  have legal: "(2, 3) \<in> set (legal_cells rv_starting_grid RvBlack)"
    using flips by (simp add: legal_cells_iff rv_starting_grid_def set_cell_apply)
  then have "rv_clock rv_starting_grid RvBlack = RvBlack" by (auto simp: rv_clock_def)
  with rv_replay_clock [OF rep] flips show ?thesis
    by (simp add: rv_apply_move_eq) (simp add: rv_starting_grid_def set_cell_apply)
qed

theorem reversi_turn_and_verdict_witness:
  "\<exists>s' out. rv_apply_move (rv_new True 1 2) (2, 3) = Ok (s', out) \<and>
     (\<exists>g' d'. rv_replay s' = Some (g', d') \<and> rv_is_finished s' = Some (rv_finished out))"
proof -
  from rv_opening_move obtain s' out where ok: "rv_apply_move (rv_new True 1 2) (2, 3) = Ok (s', out)" by blast
  from reversi_turn_and_verdict [OF rv_inv_new ok] ok show ?thesis by blast
qed

end
