(* ===== verification/Battleship.thy ===== *)
theory Battleship
  imports Prelude
begin

text \<open>
  Battleship (\<open>late-ssh/src/app/lobby/daily/battleship.rs\<close>). Cells are numbered row by row on a 10 by
  10 grid. The draws of the random fleet come from the \<open>rand\<close> crate and are a list of triples
  (horizontal, column draw, row draw), of which each attempt consumes one. Instants are integers.
\<close>

section \<open>Data\<close>

definition bs_GRID :: nat where [simp]: "bs_GRID = 10"
definition bs_CELLS :: nat where [simp]: "bs_CELLS = 100"
definition FLEET_LENGTHS :: "nat list" where "FLEET_LENGTHS = [5, 4, 3, 3, 2]"
definition bs_STATE_VERSION :: nat where [simp]: "bs_STATE_VERSION = 1"

definition ship_name :: "nat \<Rightarrow> string" where
  "ship_name len =
     (if len = 5 then ''carrier'' else if len = 4 then ''battleship'' else if len = 3 then ''cruiser''
      else if len = 2 then ''destroyer'' else ''ship'')"

definition bs_cell_label :: "nat \<Rightarrow> string" where
  "bs_cell_label cell = letter_from (CHR ''A'') (as_u8 (cell mod bs_GRID)) # dec_string (cell div bs_GRID + 1)"

type_synonym ship = "nat list"

record shot =
  shot_cell :: nat
  shot_hit :: bool
  shot_at :: int

record bs_side =
  bs_user_id :: uuid
  bs_ships :: "ship list"
  bs_shots :: "shot list"

text \<open>The array \<open>sides: [BattleshipSide; 2]\<close>: indexing past 1 panics.\<close>

record bs_state =
  bs_version :: nat
  bs_revision :: nat
  bs_sides :: "bs_side \<times> bs_side"

record shot_outcome =
  so_hit :: bool
  so_sunk_len :: "nat option"
  so_fleet_sunk :: bool

datatype bs_error = BsCorrupt | BsUnsupportedVersion nat | BsOffGrid | BsAlreadyFired string

definition shot_label :: "shot_outcome \<Rightarrow> nat \<Rightarrow> string" where
  "shot_label out cell =
     (let spot = bs_cell_label cell
      in if \<not> so_hit out then spot @ '' miss''
         else (case so_sunk_len out of
                 None \<Rightarrow> spot @ '' hit''
               | Some len \<Rightarrow> spot @ '' hit, '' @ ship_name len @ '' sunk''))"

section \<open>Placing a fleet\<close>

text \<open>One attempt at one ship, from the coin flip and the two raw draws it got.\<close>

type_synonym draw = "bool \<times> nat \<times> nat"

definition ship_cells :: "nat \<Rightarrow> draw \<Rightarrow> ship" where
  "ship_cells len = (\<lambda>(horizontal, col, row).
     let (max_col, max_row) = (if horizontal then (bs_GRID - len, bs_GRID - 1) else (bs_GRID - 1, bs_GRID - len));
         step = (if horizontal then 1 else bs_GRID);
         start = gen_upto max_row row * bs_GRID + gen_upto max_col col
     in map (\<lambda>i. as_u8 (start + i * step)) [0..<len])"

text \<open>The \<open>for _ in 0..1000\<close> loop of one ship: the first attempt that overlaps nothing places it. The
  result is the placed ship, if any, and the draws left; running out of draws is \<open>None\<close>.\<close>

fun place_ship :: "nat \<Rightarrow> nat \<Rightarrow> nat list \<Rightarrow> draw list \<Rightarrow> (ship option \<times> draw list) option" where
  "place_ship 0 len occupied draws = Some (None, draws)"
| "place_ship (Suc tries) len occupied [] = None"
| "place_ship (Suc tries) len occupied (d # draws) =
     (if \<exists>cell \<in> set (ship_cells len d). cell \<in> set occupied
      then place_ship tries len occupied draws
      else Some (Some (ship_cells len d), draws))"

fun place_fleet :: "nat list \<Rightarrow> nat list \<Rightarrow> ship list \<Rightarrow> draw list \<Rightarrow> (ship list option \<times> draw list) option" where
  "place_fleet [] occupied ships draws = Some (Some ships, draws)"
| "place_fleet (len # lens) occupied ships draws =
     (case place_ship 1000 len occupied draws of
        None \<Rightarrow> None
      | Some (None, draws') \<Rightarrow> Some (None, draws')
      | Some (Some cells, draws') \<Rightarrow> place_fleet lens (occupied @ cells) (ships @ [cells]) draws')"

text \<open>The outer loop restarts until a whole fleet is placed; a restart has consumed draws, so it ends
  with the list of draws.\<close>

lemma place_ship_draws: "place_ship n len occ draws = Some (r, draws') \<Longrightarrow> length draws' \<le> length draws"
  by (induction n len occ draws rule: place_ship.induct) (auto split: if_splits)

lemma place_ship_failed: "place_ship n len occ draws = Some (None, draws') \<Longrightarrow> length draws' + n \<le> length draws"
  by (induction n len occ draws rule: place_ship.induct) (auto split: if_splits)

lemma place_fleet_draws:
  "place_fleet lens occ ships draws = Some (None, draws') \<Longrightarrow> length draws' < length draws"
proof (induction lens occ ships draws rule: place_fleet.induct)
  case (2 len lens occ ships draws)
  from "2.prems" show ?case
  proof (auto split: option.splits, goal_cases)
    case 1
    then show ?case using place_ship_failed by fastforce
  next
    case (2 a b)
    then show ?case using "2.IH" place_ship_draws by fastforce
  qed
qed simp

function random_fleet :: "draw list \<Rightarrow> (ship list \<times> draw list) option" where
  "random_fleet draws =
     (case place_fleet FLEET_LENGTHS [] [] draws of
        None \<Rightarrow> None
      | Some (Some ships, draws') \<Rightarrow> Some (ships, draws')
      | Some (None, draws') \<Rightarrow> random_fleet draws')"
  by auto
termination
  by (relation "measure length") (auto simp: place_fleet_draws)

declare random_fleet.simps [simp del]

section \<open>Operations\<close>

definition bs_new :: "uuid \<Rightarrow> uuid \<Rightarrow> draw list \<Rightarrow> bs_state option" where
  "bs_new challenger claimer draws =
     Option.bind (random_fleet draws) (\<lambda>(first, draws).
       map_option (\<lambda>(second, _).
         \<lparr>bs_version = bs_STATE_VERSION, bs_revision = 0,
          bs_sides = (\<lparr>bs_user_id = challenger, bs_ships = first, bs_shots = []\<rparr>,
                      \<lparr>bs_user_id = claimer, bs_ships = second, bs_shots = []\<rparr>)\<rparr>)
         (random_fleet draws))"

definition bs_parse :: "bs_state option \<Rightarrow> (bs_error, bs_state) res" where
  "bs_parse decoded =
     (case decoded of
        None \<Rightarrow> Err BsCorrupt
      | Some s \<Rightarrow> ensure (bs_version s = bs_STATE_VERSION) (BsUnsupportedVersion (bs_version s)) (Ok s))"

definition side_index_of :: "bs_state \<Rightarrow> uuid \<Rightarrow> nat option" where
  "side_index_of s u =
     (if bs_user_id (fst (bs_sides s)) = u then Some 0
      else if bs_user_id (snd (bs_sides s)) = u then Some 1 else None)"

definition bs_side_at :: "bs_state \<Rightarrow> nat \<Rightarrow> bs_side option" where
  "bs_side_at s i = (if i = 0 then Some (fst (bs_sides s)) else if i = 1 then Some (snd (bs_sides s)) else None)"

text \<open>\<open>1 - index\<close> on \<open>usize\<close>, wrapping.\<close>

definition opponent_index :: "nat \<Rightarrow> nat" where
  "opponent_index i = (if i \<le> 1 then 1 - i else 2 ^ 64 + 1 - i)"

definition already_shot :: "bs_state \<Rightarrow> nat \<Rightarrow> nat \<Rightarrow> bool option" where
  "already_shot s shooter cell =
     map_option (\<lambda>side. \<exists>shot \<in> set (bs_shots side). shot_cell shot = cell) (bs_side_at s shooter)"

definition ship_sunk :: "bs_state \<Rightarrow> nat \<Rightarrow> ship \<Rightarrow> bool option" where
  "ship_sunk s shooter ship =
     (if ship = [] then Some True
      else map_option (\<lambda>side.
             \<forall>cell \<in> set ship. \<exists>shot \<in> set (bs_shots side). shot_hit shot \<and> shot_cell shot = cell)
             (bs_side_at s shooter))"

fun count_afloat :: "bs_state \<Rightarrow> nat \<Rightarrow> ship list \<Rightarrow> nat option" where
  "count_afloat s shooter [] = Some 0"
| "count_afloat s shooter (ship # ships) =
     Option.bind (ship_sunk s shooter ship) (\<lambda>sunk.
       map_option (\<lambda>n. if sunk then n else n + 1) (count_afloat s shooter ships))"

definition ships_afloat_against :: "bs_state \<Rightarrow> nat \<Rightarrow> nat option" where
  "ships_afloat_against s shooter =
     Option.bind (bs_side_at s (opponent_index shooter)) (\<lambda>target. count_afloat s shooter (bs_ships target))"

definition fleet_sunk_by :: "bs_state \<Rightarrow> nat \<Rightarrow> bool option" where
  "fleet_sunk_by s shooter = map_option (\<lambda>n. n = 0) (ships_afloat_against s shooter)"

definition bs_shot_count :: "bs_state \<Rightarrow> nat" where
  "bs_shot_count s = length (bs_shots (fst (bs_sides s))) + length (bs_shots (snd (bs_sides s)))"

definition push_shot :: "bs_state \<Rightarrow> nat \<Rightarrow> shot \<Rightarrow> bs_state" where
  "push_shot s shooter shot =
     (let add = (\<lambda>side. side\<lparr>bs_shots := bs_shots side @ [shot]\<rparr>)
      in s\<lparr>bs_sides := (if shooter = 0 then (add (fst (bs_sides s)), snd (bs_sides s))
                        else (fst (bs_sides s), add (snd (bs_sides s))))\<rparr>)"

definition apply_shot :: "bs_state \<Rightarrow> nat \<Rightarrow> nat \<Rightarrow> int \<Rightarrow> (bs_error, bs_state \<times> shot_outcome) res" where
  "apply_shot s shooter cell at =
     ensure (cell < bs_CELLS) BsOffGrid
     (expect (already_shot s shooter cell) (\<lambda>already.
      ensure (\<not> already) (BsAlreadyFired (bs_cell_label cell))
      (expect (bs_side_at s (opponent_index shooter)) (\<lambda>target.
       let hit = (\<exists>ship \<in> set (bs_ships target). as_u8 cell \<in> set ship);
           s' = push_shot s shooter \<lparr>shot_cell = as_u8 cell, shot_hit = hit, shot_at = at\<rparr>;
           found = (if hit then find (\<lambda>ship. as_u8 cell \<in> set ship) (bs_ships target) else None)
       in expect (case found of
                    None \<Rightarrow> Some None
                  | Some ship \<Rightarrow> map_option (\<lambda>sunk. if sunk then Some (length ship) else None) (ship_sunk s' shooter ship))
            (\<lambda>sunk_len.
          expect (fleet_sunk_by s' shooter) (\<lambda>fleet_sunk.
            Ok (s', \<lparr>so_hit = hit, so_sunk_len = sunk_len, so_fleet_sunk = fleet_sunk\<rparr>)))))))"

section \<open>Legal fleets\<close>

text \<open>A ship of \<open>len\<close> cells in one row or one column of the grid.\<close>

definition straight :: "nat \<Rightarrow> ship \<Rightarrow> bool" where
  "straight len ship \<longleftrightarrow>
     (\<exists>row col. row < 10 \<and> col + len \<le> 10 \<and> ship = map (\<lambda>i. row * 10 + col + i) [0..<len]) \<or>
     (\<exists>row col. row + len \<le> 10 \<and> col < 10 \<and> ship = map (\<lambda>i. (row + i) * 10 + col) [0..<len])"

definition legal_fleet :: "ship list \<Rightarrow> bool" where
  "legal_fleet ships \<longleftrightarrow> list_all2 straight FLEET_LENGTHS ships \<and> distinct (concat ships)"

lemma straight_length: "straight len ship \<Longrightarrow> length ship = len"
  by (auto simp: straight_def)

lemma straight_distinct: "straight len ship \<Longrightarrow> distinct ship"
  by (auto simp: straight_def distinct_map inj_on_def)

lemma straight_on_grid: "straight len ship \<Longrightarrow> cell \<in> set ship \<Longrightarrow> cell < 100"
  by (auto simp: straight_def)

lemma ship_cells_straight:
  assumes "0 < len" and "len \<le> 10"
  shows "straight len (ship_cells len d)"
proof -
  obtain h c r where d: "d = (h, c, r)" by (cases d) auto
  show ?thesis
  proof (cases h)
    case True
    let ?r = "gen_upto 9 r" and ?c = "gen_upto (10 - len) c"
    have b: "?r \<le> 9" "?c \<le> 10 - len" by (rule gen_upto_le)+
    have "map (\<lambda>i. as_u8 (?r * 10 + ?c + i * 1)) [0..<len] = map (\<lambda>i. ?r * 10 + ?c + i) [0..<len]"
      using b assms by (intro map_cong refl) simp
    then have eq: "ship_cells len d = map (\<lambda>i. ?r * 10 + ?c + i) [0..<len]"
      using True by (simp add: ship_cells_def d)
    have "?r < 10 \<and> ?c + len \<le> 10" using b assms by simp
    with eq show ?thesis unfolding straight_def by blast
  next
    case False
    let ?r = "gen_upto (10 - len) r" and ?c = "gen_upto 9 c"
    have b: "?c \<le> 9" "?r \<le> 10 - len" by (rule gen_upto_le)+
    have "map (\<lambda>i. as_u8 (?r * 10 + ?c + i * 10)) [0..<len] = map (\<lambda>i. (?r + i) * 10 + ?c) [0..<len]"
      using b assms by (intro map_cong refl) simp
    then have eq: "ship_cells len d = map (\<lambda>i. (?r + i) * 10 + ?c) [0..<len]"
      using False by (simp add: ship_cells_def d)
    have "?r + len \<le> 10 \<and> ?c < 10" using b assms by simp
    with eq show ?thesis unfolding straight_def by blast
  qed
qed

lemma place_ship_placed:
  "place_ship n len occ draws = Some (Some cells, draws') \<Longrightarrow>
     (\<exists>d \<in> set draws. cells = ship_cells len d) \<and> set cells \<inter> set occ = {}"
  by (induction n len occ draws rule: place_ship.induct) (auto split: if_splits)

lemma place_fleet_legal:
  assumes "place_fleet lens occ ships draws = Some (Some fleet, draws')"
    and "\<forall>len \<in> set lens. 0 < len \<and> len \<le> 10"
    and "list_all2 straight lens0 ships" and "distinct (concat ships)" and "set occ = set (concat ships)"
  shows "list_all2 straight (lens0 @ lens) fleet \<and> distinct (concat fleet)"
  using assms
proof (induction lens occ ships draws arbitrary: lens0 rule: place_fleet.induct)
  case (1 occ ships draws)
  then show ?case by simp
next
  case (2 len lens occ ships draws)
  from "2.prems"(1) obtain cells rest where
    p: "place_ship 1000 len occ draws = Some (Some cells, rest)"
    and f: "place_fleet lens (occ @ cells) (ships @ [cells]) rest = Some (Some fleet, draws')"
    by (auto split: option.splits)
  from place_ship_placed [OF p] obtain d where cells: "cells = ship_cells len d" "set cells \<inter> set occ = {}" by blast
  have st: "straight len cells" using "2.prems"(2) by (simp add: cells(1) ship_cells_straight)
  have "list_all2 straight ((lens0 @ [len]) @ lens) fleet \<and> distinct (concat fleet)"
  proof (rule "2.IH" [OF p refl refl f])
    show "list_all2 straight (lens0 @ [len]) (ships @ [cells])"
      using "2.prems"(3) st by (simp add: list_all2_appendI)
    show "distinct (concat (ships @ [cells]))"
      using "2.prems"(4,5) st straight_distinct cells(2) by auto
  qed (use "2.prems" in auto)
  then show ?case by simp
qed

lemma random_fleet_ok: "random_fleet draws = Some (ships, rest) \<Longrightarrow> legal_fleet ships"
proof (induction draws rule: random_fleet.induct)
  case (1 draws)
  show ?case
  proof (cases "place_fleet FLEET_LENGTHS [] [] draws")
    case None
    with 1 show ?thesis by (simp add: random_fleet.simps [of draws])
  next
    case (Some res)
    obtain f d where res: "res = (f, d)" by (cases res)
    show ?thesis
    proof (cases f)
      case None
      with 1 Some res show ?thesis by (simp add: random_fleet.simps [of draws])
    next
      case (Some fleet)
      with 1 \<open>place_fleet FLEET_LENGTHS [] [] draws = Some res\<close> res have "fleet = ships"
        by (simp add: random_fleet.simps [of draws])
      moreover have "list_all2 straight ([] @ FLEET_LENGTHS) fleet \<and> distinct (concat fleet)"
        by (rule place_fleet_legal [of FLEET_LENGTHS "[]" "[]" draws fleet d])
          (use Some res \<open>place_fleet FLEET_LENGTHS [] [] draws = Some res\<close> in \<open>auto simp: FLEET_LENGTHS_def\<close>)
      ultimately show ?thesis by (simp add: legal_fleet_def)
    qed
  qed
qed

section \<open>The match\<close>

definition fleet_cells :: "bs_side \<Rightarrow> nat set" where
  "fleet_cells side = set (concat (bs_ships side))"

definition fired :: "bs_side \<Rightarrow> nat set" where
  "fired side = set (map shot_cell (bs_shots side))"

text \<open>The seat at index 0 (\<open>True\<close>) or 1, and the one it shoots at.\<close>

definition seat :: "bool \<Rightarrow> nat" where "seat b = (if b then 0 else 1)"

definition mine :: "bs_state \<Rightarrow> bool \<Rightarrow> bs_side" where
  "mine s b = (if b then fst (bs_sides s) else snd (bs_sides s))"

definition side_ok :: "bs_side \<Rightarrow> bs_side \<Rightarrow> bool" where
  "side_ok me foe \<longleftrightarrow>
     legal_fleet (bs_ships me) \<and> distinct (map shot_cell (bs_shots me)) \<and>
     (\<forall>shot \<in> set (bs_shots me). shot_cell shot < 100 \<and> (shot_hit shot \<longleftrightarrow> shot_cell shot \<in> fleet_cells foe))"

definition bs_inv :: "bs_state \<Rightarrow> bool" where
  "bs_inv s \<longleftrightarrow> (\<forall>b. side_ok (mine s b) (mine s (\<not> b)))"

lemma side_at [simp]: "bs_side_at s (seat b) = Some (mine s b)" "bs_side_at s (opponent_index (seat b)) = Some (mine s (\<not> b))"
  by (auto simp: bs_side_at_def seat_def mine_def opponent_index_def)

lemma mine_push: "mine (push_shot s (seat b) shot) c =
    (if c = b then (mine s b)\<lparr>bs_shots := bs_shots (mine s b) @ [shot]\<rparr> else mine s c)"
  by (auto simp: mine_def push_shot_def seat_def Let_def)

lemma one_ship:
  "distinct (concat ships) \<Longrightarrow> x \<in> set ships \<Longrightarrow> y \<in> set ships \<Longrightarrow> c \<in> set x \<Longrightarrow> c \<in> set y \<Longrightarrow> x = y"
  by (induction ships) auto

lemma fleet_nonempty: "legal_fleet ships \<Longrightarrow> ship \<in> set ships \<Longrightarrow> ship \<noteq> []"
  by (auto simp: legal_fleet_def FLEET_LENGTHS_def list_all2_Cons1 dest!: straight_length)

lemma ship_sunk_at:
  "ship_sunk s (seat b) ship =
     Some (\<forall>cell \<in> set ship. \<exists>shot \<in> set (bs_shots (mine s b)). shot_hit shot \<and> shot_cell shot = cell)"
  by (simp add: ship_sunk_def)

lemma ship_sunk_fired:
  assumes "side_ok (mine s b) (mine s (\<not> b))" and "ship \<in> set (bs_ships (mine s (\<not> b)))"
  shows "ship_sunk s (seat b) ship = Some (set ship \<subseteq> fired (mine s b))"
proof -
  have "cell \<in> fleet_cells (mine s (\<not> b))" if "cell \<in> set ship" for cell
    using that assms(2) by (auto simp: fleet_cells_def)
  then have "(\<exists>shot \<in> set (bs_shots (mine s b)). shot_hit shot \<and> shot_cell shot = cell) \<longleftrightarrow>
      cell \<in> fired (mine s b)" if "cell \<in> set ship" for cell
    using that assms(1) by (fastforce simp: side_ok_def fired_def)
  then show ?thesis unfolding ship_sunk_at by auto
qed

lemma count_afloat_total: "\<exists>n. count_afloat s (seat b) ships = Some n"
  by (induction ships) (auto simp: ship_sunk_at)

lemma count_afloat_zero:
  "count_afloat s (seat b) ships = Some 0 \<longleftrightarrow> (\<forall>ship \<in> set ships. ship_sunk s (seat b) ship = Some True)"
  using count_afloat_total [of s b] by (induction ships) (auto simp: ship_sunk_at split: bind_splits)

lemma fleet_sunk_fired:
  assumes "side_ok (mine s b) (mine s (\<not> b))"
  shows "fleet_sunk_by s (seat b) = Some (fleet_cells (mine s (\<not> b)) \<subseteq> fired (mine s b))"
proof -
  obtain n where n: "count_afloat s (seat b) (bs_ships (mine s (\<not> b))) = Some n"
    using count_afloat_total by blast
  then have "n = 0 \<longleftrightarrow> (\<forall>ship \<in> set (bs_ships (mine s (\<not> b))). set ship \<subseteq> fired (mine s b))"
    using count_afloat_zero [of s b "bs_ships (mine s (\<not> b))"] ship_sunk_fired [OF assms] by auto
  also have "\<dots> \<longleftrightarrow> fleet_cells (mine s (\<not> b)) \<subseteq> fired (mine s b)" by (auto simp: fleet_cells_def)
  finally show ?thesis using n by (simp add: fleet_sunk_by_def ships_afloat_against_def)
qed

text \<open>The state after a shot at a fresh cell.\<close>

definition shot_state :: "bs_state \<Rightarrow> bool \<Rightarrow> nat \<Rightarrow> int \<Rightarrow> bs_state" where
  "shot_state s b cell at =
     push_shot s (seat b) \<lparr>shot_cell = cell, shot_hit = (cell \<in> fleet_cells (mine s (\<not> b))), shot_at = at\<rparr>"

lemma mine_shot_state:
  "mine (shot_state s b cell at) b = (mine s b)\<lparr>bs_shots := bs_shots (mine s b) @
     [\<lparr>shot_cell = cell, shot_hit = (cell \<in> fleet_cells (mine s (\<not> b))), shot_at = at\<rparr>]\<rparr>"
  "mine (shot_state s b cell at) (\<not> b) = mine s (\<not> b)"
  by (simp_all add: shot_state_def mine_push)

lemma fired_shot_state: "fired (mine (shot_state s b cell at) b) = insert cell (fired (mine s b))"
  by (simp add: mine_shot_state fired_def)

lemma shot_state_inv:
  assumes "bs_inv s" and "cell < 100" and "cell \<notin> fired (mine s b)"
  shows "bs_inv (shot_state s b cell at)"
  unfolding bs_inv_def
proof
  fix c
  have ok: "side_ok (mine s b) (mine s (\<not> b))" "side_ok (mine s (\<not> b)) (mine s b)"
    using assms(1) [unfolded bs_inv_def, rule_format, of b]
      assms(1) [unfolded bs_inv_def, rule_format, of "\<not> b"] by simp_all
  show "side_ok (mine (shot_state s b cell at) c) (mine (shot_state s b cell at) (\<not> c))"
  proof (cases "c = b")
    case True
    show ?thesis unfolding True mine_shot_state using ok(1) assms(2,3)
      by (auto simp: side_ok_def fired_def)
  next
    case False
    then have c: "c = (\<not> b)" by auto
    have "\<not> \<not> b \<longleftrightarrow> b" by simp
    then show ?thesis unfolding c using ok(2)
      by (simp add: mine_shot_state side_ok_def fleet_cells_def)
  qed
qed

lemma apply_shot_eq:
  assumes "bs_inv s"
  shows "apply_shot s (seat b) cell at =
    (if cell \<ge> 100 then Err BsOffGrid
     else if cell \<in> fired (mine s b) then Err (BsAlreadyFired (bs_cell_label cell))
     else Ok (shot_state s b cell at,
       \<lparr>so_hit = (cell \<in> fleet_cells (mine s (\<not> b))),
        so_sunk_len =
          (case (if cell \<in> fleet_cells (mine s (\<not> b)) then find (\<lambda>ship. cell \<in> set ship) (bs_ships (mine s (\<not> b))) else None) of
             None \<Rightarrow> None
           | Some ship \<Rightarrow> if set ship \<subseteq> insert cell (fired (mine s b)) then Some (length ship) else None),
        so_fleet_sunk = (fleet_cells (mine s (\<not> b)) \<subseteq> insert cell (fired (mine s b)))\<rparr>))"
proof -
  have already: "already_shot s (seat b) cell = Some (cell \<in> fired (mine s b))"
    by (auto simp: already_shot_def fired_def)
  show ?thesis
  proof (cases "cell < 100 \<and> cell \<notin> fired (mine s b)")
    case False
    then show ?thesis by (auto simp: apply_shot_def ensure_def already)
  next
    case True
    let ?t = "shot_state s b cell at"
    have inv: "side_ok (mine ?t b) (mine ?t (\<not> b))"
      using shot_state_inv [of s cell b at] assms True unfolding bs_inv_def by blast
    have hit: "(\<exists>ship \<in> set (bs_ships (mine s (\<not> b))). cell \<in> set ship) \<longleftrightarrow> cell \<in> fleet_cells (mine s (\<not> b))"
      by (auto simp: fleet_cells_def)
    have st: "push_shot s (seat b) \<lparr>shot_cell = cell, shot_hit = h, shot_at = at\<rparr> = ?t"
      if "h = (cell \<in> fleet_cells (mine s (\<not> b)))" for h
      using that by (simp add: shot_state_def)
    have sunk: "ship_sunk ?t (seat b) ship = Some (set ship \<subseteq> insert cell (fired (mine s b)))"
      if "find (\<lambda>ship. cell \<in> set ship) (bs_ships (mine s (\<not> b))) = Some ship" for ship
    proof -
      have "ship \<in> set (bs_ships (mine ?t (\<not> b)))" using that by (auto simp: mine_shot_state find_Some_iff)
      from ship_sunk_fired [OF inv this] show ?thesis by (simp add: fired_shot_state)
    qed
    have fl: "fleet_sunk_by ?t (seat b) = Some (fleet_cells (mine s (\<not> b)) \<subseteq> insert cell (fired (mine s b)))"
      using fleet_sunk_fired [OF inv] by (simp add: fired_shot_state mine_shot_state(2))
    have c: "as_u8 cell = cell" using True by simp
    show ?thesis using True
      by (auto simp: apply_shot_def ensure_def already Let_def c hit st fl sunk split: option.splits)
  qed
qed

lemma bs_inv_new:
  assumes "bs_new challenger claimer draws = Some s"
  shows "bs_inv s"
  unfolding bs_inv_def
proof
  fix b
  from assms have "legal_fleet (bs_ships (mine s b))" "bs_shots (mine s b) = []"
    by (auto simp: bs_new_def mine_def split: bind_splits dest!: random_fleet_ok)
  then show "side_ok (mine s b) (mine s (\<not> b))" by (simp add: side_ok_def)
qed

text \<open>The engine the service drives: a shot of the seat it resolved.\<close>

definition bs_play :: "bs_state \<Rightarrow> bool \<times> nat \<times> int \<Rightarrow> (bs_error, bs_state \<times> shot_outcome) res" where
  "bs_play s = (\<lambda>(b, cell, at). apply_shot s (seat b) cell at)"

interpretation bs_engine: rules_engine bs_play bs_inv
proof
  fix s s' :: bs_state and m out
  assume inv: "bs_inv s" and ok: "bs_play s m = Ok (s', out)"
  obtain b cell at where m: "m = (b, cell, at)" by (cases m) auto
  from ok inv have "cell < 100" "cell \<notin> fired (mine s b)" "s' = shot_state s b cell at"
    by (auto simp: bs_play_def m apply_shot_eq split: if_splits)
  with shot_state_inv [OF inv] show "bs_inv s'" by blast
next
  fix s :: bs_state and m
  assume "bs_inv s"
  then show "bs_play s m \<noteq> Panic"
    by (cases m) (auto simp: bs_play_def apply_shot_eq)
qed

lemma fleet_cells_card: "legal_fleet (bs_ships side) \<Longrightarrow> card (fleet_cells side) = 17"
proof -
  assume l: "legal_fleet (bs_ships side)"
  then have "card (fleet_cells side) = length (concat (bs_ships side))"
    unfolding fleet_cells_def legal_fleet_def by (intro distinct_card) blast
  also have "\<dots> = 17"
    using l by (auto simp: legal_fleet_def FLEET_LENGTHS_def list_all2_Cons1 dest!: straight_length)
  finally show ?thesis .
qed

section \<open>Properties\<close>

text \<open>
  Every fleet the random placement returns is legal, whatever the generator draws: five ships of
  lengths 5, 4, 3, 3 and 2, each along one row or one column of the grid without wrapping round an
  edge, no two sharing a cell.
\<close>

theorem random_fleet_legal:
  assumes "random_fleet draws = Some (ships, rest)"
  shows "list_all2 straight FLEET_LENGTHS ships \<and> distinct (concat ships) \<and>
         (\<forall>cell \<in> set (concat ships). cell < 100) \<and> length (concat ships) = 17"
proof -
  have l: "legal_fleet ships" by (rule random_fleet_ok [OF assms])
  then have "\<exists>len. straight len ship" if "ship \<in> set ships" for ship
    using that by (auto simp: legal_fleet_def list_all2_conv_all_nth in_set_conv_nth)
  then have "\<forall>cell \<in> set (concat ships). cell < 100" using straight_on_grid by fastforce
  moreover have "length (concat ships) = 17"
    using l by (auto simp: legal_fleet_def FLEET_LENGTHS_def list_all2_Cons1 dest!: straight_length)
  ultimately show ?thesis using l unfolding legal_fleet_def by blast
qed

text \<open>Six attempts, of which the third falls on the first ship.\<close>

definition demo_draws :: "draw list" where
  "demo_draws = [(True, 0, 0), (True, 0, 1), (True, 2, 0), (False, 9, 2), (True, 3, 7), (False, 5, 8)]"

lemma demo_fleet:
  "random_fleet demo_draws =
     Some ([[0, 1, 2, 3, 4], [10, 11, 12, 13], [29, 39, 49], [73, 74, 75], [85, 95]], [])"
  by code_simp

theorem random_fleet_legal_witness:
  "\<exists>ships. random_fleet demo_draws = Some (ships, []) \<and> length ships = 5 \<and>
     list_all2 straight FLEET_LENGTHS ships \<and> distinct (concat ships)"
  using random_fleet_legal [OF demo_fleet] demo_fleet by auto

text \<open>
  C39. One shot. In a match reached by play the shot is refused exactly when the cell is off the grid
  or was already fired at, and otherwise it is recorded as a hit exactly when a ship of the other
  fleet lies there; a ship is announced as sunk exactly when this shot completed it, with its
  length; and the fleet is reported sunk exactly when all of its cells have been fired at.
\<close>

theorem shot_outcome_is_exact:
  assumes "bs_inv s"
  shows "case apply_shot s (seat b) cell at of
      Panic \<Rightarrow> False
    | Err e \<Rightarrow> 100 \<le> cell \<or> cell \<in> fired (mine s b)
    | Ok (s', out) \<Rightarrow>
        cell < 100 \<and> cell \<notin> fired (mine s b) \<and>
        bs_shots (mine s' b) = bs_shots (mine s b) @ [\<lparr>shot_cell = cell, shot_hit = so_hit out, shot_at = at\<rparr>] \<and>
        mine s' (\<not> b) = mine s (\<not> b) \<and>
        so_hit out = (cell \<in> fleet_cells (mine s (\<not> b))) \<and>
        (\<forall>len. so_sunk_len out = Some len \<longleftrightarrow>
           (\<exists>ship \<in> set (bs_ships (mine s (\<not> b))). cell \<in> set ship \<and> length ship = len \<and>
              set ship \<subseteq> fired (mine s' b))) \<and>
        so_fleet_sunk out = (fleet_cells (mine s (\<not> b)) \<subseteq> fired (mine s' b))"
proof (cases "cell < 100 \<and> cell \<notin> fired (mine s b)")
  case False
  then show ?thesis by (auto simp: apply_shot_eq [OF assms])
next
  case True
  have ok: "side_ok (mine s (\<not> b)) (mine s b)"
    using assms [unfolded bs_inv_def, rule_format, of "\<not> b"] by simp
  then have one: "ship = ship'" if "ship \<in> set (bs_ships (mine s (\<not> b)))" "ship' \<in> set (bs_ships (mine s (\<not> b)))"
      "cell \<in> set ship" "cell \<in> set ship'" for ship ship'
    using one_ship [OF _ that] by (auto simp: side_ok_def legal_fleet_def)
  let ?found = "find (\<lambda>ship. cell \<in> set ship) (bs_ships (mine s (\<not> b)))"
  have found: "?found = Some ship \<longleftrightarrow> ship \<in> set (bs_ships (mine s (\<not> b))) \<and> cell \<in> set ship" for ship
  proof
    assume "?found = Some ship"
    then show "ship \<in> set (bs_ships (mine s (\<not> b))) \<and> cell \<in> set ship" by (auto simp: find_Some_iff)
  next
    assume r: "ship \<in> set (bs_ships (mine s (\<not> b))) \<and> cell \<in> set ship"
    then have "?found \<noteq> None" by (auto simp: find_None_iff)
    then obtain x where x: "?found = Some x" by blast
    then have "x \<in> set (bs_ships (mine s (\<not> b))) \<and> cell \<in> set x" by (auto simp: find_Some_iff)
    with one r x show "?found = Some ship" by blast
  qed
  show ?thesis
  proof (cases "cell \<in> fleet_cells (mine s (\<not> b))")
    case False
    then have "\<nexists>ship. ship \<in> set (bs_ships (mine s (\<not> b))) \<and> cell \<in> set ship" by (auto simp: fleet_cells_def)
    with True False show ?thesis
      by (auto simp: apply_shot_eq [OF assms] mine_shot_state(2) fired_shot_state) (simp add: mine_shot_state(1))
  next
    case hit: True
    then obtain ship where ship: "ship \<in> set (bs_ships (mine s (\<not> b)))" "cell \<in> set ship"
      by (auto simp: fleet_cells_def)
    then have f: "?found = Some ship" by (simp add: found)
    have only: "(\<exists>x \<in> set (bs_ships (mine s (\<not> b))). cell \<in> set x \<and> P x) \<longleftrightarrow> P ship" for P
      using one ship by blast
    show ?thesis using True hit f
      by (simp add: apply_shot_eq [OF assms] mine_shot_state(2) fired_shot_state only) (simp add: mine_shot_state(1))
  qed
qed

lemma demo_match:
  "\<exists>s. bs_new 1 2 (demo_draws @ demo_draws) = Some s \<and>
     fleet_cells (mine s False) = {0, 1, 2, 3, 4, 10, 11, 12, 13, 29, 39, 49, 73, 74, 75, 85, 95} \<and>
     bs_shots (mine s True) = []"
proof -
  have "bs_new 1 2 (demo_draws @ demo_draws) = Some
    \<lparr>bs_version = 1, bs_revision = 0, bs_sides =
      (\<lparr>bs_user_id = 1, bs_ships = [[0, 1, 2, 3, 4], [10, 11, 12, 13], [29, 39, 49], [73, 74, 75], [85, 95]], bs_shots = []\<rparr>,
       \<lparr>bs_user_id = 2, bs_ships = [[0, 1, 2, 3, 4], [10, 11, 12, 13], [29, 39, 49], [73, 74, 75], [85, 95]], bs_shots = []\<rparr>)\<rparr>"
    by code_simp
  then show ?thesis by (auto simp: fleet_cells_def mine_def)
qed

theorem shot_outcome_is_exact_witness:
  "\<exists>s s' out. bs_new 1 2 (demo_draws @ demo_draws) = Some s \<and> bs_inv s \<and>
     apply_shot s (seat True) 29 0 = Ok (s', out) \<and> so_hit out \<and> \<not> so_fleet_sunk out"
proof -
  from demo_match obtain s where s: "bs_new 1 2 (demo_draws @ demo_draws) = Some s"
    and f: "fleet_cells (mine s False) = {0, 1, 2, 3, 4, 10, 11, 12, 13, 29, 39, 49, 73, 74, 75, 85, 95}"
    and e: "bs_shots (mine s True) = []" by blast
  note inv = bs_inv_new [OF s]
  from e have "fired (mine s True) = {}" by (simp add: fired_def)
  with shot_outcome_is_exact [OF inv, where b = True and cell = 29 and at = 0] f e inv s show ?thesis
    by (auto simp: fired_def split: res.splits)
qed

text \<open>
  A battleship session. Whatever shots the two seats submit to a new match, no call panics, both
  fleets stay as they were placed, neither seat has ever fired twice at a cell, a seat has won exactly
  when it has fired at all seventeen cells of the other fleet, and at most two hundred shots are made.
\<close>

theorem battleship_session_safe:
  assumes "bs_new challenger claimer draws = Some s"
  shows "\<exists>t. submit_all bs_play s shots = Ok t \<and>
    (\<forall>b. distinct (map shot_cell (bs_shots (mine t b))) \<and>
         fleet_sunk_by t (seat b) = Some (fleet_cells (mine t (\<not> b)) \<subseteq> fired (mine t b)) \<and>
         card (fleet_cells (mine t b)) = 17) \<and>
    bs_shot_count t \<le> 200"
proof -
  from bs_engine.session_ok [OF bs_inv_new [OF assms]] obtain t where
    t: "submit_all bs_play s shots = Ok t" "bs_inv t" by blast
  have ok: "side_ok (mine t b) (mine t (\<not> b))" for b using t(2) unfolding bs_inv_def by blast
  have len: "length (bs_shots (mine t b)) \<le> 100" for b
  proof -
    have "card (fired (mine t b)) = length (bs_shots (mine t b))"
      using ok [of b] distinct_card [of "map shot_cell (bs_shots (mine t b))"] by (simp add: side_ok_def fired_def)
    moreover have "fired (mine t b) \<subseteq> {..<100}" using ok [of b] by (auto simp: side_ok_def fired_def)
    ultimately show ?thesis using card_mono [of "{..<100}" "fired (mine t b)"] by simp
  qed
  have "bs_shot_count t \<le> 200" using len [of True] len [of False] by (simp add: bs_shot_count_def mine_def)
  moreover have "distinct (map shot_cell (bs_shots (mine t b)))" "card (fleet_cells (mine t b)) = 17" for b
    using ok [of b] fleet_cells_card by (simp_all add: side_ok_def)
  ultimately show ?thesis using t(1) fleet_sunk_fired [OF ok] by blast
qed

theorem battleship_session_safe_witness:
  "\<exists>s t. bs_new 1 2 (demo_draws @ demo_draws) = Some s \<and>
     submit_all bs_play s [(True, 29, 0), (False, 7, 1), (True, 29, 2)] = Ok t \<and> bs_shot_count t \<le> 200"
proof -
  from demo_match obtain s where s: "bs_new 1 2 (demo_draws @ demo_draws) = Some s" by blast
  from battleship_session_safe [OF s, of "[(True, 29, 0), (False, 7, 1), (True, 29, 2)]"] s show ?thesis by blast
qed

end
