(* ===== verification/Cards.thy ===== *)
theory Cards
  imports Prelude
begin

text \<open>
  Playing cards: the shared suits and faces of \<open>late-ssh/src/app/games/cards.rs\<close>, and the two routines
  the card games have in common, the Fisher-Yates shuffle and the check that a deal is the whole
  deck, with the interface of a numbered deck they both rest on.
\<close>

section \<open>Faces\<close>

datatype card_suit = Hearts | Diamonds | Clubs | Spades

primrec suit_short :: "card_suit \<Rightarrow> string" where
  "suit_short Hearts = ''H''"
| "suit_short Diamonds = ''D''"
| "suit_short Clubs = ''C''"
| "suit_short Spades = ''S''"

text \<open>The four symbols U+2665, U+2666, U+2663 and U+2660, as their UTF-8 bytes.\<close>

definition suit_bytes :: "nat \<Rightarrow> string" where
  "suit_bytes b = [char_of (0xE2 :: nat), char_of (0x99 :: nat), char_of b]"

primrec suit_symbol :: "card_suit \<Rightarrow> string" where
  "suit_symbol Hearts = suit_bytes 0xA5"
| "suit_symbol Diamonds = suit_bytes 0xA6"
| "suit_symbol Clubs = suit_bytes 0xA3"
| "suit_symbol Spades = suit_bytes 0xA0"

datatype card_rank = FaceAce | FaceNumber nat | FaceJack | FaceQueen | FaceKing

fun card_rank_label :: "card_rank \<Rightarrow> string" where
  "card_rank_label FaceAce = ''A''"
| "card_rank_label FaceJack = ''J''"
| "card_rank_label FaceQueen = ''Q''"
| "card_rank_label FaceKing = ''K''"
| "card_rank_label (FaceNumber n) = (if 2 \<le> n \<and> n \<le> 10 then dec_string n else ''?'')"

record playing_card =
  pc_suit :: card_suit
  pc_rank :: card_rank

definition CARD_SUITS :: "card_suit list" where
  "CARD_SUITS = [Hearts, Diamonds, Clubs, Spades]"

primrec suit_order :: "card_suit \<Rightarrow> nat" where
  "suit_order Hearts = 0"
| "suit_order Diamonds = 1"
| "suit_order Clubs = 2"
| "suit_order Spades = 3"

lemma suit_order_lt: "suit_order s < 4"
  by (cases s) simp_all

lemma suit_at_order: "CARD_SUITS ! suit_order s = s"
  by (cases s) (simp_all add: CARD_SUITS_def)

lemma suit_order_at: "i < 4 \<Longrightarrow> suit_order (CARD_SUITS ! i) = i"
  by (auto simp: CARD_SUITS_def less_Suc_eq numeral_eq_Suc)

text \<open>A checked read of a slice.\<close>

definition get_at :: "'a list \<Rightarrow> nat \<Rightarrow> 'a option" where
  "get_at xs i = (if i < length xs then Some (xs ! i) else None)"

lemma get_at_Some: "get_at xs i = Some x \<longleftrightarrow> i < length xs \<and> xs ! i = x"
  by (auto simp: get_at_def)

section \<open>Shuffling\<close>

text \<open>\<open>for index in (1..deck.len()).rev() { deck.swap(index, rng.gen_range(0..=index)) }\<close>: the raw draw
  of each index is a parameter.\<close>

definition swap_at :: "'c list \<Rightarrow> nat \<Rightarrow> nat \<Rightarrow> 'c list" where
  "swap_at xs i j = xs[i := xs ! j, j := xs ! i]"

primrec shuffle_down :: "(nat \<Rightarrow> nat) \<Rightarrow> nat \<Rightarrow> 'c list \<Rightarrow> 'c list" where
  "shuffle_down raw 0 xs = xs"
| "shuffle_down raw (Suc k) xs = shuffle_down raw k (swap_at xs (Suc k) (gen_upto (Suc k) (raw (Suc k))))"

definition fisher_yates :: "(nat \<Rightarrow> nat) \<Rightarrow> 'c list \<Rightarrow> 'c list" where
  "fisher_yates raw xs = shuffle_down raw (length xs - 1) xs"

lemma length_swap_at [simp]: "length (swap_at xs i j) = length xs"
  by (simp add: swap_at_def)

lemma mset_swap_at: "i < length xs \<Longrightarrow> j < length xs \<Longrightarrow> mset (swap_at xs i j) = mset xs"
  using mset_swap [of j xs i] by (simp add: swap_at_def)

lemma mset_shuffle_down: "k < length xs \<Longrightarrow> mset (shuffle_down raw k xs) = mset xs"
proof (induction k arbitrary: xs)
  case (Suc k)
  have "gen_upto (Suc k) (raw (Suc k)) < length xs" using gen_upto_le [of "Suc k"] Suc.prems
    by (meson le_less_trans)
  then show ?case using Suc by (simp add: mset_swap_at)
qed simp

lemma mset_fisher_yates: "mset (fisher_yates raw xs) = mset xs"
  by (cases xs) (simp_all add: fisher_yates_def mset_shuffle_down)

text \<open>Positions above the index are final.\<close>

lemma swap_at_above: "i \<le> k \<Longrightarrow> j \<le> k \<Longrightarrow> drop (Suc k) (swap_at xs i j) = drop (Suc k) xs"
  by (simp add: swap_at_def)

lemma drop_shuffle_down: "drop (Suc k) (shuffle_down raw k xs) = drop (Suc k) xs"
proof (induction k arbitrary: xs)
  case (Suc k)
  have "drop (Suc k) (shuffle_down raw (Suc k) xs) =
      drop (Suc k) (swap_at xs (Suc k) (gen_upto (Suc k) (raw (Suc k))))" using Suc.IH by simp
  then have "drop (Suc (Suc k)) (shuffle_down raw (Suc k) xs) =
      drop (Suc (Suc k)) (swap_at xs (Suc k) (gen_upto (Suc k) (raw (Suc k))))"
    by (metis drop_drop add.commute plus_1_eq_Suc)
  then show ?case using gen_upto_le [of "Suc k"] by (simp add: swap_at_above)
qed simp

lemma shuffle_down_cong: "(\<And>i. i \<le> k \<Longrightarrow> raw i = raw' i) \<Longrightarrow> shuffle_down raw k xs = shuffle_down raw' k xs"
  by (induction k arbitrary: xs) simp_all

lemma last_in_place:
  assumes "length xs = Suc k" and "length ys = Suc k" and "mset xs = mset ys" and "j \<le> k" and "xs ! j = ys ! k"
  shows "swap_at xs k j ! k = ys ! k" and "mset (take k (swap_at xs k j)) = mset (take k ys)"
proof -
  let ?zs = "swap_at xs k j"
  show at: "?zs ! k = ys ! k"
    using assms by (cases "j = k") (simp_all add: swap_at_def)
  have "?zs = take k ?zs @ [?zs ! k]" "ys = take k ys @ [ys ! k]"
    using assms(1,2) by (simp_all add: take_Suc_conv_app_nth [symmetric])
  moreover have "mset ?zs = mset ys" using assms by (simp add: mset_swap_at)
  ultimately show "mset (take k ?zs) = mset (take k ys)" using at
    by (metis add_right_cancel mset_append)
qed

text \<open>Every order of the deck is the result of some draws.\<close>

lemma shuffle_down_reaches:
  "length xs = Suc k \<Longrightarrow> mset xs = mset ys \<Longrightarrow> \<exists>raw. shuffle_down raw k xs = ys"
proof (induction k arbitrary: xs ys)
  case 0
  then obtain x where "xs = [x]" by (auto simp: length_Suc_conv)
  with 0 show ?case by simp
next
  case (Suc k)
  have len: "length ys = Suc (Suc k)" using Suc.prems mset_eq_length by metis
  then have "ys ! Suc k \<in> set ys" by simp
  then have "ys ! Suc k \<in> set xs" using Suc.prems(2) mset_eq_setD by blast
  then obtain j where j: "j < length xs" "xs ! j = ys ! Suc k" by (auto simp: in_set_conv_nth)
  then have j: "j \<le> Suc k" "xs ! j = ys ! Suc k" using Suc.prems(1) by simp_all
  let ?zs = "swap_at xs (Suc k) j"
  note place = last_in_place [OF Suc.prems(1) len Suc.prems(2) j]
  obtain raw where raw: "shuffle_down raw k (take (Suc k) ?zs) = take (Suc k) ys"
    using Suc.IH [of "take (Suc k) ?zs" "take (Suc k) ys"] place(2) Suc.prems(1) by auto
  have app: "shuffle_down r m (us @ [v]) = shuffle_down r m us @ [v]" if "m < length us" for r m us and v :: 'a
    using that
  proof (induction m arbitrary: us)
    case (Suc m)
    have "gen_upto (Suc m) (r (Suc m)) < length us" using gen_upto_le [of "Suc m"] Suc.prems by (meson le_less_trans)
    then have "swap_at (us @ [v]) (Suc m) (gen_upto (Suc m) (r (Suc m))) =
        swap_at us (Suc m) (gen_upto (Suc m) (r (Suc m))) @ [v]"
      using Suc.prems by (simp add: swap_at_def nth_append list_update_append)
    with Suc show ?case by simp
  qed simp
  have zs: "?zs = take (Suc k) ?zs @ [ys ! Suc k]"
    using Suc.prems(1) place(1) take_Suc_conv_app_nth [of "Suc k" ?zs] by simp
  have "shuffle_down raw k ?zs = take (Suc k) ys @ [ys ! Suc k]"
    by (subst zs, subst app) (simp_all add: raw Suc.prems(1))
  also have "\<dots> = ys" using len by (simp add: take_Suc_conv_app_nth [symmetric])
  finally have "shuffle_down raw k ?zs = ys" .
  moreover have "shuffle_down (raw(Suc k := j)) k ?zs = shuffle_down raw k ?zs"
    by (rule shuffle_down_cong) simp
  ultimately have "shuffle_down (raw(Suc k := j)) (Suc k) xs = ys"
    using j(1) by (simp add: gen_upto_id)
  then show ?case by blast
qed

lemma fisher_yates_reaches: "mset xs = mset ys \<Longrightarrow> \<exists>raw. fisher_yates raw xs = ys"
  using shuffle_down_reaches [of xs "length xs - 1" ys] by (cases xs) (auto simp: fisher_yates_def)

text \<open>The draws that leave the deck as it is.\<close>

lemma fisher_yates_id: "fisher_yates (\<lambda>i. i) xs = xs"
proof -
  have "shuffle_down (\<lambda>i. i) k xs = xs" for k
    by (induction k) (simp_all add: gen_upto_id swap_at_def)
  then show ?thesis by (simp add: fisher_yates_def)
qed

section \<open>Whole decks\<close>

text \<open>The loop over \<open>seen: [bool; DECK]\<close>: a repeated card stops it with \<open>Some False\<close>, and an id past
  the array would panic.\<close>

fun seen_once :: "('c \<Rightarrow> nat) \<Rightarrow> bool list \<Rightarrow> 'c list \<Rightarrow> bool option" where
  "seen_once idf seen [] = Some True"
| "seen_once idf seen (c # cs) =
     (case get_at seen (idf c) of
        None \<Rightarrow> None
      | Some True \<Rightarrow> Some False
      | Some False \<Rightarrow> seen_once idf (seen[idf c := True]) cs)"

text \<open>A deck whose cards are numbered from 0: what the deal checks and the stored form of a card rest
  on.\<close>

locale card_codec =
  fixes idf :: "'c \<Rightarrow> nat" and from_id :: "nat \<Rightarrow> 'c option" and size_n :: nat and fresh :: "'c list"
  assumes id_lt: "idf c < size_n"
    and from_id_id: "from_id (idf c) = Some c"
    and from_id_sound: "from_id k = Some c \<Longrightarrow> idf c = k"
    and fresh_ids: "map idf fresh = [0..<size_n]"
begin

lemma id_inj: "idf c = idf d \<longleftrightarrow> c = d"
proof
  assume "idf c = idf d"
  then have "from_id (idf c) = from_id (idf d)" by (rule arg_cong)
  then show "c = d" by (simp add: from_id_id)
qed (rule arg_cong)

lemma from_id_iff: "from_id k = Some c \<longleftrightarrow> idf c = k"
  using from_id_id from_id_sound by blast

lemma from_id_defined: "from_id k \<noteq> None \<longleftrightarrow> k < size_n"
proof
  assume "k < size_n"
  then have "k \<in> set (map idf fresh)" by (simp add: fresh_ids)
  then show "from_id k \<noteq> None" using from_id_id by auto
next
  assume "from_id k \<noteq> None"
  then show "k < size_n" using from_id_sound id_lt by blast
qed

lemma distinct_fresh: "distinct fresh"
  using fresh_ids distinct_map by (metis distinct_upt)

lemma set_fresh: "set fresh = UNIV"
proof -
  have "c \<in> set fresh" for c
  proof -
    have "idf c \<in> set (map idf fresh)" using id_lt by (simp add: fresh_ids)
    then show ?thesis by (auto simp: id_inj)
  qed
  then show ?thesis by blast
qed

lemma length_fresh: "length fresh = size_n"
  using fresh_ids by (metis diff_zero length_map length_upt)

lemma seen_once_iff:
  "length seen = size_n \<Longrightarrow>
     seen_once idf seen cs = Some (distinct cs \<and> (\<forall>c \<in> set cs. \<not> seen ! idf c))"
proof (induction cs arbitrary: seen)
  case (Cons c cs)
  have "idf c < length seen" using id_lt Cons.prems by simp
  then show ?case using Cons by (auto simp: get_at_def nth_list_update id_inj split: bool.splits)
qed simp

lemma seen_once_distinct: "seen_once idf (replicate size_n False) cs = Some (distinct cs)"
  using id_lt by (simp add: seen_once_iff)

lemma whole_deck_iff: "length cs = size_n \<and> distinct cs \<longleftrightarrow> mset cs = mset fresh"
proof
  assume cs: "length cs = size_n \<and> distinct cs"
  then have "card (set cs) = card (set fresh)"
    using distinct_card [of cs] distinct_card [OF distinct_fresh] length_fresh by simp
  then have "set cs = set fresh" using set_fresh by (metis List.finite_set UNIV_I card_subset_eq subsetI)
  then show "mset cs = mset fresh" using cs distinct_fresh set_eq_iff_mset_eq_distinct by blast
next
  assume "mset cs = mset fresh"
  then show "length cs = size_n \<and> distinct cs"
    using length_fresh distinct_fresh mset_eq_imp_distinct_iff mset_eq_length by metis
qed

lemma shuffle_whole: "length (fisher_yates raw fresh) = size_n \<and> distinct (fisher_yates raw fresh)"
  by (simp add: whole_deck_iff mset_fisher_yates)

end

end
