(* ===== verification/StdDeck.thy ===== *)
theory StdDeck
  imports Cards "HOL-Library.Product_Lexorder"
begin

text \<open>
  The standard 52-card deck of the rummy-family games (\<open>late-ssh/src/app/lobby/daily/std_deck.rs\<close>).
  A card is stored as \<open>suit * 13 + rank\<close>; the serializer writes that number and the deserializer
  accepts a byte through \<open>from_id\<close>.
\<close>

section \<open>Ranks\<close>

datatype rank =
  Ace | Two | Three | Four | Five | Six | Seven | Eight | Nine | Ten | Jack | Queen | King

definition RANKS :: "rank list" where
  "RANKS = [Ace, Two, Three, Four, Five, Six, Seven, Eight, Nine, Ten, Jack, Queen, King]"

primrec rank_number :: "rank \<Rightarrow> nat" where
  "rank_number Ace = 1"
| "rank_number Two = 2"
| "rank_number Three = 3"
| "rank_number Four = 4"
| "rank_number Five = 5"
| "rank_number Six = 6"
| "rank_number Seven = 7"
| "rank_number Eight = 8"
| "rank_number Nine = 9"
| "rank_number Ten = 10"
| "rank_number Jack = 11"
| "rank_number Queen = 12"
| "rank_number King = 13"

primrec rank_value :: "rank \<Rightarrow> nat" where
  "rank_value Ace = 1"
| "rank_value Two = 2"
| "rank_value Three = 3"
| "rank_value Four = 4"
| "rank_value Five = 5"
| "rank_value Six = 6"
| "rank_value Seven = 7"
| "rank_value Eight = 8"
| "rank_value Nine = 9"
| "rank_value Ten = 10"
| "rank_value Jack = 10"
| "rank_value Queen = 10"
| "rank_value King = 10"

primrec rank_label :: "rank \<Rightarrow> string" where
  "rank_label Ace = ''A''"
| "rank_label Two = ''2''"
| "rank_label Three = ''3''"
| "rank_label Four = ''4''"
| "rank_label Five = ''5''"
| "rank_label Six = ''6''"
| "rank_label Seven = ''7''"
| "rank_label Eight = ''8''"
| "rank_label Nine = ''9''"
| "rank_label Ten = ''10''"
| "rank_label Jack = ''J''"
| "rank_label Queen = ''Q''"
| "rank_label King = ''K''"

primrec rank_card_rank :: "rank \<Rightarrow> card_rank" where
  "rank_card_rank Ace = FaceAce"
| "rank_card_rank Two = FaceNumber (rank_number Two)"
| "rank_card_rank Three = FaceNumber (rank_number Three)"
| "rank_card_rank Four = FaceNumber (rank_number Four)"
| "rank_card_rank Five = FaceNumber (rank_number Five)"
| "rank_card_rank Six = FaceNumber (rank_number Six)"
| "rank_card_rank Seven = FaceNumber (rank_number Seven)"
| "rank_card_rank Eight = FaceNumber (rank_number Eight)"
| "rank_card_rank Nine = FaceNumber (rank_number Nine)"
| "rank_card_rank Ten = FaceNumber (rank_number Ten)"
| "rank_card_rank Jack = FaceJack"
| "rank_card_rank Queen = FaceQueen"
| "rank_card_rank King = FaceKing"

text \<open>The derived \<open>Ord\<close>: declaration order.\<close>

lemma rank_number_inj: "rank_number r = rank_number q \<longleftrightarrow> r = q"
  by (cases r; cases q; simp)

instantiation rank :: linorder
begin

definition less_eq_rank :: "rank \<Rightarrow> rank \<Rightarrow> bool" where
  "less_eq_rank r q \<longleftrightarrow> rank_number r \<le> rank_number q"

definition less_rank :: "rank \<Rightarrow> rank \<Rightarrow> bool" where
  "less_rank r q \<longleftrightarrow> rank_number r < rank_number q"

instance
  by standard (auto simp: less_eq_rank_def less_rank_def rank_number_inj)

end

lemma rank_number_range: "1 \<le> rank_number r" "rank_number r \<le> 13"
  by (cases r; simp)+

lemma rank_at_number: "RANKS ! (rank_number r - 1) = r"
  by (cases r) (simp_all add: RANKS_def)

lemma rank_number_at: "i < 13 \<Longrightarrow> rank_number (RANKS ! i) = i + 1"
  by (auto simp: RANKS_def less_Suc_eq numeral_eq_Suc)

lemma rank_value_number: "rank_value r = min (rank_number r) 10"
  by (cases r) simp_all

section \<open>Cards\<close>

definition DECK :: nat where [simp]: "DECK = 52"

record card =
  suit :: card_suit
  rank :: rank

definition card_id :: "card \<Rightarrow> nat" where
  "card_id c = suit_order (suit c) * 13 + (rank_number (rank c) - 1)"

definition card_from_id :: "nat \<Rightarrow> card option" where
  "card_from_id k =
     Option.bind (get_at CARD_SUITS (k div 13)) (\<lambda>s.
       map_option (\<lambda>r. \<lparr>suit = s, rank = r\<rparr>) (get_at RANKS (k mod 13)))"

definition card_value :: "card \<Rightarrow> nat" where
  "card_value c = rank_value (rank c)"

definition card_label :: "card \<Rightarrow> string" where
  "card_label c = rank_label (rank c) @ suit_symbol (suit c)"

definition playing_card_of :: "card \<Rightarrow> playing_card" where
  "playing_card_of c = \<lparr>pc_suit = suit c, pc_rank = rank_card_rank (rank c)\<rparr>"

text \<open>Reading a stored byte; the error carries the offending id.\<close>

definition deserialize_card :: "nat \<Rightarrow> (nat, card) res" where
  "deserialize_card k = (case card_from_id k of None \<Rightarrow> Err k | Some c \<Rightarrow> Ok c)"

definition fresh_deck :: "card list" where
  "fresh_deck = concat (map (\<lambda>s. map (\<lambda>r. \<lparr>suit = s, rank = r\<rparr>) RANKS) CARD_SUITS)"

definition shuffled_deck :: "(nat \<Rightarrow> nat) \<Rightarrow> card list" where
  "shuffled_deck raw = fisher_yates raw fresh_deck"

definition is_whole_deck :: "card list \<Rightarrow> bool option" where
  "is_whole_deck deal =
     (if length deal \<noteq> DECK then Some False else seen_once card_id (replicate DECK False) deal)"

definition sort_by_rank :: "card list \<Rightarrow> card list" where
  "sort_by_rank cards = sort_key (\<lambda>c. (rank c, suit_order (suit c))) cards"

section \<open>The numbered deck\<close>

lemma length_rosters: "length CARD_SUITS = 4" "length RANKS = 13"
  by (simp_all add: CARD_SUITS_def RANKS_def)

lemma card_id_div: "card_id c div 13 = suit_order (suit c)" "card_id c mod 13 = rank_number (rank c) - 1"
proof -
  have "rank_number (rank c) - 1 < 13" using rank_number_range [of "rank c"] by simp
  then show "card_id c div 13 = suit_order (suit c)" "card_id c mod 13 = rank_number (rank c) - 1"
    by (simp_all add: card_id_def)
qed

interpretation std_codec: card_codec card_id card_from_id DECK fresh_deck
proof
  fix c :: card and k
  show "card_id c < DECK"
    using suit_order_lt [of "suit c"] rank_number_range [of "rank c"] by (simp add: card_id_def)
  have "rank_number (rank c) - 1 < 13" using rank_number_range [of "rank c"] by simp
  then show "card_from_id (card_id c) = Some c"
    using suit_order_lt [of "suit c"]
    by (simp add: card_from_id_def get_at_def card_id_div suit_at_order rank_at_number [simplified] length_rosters)
  show "card_id c = k" if "card_from_id k = Some c"
  proof -
    from that have k: "k div 13 < 4" "suit c = CARD_SUITS ! (k div 13)" "rank c = RANKS ! (k mod 13)"
      by (auto simp: card_from_id_def get_at_Some bind_eq_Some_conv CARD_SUITS_def)
    then show ?thesis by (simp add: card_id_def suit_order_at rank_number_at)
  qed
next
  show "map card_id fresh_deck = [0..<DECK]"
    by (simp add: fresh_deck_def RANKS_def CARD_SUITS_def card_id_def upt_rec)
qed

lemma is_whole_deck_iff: "is_whole_deck deal = Some (mset deal = mset fresh_deck)"
  using std_codec.whole_deck_iff [of deal] std_codec.seen_once_distinct [of deal]
  by (auto simp: is_whole_deck_def)

lemma mset_shuffled_deck: "mset (shuffled_deck raw) = mset fresh_deck"
  by (simp add: shuffled_deck_def mset_fisher_yates)

section \<open>Properties\<close>

text \<open>
  The stored form of a card. A byte reads back as a card exactly when it is the number the card
  is written as, so storing and reading a card is the identity, distinct cards have distinct numbers,
  the bytes from 0 to 51 are all cards and every other byte is refused with its value.
\<close>

theorem card_bytes_roundtrip:
  "(deserialize_card k = Ok c \<longleftrightarrow> card_id c = k) \<and>
   (deserialize_card k = Err e \<longleftrightarrow> e = k \<and> 52 \<le> k) \<and>
   deserialize_card k \<noteq> Panic \<and> card_id c < 52 \<and> (card_id c = card_id d \<longleftrightarrow> c = d)"
  using std_codec.from_id_iff [of k c] std_codec.from_id_defined [of k] std_codec.id_lt [of c]
    std_codec.id_inj [of c d]
  by (auto simp: deserialize_card_def split: option.splits)

text \<open>
  The deck. A fresh deck has every card once; a shuffle gives a reordering of it and can give every
  reordering, depending on the draws; and the check of a stored deal accepts exactly the reorderings
  of the fresh deck, never panicking.
\<close>

theorem whole_deck_iff_shuffle:
  "is_whole_deck deal = Some (\<exists>raw. deal = shuffled_deck raw) \<and>
   set fresh_deck = UNIV \<and> distinct (shuffled_deck raw) \<and> length (shuffled_deck raw) = 52"
proof -
  have "mset deal = mset fresh_deck \<longleftrightarrow> (\<exists>raw. deal = shuffled_deck raw)"
    using fisher_yates_reaches [of fresh_deck deal] mset_shuffled_deck
    by (metis shuffled_deck_def)
  then show ?thesis
    using std_codec.set_fresh std_codec.shuffle_whole [of raw]
    by (simp add: is_whole_deck_iff shuffled_deck_def)
qed

end
