(* ===== verification/Briscola.thy ===== *)
theory Briscola
  imports Cards
begin

text \<open>
  Briscola (\<open>late-ssh/src/app/lobby/daily/briscola.rs\<close>). The state stores the deal and the cards in
  play order; hands, stock, turn and scores are replayed from them. An array of two is a function of
  the seat. The replay reads the deck by index: \<open>None\<close> is the index panic of a short deck.
\<close>

section \<open>Cards\<close>

definition br_DECK :: nat where [simp]: "br_DECK = 40"
definition br_HAND :: nat where [simp]: "br_HAND = 3"
definition TRUMP_INDEX :: nat where [simp]: "TRUMP_INDEX = 6"
definition STOCK_START :: nat where [simp]: "STOCK_START = 7"
definition DRAWS :: nat where [simp]: "DRAWS = 34"
definition WINNING_POINTS :: nat where [simp]: "WINNING_POINTS = 61"
definition br_STATE_VERSION :: nat where [simp]: "br_STATE_VERSION = 1"

datatype br_rank =
  BrAce | BrThree | BrKing | BrQueen | BrJack | BrSeven | BrSix | BrFive | BrFour | BrTwo

definition BR_RANKS :: "br_rank list" where
  "BR_RANKS = [BrAce, BrThree, BrKing, BrQueen, BrJack, BrSeven, BrSix, BrFive, BrFour, BrTwo]"

primrec br_rank_points :: "br_rank \<Rightarrow> nat" where
  "br_rank_points BrAce = 11"
| "br_rank_points BrThree = 10"
| "br_rank_points BrKing = 4"
| "br_rank_points BrQueen = 3"
| "br_rank_points BrJack = 2"
| "br_rank_points BrSeven = 0"
| "br_rank_points BrSix = 0"
| "br_rank_points BrFive = 0"
| "br_rank_points BrFour = 0"
| "br_rank_points BrTwo = 0"

primrec rank_order :: "br_rank \<Rightarrow> nat" where
  "rank_order BrAce = 0"
| "rank_order BrThree = 1"
| "rank_order BrKing = 2"
| "rank_order BrQueen = 3"
| "rank_order BrJack = 4"
| "rank_order BrSeven = 5"
| "rank_order BrSix = 6"
| "rank_order BrFive = 7"
| "rank_order BrFour = 8"
| "rank_order BrTwo = 9"

definition beats :: "br_rank \<Rightarrow> br_rank \<Rightarrow> bool" where
  "beats r q \<longleftrightarrow> rank_order r < rank_order q"

primrec br_rank_label :: "br_rank \<Rightarrow> string" where
  "br_rank_label BrAce = ''A''"
| "br_rank_label BrThree = ''3''"
| "br_rank_label BrKing = ''K''"
| "br_rank_label BrQueen = ''Q''"
| "br_rank_label BrJack = ''J''"
| "br_rank_label BrSeven = ''7''"
| "br_rank_label BrSix = ''6''"
| "br_rank_label BrFive = ''5''"
| "br_rank_label BrFour = ''4''"
| "br_rank_label BrTwo = ''2''"

primrec br_card_rank :: "br_rank \<Rightarrow> card_rank" where
  "br_card_rank BrAce = FaceAce"
| "br_card_rank BrThree = FaceNumber 3"
| "br_card_rank BrKing = FaceKing"
| "br_card_rank BrQueen = FaceQueen"
| "br_card_rank BrJack = FaceJack"
| "br_card_rank BrSeven = FaceNumber 7"
| "br_card_rank BrSix = FaceNumber 6"
| "br_card_rank BrFive = FaceNumber 5"
| "br_card_rank BrFour = FaceNumber 4"
| "br_card_rank BrTwo = FaceNumber 2"

record br_card =
  br_suit :: card_suit
  br_rank :: br_rank

definition br_card_id :: "br_card \<Rightarrow> nat" where
  "br_card_id c = suit_order (br_suit c) * 10 + rank_order (br_rank c)"

definition br_card_from_id :: "nat \<Rightarrow> br_card option" where
  "br_card_from_id k =
     Option.bind (get_at CARD_SUITS (k div 10)) (\<lambda>s.
       map_option (\<lambda>r. \<lparr>br_suit = s, br_rank = r\<rparr>) (get_at BR_RANKS (k mod 10)))"

definition br_points_of :: "br_card \<Rightarrow> nat" where
  "br_points_of c = br_rank_points (br_rank c)"

definition br_card_label :: "br_card \<Rightarrow> string" where
  "br_card_label c = br_rank_label (br_rank c) @ suit_symbol (br_suit c)"

definition br_playing_card :: "br_card \<Rightarrow> playing_card" where
  "br_playing_card c = \<lparr>pc_suit = br_suit c, pc_rank = br_card_rank (br_rank c)\<rparr>"

definition br_deserialize :: "nat \<Rightarrow> (nat, br_card) res" where
  "br_deserialize k = (case br_card_from_id k of None \<Rightarrow> Err k | Some c \<Rightarrow> Ok c)"

definition br_fresh_deck :: "br_card list" where
  "br_fresh_deck = concat (map (\<lambda>s. map (\<lambda>r. \<lparr>br_suit = s, br_rank = r\<rparr>) BR_RANKS) CARD_SUITS)"

section \<open>The state and the table\<close>

record trick_record =
  tr_leader :: nat
  tr_lead :: br_card
  tr_answer :: br_card
  tr_winner :: nat
  tr_points :: nat

record br_table =
  bt_hands :: "nat \<Rightarrow> br_card list"
  bt_points :: "nat \<Rightarrow> nat"
  bt_tricks :: "nat \<Rightarrow> nat"
  bt_turn :: nat
  bt_led :: "(nat \<times> br_card) option"
  bt_drawn :: nat
  bt_history :: "trick_record list"
  bt_last :: "(nat \<times> br_card) option"

record br_state =
  br_version :: nat
  br_revision :: nat
  br_seats :: "uuid \<times> uuid"
  br_deck :: "br_card list"
  br_plays :: "br_card list"

record trick_win =
  tw_winner :: nat
  tw_points :: nat

datatype match_end = Winner nat | DrawnMatch

record play_outcome =
  po_seat :: nat
  po_card :: br_card
  po_trick :: "trick_win option"
  po_totals :: "nat \<Rightarrow> nat"
  po_finish :: "match_end option"

datatype br_error =
  BrCorrupt | BrUnsupportedVersion nat | BrNotADeck | BrRepeatsCard | BrTooManyPlays | BrNotInHand

definition br_other :: "nat \<Rightarrow> nat" where
  "br_other seat = 1 - seat"

definition play_label :: "play_outcome \<Rightarrow> string" where
  "play_label out =
     (let card = br_card_label (po_card out)
      in case po_trick out of
           None \<Rightarrow> card
         | Some trick \<Rightarrow>
             let taken =
               (if tw_winner trick = po_seat out
                then (if tw_points trick = 0 then card @ '', takes the trick''
                      else card @ '', takes '' @ dec_string (tw_points trick))
                else (if tw_points trick = 0 then card @ '', loses the trick''
                      else card @ '', loses '' @ dec_string (tw_points trick)))
             in (case po_finish out of
                   None \<Rightarrow> taken
                 | Some DrawnMatch \<Rightarrow> taken @ '', drawn 60-60''
                 | Some (Winner seat) \<Rightarrow>
                     taken @ '', '' @ dec_string (po_totals out seat) @ ''-'' @
                       dec_string (po_totals out (br_other seat))))"

section \<open>Operations\<close>

definition br_new :: "bool \<Rightarrow> uuid \<Rightarrow> uuid \<Rightarrow> (nat \<Rightarrow> nat) \<Rightarrow> br_state" where
  "br_new coin challenger claimer raw =
     \<lparr>br_version = br_STATE_VERSION, br_revision = 0,
      br_seats = (if coin then (challenger, claimer) else (claimer, challenger)),
      br_deck = fisher_yates raw br_fresh_deck, br_plays = []\<rparr>"

definition br_parse :: "br_state option \<Rightarrow> (br_error, br_state) res" where
  "br_parse decoded =
     (case decoded of
        None \<Rightarrow> Err BrCorrupt
      | Some s \<Rightarrow>
          ensure (br_version s = br_STATE_VERSION) (BrUnsupportedVersion (br_version s))
          (ensure (length (br_deck s) = br_DECK) BrNotADeck
          (expect (seen_once br_card_id (replicate br_DECK False) (br_deck s)) (\<lambda>once.
           ensure once BrRepeatsCard
          (ensure (length (br_plays s) \<le> br_DECK) BrTooManyPlays (Ok s))))))"

definition br_trump :: "br_state \<Rightarrow> br_card option" where
  "br_trump s = get_at (br_deck s) TRUMP_INDEX"

definition br_seat_of :: "br_state \<Rightarrow> uuid \<Rightarrow> nat option" where
  "br_seat_of s u = (if fst (br_seats s) = u then Some 0 else if snd (br_seats s) = u then Some 1 else None)"

definition br_user_of :: "br_state \<Rightarrow> nat \<Rightarrow> uuid" where
  "br_user_of s seat = (if seat = 0 then fst (br_seats s) else snd (br_seats s))"

definition br_move_count :: "br_state \<Rightarrow> nat" where
  "br_move_count s = length (br_plays s)"

text \<open>The card that leaves the stock at an index: \<open>Some None\<close> when the stock is gone.\<close>

definition draw_at :: "br_card list \<Rightarrow> nat \<Rightarrow> br_card option option" where
  "draw_at deck index =
     (let stock = br_DECK - STOCK_START
      in if index < stock then map_option Some (get_at deck (STOCK_START + index))
         else if index = stock then map_option Some (get_at deck TRUMP_INDEX)
         else Some None)"

definition takes_trick :: "br_card \<Rightarrow> br_card \<Rightarrow> card_suit \<Rightarrow> bool" where
  "takes_trick answer lead trump =
     (if br_suit answer = br_suit lead then beats (br_rank answer) (br_rank lead)
      else br_suit answer = trump)"

definition settle :: "(nat \<Rightarrow> nat) \<Rightarrow> nat \<Rightarrow> match_end option" where
  "settle points plays =
     (case find (\<lambda>seat. points seat \<ge> WINNING_POINTS) [0, 1] of
        Some seat \<Rightarrow> Some (Winner seat)
      | None \<Rightarrow> if plays = br_DECK then Some DrawnMatch else None)"

text \<open>One seat's draw after a trick.\<close>

definition draw_for :: "br_card list \<Rightarrow> br_table \<Rightarrow> nat \<Rightarrow> br_table option" where
  "draw_for deck t seat =
     map_option (\<lambda>drawn. case drawn of
         None \<Rightarrow> t
       | Some drawn_card \<Rightarrow> t\<lparr>bt_hands := (bt_hands t)(seat := bt_hands t seat @ [drawn_card]), bt_drawn := bt_drawn t + 1\<rparr>)
       (draw_at deck (bt_drawn t))"

definition without :: "br_card \<Rightarrow> br_card list \<Rightarrow> br_card list" where
  "without c cards = filter (\<lambda>card. card \<noteq> c) cards"

text \<open>The body of the replay loop for a chunk of two cards; \<open>bt_turn\<close> is the leader.\<close>

definition replay_trick :: "br_card list \<Rightarrow> card_suit \<Rightarrow> br_table \<Rightarrow> br_card \<Rightarrow> br_card \<Rightarrow> br_table option" where
  "replay_trick deck trump t lead answer =
     (let leader = bt_turn t; follower = br_other leader;
          hands = (bt_hands t)(leader := without lead (bt_hands t leader));
          hands = hands(follower := without answer (hands follower));
          winner = (if takes_trick answer lead trump then follower else leader);
          won = br_points_of lead + br_points_of answer;
          t' = t\<lparr>bt_hands := hands,
                 bt_points := (bt_points t)(winner := bt_points t winner + won),
                 bt_tricks := (bt_tricks t)(winner := bt_tricks t winner + 1),
                 bt_history := bt_history t @ [\<lparr>tr_leader = leader, tr_lead = lead, tr_answer = answer,
                                                tr_winner = winner, tr_points = won\<rparr>]\<rparr>
      in map_option (\<lambda>t. t\<lparr>bt_turn := winner\<rparr>) (fold_opt (draw_for deck) t' [winner, br_other winner]))"

fun replay_plays :: "br_card list \<Rightarrow> card_suit \<Rightarrow> br_table \<Rightarrow> br_card list \<Rightarrow> br_table option" where
  "replay_plays deck trump t [] =
     Some (t\<lparr>bt_led := None,
             bt_last := (if bt_history t = [] then None
                         else Some (br_other (tr_leader (last (bt_history t))), tr_answer (last (bt_history t))))\<rparr>)"
| "replay_plays deck trump t [lead] =
     (let leader = bt_turn t
      in Some (t\<lparr>bt_hands := (bt_hands t)(leader := without lead (bt_hands t leader)),
                 bt_turn := br_other leader, bt_led := Some (leader, lead), bt_last := Some (leader, lead)\<rparr>))"
| "replay_plays deck trump t (lead # answer # rest) =
     Option.bind (replay_trick deck trump t lead answer) (\<lambda>t'. replay_plays deck trump t' rest)"

definition opening_table :: "br_card list \<Rightarrow> br_table" where
  "opening_table deck =
     \<lparr>bt_hands = (\<lambda>_. [])(0 := take br_HAND deck, 1 := take br_HAND (drop br_HAND deck)),
      bt_points = (\<lambda>_. 0), bt_tricks = (\<lambda>_. 0), bt_turn = 0, bt_led = None, bt_drawn = 0,
      bt_history = [], bt_last = None\<rparr>"

definition table_of :: "br_state \<Rightarrow> br_table option" where
  "table_of s =
     Option.bind (br_trump s) (\<lambda>trump.
       replay_plays (br_deck s) (br_suit trump) (opening_table (br_deck s)) (br_plays s))"

definition br_turn_user :: "br_state \<Rightarrow> uuid option" where
  "br_turn_user s = map_option (\<lambda>t. br_user_of s (bt_turn t)) (table_of s)"

definition hand_of :: "br_state \<Rightarrow> uuid \<Rightarrow> br_card list option" where
  "hand_of s u =
     (case br_seat_of s u of
        None \<Rightarrow> Some []
      | Some seat \<Rightarrow> map_option (\<lambda>t. bt_hands t seat) (table_of s))"

definition stock_remaining :: "br_state \<Rightarrow> nat option" where
  "stock_remaining s = map_option (\<lambda>t. DRAWS - bt_drawn t) (table_of s)"

definition apply_play :: "br_state \<Rightarrow> br_card \<Rightarrow> (br_error, br_state \<times> play_outcome) res" where
  "apply_play s c =
     expect (table_of s) (\<lambda>before.
       ensure (c \<in> set (bt_hands before (bt_turn before))) BrNotInHand
         (let s' = s\<lparr>br_plays := br_plays s @ [c]\<rparr>
          in expect (table_of s') (\<lambda>aft.
               let n = length (br_plays s');
                   trick = (if even n
                            then Some \<lparr>tw_winner = bt_turn aft,
                                       tw_points = bt_points aft (bt_turn aft) - bt_points before (bt_turn aft)\<rparr>
                            else None);
                   finish = (case trick of None \<Rightarrow> None | Some _ \<Rightarrow> settle (bt_points aft) n)
               in Ok (s', \<lparr>po_seat = bt_turn before, po_card = c, po_trick = trick,
                           po_totals = bt_points aft, po_finish = finish\<rparr>))))"

section \<open>The numbered deck\<close>

lemma rank_order_lt: "rank_order r < 10"
  by (cases r) simp_all

lemma rank_at_order: "BR_RANKS ! rank_order r = r"
  by (cases r) (simp_all add: BR_RANKS_def)

lemma rank_order_at: "i < 10 \<Longrightarrow> rank_order (BR_RANKS ! i) = i"
  by (auto simp: BR_RANKS_def less_Suc_eq numeral_eq_Suc)

lemma br_id_div: "br_card_id c div 10 = suit_order (br_suit c)" "br_card_id c mod 10 = rank_order (br_rank c)"
  using rank_order_lt [of "br_rank c"] by (simp_all add: br_card_id_def)

lemma br_rosters: "length CARD_SUITS = 4" "length BR_RANKS = 10"
  by (simp_all add: CARD_SUITS_def BR_RANKS_def)

interpretation br_codec: card_codec br_card_id br_card_from_id br_DECK br_fresh_deck
proof
  fix c :: br_card and k
  show "br_card_id c < br_DECK"
    using suit_order_lt [of "br_suit c"] rank_order_lt [of "br_rank c"] by (simp add: br_card_id_def)
  show "br_card_from_id (br_card_id c) = Some c"
    using suit_order_lt [of "br_suit c"] rank_order_lt [of "br_rank c"]
    by (simp add: br_card_from_id_def get_at_def br_id_div suit_at_order rank_at_order br_rosters)
  show "br_card_id c = k" if "br_card_from_id k = Some c"
  proof -
    from that have k: "k div 10 < 4" "br_suit c = CARD_SUITS ! (k div 10)" "br_rank c = BR_RANKS ! (k mod 10)"
      by (auto simp: br_card_from_id_def get_at_Some bind_eq_Some_conv CARD_SUITS_def)
    then show ?thesis by (simp add: br_card_id_def suit_order_at rank_order_at)
  qed
next
  show "map br_card_id br_fresh_deck = [0..<br_DECK]"
    by (simp add: br_fresh_deck_def BR_RANKS_def CARD_SUITS_def br_card_id_def upt_rec)
qed

lemma br_parse_Ok:
  "br_parse (Some s) = Ok t \<longleftrightarrow>
     t = s \<and> br_version s = 1 \<and> mset (br_deck s) = mset br_fresh_deck \<and> length (br_plays s) \<le> 40"
  using br_codec.whole_deck_iff [of "br_deck s"] br_codec.seen_once_distinct [of "br_deck s"]
  by (auto simp: br_parse_def res_simps)

section \<open>The replay card by card\<close>

text \<open>What one played card does to the table: lead, or answer and close the trick.\<close>

definition lead_card :: "br_table \<Rightarrow> br_card \<Rightarrow> br_table" where
  "lead_card t c =
     t\<lparr>bt_hands := (bt_hands t)(bt_turn t := without c (bt_hands t (bt_turn t))),
       bt_turn := br_other (bt_turn t), bt_led := Some (bt_turn t, c), bt_last := Some (bt_turn t, c)\<rparr>"

definition answer_card :: "br_card list \<Rightarrow> card_suit \<Rightarrow> nat \<Rightarrow> br_card \<Rightarrow> br_table \<Rightarrow> br_card \<Rightarrow> br_table option" where
  "answer_card deck trump leader lead t c =
     (let follower = br_other leader;
          winner = (if takes_trick c lead trump then follower else leader);
          won = br_points_of lead + br_points_of c;
          t' = t\<lparr>bt_hands := (bt_hands t)(follower := without c (bt_hands t follower)),
                 bt_points := (bt_points t)(winner := bt_points t winner + won),
                 bt_tricks := (bt_tricks t)(winner := bt_tricks t winner + 1),
                 bt_led := None, bt_last := Some (follower, c),
                 bt_history := bt_history t @ [\<lparr>tr_leader = leader, tr_lead = lead, tr_answer = c,
                                                tr_winner = winner, tr_points = won\<rparr>]\<rparr>
      in map_option (\<lambda>t. t\<lparr>bt_turn := winner\<rparr>) (fold_opt (draw_for deck) t' [winner, br_other winner]))"

definition br_step :: "br_card list \<Rightarrow> card_suit \<Rightarrow> br_table \<Rightarrow> br_card \<Rightarrow> br_table option" where
  "br_step deck trump t c =
     (case bt_led t of
        None \<Rightarrow> Some (lead_card t c)
      | Some (leader, lead) \<Rightarrow> answer_card deck trump leader lead t c)"

definition br_last_of :: "br_table \<Rightarrow> (nat \<times> br_card) option" where
  "br_last_of t = (if bt_history t = [] then None
     else Some (br_other (tr_leader (last (bt_history t))), tr_answer (last (bt_history t))))"

lemma draw_for_led:
  "draw_for deck (t\<lparr>bt_led := l, bt_last := m\<rparr>) seat = map_option (\<lambda>t. t\<lparr>bt_led := l, bt_last := m\<rparr>) (draw_for deck t seat)"
  by (simp add: draw_for_def option.map_comp o_def cong: option.map_cong split: option.split)
    (cases "draw_at deck (bt_drawn t)"; simp split: option.split)

lemma draw_for_turn:
  "draw_for deck (t\<lparr>bt_turn := x\<rparr>) seat = map_option (\<lambda>t. t\<lparr>bt_turn := x\<rparr>) (draw_for deck t seat)"
  by (cases "draw_at deck (bt_drawn t)")
    (auto simp: draw_for_def intro!: br_table.equality split: option.splits)

definition br_norm :: "br_table \<Rightarrow> br_table" where
  "br_norm t = t\<lparr>bt_led := None, bt_last := br_last_of t\<rparr>"

lemma fold_draw_led:
  "fold_opt (draw_for deck) (t\<lparr>bt_led := l, bt_last := m\<rparr>) seats =
     map_option (\<lambda>t. t\<lparr>bt_led := l, bt_last := m\<rparr>) (fold_opt (draw_for deck) t seats)"
  by (induction seats arbitrary: t) (auto simp: draw_for_led split: bind_splits)

lemma draw_for_keeps:
  "draw_for deck t seat = Some t' \<Longrightarrow>
     bt_history t' = bt_history t \<and> bt_led t' = bt_led t \<and> bt_turn t' = bt_turn t \<and>
     bt_points t' = bt_points t \<and> bt_tricks t' = bt_tricks t"
  by (auto simp: draw_for_def split: option.splits)

lemma fold_draw_keeps:
  "fold_opt (draw_for deck) t seats = Some t' \<Longrightarrow>
     bt_history t' = bt_history t \<and> bt_led t' = bt_led t \<and> bt_turn t' = bt_turn t \<and>
     bt_points t' = bt_points t \<and> bt_tricks t' = bt_tricks t"
  by (induction seats arbitrary: t) (force simp: bind_eq_Some_conv dest: draw_for_keeps)+

lemma step_of_trick:
  assumes "bt_led t = None"
  shows "Option.bind (br_step deck trump (br_norm t) lead) (\<lambda>t. br_step deck trump t answer) =
     map_option br_norm (replay_trick deck trump t lead answer)"
proof -
  let ?f = "br_other (bt_turn t)"
  let ?w = "if takes_trick answer lead trump then ?f else bt_turn t"
  let ?won = "br_points_of lead + br_points_of answer"
  let ?rec = "\<lparr>tr_leader = bt_turn t, tr_lead = lead, tr_answer = answer, tr_winner = ?w, tr_points = ?won\<rparr>"
  let ?h = "(bt_hands t)(bt_turn t := without lead (bt_hands t (bt_turn t)))"
  let ?t = "t\<lparr>bt_hands := ?h(?f := without answer (?h ?f)), bt_points := (bt_points t)(?w := bt_points t ?w + ?won),
              bt_tricks := (bt_tricks t)(?w := bt_tricks t ?w + 1), bt_history := bt_history t @ [?rec]\<rparr>"
  have left: "Option.bind (br_step deck trump (br_norm t) lead) (\<lambda>t. br_step deck trump t answer) =
      map_option (\<lambda>t. t\<lparr>bt_turn := ?w\<rparr>) (fold_opt (draw_for deck)
        ((?t\<lparr>bt_turn := ?f\<rparr>)\<lparr>bt_led := None, bt_last := Some (?f, answer)\<rparr>) [?w, br_other ?w])"
    by (simp add: br_step_def br_norm_def lead_card_def answer_card_def Let_def del: fold_opt.simps)
      (intro conjI impI arg_cong [where f = "\<lambda>u. map_option g (fold_opt (draw_for deck) u xs)" for g xs]
        br_table.equality; simp)
  have turn: "fold_opt (draw_for deck) (u\<lparr>bt_turn := x\<rparr>) seats =
      map_option (\<lambda>t. t\<lparr>bt_turn := x\<rparr>) (fold_opt (draw_for deck) u seats)" for u x seats
    by (induction seats arbitrary: u) (auto simp: draw_for_turn split: bind_splits)
  show ?thesis
  proof (cases "fold_opt (draw_for deck) ?t [?w, br_other ?w]")
    case None
    then show ?thesis unfolding left fold_draw_led turn by (simp add: replay_trick_def Let_def del: fold_opt.simps)
  next
    case (Some r)
    from fold_draw_keeps [OF Some] have "br_last_of (r\<lparr>bt_turn := ?w\<rparr>) = Some (?f, answer)"
      by (simp add: br_last_of_def)
    with Some show ?thesis unfolding left fold_draw_led turn
      by (simp add: replay_trick_def Let_def br_norm_def del: fold_opt.simps)
  qed
qed

lemma replay_trick_led: "replay_trick deck trump t lead answer = Some t' \<Longrightarrow> bt_led t' = bt_led t"
  by (auto simp: replay_trick_def Let_def simp del: fold_opt.simps dest!: fold_draw_keeps)

lemma replay_plays_steps:
  "bt_led t = None \<Longrightarrow> replay_plays deck trump t plays = fold_opt (br_step deck trump) (br_norm t) plays"
proof (induction deck trump t plays rule: replay_plays.induct)
  case (1 deck trump t)
  then show ?case by (simp add: br_norm_def br_last_of_def)
next
  case (2 deck trump t lead)
  then show ?case by (simp add: br_step_def br_norm_def lead_card_def Let_def)
next
  case (3 deck trump t lead answer rest)
  have "fold_opt (br_step deck trump) (br_norm t) (lead # answer # rest) =
      Option.bind (Option.bind (br_step deck trump (br_norm t) lead) (\<lambda>t. br_step deck trump t answer))
        (\<lambda>t. fold_opt (br_step deck trump) t rest)"
    by (simp add: Option.bind_assoc)
  also have "\<dots> = Option.bind (replay_trick deck trump t lead answer) (\<lambda>t'. fold_opt (br_step deck trump) (br_norm t') rest)"
    unfolding step_of_trick [OF "3.prems"] by (cases "replay_trick deck trump t lead answer") simp_all
  also have "\<dots> = Option.bind (replay_trick deck trump t lead answer) (\<lambda>t'. replay_plays deck trump t' rest)"
    using "3.IH" replay_trick_led "3.prems" by (cases "replay_trick deck trump t lead answer") auto
  finally show ?case by simp
qed

lemma br_table_steps:
  "table_of s = Option.bind (br_trump s) (\<lambda>trump.
     fold_opt (br_step (br_deck s) (br_suit trump)) (opening_table (br_deck s)) (br_plays s))"
proof -
  have "br_norm (opening_table deck) = opening_table deck" for deck
    by (simp add: br_norm_def opening_table_def br_last_of_def)
  then show ?thesis
    by (simp add: table_of_def replay_plays_steps opening_table_def [THEN arg_cong, of bt_led])
qed

section \<open>The table of a match\<close>

text \<open>The stock in draw order: the cards behind the trump, then the trump.\<close>

definition stock_order :: "br_card list \<Rightarrow> br_card list" where
  "stock_order deck = drop STOCK_START deck @ [deck ! TRUMP_INDEX]"

definition led_points :: "br_table \<Rightarrow> nat" where
  "led_points t = (case bt_led t of None \<Rightarrow> 0 | Some (_, c) \<Rightarrow> br_points_of c)"

text \<open>What every table reached by played cards satisfies, against the deal and the plays: no card is
  lost or doubled, the points on the two piles are those of the closed tricks, and hand sizes follow
  from the number of tricks.\<close>

definition br_ok :: "br_card list \<Rightarrow> br_card list \<Rightarrow> br_table \<Rightarrow> bool" where
  "br_ok deck plays t \<longleftrightarrow>
     bt_turn t < 2 \<and>
     mset (bt_hands t 0) + mset (bt_hands t 1) + mset plays + mset (drop (bt_drawn t) (stock_order deck)) = mset deck \<and>
     bt_points t 0 + bt_points t 1 + led_points t = sum_list (map br_points_of plays) \<and>
     bt_tricks t 0 + bt_tricks t 1 = length plays div 2 \<and>
     bt_drawn t = min (2 * (length plays div 2)) 34 \<and>
     (case bt_led t of
        None \<Rightarrow> even (length plays)
      | Some (l, c) \<Rightarrow> odd (length plays) \<and> l < 2 \<and> bt_turn t = 1 - l) \<and>
     length (bt_hands t (bt_turn t)) = 3 - (length plays div 2 - 17) \<and>
     length (bt_hands t (1 - bt_turn t)) + length plays mod 2 = 3 - (length plays div 2 - 17)"

lemma draw_at_stock:
  assumes "length deck = 40"
  shows "draw_at deck i = Some (if i < 34 then Some (stock_order deck ! i) else None)"
  using assms by (auto simp: draw_at_def get_at_def stock_order_def nth_append)

lemma two_draws:
  assumes "length deck = 40" and "even (bt_drawn t)" and "w < 2"
  shows "fold_opt (draw_for deck) t [w, br_other w] =
    Some (if bt_drawn t < 34
          then t\<lparr>bt_hands := (bt_hands t)
                   (w := bt_hands t w @ [stock_order deck ! bt_drawn t],
                    br_other w := bt_hands t (br_other w) @ [stock_order deck ! (bt_drawn t + 1)]),
                 bt_drawn := bt_drawn t + 2\<rparr>
          else t)"
proof -
  have "br_other w \<noteq> w" using assms(3) by (auto simp: br_other_def less_2_cases_iff)
  moreover have "bt_drawn t < 34 \<Longrightarrow> bt_drawn t + 1 < 34" using assms(2) by presburger
  ultimately show ?thesis by (simp add: draw_for_def draw_at_stock [OF assms(1)])
qed

lemma without_remove1: "distinct xs \<Longrightarrow> without c xs = remove1 c xs"
  by (simp add: without_def distinct_remove1_removeAll removeAll_filter_not_eq) (metis (mono_tags, lifting) filter_cong)

lemma mset_without: "distinct xs \<Longrightarrow> c \<in> set xs \<Longrightarrow> add_mset c (mset (without c xs)) = mset xs"
  by (simp add: without_remove1)

lemma length_without: "distinct xs \<Longrightarrow> c \<in> set xs \<Longrightarrow> Suc (length (without c xs)) = length xs"
  using length_pos_if_in_set [of c xs] by (simp add: without_remove1 length_remove1)

lemma br_ok_hands:
  assumes "br_ok deck plays t" and "distinct deck"
  shows "distinct (bt_hands t 0)" and "distinct (bt_hands t 1)"
proof -
  have c: "mset (bt_hands t 0) + mset (bt_hands t 1) + mset plays + mset (drop (bt_drawn t) (stock_order deck)) = mset deck"
    using assms(1) unfolding br_ok_def by blast
  then have "mset (bt_hands t 0 @ bt_hands t 1 @ plays @ drop (bt_drawn t) (stock_order deck)) = mset deck"
    by (simp add: add.assoc)
  then have "distinct (bt_hands t 0 @ bt_hands t 1 @ plays @ drop (bt_drawn t) (stock_order deck))"
    using assms(2) mset_eq_imp_distinct_iff by blast
  then show "distinct (bt_hands t 0)" and "distinct (bt_hands t 1)" by simp_all
qed

lemma lt2: "(n :: nat) < 2 \<longleftrightarrow> n = 0 \<or> n = 1"
  by auto

lemma lead_ok:
  assumes ok: "br_ok deck plays t" and "distinct deck" and "bt_led t = None"
    and mem: "c \<in> set (bt_hands t (bt_turn t))"
  shows "br_ok deck (plays @ [c]) (lead_card t c)"
proof -
  note d = br_ok_hands [OF ok assms(2)]
  have turn: "bt_turn t = 0 \<or> bt_turn t = 1" using ok by (auto simp: br_ok_def lt2)
  have ev: "even (length plays)" using ok assms(3) by (simp add: br_ok_def)
  then have half: "Suc (length plays) div 2 = length plays div 2" "length plays mod 2 = 0"
    "Suc (length plays) mod 2 = 1" by presburger+
  have cons: "mset (bt_hands t 0) + mset (bt_hands t 1) + mset plays + mset (drop (bt_drawn t) (stock_order deck)) = mset deck"
    using ok unfolding br_ok_def by blast
  have m: "mset (bt_hands t (bt_turn t)) = add_mset c (mset (without c (bt_hands t (bt_turn t))))"
    and l: "length (bt_hands t (bt_turn t)) = Suc (length (without c (bt_hands t (bt_turn t))))"
    using mem d turn by (auto simp: mset_without length_without)
  from turn show ?thesis
  proof
    assume t0: "bt_turn t = 0"
    have "add_mset c (mset (without c (bt_hands t 0))) + mset (bt_hands t 1) + mset plays +
        mset (drop (bt_drawn t) (stock_order deck)) = mset deck"
      using cons m by (simp add: t0)
    then show ?thesis using ok l half ev t0 assms(3)
      by (auto simp: br_ok_def lead_card_def br_other_def led_points_def)
  next
    assume t1: "bt_turn t = 1"
    have "mset (bt_hands t 0) + add_mset c (mset (without c (bt_hands t 1))) + mset plays +
        mset (drop (bt_drawn t) (stock_order deck)) = mset deck"
      using cons m by (simp add: t1)
    then show ?thesis using ok l half ev t1 assms(3)
      by (auto simp: br_ok_def lead_card_def br_other_def led_points_def)
  qed
qed

lemma drop_two: "Suc d < length xs \<Longrightarrow> drop d xs = xs ! d # xs ! Suc d # drop (Suc (Suc d)) xs"
  by (simp add: Cons_nth_drop_Suc)

lemma answer_ok:
  assumes ok: "br_ok deck plays t" and deck: "distinct deck" "length deck = 40" and led: "bt_led t = Some (l, lead)"
    and mem: "c \<in> set (bt_hands t (bt_turn t))"
  shows "\<exists>u. answer_card deck trump l lead t c = Some u \<and> br_ok deck (plays @ [c]) u \<and> bt_led u = None"
proof -
  let ?f = "br_other l" and ?d = "bt_drawn t" and ?s = "stock_order deck"
  note dist = br_ok_hands [OF ok deck(1)]
  have l: "l = 0 \<or> l = 1" and turn: "bt_turn t = ?f" and oddn: "odd (length plays)"
    using ok led by (auto simp: br_ok_def br_other_def lt2)
  define k where "k = length plays div 2"
  have n: "length plays = 2 * k + 1" using oddn by (simp add: k_def)
  have drawn: "?d = min (2 * k) 34" using ok by (simp add: br_ok_def k_def)
  have ev: "even ?d" by (simp add: drawn min_def)
  have m: "mset (bt_hands t ?f) = add_mset c (mset (without c (bt_hands t ?f)))"
    and len: "length (bt_hands t ?f) = Suc (length (without c (bt_hands t ?f)))"
    using mem dist l turn by (auto simp: mset_without length_without br_other_def)
  have sizes: "length (bt_hands t (bt_turn t)) = 3 - (length plays div 2 - 17)"
    "length (bt_hands t (1 - bt_turn t)) + length plays mod 2 = 3 - (length plays div 2 - 17)"
    using ok unfolding br_ok_def by blast+
  have "1 - bt_turn t = l" "length plays mod 2 = 1" using l turn n by (auto simp: br_other_def)
  with sizes have hands: "length (bt_hands t ?f) = 3 - (k - 17)" "length (bt_hands t l) + 1 = 3 - (k - 17)"
    unfolding turn [symmetric] k_def by metis+
  have other: "br_other ?f = l" "?f \<noteq> l" "?f < 2" "l < 2" using l by (auto simp: br_other_def)
  have len_s: "length ?s = 34" using deck(2) by (simp add: stock_order_def)
  have cons: "add_mset c (mset (without c (bt_hands t ?f)) + mset (bt_hands t l) + mset plays + mset (drop ?d ?s)) = mset deck"
    using ok l m by (auto simp: br_ok_def br_other_def add_ac)
  define w where "w = (if takes_trick c lead trump then ?f else l)"
  have w: "w = ?f \<or> w = l" "w < 2" "br_other w < 2" "br_other w \<noteq> w" "w = ?f \<longleftrightarrow> br_other w = l"
    using other by (auto simp: w_def)
  define won where "won = br_points_of lead + br_points_of c"
  have pts: "bt_points t 0 + bt_points t 1 + br_points_of lead = sum_list (map br_points_of plays)"
    and tricks: "bt_tricks t 0 + bt_tricks t 1 = k"
    using ok led by (simp_all add: br_ok_def led_points_def k_def)
  define t1 where "t1 = t\<lparr>bt_hands := (bt_hands t)(?f := without c (bt_hands t ?f)),
     bt_points := (bt_points t)(w := bt_points t w + won), bt_tricks := (bt_tricks t)(w := bt_tricks t w + 1),
     bt_led := None, bt_last := Some (?f, c),
     bt_history := bt_history t @ [\<lparr>tr_leader = l, tr_lead = lead, tr_answer = c, tr_winner = w, tr_points = won\<rparr>]\<rparr>"
  define u where "u = (if ?d < 34 then t1\<lparr>bt_hands := (bt_hands t1)(w := bt_hands t1 w @ [?s ! ?d],
       br_other w := bt_hands t1 (br_other w) @ [?s ! (?d + 1)]), bt_drawn := ?d + 2\<rparr> else t1)\<lparr>bt_turn := w\<rparr>"
  have "answer_card deck trump l lead t c = map_option (\<lambda>t. t\<lparr>bt_turn := w\<rparr>) (fold_opt (draw_for deck) t1 [w, br_other w])"
    by (simp add: answer_card_def Let_def t1_def w_def won_def del: fold_opt.simps)
  also have "\<dots> = Some u"
    unfolding two_draws [OF deck(2), of t1 w] using ev w(2) two_draws [OF deck(2), of t1 w]
    by (simp add: u_def t1_def del: fold_opt.simps)
  finally have res: "answer_card deck trump l lead t c = Some u" .
  have "br_ok deck (plays @ [c]) u"
  proof -
    have half: "length (plays @ [c]) div 2 = Suc k" "length (plays @ [c]) mod 2 = 0" "even (length (plays @ [c]))"
      using n by auto
    have sum2: "f 0 + f 1 = f w + f (br_other w)" for f :: "nat \<Rightarrow> 'b :: ab_semigroup_add"
      using w(2) by (auto simp: less_2_cases_iff br_other_def add.commute)
    have hw: "mset (bt_hands t1 w) + mset (bt_hands t1 (br_other w)) = mset (without c (bt_hands t ?f)) + mset (bt_hands t l)"
      using w(1) other by (auto simp: t1_def add.commute)
    have lw: "length (bt_hands t1 w) = 2 - (k - 17)" "length (bt_hands t1 (br_other w)) = 2 - (k - 17)"
      using w(1) other hands len by (auto simp: t1_def)
    have cards: "mset (bt_hands u 0) + mset (bt_hands u 1) + mset (plays @ [c]) + mset (drop (bt_drawn u) ?s) = mset deck"
    proof (cases "?d < 34")
      case True
      then have "Suc ?d < length ?s" using ev len_s by presburger
      from drop_two [OF this] cons hw w(4) True show ?thesis
        unfolding sum2 [of "\<lambda>x. mset (bt_hands u x)"]
        by (simp add: u_def add_mset_commute [of "?s ! ?d"])
    next
      case False
      with cons hw show ?thesis
        unfolding sum2 [of "\<lambda>x. mset (bt_hands u x)"] by (simp add: u_def t1_def)
    qed
    have points: "bt_points u 0 + bt_points u 1 = sum_list (map br_points_of (plays @ [c]))"
      using pts w(4) unfolding sum2 [of "bt_points u"] sum2 [of "bt_points t"]
      by (simp add: u_def t1_def won_def)
    have tr: "bt_tricks u 0 + bt_tricks u 1 = Suc k"
      using tricks w(4) unfolding sum2 [of "bt_tricks u"] sum2 [of "bt_tricks t"] by (simp add: u_def t1_def)
    have dr: "bt_drawn u = min (2 * Suc k) 34" using drawn ev by (auto simp: u_def t1_def)
    have "?d < 34 \<longleftrightarrow> k < 17" by (simp add: drawn min_def)
    then have after: "3 - (Suc k - 17) = (if ?d < 34 then Suc (2 - (k - 17)) else 2 - (k - 17))" by simp
    have "bt_turn u = w" "bt_led u = None" by (simp_all add: u_def t1_def)
    moreover have "length (bt_hands u w) = 3 - (Suc k - 17)" "length (bt_hands u (1 - w)) = 3 - (Suc k - 17)"
      unfolding after using lw w(4) by (auto simp: u_def br_other_def)
    ultimately show ?thesis
      unfolding br_ok_def half led_points_def using cards points tr dr w(2) oddn by (simp add: half)
  qed
  moreover have "bt_led u = None" by (simp add: u_def t1_def)
  ultimately show ?thesis using res by blast
qed

section \<open>Reachable states\<close>

definition br_inv :: "br_state \<Rightarrow> bool" where
  "br_inv s \<longleftrightarrow> mset (br_deck s) = mset br_fresh_deck \<and> (\<exists>t. table_of s = Some t \<and> br_ok (br_deck s) (br_plays s) t)"

lemma br_inv_deck: "br_inv s \<Longrightarrow> length (br_deck s) = 40 \<and> distinct (br_deck s)"
  using br_codec.whole_deck_iff [of "br_deck s"] by (simp add: br_inv_def)

lemma br_trump_some: "length (br_deck s) = 40 \<Longrightarrow> br_trump s = Some (br_deck s ! 6)"
  by (simp add: br_trump_def get_at_def)

lemma br_table_40:
  "length (br_deck s) = 40 \<Longrightarrow>
     table_of s = fold_opt (br_step (br_deck s) (br_suit (br_deck s ! 6))) (opening_table (br_deck s)) (br_plays s)"
  by (simp add: br_table_steps br_trump_some)

text \<open>A card of the player on turn always extends the table.\<close>

lemma br_extend:
  assumes "br_inv s" and t: "table_of s = Some t" and mem: "c \<in> set (bt_hands t (bt_turn t))"
  shows "\<exists>u. table_of (s\<lparr>br_plays := br_plays s @ [c]\<rparr>) = Some u \<and>
           br_step (br_deck s) (br_suit (br_deck s ! 6)) t c = Some u \<and>
           br_ok (br_deck s) (br_plays s @ [c]) u"
proof -
  note d = br_inv_deck [OF assms(1)]
  have ok: "br_ok (br_deck s) (br_plays s) t" using assms(1) t by (auto simp: br_inv_def)
  have tr: "br_trump s = Some (br_deck s ! 6)" using d br_trump_some by blast
  have next_table: "table_of (s\<lparr>br_plays := br_plays s @ [c]\<rparr>) = br_step (br_deck s) (br_suit (br_deck s ! 6)) t c"
    using t d by (simp add: br_table_40 fold_opt_snoc)
  show ?thesis
  proof (cases "bt_led t")
    case None
    with lead_ok [OF ok _ None mem] d show ?thesis unfolding next_table by (simp add: br_step_def)
  next
    case (Some x)
    obtain l lead where x: "x = (l, lead)" by (cases x)
    from answer_ok [OF ok _ _ Some [unfolded x] mem] d obtain u where
      "answer_card (br_deck s) (br_suit (br_deck s ! 6)) l lead t c = Some u" "br_ok (br_deck s) (br_plays s @ [c]) u" by blast
    then show ?thesis unfolding next_table by (simp add: br_step_def Some x)
  qed
qed

text \<open>The outcome a play reports, from the two tables around it.\<close>

definition outcome_of :: "br_table \<Rightarrow> br_table \<Rightarrow> br_card \<Rightarrow> nat \<Rightarrow> play_outcome" where
  "outcome_of t u c n =
     (let trick = (if even n then Some \<lparr>tw_winner = bt_turn u, tw_points = bt_points u (bt_turn u) - bt_points t (bt_turn u)\<rparr> else None)
      in \<lparr>po_seat = bt_turn t, po_card = c, po_trick = trick, po_totals = bt_points u,
          po_finish = (if even n then settle (bt_points u) n else None)\<rparr>)"

lemma apply_play_cases:
  assumes "br_inv s" and "table_of s = Some t"
  shows "(c \<notin> set (bt_hands t (bt_turn t)) \<and> apply_play s c = Err BrNotInHand) \<or>
    (c \<in> set (bt_hands t (bt_turn t)) \<and>
     (\<exists>u. br_step (br_deck s) (br_suit (br_deck s ! 6)) t c = Some u \<and>
          table_of (s\<lparr>br_plays := br_plays s @ [c]\<rparr>) = Some u \<and> br_ok (br_deck s) (br_plays s @ [c]) u \<and>
          apply_play s c = Ok (s\<lparr>br_plays := br_plays s @ [c]\<rparr>, outcome_of t u c (length (br_plays s) + 1))))"
proof (cases "c \<in> set (bt_hands t (bt_turn t))")
  case True
  from br_extend [OF assms True] obtain u where u: "table_of (s\<lparr>br_plays := br_plays s @ [c]\<rparr>) = Some u"
    "br_step (br_deck s) (br_suit (br_deck s ! 6)) t c = Some u" "br_ok (br_deck s) (br_plays s @ [c]) u" by blast
  have "apply_play s c = Ok (s\<lparr>br_plays := br_plays s @ [c]\<rparr>, outcome_of t u c (length (br_plays s) + 1))"
    using True assms(2) u(1) by (simp add: apply_play_def ensure_def Let_def outcome_of_def)
  with u True show ?thesis by blast
next
  case False
  with assms(2) show ?thesis by (simp add: apply_play_def ensure_def)
qed

interpretation br_engine: logged_engine apply_play br_inv br_plays "\<lambda>s c. c"
proof
  fix s s' :: br_state and c out
  assume inv: "br_inv s" and ok: "apply_play s c = Ok (s', out)"
  from inv obtain t where t: "table_of s = Some t" by (auto simp: br_inv_def)
  from apply_play_cases [OF inv t, of c] ok obtain u where
    "s' = s\<lparr>br_plays := br_plays s @ [c]\<rparr>" "table_of s' = Some u" "br_ok (br_deck s) (br_plays s @ [c]) u" by auto
  with inv show "br_inv s'" "br_plays s' = br_plays s @ [c]" by (auto simp: br_inv_def)
next
  fix s :: br_state and c
  assume inv: "br_inv s"
  then obtain t where t: "table_of s = Some t" by (auto simp: br_inv_def)
  from apply_play_cases [OF inv t, of c] show "apply_play s c \<noteq> Panic" by auto
qed

interpretation br_sides: two_sides br_other "\<lambda>seat. seat < 2" br_user_of br_seat_of
proof
  show "br_seat_of s u = Some c \<Longrightarrow> c < 2 \<and> br_user_of s c = u" for s u c
    by (auto simp: br_seat_of_def br_user_of_def split: if_splits)
  show "c < 2 \<Longrightarrow> br_seat_of s (br_user_of s c) \<noteq> None" for s c by (auto simp: br_seat_of_def br_user_of_def lt2)
qed (auto simp: br_other_def lt2)

lemma br_ok_opening:
  assumes "length deck = 40"
  shows "br_ok deck [] (opening_table deck)"
proof -
  have "deck = take 6 deck @ deck ! 6 # drop (Suc 6) deck" by (rule id_take_nth_drop) (simp add: assms)
  moreover have "take (3 + 3) deck = take 3 deck @ take 3 (drop 3 deck)" by (rule take_add)
  ultimately have "deck = take 3 deck @ take 3 (drop 3 deck) @ deck ! 6 # drop 7 deck" by simp
  then have "mset deck = mset (take 3 deck @ take 3 (drop 3 deck) @ deck ! 6 # drop 7 deck)" by simp
  then show ?thesis using assms
    by (simp add: br_ok_def opening_table_def led_points_def stock_order_def add_ac)
qed

lemma br_inv_new: "br_inv (br_new coin a b raw)"
proof -
  have m: "mset (br_deck (br_new coin a b raw)) = mset br_fresh_deck" by (simp add: br_new_def mset_fisher_yates)
  then have "length (br_deck (br_new coin a b raw)) = 40"
    using br_codec.whole_deck_iff [of "br_deck (br_new coin a b raw)"] by simp
  note len = this
  from br_ok_opening [OF this] m show ?thesis
    by (simp add: br_inv_def br_table_40 [OF len]) (simp add: br_new_def)
qed

lemma deck_points: "sum_mset (image_mset br_points_of (mset br_fresh_deck)) = 120"
  by (simp add: br_fresh_deck_def CARD_SUITS_def BR_RANKS_def br_points_of_def)

lemma sum_points: "sum_list (map br_points_of cs) = sum_mset (image_mset br_points_of (mset cs))"
  by (metis mset_map sum_mset_sum_list)

lemma br_ok_totals:
  assumes "mset deck = mset br_fresh_deck" and "br_ok deck plays t"
  shows "length plays \<le> 40" and "bt_points t 0 + bt_points t 1 \<le> 120"
    and "length plays = 40 \<Longrightarrow> bt_points t 0 + bt_points t 1 = 120"
proof -
  let ?rest = "mset (bt_hands t 0) + mset (bt_hands t 1) + mset (drop (bt_drawn t) (stock_order deck))"
  have cons: "?rest + mset plays = mset br_fresh_deck"
    using assms unfolding br_ok_def by (metis (no_types, lifting) add.assoc add.commute)
  have pts: "bt_points t 0 + bt_points t 1 + led_points t = sum_mset (image_mset br_points_of (mset plays))"
    using assms(2) by (simp add: br_ok_def sum_points)
  have split: "sum_mset (image_mset br_points_of ?rest) + sum_mset (image_mset br_points_of (mset plays)) = 120"
    using arg_cong [OF cons, of "\<lambda>m. sum_mset (image_mset br_points_of m)"] deck_points by simp
  have sizes: "size ?rest + length plays = 40"
    using arg_cong [OF cons, of size] br_codec.length_fresh by simp
  show "length plays \<le> 40" using sizes by linarith
  show "bt_points t 0 + bt_points t 1 \<le> 120" using pts split by linarith
  assume n: "length plays = 40"
  then have "?rest = {#}" using sizes by (metis add_cancel_left_left size_eq_0_iff_empty)
  then have "sum_mset (image_mset br_points_of ?rest) = 0" by (metis image_mset_empty sum_mset.empty)
  then have "sum_mset (image_mset br_points_of (mset plays)) = 120" using split by linarith
  moreover have "bt_led t = None" using assms(2) n by (auto simp: br_ok_def split: option.splits)
  ultimately show "bt_points t 0 + bt_points t 1 = 120" using pts by (simp add: led_points_def)
qed

lemma settle_Winner:
  assumes "points 0 + points 1 \<le> (120 :: nat)"
  shows "settle points n = Some (Winner w) \<longleftrightarrow> w < 2 \<and> 61 \<le> points w"
proof -
  have "w < 2 \<and> 61 \<le> points w \<longleftrightarrow> (w = 0 \<and> 61 \<le> points 0) \<or> (w = 1 \<and> 61 \<le> points 1)"
    by (auto simp: less_2_cases_iff)
  then show ?thesis using assms by (auto simp: settle_def)
qed

lemma settle_Draw: "settle points n = Some DrawnMatch \<longleftrightarrow> n = 40 \<and> points 0 \<le> 60 \<and> points 1 \<le> 60"
  by (auto simp: settle_def)

section \<open>Properties\<close>

text \<open>
  C40. A briscola session loses no card and no point. Whatever cards are submitted to a match dealt
  from any draws, no call panics; the two hands, the played cards and the undrawn stock are together
  the forty-card deck, each card once; and the points on the two piles, with those of the card led,
  are the points of the cards played.
\<close>

theorem briscola_conserves_cards:
  "\<exists>s t. submit_all apply_play (br_new coin a b raw) cards = Ok s \<and> table_of s = Some t \<and>
     mset (bt_hands t 0) + mset (bt_hands t 1) + mset (br_plays s) + mset (drop (bt_drawn t) (stock_order (br_deck s))) =
       mset br_fresh_deck \<and>
     bt_points t 0 + bt_points t 1 + led_points t = sum_list (map br_points_of (br_plays s)) \<and>
     length (br_plays s) \<le> 40"
proof -
  from br_engine.session_ok [OF br_inv_new] obtain s where
    s: "submit_all apply_play (br_new coin a b raw) cards = Ok s" "br_inv s" by blast
  from s(2) obtain t where t: "table_of s = Some t" "br_ok (br_deck s) (br_plays s) t"
    and m: "mset (br_deck s) = mset br_fresh_deck" by (auto simp: br_inv_def)
  from br_ok_totals(1) [OF m t(2)] have "length (br_plays s) \<le> 40" .
  moreover have "mset (bt_hands t 0) + mset (bt_hands t 1) + mset (br_plays s) +
      mset (drop (bt_drawn t) (stock_order (br_deck s))) = mset br_fresh_deck"
    "bt_points t 0 + bt_points t 1 + led_points t = sum_list (map br_points_of (br_plays s))"
    using t(2) m unfolding br_ok_def by metis+
  ultimately show ?thesis using s(1) t(1) by blast
qed

text \<open>
  One play. A card is accepted exactly when the player on turn holds it. A led card only passes the
  turn. An answer closes the trick: the answering player takes it exactly when the answer outranks the
  led suit or trumps it, the winner's pile grows by the points of the two cards and by nothing else,
  and the winner leads next.
\<close>

theorem briscola_trick_exact:
  assumes "br_inv s" and "table_of s = Some t"
  shows "case apply_play s c of
      Panic \<Rightarrow> False
    | Err e \<Rightarrow> e = BrNotInHand \<and> c \<notin> set (bt_hands t (bt_turn t))
    | Ok (s', out) \<Rightarrow>
        c \<in> set (bt_hands t (bt_turn t)) \<and> po_seat out = bt_turn t \<and>
        (\<exists>u. table_of s' = Some u \<and> po_totals out = bt_points u \<and>
          (case bt_led t of
             None \<Rightarrow> po_trick out = None \<and> po_finish out = None \<and> bt_turn u = br_other (bt_turn t) \<and>
               bt_led u = Some (bt_turn t, c) \<and> bt_points u = bt_points t
           | Some (l, lead) \<Rightarrow>
               (let w = (if takes_trick c lead (br_suit (br_deck s ! 6)) then bt_turn t else l)
                in po_trick out = Some \<lparr>tw_winner = w, tw_points = br_points_of lead + br_points_of c\<rparr> \<and>
                   bt_turn u = w \<and> bt_led u = None \<and>
                   bt_points u = (bt_points t)(w := bt_points t w + br_points_of lead + br_points_of c))))"
proof -
  have ok: "br_ok (br_deck s) (br_plays s) t" using assms by (auto simp: br_inv_def)
  from apply_play_cases [OF assms, of c] show ?thesis
  proof (elim disjE conjE exE)
    fix u
    assume mem: "c \<in> set (bt_hands t (bt_turn t))"
      and st: "br_step (br_deck s) (br_suit (br_deck s ! 6)) t c = Some u"
      and u: "table_of (s\<lparr>br_plays := br_plays s @ [c]\<rparr>) = Some u"
      and ap: "apply_play s c = Ok (s\<lparr>br_plays := br_plays s @ [c]\<rparr>, outcome_of t u c (length (br_plays s) + 1))"
    show ?thesis
    proof (cases "bt_led t")
      case None
      then have "even (length (br_plays s))" and "u = lead_card t c" using ok st by (auto simp: br_ok_def br_step_def)
      with None ap u mem show ?thesis by (simp add: outcome_of_def lead_card_def)
    next
      case (Some x)
      obtain l lead where x: "x = (l, lead)" by (cases x)
      then have odd': "odd (length (br_plays s))" and turn: "bt_turn t = br_other l"
        using ok Some by (auto simp: br_ok_def br_other_def)
      from st have "answer_card (br_deck s) (br_suit (br_deck s ! 6)) l lead t c = Some u"
        by (simp add: br_step_def Some x)
      then have "bt_turn u = (if takes_trick c lead (br_suit (br_deck s ! 6)) then bt_turn t else l)"
        and "bt_led u = None"
        and "bt_points u = (bt_points t)(bt_turn u := bt_points t (bt_turn u) + (br_points_of lead + br_points_of c))"
        unfolding answer_card_def Let_def turn
        by (auto simp del: fold_opt.simps dest!: fold_draw_keeps)
      with Some x ap u mem odd' show ?thesis by (simp add: outcome_of_def Let_def add.assoc)
    qed
  qed auto
qed

lemma br_demo_table:
  "table_of (br_new True 1 2 (\<lambda>i. i)) = Some (opening_table br_fresh_deck)"
proof -
  have "length (br_deck (br_new True 1 2 (\<lambda>i. i))) = 40"
    using br_inv_deck [OF br_inv_new] by blast
  then show ?thesis by (simp add: br_table_40 br_new_def fisher_yates_id)
qed

lemma br_demo_play:
  "\<exists>s' out. apply_play (br_new True 1 2 (\<lambda>i. i)) \<lparr>br_suit = Hearts, br_rank = BrAce\<rparr> = Ok (s', out)"
proof -
  have "\<lparr>br_suit = Hearts, br_rank = BrAce\<rparr> \<in> set (bt_hands (opening_table br_fresh_deck) (bt_turn (opening_table br_fresh_deck)))"
    by (simp add: opening_table_def br_fresh_deck_def CARD_SUITS_def BR_RANKS_def)
  with apply_play_cases [OF br_inv_new br_demo_table] show ?thesis by blast
qed

theorem briscola_trick_exact_witness:
  "\<exists>s' out u. apply_play (br_new True 1 2 (\<lambda>i. i)) \<lparr>br_suit = Hearts, br_rank = BrAce\<rparr> = Ok (s', out) \<and>
     po_seat out = 0 \<and> table_of s' = Some u \<and> bt_turn u = 1"
proof -
  from br_demo_play obtain s' out where
    ok: "apply_play (br_new True 1 2 (\<lambda>i. i)) \<lparr>br_suit = Hearts, br_rank = BrAce\<rparr> = Ok (s', out)" by blast
  have "bt_led (opening_table br_fresh_deck) = None" "bt_turn (opening_table br_fresh_deck) = 0"
    by (simp_all add: opening_table_def)
  with briscola_trick_exact [OF br_inv_new br_demo_table, of "\<lparr>br_suit = Hearts, br_rank = BrAce\<rparr>"] ok
  show ?thesis by (auto simp: br_other_def)
qed

text \<open>
  When a match ends. After an accepted play, a winner is reported exactly when the play closed a
  trick and that seat has passed sixty points, which both seats cannot have; a draw is reported exactly
  when all forty cards are out and both have sixty; the last card always ends the match; and before
  it the player on turn has a card to play.
\<close>

theorem briscola_finish_exact:
  assumes "br_inv s" and "apply_play s c = Ok (s', out)"
  shows "\<exists>u. table_of s' = Some u \<and> length (br_plays s') = length (br_plays s) + 1 \<and>
    (\<forall>w. po_finish out = Some (Winner w) \<longleftrightarrow> even (length (br_plays s')) \<and> w < 2 \<and> 61 \<le> bt_points u w) \<and>
    bt_points u 0 + bt_points u 1 \<le> 120 \<and>
    (po_finish out = Some DrawnMatch \<longleftrightarrow>
       length (br_plays s') = 40 \<and> bt_points u 0 = 60 \<and> bt_points u 1 = 60) \<and>
    (if length (br_plays s') = 40 then po_finish out \<noteq> None else bt_hands u (bt_turn u) \<noteq> [])"
proof -
  from assms(1) obtain t where t: "table_of s = Some t" and m: "mset (br_deck s) = mset br_fresh_deck"
    by (auto simp: br_inv_def)
  from apply_play_cases [OF assms(1) t, of c] assms(2) obtain u where
    u: "table_of s' = Some u" "br_ok (br_deck s) (br_plays s') u" and s': "br_plays s' = br_plays s @ [c]"
    and out: "out = outcome_of t u c (length (br_plays s'))" by auto
  note tot = br_ok_totals [OF m u(2)]
  let ?n = "length (br_plays s')"
  have fin: "po_finish out = (if even ?n then settle (bt_points u) ?n else None)"
    by (simp add: out outcome_of_def Let_def)
  have win: "po_finish out = Some (Winner w) \<longleftrightarrow> even ?n \<and> w < 2 \<and> 61 \<le> bt_points u w" for w
    using settle_Winner [of "bt_points u" ?n w] tot(2) by (simp add: fin)
  have drw: "po_finish out = Some DrawnMatch \<longleftrightarrow> ?n = 40 \<and> bt_points u 0 = 60 \<and> bt_points u 1 = 60"
    using settle_Draw [of "bt_points u" ?n] tot(3) by (auto simp: fin)
  have "po_finish out \<noteq> None" if "?n = 40"
    using that by (auto simp: fin settle_def split: option.splits)
  moreover have "bt_hands u (bt_turn u) \<noteq> []" if "?n \<noteq> 40"
  proof -
    have "?n < 40" using that tot(1) by simp
    then have "0 < 3 - (?n div 2 - 17)" by linarith
    moreover have "length (bt_hands u (bt_turn u)) = 3 - (?n div 2 - 17)" using u(2) unfolding br_ok_def by blast
    ultimately show ?thesis by auto
  qed
  ultimately show ?thesis using u(1) win drw tot(2) s' by auto
qed

theorem briscola_finish_exact_witness:
  "\<exists>s' out u. apply_play (br_new True 1 2 (\<lambda>i. i)) \<lparr>br_suit = Hearts, br_rank = BrAce\<rparr> = Ok (s', out) \<and>
     table_of s' = Some u \<and> bt_points u 0 + bt_points u 1 \<le> 120"
proof -
  from br_demo_play obtain s' out where
    ok: "apply_play (br_new True 1 2 (\<lambda>i. i)) \<lparr>br_suit = Hearts, br_rank = BrAce\<rparr> = Ok (s', out)" by blast
  from briscola_finish_exact [OF br_inv_new ok] ok show ?thesis by blast
qed

end
