(* ===== verification/Checkers.thy ===== *)
theory Checkers
  imports Prelude
begin

text \<open>
  Checkers (\<open>late-ssh/src/app/lobby/daily/checkers.rs\<close>). The state stores the move paths; the board
  and the draw clock are replayed from them. Every index the code could run past the board with is
  checked: \<open>None\<close> is the panic of a history no move could have written.
\<close>

section \<open>Data\<close>

definition ck_SIZE :: nat where [simp]: "ck_SIZE = 8"
definition DRAW_PLIES :: nat where [simp]: "DRAW_PLIES = 80"
definition ck_STATE_VERSION :: nat where [simp]: "ck_STATE_VERSION = 1"

type_synonym square = "nat \<times> nat"

definition ck_cell_label :: "square \<Rightarrow> string" where
  "ck_cell_label = (\<lambda>(row, col). letter_from (CHR ''a'') (as_u8 col) # dec_string (row + 1))"

datatype ck_color = CkRed | CkWhite

primrec color_label :: "ck_color \<Rightarrow> string" where
  "color_label CkRed = ''red''"
| "color_label CkWhite = ''white''"

primrec ck_other :: "ck_color \<Rightarrow> ck_color" where
  "ck_other CkRed = CkWhite"
| "ck_other CkWhite = CkRed"

record piece =
  color :: ck_color
  king :: bool

datatype ck_status = CkOngoing | CkWin ck_color | CkDraw

record ck_outcome =
  ck_mover :: ck_color
  ck_captured :: "square list"
  ck_crowned :: bool
  ck_finished :: bool
  ck_draw :: bool
  ck_winner :: "ck_color option"

definition ck_move_label :: "ck_outcome \<Rightarrow> square list \<Rightarrow> string" where
  "ck_move_label out path =
     join_with (if ck_captured out = [] then ''-'' else ''x'') (map ck_cell_label path) @
     (if ck_crowned out then ''(K)'' else []) @
     (if ck_finished out
      then (case ck_winner out of Some c \<Rightarrow> '', '' @ color_label c @ '' wins'' | None \<Rightarrow> '', draw'')
      else [])"

record ck_state =
  ck_version :: nat
  ck_revision :: nat
  ck_red :: uuid
  ck_white :: uuid
  ck_moves :: "nat list list"

datatype ck_error = CkCorrupt | CkUnsupportedVersion nat | CkShortPath | CkIllegal

section \<open>The board\<close>

type_synonym ck_grid = "piece board"

definition ck_starting_grid :: ck_grid where
  "ck_starting_grid = (\<lambda>row col.
     if row < ck_SIZE \<and> col < ck_SIZE \<and> (row + col) mod 2 = 1 then
       (if row \<le> 2 then Some \<lparr>color = CkRed, king = False\<rparr>
        else if row \<ge> 5 then Some \<lparr>color = CkWhite, king = False\<rparr> else None)
     else None)"

definition RED_DIRS :: "(int \<times> int) list" where "RED_DIRS = [(1, -1), (1, 1)]"
definition WHITE_DIRS :: "(int \<times> int) list" where "WHITE_DIRS = [(-1, -1), (-1, 1)]"
definition KING_DIRS :: "(int \<times> int) list" where "KING_DIRS = [(1, -1), (1, 1), (-1, -1), (-1, 1)]"

definition dirs :: "piece \<Rightarrow> (int \<times> int) list" where
  "dirs p = (if king p then KING_DIRS else case color p of CkRed \<Rightarrow> RED_DIRS | CkWhite \<Rightarrow> WHITE_DIRS)"

primrec is_crown_row :: "ck_color \<Rightarrow> nat \<Rightarrow> bool" where
  "is_crown_row CkRed row = (row = ck_SIZE - 1)"
| "is_crown_row CkWhite row = (row = 0)"

definition in_bounds :: "int \<Rightarrow> int \<Rightarrow> bool" where
  "in_bounds row col \<longleftrightarrow> 0 \<le> row \<and> row < int ck_SIZE \<and> 0 \<le> col \<and> col < int ck_SIZE"

definition ck_cell :: "nat \<Rightarrow> square" where
  "ck_cell index = (index div ck_SIZE, index mod ck_SIZE)"

definition abs_diff :: "nat \<Rightarrow> nat \<Rightarrow> nat" where
  "abs_diff a b = (if a \<le> b then b - a else a - b)"

definition on_grid :: "square \<Rightarrow> bool" where
  "on_grid = (\<lambda>(row, col). row < ck_SIZE \<and> col < ck_SIZE)"

definition grid_at :: "ck_grid \<Rightarrow> square \<Rightarrow> piece option" where
  "grid_at g = (\<lambda>(row, col). g row col)"

definition grid_set :: "ck_grid \<Rightarrow> square \<Rightarrow> piece option \<Rightarrow> ck_grid" where
  "grid_set g = (\<lambda>(row, col) v. set_cell g row col v)"

text \<open>\<open>path.windows(2)\<close>, and the square jumped by a two-row window.\<close>

definition windows2 :: "'a list \<Rightarrow> ('a \<times> 'a) list" where
  "windows2 xs = zip xs (tl xs)"

definition is_jump :: "square \<times> square \<Rightarrow> bool" where
  "is_jump = (\<lambda>(a, b). abs_diff (fst b) (fst a) = 2)"

definition midpoint :: "square \<times> square \<Rightarrow> square" where
  "midpoint = (\<lambda>(a, b). ((fst a + fst b) div 2, (snd a + snd b) div 2))"

section \<open>Jump chains\<close>

text \<open>The checks of one direction in \<open>extend_captures\<close>: the jumped square and the landing.\<close>

definition jump_from :: "ck_grid \<Rightarrow> piece \<Rightarrow> square list \<Rightarrow> square \<Rightarrow> int \<times> int \<Rightarrow> (square \<times> square) option" where
  "jump_from work p captured = (\<lambda>(row, col) (dr, dc).
     if \<not> in_bounds (int row + 2 * dr) (int col + 2 * dc) then None
     else
       let mid = (nat (int row + dr), nat (int col + dc));
           land = (nat (int row + 2 * dr), nat (int col + 2 * dc))
       in if mid \<in> set captured then None
          else (case grid_at work mid of
                  None \<Rightarrow> None
                | Some victim \<Rightarrow>
                    if color victim \<noteq> ck_other (color p) then None
                    else if grid_at work land \<noteq> None then None
                    else Some (mid, land)))"

lemma dirs_unit: "(dr, dc) \<in> set (dirs p) \<Longrightarrow> (dr = 1 \<or> dr = -1) \<and> (dc = 1 \<or> dc = -1)"
  by (auto simp: dirs_def KING_DIRS_def RED_DIRS_def WHITE_DIRS_def split: if_splits ck_color.splits)

lemma jump_geom:
  assumes "d \<in> set (dirs p)" and "jump_from work p captured sq d = Some (mid, land)"
  shows "\<exists>dr dc. d = (dr, dc) \<and> (dr = 1 \<or> dr = -1) \<and> (dc = 1 \<or> dc = -1) \<and>
    int (fst mid) = int (fst sq) + dr \<and> int (snd mid) = int (snd sq) + dc \<and>
    int (fst land) = int (fst sq) + 2 * dr \<and> int (snd land) = int (snd sq) + 2 * dc \<and>
    fst land < 8 \<and> snd land < 8"
proof -
  obtain dr dc where d: "d = (dr, dc)" by (cases d)
  obtain r c where sq: "sq = (r, c)" by (cases sq)
  have u: "dr = 1 \<or> dr = -1" "dc = 1 \<or> dc = -1" using assms(1) dirs_unit by (simp_all add: d)
  have b: "0 \<le> int r + 2 * dr" "int r + 2 * dr < 8" "0 \<le> int c + 2 * dc" "int c + 2 * dc < 8"
    and m: "mid = (nat (int r + dr), nat (int c + dc))"
    and l: "land = (nat (int r + 2 * dr), nat (int c + 2 * dc))"
    using assms(2) by (auto simp: jump_from_def sq d Let_def in_bounds_def split: if_splits option.splits)
  have "0 \<le> int r + dr" "0 \<le> int c + dc" using b u by linarith+
  with b u show ?thesis unfolding d sq m l by (intro exI [of _ dr] exI [of _ dc]) auto
qed

lemma jump_target:
  "jump_from work p captured sq d = Some (mid, land) \<Longrightarrow>
     mid \<notin> set captured \<and> grid_at work land = None \<and>
     (\<exists>v. grid_at work mid = Some v \<and> color v = ck_other (color p))"
  by (auto simp: jump_from_def Let_def split: prod.splits if_splits option.splits)

function extend_captures :: "ck_grid \<Rightarrow> piece \<Rightarrow> square \<Rightarrow> square list \<Rightarrow> square list \<Rightarrow> square list list" where
  "extend_captures work p sq captured path =
     concat (map (\<lambda>d.
       case jump_from work p captured sq d of
         None \<Rightarrow> []
       | Some (mid, land) \<Rightarrow>
           if \<not> king p \<and> is_crown_row (color p) (fst land) then [path @ [land]]
           else
             let deeper = extend_captures work p land (captured @ [mid]) (path @ [land])
             in if deeper = [] then [path @ [land]] else deeper)
       (dirs p))"
  by auto
termination
proof (relation "measure (\<lambda>(work, p, sq, captured, path). card ({..<9} \<times> {..<9} - set captured))")
  fix work :: ck_grid and p sq captured path d y mid land
  assume d: "d \<in> set (dirs p)" and j: "jump_from work p captured sq d = Some y" "(mid, land) = y"
  have jump: "jump_from work p captured sq d = Some (mid, land)" using j by simp
  from jump_geom [OF d jump] have "fst mid < 9" "snd mid < 9" by auto
  then have "mid \<in> {..<9} \<times> {..<9}" by (cases mid) simp
  moreover have "mid \<notin> set captured" using jump_target [OF jump] by blast
  ultimately have "{..<9} \<times> {..<9} - set (captured @ [mid]) \<subset> {..<9} \<times> {..<9} - set captured" by auto
  then show "((work, p, land, captured @ [mid], path @ [land]), work, p, sq, captured, path)
      \<in> measure (\<lambda>(work, p, sq, captured, path). card ({..<9} \<times> {..<9} - set captured))"
    using psubset_card_mono [of "{..<9} \<times> {..<9} - set captured"] by simp
qed simp

declare extend_captures.simps [simp del]

definition capture_paths :: "ck_grid \<Rightarrow> square \<Rightarrow> square list list" where
  "capture_paths g sq =
     (case grid_at g sq of
        None \<Rightarrow> []
      | Some p \<Rightarrow> extend_captures (grid_set g sq None) p sq [] [sq])"

definition slides_from :: "ck_grid \<Rightarrow> square \<Rightarrow> piece \<Rightarrow> square list list" where
  "slides_from g = (\<lambda>(row, col) p.
     concat (map (\<lambda>(dr, dc).
       let nr = int row + dr; nc = int col + dc
       in if in_bounds nr nc \<and> g (nat nr) (nat nc) = None then [[(row, col), (nat nr, nat nc)]] else [])
     (dirs p)))"

definition generate_moves :: "ck_grid \<Rightarrow> ck_color \<Rightarrow> square list list" where
  "generate_moves g c =
     (let captures = concat (map (\<lambda>sq. case grid_at g sq of
            Some p \<Rightarrow> if color p = c then capture_paths g sq else []
          | None \<Rightarrow> []) (squares ck_SIZE ck_SIZE))
      in if captures \<noteq> [] then captures
         else concat (map (\<lambda>sq. case grid_at g sq of
            Some p \<Rightarrow> if color p \<noteq> c then [] else slides_from g sq p
          | None \<Rightarrow> []) (squares ck_SIZE ck_SIZE)))"

section \<open>Applying paths\<close>

fun clear_jumped :: "ck_grid \<Rightarrow> (square \<times> square) list \<Rightarrow> ck_grid option" where
  "clear_jumped g [] = Some g"
| "clear_jumped g (w # ws) =
     (if is_jump w
      then (if on_grid (midpoint w) then clear_jumped (grid_set g (midpoint w) None) ws else None)
      else clear_jumped g ws)"

definition apply_path :: "ck_grid \<Rightarrow> square list \<Rightarrow> ck_grid option" where
  "apply_path g path =
     (if path = [] \<or> \<not> on_grid (hd path) then None
      else (case grid_at g (hd path) of
              None \<Rightarrow> None
            | Some p \<Rightarrow>
                Option.bind (clear_jumped (grid_set g (hd path) None) (windows2 path)) (\<lambda>g.
                  let end_sq = last path;
                      p' = (if \<not> king p \<and> is_crown_row (color p) (fst end_sq) then p\<lparr>king := True\<rparr> else p)
                  in if on_grid end_sq then Some (grid_set g end_sq (Some p')) else None)))"

text \<open>One stored move of the replay: the board and the plies since the last progress.\<close>

definition replay_path :: "ck_grid \<times> nat \<Rightarrow> nat list \<Rightarrow> (ck_grid \<times> nat) option" where
  "replay_path = (\<lambda>(g, since) raw.
     let path = map ck_cell raw
     in if path = [] \<or> \<not> on_grid (hd path) then None
        else
          let moved_a_man = (case grid_at g (hd path) of Some p \<Rightarrow> \<not> king p | None \<Rightarrow> False);
              captured = (\<exists>w \<in> set (windows2 path). is_jump w)
          in map_option (\<lambda>g'. (g', if captured \<or> moved_a_man then 0 else since + 1)) (apply_path g path))"

section \<open>Operations\<close>

definition ck_new :: "bool \<Rightarrow> uuid \<Rightarrow> uuid \<Rightarrow> ck_state" where
  "ck_new coin challenger claimer =
     (let (red, white) = (if coin then (challenger, claimer) else (claimer, challenger))
      in \<lparr>ck_version = ck_STATE_VERSION, ck_revision = 0, ck_red = red, ck_white = white, ck_moves = []\<rparr>)"

definition ck_parse :: "ck_state option \<Rightarrow> (ck_error, ck_state) res" where
  "ck_parse decoded =
     (case decoded of
        None \<Rightarrow> Err CkCorrupt
      | Some s \<Rightarrow> ensure (ck_version s = ck_STATE_VERSION) (CkUnsupportedVersion (ck_version s)) (Ok s))"

primrec ck_user_of :: "ck_state \<Rightarrow> ck_color \<Rightarrow> uuid" where
  "ck_user_of s CkRed = ck_red s"
| "ck_user_of s CkWhite = ck_white s"

definition color_of :: "ck_state \<Rightarrow> uuid \<Rightarrow> ck_color option" where
  "color_of s u = (if u = ck_red s then Some CkRed else if u = ck_white s then Some CkWhite else None)"

definition ck_replay :: "ck_state \<Rightarrow> (ck_grid \<times> nat) option" where
  "ck_replay s = fold_opt replay_path (ck_starting_grid, 0) (ck_moves s)"

definition ck_grid_of :: "ck_state \<Rightarrow> ck_grid option" where
  "ck_grid_of s = map_option fst (ck_replay s)"

definition ck_turn :: "ck_state \<Rightarrow> ck_color" where
  "ck_turn s = (if even (length (ck_moves s)) then CkRed else CkWhite)"

definition count_color :: "ck_grid \<Rightarrow> ck_color \<Rightarrow> nat" where
  "count_color g c = count_squares ck_SIZE ck_SIZE (\<lambda>sq. map_option color (grid_at g sq) = Some c)"

definition piece_counts :: "ck_state \<Rightarrow> (nat \<times> nat) option" where
  "piece_counts s = map_option (\<lambda>g. (count_color g CkRed, count_color g CkWhite)) (ck_grid_of s)"

definition ck_legal_moves :: "ck_state \<Rightarrow> ck_color \<Rightarrow> square list list option" where
  "ck_legal_moves s c = map_option (\<lambda>g. generate_moves g c) (ck_grid_of s)"

definition ck_last_move :: "ck_state \<Rightarrow> square list option" where
  "ck_last_move s = (if ck_moves s = [] then None else Some (map ck_cell (last (ck_moves s))))"

definition ck_move_count :: "ck_state \<Rightarrow> nat" where
  "ck_move_count s = length (ck_moves s)"

definition ck_status_of :: "ck_state \<Rightarrow> ck_status option" where
  "ck_status_of s =
     map_option (\<lambda>(g, since_progress).
       let mover = ck_turn s
       in if generate_moves g mover = [] then CkWin (ck_other mover)
          else if since_progress \<ge> DRAW_PLIES then CkDraw
          else CkOngoing) (ck_replay s)"

definition ck_is_finished :: "ck_state \<Rightarrow> bool option" where
  "ck_is_finished s =
     map_option (\<lambda>st. case st of CkOngoing \<Rightarrow> False | CkWin _ \<Rightarrow> True | CkDraw \<Rightarrow> True) (ck_status_of s)"

definition ck_apply_move :: "ck_state \<Rightarrow> square list \<Rightarrow> (ck_error, ck_state \<times> ck_outcome) res" where
  "ck_apply_move s path =
     ensure (2 \<le> length path) CkShortPath
     (expect (ck_grid_of s) (\<lambda>g.
        let c = ck_turn s
        in ensure (path \<in> set (generate_moves g c)) CkIllegal
           (expect (grid_at g (hd path)) (\<lambda>mover.
              let captured = map midpoint (filter is_jump (windows2 path));
                  crowned = (\<not> king mover \<and> is_crown_row c (fst (last path)));
                  s' = s\<lparr>ck_moves := ck_moves s @ [map (\<lambda>(r, c). as_u8 (r * ck_SIZE + c)) path]\<rparr>
              in expect (ck_status_of s') (\<lambda>st.
                   let (winner, draw, finished) =
                     (case st of CkWin c \<Rightarrow> (Some c, False, True)
                      | CkDraw \<Rightarrow> (None, True, True)
                      | CkOngoing \<Rightarrow> (None, False, False))
                   in Ok (s', \<lparr>ck_mover = c, ck_captured = captured, ck_crowned = crowned,
                              ck_finished = finished, ck_draw = draw, ck_winner = winner\<rparr>))))))"

section \<open>Maximal jump chains\<close>

text \<open>A landing that ends the turn.\<close>

definition crowns :: "piece \<Rightarrow> square \<Rightarrow> bool" where
  "crowns p sq \<longleftrightarrow> \<not> king p \<and> is_crown_row (color p) (fst sq)"

text \<open>The jumps of one turn from a square, with the squares jumped: each jump is possible where the piece
  stands and over a piece not jumped before; the chain stops on the crown row, and elsewhere only
  when no further jump is possible.\<close>

inductive jump_chain :: "ck_grid \<Rightarrow> piece \<Rightarrow> square \<Rightarrow> square list \<Rightarrow> square list \<Rightarrow> square list \<Rightarrow> bool"
  for work p where
  chain_crown: "d \<in> set (dirs p) \<Longrightarrow> jump_from work p captured sq d = Some (m, l) \<Longrightarrow> crowns p l \<Longrightarrow>
     jump_chain work p sq captured [l] [m]"
| chain_stop: "d \<in> set (dirs p) \<Longrightarrow> jump_from work p captured sq d = Some (m, l) \<Longrightarrow> \<not> crowns p l \<Longrightarrow>
     (\<forall>e \<in> set (dirs p). jump_from work p (captured @ [m]) l e = None) \<Longrightarrow>
     jump_chain work p sq captured [l] [m]"
| chain_on: "d \<in> set (dirs p) \<Longrightarrow> jump_from work p captured sq d = Some (m, l) \<Longrightarrow> \<not> crowns p l \<Longrightarrow>
     jump_chain work p l (captured @ [m]) ls ms \<Longrightarrow> jump_chain work p sq captured (l # ls) (m # ms)"

inductive_cases chain_cases: "jump_chain work p sq captured ls ms"

text \<open>One direction's share of the result.\<close>

definition extend_dir :: "ck_grid \<Rightarrow> piece \<Rightarrow> square list \<Rightarrow> square list \<Rightarrow> square \<times> square \<Rightarrow> square list list" where
  "extend_dir work p captured path = (\<lambda>(m, l).
     if crowns p l \<or> extend_captures work p l (captured @ [m]) (path @ [l]) = []
     then [path @ [l]] else extend_captures work p l (captured @ [m]) (path @ [l]))"

lemma extend_captures_dirs:
  "extend_captures work p sq captured path =
     concat (map (\<lambda>d. case jump_from work p captured sq d of None \<Rightarrow> []
                       | Some j \<Rightarrow> extend_dir work p captured path j) (dirs p))"
  by (subst extend_captures.simps)
    (auto simp: extend_dir_def crowns_def Let_def intro!: arg_cong [where f = concat] split: option.split)

lemma extend_dir_nonempty: "extend_dir work p captured path j \<noteq> []"
  by (cases j) (simp add: extend_dir_def)

lemma extend_captures_Nil:
  "extend_captures work p sq captured path = [] \<longleftrightarrow> (\<forall>d \<in> set (dirs p). jump_from work p captured sq d = None)"
  unfolding extend_captures_dirs [of work p sq captured path]
  by (rule concat_option_Nil) (rule extend_dir_nonempty)

lemma in_extend_captures:
  "x \<in> set (extend_captures work p sq captured path) \<longleftrightarrow>
     (\<exists>d \<in> set (dirs p). \<exists>m l. jump_from work p captured sq d = Some (m, l) \<and>
        x \<in> set (extend_dir work p captured path (m, l)))"
  unfolding extend_captures_dirs [of work p sq captured path] set_concat_option by (metis surj_pair)

lemma extend_captures_chains:
  "x \<in> set (extend_captures work p sq captured path) \<longleftrightarrow>
     (\<exists>ls ms. x = path @ ls \<and> jump_chain work p sq captured ls ms)"
proof (induction work p sq captured path arbitrary: x rule: extend_captures.induct)
  case (1 work p sq captured path)
  show ?case
  proof
    assume "x \<in> set (extend_captures work p sq captured path)"
    then obtain d m l where d: "d \<in> set (dirs p)" and j: "jump_from work p captured sq d = Some (m, l)"
      and x: "x \<in> set (extend_dir work p captured path (m, l))"
      unfolding in_extend_captures [of x work p sq captured path] by blast
    show "\<exists>ls ms. x = path @ ls \<and> jump_chain work p sq captured ls ms"
    proof (cases "crowns p l \<or> extend_captures work p l (captured @ [m]) (path @ [l]) = []")
      case True
      then have "jump_chain work p sq captured [l] [m]"
        using chain_crown [OF d j] chain_stop [OF d j] unfolding extend_captures_Nil by blast
      with True x show ?thesis by (auto simp: extend_dir_def)
    next
      case False
      then have "x \<in> set (extend_captures work p l (captured @ [m]) (path @ [l]))"
        using x by (simp add: extend_dir_def)
      then obtain ls ms where ls: "x = (path @ [l]) @ ls" "jump_chain work p l (captured @ [m]) ls ms"
        using "1.IH" [OF d j refl] False by (auto simp: crowns_def)
      have "jump_chain work p sq captured (l # ls) (m # ms)"
        using chain_on [OF d j _ ls(2)] False by blast
      with ls(1) show ?thesis by auto
    qed
  next
    assume "\<exists>ls ms. x = path @ ls \<and> jump_chain work p sq captured ls ms"
    then obtain ls ms where x: "x = path @ ls" and c: "jump_chain work p sq captured ls ms" by blast
    have hit: "x \<in> set (extend_captures work p sq captured path)"
      if "d \<in> set (dirs p)" "jump_from work p captured sq d = Some (m, l)"
        "x \<in> set (extend_dir work p captured path (m, l))" for d m l
      using that unfolding in_extend_captures [of x work p sq captured path] by blast
    from c show "x \<in> set (extend_captures work p sq captured path)"
    proof (rule chain_cases)
      fix d m l
      assume ls: "ls = [l]" and j: "d \<in> set (dirs p)" "jump_from work p captured sq d = Some (m, l)" "crowns p l"
      then show ?thesis using x by (intro hit [OF j(1,2)]) (simp add: extend_dir_def)
    next
      fix d m l
      assume ls: "ls = [l]" and j: "d \<in> set (dirs p)" "jump_from work p captured sq d = Some (m, l)"
        and stop: "\<forall>e \<in> set (dirs p). jump_from work p (captured @ [m]) l e = None"
      then have "extend_captures work p l (captured @ [m]) (path @ [l]) = []" by (simp add: extend_captures_Nil)
      then show ?thesis using x ls by (intro hit [OF j]) (simp add: extend_dir_def)
    next
      fix d m l ls' ms'
      assume ls: "ls = l # ls'" and j: "d \<in> set (dirs p)" "jump_from work p captured sq d = Some (m, l)"
        and on: "\<not> crowns p l" "jump_chain work p l (captured @ [m]) ls' ms'"
      have deeper: "x \<in> set (extend_captures work p l (captured @ [m]) (path @ [l]))"
        using "1.IH" [OF j refl] on x ls by (auto simp: crowns_def)
      then have "extend_captures work p l (captured @ [m]) (path @ [l]) \<noteq> []" by auto
      with deeper have "x \<in> set (extend_dir work p captured path (m, l))" using on by (simp add: extend_dir_def)
      then show ?thesis by (rule hit [OF j])
    qed
  qed
qed

section \<open>What a legal path does\<close>

lemma windows2_Cons [simp]: "windows2 [a] = []" "windows2 (a # b # xs) = (a, b) # windows2 (b # xs)"
  by (simp_all add: windows2_def)

lemma jump_window:
  assumes "d \<in> set (dirs p)" and "jump_from work p captured sq d = Some (m, l)"
  shows "is_jump (sq, l)" and "midpoint (sq, l) = m" and "on_grid l" and "on_grid sq \<Longrightarrow> on_grid m"
    and "even (fst l + snd l) = even (fst sq + snd sq)"
proof -
  obtain r c where sq: "sq = (r, c)" by (cases sq)
  obtain r1 c1 where m: "m = (r1, c1)" by (cases m)
  obtain r2 c2 where l: "l = (r2, c2)" by (cases l)
  from jump_geom [OF assms] obtain dr dc where u: "dr = 1 \<or> dr = -1" "dc = 1 \<or> dc = -1"
    and g: "int r1 = int r + dr" "int c1 = int c + dc" "int r2 = int r + 2 * dr" "int c2 = int c + 2 * dc"
      "r2 < 8" "c2 < 8" by (auto simp: sq m l)
  have rows: "(r1 = r + 1 \<and> r2 = r + 2) \<or> (r = r1 + 1 \<and> r = r2 + 2)"
    and cols: "(c1 = c + 1 \<and> c2 = c + 2) \<or> (c = c1 + 1 \<and> c = c2 + 2)" using u g by linarith+
  show "is_jump (sq, l)" using rows by (auto simp: is_jump_def abs_diff_def sq l)
  show "midpoint (sq, l) = m" using rows cols by (auto simp: midpoint_def sq m l)
  show "on_grid l" using g by (simp add: on_grid_def l)
  show "on_grid m" if "on_grid sq" using that rows cols g by (auto simp: on_grid_def sq m l)
  show "even (fst l + snd l) = even (fst sq + snd sq)" using rows cols by (auto simp: sq l)
qed

lemma chain_facts:
  assumes "jump_chain work p sq captured ls ms" and "on_grid sq"
  shows "ls \<noteq> [] \<and> filter is_jump (windows2 (sq # ls)) = windows2 (sq # ls) \<and>
    map midpoint (windows2 (sq # ls)) = ms \<and> distinct ms \<and> set ms \<inter> set captured = {} \<and>
    (\<forall>m \<in> set ms. on_grid m \<and> (\<exists>v. grid_at work m = Some v \<and> color v = ck_other (color p))) \<and>
    (\<forall>l \<in> set ls. on_grid l \<and> grid_at work l = None \<and> even (fst l + snd l) = even (fst sq + snd sq))"
  using assms
proof (induction rule: jump_chain.induct)
  case (chain_crown d captured sq m l)
  from jump_window [OF this(1,2)] jump_target [OF this(2)] this(4) show ?case by simp
next
  case (chain_stop d captured sq m l)
  from jump_window [OF this(1,2)] jump_target [OF this(2)] this(5) show ?case by simp
next
  case (chain_on d captured sq m l ls ms)
  note w = jump_window [OF chain_on(1,2)] and t = jump_target [OF chain_on(2)]
  from chain_on.IH w(3) have ih: "ls \<noteq> [] \<and> filter is_jump (windows2 (l # ls)) = windows2 (l # ls) \<and>
    map midpoint (windows2 (l # ls)) = ms \<and> distinct ms \<and> set ms \<inter> set (captured @ [m]) = {} \<and>
    (\<forall>m \<in> set ms. on_grid m \<and> (\<exists>v. grid_at work m = Some v \<and> color v = ck_other (color p))) \<and>
    (\<forall>k \<in> set ls. on_grid k \<and> grid_at work k = None \<and> even (fst k + snd k) = even (fst l + snd l))" by blast
  then have "m \<notin> set ms" by auto
  with ih w t chain_on.prems show ?case by auto
qed

text \<open>The mid squares and what holds of a legal path on a board: \<open>q\<close> is the moving piece.\<close>

definition jumped :: "square list \<Rightarrow> square list" where
  "jumped path = map midpoint (filter is_jump (windows2 path))"

definition sound_path :: "ck_grid \<Rightarrow> ck_color \<Rightarrow> square list \<Rightarrow> piece \<Rightarrow> bool" where
  "sound_path g c path q \<longleftrightarrow>
     2 \<le> length path \<and> (\<forall>sq \<in> set path. on_grid sq \<and> even (fst sq + snd sq) = even (fst (hd path) + snd (hd path))) \<and>
     grid_at g (hd path) = Some q \<and> color q = c \<and>
     distinct (jumped path) \<and>
     (\<forall>m \<in> set (jumped path). on_grid m \<and> (\<exists>v. grid_at g m = Some v \<and> color v = ck_other c)) \<and>
     (last path = hd path \<or> grid_at g (last path) = None)"

lemma grid_at_set: "grid_at (grid_set g sq v) sq' = (if sq' = sq then v else grid_at g sq')"
  by (auto simp: grid_at_def grid_set_def set_cell_apply split: prod.splits)

lemma ck_other_simps [simp]: "ck_other (ck_other c) = c" "ck_other c \<noteq> c" "c \<noteq> ck_other c"
  by (cases c; simp)+

lemma capture_sound:
  assumes "path \<in> set (capture_paths g sq)" and "on_grid sq" and "grid_at g sq = Some p"
  shows "sound_path g (color p) path p \<and> jumped path \<noteq> [] \<and>
     (\<exists>ls ms. path = sq # ls \<and> jump_chain (grid_set g sq None) p sq [] ls ms)"
proof -
  let ?work = "grid_set g sq None"
  from assms(1,3) obtain ls ms where path: "path = sq # ls" and c: "jump_chain ?work p sq [] ls ms"
    by (auto simp: capture_paths_def extend_captures_chains)
  note f = chain_facts [OF c assms(2)]
  have j: "jumped path = ms" using f by (simp add: jumped_def path)
  have "length ms = length ls"
    using f by (metis (no_types, lifting) diff_Suc_1 length_Cons length_map length_tl list.sel(3) min.idem min_def
        length_zip windows2_def nat_le_linear Suc_n_not_le_n)
  then have "ms \<noteq> []" using f by auto
  have m: "on_grid m \<and> (\<exists>v. grid_at g m = Some v \<and> color v = ck_other (color p))" if "m \<in> set ms" for m
    using f that by (auto simp: grid_at_set split: if_splits)
  have "grid_at ?work (last path) = None \<and> last path \<in> set ls" using f by (simp add: path)
  then have "last path = hd path \<or> grid_at g (last path) = None" by (auto simp: grid_at_set path split: if_splits)
  moreover have "2 \<le> length path" using f by (cases ls) (auto simp: path)
  ultimately show ?thesis
    using f m c assms(2,3) \<open>ms \<noteq> []\<close> j path unfolding sound_path_def by auto
qed

lemma slide_sound:
  assumes "path \<in> set (slides_from g sq p)" and "on_grid sq" and "grid_at g sq = Some p"
  shows "sound_path g (color p) path p \<and> jumped path = [] \<and> length path = 2 \<and> hd path = sq"
proof -
  obtain r c where sq: "sq = (r, c)" by (cases sq)
  from assms(1) obtain dr dc where d: "(dr, dc) \<in> set (dirs p)"
    and b: "in_bounds (int r + dr) (int c + dc)" and e: "g (nat (int r + dr)) (nat (int c + dc)) = None"
    and path: "path = [(r, c), (nat (int r + dr), nat (int c + dc))]"
    by (auto simp: slides_from_def sq Let_def split: if_splits)
  obtain r2 c2 where l: "r2 = nat (int r + dr)" "c2 = nat (int c + dc)" by simp
  have u: "dr = 1 \<or> dr = -1" "dc = 1 \<or> dc = -1" using dirs_unit [OF d] by blast+
  have g2: "r2 < 8" "c2 < 8" "r2 = r + 1 \<or> r = r2 + 1" "c2 = c + 1 \<or> c = c2 + 1"
    using b u by (auto simp: in_bounds_def l)
  then have "\<not> is_jump ((r, c), (r2, c2))" by (auto simp: is_jump_def abs_diff_def)
  then have "jumped path = []" by (simp add: jumped_def path l)
  moreover have "even (r2 + c2) = even (r + c)" using g2 by auto
  ultimately show ?thesis using assms(2,3) g2 e
    by (simp add: sound_path_def path sq on_grid_def l [symmetric]) (simp add: grid_at_def l)
qed

definition can_jump :: "ck_grid \<Rightarrow> square \<Rightarrow> piece \<Rightarrow> bool" where
  "can_jump g sq p \<longleftrightarrow> (\<exists>d \<in> set (dirs p). jump_from (grid_set g sq None) p [] sq d \<noteq> None)"

definition own_piece :: "ck_grid \<Rightarrow> ck_color \<Rightarrow> square \<Rightarrow> piece \<Rightarrow> bool" where
  "own_piece g c sq p \<longleftrightarrow> on_grid sq \<and> grid_at g sq = Some p \<and> color p = c"

lemma set_squares_grid: "set (squares 8 8) = {sq. on_grid sq}"
  by (auto simp: on_grid_def)

lemma capture_paths_Nil: "grid_at g sq = Some p \<Longrightarrow> capture_paths g sq = [] \<longleftrightarrow> \<not> can_jump g sq p"
  by (simp add: capture_paths_def extend_captures_Nil can_jump_def del: not_None_eq)

lemma set_concat_pieces:
  "x \<in> set (concat (map (\<lambda>sq. case f sq of Some p \<Rightarrow> if P p then h sq p else [] | None \<Rightarrow> []) xs)) \<longleftrightarrow>
     (\<exists>sq p. sq \<in> set xs \<and> f sq = Some p \<and> P p \<and> x \<in> set (h sq p))"
proof (induction xs)
  case (Cons y ys)
  then show ?case by (cases "f y") (auto simp del: split_paired_Ex split_paired_All)
qed simp

lemma in_generate_moves:
  "path \<in> set (generate_moves g c) \<longleftrightarrow>
     (\<exists>sq p. own_piece g c sq p \<and>
        (if \<exists>sq' p'. own_piece g c sq' p' \<and> can_jump g sq' p'
         then path \<in> set (capture_paths g sq) else path \<in> set (slides_from g sq p)))"
proof -
  let ?caps = "concat (map (\<lambda>sq. case grid_at g sq of
     Some p \<Rightarrow> if color p = c then capture_paths g sq else [] | None \<Rightarrow> []) (squares 8 8))"
  have caps: "x \<in> set ?caps \<longleftrightarrow> (\<exists>sq p. own_piece g c sq p \<and> x \<in> set (capture_paths g sq))" for x
    unfolding set_concat_pieces set_squares_grid own_piece_def mem_Collect_eq by metis
  have "xs \<noteq> [] \<longleftrightarrow> (\<exists>x. x \<in> set xs)" for xs :: "square list list" by (cases xs) auto
  then have "?caps \<noteq> [] \<longleftrightarrow> (\<exists>x. x \<in> set ?caps)" .
  also have "\<dots> \<longleftrightarrow> (\<exists>sq' p'. own_piece g c sq' p' \<and> capture_paths g sq' \<noteq> [])"
    unfolding caps by (metis ex_in_conv set_empty2)
  also have "\<dots> \<longleftrightarrow> (\<exists>sq' p'. own_piece g c sq' p' \<and> can_jump g sq' p')"
    by (metis capture_paths_Nil own_piece_def)
  finally have some: "?caps \<noteq> [] \<longleftrightarrow> (\<exists>sq' p'. own_piece g c sq' p' \<and> can_jump g sq' p')" .
  have swap: "(if color p \<noteq> c then [] else l) = (if color p = c then l else [])" for p :: piece and l :: "square list list"
    by simp
  have slides: "x \<in> set (concat (map (\<lambda>sq. case grid_at g sq of
       Some p \<Rightarrow> if color p \<noteq> c then [] else slides_from g sq p | None \<Rightarrow> []) (squares 8 8))) \<longleftrightarrow>
     (\<exists>sq p. own_piece g c sq p \<and> x \<in> set (slides_from g sq p))" for x
    unfolding swap set_concat_pieces set_squares_grid own_piece_def mem_Collect_eq by metis
  show ?thesis
  proof (cases "?caps \<noteq> []")
    case True
    then have "generate_moves g c = ?caps" by (simp add: generate_moves_def Let_def)
    with True some caps show ?thesis by simp
  next
    case False
    then have "generate_moves g c = concat (map (\<lambda>sq. case grid_at g sq of
       Some p \<Rightarrow> if color p \<noteq> c then [] else slides_from g sq p | None \<Rightarrow> []) (squares 8 8))"
      by (simp add: generate_moves_def Let_def)
    then have eq: "path \<in> set (generate_moves g c) \<longleftrightarrow> (\<exists>sq p. own_piece g c sq p \<and> path \<in> set (slides_from g sq p))"
      by (simp only: slides)
    have no: "(\<exists>sq' p'. own_piece g c sq' p' \<and> can_jump g sq' p') = False" using False some by blast
    show ?thesis by (simp only: eq no if_False)
  qed
qed

lemma legal_sound:
  assumes "path \<in> set (generate_moves g c)"
  obtains q where "sound_path g c path q"
proof -
  from assms obtain sq p where o: "own_piece g c sq p"
    and m: "path \<in> set (capture_paths g sq) \<or> path \<in> set (slides_from g sq p)"
    unfolding in_generate_moves by (metis (full_types))
  have g: "on_grid sq" "grid_at g sq = Some p" "color p = c" using o by (simp_all add: own_piece_def)
  from m have "sound_path g c path p"
    using capture_sound [OF _ g(1,2)] slide_sound [OF _ g(1,2)] g(3) by blast
  then show ?thesis by (rule that)
qed

lemma clear_jumped_grid:
  "\<forall>w \<in> set ws. is_jump w \<longrightarrow> on_grid (midpoint w) \<Longrightarrow>
     \<exists>g'. clear_jumped g ws = Some g' \<and>
       (\<forall>sq. grid_at g' sq = (if sq \<in> set (map midpoint (filter is_jump ws)) then None else grid_at g sq))"
proof (induction ws arbitrary: g)
  case (Cons w ws)
  let ?g = "if is_jump w then grid_set g (midpoint w) None else g"
  have "\<forall>w \<in> set ws. is_jump w \<longrightarrow> on_grid (midpoint w)" using Cons.prems by simp
  from Cons.IH [OF this, of ?g] obtain g' where g': "clear_jumped ?g ws = Some g'"
    and eq: "\<forall>sq. grid_at g' sq = (if sq \<in> set (map midpoint (filter is_jump ws)) then None else grid_at ?g sq)"
    by blast
  have "clear_jumped g (w # ws) = Some g'" using g' Cons.prems by (simp split: if_splits)
  moreover have "grid_at g' sq = (if sq \<in> set (map midpoint (filter is_jump (w # ws))) then None else grid_at g sq)" for sq
    using eq [rule_format, of sq] by (simp add: grid_at_set)
  ultimately show ?case by blast
qed simp

text \<open>The piece after its move.\<close>

definition crowned_at :: "piece \<Rightarrow> square \<Rightarrow> piece" where
  "crowned_at q sq = (if crowns q sq then q\<lparr>king := True\<rparr> else q)"

definition after_path :: "ck_grid \<Rightarrow> square list \<Rightarrow> piece \<Rightarrow> ck_grid \<Rightarrow> bool" where
  "after_path g path q g' \<longleftrightarrow>
     (\<forall>sq. grid_at g' sq = (if sq = last path then Some (crowned_at q (last path))
             else if sq = hd path \<or> sq \<in> set (jumped path) then None else grid_at g sq))"

lemma sound_ends:
  assumes "sound_path g c path q"
  shows "path \<noteq> []" and "on_grid (hd path)" and "on_grid (last path)"
proof -
  from assms show "path \<noteq> []" by (auto simp: sound_path_def)
  then have "hd path \<in> set path" "last path \<in> set path" by simp_all
  with assms show "on_grid (hd path)" "on_grid (last path)" unfolding sound_path_def by blast+
qed

lemma apply_path_sound:
  assumes "sound_path g c path q"
  shows "\<exists>g'. apply_path g path = Some g' \<and> after_path g path q g'"
proof -
  have path: "path \<noteq> []" "on_grid (hd path)" "on_grid (last path)" "grid_at g (hd path) = Some q"
    using sound_ends [OF assms] assms by (simp_all add: sound_path_def)
  have "\<forall>w \<in> set (windows2 path). is_jump w \<longrightarrow> on_grid (midpoint w)"
    using assms by (auto simp: sound_path_def jumped_def)
  from clear_jumped_grid [OF this, of "grid_set g (hd path) None"] obtain h where
    h: "clear_jumped (grid_set g (hd path) None) (windows2 path) = Some h"
    "\<forall>sq. grid_at h sq = (if sq \<in> set (jumped path) then None else grid_at (grid_set g (hd path) None) sq)"
    unfolding jumped_def by blast
  have "apply_path g path = Some (grid_set h (last path) (Some (crowned_at q (last path))))"
    using path h(1) by (simp add: apply_path_def Let_def crowned_at_def crowns_def)
  moreover have "after_path g path q (grid_set h (last path) (Some (crowned_at q (last path))))"
    using h(2) by (auto simp: after_path_def grid_at_set)
  ultimately show ?thesis by blast
qed

section \<open>Counts and the board invariant\<close>

definition color_squares :: "ck_grid \<Rightarrow> ck_color \<Rightarrow> square set" where
  "color_squares g c = {sq. on_grid sq \<and> map_option color (grid_at g sq) = Some c}"

lemma finite_color_squares [simp]: "finite (color_squares g c)"
  by (rule finite_subset [of _ "{..<8} \<times> {..<8}"]) (auto simp: color_squares_def on_grid_def)

lemma count_color_card: "count_color g c = card (color_squares g c)"
proof -
  have "{x \<in> {..<8} \<times> {..<8}. map_option color (grid_at g x) = Some c} = color_squares g c"
    by (auto simp: color_squares_def on_grid_def)
  then show ?thesis by (simp add: count_color_def count_squares_card)
qed

lemma crowned_at_color [simp]: "color (crowned_at q sq) = color q"
  by (simp add: crowned_at_def)

lemma counts_after:
  assumes s: "sound_path g c path q" and a: "after_path g path q g'"
  shows "count_color g' c = count_color g c"
    and "count_color g' (ck_other c) + length (jumped path) = count_color g (ck_other c)"
proof -
  have q: "grid_at g (hd path) = Some q" "color q = c" "on_grid (hd path)" "on_grid (last path)"
    and mids: "\<And>m. m \<in> set (jumped path) \<Longrightarrow> on_grid m \<and> (\<exists>v. grid_at g m = Some v \<and> color v = ck_other c)"
    and last: "last path = hd path \<or> grid_at g (last path) = None"
    and dist: "distinct (jumped path)"
    using s by (auto simp: sound_path_def sound_ends [OF s])
  have hd_in: "hd path \<in> color_squares g c" using q by (simp add: color_squares_def)
  have at: "grid_at g' sq = (if sq = last path then Some (crowned_at q (last path))
      else if sq = hd path \<or> sq \<in> set (jumped path) then None else grid_at g sq)" for sq
    using a unfolding after_path_def by blast
  have "sq \<in> color_squares g' c \<longleftrightarrow> sq \<in> insert (last path) (color_squares g c - {hd path})" for sq
  proof (cases "sq \<in> set (jumped path)")
    case True
    with mids [OF True] q show ?thesis by (auto simp: color_squares_def at)
  next
    case False
    with q show ?thesis by (simp add: color_squares_def at)
  qed
  then have own: "color_squares g' c = insert (last path) (color_squares g c - {hd path})" by blast
  have "last path \<notin> color_squares g c - {hd path}" using last by (auto simp: color_squares_def)
  then have "card (color_squares g' c) = Suc (card (color_squares g c - {hd path}))"
    unfolding own by (intro card_insert_disjoint) simp_all
  also have "\<dots> = card (color_squares g c)" using hd_in by (intro card_Suc_Diff1) simp_all
  finally show "count_color g' c = count_color g c" by (simp add: count_color_card)
  have sub: "set (jumped path) \<subseteq> color_squares g (ck_other c)"
    using mids by (auto simp: color_squares_def)
  have foe: "color_squares g' (ck_other c) = color_squares g (ck_other c) - set (jumped path)"
  proof -
    have "sq \<in> color_squares g' (ck_other c) \<longleftrightarrow> sq \<in> color_squares g (ck_other c) - set (jumped path)" for sq
      using q last by (cases "sq = last path"; cases "sq = hd path") (auto simp: color_squares_def at)
    then show ?thesis by blast
  qed
  have "card (color_squares g (ck_other c) - set (jumped path)) =
      card (color_squares g (ck_other c)) - card (set (jumped path))"
    by (rule card_Diff_subset) (use sub in simp_all)
  moreover have "card (set (jumped path)) \<le> card (color_squares g (ck_other c))"
    using sub by (intro card_mono) simp_all
  ultimately show "count_color g' (ck_other c) + length (jumped path) = count_color g (ck_other c)"
    using distinct_card [OF dist] by (simp add: count_color_card foe)
qed

text \<open>What holds of every board reached by play: pieces stand on the dark squares, no man stands on its
  crown row, and neither side has more than its twelve pieces.\<close>

definition board_ok :: "ck_grid \<Rightarrow> bool" where
  "board_ok g \<longleftrightarrow>
     (\<forall>sq p. grid_at g sq = Some p \<longrightarrow> on_grid sq \<and> odd (fst sq + snd sq) \<and> \<not> crowns p sq) \<and>
     (\<forall>c. count_color g c \<le> 12)"

lemma board_ok_after:
  assumes ok: "board_ok g" and s: "sound_path g c path q" and a: "after_path g path q g'"
  shows "board_ok g'"
proof -
  have counts: "count_color g' c \<le> 12" "count_color g' (ck_other c) \<le> 12"
    using counts_after [OF s a] ok unfolding board_ok_def by (metis le_add1 le_trans)+
  then have "count_color g' e \<le> 12" for e by (cases "e = c") (cases e; cases c; simp)+
  moreover have "on_grid sq \<and> odd (fst sq + snd sq) \<and> \<not> crowns p sq" if at: "grid_at g' sq = Some p" for sq p
  proof (cases "sq = last path")
    case True
    have "grid_at g (hd path) = Some q" using s by (simp add: sound_path_def)
    then have "odd (fst (hd path) + snd (hd path))" using ok unfolding board_ok_def by blast
    moreover have "last path \<in> set path" using sound_ends(1) [OF s] by simp
    ultimately have "odd (fst sq + snd sq)" using s unfolding sound_path_def True by blast
    moreover have "p = crowned_at q sq"
      using a [unfolded after_path_def, rule_format, of "last path"] at by (simp add: True)
    then have "\<not> crowns p sq" by (simp add: crowned_at_def crowns_def split: if_splits)
    ultimately show ?thesis using sound_ends(3) [OF s] True by simp
  next
    case False
    then have "grid_at g sq = Some p"
      using a [unfolded after_path_def, rule_format, of sq] at by (simp split: if_splits)
    then show ?thesis using ok unfolding board_ok_def by blast
  qed
  ultimately show ?thesis unfolding board_ok_def by blast
qed

lemma board_ok_start: "board_ok ck_starting_grid"
proof -
  have "count_color ck_starting_grid CkRed = 12" by code_simp
  moreover have "count_color ck_starting_grid CkWhite = 12" by code_simp
  ultimately have "count_color ck_starting_grid c \<le> 12" for c by (cases c) simp_all
  moreover have "on_grid sq \<and> odd (fst sq + snd sq) \<and> \<not> crowns p sq"
    if at: "grid_at ck_starting_grid sq = Some p" for sq p
  proof -
    have b: "on_grid sq" "(fst sq + snd sq) mod 2 = 1"
      "(fst sq \<le> 2 \<and> color p = CkRed) \<or> (5 \<le> fst sq \<and> color p = CkWhite)"
      using at by (cases sq; auto simp: grid_at_def ck_starting_grid_def on_grid_def split: if_splits)+
    then have "odd (fst sq + snd sq)" by presburger
    with b show ?thesis by (auto simp: crowns_def)
  qed
  ultimately show ?thesis unfolding board_ok_def by blast
qed

section \<open>Replay and moves\<close>

definition encode_path :: "square list \<Rightarrow> nat list" where
  "encode_path path = map (\<lambda>(r, c). as_u8 (r * ck_SIZE + c)) path"

lemma decode_encode: "\<forall>sq \<in> set path. on_grid sq \<Longrightarrow> map ck_cell (encode_path path) = path"
  by (induction path) (auto simp: encode_path_def ck_cell_def on_grid_def)

definition ck_inv :: "ck_state \<Rightarrow> bool" where
  "ck_inv s \<longleftrightarrow> (\<exists>g n. ck_replay s = Some (g, n) \<and> board_ok g)"

lemma replay_sound:
  assumes "sound_path g c path q"
  shows "\<exists>g'. replay_path (g, n) (encode_path path) = Some (g', if jumped path \<noteq> [] \<or> \<not> king q then 0 else n + 1) \<and>
           after_path g path q g'"
proof -
  from apply_path_sound [OF assms] obtain g' where g': "apply_path g path = Some g'" "after_path g path q g'" by blast
  have "\<forall>sq \<in> set path. on_grid sq" using assms unfolding sound_path_def by blast
  note dec = decode_encode [OF this]
  have "(\<exists>w \<in> set (windows2 path). is_jump w) \<longleftrightarrow> jumped path \<noteq> []" by (simp add: jumped_def filter_empty_conv)
  moreover have "grid_at g (hd path) = Some q" using assms by (simp add: sound_path_def)
  moreover have "encode_path path \<noteq> []" using sound_ends [OF assms] by (simp add: encode_path_def)
  ultimately show ?thesis using g' sound_ends [OF assms] dec by (simp add: replay_path_def Let_def)
qed

text \<open>The outcome a move reports, from the boards around it.\<close>

definition ck_outcome_of :: "ck_color \<Rightarrow> square list \<Rightarrow> piece \<Rightarrow> ck_grid \<Rightarrow> nat \<Rightarrow> ck_outcome" where
  "ck_outcome_of c path q g' n' =
     (let lost = generate_moves g' (ck_other c) = []; drawn = \<not> lost \<and> 80 \<le> n'
      in \<lparr>ck_mover = c, ck_captured = jumped path, ck_crowned = crowns q (last path),
          ck_finished = (lost \<or> drawn), ck_draw = drawn, ck_winner = (if lost then Some c else None)\<rparr>)"

definition ck_played :: "ck_state \<Rightarrow> square list \<Rightarrow> ck_state" where
  "ck_played s path = s\<lparr>ck_moves := ck_moves s @ [encode_path path]\<rparr>"

lemma ck_turn_played: "ck_turn (ck_played s path) = ck_other (ck_turn s)"
  by (simp add: ck_turn_def ck_played_def)

lemma ck_apply_cases:
  assumes "ck_replay s = Some (g, n)"
  shows "(path \<notin> set (generate_moves g (ck_turn s)) \<and> (\<exists>e. ck_apply_move s path = Err e)) \<or>
    (path \<in> set (generate_moves g (ck_turn s)) \<and>
     (\<exists>q g' n'. sound_path g (ck_turn s) path q \<and> after_path g path q g' \<and>
        n' = (if jumped path \<noteq> [] \<or> \<not> king q then 0 else n + 1) \<and>
        ck_replay (ck_played s path) = Some (g', n') \<and>
        ck_apply_move s path = Ok (ck_played s path, ck_outcome_of (ck_turn s) path q g' n')))"
proof (cases "path \<in> set (generate_moves g (ck_turn s))")
  case False
  with assms show ?thesis by (auto simp: ck_apply_move_def ensure_def ck_grid_of_def Let_def)
next
  case True
  then obtain q where q: "sound_path g (ck_turn s) path q" by (rule legal_sound)
  from replay_sound [OF q, of n] obtain g' where
    g': "replay_path (g, n) (encode_path path) = Some (g', if jumped path \<noteq> [] \<or> \<not> king q then 0 else n + 1)"
      "after_path g path q g'" by blast
  define n' where "n' = (if jumped path \<noteq> [] \<or> \<not> king q then 0 else n + 1)"
  have rep: "ck_replay (ck_played s path) = Some (g', n')"
    using assms g'(1) by (simp add: ck_replay_def ck_played_def fold_opt_snoc n'_def)
  have st: "s\<lparr>ck_moves := ck_moves s @ [map (\<lambda>(r, c). as_u8 (r * ck_SIZE + c)) path]\<rparr> = ck_played s path"
    by (simp add: ck_played_def encode_path_def)
  have "grid_at g (hd path) = Some q" "2 \<le> length path" using q by (simp_all add: sound_path_def)
  with True have "ck_apply_move s path = Ok (ck_played s path, ck_outcome_of (ck_turn s) path q g' n')"
    unfolding ck_apply_move_def st using assms rep
    by (simp add: ensure_def ck_grid_of_def Let_def ck_status_of_def ck_turn_played ck_outcome_of_def
        jumped_def crowns_def sound_path_def q [unfolded sound_path_def])
  with True q g'(2) rep n'_def show ?thesis by blast
qed

section \<open>Interfaces\<close>

interpretation ck_engine: logged_engine ck_apply_move ck_inv ck_moves "\<lambda>s path. encode_path path"
proof
  fix s s' :: ck_state and path out
  assume inv: "ck_inv s" and ok: "ck_apply_move s path = Ok (s', out)"
  from inv obtain g n where g: "ck_replay s = Some (g, n)" "board_ok g" by (auto simp: ck_inv_def)
  from ck_apply_cases [OF g(1), of path] ok obtain q g' n' where
    q: "sound_path g (ck_turn s) path q" "after_path g path q g'"
    and s': "ck_replay (ck_played s path) = Some (g', n')" "s' = ck_played s path" by auto
  from board_ok_after [OF g(2) q] s' show "ck_inv s'" by (auto simp: ck_inv_def)
  from s'(2) show "ck_moves s' = ck_moves s @ [encode_path path]" by (simp add: ck_played_def)
next
  fix s :: ck_state and path
  assume "ck_inv s"
  then obtain g n where g: "ck_replay s = Some (g, n)" by (auto simp: ck_inv_def)
  from ck_apply_cases [OF g, of path] show "ck_apply_move s path \<noteq> Panic" by auto
qed

interpretation ck_sides: two_sides ck_other "\<lambda>_. True" ck_user_of color_of
proof
  show "color_of s u = Some c \<Longrightarrow> True \<and> ck_user_of s c = u" for s u c
    by (auto simp: color_of_def split: if_splits)
  show "color_of s (ck_user_of s c) \<noteq> None" for s c by (cases c) (simp_all add: color_of_def)
  show "d = c \<or> d = ck_other c" for c d by (cases c; cases d) simp_all
qed simp_all

lemma ck_replay_new: "ck_replay (ck_new coin a b) = Some (ck_starting_grid, 0)"
  by (simp add: ck_replay_def ck_new_def split: prod.split)

lemma ck_inv_new: "ck_inv (ck_new coin a b)"
  by (simp add: ck_inv_def ck_replay_new board_ok_start)

section \<open>Properties\<close>


text \<open>
  One checkers move. In a match reached by play a submitted path is accepted exactly when it is
  legal for the side on turn. The accepted move leaves the mover's piece on the last square, crowned
  exactly when a man ends on its far rank, empties the first square and every jumped square and
  changes no other; the mover keeps its number of pieces and the opponent loses exactly the reported
  ones; and the draw clock is reset by a capture or a man's move and otherwise advances by one.
\<close>

theorem checkers_move_exact:
  assumes "ck_inv s"
  shows "\<exists>g n. ck_replay s = Some (g, n) \<and>
    (case ck_apply_move s path of
       Panic \<Rightarrow> False
     | Err e \<Rightarrow> path \<notin> set (generate_moves g (ck_turn s))
     | Ok (s', out) \<Rightarrow>
         path \<in> set (generate_moves g (ck_turn s)) \<and> ck_turn s' = ck_other (ck_turn s) \<and>
         (\<exists>q g'. grid_at g (hd path) = Some q \<and> color q = ck_turn s \<and> after_path g path q g' \<and>
            ck_replay s' = Some (g', if ck_captured out \<noteq> [] \<or> \<not> king q then 0 else n + 1) \<and>
            ck_captured out = jumped path \<and> ck_crowned out = crowns q (last path) \<and>
            count_color g' (ck_turn s) = count_color g (ck_turn s) \<and>
            count_color g' (ck_turn s') + length (ck_captured out) = count_color g (ck_turn s')))"
proof -
  from assms obtain g n where g: "ck_replay s = Some (g, n)" by (auto simp: ck_inv_def)
  from ck_apply_cases [OF g, of path] show ?thesis
  proof (elim disjE conjE exE)
    fix e
    assume "path \<notin> set (generate_moves g (ck_turn s))" "ck_apply_move s path = Err e"
    with g show ?thesis by auto
  next
    fix q g' n'
    assume legal: "path \<in> set (generate_moves g (ck_turn s))" and q: "sound_path g (ck_turn s) path q"
      and a: "after_path g path q g'" and n': "n' = (if jumped path \<noteq> [] \<or> \<not> king q then 0 else n + 1)"
      and rep: "ck_replay (ck_played s path) = Some (g', n')"
      and ok: "ck_apply_move s path = Ok (ck_played s path, ck_outcome_of (ck_turn s) path q g' n')"
    have out: "ck_captured (ck_outcome_of (ck_turn s) path q g' n') = jumped path"
      "ck_crowned (ck_outcome_of (ck_turn s) path q g' n') = crowns q (last path)"
      by (simp_all add: ck_outcome_of_def Let_def)
    have "grid_at g (hd path) = Some q" "color q = ck_turn s" using q by (simp_all add: sound_path_def)
    with g ok legal a rep n' out counts_after [OF q a] show ?thesis by (auto simp: ck_turn_played)
  qed
qed

lemma ck_demo_legal: "[(2, 1), (3, 0)] \<in> set (generate_moves ck_starting_grid CkRed)"
  by code_simp

theorem checkers_move_exact_witness:
  "ck_inv (ck_new True 1 2) \<and>
   (\<exists>s' out. ck_apply_move (ck_new True 1 2) [(2, 1), (3, 0)] = Ok (s', out) \<and> ck_turn s' = CkWhite)"
proof -
  have t: "ck_turn (ck_new True 1 2) = CkRed" by (simp add: ck_turn_def ck_new_def)
  obtain s' out where "ck_apply_move (ck_new True 1 2) [(2, 1), (3, 0)] = Ok (s', out)"
    using ck_apply_cases [OF ck_replay_new, of "[(2, 1), (3, 0)]" True 1 2] ck_demo_legal t by auto
  with checkers_move_exact [OF ck_inv_new, of True 1 2 "[(2, 1), (3, 0)]"] t show ?thesis
    by (auto simp: ck_inv_new)
qed

text \<open>
  The verdict after a checkers move: the mover wins exactly when the opponent has no legal move,
  the match is drawn exactly when it has one and eighty plies passed without a capture or a man's
  move, and the match is finished exactly in these two cases; the stored state reports the same.
\<close>

theorem checkers_verdict:
  assumes "ck_inv s" and "ck_apply_move s path = Ok (s', out)"
  shows "\<exists>g' n'. ck_replay s' = Some (g', n') \<and> ck_mover out = ck_turn s \<and>
    (\<forall>w. ck_winner out = Some w \<longleftrightarrow> w = ck_turn s \<and> generate_moves g' (ck_turn s') = []) \<and>
    (ck_draw out \<longleftrightarrow> generate_moves g' (ck_turn s') \<noteq> [] \<and> 80 \<le> n') \<and>
    (ck_finished out \<longleftrightarrow> ck_winner out \<noteq> None \<or> ck_draw out) \<and>
    ck_is_finished s' = Some (ck_finished out)"
proof -
  from assms(1) obtain g n where g: "ck_replay s = Some (g, n)" by (auto simp: ck_inv_def)
  from ck_apply_cases [OF g, of path] assms(2) obtain q g' n' where
    rep: "ck_replay s' = Some (g', n')" and s': "s' = ck_played s path"
    and out: "out = ck_outcome_of (ck_turn s) path q g' n'" by auto
  have turn: "ck_turn s' = ck_other (ck_turn s)" by (simp add: s' ck_turn_played)
  have "ck_is_finished s' = Some (generate_moves g' (ck_turn s') = [] \<or> 80 \<le> n')"
    by (auto simp: ck_is_finished_def ck_status_of_def rep Let_def)
  then show ?thesis using rep
    by (intro exI [of _ g'] exI [of _ n']) (auto simp: out ck_outcome_of_def Let_def turn)
qed

theorem checkers_verdict_witness:
  "\<exists>s' out. ck_apply_move (ck_new True 1 2) [(2, 1), (3, 0)] = Ok (s', out) \<and> ck_mover out = CkRed \<and>
     ck_is_finished s' = Some (ck_finished out)"
proof -
  have t: "ck_turn (ck_new True 1 2) = CkRed" by (simp add: ck_turn_def ck_new_def)
  obtain s' out where ok: "ck_apply_move (ck_new True 1 2) [(2, 1), (3, 0)] = Ok (s', out)"
    using ck_apply_cases [OF ck_replay_new, of "[(2, 1), (3, 0)]" True 1 2] ck_demo_legal t by auto
  from checkers_verdict [OF ck_inv_new ok] ok t show ?thesis by auto
qed

text \<open>
  A checkers session. Whatever paths are submitted to a new match, no call panics; the stored
  history always replays, and on the replayed board every piece stands on a dark square, no man stands
  on its crown row and neither side has more than twelve pieces.
\<close>

theorem checkers_session_safe:
  "\<exists>s g n. submit_all ck_apply_move (ck_new coin a b) paths = Ok s \<and> ck_replay s = Some (g, n) \<and>
     (\<forall>sq p. grid_at g sq = Some p \<longrightarrow> on_grid sq \<and> odd (fst sq + snd sq) \<and>
        \<not> (\<not> king p \<and> is_crown_row (color p) (fst sq))) \<and>
     count_color g CkRed \<le> 12 \<and> count_color g CkWhite \<le> 12"
proof -
  from ck_engine.session_ok [OF ck_inv_new] obtain s where
    s: "submit_all ck_apply_move (ck_new coin a b) paths = Ok s" "ck_inv s" by blast
  from s(2) obtain g n where g: "ck_replay s = Some (g, n)" "board_ok g" by (auto simp: ck_inv_def)
  from g(2) have "\<forall>sq p. grid_at g sq = Some p \<longrightarrow> on_grid sq \<and> odd (fst sq + snd sq) \<and>
      \<not> (\<not> king p \<and> is_crown_row (color p) (fst sq))" and "\<And>c. count_color g c \<le> 12"
    unfolding board_ok_def crowns_def by blast+
  with s(1) g(1) show ?thesis by blast
qed

theorem checkers_session_safe_witness:
  "\<exists>s g n. submit_all ck_apply_move (ck_new True 1 2) [[(2, 1), (3, 0)]] = Ok s \<and> ck_replay s = Some (g, n) \<and>
     count_color g CkRed \<le> 12"
  using checkers_session_safe [of True 1 2 "[[(2, 1), (3, 0)]]"] by blast

end
