(* ===== verification/HandsMatch.thy ===== *)
theory HandsMatch
  imports StdDeck
begin

text \<open>
  The interface of a match played in hands, each dealt from its own deck: the stored deals and moves are
  replayed into a table; when a hand is over the next stored deal is laid out, and a won match
  has neither moves nor deals left. The laws are what a card game promises of its step and of its
  deal; from them follow that a sound history replays, how it grows, and that every history
  that replays was played: the induction rule \<open>history_induct\<close>. Cribbage and gin rummy are instances.
\<close>

lemma rbind_case: "rbind m f = (case m of Ok x \<Rightarrow> f x | Err e \<Rightarrow> Err e | Panic \<Rightarrow> Panic)"
  by (cases m) simp_all

lemma submit_all_snoc:
  "submit_all play s evs = Ok s' \<Longrightarrow> play s' ev = Ok (s'', out) \<Longrightarrow> submit_all play s (evs @ [ev]) = Ok s''"
  by (induction evs arbitrary: s) (auto split: res.splits prod.splits)

text \<open>Taking one card out of a hand of different cards.\<close>

lemma mset_drop_one: "distinct xs \<Longrightarrow> a \<in> set xs \<Longrightarrow> add_mset a (mset (filter (\<lambda>c. c \<noteq> a) xs)) = mset xs"
proof (induction xs)
  case (Cons x xs)
  show ?case
  proof (cases "x = a")
    case True
    with Cons.prems(1) have "filter (\<lambda>c. c \<noteq> a) xs = xs" by (auto simp: filter_id_conv)
    with True show ?thesis by simp
  next
    case False
    with Cons.prems Cons.IH have "add_mset a (mset (filter (\<lambda>c. c \<noteq> a) xs)) = mset xs" by simp
    with False show ?thesis by (simp add: add_mset_commute)
  qed
qed simp

lemma distinct_sub_mset: "mset xs \<subseteq># mset ys \<Longrightarrow> distinct ys \<Longrightarrow> distinct xs"
proof -
  assume sub: "mset xs \<subseteq># mset ys" and d: "distinct ys"
  obtain zs where "mset ys - mset xs = mset zs" using ex_mset by metis
  then have "mset ys = mset (xs @ zs)" using subset_mset.add_diff_inverse [OF sub] by simp
  with d have "distinct (xs @ zs)" using mset_eq_imp_distinct_iff by blast
  then show "distinct xs" by simp
qed

text \<open>A whole deal holds the cards of the fresh deck in some order; the shuffle reaches every one.\<close>

definition whole_deal :: "card list \<Rightarrow> bool" where
  "whole_deal deal \<longleftrightarrow> mset deal = mset fresh_deck"

lemma whole_dealD:
  assumes "whole_deal deal"
  shows "length deal = 52" "distinct deal"
proof -
  show "length deal = 52"
    using arg_cong [OF assms [unfolded whole_deal_def], of size] by (simp add: fresh_deck_def RANKS_def CARD_SUITS_def)
  show "distinct deal" using assms std_codec.distinct_fresh mset_eq_imp_distinct_iff by (metis whole_deal_def)
qed

lemma whole_deal_shuffled [simp]: "whole_deal (shuffled_deck raw)"
  by (simp add: whole_deal_def mset_shuffled_deck)

lemma whole_deal_reached: "whole_deal deal \<Longrightarrow> \<exists>raw. shuffled_deck raw = deal"
  using fisher_yates_reaches [of fresh_deck deal] by (auto simp: whole_deal_def shuffled_deck_def)

datatype hand_status = InPlay | HandOver | MatchWon

locale dealt_match =
  fixes replay :: "'d list \<Rightarrow> 't \<Rightarrow> 'm list \<Rightarrow> ('e, 't) res"
    and first_table :: "'d \<Rightarrow> 't option"
    and status :: "'t \<Rightarrow> hand_status"
    and hand_of :: "'t \<Rightarrow> nat"
    and step :: "'t \<Rightarrow> 'm \<Rightarrow> ('e, 't) res"
    and redeal :: "'t \<Rightarrow> 'd \<Rightarrow> 't option"
    and ok :: "'d \<Rightarrow> 't \<Rightarrow> bool"
    and deck :: "'d \<Rightarrow> bool"
    and after_win dealt_late past_deal :: 'e
  assumes replay_in_play: "status t = InPlay \<Longrightarrow> replay deals t [] = Ok t"
      "status t = InPlay \<Longrightarrow> replay deals t (m # ms) = rbind (step t m) (\<lambda>t'. replay deals t' ms)"
    and replay_over: "status t = HandOver \<Longrightarrow> replay deals t ms =
      (case get_at deals (hand_of t + 1) of
         Some d \<Rightarrow> expect (redeal t d) (\<lambda>t'. replay deals t' ms)
       | None \<Rightarrow> ensure (ms = []) past_deal (Ok t))"
    and replay_won: "status t = MatchWon \<Longrightarrow> replay deals t ms =
      ensure (ms = []) after_win (ensure (hand_of t + 1 = length deals) dealt_late (Ok t))"
    and step_keeps: "deck d \<Longrightarrow> ok d t \<Longrightarrow> step t m = Ok t' \<Longrightarrow> ok d t' \<and> hand_of t' = hand_of t"
    and step_safe: "deck d \<Longrightarrow> ok d t \<Longrightarrow> step t m \<noteq> Panic"
    and step_in_play: "step t m = Ok t' \<Longrightarrow> status t = InPlay"
    and redeal_ok: "ok d t \<Longrightarrow> status t = HandOver \<Longrightarrow> deck d' \<Longrightarrow> \<exists>t'. redeal t d' = Some t' \<and> ok d' t'"
    and redeal_starts: "redeal t d = Some t' \<Longrightarrow> hand_of t' = hand_of t + 1 \<and> status t' = InPlay"
    and first_table_ok: "deck d \<Longrightarrow> \<exists>t. first_table d = Some t \<and> ok d t \<and> hand_of t = 0 \<and> status t = InPlay"
begin

lemma replay_induct [consumes 0, case_names stop step deal]:
  assumes "\<And>t ms. status t = InPlay \<Longrightarrow> ms = [] \<Longrightarrow> P t ms"
    and "\<And>t m ms. status t = InPlay \<Longrightarrow> (\<And>t'. step t m = Ok t' \<Longrightarrow> P t' ms) \<Longrightarrow> P t (m # ms)"
    and "\<And>t ms. status t \<noteq> InPlay \<Longrightarrow> (\<And>d t'. status t = HandOver \<Longrightarrow> redeal t d = Some t' \<Longrightarrow> P t' ms) \<Longrightarrow> P t ms"
  shows "P t ms"
proof (induction "2 * length ms + (if status t = InPlay then 0 else 1)" arbitrary: t ms rule: less_induct)
  case less
  show ?case
  proof (cases "status t = InPlay")
    case True
    show ?thesis
    proof (cases ms)
      case Nil
      with True assms(1) show ?thesis by blast
    next
      case (Cons m rest)
      have "P t' rest" for t' by (rule less) (use True Cons in auto)
      with assms(2) [OF True] Cons show ?thesis by blast
    qed
  next
    case False
    have "P t' ms" if "redeal t d = Some t'" for d t'
      by (rule less) (use False redeal_starts [OF that] in auto)
    with assms(3) [OF False] show ?thesis by blast
  qed
qed

lemma replay_lands:
  assumes "\<forall>d \<in> set deals. deck d"
  shows "hand_of t < length deals \<Longrightarrow> ok (deals ! hand_of t) t \<Longrightarrow> replay deals t ms \<noteq> Panic \<and>
    (\<forall>t'. replay deals t ms = Ok t' \<longrightarrow> hand_of t' < length deals \<and> ok (deals ! hand_of t') t')"
proof (induction t ms rule: replay_induct)
  case (stop t ms)
  then show ?case by (simp add: replay_in_play)
next
  case (step t m ms)
  have d: "deck (deals ! hand_of t)" using assms step.prems(1) by simp
  show ?case
  proof (cases "step t m")
    case (Ok t')
    with step_keeps [OF d step.prems(2) Ok] step.IH [OF Ok] step.prems(1) step.hyps show ?thesis by (simp add: replay_in_play)
  qed (use step step_safe [OF d step.prems(2)] in \<open>simp_all add: replay_in_play\<close>)
next
  case (deal t ms)
  show ?case
  proof (cases "status t")
    case HandOver
    show ?thesis
    proof (cases "hand_of t + 1 < length deals")
      case True
      then have d: "deck (deals ! (hand_of t + 1))" using assms by simp
      from redeal_ok [OF deal.prems(2) HandOver d] obtain t' where t': "redeal t (deals ! (hand_of t + 1)) = Some t'"
        "ok (deals ! (hand_of t + 1)) t'" by blast
      with deal.IH [OF HandOver t'(1)] redeal_starts [OF t'(1)] True HandOver show ?thesis by (simp add: replay_over get_at_def)
    next
      case False
      with HandOver deal.prems show ?thesis by (auto simp: replay_over get_at_def ensure_def)
    qed
  qed (use deal in \<open>auto simp: replay_won ensure_def\<close>)
qed

lemma replay_append: "replay deals t ms = Ok t' \<Longrightarrow> replay deals t (ms @ ns) = replay deals t' ns"
proof (induction t ms rule: replay_induct)
  case (stop t ms)
  then show ?case by (simp add: replay_in_play)
next
  case (step t m ms)
  then show ?case by (cases "step t m") (simp_all add: replay_in_play)
next
  case (deal t ms)
  show ?case
  proof (cases "status t")
    case HandOver
    show ?thesis
    proof (cases "get_at deals (hand_of t + 1)")
      case None
      with HandOver deal.prems have "ms = []" "t' = t" by (auto simp: replay_over ensure_def split: if_splits)
      then show ?thesis by simp
    next
      case (Some d)
      with HandOver deal show ?thesis by (cases "redeal t d") (simp_all add: replay_over)
    qed
  next
    case MatchWon
    with deal.prems have "ms = []" "t' = t" by (auto simp: replay_won ensure_def split: if_splits)
    then show ?thesis by simp
  qed (use deal in simp)
qed

lemma replay_more:
  "replay deals t ms = Ok t' \<Longrightarrow> status t' = HandOver \<Longrightarrow> replay (deals @ [d]) t ms = replay (deals @ [d]) t' []"
proof (induction t ms rule: replay_induct)
  case (stop t ms)
  then show ?case by (simp add: replay_in_play)
next
  case (step t m ms)
  then show ?case by (cases "step t m") (simp_all add: replay_in_play)
next
  case (deal t ms)
  show ?case
  proof (cases "status t")
    case HandOver
    show ?thesis
    proof (cases "get_at deals (hand_of t + 1)")
      case None
      with HandOver deal.prems have "ms = []" "t' = t" by (auto simp: replay_over ensure_def split: if_splits)
      then show ?thesis by simp
    next
      case (Some e)
      then have "get_at (deals @ [d]) (hand_of t + 1) = Some e" by (auto simp: get_at_def nth_append split: if_splits)
      with Some HandOver deal show ?thesis by (cases "redeal t e") (simp_all add: replay_over)
    qed
  next
    case MatchWon
    with deal.prems show ?thesis by (auto simp: replay_won ensure_def split: if_splits)
  qed (use deal in simp)
qed

lemma replay_still: "hand_of t + 1 = length deals \<Longrightarrow> replay deals t [] = Ok t"
  by (cases "status t") (auto simp: replay_in_play replay_over replay_won ensure_def get_at_def)

text \<open>The whole history: the first deal opens the table.\<close>

lemma history_sound:
  assumes "\<forall>d \<in> set deals. deck d" and "deals \<noteq> []"
  shows "\<exists>t. first_table (hd deals) = Some t \<and> replay deals t ms \<noteq> Panic \<and>
    (\<forall>t'. replay deals t ms = Ok t' \<longrightarrow> hand_of t' < length deals \<and> ok (deals ! hand_of t') t')"
proof -
  obtain d ds where d: "deals = d # ds" using assms(2) by (cases deals) auto
  with assms(1) have "deck d" by simp
  then obtain t where t: "first_table d = Some t" "ok d t" "hand_of t = 0" using first_table_ok by blast
  with replay_lands [OF assms(1), of t ms] d show ?thesis by auto
qed

lemma history_push:
  assumes "replay deals t0 ms = Ok t" and "hand_of t + 1 = length deals" and "step t m = Ok t'" and "hand_of t' = hand_of t"
  shows "replay deals t0 (ms @ [m]) = Ok t'"
  using replay_append [OF assms(1), of "[m]"] step_in_play [OF assms(3)] assms(2-4) replay_still [of t' deals]
  by (simp add: replay_in_play)

lemma history_deal:
  assumes "replay deals t0 ms = Ok t" and "hand_of t + 1 = length deals" and "status t = HandOver" and "redeal t d = Some t'"
  shows "replay (deals @ [d]) t0 ms = Ok t'"
proof -
  have "get_at (deals @ [d]) (hand_of t + 1) = Some d" using assms(2) by (simp add: get_at_def nth_append)
  with replay_more [OF assms(1,3), of d] assms redeal_starts [OF assms(4)] replay_still [of t' "deals @ [d]"]
  show ?thesis by (simp add: replay_over)
qed

text \<open>Every history that replays into its last deal was played, move by move and deal by deal.\<close>

lemma history_from:
  assumes decks: "\<forall>d \<in> set deals. deck d"
    and push: "\<And>ds ms t m t'. P ds ms t \<Longrightarrow> hand_of t + 1 = length ds \<Longrightarrow> step t m = Ok t' \<Longrightarrow> P ds (ms @ [m]) t'"
    and dealt: "\<And>ds ms t d t'. P ds ms t \<Longrightarrow> hand_of t + 1 = length ds \<Longrightarrow> status t = HandOver \<Longrightarrow> deck d \<Longrightarrow> redeal t d = Some t' \<Longrightarrow>
      P (ds @ [d]) ms t'"
  shows "replay deals t ms = Ok t' \<Longrightarrow> hand_of t' + 1 = length deals \<Longrightarrow> hand_of t < length deals \<Longrightarrow> ok (deals ! hand_of t) t \<Longrightarrow>
    P (take (hand_of t + 1) deals) past t \<Longrightarrow> P deals (past @ ms) t'"
proof (induction t ms arbitrary: past rule: replay_induct)
  case (stop t ms)
  then show ?case by (simp add: replay_in_play)
next
  case (step t m ms)
  from step.prems(1) step.hyps obtain u where u: "step t m = Ok u" "replay deals u ms = Ok t'" by (auto simp: replay_in_play res_simps)
  have d: "deck (deals ! hand_of t)" using decks step.prems(3) by simp
  from step_keeps [OF d step.prems(4) u(1)] have k: "ok (deals ! hand_of u) u" "hand_of u = hand_of t" by simp_all
  have "P (take (hand_of t + 1) deals) (past @ [m]) u" by (rule push [OF step.prems(5) _ u(1)]) (use step.prems(3) in simp)
  with step.IH [OF u(1,2) step.prems(2), of "past @ [m]"] k step.prems(3) show ?case by simp
next
  case (deal t ms)
  show ?case
  proof (cases "status t = HandOver \<and> hand_of t + 1 < length deals")
    case True
    then have g: "get_at deals (hand_of t + 1) = Some (deals ! (hand_of t + 1))" by (simp add: get_at_def)
    with True deal.prems(1) obtain u where u: "redeal t (deals ! (hand_of t + 1)) = Some u" "replay deals u ms = Ok t'"
      by (auto simp: replay_over res_simps)
    have d: "deck (deals ! (hand_of t + 1))" using decks True by simp
    have k: "ok (deals ! (hand_of t + 1)) u" using redeal_ok [OF deal.prems(4) _ d] True u(1) by auto
    have "P (take (hand_of t + 1) deals @ [deals ! (hand_of t + 1)]) past u"
      by (rule dealt [OF deal.prems(5) _ _ d u(1)]) (use True in auto)
    moreover have "take (hand_of t + 1) deals @ [deals ! (hand_of t + 1)] = take (hand_of u + 1) deals"
      using True redeal_starts [OF u(1)] by (simp add: take_Suc_conv_app_nth)
    ultimately show ?thesis
      using deal.IH [OF _ u(1,2) deal.prems(2), of past] True k redeal_starts [OF u(1)] by simp
  next
    case False
    have "ms = [] \<and> t' = t \<and> hand_of t + 1 = length deals"
    proof (cases "status t")
      case HandOver
      with False deal.prems show ?thesis by (auto simp: replay_over get_at_def ensure_def split: if_splits)
    next
      case MatchWon
      with deal.prems show ?thesis by (auto simp: replay_won ensure_def split: if_splits)
    qed (use deal in simp)
    with deal.prems(5) show ?thesis by simp
  qed
qed

lemma history_induct:
  assumes "\<forall>d \<in> set deals. deck d" and "deals \<noteq> []" and "first_table (hd deals) = Some t0" and "replay deals t0 ms = Ok t"
    and "hand_of t + 1 = length deals"
    and start: "P [hd deals] [] t0"
    and push: "\<And>ds ms t m t'. P ds ms t \<Longrightarrow> hand_of t + 1 = length ds \<Longrightarrow> step t m = Ok t' \<Longrightarrow> P ds (ms @ [m]) t'"
    and dealt: "\<And>ds ms t d t'. P ds ms t \<Longrightarrow> hand_of t + 1 = length ds \<Longrightarrow> status t = HandOver \<Longrightarrow> deck d \<Longrightarrow> redeal t d = Some t' \<Longrightarrow>
      P (ds @ [d]) ms t'"
  shows "P deals ms t"
proof -
  obtain d ds where d: "deals = d # ds" using assms(2) by (cases deals) auto
  with assms(1) have "deck d" by simp
  with assms(3) d have "ok d t0" "hand_of t0 = 0" using first_table_ok by fastforce+
  have "P deals ([] @ ms) t"
    by (rule history_from [where P = P, OF assms(1) push dealt assms(4,5)]) (use d \<open>ok d t0\<close> \<open>hand_of t0 = 0\<close> start in simp_all)
  then show ?thesis by simp
qed

end


section \<open>Stored matches\<close>

text \<open>A call on a stored match: a player's move, or the service dealing the next hand from its draws.\<close>

definition match_call ::
  "('s \<Rightarrow> 'm \<Rightarrow> ('e, 's \<times> 'o) res) \<Rightarrow> ((nat \<Rightarrow> nat) \<Rightarrow> 's \<Rightarrow> ('e, 's) res) \<Rightarrow> 's \<Rightarrow> 'm + (nat \<Rightarrow> nat) \<Rightarrow> ('e, 's \<times> 'o option) res" where
  "match_call apply deal s ev =
     (case ev of
        Inl m \<Rightarrow> rbind (apply s m) (\<lambda>(s', out). Ok (s', Some out))
      | Inr raw \<Rightarrow> rbind (deal raw s) (\<lambda>s'. Ok (s', None)))"

lemma match_call_accepts:
  "apply s m = Ok (s', out) \<Longrightarrow> match_call apply deal s (Inl m) = Ok (s', Some out)"
  "deal raw s = Ok s' \<Longrightarrow> match_call apply deal s (Inr raw) = Ok (s', None)"
  by (simp_all add: match_call_def)

lemma session_grows:
  "submit_all (match_call apply deal) s evs = Ok s' \<Longrightarrow> apply s' m = Ok (s'', out) \<Longrightarrow>
    submit_all (match_call apply deal) s (evs @ [Inl m]) = Ok s''"
  "submit_all (match_call apply deal) s evs = Ok s' \<Longrightarrow> deal raw s' = Ok s'' \<Longrightarrow>
    submit_all (match_call apply deal) s (evs @ [Inr raw]) = Ok s''"
  by (erule submit_all_snoc, erule match_call_accepts)+

text \<open>
  A stored state holds deals and moves in a frame that no call changes (the seats, the version, the
  revision). A move is judged on the replayed table, a deal needs a hand that is over; the laws
  give the invariant of the state (every deal a whole deck, the moves replay into the last deal), its
  engine, and that every state with the invariant is the result of some calls on a fresh deal.
\<close>

locale stored_match = dealt_match replay first_table status hand_of step redeal ok deck after_win dealt_late past_deal
  for replay :: "'d list \<Rightarrow> 't \<Rightarrow> 'm list \<Rightarrow> ('e, 't) res" and first_table status hand_of step redeal ok deck
    and after_win dealt_late past_deal :: 'e +
  fixes deals_of :: "'s \<Rightarrow> 'd list"
    and moves_of :: "'s \<Rightarrow> 'm list"
    and frame :: "'s \<Rightarrow> 'f"
    and push :: "'m \<Rightarrow> 's \<Rightarrow> 's"
    and append_deal :: "'d \<Rightarrow> 's \<Rightarrow> 's"
    and restart :: "'d \<Rightarrow> 's \<Rightarrow> 's"
    and whole :: "'s \<Rightarrow> ('e, 't) res"
    and apply_move :: "'s \<Rightarrow> 'm \<Rightarrow> ('e, 's \<times> 'o) res"
    and outcome :: "'t \<Rightarrow> 'm \<Rightarrow> 't \<Rightarrow> 'o"
    and deal_next :: "(nat \<Rightarrow> nat) \<Rightarrow> 's \<Rightarrow> ('e, 's) res"
    and shuffle :: "(nat \<Rightarrow> nat) \<Rightarrow> 'd"
    and refusal :: "'t \<Rightarrow> 'm \<Rightarrow> 'e option"
    and not_over :: 'e
    and inv :: "'s \<Rightarrow> bool"
    and current :: "'s \<Rightarrow> 't \<Rightarrow> bool"
  assumes whole_replay: "deals_of s \<noteq> [] \<Longrightarrow>
      whole s = expect (first_table (hd (deals_of s))) (\<lambda>t. replay (deals_of s) t (moves_of s))"
    and fields: "deals_of (push m s) = deals_of s" "moves_of (push m s) = moves_of s @ [m]" "frame (push m s) = frame s"
      "deals_of (append_deal d s) = deals_of s @ [d]" "moves_of (append_deal d s) = moves_of s" "frame (append_deal d s) = frame s"
      "deals_of (restart d s) = [d]" "moves_of (restart d s) = []" "frame (restart d s) = frame s"
    and state_eq: "deals_of s = deals_of s' \<Longrightarrow> moves_of s = moves_of s' \<Longrightarrow> frame s = frame s' \<Longrightarrow> s = s'"
    and apply_step: "whole s = Ok t \<Longrightarrow> apply_move s m = rbind (step t m) (\<lambda>t'. Ok (push m s, outcome t m t'))"
    and deal_over: "whole s = Ok t \<Longrightarrow>
      deal_next raw s = ensure (status t = HandOver) not_over (Ok (append_deal (shuffle raw) s))"
    and step_refusal: "deck d \<Longrightarrow> ok d t \<Longrightarrow>
      (case refusal t m of None \<Rightarrow> \<exists>t'. step t m = Ok t' | Some e \<Rightarrow> step t m = Err e)"
    and shuffle_deck: "deck (shuffle raw)"
    and shuffle_any: "deck d \<Longrightarrow> \<exists>raw. shuffle raw = d"
    and inv_iff: "inv s \<longleftrightarrow> (\<forall>d \<in> set (deals_of s). deck d) \<and> (\<exists>t. whole s = Ok t \<and> hand_of t + 1 = length (deals_of s))"
    and current_iff: "current s t \<longleftrightarrow> inv s \<and> whole s = Ok t"
begin

lemma inv_current: "inv s \<Longrightarrow> \<exists>t. current s t"
  by (auto simp: inv_iff current_iff)

lemma current_history:
  assumes "current s t"
  shows "\<forall>d \<in> set (deals_of s). deck d" "hand_of t + 1 = length (deals_of s)"
    "\<exists>t0. first_table (hd (deals_of s)) = Some t0 \<and> replay (deals_of s) t0 (moves_of s) = Ok t"
proof -
  show "\<forall>d \<in> set (deals_of s). deck d" and h: "hand_of t + 1 = length (deals_of s)"
    using assms by (auto simp: current_iff inv_iff)
  then have "deals_of s \<noteq> []" by auto
  with assms show "\<exists>t0. first_table (hd (deals_of s)) = Some t0 \<and> replay (deals_of s) t0 (moves_of s) = Ok t"
    by (auto simp: current_iff whole_replay res_simps)
qed

lemma current_ok:
  assumes "current s t"
  shows "ok (last (deals_of s)) t" "deck (last (deals_of s))"
proof -
  note h = current_history [OF assms]
  then have ne: "deals_of s \<noteq> []" by auto
  with h(1) show "deck (last (deals_of s))" by simp
  have "last (deals_of s) = deals_of s ! hand_of t" using h(2) ne by (metis add_diff_cancel_right' last_conv_nth)
  with history_sound [OF h(1) ne, of "moves_of s"] h(3) show "ok (last (deals_of s)) t" by auto
qed

lemma whole_safe: "\<forall>d \<in> set (deals_of s). deck d \<Longrightarrow> deals_of s \<noteq> [] \<Longrightarrow> whole s \<noteq> Panic"
  using history_sound [of "deals_of s" "moves_of s"] by (auto simp: whole_replay)

lemma current_push:
  assumes cur: "current s t" and st: "step t m = Ok t'"
  shows "current (push m s) t'"
proof -
  note h = current_history [OF cur]
  then have ne: "deals_of s \<noteq> []" by auto
  obtain t0 where t0: "first_table (hd (deals_of s)) = Some t0" "replay (deals_of s) t0 (moves_of s) = Ok t" using h(3) by blast
  have k: "hand_of t' = hand_of t" using step_keeps [OF current_ok(2,1) [OF cur] st] by simp
  from history_push [OF t0(2) h(2) st k] t0(1) ne have "whole (push m s) = Ok t'" by (simp add: whole_replay fields)
  with h(1,2) k show ?thesis by (simp add: current_iff inv_iff fields)
qed

lemma current_deal:
  assumes cur: "current s t" and over: "status t = HandOver" and d: "deck d"
  shows "\<exists>t'. redeal t d = Some t' \<and> current (append_deal d s) t' \<and> ok d t' \<and> status t' = InPlay"
proof -
  note h = current_history [OF cur]
  then have ne: "deals_of s \<noteq> []" by auto
  obtain t0 where t0: "first_table (hd (deals_of s)) = Some t0" "replay (deals_of s) t0 (moves_of s) = Ok t" using h(3) by blast
  obtain t' where t': "redeal t d = Some t'" "ok d t'" using redeal_ok [OF current_ok(1) [OF cur] over d] by blast
  from history_deal [OF t0(2) h(2) over t'(1)] t0(1) ne have "whole (append_deal d s) = Ok t'" by (simp add: whole_replay fields)
  with h(1,2) d t' redeal_starts [OF t'(1)] show ?thesis by (simp add: current_iff inv_iff fields)
qed

lemma apply_cases:
  assumes "current s t"
  shows "case refusal t m of
      Some e \<Rightarrow> apply_move s m = Err e
    | None \<Rightarrow> \<exists>t'. step t m = Ok t' \<and> apply_move s m = Ok (push m s, outcome t m t') \<and> current (push m s) t'"
proof -
  have "whole s = Ok t" using assms by (simp add: current_iff)
  note a = apply_step [OF this, of m]
  show ?thesis using step_refusal [OF current_ok(2,1) [OF assms], of m] a current_push [OF assms]
    by (auto split: option.splits)
qed

lemma deal_cases:
  assumes "current s t"
  shows "if status t = HandOver
    then deal_next raw s = Ok (append_deal (shuffle raw) s) \<and>
      (\<exists>t'. redeal t (shuffle raw) = Some t' \<and> current (append_deal (shuffle raw) s) t' \<and> ok (shuffle raw) t' \<and> status t' = InPlay)
    else deal_next raw s = Err not_over"
  using assms deal_over [of s t raw] current_deal [OF assms _ shuffle_deck [of raw]]
  by (auto simp: current_iff ensure_def)

lemma call_cases:
  assumes cur: "current s t" and ok: "match_call apply_move deal_next s ev = Ok (s', out)"
  shows "frame s' = frame s \<and>
    (\<exists>t'. current s' t' \<and>
      ((\<exists>m. ev = Inl m \<and> s' = push m s \<and> step t m = Ok t' \<and> out = Some (outcome t m t')) \<or>
       (\<exists>raw. ev = Inr raw \<and> status t = HandOver \<and> s' = append_deal (shuffle raw) s \<and> redeal t (shuffle raw) = Some t')))"
proof (cases ev)
  case (Inl m)
  with apply_cases [OF cur, of m] ok show ?thesis
    by (cases "refusal t m") (auto simp: match_call_def fields)
next
  case (Inr raw)
  with deal_cases [OF cur, of raw] ok show ?thesis by (auto simp: match_call_def fields split: if_splits)
qed

lemma call_safe: "inv s \<Longrightarrow> match_call apply_move deal_next s ev \<noteq> Panic"
proof -
  assume "inv s"
  then obtain t where cur: "current s t" using inv_current by blast
  show ?thesis
  proof (cases ev)
    case (Inl m)
    with apply_cases [OF cur, of m] show ?thesis by (cases "refusal t m") (auto simp: match_call_def)
  next
    case (Inr raw)
    with deal_cases [OF cur, of raw] show ?thesis by (auto simp: match_call_def split: if_splits)
  qed
qed

text \<open>An accepted move of a state with the invariant, and the deal of the next hand when it ended one.\<close>

lemma moved_on:
  assumes "inv s" and "apply_move s m = Ok (s', out)"
  shows "\<exists>t t'. current s t \<and> current s' t' \<and> frame s' = frame s \<and> step t m = Ok t' \<and> out = outcome t m t' \<and>
    (status t' = HandOver \<longrightarrow>
      (\<exists>s'' t''. deal_next raw s' = Ok s'' \<and> current s'' t'' \<and> frame s'' = frame s \<and> status t'' = InPlay))"
proof -
  obtain t where t: "current s t" using inv_current [OF assms(1)] by blast
  with apply_cases [OF t, of m] assms(2) obtain t' where t': "step t m = Ok t'" "out = outcome t m t'" "s' = push m s" "current s' t'"
    by (cases "refusal t m") auto
  have "\<exists>s'' t''. deal_next raw s' = Ok s'' \<and> current s'' t'' \<and> frame s'' = frame s \<and> status t'' = InPlay" if "status t' = HandOver"
    using deal_cases [OF t'(4), of raw] that t'(3) by (auto simp: fields)
  with t t' show ?thesis by (auto simp: fields)
qed

lemma restart_current:
  assumes "deck d"
  shows "\<exists>t. first_table d = Some t \<and> current (restart d s) t"
proof -
  obtain t where t: "first_table d = Some t" "hand_of t = 0" using first_table_ok [OF assms] by blast
  with replay_still [of t "[d]"] have "whole (restart d s) = Ok t" by (simp add: whole_replay fields)
  with t assms show ?thesis by (auto simp: current_iff inv_iff fields)
qed

lemma inv_restart: "deck d \<Longrightarrow> inv (restart d s)"
  using restart_current [of d s] by (auto simp: current_iff)

text \<open>Every state with the invariant was played.\<close>

lemma played:
  assumes "inv s"
  shows "\<exists>raw evs. submit_all (match_call apply_move deal_next) (restart (shuffle raw) s) evs = Ok s"
proof -
  obtain t where cur: "current s t" using inv_current [OF assms] by blast
  note h = current_history [OF cur]
  then have ne: "deals_of s \<noteq> []" by auto
  obtain t0 where t0: "first_table (hd (deals_of s)) = Some t0" "replay (deals_of s) t0 (moves_of s) = Ok t" using h(3) by blast
  define P where "P ds ms u \<longleftrightarrow> (\<exists>x raw evs. deals_of x = ds \<and> moves_of x = ms \<and> frame x = frame s \<and> current x u \<and>
    submit_all (match_call apply_move deal_next) (restart (shuffle raw) s) evs = Ok x)" for ds ms u
  have "P (deals_of s) (moves_of s) t"
  proof (rule history_induct [OF h(1) ne t0 h(2)])
    have "deck (hd (deals_of s))" using h(1) ne by simp
    then obtain raw where raw: "shuffle raw = hd (deals_of s)" using shuffle_any by blast
    with restart_current [OF \<open>deck (hd (deals_of s))\<close>, of s] t0(1) have "current (restart (shuffle raw) s) t0" by simp
    moreover have "submit_all (match_call apply_move deal_next) (restart (shuffle raw) s) [] = Ok (restart (shuffle raw) s)" by simp
    ultimately show "P [hd (deals_of s)] [] t0" using raw fields unfolding P_def by metis
  next
    fix ds ms u m u'
    assume "P ds ms u" and st: "step u m = Ok u'"
    then obtain x raw evs where x: "deals_of x = ds" "moves_of x = ms" "frame x = frame s" "current x u"
      "submit_all (match_call apply_move deal_next) (restart (shuffle raw) s) evs = Ok x" unfolding P_def by blast
    have "apply_move x m = Ok (push m x, outcome u m u')" using apply_step [of x u m] x(4) st by (simp add: current_iff)
    from session_grows(1) [OF x(5) this] current_push [OF x(4) st] x(1-3) fields
    show "P ds (ms @ [m]) u'" unfolding P_def by metis
  next
    fix ds ms u d u'
    assume "P ds ms u" and st: "status u = HandOver" "deck d" "redeal u d = Some u'"
    then obtain x raw evs where x: "deals_of x = ds" "moves_of x = ms" "frame x = frame s" "current x u"
      "submit_all (match_call apply_move deal_next) (restart (shuffle raw) s) evs = Ok x" unfolding P_def by blast
    obtain raw' where raw': "shuffle raw' = d" using shuffle_any [OF st(2)] by blast
    have "deal_next raw' x = Ok (append_deal d x)" using deal_over [of x u raw'] x(4) st(1) raw' by (simp add: current_iff ensure_def)
    from session_grows(2) [OF x(5) this] current_deal [OF x(4) st(1,2)] st(3) x(1-3) fields
    show "P (ds @ [d]) ms u'" unfolding P_def by (metis option.inject)
  qed
  then obtain x raw evs where "deals_of x = deals_of s" "moves_of x = moves_of s" "frame x = frame s"
    "submit_all (match_call apply_move deal_next) (restart (shuffle raw) s) evs = Ok x" unfolding P_def by blast
  moreover from this(1-3) have "x = s" by (rule state_eq)
  ultimately show ?thesis by blast
qed

end

text \<open>A stored match is a rules engine over its calls.\<close>

sublocale stored_match \<subseteq> calls: rules_engine "match_call apply_move deal_next" inv
proof
  fix s ev s' out
  assume inv: "inv s"
  show "match_call apply_move deal_next s ev \<noteq> Panic" by (rule call_safe [OF inv])
  obtain t where "current s t" using inv_current [OF inv] by blast
  then show "inv s'" if "match_call apply_move deal_next s ev = Ok (s', out)"
    using call_cases [OF _ that, of t] by (auto simp: current_iff)
qed

context stored_match begin

lemma session_frame:
  "inv s \<Longrightarrow> submit_all (match_call apply_move deal_next) s evs = Ok s' \<Longrightarrow> frame s' = frame s"
proof (induction evs arbitrary: s)
  case (Cons ev evs)
  show ?case
  proof (cases "match_call apply_move deal_next s ev")
    case (Ok r)
    then obtain u out where u: "match_call apply_move deal_next s ev = Ok (u, out)" by (cases r) auto
    obtain t where "current s t" using inv_current [OF Cons.prems(1)] by blast
    from call_cases [OF this u] calls.play_keeps [OF Cons.prems(1) u] Cons u show ?thesis by auto
  next
    case (Err e)
    with Cons show ?thesis by simp
  next
    case Panic
    with Cons.prems show ?thesis by simp
  qed
qed simp

end

end
