(* ===== verification/CribbageCount.thy ===== *)
theory CribbageCount
  imports StdDeck
begin

text \<open>
  Cribbage for daily matches (\<open>late-ssh/src/app/lobby/daily/cribbage.rs\<close>). The state stores the deals and
  the moves; hands, crib, count, scores and turn are replayed from them. A seat is 0 or 1; an array
  indexed by seat is a function of it. A hand is dealt by the server, one whole shuffled deck at a time.
\<close>

section \<open>Data\<close>

definition CB_WINNING_SCORE :: nat where [simp]: "CB_WINNING_SCORE = 61"
definition CB_DEALT :: nat where [simp]: "CB_DEALT = 6"
definition CB_KEPT :: nat where [simp]: "CB_KEPT = 4"
definition CB_MAX_COUNT :: nat where [simp]: "CB_MAX_COUNT = 31"
definition CB_STARTER_INDEX :: nat where [simp]: "CB_STARTER_INDEX = CB_DEALT * 2"
definition CB_STATE_VERSION :: nat where [simp]: "CB_STATE_VERSION = 1"

datatype cb_move = CbDiscard card card | CbPlay card

record cb_state =
  cb_version :: nat
  cb_revision :: nat
  cb_seats :: "uuid \<times> uuid"
  cb_deals :: "card list list"
  cb_moves :: "cb_move list"

datatype cb_phase = CbDiscarding nat | CbPegging nat | CbAwaitingDeal | CbWon nat

datatype show_part = PoneHand | DealerHand | CribHand

primrec show_part_label :: "show_part \<Rightarrow> string" where
  "show_part_label PoneHand = ''pone'' @ CHR 0x27 # ''s hand''"
| "show_part_label DealerHand = ''dealer'' @ CHR 0x27 # ''s hand''"
| "show_part_label CribHand = ''crib''"

datatype cb_why = HisHeels | Fifteen | ThirtyOne | PairOf nat | RunOf nat | Go | LastCard | Shown show_part

fun cb_why_label :: "cb_why \<Rightarrow> string" where
  "cb_why_label HisHeels = ''his heels''"
| "cb_why_label Fifteen = ''fifteen''"
| "cb_why_label ThirtyOne = ''thirty-one''"
| "cb_why_label (PairOf n) = (if n = 2 then ''a pair'' else if n = 3 then ''pair royal'' else ''double pair royal'')"
| "cb_why_label (RunOf n) = ''a run of '' @ dec_string n"
| "cb_why_label Go = ''go''"
| "cb_why_label LastCard = ''last card''"
| "cb_why_label (Shown part) = show_part_label part"

record cb_peg =
  pg_hand :: nat
  pg_seat :: nat
  pg_points :: nat
  pg_why :: cb_why

record cb_count =
  cc_fifteens :: nat
  cc_pairs :: nat
  cc_runs :: nat
  cc_flush :: nat
  cc_nobs :: nat

definition cb_total :: "cb_count \<Rightarrow> nat" where
  "cb_total c = cc_fifteens c + cc_pairs c + cc_runs c + cc_flush c + cc_nobs c"

record shown_hand =
  sh_part :: show_part
  sh_seat :: nat
  sh_cards :: "card list"
  sh_count :: cb_count

record cb_show =
  sw_hand :: nat
  sw_starter :: card
  sw_parts :: "shown_hand list"

record cb_table =
  ct_scores :: "nat \<Rightarrow> nat"
  ct_hand :: nat
  ct_dealer :: nat
  ct_phase :: cb_phase
  ct_hands :: "nat \<Rightarrow> card list"
  ct_kept :: "nat \<Rightarrow> card list"
  ct_crib :: "card list"
  ct_starter :: "card option"
  ct_count :: nat
  ct_run :: "(nat \<times> card) list"
  ct_pegged :: "(nat \<times> card) list"
  ct_log :: "cb_peg list"
  ct_last_show :: "cb_show option"
  ct_cut :: card
  ct_last_player :: "nat option"

datatype cb_error =
  CbCorrupt | CbUnsupportedVersion nat | CbNoDeal | CbNotADeck | CbDealUnplayed | CbSameCards | CbNotInHand
| CbPast31 | CbDiscardFirst | CbCribFull | CbNotDealt | CbMatchOver | CbMovesAfterWin | CbDealtAfterWin
| CbMovesPastDeal | CbHandNotOver

record cb_outcome =
  co_seat :: nat
  co_played :: cb_move
  co_pegs :: "cb_peg list"
  co_scores :: "nat \<Rightarrow> nat"
  co_phase :: cb_phase

definition cb_outcome_label :: "cb_outcome \<Rightarrow> string" where
  "cb_outcome_label out =
     (let label =
        (case co_played out of
           CbDiscard _ _ \<Rightarrow> ''two to the crib''
         | CbPlay c \<Rightarrow>
             (let mine = filter (\<lambda>p. pg_seat p = co_seat out \<and> (case pg_why p of Shown _ \<Rightarrow> False | _ \<Rightarrow> True)) (co_pegs out)
              in if mine = [] then card_label c
                 else card_label c @ '', '' @ join_with '' and '' (map (\<lambda>p. cb_why_label (pg_why p)) mine) @ '' for '' @
                      dec_string (sum_list (map pg_points mine))))
      in label @ (case co_phase out of CbWon _ \<Rightarrow> '', pegged out'' | CbAwaitingDeal \<Rightarrow> '', hand over'' | _ \<Rightarrow> ''''))"

section \<open>Scoring\<close>

definition cb_other :: "nat \<Rightarrow> nat" where
  "cb_other seat = 1 - seat"

text \<open>\<open>windows(2).all(|pair| pair[1] == pair[0] + 1)\<close> of the sorted ranks.\<close>

fun consecutive :: "nat list \<Rightarrow> bool" where
  "consecutive (x # y # zs) \<longleftrightarrow> y = x + 1 \<and> consecutive (y # zs)"
| "consecutive _ \<longleftrightarrow> True"

definition makes_run :: "card list \<Rightarrow> bool" where
  "makes_run cs \<longleftrightarrow> consecutive (sort (map (\<lambda>c. rank_number (rank c)) cs))"

text \<open>What the last card of the run scores; an empty run would panic.\<close>

definition pegging_points :: "(nat \<times> card) list \<Rightarrow> nat \<Rightarrow> (nat \<times> cb_why) list option" where
  "pegging_points run tally =
     (if run = [] then None
      else
        let latest = rank (snd (last run));
            same = length (takeWhile (\<lambda>(_, c). rank c = latest) (rev run));
            longest = find (\<lambda>len. makes_run (map snd (drop (length run - len) run))) (rev [3..<length run + 1])
        in Some ((if tally = 15 then [(2, Fifteen)] else []) @
                 (if tally = CB_MAX_COUNT then [(2, ThirtyOne)] else []) @
                 (if same \<ge> 2 then [(same * (same - 1), PairOf (as_u8 same))] else []) @
                 (case longest of None \<Rightarrow> [] | Some len \<Rightarrow> [(len, RunOf (as_u8 len))])))"

text \<open>The cards of a mask, the bits it has, and the pairs of equal ranks.\<close>

definition masked :: "nat \<Rightarrow> card list \<Rightarrow> card list" where
  "masked msk cs = map snd (filter (\<lambda>(i, c). bit msk i) (enumerate 0 cs))"

definition count_ones :: "nat \<Rightarrow> nat" where
  "count_ones msk = length (filter (bit msk) [0..<8])"

fun pair_points :: "card list \<Rightarrow> nat" where
  "pair_points [] = 0"
| "pair_points (c # cs) = 2 * length (filter (\<lambda>later. rank c = rank later) cs) + pair_points cs"

definition run_points :: "card list \<Rightarrow> nat" where
  "run_points cs =
     (let runs = (\<lambda>len. length (filter (\<lambda>msk. count_ones msk = len \<and> makes_run (masked msk cs)) [1..<2 ^ length cs]))
      in case find (\<lambda>len. runs len > 0) (rev [3..<length cs + 1]) of None \<Rightarrow> 0 | Some len \<Rightarrow> runs len * len)"

text \<open>\<open>cards: [Card; KEPT]\<close>: four cards.\<close>

definition count_hand :: "card list \<Rightarrow> card \<Rightarrow> bool \<Rightarrow> cb_count" where
  "count_hand cards starter crib =
     (let cs = cards @ [starter]
      in \<lparr>cc_fifteens = 2 * length (filter (\<lambda>msk. sum_list (map card_value (masked msk cs)) = 15) [1..<2 ^ length cs]),
          cc_pairs = pair_points cs,
          cc_runs = run_points cs,
          cc_flush = (if list_all (\<lambda>c. suit c = suit (hd cards)) cards
                      then if suit starter = suit (hd cards) then 5 else if crib then 0 else 4
                      else 0),
          cc_nobs = (if list_ex (\<lambda>c. rank c = Jack \<and> suit c = suit starter) cards then 1 else 0)\<rparr>)"


section \<open>The count of a hand\<close>

text \<open>The bits of a mask below \<open>n\<close>, a one-to-one naming of the subsets of \<open>{..<n}\<close>.\<close>

definition bits_of :: "nat \<Rightarrow> nat \<Rightarrow> nat set" where
  "bits_of n m = {i. i < n \<and> bit m i}"

lemma bits_of_bij: "bij_betw (bits_of n) {..<2 ^ n} (Pow {..<n})"
proof -
  have inj: "inj_on (bits_of n) {..<2 ^ n}"
  proof (rule inj_onI)
    fix a b :: nat
    assume ab: "a \<in> {..<2 ^ n}" "b \<in> {..<2 ^ n}" "bits_of n a = bits_of n b"
    have "take_bit n a = take_bit n b"
      using ab(3) by (intro bit_eqI) (auto simp: bit_take_bit_iff bits_of_def)
    with ab(1,2) show "a = b" by (simp add: take_bit_nat_eq_self)
  qed
  moreover have "bits_of n ` {..<2 ^ n} = Pow {..<n}"
  proof (rule card_subset_eq)
    show "card (bits_of n ` {..<2 ^ n}) = card (Pow {..<n})" using inj by (simp add: card_image card_Pow)
  qed (auto simp: bits_of_def)
  ultimately show ?thesis by (simp add: bij_betw_def)
qed

lemma card_masks:
  assumes "\<not> P {}"
  shows "length (filter (\<lambda>m. P (bits_of n m)) [1..<2 ^ n]) = card {S. S \<subseteq> {..<n} \<and> P S}"
proof -
  have "bits_of n 0 = {}" by (simp add: bits_of_def)
  with assms have z: "\<not> P (bits_of n 0)" by simp
  have "length (filter (\<lambda>m. P (bits_of n m)) [1..<2 ^ n]) = card {m \<in> {1..<2 ^ n}. P (bits_of n m)}"
    by (subst distinct_length_filter) (auto simp: Int_def conj_commute)
  also have "{m \<in> {1..<2 ^ n}. P (bits_of n m)} = {m \<in> {..<2 ^ n}. P (bits_of n m)}"
    using z by (auto simp: Suc_le_eq intro: gr0I)
  also have "card \<dots> = card (bits_of n ` {m \<in> {..<2 ^ n}. P (bits_of n m)})"
    by (rule card_image [symmetric]) (rule inj_on_subset [OF bij_betw_imp_inj_on [OF bits_of_bij]], auto)
  also have "bits_of n ` {m \<in> {..<2 ^ n}. P (bits_of n m)} = {S. S \<subseteq> {..<n} \<and> P S}"
  proof (rule set_eqI)
    fix S
    show "S \<in> bits_of n ` {m \<in> {..<2 ^ n}. P (bits_of n m)} \<longleftrightarrow> S \<in> {S. S \<subseteq> {..<n} \<and> P S}"
    proof
      assume "S \<in> {S. S \<subseteq> {..<n} \<and> P S}"
      moreover from this have "S \<in> bits_of n ` {..<2 ^ n}" using bij_betw_imp_surj_on [OF bits_of_bij [of n]] by simp
      ultimately show "S \<in> bits_of n ` {m \<in> {..<2 ^ n}. P (bits_of n m)}" by auto
    qed (auto simp: bits_of_def)
  qed
  finally show ?thesis .
qed

lemma masked_nth: "masked m cs = map (\<lambda>i. cs ! i) (filter (bit m) [0..<length cs])"
proof -
  have "enumerate 0 cs = map (\<lambda>i. (i, cs ! i)) [0..<length cs]"
    by (rule nth_equalityI) (simp_all add: nth_enumerate_eq)
  then show ?thesis by (simp add: masked_def filter_map comp_def)
qed

lemma set_filter_bits: "set (filter (bit m) [0..<n]) = bits_of n m"
  by (auto simp: bits_of_def)

lemma length_filter_bits: "length (filter (bit m) [0..<n]) = card (bits_of n m)"
  using distinct_card [of "filter (bit m) [0..<n]"] by (simp add: set_filter_bits del: set_filter)

lemma sum_masked: "sum_list (map f (masked m cs)) = (\<Sum>i \<in> bits_of (length cs) m. f (cs ! i))"
  using sum_list_distinct_conv_sum_set [of "filter (bit m) [0..<length cs]" "\<lambda>i. f (cs ! i)"]
  by (simp add: masked_nth comp_def set_filter_bits [symmetric] del: set_filter)

lemma count_ones_bits:
  assumes "m < 2 ^ n" and "n \<le> 8"
  shows "count_ones m = card (bits_of n m)"
proof -
  have "bit m i \<Longrightarrow> i < n" for i
    using assms(1) bit_take_bit_iff [of n m i] by (simp add: take_bit_nat_eq_self)
  then have "bits_of 8 m = bits_of n m" using assms(2) by (fastforce simp: bits_of_def)
  then show ?thesis by (simp add: count_ones_def length_filter_bits)
qed

lemma interval_Cons:
  "a # ys = [k..<k + length (a # ys)] \<longleftrightarrow> a = k \<and> ys = [k + 1..<k + 1 + length ys]"
  by (simp add: upt_conv_Cons del: upt_Suc)

lemma consecutive_iff: "consecutive xs \<longleftrightarrow> (\<exists>k. xs = [k..<k + length xs])"
proof (induction xs rule: consecutive.induct)
  case (1 x y zs)
  then show ?case unfolding consecutive.simps interval_Cons by auto
qed simp_all

lemma sort_interval_iff:
  "consecutive (sort xs) \<longleftrightarrow> (\<exists>k. set xs = {k..<k + length (xs :: nat list)})"
proof -
  have "sort xs = [k..<k + length xs] \<longleftrightarrow> set xs = {k..<k + length xs}" for k
  proof
    assume "sort xs = [k..<k + length xs]"
    then have "set (sort xs) = set [k..<k + length xs]" by (rule arg_cong)
    then show "set xs = {k..<k + length xs}" by simp
  next
    assume s: "set xs = {k..<k + length xs}"
    then have "card (set xs) = length xs" by simp
    then have "distinct xs" by (rule card_distinct)
    then show "sort xs = [k..<k + length xs]" using s by (intro sorted_distinct_set_unique) simp_all
  qed
  then show ?thesis by (simp add: consecutive_iff)
qed

definition rank_at :: "card list \<Rightarrow> nat \<Rightarrow> nat" where
  "rank_at cs i = rank_number (rank (cs ! i))"

lemma masked_run:
  "makes_run (masked m cs) \<longleftrightarrow> (\<exists>k. rank_at cs ` bits_of (length cs) m = {k..<k + card (bits_of (length cs) m)})"
proof -
  have "set (map (\<lambda>c. rank_number (rank c)) (masked m cs)) = rank_at cs ` bits_of (length cs) m"
    by (auto simp: masked_nth rank_at_def set_filter_bits [symmetric])
  then show ?thesis unfolding makes_run_def sort_interval_iff by (simp add: masked_nth length_filter_bits)
qed

text \<open>The ways of making a run of \<open>n\<close>, and the pairs.\<close>

definition run_ways :: "card list \<Rightarrow> nat \<Rightarrow> nat set set" where
  "run_ways cs n = {S. S \<subseteq> {..<length cs} \<and> card S = n \<and> (\<exists>k. rank_at cs ` S = {k..<k + n})}"

lemma card_run_ways:
  assumes "0 < n" and "length cs \<le> 8"
  shows "length (filter (\<lambda>m. count_ones m = n \<and> makes_run (masked m cs)) [1..<2 ^ length cs]) = card (run_ways cs n)"
proof -
  let ?P = "\<lambda>S. card S = n \<and> (\<exists>k. rank_at cs ` S = {k..<k + n})"
  have "filter (\<lambda>m. count_ones m = n \<and> makes_run (masked m cs)) [1..<2 ^ length cs] =
      filter (\<lambda>m. ?P (bits_of (length cs) m)) [1..<2 ^ length cs]"
    using assms(2) by (intro filter_cong) (auto simp: count_ones_bits masked_run)
  then show ?thesis using card_masks [of ?P "length cs"] assms(1) by (simp add: run_ways_def)
qed

lemma pair_points_exact:
  "pair_points cs = 2 * card {(i, j). i < j \<and> j < length cs \<and> rank (cs ! i) = rank (cs ! j)}"
proof (induction cs)
  case Nil
  then show ?case by simp
next
  case (Cons c cs)
  let ?old = "{(i, j). i < j \<and> j < length cs \<and> rank (cs ! i) = rank (cs ! j)}"
  let ?new = "{j. j < length cs \<and> rank c = rank (cs ! j)}"
  let ?all = "{(i, j). i < j \<and> j < length (c # cs) \<and> rank ((c # cs) ! i) = rank ((c # cs) ! j)}"
  have split: "?all = (\<lambda>(i, j). (Suc i, Suc j)) ` ?old \<union> (\<lambda>j. (0, Suc j)) ` ?new"
  proof (rule set_eqI)
    fix p :: "nat \<times> nat"
    obtain i j where p: "p = (i, j)" by (cases p)
    show "p \<in> ?all \<longleftrightarrow> p \<in> (\<lambda>(i, j). (Suc i, Suc j)) ` ?old \<union> (\<lambda>j. (0, Suc j)) ` ?new"
      unfolding p by (cases i; cases j) auto
  qed
  have fin: "finite ?old" by (rule finite_subset [of _ "{..<length cs} \<times> {..<length cs}"]) auto
  have "finite ?new" by simp
  with fin have "card ?all = card ((\<lambda>(i, j). (Suc i, Suc j)) ` ?old) + card ((\<lambda>j. (0 :: nat, Suc j)) ` ?new)"
    unfolding split by (intro card_Un_disjoint finite_imageI) auto
  also have "card ((\<lambda>(i, j). (Suc i, Suc j)) ` ?old) = card ?old" by (rule card_image) (auto simp: inj_on_def)
  also have "card ((\<lambda>j. (0, Suc j)) ` ?new) = card ?new" by (rule card_image) (auto simp: inj_on_def)
  finally have "card ?all = card ?old + card ?new" .
  moreover have "length (filter (\<lambda>later. rank c = rank later) cs) = card ?new"
    by (simp add: length_filter_conv_card)
  ultimately show ?case using Cons.IH by simp
qed

text \<open>The longest stretch that ends a pegging run.\<close>

definition run_ending :: "(nat \<times> card) list \<Rightarrow> nat \<Rightarrow> bool" where
  "run_ending run n \<longleftrightarrow> (\<exists>k. (\<lambda>x. rank_number (rank (snd x))) ` set (drop (length run - n) run) = {k..<k + n})"

lemma run_ending_iff: "n \<le> length run \<Longrightarrow> makes_run (map snd (drop (length run - n) run)) \<longleftrightarrow> run_ending run n"
  unfolding makes_run_def sort_interval_iff by (simp add: run_ending_def comp_def image_image)

lemma find_rev_upt:
  "find P (rev [a..<b]) = Some n \<longleftrightarrow> a \<le> n \<and> n < b \<and> P n \<and> (\<forall>k. n < k \<and> k < b \<longrightarrow> \<not> P k)"
proof (induction b)
  case (Suc b)
  then show ?case by (cases "a \<le> b"; cases "P b") (auto simp: less_Suc_eq)
qed simp

section \<open>Properties\<close>

text \<open>
  C11. The count of a hand, in the words of the rules: two for every set of cards that makes
  fifteen, two for every pair of equal rank, the length of the longest run for every way of making it
  from the five cards, five for a flush of five and four for a flush of the four cards
  of a hand that is not the crib, and one for the jack of the starter's suit.
\<close>

theorem count_hand_exact:
  assumes "length cards = 4"
  shows
    "cc_fifteens (count_hand cards starter crib) =
       2 * card {S. S \<subseteq> {..<5} \<and> (\<Sum>i \<in> S. card_value ((cards @ [starter]) ! i)) = 15} \<and>
     cc_pairs (count_hand cards starter crib) =
       2 * card {(i, j). i < j \<and> j < 5 \<and> rank ((cards @ [starter]) ! i) = rank ((cards @ [starter]) ! j)} \<and>
     cc_runs (count_hand cards starter crib) =
       (if run_ways (cards @ [starter]) 5 \<noteq> {} then 5 * card (run_ways (cards @ [starter]) 5)
        else if run_ways (cards @ [starter]) 4 \<noteq> {} then 4 * card (run_ways (cards @ [starter]) 4)
        else 3 * card (run_ways (cards @ [starter]) 3)) \<and>
     cc_flush (count_hand cards starter crib) =
       (if \<exists>s. \<forall>c \<in> set (cards @ [starter]). suit c = s then 5
        else if (\<exists>s. \<forall>c \<in> set cards. suit c = s) \<and> \<not> crib then 4 else 0) \<and>
     cc_nobs (count_hand cards starter crib) = (if \<exists>c \<in> set cards. rank c = Jack \<and> suit c = suit starter then 1 else 0)"
proof -
  let ?cs = "cards @ [starter]"
  have len: "length ?cs = 5" using assms by simp
  have "length (filter (\<lambda>m. (\<Sum>i \<in> bits_of 5 m. card_value (?cs ! i)) = 15) [1..<2 ^ 5]) =
      card {S. S \<subseteq> {..<5} \<and> (\<Sum>i \<in> S. card_value (?cs ! i)) = 15}"
    by (rule card_masks) simp
  then have fifteens: "cc_fifteens (count_hand cards starter crib) =
       2 * card {S. S \<subseteq> {..<5} \<and> (\<Sum>i \<in> S. card_value (?cs ! i)) = 15}"
    unfolding count_hand_def Let_def sum_masked len by simp
  have fin: "finite (run_ways ?cs n)" for n
    by (rule finite_subset [of _ "Pow {..<5}"]) (use len in \<open>auto simp: run_ways_def\<close>)
  have runs: "length (filter (\<lambda>m. count_ones m = n \<and> makes_run (masked m ?cs)) [1..<2 ^ length ?cs]) = card (run_ways ?cs n)"
    if "0 < n" for n
    using card_run_ways [OF that, of ?cs] len by simp
  have "run_points ?cs =
    (case find (\<lambda>n. 0 < card (run_ways ?cs n)) [5, 4, 3] of None \<Rightarrow> 0 | Some n \<Rightarrow> card (run_ways ?cs n) * n)"
  proof -
    have "rev [3..<length ?cs + 1] = [5, 4, 3]" using len by (simp add: upt_rec)
    then show ?thesis unfolding run_points_def Let_def by (simp only: find.simps runs zero_less_numeral if_distrib [of "case_option _ _"] option.case)
  qed
  then have r: "run_points ?cs =
     (if run_ways ?cs 5 \<noteq> {} then 5 * card (run_ways ?cs 5)
      else if run_ways ?cs 4 \<noteq> {} then 4 * card (run_ways ?cs 4) else 3 * card (run_ways ?cs 3))"
    using fin by (simp add: card_gt_0_iff)
  obtain a rest where "cards = a # rest" using assms by (cases cards) auto
  then have flush: "(\<exists>s. \<forall>c \<in> set cards. suit c = s) \<longleftrightarrow> list_all (\<lambda>c. suit c = suit (hd cards)) cards"
    "(\<exists>s. \<forall>c \<in> set ?cs. suit c = s) \<longleftrightarrow> list_all (\<lambda>c. suit c = suit (hd cards)) cards \<and> suit starter = suit (hd cards)"
    by (auto simp: list_all_iff)
  have "cc_runs (count_hand cards starter crib) = run_points ?cs" "cc_pairs (count_hand cards starter crib) = pair_points ?cs"
    by (simp_all add: count_hand_def Let_def)
  with fifteens r pair_points_exact [of ?cs] len show ?thesis
    unfolding flush by (simp add: count_hand_def Let_def list_ex_iff)
qed

definition club_five :: card where "club_five = \<lparr>suit = Clubs, rank = Five\<rparr>"

text \<open>The perfect hand counts 29.\<close>

lemma count_hand_exact_witness:
  "cb_total (count_hand [club_five, \<lparr>suit = Diamonds, rank = Five\<rparr>, \<lparr>suit = Hearts, rank = Five\<rparr>, \<lparr>suit = Spades, rank = Jack\<rparr>]
      \<lparr>suit = Spades, rank = Five\<rparr> False) = 29 \<and>
   cc_fifteens (count_hand [club_five, \<lparr>suit = Diamonds, rank = Five\<rparr>, \<lparr>suit = Hearts, rank = Five\<rparr>, \<lparr>suit = Spades, rank = Jack\<rparr>]
      \<lparr>suit = Spades, rank = Five\<rparr> False) =
     2 * card {S. S \<subseteq> {..<5} \<and> (\<Sum>i \<in> S. card_value (([club_five, \<lparr>suit = Diamonds, rank = Five\<rparr>, \<lparr>suit = Hearts, rank = Five\<rparr>,
        \<lparr>suit = Spades, rank = Jack\<rparr>] @ [\<lparr>suit = Spades, rank = Five\<rparr>]) ! i)) = 15}"
proof -
  have "cb_total (count_hand [club_five, \<lparr>suit = Diamonds, rank = Five\<rparr>, \<lparr>suit = Hearts, rank = Five\<rparr>, \<lparr>suit = Spades, rank = Jack\<rparr>]
      \<lparr>suit = Spades, rank = Five\<rparr> False) = 29"
    by code_simp
  then show ?thesis
    using count_hand_exact [of "[club_five, \<lparr>suit = Diamonds, rank = Five\<rparr>, \<lparr>suit = Hearts, rank = Five\<rparr>, \<lparr>suit = Spades, rank = Jack\<rparr>]"
      "\<lparr>suit = Spades, rank = Five\<rparr>" False] by simp
qed

text \<open>
  What the last card of a pegging run scores: two for a count of fifteen, two for thirty-one,
  \<open>n * (n - 1)\<close> when the run ends with exactly \<open>n \<ge> 2\<close> cards of one rank, and the length of the longest
  stretch of at least three cards, ending with it, whose ranks are consecutive in some order.
\<close>

theorem pegging_points_exact:
  assumes "run \<noteq> []"
  shows "\<exists>same longest.
    pegging_points run tally =
      Some ((if tally = 15 then [(2, Fifteen)] else []) @ (if tally = 31 then [(2, ThirtyOne)] else []) @
        (if 2 \<le> same then [(same * (same - 1), PairOf (as_u8 same))] else []) @
        (if 3 \<le> longest then [(longest, RunOf (as_u8 longest))] else [])) \<and>
    1 \<le> same \<and> same \<le> length run \<and>
    (\<forall>c \<in> set (drop (length run - same) run). rank (snd c) = rank (snd (last run))) \<and>
    (same < length run \<longrightarrow> rank (snd (run ! (length run - same - 1))) \<noteq> rank (snd (last run))) \<and>
    (longest = 0 \<or> 3 \<le> longest \<and> longest \<le> length run \<and> run_ending run longest) \<and>
    (\<forall>n. 3 \<le> n \<and> longest < n \<and> n \<le> length run \<longrightarrow> \<not> run_ending run n)"
proof -
  let ?P = "\<lambda>(s, c). rank c = rank (snd (last run))"
  define same where "same = length (takeWhile ?P (rev run))"
  define found where "found = find (\<lambda>n. makes_run (map snd (drop (length run - n) run))) (rev [3..<length run + 1])"
  define longest where "longest = (case found of None \<Rightarrow> 0 | Some n \<Rightarrow> n)"
  have le: "same \<le> length run" using length_takeWhile_le [of ?P "rev run"] by (simp add: same_def)
  have tail: "takeWhile ?P (rev run) = rev (drop (length run - same) run)"
    using takeWhile_eq_take [of ?P "rev run"] by (simp add: same_def rev_drop [symmetric] take_rev)
  have all: "rank (snd c) = rank (snd (last run))" if "c \<in> set (drop (length run - same) run)" for c
  proof -
    from that have "c \<in> set (takeWhile ?P (rev run))" by (simp add: tail)
    then show ?thesis by (auto dest: set_takeWhileD)
  qed
  have stop: "rank (snd (run ! (length run - same - 1))) \<noteq> rank (snd (last run))" if "same < length run"
  proof -
    have "\<not> ?P (rev run ! same)" using that nth_length_takeWhile [of ?P "rev run"] by (simp add: same_def)
    then show ?thesis using that by (simp add: rev_nth split: prod.splits)
  qed
  obtain earlier where "rev run = last run # earlier" using assms hd_rev [of run] by (cases "rev run") auto
  then have "takeWhile ?P (rev run) \<noteq> []" by (cases "last run") simp
  then have pos: "1 \<le> same" by (simp add: same_def Suc_le_eq)
  have found_Some: "found = Some n \<longleftrightarrow> 3 \<le> n \<and> n \<le> length run \<and> run_ending run n \<and> (\<forall>k. n < k \<and> k \<le> length run \<longrightarrow> \<not> run_ending run k)" for n
    unfolding found_def find_rev_upt by (auto simp: run_ending_iff)
  have found_None: "found = None \<longleftrightarrow> (\<forall>n. 3 \<le> n \<and> n \<le> length run \<longrightarrow> \<not> run_ending run n)"
    unfolding found_def find_None_iff by (auto simp: run_ending_iff less_Suc_eq_le simp del: upt_Suc)
  have "pegging_points run tally =
      Some ((if tally = 15 then [(2, Fifteen)] else []) @ (if tally = 31 then [(2, ThirtyOne)] else []) @
        (if 2 \<le> same then [(same * (same - 1), PairOf (as_u8 same))] else []) @
        (if 3 \<le> longest then [(longest, RunOf (as_u8 longest))] else []))"
  proof -
    have "(case found of None \<Rightarrow> [] | Some len \<Rightarrow> [(len, RunOf (as_u8 len))]) = (if 3 \<le> longest then [(longest, RunOf (as_u8 longest))] else [])"
      using found_Some by (cases found) (auto simp: longest_def)
    then show ?thesis
      by (simp only: pegging_points_def Let_def assms if_False found_def [symmetric] same_def [symmetric] CB_MAX_COUNT_def)
  qed
  moreover have "longest = 0 \<or> 3 \<le> longest \<and> longest \<le> length run \<and> run_ending run longest"
    "\<forall>n. 3 \<le> n \<and> longest < n \<and> n \<le> length run \<longrightarrow> \<not> run_ending run n"
    using found_Some found_None by (auto simp: longest_def split: option.splits)
  ultimately show ?thesis using pos le all stop by blast
qed

lemma pegging_points_exact_witness:
  "pegging_points [(0, \<lparr>suit = Clubs, rank = Four\<rparr>), (1, \<lparr>suit = Clubs, rank = Six\<rparr>), (0, club_five)] 15 =
     Some [(2, Fifteen), (3, RunOf 3)] \<and>
   (\<exists>same longest. 1 \<le> same \<and> (longest = 0 \<or> 3 \<le> longest \<and> longest \<le> 3 \<and>
      run_ending [(0, \<lparr>suit = Clubs, rank = Four\<rparr>), (1, \<lparr>suit = Clubs, rank = Six\<rparr>), (0 :: nat, club_five)] longest) \<and>
      same \<le> (3 :: nat))"
proof -
  have "pegging_points [(0, \<lparr>suit = Clubs, rank = Four\<rparr>), (1, \<lparr>suit = Clubs, rank = Six\<rparr>), (0, club_five)] 15 =
     Some [(2, Fifteen), (3, RunOf 3)]"
    by code_simp
  then show ?thesis
    using pegging_points_exact [of "[(0, \<lparr>suit = Clubs, rank = Four\<rparr>), (1, \<lparr>suit = Clubs, rank = Six\<rparr>), (0, club_five)]" 15]
    by fastforce
qed


end
