(* ===== verification/Cribbage.thy ===== *)
theory Cribbage
  imports CribbageCount HandsMatch
begin

text \<open>
  The cribbage table and the stored match (\<open>late-ssh/src/app/lobby/daily/cribbage.rs\<close>): the deal, the discard, the pegging
  with its automatic go, the show and the race to 61, and the replay of the stored moves over the stored
  deals; then the invariant of a hand in play and its preservation by every move.
\<close>

section \<open>The table\<close>

text \<open>\<open>None\<close>: a deal too short to slice.\<close>

definition deal_table :: "nat \<Rightarrow> card list \<Rightarrow> (nat \<Rightarrow> nat) \<Rightarrow> cb_peg list \<Rightarrow> cb_show option \<Rightarrow> cb_table option" where
  "deal_table hand deal scores log last_show =
     (if length deal \<le> CB_STARTER_INDEX then None
      else let dealer = hand mod 2; pone = cb_other dealer
           in Some \<lparr>ct_scores = scores, ct_hand = hand, ct_dealer = dealer, ct_phase = CbDiscarding pone,
                    ct_hands = (\<lambda>_. [])(pone := take CB_DEALT deal, dealer := take CB_DEALT (drop CB_DEALT deal)),
                    ct_kept = (\<lambda>_. []), ct_crib = [], ct_starter = None, ct_count = 0, ct_run = [], ct_pegged = [],
                    ct_log = log, ct_last_show = last_show, ct_cut = deal ! CB_STARTER_INDEX, ct_last_player = None\<rparr>)"

definition ct_pone :: "cb_table \<Rightarrow> nat" where
  "ct_pone t = cb_other (ct_dealer t)"

definition ct_held :: "cb_table \<Rightarrow> nat \<Rightarrow> card list" where
  "ct_held t seat = sort_by_rank (ct_hands t seat)"

definition can_play :: "cb_table \<Rightarrow> nat \<Rightarrow> bool" where
  "can_play t seat \<longleftrightarrow> list_ex (\<lambda>c. ct_count t + card_value c \<le> CB_MAX_COUNT) (ct_hands t seat)"

text \<open>\<open>peg\<close>: whether the points end the match.\<close>

definition peg :: "cb_table \<Rightarrow> nat \<Rightarrow> nat \<Rightarrow> cb_why \<Rightarrow> bool \<times> cb_table" where
  "peg t seat points why =
     (if points = 0 then (False, t)
      else let t = t\<lparr>ct_scores := (ct_scores t)(seat := ct_scores t seat + points),
                     ct_log := ct_log t @ [\<lparr>pg_hand = ct_hand t, pg_seat = seat, pg_points = points, pg_why = why\<rparr>]\<rparr>
           in if ct_scores t seat \<ge> CB_WINNING_SCORE then (True, t\<lparr>ct_phase := CbWon seat\<rparr>) else (False, t))"

fun peg_all :: "cb_table \<Rightarrow> nat \<Rightarrow> (nat \<times> cb_why) list \<Rightarrow> bool \<times> cb_table" where
  "peg_all t seat [] = (False, t)"
| "peg_all t seat ((points, why) # rest) =
     (case peg t seat points why of (won, t) \<Rightarrow> if won then (True, t) else peg_all t seat rest)"

text \<open>The show: \<open>None\<close> for a hand without four cards or before the cut.\<close>

fun show_parts :: "cb_table \<Rightarrow> cb_show \<Rightarrow> (show_part \<times> nat \<times> card list) list \<Rightarrow> cb_table option" where
  "show_parts t shown [] = Some (t\<lparr>ct_last_show := Some shown, ct_phase := CbAwaitingDeal\<rparr>)"
| "show_parts t shown ((part, seat, cards) # rest) =
     (if length cards \<noteq> CB_KEPT then None
      else let counted = count_hand cards (sw_starter shown) (part = CribHand);
               shown = shown\<lparr>sw_parts := sw_parts shown @ [\<lparr>sh_part = part, sh_seat = seat, sh_cards = cards, sh_count = counted\<rparr>]\<rparr>
           in case peg t seat (cb_total counted) (Shown part) of
                (won, t) \<Rightarrow> if won then Some (t\<lparr>ct_last_show := Some shown\<rparr>) else show_parts t shown rest)"

definition show_hand :: "cb_table \<Rightarrow> cb_table option" where
  "show_hand t =
     Option.bind (ct_starter t) (\<lambda>starter.
       show_parts t \<lparr>sw_hand = ct_hand t, sw_starter = starter, sw_parts = []\<rparr>
         [(PoneHand, ct_pone t, ct_kept t (ct_pone t)), (DealerHand, ct_dealer t, ct_kept t (ct_dealer t)),
          (CribHand, ct_dealer t, ct_crib t)])"

text \<open>The loop of \<open>advance\<close>; a seat past 1 would underflow in \<open>other\<close>.\<close>

lemma card_value_le: "card_value c \<le> 10"
  by (simp add: card_value_def rank_value_number)

function advance :: "cb_table \<Rightarrow> nat \<Rightarrow> cb_table option" where
  "advance t latest =
     (if latest > 1 then None
      else if can_play t (cb_other latest) then Some (t\<lparr>ct_phase := CbPegging (cb_other latest)\<rparr>)
      else if can_play t latest then Some (t\<lparr>ct_phase := CbPegging latest\<rparr>)
      else
        let pegged_out = (ct_hands t 0 = [] \<and> ct_hands t 1 = []);
            (won, t) = (if ct_count t > 0 then peg t latest 1 (if pegged_out then LastCard else Go) else (False, t))
        in if won then Some t
           else if pegged_out then show_hand t
           else advance (t\<lparr>ct_count := 0, ct_run := []\<rparr>) latest)"
  by pat_completeness auto
termination
proof (relation "measure (\<lambda>(t, _). if ct_count t > 0 then 1 else 0)", simp)
  fix t :: cb_table and latest and pegged_out z won t'
  assume a: "\<not> latest > 1" "\<not> can_play t (cb_other latest)" "\<not> can_play t latest"
    "pegged_out = (ct_hands t 0 = [] \<and> ct_hands t 1 = [])" "\<not> pegged_out"
  have "ct_count t > 0"
  proof (rule ccontr)
    assume "\<not> ct_count t > 0"
    then have z: "ct_count t = 0" by simp
    have none: "\<not> can_play t seat \<Longrightarrow> ct_hands t seat = []" for seat
    proof (rule ccontr)
      assume n: "\<not> can_play t seat" "ct_hands t seat \<noteq> []"
      then have "hd (ct_hands t seat) \<in> set (ct_hands t seat)" by simp
      with n(1) z card_value_le [of "hd (ct_hands t seat)"] show False by (auto simp: can_play_def list_ex_iff)
    qed
    have "latest = 0 \<or> latest = 1" using a(1) by auto
    with none a(2-5) show False by (auto simp: cb_other_def)
  qed
  then show "((t'\<lparr>ct_count := 0, ct_run := []\<rparr>, latest), t, latest) \<in> measure (\<lambda>(t, _). if ct_count t > 0 then 1 else 0)"
    by simp
qed

declare advance.simps [simp del]

definition ct_step :: "cb_table \<Rightarrow> cb_move \<Rightarrow> (cb_error, cb_table) res" where
  "ct_step t played =
     (case ct_phase t of
        CbDiscarding seat \<Rightarrow>
          (case played of
             CbDiscard a b \<Rightarrow>
               ensure (a \<noteq> b) CbSameCards
               (ensure (a \<in> set (ct_hands t seat) \<and> b \<in> set (ct_hands t seat)) CbNotInHand
                 (let left = filter (\<lambda>c. c \<noteq> a \<and> c \<noteq> b) (ct_hands t seat);
                      t = t\<lparr>ct_hands := (ct_hands t)(seat := left), ct_crib := ct_crib t @ [a, b],
                            ct_kept := (ct_kept t)(seat := left)\<rparr>
                  in Ok (if seat = ct_pone t then t\<lparr>ct_phase := CbDiscarding (ct_dealer t)\<rparr>
                         else let t = t\<lparr>ct_starter := Some (ct_cut t), ct_phase := CbPegging (ct_pone t)\<rparr>
                              in if rank (ct_cut t) = Jack then snd (peg t (ct_dealer t) 2 HisHeels) else t)))
           | CbPlay c \<Rightarrow> Err CbDiscardFirst)
      | CbPegging seat \<Rightarrow>
          (case played of
             CbDiscard a b \<Rightarrow> Err CbCribFull
           | CbPlay c \<Rightarrow>
               ensure (c \<in> set (ct_hands t seat)) CbNotInHand
               (ensure (ct_count t + card_value c \<le> CB_MAX_COUNT) CbPast31
                 (let t = t\<lparr>ct_hands := (ct_hands t)(seat := filter (\<lambda>held. held \<noteq> c) (ct_hands t seat)),
                            ct_count := ct_count t + card_value c, ct_run := ct_run t @ [(seat, c)],
                            ct_pegged := ct_pegged t @ [(seat, c)], ct_last_player := Some seat\<rparr>
                  in expect (pegging_points (ct_run t) (ct_count t)) (\<lambda>scored.
                     case peg_all t seat scored of
                       (won, t) \<Rightarrow>
                         if won then Ok t
                         else let t = (if ct_count t = CB_MAX_COUNT then t\<lparr>ct_count := 0, ct_run := []\<rparr> else t)
                              in expect (advance t seat) Ok))))
      | CbAwaitingDeal \<Rightarrow> Err CbNotDealt
      | CbWon _ \<Rightarrow> Err CbMatchOver)"

section \<open>The stored match\<close>

function replay_from :: "card list list \<Rightarrow> cb_table \<Rightarrow> cb_move list \<Rightarrow> (cb_error, cb_table) res" where
  "replay_from deals t moves =
     (case ct_phase t of
        CbWon _ \<Rightarrow>
          ensure (moves = []) CbMovesAfterWin
          (ensure (ct_hand t + 1 = length deals) CbDealtAfterWin (Ok t))
      | CbAwaitingDeal \<Rightarrow>
          (case get_at deals (ct_hand t + 1) of
             Some deal \<Rightarrow>
               (case deal_table (ct_hand t + 1) deal (ct_scores t) (ct_log t) (ct_last_show t) of
                  None \<Rightarrow> Panic
                | Some t' \<Rightarrow> replay_from deals t' moves)
           | None \<Rightarrow> ensure (moves = []) CbMovesPastDeal (Ok t))
      | _ \<Rightarrow>
          (case moves of
             [] \<Rightarrow> Ok t
           | played # rest \<Rightarrow>
               (case ct_step t played of Ok t' \<Rightarrow> replay_from deals t' rest | Err e \<Rightarrow> Err e | Panic \<Rightarrow> Panic)))"
  by pat_completeness auto
termination
  by (relation "measure (\<lambda>(deals, t, moves). 2 * length moves + (if ct_phase t = CbAwaitingDeal then 1 else 0))")
    (auto simp: deal_table_def Let_def split: if_splits)

declare replay_from.simps [simp del]

definition cb_replay :: "cb_state \<Rightarrow> (cb_error, cb_table) res" where
  "cb_replay s =
     expect (get_at (cb_deals s) 0) (\<lambda>deal.
     expect (deal_table 0 deal (\<lambda>_. 0) [] None) (\<lambda>t.
       replay_from (cb_deals s) t (cb_moves s)))"

text \<open>\<open>table()\<close>: an error of the replay is a panic.\<close>

definition cb_table_of :: "cb_state \<Rightarrow> cb_table option" where
  "cb_table_of s = (case cb_replay s of Ok t \<Rightarrow> Some t | _ \<Rightarrow> None)"

definition cb_new :: "bool \<Rightarrow> (nat \<Rightarrow> nat) \<Rightarrow> uuid \<Rightarrow> uuid \<Rightarrow> cb_state" where
  "cb_new coin raw challenger claimer =
     \<lparr>cb_version = CB_STATE_VERSION, cb_revision = 0,
      cb_seats = (if coin then (challenger, claimer) else (claimer, challenger)),
      cb_deals = [shuffled_deck raw], cb_moves = []\<rparr>"

fun check_deals :: "card list list \<Rightarrow> (cb_error, unit) res" where
  "check_deals [] = Ok ()"
| "check_deals (deal # deals) =
     expect (is_whole_deck deal) (\<lambda>whole. ensure whole CbNotADeck (check_deals deals))"

definition cb_parse :: "cb_state option \<Rightarrow> (cb_error, cb_state) res" where
  "cb_parse decoded =
     (case decoded of
        None \<Rightarrow> Err CbCorrupt
      | Some s \<Rightarrow>
          ensure (cb_version s = CB_STATE_VERSION) (CbUnsupportedVersion (cb_version s))
          (ensure (cb_deals s \<noteq> []) CbNoDeal
          (rbind (check_deals (cb_deals s)) (\<lambda>_.
           rbind (cb_replay s) (\<lambda>t.
           ensure (ct_hand t + 1 = length (cb_deals s)) CbDealUnplayed (Ok s))))))"

definition cb_seat_of :: "cb_state \<Rightarrow> uuid \<Rightarrow> nat option" where
  "cb_seat_of s u = (if fst (cb_seats s) = u then Some 0 else if snd (cb_seats s) = u then Some 1 else None)"

definition cb_user_of :: "cb_state \<Rightarrow> nat \<Rightarrow> uuid" where
  "cb_user_of s seat = (if seat = 0 then fst (cb_seats s) else snd (cb_seats s))"

text \<open>\<open>Some None\<close>: nobody owes a move; \<open>None\<close>: a panic.\<close>

definition cb_turn_user :: "cb_state \<Rightarrow> uuid option option" where
  "cb_turn_user s =
     map_option (\<lambda>t. case ct_phase t of
         CbDiscarding seat \<Rightarrow> Some (cb_user_of s seat)
       | CbPegging seat \<Rightarrow> Some (cb_user_of s seat)
       | _ \<Rightarrow> None) (cb_table_of s)"

definition cb_move_count :: "cb_state \<Rightarrow> nat" where
  "cb_move_count s = length (cb_moves s)"

definition cb_apply_move :: "cb_state \<Rightarrow> cb_move \<Rightarrow> (cb_error, cb_state \<times> cb_outcome) res" where
  "cb_apply_move s played =
     expect (cb_table_of s) (\<lambda>t.
       rbind (case ct_phase t of
                CbDiscarding seat \<Rightarrow> Ok seat
              | CbPegging seat \<Rightarrow> Ok seat
              | CbAwaitingDeal \<Rightarrow> Err CbNotDealt
              | CbWon _ \<Rightarrow> Err CbMatchOver) (\<lambda>seat.
       rbind (ct_step t played) (\<lambda>t'.
         Ok (s\<lparr>cb_moves := cb_moves s @ [played]\<rparr>,
             \<lparr>co_seat = seat, co_played = played, co_pegs = drop (length (ct_log t)) (ct_log t'),
              co_scores = ct_scores t', co_phase = ct_phase t'\<rparr>))))"

definition cb_deal_next :: "(nat \<Rightarrow> nat) \<Rightarrow> cb_state \<Rightarrow> (cb_error, cb_state) res" where
  "cb_deal_next raw s =
     expect (cb_table_of s) (\<lambda>t.
       ensure (ct_phase t = CbAwaitingDeal) CbHandNotOver
         (Ok (s\<lparr>cb_deals := cb_deals s @ [shuffled_deck raw]\<rparr>)))"


section \<open>Points and books\<close>

text \<open>
  What a log of scores adds up to for a seat. The books are in order when the scores are the log's sums, no
  seat had reached 61 before the last entry, and the match is won by a seat exactly when that seat
  has reached 61.
\<close>

definition points_of :: "cb_peg list \<Rightarrow> nat \<Rightarrow> nat" where
  "points_of log seat = sum_list (map pg_points (filter (\<lambda>p. pg_seat p = seat) log))"

definition cb_books :: "cb_table \<Rightarrow> bool" where
  "cb_books t \<longleftrightarrow>
     ct_scores t = points_of (ct_log t) \<and>
     (\<forall>n < length (ct_log t). \<forall>seat. points_of (take n (ct_log t)) seat < 61) \<and>
     (\<forall>w. ct_phase t = CbWon w \<longleftrightarrow> 61 \<le> ct_scores t w) \<and>
     (\<forall>p \<in> set (ct_log t). pg_seat p \<le> 1 \<and> 0 < pg_points p)"

definition cb_live :: "cb_table \<Rightarrow> bool" where
  "cb_live t \<longleftrightarrow> cb_books t \<and> (\<forall>w. ct_phase t \<noteq> CbWon w)"

definition ct_rest :: "cb_table \<Rightarrow> cb_table" where
  "ct_rest t = t\<lparr>ct_scores := (\<lambda>_. 0), ct_log := [], ct_phase := CbAwaitingDeal\<rparr>"

definition tally :: "cb_table \<Rightarrow> nat" where
  "tally t = ct_scores t 0 + ct_scores t 1"

lemma points_of_simps [simp]:
  "points_of [] seat = 0"
  "points_of (log @ [p]) seat = points_of log seat + (if pg_seat p = seat then pg_points p else 0)"
  by (simp_all add: points_of_def)

lemma ct_rest_fields:
  assumes "ct_rest t' = ct_rest t"
  shows "ct_hand t' = ct_hand t" "ct_dealer t' = ct_dealer t" "ct_hands t' = ct_hands t" "ct_kept t' = ct_kept t"
    "ct_crib t' = ct_crib t" "ct_starter t' = ct_starter t" "ct_count t' = ct_count t" "ct_run t' = ct_run t"
    "ct_pegged t' = ct_pegged t" "ct_last_show t' = ct_last_show t" "ct_cut t' = ct_cut t" "ct_last_player t' = ct_last_player t"
  using arg_cong [OF assms, of ct_hand]
    arg_cong [OF assms, of ct_dealer]
    arg_cong [OF assms, of ct_hands]
    arg_cong [OF assms, of ct_kept]
    arg_cong [OF assms, of ct_crib]
    arg_cong [OF assms, of ct_starter]
    arg_cong [OF assms, of ct_count]
    arg_cong [OF assms, of ct_run]
    arg_cong [OF assms, of ct_pegged]
    arg_cong [OF assms, of ct_last_show]
    arg_cong [OF assms, of ct_cut]
    arg_cong [OF assms, of ct_last_player]
  by (simp_all add: ct_rest_def)

lemma cb_live_iff: "cb_live t \<longleftrightarrow> cb_books t \<and> (\<forall>seat. ct_scores t seat < 61)"
proof -
  have "cb_books t \<Longrightarrow> ct_phase t = CbWon w \<longleftrightarrow> \<not> ct_scores t w < 61" for w by (simp add: cb_books_def not_less)
  then show ?thesis by (auto simp: cb_live_def)
qed

text \<open>Nothing else of the table enters the books.\<close>

lemma cb_books_cong:
  "ct_scores t' = ct_scores t \<Longrightarrow> ct_log t' = ct_log t \<Longrightarrow> ct_phase t' = ct_phase t \<Longrightarrow> cb_books t' = cb_books t"
  by (simp add: cb_books_def)

lemma cb_live_cong:
  assumes "ct_scores t' = ct_scores t" and "ct_log t' = ct_log t" and "\<forall>w. ct_phase t' \<noteq> CbWon w"
  shows "cb_live t \<Longrightarrow> cb_live t'"
  using assms by (auto simp: cb_live_def cb_books_def)

lemma peg_spec:
  assumes live: "cb_live t" and seat: "seat \<le> 1" and peg: "peg t seat points why = (won, t')"
  shows "cb_books t' \<and> ct_rest t' = ct_rest t \<and> (\<exists>ps. ct_log t' = ct_log t @ ps) \<and>
    (if won then ct_phase t' = CbWon seat else cb_live t' \<and> ct_phase t' = ct_phase t) \<and>
    tally t' = tally t + points"
proof (cases "points = 0")
  case True
  with assms show ?thesis by (auto simp: peg_def cb_live_def)
next
  case False
  let ?p = "\<lparr>pg_hand = ct_hand t, pg_seat = seat, pg_points = points, pg_why = why\<rparr>"
  let ?u = "t\<lparr>ct_scores := (ct_scores t)(seat := ct_scores t seat + points), ct_log := ct_log t @ [?p]\<rparr>"
  have sc: "ct_scores t = points_of (ct_log t)" and below: "\<And>s. ct_scores t s < 61"
    and early: "\<And>n s. n < length (ct_log t) \<Longrightarrow> points_of (take n (ct_log t)) s < 61"
    and good: "\<forall>p \<in> set (ct_log t). pg_seat p \<le> 1 \<and> 0 < pg_points p"
    using live by (auto simp: cb_live_iff cb_books_def)
  have scores: "ct_scores ?u = points_of (ct_log ?u)" using sc by (auto simp: fun_eq_iff)
  have prefix: "points_of (take n (ct_log ?u)) s < 61" if "n < length (ct_log ?u)" for n s
  proof (cases "n = length (ct_log t)")
    case True
    then show ?thesis using below [of s] sc by simp
  next
    case False
    with that early [of n s] show ?thesis by simp
  qed
  have t': "(won, t') = (if 61 \<le> ct_scores ?u seat then (True, ?u\<lparr>ct_phase := CbWon seat\<rparr>) else (False, ?u))"
    using peg False by (simp add: peg_def Let_def)
  have "seat = 0 \<or> seat = 1" using seat by auto
  then have tal: "tally t' = tally t + points" using t' by (auto simp: tally_def split: if_splits)
  show ?thesis
  proof (cases "61 \<le> ct_scores ?u seat")
    case True
    with t' have w: "won" "t' = ?u\<lparr>ct_phase := CbWon seat\<rparr>" by auto
    have "CbWon seat = CbWon w \<longleftrightarrow> 61 \<le> ct_scores ?u w" for w
      using True below [of w] by auto
    then have "cb_books t'" using scores prefix good seat False w(2) by (auto simp: cb_books_def)
    with w tal show ?thesis by (simp add: ct_rest_def)
  next
    case no: False
    with t' have w: "\<not> won" "t' = ?u" by auto
    have "ct_phase t = CbWon w \<longleftrightarrow> 61 \<le> ct_scores ?u w" for w
      using no below [of w] live by (auto simp: cb_live_def)
    then have b: "cb_books t'" using scores prefix good seat False w(2) by (auto simp: cb_books_def)
    with live w tal show ?thesis by (simp add: ct_rest_def cb_live_def)
  qed
qed

lemma peg_all_spec:
  "cb_live t \<Longrightarrow> seat \<le> 1 \<Longrightarrow> peg_all t seat scored = (won, t') \<Longrightarrow>
    cb_books t' \<and> ct_rest t' = ct_rest t \<and> (\<exists>ps. ct_log t' = ct_log t @ ps) \<and>
    (if won then ct_phase t' = CbWon seat else cb_live t' \<and> ct_phase t' = ct_phase t \<and> tally t' = tally t + sum_list (map fst scored)) \<and>
    tally t \<le> tally t'"
proof (induction scored arbitrary: t)
  case Nil
  then show ?case by (auto simp: cb_live_def)
next
  case (Cons a scored)
  obtain points why where a: "a = (points, why)" by (cases a)
  obtain w u where u: "peg t seat points why = (w, u)" by (cases "peg t seat points why")
  note p = peg_spec [OF Cons.prems(1,2) u]
  show ?case
  proof (cases w)
    case True
    with Cons.prems(3) u a p show ?thesis by auto
  next
    case False
    with Cons.prems(3) u a have r: "peg_all u seat scored = (won, t')" by simp
    from False p have "cb_live u" by simp
    from Cons.IH [OF this Cons.prems(2) r] False p a show ?thesis by auto
  qed
qed


section \<open>The invariant of a hand\<close>

text \<open>
  A table in the course of a hand dealt from \<open>deal\<close>. The first twelve cards of the deal are always
  the cards in hand, pegged and in the crib. While the pegging runs, the four cards each player kept
  are those still in hand and those that player pegged, the count is the value of the run and at most
  31, and the player to move can play. \<open>played_cards\<close> counts the moves of the hand, at most ten.
\<close>

definition pegged_by :: "cb_table \<Rightarrow> nat \<Rightarrow> card list" where
  "pegged_by t seat = map snd (filter (\<lambda>(s, _). s = seat) (ct_pegged t))"

definition played_cards :: "cb_table \<Rightarrow> nat" where
  "played_cards t = length (ct_crib t) div 2 + length (ct_pegged t)"

lemma played_cards_fields [simp]:
  "played_cards (t\<lparr>ct_phase := p\<rparr>) = played_cards t" "played_cards (t\<lparr>ct_starter := s\<rparr>) = played_cards t"
  "played_cards (t\<lparr>ct_count := n\<rparr>) = played_cards t" "played_cards (t\<lparr>ct_run := r\<rparr>) = played_cards t"
  by (simp_all add: played_cards_def)

definition cb_dealt :: "card list \<Rightarrow> cb_table \<Rightarrow> bool" where
  "cb_dealt deal t \<longleftrightarrow>
     ct_dealer t = ct_hand t mod 2 \<and> ct_cut t = deal ! 12 \<and> ct_hand t \<le> 120 \<and> played_cards t \<le> 10 \<and>
     mset (ct_hands t 0) + mset (ct_hands t 1) + mset (map snd (ct_pegged t)) + mset (ct_crib t) = mset (take 12 deal)"

definition cb_pegging :: "cb_table \<Rightarrow> bool" where
  "cb_pegging t \<longleftrightarrow>
     ct_starter t = Some (ct_cut t) \<and> length (ct_crib t) = 4 \<and>
     (\<forall>seat \<le> 1. length (ct_kept t seat) = 4 \<and> mset (ct_kept t seat) = mset (ct_hands t seat) + mset (pegged_by t seat)) \<and>
     (\<forall>x \<in> set (ct_pegged t). fst x \<le> 1) \<and>
     ct_count t = sum_list (map (\<lambda>x. card_value (snd x)) (ct_run t)) \<and> ct_count t \<le> 31 \<and>
     (\<exists>before. ct_pegged t = before @ ct_run t)"

definition cb_shown :: "cb_table \<Rightarrow> cb_show \<Rightarrow> bool" where
  "cb_shown t sh \<longleftrightarrow>
     sw_hand sh = ct_hand t \<and> sw_starter sh = ct_cut t \<and>
     sw_parts sh =
       [\<lparr>sh_part = PoneHand, sh_seat = ct_pone t, sh_cards = ct_kept t (ct_pone t),
         sh_count = count_hand (ct_kept t (ct_pone t)) (ct_cut t) False\<rparr>,
        \<lparr>sh_part = DealerHand, sh_seat = ct_dealer t, sh_cards = ct_kept t (ct_dealer t),
         sh_count = count_hand (ct_kept t (ct_dealer t)) (ct_cut t) False\<rparr>,
        \<lparr>sh_part = CribHand, sh_seat = ct_dealer t, sh_cards = ct_crib t,
         sh_count = count_hand (ct_crib t) (ct_cut t) True\<rparr>]"

definition cb_stage :: "cb_table \<Rightarrow> bool" where
  "cb_stage t \<longleftrightarrow>
     (case ct_phase t of
        CbDiscarding seat \<Rightarrow>
          ct_pegged t = [] \<and> ct_run t = [] \<and> ct_count t = 0 \<and> ct_starter t = None \<and> length (ct_hands t (ct_dealer t)) = 6 \<and>
          (if seat = ct_pone t then length (ct_hands t seat) = 6 \<and> ct_crib t = []
           else seat = ct_dealer t \<and> length (ct_hands t (ct_pone t)) = 4 \<and> ct_kept t (ct_pone t) = ct_hands t (ct_pone t) \<and>
                length (ct_crib t) = 2)
      | CbPegging seat \<Rightarrow> seat \<le> 1 \<and> cb_pegging t \<and> can_play t seat
      | CbAwaitingDeal \<Rightarrow>
          cb_pegging t \<and> ct_hands t 0 = [] \<and> ct_hands t 1 = [] \<and> ct_hand t < tally t \<and>
          (\<exists>sh. ct_last_show t = Some sh \<and> cb_shown t sh)
      | CbWon w \<Rightarrow> w \<le> 1)"

definition cb_table_ok :: "card list \<Rightarrow> cb_table \<Rightarrow> bool" where
  "cb_table_ok deal t \<longleftrightarrow> cb_books t \<and> cb_dealt deal t \<and> cb_stage t \<and> ct_hand t \<le> tally t"

text \<open>The show.\<close>

lemma count_total_nat: "tally (t\<lparr>ct_last_show := s, ct_phase := p\<rparr>) = tally t"
  by (simp add: tally_def)

definition ct_hidden :: "cb_table \<Rightarrow> cb_table" where
  "ct_hidden t = ct_rest (t\<lparr>ct_last_show := None\<rparr>)"

lemma ct_hidden_rest: "ct_rest t' = ct_rest t \<Longrightarrow> ct_hidden t' = ct_hidden t"
  using ct_rest_fields [of t' t] by (cases t; cases t') (simp add: ct_hidden_def ct_rest_def)

lemma show_parts_spec:
  "cb_live t \<Longrightarrow> \<forall>(part, seat, cards) \<in> set parts. seat \<le> 1 \<and> length cards = 4 \<Longrightarrow>
   \<exists>t'. show_parts t shown parts = Some t' \<and> cb_books t' \<and> ct_hidden t' = ct_hidden t \<and> tally t \<le> tally t' \<and>
     (\<exists>ps. ct_log t' = ct_log t @ ps) \<and>
     (if \<exists>w. ct_phase t' = CbWon w then \<exists>w \<le> 1. ct_phase t' = CbWon w
      else ct_phase t' = CbAwaitingDeal \<and>
        ct_last_show t' = Some (shown\<lparr>sw_parts := sw_parts shown @ map (\<lambda>(part, seat, cards).
          \<lparr>sh_part = part, sh_seat = seat, sh_cards = cards, sh_count = count_hand cards (sw_starter shown) (part = CribHand)\<rparr>) parts\<rparr>))"
proof (induction parts arbitrary: t shown)
  case Nil
  then show ?case by (auto simp: ct_hidden_def ct_rest_def count_total_nat cb_live_def cb_books_def)
next
  case (Cons a parts)
  obtain part seat cards where a: "a = (part, seat, cards)" by (cases a)
  with Cons.prems(2) have seat: "seat \<le> 1" and len: "length cards = 4" by auto
  let ?counted = "count_hand cards (sw_starter shown) (part = CribHand)"
  let ?shown = "shown\<lparr>sw_parts := sw_parts shown @ [\<lparr>sh_part = part, sh_seat = seat, sh_cards = cards, sh_count = ?counted\<rparr>]\<rparr>"
  obtain won u where u: "peg t seat (cb_total ?counted) (Shown part) = (won, u)" by (cases "peg t seat (cb_total ?counted) (Shown part)")
  note p = peg_spec [OF Cons.prems(1) seat u]
  show ?case
  proof (cases won)
    case True
    let ?t = "u\<lparr>ct_last_show := Some ?shown\<rparr>"
    have "show_parts t shown (a # parts) = Some ?t" using a len u True by (simp add: Let_def)
    moreover have "cb_books ?t" using p cb_books_cong [of ?t u] by simp
    moreover have "ct_hidden ?t = ct_hidden t" using ct_hidden_rest [of u t] p by (simp add: ct_hidden_def)
    ultimately show ?thesis using p True seat by (auto simp: tally_def)
  next
    case False
    with p have live: "cb_live u" by simp
    have s: "show_parts t shown (a # parts) = show_parts u ?shown parts" using a len u False by (simp add: Let_def)
    from Cons.IH [OF live, of ?shown] Cons.prems(2) obtain t' where t': "show_parts u ?shown parts = Some t'" "cb_books t'"
      "ct_hidden t' = ct_hidden u" "tally u \<le> tally t'" "\<exists>ps. ct_log t' = ct_log u @ ps"
      "if \<exists>w. ct_phase t' = CbWon w then \<exists>w \<le> 1. ct_phase t' = CbWon w
      else ct_phase t' = CbAwaitingDeal \<and>
        ct_last_show t' = Some (?shown\<lparr>sw_parts := sw_parts ?shown @ map (\<lambda>(part, seat, cards).
          \<lparr>sh_part = part, sh_seat = seat, sh_cards = cards, sh_count = count_hand cards (sw_starter ?shown) (part = CribHand)\<rparr>) parts\<rparr>)"
      by auto
    have "ct_hidden t' = ct_hidden t" using t'(3) ct_hidden_rest [of u t] p by simp
    moreover have "\<exists>ps. ct_log t' = ct_log t @ ps" using t'(5) p by auto
    moreover have "tally t \<le> tally t'" using t'(4) p by simp
    ultimately show ?thesis using s t'(1,2,6) a by (intro exI [of _ t']) (simp split: if_splits)
  qed
qed


definition ct_same_hand :: "cb_table \<Rightarrow> cb_table \<Rightarrow> bool" where
  "ct_same_hand t t' \<longleftrightarrow>
     ct_hand t' = ct_hand t \<and> ct_dealer t' = ct_dealer t \<and> ct_cut t' = ct_cut t \<and> ct_hands t' = ct_hands t \<and>
     ct_kept t' = ct_kept t \<and> ct_crib t' = ct_crib t \<and> ct_pegged t' = ct_pegged t \<and> ct_starter t' = ct_starter t \<and>
     (\<exists>ps. ct_log t' = ct_log t @ ps) \<and> tally t \<le> tally t'"

lemma ct_hidden_fields:
  assumes "ct_hidden t' = ct_hidden t"
  shows "ct_hand t' = ct_hand t" "ct_dealer t' = ct_dealer t" "ct_hands t' = ct_hands t" "ct_kept t' = ct_kept t"
    "ct_crib t' = ct_crib t" "ct_starter t' = ct_starter t" "ct_count t' = ct_count t" "ct_run t' = ct_run t"
    "ct_pegged t' = ct_pegged t" "ct_cut t' = ct_cut t" "ct_last_player t' = ct_last_player t"
  using ct_rest_fields [OF assms [unfolded ct_hidden_def]] by simp_all

lemma ct_same_hand_trans: "ct_same_hand t u \<Longrightarrow> ct_same_hand u v \<Longrightarrow> ct_same_hand t v"
  by (auto simp: ct_same_hand_def)

lemma ct_same_hand_dealt: "ct_same_hand t t' \<Longrightarrow> cb_dealt deal t \<Longrightarrow> cb_dealt deal t'"
  by (simp add: ct_same_hand_def cb_dealt_def played_cards_def)

lemma cb_pegging_cong:
  assumes "ct_starter t' = ct_starter t" "ct_cut t' = ct_cut t" "ct_crib t' = ct_crib t" "ct_kept t' = ct_kept t"
    "ct_hands t' = ct_hands t" "ct_pegged t' = ct_pegged t"
    and "ct_count t' = ct_count t \<and> ct_run t' = ct_run t \<or> ct_count t' = 0 \<and> ct_run t' = []"
  shows "cb_pegging t \<Longrightarrow> cb_pegging t'"
  using assms by (auto simp: cb_pegging_def pegged_by_def)

lemma show_hand_spec:
  assumes live: "cb_live t" and p: "cb_pegging t" and d: "cb_dealt deal t" and e: "ct_hands t 0 = []" "ct_hands t 1 = []"
    and tl: "ct_hand t < tally t"
  shows "\<exists>t'. show_hand t = Some t' \<and> cb_table_ok deal t' \<and> ct_same_hand t t' \<and> (\<exists>s. ct_phase t' = CbAwaitingDeal \<or> ct_phase t' = CbWon s)"
proof -
  let ?parts = "[(PoneHand, ct_pone t, ct_kept t (ct_pone t)), (DealerHand, ct_dealer t, ct_kept t (ct_dealer t)), (CribHand, ct_dealer t, ct_crib t)]"
  let ?shown = "\<lparr>sw_hand = ct_hand t, sw_starter = ct_cut t, sw_parts = []\<rparr>"
  have dl: "ct_dealer t \<le> 1" "ct_pone t \<le> 1" using d by (auto simp: cb_dealt_def ct_pone_def cb_other_def)
  then have "\<forall>(part, seat, cards) \<in> set ?parts. seat \<le> 1 \<and> length cards = 4" using p by (simp add: cb_pegging_def)
  from show_parts_spec [OF live this, of ?shown] obtain t' where t': "show_parts t ?shown ?parts = Some t'" "cb_books t'"
    "ct_hidden t' = ct_hidden t" "tally t \<le> tally t'" "\<exists>ps. ct_log t' = ct_log t @ ps"
    "if \<exists>w. ct_phase t' = CbWon w then \<exists>w \<le> 1. ct_phase t' = CbWon w
      else ct_phase t' = CbAwaitingDeal \<and>
        ct_last_show t' = Some (?shown\<lparr>sw_parts := sw_parts ?shown @ map (\<lambda>(part, seat, cards).
          \<lparr>sh_part = part, sh_seat = seat, sh_cards = cards, sh_count = count_hand cards (sw_starter ?shown) (part = CribHand)\<rparr>) ?parts\<rparr>)"
    by blast
  note f = ct_hidden_fields [OF t'(3)]
  have same: "ct_same_hand t t'" using f t'(4,5) by (simp add: ct_same_hand_def)
  have p': "cb_pegging t'" using f p cb_pegging_cong [of t' t] by simp
  have s: "show_hand t = Some t'" using t'(1) p by (simp add: show_hand_def cb_pegging_def)
  have stage: "cb_stage t'"
  proof (cases "\<exists>w. ct_phase t' = CbWon w")
    case True
    with t'(6) show ?thesis by (auto simp: cb_stage_def)
  next
    case False
    with t'(6) have "ct_phase t' = CbAwaitingDeal" "\<exists>sh. ct_last_show t' = Some sh \<and> cb_shown t' sh"
      using f by (auto simp: cb_shown_def ct_pone_def)
    with p' e f tl t'(4) show ?thesis by (simp add: cb_stage_def)
  qed
  have "cb_table_ok deal t'"
    using t'(2,4) stage ct_same_hand_dealt [OF same d] tl f by (simp add: cb_table_ok_def)
  with s same t'(6) show ?thesis by (auto split: if_splits)
qed

lemma no_play_empty: "ct_count t = 0 \<Longrightarrow> \<not> can_play t seat \<Longrightarrow> ct_hands t seat = []"
  using le_trans [OF card_value_le] by (cases "ct_hands t seat") (auto simp: can_play_def)

text \<open>The play goes on, is won, or the hand is shown; it never stops elsewhere.\<close>

lemma advance_fresh:
  assumes live: "cb_live t" and p: "cb_pegging t" and d: "cb_dealt deal t" and l: "latest \<le> 1" and z: "ct_count t = 0"
    and tl: "ct_hand t < tally t \<or> (\<exists>seat \<le> 1. ct_hands t seat \<noteq> []) \<and> ct_hand t \<le> tally t"
  shows "\<exists>t'. advance t latest = Some t' \<and> cb_table_ok deal t' \<and> ct_same_hand t t' \<and> (\<forall>s. ct_phase t' \<noteq> CbDiscarding s)"
proof -
  have goes: "cb_table_ok deal (t\<lparr>ct_phase := CbPegging s\<rparr>) \<and> ct_same_hand t (t\<lparr>ct_phase := CbPegging s\<rparr>)"
    if "can_play t s" and "s \<le> 1" for s
  proof -
    let ?u = "t\<lparr>ct_phase := CbPegging s\<rparr>"
    have "cb_live ?u" using cb_live_cong [OF _ _ _ live, of ?u] by simp
    moreover have "cb_pegging ?u" using cb_pegging_cong [OF _ _ _ _ _ _ _ p, of ?u] by simp
    ultimately show ?thesis using that d tl
      by (auto simp: cb_table_ok_def cb_live_def cb_stage_def can_play_def cb_dealt_def ct_same_hand_def tally_def)
  qed
  have o: "cb_other latest \<le> 1" by (simp add: cb_other_def)
  consider "can_play t (cb_other latest)" | "\<not> can_play t (cb_other latest)" "can_play t latest"
    | "\<not> can_play t (cb_other latest)" "\<not> can_play t latest" by blast
  then show ?thesis
  proof cases
    case 1
    with l goes [OF 1 o] show ?thesis by (subst advance.simps) auto
  next
    case 2
    with l goes [OF 2(2) l] show ?thesis by (subst advance.simps) auto
  next
    case 3
    then have e: "ct_hands t latest = []" "ct_hands t (cb_other latest) = []" using no_play_empty [OF z] by simp_all
    have "latest = 0 \<or> latest = 1" using l by auto
    with e have e01: "ct_hands t 0 = []" "ct_hands t 1 = []" by (auto simp: cb_other_def)
    have "s = 0 \<or> s = 1" if "s \<le> 1" for s :: nat using that by auto
    with tl e01 have "ct_hand t < tally t" by fastforce
    from show_hand_spec [OF live p d e01 this] obtain t' s where t': "show_hand t = Some t'" "cb_table_ok deal t'"
      "ct_same_hand t t'" "ct_phase t' = CbAwaitingDeal \<or> ct_phase t' = CbWon s" by blast
    have "advance t latest = show_hand t" using 3 l z e01 by (subst advance.simps) simp
    with t' show ?thesis by auto
  qed
qed

lemma advance_spec:
  assumes live: "cb_live t" and p: "cb_pegging t" and d: "cb_dealt deal t" and l: "latest \<le> 1"
    and tl: "ct_hand t \<le> tally t" "ct_count t = 0 \<Longrightarrow> ct_hand t < tally t"
  shows "\<exists>t'. advance t latest = Some t' \<and> cb_table_ok deal t' \<and> ct_same_hand t t' \<and> (\<forall>s. ct_phase t' \<noteq> CbDiscarding s)"
proof (cases "ct_count t = 0 \<or> can_play t (cb_other latest) \<or> can_play t latest")
  case True
  show ?thesis
  proof (cases "ct_count t = 0")
    case z: True
    from advance_fresh [OF live p d l z] tl(2) [OF z] show ?thesis by blast
  next
    case False
    define s where "s = (if can_play t (cb_other latest) then cb_other latest else latest)"
    let ?u = "t\<lparr>ct_phase := CbPegging s\<rparr>"
    have "s \<le> 1" "can_play t s" using True False l by (auto simp: s_def cb_other_def)
    moreover have "cb_live ?u" using cb_live_cong [OF _ _ _ live, of ?u] by simp
    moreover have "cb_pegging ?u" using cb_pegging_cong [OF _ _ _ _ _ _ _ p, of ?u] by simp
    ultimately have "cb_table_ok deal ?u \<and> ct_same_hand t ?u" using d tl
      by (auto simp: cb_table_ok_def cb_live_def cb_stage_def can_play_def cb_dealt_def ct_same_hand_def tally_def)
    moreover have "advance t latest = Some ?u" using True False l by (subst advance.simps) (auto simp: s_def)
    ultimately show ?thesis by auto
  qed
next
  case False
  then have c: "ct_count t > 0" "\<not> can_play t (cb_other latest)" "\<not> can_play t latest" by auto
  let ?out = "ct_hands t 0 = [] \<and> ct_hands t 1 = []"
  obtain won u where u: "peg t latest 1 (if ?out then LastCard else Go) = (won, u)"
    by (cases "peg t latest 1 (if ?out then LastCard else Go)")
  note ps = peg_spec [OF live l u]
  then have f: "ct_rest u = ct_rest t" by simp
  note f = ct_rest_fields [OF f]
  have same: "ct_same_hand t u" using f ps by (simp add: ct_same_hand_def)
  have step: "advance t latest = (if won then Some u else if ?out then show_hand u else advance (u\<lparr>ct_count := 0, ct_run := []\<rparr>) latest)"
    using c l u f by (subst advance.simps) simp
  have tl': "ct_hand u < tally u" using ps tl(1) f by simp
  have d': "cb_dealt deal u" by (rule ct_same_hand_dealt [OF same d])
  have p': "cb_pegging u" using f p cb_pegging_cong [of u t] by simp
  consider (won) won | (out) "\<not> won" ?out | (on) "\<not> won" "\<not> ?out" by blast
  then show ?thesis
  proof cases
    case won
    with ps have "ct_phase u = CbWon latest" "cb_books u" by simp_all
    with l d' tl' have "cb_table_ok deal u" by (simp add: cb_table_ok_def cb_stage_def)
    with step won same \<open>ct_phase u = CbWon latest\<close> show ?thesis by simp
  next
    case out
    with ps have live': "cb_live u" by simp
    from out f have "ct_hands u 0 = []" "ct_hands u 1 = []" by simp_all
    from show_hand_spec [OF live' p' d' this tl'] obtain t' s where t': "show_hand u = Some t'" "cb_table_ok deal t'"
      "ct_same_hand u t'" "ct_phase t' = CbAwaitingDeal \<or> ct_phase t' = CbWon s" by blast
    with step out ct_same_hand_trans [OF same t'(3)] show ?thesis by auto
  next
    case on
    let ?v = "u\<lparr>ct_count := 0, ct_run := []\<rparr>"
    from on ps have live': "cb_live u" by simp
    have "cb_live ?v" using cb_live_cong [OF _ _ _ live', of ?v] live' by (simp add: cb_live_def)
    moreover have pv: "cb_pegging ?v" using cb_pegging_cong [OF _ _ _ _ _ _ _ p', of ?v] by simp
    moreover have sv: "ct_same_hand u ?v" by (simp add: ct_same_hand_def tally_def)
    moreover have "cb_dealt deal ?v" using ct_same_hand_dealt [OF sv d'] .
    moreover have "ct_hand ?v < tally ?v" using tl' by (simp add: tally_def)
    ultimately obtain t' where t': "advance ?v latest = Some t'" "cb_table_ok deal t'" "ct_same_hand ?v t'"
      "\<forall>s. ct_phase t' \<noteq> CbDiscarding s"
      using advance_fresh [OF _ _ _ l, of ?v deal] by auto
    from ct_same_hand_trans [OF ct_same_hand_trans [OF same sv] t'(3)] step on t' show ?thesis by auto
  qed
qed


section \<open>One move\<close>

lemma mset_drop_two:
  assumes "distinct xs" and "a \<in> set xs" and "b \<in> set xs" and "a \<noteq> b"
  shows "mset (filter (\<lambda>c. c \<noteq> a \<and> c \<noteq> b) xs) + {#a, b#} = mset xs"
proof -
  let ?ys = "filter (\<lambda>c. c \<noteq> a) xs"
  have "filter (\<lambda>c. c \<noteq> a \<and> c \<noteq> b) xs = filter (\<lambda>c. c \<noteq> b) ?ys" by simp
  moreover have "add_mset b (mset (filter (\<lambda>c. c \<noteq> b) ?ys)) = mset ?ys" by (rule mset_drop_one) (use assms in auto)
  moreover have "add_mset a (mset ?ys) = mset xs" by (rule mset_drop_one) (use assms in auto)
  ultimately show ?thesis by (metis add_mset_add_single union_mset_add_mset_right empty_neutral(2) union_commute)
qed

text \<open>The cards of a hand in play are distinct.\<close>

lemma cb_hand_distinct:
  assumes "cb_dealt deal t" and "distinct deal" and "seat \<le> 1"
  shows "distinct (ct_hands t seat)"
proof -
  have "mset (take 12 deal) = mset (ct_hands t 0) + (mset (ct_hands t 1) + (mset (map snd (ct_pegged t)) + mset (ct_crib t)))"
    using assms(1) by (simp add: cb_dealt_def ac_simps)
  then have "mset (ct_hands t 0) \<subseteq># mset (take 12 deal)" "mset (ct_hands t 1) \<subseteq># mset (take 12 deal)"
    by (simp_all add: subset_mset.add_increasing)
  moreover have "seat = 0 \<or> seat = 1" using assms(3) by auto
  ultimately have "mset (ct_hands t seat) \<subseteq># mset (take 12 deal)" by auto
  moreover have "distinct (take 12 deal)" using assms(2) by simp
  ultimately show ?thesis using distinct_sub_mset by blast
qed

definition discarded :: "cb_table \<Rightarrow> nat \<Rightarrow> card \<Rightarrow> card \<Rightarrow> cb_table" where
  "discarded t seat a b =
     (let left = filter (\<lambda>c. c \<noteq> a \<and> c \<noteq> b) (ct_hands t seat)
      in t\<lparr>ct_hands := (ct_hands t)(seat := left), ct_crib := ct_crib t @ [a, b], ct_kept := (ct_kept t)(seat := left)\<rparr>)"

definition put_down :: "cb_table \<Rightarrow> nat \<Rightarrow> card \<Rightarrow> cb_table" where
  "put_down t seat c =
     t\<lparr>ct_hands := (ct_hands t)(seat := filter (\<lambda>held. held \<noteq> c) (ct_hands t seat)),
       ct_count := ct_count t + card_value c, ct_run := ct_run t @ [(seat, c)],
       ct_pegged := ct_pegged t @ [(seat, c)], ct_last_player := Some seat\<rparr>"

definition step_ok :: "card list \<Rightarrow> cb_table \<Rightarrow> cb_table \<Rightarrow> bool" where
  "step_ok deal t t' \<longleftrightarrow> cb_table_ok deal t' \<and> played_cards t' = played_cards t + 1 \<and> ct_hand t' = ct_hand t \<and>
     (\<exists>ps. ct_log t' = ct_log t @ ps)"

lemma seat_cases: "seat \<le> 1 \<Longrightarrow> seat = 0 \<or> seat = (1 :: nat)"
  by auto

lemma discard_spec:
  assumes ok: "cb_table_ok deal t" and dist: "distinct deal" and ph: "ct_phase t = CbDiscarding seat"
    and ab: "a \<noteq> b" "a \<in> set (ct_hands t seat)" "b \<in> set (ct_hands t seat)"
  shows "\<exists>t'. ct_step t (CbDiscard a b) = Ok t' \<and> step_ok deal t t'"
proof -
  let ?u = "discarded t seat a b"
  have live: "cb_live t" and d: "cb_dealt deal t" and st: "cb_stage t" and tl: "ct_hand t \<le> tally t"
    using ok ph by (auto simp: cb_table_ok_def cb_live_def)
  have "ct_hand t mod 2 = 0 \<or> ct_hand t mod 2 = 1" by auto
  then have dl: "ct_dealer t \<le> 1" "ct_pone t \<le> 1" "ct_pone t \<noteq> ct_dealer t"
    using d by (auto simp: cb_dealt_def ct_pone_def cb_other_def)
  have seat: "seat \<le> 1" using st ph dl by (auto simp: cb_stage_def split: if_splits)
  note m = mset_drop_two [OF cb_hand_distinct [OF d dist seat] ab(2,3,1)]
  from arg_cong [OF m, of size] have len: "length (filter (\<lambda>c. c \<noteq> a \<and> c \<noteq> b) (ct_hands t seat)) + 2 = length (ct_hands t seat)"
    by (simp del: mset_filter)
  define left where "left = filter (\<lambda>c. c \<noteq> a \<and> c \<noteq> b) (ct_hands t seat)"
  with m have m': "mset (ct_hands t seat) = {#a, b#} + mset left" by (simp del: mset_filter)
  have "?u = t\<lparr>ct_hands := (ct_hands t)(seat := left), ct_crib := ct_crib t @ [a, b], ct_kept := (ct_kept t)(seat := left)\<rparr>"
    by (simp add: discarded_def left_def Let_def)
  moreover have "ct_pegged t = [] \<and> length (ct_crib t) \<le> 2" using st ph by (auto simp: cb_stage_def split: if_splits)
  ultimately have du: "cb_dealt deal ?u"
    using d m' seat_cases [OF seat] by (auto simp: cb_dealt_def played_cards_def ac_simps)
  have lu: "cb_live ?u" using cb_live_cong [OF _ _ _ live, of ?u] ph by (simp add: discarded_def Let_def)
  have tu: "ct_hand ?u \<le> tally ?u" using tl by (simp add: discarded_def Let_def tally_def)
  show ?thesis
  proof (cases "seat = ct_pone t")
    case True
    let ?v = "?u\<lparr>ct_phase := CbDiscarding (ct_dealer t)\<rparr>"
    have "ct_step t (CbDiscard a b) = Ok ?v" using ph ab True by (simp add: ct_step_def ensure_def discarded_def Let_def ct_pone_def)
    moreover have "cb_live ?v" using cb_live_cong [OF _ _ _ lu, of ?v] by simp
    moreover have "cb_stage ?v" using st ph True dl len by (simp add: cb_stage_def discarded_def Let_def ct_pone_def)
    moreover have "ct_crib t = []" using st ph True by (simp add: cb_stage_def)
    ultimately show ?thesis using du tu
      by (auto simp: step_ok_def cb_table_ok_def cb_live_def cb_dealt_def tally_def played_cards_def discarded_def Let_def)
  next
    case False
    with st ph have s: "seat = ct_dealer t" "length (ct_hands t seat) = 6" "length (ct_hands t (ct_pone t)) = 4"
      "ct_kept t (ct_pone t) = ct_hands t (ct_pone t)" "length (ct_crib t) = 2" "ct_pegged t = []" "ct_run t = []" "ct_count t = 0"
      by (auto simp: cb_stage_def split: if_splits)
    let ?v = "?u\<lparr>ct_starter := Some (ct_cut t), ct_phase := CbPegging (ct_pone t)\<rparr>"
    have lv: "cb_live ?v" using cb_live_cong [OF _ _ _ lu, of ?v] by simp
    have kept: "ct_kept ?v k = ct_hands ?v k \<and> length (ct_hands ?v k) = 4" if "k \<le> 1" for k
    proof -
      have "k = ct_dealer t \<or> k = ct_pone t" using that dl by linarith
      then show ?thesis using s len dl by (auto simp: discarded_def Let_def)
    qed
    have pv: "cb_pegging ?v" using kept s
      by (auto simp: cb_pegging_def pegged_by_def discarded_def Let_def)
    have "ct_hands ?v (ct_pone t) \<noteq> []" using kept [of "ct_pone t"] dl by auto
    then have play: "can_play ?v (ct_pone t)" using no_play_empty [of ?v "ct_pone t"] s by (auto simp: discarded_def Let_def)
    have dv: "cb_dealt deal ?v" using du by (simp add: cb_dealt_def)
    have tv: "ct_hand ?v \<le> tally ?v" using tu by (simp add: tally_def)
    have okv: "cb_table_ok deal ?v" using lv dv pv play tv dl by (simp add: cb_table_ok_def cb_live_def cb_stage_def)
    have step: "ct_step t (CbDiscard a b) = Ok (if rank (ct_cut t) = Jack then snd (peg ?v (ct_dealer t) 2 HisHeels) else ?v)"
      using ph ab False by (simp add: ct_step_def ensure_def discarded_def Let_def ct_pone_def)
    obtain won w where w: "peg ?v (ct_dealer t) 2 HisHeels = (won, w)" by (cases "peg ?v (ct_dealer t) 2 HisHeels")
    note ps = peg_spec [OF lv dl(1) w]
    then have "ct_rest w = ct_rest ?v" by blast
    note f = ct_rest_fields [OF this]
    have "played_cards w = played_cards ?v" using f by (simp add: played_cards_def)
    with f dv have dw: "cb_dealt deal w" by (simp add: cb_dealt_def)
    have "cb_table_ok deal w"
    proof (cases won)
      case True
      with ps f dw tv dl show ?thesis by (simp add: cb_table_ok_def cb_stage_def)
    next
      case False
      have "cb_pegging w" using f cb_pegging_cong [OF _ _ _ _ _ _ _ pv, of w] by simp
      with False ps f dw tv dl play show ?thesis by (simp add: cb_table_ok_def cb_stage_def can_play_def cb_live_def)
    qed
    moreover have "played_cards ?v = played_cards t + 1" "ct_hand ?v = ct_hand t" "ct_log ?v = ct_log t"
      using s by (simp_all add: played_cards_def discarded_def Let_def)
    moreover have "\<exists>ps. ct_log w = ct_log ?v @ ps" using ps by blast
    ultimately show ?thesis using step w okv f by (auto simp: step_ok_def played_cards_def)
  qed
qed


lemma put_down_spec:
  assumes ok: "cb_table_ok deal t" and dist: "distinct deal" and ph: "ct_phase t = CbPegging seat"
    and c: "c \<in> set (ct_hands t seat)" "ct_count t + card_value c \<le> 31"
  shows "\<exists>t'. ct_step t (CbPlay c) = Ok t' \<and> step_ok deal t t'"
proof -
  let ?u = "put_down t seat c"
  have live: "cb_live t" and d: "cb_dealt deal t" and tl: "ct_hand t \<le> tally t"
    and p: "cb_pegging t" and seat: "seat \<le> 1"
    using ok ph by (auto simp: cb_table_ok_def cb_live_def cb_stage_def)
  have m: "mset (ct_hands t seat) = add_mset c (mset (filter (\<lambda>held. held \<noteq> c) (ct_hands t seat)))"
    using mset_drop_one [OF cb_hand_distinct [OF d dist seat] c(1)] by simp
  define left where "left = filter (\<lambda>held. held \<noteq> c) (ct_hands t seat)"
  with m have m': "mset (ct_hands t seat) = add_mset c (mset left)" by (simp del: mset_filter)
  have "ct_hands ?u = (ct_hands t)(seat := left)" by (simp add: put_down_def left_def)
  moreover have "ct_pegged ?u = ct_pegged t @ [(seat, c)]" "ct_crib ?u = ct_crib t" "ct_dealer ?u = ct_dealer t"
    "ct_hand ?u = ct_hand t" "ct_cut ?u = ct_cut t" by (simp_all add: put_down_def)
  moreover have "played_cards ?u \<le> 10"
  proof -
    have "ct_hands t seat \<noteq> []" using c(1) by auto
    then have "0 < length (ct_hands t 0) + length (ct_hands t 1)" using seat_cases [OF seat] by auto
    moreover have "length (ct_hands t 0) + length (ct_hands t 1) + length (ct_pegged t) + length (ct_crib t) \<le> 12"
    proof -
      have "mset (ct_hands t 0) + mset (ct_hands t 1) + mset (map snd (ct_pegged t)) + mset (ct_crib t) = mset (take 12 deal)"
        using d by (simp add: cb_dealt_def)
      from arg_cong [OF this, of size] show ?thesis by simp
    qed
    moreover have crib: "length (ct_crib t) = 4" using p by (simp add: cb_pegging_def)
    ultimately have "length (ct_pegged t) \<le> 7" by linarith
    with crib show ?thesis by (simp add: played_cards_def put_down_def)
  qed
  ultimately have du: "cb_dealt deal ?u"
    using d m' seat_cases [OF seat] by (auto simp: cb_dealt_def)
  have lu: "cb_live ?u" using cb_live_cong [OF _ _ _ live, of ?u] ph by (simp add: put_down_def)
  have tu: "ct_hand ?u \<le> tally ?u" using tl by (simp add: put_down_def tally_def)
  have "mset (ct_kept t k) = mset (ct_hands ?u k) + mset (pegged_by ?u k)" if "k \<le> 1" for k
  proof (cases "k = seat")
    case True
    with that p m show ?thesis by (auto simp: cb_pegging_def put_down_def pegged_by_def)
  next
    case False
    with that p show ?thesis by (auto simp: cb_pegging_def put_down_def pegged_by_def)
  qed
  then have pu: "cb_pegging ?u" using p c(2) seat by (auto simp: cb_pegging_def put_down_def)
  obtain scored where scored: "pegging_points (ct_run ?u) (ct_count ?u) = Some scored"
    by (simp add: pegging_points_def put_down_def Let_def)
  obtain won v where v: "peg_all ?u seat scored = (won, v)" by (cases "peg_all ?u seat scored")
  note ps = peg_all_spec [OF lu seat v]
  then have "ct_rest v = ct_rest ?u" by blast
  note f = ct_rest_fields [OF this]
  have same: "ct_same_hand ?u v" using f ps by (simp add: ct_same_hand_def)
  have dv: "cb_dealt deal v" by (rule ct_same_hand_dealt [OF same du])
  have pv: "cb_pegging v" using f pu cb_pegging_cong [of v ?u] by simp
  have hv: "ct_hand v \<le> tally v" using f tu ps by simp
  have step: "ct_step t (CbPlay c) = (if won then Ok v
      else expect (advance (if ct_count v = 31 then v\<lparr>ct_count := 0, ct_run := []\<rparr> else v) seat) Ok)"
    using ph c scored v by (simp add: ct_step_def ensure_def put_down_def Let_def)
  have frame: "played_cards t' = played_cards t + 1 \<and> ct_hand t' = ct_hand t \<and> (\<exists>ps. ct_log t' = ct_log t @ ps)"
    if "ct_same_hand v t'" for t'
    using ct_same_hand_trans [OF same that] by (auto simp: ct_same_hand_def played_cards_def put_down_def)
  show ?thesis
  proof (cases won)
    case True
    have "cb_table_ok deal v" using ps True dv hv seat by (simp add: cb_table_ok_def cb_stage_def)
    moreover have "ct_same_hand v v" by (simp add: ct_same_hand_def)
    ultimately show ?thesis using step True frame [of v] by (simp add: step_ok_def)
  next
    case False
    let ?w = "if ct_count v = 31 then v\<lparr>ct_count := 0, ct_run := []\<rparr> else v"
    from False ps have lv: "cb_live v" and tv: "tally v = tally ?u + sum_list (map fst scored)" by simp_all
    have lw: "cb_live ?w" using cb_live_cong [OF _ _ _ lv, of ?w] lv by (simp add: cb_live_def)
    have pw: "cb_pegging ?w" using cb_pegging_cong [OF _ _ _ _ _ _ _ pv, of ?w] by simp
    have sw: "ct_same_hand v ?w" by (simp add: ct_same_hand_def tally_def)
    have dw: "cb_dealt deal ?w" by (rule ct_same_hand_dealt [OF sw dv])
    have cv: "ct_count v = ct_count t + card_value c" using f by (simp add: put_down_def)
    have pos: "0 < card_value c" using rank_number_range(1) [of "rank c"] by (simp add: card_value_def rank_value_number)
    have "ct_hand ?w < tally ?w" if "ct_count ?w = 0"
    proof -
      from that cv pos have "ct_count ?u = 31" using f by (auto split: if_splits)
      with scored have "(2, ThirtyOne) \<in> set scored"
        by (auto simp: pegging_points_def Let_def split: if_splits)
      then have "2 \<in> set (map fst scored)" by force
      then have "2 \<le> sum_list (map fst scored)" by (rule member_le_sum_list) simp
      with tv tu f show ?thesis by (simp add: tally_def)
    qed
    moreover have "ct_hand ?w \<le> tally ?w" using hv by (simp add: tally_def)
    ultimately have "\<exists>t'. advance ?w seat = Some t' \<and> cb_table_ok deal t' \<and> ct_same_hand ?w t' \<and> (\<forall>s. ct_phase t' \<noteq> CbDiscarding s)"
      by (intro advance_spec [OF lw pw dw seat])
    then obtain t' where t': "advance ?w seat = Some t'" "cb_table_ok deal t'" "ct_same_hand ?w t'" by blast
    with step False frame [OF ct_same_hand_trans [OF sw t'(3)]] show ?thesis by (simp add: step_ok_def)
  qed
qed

text \<open>A move is accepted exactly when it is legal, and each refusal has its own error.\<close>

definition cb_refusal :: "cb_table \<Rightarrow> cb_move \<Rightarrow> cb_error option" where
  "cb_refusal t m =
     (case ct_phase t of
        CbDiscarding seat \<Rightarrow>
          (case m of
             CbDiscard a b \<Rightarrow>
               if a = b then Some CbSameCards
               else if {a, b} \<subseteq> set (ct_hands t seat) then None else Some CbNotInHand
           | CbPlay _ \<Rightarrow> Some CbDiscardFirst)
      | CbPegging seat \<Rightarrow>
          (case m of
             CbDiscard _ _ \<Rightarrow> Some CbCribFull
           | CbPlay c \<Rightarrow>
               if c \<notin> set (ct_hands t seat) then Some CbNotInHand
               else if ct_count t + card_value c \<le> 31 then None else Some CbPast31)
      | CbAwaitingDeal \<Rightarrow> Some CbNotDealt
      | CbWon _ \<Rightarrow> Some CbMatchOver)"

lemma step_cases:
  assumes ok: "cb_table_ok deal t" and dist: "distinct deal"
  shows "case cb_refusal t m of None \<Rightarrow> \<exists>t'. ct_step t m = Ok t' \<and> step_ok deal t t' | Some e \<Rightarrow> ct_step t m = Err e"
proof (cases "ct_phase t")
  case (CbDiscarding seat)
  show ?thesis
  proof (cases m)
    case (CbDiscard a b)
    with CbDiscarding discard_spec [OF assms CbDiscarding, of a b] show ?thesis
      by (auto simp: cb_refusal_def ct_step_def ensure_def)
  next
    case (CbPlay c)
    with CbDiscarding show ?thesis by (simp add: cb_refusal_def ct_step_def)
  qed
next
  case (CbPegging seat)
  show ?thesis
  proof (cases m)
    case (CbDiscard a b)
    with CbPegging show ?thesis by (simp add: cb_refusal_def ct_step_def)
  next
    case (CbPlay c)
    with CbPegging put_down_spec [OF assms CbPegging, of c] show ?thesis
      by (auto simp: cb_refusal_def ct_step_def ensure_def)
  qed
qed (simp_all add: cb_refusal_def ct_step_def)

lemma step_Ok: "cb_table_ok deal t \<Longrightarrow> distinct deal \<Longrightarrow> ct_step t m = Ok t' \<Longrightarrow> step_ok deal t t'"
  using step_cases [of deal t m] by (auto split: option.splits)

lemma step_safe: "cb_table_ok deal t \<Longrightarrow> distinct deal \<Longrightarrow> ct_step t m \<noteq> Panic"
  using step_cases [of deal t m] by (auto split: option.splits)

end
