(* ===== verification/CribbageMatch.thy ===== *)
theory CribbageMatch
  imports Cribbage HandsMatch
begin

text \<open>
  The stored cribbage match: a table dealt and replayed keeps the invariant of the hand, so cribbage is a
  match played in hands and a stored match, and the documents that are read back are the played ones.
\<close>


section \<open>Replays\<close>

lemma deal_table_ok:
  assumes len: "12 < length deal" and log: "scores = points_of log"
    and early: "\<forall>seat. scores seat < 61" "\<forall>n < length log. \<forall>seat. points_of (take n log) seat < 61"
      "\<forall>p \<in> set log. pg_seat p \<le> 1 \<and> 0 < pg_points p"
    and hand: "hand \<le> scores 0 + scores 1"
  shows "\<exists>t. deal_table hand deal scores log sh = Some t \<and> cb_table_ok deal t \<and> ct_hand t = hand \<and> played_cards t = 0 \<and>
    ct_log t = log \<and> ct_phase t = CbDiscarding (ct_pone t)"
proof -
  let ?pone = "cb_other (hand mod 2)"
  obtain t where t: "deal_table hand deal scores log sh = Some t" using len by (simp add: deal_table_def Let_def)
  have "hand mod 2 = 0 \<or> hand mod 2 = 1" by auto
  moreover have "take 12 deal = take 6 deal @ take 6 (drop 6 deal)" using take_add [of 6 6 deal] by simp
  then have "mset (take 12 deal) = mset (take 6 deal) + mset (take 6 (drop 6 deal))" by (metis mset_append)
  moreover have "hand \<le> 120" using hand spec [OF early(1), of 0] spec [OF early(1), of 1] by linarith
  ultimately have d: "cb_dealt deal t" using t len by (auto simp: deal_table_def Let_def cb_dealt_def cb_other_def played_cards_def)
  have n: "\<not> 61 \<le> points_of log w" for w using log early(1) by (simp add: not_le)
  have b: "cb_books t" using t len log early(2,3) n by (auto simp: deal_table_def Let_def cb_books_def)
  have s: "cb_stage t" using t len by (auto simp: deal_table_def Let_def cb_stage_def ct_pone_def cb_other_def)
  have "ct_hand t \<le> tally t" using t len hand by (auto simp: deal_table_def Let_def tally_def)
  with d b s t len show ?thesis by (auto simp: cb_table_ok_def deal_table_def Let_def played_cards_def ct_pone_def)
qed

text \<open>The moves a table has seen: ten in each finished hand, and those of the hand it is in.\<close>

definition moves_done :: "cb_table \<Rightarrow> nat" where
  "moves_done t = 10 * ct_hand t + played_cards t"

text \<open>Eight cards are pegged in a whole hand.\<close>

lemma awaiting_played:
  assumes ok: "cb_table_ok deal t" and ph: "ct_phase t = CbAwaitingDeal"
  shows "played_cards t = 10"
proof -
  have p: "cb_pegging t" "ct_hands t 0 = []" "ct_hands t 1 = []"
    using ok ph by (simp_all add: cb_table_ok_def cb_stage_def)
  have by_seat: "length (pegged_by t k) = 4" if "k \<le> 1" for k
  proof -
    have "ct_hands t k = []" using p(2,3) seat_cases [OF that] by auto
    then have "mset (ct_kept t k) = mset (pegged_by t k)" "length (ct_kept t k) = 4" using p(1) that by (simp_all add: cb_pegging_def)
    then show ?thesis by (metis size_mset)
  qed
  have split: "length (filter (\<lambda>(s, _). s = (0 :: nat)) xs) + length (filter (\<lambda>(s, _). s = 1) xs) = length xs"
    if "\<forall>x \<in> set xs. fst x \<le> 1" for xs :: "(nat \<times> card) list"
    using that by (induction xs) (auto simp: le_Suc_eq)
  have "length (pegged_by t 0) + length (pegged_by t 1) = length (ct_pegged t)"
    using split [of "ct_pegged t"] p(1) by (simp add: pegged_by_def cb_pegging_def)
  then have "length (ct_pegged t) = 8" using by_seat [of 0] by_seat [of 1] by simp
  then show ?thesis using p(1) by (simp add: played_cards_def cb_pegging_def)
qed

lemma next_deal:
  assumes ok: "cb_table_ok deal t" and ph: "ct_phase t = CbAwaitingDeal" and d: "whole_deal deal'"
  shows "\<exists>t'. deal_table (ct_hand t + 1) deal' (ct_scores t) (ct_log t) (ct_last_show t) = Some t' \<and>
    cb_table_ok deal' t' \<and> ct_hand t' = ct_hand t + 1 \<and> moves_done t' = moves_done t \<and> ct_log t' = ct_log t \<and>
    ct_phase t' = CbDiscarding (ct_pone t')"
proof -
  have live: "cb_live t" using ok ph by (simp add: cb_table_ok_def cb_live_def)
  then have b: "ct_scores t = points_of (ct_log t)" "\<forall>seat. ct_scores t seat < 61"
    using cb_live_iff by (simp add: cb_live_def cb_books_def, blast)
  from live have c: "\<forall>n < length (ct_log t). \<forall>seat. points_of (take n (ct_log t)) seat < 61"
    "\<forall>p \<in> set (ct_log t). pg_seat p \<le> 1 \<and> 0 < pg_points p"
    by (simp_all add: cb_live_def cb_books_def)
  have le: "ct_hand t + 1 \<le> ct_scores t 0 + ct_scores t 1" using ok ph by (simp add: cb_table_ok_def cb_stage_def tally_def)
  have "12 < length deal'" using whole_dealD(1) [OF d] by simp
  from deal_table_ok [OF this b c le, of "ct_last_show t"] awaiting_played [OF ok ph]
  show ?thesis by (auto simp: moves_done_def)
qed

lemma cb_opening:
  assumes "whole_deal deal"
  shows "\<exists>t. deal_table 0 deal (\<lambda>_. 0) [] None = Some t \<and> cb_table_ok deal t \<and> ct_hand t = 0 \<and> moves_done t = 0 \<and>
    ct_phase t = CbDiscarding 1"
proof -
  have len: "12 < length deal" using whole_dealD(1) [OF assms] by simp
  have "(\<lambda>_. 0) = points_of []" by (simp add: fun_eq_iff)
  from deal_table_ok [OF len this, of 0 None] obtain t where t: "deal_table 0 deal (\<lambda>_. 0) [] None = Some t"
    "cb_table_ok deal t" "ct_hand t = 0" "played_cards t = 0" "ct_phase t = CbDiscarding (ct_pone t)" by auto
  moreover from t(2,3) have "ct_pone t = 1" by (simp add: cb_table_ok_def cb_dealt_def ct_pone_def cb_other_def)
  ultimately show ?thesis by (simp add: moves_done_def)
qed

text \<open>Cribbage as a match played in hands.\<close>

definition cb_status :: "cb_table \<Rightarrow> hand_status" where
  "cb_status t = (case ct_phase t of CbAwaitingDeal \<Rightarrow> HandOver | CbWon _ \<Rightarrow> MatchWon | _ \<Rightarrow> InPlay)"

definition cb_first :: "card list \<Rightarrow> cb_table option" where
  "cb_first deal = deal_table 0 deal (\<lambda>_. 0) [] None"

definition cb_redeal :: "cb_table \<Rightarrow> card list \<Rightarrow> cb_table option" where
  "cb_redeal t deal = deal_table (ct_hand t + 1) deal (ct_scores t) (ct_log t) (ct_last_show t)"

lemma cb_replay_unfold:
  "replay_from deals t ms =
     (case cb_status t of
        InPlay \<Rightarrow> (case ms of [] \<Rightarrow> Ok t | m # rest \<Rightarrow> rbind (ct_step t m) (\<lambda>t'. replay_from deals t' rest))
      | HandOver \<Rightarrow>
          (case get_at deals (ct_hand t + 1) of
             Some d \<Rightarrow> expect (cb_redeal t d) (\<lambda>t'. replay_from deals t' ms)
           | None \<Rightarrow> ensure (ms = []) CbMovesPastDeal (Ok t))
      | MatchWon \<Rightarrow> ensure (ms = []) CbMovesAfterWin (ensure (ct_hand t + 1 = length deals) CbDealtAfterWin (Ok t)))"
  by (subst replay_from.simps)
    (auto simp: cb_status_def cb_redeal_def expect_def rbind_case split: cb_phase.splits list.splits res.splits option.splits)

interpretation cb_match: dealt_match replay_from cb_first cb_status ct_hand ct_step cb_redeal cb_table_ok whole_deal
  CbMovesAfterWin CbDealtAfterWin CbMovesPastDeal
proof
  fix t t' d d' m ms deals
  show "cb_status t = InPlay \<Longrightarrow> replay_from deals t [] = Ok t"
    "cb_status t = InPlay \<Longrightarrow> replay_from deals t (m # ms) = rbind (ct_step t m) (\<lambda>t'. replay_from deals t' ms)"
    "cb_status t = HandOver \<Longrightarrow> replay_from deals t ms =
      (case get_at deals (ct_hand t + 1) of
         Some d \<Rightarrow> expect (cb_redeal t d) (\<lambda>t'. replay_from deals t' ms)
       | None \<Rightarrow> ensure (ms = []) CbMovesPastDeal (Ok t))"
    "cb_status t = MatchWon \<Longrightarrow> replay_from deals t ms =
      ensure (ms = []) CbMovesAfterWin (ensure (ct_hand t + 1 = length deals) CbDealtAfterWin (Ok t))"
    by (subst cb_replay_unfold, simp)+
  show "whole_deal d \<Longrightarrow> cb_table_ok d t \<Longrightarrow> ct_step t m = Ok t' \<Longrightarrow> cb_table_ok d t' \<and> ct_hand t' = ct_hand t"
    using step_Ok [of d t m t'] whole_dealD(2) by (simp add: step_ok_def)
  show "whole_deal d \<Longrightarrow> cb_table_ok d t \<Longrightarrow> ct_step t m \<noteq> Panic"
    using step_safe [of d t m] whole_dealD(2) by simp
  show "ct_step t m = Ok t' \<Longrightarrow> cb_status t = InPlay"
    by (auto simp: ct_step_def cb_status_def split: cb_phase.splits)
  show "\<exists>t'. cb_redeal t d' = Some t' \<and> cb_table_ok d' t'" if "cb_table_ok d t" "cb_status t = HandOver" "whole_deal d'"
  proof -
    from that(2) have "ct_phase t = CbAwaitingDeal" by (simp add: cb_status_def split: cb_phase.splits)
    from next_deal [OF that(1) this that(3)] show ?thesis by (auto simp: cb_redeal_def)
  qed
  show "cb_redeal t d = Some t' \<Longrightarrow> ct_hand t' = ct_hand t + 1 \<and> cb_status t' = InPlay"
    by (auto simp: cb_redeal_def deal_table_def Let_def cb_status_def split: if_splits)
  show "\<exists>t. cb_first d = Some t \<and> cb_table_ok d t \<and> ct_hand t = 0 \<and> cb_status t = InPlay" if "whole_deal d"
    using cb_opening [OF that] by (auto simp: cb_first_def cb_status_def)
qed

section \<open>Stored matches\<close>

text \<open>Every deal is a whole deck, the moves replay, and the replay ends in the last deal.\<close>

definition cb_inv :: "cb_state \<Rightarrow> bool" where
  "cb_inv s \<longleftrightarrow> (\<forall>deal \<in> set (cb_deals s). whole_deal deal) \<and>
     (\<exists>t. cb_replay s = Ok t \<and> ct_hand t + 1 = length (cb_deals s))"

definition cb_current :: "cb_state \<Rightarrow> cb_table \<Rightarrow> bool" where
  "cb_current s t \<longleftrightarrow> cb_inv s \<and> cb_replay s = Ok t"

text \<open>What a move reports, from the table before and after it.\<close>

definition cb_outcome_of :: "cb_table \<Rightarrow> cb_move \<Rightarrow> cb_table \<Rightarrow> cb_outcome" where
  "cb_outcome_of t m t' =
     \<lparr>co_seat = (case ct_phase t of CbDiscarding seat \<Rightarrow> seat | CbPegging seat \<Rightarrow> seat | _ \<Rightarrow> 0), co_played = m,
      co_pegs = drop (length (ct_log t)) (ct_log t'), co_scores = ct_scores t', co_phase = ct_phase t'\<rparr>"

lemma cb_apply_step:
  "cb_replay s = Ok t \<Longrightarrow>
    cb_apply_move s m = rbind (ct_step t m) (\<lambda>t'. Ok (s\<lparr>cb_moves := cb_moves s @ [m]\<rparr>, cb_outcome_of t m t'))"
  by (cases "ct_phase t")
    (simp_all add: cb_apply_move_def cb_table_of_def cb_outcome_of_def ct_step_def)

interpretation cb: stored_match replay_from cb_first cb_status ct_hand ct_step cb_redeal cb_table_ok whole_deal
  CbMovesAfterWin CbDealtAfterWin CbMovesPastDeal
  cb_deals cb_moves "\<lambda>s. (cb_seats s, cb_version s, cb_revision s)"
  "\<lambda>m s. s\<lparr>cb_moves := cb_moves s @ [m]\<rparr>" "\<lambda>d s. s\<lparr>cb_deals := cb_deals s @ [d]\<rparr>" "\<lambda>d s. s\<lparr>cb_deals := [d], cb_moves := []\<rparr>"
  cb_replay cb_apply_move cb_outcome_of cb_deal_next shuffled_deck cb_refusal CbHandNotOver cb_inv cb_current
proof
  fix s s' :: cb_state and t m d raw
  show "cb_deals s \<noteq> [] \<Longrightarrow> cb_replay s = expect (cb_first (hd (cb_deals s))) (\<lambda>t. replay_from (cb_deals s) t (cb_moves s))"
    by (cases "cb_deals s") (simp_all add: cb_replay_def cb_first_def get_at_def)
  show "cb_deals s = cb_deals s' \<Longrightarrow> cb_moves s = cb_moves s' \<Longrightarrow>
    (cb_seats s, cb_version s, cb_revision s) = (cb_seats s', cb_version s', cb_revision s') \<Longrightarrow> s = s'" by simp
  show "cb_replay s = Ok t \<Longrightarrow>
    cb_deal_next raw s = ensure (cb_status t = HandOver) CbHandNotOver (Ok (s\<lparr>cb_deals := cb_deals s @ [shuffled_deck raw]\<rparr>))"
    by (cases "ct_phase t") (simp_all add: cb_deal_next_def cb_table_of_def cb_status_def)
  show "case cb_refusal t m of None \<Rightarrow> \<exists>t'. ct_step t m = Ok t' | Some e \<Rightarrow> ct_step t m = Err e"
    if "whole_deal d" "cb_table_ok d t"
    using step_cases [OF that(2) whole_dealD(2) [OF that(1)], of m] by (auto split: option.splits)
qed (simp_all add: cb_apply_step cb_inv_def cb_current_def whole_deal_reached)

lemma cb_current_table: "cb_current s t \<Longrightarrow> cb_table_of s = Some t"
  by (simp add: cb_current_def cb_table_of_def)

lemma cb_turn_open: "cb_current s t \<Longrightarrow> cb_status t = InPlay \<Longrightarrow> \<exists>seat. cb_turn_user s = Some (Some (cb_user_of s seat))"
  by (cases "ct_phase t") (auto simp: cb_status_def cb_turn_user_def cb_current_table)

lemma cb_current_moves:
  assumes "cb_current s t"
  shows "moves_done t = length (cb_moves s)"
proof -
  note h = cb.current_history [OF assms]
  then have ne: "cb_deals s \<noteq> []" by auto
  obtain t0 where t0: "cb_first (hd (cb_deals s)) = Some t0" "replay_from (cb_deals s) t0 (cb_moves s) = Ok t" using h(3) by blast
  define P where "P ds ms u \<longleftrightarrow> moves_done u = length ms \<and> cb_table_ok (last ds) u \<and> whole_deal (last ds)" for ds and ms :: "cb_move list" and u
  have "P (cb_deals s) (cb_moves s) t"
  proof (rule cb_match.history_induct [OF h(1) ne t0 h(2)])
    show "P [hd (cb_deals s)] [] t0" using cb_opening [of "hd (cb_deals s)"] t0(1) h(1) ne by (auto simp: P_def cb_first_def)
  next
    fix ds ms u m u'
    assume "P ds ms u" "ct_step u m = Ok u'"
    then show "P ds (ms @ [m]) u'" using step_Ok [of "last ds" u m u'] whole_dealD(2) by (simp add: P_def step_ok_def moves_done_def)
  next
    fix ds ms u deal u'
    assume p: "P ds ms u" "cb_status u = HandOver" "whole_deal deal" "cb_redeal u deal = Some u'"
    then have "ct_phase u = CbAwaitingDeal" by (simp add: cb_status_def split: cb_phase.splits)
    with p next_deal [of "last ds" u deal] show "P (ds @ [deal]) ms u'" by (auto simp: P_def cb_redeal_def)
  qed
  then show ?thesis by (simp add: P_def)
qed

text \<open>A session: a player's moves, and the next hands dealt by the service.\<close>

abbreviation cb_call :: "cb_state \<Rightarrow> cb_move + (nat \<Rightarrow> nat) \<Rightarrow> (cb_error, cb_state \<times> cb_outcome option) res" where
  "cb_call \<equiv> match_call cb_apply_move cb_deal_next"

lemma cb_new_restart:
  "cb_new coin raw a b = (cb_new coin raw a b)\<lparr>cb_deals := [shuffled_deck raw], cb_moves := []\<rparr>"
  by (simp add: cb_new_def)

lemma cb_inv_new: "cb_inv (cb_new coin raw a b)"
  by (subst cb_new_restart) (simp add: cb.inv_restart)

interpretation cb_sides: two_sides cb_other "\<lambda>seat. seat \<le> 1" cb_user_of cb_seat_of
proof
  fix s :: cb_state and u c and d :: nat
  show "c \<le> 1 \<Longrightarrow> cb_other c \<le> 1" "c \<le> 1 \<Longrightarrow> cb_other (cb_other c) = c" "c \<le> 1 \<Longrightarrow> cb_other c \<noteq> c"
    "c \<le> 1 \<Longrightarrow> d \<le> 1 \<Longrightarrow> d = c \<or> d = cb_other c" for c
    unfolding cb_other_def by presburger+
  show "cb_seat_of s u = Some c \<Longrightarrow> c \<le> 1 \<and> cb_user_of s c = u"
    by (auto simp: cb_seat_of_def cb_user_of_def split: if_splits)
  show "c \<le> 1 \<Longrightarrow> cb_seat_of s (cb_user_of s c) \<noteq> None" for c
    by (auto simp: cb_seat_of_def cb_user_of_def)
qed

section \<open>Reading a stored match\<close>

lemma check_deals_iff:
  "check_deals deals = (if \<forall>deal \<in> set deals. whole_deal deal then Ok () else Err CbNotADeck)"
  by (induction deals) (auto simp: is_whole_deck_iff whole_deal_def ensure_def)

lemma cb_parse_iff:
  "cb_parse (Some s) = Ok s' \<longleftrightarrow> s' = s \<and> cb_version s = 1 \<and> cb_inv s"
proof -
  have "\<exists>t. cb_replay s = Ok t \<and> ct_hand t + 1 = length (cb_deals s) \<Longrightarrow> cb_deals s \<noteq> []" by auto
  then show ?thesis
    by (auto simp: cb_parse_def res_simps check_deals_iff cb_inv_def split: if_splits)
qed

lemma cb_parse_safe: "cb_parse d \<noteq> Panic"
proof (cases d)
  case (Some s)
  then show ?thesis
    by (auto simp: cb_parse_def res_simps check_deals_iff cb.whole_safe split: if_splits)
qed (simp add: cb_parse_def)

text \<open>Every stored history that replays was played: each move accepted in its turn and each hand dealt.\<close>

lemma cb_inv_played:
  assumes inv: "cb_inv s" and v: "cb_version s = 1"
  shows "\<exists>raw a b evs. submit_all cb_call (cb_new True raw a b) evs = Ok (s\<lparr>cb_revision := 0\<rparr>)"
proof -
  obtain a b where ab: "cb_seats s = (a, b)" by (cases "cb_seats s")
  have "cb_inv (s\<lparr>cb_revision := 0\<rparr>)" using inv by (simp add: cb_inv_def cb_replay_def)
  from cb.played [OF this] obtain raw evs where
    "submit_all cb_call (s\<lparr>cb_revision := 0, cb_deals := [shuffled_deck raw], cb_moves := []\<rparr>) evs = Ok (s\<lparr>cb_revision := 0\<rparr>)"
    by auto
  moreover have "s\<lparr>cb_revision := 0, cb_deals := [shuffled_deck raw], cb_moves := []\<rparr> = cb_new True raw a b"
    using ab v by (cases s) (simp add: cb_new_def)
  ultimately show ?thesis by auto
qed

section \<open>Properties\<close>

lemma cb_live_hand:
  assumes "cb_table_ok deal t" and "\<forall>w. ct_phase t \<noteq> CbWon w"
  shows "ct_scores t 0 < 61" "ct_scores t 1 < 61"
  using assms cb_live_iff [of t] by (simp_all add: cb_table_ok_def cb_live_def)

lemma cb_stage_won: "cb_table_ok deal t \<Longrightarrow> ct_phase t = CbWon w \<Longrightarrow> w \<le> 1"
  by (simp add: cb_table_ok_def cb_stage_def)

text \<open>
  C29. A cribbage match keeps its cards and its books. Whatever moves are submitted and deals asked for after
  the opening, no call panics and the match replays to a table on which the cards in hand, pegged
  and in the crib are the first twelve of the last deal; each score is the sum of the points logged
  for that seat; a seat has won exactly when it has reached 61, and before the last entry of the log neither
  had: scoring stops the moment somebody pegs out. While the cards are played the count is the value of the run,
  at most 31, and the player on turn can play.
\<close>

theorem cribbage_keeps_books:
  "\<exists>s t. submit_all cb_call (cb_new coin raw challenger claimer) evs = Ok s \<and> cb_table_of s = Some t \<and>
     mset (ct_hands t 0) + mset (ct_hands t 1) + mset (map snd (ct_pegged t)) + mset (ct_crib t) = mset (take 12 (last (cb_deals s))) \<and>
     mset (last (cb_deals s)) = mset fresh_deck \<and>
     (\<forall>seat. ct_scores t seat = sum_list (map pg_points (filter (\<lambda>p. pg_seat p = seat) (ct_log t)))) \<and>
     (\<forall>seat. ct_phase t = CbWon seat \<longleftrightarrow> 61 \<le> ct_scores t seat) \<and>
     (\<forall>n < length (ct_log t). \<forall>seat. sum_list (map pg_points (filter (\<lambda>p. pg_seat p = seat) (take n (ct_log t)))) < 61) \<and>
     (\<forall>seat. ct_phase t = CbPegging seat \<longrightarrow>
        ct_count t = sum_list (map (\<lambda>x. card_value (snd x)) (ct_run t)) \<and> ct_count t \<le> 31 \<and> can_play t seat)"
proof -
  obtain s where s: "submit_all cb_call (cb_new coin raw challenger claimer) evs = Ok s" "cb_inv s"
    using cb.calls.session_ok [OF cb_inv_new, where ms = evs] by blast
  obtain t where t: "cb_current s t" using cb.inv_current [OF s(2)] by blast
  then have "cb_table_ok (last (cb_deals s)) t" "cb_table_of s = Some t" "whole_deal (last (cb_deals s))"
    by (simp_all add: cb.current_ok cb_current_table)
  then have "mset (ct_hands t 0) + mset (ct_hands t 1) + mset (map snd (ct_pegged t)) + mset (ct_crib t) = mset (take 12 (last (cb_deals s)))"
    "mset (last (cb_deals s)) = mset fresh_deck" and books: "cb_books t" and st: "cb_stage t"
    by (simp_all only: cb_table_ok_def cb_dealt_def whole_deal_def)
  moreover have "\<forall>seat. ct_phase t = CbPegging seat \<longrightarrow> ct_count t = sum_list (map (\<lambda>x. card_value (snd x)) (ct_run t)) \<and>
      ct_count t \<le> 31 \<and> can_play t seat"
  proof (intro allI impI)
    fix seat
    assume "ct_phase t = CbPegging seat"
    with st have "cb_pegging t" "can_play t seat" by (simp_all add: cb_stage_def)
    then show "ct_count t = sum_list (map (\<lambda>x. card_value (snd x)) (ct_run t)) \<and> ct_count t \<le> 31 \<and> can_play t seat"
      by (simp add: cb_pegging_def)
  qed
  ultimately show ?thesis using s(1) t books cb_current_table unfolding cb_books_def points_of_def fun_eq_iff by blast
qed

lemma cribbage_keeps_books_witness:
  "\<exists>s t. submit_all cb_call (cb_new True (\<lambda>_. 0) 1 2) [Inl (CbPlay club_five)] = Ok s \<and> cb_table_of s = Some t \<and>
     mset (last (cb_deals s)) = mset fresh_deck"
  using cribbage_keeps_books [of True "\<lambda>_. 0" 1 2 "[Inl (CbPlay club_five)]"] by blast

text \<open>
  C30. A cribbage match ends. After any calls at most 121 hands have been dealt and at most 1210 moves played. Until
  a seat has won there is always a call that goes through: the player the state names has
  a legal move, or the hand is over and the service's next deal is accepted; and an accepted move makes
  the match one move longer, so no match can go on for ever.
\<close>

theorem cribbage_match_ends:
  assumes "submit_all cb_call (cb_new coin raw challenger claimer) evs = Ok s"
  shows "length (cb_deals s) \<le> 121 \<and> cb_move_count s \<le> 1210 \<and>
    (case cb_turn_user s of
       None \<Rightarrow> False
     | Some (Some user) \<Rightarrow> user \<in> {challenger, claimer} \<and> (\<exists>m s' out. cb_apply_move s m = Ok (s', out) \<and> cb_move_count s' = cb_move_count s + 1)
     | Some None \<Rightarrow> (\<exists>t. cb_table_of s = Some t \<and>
         ((\<exists>w \<le> 1. ct_phase t = CbWon w) \<or> (\<forall>raw. \<exists>s'. cb_deal_next raw s = Ok s' \<and> cb_turn_user s' \<notin> {None, Some None}))))"
proof -
  have inv: "cb_inv s" by (rule cb.calls.session_inv [OF cb_inv_new assms])
  obtain t where cur: "cb_current s t" using cb.inv_current [OF inv] by blast
  then have ok: "cb_table_ok (last (cb_deals s)) t" and tab: "cb_table_of s = Some t" and h: "ct_hand t + 1 = length (cb_deals s)"
    and m: "moves_done t = length (cb_moves s)" and dk: "whole_deal (last (cb_deals s))"
    by (simp_all only: cb.current_ok cb_current_table cb.current_history cb_current_moves)
  have b: "ct_hand t \<le> 120" "played_cards t \<le> 10" using ok by (simp_all add: cb_table_ok_def cb_dealt_def)
  have bounds: "length (cb_deals s) \<le> 121" "cb_move_count s \<le> 1210" using b h m by (simp_all add: moves_done_def cb_move_count_def)
  have seats: "cb_seats s = (challenger, claimer) \<or> cb_seats s = (claimer, challenger)"
    using cb.session_frame [OF cb_inv_new assms] by (simp add: cb_new_def)
  have goes: "\<exists>s' out. cb_apply_move s m = Ok (s', out) \<and> cb_move_count s' = cb_move_count s + 1" if "cb_refusal t m = None" for m
    using cb.apply_cases [OF cur, of m] that by (auto simp: cb_move_count_def)
  show ?thesis
  proof (cases "ct_phase t")
    case (CbDiscarding seat)
    then have "4 \<le> length (ct_hands t seat)" "seat \<le> 1"
      using ok by (auto simp: cb_table_ok_def cb_stage_def cb_dealt_def ct_pone_def cb_other_def split: if_splits)
    then obtain x y zs where xy: "ct_hands t seat = x # y # zs" by (cases "ct_hands t seat" rule: remdups_adj.cases) auto
    have "distinct (ct_hands t seat)"
      using ok cb_hand_distinct [OF _ whole_dealD(2) [OF dk] \<open>seat \<le> 1\<close>] by (simp add: cb_table_ok_def)
    with xy CbDiscarding have "cb_refusal t (CbDiscard x y) = None" by (simp add: cb_refusal_def)
    with goes have "\<exists>m s' out. cb_apply_move s m = Ok (s', out) \<and> cb_move_count s' = cb_move_count s + 1" by blast
    moreover have "cb_turn_user s = Some (Some (cb_user_of s seat))" using CbDiscarding tab by (simp add: cb_turn_user_def)
    moreover have "cb_user_of s seat \<in> {challenger, claimer}" using seats by (auto simp: cb_user_of_def)
    ultimately show ?thesis using bounds by simp
  next
    case (CbPegging seat)
    then obtain c where "c \<in> set (ct_hands t seat)" "ct_count t + card_value c \<le> 31"
      using ok by (auto simp: cb_table_ok_def cb_stage_def can_play_def list_ex_iff)
    with CbPegging have "cb_refusal t (CbPlay c) = None" by (simp add: cb_refusal_def)
    with goes have "\<exists>m s' out. cb_apply_move s m = Ok (s', out) \<and> cb_move_count s' = cb_move_count s + 1" by blast
    moreover have "cb_turn_user s = Some (Some (cb_user_of s seat))" using CbPegging tab by (simp add: cb_turn_user_def)
    moreover have "cb_user_of s seat \<in> {challenger, claimer}" using seats by (auto simp: cb_user_of_def)
    ultimately show ?thesis using bounds by simp
  next
    case CbAwaitingDeal
    have "\<exists>s'. cb_deal_next raw s = Ok s' \<and> cb_turn_user s' \<notin> {None, Some None}" for raw
      using cb.deal_cases [OF cur, of raw] CbAwaitingDeal cb_turn_open by (fastforce simp: cb_status_def)
    with CbAwaitingDeal tab bounds show ?thesis by (auto simp: cb_turn_user_def)
  next
    case (CbWon w)
    with cb_stage_won [OF ok CbWon] tab bounds show ?thesis by (auto simp: cb_turn_user_def)
  qed
qed

lemma cribbage_match_ends_witness:
  "length (cb_deals (cb_new True (\<lambda>_. 0) 1 2)) \<le> 121 \<and> cb_move_count (cb_new True (\<lambda>_. 0) 1 2) \<le> 1210"
  using cribbage_match_ends [of True "\<lambda>_. 0" 1 2 "[]" "cb_new True (\<lambda>_. 0) 1 2"] by simp

text \<open>
  One cribbage move. In a match reached by play a move is refused, with the error of the first
  rule it breaks, exactly when it is not the kind the phase asks for, names one card twice, names a card the
  player on turn does not hold, or would take the count past 31. An accepted one is appended to the history, and
  its outcome reports the player who was on turn, the new scores, the new phase and exactly the new
  entries of the log.
\<close>

theorem cribbage_move_exact:
  assumes "submit_all cb_call (cb_new coin raw challenger claimer) evs = Ok s" and "cb_table_of s = Some t"
  shows "case cb_refusal t m of
      Some e \<Rightarrow> cb_apply_move s m = Err e
    | None \<Rightarrow> (\<exists>t' out. cb_apply_move s m = Ok (s\<lparr>cb_moves := cb_moves s @ [m]\<rparr>, out) \<and>
        cb_table_of (s\<lparr>cb_moves := cb_moves s @ [m]\<rparr>) = Some t' \<and> ct_step t m = Ok t' \<and>
        co_played out = m \<and> (ct_phase t = CbDiscarding (co_seat out) \<or> ct_phase t = CbPegging (co_seat out)) \<and>
        co_scores out = ct_scores t' \<and> co_phase out = ct_phase t' \<and> ct_log t' = ct_log t @ co_pegs out)"
proof -
  have inv: "cb_inv s" by (rule cb.calls.session_inv [OF cb_inv_new assms(1)])
  obtain u where cur: "cb_current s u" using cb.inv_current [OF inv] by blast
  with cb_current_table assms(2) have t: "cb_current s t" by force
  show ?thesis
  proof (cases "cb_refusal t m")
    case None
    with cb.apply_cases [OF t, of m] obtain t' where t': "ct_step t m = Ok t'"
      "cb_apply_move s m = Ok (s\<lparr>cb_moves := cb_moves s @ [m]\<rparr>, cb_outcome_of t m t')" "cb_current (s\<lparr>cb_moves := cb_moves s @ [m]\<rparr>) t'" by auto
    from step_Ok [OF cb.current_ok(1) [OF t] whole_dealD(2) [OF cb.current_ok(2) [OF t]] t'(1)]
    obtain ps where "ct_log t' = ct_log t @ ps" by (auto simp: step_ok_def)
    with None t' cb_current_table [OF t'(3)] show ?thesis
      by (cases "ct_phase t") (auto simp: cb_outcome_of_def cb_refusal_def)
  qed (use cb.apply_cases [OF t, of m] in simp)
qed

lemma cribbage_move_exact_witness:
  "\<exists>t. cb_table_of (cb_new True (\<lambda>_. 0) 1 2) = Some t \<and> cb_apply_move (cb_new True (\<lambda>_. 0) 1 2) (CbPlay club_five) = Err CbDiscardFirst"
proof -
  obtain t where t: "cb_first (shuffled_deck (\<lambda>_. 0)) = Some t" "cb_current (cb_new True (\<lambda>_. 0) 1 2) t"
    using cb.restart_current [OF whole_deal_shuffled, of "\<lambda>_. 0" "cb_new True (\<lambda>_. 0) 1 2"] cb_new_restart [of True "\<lambda>_. 0" 1 2] by auto
  with cb_opening [of "shuffled_deck (\<lambda>_. 0)"] have "cb_refusal t (CbPlay club_five) = Some CbDiscardFirst"
    by (auto simp: cb_first_def cb_refusal_def)
  with cribbage_move_exact [of True "\<lambda>_. 0" 1 2 "[]" "cb_new True (\<lambda>_. 0) 1 2" t "CbPlay club_five"] cb_current_table [OF t(2)]
  show ?thesis by simp
qed

text \<open>
  C31. The stored documents are the played matches. Reading never panics, and a decoded state of the
  current version is accepted exactly when, its revision counter aside, it is the result of some calls on some
  opening: every deal a whole deck, every move legal in its turn, no deal left unplayed. It is
  returned as it was stored.
\<close>

theorem cribbage_documents_are_play:
  "cb_parse d \<noteq> Panic \<and>
   (cb_parse (Some s) = Ok s' \<longleftrightarrow>
      s' = s \<and> cb_version s = 1 \<and>
      (\<exists>raw challenger claimer evs. submit_all cb_call (cb_new True raw challenger claimer) evs = Ok (s\<lparr>cb_revision := 0\<rparr>)))"
proof -
  have rev: "cb_inv (s\<lparr>cb_revision := 0\<rparr>) = cb_inv s" by (simp add: cb_inv_def cb_replay_def)
  have "\<exists>raw challenger claimer evs. submit_all cb_call (cb_new True raw challenger claimer) evs = Ok (s\<lparr>cb_revision := 0\<rparr>)"
    if "cb_version s = 1" and "cb_inv s"
    using cb_inv_played [OF that(2,1)] .
  moreover have "cb_inv s" if "submit_all cb_call (cb_new True raw challenger claimer) evs = Ok (s\<lparr>cb_revision := 0\<rparr>)" for raw challenger claimer evs
    using cb.calls.session_inv [OF cb_inv_new that] rev by simp
  ultimately show ?thesis using cb_parse_safe cb_parse_iff by blast
qed

end
