(* ===== verification/GinMelds.thy ===== *)
theory GinMelds
  imports CribbageCount "HOL-Library.Sublist"
begin

unbundle bit_operations_syntax

text \<open>
  The melds of gin rummy (\<open>late-ssh/src/app/lobby/daily/gin.rs\<close>): every arrangement of a hand into melds and
  deadwood, found over 16-bit masks of the hand's indices, the arrangement with the least deadwood, and
  the cards a defender lays off. A visitor called on each arrangement is the list of the arrangements in
  the order they are visited.
\<close>

section \<open>Arrangements\<close>

type_synonym u16 = "16 word"

definition bit_at :: "nat \<Rightarrow> u16" where
  "bit_at i = push_bit i 1"

definition mask_of :: "nat list \<Rightarrow> u16" where
  "mask_of indices = fold (\<lambda>i m. m OR bit_at i) indices 0"

text \<open>The masks of three or four of a rank.\<close>

definition set_melds :: "card list \<Rightarrow> rank \<Rightarrow> u16 list" where
  "set_melds hand r =
     (let same = filter (\<lambda>i. rank (hand ! i) = r) [0..<length hand];
          all = mask_of same
      in if length same = 3 then [all]
         else if length same = 4 then all # map (\<lambda>left_out. all AND NOT (bit_at left_out)) same
         else [])"

text \<open>The runs from one card on: the cards after it in its suit, while each is one above the last.\<close>

fun runs_on :: "card list \<Rightarrow> nat \<Rightarrow> u16 \<Rightarrow> nat \<Rightarrow> nat list \<Rightarrow> u16 list" where
  "runs_on hand latest m cards [] = []"
| "runs_on hand latest m cards (i # rest) =
     (if rank_number (rank (hand ! i)) \<noteq> rank_number (rank (hand ! latest)) + 1 then []
      else let m = m OR bit_at i
           in (if cards + 1 \<ge> 3 then [m] else []) @ runs_on hand i m (cards + 1) rest)"

fun runs_in :: "card list \<Rightarrow> nat list \<Rightarrow> u16 list" where
  "runs_in hand [] = []"
| "runs_in hand (i # rest) = runs_on hand i (bit_at i) 1 rest @ runs_in hand rest"

definition run_melds :: "card list \<Rightarrow> card_suit \<Rightarrow> u16 list" where
  "run_melds hand s = runs_in hand (sort_key (\<lambda>i. rank (hand ! i)) (filter (\<lambda>i. suit (hand ! i) = s) [0..<length hand]))"

definition candidate_melds :: "card list \<Rightarrow> u16 list" where
  "candidate_melds hand = concat (map (set_melds hand) RANKS) @ concat (map (run_melds hand) CARD_SUITS)"

text \<open>Every choice of candidates that do not overlap, the empty one first.\<close>

fun walk :: "u16 list \<Rightarrow> u16 \<Rightarrow> u16 list \<Rightarrow> (u16 list \<times> u16) list"
  and walk_from :: "u16 list \<Rightarrow> u16 \<Rightarrow> u16 list \<Rightarrow> (u16 list \<times> u16) list" where
  "walk candidates used chosen = (chosen, used) # walk_from candidates used chosen"
| "walk_from [] used chosen = []"
| "walk_from (meld # rest) used chosen =
     (if meld AND used = 0 then walk rest (used OR meld) (chosen @ [meld]) else []) @ walk_from rest used chosen"

definition each_melding :: "card list \<Rightarrow> (u16 list \<times> u16) list" where
  "each_melding hand = walk (candidate_melds hand) 0 []"

definition gin_points :: "card list \<Rightarrow> nat" where
  "gin_points cards = sum_list (map card_value cards)"

definition unused_points :: "card list \<Rightarrow> u16 \<Rightarrow> nat" where
  "unused_points hand used = sum_list (map (\<lambda>i. card_value (hand ! i)) (filter (\<lambda>i. used AND bit_at i = 0) [0..<length hand]))"

section \<open>The best arrangement\<close>

record melding =
  melds :: "card list list"
  deadwood :: "card list"

definition deadwood_points :: "melding \<Rightarrow> nat" where
  "deadwood_points m = gin_points (deadwood m)"

definition melding_cards :: "melding \<Rightarrow> card list" where
  "melding_cards m = concat (melds m) @ deadwood m"

definition cards_at :: "card list \<Rightarrow> (nat \<Rightarrow> bool) \<Rightarrow> card list" where
  "cards_at hand p = map (\<lambda>i. hand ! i) (filter p [0..<length hand])"

text \<open>A chosen mask names at least three cards, so the first card of a meld is always there.\<close>

definition melding_of :: "card list \<Rightarrow> u16 list \<Rightarrow> melding" where
  "melding_of hand chosen =
     (let sorted = map (\<lambda>m. sort_by_rank (cards_at hand (\<lambda>i. m AND bit_at i \<noteq> 0))) chosen;
          used = fold (\<lambda>m all. all OR m) chosen 0
      in \<lparr>melds = sort_key (\<lambda>meld. (rank (hd meld), suit_order (suit (hd meld)))) sorted,
          deadwood = sort_by_rank (cards_at hand (\<lambda>i. used AND bit_at i = 0))\<rparr>)"

text \<open>The first of the least: a later one replaces it only when it is smaller.\<close>

definition first_least :: "('a \<Rightarrow> nat) \<Rightarrow> 'a list \<Rightarrow> 'a option" where
  "first_least f xs =
     fold (\<lambda>x best. case best of None \<Rightarrow> Some x | Some b \<Rightarrow> if f x < f b then Some x else Some b) xs None"

definition best_melding :: "card list \<Rightarrow> melding option" where
  "best_melding hand =
     map_option (\<lambda>(chosen, _). melding_of hand chosen)
       (first_least (\<lambda>(_, used). unused_points hand used) (each_melding hand))"

definition deadwood_after_discard :: "card list \<Rightarrow> card \<Rightarrow> nat option" where
  "deadwood_after_discard hand c = map_option deadwood_points (best_melding (filter (\<lambda>held. held \<noteq> c) hand))"

section \<open>Laying off\<close>

definition is_run :: "card list \<Rightarrow> bool" where
  "is_run meld \<longleftrightarrow> list_all (\<lambda>c. suit c = suit (hd meld)) meld"

text \<open>Every meld laid down holds cards (lemma \<open>visited_melds_hold_cards\<close>): its first card, its lowest and its highest exist.\<close>

definition extends_run :: "card list \<Rightarrow> card \<Rightarrow> bool" where
  "extends_run meld c \<longleftrightarrow>
     is_run meld \<and> suit c = suit (hd meld) \<and>
     (let numbers = map (\<lambda>c. rank_number (rank c)) meld
      in rank_number (rank c) + 1 = Min (set numbers) \<or> rank_number (rank c) = Max (set numbers) + 1)"

definition completes_set :: "card list \<Rightarrow> card \<Rightarrow> bool" where
  "completes_set meld c \<longleftrightarrow> \<not> is_run meld \<and> length meld < 4 \<and> rank c = rank (hd meld)"

definition position :: "('a \<Rightarrow> bool) \<Rightarrow> 'a list \<Rightarrow> nat option" where
  "position p xs = find (\<lambda>i. p (xs ! i)) [0..<length xs]"

text \<open>Where a card fits, and the first card that fits.\<close>

definition fit_at :: "card list list \<Rightarrow> card \<Rightarrow> nat option" where
  "fit_at ms c =
     (case position (\<lambda>meld. extends_run meld c) ms of
        Some k \<Rightarrow> Some k
      | None \<Rightarrow> position (\<lambda>meld. completes_set meld c) ms)"

fun first_fit :: "card list list \<Rightarrow> card list \<Rightarrow> (nat \<times> nat) option" where
  "first_fit ms [] = None"
| "first_fit ms (c # rest) =
     (case fit_at ms c of
        Some k \<Rightarrow> Some (0, k)
      | None \<Rightarrow> map_option (\<lambda>(i, k). (i + 1, k)) (first_fit ms rest))"

lemma first_fit_lt: "first_fit ms cards = Some (i, k) \<Longrightarrow> i < length cards"
  by (induction cards arbitrary: i) (auto split: option.splits)

function lay_off_on :: "card list list \<Rightarrow> card list \<Rightarrow> card list \<Rightarrow> card list \<times> card list" where
  "lay_off_on ms remaining laid_off =
     (case first_fit ms remaining of
        None \<Rightarrow> (laid_off, sort_by_rank remaining)
      | Some (i, k) \<Rightarrow>
          lay_off_on (ms[k := ms ! k @ [remaining ! i]]) (take i remaining @ drop (i + 1) remaining) (laid_off @ [remaining ! i]))"
  by pat_completeness auto
termination
  by (relation "measure (\<lambda>(ms, remaining, laid_off). length remaining)") (auto dest!: first_fit_lt)

declare lay_off_on.simps [simp del]

definition lay_off :: "card list list \<Rightarrow> card list \<Rightarrow> card list \<times> card list" where
  "lay_off ms cards = lay_off_on ms cards []"

record reveal =
  rl_seat :: nat
  rl_melds :: "card list list"
  rl_laid_off :: "card list"
  rl_deadwood :: "card list"

definition reveal_points :: "reveal \<Rightarrow> nat" where
  "reveal_points r = gin_points (rl_deadwood r)"

definition defence_of :: "card list \<Rightarrow> card list list \<Rightarrow> nat \<Rightarrow> u16 list \<Rightarrow> reveal" where
  "defence_of hand knocker_melds seat chosen =
     (let m = melding_of hand chosen
      in case lay_off knocker_melds (deadwood m) of
           (laid_off, left) \<Rightarrow> \<lparr>rl_seat = seat, rl_melds = melds m, rl_laid_off = laid_off, rl_deadwood = left\<rparr>)"

definition best_defence :: "card list \<Rightarrow> card list list \<Rightarrow> nat \<Rightarrow> reveal option" where
  "best_defence hand knocker_melds seat =
     first_least reveal_points (map (\<lambda>(chosen, _). defence_of hand knocker_melds seat chosen) (each_melding hand))"

section \<open>Masks as sets of indices\<close>

definition mask_set :: "u16 \<Rightarrow> nat set" where
  "mask_set m = {i. bit m i}"

named_theorems mask_simps \<open>the sets of indices of combined masks\<close>

lemma mask_set_lt: "i \<in> mask_set m \<Longrightarrow> i < 16"
  using bit_imp_le_length [of m i] by (simp add: mask_set_def)

lemma bit_bit_at: "bit (bit_at i) j \<longleftrightarrow> i = j \<and> j < 16"
  by (auto simp: bit_at_def bit_exp_iff)

lemma mask_set_ops [mask_simps]:
  "mask_set 0 = {}"
  "mask_set (m OR k) = mask_set m \<union> mask_set k"
  "mask_set (m AND k) = mask_set m \<inter> mask_set k"
  "i < 16 \<Longrightarrow> mask_set (bit_at i) = {i}"
  "i < 16 \<Longrightarrow> mask_set (m AND NOT (bit_at i)) = mask_set m - {i}"
  using bit_imp_le_length [of m]
  by (auto simp: mask_set_def bit_or_iff bit_and_iff bit_not_iff bit_bit_at)

lemma mask_set_inject: "mask_set m = mask_set k \<longleftrightarrow> m = k"
  by (auto simp: mask_set_def intro: bit_eqI)

lemma mask_zero_iff: "m = 0 \<longleftrightarrow> mask_set m = {}"
  using mask_set_inject [of m 0] by (simp add: mask_simps)

lemma and_bit_at: "i < 16 \<Longrightarrow> m AND bit_at i = 0 \<longleftrightarrow> i \<notin> mask_set m"
  by (simp add: mask_zero_iff mask_simps)

lemma mask_set_or_fold: "mask_set (fold (\<lambda>m all. all OR m) ms u) = mask_set u \<union> (\<Union>m \<in> set ms. mask_set m)"
  by (induction ms arbitrary: u) (auto simp: mask_simps)

lemma mask_set_bits_fold:
  "\<forall>i \<in> set is. i < 16 \<Longrightarrow> mask_set (fold (\<lambda>i m. m OR bit_at i) is m) = mask_set m \<union> set is"
  by (induction "is" arbitrary: m) (auto simp: mask_simps)

lemma mask_set_of: "\<forall>i \<in> set is. i < 16 \<Longrightarrow> mask_set (mask_of is) = set is"
  by (simp add: mask_of_def mask_set_bits_fold mask_simps)

section \<open>The candidates are the melds\<close>

text \<open>
  A meld in the words of the rules: at least three cards of one rank, or at least three cards of one
  suit with consecutive ranks.
\<close>

definition gin_meld :: "card set \<Rightarrow> bool" where
  "gin_meld A \<longleftrightarrow>
     finite A \<and> 3 \<le> card A \<and>
     ((\<exists>r. \<forall>c \<in> A. rank c = r) \<or>
      (\<exists>s k. (\<forall>c \<in> A. suit c = s) \<and> (\<lambda>c. rank_number (rank c)) ` A = {k..<k + card A}))"

abbreviation rn :: "card list \<Rightarrow> nat \<Rightarrow> nat" where
  "rn hand i \<equiv> rank_number (rank (hand ! i))"

lemma card_eq_iff: "c = d \<longleftrightarrow> suit c = suit d \<and> rank c = (rank d :: rank)" for c d :: card
  by (cases c; cases d) auto

lemma same_card:
  assumes "distinct hand" and "i < length hand" and "j < length hand" and "suit (hand ! i) = suit (hand ! j)" and "rn hand i = rn hand j"
  shows "i = j"
  using assms by (auto simp: rank_number_inj card_eq_iff nth_eq_iff_index_eq [symmetric])

lemma suits_four: "card (A :: card_suit set) \<le> 4"
proof -
  have "s \<in> set CARD_SUITS" for s using suit_at_order [of s] suit_order_lt [of s] by (metis length_rosters(1) nth_mem)
  then have "A \<subseteq> set CARD_SUITS" by blast
  then have "card A \<le> card (set CARD_SUITS)" by (rule card_mono [rotated]) simp
  also have "\<dots> \<le> 4" using card_length [of CARD_SUITS] by (simp add: length_rosters)
  finally show ?thesis .
qed

definition same_rank :: "card list \<Rightarrow> rank \<Rightarrow> nat list" where
  "same_rank hand r = filter (\<lambda>i. rank (hand ! i) = r) [0..<length hand]"

lemma set_melds_same: "set_melds hand r =
    (if length (same_rank hand r) = 3 then [mask_of (same_rank hand r)]
     else if length (same_rank hand r) = 4 then
       mask_of (same_rank hand r) # map (\<lambda>left_out. mask_of (same_rank hand r) AND NOT (bit_at left_out)) (same_rank hand r)
     else [])"
  by (simp add: set_melds_def same_rank_def Let_def)

lemma mask_set_same: "length hand \<le> 16 \<Longrightarrow> mask_set (mask_of (same_rank hand r)) = set (same_rank hand r)"
  by (rule mask_set_of) (auto simp: same_rank_def)

lemma card_same_rank: "card (set (same_rank hand r)) = length (same_rank hand r)"
  by (rule distinct_card) (simp add: same_rank_def)

lemma same_rank_le:
  assumes "distinct hand"
  shows "length (same_rank hand r) \<le> 4"
proof -
  have "inj_on (\<lambda>i. suit (hand ! i)) (set (same_rank hand r))"
    using same_card [OF assms] by (auto simp: inj_on_def same_rank_def)
  then have "card (set (same_rank hand r)) = card ((\<lambda>i. suit (hand ! i)) ` set (same_rank hand r))" by (rule card_image [symmetric])
  also have "\<dots> \<le> 4" by (rule suits_four)
  finally show ?thesis by (simp only: card_same_rank)
qed

lemma set_melds_exact:
  assumes hand: "distinct hand" "length hand \<le> 16"
  shows "m \<in> set (set_melds hand r) \<longleftrightarrow>
    3 \<le> card (mask_set m) \<and> mask_set m \<subseteq> {..<length hand} \<and> (\<forall>i \<in> mask_set m. rank (hand ! i) = r)"
    (is "_ \<longleftrightarrow> ?meld")
proof -
  let ?same = "same_rank hand r"
  have S: "set ?same = {i. i < length hand \<and> rank (hand ! i) = r}" by (auto simp: same_rank_def)
  note c = card_same_rank [of hand r]
  have cond: "?meld \<longleftrightarrow> 3 \<le> card (mask_set m) \<and> mask_set m \<subseteq> set ?same" using S by auto
  have small: "i \<in> set ?same \<Longrightarrow> i < 16" for i using S hand(2) by simp
  note full = mask_set_same [OF hand(2), of r]
  show ?thesis
  proof
    assume "m \<in> set (set_melds hand r)"
    then consider "m = mask_of ?same" "3 \<le> length ?same"
      | l where "l \<in> set ?same" "m = mask_of ?same AND NOT (bit_at l)" "length ?same = 4"
      by (auto simp: set_melds_same split: if_splits)
    then show ?meld
    proof cases
      case 1
      then show ?thesis unfolding cond using full c by simp
    next
      case (2 l)
      then have "mask_set m = set ?same - {l}" using full mask_set_ops(5) [OF small [OF 2(1)]] by simp
      moreover from this 2 c have "card (mask_set m) = 3" by simp
      ultimately show ?thesis unfolding cond by auto
    qed
  next
    assume ?meld
    then have m: "3 \<le> card (mask_set m)" "mask_set m \<subseteq> set ?same" by (simp_all only: cond)
    have "card (mask_set m) \<le> length ?same" using card_mono [OF _ m(2)] c by simp
    moreover note same_rank_le [OF hand(1), of r]
    ultimately consider "card (mask_set m) = length ?same" "length ?same = 3 \<or> length ?same = 4"
      | "card (mask_set m) = 3" "length ?same = 4" using m(1) by linarith
    then show "m \<in> set (set_melds hand r)"
    proof cases
      case 1
      then have "mask_set m = set ?same" using card_subset_eq [OF _ m(2)] c by simp
      then have "mask_set m = mask_set (mask_of ?same)" using full by simp
      then have "m = mask_of ?same" by (simp only: mask_set_inject)
      with 1 show ?thesis by (auto simp: set_melds_same)
    next
      case 2
      then have "card (set ?same - mask_set m) = 1" using card_Diff_subset [OF _ m(2)] c finite_subset [OF m(2)] by simp
      then obtain l where l: "set ?same - mask_set m = {l}" by (auto simp: card_1_singleton_iff)
      then have ls: "l \<in> set ?same" "mask_set m = set ?same - {l}" using m(2) by auto
      then have "mask_set (mask_of ?same AND NOT (bit_at l)) = mask_set m" using full mask_set_ops(5) [OF small [OF ls(1)]] by simp
      then have "m = mask_of ?same AND NOT (bit_at l)" by (simp only: mask_set_inject)
      with 2 ls(1) show ?thesis by (auto simp: set_melds_same)
    qed
  qed
qed

text \<open>The runs: the stretches of consecutive ranks in the sorted cards of a suit.\<close>

lemma runs_on_iff:
  "m' \<in> set (runs_on hand latest m cards rest) \<longleftrightarrow>
    (\<exists>mid suf. rest = mid @ suf \<and> mid \<noteq> [] \<and> consecutive (map (rn hand) (latest # mid)) \<and> 3 \<le> cards + length mid \<and>
      m' = fold (\<lambda>i m. m OR bit_at i) mid m)"
proof (induction hand latest m cards rest rule: runs_on.induct)
  case (1 hand latest m cards)
  then show ?case by simp
next
  case (2 hand latest m cards i rest)
  have split: "(\<exists>mid suf. i # rest = mid @ suf \<and> mid \<noteq> [] \<and> Q mid) \<longleftrightarrow> Q [i] \<or> (\<exists>mid suf. rest = mid @ suf \<and> mid \<noteq> [] \<and> Q (i # mid))" for Q
  proof
    assume "\<exists>mid suf. i # rest = mid @ suf \<and> mid \<noteq> [] \<and> Q mid"
    then obtain tail suf where "rest = tail @ suf" "Q (i # tail)" by (auto simp: Cons_eq_append_conv)
    then show "Q [i] \<or> (\<exists>mid suf. rest = mid @ suf \<and> mid \<noteq> [] \<and> Q (i # mid))" by (cases "tail = []") (simp, blast)
  next
    assume "Q [i] \<or> (\<exists>mid suf. rest = mid @ suf \<and> mid \<noteq> [] \<and> Q (i # mid))"
    then obtain tail suf where "rest = tail @ suf" "Q (i # tail)" by auto
    then show "\<exists>mid suf. i # rest = mid @ suf \<and> mid \<noteq> [] \<and> Q mid" by (intro exI [of _ "i # tail"] exI [of _ suf]) simp
  qed
  show ?case
  proof (cases "rn hand i = rn hand latest + 1")
    case False
    then show ?thesis unfolding split by auto
  next
    case True
    with 2 show ?thesis unfolding split by (auto simp: Let_def)
  qed
qed

lemma runs_in_iff:
  "m' \<in> set (runs_in hand xs) \<longleftrightarrow>
    (\<exists>pre mid suf. xs = pre @ mid @ suf \<and> 3 \<le> length mid \<and> consecutive (map (rn hand) mid) \<and> m' = mask_of mid)"
proof (induction xs)
  case Nil
  then show ?case by auto
next
  case (Cons i rest)
  have head: "m' \<in> set (runs_on hand i (bit_at i) 1 rest) \<longleftrightarrow>
    (\<exists>mid suf. i # rest = mid @ suf \<and> 3 \<le> length mid \<and> consecutive (map (rn hand) mid) \<and> m' = mask_of mid)"
    (is "_ \<longleftrightarrow> (\<exists>mid suf. ?Q mid suf)")
  proof
    assume "m' \<in> set (runs_on hand i (bit_at i) 1 rest)"
    then obtain mid suf where "rest = mid @ suf" "consecutive (map (rn hand) (i # mid))" "2 \<le> length mid"
      "m' = fold (\<lambda>i m. m OR bit_at i) mid (bit_at i)" unfolding runs_on_iff by auto
    then have "?Q (i # mid) suf" by (simp add: mask_of_def)
    then show "\<exists>mid suf. ?Q mid suf" by blast
  next
    assume "\<exists>mid suf. ?Q mid suf"
    then obtain mid suf where q: "?Q mid suf" by blast
    then obtain tail where "mid = i # tail" "rest = tail @ suf" by (cases mid) auto
    with q show "m' \<in> set (runs_on hand i (bit_at i) 1 rest)" unfolding runs_on_iff by (auto simp: mask_of_def)
  qed
  have "(\<exists>pre mid suf. i # rest = pre @ mid @ suf \<and> P mid) \<longleftrightarrow>
      (\<exists>mid suf. i # rest = mid @ suf \<and> P mid) \<or> (\<exists>pre mid suf. rest = pre @ mid @ suf \<and> P mid)" for P
  proof
    assume "\<exists>pre mid suf. i # rest = pre @ mid @ suf \<and> P mid"
    then obtain pre mid suf where "i # rest = pre @ mid @ suf" "P mid" by blast
    then show "(\<exists>mid suf. i # rest = mid @ suf \<and> P mid) \<or> (\<exists>pre mid suf. rest = pre @ mid @ suf \<and> P mid)"
      by (cases pre) auto
  next
    assume "(\<exists>mid suf. i # rest = mid @ suf \<and> P mid) \<or> (\<exists>pre mid suf. rest = pre @ mid @ suf \<and> P mid)"
    then show "\<exists>pre mid suf. i # rest = pre @ mid @ suf \<and> P mid" by (metis append_Cons append_Nil)
  qed
  with head Cons.IH show ?case by (simp add: ex_disj_distrib) 
qed

definition in_suit :: "card list \<Rightarrow> card_suit \<Rightarrow> nat list" where
  "in_suit hand s = sort_key (\<lambda>i. rank (hand ! i)) (filter (\<lambda>i. suit (hand ! i) = s) [0..<length hand])"

lemma set_in_suit: "set (in_suit hand s) = {i. i < length hand \<and> suit (hand ! i) = s}"
  by (auto simp: in_suit_def)

lemma in_suit_sorted:
  assumes "distinct hand"
  shows "sorted_wrt (\<lambda>i j. rn hand i < rn hand j) (in_suit hand s)"
proof -
  have "sorted (map (\<lambda>i. rank (hand ! i)) (in_suit hand s))" "distinct (in_suit hand s)" by (simp_all add: in_suit_def)
  then have "sorted_wrt (\<lambda>i j. rn hand i \<le> rn hand j \<and> i \<noteq> j) (in_suit hand s)"
    by (induction "in_suit hand s" arbitrary: hand) (auto simp: sorted_map less_eq_rank_def distinct_conv_nth sorted_wrt_iff_nth_less)
  then show ?thesis
  proof (rule sorted_wrt_mono_rel [rotated])
    fix i j
    assume ij: "i \<in> set (in_suit hand s)" "j \<in> set (in_suit hand s)" "rn hand i \<le> rn hand j \<and> i \<noteq> j"
    then show "rn hand i < rn hand j" using same_card [OF assms, of i j] by (auto simp: set_in_suit le_less)
  qed
qed

lemma sorted_split:
  assumes "sorted_wrt (\<lambda>i j. f i < (f j :: nat)) xs"
  shows "xs = filter (\<lambda>i. f i < a) xs @ filter (\<lambda>i. a \<le> f i) xs"
  using assms
proof (induction xs)
  case (Cons x xs)
  show ?case
  proof (cases "f x < a")
    case True
    with Cons show ?thesis by simp
  next
    case False
    with Cons.prems have "\<forall>i \<in> set xs. \<not> f i < a" by fastforce
    then have "filter (\<lambda>i. f i < a) xs = []" "filter (\<lambda>i. a \<le> f i) xs = xs" by (auto simp: filter_empty_conv filter_id_conv)
    with False show ?thesis by simp
  qed
qed simp

lemma run_melds_exact:
  assumes hand: "distinct hand" "length hand \<le> 16"
  shows "m \<in> set (run_melds hand s) \<longleftrightarrow>
    3 \<le> card (mask_set m) \<and> mask_set m \<subseteq> {..<length hand} \<and> (\<forall>i \<in> mask_set m. suit (hand ! i) = s) \<and>
    (\<exists>k. rn hand ` mask_set m = {k..<k + card (mask_set m)})"
    (is "_ \<longleftrightarrow> ?meld")
proof -
  let ?xs = "in_suit hand s"
  have sorted: "sorted_wrt (\<lambda>i j. rn hand i < rn hand j) ?xs" by (rule in_suit_sorted [OF hand(1)])
  have small: "\<forall>i \<in> set mid. i < 16" if "?xs = pre @ mid @ suf" for pre mid suf
  proof
    fix i assume "i \<in> set mid"
    with that have "i \<in> set ?xs" by simp
    with hand(2) show "i < 16" by (simp add: set_in_suit)
  qed
  have runs: "m \<in> set (run_melds hand s) \<longleftrightarrow>
    (\<exists>pre mid suf. ?xs = pre @ mid @ suf \<and> 3 \<le> length mid \<and> consecutive (map (rn hand) mid) \<and> m = mask_of mid)"
    by (simp add: run_melds_def in_suit_def [symmetric] runs_in_iff)
  show ?thesis
  proof
    assume "m \<in> set (run_melds hand s)"
    then obtain pre mid suf where x: "?xs = pre @ mid @ suf" and l: "3 \<le> length mid" and c: "consecutive (map (rn hand) mid)"
      and m: "m = mask_of mid" unfolding runs by blast
    have M: "mask_set m = set mid" unfolding m by (rule mask_set_of [OF small [OF x]])
    have "distinct ?xs" by (simp add: in_suit_def)
    then have "card (set mid) = length mid" using x by (simp add: distinct_card)
    moreover obtain k where "map (rn hand) mid = [k..<k + length mid]" using c by (auto simp: consecutive_iff)
    then have "rn hand ` set mid = {k..<k + length mid}" by (metis list.set_map set_upt)
    moreover have "set mid \<subseteq> set ?xs" using x by auto
    ultimately show ?meld using l by (auto simp: M set_in_suit)
  next
    assume meld: ?meld
    then obtain k where k: "rn hand ` mask_set m = {k..<k + card (mask_set m)}" by blast
    let ?c = "card (mask_set m)"
    let ?mid = "filter (\<lambda>i. k \<le> rn hand i \<and> rn hand i < k + ?c) ?xs"
    have "?xs = filter (\<lambda>i. rn hand i < k) ?xs @ filter (\<lambda>i. k \<le> rn hand i) ?xs" by (rule sorted_split [OF sorted])
    also have "filter (\<lambda>i. k \<le> rn hand i) ?xs = ?mid @ filter (\<lambda>i. k + ?c \<le> rn hand i) ?xs"
    proof -
      have "sorted_wrt (\<lambda>i j. rn hand i < rn hand j) (filter (\<lambda>i. k \<le> rn hand i) ?xs)" using sorted by (rule sorted_wrt_filter)
      from sorted_split [OF this, of "k + ?c"] show ?thesis by (auto intro: filter_cong simp: conj_commute)
    qed
    finally have x: "?xs = filter (\<lambda>i. rn hand i < k) ?xs @ ?mid @ filter (\<lambda>i. k + ?c \<le> rn hand i) ?xs" .
    have set: "set ?mid = mask_set m"
    proof (rule set_eqI)
      fix i
      show "i \<in> set ?mid \<longleftrightarrow> i \<in> mask_set m"
      proof
        assume i: "i \<in> set ?mid"
        then have "rn hand i \<in> rn hand ` mask_set m" using k by simp
        then obtain j where j: "j \<in> mask_set m" "rn hand j = rn hand i" by auto
        have "i < length hand" "j < length hand" "suit (hand ! i) = suit (hand ! j)" using i j meld by (auto simp: set_in_suit)
        with same_card [OF hand(1)] j have "i = j" by simp
        with j show "i \<in> mask_set m" by simp
      next
        assume i: "i \<in> mask_set m"
        then have "rn hand i \<in> {k..<k + ?c}" using k by blast
        with i meld show "i \<in> set ?mid" by (auto simp: set_in_suit)
      qed
    qed
    have "distinct ?mid" by (simp add: in_suit_def)
    then have len: "length ?mid = ?c" using distinct_card [of ?mid] unfolding set by simp
    have "sorted_wrt (\<lambda>i j. rn hand i < rn hand j) ?mid" using sorted by (rule sorted_wrt_filter)
    then have "sorted_wrt (<) (map (rn hand) ?mid)" by (simp add: sorted_wrt_map)
    then have "sorted (map (rn hand) ?mid)" "distinct (map (rn hand) ?mid)" by (simp_all only: strict_sorted_iff)
    then have "map (rn hand) ?mid = sorted_list_of_set (set (map (rn hand) ?mid))"
      by (rule sorted_list_of_set.idem_if_sorted_distinct [symmetric])
    also have "set (map (rn hand) ?mid) = set [k..<k + ?c]" using set k by simp
    also have "sorted_list_of_set \<dots> = [k..<k + ?c]" by (rule sorted_list_of_set.idem_if_sorted_distinct) simp_all
    finally have "map (rn hand) ?mid = [k..<k + length (map (rn hand) ?mid)]" unfolding length_map len .
    then have c: "consecutive (map (rn hand) ?mid)" unfolding consecutive_iff by (rule exI)
    have "mask_set m = mask_set (mask_of ?mid)" unfolding mask_set_of [OF small [OF x]] set ..
    then have "m = mask_of ?mid" by (simp only: mask_set_inject)
    moreover have "3 \<le> length ?mid" using len meld by simp
    ultimately show "m \<in> set (run_melds hand s)" unfolding runs using x c by (intro exI conjI)
  qed
qed

section \<open>Every arrangement is visited\<close>

text \<open>Index sets and card sets of a distinct hand.\<close>

lemma cards_inj: "distinct hand \<Longrightarrow> S \<subseteq> {..<length hand} \<Longrightarrow> inj_on ((!) hand) S"
  by (auto simp: inj_on_def subset_iff nth_eq_iff_index_eq)

lemma candidate_iff:
  assumes hand: "distinct hand" "length hand \<le> 16"
  shows "m \<in> set (candidate_melds hand) \<longleftrightarrow> mask_set m \<subseteq> {..<length hand} \<and> gin_meld ((!) hand ` mask_set m)"
proof -
  have ranks: "set RANKS = UNIV"
  proof (rule UNIV_eq_I [symmetric])
    show "r \<in> set RANKS" for r by (cases r) (simp_all add: RANKS_def)
  qed
  have suits: "set CARD_SUITS = UNIV"
  proof (rule UNIV_eq_I [symmetric])
    show "s \<in> set CARD_SUITS" for s by (cases s) (simp_all add: CARD_SUITS_def)
  qed
  have split: "m \<in> set (candidate_melds hand) \<longleftrightarrow> (\<exists>r. m \<in> set (set_melds hand r)) \<or> (\<exists>s. m \<in> set (run_melds hand s))"
    using ranks suits by (auto simp: candidate_melds_def)
  show ?thesis
  proof (cases "mask_set m \<subseteq> {..<length hand}")
    case False
    then show ?thesis unfolding split set_melds_exact [OF hand] run_melds_exact [OF hand] by auto
  next
    case True
    have "card ((!) hand ` mask_set m) = card (mask_set m)" by (rule card_image [OF cards_inj [OF hand(1) True]])
    moreover have "finite (mask_set m)" using True finite_subset by blast
    ultimately show ?thesis
      unfolding split set_melds_exact [OF hand] run_melds_exact [OF hand] gin_meld_def using True by (auto simp: image_image)
  qed
qed

text \<open>The visits of \<open>walk\<close>: the choices of candidates that overlap neither each other nor the cards already used.\<close>

definition apart :: "u16 \<Rightarrow> u16 list \<Rightarrow> bool" where
  "apart used ms \<longleftrightarrow> sorted_wrt (\<lambda>a b. mask_set a \<inter> mask_set b = {}) ms \<and> (\<forall>m \<in> set ms. mask_set m \<inter> mask_set used = {})"

lemma apart_simps [simp]:
  "apart used []"
  "apart used (m # ms) \<longleftrightarrow> mask_set m \<inter> mask_set used = {} \<and> apart (used OR m) ms"
  by (auto simp: apart_def mask_simps)

lemma subseq_Cons_iff: "subseq xs (y # ys) \<longleftrightarrow> subseq xs ys \<or> (\<exists>zs. xs = y # zs \<and> subseq zs ys)"
  by (cases xs) (auto dest: subseq_Cons')

lemma walk_iff:
  "(c, u) \<in> set (walk ms used chosen) \<longleftrightarrow> (\<exists>sub. subseq sub ms \<and> apart used sub \<and> c = chosen @ sub \<and> u = fold (\<lambda>m all. all OR m) sub used)"
  "(c, u) \<in> set (walk_from ms used chosen) \<longleftrightarrow>
    (\<exists>sub. sub \<noteq> [] \<and> subseq sub ms \<and> apart used sub \<and> c = chosen @ sub \<and> u = fold (\<lambda>m all. all OR m) sub used)"
proof (induction ms used chosen and ms used chosen rule: walk_walk_from.induct)
  case (1 candidates used chosen)
  then show ?case by auto
next
  case (2 used chosen)
  then show ?case by auto
next
  case (3 meld rest used chosen)
  show ?case
  proof (cases "meld AND used = 0")
    case True
    then have "mask_set meld \<inter> mask_set used = {}" using mask_zero_iff [of "meld AND used"] by (simp add: mask_simps)
    with 3(1) [OF True] 3(2) True show ?thesis by (auto simp: subseq_Cons_iff)
  next
    case False
    then have "mask_set meld \<inter> mask_set used \<noteq> {}" using mask_zero_iff [of "meld AND used"] by (simp add: mask_simps)
    with 3(2) False show ?thesis by (auto simp: subseq_Cons_iff)
  qed
qed

lemma each_melding_iff:
  "(chosen, used) \<in> set (each_melding hand) \<longleftrightarrow>
    subseq chosen (candidate_melds hand) \<and> apart 0 chosen \<and> used = fold (\<lambda>m all. all OR m) chosen 0"
  by (auto simp: each_melding_def walk_iff)

lemma distinct_sorted_wrt: "distinct xs \<Longrightarrow> (\<And>a b. a \<in> set xs \<Longrightarrow> b \<in> set xs \<Longrightarrow> a \<noteq> b \<Longrightarrow> Q a b) \<Longrightarrow> sorted_wrt Q xs"
  by (induction xs) auto

lemma subseq_remdups: "subseq (remdups xs) xs"
  by (induction xs) auto

lemma pick_subseq: "A \<subseteq> set xs \<Longrightarrow> \<exists>sub. subseq sub xs \<and> distinct sub \<and> set sub = A"
  by (rule exI [of _ "filter (\<lambda>x. x \<in> A) (remdups xs)"]) (auto intro: subseq_order.trans [OF subseq_filter_left subseq_remdups])

text \<open>Every family of melds of the hand that do not overlap is one of the visited choices.\<close>

lemma visited_family:
  assumes hand: "distinct hand" "length hand \<le> 16"
    and F: "\<And>A. A \<in> F \<Longrightarrow> gin_meld A \<and> A \<subseteq> set hand" "pairwise disjnt F"
  shows "\<exists>chosen used. (chosen, used) \<in> set (each_melding hand) \<and> (!) hand ` mask_set used = \<Union>F"
proof -
  define index where "index A = {i. i < length hand \<and> hand ! i \<in> A}" for A
  have img: "(!) hand ` index A = A" if "A \<in> F" for A
  proof -
    have "A \<subseteq> set hand" using F(1) [OF that] by simp
    then show ?thesis by (force simp: index_def in_set_conv_nth)
  qed
  have small: "\<forall>i \<in> set (filter (\<lambda>i. hand ! i \<in> A) [0..<length hand]). i < 16" for A using hand(2) by auto
  define m where "m A = mask_of (filter (\<lambda>i. hand ! i \<in> A) [0..<length hand])" for A
  have ms: "mask_set (m A) = index A" for A unfolding m_def mask_set_of [OF small] by (auto simp: index_def)
  have "m ` F \<subseteq> set (candidate_melds hand)"
    using F(1) img by (auto simp: candidate_iff [OF hand] ms) (auto simp: index_def)
  then obtain sub where sub: "subseq sub (candidate_melds hand)" "distinct sub" "set sub = m ` F"
    using pick_subseq by metis
  have dis: "mask_set a \<inter> mask_set b = {}" if "a \<in> m ` F" "b \<in> m ` F" "a \<noteq> b" for a b
  proof -
    obtain A B where ab: "A \<in> F" "a = m A" "B \<in> F" "b = m B" "A \<noteq> B" using \<open>a \<in> m ` F\<close> \<open>b \<in> m ` F\<close> \<open>a \<noteq> b\<close> by auto
    with F(2) have "disjnt A B" by (auto simp: pairwise_def)
    with ab show ?thesis by (auto simp: ms index_def disjnt_def)
  qed
  have "apart 0 sub"
    using distinct_sorted_wrt [OF sub(2), of "\<lambda>a b. mask_set a \<inter> mask_set b = {}"] dis sub(3) by (simp add: apart_def mask_simps)
  moreover have "(!) hand ` mask_set (fold (\<lambda>m all. all OR m) sub 0) = \<Union>F"
  proof -
    have "(\<Union>A \<in> F. (!) hand ` index A) = (\<Union>A \<in> F. A)" by (rule SUP_cong) (simp_all add: img)
    moreover have "mask_set (fold (\<lambda>m all. all OR m) sub 0) = (\<Union>A \<in> F. index A)" using sub(3) by (simp add: mask_set_or_fold mask_simps ms)
    ultimately show ?thesis by (simp add: image_UN)
  qed
  ultimately show ?thesis using sub(1) by (auto simp: each_melding_iff)
qed

lemma visited_used:
  assumes hand: "distinct hand" "length hand \<le> 16" and v: "(chosen, used) \<in> set (each_melding hand)"
  shows "mask_set used = (\<Union>m \<in> set chosen. mask_set m)" "mask_set used \<subseteq> {..<length hand}" "apart 0 chosen"
    "m \<in> set chosen \<Longrightarrow> mask_set m \<subseteq> {..<length hand} \<and> gin_meld ((!) hand ` mask_set m)"
proof -
  have c: "subseq chosen (candidate_melds hand)" "apart 0 chosen" "used = fold (\<lambda>m all. all OR m) chosen 0"
    using v by (simp_all add: each_melding_iff)
  have cand: "m \<in> set chosen \<Longrightarrow> mask_set m \<subseteq> {..<length hand} \<and> gin_meld ((!) hand ` mask_set m)" for m
    using list_emb_set [OF c(1)] candidate_iff [OF hand, of m] by auto
  show "mask_set used = (\<Union>m \<in> set chosen. mask_set m)" "apart 0 chosen"
    using c(2,3) by (simp_all add: mask_set_or_fold mask_simps)
  then show "mask_set used \<subseteq> {..<length hand}" using cand by blast
  show "m \<in> set chosen \<Longrightarrow> mask_set m \<subseteq> {..<length hand} \<and> gin_meld ((!) hand ` mask_set m)" by (rule cand)
qed

section \<open>The least deadwood\<close>

lemma first_least_spec:
  assumes "xs \<noteq> []"
  shows "\<exists>x. first_least f xs = Some x \<and> x \<in> set xs \<and> (\<forall>y \<in> set xs. f x \<le> f y)"
proof -
  have "\<exists>x. fold (\<lambda>x best. case best of None \<Rightarrow> Some x | Some b \<Rightarrow> if f x < f b then Some x else Some b) xs (Some b) = Some x \<and>
      x \<in> insert b (set xs) \<and> (\<forall>y \<in> insert b (set xs). f x \<le> f y)" for b xs
  proof (induction xs arbitrary: b)
    case (Cons a xs)
    obtain b' where b': "b' = (if f a < f b then a else b)" by simp
    from Cons.IH [of b'] show ?case by (auto simp: b' split: if_splits)
  qed simp
  with assms show ?thesis by (cases xs) (auto simp: first_least_def)
qed

lemma cards_at_mask:
  assumes "length hand \<le> 16"
  shows "cards_at hand (\<lambda>i. m AND bit_at i \<noteq> 0) = cards_at hand (\<lambda>i. i \<in> mask_set m)"
    "cards_at hand (\<lambda>i. m AND bit_at i = 0) = cards_at hand (\<lambda>i. i \<notin> mask_set m)"
    "unused_points hand m = gin_points (cards_at hand (\<lambda>i. i \<notin> mask_set m))"
  using assms
  by (auto simp: cards_at_def unused_points_def gin_points_def comp_def and_bit_at intro!: arg_cong [where f = sum_list] map_cong filter_cong)

lemma mset_filter_split:
  "(\<And>x. x \<in> set xs \<Longrightarrow> r x \<longleftrightarrow> p x \<or> q x) \<Longrightarrow> (\<And>x. x \<in> set xs \<Longrightarrow> \<not> (p x \<and> q x)) \<Longrightarrow>
    mset (map f (filter r xs)) = mset (map f (filter p xs)) + mset (map f (filter q xs))"
  by (induction xs) auto

lemma melds_and_rest:
  "apart u ms \<Longrightarrow>
    (\<Sum>m \<leftarrow> ms. mset (cards_at hand (\<lambda>i. i \<in> mask_set m))) +
      mset (cards_at hand (\<lambda>i. i \<notin> mask_set (fold (\<lambda>m all. all OR m) ms u))) =
    mset (cards_at hand (\<lambda>i. i \<notin> mask_set u))"
proof (induction ms arbitrary: u)
  case (Cons m ms)
  then have "mset (cards_at hand (\<lambda>i. i \<notin> mask_set u)) =
      mset (cards_at hand (\<lambda>i. i \<in> mask_set m)) + mset (cards_at hand (\<lambda>i. i \<notin> mask_set (u OR m)))"
    unfolding cards_at_def by (intro mset_filter_split) (auto simp: mask_simps)
  with Cons.IH [of "u OR m"] Cons.prems show ?case by (simp add: ac_simps)
qed simp

lemma mset_sort_by_rank [simp]: "mset (sort_by_rank cards) = mset cards"
  by (simp add: sort_by_rank_def)

lemma mset_concat_sort_key: "mset (concat (sort_key f xss)) = (\<Sum>xs \<leftarrow> xss. mset xs)"
proof -
  have "mset (concat (sort_key f xss)) = \<Sum>\<^sub># (image_mset mset (mset (sort_key f xss)))"
    by (simp add: mset_concat sum_mset_sum_list [symmetric] del: mset_sort)
  then show ?thesis by (simp add: sum_mset_sum_list [symmetric])
qed

lemma gin_points_mset: "mset xs = mset ys \<Longrightarrow> gin_points xs = gin_points ys"
  unfolding gin_points_def by (metis mset_map sum_mset_sum_list)

text \<open>What a visited choice lays down.\<close>

lemma visited_melding:
  assumes hand: "distinct hand" "length hand \<le> 16" and v: "(chosen, used) \<in> set (each_melding hand)"
  shows "mset (concat (melds (melding_of hand chosen))) + mset (deadwood (melding_of hand chosen)) = mset hand"
    "\<forall>meld \<in> set (melds (melding_of hand chosen)). gin_meld (set meld) \<and> distinct meld"
    "deadwood_points (melding_of hand chosen) = unused_points hand used"
proof -
  note vis = visited_used [OF hand v]
  have used: "fold (\<lambda>m all. all OR m) chosen 0 = used" using v by (simp add: each_melding_iff)
  let ?sorted = "map (\<lambda>m. sort_by_rank (cards_at hand (\<lambda>i. i \<in> mask_set m))) chosen"
  have m: "melding_of hand chosen = \<lparr>melds = sort_key (\<lambda>meld. (rank (hd meld), suit_order (suit (hd meld)))) ?sorted,
      deadwood = sort_by_rank (cards_at hand (\<lambda>i. i \<notin> mask_set used))\<rparr>"
    by (simp add: melding_of_def Let_def used cards_at_mask [OF hand(2)])
  have "mset (cards_at hand (\<lambda>i. i \<notin> mask_set 0)) = mset hand"
    by (simp add: mask_simps cards_at_def map_nth)
  with melds_and_rest [OF vis(3), of hand] used
  show "mset (concat (melds (melding_of hand chosen))) + mset (deadwood (melding_of hand chosen)) = mset hand"
    by (simp add: m mset_concat_sort_key comp_def)
  show "\<forall>meld \<in> set (melds (melding_of hand chosen)). gin_meld (set meld) \<and> distinct meld"
  proof
    fix meld
    assume "meld \<in> set (melds (melding_of hand chosen))"
    then obtain k where k: "k \<in> set chosen" "meld = sort_by_rank (cards_at hand (\<lambda>i. i \<in> mask_set k))" by (auto simp: m)
    have sub: "mask_set k \<subseteq> {..<length hand}" using vis(4) [OF k(1)] by simp
    have "set meld = (!) hand ` mask_set k" using sub by (auto simp: k(2) sort_by_rank_def cards_at_def)
    moreover have "distinct meld"
      using cards_inj [OF hand(1), of "{i. i < length hand \<and> i \<in> mask_set k}"]
      by (auto simp: k(2) sort_by_rank_def cards_at_def distinct_map inj_on_def)
    ultimately show "gin_meld (set meld) \<and> distinct meld" using vis(4) [OF k(1)] by simp
  qed
  show "deadwood_points (melding_of hand chosen) = unused_points hand used"
    unfolding deadwood_points_def m cards_at_mask [OF hand(2)] by (rule gin_points_mset) simp
qed

text \<open>The first card of a visited meld is there.\<close>

lemma visited_melds_hold_cards:
  assumes "distinct hand" "length hand \<le> 16" and "(chosen, used) \<in> set (each_melding hand)"
    and "meld \<in> set (melds (melding_of hand chosen))"
  shows "3 \<le> length meld"
  using visited_melding(2) [OF assms(1-3)] assms(4) card_length [of meld] by (fastforce simp: gin_meld_def)

lemma unused_points_sum:
  assumes hand: "distinct hand" "length hand \<le> 16" and v: "(chosen, used) \<in> set (each_melding hand)"
  shows "unused_points hand used = (\<Sum>c \<in> set hand - (!) hand ` mask_set used. card_value c)"
proof -
  let ?I = "{i. i < length hand \<and> i \<notin> mask_set used}"
  have inj: "inj_on ((!) hand) {..<length hand}" by (rule cards_inj [OF hand(1)]) simp
  have "(!) hand ` ({..<length hand} - mask_set used) = (!) hand ` {..<length hand} - (!) hand ` mask_set used"
    by (rule inj_on_image_set_diff [OF inj]) (use visited_used(2) [OF hand v] in auto)
  moreover have "(!) hand ` {..<length hand} = set hand" by (auto simp: in_set_conv_nth)
  moreover have I: "?I = {..<length hand} - mask_set used" by auto
  ultimately have img: "(!) hand ` ?I = set hand - (!) hand ` mask_set used" by simp
  have "unused_points hand used = (\<Sum>i \<in> ?I. card_value (hand ! i))"
    using sum_list_distinct_conv_sum_set [of "filter (\<lambda>i. i \<notin> mask_set used) [0..<length hand]" "\<lambda>i. card_value (hand ! i)"]
    by (simp add: cards_at_mask(3) [OF hand(2)] gin_points_def cards_at_def comp_def)
  also have "\<dots> = (\<Sum>c \<in> (!) hand ` ?I. card_value c)"
    by (rule sum.reindex [symmetric, unfolded comp_def]) (rule inj_on_subset [OF inj], auto)
  finally show ?thesis by (simp add: img)
qed

lemma best_melding_spec:
  assumes hand: "distinct hand" "length hand \<le> 16"
  shows "\<exists>chosen used. (chosen, used) \<in> set (each_melding hand) \<and> best_melding hand = Some (melding_of hand chosen) \<and>
    (\<forall>(c, u) \<in> set (each_melding hand). unused_points hand used \<le> unused_points hand u)"
proof -
  have "each_melding hand \<noteq> []" by (simp add: each_melding_def)
  from first_least_spec [OF this, of "\<lambda>(_, used). unused_points hand used"] obtain x where
    l: "first_least (\<lambda>(_, used). unused_points hand used) (each_melding hand) = Some x" "x \<in> set (each_melding hand)"
      "\<forall>y \<in> set (each_melding hand). (\<lambda>(_, used). unused_points hand used) x \<le> (\<lambda>(_, used). unused_points hand used) y" by blast
  obtain chosen used where x: "x = (chosen, used)" by (cases x)
  have "unused_points hand used \<le> unused_points hand u" if "(c, u) \<in> set (each_melding hand)" for c u
    using bspec [OF l(3) that] by (simp add: x)
  with l(1,2) x show ?thesis by (auto simp: best_melding_def)
qed

section \<open>What can be laid off\<close>

lemma gin_meld_set_size:
  fixes A :: "card set"
  assumes "\<forall>c \<in> A. rank c = r" and "finite A"
  shows "card A \<le> 4"
proof -
  have "inj_on suit A"
  proof (rule inj_onI)
    fix c d
    assume "c \<in> A" "d \<in> A" "suit c = suit d"
    moreover from this assms(1) have "rank c = rank d" by simp
    ultimately show "c = d" using card_eq_iff by blast
  qed
  then have "card A = card (suit ` A)" by (rule card_image [symmetric])
  with suits_four [of "suit ` A"] show ?thesis by simp
qed

lemma is_run_iff: "meld \<noteq> [] \<Longrightarrow> is_run meld \<longleftrightarrow> (\<exists>s. \<forall>c \<in> set meld. suit c = s)"
  by (cases meld) (auto simp: is_run_def list_all_iff)

lemma insert_interval:
  assumes "insert x {k..<k + n} = {j..<j + Suc n}" and "3 \<le> (n :: nat)"
  shows "x + 1 = k \<or> x = k + n"
proof -
  have a: "i \<in> insert x {k..<k + n} \<longleftrightarrow> i \<in> {j..<j + Suc n}" for i by (simp only: assms(1))
  have "j \<le> k" "k + n \<le> j + Suc n" using a [of k] a [of "k + n - 1"] assms(2) by auto
  then consider "j = k" | "j + 1 = k" by linarith
  then show ?thesis
  proof cases
    case 1
    with a [of "k + n"] show ?thesis by auto
  next
    case 2
    with a [of j] show ?thesis by auto
  qed
qed

lemma fit_iff:
  assumes m: "gin_meld (set meld)" "distinct meld" and c: "c \<notin> set meld"
  shows "extends_run meld c \<or> completes_set meld c \<longleftrightarrow> gin_meld (insert c (set meld))"
proof -
  let ?M = "set meld"
  let ?num = "\<lambda>c. rank_number (rank c)"
  have len: "3 \<le> length meld" "card ?M = length meld" using m by (simp_all add: gin_meld_def distinct_card)
  then have ne: "meld \<noteq> []" by auto
  have ins: "card (insert c ?M) = Suc (length meld)" using c len by simp
  consider (set) r where "\<forall>d \<in> ?M. rank d = r"
    | (run) s k where "\<forall>d \<in> ?M. suit d = s" "?num ` ?M = {k..<k + length meld}"
    using m(1) len by (auto simp: gin_meld_def)
  then show ?thesis
  proof cases
    case set
    have no_suit: "\<not> (\<forall>d \<in> ?M. suit d = s)" for s
    proof
      assume "\<forall>d \<in> ?M. suit d = s"
      with set have "?M \<subseteq> {\<lparr>suit = s, rank = r\<rparr>}" by (auto simp: card_eq_iff)
      then have "card ?M \<le> card {\<lparr>suit = s, rank = r\<rparr>}" by (rule card_mono [rotated]) simp
      with len show False by simp
    qed
    then have no_run: "\<not> is_run meld" using is_run_iff [OF ne] by blast
    have hd: "rank (hd meld) = r" using set ne by simp
    have "gin_meld (insert c ?M) \<longleftrightarrow> rank c = r"
    proof
      assume "gin_meld (insert c ?M)"
      then consider r' where "\<forall>d \<in> insert c ?M. rank d = r'" | s where "\<forall>d \<in> insert c ?M. suit d = s" by (auto simp: gin_meld_def)
      then show "rank c = r"
      proof cases
        case (1 r')
        with hd ne show ?thesis by auto
      next
        case (2 s)
        with no_suit [of s] show ?thesis by blast
      qed
    next
      assume "rank c = r"
      with set have "\<forall>d \<in> insert c ?M. rank d = r" by simp
      with ins len show "gin_meld (insert c ?M)" by (auto simp: gin_meld_def)
    qed
    moreover have "rank c = r \<Longrightarrow> length meld < 4"
      using gin_meld_set_size [of "insert c ?M" r] set ins by simp
    ultimately show ?thesis using no_run hd by (auto simp: extends_run_def completes_set_def)
  next
    case run
    have is_run: "is_run meld" using is_run_iff [OF ne] run(1) by blast
    have hd: "suit (hd meld) = s" using run(1) ne by simp
    have "Min (?num ` ?M) = k" "Max (?num ` ?M) = k + length meld - 1"
      unfolding run(2) using len by (auto intro!: Min_eqI Max_eqI)
    then have fits: "extends_run meld c \<or> completes_set meld c \<longleftrightarrow> suit c = s \<and> (?num c + 1 = k \<or> ?num c = k + length meld)"
      using is_run hd len by (auto simp: extends_run_def completes_set_def Let_def)
    show ?thesis unfolding fits
    proof
      assume f: "suit c = s \<and> (?num c + 1 = k \<or> ?num c = k + length meld)"
      then obtain j where "insert (?num c) {k..<k + length meld} = {j..<j + Suc (length meld)}"
      proof (elim conjE disjE)
        assume "?num c + 1 = k"
        then have "insert (?num c) {k..<k + length meld} = {?num c..<?num c + Suc (length meld)}" by auto
        then show thesis by (rule that)
      next
        assume "?num c = k + length meld"
        then have "insert (?num c) {k..<k + length meld} = {k..<k + Suc (length meld)}" by auto
        then show thesis by (rule that)
      qed
      then have "?num ` insert c ?M = {j..<j + card (insert c ?M)}" unfolding ins image_insert run(2) .
      moreover have "\<forall>d \<in> insert c ?M. suit d = s" using f run(1) by simp
      ultimately show "gin_meld (insert c ?M)" using ins len unfolding gin_meld_def by auto
    next
      assume g: "gin_meld (insert c ?M)"
      have "\<not> (\<forall>d \<in> ?M. rank d = r)" for r
      proof
        assume "\<forall>d \<in> ?M. rank d = r"
        then have "?num ` ?M \<subseteq> {rank_number r}" by auto
        then have "{k..<k + length meld} \<subseteq> {rank_number r}" by (simp only: run(2))
        then have "card {k..<k + length meld} \<le> card {rank_number r}" by (rule card_mono [rotated]) simp
        with len show False by simp
      qed
      with g obtain s' j where g': "\<forall>d \<in> insert c ?M. suit d = s'" "?num ` insert c ?M = {j..<j + card (insert c ?M)}"
        unfolding gin_meld_def by blast
      from g'(1) run(1) ne have "suit c = s" by (metis insertI1 insertI2 list.set_sel(1))
      moreover from g'(2) have "insert (?num c) {k..<k + length meld} = {j..<j + Suc (length meld)}"
        unfolding ins image_insert run(2) .
      then have "?num c + 1 = k \<or> ?num c = k + length meld" by (rule insert_interval) (use len in simp)
      ultimately show "suit c = s \<and> (?num c + 1 = k \<or> ?num c = k + length meld)" by blast
    qed
  qed
qed

lemma position_Some: "position p xs = Some k \<Longrightarrow> k < length xs \<and> p (xs ! k)"
  by (auto simp: position_def find_Some_iff)

lemma position_None: "position p xs = None \<longleftrightarrow> (\<forall>x \<in> set xs. \<not> p x)"
  by (simp add: position_def find_None_iff all_set_conv_all_nth)

lemma first_fit_Some:
  "first_fit ms cards = Some (i, k) \<Longrightarrow> i < length cards \<and> k < length ms \<and> (extends_run (ms ! k) (cards ! i) \<or> completes_set (ms ! k) (cards ! i))"
  by (induction cards arbitrary: i) (auto simp: fit_at_def split: option.splits dest: position_Some)

lemma first_fit_None:
  "first_fit ms cards = None \<longleftrightarrow> (\<forall>c \<in> set cards. \<forall>meld \<in> set ms. \<not> extends_run meld c \<and> \<not> completes_set meld c)"
  by (induction cards) (auto simp: fit_at_def position_None split: option.splits dest!: position_Some)

definition laid_table :: "card list list \<Rightarrow> card list \<Rightarrow> bool" where
  "laid_table ms cards \<longleftrightarrow>
     (\<forall>meld \<in> set ms. gin_meld (set meld) \<and> distinct meld \<and> set meld \<inter> set cards = {}) \<and> distinct cards"

lemma mset_take_drop: "i < length xs \<Longrightarrow> add_mset (xs ! i) (mset (take i xs @ drop (i + 1) xs)) = mset xs"
  by (metis Suc_eq_plus1 add_mset_add_single id_take_nth_drop mset.simps(2) mset_append union_mset_add_mset_right)

lemma lay_off_on_spec:
  "laid_table ms remaining \<Longrightarrow> lay_off_on ms remaining laid_off = (laid, left) \<Longrightarrow>
    \<exists>ms' more. laid = laid_off @ more \<and> mset more + mset left = mset remaining \<and>
      length ms' = length ms \<and> (\<forall>k < length ms. \<exists>ext. ms' ! k = ms ! k @ ext \<and> set ext \<subseteq> set more) \<and>
      mset (concat ms') = mset (concat ms) + mset more \<and> (\<forall>meld \<in> set ms'. gin_meld (set meld)) \<and>
      (\<forall>c \<in> set left. \<forall>meld \<in> set ms'. \<not> gin_meld (insert c (set meld)))"
proof (induction ms remaining laid_off rule: lay_off_on.induct)
  case (1 ms remaining laid_off)
  note \<open>laid_table ms remaining\<close>
  show ?case
  proof (cases "first_fit ms remaining")
    case None
    with 1(3) have e: "laid = laid_off" "left = sort_by_rank remaining" by (simp_all add: lay_off_on.simps [of ms])
    have "\<not> gin_meld (insert c (set meld))" if "c \<in> set remaining" "meld \<in> set ms" for c meld
    proof -
      have "\<not> (extends_run meld c \<or> completes_set meld c)" using None that unfolding first_fit_None by blast
      moreover have "gin_meld (set meld)" "distinct meld" "c \<notin> set meld" using 1(2) that by (auto simp: laid_table_def)
      ultimately show ?thesis using fit_iff by blast
    qed
    with e 1(2) show ?thesis
      by (intro exI [of _ ms] exI [of _ "[]"]) (auto simp: laid_table_def sort_by_rank_def)
  next
    case (Some ik)
    then obtain i k where ik: "first_fit ms remaining = Some (i, k)" by (cases ik) auto
    note f = first_fit_Some [OF ik]
    let ?c = "remaining ! i"
    let ?ms = "ms[k := ms ! k @ [?c]]"
    let ?rest = "take i remaining @ drop (i + 1) remaining"
    have rest: "add_mset ?c (mset ?rest) = mset remaining" by (rule mset_take_drop) (use f in simp)
    have dist: "distinct (?c # ?rest)"
      using 1(2) rest mset_eq_imp_distinct_iff [of "?c # ?rest" remaining] by (simp add: laid_table_def)
    have setr: "set remaining = insert ?c (set ?rest)"
      using rest by (metis mset.simps(2) set_mset_mset list.simps(15))
    have mk: "ms ! k \<in> set ms" using f by simp
    have "?c \<in> set remaining" using f by simp
    moreover have k_ok: "gin_meld (set (ms ! k))" "distinct (ms ! k)" "set (ms ! k) \<inter> set remaining = {}"
      using 1(2) mk unfolding laid_table_def by blast+
    ultimately have "?c \<notin> set (ms ! k)" by blast
    from fit_iff [OF k_ok(1,2) this] f have "gin_meld (insert ?c (set (ms ! k)))" by blast
    then have new: "gin_meld (set (ms ! k @ [?c]))" "distinct (ms ! k @ [?c])" "set (ms ! k @ [?c]) \<inter> set ?rest = {}"
      using k_ok setr dist \<open>?c \<notin> set (ms ! k)\<close> by auto
    have table: "laid_table ?ms ?rest"
      unfolding laid_table_def
    proof
      show "\<forall>meld \<in> set ?ms. gin_meld (set meld) \<and> distinct meld \<and> set meld \<inter> set ?rest = {}"
      proof
        fix meld
        assume "meld \<in> set ?ms"
        then consider "meld = ms ! k @ [?c]" | "meld \<in> set ms" using set_update_subset_insert by fast
        then show "gin_meld (set meld) \<and> distinct meld \<and> set meld \<inter> set ?rest = {}"
        proof cases
          case 1
          with new show ?thesis by blast
        next
          case 2
          with \<open>laid_table ms remaining\<close> setr show ?thesis unfolding laid_table_def by blast
        qed
      qed
      show "distinct ?rest" using dist by simp
    qed
    have "lay_off_on ?ms ?rest (laid_off @ [?c]) = (laid, left)" using 1(3) ik by (simp add: lay_off_on.simps [of ms])
    from 1(1) [OF ik refl table this] obtain ms' more where
      m: "laid = (laid_off @ [?c]) @ more" "mset more + mset left = mset ?rest" "length ms' = length ?ms"
        "\<forall>j < length ?ms. \<exists>ext. ms' ! j = ?ms ! j @ ext \<and> set ext \<subseteq> set more" "mset (concat ms') = mset (concat ?ms) + mset more"
        "\<forall>meld \<in> set ms'. gin_meld (set meld)" "\<forall>c \<in> set left. \<forall>meld \<in> set ms'. \<not> gin_meld (insert c (set meld))" by blast
    have "mset (concat ?ms) = add_mset ?c (mset (concat ms))"
    proof -
      have "ms = take k ms @ ms ! k # drop (Suc k) ms" using f id_take_nth_drop by blast
      then have "mset (concat ms) = mset (concat (take k ms)) + mset (ms ! k) + mset (concat (drop (Suc k) ms))"
        by (metis concat.simps(2) concat_append mset_append add.assoc)
      moreover have "?ms = take k ms @ (ms ! k @ [?c]) # drop (Suc k) ms" using f by (simp add: upd_conv_take_nth_drop)
      ultimately show ?thesis by simp
    qed
    moreover have "\<exists>ext. ms' ! j = ms ! j @ ext \<and> set ext \<subseteq> set (?c # more)" if "j < length ms" for j
    proof -
      from m(4) that obtain ext where ext: "ms' ! j = ?ms ! j @ ext" "set ext \<subseteq> set more" by auto
      then show ?thesis by (cases "j = k") (use f in auto)
    qed
    ultimately show ?thesis using m rest
      by (intro exI [of _ ms'] exI [of _ "?c # more"]) auto
  qed
qed
section \<open>Properties\<close>

text \<open>
  C24. The best arrangement is the best there is. For a hand of different cards, no more than a 16-bit mask
  can name, the search returns an arrangement that deals every card out once, to melds of the rules
  or to the deadwood, and no family of melds of the rules that share no card leaves less deadwood
  in the hand.
\<close>

theorem best_melding_optimal:
  assumes "distinct hand" and "length hand \<le> 16"
  shows "\<exists>best. best_melding hand = Some best \<and>
    mset (concat (melds best)) + mset (deadwood best) = mset hand \<and>
    (\<forall>meld \<in> set (melds best). gin_meld (set meld) \<and> distinct meld) \<and>
    (\<forall>F. (\<forall>A \<in> F. gin_meld A \<and> A \<subseteq> set hand) \<and> pairwise disjnt F \<longrightarrow>
      deadwood_points best \<le> (\<Sum>c \<in> set hand - \<Union>F. card_value c))"
proof -
  obtain chosen used where b: "(chosen, used) \<in> set (each_melding hand)" "best_melding hand = Some (melding_of hand chosen)"
    "\<forall>(c, u) \<in> set (each_melding hand). unused_points hand used \<le> unused_points hand u"
    using best_melding_spec [OF assms] by blast
  note vis = visited_melding [OF assms b(1)]
  have least: "deadwood_points (melding_of hand chosen) \<le> (\<Sum>c \<in> set hand - \<Union>F. card_value c)"
    if F: "\<forall>A \<in> F. gin_meld A \<and> A \<subseteq> set hand" "pairwise disjnt F" for F
  proof -
    obtain c u where v: "(c, u) \<in> set (each_melding hand)" "(!) hand ` mask_set u = \<Union>F"
      using visited_family [OF assms, of F] F by blast
    with b(3) have "unused_points hand used \<le> unused_points hand u" by blast
    with unused_points_sum [OF assms v(1)] v(2) vis(3) show ?thesis by simp
  qed
  show ?thesis using b(2) vis(1,2) least by blast
qed

definition club :: "rank \<Rightarrow> card" where "club r = \<lparr>suit = Clubs, rank = r\<rparr>"
definition heart :: "rank \<Rightarrow> card" where "heart r = \<lparr>suit = Hearts, rank = r\<rparr>"

lemma best_melding_optimal_witness:
  "distinct [club Two, club King, club Three, club Four] \<and>
   best_melding [club Two, club King, club Three, club Four] = Some \<lparr>melds = [[club Two, club Three, club Four]], deadwood = [club King]\<rparr> \<and>
   (\<exists>best. best_melding [club Two, club King, club Three, club Four] = Some best \<and>
     mset (concat (melds best)) + mset (deadwood best) = mset [club Two, club King, club Three, club Four])"
proof -
  have "best_melding [club Two, club King, club Three, club Four] = Some \<lparr>melds = [[club Two, club Three, club Four]], deadwood = [club King]\<rparr>"
    by code_simp
  moreover have "distinct [club Two, club King, club Three, club Four]" by (simp add: club_def)
  ultimately show ?thesis using best_melding_optimal [of "[club Two, club King, club Three, club Four]"] by simp
qed

text \<open>
  Laying off. Given melds of the rules and the other player's remaining cards, the loop lays cards on
  melds until it must stop: every meld it leaves is one of the given ones with some of the laid cards added
  and is still a meld of the rules, every card is either laid off or left, and none of the cards
  left would make a meld with any of the melds on the table.
\<close>

theorem lay_off_exact:
  assumes "\<forall>meld \<in> set ms. gin_meld (set meld) \<and> distinct meld \<and> set meld \<inter> set cards = {}"
    and "distinct cards" and "lay_off ms cards = (laid, left)"
  shows "mset laid + mset left = mset cards \<and>
    (\<exists>ms'. length ms' = length ms \<and> (\<forall>k < length ms. \<exists>ext. ms' ! k = ms ! k @ ext \<and> set ext \<subseteq> set laid) \<and>
      mset (concat ms') = mset (concat ms) + mset laid \<and> (\<forall>meld \<in> set ms'. gin_meld (set meld)) \<and>
      (\<forall>c \<in> set left. \<forall>meld \<in> set ms'. \<not> gin_meld (insert c (set meld))))"
proof -
  have "laid_table ms cards" using assms(1,2) by (simp add: laid_table_def)
  from lay_off_on_spec [OF this, of "[]" laid left] assms(3) show ?thesis by (auto simp: lay_off_def)
qed

lemma lay_off_exact_witness:
  "lay_off [[club Two, club Three, club Four]] [club Six, club Five, heart King] = ([club Five, club Six], [heart King]) \<and>
   mset [club Five, club Six] + mset [heart King] = mset [club Six, club Five, heart King]"
proof -
  note fits = fit_at_def position_def extends_run_def is_run_def completes_set_def club_def heart_def
  have "first_fit [[club Two, club Three, club Four]] [club Six, club Five, heart King] = Some (1, 0)"
    "first_fit [[club Two, club Three, club Four, club Five]] [club Six, heart King] = Some (0, 0)"
    "first_fit [[club Two, club Three, club Four, club Five, club Six]] [heart King] = None"
    by (simp_all add: fits)
  note f = this
  have "lay_off_on [[club Two, club Three, club Four, club Five, club Six]] [heart King] [club Five, club Six] = ([club Five, club Six], [heart King])"
    by (subst lay_off_on.simps) (simp del: first_fit.simps add: f sort_by_rank_def)
  then have "lay_off_on [[club Two, club Three, club Four, club Five]] [club Six, heart King] [club Five] = ([club Five, club Six], [heart King])"
    by (subst lay_off_on.simps) (simp del: first_fit.simps add: f)
  then have l: "lay_off [[club Two, club Three, club Four]] [club Six, club Five, heart King] = ([club Five, club Six], [heart King])"
    unfolding lay_off_def by (subst lay_off_on.simps) (simp del: first_fit.simps add: f)
  have c: "card (set [club Two, club Three, club Four]) = 3" by (simp add: club_def)
  have r: "(\<lambda>c. rank_number (rank c)) ` set [club Two, club Three, club Four] = {2..<2 + 3}" by (auto simp: club_def)
  have s: "\<forall>c \<in> set [club Two, club Three, club Four]. suit c = Clubs" by (simp add: club_def)
  have "gin_meld (set [club Two, club Three, club Four])"
    unfolding gin_meld_def c by (intro conjI disjI2 exI [of _ Clubs] exI [of _ 2] s r) simp_all
  then show ?thesis
    using lay_off_exact [of "[[club Two, club Three, club Four]]" "[club Six, club Five, heart King]", OF _ _ l] l
    by (simp add: club_def heart_def)
qed

end
