(* ===== verification/Gin.thy ===== *)
theory Gin
  imports GinMelds HandsMatch
begin

text \<open>
  Gin rummy for daily matches (\<open>late-ssh/src/app/lobby/daily/gin.rs\<close>): the deal, the draw and the discard, the knock
  with its settlement, the dead hand and the race to 100, and the replay of the stored moves over the
  stored deals. A seat is 0 or 1; an array indexed by seat is a function of it.
\<close>

section \<open>Data\<close>

definition gn_HAND :: nat where [simp]: "gn_HAND = 10"
definition TARGET_SCORE :: nat where [simp]: "TARGET_SCORE = 100"
definition GIN_BONUS :: nat where [simp]: "GIN_BONUS = 25"
definition UNDERCUT_BONUS :: nat where [simp]: "UNDERCUT_BONUS = 25"
definition MAX_KNOCK :: nat where [simp]: "MAX_KNOCK = 10"
definition DEAD_STOCK :: nat where [simp]: "DEAD_STOCK = 2"
definition UPCARD_INDEX :: nat where [simp]: "UPCARD_INDEX = gn_HAND * 2"
definition gn_STOCK_START :: nat where [simp]: "gn_STOCK_START = UPCARD_INDEX + 1"
definition gn_STATE_VERSION :: nat where [simp]: "gn_STATE_VERSION = 1"

datatype pile = PileStock | PileDiscard

datatype gin_move = GinDraw pile | GinThrow card bool

record gin_state =
  gs_version :: nat
  gs_revision :: nat
  gs_seats :: "uuid \<times> uuid"
  gs_deals :: "card list list"
  gs_moves :: "gin_move list"

datatype gin_phase = GinDrawing nat | GinDiscarding nat | GinAwaitingDeal | GinWon nat

datatype hand_end = EndGin | EndKnock | EndUndercut | EndDead

record hand_result =
  hr_hand :: nat
  hr_end :: hand_end
  hr_scored :: "(nat \<times> nat) option"
  hr_reveals :: "reveal list"

record gin_table =
  gt_scores :: "nat \<Rightarrow> nat"
  gt_hand :: nat
  gt_dealer :: nat
  gt_phase :: gin_phase
  gt_hands :: "nat \<Rightarrow> card list"
  gt_discards :: "card list"
  gt_taken :: "card option"
  gt_results :: "hand_result list"
  gt_last :: "(nat \<times> gin_move) option"
  gt_stock :: "card list"

datatype gin_error =
  GinCorrupt | GinUnsupportedVersion nat | GinNoDeal | GinNotADeck | GinDealUnplayed | GinNotDealt | GinMatchOver
| GinMovesAfterWin | GinDealtAfterWin | GinMovesPastDeal | GinHandNotOver | GinStockEmpty | GinPileEmpty | GinNotInHand
| GinThrowBack | GinNoKnock nat | GinDrawFirst | GinAlreadyDrawn

record gin_outcome =
  go_seat :: nat
  go_played :: gin_move
  go_taken :: "card option"
  go_result :: "hand_result option"
  go_scores :: "nat \<Rightarrow> nat"
  go_phase :: gin_phase

text \<open>\<open>None\<close>: a draw from the pile that took no card.\<close>

definition gin_label :: "gin_outcome \<Rightarrow> string option" where
  "gin_label out =
     map_option (\<lambda>label. label @ (case go_phase out of GinWon _ \<Rightarrow> '', game'' | _ \<Rightarrow> ''''))
       (case go_played out of
          GinDraw PileStock \<Rightarrow> Some ''drew from the stock''
        | GinDraw PileDiscard \<Rightarrow> map_option (\<lambda>c. ''took '' @ card_label c) (go_taken out)
        | GinThrow c _ \<Rightarrow>
            Some (case go_result out of
                    None \<Rightarrow> ''threw '' @ card_label c
                  | Some result \<Rightarrow>
                      (case (hr_end result, hr_scored result) of
                         (EndGin, Some (_, n)) \<Rightarrow> ''gin on '' @ card_label c @ '' for '' @ dec_string n
                       | (EndKnock, Some (_, n)) \<Rightarrow> ''knocked on '' @ card_label c @ '' for '' @ dec_string n
                       | (EndUndercut, Some (_, n)) \<Rightarrow> ''knocked on '' @ card_label c @ '', undercut for '' @ dec_string n
                       | _ \<Rightarrow> ''threw '' @ card_label c @ '', dead hand'')))"

definition gn_other :: "nat \<Rightarrow> nat" where
  "gn_other seat = 1 - seat"

section \<open>The table\<close>

text \<open>\<open>None\<close>: a deal too short to slice.\<close>

definition gin_deal :: "nat \<Rightarrow> card list \<Rightarrow> (nat \<Rightarrow> nat) \<Rightarrow> hand_result list \<Rightarrow> gin_table option" where
  "gin_deal hand deal scores results =
     (if length deal < gn_STOCK_START then None
      else let dealer = hand mod 2; pone = gn_other dealer
           in Some \<lparr>gt_scores = scores, gt_hand = hand, gt_dealer = dealer, gt_phase = GinDrawing pone,
                    gt_hands = (\<lambda>_. [])(pone := take gn_HAND deal, dealer := take gn_HAND (drop gn_HAND deal)),
                    gt_discards = [deal ! UPCARD_INDEX], gt_taken = None, gt_results = results, gt_last = None,
                    gt_stock = drop gn_STOCK_START deal\<rparr>)"

definition gt_stock_remaining :: "gin_table \<Rightarrow> nat" where
  "gt_stock_remaining t = length (gt_stock t)"

definition gt_held :: "gin_table \<Rightarrow> nat \<Rightarrow> card list option" where
  "gt_held t seat = map_option melding_cards (best_melding (gt_hands t seat))"

definition top_discard :: "gin_table \<Rightarrow> card option" where
  "top_discard t = (if gt_discards t = [] then None else Some (last (gt_discards t)))"

text \<open>Who scores what when \<open>knocker\<close> goes out, with the defender's hand as it is laid down.\<close>

definition settlement :: "card list \<Rightarrow> melding \<Rightarrow> nat \<Rightarrow> (hand_end \<times> reveal \<times> nat \<times> nat) option" where
  "settlement defending knocked knocker =
     (let defender = gn_other knocker; knocker_points = deadwood_points knocked
      in if knocker_points = 0
         then map_option (\<lambda>m. (EndGin, \<lparr>rl_seat = defender, rl_melds = melds m, rl_laid_off = [], rl_deadwood = deadwood m\<rparr>,
                               knocker, GIN_BONUS + deadwood_points m)) (best_melding defending)
         else map_option (\<lambda>defended.
                if knocker_points < reveal_points defended
                then (EndKnock, defended, knocker, reveal_points defended - knocker_points)
                else (EndUndercut, defended, defender, knocker_points - reveal_points defended + UNDERCUT_BONUS))
              (best_defence defending (melds knocked) defender))"

definition settle_hand :: "gin_table \<Rightarrow> nat \<Rightarrow> gin_table option" where
  "settle_hand t knocker =
     Option.bind (best_melding (gt_hands t knocker)) (\<lambda>knocked.
     Option.bind (settlement (gt_hands t (gn_other knocker)) knocked knocker) (\<lambda>(how, defended, scorer, points).
       let scores = (gt_scores t)(scorer := gt_scores t scorer + points)
       in Some (t\<lparr>gt_scores := scores,
                  gt_results := gt_results t @
                    [\<lparr>hr_hand = gt_hand t, hr_end = how, hr_scored = Some (scorer, points),
                      hr_reveals = [\<lparr>rl_seat = knocker, rl_melds = melds knocked, rl_laid_off = [], rl_deadwood = deadwood knocked\<rparr>,
                                    defended]\<rparr>],
                  gt_phase := (if scores scorer \<ge> TARGET_SCORE then GinWon scorer else GinAwaitingDeal)\<rparr>)))"

definition gin_step :: "gin_table \<Rightarrow> gin_move \<Rightarrow> (gin_error, gin_table) res" where
  "gin_step t played =
     (case gt_phase t of
        GinDrawing seat \<Rightarrow>
          (case played of
             GinDraw PileStock \<Rightarrow>
               (case gt_stock t of
                  [] \<Rightarrow> Err GinStockEmpty
                | c # rest \<Rightarrow>
                    Ok (t\<lparr>gt_stock := rest, gt_hands := (gt_hands t)(seat := gt_hands t seat @ [c]), gt_taken := None,
                          gt_phase := GinDiscarding seat, gt_last := Some (seat, played)\<rparr>))
           | GinDraw PileDiscard \<Rightarrow>
               (case top_discard t of
                  None \<Rightarrow> Err GinPileEmpty
                | Some c \<Rightarrow>
                    Ok (t\<lparr>gt_discards := butlast (gt_discards t), gt_hands := (gt_hands t)(seat := gt_hands t seat @ [c]),
                          gt_taken := Some c, gt_phase := GinDiscarding seat, gt_last := Some (seat, played)\<rparr>))
           | GinThrow _ _ \<Rightarrow> Err GinDrawFirst)
      | GinDiscarding seat \<Rightarrow>
          (case played of
             GinDraw _ \<Rightarrow> Err GinAlreadyDrawn
           | GinThrow c knock \<Rightarrow>
               ensure (c \<in> set (gt_hands t seat)) GinNotInHand
               (ensure (gt_taken t \<noteq> Some c) GinThrowBack
                 (let t = t\<lparr>gt_hands := (gt_hands t)(seat := filter (\<lambda>held. held \<noteq> c) (gt_hands t seat)),
                            gt_discards := gt_discards t @ [c], gt_taken := None, gt_last := Some (seat, played)\<rparr>
                  in if knock
                     then expect (best_melding (gt_hands t seat)) (\<lambda>m.
                            ensure (deadwood_points m \<le> MAX_KNOCK) (GinNoKnock (deadwood_points m))
                              (expect (settle_hand t seat) Ok))
                     else if length (gt_stock t) \<le> DEAD_STOCK
                     then Ok (t\<lparr>gt_results := gt_results t @
                                  [\<lparr>hr_hand = gt_hand t, hr_end = EndDead, hr_scored = None, hr_reveals = []\<rparr>],
                                gt_phase := GinAwaitingDeal\<rparr>)
                     else Ok (t\<lparr>gt_phase := GinDrawing (gn_other seat)\<rparr>))))
      | GinAwaitingDeal \<Rightarrow> Err GinNotDealt
      | GinWon _ \<Rightarrow> Err GinMatchOver)"

section \<open>The stored match\<close>

function gin_replay_from :: "card list list \<Rightarrow> gin_table \<Rightarrow> gin_move list \<Rightarrow> (gin_error, gin_table) res" where
  "gin_replay_from deals t moves =
     (case gt_phase t of
        GinWon _ \<Rightarrow>
          ensure (moves = []) GinMovesAfterWin
          (ensure (gt_hand t + 1 = length deals) GinDealtAfterWin (Ok t))
      | GinAwaitingDeal \<Rightarrow>
          (case get_at deals (gt_hand t + 1) of
             Some deal \<Rightarrow>
               (case gin_deal (gt_hand t + 1) deal (gt_scores t) (gt_results t) of
                  None \<Rightarrow> Panic
                | Some t' \<Rightarrow> gin_replay_from deals t' moves)
           | None \<Rightarrow> ensure (moves = []) GinMovesPastDeal (Ok t))
      | _ \<Rightarrow>
          (case moves of
             [] \<Rightarrow> Ok t
           | played # rest \<Rightarrow>
               (case gin_step t played of Ok t' \<Rightarrow> gin_replay_from deals t' rest | Err e \<Rightarrow> Err e | Panic \<Rightarrow> Panic)))"
  by pat_completeness auto
termination
  by (relation "measure (\<lambda>(deals, t, moves). 2 * length moves + (if gt_phase t = GinAwaitingDeal then 1 else 0))")
    (auto simp: gin_deal_def Let_def split: if_splits)

declare gin_replay_from.simps [simp del]

definition gin_replay :: "gin_state \<Rightarrow> (gin_error, gin_table) res" where
  "gin_replay s =
     expect (get_at (gs_deals s) 0) (\<lambda>deal.
     expect (gin_deal 0 deal (\<lambda>_. 0) []) (\<lambda>t.
       gin_replay_from (gs_deals s) t (gs_moves s)))"

text \<open>\<open>table()\<close>: an error of the replay is a panic.\<close>

definition gin_table_of :: "gin_state \<Rightarrow> gin_table option" where
  "gin_table_of s = (case gin_replay s of Ok t \<Rightarrow> Some t | _ \<Rightarrow> None)"

definition gin_new :: "bool \<Rightarrow> (nat \<Rightarrow> nat) \<Rightarrow> uuid \<Rightarrow> uuid \<Rightarrow> gin_state" where
  "gin_new coin raw challenger claimer =
     \<lparr>gs_version = gn_STATE_VERSION, gs_revision = 0,
      gs_seats = (if coin then (challenger, claimer) else (claimer, challenger)),
      gs_deals = [shuffled_deck raw], gs_moves = []\<rparr>"

fun gin_check_deals :: "card list list \<Rightarrow> (gin_error, unit) res" where
  "gin_check_deals [] = Ok ()"
| "gin_check_deals (deal # deals) =
     expect (is_whole_deck deal) (\<lambda>whole. ensure whole GinNotADeck (gin_check_deals deals))"

definition gin_parse :: "gin_state option \<Rightarrow> (gin_error, gin_state) res" where
  "gin_parse decoded =
     (case decoded of
        None \<Rightarrow> Err GinCorrupt
      | Some s \<Rightarrow>
          ensure (gs_version s = gn_STATE_VERSION) (GinUnsupportedVersion (gs_version s))
          (ensure (gs_deals s \<noteq> []) GinNoDeal
          (rbind (gin_check_deals (gs_deals s)) (\<lambda>_.
           rbind (gin_replay s) (\<lambda>t.
           ensure (gt_hand t + 1 = length (gs_deals s)) GinDealUnplayed (Ok s))))))"

definition gin_seat_of :: "gin_state \<Rightarrow> uuid \<Rightarrow> nat option" where
  "gin_seat_of s u = (if fst (gs_seats s) = u then Some 0 else if snd (gs_seats s) = u then Some 1 else None)"

definition gin_user_of :: "gin_state \<Rightarrow> nat \<Rightarrow> uuid" where
  "gin_user_of s seat = (if seat = 0 then fst (gs_seats s) else snd (gs_seats s))"

text \<open>\<open>Some None\<close>: nobody owes a move; \<open>None\<close>: a panic.\<close>

definition gin_turn_user :: "gin_state \<Rightarrow> uuid option option" where
  "gin_turn_user s =
     map_option (\<lambda>t. case gt_phase t of
         GinDrawing seat \<Rightarrow> Some (gin_user_of s seat)
       | GinDiscarding seat \<Rightarrow> Some (gin_user_of s seat)
       | _ \<Rightarrow> None) (gin_table_of s)"

definition gin_move_count :: "gin_state \<Rightarrow> nat" where
  "gin_move_count s = length (gs_moves s)"

definition gin_apply_move :: "gin_state \<Rightarrow> gin_move \<Rightarrow> (gin_error, gin_state \<times> gin_outcome) res" where
  "gin_apply_move s played =
     expect (gin_table_of s) (\<lambda>t.
       rbind (case gt_phase t of
                GinDrawing seat \<Rightarrow> Ok seat
              | GinDiscarding seat \<Rightarrow> Ok seat
              | GinAwaitingDeal \<Rightarrow> Err GinNotDealt
              | GinWon _ \<Rightarrow> Err GinMatchOver) (\<lambda>seat.
       rbind (gin_step t played) (\<lambda>t'.
         Ok (s\<lparr>gs_moves := gs_moves s @ [played]\<rparr>,
             \<lparr>go_seat = seat, go_played = played,
              go_taken = (case played of GinDraw PileDiscard \<Rightarrow> gt_taken t' | _ \<Rightarrow> None),
              go_result = get_at (gt_results t') (length (gt_results t)),
              go_scores = gt_scores t', go_phase = gt_phase t'\<rparr>))))"

definition gin_deal_next :: "(nat \<Rightarrow> nat) \<Rightarrow> gin_state \<Rightarrow> (gin_error, gin_state) res" where
  "gin_deal_next raw s =
     expect (gin_table_of s) (\<lambda>t.
       ensure (gt_phase t = GinAwaitingDeal) GinHandNotOver
         (Ok (s\<lparr>gs_deals := gs_deals s @ [shuffled_deck raw]\<rparr>)))"

section \<open>The invariant of a hand\<close>

text \<open>
  The points of a seat in the finished hands, and the books: the scores are the sums of the results, nobody
  had reached 100 before the last result, and the match is won by a seat exactly when it has.
\<close>

definition won_points :: "hand_result list \<Rightarrow> nat \<Rightarrow> nat" where
  "won_points results seat =
     sum_list (map (\<lambda>r. case hr_scored r of Some (scorer, points) \<Rightarrow> if scorer = seat then points else 0 | None \<Rightarrow> 0) results)"

definition gin_books :: "gin_table \<Rightarrow> bool" where
  "gin_books t \<longleftrightarrow>
     gt_scores t = won_points (gt_results t) \<and>
     (\<forall>n < length (gt_results t). \<forall>seat. won_points (take n (gt_results t)) seat < 100) \<and>
     (\<forall>w. gt_phase t = GinWon w \<longleftrightarrow> 100 \<le> gt_scores t w)"

definition gin_cards :: "card list \<Rightarrow> gin_table \<Rightarrow> bool" where
  "gin_cards deal t \<longleftrightarrow>
     gt_dealer t = gt_hand t mod 2 \<and>
     mset (gt_hands t 0) + mset (gt_hands t 1) + mset (gt_discards t) + mset (gt_stock t) = mset deal"

definition gin_stage :: "gin_table \<Rightarrow> bool" where
  "gin_stage t \<longleftrightarrow>
     (case gt_phase t of
        GinDrawing seat \<Rightarrow>
          seat \<le> 1 \<and> length (gt_hands t seat) = 10 \<and> length (gt_hands t (gn_other seat)) = 10 \<and>
          gt_discards t \<noteq> [] \<and> 2 < length (gt_stock t) \<and> gt_taken t = None \<and> length (gt_results t) = gt_hand t
      | GinDiscarding seat \<Rightarrow>
          seat \<le> 1 \<and> length (gt_hands t seat) = 11 \<and> length (gt_hands t (gn_other seat)) = 10 \<and>
          2 \<le> length (gt_stock t) \<and> length (gt_results t) = gt_hand t
      | GinAwaitingDeal \<Rightarrow> length (gt_results t) = gt_hand t + 1
      | GinWon w \<Rightarrow> w \<le> 1 \<and> length (gt_results t) = gt_hand t + 1)"

definition gin_ok :: "card list \<Rightarrow> gin_table \<Rightarrow> bool" where
  "gin_ok deal t \<longleftrightarrow> gin_books t \<and> gin_cards deal t \<and> gin_stage t"

text \<open>What a move of the player on turn breaks, if anything.\<close>

definition gin_refusal :: "gin_table \<Rightarrow> gin_move \<Rightarrow> gin_error option" where
  "gin_refusal t m =
     (case gt_phase t of
        GinDrawing seat \<Rightarrow> (case m of GinDraw _ \<Rightarrow> None | GinThrow _ _ \<Rightarrow> Some GinDrawFirst)
      | GinDiscarding seat \<Rightarrow>
          (case m of
             GinDraw _ \<Rightarrow> Some GinAlreadyDrawn
           | GinThrow c knock \<Rightarrow>
               if c \<notin> set (gt_hands t seat) then Some GinNotInHand
               else if gt_taken t = Some c then Some GinThrowBack
               else if knock
               then (case deadwood_after_discard (gt_hands t seat) c of
                       Some n \<Rightarrow> if n \<le> 10 then None else Some (GinNoKnock n)
                     | None \<Rightarrow> None)
               else None)
      | GinAwaitingDeal \<Rightarrow> Some GinNotDealt
      | GinWon _ \<Rightarrow> Some GinMatchOver)"

lemma won_points_snoc [simp]:
  "won_points [] seat = 0"
  "won_points (rs @ [r]) seat = won_points rs seat +
     (case hr_scored r of Some (scorer, points) \<Rightarrow> if scorer = seat then points else 0 | None \<Rightarrow> 0)"
  by (simp_all add: won_points_def)

lemma gin_live:
  assumes "gin_books t"
  shows "(\<forall>w. gt_phase t \<noteq> GinWon w) \<longleftrightarrow> (\<forall>seat. gt_scores t seat < 100)"
proof -
  have "gt_phase t = GinWon w \<longleftrightarrow> \<not> gt_scores t w < 100" for w using assms by (simp add: gin_books_def not_less)
  then show ?thesis by auto
qed

text \<open>Finishing a hand keeps the books.\<close>

lemma books_snoc:
  assumes b: "gin_books t" and live: "\<forall>seat. gt_scores t seat < 100"
    and t': "gt_results t' = gt_results t @ [r]" "gt_scores t' = won_points (gt_results t')"
    and ph: "\<And>w. gt_phase t' = GinWon w \<longleftrightarrow> 100 \<le> gt_scores t' w"
  shows "gin_books t'"
proof -
  have "won_points (take n (gt_results t')) seat < 100" if "n < length (gt_results t')" for n seat
  proof (cases "n = length (gt_results t)")
    case True
    with live b t'(1) show ?thesis by (simp add: gin_books_def)
  next
    case False
    with that b t'(1) show ?thesis by (simp add: gin_books_def)
  qed
  with t'(2) ph show ?thesis by (simp add: gin_books_def)
qed

lemma gin_distinct:
  assumes "gin_cards deal t" and "distinct deal" and "seat \<le> 1"
  shows "distinct (gt_hands t seat)"
proof -
  have "mset deal = mset (gt_hands t 0) + (mset (gt_hands t 1) + (mset (gt_discards t) + mset (gt_stock t)))"
    using assms(1) by (simp add: gin_cards_def ac_simps)
  then have "mset (gt_hands t 0) \<subseteq># mset deal" "mset (gt_hands t 1) \<subseteq># mset deal"
    by (simp_all add: subset_mset.add_increasing)
  moreover have "seat = 0 \<or> seat = 1" using assms(3) by auto
  ultimately have "mset (gt_hands t seat) \<subseteq># mset deal" by auto
  with assms(2) show ?thesis using distinct_sub_mset by blast
qed

section \<open>Settling a hand\<close>

lemma melding_returns:
  assumes "distinct hand" and "length hand \<le> 16"
  obtains m where "best_melding hand = Some m"
  using best_melding_spec [OF assms] by blast

lemma defence_returns:
  obtains r where "best_defence hand ms seat = Some r"
proof -
  have "map (\<lambda>(chosen, _). defence_of hand ms seat chosen) (each_melding hand) \<noteq> []" by (simp add: each_melding_def)
  from first_least_spec [OF this, of reveal_points] that show thesis by (auto simp: best_defence_def)
qed

lemma settlement_returns:
  assumes "distinct defending" and "length defending \<le> 16" and "knocker \<le> 1"
  shows "\<exists>how defended scorer points. settlement defending knocked knocker = Some (how, defended, scorer, points) \<and> scorer \<le> 1"
proof -
  obtain m where m: "best_melding defending = Some m" by (rule melding_returns [OF assms(1,2)])
  obtain r where r: "best_defence defending (melds knocked) (gn_other knocker) = Some r" by (rule defence_returns)
  from m r assms(3) show ?thesis by (auto simp: settlement_def Let_def gn_other_def)
qed

definition threw :: "gin_table \<Rightarrow> nat \<Rightarrow> card \<Rightarrow> bool \<Rightarrow> gin_table" where
  "threw t seat c knock =
     t\<lparr>gt_hands := (gt_hands t)(seat := filter (\<lambda>held. held \<noteq> c) (gt_hands t seat)),
       gt_discards := gt_discards t @ [c], gt_taken := None, gt_last := Some (seat, GinThrow c knock)\<rparr>"

lemma settle_hand_spec:
  assumes b: "gin_books t" "\<forall>seat. gt_scores t seat < 100" and c: "gin_cards deal t" and dist: "distinct deal"
    and seat: "knocker \<le> 1" and len: "length (gt_hands t knocker) \<le> 16" "length (gt_hands t (gn_other knocker)) \<le> 16"
    and res: "length (gt_results t) = gt_hand t"
  shows "\<exists>t' r. settle_hand t knocker = Some t' \<and> gin_ok deal t' \<and> gt_hand t' = gt_hand t \<and>
    gt_results t' = gt_results t @ [r] \<and> (\<forall>s. gt_phase t' \<noteq> GinDrawing s \<and> gt_phase t' \<noteq> GinDiscarding s)"
proof -
  have o: "gn_other knocker \<le> 1" by (simp add: gn_other_def)
  obtain m where m: "best_melding (gt_hands t knocker) = Some m"
    by (rule melding_returns [OF gin_distinct [OF c dist seat] len(1)])
  obtain how defended scorer points where st: "settlement (gt_hands t (gn_other knocker)) m knocker = Some (how, defended, scorer, points)"
    "scorer \<le> 1"
    using settlement_returns [OF gin_distinct [OF c dist o] len(2) seat] by blast
  let ?scores = "(gt_scores t)(scorer := gt_scores t scorer + points)"
  let ?r = "\<lparr>hr_hand = gt_hand t, hr_end = how, hr_scored = Some (scorer, points),
    hr_reveals = [\<lparr>rl_seat = knocker, rl_melds = melds m, rl_laid_off = [], rl_deadwood = deadwood m\<rparr>, defended]\<rparr>"
  let ?t = "t\<lparr>gt_scores := ?scores, gt_results := gt_results t @ [?r],
    gt_phase := (if ?scores scorer \<ge> 100 then GinWon scorer else GinAwaitingDeal)\<rparr>"
  have s: "settle_hand t knocker = Some ?t" using m st by (simp add: settle_hand_def Let_def)
  have sc: "?scores = won_points (gt_results t @ [?r])" using b(1) by (auto simp: gin_books_def fun_eq_iff)
  have ph: "gt_phase ?t = GinWon w \<longleftrightarrow> 100 \<le> gt_scores ?t w" for w
    using spec [OF b(2), of w] by (auto simp: not_le)
  have "gin_books ?t" by (rule books_snoc [OF b, of ?t ?r]) (use sc ph in simp_all)
  moreover have "gin_cards deal ?t" using c by (simp add: gin_cards_def)
  moreover have "gin_stage ?t" using res st(2) by (simp add: gin_stage_def)
  ultimately have "gin_ok deal ?t" by (simp add: gin_ok_def)
  with s show ?thesis by (intro exI [of _ ?t] exI [of _ ?r]) simp
qed

section \<open>One move\<close>

definition gin_step_ok :: "card list \<Rightarrow> gin_table \<Rightarrow> gin_table \<Rightarrow> bool" where
  "gin_step_ok deal t t' \<longleftrightarrow> gin_ok deal t' \<and> gt_hand t' = gt_hand t \<and>
     (gt_results t' = gt_results t \<and> (\<exists>s. gt_phase t' = GinDrawing s \<or> gt_phase t' = GinDiscarding s) \<or>
      (\<exists>r. gt_results t' = gt_results t @ [r] \<and> (gt_phase t' = GinAwaitingDeal \<or> (\<exists>w. gt_phase t' = GinWon w))))"

lemma gin_books_cong:
  assumes "gt_scores t' = gt_scores t" "gt_results t' = gt_results t" "\<forall>w. gt_phase t \<noteq> GinWon w" "\<forall>w. gt_phase t' \<noteq> GinWon w"
  shows "gin_books t \<Longrightarrow> gin_books t'"
proof -
  assume b: "gin_books t"
  then have "gt_phase t = GinWon w \<longleftrightarrow> 100 \<le> gt_scores t w" for w unfolding gin_books_def by blast
  with assms have "gt_phase t' = GinWon w \<longleftrightarrow> 100 \<le> gt_scores t' w" for w by simp
  with b assms(1,2) show "gin_books t'" unfolding gin_books_def by simp
qed

lemma draw_spec:
  assumes ok: "gin_ok deal t" and ph: "gt_phase t = GinDrawing seat"
  shows "\<exists>t'. gin_step t (GinDraw p) = Ok t' \<and> gin_step_ok deal t t'"
proof -
  have b: "gin_books t" and c: "gin_cards deal t" and s: "seat \<le> 1" "length (gt_hands t seat) = 10"
    "length (gt_hands t (gn_other seat)) = 10" "gt_discards t \<noteq> []" "2 < length (gt_stock t)" "length (gt_results t) = gt_hand t"
    using ok ph by (simp_all add: gin_ok_def gin_stage_def)
  have s01: "seat = 0 \<or> seat = 1" using s(1) by auto
  have oth: "gn_other seat \<noteq> seat" using s01 by (auto simp: gn_other_def)
  show ?thesis
  proof (cases p)
    case PileStock
    obtain d rest where st: "gt_stock t = d # rest" using s(5) by (cases "gt_stock t") auto
    let ?t = "t\<lparr>gt_stock := rest, gt_hands := (gt_hands t)(seat := gt_hands t seat @ [d]), gt_taken := None,
      gt_phase := GinDiscarding seat, gt_last := Some (seat, GinDraw PileStock)\<rparr>"
    have "gin_books ?t" using gin_books_cong [OF _ _ _ _ b, of ?t] ph by simp
    moreover have "gin_cards deal ?t" using c st s01 by (auto simp: gin_cards_def)
    moreover have "gin_stage ?t" using s st oth by (simp add: gin_stage_def)
    moreover have "gin_step t (GinDraw p) = Ok ?t" using ph st PileStock by (simp add: gin_step_def)
    ultimately show ?thesis by (auto simp: gin_step_ok_def gin_ok_def)
  next
    case PileDiscard
    obtain front d where st: "gt_discards t = front @ [d]" using s(4) by (cases "gt_discards t" rule: rev_cases) auto
    let ?t = "t\<lparr>gt_discards := front, gt_hands := (gt_hands t)(seat := gt_hands t seat @ [d]), gt_taken := Some d,
      gt_phase := GinDiscarding seat, gt_last := Some (seat, GinDraw PileDiscard)\<rparr>"
    have "gin_books ?t" using gin_books_cong [OF _ _ _ _ b, of ?t] ph by simp
    moreover have "gin_cards deal ?t" using c st s01 by (auto simp: gin_cards_def)
    moreover have "gin_stage ?t" using s st oth by (simp add: gin_stage_def)
    moreover have "gin_step t (GinDraw p) = Ok ?t" using ph st PileDiscard by (simp add: gin_step_def top_discard_def)
    ultimately show ?thesis by (auto simp: gin_step_ok_def gin_ok_def)
  qed
qed

lemma throw_spec:
  assumes ok: "gin_ok deal t" and dist: "distinct deal" and ph: "gt_phase t = GinDiscarding seat"
    and fits: "gin_refusal t (GinThrow c knock) = None"
  shows "\<exists>t'. gin_step t (GinThrow c knock) = Ok t' \<and> gin_step_ok deal t t'"
proof -
  have b: "gin_books t" and cards: "gin_cards deal t" and s: "seat \<le> 1" "length (gt_hands t seat) = 11"
    "length (gt_hands t (gn_other seat)) = 10" "2 \<le> length (gt_stock t)" "length (gt_results t) = gt_hand t"
    using ok ph by (simp_all add: gin_ok_def gin_stage_def)
  have c: "c \<in> set (gt_hands t seat)" "gt_taken t \<noteq> Some c" using fits ph by (auto simp: gin_refusal_def split: if_splits)
  have s01: "seat = 0 \<or> seat = 1" using s(1) by auto
  have oth: "gn_other seat \<noteq> seat" "gn_other seat \<le> 1" "gn_other (gn_other seat) = seat" using s01 by (auto simp: gn_other_def)
  let ?u = "threw t seat c knock"
  define left where "left = filter (\<lambda>held. held \<noteq> c) (gt_hands t seat)"
  have m: "mset (gt_hands t seat) = add_mset c (mset left)"
    using mset_drop_one [OF gin_distinct [OF cards dist s(1)] c(1)] by (simp add: left_def)
  from arg_cong [OF m, of size] s(2) have len: "length left = 10" by simp
  have u: "gt_hands ?u = (gt_hands t)(seat := left)" "gt_discards ?u = gt_discards t @ [c]" "gt_taken ?u = None"
    "gt_scores ?u = gt_scores t" "gt_results ?u = gt_results t" "gt_hand ?u = gt_hand t" "gt_stock ?u = gt_stock t"
    "gt_phase ?u = gt_phase t" "gt_dealer ?u = gt_dealer t"
    by (simp_all add: threw_def left_def)
  have cu: "gin_cards deal ?u" using cards m s01 u by (auto simp: gin_cards_def)
  have bu: "gin_books ?u" using gin_books_cong [OF _ _ _ _ b, of ?u] ph u by simp
  have live: "\<forall>seat. gt_scores ?u seat < 100" using gin_live [OF bu] ph u by simp
  show ?thesis
  proof (cases knock)
    case True
    obtain w where w: "best_melding left = Some w"
    proof (rule melding_returns)
      show "distinct left" using gin_distinct [OF cu dist s(1)] u by simp
      show "length left \<le> 16" using len by simp
    qed
    have "deadwood_points w \<le> 10" using fits ph c True w by (simp add: gin_refusal_def deadwood_after_discard_def left_def [symmetric] split: if_splits)
    moreover have hu: "gt_hands ?u seat = left" "gt_hands ?u (gn_other seat) = gt_hands t (gn_other seat)" using u oth by simp_all
    from settle_hand_spec [OF bu live cu dist s(1)] hu len s(3,5) u obtain t' r where
      t': "settle_hand ?u seat = Some t'" "gin_ok deal t'" "gt_hand t' = gt_hand ?u" "gt_results t' = gt_results ?u @ [r]"
        "\<forall>s. gt_phase t' \<noteq> GinDrawing s \<and> gt_phase t' \<noteq> GinDiscarding s" by auto
    ultimately have "gin_step t (GinThrow c knock) = Ok t'"
      using ph c True w hu by (simp add: gin_step_def ensure_def threw_def left_def)
    moreover have "gt_phase t' = GinAwaitingDeal \<or> (\<exists>w. gt_phase t' = GinWon w)" using t'(5) by (cases "gt_phase t'") auto
    ultimately show ?thesis using t' u by (auto simp: gin_step_ok_def)
  next
    case False
    show ?thesis
    proof (cases "length (gt_stock t) \<le> 2")
      case True
      let ?r = "\<lparr>hr_hand = gt_hand t, hr_end = EndDead, hr_scored = None, hr_reveals = []\<rparr>"
      let ?t = "?u\<lparr>gt_results := gt_results t @ [?r], gt_phase := GinAwaitingDeal\<rparr>"
      have "gin_step t (GinThrow c knock) = Ok ?t"
        using ph c True False by (simp add: gin_step_def ensure_def threw_def)
      moreover have "gin_books ?t"
      proof (rule books_snoc [OF bu live])
        show "gt_results ?t = gt_results ?u @ [?r]" using u by simp
        show "gt_scores ?t = won_points (gt_results ?t)" using b u by (simp add: gin_books_def fun_eq_iff)
        show "gt_phase ?t = GinWon w \<longleftrightarrow> 100 \<le> gt_scores ?t w" for w using spec [OF live, of w] by simp
      qed
      moreover have "gin_cards deal ?t" using cu by (simp add: gin_cards_def)
      moreover have "gin_stage ?t" using s(5) u by (simp add: gin_stage_def)
      ultimately show ?thesis using u by (auto simp: gin_step_ok_def gin_ok_def)
    next
      case more: False
      let ?t = "?u\<lparr>gt_phase := GinDrawing (gn_other seat)\<rparr>"
      have "gin_step t (GinThrow c knock) = Ok ?t"
        using ph c more False by (simp add: gin_step_def ensure_def threw_def)
      moreover have "gin_books ?t" using gin_books_cong [OF _ _ _ _ bu, of ?t] ph u by simp
      moreover have "gin_cards deal ?t" using cu by (simp add: gin_cards_def)
      moreover have "gin_stage ?t" using s more u len oth by (simp add: gin_stage_def)
      ultimately show ?thesis using u by (auto simp: gin_step_ok_def gin_ok_def)
    qed
  qed
qed

lemma gin_step_cases:
  assumes ok: "gin_ok deal t" and dist: "distinct deal"
  shows "case gin_refusal t m of None \<Rightarrow> \<exists>t'. gin_step t m = Ok t' \<and> gin_step_ok deal t t' | Some e \<Rightarrow> gin_step t m = Err e"
proof (cases "gt_phase t")
  case (GinDrawing seat)
  then show ?thesis using draw_spec [OF ok GinDrawing] by (cases m) (auto simp: gin_refusal_def gin_step_def)
next
  case (GinDiscarding seat)
  show ?thesis
  proof (cases m)
    case (GinDraw p)
    with GinDiscarding show ?thesis by (simp add: gin_refusal_def gin_step_def)
  next
    case (GinThrow c knock)
    show ?thesis
    proof (cases "gin_refusal t m")
      case None
      with throw_spec [OF ok dist GinDiscarding] GinThrow show ?thesis by simp
    next
      case (Some e)
      let ?left = "filter (\<lambda>held. held \<noteq> c) (gt_hands t seat)"
      have "gin_step t m = Err e"
        using Some GinDiscarding GinThrow
        by (auto simp: gin_refusal_def gin_step_def ensure_def deadwood_after_discard_def expect_def
            split: if_splits option.splits)
      with Some show ?thesis by simp
    qed
  qed
qed (simp_all add: gin_refusal_def gin_step_def)

lemma gin_step_Ok: "gin_ok deal t \<Longrightarrow> distinct deal \<Longrightarrow> gin_step t m = Ok t' \<Longrightarrow> gin_step_ok deal t t'"
  using gin_step_cases [of deal t m] by (auto split: option.splits)

lemma gin_step_safe: "gin_ok deal t \<Longrightarrow> distinct deal \<Longrightarrow> gin_step t m \<noteq> Panic"
  using gin_step_cases [of deal t m] by (auto split: option.splits)

end
