(* ===== verification/GinMatch.thy ===== *)
theory GinMatch
  imports Gin HandsMatch
begin

text \<open>
  The stored gin match: a table dealt and replayed keeps the invariant of the hand, so gin rummy is a match
  played in hands and a stored match; what the knock pays; and the documents that are read back
  are the played ones.
\<close>

section \<open>Dealing\<close>

lemma gin_deal_ok:
  assumes d: "whole_deal deal" and log: "scores = won_points results" and live: "\<forall>seat. scores seat < 100"
    and early: "\<forall>n < length results. \<forall>seat. won_points (take n results) seat < 100" and res: "length results = hand"
  shows "\<exists>t. gin_deal hand deal scores results = Some t \<and> gin_ok deal t \<and> gt_hand t = hand \<and>
    gt_phase t = GinDrawing (gn_other (gt_dealer t)) \<and> gt_results t = results"
proof -
  have len: "length deal = 52" by (rule whole_dealD(1) [OF d])
  let ?pone = "gn_other (hand mod 2)"
  obtain t where t: "gin_deal hand deal scores results = Some t" using len by (simp add: gin_deal_def Let_def)
  have par: "hand mod 2 = 0 \<or> hand mod 2 = 1" by auto
  have "deal = take 10 deal @ take 10 (drop 10 deal) @ deal ! 20 # drop 21 deal"
    using len id_take_nth_drop [of 20 deal] take_add [of 10 10 deal] by simp
  then have "mset deal = mset (take 10 deal @ take 10 (drop 10 deal) @ deal ! 20 # drop 21 deal)" by simp
  then have "mset deal = mset (take 10 deal) + mset (take 10 (drop 10 deal)) + {#deal ! 20#} + mset (drop 21 deal)"
    by (simp only: mset_append mset.simps union_mset_add_mset_right union_mset_add_mset_left add.assoc empty_neutral)
  with t len par have "gin_cards deal t" by (auto simp: gin_deal_def Let_def gin_cards_def gn_other_def)
  moreover have "gt_phase t = GinWon w \<longleftrightarrow> 100 \<le> gt_scores t w" for w
    using t len spec [OF live, of w] by (auto simp: gin_deal_def Let_def)
  then have "gin_books t" using t len log early by (auto simp: gin_deal_def Let_def gin_books_def)
  moreover have "gin_stage t" using t len res by (auto simp: gin_deal_def Let_def gin_stage_def gn_other_def)
  ultimately show ?thesis using t len by (auto simp: gin_deal_def Let_def gin_ok_def)
qed

text \<open>Gin rummy as a match played in hands.\<close>

definition gin_status :: "gin_table \<Rightarrow> hand_status" where
  "gin_status t = (case gt_phase t of GinAwaitingDeal \<Rightarrow> HandOver | GinWon _ \<Rightarrow> MatchWon | _ \<Rightarrow> InPlay)"

definition gin_first :: "card list \<Rightarrow> gin_table option" where
  "gin_first deal = gin_deal 0 deal (\<lambda>_. 0) []"

definition gin_redeal :: "gin_table \<Rightarrow> card list \<Rightarrow> gin_table option" where
  "gin_redeal t deal = gin_deal (gt_hand t + 1) deal (gt_scores t) (gt_results t)"

lemma gin_opening:
  assumes "whole_deal deal"
  shows "\<exists>t. gin_first deal = Some t \<and> gin_ok deal t \<and> gt_hand t = 0 \<and> gt_phase t = GinDrawing 1"
proof -
  have "(\<lambda>_. 0) = won_points []" by (simp add: fun_eq_iff)
  from gin_deal_ok [OF assms this, of 0] obtain t where
    "gin_first deal = Some t" "gin_ok deal t" "gt_hand t = 0" "gt_phase t = GinDrawing (gn_other (gt_dealer t))"
    by (auto simp: gin_first_def)
  moreover from this(2,3) have "gn_other (gt_dealer t) = 1" by (simp add: gin_ok_def gin_cards_def gn_other_def)
  ultimately show ?thesis by simp
qed

lemma gin_next_deal:
  assumes ok: "gin_ok deal t" and ph: "gt_phase t = GinAwaitingDeal" and d: "whole_deal deal'"
  shows "\<exists>t'. gin_redeal t deal' = Some t' \<and> gin_ok deal' t'"
proof -
  have b: "gin_books t" and r: "length (gt_results t) = gt_hand t + 1" using ok ph by (simp_all add: gin_ok_def gin_stage_def)
  have "\<forall>seat. gt_scores t seat < 100" using gin_live [OF b] ph by simp
  from gin_deal_ok [OF d _ this _ r] b show ?thesis by (auto simp: gin_books_def gin_redeal_def)
qed

lemma gin_replay_unfold:
  "gin_replay_from deals t ms =
     (case gin_status t of
        InPlay \<Rightarrow> (case ms of [] \<Rightarrow> Ok t | m # rest \<Rightarrow> rbind (gin_step t m) (\<lambda>t'. gin_replay_from deals t' rest))
      | HandOver \<Rightarrow>
          (case get_at deals (gt_hand t + 1) of
             Some d \<Rightarrow> expect (gin_redeal t d) (\<lambda>t'. gin_replay_from deals t' ms)
           | None \<Rightarrow> ensure (ms = []) GinMovesPastDeal (Ok t))
      | MatchWon \<Rightarrow> ensure (ms = []) GinMovesAfterWin (ensure (gt_hand t + 1 = length deals) GinDealtAfterWin (Ok t)))"
  by (subst gin_replay_from.simps)
    (auto simp: gin_status_def gin_redeal_def expect_def rbind_case split: gin_phase.splits list.splits res.splits option.splits)

interpretation gin_match: dealt_match gin_replay_from gin_first gin_status gt_hand gin_step gin_redeal gin_ok whole_deal
  GinMovesAfterWin GinDealtAfterWin GinMovesPastDeal
proof
  fix t t' d d' m ms deals
  show "gin_status t = InPlay \<Longrightarrow> gin_replay_from deals t [] = Ok t"
    "gin_status t = InPlay \<Longrightarrow> gin_replay_from deals t (m # ms) = rbind (gin_step t m) (\<lambda>t'. gin_replay_from deals t' ms)"
    "gin_status t = HandOver \<Longrightarrow> gin_replay_from deals t ms =
      (case get_at deals (gt_hand t + 1) of
         Some d \<Rightarrow> expect (gin_redeal t d) (\<lambda>t'. gin_replay_from deals t' ms)
       | None \<Rightarrow> ensure (ms = []) GinMovesPastDeal (Ok t))"
    "gin_status t = MatchWon \<Longrightarrow> gin_replay_from deals t ms =
      ensure (ms = []) GinMovesAfterWin (ensure (gt_hand t + 1 = length deals) GinDealtAfterWin (Ok t))"
    by (subst gin_replay_unfold, simp)+
  show "whole_deal d \<Longrightarrow> gin_ok d t \<Longrightarrow> gin_step t m = Ok t' \<Longrightarrow> gin_ok d t' \<and> gt_hand t' = gt_hand t"
    using gin_step_Ok [of d t m t'] whole_dealD(2) by (simp add: gin_step_ok_def)
  show "whole_deal d \<Longrightarrow> gin_ok d t \<Longrightarrow> gin_step t m \<noteq> Panic"
    using gin_step_safe [of d t m] whole_dealD(2) by simp
  show "gin_step t m = Ok t' \<Longrightarrow> gin_status t = InPlay"
    by (auto simp: gin_step_def gin_status_def split: gin_phase.splits)
  show "gin_ok d t \<Longrightarrow> gin_status t = HandOver \<Longrightarrow> whole_deal d' \<Longrightarrow> \<exists>t'. gin_redeal t d' = Some t' \<and> gin_ok d' t'"
    using gin_next_deal [of d t d'] by (auto simp: gin_status_def split: gin_phase.splits)
  show "gin_redeal t d = Some t' \<Longrightarrow> gt_hand t' = gt_hand t + 1 \<and> gin_status t' = InPlay"
    by (auto simp: gin_redeal_def gin_deal_def Let_def gin_status_def split: if_splits)
  show "whole_deal d \<Longrightarrow> \<exists>t. gin_first d = Some t \<and> gin_ok d t \<and> gt_hand t = 0 \<and> gin_status t = InPlay"
    using gin_opening [of d] by (auto simp: gin_status_def)
qed

section \<open>Stored matches\<close>

text \<open>Every deal is a whole deck, the moves replay, and the replay ends in the last deal.\<close>

definition gin_inv :: "gin_state \<Rightarrow> bool" where
  "gin_inv s \<longleftrightarrow> (\<forall>deal \<in> set (gs_deals s). whole_deal deal) \<and>
     (\<exists>t. gin_replay s = Ok t \<and> gt_hand t + 1 = length (gs_deals s))"

definition gin_current :: "gin_state \<Rightarrow> gin_table \<Rightarrow> bool" where
  "gin_current s t \<longleftrightarrow> gin_inv s \<and> gin_replay s = Ok t"

text \<open>What a move reports, from the table before and after it.\<close>

definition gin_outcome_of :: "gin_table \<Rightarrow> gin_move \<Rightarrow> gin_table \<Rightarrow> gin_outcome" where
  "gin_outcome_of t m t' =
     \<lparr>go_seat = (case gt_phase t of GinDrawing seat \<Rightarrow> seat | GinDiscarding seat \<Rightarrow> seat | _ \<Rightarrow> 0), go_played = m,
      go_taken = (case m of GinDraw PileDiscard \<Rightarrow> gt_taken t' | _ \<Rightarrow> None),
      go_result = get_at (gt_results t') (length (gt_results t)), go_scores = gt_scores t', go_phase = gt_phase t'\<rparr>"

lemma gin_apply_step:
  "gin_replay s = Ok t \<Longrightarrow>
    gin_apply_move s m = rbind (gin_step t m) (\<lambda>t'. Ok (s\<lparr>gs_moves := gs_moves s @ [m]\<rparr>, gin_outcome_of t m t'))"
  by (cases "gt_phase t")
    (simp_all add: gin_apply_move_def gin_table_of_def gin_outcome_of_def gin_step_def)

interpretation gin: stored_match gin_replay_from gin_first gin_status gt_hand gin_step gin_redeal gin_ok whole_deal
  GinMovesAfterWin GinDealtAfterWin GinMovesPastDeal
  gs_deals gs_moves "\<lambda>s. (gs_seats s, gs_version s, gs_revision s)"
  "\<lambda>m s. s\<lparr>gs_moves := gs_moves s @ [m]\<rparr>" "\<lambda>d s. s\<lparr>gs_deals := gs_deals s @ [d]\<rparr>" "\<lambda>d s. s\<lparr>gs_deals := [d], gs_moves := []\<rparr>"
  gin_replay gin_apply_move gin_outcome_of gin_deal_next shuffled_deck gin_refusal GinHandNotOver gin_inv gin_current
proof
  fix s s' :: gin_state and t m d raw
  show "gs_deals s \<noteq> [] \<Longrightarrow> gin_replay s = expect (gin_first (hd (gs_deals s))) (\<lambda>t. gin_replay_from (gs_deals s) t (gs_moves s))"
    by (cases "gs_deals s") (simp_all add: gin_replay_def gin_first_def get_at_def)
  show "gs_deals s = gs_deals s' \<Longrightarrow> gs_moves s = gs_moves s' \<Longrightarrow>
    (gs_seats s, gs_version s, gs_revision s) = (gs_seats s', gs_version s', gs_revision s') \<Longrightarrow> s = s'" by simp
  show "gin_replay s = Ok t \<Longrightarrow>
    gin_deal_next raw s = ensure (gin_status t = HandOver) GinHandNotOver (Ok (s\<lparr>gs_deals := gs_deals s @ [shuffled_deck raw]\<rparr>))"
    by (cases "gt_phase t") (simp_all add: gin_deal_next_def gin_table_of_def gin_status_def)
  show "case gin_refusal t m of None \<Rightarrow> \<exists>t'. gin_step t m = Ok t' | Some e \<Rightarrow> gin_step t m = Err e"
    if "whole_deal d" "gin_ok d t"
    using gin_step_cases [OF that(2) whole_dealD(2) [OF that(1)], of m] by (auto split: option.splits)
qed (simp_all add: gin_apply_step gin_inv_def gin_current_def whole_deal_reached)

lemma gin_current_table: "gin_current s t \<Longrightarrow> gin_table_of s = Some t"
  by (simp add: gin_current_def gin_table_of_def)

lemma gin_turn_open: "gin_current s t \<Longrightarrow> gin_status t = InPlay \<Longrightarrow> \<exists>seat. gin_turn_user s = Some (Some (gin_user_of s seat))"
  by (cases "gt_phase t") (auto simp: gin_status_def gin_turn_user_def gin_current_table)

text \<open>A session: a player's moves, and the next hands dealt by the service.\<close>

abbreviation gin_call :: "gin_state \<Rightarrow> gin_move + (nat \<Rightarrow> nat) \<Rightarrow> (gin_error, gin_state \<times> gin_outcome option) res" where
  "gin_call \<equiv> match_call gin_apply_move gin_deal_next"

lemma gin_new_restart:
  "gin_new coin raw a b = (gin_new coin raw a b)\<lparr>gs_deals := [shuffled_deck raw], gs_moves := []\<rparr>"
  by (simp add: gin_new_def)

lemma gin_inv_new: "gin_inv (gin_new coin raw a b)"
  by (subst gin_new_restart) (simp add: gin.inv_restart)

interpretation gin_sides: two_sides gn_other "\<lambda>seat. seat \<le> 1" gin_user_of gin_seat_of
proof
  fix s :: gin_state and u c and d :: nat
  show "c \<le> 1 \<Longrightarrow> gn_other c \<le> 1" "c \<le> 1 \<Longrightarrow> gn_other (gn_other c) = c" "c \<le> 1 \<Longrightarrow> gn_other c \<noteq> c"
    "c \<le> 1 \<Longrightarrow> d \<le> 1 \<Longrightarrow> d = c \<or> d = gn_other c" for c
    unfolding gn_other_def by presburger+
  show "gin_seat_of s u = Some c \<Longrightarrow> c \<le> 1 \<and> gin_user_of s c = u"
    by (auto simp: gin_seat_of_def gin_user_of_def split: if_splits)
  show "c \<le> 1 \<Longrightarrow> gin_seat_of s (gin_user_of s c) \<noteq> None" for c
    by (auto simp: gin_seat_of_def gin_user_of_def)
qed

section \<open>Reading a stored match\<close>

lemma gin_check_deals_iff:
  "gin_check_deals deals = (if \<forall>deal \<in> set deals. whole_deal deal then Ok () else Err GinNotADeck)"
  by (induction deals) (auto simp: is_whole_deck_iff whole_deal_def ensure_def)

lemma gin_parse_iff:
  "gin_parse (Some s) = Ok s' \<longleftrightarrow> s' = s \<and> gs_version s = 1 \<and> gin_inv s"
proof -
  have "\<exists>t. gin_replay s = Ok t \<and> gt_hand t + 1 = length (gs_deals s) \<Longrightarrow> gs_deals s \<noteq> []" by auto
  then show ?thesis
    by (auto simp: gin_parse_def res_simps gin_check_deals_iff gin_inv_def split: if_splits)
qed

lemma gin_parse_safe: "gin_parse d \<noteq> Panic"
proof (cases d)
  case (Some s)
  then show ?thesis
    by (auto simp: gin_parse_def res_simps gin_check_deals_iff gin.whole_safe split: if_splits)
qed (simp add: gin_parse_def)

lemma gin_inv_played:
  assumes inv: "gin_inv s" and v: "gs_version s = 1"
  shows "\<exists>raw a b evs. submit_all gin_call (gin_new True raw a b) evs = Ok (s\<lparr>gs_revision := 0\<rparr>)"
proof -
  obtain a b where ab: "gs_seats s = (a, b)" by (cases "gs_seats s")
  have "gin_inv (s\<lparr>gs_revision := 0\<rparr>)" using inv by (simp add: gin_inv_def gin_replay_def)
  from gin.played [OF this] obtain raw evs where
    "submit_all gin_call (s\<lparr>gs_revision := 0, gs_deals := [shuffled_deck raw], gs_moves := []\<rparr>) evs = Ok (s\<lparr>gs_revision := 0\<rparr>)"
    by auto
  moreover have "s\<lparr>gs_revision := 0, gs_deals := [shuffled_deck raw], gs_moves := []\<rparr> = gin_new True raw a b"
    using ab v by (cases s) (simp add: gin_new_def)
  ultimately show ?thesis by auto
qed

section \<open>What a knock pays\<close>

text \<open>
  A number of points no choice of melds can leave less than, and a hand laid down beside the melds of
  the table: every card is in a meld, laid off or deadwood, the laid cards extend melds of the table
  to melds, and no card of the deadwood could still be laid off.
\<close>

definition least_deadwood :: "card list \<Rightarrow> nat \<Rightarrow> bool" where
  "least_deadwood hand n \<longleftrightarrow>
     (\<forall>F. (\<forall>A \<in> F. gin_meld A \<and> A \<subseteq> set hand) \<and> pairwise disjnt F \<longrightarrow> n \<le> (\<Sum>c \<in> set hand - \<Union>F. card_value c))"

definition laid_down :: "card list list \<Rightarrow> card list \<Rightarrow> reveal \<Rightarrow> bool" where
  "laid_down table hand r \<longleftrightarrow>
     mset (concat (rl_melds r)) + mset (rl_laid_off r) + mset (rl_deadwood r) = mset hand \<and>
     (\<forall>meld \<in> set (rl_melds r). gin_meld (set meld) \<and> distinct meld) \<and>
     (\<exists>table'. length table' = length table \<and> mset (concat table') = mset (concat table) + mset (rl_laid_off r) \<and>
        (\<forall>k < length table. \<exists>ext. table' ! k = table ! k @ ext) \<and> (\<forall>meld \<in> set table'. gin_meld (set meld)) \<and>
        (\<forall>c \<in> set (rl_deadwood r). \<forall>meld \<in> set table'. \<not> gin_meld (insert c (set meld))))"

lemma visited_bound:
  assumes hand: "distinct hand" "length hand \<le> 16" and n: "\<And>c u. (c, u) \<in> set (each_melding hand) \<Longrightarrow> n \<le> unused_points hand u"
  shows "least_deadwood hand n"
  unfolding least_deadwood_def
proof (intro allI impI)
  fix F
  assume "(\<forall>A \<in> F. gin_meld A \<and> A \<subseteq> set hand) \<and> pairwise disjnt F"
  then obtain c u where v: "(c, u) \<in> set (each_melding hand)" "(!) hand ` mask_set u = \<Union>F"
    using visited_family [OF hand, of F] by blast
  from n [OF v(1)] unused_points_sum [OF hand v(1)] v(2) show "n \<le> (\<Sum>c \<in> set hand - \<Union>F. card_value c)" by simp
qed

lemma melding_laid_down:
  assumes hand: "distinct hand" "length hand \<le> 16" and m: "best_melding hand = Some m"
  shows "laid_down [] hand \<lparr>rl_seat = seat, rl_melds = melds m, rl_laid_off = [], rl_deadwood = deadwood m\<rparr>"
    "least_deadwood hand (deadwood_points m)"
proof -
  obtain chosen used where b: "(chosen, used) \<in> set (each_melding hand)" "m = melding_of hand chosen"
    "\<forall>(c, u) \<in> set (each_melding hand). unused_points hand used \<le> unused_points hand u"
    using best_melding_spec [OF hand] m by auto
  note v = visited_melding [OF hand b(1)]
  from v(1,2) b(2) show "laid_down [] hand \<lparr>rl_seat = seat, rl_melds = melds m, rl_laid_off = [], rl_deadwood = deadwood m\<rparr>"
    by (simp add: laid_down_def)
  show "least_deadwood hand (deadwood_points m)"
    by (rule visited_bound [OF hand]) (use b v(3) in auto)
qed

lemma gin_points_split: "mset laid + mset left = mset cards \<Longrightarrow> gin_points left \<le> gin_points cards"
proof -
  assume "mset laid + mset left = mset cards"
  then have "gin_points (laid @ left) = gin_points cards" by (intro gin_points_mset) simp
  then show ?thesis by (simp add: gin_points_def)
qed

lemma defence_laid_down:
  assumes hand: "distinct hand" "length hand \<le> 16"
    and table: "\<forall>meld \<in> set table. gin_meld (set meld) \<and> distinct meld \<and> set meld \<inter> set hand = {}"
    and r: "best_defence hand table seat = Some r"
  shows "laid_down table hand r" "least_deadwood hand (reveal_points r)" "rl_seat r = seat"
proof -
  have "map (\<lambda>(chosen, _). defence_of hand table seat chosen) (each_melding hand) \<noteq> []" by (simp add: each_melding_def)
  from first_least_spec [OF this, of reveal_points] r
  have r: "r \<in> (\<lambda>(chosen, _). defence_of hand table seat chosen) ` set (each_melding hand)"
    and least: "\<And>c u. (c, u) \<in> set (each_melding hand) \<Longrightarrow> reveal_points r \<le> reveal_points (defence_of hand table seat c)"
    by (force simp: best_defence_def)+
  then obtain chosen used where v: "(chosen, used) \<in> set (each_melding hand)" "r = defence_of hand table seat chosen" by auto
  have lay: "laid_table table (deadwood (melding_of hand c)) \<and> mset (deadwood (melding_of hand c)) \<subseteq># mset hand"
    if "(c, u) \<in> set (each_melding hand)" for c u
  proof -
    have sub: "mset (deadwood (melding_of hand c)) \<subseteq># mset hand"
      using visited_melding(1) [OF hand that] by (metis mset_subset_eq_add_right)
    then have "set (deadwood (melding_of hand c)) \<subseteq> set hand" by (metis set_mset_mono set_mset_mset)
    with table distinct_sub_mset [OF sub hand(1)] sub show ?thesis unfolding laid_table_def by blast
  qed
  show "least_deadwood hand (reveal_points r)"
  proof (rule visited_bound [OF hand])
    fix c u
    assume cu: "(c, u) \<in> set (each_melding hand)"
    obtain laid left where l: "lay_off table (deadwood (melding_of hand c)) = (laid, left)"
      by (cases "lay_off table (deadwood (melding_of hand c))")
    from lay_off_on_spec [of table "deadwood (melding_of hand c)" "[]" laid left] lay [OF cu] l
    have "mset laid + mset left = mset (deadwood (melding_of hand c))" by (auto simp: lay_off_def)
    from gin_points_split [OF this] visited_melding(3) [OF hand cu] l least cu
    show "reveal_points r \<le> unused_points hand u" by (fastforce simp: defence_of_def reveal_points_def deadwood_points_def)
  qed
  obtain laid left where l: "lay_off table (deadwood (melding_of hand chosen)) = (laid, left)"
    by (cases "lay_off table (deadwood (melding_of hand chosen))")
  then have r': "r = \<lparr>rl_seat = seat, rl_melds = melds (melding_of hand chosen), rl_laid_off = laid, rl_deadwood = left\<rparr>"
    using v(2) by (simp add: defence_of_def Let_def)
  then show "rl_seat r = seat" by simp
  from lay_off_on_spec [of table "deadwood (melding_of hand chosen)" "[]" laid left] lay [OF v(1)] l
  have s: "mset laid + mset left = mset (deadwood (melding_of hand chosen))"
    "\<exists>table'. length table' = length table \<and> mset (concat table') = mset (concat table) + mset laid \<and>
       (\<forall>k < length table. \<exists>ext. table' ! k = table ! k @ ext) \<and> (\<forall>meld \<in> set table'. gin_meld (set meld)) \<and>
       (\<forall>c \<in> set left. \<forall>meld \<in> set table'. \<not> gin_meld (insert c (set meld)))"
    by (auto simp: lay_off_def) blast
  from visited_melding(1) [OF hand v(1)] s(1)
  have "mset (concat (melds (melding_of hand chosen))) + mset laid + mset left = mset hand" by (simp add: add.assoc)
  with s(2) visited_melding(2) [OF hand v(1)] show "laid_down table hand r" by (simp add: laid_down_def r')
qed

text \<open>The settlement of a hand: who scores, and how much.\<close>

definition settled :: "card list \<Rightarrow> card list \<Rightarrow> nat \<Rightarrow> hand_result \<Rightarrow> nat \<Rightarrow> nat \<Rightarrow> bool" where
  "settled knocking defending knocker r scorer points \<longleftrightarrow>
     (\<exists>mine theirs. hr_reveals r = [mine, theirs] \<and> hr_scored r = Some (scorer, points) \<and>
        rl_seat mine = knocker \<and> rl_seat theirs = 1 - knocker \<and>
        laid_down [] knocking mine \<and> least_deadwood knocking (reveal_points mine) \<and> reveal_points mine \<le> 10 \<and>
        laid_down (if hr_end r = EndGin then [] else rl_melds mine) defending theirs \<and> least_deadwood defending (reveal_points theirs) \<and>
        (if reveal_points mine = 0 then hr_end r = EndGin \<and> scorer = knocker \<and> points = 25 + reveal_points theirs
         else if reveal_points mine < reveal_points theirs
         then hr_end r = EndKnock \<and> scorer = knocker \<and> points = reveal_points theirs - reveal_points mine
         else hr_end r = EndUndercut \<and> scorer = 1 - knocker \<and> points = 25 + (reveal_points mine - reveal_points theirs)))"

lemma settle_hand_settled:
  assumes hands: "distinct (gt_hands t knocker)" "length (gt_hands t knocker) \<le> 16"
      "distinct (gt_hands t (gn_other knocker))" "length (gt_hands t (gn_other knocker)) \<le> 16"
      "set (gt_hands t knocker) \<inter> set (gt_hands t (gn_other knocker)) = {}"
    and low: "best_melding (gt_hands t knocker) = Some m" "deadwood_points m \<le> 10"
    and t': "settle_hand t knocker = Some t'"
  shows "\<exists>r scorer points. gt_results t' = gt_results t @ [r] \<and> settled (gt_hands t knocker) (gt_hands t (gn_other knocker)) knocker r scorer points \<and>
    gt_scores t' = (gt_scores t)(scorer := gt_scores t scorer + points) \<and>
    gt_phase t' = (if 100 \<le> gt_scores t scorer + points then GinWon scorer else GinAwaitingDeal)"
proof -
  let ?def = "gt_hands t (gn_other knocker)"
  obtain how defended scorer points where st: "settlement ?def m knocker = Some (how, defended, scorer, points)"
    and t'': "t' = t\<lparr>gt_scores := (gt_scores t)(scorer := gt_scores t scorer + points),
      gt_results := gt_results t @ [\<lparr>hr_hand = gt_hand t, hr_end = how, hr_scored = Some (scorer, points),
        hr_reveals = [\<lparr>rl_seat = knocker, rl_melds = melds m, rl_laid_off = [], rl_deadwood = deadwood m\<rparr>, defended]\<rparr>],
      gt_phase := (if gt_scores t scorer + points \<ge> 100 then GinWon scorer else GinAwaitingDeal)\<rparr>"
    using t' low(1) by (auto simp: settle_hand_def Let_def bind_eq_Some_conv)
  let ?mine = "\<lparr>rl_seat = knocker, rl_melds = melds m, rl_laid_off = [], rl_deadwood = deadwood m\<rparr>"
  let ?r = "\<lparr>hr_hand = gt_hand t, hr_end = how, hr_scored = Some (scorer, points), hr_reveals = [?mine, defended]\<rparr>"
  note mine = melding_laid_down [OF hands(1,2) low(1)]
  have dw: "reveal_points ?mine = deadwood_points m" by (simp add: reveal_points_def deadwood_points_def)
  have table: "\<forall>meld \<in> set (melds m). gin_meld (set meld) \<and> distinct meld \<and> set meld \<inter> set ?def = {}"
  proof
    fix meld
    assume meld: "meld \<in> set (melds m)"
    have "mset (concat (melds m)) + mset (deadwood m) = mset (gt_hands t knocker)" using mine(1) by (simp add: laid_down_def)
    then have "set (concat (melds m)) \<subseteq> set (gt_hands t knocker)" by (metis mset_subset_eq_add_left set_mset_mono set_mset_mset)
    with meld hands(5) mine(1) show "gin_meld (set meld) \<and> distinct meld \<and> set meld \<inter> set ?def = {}"
      by (fastforce simp: laid_down_def)
  qed
  have "settled (gt_hands t knocker) ?def knocker ?r scorer points"
  proof (cases "deadwood_points m = 0")
    case True
    then obtain d where d: "best_melding ?def = Some d" "how = EndGin" "scorer = knocker" "points = 25 + deadwood_points d"
      "defended = \<lparr>rl_seat = gn_other knocker, rl_melds = melds d, rl_laid_off = [], rl_deadwood = deadwood d\<rparr>"
      using st by (auto simp: settlement_def Let_def)
    with melding_laid_down [OF hands(3,4) d(1)] mine dw True show ?thesis
      by (simp add: settled_def reveal_points_def deadwood_points_def gn_other_def)
  next
    case False
    then obtain d where d: "best_defence ?def (melds m) (gn_other knocker) = Some d" "defended = d"
      "(how, scorer, points) = (if deadwood_points m < reveal_points d then (EndKnock, knocker, reveal_points d - deadwood_points m)
        else (EndUndercut, gn_other knocker, deadwood_points m - reveal_points d + 25))"
      using st by (auto simp: settlement_def Let_def split: if_splits)
    with defence_laid_down [OF hands(3,4) table d(1)] mine dw low(2) False show ?thesis
      by (auto simp: settled_def gn_other_def split: if_splits)
  qed
  with t'' show ?thesis by (intro exI [of _ ?r] exI [of _ scorer] exI [of _ points]) auto
qed

section \<open>Properties\<close>

lemma gin_reached:
  assumes "submit_all gin_call (gin_new coin raw challenger claimer) evs = Ok s"
  shows "\<exists>t. gin_current s t \<and> gin_table_of s = Some t \<and> gin_ok (last (gs_deals s)) t \<and> whole_deal (last (gs_deals s))"
  using gin.inv_current [OF gin.calls.session_inv [OF gin_inv_new assms]] gin.current_ok gin_current_table by blast

text \<open>
  C27. A gin match keeps its cards and its books. Whatever moves are submitted and hands dealt after the opening, no
  call panics and the match replays to a table on which the two hands, the discard pile and the stock are
  together one whole deck. Each score is the sum of what the finished hands scored for that seat, a seat
  has won exactly when it has reached 100, and before the last result neither had. A player to draw finds at
  least three cards in the stock and both players hold ten; a player to throw holds eleven.
\<close>

theorem gin_keeps_books:
  "\<exists>s t. submit_all gin_call (gin_new coin raw challenger claimer) evs = Ok s \<and> gin_table_of s = Some t \<and>
     mset (gt_hands t 0) + mset (gt_hands t 1) + mset (gt_discards t) + mset (gt_stock t) = mset fresh_deck \<and>
     (\<forall>seat. gt_scores t seat = won_points (gt_results t) seat) \<and>
     (\<forall>seat. gt_phase t = GinWon seat \<longleftrightarrow> 100 \<le> gt_scores t seat) \<and>
     (\<forall>n < length (gt_results t). \<forall>seat. won_points (take n (gt_results t)) seat < 100) \<and>
     (\<forall>seat. gt_phase t = GinDrawing seat \<longrightarrow>
        length (gt_hands t seat) = 10 \<and> length (gt_hands t (1 - seat)) = 10 \<and> 3 \<le> length (gt_stock t) \<and> gt_discards t \<noteq> []) \<and>
     (\<forall>seat. gt_phase t = GinDiscarding seat \<longrightarrow> length (gt_hands t seat) = 11 \<and> length (gt_hands t (1 - seat)) = 10)"
proof -
  obtain s where s: "submit_all gin_call (gin_new coin raw challenger claimer) evs = Ok s"
    using gin.calls.session_ok [OF gin_inv_new, where ms = evs] by blast
  obtain t where t: "gin_table_of s = Some t" "gin_ok (last (gs_deals s)) t" "whole_deal (last (gs_deals s))"
    using gin_reached [OF s] by blast
  then have b: "gin_books t" and c: "gin_cards (last (gs_deals s)) t" and st: "gin_stage t" by (simp_all add: gin_ok_def)
  have "mset (gt_hands t 0) + mset (gt_hands t 1) + mset (gt_discards t) + mset (gt_stock t) = mset fresh_deck"
    using c t(3) by (simp add: gin_cards_def whole_deal_def)
  moreover have "length (gt_hands t seat) = 10 \<and> length (gt_hands t (1 - seat)) = 10 \<and> 3 \<le> length (gt_stock t) \<and> gt_discards t \<noteq> []"
    if "gt_phase t = GinDrawing seat" for seat using st that by (simp add: gin_stage_def gn_other_def)
  moreover have "length (gt_hands t seat) = 11 \<and> length (gt_hands t (1 - seat)) = 10"
    if "gt_phase t = GinDiscarding seat" for seat using st that by (simp add: gin_stage_def gn_other_def)
  ultimately show ?thesis using s t(1) b unfolding gin_books_def fun_eq_iff by blast
qed

lemma gin_keeps_books_witness:
  "\<exists>s t. submit_all gin_call (gin_new True (\<lambda>_. 0) 1 2) [Inl (GinDraw PileStock)] = Ok s \<and> gin_table_of s = Some t \<and>
     mset (gt_hands t 0) + mset (gt_hands t 1) + mset (gt_discards t) + mset (gt_stock t) = mset fresh_deck"
  using gin_keeps_books [of True "\<lambda>_. 0" 1 2 "[Inl (GinDraw PileStock)]"] by blast



text \<open>
  C26. What a knock pays. An accepted knock ends the hand and appends one result. The knocker's ten remaining cards are laid
  down with the least deadwood there is, at most ten. With none it is gin: the knocker scores 25 and the
  other hand's least deadwood. Otherwise the other player lays cards off on the knocker's melds until
  none fits, and leaves no more deadwood than any melds of that hand would; the knocker scores the difference if
  the own deadwood is the smaller, and else is undercut: the other player scores the difference and
  25. The scorer's total grows by exactly that and wins the match at 100.
\<close>

theorem gin_knock_exact:
  assumes "submit_all gin_call (gin_new coin raw challenger claimer) evs = Ok s" and "gin_table_of s = Some t"
    and "gt_phase t = GinDiscarding seat" and "gin_apply_move s (GinThrow c True) = Ok (s', out)"
  shows "\<exists>r scorer points. go_result out = Some r \<and>
    settled (filter (\<lambda>held. held \<noteq> c) (gt_hands t seat)) (gt_hands t (1 - seat)) seat r scorer points \<and>
    go_scores out = (gt_scores t)(scorer := gt_scores t scorer + points) \<and>
    go_phase out = (if 100 \<le> gt_scores t scorer + points then GinWon scorer else GinAwaitingDeal)"
proof -
  obtain u where "gin_current s u" "gin_table_of s = Some u" "gin_ok (last (gs_deals s)) u" "whole_deal (last (gs_deals s))"
    using gin_reached [OF assms(1)] by blast
  with assms(2) have t: "gin_current s t" "gin_ok (last (gs_deals s)) t" "distinct (last (gs_deals s))"
    by (simp_all add: whole_dealD(2))
  then have cards: "gin_cards (last (gs_deals s)) t" and seat: "seat \<le> 1" "length (gt_hands t seat) = 11" "length (gt_hands t (1 - seat)) = 10"
    using assms(3) by (simp_all add: gin_ok_def gin_stage_def gn_other_def)
  from gin.apply_cases [OF t(1), of "GinThrow c True"] assms(4) obtain t' where
    t': "gin_step t (GinThrow c True) = Ok t'" "out = gin_outcome_of t (GinThrow c True) t'" by (cases "gin_refusal t (GinThrow c True)") auto
  let ?u = "threw t seat c True" and ?left = "filter (\<lambda>held. held \<noteq> c) (gt_hands t seat)"
  have o: "gn_other seat \<noteq> seat" "gn_other seat = 1 - seat" using seat(1) unfolding gn_other_def by presburger+
  have hu: "gt_hands ?u seat = ?left" "gt_hands ?u (gn_other seat) = gt_hands t (1 - seat)" "gt_results ?u = gt_results t" "gt_scores ?u = gt_scores t"
    using o by (simp_all add: threw_def)
  from t'(1) assms(3) hu obtain m where m: "best_melding ?left = Some m" "deadwood_points m \<le> 10" "settle_hand ?u seat = Some t'"
    by (auto simp: gin_step_def threw_def ensure_def expect_def split: if_splits option.splits)
  have dist: "distinct (gt_hands t 0 @ gt_hands t 1)"
  proof -
    have "mset (last (gs_deals s)) = mset (gt_hands t 0 @ gt_hands t 1) + (mset (gt_discards t) + mset (gt_stock t))"
      using cards by (simp add: gin_cards_def add.assoc)
    then have "mset (gt_hands t 0 @ gt_hands t 1) \<subseteq># mset (last (gs_deals s))" by (simp only: mset_subset_eq_add_left)
    with t(3) show ?thesis using distinct_sub_mset by blast
  qed
  have "seat = 0 \<or> seat = 1" using seat(1) by auto
  with dist have d: "distinct (gt_hands t seat)" "distinct (gt_hands t (1 - seat))" "set (gt_hands t seat) \<inter> set (gt_hands t (1 - seat)) = {}"
    by auto
  have "length ?left \<le> 16" using length_filter_le [of "\<lambda>held. held \<noteq> c" "gt_hands t seat"] seat(2) by linarith
  moreover have "distinct ?left" "set ?left \<inter> set (gt_hands t (1 - seat)) = {}" "length (gt_hands t (1 - seat)) \<le> 16"
    using d seat(3) by auto
  ultimately have "\<exists>r scorer points. gt_results t' = gt_results t @ [r] \<and> settled ?left (gt_hands t (1 - seat)) seat r scorer points \<and>
    gt_scores t' = (gt_scores t)(scorer := gt_scores t scorer + points) \<and>
    gt_phase t' = (if 100 \<le> gt_scores t scorer + points then GinWon scorer else GinAwaitingDeal)"
    using settle_hand_settled [of ?u seat m t', unfolded hu] d(2) m by blast
  then obtain r scorer points where r: "gt_results t' = gt_results t @ [r]" "settled ?left (gt_hands t (1 - seat)) seat r scorer points"
    "gt_scores t' = (gt_scores t)(scorer := gt_scores t scorer + points)"
    "gt_phase t' = (if 100 \<le> gt_scores t scorer + points then GinWon scorer else GinAwaitingDeal)" by blast
  then have "go_result out = Some r" "go_scores out = gt_scores t'" "go_phase out = gt_phase t'"
    using t'(2) by (simp_all add: gin_outcome_of_def get_at_def)
  with r show ?thesis by metis
qed

text \<open>A deal on which the first player can go gin at once: ten hearts in a row.\<close>

lemma least_deadwood_one_meld:
  assumes "least_deadwood hand n" and "gin_meld (set hand)"
  shows "n = 0"
proof -
  have "n \<le> (\<Sum>c \<in> set hand - \<Union>{set hand}. card_value c)"
    using assms unfolding least_deadwood_def by (blast intro: pairwise_singleton)
  then show ?thesis by simp
qed

lemma settled_gin:
  assumes "settled knocking defending knocker r scorer points" and "gin_meld (set knocking)"
  shows "scorer = knocker" "25 \<le> points"
proof -
  obtain mine theirs where "least_deadwood knocking (reveal_points mine)"
    and s: "reveal_points mine = 0 \<longrightarrow> scorer = knocker \<and> points = 25 + reveal_points theirs"
    using assms(1) unfolding settled_def by metis
  then have "reveal_points mine = 0" using least_deadwood_one_meld assms(2) by blast
  with s show "scorer = knocker" "25 \<le> points" by simp_all
qed

lemma hearts_meld: "gin_meld (set (take 10 fresh_deck))"
proof -
  have e: "take 10 fresh_deck = map heart [Ace, Two, Three, Four, Five, Six, Seven, Eight, Nine, Ten]"
    by (simp add: fresh_deck_def RANKS_def CARD_SUITS_def heart_def)
  have c: "card (set (map heart [Ace, Two, Three, Four, Five, Six, Seven, Eight, Nine, Ten])) = 10" by (simp add: heart_def)
  have r: "(\<lambda>c. rank_number (rank c)) ` set (map heart [Ace, Two, Three, Four, Five, Six, Seven, Eight, Nine, Ten]) = {1..<1 + 10}"
    by (auto simp: heart_def) presburger
  have s: "\<forall>c \<in> set (map heart [Ace, Two, Three, Four, Five, Six, Seven, Eight, Nine, Ten]). suit c = Hearts" by (simp add: heart_def)
  show ?thesis unfolding e gin_meld_def c by (intro conjI disjI2 exI [of _ Hearts] exI [of _ 1] s r) simp_all
qed

lemma gin_knock_exact_witness:
  "\<exists>raw s s' out. submit_all gin_call (gin_new True raw 1 2) [Inl (GinDraw PileStock)] = Ok s \<and>
    gin_apply_move s (GinThrow (fresh_deck ! 21) True) = Ok (s', out) \<and> 25 \<le> go_scores out 1"
proof -
  have "whole_deal fresh_deck" by (simp add: whole_deal_def)
  then obtain raw where raw: "shuffled_deck raw = fresh_deck" using whole_deal_reached by blast
  let ?s0 = "gin_new True raw 1 2"
  obtain t0 where t0: "gin_first fresh_deck = Some t0" "gin_current ?s0 t0"
    using gin.restart_current [OF \<open>whole_deal fresh_deck\<close>, of ?s0] gin_new_restart [of True raw 1 2] raw by auto
  have len: "length fresh_deck = 52" by (rule whole_dealD(1) [OF \<open>whole_deal fresh_deck\<close>])
  have f: "gt_phase t0 = GinDrawing 1" "gt_hands t0 1 = take 10 fresh_deck" "gt_stock t0 = drop 21 fresh_deck" "gt_scores t0 = (\<lambda>_. 0)"
    "gt_results t0 = []"
    using t0(1) len by (auto simp: gin_first_def gin_deal_def Let_def gn_other_def)
  have stock: "drop 21 fresh_deck = fresh_deck ! 21 # drop 22 fresh_deck" using Cons_nth_drop_Suc [of 21 fresh_deck] len by simp
  have "gin_refusal t0 (GinDraw PileStock) = None" using f(1) by (simp add: gin_refusal_def)
  with gin.apply_cases [OF t0(2), of "GinDraw PileStock"] obtain t1 s out where
    t1: "gin_step t0 (GinDraw PileStock) = Ok t1" "gin_apply_move ?s0 (GinDraw PileStock) = Ok (s, out)" "gin_current s t1" by auto
  have g: "gt_phase t1 = GinDiscarding 1" "gt_hands t1 1 = take 10 fresh_deck @ [fresh_deck ! 21]" "gt_taken t1 = None" "gt_scores t1 = (\<lambda>_. 0)"
    using t1(1) f stock by (auto simp: gin_step_def)
  have sub: "submit_all gin_call ?s0 [Inl (GinDraw PileStock)] = Ok s" using t1(2) by (simp add: match_call_def)
  have "fresh_deck ! 21 \<notin> set (take 10 fresh_deck)"
    using std_codec.distinct_fresh len by (auto simp: in_set_conv_nth nth_eq_iff_index_eq)
  then have left: "filter (\<lambda>held. held \<noteq> fresh_deck ! 21) (gt_hands t1 1) = take 10 fresh_deck"
    using g(2) by (auto simp: filter_id_conv)
  have hand: "distinct (take 10 fresh_deck)" "length (take 10 fresh_deck) \<le> 16" using std_codec.distinct_fresh by simp_all
  obtain m where m: "best_melding (take 10 fresh_deck) = Some m" by (rule melding_returns [OF hand])
  from least_deadwood_one_meld [OF melding_laid_down(2) [OF hand m] hearts_meld] have "deadwood_points m = 0" .
  with m left g have "gin_refusal t1 (GinThrow (fresh_deck ! 21) True) = None"
    by (simp add: gin_refusal_def deadwood_after_discard_def)
  with gin.apply_cases [OF t1(3), of "GinThrow (fresh_deck ! 21) True"] obtain s' out where
    k: "gin_apply_move s (GinThrow (fresh_deck ! 21) True) = Ok (s', out)" by auto
  from gin_knock_exact [OF sub gin_current_table [OF t1(3)] g(1) k] left obtain r scorer points where
    r: "settled (take 10 fresh_deck) (gt_hands t1 (1 - 1)) 1 r scorer points" "go_scores out = (gt_scores t1)(scorer := gt_scores t1 scorer + points)"
    by auto
  from settled_gin [OF r(1) hearts_meld] have "scorer = 1" "25 \<le> points" .
  with r(2) g(4) have "25 \<le> go_scores out 1" by simp
  with sub k show ?thesis by blast
qed



text \<open>
  The stored documents are the played matches. Reading never panics, and a decoded state of the
  current version is accepted exactly when, its revision counter aside, it is the result of some calls on some
  opening: every deal a whole deck, every move legal in its turn, no deal left unplayed. It is
  returned as it was stored.
\<close>

theorem gin_documents_are_play:
  "gin_parse d \<noteq> Panic \<and>
   (gin_parse (Some s) = Ok s' \<longleftrightarrow>
      s' = s \<and> gs_version s = 1 \<and>
      (\<exists>raw challenger claimer evs. submit_all gin_call (gin_new True raw challenger claimer) evs = Ok (s\<lparr>gs_revision := 0\<rparr>)))"
proof -
  have rev: "gin_inv (s\<lparr>gs_revision := 0\<rparr>) = gin_inv s" by (simp add: gin_inv_def gin_replay_def)
  have "\<exists>raw challenger claimer evs. submit_all gin_call (gin_new True raw challenger claimer) evs = Ok (s\<lparr>gs_revision := 0\<rparr>)"
    if "gs_version s = 1" and "gin_inv s"
    using gin_inv_played [OF that(2,1)] .
  moreover have "gin_inv s" if "submit_all gin_call (gin_new True raw challenger claimer) evs = Ok (s\<lparr>gs_revision := 0\<rparr>)" for raw challenger claimer evs
    using gin.calls.session_inv [OF gin_inv_new that] rev by simp
  ultimately show ?thesis using gin_parse_safe gin_parse_iff by blast
qed

end
