(* ===== verification/DailyMatch.thy ===== *)
theory DailyMatch
  imports Roster "HOL-Library.Product_Lexorder"
begin

text \<open>
  The stored daily match (\<open>late-core/src/models/daily_match.rs\<close>): the row of \<open>daily_matches\<close> and the SQL
  statements that move it from open to active to finished or cancelled. The table is the list of its
  rows in insertion order; each statement is atomic and sees one \<open>current_timestamp\<close>, an integer. A
  comparison with \<open>NULL\<close> is not true. The JSON document of a match is an arbitrary type \<open>'j\<close>; the
  statements read it only through \<open>state->>'revision'\<close>, the parameter \<open>rt\<close>.
\<close>

section \<open>Rows\<close>

definition STATUS_OPEN :: string where "STATUS_OPEN = ''open''"
definition STATUS_ACTIVE :: string where "STATUS_ACTIVE = ''active''"
definition STATUS_FINISHED :: string where "STATUS_FINISHED = ''finished''"
definition STATUS_CANCELLED :: string where "STATUS_CANCELLED = ''cancelled''"

lemma status_distinct [simp]:
  "STATUS_OPEN \<noteq> STATUS_ACTIVE" "STATUS_ACTIVE \<noteq> STATUS_OPEN" "STATUS_OPEN \<noteq> STATUS_FINISHED"
  "STATUS_FINISHED \<noteq> STATUS_OPEN" "STATUS_OPEN \<noteq> STATUS_CANCELLED" "STATUS_CANCELLED \<noteq> STATUS_OPEN"
  "STATUS_ACTIVE \<noteq> STATUS_FINISHED" "STATUS_FINISHED \<noteq> STATUS_ACTIVE" "STATUS_ACTIVE \<noteq> STATUS_CANCELLED"
  "STATUS_CANCELLED \<noteq> STATUS_ACTIVE" "STATUS_FINISHED \<noteq> STATUS_CANCELLED" "STATUS_CANCELLED \<noteq> STATUS_FINISHED"
  by (simp_all add: STATUS_OPEN_def STATUS_ACTIVE_def STATUS_FINISHED_def STATUS_CANCELLED_def)

record 'j match_row =
  dm_id :: uuid
  dm_created :: int
  dm_updated :: int
  dm_game_kind :: string
  dm_status :: string
  dm_challenger :: uuid
  dm_opponent :: "uuid option"
  dm_turn :: "uuid option"
  dm_deadline :: "int option"
  dm_winner :: "uuid option"
  dm_result :: string
  dm_state :: 'j
  dm_challenger_seen :: "int option"
  dm_opponent_seen :: "int option"
  dm_chat_room :: "uuid option"
  dm_win_payout :: "string option"
  dm_started :: "int option"

datatype dm_error = DmDuplicateId | DmRevisionRange | DmBadPayout

text \<open>\<open>UPDATE ... WHERE p\<close>: the new table, the number of rows, and the rows of \<open>RETURNING *\<close>.\<close>

definition sql_update :: "('r \<Rightarrow> bool) \<Rightarrow> ('r \<Rightarrow> 'r) \<Rightarrow> 'r list \<Rightarrow> 'r list" where
  "sql_update p f rows = map (\<lambda>r. if p r then f r else r) rows"

definition sql_count :: "('r \<Rightarrow> bool) \<Rightarrow> 'r list \<Rightarrow> nat" where
  "sql_count p rows = length (filter p rows)"

definition sql_returning :: "('r \<Rightarrow> bool) \<Rightarrow> ('r \<Rightarrow> 'r) \<Rightarrow> 'r list \<Rightarrow> 'r list" where
  "sql_returning p f rows = map f (filter p rows)"

section \<open>The stored revision\<close>

text \<open>The integer a string of digits denotes.\<close>

definition digits_value :: "string \<Rightarrow> int" where
  "digits_value t = foldl (\<lambda>n c. n * 10 + (of_char c - 48)) 0 t"

definition all_digits :: "string \<Rightarrow> bool" where
  "all_digits t \<longleftrightarrow> t \<noteq> [] \<and> (\<forall>c \<in> set t. 48 \<le> (of_char c :: nat) \<and> (of_char c :: nat) \<le> 57)"

text \<open>\<open>STORED_REVISION_EQ_SQL\<close> without its comparison: a missing or odd revision counts as 0, and one
  past the range of \<open>BIGINT\<close> fails the cast.\<close>

definition stored_revision :: "('j \<Rightarrow> string option) \<Rightarrow> 'j \<Rightarrow> int option" where
  "stored_revision rt j =
     (case rt j of
        None \<Rightarrow> Some 0
      | Some t \<Rightarrow>
          if all_digits t then (if digits_value t < 2 ^ 63 then Some (digits_value t) else None)
          else Some 0)"

section \<open>Operations\<close>

definition count_active_entries :: "'j match_row list \<Rightarrow> uuid \<Rightarrow> nat" where
  "count_active_entries rows u =
     sql_count (\<lambda>r. (dm_status r = STATUS_OPEN \<and> dm_challenger r = u) \<or>
                    (dm_status r = STATUS_ACTIVE \<and> (dm_challenger r = u \<or> dm_opponent r = Some u))) rows"

text \<open>The id is the column default \<open>uuidv7()\<close> and \<open>doc0\<close> the default document.\<close>

definition create_challenge ::
  "int \<Rightarrow> uuid \<Rightarrow> 'j \<Rightarrow> 'j match_row list \<Rightarrow> string \<Rightarrow> uuid \<Rightarrow> (dm_error, 'j match_row list \<times> 'j match_row) res" where
  "create_challenge now id' doc0 rows kind challenger =
     ensure (id' \<notin> set (map dm_id rows)) DmDuplicateId
       (let row = \<lparr>dm_id = id', dm_created = now, dm_updated = now, dm_game_kind = kind,
                   dm_status = STATUS_OPEN, dm_challenger = challenger, dm_opponent = None, dm_turn = None,
                   dm_deadline = None, dm_winner = None, dm_result = [], dm_state = doc0,
                   dm_challenger_seen = None, dm_opponent_seen = None, dm_chat_room = None,
                   dm_win_payout = None, dm_started = None\<rparr>
        in Ok (rows @ [row], row))"

definition claim_guard :: "uuid \<Rightarrow> uuid \<Rightarrow> 'j match_row \<Rightarrow> bool" where
  "claim_guard match_id opponent r \<longleftrightarrow>
     dm_id r = match_id \<and> dm_status r = STATUS_OPEN \<and> dm_opponent r = None \<and> dm_challenger r \<noteq> opponent"

definition claim_set :: "int \<Rightarrow> uuid \<Rightarrow> uuid \<Rightarrow> int \<Rightarrow> 'j \<Rightarrow> 'j match_row \<Rightarrow> 'j match_row" where
  "claim_set now opponent turn deadline state r =
     r\<lparr>dm_status := STATUS_ACTIVE, dm_opponent := Some opponent, dm_turn := Some turn,
       dm_deadline := Some deadline, dm_state := state, dm_started := Some now, dm_updated := now\<rparr>"

definition claim ::
  "int \<Rightarrow> 'j match_row list \<Rightarrow> uuid \<Rightarrow> uuid \<Rightarrow> uuid \<Rightarrow> int \<Rightarrow> 'j \<Rightarrow> 'j match_row list \<times> 'j match_row option" where
  "claim now rows match_id opponent turn deadline state =
     (sql_update (claim_guard match_id opponent) (claim_set now opponent turn deadline state) rows,
      case sql_returning (claim_guard match_id opponent) (claim_set now opponent turn deadline state) rows of
        [] \<Rightarrow> None | r # _ \<Rightarrow> Some r)"

definition set_chat_room :: "'j match_row list \<Rightarrow> uuid \<Rightarrow> uuid \<Rightarrow> 'j match_row list \<times> nat" where
  "set_chat_room rows match_id room =
     (sql_update (\<lambda>r. dm_id r = match_id) (\<lambda>r. r\<lparr>dm_chat_room := Some room\<rparr>) rows,
      sql_count (\<lambda>r. dm_id r = match_id) rows)"

definition cancel_challenge :: "int \<Rightarrow> 'j match_row list \<Rightarrow> uuid \<Rightarrow> uuid \<Rightarrow> 'j match_row list \<times> nat" where
  "cancel_challenge now rows match_id challenger =
     (let guard = (\<lambda>r. dm_id r = match_id \<and> dm_challenger r = challenger \<and> dm_status r = STATUS_OPEN)
      in (sql_update guard (\<lambda>r. r\<lparr>dm_status := STATUS_CANCELLED, dm_updated := now\<rparr>) rows, sql_count guard rows))"

text \<open>The guards before the revision, then the revision: its cast can fail the statement.\<close>

definition guarded_write ::
  "('j \<Rightarrow> string option) \<Rightarrow> ('j match_row \<Rightarrow> bool) \<Rightarrow> int \<Rightarrow> ('j match_row \<Rightarrow> 'j match_row) \<Rightarrow>
     'j match_row list \<Rightarrow> (dm_error, 'j match_row list \<times> nat) res" where
  "guarded_write rt guard expected f rows =
     ensure (\<forall>r \<in> set rows. guard r \<longrightarrow> stored_revision rt (dm_state r) \<noteq> None) DmRevisionRange
       (let p = (\<lambda>r. guard r \<and> stored_revision rt (dm_state r) = Some expected)
        in Ok (sql_update p f rows, sql_count p rows))"

definition update_state ::
  "('j \<Rightarrow> string option) \<Rightarrow> int \<Rightarrow> 'j match_row list \<Rightarrow> uuid \<Rightarrow> 'j \<Rightarrow> uuid \<Rightarrow> uuid \<Rightarrow> int \<Rightarrow> int \<Rightarrow>
     (dm_error, 'j match_row list \<times> nat) res" where
  "update_state rt now rows match_id state by_user next_turn deadline expected =
     guarded_write rt
       (\<lambda>r. dm_id r = match_id \<and> dm_status r = STATUS_ACTIVE \<and> dm_turn r = Some by_user) expected
       (\<lambda>r. r\<lparr>dm_state := state, dm_turn := Some next_turn, dm_deadline := Some deadline, dm_updated := now\<rparr>)
       rows"

definition finish ::
  "('j \<Rightarrow> string option) \<Rightarrow> int \<Rightarrow> 'j match_row list \<Rightarrow> uuid \<Rightarrow> uuid option \<Rightarrow> daily_result \<Rightarrow> 'j \<Rightarrow> int \<Rightarrow>
     (dm_error, 'j match_row list \<times> nat) res" where
  "finish rt now rows match_id winner result state expected =
     guarded_write rt (\<lambda>r. dm_id r = match_id \<and> dm_status r = STATUS_ACTIVE) expected
       (\<lambda>r. r\<lparr>dm_status := STATUS_FINISHED, dm_winner := winner, dm_result := result_str result,
              dm_state := state, dm_turn := None, dm_deadline := None, dm_updated := now\<rparr>)
       rows"

definition set_win_payout ::
  "int \<Rightarrow> 'j match_row list \<Rightarrow> uuid \<Rightarrow> string \<Rightarrow> (dm_error, 'j match_row list) res" where
  "set_win_payout now rows match_id payout =
     (let guard = (\<lambda>r. dm_id r = match_id \<and> dm_status r = STATUS_FINISHED)
      in ensure (sql_count guard rows = 0 \<or> payout \<in> {''paid'', ''unplayed'', ''pair_day_capped'', ''failed''}) DmBadPayout
           (Ok (sql_update guard (\<lambda>r. r\<lparr>dm_win_payout := Some payout, dm_updated := now\<rparr>) rows)))"

definition expired :: "int \<Rightarrow> 'j match_row \<Rightarrow> bool" where
  "expired now r \<longleftrightarrow>
     dm_status r = STATUS_ACTIVE \<and> (case dm_deadline r of None \<Rightarrow> False | Some d \<Rightarrow> d < now)"

definition forfeit_set :: "int \<Rightarrow> 'j match_row \<Rightarrow> 'j match_row" where
  "forfeit_set now r =
     r\<lparr>dm_status := STATUS_FINISHED, dm_result := result_str Timeout,
       dm_winner := (if dm_turn r = Some (dm_challenger r) then dm_opponent r else Some (dm_challenger r)),
       dm_turn := None, dm_deadline := None, dm_updated := now\<rparr>"

definition forfeit_expired :: "int \<Rightarrow> 'j match_row list \<Rightarrow> 'j match_row list \<times> 'j match_row list" where
  "forfeit_expired now rows =
     (sql_update (expired now) (forfeit_set now) rows, sql_returning (expired now) (forfeit_set now) rows)"

definition in_lobby :: "int \<Rightarrow> int \<Rightarrow> 'j match_row \<Rightarrow> bool" where
  "in_lobby now thirty_days r \<longleftrightarrow>
     dm_status r = STATUS_OPEN \<or> dm_status r = STATUS_ACTIVE \<or>
     (dm_status r = STATUS_FINISHED \<and>
      (dm_challenger_seen r = None \<or> (dm_opponent r \<noteq> None \<and> dm_opponent_seen r = None)) \<and>
      dm_updated r > now - thirty_days)"

text \<open>\<open>ORDER BY status, ...\<close>: active, then finished, then open; a missing deadline sorts last.\<close>

definition lobby_key :: "'j match_row \<Rightarrow> int \<times> int \<times> int \<times> int" where
  "lobby_key r =
     (if dm_status r = STATUS_ACTIVE
      then (0, if dm_deadline r = None then 1 else 0,
            case dm_deadline r of None \<Rightarrow> 0 | Some d \<Rightarrow> d, uint (dm_id r))
      else if dm_status r = STATUS_FINISHED then (1, 0, - dm_updated r, uint (dm_id r))
      else (2, 0, - dm_created r, - uint (dm_id r)))"

definition list_lobby :: "int \<Rightarrow> int \<Rightarrow> 'j match_row list \<Rightarrow> 'j match_row list" where
  "list_lobby now thirty_days rows = sort_key lobby_key (filter (in_lobby now thirty_days) rows)"

definition mark_result_seen :: "int \<Rightarrow> 'j match_row list \<Rightarrow> uuid \<Rightarrow> uuid \<Rightarrow> 'j match_row list \<times> nat" where
  "mark_result_seen now rows match_id user =
     (let guard = (\<lambda>r. dm_id r = match_id \<and> dm_status r = STATUS_FINISHED \<and>
            ((dm_challenger r = user \<and> dm_challenger_seen r = None) \<or>
             (dm_opponent r = Some user \<and> dm_opponent_seen r = None)));
          set_seen = (\<lambda>r. r\<lparr>dm_challenger_seen := (if dm_challenger r = user then Some now else dm_challenger_seen r),
                            dm_opponent_seen := (if dm_opponent r = Some user then Some now else dm_opponent_seen r)\<rparr>)
      in (sql_update guard set_seen rows, sql_count guard rows))"

text \<open>The three statements of one CTE: the stale rooms, their voice channels, the rooms themselves. The
  foreign key of the matches clears their \<open>chat_room_id\<close>.\<close>

definition delete_stale_chat_rooms ::
  "int \<Rightarrow> int \<Rightarrow> 'j match_row list \<Rightarrow> (string \<times> uuid) list \<Rightarrow> uuid list \<Rightarrow>
     ('j match_row list \<times> (string \<times> uuid) list \<times> uuid list) \<times> nat" where
  "delete_stale_chat_rooms now thirty_days rows voice chats =
     (let stale = List.map_filter (\<lambda>r. if dm_status r \<in> {STATUS_FINISHED, STATUS_CANCELLED} \<and> dm_updated r < now - thirty_days
                                  then dm_chat_room r else None) rows;
          gone = (\<lambda>c. c \<in> set stale)
      in ((sql_update (\<lambda>r. case dm_chat_room r of Some c \<Rightarrow> gone c \<and> c \<in> set chats | None \<Rightarrow> False)
             (\<lambda>r. r\<lparr>dm_chat_room := None\<rparr>) rows,
           filter (\<lambda>(kind, target). \<not> (kind = ''chat_room'' \<and> gone target)) voice,
           filter (\<lambda>c. \<not> gone c) chats),
          length (filter gone chats)))"

section \<open>The life of a match\<close>

text \<open>The calls of the program as steps of the table. The service writes a state whose revision is one
  past the revision it loaded, gives the turn to one of the two players and names one of them, or
  nobody, as the winner.\<close>

definition is_player :: "'j match_row list \<Rightarrow> uuid \<Rightarrow> uuid \<Rightarrow> bool" where
  "is_player rows m u \<longleftrightarrow> (\<forall>r \<in> set rows. dm_id r = m \<longrightarrow> dm_challenger r = u \<or> dm_opponent r = Some u)"

inductive match_step :: "('j \<Rightarrow> string option) \<Rightarrow> 'j match_row list \<Rightarrow> 'j match_row list \<Rightarrow> bool" for rt where
  created: "create_challenge now i doc0 rows kind u = Ok (rows', r) \<Longrightarrow> match_step rt rows rows'"
| claimed: "claim now rows m opp turn dl j = (rows', out) \<Longrightarrow>
     (\<forall>r \<in> set rows. dm_id r = m \<longrightarrow> turn = opp \<or> turn = dm_challenger r) \<Longrightarrow> match_step rt rows rows'"
| roomed: "set_chat_room rows m room = (rows', n) \<Longrightarrow> match_step rt rows rows'"
| cancelled: "cancel_challenge now rows m u = (rows', n) \<Longrightarrow> match_step rt rows rows'"
| moved: "update_state rt now rows m j by_user nxt dl e = Ok (rows', n) \<Longrightarrow> stored_revision rt j = Some (e + 1) \<Longrightarrow>
     is_player rows m nxt \<Longrightarrow> match_step rt rows rows'"
| finished: "finish rt now rows m w result j e = Ok (rows', n) \<Longrightarrow> stored_revision rt j = Some (e + 1) \<Longrightarrow>
     (\<forall>u. w = Some u \<longrightarrow> is_player rows m u) \<Longrightarrow> match_step rt rows rows'"
| paid: "set_win_payout now rows m payout = Ok rows' \<Longrightarrow> match_step rt rows rows'"
| forfeited: "forfeit_expired now rows = (rows', out) \<Longrightarrow> match_step rt rows rows'"
| seen: "mark_result_seen now rows m u = (rows', n) \<Longrightarrow> match_step rt rows rows'"
| swept: "delete_stale_chat_rooms now days rows voice chats = ((rows', voice', chats'), n) \<Longrightarrow> match_step rt rows rows'"

text \<open>What holds of every row in its status.\<close>

definition players_ok :: "'j match_row \<Rightarrow> bool" where
  "players_ok r \<longleftrightarrow> (\<exists>opp. dm_opponent r = Some opp \<and> opp \<noteq> dm_challenger r)"

definition plays :: "'j match_row \<Rightarrow> uuid \<Rightarrow> bool" where
  "plays r u \<longleftrightarrow> dm_challenger r = u \<or> dm_opponent r = Some u"

definition row_ok :: "'j match_row \<Rightarrow> bool" where
  "row_ok r \<longleftrightarrow>
     (dm_status r = STATUS_OPEN \<and> dm_opponent r = None \<and> dm_turn r = None \<and> dm_deadline r = None \<and>
      dm_winner r = None \<and> dm_result r = []) \<or>
     (dm_status r = STATUS_CANCELLED \<and> dm_opponent r = None \<and> dm_turn r = None \<and> dm_winner r = None) \<or>
     (dm_status r = STATUS_ACTIVE \<and> players_ok r \<and> dm_deadline r \<noteq> None \<and> dm_winner r = None \<and>
      dm_result r = [] \<and> (\<exists>t. dm_turn r = Some t \<and> plays r t)) \<or>
     (dm_status r = STATUS_FINISHED \<and> players_ok r \<and> dm_turn r = None \<and> dm_deadline r = None \<and>
      (\<forall>w. dm_winner r = Some w \<longrightarrow> plays r w) \<and> (\<exists>res. dm_result r = result_str res))"

text \<open>How a row may look later: who plays never changes, a finished match never changes its outcome or
  its state, a cancelled one stays cancelled, and the revision of a running one never goes back.\<close>

definition later :: "('j \<Rightarrow> string option) \<Rightarrow> 'j match_row \<Rightarrow> 'j match_row \<Rightarrow> bool" where
  "later rt r r' \<longleftrightarrow>
     dm_id r' = dm_id r \<and> dm_challenger r' = dm_challenger r \<and> dm_game_kind r' = dm_game_kind r \<and>
     (dm_status r = STATUS_CANCELLED \<longrightarrow> dm_status r' = STATUS_CANCELLED) \<and>
     (dm_status r = STATUS_ACTIVE \<longrightarrow>
        dm_status r' \<in> {STATUS_ACTIVE, STATUS_FINISHED} \<and> dm_opponent r' = dm_opponent r \<and>
        (\<forall>x. stored_revision rt (dm_state r) = Some x \<longrightarrow>
           (\<exists>y. stored_revision rt (dm_state r') = Some y \<and> x \<le> y))) \<and>
     (dm_status r = STATUS_FINISHED \<longrightarrow>
        dm_status r' = STATUS_FINISHED \<and> dm_opponent r' = dm_opponent r \<and> dm_winner r' = dm_winner r \<and>
        dm_result r' = dm_result r \<and> dm_state r' = dm_state r)"

lemma later_refl: "later rt r r"
  by (simp add: later_def)

lemma later_trans: "later rt a b \<Longrightarrow> later rt b c \<Longrightarrow> later rt a c"
proof -
  assume ab: "later rt a b" and bc: "later rt b c"
  have "dm_status c \<in> {STATUS_ACTIVE, STATUS_FINISHED} \<and> dm_opponent c = dm_opponent a \<and>
      (\<forall>x. stored_revision rt (dm_state a) = Some x \<longrightarrow>
           (\<exists>y. stored_revision rt (dm_state c) = Some y \<and> x \<le> y))" if st: "dm_status a = STATUS_ACTIVE"
  proof -
    from ab st have b: "dm_status b = STATUS_ACTIVE \<or> dm_status b = STATUS_FINISHED"
      and o: "dm_opponent b = dm_opponent a"
      and r: "\<And>x. stored_revision rt (dm_state a) = Some x \<Longrightarrow> \<exists>y. stored_revision rt (dm_state b) = Some y \<and> x \<le> y"
      unfolding later_def by simp_all
    from b show ?thesis
    proof
      assume "dm_status b = STATUS_ACTIVE"
      with bc have "dm_status c \<in> {STATUS_ACTIVE, STATUS_FINISHED}" "dm_opponent c = dm_opponent b"
        "\<And>x. stored_revision rt (dm_state b) = Some x \<Longrightarrow> \<exists>y. stored_revision rt (dm_state c) = Some y \<and> x \<le> y"
        unfolding later_def by simp_all
      with o r show ?thesis by (metis order_trans)
    next
      assume "dm_status b = STATUS_FINISHED"
      with bc have "dm_status c = STATUS_FINISHED" "dm_opponent c = dm_opponent b" "dm_state c = dm_state b"
        unfolding later_def by simp_all
      with o r show ?thesis by simp
    qed
  qed
  with ab bc show ?thesis unfolding later_def by simp
qed

lemma later_id: "later rt a b \<Longrightarrow> dm_id b = dm_id a"
  by (simp add: later_def)

text \<open>A step changes rows in place and may append a fresh challenge.\<close>

definition evolves :: "('j \<Rightarrow> string option) \<Rightarrow> 'j match_row list \<Rightarrow> 'j match_row list \<Rightarrow> bool" where
  "evolves rt rows rows' \<longleftrightarrow>
     (\<exists>h fresh. rows' = map h rows @ fresh \<and>
        (\<forall>r \<in> set rows. row_ok r \<longrightarrow> later rt r (h r) \<and> row_ok (h r)) \<and>
        (\<forall>r \<in> set fresh. row_ok r \<and> dm_id r \<notin> set (map dm_id rows)) \<and> distinct (map dm_id fresh))"

lemma evolves_update:
  assumes "\<And>r. r \<in> set rows \<Longrightarrow> p r \<Longrightarrow> row_ok r \<Longrightarrow> later rt r (f r) \<and> row_ok (f r)"
  shows "evolves rt rows (sql_update p f rows)"
  unfolding evolves_def sql_update_def
  using assms by (intro exI [of _ "\<lambda>r. if p r then f r else r"] exI [of _ "[]"]) (auto simp: later_refl)

lemmas row_defs = row_ok_def later_def players_ok_def plays_def

lemma step_evolves: "match_step rt rows rows' \<Longrightarrow> evolves rt rows rows'"
proof (induction rule: match_step.induct)
  case (created now i doc0 rows kind u rows' r)
  then have r: "rows' = rows @ [r]" "dm_id r \<notin> set (map dm_id rows)" "dm_status r = STATUS_OPEN"
    "dm_opponent r = None" "dm_turn r = None" "dm_deadline r = None" "dm_winner r = None" "dm_result r = []"
    by (auto simp: create_challenge_def res_simps Let_def)
  then have "row_ok r" by (simp add: row_ok_def)
  then show ?case unfolding evolves_def using r(1,2)
    by (intro exI [of _ "\<lambda>r. r"] exI [of _ "[r]"]) (simp add: later_refl)
next
  case (claimed now rows m opp turn dl j rows' out)
  then have "rows' = sql_update (claim_guard m opp) (claim_set now opp turn dl j) rows" by (simp add: claim_def)
  moreover have "evolves rt rows (sql_update (claim_guard m opp) (claim_set now opp turn dl j) rows)"
    by (rule evolves_update) (use claimed(2) in \<open>auto simp: claim_guard_def claim_set_def row_defs\<close>)
  ultimately show ?case by simp
next
  case (roomed rows m room rows' n)
  then have "rows' = sql_update (\<lambda>r. dm_id r = m) (\<lambda>r. r\<lparr>dm_chat_room := Some room\<rparr>) rows"
    by (simp add: set_chat_room_def)
  moreover have "evolves rt rows (sql_update (\<lambda>r. dm_id r = m) (\<lambda>r. r\<lparr>dm_chat_room := Some room\<rparr>) rows)"
    by (rule evolves_update) (auto simp: row_defs)
  ultimately show ?case by simp
next
  case (cancelled now rows m u rows' n)
  then show ?case
    by (auto simp: cancel_challenge_def Let_def intro!: evolves_update) (auto simp: row_defs)
next
  case (moved now rows m j by_user nxt dl e rows' n)
  let ?p = "\<lambda>r. (dm_id r = m \<and> dm_status r = STATUS_ACTIVE \<and> dm_turn r = Some by_user) \<and>
     stored_revision rt (dm_state r) = Some e"
  let ?f = "\<lambda>r. r\<lparr>dm_state := j, dm_turn := Some nxt, dm_deadline := Some dl, dm_updated := now\<rparr>"
  have "rows' = sql_update ?p ?f rows"
    using moved(1) by (simp add: update_state_def guarded_write_def res_simps Let_def)
  moreover have "evolves rt rows (sql_update ?p ?f rows)"
    by (rule evolves_update) (use moved(2,3) in \<open>auto simp: row_defs is_player_def\<close>)
  ultimately show ?case by simp
next
  case (finished now rows m w result j e rows' n)
  let ?p = "\<lambda>r. (dm_id r = m \<and> dm_status r = STATUS_ACTIVE) \<and> stored_revision rt (dm_state r) = Some e"
  let ?f = "\<lambda>r. r\<lparr>dm_status := STATUS_FINISHED, dm_winner := w, dm_result := result_str result,
              dm_state := j, dm_turn := None, dm_deadline := None, dm_updated := now\<rparr>"
  have "rows' = sql_update ?p ?f rows"
    using finished(1) by (simp add: finish_def guarded_write_def res_simps Let_def)
  moreover have "evolves rt rows (sql_update ?p ?f rows)"
    by (rule evolves_update) (use finished(2,3) in \<open>auto simp: row_defs is_player_def\<close>)
  ultimately show ?case by simp
next
  case (paid now rows m payout rows')
  then show ?case
    by (auto simp: set_win_payout_def Let_def res_simps intro!: evolves_update) (auto simp: row_defs)
next
  case (forfeited now rows rows' out)
  then have "rows' = sql_update (expired now) (forfeit_set now) rows" by (simp add: forfeit_expired_def)
  moreover have "evolves rt rows (sql_update (expired now) (forfeit_set now) rows)"
    by (rule evolves_update) (auto simp: expired_def forfeit_set_def row_defs simp del: result_str.simps)
  ultimately show ?case by simp
next
  case (seen now rows m u rows' n)
  then show ?case
    by (auto simp: mark_result_seen_def Let_def intro!: evolves_update) (auto simp: row_defs)
next
  case (swept now days rows voice chats rows' voice' chats' n)
  then show ?case
    by (auto simp: delete_stale_chat_rooms_def Let_def intro!: evolves_update) (auto simp: row_defs)
qed

definition rows_ok :: "'j match_row list \<Rightarrow> bool" where
  "rows_ok rows \<longleftrightarrow> distinct (map dm_id rows) \<and> (\<forall>r \<in> set rows. row_ok r)"

lemma evolves_ok: "rows_ok rows \<Longrightarrow> evolves rt rows rows' \<Longrightarrow>
    rows_ok rows' \<and> (\<forall>r \<in> set rows. \<exists>r' \<in> set rows'. later rt r r')"
proof -
  assume ok: "rows_ok rows" and ev: "evolves rt rows rows'"
  then obtain h fresh where rows': "rows' = map h rows @ fresh"
    and h: "\<forall>r \<in> set rows. row_ok r \<longrightarrow> later rt r (h r) \<and> row_ok (h r)"
    and f: "\<forall>r \<in> set fresh. row_ok r \<and> dm_id r \<notin> set (map dm_id rows)" "distinct (map dm_id fresh)"
    unfolding evolves_def by blast
  have h': "later rt r (h r)" "row_ok (h r)" "dm_id (h r) = dm_id r" if "r \<in> set rows" for r
    using h ok that later_id unfolding rows_ok_def by blast+
  then have "map dm_id rows' = map dm_id rows @ map dm_id fresh" by (simp add: rows')
  moreover have "set (map dm_id fresh) \<inter> set (map dm_id rows) = {}" using f(1) by fastforce
  ultimately have "distinct (map dm_id rows')" using ok f(2) by (simp add: rows_ok_def Int_commute)
  then show ?thesis using h' f(1) by (auto simp: rows_ok_def rows')
qed

lemma steps_ok:
  "(match_step rt)\<^sup>*\<^sup>* rows rows' \<Longrightarrow> rows_ok rows \<Longrightarrow>
     rows_ok rows' \<and> (\<forall>r \<in> set rows. \<exists>r' \<in> set rows'. later rt r r')"
proof (induction rule: rtranclp_induct)
  case base
  then show ?case using later_refl by blast
next
  case (step rows' rows'')
  from evolves_ok [OF _ step_evolves [OF step.hyps(2)]] step.IH step.prems show ?case
    using later_trans by blast
qed

lemma same_row: "rows_ok rows \<Longrightarrow> r \<in> set rows \<Longrightarrow> r' \<in> set rows \<Longrightarrow> dm_id r = dm_id r' \<Longrightarrow> r = r'"
  by (auto simp: rows_ok_def distinct_map inj_on_def)

lemma sql_none: "(\<And>r. r \<in> set rows \<Longrightarrow> \<not> p r) \<Longrightarrow> sql_update p f rows = rows \<and> sql_count p rows = 0 \<and> sql_returning p f rows = []"
  by (auto simp: sql_update_def sql_count_def sql_returning_def filter_empty_conv intro: map_idI)

lemma sql_hit: "0 < sql_count p rows \<Longrightarrow> \<exists>r \<in> set rows. p r \<and> f r \<in> set (sql_update p f rows)"
proof -
  assume "0 < sql_count p rows"
  then obtain r where "r \<in> set rows" "p r" by (auto simp: sql_count_def filter_empty_conv)
  then have "f r \<in> set (sql_update p f rows)" by (force simp: sql_update_def)
  with \<open>r \<in> set rows\<close> \<open>p r\<close> show ?thesis by blast
qed

text \<open>A write of the service from the revision \<open>e\<close> it loaded that took effect.\<close>

definition wrote :: "('j \<Rightarrow> string option) \<Rightarrow> 'j match_row list \<Rightarrow> uuid \<Rightarrow> int \<Rightarrow> 'j match_row list \<Rightarrow> bool" where
  "wrote rt rows m e rows' \<longleftrightarrow>
     (\<exists>now j by_user nxt dl n. update_state rt now rows m j by_user nxt dl e = Ok (rows', n) \<and> 0 < n \<and>
        stored_revision rt j = Some (e + 1) \<and> is_player rows m nxt) \<or>
     (\<exists>now w result j n. finish rt now rows m w result j e = Ok (rows', n) \<and> 0 < n \<and>
        stored_revision rt j = Some (e + 1) \<and> (\<forall>u. w = Some u \<longrightarrow> is_player rows m u))"

lemma wrote_step: "wrote rt rows m e rows' \<Longrightarrow> match_step rt rows rows'"
  unfolding wrote_def by (auto intro: match_step.intros)

text \<open>The write leaves a row that no later write from \<open>e\<close> can match.\<close>

lemma wrote_row:
  assumes "wrote rt rows m e rows'"
  shows "\<exists>r \<in> set rows'. dm_id r = m \<and> (dm_status r = STATUS_FINISHED \<or>
     (dm_status r = STATUS_ACTIVE \<and> stored_revision rt (dm_state r) = Some (e + 1)))"
  using assms unfolding wrote_def
proof (elim disjE exE conjE)
  fix now j by_user nxt dl n
  assume w: "update_state rt now rows m j by_user nxt dl e = Ok (rows', n)" "0 < n" "stored_revision rt j = Some (e + 1)"
  let ?p = "\<lambda>r. (dm_id r = m \<and> dm_status r = STATUS_ACTIVE \<and> dm_turn r = Some by_user) \<and>
     stored_revision rt (dm_state r) = Some e"
  let ?f = "\<lambda>r. r\<lparr>dm_state := j, dm_turn := Some nxt, dm_deadline := Some dl, dm_updated := now\<rparr>"
  from w have "0 < sql_count ?p rows" "rows' = sql_update ?p ?f rows"
    by (auto simp: update_state_def guarded_write_def res_simps Let_def)
  with sql_hit [of ?p rows ?f] obtain r where "?p r" "?f r \<in> set rows'" by blast
  then show ?thesis using w(3) by (intro bexI [of _ "?f r"]) auto
next
  fix now w result j n
  assume w: "finish rt now rows m w result j e = Ok (rows', n)" "0 < n"
  let ?p = "\<lambda>r. (dm_id r = m \<and> dm_status r = STATUS_ACTIVE) \<and> stored_revision rt (dm_state r) = Some e"
  let ?f = "\<lambda>r. r\<lparr>dm_status := STATUS_FINISHED, dm_winner := w, dm_result := result_str result,
              dm_state := j, dm_turn := None, dm_deadline := None, dm_updated := now\<rparr>"
  from w have "0 < sql_count ?p rows" "rows' = sql_update ?p ?f rows"
    by (auto simp: finish_def guarded_write_def res_simps Let_def)
  with sql_hit [of ?p rows ?f] obtain r where "?p r" "?f r \<in> set rows'" by blast
  then show ?thesis by (intro bexI [of _ "?f r"]) auto
qed

lemma no_second_write:
  assumes ok: "rows_ok rows" and w: "wrote rt rows m e rows1" and steps: "(match_step rt)\<^sup>*\<^sup>* rows1 rows2"
    and r: "r \<in> set rows2" "dm_id r = m" "dm_status r = STATUS_ACTIVE"
  shows "stored_revision rt (dm_state r) \<noteq> Some e"
proof -
  have ok1: "rows_ok rows1" using evolves_ok [OF ok step_evolves [OF wrote_step [OF w]]] by blast
  from wrote_row [OF w] obtain r1 where r1: "r1 \<in> set rows1" "dm_id r1 = m"
    and st: "dm_status r1 = STATUS_FINISHED \<or>
      (dm_status r1 = STATUS_ACTIVE \<and> stored_revision rt (dm_state r1) = Some (e + 1))" by blast
  from steps_ok [OF steps ok1] r1 obtain r2 where r2: "r2 \<in> set rows2" "later rt r1 r2" and ok2: "rows_ok rows2" by blast
  have "r2 = r" using same_row [OF ok2 r2(1) r(1)] later_id [OF r2(2)] r1(2) r(2) by simp
  with r2(2) st r(3) show ?thesis unfolding later_def by fastforce
qed

lemma rows_ok_Nil: "rows_ok []"
  by (simp add: rows_ok_def)

section \<open>Properties\<close>


text \<open>A small table: an active match between users 1 and 2, whose document is its revision.\<close>

definition demo_rt :: "nat \<Rightarrow> string option" where
  "demo_rt n = Some (dec_string n)"

definition demo_row :: "nat match_row" where
  "demo_row = \<lparr>dm_id = 7, dm_created = 0, dm_updated = 0, dm_game_kind = ''connect4'', dm_status = STATUS_ACTIVE,
     dm_challenger = 1, dm_opponent = Some 2, dm_turn = Some 1, dm_deadline = Some 100, dm_winner = None,
     dm_result = [], dm_state = 0, dm_challenger_seen = None, dm_opponent_seen = None, dm_chat_room = None,
     dm_win_payout = None, dm_started = Some 0\<rparr>"

lemma demo_revisions: "stored_revision demo_rt 0 = Some 0" "stored_revision demo_rt 1 = Some 1"
  by code_simp+

lemma demo_ok: "rows_ok [demo_row]"
  by (simp add: rows_ok_def row_ok_def demo_row_def players_ok_def plays_def)

lemma demo_wrote: "\<exists>rows1. wrote demo_rt [demo_row] 7 0 rows1"
proof -
  obtain rows1 where "update_state demo_rt 5 [demo_row] 7 1 1 1 200 0 = Ok (rows1, 1)"
    by (simp add: update_state_def guarded_write_def ensure_def Let_def demo_row_def demo_revisions sql_count_def)
  moreover have "is_player [demo_row] 7 1" by (simp add: is_player_def demo_row_def)
  ultimately have "wrote demo_rt [demo_row] 7 0 rows1"
    unfolding wrote_def using demo_revisions by (intro disjI1 exI conjI) (assumption | simp)+
  then show ?thesis by blast
qed


text \<open>
  C10. The life of a match. From the empty table every reachable table has distinct ids and rows that fit
  their status: an open challenge has no opponent and no result, a running match two different players
  with one of them on the clock, a finished one a persisted result and a winner who played in it, if
  any. Whatever happens next, a match keeps its players, a running one never loses its revision
  or reopens, and a finished one keeps its winner, result and state for good.
\<close>

theorem match_lifecycle:
  assumes "(match_step rt)\<^sup>*\<^sup>* [] rows" and "(match_step rt)\<^sup>*\<^sup>* rows rows'"
  shows "distinct (map dm_id rows) \<and> (\<forall>r \<in> set rows. row_ok r) \<and>
         (\<forall>r \<in> set rows. \<exists>r' \<in> set rows'. later rt r r' \<and> row_ok r')"
proof -
  have ok: "rows_ok rows" using steps_ok [OF assms(1) rows_ok_Nil] by blast
  from steps_ok [OF assms(2) ok] ok show ?thesis unfolding rows_ok_def by blast
qed

theorem match_lifecycle_witness:
  "\<exists>rows. (match_step demo_rt)\<^sup>*\<^sup>* [] rows \<and> length rows = 1 \<and> (\<forall>r \<in> set rows. row_ok r)"
proof -
  obtain rows r where c: "create_challenge 0 7 (0 :: nat) [] ''connect4'' 1 = Ok (rows, r)" and l: "length rows = 1"
    by (simp add: create_challenge_def ensure_def Let_def)
  from c have s: "(match_step demo_rt)\<^sup>*\<^sup>* [] rows" by (intro r_into_rtranclp match_step.created)
  from match_lifecycle [OF s rtranclp.rtrancl_refl] s l show ?thesis by blast
qed

text \<open>
  A challenge is claimed once. After a claim returned its row, every later claim of the same match,
  by anyone and after any further calls, returns nothing and changes nothing; and the claimed row has
  the claimer as opponent, who is not the challenger.
\<close>

theorem claimed_once:
  assumes "rows_ok rows" and "claim now rows m opp turn dl j = (rows1, Some r)"
    and "turn = opp \<or> turn = dm_challenger r" and "(match_step rt)\<^sup>*\<^sup>* rows1 rows2"
  shows "claim now' rows2 m opp' turn' dl' j' = (rows2, None) \<and>
         dm_opponent r = Some opp \<and> dm_challenger r \<noteq> opp \<and> dm_status r = STATUS_ACTIVE \<and> dm_turn r = Some turn"
proof -
  let ?g = "claim_guard m opp" and ?f = "claim_set now opp turn dl j"
  have rows1: "rows1 = sql_update ?g ?f rows" and ret: "r \<in> set (sql_returning ?g ?f rows)"
    using assms(2) by (auto simp: claim_def split: list.splits)
  from ret obtain r0 where r0: "r0 \<in> set rows" "?g r0" "r = ?f r0" by (auto simp: sql_returning_def)
  have uniq: "x = r0" if "x \<in> set rows" "dm_id x = m" for x
    using same_row [OF assms(1) that(1) r0(1)] that(2) r0(2) by (simp add: claim_guard_def)
  have "match_step rt rows rows1"
    by (rule match_step.claimed [OF assms(2)]) (use assms(3) r0(3) uniq in \<open>auto simp: claim_set_def\<close>)
  then have ok1: "rows_ok rows1" using evolves_ok [OF assms(1) step_evolves] by blast
  have r1: "r \<in> set rows1" using r0 by (force simp: rows1 sql_update_def)
  have fields: "dm_id r = m" "dm_status r = STATUS_ACTIVE" "dm_opponent r = Some opp" "dm_challenger r \<noteq> opp"
    "dm_turn r = Some turn" using r0(2) by (simp_all add: r0(3) claim_set_def claim_guard_def)
  from steps_ok [OF assms(4) ok1] r1 obtain r2 where
    r2: "r2 \<in> set rows2" "later rt r r2" and ok2: "rows_ok rows2" by blast
  have no: "\<not> claim_guard m opp' x" if "x \<in> set rows2" for x
  proof
    assume g: "claim_guard m opp' x"
    then have "x = r2" using same_row [OF ok2 that r2(1)] later_id [OF r2(2)] fields(1) by (simp add: claim_guard_def)
    moreover have "dm_status r2 \<noteq> STATUS_OPEN" using r2(2) fields(2) unfolding later_def by auto
    ultimately show False using g by (simp add: claim_guard_def)
  qed
  have "claim now' rows2 m opp' turn' dl' j' = (rows2, None)"
    using sql_none [of rows2 "claim_guard m opp'"] no by (simp add: claim_def)
  with fields show ?thesis by simp
qed

theorem claimed_once_witness:
  "\<exists>rows rows1 r. create_challenge 0 7 (0 :: nat) [] ''reversi'' 1 = Ok (rows, r) \<and>
     (\<exists>r1. claim 1 rows 7 2 2 50 0 = (rows1, Some r1)) \<and> claim 2 rows1 7 3 3 60 0 = (rows1, None)"
proof -
  obtain rows r where c: "create_challenge 0 7 (0 :: nat) [] ''reversi'' 1 = Ok (rows, r)"
    and shape: "rows = [r]" "dm_id r = 7" "dm_status r = STATUS_OPEN" "dm_opponent r = None" "dm_challenger r = 1"
    by (simp add: create_challenge_def ensure_def Let_def)
  have ok: "rows_ok rows"
    using c evolves_ok [OF rows_ok_Nil step_evolves [OF match_step.created [OF c, of demo_rt]]] by blast
  obtain rows1 r1 where cl: "claim 1 rows 7 2 2 50 0 = (rows1, Some r1)"
    using shape by (simp add: claim_def sql_returning_def claim_guard_def)
  from claimed_once [OF ok cl _ rtranclp.rtrancl_refl [of "match_step demo_rt"]] c cl show ?thesis by blast
qed



end
