(* ===== verification/Backgammon.thy ===== *)
theory Backgammon
  imports Prelude "HOL-Library.List_Lexorder" "HOL-Library.Product_Lexorder"
begin

text \<open>
  Backgammon (\<open>late-ssh/src/app/lobby/daily/backgammon.rs\<close>). The state stores every turn as its roll and
  its hops; the board and the side to move are replayed from them. An array of two, indexed by a
  color, is a function of the color. \<open>None\<close> is an index past the board, which only a stored history
  that was never played can cause; \<open>u8\<close> and \<open>i8\<close> arithmetic wraps. The dice come from the \<open>rand\<close> crate
  and are parameters.
\<close>

section \<open>Data\<close>

definition bg_POINTS :: nat where [simp]: "bg_POINTS = 24"
definition bg_BAR :: nat where [simp]: "bg_BAR = 24"
definition bg_OFF :: nat where [simp]: "bg_OFF = 25"
definition CHECKERS_PER_SIDE :: nat where [simp]: "CHECKERS_PER_SIDE = 15"
definition bg_STATE_VERSION :: nat where [simp]: "bg_STATE_VERSION = 1"
definition STALL_PASSES :: nat where [simp]: "STALL_PASSES = 100"

type_synonym hop = "nat \<times> nat"
type_synonym dice = "nat \<times> nat"

datatype bg_color = BgWhite | BgRed

primrec bg_color_label :: "bg_color \<Rightarrow> string" where
  "bg_color_label BgWhite = ''white''"
| "bg_color_label BgRed = ''red''"

primrec bg_other :: "bg_color \<Rightarrow> bg_color" where
  "bg_other BgWhite = BgRed"
| "bg_other BgRed = BgWhite"

record bg_board =
  bg_points :: "int list"
  bg_bar :: "bg_color \<Rightarrow> nat"
  bg_off :: "bg_color \<Rightarrow> nat"

datatype bg_status = BgOngoing | BgWin bg_color | BgDraw

record bg_turn =
  bt_roll :: dice
  bt_hops :: "hop list"

record bg_outcome =
  bo_color :: bg_color
  bo_roll :: dice
  bo_hits :: "bool list"
  bo_finished :: bool
  bo_winner :: "bg_color option"

record bg_state =
  bg_version :: nat
  bg_revision :: nat
  bg_white :: uuid
  bg_red :: uuid
  bg_turns :: "bg_turn list"
  bg_next_roll :: "dice option"

datatype bg_error = BgCorrupt | BgUnsupportedVersion nat | BgNoRoll | BgIllegal

section \<open>The board\<close>

definition bg_start :: bg_board where
  "bg_start = \<lparr>bg_points = (replicate bg_POINTS 0)[23 := 2, 12 := 5, 7 := 3, 5 := 5, 0 := -2, 11 := -5, 16 := -3, 18 := -5],
     bg_bar = (\<lambda>_. 0), bg_off = (\<lambda>_. 0)\<rparr>"

definition bg_count :: "bg_board \<Rightarrow> bg_color \<Rightarrow> nat \<Rightarrow> nat" where
  "bg_count b c p =
     (let n = bg_points b ! p
      in case c of BgWhite \<Rightarrow> nat (max n 0) | BgRed \<Rightarrow> nat (max (as_i8 (- n)) 0))"

definition bg_set :: "bg_board \<Rightarrow> bg_color \<Rightarrow> nat \<Rightarrow> nat \<Rightarrow> bg_board" where
  "bg_set b c p n = b\<lparr>bg_points := (bg_points b)[p :=
     (case c of BgWhite \<Rightarrow> as_i8 (int n) | BgRed \<Rightarrow> as_i8 (- as_i8 (int n)))]\<rparr>"

definition bg_all_home :: "bg_board \<Rightarrow> bg_color \<Rightarrow> bool" where
  "bg_all_home b c =
     (if 0 < bg_bar b c then False
      else (let outside = (case c of BgWhite \<Rightarrow> [6..<bg_POINTS] | BgRed \<Rightarrow> [0..<18])
            in list_all (\<lambda>p. bg_count b c p = 0) outside))"

definition pip_count :: "bg_board \<Rightarrow> bg_color \<Rightarrow> nat" where
  "pip_count b c = bg_bar b c * 25 +
     (\<Sum>p\<leftarrow>[0..<bg_POINTS]. bg_count b c p * (case c of BgWhite \<Rightarrow> p + 1 | BgRed \<Rightarrow> bg_POINTS - p))"

definition point_name :: "bg_color \<Rightarrow> nat \<Rightarrow> string" where
  "point_name c point =
     (if point = bg_BAR then ''bar'' else if point = bg_OFF then ''off''
      else (case c of BgWhite \<Rightarrow> dec_string (point + 1) | BgRed \<Rightarrow> dec_string (bg_POINTS - point)))"

definition bg_hop_label :: "bg_outcome \<Rightarrow> nat \<Rightarrow> hop \<Rightarrow> string" where
  "bg_hop_label out i = (\<lambda>(from, to).
     point_name (bo_color out) from @ ''/'' @ point_name (bo_color out) to @
     (if i < length (bo_hits out) \<and> bo_hits out ! i then ''*'' else []))"

definition bg_turn_label :: "bg_outcome \<Rightarrow> hop list \<Rightarrow> string" where
  "bg_turn_label out hops =
     (let dice = dec_string (fst (bo_roll out)) @ dec_string (snd (bo_roll out))
      in (if hops = [] then dice @ '': no play''
          else dice @ '': '' @ join_with '' '' (map (\<lambda>(i, h). bg_hop_label out i h) (zip [0..<length hops] hops))) @
         (if bo_finished out
          then (case bo_winner out of Some c \<Rightarrow> '', '' @ bg_color_label c @ '' wins'' | None \<Rightarrow> '', draw'')
          else []))"

section \<open>Hops\<close>

definition hop_dest :: "bg_color \<Rightarrow> nat \<Rightarrow> nat \<Rightarrow> nat" where
  "hop_dest c from die =
     (case c of
        BgWhite \<Rightarrow>
          if from = bg_BAR then (bg_POINTS + 256 - die) mod 256
          else if die \<le> from then from - die else bg_OFF
      | BgRed \<Rightarrow>
          if from = bg_BAR then (die + 255) mod 256
          else if as_u8 (from + die) < bg_POINTS then as_u8 (from + die) else bg_OFF)"

definition landing_open :: "bg_board \<Rightarrow> bg_color \<Rightarrow> nat \<Rightarrow> bool" where
  "landing_open b c point \<longleftrightarrow> bg_count b (bg_other c) point \<le> 1"

definition can_bear_off :: "bg_board \<Rightarrow> bg_color \<Rightarrow> nat \<Rightarrow> nat \<Rightarrow> bool" where
  "can_bear_off b c from die =
     (let distance = (case c of BgWhite \<Rightarrow> from + 1 | BgRed \<Rightarrow> bg_POINTS - from)
      in if die < distance then False
         else if die = distance then True
         else (let farther = (case c of BgWhite \<Rightarrow> [from + 1..<6] | BgRed \<Rightarrow> [18..<from])
               in list_all (\<lambda>p. bg_count b c p = 0) farther))"

text \<open>The hop of one checker, when it has one; the loop of \<open>hops_for_die\<close> reaches only points of the board.\<close>

definition hop_from :: "bg_board \<Rightarrow> bg_color \<Rightarrow> nat \<Rightarrow> nat \<Rightarrow> hop list" where
  "hop_from b c die from =
     (if bg_count b c from = 0 then []
      else
        let to = hop_dest c from die
        in if to = bg_OFF then (if bg_all_home b c \<and> can_bear_off b c from die then [(from, bg_OFF)] else [])
           else if landing_open b c to then [(from, to)] else [])"

definition hops_for_die :: "bg_board \<Rightarrow> bg_color \<Rightarrow> nat \<Rightarrow> hop list option" where
  "hops_for_die b c die =
     (if 0 < bg_bar b c then
        let entry = hop_dest c bg_BAR die
        in if entry < bg_POINTS then Some (if landing_open b c entry then [(bg_BAR, entry)] else []) else None
      else Some (concat (map (hop_from b c die) [0..<bg_POINTS])))"

text \<open>\<open>apply_hop\<close>: the checker is lifted, then borne off or put down, with the hit.\<close>

definition lift_checker :: "bg_board \<Rightarrow> bg_color \<Rightarrow> nat \<Rightarrow> bg_board option" where
  "lift_checker b c from =
     (if from = bg_BAR then Some (b\<lparr>bg_bar := (bg_bar b)(c := (bg_bar b c + 255) mod 256)\<rparr>)
      else if from < bg_POINTS then Some (bg_set b c from (bg_count b c from - 1))
      else None)"

definition land_checker :: "bg_board \<Rightarrow> bg_color \<Rightarrow> nat \<Rightarrow> (bg_board \<times> bool) option" where
  "land_checker b c to =
     (if to = bg_OFF then Some (b\<lparr>bg_off := (bg_off b)(c := as_u8 (bg_off b c + 1))\<rparr>, False)
      else if to < bg_POINTS then
        let hit = (bg_count b (bg_other c) to = 1);
            b = (if hit then bg_set (b\<lparr>bg_bar := (bg_bar b)(bg_other c := as_u8 (bg_bar b (bg_other c) + 1))\<rparr>) c to 0
                 else b);
            n = bg_count b c to
        in Some (bg_set b c to (as_u8 (n + 1)), hit)
      else None)"

definition apply_hop :: "bg_board \<Rightarrow> bg_color \<Rightarrow> hop \<Rightarrow> (bg_board \<times> bool) option" where
  "apply_hop b c = (\<lambda>(from, to). Option.bind (lift_checker b c from) (\<lambda>b. land_checker b c to))"

section \<open>Turns\<close>

text \<open>Depth first over the dice: the paths that can go no further, each after the given one.\<close>

fun extend_turns :: "bg_board \<Rightarrow> bg_color \<Rightarrow> nat list \<Rightarrow> hop list \<Rightarrow> hop list list option" where
  "extend_turns b c [] path = Some [path]"
| "extend_turns b c (die # rest) path =
     Option.bind (hops_for_die b c die) (\<lambda>hops.
       if hops = [] then Some [path]
       else map_option concat (those (map (\<lambda>hop.
              Option.bind (apply_hop b c hop) (\<lambda>(next, _). extend_turns next c rest (path @ [hop]))) hops)))"

definition dice_orders :: "dice \<Rightarrow> nat list list" where
  "dice_orders = (\<lambda>(r0, r1). if r0 = r1 then [replicate 4 r0] else [[r0, r1], [r1, r0]])"

definition legal_turns :: "bg_board \<Rightarrow> bg_color \<Rightarrow> dice \<Rightarrow> hop list list option" where
  "legal_turns b c roll =
     Option.bind (those (map (\<lambda>dice. extend_turns b c dice []) (dice_orders roll))) (\<lambda>parts.
       let sequences = concat parts;
           longest = foldr max (map length sequences) 0
       in if longest = 0 then Some []
          else
            let sequences = filter (\<lambda>s. length s = longest) sequences
            in if longest = 1 \<and> fst roll \<noteq> snd roll then
                 Option.bind (hops_for_die b c (max (fst roll) (snd roll))) (\<lambda>high.
                   let sequences = (if high \<noteq> [] then filter (\<lambda>s. s ! 0 \<in> set high) sequences else sequences)
                   in Some (remdups_adj (sort sequences)))
               else Some (remdups_adj (sort sequences)))"

section \<open>Operations\<close>

text \<open>\<open>new\<close>: the coin that assigns the colors, and the pairs of dice drawn until two differ.\<close>

definition die_of :: "nat \<Rightarrow> nat" where
  "die_of raw = 1 + gen_upto 5 raw"

definition roll_of :: "nat \<times> nat \<Rightarrow> dice" where
  "roll_of = (\<lambda>(x, y). (die_of x, die_of y))"

fun opening_roll :: "(nat \<times> nat) list \<Rightarrow> dice option" where
  "opening_roll [] = None"
| "opening_roll (d # ds) =
     (let roll = roll_of d in if fst roll \<noteq> snd roll then Some roll else opening_roll ds)"

definition bg_new :: "bool \<Rightarrow> (nat \<times> nat) list \<Rightarrow> uuid \<Rightarrow> uuid \<Rightarrow> bg_state option" where
  "bg_new coin draws challenger claimer =
     (let (white, red) = (if coin then (challenger, claimer) else (claimer, challenger))
      in map_option (\<lambda>roll.
           \<lparr>bg_version = bg_STATE_VERSION, bg_revision = 0, bg_white = white, bg_red = red,
            bg_turns = [], bg_next_roll = Some roll\<rparr>) (opening_roll draws))"

definition bg_parse :: "bg_state option \<Rightarrow> (bg_error, bg_state) res" where
  "bg_parse decoded =
     (case decoded of
        None \<Rightarrow> Err BgCorrupt
      | Some s \<Rightarrow> ensure (bg_version s = bg_STATE_VERSION) (BgUnsupportedVersion (bg_version s)) (Ok s))"

primrec bg_user_of :: "bg_state \<Rightarrow> bg_color \<Rightarrow> uuid" where
  "bg_user_of s BgWhite = bg_white s"
| "bg_user_of s BgRed = bg_red s"

definition bg_color_of :: "bg_state \<Rightarrow> uuid \<Rightarrow> bg_color option" where
  "bg_color_of s u = (if u = bg_white s then Some BgWhite else if u = bg_red s then Some BgRed else None)"

definition bg_turn_of :: "bg_state \<Rightarrow> bg_color" where
  "bg_turn_of s = (if even (length (bg_turns s)) then BgWhite else BgRed)"

definition play_hops :: "bg_color \<Rightarrow> bg_board \<Rightarrow> hop list \<Rightarrow> bg_board option" where
  "play_hops c = fold_opt (\<lambda>b hop. map_option fst (apply_hop b c hop))"

definition replay_turn :: "bg_board \<times> bg_color \<Rightarrow> bg_turn \<Rightarrow> (bg_board \<times> bg_color) option" where
  "replay_turn = (\<lambda>(b, c) t. map_option (\<lambda>b. (b, bg_other c)) (play_hops c b (bt_hops t)))"

definition bg_board_of :: "bg_state \<Rightarrow> bg_board option" where
  "bg_board_of s = map_option fst (fold_opt replay_turn (bg_start, BgWhite) (bg_turns s))"

definition bg_move_count :: "bg_state \<Rightarrow> nat" where
  "bg_move_count s = length (bg_turns s)"

definition bg_last_turn :: "bg_state \<Rightarrow> bg_turn option" where
  "bg_last_turn s = (if bg_turns s = [] then None else Some (last (bg_turns s)))"

definition bg_stalled :: "bg_state \<Rightarrow> nat" where
  "bg_stalled s = length (takeWhile (\<lambda>t. bt_hops t = []) (rev (bg_turns s)))"

definition bg_status_of :: "bg_state \<Rightarrow> bg_status option" where
  "bg_status_of s =
     map_option (\<lambda>b.
       if bg_off b BgWhite = CHECKERS_PER_SIDE then BgWin BgWhite
       else if bg_off b BgRed = CHECKERS_PER_SIDE then BgWin BgRed
       else if STALL_PASSES \<le> bg_stalled s then BgDraw else BgOngoing) (bg_board_of s)"

definition bg_is_finished :: "bg_state \<Rightarrow> bool option" where
  "bg_is_finished s =
     map_option (\<lambda>st. case st of BgOngoing \<Rightarrow> False | BgWin _ \<Rightarrow> True | BgDraw \<Rightarrow> True) (bg_status_of s)"

definition bg_legal_turns :: "bg_state \<Rightarrow> hop list list option" where
  "bg_legal_turns s =
     (case bg_next_roll s of
        None \<Rightarrow> Some []
      | Some roll \<Rightarrow> Option.bind (bg_board_of s) (\<lambda>b. legal_turns b (bg_turn_of s) roll))"

text \<open>The hops applied one after another, with the hit of each.\<close>

fun hop_hits :: "bg_color \<Rightarrow> bg_board \<Rightarrow> hop list \<Rightarrow> bool list option" where
  "hop_hits c b [] = Some []"
| "hop_hits c b (h # hs) =
     Option.bind (apply_hop b c h) (\<lambda>(b, hit). map_option ((#) hit) (hop_hits c b hs))"

definition apply_turn :: "bg_state \<Rightarrow> hop list \<Rightarrow> (bg_error, bg_state \<times> bg_outcome) res" where
  "apply_turn s hops =
     (case bg_next_roll s of
        None \<Rightarrow> Err BgNoRoll
      | Some roll \<Rightarrow>
          let c = bg_turn_of s
          in expect (bg_board_of s) (\<lambda>b.
               expect (legal_turns b c roll) (\<lambda>legal.
                 ensure (hops \<in> set legal) BgIllegal
                 (expect (hop_hits c b hops) (\<lambda>hits.
                    let s' = s\<lparr>bg_turns := bg_turns s @ [\<lparr>bt_roll = roll, bt_hops = hops\<rparr>], bg_next_roll := None\<rparr>
                    in expect (bg_status_of s') (\<lambda>st.
                         let (winner, finished) =
                           (case st of BgWin c \<Rightarrow> (Some c, True) | BgDraw \<Rightarrow> (None, True) | BgOngoing \<Rightarrow> (None, False))
                         in Ok (s', \<lparr>bo_color = c, bo_roll = roll, bo_hits = hits,
                                     bo_finished = finished, bo_winner = winner\<rparr>)))))))"

definition bg_preview :: "bg_state \<Rightarrow> hop list \<Rightarrow> bg_board option" where
  "bg_preview s hops = Option.bind (bg_board_of s) (\<lambda>b. play_hops (bg_turn_of s) b hops)"

text \<open>\<open>roll_next\<close>: the server's draws are a list. \<open>Panic\<close> is an index panic, \<open>Err\<close> a list of draws that ends
  before the loop does.\<close>

fun roll_next :: "(nat \<times> nat) list \<Rightarrow> bg_state \<Rightarrow> (unit, bg_state) res" where
  "roll_next draws s =
     expect (bg_is_finished s) (\<lambda>fin.
       if fin then Ok (s\<lparr>bg_next_roll := None\<rparr>)
       else
         case draws of
           [] \<Rightarrow> Err ()
         | d # ds \<Rightarrow>
             let roll = roll_of d
             in expect (bg_board_of s) (\<lambda>b.
                  expect (legal_turns b (bg_turn_of s) roll) (\<lambda>legal.
                    if legal \<noteq> [] then Ok (s\<lparr>bg_next_roll := Some roll\<rparr>)
                    else roll_next ds (s\<lparr>bg_turns := bg_turns s @ [\<lparr>bt_roll = roll, bt_hops = []\<rparr>]\<rparr>))))"

declare roll_next.simps [simp del]

section \<open>Cursor slots\<close>

definition SLOT_COLS :: nat where [simp]: "SLOT_COLS = 14"
definition SLOT_ROWS :: nat where [simp]: "SLOT_ROWS = 2"
definition BAR_COL :: nat where [simp]: "BAR_COL = 6"
definition OFF_COL :: nat where [simp]: "OFF_COL = 13"

datatype bg_target = BgPoint nat | BgBar | BgOffTray

primrec target_code :: "bg_target \<Rightarrow> nat" where
  "target_code (BgPoint p) = as_u8 p"
| "target_code BgBar = bg_BAR"
| "target_code BgOffTray = bg_OFF"

definition slot_target :: "nat \<Rightarrow> bg_color \<Rightarrow> bg_target option" where
  "slot_target slot seat =
     (if SLOT_ROWS * SLOT_COLS \<le> slot then None
      else
        let row = slot div SLOT_COLS; col = slot mod SLOT_COLS
        in if col = BAR_COL then Some BgBar
           else if col = OFF_COL then Some BgOffTray
           else
             let point_col = (if col < BAR_COL then col else col - 1);
                 white_point = (if row = 1 then 11 - point_col else 12 + point_col)
             in Some (BgPoint (case seat of BgWhite \<Rightarrow> white_point | BgRed \<Rightarrow> 23 - white_point)))"

section \<open>Checkers on the board\<close>

text \<open>A board the game can reach: 24 points, and fifteen checkers a side, counting bar and tray.\<close>

definition checkers :: "bg_board \<Rightarrow> bg_color \<Rightarrow> nat" where
  "checkers b c = (\<Sum>p<24. bg_count b c p) + bg_bar b c + bg_off b c"

definition bg_wf :: "bg_board \<Rightarrow> bool" where
  "bg_wf b \<longleftrightarrow> length (bg_points b) = 24 \<and> (\<forall>n \<in> set (bg_points b). -128 < n \<and> n < 128) \<and>
     checkers b BgWhite = CHECKERS_PER_SIDE \<and> checkers b BgRed = CHECKERS_PER_SIDE"

named_theorems bg_simps \<open>how the board updates change the counts\<close>

lemma bg_other_simps [simp]: "bg_other (bg_other c) = c" "bg_other c \<noteq> c" "c \<noteq> bg_other c"
  by (cases c; simp)+

lemma bg_wf_checkers: "bg_wf b \<Longrightarrow> checkers b c = 15"
  by (cases c) (simp_all add: bg_wf_def)

lemma bg_wf_length: "bg_wf b \<Longrightarrow> length (bg_points b) = 24"
  by (simp add: bg_wf_def)

lemma count_le_checkers:
  assumes "p < 24"
  shows "bg_count b c p + bg_bar b c + bg_off b c \<le> checkers b c"
  using member_le_sum [of p "{..<24}" "bg_count b c"] assms by (simp add: checkers_def)

lemma bg_count_set:
  assumes "p < length (bg_points b)" and "n \<le> 127"
  shows "bg_count (bg_set b c p n) d q = (if q = p then (if d = c then n else 0) else bg_count b d q)"
  using assms by (cases c; cases d) (auto simp: bg_count_def bg_set_def Let_def)

lemma bg_set_fields [simp]:
  "bg_bar (bg_set b c p n) = bg_bar b" "bg_off (bg_set b c p n) = bg_off b"
  "length (bg_points (bg_set b c p n)) = length (bg_points b)"
  by (simp_all add: bg_set_def)

lemma bg_count_fields [simp]:
  "bg_count (b\<lparr>bg_bar := x\<rparr>) c p = bg_count b c p" "bg_count (b\<lparr>bg_off := x\<rparr>) c p = bg_count b c p"
  by (simp_all add: bg_count_def)

lemma bg_set_low:
  assumes "\<forall>n \<in> set (bg_points b). -128 < n \<and> n < 128" and "n \<le> 127"
  shows "\<forall>n \<in> set (bg_points (bg_set b c p n)). -128 < n \<and> n < 128"
proof
  fix x assume "x \<in> set (bg_points (bg_set b c p n))"
  then have "x \<in> insert (case c of BgWhite \<Rightarrow> as_i8 (int n) | BgRed \<Rightarrow> as_i8 (- as_i8 (int n))) (set (bg_points b))"
    using set_update_subset_insert by (fastforce simp: bg_set_def)
  with assms show "-128 < x \<and> x < 128" by (cases c) auto
qed

text \<open>A point never holds both colors.\<close>

lemma one_color_per_point: "0 < bg_count b c p \<Longrightarrow> -128 < bg_points b ! p \<Longrightarrow> bg_points b ! p < 128 \<Longrightarrow> bg_count b (bg_other c) p = 0"
  by (cases c) (auto simp: bg_count_def Let_def split: if_splits)

lemma sum_upd:
  fixes f :: "nat \<Rightarrow> nat"
  assumes "p < n"
  shows "(\<Sum>q<n. if q = p then v else f q) + f p = (\<Sum>q<n. f q) + v"
proof -
  have p: "p \<in> {..<n}" using assms by simp
  have "(\<Sum>q<n. if q = p then v else f q) = v + (\<Sum>q\<in>{..<n} - {p}. f q)"
    using sum.remove [OF _ p, of "\<lambda>q. if q = p then v else f q"] by simp
  moreover have "(\<Sum>q<n. f q) = f p + (\<Sum>q\<in>{..<n} - {p}. f q)"
    using sum.remove [OF _ p, of f] by simp
  ultimately show ?thesis by simp
qed

lemma checkers_set:
  assumes "p < 24" "length (bg_points b) = 24" and "n \<le> 127"
  shows "checkers (bg_set b c p n) d + bg_count b d p = checkers b d + (if d = c then n else 0)"
proof -
  have "(\<Sum>q<24. bg_count (bg_set b c p n) d q) =
      (\<Sum>q<24. if q = p then (if d = c then n else 0) else bg_count b d q)"
    using assms by (intro sum.cong) (simp_all add: bg_count_set)
  with sum_upd [OF assms(1), of "if d = c then n else 0" "bg_count b d"] show ?thesis
    by (simp add: checkers_def)
qed

section \<open>One hop\<close>

text \<open>A hop the board admits: a checker to move, and a landing the opponent does not hold.\<close>

definition hop_ready :: "bg_board \<Rightarrow> bg_color \<Rightarrow> hop \<Rightarrow> bool" where
  "hop_ready b c = (\<lambda>(from, to).
     (if from = bg_BAR then 0 < bg_bar b c else from < bg_POINTS \<and> 0 < bg_count b c from) \<and>
     (to = bg_OFF \<or> (to < bg_POINTS \<and> landing_open b c to)) \<and> from \<noteq> to)"

text \<open>Its effect: one checker changes place, and a lone opposing checker goes to the bar.\<close>

definition hop_effect :: "bg_board \<Rightarrow> bg_color \<Rightarrow> hop \<Rightarrow> bg_board \<Rightarrow> bool \<Rightarrow> bool" where
  "hop_effect b c = (\<lambda>(from, to) b' hit.
     hit = (to \<noteq> bg_OFF \<and> bg_count b (bg_other c) to = 1) \<and>
     (\<forall>q < 24. bg_count b' c q = bg_count b c q + (if q = to then 1 else 0) - (if q = from then 1 else 0)) \<and>
     (\<forall>q < 24. bg_count b' (bg_other c) q = (if q = to then 0 else bg_count b (bg_other c) q)) \<and>
     bg_bar b' c = bg_bar b c - (if from = bg_BAR then 1 else 0) \<and>
     bg_bar b' (bg_other c) = bg_bar b (bg_other c) + (if hit then 1 else 0) \<and>
     bg_off b' c = bg_off b c + (if to = bg_OFF then 1 else 0) \<and>
     bg_off b' (bg_other c) = bg_off b (bg_other c))"

definition bg_ok :: "bg_board \<Rightarrow> bool" where
  "bg_ok b \<longleftrightarrow> length (bg_points b) = 24 \<and> (\<forall>n \<in> set (bg_points b). -128 < n \<and> n < 128)"

lemma bg_wf_iff: "bg_wf b \<longleftrightarrow> bg_ok b \<and> (\<forall>c. checkers b c = 15)"
  by (auto simp: bg_wf_def bg_ok_def intro: bg_color.induct)

lemma checkers_bar: "checkers (b\<lparr>bg_bar := (bg_bar b)(c := v)\<rparr>) d + (if d = c then bg_bar b c else 0) =
    checkers b d + (if d = c then v else 0)"
  by (simp add: checkers_def)

lemma checkers_off: "checkers (b\<lparr>bg_off := (bg_off b)(c := v)\<rparr>) d + (if d = c then bg_off b c else 0) =
    checkers b d + (if d = c then v else 0)"
  by (simp add: checkers_def)

lemma bg_ok_set [intro]: "bg_ok b \<Longrightarrow> n \<le> 127 \<Longrightarrow> bg_ok (bg_set b c p n)"
  using bg_set_low [of b n c p] by (simp add: bg_ok_def)

lemma bg_ok_bar [simp]: "bg_ok (b\<lparr>bg_bar := v\<rparr>) = bg_ok b" "bg_ok (b\<lparr>bg_off := v\<rparr>) = bg_ok b"
  by (simp_all add: bg_ok_def)

lemma one_color: "bg_ok b \<Longrightarrow> p < 24 \<Longrightarrow> 0 < bg_count b c p \<Longrightarrow> bg_count b (bg_other c) p = 0"
  by (rule one_color_per_point) (simp_all add: bg_ok_def)

lemma lift_checker_ok:
  assumes ok: "bg_ok b" and le: "checkers b c = 15"
    and own: "if from = bg_BAR then 0 < bg_bar b c else from < bg_POINTS \<and> 0 < bg_count b c from"
  shows "\<exists>b'. lift_checker b c from = Some b' \<and> bg_ok b' \<and>
    checkers b' c = 14 \<and> checkers b' (bg_other c) = checkers b (bg_other c) \<and>
    (\<forall>q < 24. bg_count b' c q = bg_count b c q - (if q = from then 1 else 0)) \<and>
    (\<forall>q < 24. bg_count b' (bg_other c) q = (if q = from then 0 else bg_count b (bg_other c) q)) \<and>
    bg_bar b' c = bg_bar b c - (if from = bg_BAR then 1 else 0) \<and>
    bg_bar b' (bg_other c) = bg_bar b (bg_other c) \<and> bg_off b' = bg_off b"
proof (cases "from = bg_BAR")
  case True
  have "bg_bar b c \<le> 15" using count_le_checkers [of 0 b c] le by simp
  moreover have "0 < bg_bar b c" using own True by simp
  ultimately have "(bg_bar b c + 255) mod 256 = bg_bar b c - 1" by (simp add: mod_if)
  then show ?thesis
    using True ok le checkers_bar [of b c "bg_bar b c - 1" c] checkers_bar [of b c "bg_bar b c - 1" "bg_other c"] own
    by (simp add: lift_checker_def)
next
  case False
  have p: "from < 24" "0 < bg_count b c from" using own False by simp_all
  have n: "bg_count b c from - 1 \<le> 127" using count_le_checkers [of "from" b c] le p by simp
  have len: "length (bg_points b) = 24" using ok by (simp add: bg_ok_def)
  have none: "bg_count b (bg_other c) from = 0" using one_color [OF ok p] .
  show ?thesis
    using False p n len ok le none checkers_set [OF p(1) len n, of c c] checkers_set [OF p(1) len n, of c "bg_other c"]
    by (auto simp: lift_checker_def bg_count_set)
qed

lemma land_checker_ok:
  assumes ok: "bg_ok b" and le: "checkers b c = 14" "checkers b (bg_other c) = 15"
    and "to": "to = bg_OFF \<or> (to < bg_POINTS \<and> landing_open b c to)"
  shows "\<exists>b' hit. land_checker b c to = Some (b', hit) \<and> bg_ok b' \<and>
    checkers b' c = 15 \<and> checkers b' (bg_other c) = 15 \<and>
    hit = (to \<noteq> bg_OFF \<and> bg_count b (bg_other c) to = 1) \<and>
    (\<forall>q < 24. bg_count b' c q = bg_count b c q + (if q = to then 1 else 0)) \<and>
    (\<forall>q < 24. bg_count b' (bg_other c) q = (if q = to then 0 else bg_count b (bg_other c) q)) \<and>
    bg_bar b' c = bg_bar b c \<and> bg_bar b' (bg_other c) = bg_bar b (bg_other c) + (if hit then 1 else 0) \<and>
    bg_off b' c = bg_off b c + (if to = bg_OFF then 1 else 0) \<and> bg_off b' (bg_other c) = bg_off b (bg_other c)"
proof (cases "to = bg_OFF")
  case True
  have "bg_off b c \<le> 14" using count_le_checkers [of 0 b c] le by simp
  then show ?thesis using True ok le checkers_off [of b c "bg_off b c + 1" c] checkers_off [of b c "bg_off b c + 1" "bg_other c"]
    by (auto simp: land_checker_def)
next
  case False
  then have p: "to < 24" and open': "bg_count b (bg_other c) to \<le> 1" using "to" by (simp_all add: landing_open_def)
  have len: "length (bg_points b) = 24" using ok by (simp add: bg_ok_def)
  let ?v = "bg_bar b (bg_other c) + 1"
  let ?b = "b\<lparr>bg_bar := (bg_bar b)(bg_other c := ?v)\<rparr>"
  have n: "bg_count b c to + 1 \<le> 127" "bg_count b c to \<le> 14" using count_le_checkers [of "to" b c] le p by simp_all
  show ?thesis
  proof (cases "bg_count b (bg_other c) to = 1")
    case True
    have bar: "bg_bar b (bg_other c) \<le> 15" using count_le_checkers [of "to" b "bg_other c"] le p by simp
    have none: "bg_count b c to = 0" using one_color [OF ok p, of "bg_other c"] True by simp
    have cb: "checkers ?b (bg_other c) = 16" "checkers ?b c = 14"
      using checkers_bar [of b "bg_other c" ?v "bg_other c"] checkers_bar [of b "bg_other c" ?v c] le by simp_all
    let ?h = "bg_set ?b c to 0"
    have h: "bg_ok ?h" "length (bg_points ?h) = 24" using ok len by (auto intro: bg_ok_set)
    have hc: "bg_count ?h d q = (if q = to then 0 else bg_count b d q)" for d q
      using p len by (simp add: bg_count_set)
    have hk: "checkers ?h c = 14" "checkers ?h (bg_other c) = 15"
      using checkers_set [of "to" ?b 0 c c] checkers_set [of "to" ?b 0 c "bg_other c"] p len cb none True by simp_all
    let ?l = "bg_set ?h c to 1"
    have l: "land_checker b c to = Some (?l, True)" using False p True bar hc [of c "to"] by (simp add: land_checker_def)
    have lc: "bg_count ?l d q = (if q = to then (if d = c then 1 else 0) else bg_count b d q)" for d q
      using p h(2) by (simp add: bg_count_set hc)
    have lk: "checkers ?l c = 15" "checkers ?l (bg_other c) = 15"
      using checkers_set [of "to" ?h 1 c c] checkers_set [of "to" ?h 1 c "bg_other c"] p h(2) hk hc [of c "to"]
        hc [of "bg_other c" "to"] by simp_all
    have "bg_ok ?l" using h(1) by (auto intro: bg_ok_set)
    with l lk lc False True none show ?thesis by auto
  next
    case no: False
    then have none: "bg_count b (bg_other c) to = 0" using open' by simp
    let ?l = "bg_set b c to (bg_count b c to + 1)"
    have l: "land_checker b c to = Some (?l, False)" using False p no n by (simp add: land_checker_def)
    have lc: "bg_count ?l d q = (if q = to then (if d = c then bg_count b c to + 1 else 0) else bg_count b d q)" for d q
      using p len n by (simp add: bg_count_set)
    have lk: "checkers ?l c = 15" "checkers ?l (bg_other c) = 15"
      using checkers_set [OF p len n(1), of c c] checkers_set [OF p len n(1), of c "bg_other c"] le none by simp_all
    have "bg_ok ?l" using ok n by (auto intro: bg_ok_set)
    with l lk lc False no none show ?thesis by auto
  qed
qed

lemma apply_hop_ready:
  assumes wf: "bg_wf b" and ready: "hop_ready b c hop"
  shows "\<exists>b' hit. apply_hop b c hop = Some (b', hit) \<and> bg_wf b' \<and> hop_effect b c hop b' hit"
proof -
  obtain "from" "to" where hop: "hop = (from, to)" by (cases hop)
  have own: "if from = bg_BAR then 0 < bg_bar b c else from < bg_POINTS \<and> 0 < bg_count b c from"
    and "to": "to = bg_OFF \<or> (to < bg_POINTS \<and> landing_open b c to)" and ne: "from \<noteq> to"
    using ready unfolding hop hop_ready_def prod.case by blast+
  have ok: "bg_ok b" and chk: "checkers b c = 15" "checkers b (bg_other c) = 15" using wf by (simp_all add: bg_wf_iff)
  obtain m where m: "lift_checker b c from = Some m" "bg_ok m" "checkers m c = 14" "checkers m (bg_other c) = 15"
    and mc: "\<forall>q < 24. bg_count m c q = bg_count b c q - (if q = from then 1 else 0)"
    and mo: "\<forall>q < 24. bg_count m (bg_other c) q = (if q = from then 0 else bg_count b (bg_other c) q)"
    and mb: "bg_bar m c = bg_bar b c - (if from = bg_BAR then 1 else 0)" "bg_bar m (bg_other c) = bg_bar b (bg_other c)"
      "bg_off m = bg_off b"
    using lift_checker_ok [OF ok chk(1) own] chk by auto
  have "to'": "to = bg_OFF \<or> (to < bg_POINTS \<and> landing_open m c to)"
    using "to" ne mo by (auto simp: landing_open_def)
  obtain b' hit where l: "land_checker m c to = Some (b', hit)" "bg_ok b'" "checkers b' c = 15" "checkers b' (bg_other c) = 15"
    and h: "hit = (to \<noteq> bg_OFF \<and> bg_count m (bg_other c) to = 1)"
    and bc: "\<forall>q < 24. bg_count b' c q = bg_count m c q + (if q = to then 1 else 0)"
    and bo: "\<forall>q < 24. bg_count b' (bg_other c) q = (if q = to then 0 else bg_count m (bg_other c) q)"
    and bb: "bg_bar b' c = bg_bar m c" "bg_bar b' (bg_other c) = bg_bar m (bg_other c) + (if hit then 1 else 0)"
      "bg_off b' c = bg_off m c + (if to = bg_OFF then 1 else 0)" "bg_off b' (bg_other c) = bg_off m (bg_other c)"
    using land_checker_ok [OF m(2,3,4) "to'"] by blast
  have all: "checkers b' d = 15" for d using l(3,4) by (cases "d = c") (cases c; cases d; simp)+
  have none: "from < 24 \<Longrightarrow> bg_count b (bg_other c) from = 0"
  proof -
    assume f: "from < 24"
    then have "0 < bg_count b c from" using own by auto
    with one_color [OF ok f] show ?thesis .
  qed
  have hit: "hit = (to \<noteq> bg_OFF \<and> bg_count b (bg_other c) to = 1)" using h "to" mo ne by auto
  have "hop_effect b c (from, to) b' hit"
    unfolding hop_effect_def prod.case
    using hit bc mc bo mo bb mb ne none by auto
  moreover have "apply_hop b c hop = Some (b', hit)" using m l by (simp add: hop apply_hop_def)
  ultimately show ?thesis using l(2) all by (auto simp: hop bg_wf_iff)
qed

section \<open>The rules of one hop, seen by the mover\<close>

text \<open>
  The rule book counts from the mover: the point \<open>n\<close> pips from bearing off, with the bar at 25.
\<close>

definition pips_point :: "bg_color \<Rightarrow> nat \<Rightarrow> nat" where
  "pips_point c n = (if n = 25 then bg_BAR else if n = 0 then bg_OFF else
     case c of BgWhite \<Rightarrow> n - 1 | BgRed \<Rightarrow> 24 - n)"

definition own_at :: "bg_board \<Rightarrow> bg_color \<Rightarrow> nat \<Rightarrow> nat" where
  "own_at b c n = (if n = 25 then bg_bar b c else bg_count b c (pips_point c n))"

text \<open>A checker \<open>n\<close> pips away moves by the die to a point the opponent does not hold, or is borne off
  with all checkers home by the exact die or, with none farther, by a larger one; a checker on the
  bar comes first.\<close>

definition hop_at :: "bg_board \<Rightarrow> bg_color \<Rightarrow> nat \<Rightarrow> nat \<Rightarrow> hop \<Rightarrow> bool" where
  "hop_at b c die n hop \<longleftrightarrow> 0 < own_at b c n \<and> fst hop = pips_point c n \<and>
     (if die < n then own_at b (bg_other c) (25 - (n - die)) \<le> 1 \<and> snd hop = pips_point c (n - die)
      else (\<forall>k \<in> {7..25}. own_at b c k = 0) \<and> (n = die \<or> (\<forall>k \<in> {n<..25}. own_at b c k = 0)) \<and> snd hop = bg_OFF)"

definition hop_ok :: "bg_board \<Rightarrow> bg_color \<Rightarrow> nat \<Rightarrow> hop \<Rightarrow> bool" where
  "hop_ok b c die hop \<longleftrightarrow> (\<exists>n \<in> {1..25}. (0 < own_at b c 25 \<longrightarrow> n = 25) \<and> hop_at b c die n hop)"

lemma own_at_White: "n \<noteq> 25 \<Longrightarrow> 1 \<le> n \<Longrightarrow> own_at b BgWhite n = bg_count b BgWhite (n - 1)"
  by (simp add: own_at_def pips_point_def)

lemma own_at_Red: "n \<noteq> 25 \<Longrightarrow> 1 \<le> n \<Longrightarrow> own_at b BgRed n = bg_count b BgRed (24 - n)"
  by (simp add: own_at_def pips_point_def)

lemma own_at_bar: "own_at b c 25 = bg_bar b c"
  by (simp add: own_at_def)

lemma ball_upto_Suc: "(\<forall>k \<in> {i..j}. P k) \<longleftrightarrow> (\<forall>k. i \<le> k \<and> k \<le> j \<longrightarrow> P k)" for i j :: nat
  by auto

lemma home_White: "bg_bar b BgWhite = 0 \<Longrightarrow> (\<forall>k \<in> {7..25}. own_at b BgWhite k = 0) = bg_all_home b BgWhite"
proof -
  assume bar: "bg_bar b BgWhite = 0"
  have "(\<forall>k \<in> {7..25}. own_at b BgWhite k = 0) \<longleftrightarrow> (\<forall>p \<in> {6..<24}. bg_count b BgWhite p = 0)"
  proof
    assume l: "\<forall>k \<in> {7..25}. own_at b BgWhite k = 0"
    show "\<forall>p \<in> {6..<24}. bg_count b BgWhite p = 0"
    proof
      fix p :: nat assume "p \<in> {6..<24}"
      with bspec [OF l, of "p + 1"] show "bg_count b BgWhite p = 0" by (simp add: own_at_White)
    qed
  next
    assume r: "\<forall>p \<in> {6..<24}. bg_count b BgWhite p = 0"
    show "\<forall>k \<in> {7..25}. own_at b BgWhite k = 0"
    proof
      fix k :: nat assume "k \<in> {7..25}"
      then have "k \<noteq> 25 \<Longrightarrow> k - 1 \<in> {6..<24}" by auto
      with bspec [OF r, of "k - 1"] \<open>k \<in> {7..25}\<close> bar show "own_at b BgWhite k = 0"
        by (cases "k = 25") (simp_all add: own_at_White own_at_bar)
    qed
  qed
  then show ?thesis using bar by (simp add: bg_all_home_def list_all_iff del: upt_rec_numeral)
qed

lemma home_Red: "bg_bar b BgRed = 0 \<Longrightarrow> (\<forall>k \<in> {7..25}. own_at b BgRed k = 0) = bg_all_home b BgRed"
proof -
  assume bar: "bg_bar b BgRed = 0"
  have "(\<forall>k \<in> {7..25}. own_at b BgRed k = 0) \<longleftrightarrow> (\<forall>p \<in> {0..<18}. bg_count b BgRed p = 0)"
  proof
    assume l: "\<forall>k \<in> {7..25}. own_at b BgRed k = 0"
    show "\<forall>p \<in> {0..<18}. bg_count b BgRed p = 0"
    proof
      fix p :: nat assume p: "p \<in> {0..<18}"
      then have "24 - p \<in> {7..25}" by auto
      with bspec [OF l, of "24 - p"] p show "bg_count b BgRed p = 0" by (simp add: own_at_Red)
    qed
  next
    assume r: "\<forall>p \<in> {0..<18}. bg_count b BgRed p = 0"
    show "\<forall>k \<in> {7..25}. own_at b BgRed k = 0"
    proof
      fix k :: nat assume "k \<in> {7..25}"
      then have "k \<noteq> 25 \<Longrightarrow> 24 - k \<in> {0..<18}" by auto
      with bspec [OF r, of "24 - k"] \<open>k \<in> {7..25}\<close> bar show "own_at b BgRed k = 0"
        by (cases "k = 25") (simp_all add: own_at_Red own_at_bar)
    qed
  qed
  then show ?thesis using bar by (auto simp: bg_all_home_def list_all_iff)
qed

lemma home_iff: "bg_bar b c = 0 \<Longrightarrow> (\<forall>k \<in> {7..25}. own_at b c k = 0) = bg_all_home b c"
  by (cases c) (simp_all only: home_White home_Red)

text \<open>The points of the mover, one by one: the loop's index of a point and its distance.\<close>

definition pips_of :: "bg_color \<Rightarrow> nat \<Rightarrow> nat" where
  "pips_of c from = (case c of BgWhite \<Rightarrow> from + 1 | BgRed \<Rightarrow> 24 - from)"

lemma pips_of_range: "from < 24 \<Longrightarrow> 1 \<le> pips_of c from \<and> pips_of c from \<le> 24"
  by (cases c) (auto simp: pips_of_def)

lemma pips_point_of: "from < 24 \<Longrightarrow> pips_point c (pips_of c from) = from"
  by (cases c) (auto simp: pips_of_def pips_point_def)

lemma pips_of_point: "1 \<le> n \<Longrightarrow> n \<le> 24 \<Longrightarrow> pips_point c n < 24 \<and> pips_of c (pips_point c n) = n"
  by (cases c) (auto simp: pips_of_def pips_point_def)

lemma own_at_pips: "from < 24 \<Longrightarrow> own_at b c (pips_of c from) = bg_count b c from"
  using pips_of_range [of "from" c] by (simp add: own_at_def pips_point_of)

lemma hop_dest_pips:
  assumes "from < 24" and "die \<le> 6"
  shows "hop_dest c from die = (if die < pips_of c from then pips_point c (pips_of c from - die) else bg_OFF)"
  using assms by (cases c) (auto simp: hop_dest_def pips_of_def pips_point_def)

lemma pips_point_opposite: "1 \<le> n \<Longrightarrow> n \<le> 24 \<Longrightarrow> pips_point (bg_other c) (25 - n) = pips_point c n"
  by (cases c) (auto simp: pips_point_def)

lemma landing_open_pips: "1 \<le> n \<Longrightarrow> n \<le> 24 \<Longrightarrow> landing_open b c (pips_point c n) \<longleftrightarrow> own_at b (bg_other c) (25 - n) \<le> 1"
  using pips_point_opposite [of n c] by (auto simp: landing_open_def own_at_def)

lemma farther_iff:
  assumes home: "\<forall>k \<in> {7..25}. own_at b c k = 0" and f: "from < 24" and le: "pips_of c from \<le> 6"
  shows "list_all (\<lambda>p. bg_count b c p = 0) (case c of BgWhite \<Rightarrow> [from + 1..<6] | BgRed \<Rightarrow> [18..<from]) \<longleftrightarrow>
    (\<forall>k \<in> {pips_of c from<..25}. own_at b c k = 0)" (is "?L \<longleftrightarrow> ?R")
proof
  assume L: ?L
  show ?R
  proof
    fix k assume k: "k \<in> {pips_of c from<..25}"
    show "own_at b c k = 0"
    proof (cases "k \<le> 6")
      case False
      with k home show ?thesis by auto
    next
      case True
      then have "k \<le> 24" "1 \<le> k" using k by auto
      note p = pips_of_point [OF this(2,1), of c]
      have "pips_point c k \<in> set (case c of BgWhite \<Rightarrow> [from + 1..<6] | BgRed \<Rightarrow> [18..<from])"
        using True k f by (cases c) (auto simp: pips_point_def pips_of_def)
      with L have "bg_count b c (pips_point c k) = 0" by (auto simp: list_all_iff)
      then show ?thesis using \<open>k \<le> 24\<close> by (simp add: own_at_def)
    qed
  qed
next
  assume R: ?R
  show ?L
    unfolding list_all_iff
  proof
    fix p assume p: "p \<in> set (case c of BgWhite \<Rightarrow> [from + 1..<6] | BgRed \<Rightarrow> [18..<from])"
    then have "p < 24" "pips_of c from < pips_of c p" using f by (cases c; auto simp: pips_of_def)+
    with R pips_of_range [of p c] own_at_pips [of p b c] show "bg_count b c p = 0" by auto
  qed
qed

lemma can_bear_off_pips:
  assumes home: "\<forall>k \<in> {7..25}. own_at b c k = 0" and f: "from < 24" and pos: "0 < bg_count b c from"
    and ge: "pips_of c from \<le> die" and die: "die \<le> 6"
  shows "can_bear_off b c from die \<longleftrightarrow> pips_of c from = die \<or> (\<forall>k \<in> {pips_of c from<..25}. own_at b c k = 0)"
proof -
  have "can_bear_off b c from die \<longleftrightarrow> pips_of c from = die \<or>
      list_all (\<lambda>p. bg_count b c p = 0) (case c of BgWhite \<Rightarrow> [from + 1..<6] | BgRed \<Rightarrow> [18..<from])"
    using ge by (cases c) (auto simp: can_bear_off_def pips_of_def Let_def)
  also have "\<dots> \<longleftrightarrow> pips_of c from = die \<or> (\<forall>k \<in> {pips_of c from<..25}. own_at b c k = 0)"
    using farther_iff [OF home f] ge die by simp
  finally show ?thesis .
qed

lemma hop_from_iff:
  assumes bar: "bg_bar b c = 0" and f: "from < 24" and die: "1 \<le> die" "die \<le> 6"
  shows "hop \<in> set (hop_from b c die from) \<longleftrightarrow> hop_at b c die (pips_of c from) hop"
proof -
  let ?n = "pips_of c from"
  note n = pips_of_range [OF f, of c]
  have own: "own_at b c ?n = bg_count b c from" using own_at_pips [OF f] .
  show ?thesis
  proof (cases "die < ?n")
    case True
    have m: "1 \<le> ?n - die" "?n - die \<le> 24" using True n by auto
    have "pips_point c (?n - die) \<noteq> bg_OFF" using pips_of_point [OF m, of c] by simp
    then show ?thesis
      using True own landing_open_pips [OF m, of b c] hop_dest_pips [OF f die(2), of c] pips_point_of [OF f, of c]
      by (cases hop) (auto simp: hop_from_def hop_at_def)
  next
    case False
    then have ge: "?n \<le> die" by simp
    show ?thesis
    proof (cases "0 < bg_count b c from")
      case pos: True
      have "bg_all_home b c \<and> can_bear_off b c from die \<longleftrightarrow>
          (\<forall>k \<in> {7..25}. own_at b c k = 0) \<and> (?n = die \<or> (\<forall>k \<in> {?n<..25}. own_at b c k = 0))"
        using home_iff [OF bar] can_bear_off_pips [OF _ f pos ge die(2)] by blast
      then show ?thesis
        using False own pos hop_dest_pips [OF f die(2), of c] pips_point_of [OF f, of c]
        by (cases hop) (auto simp: hop_from_def hop_at_def)
    next
      case none: False
      then show ?thesis using own by (simp add: hop_from_def hop_at_def)
    qed
  qed
qed

lemma hops_for_die_ok:
  assumes die: "1 \<le> die" "die \<le> 6"
  shows "\<exists>hs. hops_for_die b c die = Some hs \<and> (\<forall>hop. hop \<in> set hs \<longleftrightarrow> hop_ok b c die hop)"
proof (cases "0 < bg_bar b c")
  case True
  have m: "1 \<le> 25 - die" "25 - die \<le> 24" using die by auto
  have entry: "hop_dest c bg_BAR die = pips_point c (25 - die)"
    using die by (cases c) (auto simp: hop_dest_def pips_point_def mod_if)
  have "pips_point c (25 - die) < 24" using pips_of_point [OF m] by blast
  then have "hops_for_die b c die =
      Some (if landing_open b c (pips_point c (25 - die)) then [(bg_BAR, pips_point c (25 - die))] else [])"
    using True entry by (simp add: hops_for_die_def Let_def)
  moreover have "hop_ok b c die hop \<longleftrightarrow> landing_open b c (pips_point c (25 - die)) \<and> hop = (bg_BAR, pips_point c (25 - die))"
    for hop
    using True die landing_open_pips [OF m, of b c]
    by (cases hop) (auto simp: hop_ok_def hop_at_def own_at_bar pips_point_def)
  ultimately show ?thesis by auto
next
  case False
  then have bar: "bg_bar b c = 0" by simp
  have "hop \<in> set (concat (map (hop_from b c die) [0..<bg_POINTS])) \<longleftrightarrow> hop_ok b c die hop" for hop
  proof
    assume "hop \<in> set (concat (map (hop_from b c die) [0..<bg_POINTS]))"
    then obtain p where p: "p < 24" "hop \<in> set (hop_from b c die p)" by auto
    with hop_from_iff [OF bar p(1) die] have "hop_at b c die (pips_of c p) hop" by blast
    moreover have "pips_of c p \<in> {1..25}" using pips_of_range [OF p(1), of c] by auto
    ultimately show "hop_ok b c die hop" using bar by (auto simp: hop_ok_def own_at_bar)
  next
    assume "hop_ok b c die hop"
    then obtain n where n: "n \<in> {1..25}" "hop_at b c die n hop" unfolding hop_ok_def by blast
    then have "n \<noteq> 25" using bar by (auto simp: hop_at_def own_at_bar)
    then have "1 \<le> n" "n \<le> 24" using n(1) by auto
    note p = pips_of_point [OF this, of c]
    with n(2) hop_from_iff [OF bar _ die, of "pips_point c n" hop]
    have "hop \<in> set (hop_from b c die (pips_point c n))" by simp
    with p show "hop \<in> set (concat (map (hop_from b c die) [0..<bg_POINTS]))" by auto
  qed
  then show ?thesis using False by (auto simp: hops_for_die_def)
qed

lemma hop_ok_ready:
  assumes die: "1 \<le> die" and ok: "hop_ok b c die hop"
  shows "hop_ready b c hop"
proof -
  obtain n where n: "n \<in> {1..25}" "hop_at b c die n hop" using ok unfolding hop_ok_def by blast
  obtain "from" "to" where hop: "hop = (from, to)" by (cases hop)
  have own: "0 < own_at b c n" and "from": "from = pips_point c n" using n(2) by (simp_all add: hop_at_def hop)
  have f: "if from = bg_BAR then 0 < bg_bar b c else from < bg_POINTS \<and> 0 < bg_count b c from"
  proof (cases "n = 25")
    case True
    with own "from" show ?thesis by (simp add: own_at_def pips_point_def)
  next
    case False
    with n(1) pips_of_point [of n c] own "from" show ?thesis by (auto simp: own_at_def)
  qed
  show ?thesis
  proof (cases "die < n")
    case True
    have m: "1 \<le> n - die" "n - die \<le> 24" using True n(1) die by auto
    have "to": "to = pips_point c (n - die)" and op: "own_at b (bg_other c) (25 - (n - die)) \<le> 1"
      using n(2) True by (simp_all add: hop_at_def hop)
    have lt: "to < 24" "pips_of c to = n - die" using pips_of_point [OF m, of c] "to" by simp_all
    have "from \<noteq> to"
    proof
      assume eq: "from = to"
      then have "n \<noteq> 25" using lt "from" by (auto simp: pips_point_def)
      then have "pips_of c from = n" using pips_of_point [of n c] n(1) "from" by auto
      with eq lt True die show False by simp
    qed
    then show ?thesis using f lt landing_open_pips [OF m, of b c] op "to" unfolding hop hop_ready_def by simp
  next
    case False
    then have "to = bg_OFF" using n(2) by (simp add: hop_at_def hop)
    moreover have "from \<noteq> bg_OFF" using f by auto
    ultimately show ?thesis using f unfolding hop hop_ready_def by simp
  qed
qed

section \<open>Complete turns\<close>

text \<open>A sequence of hops that plays the dice of an order one after another, as many of them as it has hops.\<close>

fun playable :: "bg_board \<Rightarrow> bg_color \<Rightarrow> nat list \<Rightarrow> hop list \<Rightarrow> bool" where
  "playable b c ds [] = True"
| "playable b c [] (h # hs) = False"
| "playable b c (d # ds) (h # hs) =
     (hop_ok b c d h \<and> (case apply_hop b c h of None \<Rightarrow> False | Some (b', _) \<Rightarrow> playable b' c ds hs))"

definition stuck_after :: "bg_board \<Rightarrow> bg_color \<Rightarrow> nat list \<Rightarrow> hop list \<Rightarrow> bool" where
  "stuck_after b c ds hs \<longleftrightarrow> (\<forall>h. \<not> playable b c ds (hs @ [h]))"

definition dice_ok :: "nat list \<Rightarrow> bool" where
  "dice_ok ds \<longleftrightarrow> (\<forall>d \<in> set ds. 1 \<le> d \<and> d \<le> 6)"

lemma dice_ok_simps [simp]: "dice_ok []" "dice_ok (d # ds) \<longleftrightarrow> 1 \<le> d \<and> d \<le> 6 \<and> dice_ok ds"
  by (auto simp: dice_ok_def)

lemma playable_length: "playable b c ds hs \<Longrightarrow> length hs \<le> length ds"
  by (induction b c ds hs rule: playable.induct) (auto split: option.splits prod.splits)

lemma playable_board:
  "bg_wf b \<Longrightarrow> dice_ok ds \<Longrightarrow> playable b c ds hs \<Longrightarrow> \<exists>b'. play_hops c b hs = Some b' \<and> bg_wf b'"
proof (induction b c ds hs rule: playable.induct)
  case (3 b c d ds h hs)
  have "hop_ok b c d h" using "3.prems" by simp
  with "3.prems" have "hop_ready b c h" by (auto intro: hop_ok_ready)
  with apply_hop_ready "3.prems" obtain b' hit where a: "apply_hop b c h = Some (b', hit)" "bg_wf b'" by blast
  with "3.prems" have "playable b' c ds hs" by simp
  with "3.IH" [OF a(1) refl a(2)] "3.prems" a show ?case by (auto simp: play_hops_def)
qed (simp_all add: play_hops_def)

lemma those_map:
  assumes "\<And>x. x \<in> set xs \<Longrightarrow> \<exists>y. f x = Some y \<and> Q x y"
  shows "\<exists>ys. those (map f xs) = Some ys \<and> list_all2 Q xs ys"
  using assms
proof (induction xs)
  case (Cons x xs)
  obtain y where y: "f x = Some y" "Q x y" using Cons.prems [of x] by auto
  obtain ys where ys: "those (map f xs) = Some ys" "list_all2 Q xs ys" using Cons by auto
  show ?case using y ys by simp
qed simp

text \<open>A family of lists described pointwise is described by its concatenation.\<close>

lemma concat_all2:
  assumes "list_all2 (\<lambda>x ys. \<forall>y. y \<in> set ys \<longleftrightarrow> R x y) xs yss"
  shows "y \<in> set (concat yss) \<longleftrightarrow> (\<exists>x \<in> set xs. R x y)"
  using assms by (induction xs yss rule: list_all2_induct) auto

text \<open>The search lists exactly the sequences that can go no further, each behind the given path.\<close>

lemma extend_turns_ok:
  "bg_wf b \<Longrightarrow> dice_ok ds \<Longrightarrow>
     \<exists>out. extend_turns b c ds path = Some out \<and>
       (\<forall>t. t \<in> set out \<longleftrightarrow> (\<exists>hs. t = path @ hs \<and> playable b c ds hs \<and> stuck_after b c ds hs))"
proof (induction ds arbitrary: b path)
  case Nil
  have "playable b c [] hs \<longleftrightarrow> hs = []" for hs by (cases hs) simp_all
  then show ?case by (auto simp: stuck_after_def)
next
  case (Cons d ds)
  obtain hops where hops: "hops_for_die b c d = Some hops" "\<And>h. h \<in> set hops \<longleftrightarrow> hop_ok b c d h"
    using hops_for_die_ok [of d b c] Cons.prems by auto
  let ?Q = "\<lambda>hop t. \<exists>b' hit hs. apply_hop b c hop = Some (b', hit) \<and> t = (path @ [hop]) @ hs \<and>
    playable b' c ds hs \<and> stuck_after b' c ds hs"
  let ?f = "\<lambda>hop. Option.bind (apply_hop b c hop) (\<lambda>(next, _). extend_turns next c ds (path @ [hop]))"
  have step: "\<exists>b' hit. apply_hop b c hop = Some (b', hit) \<and> bg_wf b'" if "hop_ok b c d hop" for hop
    using apply_hop_ready [OF Cons.prems(1) hop_ok_ready [OF _ that]] Cons.prems by auto
  have one: "\<exists>out. ?f hop = Some out \<and> (\<forall>t. t \<in> set out \<longleftrightarrow> ?Q hop t)" if mem: "hop \<in> set hops" for hop
  proof -
    obtain b' hit where b': "apply_hop b c hop = Some (b', hit)" "bg_wf b'" using step hops(2) mem by blast
    obtain out where out: "extend_turns b' c ds (path @ [hop]) = Some out"
      "\<forall>t. t \<in> set out \<longleftrightarrow> (\<exists>hs. t = (path @ [hop]) @ hs \<and> playable b' c ds hs \<and> stuck_after b' c ds hs)"
      using Cons.IH [OF b'(2), of "path @ [hop]"] Cons.prems by auto
    have "?f hop = Some out" using b'(1) out(1) by simp
    moreover have "t \<in> set out \<longleftrightarrow> ?Q hop t" for t using out(2) b'(1) by simp
    ultimately show ?thesis by blast
  qed
  obtain outs where outs: "those (map ?f hops) = Some outs" "list_all2 (\<lambda>h out. \<forall>t. t \<in> set out \<longleftrightarrow> ?Q h t) hops outs"
  proof -
    have "\<exists>outs. those (map ?f hops) = Some outs \<and> list_all2 (\<lambda>h out. \<forall>t. t \<in> set out \<longleftrightarrow> ?Q h t) hops outs"
      by (rule those_map) (rule one)
    then show ?thesis by (elim exE conjE) (rule that)
  qed
  show ?case
  proof (cases "hops = []")
    case True
    then have no: "\<not> hop_ok b c d h" for h using hops(2) by auto
    then have "playable b c (d # ds) hs \<longleftrightarrow> hs = []" for hs by (cases hs) simp_all
    with True hops(1) show ?thesis by (auto simp: stuck_after_def)
  next
    case False
    then obtain h0 where h0: "hop_ok b c d h0" using hops(2) by (cases hops) auto
    then have "playable b c (d # ds) ([] @ [h0])" using step [OF h0] by auto
    then have stuck: "\<not> stuck_after b c (d # ds) []" unfolding stuck_after_def by blast
    have cons: "playable b c (d # ds) (h # hs) \<and> stuck_after b c (d # ds) (h # hs) \<longleftrightarrow>
        hop_ok b c d h \<and> (\<exists>b' hit. apply_hop b c h = Some (b', hit) \<and> playable b' c ds hs \<and> stuck_after b' c ds hs)" for h hs
      by (auto simp: stuck_after_def split: option.splits)
    have all: "t \<in> set (concat outs) \<longleftrightarrow>
        (\<exists>hs. t = path @ hs \<and> playable b c (d # ds) hs \<and> stuck_after b c (d # ds) hs)" for t
    proof -
      have "t \<in> set (concat outs) \<longleftrightarrow> (\<exists>h \<in> set hops. ?Q h t)" by (rule concat_all2 [OF outs(2)])
      also have "\<dots> \<longleftrightarrow> (\<exists>h hs. t = path @ (h # hs) \<and> playable b c (d # ds) (h # hs) \<and> stuck_after b c (d # ds) (h # hs))"
        using hops(2) unfolding cons by fastforce
      also have "\<dots> \<longleftrightarrow> (\<exists>hs. t = path @ hs \<and> playable b c (d # ds) hs \<and> stuck_after b c (d # ds) hs)"
        using stuck by (metis list.exhaust)
      finally show ?thesis .
    qed
    show ?thesis using False hops(1) outs(1) all by auto
  qed
qed

lemma playable_extends:
  assumes "playable b c ds hs"
  shows "\<exists>hs'. playable b c ds hs' \<and> stuck_after b c ds hs' \<and> length hs \<le> length hs'"
  using assms
proof (induction "length ds - length hs" arbitrary: hs rule: less_induct)
  case less
  show ?case
  proof (cases "stuck_after b c ds hs")
    case True
    with less.prems show ?thesis by blast
  next
    case False
    then obtain h where h: "playable b c ds (hs @ [h])" by (auto simp: stuck_after_def)
    with playable_length [OF h] have "length ds - length (hs @ [h]) < length ds - length hs" by simp
    from less.hyps [OF this h] show ?thesis by auto
  qed
qed

lemma foldr_max_ge: "x \<in> set xs \<Longrightarrow> (x :: nat) \<le> foldr max xs 0"
  by (induction xs) auto

lemma foldr_max_in: "foldr max xs 0 \<noteq> (0 :: nat) \<Longrightarrow> foldr max xs 0 \<in> set xs"
  by (induction xs) (auto simp: max_def)

text \<open>
  The complete turns of a roll: as many dice as can be played in either order, and with one die to
  play of two different ones, the higher where it can be played.
\<close>

definition roll_play :: "bg_board \<Rightarrow> bg_color \<Rightarrow> dice \<Rightarrow> hop list \<Rightarrow> bool" where
  "roll_play b c roll hs \<longleftrightarrow> (\<exists>ds \<in> set (dice_orders roll). playable b c ds hs)"

definition complete_turn :: "bg_board \<Rightarrow> bg_color \<Rightarrow> dice \<Rightarrow> hop list \<Rightarrow> bool" where
  "complete_turn b c roll hs \<longleftrightarrow>
     hs \<noteq> [] \<and> roll_play b c roll hs \<and> (\<forall>hs'. roll_play b c roll hs' \<longrightarrow> length hs' \<le> length hs) \<and>
     (length hs = 1 \<and> fst roll \<noteq> snd roll \<and> (\<exists>h. hop_ok b c (max (fst roll) (snd roll)) h) \<longrightarrow>
        hop_ok b c (max (fst roll) (snd roll)) (hd hs))"

definition roll_ok :: "dice \<Rightarrow> bool" where
  "roll_ok = (\<lambda>(x, y). 1 \<le> x \<and> x \<le> 6 \<and> 1 \<le> y \<and> y \<le> 6)"

lemma roll_ok_orders: "roll_ok roll \<Longrightarrow> ds \<in> set (dice_orders roll) \<Longrightarrow> dice_ok ds"
  by (cases roll) (auto simp: roll_ok_def dice_orders_def dice_ok_def split: if_splits)

text \<open>Every sequence the two searches find, and the longest length among them.\<close>

lemma searched_turns:
  assumes wf: "bg_wf b" and roll: "roll_ok roll"
  shows "\<exists>parts. those (map (\<lambda>dice. extend_turns b c dice []) (dice_orders roll)) = Some parts \<and>
    (\<forall>t. t \<in> set (concat parts) \<longleftrightarrow> (\<exists>ds \<in> set (dice_orders roll). playable b c ds t \<and> stuck_after b c ds t))"
proof -
  have "\<exists>out. extend_turns b c ds [] = Some out \<and> (\<forall>t. t \<in> set out \<longleftrightarrow> playable b c ds t \<and> stuck_after b c ds t)"
    if "ds \<in> set (dice_orders roll)" for ds
    using extend_turns_ok [OF wf roll_ok_orders [OF roll that], of c "[]"] by simp
  then obtain parts where
    p: "those (map (\<lambda>dice. extend_turns b c dice []) (dice_orders roll)) = Some parts"
      "list_all2 (\<lambda>ds out. \<forall>t. t \<in> set out \<longleftrightarrow> playable b c ds t \<and> stuck_after b c ds t) (dice_orders roll) parts"
    using those_map [of "dice_orders roll" "\<lambda>dice. extend_turns b c dice []"
      "\<lambda>ds out. \<forall>t. t \<in> set out \<longleftrightarrow> playable b c ds t \<and> stuck_after b c ds t"] by blast
  with concat_all2 [OF p(2)] show ?thesis by blast
qed

lemma longest_turns:
  assumes seqs: "\<And>t. t \<in> set seqs \<longleftrightarrow> (\<exists>ds \<in> set (dice_orders roll). playable b c ds t \<and> stuck_after b c ds t)"
    and L: "L = foldr max (map length seqs) 0"
  shows "t \<in> set seqs \<and> length t = L \<longleftrightarrow>
    roll_play b c roll t \<and> (\<forall>t'. roll_play b c roll t' \<longrightarrow> length t' \<le> length t)"
proof -
  have bound: "length t \<le> L" if play: "roll_play b c roll t" for t
  proof -
    obtain ds where ds: "ds \<in> set (dice_orders roll)" "playable b c ds t" using play by (auto simp: roll_play_def)
    obtain t' where t': "playable b c ds t'" "stuck_after b c ds t'" "length t \<le> length t'"
      using playable_extends [OF ds(2)] by blast
    then have "t' \<in> set seqs" using seqs ds(1) by blast
    then have "length t' \<le> L" unfolding L by (intro foldr_max_ge) simp
    with t'(3) show ?thesis by simp
  qed
  have attained: "\<exists>t. roll_play b c roll t \<and> length t = L"
  proof (cases "L = 0")
    case True
    have "roll_play b c roll []" by (cases roll) (auto simp: roll_play_def dice_orders_def)
    with True show ?thesis by auto
  next
    case False
    then have "L \<in> set (map length seqs)" using foldr_max_in L by blast
    then obtain t where "t \<in> set seqs" "length t = L" by auto
    with seqs show ?thesis by (auto simp: roll_play_def)
  qed
  show ?thesis
  proof
    assume t: "t \<in> set seqs \<and> length t = L"
    then have "roll_play b c roll t" using seqs by (auto simp: roll_play_def)
    with t bound show "roll_play b c roll t \<and> (\<forall>t'. roll_play b c roll t' \<longrightarrow> length t' \<le> length t)" by auto
  next
    assume t: "roll_play b c roll t \<and> (\<forall>t'. roll_play b c roll t' \<longrightarrow> length t' \<le> length t)"
    then have len: "length t = L" using attained bound [of t] by (metis antisym)
    obtain ds where ds: "ds \<in> set (dice_orders roll)" "playable b c ds t" using t by (auto simp: roll_play_def)
    have "stuck_after b c ds t"
      unfolding stuck_after_def
    proof
      fix h show "\<not> playable b c ds (t @ [h])"
        using t ds(1) by (fastforce simp: roll_play_def)
    qed
    with ds len seqs show "t \<in> set seqs \<and> length t = L" by blast
  qed
qed

lemma distinct_remdups_adj: "sorted xs \<Longrightarrow> distinct (remdups_adj xs)"
proof (induction xs rule: remdups_adj.induct)
  case (3 x y xs)
  show ?case
  proof (cases "x = y")
    case False
    with "3.prems" have "x \<notin> set (y # xs)" by force
    then have "x \<notin> set (remdups_adj (y # xs))" by simp
    with False "3.IH" "3.prems" show ?thesis by simp
  qed (use 3 in simp)
qed simp_all

lemma legal_turns_ok:
  assumes wf: "bg_wf b" and roll: "roll_ok roll"
  shows "\<exists>ts. legal_turns b c roll = Some ts \<and> sorted ts \<and> distinct ts \<and> (\<forall>t. t \<in> set ts \<longleftrightarrow> complete_turn b c roll t)"
proof -
  obtain parts where parts: "those (map (\<lambda>dice. extend_turns b c dice []) (dice_orders roll)) = Some parts"
    and seqs: "\<And>t. t \<in> set (concat parts) \<longleftrightarrow> (\<exists>ds \<in> set (dice_orders roll). playable b c ds t \<and> stuck_after b c ds t)"
    using searched_turns [OF wf roll] by blast
  define L where "L = foldr max (map length (concat parts)) 0"
  define S where "S = filter (\<lambda>s. length s = L) (concat parts)"
  note long = longest_turns [OF seqs L_def]
  have S: "t \<in> set S \<longleftrightarrow> roll_play b c roll t \<and> (\<forall>t'. roll_play b c roll t' \<longrightarrow> length t' \<le> length t)" for t
    using long [of t] by (auto simp: S_def)
  have SL: "t \<in> set S \<Longrightarrow> length t = L" for t by (simp add: S_def)
  let ?hi = "max (fst roll) (snd roll)"
  have hi: "1 \<le> ?hi" "?hi \<le> 6" using roll by (auto simp: roll_ok_def split: prod.splits)
  obtain high where high: "hops_for_die b c ?hi = Some high" "\<And>h. h \<in> set high \<longleftrightarrow> hop_ok b c ?hi h"
    using hops_for_die_ok [OF hi] by blast
  have fin: "sorted (remdups_adj (sort xs)) \<and> distinct (remdups_adj (sort xs)) \<and> set (remdups_adj (sort xs)) = set xs"
    for xs :: "hop list list" by (simp add: sorted_remdups_adj distinct_remdups_adj)
  have none: "L = 0 \<Longrightarrow> \<not> complete_turn b c roll t" for t
    using S [of t] SL [of t] by (auto simp: complete_turn_def)
  have more: "L \<noteq> 0 \<Longrightarrow> \<not> (L = 1 \<and> fst roll \<noteq> snd roll) \<Longrightarrow> t \<in> set S \<longleftrightarrow> complete_turn b c roll t" for t
    using S [of t] SL [of t] by (auto simp: complete_turn_def)
  have one: "L = 1 \<Longrightarrow> fst roll \<noteq> snd roll \<Longrightarrow>
      t \<in> set (if high \<noteq> [] then filter (\<lambda>s. s ! 0 \<in> set high) S else S) \<longleftrightarrow> complete_turn b c roll t" for t
  proof -
    assume L: "L = 1" "fst roll \<noteq> snd roll"
    have ne: "high \<noteq> [] \<longleftrightarrow> (\<exists>h. hop_ok b c ?hi h)" using high(2) by (cases high) auto
    show ?thesis
    proof (cases "t \<in> set S")
      case True
      then have "length t = 1" using SL L by simp
      moreover from this have "hd t = t ! 0" "t \<noteq> []" by (cases t; simp)+
      ultimately show ?thesis using S [of t] True L ne high(2) by (auto simp: complete_turn_def)
    next
      case False
      then show ?thesis using S [of t] by (auto simp: complete_turn_def split: if_splits)
    qed
  qed
  have eq: "legal_turns b c roll =
      (if L = 0 then Some []
       else if L = 1 \<and> fst roll \<noteq> snd roll
         then Some (remdups_adj (sort (if high \<noteq> [] then filter (\<lambda>s. s ! 0 \<in> set high) S else S)))
       else Some (remdups_adj (sort S)))"
    by (simp add: legal_turns_def parts Let_def high L_def S_def)
  have "\<exists>xs. legal_turns b c roll = Some (remdups_adj (sort xs)) \<and> (\<forall>t. t \<in> set xs \<longleftrightarrow> complete_turn b c roll t)"
  proof (cases "L = 0")
    case True
    with eq none show ?thesis by (intro exI [of _ "[]"]) simp
  next
    case False
    then show ?thesis
    proof (cases "L = 1 \<and> fst roll \<noteq> snd roll")
      case True
      with one eq False show ?thesis by (metis (no_types, lifting))
    next
      case many: False
      with more eq False show ?thesis by (metis (no_types, lifting))
    qed
  qed
  with fin show ?thesis by metis
qed

section \<open>Matches\<close>

text \<open>The board of a stored history and the side to move, whose color is the parity of the turns.\<close>

definition bg_replay :: "bg_turn list \<Rightarrow> (bg_board \<times> bg_color) option" where
  "bg_replay ts = fold_opt replay_turn (bg_start, BgWhite) ts"

definition parity_color :: "nat \<Rightarrow> bg_color" where
  "parity_color n = (if even n then BgWhite else BgRed)"

lemma bg_board_of_replay: "bg_board_of s = map_option fst (bg_replay (bg_turns s))"
  by (simp add: bg_board_of_def bg_replay_def)

lemma bg_turn_of_parity: "bg_turn_of s = parity_color (length (bg_turns s))"
  by (simp add: bg_turn_of_def parity_color_def)

lemma parity_color_Suc [simp]: "parity_color (Suc n) = bg_other (parity_color n)"
  by (simp add: parity_color_def)

lemma bg_replay_snoc:
  "bg_replay (ts @ [t]) = Option.bind (bg_replay ts) (\<lambda>(b, c). map_option (\<lambda>b. (b, bg_other c)) (play_hops c b (bt_hops t)))"
  by (simp add: bg_replay_def fold_opt_snoc replay_turn_def split_def)

lemma bg_replay_color: "bg_replay ts = Some (b, c) \<Longrightarrow> c = parity_color (length ts)"
proof (induction ts arbitrary: b c rule: rev_induct)
  case Nil
  then show ?case by (simp add: bg_replay_def parity_color_def)
next
  case (snoc t ts)
  then show ?case by (auto simp: bg_replay_snoc bind_eq_Some_conv)
qed

lemma sum_upto_list: "(\<Sum>p<(n::nat). f p) = (\<Sum>p\<leftarrow>[0..<n]. (f p :: nat))"
  by (simp add: interv_sum_list_conv_sum_set_nat atLeast0LessThan)

lemma bg_start_wf: "bg_wf bg_start"
proof -
  have "\<forall>n \<in> set (bg_points bg_start). -128 < n \<and> n < 128" by code_simp
  moreover have "length (bg_points bg_start) = 24" by code_simp
  moreover have "(\<Sum>p\<leftarrow>[0..<24]. bg_count bg_start BgWhite p) = 15" "(\<Sum>p\<leftarrow>[0..<24]. bg_count bg_start BgRed p) = 15"
    by code_simp+
  moreover have "bg_bar bg_start c = 0" "bg_off bg_start c = 0" for c by (simp_all add: bg_start_def)
  ultimately show ?thesis unfolding bg_wf_def checkers_def sum_upto_list by simp
qed

lemma playable_one: "bg_wf b \<Longrightarrow> 1 \<le> d \<Longrightarrow> hop_ok b c d h \<Longrightarrow> playable b c (d # ds) [h]"
  using apply_hop_ready [of b c h] hop_ok_ready [of d b c h] by auto

text \<open>A roll can be played exactly when one of its dice can.\<close>

lemma complete_turn_exists:
  assumes wf: "bg_wf b" and roll: "roll_ok roll" and hop: "hop_ok b c (fst roll) h \<or> hop_ok b c (snd roll) h"
  shows "\<exists>t. complete_turn b c roll t"
proof -
  obtain r0 r1 where r: "roll = (r0, r1)" by (cases roll)
  have d: "1 \<le> r0" "r0 \<le> 6" "1 \<le> r1" "r1 \<le> 6" using roll by (simp_all add: r roll_ok_def)
  have one: "roll_play b c roll [h]"
  proof -
    note play = playable_one [OF wf d(1), of c h] playable_one [OF wf d(3), of c h]
    show ?thesis using hop play by (auto simp: roll_play_def dice_orders_def r numeral_eq_Suc)
  qed
  obtain ts where ts: "legal_turns b c roll = Some ts" "\<And>t. t \<in> set ts \<longleftrightarrow> complete_turn b c roll t"
    using legal_turns_ok [OF wf roll] by blast
  obtain parts where parts: "\<And>t. t \<in> set (concat parts) \<longleftrightarrow> (\<exists>ds \<in> set (dice_orders roll). playable b c ds t \<and> stuck_after b c ds t)"
    using searched_turns [OF wf roll] by blast
  define L where "L = foldr max (map length (concat parts)) 0"
  note long = longest_turns [OF parts L_def]
  have "\<exists>t. roll_play b c roll t \<and> (\<forall>t'. roll_play b c roll t' \<longrightarrow> length t' \<le> length t)"
  proof (cases "L = 0")
    case True
    obtain ds where ds: "ds \<in> set (dice_orders roll)" "playable b c ds [h]" using one by (auto simp: roll_play_def)
    from playable_extends [OF ds(2)] obtain t where t: "playable b c ds t" "stuck_after b c ds t" "1 \<le> length t" by auto
    then have "t \<in> set (concat parts)" using parts ds(1) by blast
    then have "length t \<le> L" unfolding L_def by (intro foldr_max_ge) simp
    with True t(3) show ?thesis by simp
  next
    case False
    then have "L \<in> set (map length (concat parts))" unfolding L_def by (rule foldr_max_in)
    then obtain t where "t \<in> set (concat parts)" "length t = L" by auto
    with long show ?thesis by blast
  qed
  then obtain t where t: "roll_play b c roll t" "\<forall>t'. roll_play b c roll t' \<longrightarrow> length t' \<le> length t" by blast
  show ?thesis
  proof (cases "r0 \<noteq> r1 \<and> length t = 1 \<and> (\<exists>h. hop_ok b c (max r0 r1) h)")
    case True
    then obtain g where g: "hop_ok b c (max r0 r1) g" by blast
    have "1 \<le> max r0 r1" using d by simp
    from playable_one [OF wf this g] have "playable b c (max r0 r1 # ds) [g]" for ds .
    then have "roll_play b c roll [g]" using True by (auto simp: roll_play_def dice_orders_def r max_def split: if_splits)
    with t True g show ?thesis by (intro exI [of _ "[g]"]) (auto simp: complete_turn_def r)
  next
    case False
    have "1 \<le> length t" using t(2) one by fastforce
    with t False show ?thesis by (intro exI [of _ t]) (auto simp: complete_turn_def r)
  qed
qed

lemma bg_start_playable:
  assumes "1 \<le> d" "d \<le> 6"
  shows "\<exists>h. hop_ok bg_start BgWhite d h"
proof -
  have ne: "list_all (\<lambda>d. case hops_for_die bg_start BgWhite d of Some (h # _) \<Rightarrow> True | _ \<Rightarrow> False) [1, 2, 3, 4, 5, 6]"
    by code_simp
  have "d \<in> set [1, 2, 3, 4, 5, 6]" using assms by (auto simp: le_Suc_eq numeral_eq_Suc)
  with ne have "case hops_for_die bg_start BgWhite d of Some (h # _) \<Rightarrow> True | _ \<Rightarrow> False" unfolding list_all_iff by blast
  then obtain h hs where "hops_for_die bg_start BgWhite d = Some (h # hs)" by (auto split: option.splits list.splits)
  with hops_for_die_ok [OF assms, of bg_start BgWhite] show ?thesis by (metis list.set_intros(1) option.inject)
qed

text \<open>The states of a match: a fresh one, and what the accepted turns and the server's rolls make of it.\<close>

inductive bg_reach :: "bg_state \<Rightarrow> bool" where
  reach_new: "bg_new coin draws challenger claimer = Some s \<Longrightarrow> bg_reach s"
| reach_turn: "bg_reach s \<Longrightarrow> apply_turn s hops = Ok (s', out) \<Longrightarrow> bg_reach s'"
| reach_roll: "bg_reach s \<Longrightarrow> roll_next draws s = Ok s' \<Longrightarrow> bg_reach s'"

definition bg_inv :: "bg_state \<Rightarrow> bool" where
  "bg_inv s \<longleftrightarrow> (\<exists>b. bg_replay (bg_turns s) = Some (b, bg_turn_of s) \<and> bg_wf b \<and>
     (case bg_next_roll s of
        None \<Rightarrow> True
      | Some roll \<Rightarrow> roll_ok roll \<and> (\<exists>t. complete_turn b (bg_turn_of s) roll t) \<and> (\<forall>c. bg_off b c \<noteq> 15)))"

lemma bg_inv_board:
  assumes "bg_inv s"
  obtains b where "bg_replay (bg_turns s) = Some (b, bg_turn_of s)" "bg_wf b" "bg_board_of s = Some b"
  using assms by (auto simp: bg_inv_def bg_board_of_replay)

lemma die_of_range: "1 \<le> die_of raw \<and> die_of raw \<le> 6"
  using gen_upto_le [of 5 raw] by (simp add: die_of_def)

lemma roll_of_ok: "roll_ok (roll_of d)"
  using die_of_range by (auto simp: roll_of_def roll_ok_def split: prod.splits)

lemma opening_roll_ok: "opening_roll draws = Some roll \<Longrightarrow> roll_ok roll \<and> fst roll \<noteq> snd roll"
  by (induction draws) (auto simp: Let_def roll_of_ok split: if_splits)

lemma bg_new_inv: "bg_new coin draws x y = Some s \<Longrightarrow> bg_inv s"
proof -
  assume new: "bg_new coin draws x y = Some s"
  then obtain roll where roll: "opening_roll draws = Some roll" and s: "bg_turns s = []" "bg_next_roll s = Some roll"
    by (auto simp: bg_new_def Let_def split: prod.splits)
  have ok: "roll_ok roll" using opening_roll_ok [OF roll] by blast
  then have "1 \<le> fst roll" "fst roll \<le> 6" by (auto simp: roll_ok_def split: prod.splits)
  then obtain h where "hop_ok bg_start BgWhite (fst roll) h" using bg_start_playable by blast
  with complete_turn_exists [OF bg_start_wf ok] have "\<exists>t. complete_turn bg_start BgWhite roll t" by blast
  moreover have "bg_off bg_start c \<noteq> 15" for c by (simp add: bg_start_def)
  ultimately show ?thesis using ok bg_start_wf s by (simp add: bg_inv_def bg_replay_def bg_turn_of_def)
qed

text \<open>The pending roll's turns, and the hits of a playable sequence.\<close>

lemma roll_play_board:
  assumes "bg_wf b" and "roll_ok roll" and "roll_play b c roll hs"
  shows "\<exists>b'. play_hops c b hs = Some b' \<and> bg_wf b'"
proof -
  obtain ds where ds: "ds \<in> set (dice_orders roll)" "playable b c ds hs" using assms(3) by (auto simp: roll_play_def)
  show ?thesis by (rule playable_board [OF assms(1) roll_ok_orders [OF assms(2) ds(1)] ds(2)])
qed

lemma hop_hits_defined: "play_hops c b hs = Some b' \<Longrightarrow> \<exists>hits. hop_hits c b hs = Some hits \<and> length hits = length hs"
proof (induction hs arbitrary: b)
  case (Cons h hs)
  then obtain m hit where m: "apply_hop b c h = Some (m, hit)" "play_hops c m hs = Some b'"
    by (auto simp: play_hops_def bind_eq_Some_conv)
  with Cons.IH [OF m(2)] show ?case by auto
qed simp

lemma off_le: "bg_wf b \<Longrightarrow> bg_off b c \<le> 15"
  using count_le_checkers [of 0 b c] bg_wf_checkers [of b c] by simp

lemma bg_status_board: "bg_board_of s = Some b \<Longrightarrow>
    bg_status_of s = Some (if bg_off b BgWhite = 15 then BgWin BgWhite else if bg_off b BgRed = 15 then BgWin BgRed
      else if 100 \<le> bg_stalled s then BgDraw else BgOngoing)"
  by (simp add: bg_status_of_def)

lemma complete_turn_board:
  assumes inv: "bg_inv s" and b: "bg_board_of s = Some b" and roll: "roll_ok roll"
    and t: "complete_turn b (bg_turn_of s) roll hs"
  shows "\<exists>b'. play_hops (bg_turn_of s) b hs = Some b' \<and> bg_wf b' \<and>
    bg_replay (bg_turns s @ [\<lparr>bt_roll = roll, bt_hops = hs\<rparr>]) = Some (b', bg_other (bg_turn_of s))"
proof -
  obtain b0 where b0: "bg_replay (bg_turns s) = Some (b0, bg_turn_of s)" "bg_wf b0" "bg_board_of s = Some b0"
    using bg_inv_board [OF inv] by blast
  then have wf: "bg_wf b" and rep: "bg_replay (bg_turns s) = Some (b, bg_turn_of s)" using b by simp_all
  have "roll_play b (bg_turn_of s) roll hs" using t by (simp add: complete_turn_def)
  with roll_play_board [OF wf roll] obtain b' where b': "play_hops (bg_turn_of s) b hs = Some b'" "bg_wf b'" by blast
  with rep show ?thesis by (simp add: bg_replay_snoc)
qed

text \<open>\<open>apply_turn\<close> on a state of a match, by cases.\<close>

lemma apply_turn_cases:
  assumes inv: "bg_inv s" and b: "bg_board_of s = Some b"
  shows "apply_turn s hops =
    (case bg_next_roll s of
       None \<Rightarrow> Err BgNoRoll
     | Some roll \<Rightarrow>
         if complete_turn b (bg_turn_of s) roll hops
         then (let s' = s\<lparr>bg_turns := bg_turns s @ [\<lparr>bt_roll = roll, bt_hops = hops\<rparr>], bg_next_roll := None\<rparr>;
                   st = the (bg_status_of s')
               in Ok (s', \<lparr>bo_color = bg_turn_of s, bo_roll = roll, bo_hits = the (hop_hits (bg_turn_of s) b hops),
                    bo_finished = (st \<noteq> BgOngoing),
                    bo_winner = (case st of BgWin c \<Rightarrow> Some c | _ \<Rightarrow> None)\<rparr>))
         else Err BgIllegal)"
proof (cases "bg_next_roll s")
  case None
  then show ?thesis by (simp add: apply_turn_def)
next
  case (Some roll)
  then have roll: "roll_ok roll" and wf: "bg_wf b" using inv b by (auto simp: bg_inv_def bg_board_of_replay)
  let ?c = "bg_turn_of s"
  obtain ts where ts: "legal_turns b ?c roll = Some ts" "\<And>t. t \<in> set ts \<longleftrightarrow> complete_turn b ?c roll t"
    using legal_turns_ok [OF wf roll] by blast
  show ?thesis
  proof (cases "complete_turn b ?c roll hops")
    case False
    with ts Some b show ?thesis by (simp add: apply_turn_def ensure_def)
  next
    case True
    let ?s' = "s\<lparr>bg_turns := bg_turns s @ [\<lparr>bt_roll = roll, bt_hops = hops\<rparr>], bg_next_roll := None\<rparr>"
    obtain b' where b': "play_hops ?c b hops = Some b'"
      "bg_replay (bg_turns s @ [\<lparr>bt_roll = roll, bt_hops = hops\<rparr>]) = Some (b', bg_other ?c)"
      using complete_turn_board [OF inv b roll True] by blast
    obtain hits where hits: "hop_hits ?c b hops = Some hits" using hop_hits_defined [OF b'(1)] by blast
    have "bg_board_of ?s' = Some b'" using b'(2) by (simp add: bg_board_of_replay)
    then obtain st where st: "bg_status_of ?s' = Some st" using bg_status_board by blast
    show ?thesis using True ts Some b hits st
      by (cases st) (simp_all add: apply_turn_def ensure_def Let_def)
  qed
qed

lemma apply_turn_Ok:
  assumes inv: "bg_inv s" and ok: "apply_turn s hops = Ok (s', out)"
  shows "bg_inv s' \<and> bg_next_roll s' = None"
proof -
  obtain b where b: "bg_replay (bg_turns s) = Some (b, bg_turn_of s)" "bg_wf b" "bg_board_of s = Some b"
    using bg_inv_board [OF inv] by blast
  obtain roll where roll: "bg_next_roll s = Some roll" "complete_turn b (bg_turn_of s) roll hops"
    and s': "s' = s\<lparr>bg_turns := bg_turns s @ [\<lparr>bt_roll = roll, bt_hops = hops\<rparr>], bg_next_roll := None\<rparr>"
    using ok unfolding apply_turn_cases [OF inv b(3)] by (auto simp: Let_def split: option.splits if_splits)
  have rok: "roll_ok roll" using inv roll(1) b by (auto simp: bg_inv_def)
  obtain b' where "bg_wf b'" "bg_replay (bg_turns s @ [\<lparr>bt_roll = roll, bt_hops = hops\<rparr>]) = Some (b', bg_other (bg_turn_of s))"
    using complete_turn_board [OF inv b(3) rok roll(2)] by blast
  then show ?thesis by (simp add: s' bg_inv_def bg_turn_of_parity)
qed

text \<open>A forced pass changes the side to move and nothing else of the position.\<close>

lemma bg_inv_pass:
  assumes "bg_inv s" and "bg_board_of s = Some b"
  shows "bg_inv (s\<lparr>bg_turns := bg_turns s @ [\<lparr>bt_roll = roll, bt_hops = []\<rparr>], bg_next_roll := None\<rparr>) \<and>
    bg_board_of (s\<lparr>bg_turns := bg_turns s @ [\<lparr>bt_roll = roll, bt_hops = []\<rparr>]\<rparr>) = Some b"
  using assms by (auto simp: bg_inv_def bg_board_of_replay bg_replay_snoc play_hops_def bg_turn_of_parity)

definition without_roll :: "bg_state \<Rightarrow> bg_state" where
  "without_roll s = s\<lparr>bg_next_roll := None\<rparr>"

text \<open>What \<open>roll_next\<close> leaves: the passes of rolls that could not be played, and then the end of the match
  or a roll that can be played.\<close>

definition forced_passes :: "bg_board \<Rightarrow> bg_state \<Rightarrow> bg_turn list \<Rightarrow> bool" where
  "forced_passes b s ps \<longleftrightarrow> (\<forall>i < length ps. bt_hops (ps ! i) = [] \<and> roll_ok (bt_roll (ps ! i)) \<and>
     (\<forall>t. \<not> complete_turn b (parity_color (length (bg_turns s) + i)) (bt_roll (ps ! i)) t))"

definition rolled :: "bg_board \<Rightarrow> bg_state \<Rightarrow> bg_state \<Rightarrow> bool" where
  "rolled b s s' \<longleftrightarrow> (\<exists>ps. bg_turns s' = bg_turns s @ ps \<and> forced_passes b s ps) \<and>
     bg_board_of s' = Some b \<and> bg_version s' = bg_version s \<and> bg_white s' = bg_white s \<and> bg_red s' = bg_red s \<and>
     (case bg_next_roll s' of
        None \<Rightarrow> bg_is_finished s' = Some True
      | Some roll \<Rightarrow> bg_is_finished s' = Some False \<and> roll_ok roll \<and> (\<exists>t. complete_turn b (bg_turn_of s') roll t))"

lemma bg_finished_board: "bg_board_of s = Some b \<Longrightarrow>
    bg_is_finished s = Some (bg_off b BgWhite = 15 \<or> bg_off b BgRed = 15 \<or> 100 \<le> bg_stalled s)"
  by (simp add: bg_is_finished_def bg_status_board)

lemma bg_fields [simp]:
  "bg_board_of (s\<lparr>bg_next_roll := r\<rparr>) = bg_board_of s" "bg_turn_of (s\<lparr>bg_next_roll := r\<rparr>) = bg_turn_of s"
  "bg_stalled (s\<lparr>bg_next_roll := r\<rparr>) = bg_stalled s" "bg_is_finished (s\<lparr>bg_next_roll := r\<rparr>) = bg_is_finished s"
  by (simp_all add: bg_board_of_def bg_turn_of_def bg_stalled_def bg_is_finished_def bg_status_of_def)

lemma forced_passes_Cons:
  assumes "roll_ok roll" and "\<And>t. \<not> complete_turn b (bg_turn_of s) roll t"
    and "forced_passes b (s\<lparr>bg_turns := bg_turns s @ [\<lparr>bt_roll = roll, bt_hops = []\<rparr>]\<rparr>) ps"
  shows "forced_passes b s (\<lparr>bt_roll = roll, bt_hops = []\<rparr> # ps)"
  unfolding forced_passes_def
proof (intro allI impI)
  fix i assume i: "i < length (\<lparr>bt_roll = roll, bt_hops = []\<rparr> # ps)"
  let ?p = "(\<lparr>bt_roll = roll, bt_hops = []\<rparr> # ps) ! i"
  show "bt_hops ?p = [] \<and> roll_ok (bt_roll ?p) \<and>
      (\<forall>t. \<not> complete_turn b (parity_color (length (bg_turns s) + i)) (bt_roll ?p) t)"
  proof (cases i)
    case 0
    with assms(1,2) show ?thesis by (simp add: bg_turn_of_parity)
  next
    case (Suc j)
    with i assms(3) show ?thesis by (auto simp: forced_passes_def)
  qed
qed

lemma bg_stalled_pass: "bg_stalled (s\<lparr>bg_turns := bg_turns s @ [\<lparr>bt_roll = roll, bt_hops = []\<rparr>]\<rparr>) = Suc (bg_stalled s)"
  by (simp add: bg_stalled_def)

text \<open>The loop: never a panic, and a result whenever the draws reach the stall cap.\<close>

lemma roll_next_ok:
  assumes "bg_inv (without_roll s)" and "bg_board_of s = Some b"
  shows "roll_next draws s \<noteq> Panic \<and> (\<forall>s'. roll_next draws s = Ok s' \<longrightarrow> rolled b s s' \<and> bg_inv s') \<and>
    (100 - bg_stalled s \<le> length draws \<longrightarrow> (\<exists>s'. roll_next draws s = Ok s'))"
  using assms
proof (induction draws arbitrary: s)
  case (Nil s)
  have fin: "bg_is_finished s = Some (bg_off b BgWhite = 15 \<or> bg_off b BgRed = 15 \<or> 100 \<le> bg_stalled s)"
    using bg_finished_board [OF Nil(2)] .
  have "rolled b s (s\<lparr>bg_next_roll := None\<rparr>)" if "bg_is_finished s = Some True"
    using that Nil(2) by (auto simp: rolled_def forced_passes_def intro: exI [of _ "[]"])
  moreover have "bg_inv (s\<lparr>bg_next_roll := None\<rparr>)" using Nil(1) by (simp add: without_roll_def)
  ultimately show ?case using fin by (auto simp: roll_next.simps)
next
  case (Cons d draws s)
  have fin: "bg_is_finished s = Some (bg_off b BgWhite = 15 \<or> bg_off b BgRed = 15 \<or> 100 \<le> bg_stalled s)"
    using bg_finished_board [OF Cons.prems(2)] .
  have inv0: "bg_inv (s\<lparr>bg_next_roll := None\<rparr>)" using Cons.prems(1) by (simp add: without_roll_def)
  have wf: "bg_wf b" using inv0 Cons.prems(2) by (auto simp: bg_inv_def bg_board_of_replay)
  obtain ts where ts: "legal_turns b (bg_turn_of s) (roll_of d) = Some ts"
    "\<And>t. t \<in> set ts \<longleftrightarrow> complete_turn b (bg_turn_of s) (roll_of d) t"
    using legal_turns_ok [OF wf roll_of_ok] by blast
  show ?case
  proof (cases "the (bg_is_finished s)")
    case True
    then have "bg_is_finished s = Some True" using fin by simp
    then have "rolled b s (s\<lparr>bg_next_roll := None\<rparr>)"
      using Cons.prems(2) by (auto simp: rolled_def forced_passes_def intro: exI [of _ "[]"])
    with \<open>bg_is_finished s = Some True\<close> inv0 show ?thesis by (simp add: roll_next.simps)
  next
    case False
    then have go: "bg_is_finished s = Some False" using fin by simp
    show ?thesis
    proof (cases "ts = []")
      case True
      let ?s1 = "s\<lparr>bg_turns := bg_turns s @ [\<lparr>bt_roll = roll_of d, bt_hops = []\<rparr>]\<rparr>"
      have step: "roll_next (d # draws) s = roll_next draws ?s1"
        using go Cons.prems(2) ts(1) True by (simp add: roll_next.simps [of "d # draws"])
      have none: "\<not> complete_turn b (bg_turn_of s) (roll_of d) t" for t using ts(2) True by auto
      have inv1: "bg_inv (without_roll ?s1)" "bg_board_of ?s1 = Some b"
        using bg_inv_pass [OF inv0, of b "roll_of d"] Cons.prems(2) bg_inv_pass [of "s\<lparr>bg_next_roll := None\<rparr>" b "roll_of d"]
        by (simp_all add: without_roll_def bg_board_of_def)
      have "rolled b s s'" if r1: "rolled b ?s1 s'" for s'
      proof -
        obtain ps where ps: "bg_turns s' = bg_turns ?s1 @ ps" "forced_passes b ?s1 ps" using r1 by (auto simp: rolled_def)
        have "forced_passes b s (\<lparr>bt_roll = roll_of d, bt_hops = []\<rparr> # ps)"
          by (rule forced_passes_Cons [OF roll_of_ok none ps(2)])
        moreover have "bg_turns s' = bg_turns s @ (\<lparr>bt_roll = roll_of d, bt_hops = []\<rparr> # ps)" using ps(1) by simp
        ultimately show ?thesis using r1 unfolding rolled_def by (intro conjI exI [of _ "\<lparr>bt_roll = roll_of d, bt_hops = []\<rparr> # ps"]) simp_all
      qed
      with Cons.IH [OF inv1] show ?thesis unfolding step bg_stalled_pass by auto
    next
      case False
      let ?s1 = "s\<lparr>bg_next_roll := Some (roll_of d)\<rparr>"
      have step: "roll_next (d # draws) s = Ok ?s1"
        using go Cons.prems(2) ts(1) False by (simp add: roll_next.simps [of "d # draws"])
      obtain t where t: "complete_turn b (bg_turn_of s) (roll_of d) t" using ts(2) False by (cases ts) auto
      then have "rolled b s ?s1"
        using go Cons.prems(2) roll_of_ok by (auto simp: rolled_def forced_passes_def intro: exI [of _ "[]"])
      moreover have "\<forall>c. bg_off b c \<noteq> 15"
      proof
        fix c show "bg_off b c \<noteq> 15" using go fin by (cases c) auto
      qed
      then have "bg_inv ?s1" using inv0 t roll_of_ok Cons.prems(2) by (auto simp: bg_inv_def bg_board_of_replay)
      ultimately show ?thesis unfolding step by auto
    qed
  qed
qed

lemma bg_inv_without_roll: "bg_inv s \<Longrightarrow> bg_inv (without_roll s)"
  by (auto simp: bg_inv_def without_roll_def)

lemma bg_reach_inv: "bg_reach s \<Longrightarrow> bg_inv s"
proof (induction rule: bg_reach.induct)
  case (reach_new coin draws challenger claimer s)
  then show ?case by (rule bg_new_inv)
next
  case (reach_turn s hops s' out)
  then show ?case using apply_turn_Ok by blast
next
  case (reach_roll s draws s')
  obtain b where b: "bg_board_of s = Some b" using bg_inv_board [OF reach_roll.IH] by blast
  show ?case using roll_next_ok [OF bg_inv_without_roll [OF reach_roll.IH] b, of draws] reach_roll.hyps by blast
qed

text \<open>A turn never touches what the opponent has borne off.\<close>

lemma apply_hop_off:
  assumes "bg_wf b" and "1 \<le> d" and "hop_ok b c d h" and "apply_hop b c h = Some (b', hit)"
  shows "bg_wf b' \<and> bg_off b' (bg_other c) = bg_off b (bg_other c)"
  using apply_hop_ready [OF assms(1) hop_ok_ready [OF assms(2,3)]] assms(4)
  by (auto simp: hop_effect_def split: prod.splits)

lemma play_hops_off:
  "bg_wf b \<Longrightarrow> dice_ok ds \<Longrightarrow> playable b c ds hs \<Longrightarrow> play_hops c b hs = Some b' \<Longrightarrow>
     bg_off b' (bg_other c) = bg_off b (bg_other c)"
proof (induction b c ds hs rule: playable.induct)
  case (3 b c d ds h hs)
  obtain m hit where m: "apply_hop b c h = Some (m, hit)" "play_hops c m hs = Some b'"
    using "3.prems"(4) by (auto simp: play_hops_def bind_eq_Some_conv)
  have m_off: "bg_wf m \<and> bg_off m (bg_other c) = bg_off b (bg_other c)"
    using "3.prems" m by (intro apply_hop_off) auto
  with "3.prems" m show ?case by (auto intro: "3.IH" [OF m(1) refl, THEN trans])
qed (simp_all add: play_hops_def)

lemma apply_turn_complete:
  assumes inv: "bg_inv s" and b: "bg_board_of s = Some b" and next_roll: "bg_next_roll s = Some roll"
    and t: "complete_turn b (bg_turn_of s) roll hops"
  shows "\<exists>b' hits. play_hops (bg_turn_of s) b hops = Some b' \<and> bg_wf b' \<and> hop_hits (bg_turn_of s) b hops = Some hits \<and>
    (let s' = s\<lparr>bg_turns := bg_turns s @ [\<lparr>bt_roll = roll, bt_hops = hops\<rparr>], bg_next_roll := None\<rparr>;
         won = (bg_off b' (bg_turn_of s) = CHECKERS_PER_SIDE)
     in apply_turn s hops = Ok (s', \<lparr>bo_color = bg_turn_of s, bo_roll = roll, bo_hits = hits, bo_finished = won,
          bo_winner = (if won then Some (bg_turn_of s) else None)\<rparr>) \<and>
        bg_board_of s' = Some b' \<and> bg_turn_of s' = bg_other (bg_turn_of s))"
proof -
  let ?c = "bg_turn_of s"
  let ?s' = "s\<lparr>bg_turns := bg_turns s @ [\<lparr>bt_roll = roll, bt_hops = hops\<rparr>], bg_next_roll := None\<rparr>"
  have rok: "roll_ok roll" and wf: "bg_wf b" and off: "\<And>c. bg_off b c \<noteq> 15"
    using inv b next_roll by (auto simp: bg_inv_def bg_board_of_replay)
  obtain b' where b': "play_hops ?c b hops = Some b'" "bg_wf b'"
      "bg_replay (bg_turns s @ [\<lparr>bt_roll = roll, bt_hops = hops\<rparr>]) = Some (b', bg_other ?c)"
    using complete_turn_board [OF inv b rok t] by blast
  obtain hits where hits: "hop_hits ?c b hops = Some hits" using hop_hits_defined [OF b'(1)] by blast
  obtain ds where ds: "ds \<in> set (dice_orders roll)" "playable b ?c ds hops"
    using t by (auto simp: complete_turn_def roll_play_def)
  have off': "bg_off b' (bg_other ?c) \<noteq> 15"
    using play_hops_off [OF wf roll_ok_orders [OF rok ds(1)] ds(2) b'(1)] off by simp
  have board: "bg_board_of ?s' = Some b'" using b'(3) by (simp add: bg_board_of_replay)
  have "hops \<noteq> []" using t by (simp add: complete_turn_def)
  then have "bg_stalled ?s' = 0" by (simp add: bg_stalled_def)
  then have st: "bg_status_of ?s' = Some (if bg_off b' ?c = 15 then BgWin ?c else BgOngoing)"
    using bg_status_board [OF board] off' by (cases ?c) auto
  show ?thesis
    using b' hits board st t next_roll apply_turn_cases [OF inv b, of hops]
    by (auto simp: bg_turn_of_parity)
qed

section \<open>Pips\<close>

text \<open>The race score moves by the die, and by the distance a hit checker is sent back.\<close>

lemma pip_count_sum: "pip_count b c = bg_bar b c * 25 + (\<Sum>p<24. bg_count b c p * pips_of c p)"
  unfolding pip_count_def sum_upto_list by (cases c) (simp_all add: pips_of_def)

lemma pips_move:
  fixes f g :: "nat \<Rightarrow> nat"
  assumes "\<forall>q<n. g q = f q + (if q = to then 1 else 0) - (if q = from then 1 else 0)" and "from < n \<Longrightarrow> 0 < f from" and "from \<noteq> to"
  shows "(\<Sum>q<n. g q * w q) + (if from < n then w from else 0) = (\<Sum>q<n. f q * w q) + (if to < n then w to else 0)"
  using assms
proof (induction n)
  case (Suc n)
  have IH: "(\<Sum>q<n. g q * w q) + (if from < n then w from else 0) = (\<Sum>q<n. f q * w q) + (if to < n then w to else 0)"
    using Suc by auto
  have gn: "g n = f n + (if n = to then 1 else 0) - (if n = from then 1 else 0)" using Suc.prems(1) by simp
  show ?case
  proof (cases "n = from")
    case True
    then obtain k where "f n = Suc k" using Suc.prems(2) by (cases "f n") auto
    with True gn IH Suc.prems(3) show ?thesis by auto
  next
    case False
    with gn IH show ?thesis by (auto simp: less_Suc_eq)
  qed
qed simp

lemma pips_hit:
  fixes f g :: "nat \<Rightarrow> nat"
  assumes "\<forall>q<n. g q = (if q = to then 0 else f q)"
  shows "(\<Sum>q<n. g q * w q) + (if to < n then f to * w to else 0) = (\<Sum>q<n. f q * w q)"
  using assms by (induction n) (auto simp: less_Suc_eq)

lemma pips_of_other: "p < 24 \<Longrightarrow> pips_of (bg_other c) p = 25 - pips_of c p"
  by (cases c) (simp_all add: pips_of_def)

lemma hop_at_squares:
  assumes "hop_at b c die n (from, to)" and "1 \<le> die" and "n \<in> {1..25}"
  shows "(if from < 24 then pips_of c from = n \<and> 0 < bg_count b c from else n = 25 \<and> from = bg_BAR) \<and>
    (if die < n then to < 24 \<and> pips_of c to = n - die \<and> bg_count b (bg_other c) to \<le> 1 else to = bg_OFF)"
proof
  show "if from < 24 then pips_of c from = n \<and> 0 < bg_count b c from else n = 25 \<and> from = bg_BAR"
  proof (cases "n = 25")
    case True
    then show ?thesis using assms(1) by (simp add: hop_at_def pips_point_def)
  next
    case False
    then show ?thesis using assms(1,3) pips_of_point [of n c] by (auto simp: hop_at_def own_at_def)
  qed
  show "if die < n then to < 24 \<and> pips_of c to = n - die \<and> bg_count b (bg_other c) to \<le> 1 else to = bg_OFF"
  proof (cases "die < n")
    case True
    then have m: "1 \<le> n - die" "n - die \<le> 24" using assms(2,3) by auto
    have "to": "to = pips_point c (n - die)" "own_at b (bg_other c) (25 - (n - die)) \<le> 1"
      using True assms(1) by (simp_all add: hop_at_def)
    with pips_of_point [OF m, of c] landing_open_pips [OF m, of b c] True show ?thesis by (simp add: landing_open_def)
  qed (use assms(1) in \<open>simp add: hop_at_def\<close>)
qed

lemma hop_pips:
  assumes wf: "bg_wf b" and die: "1 \<le> die" and n: "n \<in> {1..25}" "hop_at b c die n hop"
    and eff: "hop_effect b c hop b' hit" and ready: "hop_ready b c hop"
  shows "pip_count b' c + min die n = pip_count b c \<and>
    pip_count b' (bg_other c) = pip_count b (bg_other c) + (if hit then n - die else 0)"
proof -
  obtain "from" "to" where hop: "hop = (from, to)" by (cases hop)
  note sq = hop_at_squares [OF n(2) [unfolded hop] die n(1)]
  have ne: "from \<noteq> to" and pos: "from < 24 \<Longrightarrow> 0 < bg_count b c from" and bar: "from = bg_BAR \<Longrightarrow> 0 < bg_bar b c"
    using ready by (auto simp: hop hop_ready_def)
  have own: "\<forall>q<24. bg_count b' c q = bg_count b c q + (if q = to then 1 else 0) - (if q = from then 1 else 0)"
    and opp: "\<forall>q<24. bg_count b' (bg_other c) q = (if q = to then 0 else bg_count b (bg_other c) q)"
    and bars: "bg_bar b' c = bg_bar b c - (if from = bg_BAR then 1 else 0)"
      "bg_bar b' (bg_other c) = bg_bar b (bg_other c) + (if hit then 1 else 0)"
    and hit: "hit = (to \<noteq> bg_OFF \<and> bg_count b (bg_other c) to = 1)"
    using eff unfolding hop hop_effect_def prod.case by blast+
  note moved = pips_move [of 24 "bg_count b' c" "bg_count b c" "to" "from" "pips_of c", OF own pos ne]
  note sent = pips_hit [of 24 "bg_count b' (bg_other c)" "to" "bg_count b (bg_other c)" "pips_of (bg_other c)", OF opp]
  show ?thesis
  proof
    show "pip_count b' c + min die n = pip_count b c"
    proof (cases "from < 24")
      case True
      then show ?thesis using moved sq bars(1) by (auto simp: pip_count_sum split: if_splits)
    next
      case False
      then have f: "from = bg_BAR" "n = 25" using sq by auto
      obtain k where k: "bg_bar b c = Suc k" using bar [OF f(1)] by (cases "bg_bar b c") auto
      with False f moved sq bars(1) show ?thesis by (auto simp: pip_count_sum split: if_splits)
    qed
    show "pip_count b' (bg_other c) = pip_count b (bg_other c) + (if hit then n - die else 0)"
    proof (cases "die < n")
      case True
      then have t: "to < 24" "pips_of c to = n - die" "bg_count b (bg_other c) to \<le> 1" using sq by auto
      have w: "pips_of (bg_other c) to = 25 - (n - die)" using pips_of_other [OF t(1)] t(2) by simp
      have "hit \<longleftrightarrow> bg_count b (bg_other c) to = 1" using hit t(1) by auto
      with t w sent bars(2) n(1) True show ?thesis
        by (cases "bg_count b (bg_other c) to") (auto simp: pip_count_sum)
    next
      case False
      then have "to = bg_OFF" "\<not> hit" using sq hit by auto
      with sent bars(2) show ?thesis by (simp add: pip_count_sum)
    qed
  qed
qed

interpretation bg_sides: two_sides bg_other "\<lambda>_. True" bg_user_of bg_color_of
proof
  show "bg_color_of s u = Some c \<Longrightarrow> True \<and> bg_user_of s c = u" for s u c
    by (auto simp: bg_color_of_def split: if_splits)
  show "bg_color_of s (bg_user_of s c) \<noteq> None" for s c by (cases c) (simp_all add: bg_color_of_def)
  show "d = c \<or> d = bg_other c" for c d by (cases c; cases d) simp_all
qed simp_all

section \<open>Properties\<close>


definition endgame :: bg_board where
  "endgame = \<lparr>bg_points = (replicate 24 0)[0 := 1, 3 := 1, 20 := -1], bg_bar = (\<lambda>_. 0),
     bg_off = (\<lambda>c. case c of BgWhite \<Rightarrow> 13 | BgRed \<Rightarrow> 14)\<rparr>"

lemma endgame_wf: "bg_wf endgame"
proof -
  have "list_all (\<lambda>n. -128 < n \<and> n < 128) (bg_points endgame)" "length (bg_points endgame) = 24"
    "(\<Sum>p\<leftarrow>[0..<24]. bg_count endgame BgWhite p) = 2" "(\<Sum>p\<leftarrow>[0..<24]. bg_count endgame BgRed p) = 1"
    by code_simp+
  moreover have "bg_bar endgame c = 0" "bg_off endgame BgWhite = 13" "bg_off endgame BgRed = 14" for c
    by (simp_all add: endgame_def)
  ultimately show ?thesis unfolding bg_wf_def checkers_def sum_upto_list by (simp add: list_all_iff)
qed


text \<open>A legal hop never panics, keeps fifteen checkers a side, moves the one checker and sends a lone
  opposing checker to the bar and nothing else; the mover's race score falls by the die (by the
  checker's distance when a larger die bears it off), and a hit costs the opponent the rest of the way.\<close>

theorem hop_moves_the_race:
  assumes "bg_wf b" and "1 \<le> die" "die \<le> 6" and "hop_ok b c die hop"
  shows "\<exists>b' hit n. apply_hop b c hop = Some (b', hit) \<and> bg_wf b' \<and> hop_effect b c hop b' hit \<and>
    fst hop = pips_point c n \<and> pip_count b' c + min die n = pip_count b c \<and>
    pip_count b' (bg_other c) = pip_count b (bg_other c) + (if hit then n - die else 0)"
proof -
  have ready: "hop_ready b c hop" using hop_ok_ready assms by blast
  obtain b' hit where b': "apply_hop b c hop = Some (b', hit)" "bg_wf b'" "hop_effect b c hop b' hit"
    using apply_hop_ready [OF assms(1) ready] by blast
  obtain n where n: "n \<in> {1..25}" "hop_at b c die n hop" using assms(4) unfolding hop_ok_def by blast
  then have "fst hop = pips_point c n" by (simp add: hop_at_def)
  with b' hop_pips [OF assms(1,2) n b'(3) ready] show ?thesis by blast
qed

theorem hop_moves_the_race_witness:
  "pip_count endgame BgWhite = 5 \<and>
   (\<exists>b' hit n. apply_hop endgame BgWhite (3, 1) = Some (b', hit) \<and> bg_wf b' \<and> 3 = pips_point BgWhite n \<and>
      pip_count b' BgWhite + min 2 n = 5)"
proof -
  have "case hops_for_die endgame BgWhite 2 of Some hs \<Rightarrow> (3, 1) \<in> set hs | None \<Rightarrow> False" by code_simp
  with hops_for_die_ok [of 2 endgame BgWhite] have "hop_ok endgame BgWhite 2 (3, 1)" by auto
  note hop = hop_moves_the_race [OF endgame_wf _ _ this]
  have "pip_count endgame BgWhite = 5" by code_simp
  with hop show ?thesis by fastforce
qed

text \<open>C36. Playing a turn in a match is refused without a pending roll and refused for anything but a complete
  turn of it, the state unchanged; a complete turn is recorded with its roll, clears the roll, gives the
  board the turn's hops and passes the move to the other side, and the match is won exactly when the
  mover has borne off all fifteen. It never panics.\<close>

theorem backgammon_turn_exact:
  assumes "bg_reach s" and "bg_board_of s = Some b"
  shows "(bg_next_roll s = None \<longrightarrow> apply_turn s hops = Err BgNoRoll) \<and>
    (\<forall>roll. bg_next_roll s = Some roll \<and> \<not> complete_turn b (bg_turn_of s) roll hops \<longrightarrow> apply_turn s hops = Err BgIllegal) \<and>
    (\<forall>roll. bg_next_roll s = Some roll \<and> complete_turn b (bg_turn_of s) roll hops \<longrightarrow>
       (\<exists>b' hits. play_hops (bg_turn_of s) b hops = Some b' \<and> bg_wf b' \<and> hop_hits (bg_turn_of s) b hops = Some hits \<and>
         (let s' = s\<lparr>bg_turns := bg_turns s @ [\<lparr>bt_roll = roll, bt_hops = hops\<rparr>], bg_next_roll := None\<rparr>;
              won = (bg_off b' (bg_turn_of s) = CHECKERS_PER_SIDE)
          in apply_turn s hops = Ok (s', \<lparr>bo_color = bg_turn_of s, bo_roll = roll, bo_hits = hits, bo_finished = won,
               bo_winner = (if won then Some (bg_turn_of s) else None)\<rparr>) \<and>
             bg_board_of s' = Some b' \<and> bg_turn_of s' = bg_other (bg_turn_of s))))"
proof -
  have inv: "bg_inv s" by (rule bg_reach_inv [OF assms(1)])
  show ?thesis
  proof (intro conjI allI impI)
    show "bg_next_roll s = None \<Longrightarrow> apply_turn s hops = Err BgNoRoll"
      by (simp add: apply_turn_def)
    show "bg_next_roll s = Some roll \<and> \<not> complete_turn b (bg_turn_of s) roll hops \<Longrightarrow> apply_turn s hops = Err BgIllegal" for roll
      using apply_turn_cases [OF inv assms(2), of hops] by simp
  qed (elim conjE, rule apply_turn_complete [OF inv assms(2)])
qed

definition fresh_match :: bg_state where
  "fresh_match = \<lparr>bg_version = 1, bg_revision = 0, bg_white = 1, bg_red = 2, bg_turns = [], bg_next_roll = Some (3, 1)\<rparr>"

lemma fresh_match_reached: "bg_reach fresh_match"
proof (rule reach_new)
  show "bg_new True [(4, 4), (2, 0)] 1 2 = Some fresh_match"
    by (simp add: bg_new_def fresh_match_def roll_of_def die_of_def gen_upto_def)
qed

lemma fresh_match_board: "bg_board_of fresh_match = Some bg_start"
  by (simp add: bg_board_of_def fresh_match_def)

theorem backgammon_turn_exact_witness:
  "bg_next_roll fresh_match = Some (3, 1) \<and> bg_turn_of fresh_match = BgWhite \<and>
   apply_turn fresh_match [] = Err BgIllegal \<and>
   (\<exists>hops s' out. complete_turn bg_start BgWhite (3, 1) hops \<and> apply_turn fresh_match hops = Ok (s', out) \<and> bg_turn_of s' = BgRed)"
proof -
  note exact = backgammon_turn_exact [OF fresh_match_reached fresh_match_board]
  have r: "bg_next_roll fresh_match = Some (3, 1)" "bg_turn_of fresh_match = BgWhite"
    by (simp_all add: fresh_match_def bg_turn_of_def)
  have "\<not> complete_turn bg_start BgWhite (3, 1) []" by (simp add: complete_turn_def)
  with exact [of "[]"] r have "apply_turn fresh_match [] = Err BgIllegal" by simp
  moreover obtain hops where "complete_turn bg_start BgWhite (3, 1) hops"
    using bg_reach_inv [OF fresh_match_reached] r
    by (auto simp: bg_inv_def bg_replay_def fresh_match_def)
  ultimately show ?thesis using r exact [of hops] by (fastforce simp: Let_def)
qed

text \<open>Rolling for the next mover always returns: with as many draws as the stall cap the loop ends, without
  a panic. It appends only forced passes, each of a roll the side to move could not play, and leaves
  either a finished match with no roll pending, or a running one with a roll that can be played.\<close>

theorem roll_next_returns:
  assumes "bg_reach s" and "bg_board_of s = Some b" and "STALL_PASSES \<le> length draws"
  shows "\<exists>s'. roll_next draws s = Ok s' \<and> rolled b s s'"
  using roll_next_ok [OF bg_inv_without_roll [OF bg_reach_inv [OF assms(1)]] assms(2), of draws] assms(3) by auto

theorem roll_next_returns_witness:
  "\<exists>s'. roll_next (replicate 100 (0, 0)) fresh_match = Ok s' \<and> rolled bg_start fresh_match s'"
  using roll_next_returns [OF fresh_match_reached fresh_match_board, of "replicate 100 (0, 0)"] by simp

text \<open>Whatever the opening, the turns submitted and the rolls drawn, a match never reaches a state it
  cannot replay: the stored history gives a board with fifteen checkers a side, the stored parity is the
  side to move, a pending roll has at least one complete turn and belongs to a running match, and
  neither a turn nor a roll can panic.\<close>

theorem backgammon_match_sound:
  assumes "bg_reach s"
  shows "\<exists>b. bg_board_of s = Some b \<and> bg_wf b \<and> apply_turn s hops \<noteq> Panic \<and> roll_next draws s \<noteq> Panic \<and>
    (bg_next_roll s \<noteq> None \<longrightarrow> bg_off b BgWhite \<noteq> CHECKERS_PER_SIDE \<and> bg_off b BgRed \<noteq> CHECKERS_PER_SIDE \<and>
       (\<exists>t ts. bg_legal_turns s = Some (t # ts)))"
proof -
  have inv: "bg_inv s" by (rule bg_reach_inv [OF assms])
  obtain b where b: "bg_replay (bg_turns s) = Some (b, bg_turn_of s)" "bg_wf b" "bg_board_of s = Some b"
    using bg_inv_board [OF inv] by blast
  have "apply_turn s hops \<noteq> Panic"
    unfolding apply_turn_cases [OF inv b(3)] by (simp add: Let_def split: option.splits)
  moreover have "roll_next draws s \<noteq> Panic" using roll_next_ok [OF bg_inv_without_roll [OF inv] b(3)] by blast
  moreover have "bg_off b BgWhite \<noteq> 15 \<and> bg_off b BgRed \<noteq> 15 \<and> (\<exists>t ts. bg_legal_turns s = Some (t # ts))"
    if roll: "bg_next_roll s = Some r" for r
  proof -
    have r: "roll_ok r" "\<exists>t. complete_turn b (bg_turn_of s) r t" "\<forall>c. bg_off b c \<noteq> 15"
      using inv roll b(1) by (auto simp: bg_inv_def)
    obtain ts where ts: "legal_turns b (bg_turn_of s) r = Some ts" "\<And>t. t \<in> set ts \<longleftrightarrow> complete_turn b (bg_turn_of s) r t"
      using legal_turns_ok [OF b(2) r(1)] by blast
    with r have "ts \<noteq> []" by auto
    with ts roll b(3) r(3) show ?thesis by (cases ts) (auto simp: bg_legal_turns_def)
  qed
  ultimately show ?thesis using b by auto
qed

theorem backgammon_match_sound_witness:
  "\<exists>b. bg_board_of fresh_match = Some b \<and> bg_wf b \<and> (\<exists>t ts. bg_legal_turns fresh_match = Some (t # ts))"
  using backgammon_match_sound [OF fresh_match_reached, of "[]" "[]"] by (auto simp: fresh_match_def)

end
