(* ===== verification/GamePayout.thy ===== *)
theory GamePayout
  imports ChipLedger
begin

text \<open>
  Game payouts: the claims that keep a reward from being paid twice
  (\<open>late-core/src/models/game_payout.rs\<close>), the reward templates that price them
  (\<open>late-core/src/models/reward.rs\<close>) and the grants of the chip service
  (\<open>late-ssh/src/app/games/chips/svc.rs\<close>). The table \<open>game_payout_claims\<close> is the list of its rows in
  insertion order, beside the chip tables. A grant is one atomic update: its transaction holds the
  advisory lock, and a failed or refused grant is rolled back. The printed form of ids, dates and
  instants (\<open>us\<close>, \<open>day_text\<close>, \<open>stamp\<close>), the ids the database draws and the readings of its clock (one for
  the gates of a grant, one for its rows) are parameters.
\<close>

section \<open>Tables\<close>

definition GAME_PAYOUT_PERIOD_COOLDOWN :: string where "GAME_PAYOUT_PERIOD_COOLDOWN = ''cooldown''"
definition GAME_PAYOUT_PERIOD_UTC_DAY :: string where "GAME_PAYOUT_PERIOD_UTC_DAY = ''utc_day''"

record payout_row =
  pr_id :: uuid
  pr_user :: uuid
  pr_game :: string
  pr_kind :: string
  pr_period_kind :: string
  pr_period_key :: string
  pr_amount :: int
  pr_created :: int

record pay_db =
  pd_chips :: chip_db
  pd_claims :: "payout_row list"

record payout_claim =
  pc_credited :: bool
  pc_balance :: int

record payout_source =
  ps_game :: string
  ps_kind :: string

datatype payout_key = Unique string string | Cooldown string int

datatype pay_error =
  PayAmountNotPositive | PayNoKey | PayBadCooldown | PayConstraint | PayChips chip_error
| PayNoTemplate | PayWrongPolicy | PayMissingParam string | PayMissingCooldown | PayNoCredit

text \<open>The columns of the \<open>UNIQUE\<close> constraint, and the \<open>CHECK\<close> that a text is not blank.\<close>

type_synonym claim_key = "uuid \<times> string \<times> string \<times> string \<times> string"

definition row_key :: "payout_row \<Rightarrow> claim_key" where
  "row_key r = (pr_user r, pr_game r, pr_kind r, pr_period_kind r, pr_period_key r)"

definition not_blank :: "string \<Rightarrow> bool" where
  "not_blank s \<longleftrightarrow> (\<exists>c \<in> set s. c \<noteq> CHR '' '')"

section \<open>Statements\<close>

definition row_checks :: "pay_db \<Rightarrow> payout_row \<Rightarrow> bool" where
  "row_checks p r \<longleftrightarrow> pr_user r \<in> db_users (pd_chips p) \<and> not_blank (pr_game r) \<and> not_blank (pr_kind r) \<and>
     not_blank (pr_period_kind r) \<and> not_blank (pr_period_key r) \<and> 0 < pr_amount r \<and>
     pr_id r \<notin> pr_id ` set (pd_claims p)"

text \<open>\<open>INSERT INTO game_payout_claims\<close> with every constraint of the table.\<close>

definition insert_claim :: "pay_db \<Rightarrow> payout_row \<Rightarrow> (pay_error, pay_db) res" where
  "insert_claim p r =
     ensure (row_checks p r \<and> row_key r \<notin> row_key ` set (pd_claims p)) PayConstraint
       (Ok (p\<lparr>pd_claims := pd_claims p @ [r]\<rparr>))"

text \<open>The credit of a grant: the upsert of the balance and the ledger row sourced on a claim.\<close>

definition pay_credit :: "chip_db \<Rightarrow> uuid \<Rightarrow> int \<Rightarrow> chip_move \<Rightarrow> string \<Rightarrow> (pay_error, chip_db) res" where
  "pay_credit db u amount mv ref =
     (case (case db_chips db u of
              None \<Rightarrow> insert_chips db u amount
            | Some row \<Rightarrow>
                ensure (bigint (uc_balance row + amount)) ChipOutOfRange
                  (Ok (update_chips db u row (uc_balance row + amount)))) of
        Ok db' \<Rightarrow> Ok (log_move db' u amount mv ref)
      | Err e \<Rightarrow> Err (PayChips e)
      | Panic \<Rightarrow> Panic)"

definition balance_of :: "chip_db \<Rightarrow> uuid \<Rightarrow> int" where
  "balance_of db u = (case db_chips db u of None \<Rightarrow> 0 | Some row \<Rightarrow> uc_balance row)"

section \<open>Grants\<close>

definition sources_for_ids :: "pay_db \<Rightarrow> uuid list \<Rightarrow> uuid \<Rightarrow> payout_source option" where
  "sources_for_ids p ids =
     (if ids = [] then (\<lambda>_. None)
      else map_of (map (\<lambda>r. (pr_id r, \<lparr>ps_game = pr_game r, ps_kind = pr_kind r\<rparr>))
             (filter (\<lambda>r. pr_id r \<in> set ids) (pd_claims p))))"

definition has_claimed_period :: "pay_db \<Rightarrow> uuid \<Rightarrow> string \<Rightarrow> string \<Rightarrow> string \<Rightarrow> string \<Rightarrow> bool" where
  "has_claimed_period p u game kind period_kind period_key \<longleftrightarrow>
     (u, game, kind, period_kind, period_key) \<in> row_key ` set (pd_claims p)"

definition has_claimed_daily :: "('d \<Rightarrow> string) \<Rightarrow> pay_db \<Rightarrow> uuid \<Rightarrow> string \<Rightarrow> string \<Rightarrow> 'd \<Rightarrow> bool" where
  "has_claimed_daily day_text p u game kind date =
     has_claimed_period p u game kind GAME_PAYOUT_PERIOD_UTC_DAY (day_text date)"

definition grant_period ::
  "(uuid \<Rightarrow> string) \<Rightarrow> uuid \<Rightarrow> pay_db \<Rightarrow> uuid \<Rightarrow> string \<Rightarrow> string \<Rightarrow> string \<Rightarrow> string \<Rightarrow> int \<Rightarrow> chip_move \<Rightarrow>
     (pay_error, pay_db \<times> payout_claim) res" where
  "grant_period us new_id p u game kind period_kind period_key amount mv =
     ensure (amount > 0) PayAmountNotPositive
     (let r = \<lparr>pr_id = new_id, pr_user = u, pr_game = game, pr_kind = kind, pr_period_kind = period_kind,
               pr_period_key = period_key, pr_amount = amount, pr_created = db_now (pd_chips p)\<rparr>
      in ensure (not_blank game \<and> not_blank kind \<and> not_blank period_kind \<and> not_blank period_key) PayConstraint
         (if row_key r \<in> row_key ` set (pd_claims p)
          then Ok (p, \<lparr>pc_credited = False, pc_balance = balance_of (pd_chips p) u\<rparr>)
          else rbind (insert_claim p r) (\<lambda>p.
               rbind (pay_credit (pd_chips p) u amount mv (us new_id)) (\<lambda>db.
                 Ok (p\<lparr>pd_chips := db\<rparr>, \<lparr>pc_credited = True, pc_balance = balance_of db u\<rparr>)))))"

definition grant_daily ::
  "('d \<Rightarrow> string) \<Rightarrow> (uuid \<Rightarrow> string) \<Rightarrow> uuid \<Rightarrow> pay_db \<Rightarrow> uuid \<Rightarrow> string \<Rightarrow> string \<Rightarrow> 'd \<Rightarrow> int \<Rightarrow> chip_move \<Rightarrow>
     (pay_error, pay_db \<times> payout_claim) res" where
  "grant_daily day_text us new_id p u game kind date amount mv =
     grant_period us new_id p u game kind GAME_PAYOUT_PERIOD_UTC_DAY (day_text date) amount mv"

text \<open>A claim of the same kind within the window before the reading.\<close>

definition in_window :: "pay_db \<Rightarrow> uuid \<Rightarrow> string \<Rightarrow> string \<Rightarrow> string \<Rightarrow> int \<Rightarrow> int \<Rightarrow> bool" where
  "in_window p u game kind period_kind window now \<longleftrightarrow>
     (\<exists>r \<in> set (pd_claims p). pr_user r = u \<and> pr_game r = game \<and> pr_kind r = kind \<and>
        pr_period_kind r = period_kind \<and> now - window < pr_created r)"

definition grant_cooldown ::
  "(uuid \<Rightarrow> string) \<Rightarrow> (int \<Rightarrow> string) \<Rightarrow> uuid \<Rightarrow> int \<Rightarrow> pay_db \<Rightarrow> uuid \<Rightarrow> string \<Rightarrow> string \<Rightarrow> int \<Rightarrow> int \<Rightarrow> chip_move \<Rightarrow>
     (pay_error, pay_db \<times> payout_claim) res" where
  "grant_cooldown us stamp new_id now p u game kind window amount mv =
     ensure (amount > 0) PayAmountNotPositive
     (ensure (window > 0) PayBadCooldown
     (if in_window p u game kind GAME_PAYOUT_PERIOD_COOLDOWN window now
      then Ok (p, \<lparr>pc_credited = False, pc_balance = balance_of (pd_chips p) u\<rparr>)
      else
        rbind (insert_claim p \<lparr>pr_id = new_id, pr_user = u, pr_game = game, pr_kind = kind,
                 pr_period_kind = GAME_PAYOUT_PERIOD_COOLDOWN, pr_period_key = stamp now,
                 pr_amount = amount, pr_created = now\<rparr>) (\<lambda>p.
        rbind (pay_credit (pd_chips p) u amount mv (us new_id)) (\<lambda>db.
          Ok (p\<lparr>pd_chips := db\<rparr>, \<lparr>pc_credited = True, pc_balance = balance_of db u\<rparr>)))))"

text \<open>\<open>grant_multi\<close>: the checks of the keys, the gates, the rows and the one credit.\<close>

primrec key_ok :: "payout_key \<Rightarrow> bool" where
  "key_ok (Unique _ _) = True"
| "key_ok (Cooldown _ window) = (window > 0)"

primrec gate_blocks :: "pay_db \<Rightarrow> uuid \<Rightarrow> string \<Rightarrow> string \<Rightarrow> int \<Rightarrow> payout_key \<Rightarrow> bool" where
  "gate_blocks p u game kind now (Unique period_kind period_key) =
     has_claimed_period p u game kind period_kind period_key"
| "gate_blocks p u game kind now (Cooldown period_kind window) = in_window p u game kind period_kind window now"

definition key_row ::
  "(int \<Rightarrow> string) \<Rightarrow> uuid \<Rightarrow> int \<Rightarrow> uuid \<Rightarrow> string \<Rightarrow> string \<Rightarrow> int \<Rightarrow> payout_key \<Rightarrow> payout_row" where
  "key_row stamp new_id now u game kind amount key =
     \<lparr>pr_id = new_id, pr_user = u, pr_game = game, pr_kind = kind,
      pr_period_kind = (case key of Unique pk _ \<Rightarrow> pk | Cooldown pk _ \<Rightarrow> pk),
      pr_period_key = (case key of Unique _ k \<Rightarrow> k | Cooldown _ _ \<Rightarrow> stamp now),
      pr_amount = amount, pr_created = now\<rparr>"

fun insert_claims :: "pay_db \<Rightarrow> payout_row list \<Rightarrow> (pay_error, pay_db) res" where
  "insert_claims p [] = Ok p"
| "insert_claims p (r # rs) = rbind (insert_claim p r) (\<lambda>p. insert_claims p rs)"

definition grant_multi ::
  "(uuid \<Rightarrow> string) \<Rightarrow> (int \<Rightarrow> string) \<Rightarrow> (nat \<Rightarrow> uuid) \<Rightarrow> int \<Rightarrow> int \<Rightarrow> pay_db \<Rightarrow> uuid \<Rightarrow> string \<Rightarrow> string \<Rightarrow>
     payout_key list \<Rightarrow> int \<Rightarrow> chip_move \<Rightarrow> (pay_error, pay_db \<times> payout_claim) res" where
  "grant_multi us stamp new_ids gate_now row_now p u game kind keys amount mv =
     ensure (amount > 0) PayAmountNotPositive
     (ensure (keys \<noteq> []) PayNoKey
     (ensure (list_all key_ok keys) PayBadCooldown
     (if list_ex (gate_blocks p u game kind gate_now) keys
      then Ok (p, \<lparr>pc_credited = False, pc_balance = balance_of (pd_chips p) u\<rparr>)
      else
        rbind (insert_claims p (map (\<lambda>(i, key). key_row stamp (new_ids i) row_now u game kind amount key)
                 (zip [0..<length keys] keys))) (\<lambda>p.
        rbind (pay_credit (pd_chips p) u amount mv (us (new_ids 0))) (\<lambda>db.
          Ok (p\<lparr>pd_chips := db\<rparr>, \<lparr>pc_credited = True, pc_balance = balance_of db u\<rparr>))))))"

section \<open>Reward templates\<close>

definition POLICY_ASSIGNMENT :: string where "POLICY_ASSIGNMENT = ''assignment''"
definition POLICY_COOLDOWN :: string where "POLICY_COOLDOWN = ''cooldown''"
definition POLICY_PER_EVENT :: string where "POLICY_PER_EVENT = ''per_event''"
definition POLICY_UTC_DAY :: string where "POLICY_UTC_DAY = ''utc_day''"

text \<open>The JSON of \<open>params\<close> is read only through its string entries.\<close>

record reward_template =
  rt_id :: uuid
  rt_key :: string
  rt_kind :: string
  rt_params :: "string \<Rightarrow> string option"
  rt_chips :: int
  rt_claim_policy :: string
  rt_cooldown :: "int option"

type_synonym template_table = "string \<Rightarrow> (reward_template \<times> bool) option"

definition get_active_by_key :: "template_table \<Rightarrow> string \<Rightarrow> (pay_error, reward_template) res" where
  "get_active_by_key tt key =
     (case tt key of Some (t, active) \<Rightarrow> if active then Ok t else Err PayNoTemplate | None \<Rightarrow> Err PayNoTemplate)"

definition ensure_claim_policy :: "reward_template \<Rightarrow> string \<Rightarrow> (pay_error, unit) res" where
  "ensure_claim_policy t expected = ensure (rt_claim_policy t = expected) PayWrongPolicy (Ok ())"

text \<open>\<open>cooldown\<close>, in the seconds of the column.\<close>

definition template_cooldown :: "reward_template \<Rightarrow> (pay_error, int) res" where
  "template_cooldown t =
     rbind (ensure_claim_policy t POLICY_COOLDOWN) (\<lambda>_.
       case rt_cooldown t of
         None \<Rightarrow> Err PayMissingCooldown
       | Some seconds \<Rightarrow> ensure (seconds > 0) PayBadCooldown (Ok seconds))"

definition required_param_str :: "reward_template \<Rightarrow> string \<Rightarrow> (pay_error, string) res" where
  "required_param_str t name =
     (case rt_params t name of None \<Rightarrow> Err (PayMissingParam name) | Some s \<Rightarrow> Ok s)"

definition template_game :: "reward_template \<Rightarrow> (pay_error, string) res" where
  "template_game t = required_param_str t ''game''"

definition template_payout_kind :: "reward_template \<Rightarrow> (pay_error, string) res" where
  "template_payout_kind t = required_param_str t ''payout_kind''"

definition tron_win_reward_key :: "nat \<Rightarrow> string option" where
  "tron_win_reward_key riders =
     (if riders = 2 then Some ''tron_win_2p'' else if riders = 3 then Some ''tron_win_3p''
      else if 4 \<le> riders then Some ''tron_win_4p'' else None)"

section \<open>The chip service's credits\<close>

definition PER_EVENT_REWARD_PERIOD_KIND :: string where "PER_EVENT_REWARD_PERIOD_KIND = ''event''"
definition PAIR_DAY_REWARD_PERIOD_KIND :: string where "PAIR_DAY_REWARD_PERIOD_KIND = ''pair_day''"

record reward_grant =
  rg_credited :: bool
  rg_balance :: int
  rg_amount :: int

definition reward_grant_of :: "int \<Rightarrow> payout_claim \<Rightarrow> reward_grant" where
  "reward_grant_of amount claim = \<lparr>rg_credited = pc_credited claim, rg_balance = pc_balance claim, rg_amount = amount\<rparr>"

text \<open>The template of a key under a policy, with its game and payout kind.\<close>

definition template_for ::
  "template_table \<Rightarrow> string \<Rightarrow> string \<Rightarrow> (reward_template \<Rightarrow> string \<Rightarrow> string \<Rightarrow> (pay_error, 'a) res) \<Rightarrow> (pay_error, 'a) res" where
  "template_for tt key policy k =
     rbind (get_active_by_key tt key) (\<lambda>t.
     rbind (ensure_claim_policy t policy) (\<lambda>_.
     rbind (template_game t) (\<lambda>game.
     rbind (template_payout_kind t) (\<lambda>kind. k t game kind))))"

definition graded :: "int \<Rightarrow> (pay_error, pay_db \<times> payout_claim) res \<Rightarrow> (pay_error, pay_db \<times> reward_grant) res" where
  "graded amount m = rbind m (\<lambda>(p, claim). Ok (p, reward_grant_of amount claim))"

definition has_daily_reward_claim ::
  "('d \<Rightarrow> string) \<Rightarrow> template_table \<Rightarrow> pay_db \<Rightarrow> uuid \<Rightarrow> string \<Rightarrow> 'd \<Rightarrow> (pay_error, bool) res" where
  "has_daily_reward_claim day_text tt p u key date =
     template_for tt key POLICY_UTC_DAY (\<lambda>t game kind. Ok (has_claimed_daily day_text p u game kind date))"

definition credit_daily_reward_template ::
  "('d \<Rightarrow> string) \<Rightarrow> (uuid \<Rightarrow> string) \<Rightarrow> uuid \<Rightarrow> template_table \<Rightarrow> pay_db \<Rightarrow> uuid \<Rightarrow> string \<Rightarrow> 'd \<Rightarrow> chip_move \<Rightarrow>
     (pay_error, pay_db \<times> reward_grant) res" where
  "credit_daily_reward_template day_text us new_id tt p u key date mv =
     template_for tt key POLICY_UTC_DAY (\<lambda>t game kind.
       graded (rt_chips t) (grant_daily day_text us new_id p u game kind date (rt_chips t) mv))"

definition credit_cooldown_reward_template ::
  "(uuid \<Rightarrow> string) \<Rightarrow> (int \<Rightarrow> string) \<Rightarrow> uuid \<Rightarrow> int \<Rightarrow> template_table \<Rightarrow> pay_db \<Rightarrow> uuid \<Rightarrow> string \<Rightarrow> chip_move \<Rightarrow>
     (pay_error, pay_db \<times> reward_grant) res" where
  "credit_cooldown_reward_template us stamp new_id now tt p u key mv =
     rbind (get_active_by_key tt key) (\<lambda>t.
     rbind (template_cooldown t) (\<lambda>window.
     rbind (template_game t) (\<lambda>game.
     rbind (template_payout_kind t) (\<lambda>kind.
       graded (rt_chips t) (grant_cooldown us stamp new_id now p u game kind window (rt_chips t) mv)))))"

definition credit_per_event_reward_template ::
  "(uuid \<Rightarrow> string) \<Rightarrow> uuid \<Rightarrow> template_table \<Rightarrow> pay_db \<Rightarrow> uuid \<Rightarrow> string \<Rightarrow> string \<Rightarrow> chip_move \<Rightarrow>
     (pay_error, pay_db \<times> reward_grant) res" where
  "credit_per_event_reward_template us new_id tt p u key event_key mv =
     template_for tt key POLICY_PER_EVENT (\<lambda>t game kind.
       graded (rt_chips t)
         (grant_period us new_id p u game kind PER_EVENT_REWARD_PERIOD_KIND event_key (rt_chips t) mv))"

definition credit_per_event_reward_template_amount ::
  "(uuid \<Rightarrow> string) \<Rightarrow> uuid \<Rightarrow> template_table \<Rightarrow> pay_db \<Rightarrow> uuid \<Rightarrow> string \<Rightarrow> string \<Rightarrow> int \<Rightarrow> chip_move \<Rightarrow>
     (pay_error, pay_db \<times> reward_grant) res" where
  "credit_per_event_reward_template_amount us new_id tt p u key event_key amount mv =
     ensure (amount > 0) PayAmountNotPositive
     (template_for tt key POLICY_PER_EVENT (\<lambda>t game kind.
       graded amount
         (grant_period us new_id p u game kind PER_EVENT_REWARD_PERIOD_KIND event_key amount mv)))"

definition credit_per_event_pair_day_reward_template ::
  "(uuid \<Rightarrow> string) \<Rightarrow> (int \<Rightarrow> string) \<Rightarrow> (nat \<Rightarrow> uuid) \<Rightarrow> int \<Rightarrow> int \<Rightarrow> template_table \<Rightarrow> pay_db \<Rightarrow> uuid \<Rightarrow> string \<Rightarrow>
     string \<Rightarrow> string \<Rightarrow> chip_move \<Rightarrow> (pay_error, pay_db \<times> reward_grant) res" where
  "credit_per_event_pair_day_reward_template us stamp new_ids gate_now row_now tt p u key event_key pair_day_key mv =
     template_for tt key POLICY_PER_EVENT (\<lambda>t game kind.
       graded (rt_chips t)
         (grant_multi us stamp new_ids gate_now row_now p u game kind
            [Unique PER_EVENT_REWARD_PERIOD_KIND event_key, Unique PAIR_DAY_REWARD_PERIOD_KIND pair_day_key]
            (rt_chips t) mv))"

definition credit_run_cooldown_reward_template ::
  "(uuid \<Rightarrow> string) \<Rightarrow> (int \<Rightarrow> string) \<Rightarrow> (nat \<Rightarrow> uuid) \<Rightarrow> int \<Rightarrow> int \<Rightarrow> template_table \<Rightarrow> pay_db \<Rightarrow> uuid \<Rightarrow> string \<Rightarrow>
     string \<Rightarrow> chip_move \<Rightarrow> (pay_error, pay_db \<times> reward_grant) res" where
  "credit_run_cooldown_reward_template us stamp new_ids gate_now row_now tt p u key event_key mv =
     rbind (get_active_by_key tt key) (\<lambda>t.
     rbind (template_cooldown t) (\<lambda>window.
     rbind (template_game t) (\<lambda>game.
     rbind (template_payout_kind t) (\<lambda>kind.
       graded (rt_chips t)
         (grant_multi us stamp new_ids gate_now row_now p u game kind
            [Unique PER_EVENT_REWARD_PERIOD_KIND event_key, Cooldown GAME_PAYOUT_PERIOD_COOLDOWN window]
            (rt_chips t) mv)))))"

definition credit_payout ::
  "chip_db \<Rightarrow> uuid \<Rightarrow> chip_move \<Rightarrow> int \<Rightarrow> string \<Rightarrow> (pay_error, chip_db \<times> int) res" where
  "credit_payout db u mv amount ref =
     (case apply_chips db u mv amount ref of
        Ok (db', Some row) \<Rightarrow> Ok (db', uc_balance row)
      | Ok (db', None) \<Rightarrow> Err PayNoCredit
      | Err e \<Rightarrow> Err (PayChips e)
      | Panic \<Rightarrow> Panic)"

section \<open>What a grant does\<close>

lemma balance_of_held: "balance_of db u = held db u"
  by (simp add: balance_of_def held_def)

lemma insert_claim_Ok: "insert_claim p r = Ok p' \<longleftrightarrow>
    row_checks p r \<and> row_key r \<notin> row_key ` set (pd_claims p) \<and> p' = p\<lparr>pd_claims := pd_claims p @ [r]\<rparr>"
  by (auto simp: insert_claim_def res_simps)

lemma pay_credit_Ok:
  assumes "pay_credit db u amount mv ref = Ok db'"
  shows "\<exists>row. posted db db' u amount mv ref row \<and> balance_of db' u = uc_balance row"
proof (cases "db_chips db u")
  case None
  let ?row = "\<lparr>uc_balance = amount, uc_last_stipend_date = None\<rparr>"
  have "db' = log_move (db\<lparr>db_chips := (db_chips db)(u \<mapsto> ?row)\<rparr>) u amount mv ref"
    using assms None by (auto simp: pay_credit_def insert_chips_def res_simps split: res.splits)
  then have "posted db db' u amount mv ref ?row \<and> balance_of db' u = uc_balance ?row"
    using None by (simp add: posted_def held_def balance_of_def log_move_def)
  then show ?thesis ..
next
  case (Some old)
  let ?row = "old\<lparr>uc_balance := uc_balance old + amount\<rparr>"
  have "db' = log_move (db\<lparr>db_chips := (db_chips db)(u \<mapsto> ?row)\<rparr>) u amount mv ref"
    using assms Some by (auto simp: pay_credit_def update_chips_def res_simps split: res.splits)
  then have "posted db db' u amount mv ref ?row \<and> balance_of db' u = uc_balance ?row"
    using Some by (simp add: posted_def held_def balance_of_def log_move_def)
  then show ?thesis ..
qed

lemma pay_credit_not_Panic: "pay_credit db u amount mv ref \<noteq> Panic"
  by (auto simp: pay_credit_def insert_chips_def ensure_def split: option.splits)

text \<open>No two claims of one key.\<close>

definition keys_unique :: "pay_db \<Rightarrow> bool" where
  "keys_unique p \<longleftrightarrow> distinct (map row_key (pd_claims p))"

lemma keys_unique_snoc: "row_key r \<notin> row_key ` set (pd_claims p) \<Longrightarrow> keys_unique p \<Longrightarrow> keys_unique (p\<lparr>pd_claims := pd_claims p @ [r]\<rparr>)"
  by (auto simp: keys_unique_def)

lemma keys_unique_chips [simp]: "keys_unique (p\<lparr>pd_chips := db\<rparr>) = keys_unique p"
  by (simp add: keys_unique_def)

lemma insert_claims_Ok: "insert_claims p rs = Ok p' \<Longrightarrow>
    pd_claims p' = pd_claims p @ rs \<and> pd_chips p' = pd_chips p \<and>
    (keys_unique p \<longrightarrow> keys_unique p')"
proof (induction p rs rule: insert_claims.induct)
  case (2 p r rs)
  then obtain m where m: "row_checks p r" "row_key r \<notin> row_key ` set (pd_claims p)"
    "m = p\<lparr>pd_claims := pd_claims p @ [r]\<rparr>" "insert_claims m rs = Ok p'"
    by (auto simp: rbind_Ok_iff insert_claim_Ok)
  have "insert_claim p r = Ok m" using m by (simp add: insert_claim_Ok)
  from "2.IH" [OF m(4)] m(3) keys_unique_snoc [OF m(2)] show ?case by auto
qed simp

lemma insert_claims_not_Panic: "insert_claims p rs \<noteq> Panic"
  by (induction p rs rule: insert_claims.induct) (auto simp: rbind_Panic_iff insert_claim_def ensure_def)

text \<open>What every credited grant has in common: the rows it adds, and one posting for all of them.\<close>

definition credited_by ::
  "pay_db \<Rightarrow> pay_db \<Rightarrow> uuid \<Rightarrow> int \<Rightarrow> chip_move \<Rightarrow> string \<Rightarrow> payout_row list \<Rightarrow> int \<Rightarrow> bool" where
  "credited_by p p' u amount mv ref rows balance \<longleftrightarrow>
     0 < amount \<and> pd_claims p' = pd_claims p @ rows \<and> list_all (\<lambda>r. pr_user r = u \<and> pr_amount r = amount) rows \<and>
     (\<exists>row. posted (pd_chips p) (pd_chips p') u amount mv ref row \<and> balance = uc_balance row) \<and>
     (keys_unique p \<longrightarrow> keys_unique p')"

lemma credit_rows:
  assumes "insert_claims p rows = Ok q" and "pay_credit (pd_chips q) u amount mv ref = Ok db" and "0 < amount"
    and "list_all (\<lambda>r. pr_user r = u \<and> pr_amount r = amount) rows"
  shows "credited_by p (q\<lparr>pd_chips := db\<rparr>) u amount mv ref rows (balance_of db u)"
proof -
  note ins = insert_claims_Ok [OF assms(1)]
  obtain row where "posted (pd_chips q) db u amount mv ref row" "balance_of db u = uc_balance row"
    using pay_credit_Ok [OF assms(2)] by blast
  with ins assms(3,4) show ?thesis
    unfolding credited_by_def by (intro conjI exI [of _ row]) simp_all
qed

lemma grant_period_cases:
  assumes "grant_period us new_id p u game kind pk k amount mv = Ok (p', c)"
  shows "if has_claimed_period p u game kind pk k
    then p' = p \<and> c = \<lparr>pc_credited = False, pc_balance = held (pd_chips p) u\<rparr>
    else pc_credited c \<and> credited_by p p' u amount mv (us new_id)
      [\<lparr>pr_id = new_id, pr_user = u, pr_game = game, pr_kind = kind, pr_period_kind = pk, pr_period_key = k,
        pr_amount = amount, pr_created = db_now (pd_chips p)\<rparr>] (pc_balance c)"
proof -
  let ?r = "\<lparr>pr_id = new_id, pr_user = u, pr_game = game, pr_kind = kind, pr_period_kind = pk, pr_period_key = k,
        pr_amount = amount, pr_created = db_now (pd_chips p)\<rparr>"
  have amount: "0 < amount" using assms by (simp add: grant_period_def res_simps)
  have key: "row_key ?r = (u, game, kind, pk, k)" by (simp add: row_key_def)
  show ?thesis
  proof (cases "has_claimed_period p u game kind pk k")
    case True
    with assms key show ?thesis by (auto simp: grant_period_def has_claimed_period_def Let_def res_simps balance_of_held)
  next
    case False
    then obtain q db where q: "insert_claim p ?r = Ok q" "pay_credit (pd_chips q) u amount mv (us new_id) = Ok db"
      "p' = q\<lparr>pd_chips := db\<rparr>" "c = \<lparr>pc_credited = True, pc_balance = balance_of db u\<rparr>"
      using assms key by (auto simp: grant_period_def has_claimed_period_def Let_def res_simps)
    have "insert_claims p [?r] = Ok q" using q(1) by simp
    from credit_rows [OF this q(2) amount] False q(3,4) show ?thesis by simp
  qed
qed

lemma grant_cooldown_cases:
  assumes "grant_cooldown us stamp new_id now p u game kind window amount mv = Ok (p', c)"
  shows "if in_window p u game kind GAME_PAYOUT_PERIOD_COOLDOWN window now
    then p' = p \<and> c = \<lparr>pc_credited = False, pc_balance = held (pd_chips p) u\<rparr>
    else pc_credited c \<and> credited_by p p' u amount mv (us new_id)
      [\<lparr>pr_id = new_id, pr_user = u, pr_game = game, pr_kind = kind, pr_period_kind = GAME_PAYOUT_PERIOD_COOLDOWN,
        pr_period_key = stamp now, pr_amount = amount, pr_created = now\<rparr>] (pc_balance c)"
proof -
  let ?r = "\<lparr>pr_id = new_id, pr_user = u, pr_game = game, pr_kind = kind, pr_period_kind = GAME_PAYOUT_PERIOD_COOLDOWN,
        pr_period_key = stamp now, pr_amount = amount, pr_created = now\<rparr>"
  have amount: "0 < amount" using assms by (simp add: grant_cooldown_def res_simps)
  show ?thesis
  proof (cases "in_window p u game kind GAME_PAYOUT_PERIOD_COOLDOWN window now")
    case True
    with assms show ?thesis by (auto simp: grant_cooldown_def res_simps balance_of_held)
  next
    case False
    then obtain q db where q: "insert_claim p ?r = Ok q" "pay_credit (pd_chips q) u amount mv (us new_id) = Ok db"
      "p' = q\<lparr>pd_chips := db\<rparr>" "c = \<lparr>pc_credited = True, pc_balance = balance_of db u\<rparr>"
      using assms by (auto simp: grant_cooldown_def res_simps)
    have "insert_claims p [?r] = Ok q" using q(1) by simp
    from credit_rows [OF this q(2) amount] False q(3,4) show ?thesis by simp
  qed
qed

definition key_rows ::
  "(int \<Rightarrow> string) \<Rightarrow> (nat \<Rightarrow> uuid) \<Rightarrow> int \<Rightarrow> uuid \<Rightarrow> string \<Rightarrow> string \<Rightarrow> int \<Rightarrow> payout_key list \<Rightarrow> payout_row list" where
  "key_rows stamp new_ids now u game kind amount keys =
     map (\<lambda>(i, key). key_row stamp (new_ids i) now u game kind amount key) (zip [0..<length keys] keys)"

lemma key_rows_all: "list_all (\<lambda>r. pr_user r = u \<and> pr_amount r = amount \<and> pr_game r = game \<and> pr_kind r = kind \<and> pr_created r = now)
    (key_rows stamp new_ids now u game kind amount keys)"
  by (auto simp: key_rows_def key_row_def list_all_iff)

lemma key_rows_nth:
  "key \<in> set keys \<Longrightarrow> \<exists>i. key_row stamp (new_ids i) now u game kind amount key \<in> set (key_rows stamp new_ids now u game kind amount keys)"
proof -
  assume "key \<in> set keys"
  then obtain i where "i < length keys" "keys ! i = key" by (auto simp: in_set_conv_nth)
  then have "(i, key) \<in> set (zip [0..<length keys] keys)" by (auto simp: set_zip intro!: exI [of _ i])
  then show ?thesis unfolding key_rows_def by force
qed

lemma grant_multi_cases:
  assumes "grant_multi us stamp new_ids gate_now row_now p u game kind keys amount mv = Ok (p', c)"
  shows "if list_ex (gate_blocks p u game kind gate_now) keys
    then p' = p \<and> c = \<lparr>pc_credited = False, pc_balance = held (pd_chips p) u\<rparr>
    else pc_credited c \<and> credited_by p p' u amount mv (us (new_ids 0))
      (key_rows stamp new_ids row_now u game kind amount keys) (pc_balance c)"
proof -
  have amount: "0 < amount" using assms by (simp add: grant_multi_def res_simps)
  let ?rows = "key_rows stamp new_ids row_now u game kind amount keys"
  show ?thesis
  proof (cases "list_ex (gate_blocks p u game kind gate_now) keys")
    case True
    with assms show ?thesis by (auto simp: grant_multi_def res_simps balance_of_held)
  next
    case False
    then obtain q db where q: "insert_claims p ?rows = Ok q" "pay_credit (pd_chips q) u amount mv (us (new_ids 0)) = Ok db"
      "p' = q\<lparr>pd_chips := db\<rparr>" "c = \<lparr>pc_credited = True, pc_balance = balance_of db u\<rparr>"
      using assms by (auto simp: grant_multi_def res_simps key_rows_def)
    have "list_all (\<lambda>r. pr_user r = u \<and> pr_amount r = amount) ?rows"
      using key_rows_all [of u amount] by (auto simp: list_all_iff)
    from credit_rows [OF q(1,2) amount this] False q(3,4) show ?thesis by simp
  qed
qed

lemma grant_multi_not_Panic: "grant_multi us stamp new_ids gate_now row_now p u game kind keys amount mv \<noteq> Panic"
  by (auto simp: grant_multi_def res_simps insert_claims_not_Panic pay_credit_not_Panic)

section \<open>Runs\<close>

text \<open>What happens to the claims and the chips over time: grants, with moves of direction credit, and the chip
  moves of everything else.\<close>

inductive pay_step :: "(uuid \<Rightarrow> string) \<Rightarrow> (int \<Rightarrow> string) \<Rightarrow> pay_db \<Rightarrow> pay_db \<Rightarrow> bool" for us stamp where
  pay_period: "grant_period us new_id p u game kind pk k amount mv = Ok (p', c) \<Longrightarrow> direction mv = Credit \<Longrightarrow>
     pay_step us stamp p p'"
| pay_cooldown: "grant_cooldown us stamp new_id now p u game kind window amount mv = Ok (p', c) \<Longrightarrow>
     direction mv = Credit \<Longrightarrow> pay_step us stamp p p'"
| pay_multi: "grant_multi us stamp new_ids gate_now row_now p u game kind keys amount mv = Ok (p', c) \<Longrightarrow>
     direction mv = Credit \<Longrightarrow> pay_step us stamp p p'"
| pay_chips: "chip_step us (pd_chips p) db \<Longrightarrow> pay_step us stamp p (p\<lparr>pd_chips := db\<rparr>)"

lemma pay_step_cases:
  assumes "pay_step us stamp p p'"
  shows "p' = p \<or> (\<exists>db. chip_step us (pd_chips p) db \<and> p' = p\<lparr>pd_chips := db\<rparr>) \<or>
    (\<exists>u amount mv ref rows balance. direction mv = Credit \<and> credited_by p p' u amount mv ref rows balance)"
  using assms
proof cases
  case (pay_period new_id u game kind pk k amount mv c)
  from grant_period_cases [OF this(1)] this(2) show ?thesis by (metis (no_types))
next
  case (pay_cooldown new_id now u game kind window amount mv c)
  from grant_cooldown_cases [OF this(1)] this(2) show ?thesis by (metis (no_types))
next
  case (pay_multi new_ids gate_now row_now u game kind keys amount mv c)
  from grant_multi_cases [OF this(1)] this(2) show ?thesis by (metis (no_types))
next
  case (pay_chips db)
  then show ?thesis by blast
qed

lemma credited_posting: "credited_by p p' u amount mv ref rows balance \<Longrightarrow> direction mv = Credit \<Longrightarrow> posting (pd_chips p) (pd_chips p')"
  by (auto simp: credited_by_def signed_for_def intro: postingI)

definition pay_books :: "pay_db \<Rightarrow> bool" where
  "pay_books p \<longleftrightarrow> books (pd_chips p) \<and> keys_unique p"

lemma pay_step_books: "pay_step us stamp p p' \<Longrightarrow> pay_books p \<Longrightarrow> pay_books p'"
proof -
  assume step: "pay_step us stamp p p'" and inv: "pay_books p"
  from pay_step_cases [OF step] show "pay_books p'"
  proof (elim disjE exE conjE)
    show "p' = p \<Longrightarrow> pay_books p'" using inv by simp
    show "chip_step us (pd_chips p) db \<Longrightarrow> p' = p\<lparr>pd_chips := db\<rparr> \<Longrightarrow> pay_books p'" for db
      using inv by (auto simp: pay_books_def intro: chip_step_books)
  next
    fix u amount mv ref rows balance
    assume c: "direction mv = Credit" "credited_by p p' u amount mv ref rows balance"
    from posting_books [OF _ credited_posting [OF c(2,1)]] inv c(2) show "pay_books p'"
      by (simp add: pay_books_def credited_by_def)
  qed
qed

lemma pay_step_grows: "pay_step us stamp p p' \<Longrightarrow> \<exists>rows. pd_claims p' = pd_claims p @ rows"
  using pay_step_cases [of us stamp p p'] by (auto simp: credited_by_def)

lemma pay_run_grows: "(pay_step us stamp)\<^sup>*\<^sup>* p p' \<Longrightarrow> set (pd_claims p) \<subseteq> set (pd_claims p')"
proof (induction rule: rtranclp_induct)
  case (step q r)
  with pay_step_grows [OF step.hyps(2)] show ?case by auto
qed simp

lemma pay_run_books: "(pay_step us stamp)\<^sup>*\<^sup>* p p' \<Longrightarrow> pay_books p \<Longrightarrow> pay_books p'"
  by (induction rule: rtranclp_induct) (auto intro: pay_step_books)

text \<open>A claim of a key shuts the gates of that key.\<close>

lemma unique_gate_shut:
  "r \<in> set (pd_claims p) \<Longrightarrow> row_key r = (u, game, kind, pk, k) \<Longrightarrow> gate_blocks p u game kind now (Unique pk k)"
  unfolding gate_blocks.simps has_claimed_period_def by (metis imageI)

lemma cooldown_gate_shut:
  "r \<in> set (pd_claims p) \<Longrightarrow> pr_user r = u \<Longrightarrow> pr_game r = game \<Longrightarrow> pr_kind r = kind \<Longrightarrow> pr_period_kind r = pk \<Longrightarrow>
     now - window < pr_created r \<Longrightarrow> gate_blocks p u game kind now (Cooldown pk window)"
  by (auto simp: in_window_def)

lemma credited_multi_rows:
  assumes "grant_multi us stamp new_ids gate_now row_now p u game kind keys amount mv = Ok (p', c)" and "pc_credited c"
    and "key \<in> set keys"
  shows "\<exists>i. key_row stamp (new_ids i) row_now u game kind amount key \<in> set (pd_claims p')"
proof -
  have "credited_by p p' u amount mv (us (new_ids 0)) (key_rows stamp new_ids row_now u game kind amount keys) (pc_balance c)"
    using grant_multi_cases [OF assms(1)] assms(2) by (auto split: if_splits)
  then have "pd_claims p' = pd_claims p @ key_rows stamp new_ids row_now u game kind amount keys" by (simp add: credited_by_def)
  with key_rows_nth [OF assms(3), of stamp new_ids row_now u game kind amount] show ?thesis by auto
qed

lemma blocked_multi:
  assumes "grant_multi us stamp new_ids gate_now row_now p u game kind keys amount mv = Ok (p', c)"
    and "key \<in> set keys" and "gate_blocks p u game kind gate_now key"
  shows "\<not> pc_credited c \<and> p' = p"
proof -
  have "list_ex (gate_blocks p u game kind gate_now) keys" using assms(2,3) by (auto simp: list_ex_iff)
  with grant_multi_cases [OF assms(1)] show ?thesis by auto
qed

definition fresh_pay :: "uuid set \<Rightarrow> int \<Rightarrow> pay_db" where
  "fresh_pay users t = \<lparr>pd_chips = empty_db users t, pd_claims = []\<rparr>"

lemma fresh_pay_books: "pay_books (fresh_pay users t)"
  by (simp add: pay_books_def fresh_pay_def keys_unique_def books_empty)

section \<open>Properties\<close>

text \<open>A grant behind several gates is all or nothing. When any gate is shut, nothing is written and the
  balance is only reported. When all are open, every gate writes its own claim row of the full amount, and
  the chips move once: one balance rises by the amount and one ledger row of that amount names the first
  claim, so the user's ledger sum rises with the balance.\<close>

theorem grant_multi_exact:
  assumes "grant_multi us stamp new_ids gate_now row_now p u game kind keys amount mv = Ok (p', c)"
  shows "if list_ex (gate_blocks p u game kind gate_now) keys
    then p' = p \<and> \<not> pc_credited c \<and> pc_balance c = held (pd_chips p) u
    else pc_credited c \<and> pc_balance c = held (pd_chips p) u + amount \<and>
      held (pd_chips p') = (held (pd_chips p))(u := held (pd_chips p) u + amount) \<and>
      ledger_sum (pd_chips p') = (ledger_sum (pd_chips p))(u := ledger_sum (pd_chips p) u + amount) \<and>
      length (db_ledger (pd_chips p')) = length (db_ledger (pd_chips p)) + 1 \<and>
      lr_source_ref (last (db_ledger (pd_chips p'))) = us (new_ids 0) \<and>
      pd_claims p' = pd_claims p @ key_rows stamp new_ids row_now u game kind amount keys \<and>
      length (pd_claims p') = length (pd_claims p) + length keys"
proof (cases "list_ex (gate_blocks p u game kind gate_now) keys")
  case True
  with grant_multi_cases [OF assms] show ?thesis by simp
next
  case False
  then have c: "pc_credited c" "credited_by p p' u amount mv (us (new_ids 0))
      (key_rows stamp new_ids row_now u game kind amount keys) (pc_balance c)"
    using grant_multi_cases [OF assms] by simp_all
  then obtain row where row: "posted (pd_chips p) (pd_chips p') u amount mv (us (new_ids 0)) row" "pc_balance c = uc_balance row"
    by (auto simp: credited_by_def)
  then have bal: "uc_balance row = held (pd_chips p) u + amount" by (simp add: posted_def)
  have led: "length (db_ledger (pd_chips p')) = length (db_ledger (pd_chips p)) + 1"
    "lr_source_ref (last (db_ledger (pd_chips p'))) = us (new_ids 0)"
    using row(1) by (simp_all add: posted_def log_move_def)
  have "length (key_rows stamp new_ids row_now u game kind amount keys) = length keys" by (simp add: key_rows_def)
  with False c row bal led posted_held [OF row(1)] posted_ledger_sum [OF row(1)] show ?thesis
    by (simp add: credited_by_def)
qed

definition pay_demo :: pay_db where
  "pay_demo = fresh_pay {1} 0"

abbreviation demo_grant :: "int \<Rightarrow> pay_db \<Rightarrow> (pay_error, pay_db \<times> payout_claim) res" where
  "demo_grant now p \<equiv> grant_multi (\<lambda>_. ''id'') (\<lambda>_. ''t'') (\<lambda>i. if i = 0 then 10 else 11) now now p 1 ''daily_chess'' ''win''
     [Unique ''event'' ''m1'', Unique ''pair_day'' ''u2:day''] 500 DailyChessWin"

lemma pay_demo_run:
  "\<exists>p c. demo_grant 0 pay_demo = Ok (p, c) \<and> pc_credited c \<and> length (pd_claims p) = 2 \<and> held (pd_chips p) 1 = 500"
  by (simp add: grant_multi_def pay_demo_def fresh_pay_def empty_db_def has_claimed_period_def insert_claim_def ensure_def
      row_checks_def key_row_def row_key_def not_blank_def pay_credit_def insert_chips_def log_move_def held_def)

theorem grant_multi_exact_witness:
  "\<exists>p c. demo_grant 0 pay_demo = Ok (p, c) \<and> pc_balance c = 500 \<and> ledger_sum (pd_chips p) 1 = 500 \<and>
     length (db_ledger (pd_chips p)) = 1"
proof -
  obtain p c where g: "demo_grant 0 pay_demo = Ok (p, c)" "pc_credited c" using pay_demo_run by blast
  have "held (pd_chips pay_demo) 1 = 0" "ledger_sum (pd_chips pay_demo) 1 = 0" "db_ledger (pd_chips pay_demo) = []"
    by (simp_all add: pay_demo_def fresh_pay_def empty_db_def held_def ledger_sum_def sum_delta_def)
  with grant_multi_exact [OF g(1)] g show ?thesis by (auto split: if_splits)
qed





end
