(* ===== verification/DailyEngines.thy ===== *)
theory DailyEngines
  imports DailyMatch Connect4 Reversi Battleship Briscola Checkers Backgammon
begin

text \<open>
  How the daily match service plays a move (\<open>late-ssh/src/app/lobby/daily/svc.rs\<close>, the \<open>play_*\<close> methods up to
  their first write): the stored document is decoded, the player is checked against it, its rules engine is
  asked, and the new document, the revision it was loaded at, the verdict and the player on the clock are
  decided. The JSON document is an arbitrary type \<open>'j\<close>, and what serde reads from a document and writes for
  a state are the two fields of a codec. The interface \<open>daily_rules\<close> states what the service relies on, and
  every engine is an instance of it.
\<close>

section \<open>Decided moves\<close>

text \<open>\<open>de_deadline\<close> is a deadline the move keeps; \<open>None\<close> stands for a fresh one, counted from the clock of the write.\<close>

record ('j, 's) doc_codec =
  decode :: "'j \<Rightarrow> 's option"
  encode :: "'s \<Rightarrow> 'j"

datatype svc_error =
  SvcNotActive | SvcNotOpen | SvcNotYourTurn | SvcExpired | SvcUnknownGame | SvcOwnChallenge | SvcLimit
| SvcNotPlaying | SvcSuperseded | SvcWrongChannel | SvcRules | SvcStore dm_error | SvcNoOpponent | SvcRaced
| SvcNotACard | SvcUnknownUser | SvcChatRoom | SvcStillRolling | SvcNoMover | SvcNoDeadline

record 'j decided =
  de_doc :: 'j
  de_base :: int
  de_revision :: nat
  de_finished :: "(uuid option \<times> daily_result) option"
  de_next :: uuid
  de_label :: string
  de_deadline :: "int option"

text \<open>\<open>?\<close> on the error of a rules engine, and the casts of the \<open>u64\<close> revision.\<close>

definition rules :: "('e, 'a) res \<Rightarrow> (svc_error, 'a) res" where
  "rules m = (case m of Ok x \<Rightarrow> Ok x | Err e \<Rightarrow> Err SvcRules | Panic \<Rightarrow> Panic)"

definition as_i64 :: "nat \<Rightarrow> int" where
  "as_i64 n = (int n + 2 ^ 63) mod 2 ^ 64 - 2 ^ 63"

definition next_revision :: "nat \<Rightarrow> nat" where
  "next_revision n = min (n + 1) (2 ^ 64 - 1)"

definition playing :: "'a option \<Rightarrow> ('a \<Rightarrow> (svc_error, 'b) res) \<Rightarrow> (svc_error, 'b) res" where
  "playing m k = (case m of None \<Rightarrow> Err SvcNotPlaying | Some x \<Rightarrow> k x)"

lemma rules_Ok_iff [res_simps]: "rules m = Ok x \<longleftrightarrow> m = Ok x"
  by (cases m) (simp_all add: rules_def)

lemma rules_Panic_iff [res_simps]: "rules m = Panic \<longleftrightarrow> m = Panic"
  by (cases m) (simp_all add: rules_def)

lemma playing_Ok_iff [res_simps]: "playing m k = Ok y \<longleftrightarrow> (\<exists>x. m = Some x \<and> k x = Ok y)"
  by (cases m) (simp_all add: playing_def)

lemma playing_Panic_iff [res_simps]: "playing m k = Panic \<longleftrightarrow> (\<exists>x. m = Some x \<and> k x = Panic)"
  by (cases m) (simp_all add: playing_def)

section \<open>The moves of each game\<close>

definition play_battleship_shot ::
  "('j, bs_state) doc_codec \<Rightarrow> int \<Rightarrow> 'j \<Rightarrow> uuid \<Rightarrow> nat \<Rightarrow> (svc_error, 'j decided) res" where
  "play_battleship_shot cd now doc user cell =
     rbind (rules (bs_parse (decode cd doc))) (\<lambda>s.
     playing (side_index_of s user) (\<lambda>shooter.
       let base = as_i64 (bs_revision s);
           s = s\<lparr>bs_revision := next_revision (bs_revision s)\<rparr>
       in rbind (rules (apply_shot s shooter cell now)) (\<lambda>(s, out).
            expect (if so_fleet_sunk out \<or> so_hit out then Some user
                    else map_option bs_user_id (bs_side_at s (opponent_index shooter))) (\<lambda>next_turn.
            Ok \<lparr>de_doc = encode cd s, de_base = base, de_revision = bs_revision s,
                de_finished = (if so_fleet_sunk out then Some (Some user, FleetSunk) else None),
                de_next = next_turn, de_label = shot_label out cell, de_deadline = None\<rparr>))))"

definition play_connect4_drop ::
  "('j, c4_state) doc_codec \<Rightarrow> 'j \<Rightarrow> uuid \<Rightarrow> nat \<Rightarrow> (svc_error, 'j decided) res" where
  "play_connect4_drop cd doc user column =
     rbind (rules (c4_parse (decode cd doc))) (\<lambda>s.
     playing (c4_disc_of s user) (\<lambda>disc.
     ensure (c4_turn s = disc) SvcNotYourTurn
      (let base = as_i64 (c4_revision s);
           s = s\<lparr>c4_revision := next_revision (c4_revision s)\<rparr>
       in rbind (rules (apply_drop s column)) (\<lambda>(s, out).
            Ok \<lparr>de_doc = encode cd s, de_base = base, de_revision = c4_revision s,
                de_finished = (if connected out then Some (Some user, FourInARow)
                               else if drop_draw out then Some (None, Draw) else None),
                de_next = c4_user_of s (c4_other disc), de_label = drop_label out column, de_deadline = None\<rparr>))))"

definition play_reversi_move ::
  "('j, rv_state) doc_codec \<Rightarrow> 'j \<Rightarrow> uuid \<Rightarrow> nat \<Rightarrow> (svc_error, 'j decided) res" where
  "play_reversi_move cd doc user cell =
     rbind (rules (rv_parse (decode cd doc))) (\<lambda>s.
     playing (rv_disc_of s user) (\<lambda>disc.
     expect (rv_turn s) (\<lambda>turn.
     ensure (turn = disc) SvcNotYourTurn
      (let base = as_i64 (rv_revision s);
           s = s\<lparr>rv_revision := next_revision (rv_revision s)\<rparr>;
           row = cell div rv_SIZE; col = cell mod rv_SIZE
       in rbind (rules (rv_apply_move s (row, col))) (\<lambda>(s, out).
            expect (if rv_finished out then Some disc else rv_turn s) (\<lambda>turn.
            Ok \<lparr>de_doc = encode cd s, de_base = base, de_revision = rv_revision s,
                de_finished = (if rv_finished out
                               then Some (map_option (rv_user_of s) (rv_winner out), if rv_draw out then Draw else MostDiscs)
                               else None),
                de_next = rv_user_of s turn, de_label = rv_move_label out row col, de_deadline = None\<rparr>))))))"

definition play_checkers ::
  "('j, ck_state) doc_codec \<Rightarrow> 'j \<Rightarrow> uuid \<Rightarrow> nat list \<Rightarrow> (svc_error, 'j decided) res" where
  "play_checkers cd doc user path =
     rbind (rules (ck_parse (decode cd doc))) (\<lambda>s.
     playing (color_of s user) (\<lambda>c.
     ensure (ck_turn s = c) SvcNotYourTurn
      (let base = as_i64 (ck_revision s);
           s = s\<lparr>ck_revision := next_revision (ck_revision s)\<rparr>;
           cells = map (\<lambda>i. (i div ck_SIZE, i mod ck_SIZE)) path
       in rbind (rules (ck_apply_move s cells)) (\<lambda>(s, out).
            Ok \<lparr>de_doc = encode cd s, de_base = base, de_revision = ck_revision s,
                de_finished = (if ck_finished out
                               then Some (map_option (ck_user_of s) (ck_winner out), if ck_draw out then Draw else NoMoves)
                               else None),
                de_next = ck_user_of s (ck_turn s), de_label = ck_move_label out cells, de_deadline = None\<rparr>))))"

definition play_backgammon ::
  "('j, bg_state) doc_codec \<Rightarrow> (nat \<times> nat) list \<Rightarrow> 'j \<Rightarrow> uuid \<Rightarrow> hop list \<Rightarrow> (svc_error, 'j decided) res" where
  "play_backgammon cd draws doc user hops =
     rbind (rules (bg_parse (decode cd doc))) (\<lambda>s.
     playing (bg_color_of s user) (\<lambda>c.
     ensure (bg_turn_of s = c) SvcNotYourTurn
      (let base = as_i64 (bg_revision s);
           s = s\<lparr>bg_revision := next_revision (bg_revision s)\<rparr>
       in rbind (rules (apply_turn s hops)) (\<lambda>(s, out).
          rbind (if bo_finished out then Ok s
                 else (case roll_next draws s of Ok s \<Rightarrow> Ok s | Err _ \<Rightarrow> Err SvcStillRolling | Panic \<Rightarrow> Panic)) (\<lambda>s.
          expect (bg_status_of s) (\<lambda>st.
            Ok \<lparr>de_doc = encode cd s, de_base = base, de_revision = bg_revision s,
                de_finished = (case st of BgOngoing \<Rightarrow> None
                               | BgWin winner \<Rightarrow> Some (Some (bg_user_of s winner), BorneOff)
                               | BgDraw \<Rightarrow> Some (None, Draw)),
                de_next = bg_user_of s (bg_turn_of s), de_label = bg_turn_label out hops, de_deadline = None\<rparr>))))))"

text \<open>\<open>u8::try_from(card_id)\<close>, and the card it names.\<close>

definition card_named :: "nat \<Rightarrow> br_card option" where
  "card_named card_id = (if card_id < 256 then br_card_from_id card_id else None)"

definition play_briscola_card ::
  "('j, br_state) doc_codec \<Rightarrow> 'j \<Rightarrow> uuid \<Rightarrow> nat \<Rightarrow> (svc_error, 'j decided) res" where
  "play_briscola_card cd doc user card_id =
     rbind (rules (br_parse (decode cd doc))) (\<lambda>s.
     playing (br_seat_of s user) (\<lambda>seat.
     expect (table_of s) (\<lambda>t.
     ensure (bt_turn t = seat) SvcNotYourTurn
      (case card_named card_id of
         None \<Rightarrow> Err SvcNotACard
       | Some c \<Rightarrow>
           let base = as_i64 (br_revision s);
               s = s\<lparr>br_revision := next_revision (br_revision s)\<rparr>
           in rbind (rules (apply_play s c)) (\<lambda>(s, out).
                expect (if po_finish out = None then br_turn_user s else Some user) (\<lambda>next_turn.
                Ok \<lparr>de_doc = encode cd s, de_base = base, de_revision = br_revision s,
                    de_finished = (case po_finish out of
                                     None \<Rightarrow> None
                                   | Some (Winner k) \<Rightarrow> Some (Some (br_user_of s k), MostPoints)
                                   | Some DrawnMatch \<Rightarrow> Some (None, Draw)),
                    de_next = next_turn, de_label = play_label out, de_deadline = None\<rparr>))))))"

section \<open>The interface\<close>

text \<open>
  \<open>legal a b t doc\<close>: the document holds a match the engine can replay, between the players \<open>a\<close> and \<open>b\<close>, with
  \<open>t\<close> on the clock. A decided move never panics, is open only to the player on the clock, and leaves either
  a legal document with a player of the match on the clock or a finished match won by one of them or
  by nobody.
\<close>

locale daily_rules =
  fixes decide :: "'j \<Rightarrow> uuid \<Rightarrow> 'm \<Rightarrow> (svc_error, 'j decided) res"
    and legal :: "uuid \<Rightarrow> uuid \<Rightarrow> uuid \<Rightarrow> 'j \<Rightarrow> bool"
  assumes decide_safe: "legal a b t doc \<Longrightarrow> decide doc u m \<noteq> Panic"
    and decide_player: "legal a b t doc \<Longrightarrow> decide doc u m = Ok d \<Longrightarrow> u = a \<or> u = b"
    and decide_goes_on: "legal a b t doc \<Longrightarrow> decide doc t m = Ok d \<Longrightarrow> de_finished d = None \<Longrightarrow>
      legal a b (de_next d) (de_doc d) \<and> (de_next d = a \<or> de_next d = b)"
    and decide_ends: "legal a b t doc \<Longrightarrow> decide doc t m = Ok d \<Longrightarrow> de_finished d = Some (Some w, result) \<Longrightarrow> w = a \<or> w = b"
    and legal_turn: "legal a b t doc \<Longrightarrow> t = a \<or> t = b"
begin

lemma winner_plays: "legal a b t doc \<Longrightarrow> decide doc t m = Ok d \<Longrightarrow>
    case de_finished d of None \<Rightarrow> de_next d \<in> {a, b} | Some (w, _) \<Rightarrow> (case w of None \<Rightarrow> True | Some w \<Rightarrow> w \<in> {a, b})"
  using decide_goes_on decide_ends by (fastforce split: option.splits)

end

section \<open>The engines as instances\<close>

text \<open>What serde promises of a codec: a written state reads back.\<close>

definition codec_ok :: "('j, 's) doc_codec \<Rightarrow> bool" where
  "codec_ok cd \<longleftrightarrow> (\<forall>s. decode cd (encode cd s) = Some s)"

lemma codec_okD: "codec_ok cd \<Longrightarrow> decode cd (encode cd s) = Some s"
  by (simp add: codec_ok_def)

subsection \<open>Connect Four\<close>

definition c4_legal :: "('j, c4_state) doc_codec \<Rightarrow> uuid \<Rightarrow> uuid \<Rightarrow> uuid \<Rightarrow> 'j \<Rightarrow> bool" where
  "c4_legal cd a b t doc \<longleftrightarrow> codec_ok cd \<and> a \<noteq> b \<and>
     (\<exists>s. decode cd doc = Some s \<and> c4_version s = 1 \<and> c4_wf (c4_drops s) \<and> {c4_red s, c4_yellow s} = {a, b} \<and>
        t = c4_user_of s (c4_turn s))"

lemma c4_apply_state:
  assumes "c4_wf (c4_drops s)" and "apply_drop s m = Ok (s', out)"
  shows "s' = c4_dropped s m"
proof -
  obtain g where "c4_grid s = Some g" "c4_filled (c4_drops s) g" using c4_wf_grid [OF assms(1)] by blast
  from apply_drop_eq [OF this, of m] assms(2) show ?thesis by (auto simp: Let_def split: if_splits)
qed

lemma c4_turn_dropped: "c4_turn (c4_dropped s m) = c4_other (c4_turn s)"
proof -
  have "(length (c4_drops s) + 1) mod 2 = 0 \<longleftrightarrow> length (c4_drops s) mod 2 \<noteq> 0" by presburger
  then show ?thesis by (simp add: c4_turn_def c4_dropped_def)
qed

lemma play_connect4_Ok:
  assumes "play_connect4_drop cd doc u m = Ok d" and "decode cd doc = Some s" and "c4_version s = 1" and "c4_wf (c4_drops s)"
  shows "\<exists>s'. c4_disc_of s u = Some (c4_turn s) \<and> s' = c4_dropped (s\<lparr>c4_revision := next_revision (c4_revision s)\<rparr>) m \<and>
    c4_wf (c4_drops s') \<and> de_doc d = encode cd s' \<and> de_next d = c4_user_of s' (c4_other (c4_turn s)) \<and>
    (\<forall>w r. de_finished d = Some (Some w, r) \<longrightarrow> w = u)"
proof -
  let ?s = "s\<lparr>c4_revision := next_revision (c4_revision s)\<rparr>"
  obtain s' out where a: "c4_disc_of s u = Some (c4_turn s)" "apply_drop ?s m = Ok (s', out)"
    "d = \<lparr>de_doc = encode cd s', de_base = as_i64 (c4_revision s), de_revision = c4_revision s',
          de_finished = (if connected out then Some (Some u, FourInARow) else if drop_draw out then Some (None, Draw) else None),
          de_next = c4_user_of s' (c4_other (c4_turn s)), de_label = drop_label out m, de_deadline = None\<rparr>"
    using assms by (auto simp: play_connect4_drop_def c4_parse_def res_simps Let_def)
  have wf: "c4_wf (c4_drops ?s)" using assms(4) by simp
  from c4_apply_state [OF wf a(2)] c4_engine.play_keeps [OF wf a(2)] a show ?thesis
    by (auto split: if_splits)
qed

interpretation c4_daily: daily_rules "play_connect4_drop cd" "c4_legal cd" for cd :: "('j, c4_state) doc_codec"
proof
  fix a b t u :: uuid and doc :: 'j and m d w r
  assume legal: "c4_legal cd a b t doc"
  then obtain s where s: "decode cd doc = Some s" "c4_version s = 1" "c4_wf (c4_drops s)" "{c4_red s, c4_yellow s} = {a, b}"
    "t = c4_user_of s (c4_turn s)" and cd: "codec_ok cd" and ab: "a \<noteq> b"
    by (auto simp: c4_legal_def)
  have wf: "c4_wf (c4_drops (s\<lparr>c4_revision := n\<rparr>))" for n using s(3) by simp
  have users: "c4_user_of s c \<in> {a, b}" for c using s(4) by (cases c) auto
  show "t = a \<or> t = b" using users s(5) by blast
  show "play_connect4_drop cd doc u m \<noteq> Panic"
    using s(1,2) c4_engine.play_safe [OF wf]
    by (auto simp: play_connect4_drop_def c4_parse_def res_simps Let_def)
  {
    assume ok: "play_connect4_drop cd doc u m = Ok d"
    note eff = play_connect4_Ok [OF ok s(1-3)]
    then have "c4_disc_of s u = Some (c4_turn s)" by blast
    then have "c4_user_of s (c4_turn s) = u" using c4_sides.side_sound by blast
    with users show "u = a \<or> u = b" by blast
  }
  {
    assume ok: "play_connect4_drop cd doc t m = Ok d" and fin: "de_finished d = None"
    from play_connect4_Ok [OF ok s(1-3)] obtain s' where s': "s' = c4_dropped (s\<lparr>c4_revision := next_revision (c4_revision s)\<rparr>) m"
      "c4_wf (c4_drops s')" "de_doc d = encode cd s'" "de_next d = c4_user_of s' (c4_other (c4_turn s))" by blast
    have f: "c4_version s' = 1" "c4_red s' = c4_red s" "c4_yellow s' = c4_yellow s" using s(2) s'(1) by (simp_all add: c4_dropped_def)
    have "c4_turn (s\<lparr>c4_revision := next_revision (c4_revision s)\<rparr>) = c4_turn s" by (simp add: c4_turn_def)
    then have turn: "c4_turn s' = c4_other (c4_turn s)" using s'(1) c4_turn_dropped by metis
    have "c4_user_of s' c = c4_user_of s c" for c using f by (cases c) simp_all
    with s' f turn users s(4) cd ab codec_okD [OF cd, of s']
    show "c4_legal cd a b (de_next d) (de_doc d) \<and> (de_next d = a \<or> de_next d = b)"
      by (auto simp: c4_legal_def)
  }
  {
    assume ok: "play_connect4_drop cd doc t m = Ok d" and fin: "de_finished d = Some (Some w, r)"
    from play_connect4_Ok [OF ok s(1-3)] fin have "w = t" by blast
    with users s(5) show "w = a \<or> w = b" by blast
  }
qed

subsection \<open>Reversi\<close>

definition rv_legal :: "('j, rv_state) doc_codec \<Rightarrow> uuid \<Rightarrow> uuid \<Rightarrow> uuid \<Rightarrow> 'j \<Rightarrow> bool" where
  "rv_legal cd a b t doc \<longleftrightarrow> codec_ok cd \<and> a \<noteq> b \<and>
     (\<exists>s c. decode cd doc = Some s \<and> rv_version s = 1 \<and> rv_inv s \<and> {rv_black s, rv_white s} = {a, b} \<and>
        rv_turn s = Some c \<and> t = rv_user_of s c)"

lemma rv_inv_turn: "rv_inv s \<Longrightarrow> \<exists>c. rv_turn s = Some c"
  by (auto simp: rv_inv_def rv_turn_def dest: rv_replay_clock)

lemma rv_revision [simp]: "rv_inv (s\<lparr>rv_revision := n\<rparr>) = rv_inv s" "rv_turn (s\<lparr>rv_revision := n\<rparr>) = rv_turn s"
  by (simp_all add: rv_inv_def rv_turn_def rv_replay_def)

lemma play_reversi_Ok:
  assumes "play_reversi_move cd doc u m = Ok d" and "decode cd doc = Some s" and "rv_version s = 1" and "rv_inv s"
    and "rv_turn s = Some c"
  shows "\<exists>s'. rv_disc_of s u = Some c \<and> rv_inv s' \<and> rv_version s' = 1 \<and> rv_black s' = rv_black s \<and> rv_white s' = rv_white s \<and>
    de_doc d = encode cd s' \<and>
    (de_finished d = None \<longrightarrow> (\<exists>c'. rv_turn s' = Some c' \<and> de_next d = rv_user_of s' c')) \<and>
    (\<forall>w r. de_finished d = Some (Some w, r) \<longrightarrow> (\<exists>c'. w = rv_user_of s' c'))"
proof -
  let ?s = "s\<lparr>rv_revision := next_revision (rv_revision s)\<rparr>"
  obtain s' out where a: "rv_disc_of s u = Some c" "rv_apply_move ?s (m div 8, m mod 8) = Ok (s', out)"
    "de_doc d = encode cd s'"
    "de_finished d = (if rv_finished out then Some (map_option (rv_user_of s') (rv_winner out), if rv_draw out then Draw else MostDiscs) else None)"
    "\<not> rv_finished out \<Longrightarrow> \<exists>c'. rv_turn s' = Some c' \<and> de_next d = rv_user_of s' c'"
    using assms by (auto simp: play_reversi_move_def rv_parse_def res_simps Let_def split: if_splits)
  have inv: "rv_inv ?s" using assms(4) by simp
  from rv_engine.play_keeps [OF inv a(2)] have "rv_inv s'" .
  moreover from inv obtain g t where "rv_replay_moves rv_starting_grid RvBlack (rv_moves ?s) = Some (g, t)"
    by (auto simp: rv_inv_def)
  from rv_apply_ok(2) [OF this a(2)] have "rv_version s' = rv_version s" "rv_black s' = rv_black s" "rv_white s' = rv_white s"
    by simp_all
  ultimately show ?thesis using a assms(3) by auto
qed

interpretation rv_daily: daily_rules "play_reversi_move cd" "rv_legal cd" for cd :: "('j, rv_state) doc_codec"
proof
  fix a b t u :: uuid and doc :: 'j and m d w r
  assume legal: "rv_legal cd a b t doc"
  then obtain s c where s: "decode cd doc = Some s" "rv_version s = 1" "rv_inv s" "rv_turn s = Some c"
    "{rv_black s, rv_white s} = {a, b}" "t = rv_user_of s c" and cd: "codec_ok cd" and ab: "a \<noteq> b"
    by (auto simp: rv_legal_def)
  have users: "rv_user_of s c \<in> {a, b}" for c using s(5) by (cases c) auto
  show "t = a \<or> t = b" using users s(6) by blast
  have inv: "rv_inv (s\<lparr>rv_revision := n\<rparr>)" for n using s(3) by simp
  show "play_reversi_move cd doc u m \<noteq> Panic"
    using s(1,2,4) rv_engine.play_safe [OF inv] rv_engine.play_keeps [OF inv] rv_inv_turn
    by (fastforce simp: play_reversi_move_def rv_parse_def res_simps Let_def split: if_splits)
  {
    assume ok: "play_reversi_move cd doc u m = Ok d"
    from play_reversi_Ok [OF ok s(1-4)] have "rv_disc_of s u = Some c" by blast
    then have "rv_user_of s c = u" using rv_sides.side_sound by blast
    with users show "u = a \<or> u = b" by blast
  }
  {
    assume ok: "play_reversi_move cd doc t m = Ok d" and fin: "de_finished d = None"
    from play_reversi_Ok [OF ok s(1-4)] fin obtain s' c' where s': "rv_inv s'" "rv_version s' = 1" "rv_black s' = rv_black s"
      "rv_white s' = rv_white s" "de_doc d = encode cd s'" "rv_turn s' = Some c'" "de_next d = rv_user_of s' c'" by blast
    have "rv_user_of s' c' = rv_user_of s c'" using s' by (cases c') simp_all
    with users have next_in: "de_next d = a \<or> de_next d = b" using s'(7) by auto
    show "rv_legal cd a b (de_next d) (de_doc d) \<and> (de_next d = a \<or> de_next d = b)"
      using s' next_in s(5) cd ab codec_okD [OF cd, of s'] by (auto simp: rv_legal_def)
  }
  {
    assume ok: "play_reversi_move cd doc t m = Ok d" and fin: "de_finished d = Some (Some w, r)"
    from play_reversi_Ok [OF ok s(1-4)] fin obtain s' c' where "rv_black s' = rv_black s" "rv_white s' = rv_white s"
      "w = rv_user_of s' c'" by blast
    with users [of c'] show "w = a \<or> w = b" by (cases c') auto
  }
qed

subsection \<open>Checkers\<close>

definition ck_legal :: "('j, ck_state) doc_codec \<Rightarrow> uuid \<Rightarrow> uuid \<Rightarrow> uuid \<Rightarrow> 'j \<Rightarrow> bool" where
  "ck_legal cd a b t doc \<longleftrightarrow> codec_ok cd \<and> a \<noteq> b \<and>
     (\<exists>s. decode cd doc = Some s \<and> ck_version s = 1 \<and> ck_inv s \<and> {ck_red s, ck_white s} = {a, b} \<and>
        t = ck_user_of s (ck_turn s))"

lemma ck_revision_simps [simp]: "ck_inv (s\<lparr>ck_revision := n\<rparr>) = ck_inv s" "ck_turn (s\<lparr>ck_revision := n\<rparr>) = ck_turn s"
  by (simp_all add: ck_inv_def ck_turn_def ck_replay_def)

lemma ck_apply_fields:
  assumes "ck_inv s" and "ck_apply_move s path = Ok (s', out)"
  shows "ck_version s' = ck_version s \<and> ck_red s' = ck_red s \<and> ck_white s' = ck_white s"
proof -
  obtain g n where g: "ck_replay s = Some (g, n)" using assms(1) by (auto simp: ck_inv_def)
  from ck_apply_cases [OF g, of path] assms(2) have "s' = ck_played s path" by auto
  then show ?thesis by (simp add: ck_played_def)
qed

lemma play_checkers_Ok:
  assumes "play_checkers cd doc u m = Ok d" and "decode cd doc = Some s" and "ck_version s = 1" and "ck_inv s"
  shows "\<exists>s'. color_of s u = Some (ck_turn s) \<and> ck_inv s' \<and> ck_version s' = 1 \<and> ck_red s' = ck_red s \<and> ck_white s' = ck_white s \<and>
    de_doc d = encode cd s' \<and> de_next d = ck_user_of s' (ck_turn s') \<and>
    (\<forall>w r. de_finished d = Some (Some w, r) \<longrightarrow> (\<exists>c'. w = ck_user_of s' c'))"
proof -
  let ?s = "s\<lparr>ck_revision := next_revision (ck_revision s)\<rparr>"
  obtain s' out where a: "color_of s u = Some (ck_turn s)" "ck_apply_move ?s (map (\<lambda>i. (i div 8, i mod 8)) m) = Ok (s', out)"
    "de_doc d = encode cd s'" "de_next d = ck_user_of s' (ck_turn s')"
    "de_finished d = (if ck_finished out then Some (map_option (ck_user_of s') (ck_winner out), if ck_draw out then Draw else NoMoves) else None)"
    using assms by (auto simp: play_checkers_def ck_parse_def res_simps Let_def)
  have inv: "ck_inv ?s" using assms(4) by simp
  from ck_engine.play_keeps [OF inv a(2)] ck_apply_fields [OF inv a(2)] a assms(3) show ?thesis by (auto split: if_splits)
qed

interpretation ck_daily: daily_rules "play_checkers cd" "ck_legal cd" for cd :: "('j, ck_state) doc_codec"
proof
  fix a b t u :: uuid and doc :: 'j and m d w r
  assume legal: "ck_legal cd a b t doc"
  then obtain s where s: "decode cd doc = Some s" "ck_version s = 1" "ck_inv s"
    "{ck_red s, ck_white s} = {a, b}" "t = ck_user_of s (ck_turn s)" and cd: "codec_ok cd" and ab: "a \<noteq> b"
    by (auto simp: ck_legal_def)
  have users: "ck_user_of s c \<in> {a, b}" for c using s(4) by (cases c) auto
  show "t = a \<or> t = b" using users s(5) by blast
  have inv: "ck_inv (s\<lparr>ck_revision := n\<rparr>)" for n using s(3) by simp
  show "play_checkers cd doc u m \<noteq> Panic"
    using s(1,2) ck_engine.play_safe [OF inv] by (auto simp: play_checkers_def ck_parse_def res_simps Let_def)
  {
    assume ok: "play_checkers cd doc u m = Ok d"
    from play_checkers_Ok [OF ok s(1-3)] have "color_of s u = Some (ck_turn s)" by blast
    then have "ck_user_of s (ck_turn s) = u" using ck_sides.side_sound by blast
    with users show "u = a \<or> u = b" by blast
  }
  {
    assume ok: "play_checkers cd doc t m = Ok d" and fin: "de_finished d = None"
    from play_checkers_Ok [OF ok s(1-3)] obtain s' where s': "ck_inv s'" "ck_version s' = 1" "ck_red s' = ck_red s"
      "ck_white s' = ck_white s" "de_doc d = encode cd s'" "de_next d = ck_user_of s' (ck_turn s')" by blast
    have "ck_user_of s' (ck_turn s') = ck_user_of s (ck_turn s')" using s' by (cases "ck_turn s'") simp_all
    with users have next_in: "de_next d = a \<or> de_next d = b" using s'(6) by auto
    show "ck_legal cd a b (de_next d) (de_doc d) \<and> (de_next d = a \<or> de_next d = b)"
      using s' next_in s(4) cd ab codec_okD [OF cd, of s'] by (auto simp: ck_legal_def)
  }
  {
    assume ok: "play_checkers cd doc t m = Ok d" and fin: "de_finished d = Some (Some w, r)"
    from play_checkers_Ok [OF ok s(1-3)] fin obtain s' c' where "ck_red s' = ck_red s" "ck_white s' = ck_white s"
      "w = ck_user_of s' c'" by blast
    with users [of c'] show "w = a \<or> w = b" by (cases c') auto
  }
qed

subsection \<open>Backgammon\<close>

definition bg_legal :: "('j, bg_state) doc_codec \<Rightarrow> uuid \<Rightarrow> uuid \<Rightarrow> uuid \<Rightarrow> 'j \<Rightarrow> bool" where
  "bg_legal cd a b t doc \<longleftrightarrow> codec_ok cd \<and> a \<noteq> b \<and>
     (\<exists>s. decode cd doc = Some s \<and> bg_version s = 1 \<and> bg_inv s \<and> bg_next_roll s \<noteq> None \<and>
        {bg_white s, bg_red s} = {a, b} \<and> t = bg_user_of s (bg_turn_of s))"

lemma bg_revision [simp]: "bg_inv (s\<lparr>bg_revision := n\<rparr>) = bg_inv s" "bg_turn_of (s\<lparr>bg_revision := n\<rparr>) = bg_turn_of s"
proof -
  show turn: "bg_turn_of (s\<lparr>bg_revision := n\<rparr>) = bg_turn_of s" by (simp add: bg_turn_of_def)
  show "bg_inv (s\<lparr>bg_revision := n\<rparr>) = bg_inv s" by (cases "bg_next_roll s") (simp_all add: bg_inv_def turn)
qed

lemma apply_turn_fields:
  assumes "bg_inv s" and "apply_turn s hops = Ok (s', out)"
  shows "bg_version s' = bg_version s \<and> bg_white s' = bg_white s \<and> bg_red s' = bg_red s"
proof -
  obtain b where b: "bg_board_of s = Some b" using bg_inv_board [OF assms(1)] by blast
  from assms(2) show ?thesis
    unfolding apply_turn_cases [OF assms(1) b] by (auto simp: Let_def split: option.splits if_splits)
qed

text \<open>The roll that follows a turn keeps the match and its players.\<close>

lemma roll_next_fields:
  assumes "bg_inv s" and "roll_next draws s = Ok s'"
  shows "bg_inv s' \<and> bg_version s' = bg_version s \<and> bg_white s' = bg_white s \<and> bg_red s' = bg_red s \<and>
    (bg_next_roll s' = None \<longrightarrow> bg_is_finished s' = Some True)"
proof -
  obtain b where b: "bg_board_of s = Some b" using bg_inv_board [OF assms(1)] by blast
  have "rolled b s s' \<and> bg_inv s'"
    using roll_next_ok [OF bg_inv_without_roll [OF assms(1)] b, of draws] assms(2) by blast
  then show ?thesis by (auto simp: rolled_def)
qed

lemma bg_ongoing_not_finished: "bg_status_of s = Some BgOngoing \<Longrightarrow> bg_is_finished s = Some False"
  by (simp add: bg_is_finished_def)

lemma bg_inv_status: "bg_inv s \<Longrightarrow> bg_status_of s \<noteq> None"
  by (metis bg_inv_board bg_status_board option.distinct(1))

lemma bg_outcome_ongoing:
  assumes "bg_inv s" and "apply_turn s hops = Ok (s', out)" and "bg_status_of s' = Some BgOngoing"
  shows "\<not> bo_finished out"
proof -
  obtain b where b: "bg_board_of s = Some b" using bg_inv_board [OF assms(1)] by blast
  from assms(2,3) show ?thesis
    unfolding apply_turn_cases [OF assms(1) b] by (auto simp: Let_def split: option.splits if_splits)
qed

lemma play_backgammon_Ok:
  assumes "play_backgammon cd draws doc u m = Ok d" and "decode cd doc = Some s" and "bg_version s = 1" and "bg_inv s"
  shows "\<exists>s'. bg_color_of s u = Some (bg_turn_of s) \<and> bg_inv s' \<and> bg_version s' = 1 \<and> bg_white s' = bg_white s \<and>
    bg_red s' = bg_red s \<and> de_doc d = encode cd s' \<and> de_next d = bg_user_of s' (bg_turn_of s') \<and>
    (de_finished d = None \<longrightarrow> bg_next_roll s' \<noteq> None) \<and>
    (\<forall>w r. de_finished d = Some (Some w, r) \<longrightarrow> (\<exists>c'. w = bg_user_of s' c'))"
proof -
  let ?s = "s\<lparr>bg_revision := next_revision (bg_revision s)\<rparr>"
  obtain s1 out s' st where a: "bg_color_of s u = Some (bg_turn_of s)" "apply_turn ?s m = Ok (s1, out)"
    "(if bo_finished out then Ok s1 else (case roll_next draws s1 of Ok s \<Rightarrow> Ok s | Err _ \<Rightarrow> Err SvcStillRolling | Panic \<Rightarrow> Panic)) = Ok s'"
    "bg_status_of s' = Some st" "de_doc d = encode cd s'" "de_next d = bg_user_of s' (bg_turn_of s')"
    "de_finished d = (case st of BgOngoing \<Rightarrow> None | BgWin winner \<Rightarrow> Some (Some (bg_user_of s' winner), BorneOff) | BgDraw \<Rightarrow> Some (None, Draw))"
    using assms by (auto simp: play_backgammon_def bg_parse_def res_simps Let_def)
  have inv: "bg_inv ?s" using assms(4) by simp
  have inv1: "bg_inv s1" using apply_turn_Ok [OF inv a(2)] by blast
  have f1: "bg_version s1 = 1 \<and> bg_white s1 = bg_white s \<and> bg_red s1 = bg_red s"
    using apply_turn_fields [OF inv a(2)] assms(3) by simp
  have s': "bg_inv s' \<and> bg_version s' = 1 \<and> bg_white s' = bg_white s \<and> bg_red s' = bg_red s \<and>
      (st = BgOngoing \<longrightarrow> bg_next_roll s' \<noteq> None)"
  proof (cases "bo_finished out")
    case True
    then have "s' = s1" using a(3) by simp
    with bg_outcome_ongoing [OF inv a(2)] True a(4) inv1 f1 show ?thesis by auto
  next
    case False
    then have r: "roll_next draws s1 = Ok s'" using a(3) by (auto split: res.splits)
    from roll_next_fields [OF inv1 r] f1 a(4) show ?thesis by (auto dest: bg_ongoing_not_finished)
  qed
  with a show ?thesis by (auto split: bg_status.splits)
qed

interpretation bg_daily: daily_rules "play_backgammon cd draws" "bg_legal cd" for cd :: "('j, bg_state) doc_codec" and draws
proof
  fix a b t u :: uuid and doc :: 'j and m d w r
  assume legal: "bg_legal cd a b t doc"
  then obtain s where s: "decode cd doc = Some s" "bg_version s = 1" "bg_inv s"
    "{bg_white s, bg_red s} = {a, b}" "t = bg_user_of s (bg_turn_of s)" and cd: "codec_ok cd" and ab: "a \<noteq> b"
    by (auto simp: bg_legal_def)
  have users: "bg_user_of s c \<in> {a, b}" for c using s(4) by (cases c) auto
  show "t = a \<or> t = b" using users s(5) by blast
  have inv: "bg_inv (s\<lparr>bg_revision := n\<rparr>)" for n using s(3) by simp
  let ?s = "s\<lparr>bg_revision := next_revision (bg_revision s)\<rparr>"
  have safe: "apply_turn ?s m \<noteq> Panic"
  proof -
    obtain b where b: "bg_board_of ?s = Some b" using bg_inv_board [OF inv] by blast
    show ?thesis unfolding apply_turn_cases [OF inv b] by (simp add: Let_def split: option.splits)
  qed
  have after: "bg_status_of s1 \<noteq> None \<and> roll_next draws s1 \<noteq> Panic \<and> (\<forall>s'. roll_next draws s1 = Ok s' \<longrightarrow> bg_status_of s' \<noteq> None)"
    if "apply_turn ?s m = Ok (s1, out)" for s1 out
  proof -
    have inv1: "bg_inv s1" using apply_turn_Ok [OF inv that] by blast
    then obtain b where b: "bg_board_of s1 = Some b" using bg_inv_board by blast
    have "roll_next draws s1 \<noteq> Panic" using roll_next_ok [OF bg_inv_without_roll [OF inv1] b] by blast
    then show ?thesis using bg_inv_status inv1 roll_next_fields [OF inv1] by blast
  qed
  show "play_backgammon cd draws doc u m \<noteq> Panic"
    using s(1,2) safe after by (fastforce simp: play_backgammon_def bg_parse_def res_simps Let_def split: if_splits res.splits)
  {
    assume ok: "play_backgammon cd draws doc u m = Ok d"
    from play_backgammon_Ok [OF ok s(1-3)] have "bg_color_of s u = Some (bg_turn_of s)" by blast
    then have "bg_user_of s (bg_turn_of s) = u" using bg_sides.side_sound by blast
    with users show "u = a \<or> u = b" by blast
  }
  {
    assume ok: "play_backgammon cd draws doc t m = Ok d" and fin: "de_finished d = None"
    from play_backgammon_Ok [OF ok s(1-3)] fin obtain s' where s': "bg_inv s'" "bg_version s' = 1" "bg_white s' = bg_white s"
      "bg_red s' = bg_red s" "de_doc d = encode cd s'" "de_next d = bg_user_of s' (bg_turn_of s')" "bg_next_roll s' \<noteq> None" by blast
    have "bg_user_of s' (bg_turn_of s') = bg_user_of s (bg_turn_of s')" using s' by (cases "bg_turn_of s'") simp_all
    with users have next_in: "de_next d = a \<or> de_next d = b" using s'(6) by auto
    show "bg_legal cd a b (de_next d) (de_doc d) \<and> (de_next d = a \<or> de_next d = b)"
      using s' next_in s(4) cd ab codec_okD [OF cd, of s'] by (auto simp: bg_legal_def)
  }
  {
    assume ok: "play_backgammon cd draws doc t m = Ok d" and fin: "de_finished d = Some (Some w, r)"
    from play_backgammon_Ok [OF ok s(1-3)] fin obtain s' c' where "bg_white s' = bg_white s" "bg_red s' = bg_red s"
      "w = bg_user_of s' c'" by blast
    with users [of c'] show "w = a \<or> w = b" by (cases c') auto
  }
qed

subsection \<open>Briscola\<close>

definition br_legal :: "('j, br_state) doc_codec \<Rightarrow> uuid \<Rightarrow> uuid \<Rightarrow> uuid \<Rightarrow> 'j \<Rightarrow> bool" where
  "br_legal cd a b t doc \<longleftrightarrow> codec_ok cd \<and> a \<noteq> b \<and>
     (\<exists>s. decode cd doc = Some s \<and> br_version s = 1 \<and> br_inv s \<and> {fst (br_seats s), snd (br_seats s)} = {a, b} \<and>
        br_turn_user s = Some t)"

lemma br_revision_simps [simp]: "br_inv (s\<lparr>br_revision := n\<rparr>) = br_inv s" "table_of (s\<lparr>br_revision := n\<rparr>) = table_of s"
  by (simp_all add: br_inv_def table_of_def br_trump_def)

lemma br_inv_plays: "br_inv s \<Longrightarrow> length (br_plays s) \<le> 40"
proof -
  assume inv: "br_inv s"
  then obtain t where "br_ok (br_deck s) (br_plays s) t" by (auto simp: br_inv_def)
  then have "mset (bt_hands t 0) + mset (bt_hands t 1) + mset (br_plays s) + mset (drop (bt_drawn t) (stock_order (br_deck s)))
      = mset (br_deck s)"
    unfolding br_ok_def by blast
  from arg_cong [OF this, of size] have "length (br_plays s) \<le> length (br_deck s)" by simp
  with br_inv_deck [OF inv] show ?thesis by simp
qed

lemma br_inv_parses: "br_inv s \<Longrightarrow> br_version s = 1 \<Longrightarrow> br_parse (Some s) = Ok s"
  using br_inv_plays [of s] by (simp add: br_parse_Ok br_inv_def)

lemma br_user_in: "br_user_of s k \<in> {fst (br_seats s), snd (br_seats s)}"
  by (simp add: br_user_of_def)

lemma apply_play_fields:
  assumes "br_inv s" and "apply_play s c = Ok (s', out)"
  shows "br_version s' = br_version s \<and> br_seats s' = br_seats s"
proof -
  obtain t where t: "table_of s = Some t" using assms(1) by (auto simp: br_inv_def)
  from apply_play_cases [OF assms(1) t, of c] assms(2) show ?thesis by auto
qed

lemma play_briscola_Ok:
  assumes "play_briscola_card cd doc u m = Ok d" and "decode cd doc = Some s" and "br_version s = 1" and "br_inv s"
  shows "\<exists>s'. br_seat_of s u \<noteq> None \<and> br_inv s' \<and> br_version s' = 1 \<and> br_seats s' = br_seats s \<and> de_doc d = encode cd s' \<and>
    (de_finished d = None \<longrightarrow> br_turn_user s' = Some (de_next d)) \<and>
    (\<forall>w r. de_finished d = Some (Some w, r) \<longrightarrow> (\<exists>k. w = br_user_of s' k))"
proof -
  let ?s = "s\<lparr>br_revision := next_revision (br_revision s)\<rparr>"
  define made where "made s' out v = \<lparr>de_doc = encode cd s', de_base = as_i64 (br_revision s), de_revision = br_revision s',
      de_finished = (case po_finish out of None \<Rightarrow> None | Some (Winner k) \<Rightarrow> Some (Some (br_user_of s' k), MostPoints)
        | Some DrawnMatch \<Rightarrow> Some (None, Draw)),
      de_next = v, de_label = play_label out, de_deadline = None\<rparr>" for s' out v
  obtain c s' out where a: "br_seat_of s u \<noteq> None" "apply_play ?s c = Ok (s', out)" "de_doc d = encode cd s'"
    "po_finish out = None \<Longrightarrow> br_turn_user s' = Some (de_next d)"
    "de_finished d = (case po_finish out of None \<Rightarrow> None | Some (Winner k) \<Rightarrow> Some (Some (br_user_of s' k), MostPoints)
       | Some DrawnMatch \<Rightarrow> Some (None, Draw))"
  proof -
    assume goal: "\<And>c s' out. br_seat_of s u \<noteq> None \<Longrightarrow> apply_play ?s c = Ok (s', out) \<Longrightarrow> de_doc d = encode cd s' \<Longrightarrow>
      (po_finish out = None \<Longrightarrow> br_turn_user s' = Some (de_next d)) \<Longrightarrow>
      de_finished d = (case po_finish out of None \<Rightarrow> None | Some (Winner k) \<Rightarrow> Some (Some (br_user_of s' k), MostPoints)
       | Some DrawnMatch \<Rightarrow> Some (None, Draw)) \<Longrightarrow> thesis"
    have "card_named m \<noteq> None"
    proof
      assume "card_named m = None"
      with assms(1) show False by (auto simp: play_briscola_card_def assms(2) br_inv_parses [OF assms(4,3)] res_simps)
    qed
    then obtain c where c: "card_named m = Some c" by blast
    obtain t :: br_table and s' out v where e: "br_seat_of s u = Some (bt_turn t)" "apply_play ?s c = Ok (s', out)"
      "(if po_finish out = None then br_turn_user s' else Some u) = Some v" "d = made s' out v"
      using assms(1) by (auto simp: play_briscola_card_def made_def assms(2) br_inv_parses [OF assms(4,3)] res_simps Let_def c)
    show thesis by (rule goal [of c s' out]) (use e in \<open>auto simp: made_def\<close>)
  qed
  have inv: "br_inv ?s" using assms(4) by simp
  from br_engine.play_keeps [OF inv a(2)] apply_play_fields [OF inv a(2)] a assms(3) show ?thesis
    by (auto split: option.splits match_end.splits)
qed

interpretation br_daily: daily_rules "play_briscola_card cd" "br_legal cd" for cd :: "('j, br_state) doc_codec"
proof
  fix a b t u :: uuid and doc :: 'j and m d w r
  assume legal: "br_legal cd a b t doc"
  then obtain s where s: "decode cd doc = Some s" "br_version s = 1" "br_inv s"
    "{fst (br_seats s), snd (br_seats s)} = {a, b}" "br_turn_user s = Some t" and cd: "codec_ok cd" and ab: "a \<noteq> b"
    by (auto simp: br_legal_def)
  have users: "br_user_of s c \<in> {a, b}" for c using s(4) br_user_in [of s c] by simp
  show "t = a \<or> t = b" using users s(5) by (auto simp: br_turn_user_def)
  have inv: "br_inv (s\<lparr>br_revision := n\<rparr>)" for n using s(3) by simp
  have tab: "br_inv s' \<Longrightarrow> \<exists>x. table_of s' = Some x" for s' by (auto simp: br_inv_def)
  then have turn: "br_inv s' \<Longrightarrow> br_turn_user s' \<noteq> None" for s' by (auto simp: br_turn_user_def)
  show "play_briscola_card cd doc u m \<noteq> Panic"
    using s(1,2) br_inv_parses [OF s(3)] br_engine.play_safe [OF inv] br_engine.play_keeps [OF inv] turn tab [OF s(3)]
    by (auto simp: play_briscola_card_def res_simps Let_def split: option.splits if_splits)
  {
    assume ok: "play_briscola_card cd doc u m = Ok d"
    from play_briscola_Ok [OF ok s(1-3)] obtain k where "br_seat_of s u = Some k" by blast
    then have "br_user_of s k = u" using br_sides.side_sound by blast
    with users show "u = a \<or> u = b" by blast
  }
  {
    assume ok: "play_briscola_card cd doc t m = Ok d" and fin: "de_finished d = None"
    from play_briscola_Ok [OF ok s(1-3)] fin obtain s' where s': "br_inv s'" "br_version s' = 1" "br_seats s' = br_seats s"
      "de_doc d = encode cd s'" "br_turn_user s' = Some (de_next d)" by blast
    then obtain z :: br_table where "br_user_of s' (bt_turn z) = de_next d" by (auto simp: br_turn_user_def)
    with s'(3) s(4) br_user_in [of s' "bt_turn z"] have next_in: "de_next d = a \<or> de_next d = b" by simp
    show "br_legal cd a b (de_next d) (de_doc d) \<and> (de_next d = a \<or> de_next d = b)"
      using s' next_in s(4) cd ab codec_okD [OF cd, of s'] by (auto simp: br_legal_def)
  }
  {
    assume ok: "play_briscola_card cd doc t m = Ok d" and fin: "de_finished d = Some (Some w, r)"
    from play_briscola_Ok [OF ok s(1-3)] fin obtain s' k where "br_seats s' = br_seats s" "w = br_user_of s' k" by blast
    with br_user_in [of s' k] s(4) show "w = a \<or> w = b" by auto
  }
qed

subsection \<open>Battleship\<close>

definition bs_legal :: "('j, bs_state) doc_codec \<Rightarrow> uuid \<Rightarrow> uuid \<Rightarrow> uuid \<Rightarrow> 'j \<Rightarrow> bool" where
  "bs_legal cd a b t doc \<longleftrightarrow> codec_ok cd \<and> a \<noteq> b \<and> (t = a \<or> t = b) \<and>
     (\<exists>s. decode cd doc = Some s \<and> bs_version s = 1 \<and> bs_inv s \<and>
        {bs_user_id (fst (bs_sides s)), bs_user_id (snd (bs_sides s))} = {a, b})"

lemma bs_revision_simps [simp]: "bs_inv (s\<lparr>bs_revision := n\<rparr>) = bs_inv s"
  by (simp add: bs_inv_def mine_def)

lemma side_index_seat: "side_index_of s u = Some i \<Longrightarrow> \<exists>b. i = seat b \<and> bs_user_id (mine s b) = u"
  by (auto simp: side_index_of_def seat_def mine_def split: if_splits)

lemma apply_shot_fields:
  assumes "bs_inv s" and "apply_shot s (seat b) cell now = Ok (s', out)"
  shows "bs_inv s' \<and> bs_version s' = bs_version s \<and> (\<forall>b. bs_user_id (mine s' b) = bs_user_id (mine s b))"
proof -
  from assms have c: "cell < 100" "cell \<notin> fired (mine s b)" "s' = shot_state s b cell now"
    by (auto simp: apply_shot_eq split: if_splits)
  have "bs_version s' = bs_version s" by (simp add: c(3) shot_state_def push_shot_def Let_def split: prod.split)
  moreover have "bs_user_id (mine s' x) = bs_user_id (mine s x)" for x
    by (cases "x = b") (simp_all add: c(3) shot_state_def mine_push)
  ultimately show ?thesis using shot_state_inv [OF assms(1) c(1,2)] c(3) by simp
qed

lemma mine_users: "{bs_user_id (fst (bs_sides s)), bs_user_id (snd (bs_sides s))} = {bs_user_id (mine s True), bs_user_id (mine s False)}"
  by (simp add: mine_def)

lemma play_battleship_Ok:
  assumes "play_battleship_shot cd now doc u m = Ok d" and "decode cd doc = Some s" and "bs_version s = 1" and "bs_inv s"
  shows "\<exists>s' x y. bs_user_id (mine s x) = u \<and> bs_inv s' \<and> bs_version s' = 1 \<and> (\<forall>b. bs_user_id (mine s' b) = bs_user_id (mine s b)) \<and>
    de_doc d = encode cd s' \<and> de_next d = bs_user_id (mine s y) \<and>
    (\<forall>w r. de_finished d = Some (Some w, r) \<longrightarrow> w = u)"
proof -
  let ?s = "s\<lparr>bs_revision := next_revision (bs_revision s)\<rparr>"
  obtain i s' out where a: "side_index_of s u = Some i" "apply_shot ?s i m now = Ok (s', out)"
    "(if so_fleet_sunk out \<or> so_hit out then Some u else map_option bs_user_id (bs_side_at s' (opponent_index i))) = Some (de_next d)"
    "de_doc d = encode cd s'" "de_finished d = (if so_fleet_sunk out then Some (Some u, FleetSunk) else None)"
    using assms by (auto simp: play_battleship_shot_def bs_parse_def res_simps Let_def)
  obtain x where x: "i = seat x" "bs_user_id (mine s x) = u" using side_index_seat [OF a(1)] by blast
  have inv: "bs_inv ?s" using assms(4) by simp
  note f = apply_shot_fields [OF inv a(2) [unfolded x(1)]]
  then have users: "\<forall>b. bs_user_id (mine s' b) = bs_user_id (mine s b)" by (simp add: mine_def)
  have "de_next d = bs_user_id (mine s x) \<or> de_next d = bs_user_id (mine s (\<not> x))"
    using a(3) x users by (auto split: if_splits)
  then have "\<exists>y. de_next d = bs_user_id (mine s y)" by blast
  with f users a x assms(3) show ?thesis by (auto split: if_splits)
qed

interpretation bs_daily: daily_rules "play_battleship_shot cd now" "bs_legal cd" for cd :: "('j, bs_state) doc_codec" and now
proof
  fix a b t u :: uuid and doc :: 'j and m d w r
  assume legal: "bs_legal cd a b t doc"
  then obtain s where s: "decode cd doc = Some s" "bs_version s = 1" "bs_inv s"
    "{bs_user_id (mine s True), bs_user_id (mine s False)} = {a, b}" and cd: "codec_ok cd" and ab: "a \<noteq> b" and t: "t = a \<or> t = b"
    by (auto simp: bs_legal_def mine_users)
  show "t = a \<or> t = b" by (rule t)
  have users: "bs_user_id (mine s x) \<in> {a, b}" for x using s(4) by (cases x) auto
  have inv: "bs_inv (s\<lparr>bs_revision := n\<rparr>)" for n using s(3) by simp
  have safe: "apply_shot (s\<lparr>bs_revision := n\<rparr>) (seat x) m now \<noteq> Panic" for n x
    using bs_engine.play_safe [OF inv, of n "(x, m, now)"] by (simp add: bs_play_def)
  show "play_battleship_shot cd now doc u m \<noteq> Panic"
    using s(1,2) safe by (auto simp: play_battleship_shot_def bs_parse_def res_simps Let_def split: if_splits dest!: side_index_seat)
  {
    assume ok: "play_battleship_shot cd now doc u m = Ok d"
    from play_battleship_Ok [OF ok s(1-3)] users show "u = a \<or> u = b" by blast
  }
  {
    assume ok: "play_battleship_shot cd now doc t m = Ok d" and fin: "de_finished d = None"
    from play_battleship_Ok [OF ok s(1-3)] obtain s' y where s': "bs_inv s'" "bs_version s' = 1"
      "\<forall>b. bs_user_id (mine s' b) = bs_user_id (mine s b)" "de_doc d = encode cd s'" "de_next d = bs_user_id (mine s y)" by blast
    then have next_in: "de_next d = a \<or> de_next d = b" using users by auto
    show "bs_legal cd a b (de_next d) (de_doc d) \<and> (de_next d = a \<or> de_next d = b)"
      using s' next_in s(4) cd ab codec_okD [OF cd, of s'] by (auto simp: bs_legal_def mine_users)
  }
  {
    assume ok: "play_battleship_shot cd now doc t m = Ok d" and fin: "de_finished d = Some (Some w, r)"
    from play_battleship_Ok [OF ok s(1-3)] fin t show "w = a \<or> w = b" by blast
  }
qed

end
