(* ===== verification/DailyCards.thy ===== *)
theory DailyCards
  imports DailyEngines CribbageMatch GinMatch
begin

text \<open>
  How the daily match service plays a move of the card games that go over several hands
  (\<open>late-ssh/src/app/lobby/daily/svc.rs\<close>, \<open>play_cribbage\<close> and \<open>play_gin\<close> up to \<open>commit_card_move\<close>): the move is
  applied, and when it ended a hand short of the match the service deals the next one before it writes. A draw
  of gin keeps the deadline of the row. Both are instances of \<open>daily_rules\<close>.
\<close>

section \<open>The moves\<close>

text \<open>Where a move leaves the match: won, or with a player who owes the next move.\<close>

datatype card_step = CardFinish uuid daily_result | CardPass uuid

definition card_pass :: "uuid option option \<Rightarrow> (svc_error, card_step) res" where
  "card_pass turn = expect turn (\<lambda>mover. case mover of None \<Rightarrow> Err SvcNoMover | Some u \<Rightarrow> Ok (CardPass u))"

text \<open>What \<open>commit_card_move\<close> is asked to write; a won match has no next player.\<close>

definition card_decided :: "'j \<Rightarrow> int \<Rightarrow> nat \<Rightarrow> string \<Rightarrow> card_step \<Rightarrow> int option \<Rightarrow> 'j decided" where
  "card_decided doc base revision label card_step deadline =
     \<lparr>de_doc = doc, de_base = base, de_revision = revision,
      de_finished = (case card_step of CardFinish winner result \<Rightarrow> Some (Some winner, result) | CardPass _ \<Rightarrow> None),
      de_next = (case card_step of CardFinish winner _ \<Rightarrow> winner | CardPass mover \<Rightarrow> mover),
      de_label = label, de_deadline = deadline\<rparr>"

definition play_cribbage ::
  "('j, cb_state) doc_codec \<Rightarrow> (nat \<Rightarrow> nat) \<Rightarrow> 'j \<Rightarrow> uuid \<Rightarrow> cb_move \<Rightarrow> (svc_error, 'j decided) res" where
  "play_cribbage cd raw doc user played =
     rbind (rules (cb_parse (decode cd doc))) (\<lambda>s.
     expect (cb_turn_user s) (\<lambda>turn.
     ensure (turn = Some user) SvcNotYourTurn
      (let base = as_i64 (cb_revision s);
           s = s\<lparr>cb_revision := next_revision (cb_revision s)\<rparr>
       in rbind (rules (cb_apply_move s played)) (\<lambda>(s, out).
          rbind (case co_phase out of
                   CbWon winner \<Rightarrow> Ok (s, CardFinish (cb_user_of s winner) PeggedOut)
                 | CbAwaitingDeal \<Rightarrow>
                     rbind (rules (cb_deal_next raw s)) (\<lambda>s.
                     rbind (card_pass (cb_turn_user s)) (\<lambda>passed. Ok (s, passed)))
                 | _ \<Rightarrow> rbind (card_pass (cb_turn_user s)) (\<lambda>passed. Ok (s, passed))) (\<lambda>(s, card_step).
            Ok (card_decided (encode cd s) base (cb_revision s) (cb_outcome_label out) card_step None))))))"

text \<open>\<open>kept\<close>: the deadline of the row.\<close>

definition play_gin ::
  "('j, gin_state) doc_codec \<Rightarrow> (nat \<Rightarrow> nat) \<Rightarrow> int option \<Rightarrow> 'j \<Rightarrow> uuid \<Rightarrow> gin_move \<Rightarrow> (svc_error, 'j decided) res" where
  "play_gin cd raw kept doc user played =
     rbind (rules (gin_parse (decode cd doc))) (\<lambda>s.
     expect (gin_turn_user s) (\<lambda>turn.
     ensure (turn = Some user) SvcNotYourTurn
      (let base = as_i64 (gs_revision s);
           s = s\<lparr>gs_revision := next_revision (gs_revision s)\<rparr>
       in rbind (rules (gin_apply_move s played)) (\<lambda>(s, out).
          rbind (case go_phase out of
                   GinWon winner \<Rightarrow> Ok (s, CardFinish (gin_user_of s winner) ReachedHundred)
                 | GinAwaitingDeal \<Rightarrow>
                     rbind (rules (gin_deal_next raw s)) (\<lambda>s.
                     rbind (card_pass (gin_turn_user s)) (\<lambda>passed. Ok (s, passed)))
                 | _ \<Rightarrow> rbind (card_pass (gin_turn_user s)) (\<lambda>passed. Ok (s, passed))) (\<lambda>(s, card_step).
          rbind (case played of
                   GinDraw _ \<Rightarrow> (case kept of None \<Rightarrow> Err SvcNoDeadline | Some deadline \<Rightarrow> Ok (Some deadline))
                 | GinThrow _ _ \<Rightarrow> Ok None) (\<lambda>deadline.
          expect (gin_label out) (\<lambda>label.
            Ok (card_decided (encode cd s) base (gs_revision s) label card_step deadline))))))))"

section \<open>Cribbage as an instance\<close>

definition cb_legal :: "('j, cb_state) doc_codec \<Rightarrow> uuid \<Rightarrow> uuid \<Rightarrow> uuid \<Rightarrow> 'j \<Rightarrow> bool" where
  "cb_legal cd a b t doc \<longleftrightarrow> codec_ok cd \<and> a \<noteq> b \<and>
     (\<exists>s. decode cd doc = Some s \<and> cb_version s = 1 \<and> cb_inv s \<and> {fst (cb_seats s), snd (cb_seats s)} = {a, b} \<and>
        cb_turn_user s = Some (Some t))"

lemma cb_revision_simps [simp]:
  "cb_replay (s\<lparr>cb_revision := n\<rparr>) = cb_replay s" "cb_user_of (s\<lparr>cb_revision := n\<rparr>) = cb_user_of s"
  "cb_inv (s\<lparr>cb_revision := n\<rparr>) = cb_inv s" "cb_turn_user (s\<lparr>cb_revision := n\<rparr>) = cb_turn_user s"
proof -
  show r: "cb_replay (s\<lparr>cb_revision := n\<rparr>) = cb_replay s" by (simp add: cb_replay_def)
  show u: "cb_user_of (s\<lparr>cb_revision := n\<rparr>) = cb_user_of s" by (simp add: cb_user_of_def fun_eq_iff)
  show "cb_inv (s\<lparr>cb_revision := n\<rparr>) = cb_inv s" by (simp add: cb_inv_def r)
  show "cb_turn_user (s\<lparr>cb_revision := n\<rparr>) = cb_turn_user s" unfolding cb_turn_user_def cb_table_of_def r u ..
qed

lemma cb_user_in: "cb_user_of s k \<in> {fst (cb_seats s), snd (cb_seats s)}"
  by (simp add: cb_user_of_def)

lemma cb_turn_in: "cb_turn_user s = Some (Some u) \<Longrightarrow> \<exists>k. u = cb_user_of s k"
  by (cases "cb_table_of s"; cases "ct_phase (the (cb_table_of s))") (auto simp: cb_turn_user_def)

lemma cb_turn_total: "cb_inv s \<Longrightarrow> cb_turn_user s \<noteq> None"
  using cb.inv_current [of s] by (auto simp: cb_turn_user_def dest: cb_current_table)

lemma cb_phase_status: "cb_status t = HandOver \<longleftrightarrow> ct_phase t = CbAwaitingDeal"
  by (simp add: cb_status_def split: cb_phase.splits)

lemma cribbage_step:
  assumes inv: "cb_inv s" and ok: "cb_apply_move s m = Ok (s', out)"
  shows "cb_inv s' \<and> cb_seats s' = cb_seats s \<and> cb_version s' = cb_version s \<and>
    (case co_phase out of
       CbWon winner \<Rightarrow> True
     | CbAwaitingDeal \<Rightarrow> (\<exists>s'' u. cb_deal_next raw s' = Ok s'' \<and> cb_inv s'' \<and> cb_seats s'' = cb_seats s \<and> cb_version s'' = cb_version s \<and>
         cb_turn_user s'' = Some (Some u))
     | _ \<Rightarrow> (\<exists>u. cb_turn_user s' = Some (Some u)))"
proof -
  from cb.moved_on [OF assms, of raw] obtain t t' where t0: "out = cb_outcome_of t m t'" and t: "cb_current s' t'"
    "cb_seats s' = cb_seats s" "cb_version s' = cb_version s"
    and dealt: "ct_phase t' = CbAwaitingDeal \<Longrightarrow> \<exists>s'' t''. cb_deal_next raw s' = Ok s'' \<and> cb_current s'' t'' \<and>
       cb_seats s'' = cb_seats s \<and> cb_version s'' = cb_version s \<and> cb_status t'' = InPlay"
    unfolding cb_phase_status prod.inject by blast
  from t0 have ph: "co_phase out = ct_phase t'" by (simp add: cb_outcome_of_def)
  have inv': "cb_inv x" if "cb_current x y" for x y using that by (simp add: cb_current_def)
  show ?thesis
  proof (cases "ct_phase t'")
    case CbAwaitingDeal
    with dealt obtain s'' t'' where "cb_deal_next raw s' = Ok s''" "cb_current s'' t''" "cb_seats s'' = cb_seats s"
      "cb_version s'' = cb_version s" "cb_status t'' = InPlay" by blast
    with t ph CbAwaitingDeal inv' cb_turn_open show ?thesis by fastforce
  qed (use t ph inv' cb_turn_open [OF t(1)] in \<open>auto simp: cb_status_def\<close>)
qed

lemma play_cribbage_Ok:
  assumes "play_cribbage cd raw doc u m = Ok d" and "decode cd doc = Some s" and "cb_version s = 1" and "cb_inv s"
  shows "\<exists>s'. cb_turn_user s = Some (Some u) \<and> cb_inv s' \<and> cb_version s' = 1 \<and> cb_seats s' = cb_seats s \<and> de_doc d = encode cd s' \<and>
    (de_finished d = None \<longrightarrow> cb_turn_user s' = Some (Some (de_next d))) \<and>
    (\<forall>w r. de_finished d = Some (Some w, r) \<longrightarrow> (\<exists>k. w = cb_user_of s' k))"
proof -
  let ?s = "s\<lparr>cb_revision := next_revision (cb_revision s)\<rparr>"
  have p: "cb_parse (Some s) = Ok s" using assms(3,4) by (simp add: cb_parse_iff)
  obtain s' out where a: "cb_turn_user s = Some (Some u)" "cb_apply_move ?s m = Ok (s', out)"
    using assms(1) by (auto simp: play_cribbage_def assms(2) p res_simps Let_def)
  have inv: "cb_inv ?s" using assms(4) by simp
  note st = cribbage_step [OF inv a(2), of raw]
  show ?thesis
  proof (cases "co_phase out")
    case (CbWon winner)
    with assms(1) a have "d = card_decided (encode cd s') (as_i64 (cb_revision s)) (cb_revision s') (cb_outcome_label out)
        (CardFinish (cb_user_of s' winner) PeggedOut) None"
      by (simp add: play_cribbage_def assms(2) p rules_def Let_def ensure_def)
    with st a(1) assms(3) show ?thesis by (auto simp: card_decided_def)
  next
    case CbAwaitingDeal
    with st obtain s'' v where d: "cb_deal_next raw s' = Ok s''" "cb_inv s''" "cb_seats s'' = cb_seats s" "cb_version s'' = 1"
      "cb_turn_user s'' = Some (Some v)" using assms(3) by auto
    with CbAwaitingDeal assms(1) a have "d = card_decided (encode cd s'') (as_i64 (cb_revision s)) (cb_revision s'') (cb_outcome_label out) (CardPass v) None"
      by (simp add: play_cribbage_def assms(2) p rules_def Let_def ensure_def card_pass_def)
    with d a(1) show ?thesis by (auto simp: card_decided_def)
  next
    case (CbDiscarding k)
    with st obtain v where v: "cb_turn_user s' = Some (Some v)" by auto
    with CbDiscarding assms(1) a have "d = card_decided (encode cd s') (as_i64 (cb_revision s)) (cb_revision s') (cb_outcome_label out) (CardPass v) None"
      by (simp add: play_cribbage_def assms(2) p rules_def Let_def ensure_def card_pass_def)
    with st v a(1) assms(3) show ?thesis by (auto simp: card_decided_def)
  next
    case (CbPegging k)
    with st obtain v where v: "cb_turn_user s' = Some (Some v)" by auto
    with CbPegging assms(1) a have "d = card_decided (encode cd s') (as_i64 (cb_revision s)) (cb_revision s') (cb_outcome_label out) (CardPass v) None"
      by (simp add: play_cribbage_def assms(2) p rules_def Let_def ensure_def card_pass_def)
    with st v a(1) assms(3) show ?thesis by (auto simp: card_decided_def)
  qed
qed

lemma play_cribbage_safe:
  assumes "decode cd doc = Some s" and "cb_version s = 1" and "cb_inv s"
  shows "play_cribbage cd raw doc u m \<noteq> Panic"
proof -
  let ?s = "s\<lparr>cb_revision := next_revision (cb_revision s)\<rparr>"
  have p: "cb_parse (Some s) = Ok s" using assms(2,3) by (simp add: cb_parse_iff)
  have inv: "cb_inv ?s" using assms(3) by simp
  obtain t where "cb_current ?s t" using cb.inv_current [OF inv] by blast
  then have safe: "cb_apply_move ?s m \<noteq> Panic" using cb.apply_cases [of ?s t m] by (cases "cb_refusal t m") auto
  have "(case co_phase out of CbWon winner \<Rightarrow> Ok (s', CardFinish (cb_user_of s' winner) PeggedOut)
      | CbAwaitingDeal \<Rightarrow> rbind (rules (cb_deal_next raw s')) (\<lambda>s. rbind (card_pass (cb_turn_user s)) (\<lambda>passed. Ok (s, passed)))
      | _ \<Rightarrow> rbind (card_pass (cb_turn_user s')) (\<lambda>passed. Ok (s', passed))) \<noteq> Panic"
    if "cb_apply_move ?s m = Ok (s', out)" for s' out
    using cribbage_step [OF inv that, of raw] by (auto simp: rules_def card_pass_def split: cb_phase.splits)
  with safe show ?thesis
    using cb_turn_total [OF assms(3)] by (auto simp: play_cribbage_def assms(1) p res_simps Let_def split: prod.splits)
qed

interpretation cb_daily: daily_rules "play_cribbage cd raw" "cb_legal cd" for cd :: "('j, cb_state) doc_codec" and raw
proof
  fix a b t u :: uuid and doc :: 'j and m d w r
  assume legal: "cb_legal cd a b t doc"
  then obtain s where s: "decode cd doc = Some s" "cb_version s = 1" "cb_inv s"
    "{fst (cb_seats s), snd (cb_seats s)} = {a, b}" "cb_turn_user s = Some (Some t)" and cd: "codec_ok cd" and ab: "a \<noteq> b"
    by (auto simp: cb_legal_def)
  have users: "cb_turn_user x = Some (Some v) \<Longrightarrow> cb_seats x = cb_seats s \<Longrightarrow> v = a \<or> v = b" for x v
    using cb_turn_in [of x v] cb_user_in [of x] s(4) by auto
  show "t = a \<or> t = b" using users s(5) by blast
  show "play_cribbage cd raw doc u m \<noteq> Panic" by (rule play_cribbage_safe [OF s(1-3)])
  show "u = a \<or> u = b" if "play_cribbage cd raw doc u m = Ok d"
    using play_cribbage_Ok [OF that s(1-3)] users by blast
  show "cb_legal cd a b (de_next d) (de_doc d) \<and> (de_next d = a \<or> de_next d = b)"
    if "play_cribbage cd raw doc t m = Ok d" "de_finished d = None"
  proof -
    from play_cribbage_Ok [OF that(1) s(1-3)] that(2) obtain s' where s': "cb_inv s'" "cb_version s' = 1" "cb_seats s' = cb_seats s"
      "de_doc d = encode cd s'" "cb_turn_user s' = Some (Some (de_next d))" by blast
    with users s(4) cd ab codec_okD [OF cd, of s'] show ?thesis by (auto simp: cb_legal_def)
  qed
  show "w = a \<or> w = b" if "play_cribbage cd raw doc t m = Ok d" "de_finished d = Some (Some w, r)"
  proof -
    from play_cribbage_Ok [OF that(1) s(1-3)] that(2) obtain s' k where "cb_seats s' = cb_seats s" "w = cb_user_of s' k" by blast
    with cb_user_in [of s' k] s(4) show ?thesis by auto
  qed
qed

section \<open>Gin rummy as an instance\<close>

definition gin_legal :: "('j, gin_state) doc_codec \<Rightarrow> uuid \<Rightarrow> uuid \<Rightarrow> uuid \<Rightarrow> 'j \<Rightarrow> bool" where
  "gin_legal cd a b t doc \<longleftrightarrow> codec_ok cd \<and> a \<noteq> b \<and>
     (\<exists>s. decode cd doc = Some s \<and> gs_version s = 1 \<and> gin_inv s \<and> {fst (gs_seats s), snd (gs_seats s)} = {a, b} \<and>
        gin_turn_user s = Some (Some t))"

lemma gin_revision_simps [simp]:
  "gin_replay (s\<lparr>gs_revision := n\<rparr>) = gin_replay s" "gin_user_of (s\<lparr>gs_revision := n\<rparr>) = gin_user_of s"
  "gin_inv (s\<lparr>gs_revision := n\<rparr>) = gin_inv s" "gin_turn_user (s\<lparr>gs_revision := n\<rparr>) = gin_turn_user s"
proof -
  show r: "gin_replay (s\<lparr>gs_revision := n\<rparr>) = gin_replay s" by (simp add: gin_replay_def)
  show u: "gin_user_of (s\<lparr>gs_revision := n\<rparr>) = gin_user_of s" by (simp add: gin_user_of_def fun_eq_iff)
  show "gin_inv (s\<lparr>gs_revision := n\<rparr>) = gin_inv s" by (simp add: gin_inv_def r)
  show "gin_turn_user (s\<lparr>gs_revision := n\<rparr>) = gin_turn_user s" unfolding gin_turn_user_def gin_table_of_def r u ..
qed

lemma gin_user_in: "gin_user_of s k \<in> {fst (gs_seats s), snd (gs_seats s)}"
  by (simp add: gin_user_of_def)

lemma gin_turn_in: "gin_turn_user s = Some (Some u) \<Longrightarrow> \<exists>k. u = gin_user_of s k"
  by (cases "gin_table_of s"; cases "gt_phase (the (gin_table_of s))") (auto simp: gin_turn_user_def)

lemma gin_turn_total: "gin_inv s \<Longrightarrow> gin_turn_user s \<noteq> None"
  using gin.inv_current [of s] by (auto simp: gin_turn_user_def dest: gin_current_table)

lemma gin_phase_status: "gin_status t = HandOver \<longleftrightarrow> gt_phase t = GinAwaitingDeal"
  by (simp add: gin_status_def split: gin_phase.splits)

text \<open>The card a draw took from the pile is always there for its label.\<close>

lemma gin_label_total:
  assumes "gin_step t m = Ok t'"
  shows "gin_label (gin_outcome_of t m t') \<noteq> None"
proof (cases m)
  case (GinDraw p)
  with assms show ?thesis
    by (cases p) (auto simp: gin_label_def gin_outcome_of_def gin_step_def split: gin_phase.splits option.splits list.splits)
qed (simp add: gin_label_def gin_outcome_of_def)

lemma gin_moved:
  assumes inv: "gin_inv s" and ok: "gin_apply_move s m = Ok (s', out)"
  shows "gin_inv s' \<and> gs_seats s' = gs_seats s \<and> gs_version s' = gs_version s \<and> gin_label out \<noteq> None \<and>
    (case go_phase out of
       GinWon winner \<Rightarrow> True
     | GinAwaitingDeal \<Rightarrow> (\<exists>s'' u. gin_deal_next raw s' = Ok s'' \<and> gin_inv s'' \<and> gs_seats s'' = gs_seats s \<and> gs_version s'' = gs_version s \<and>
         gin_turn_user s'' = Some (Some u))
     | _ \<Rightarrow> (\<exists>u. gin_turn_user s' = Some (Some u)))"
proof -
  from gin.moved_on [OF assms, of raw] obtain t t' where t0: "out = gin_outcome_of t m t'" "gin_step t m = Ok t'" and t: "gin_current s' t'"
    "gs_seats s' = gs_seats s" "gs_version s' = gs_version s"
    and dealt: "gt_phase t' = GinAwaitingDeal \<Longrightarrow> \<exists>s'' t''. gin_deal_next raw s' = Ok s'' \<and> gin_current s'' t'' \<and>
       gs_seats s'' = gs_seats s \<and> gs_version s'' = gs_version s \<and> gin_status t'' = InPlay"
    unfolding gin_phase_status prod.inject by blast
  from t0 have ph: "go_phase out = gt_phase t'" and lb: "gin_label out \<noteq> None" by (simp add: gin_outcome_of_def, simp add: gin_label_total)
  have inv': "gin_inv x" if "gin_current x y" for x y using that by (simp add: gin_current_def)
  show ?thesis
  proof (cases "gt_phase t'")
    case GinAwaitingDeal
    with dealt obtain s'' t'' where "gin_deal_next raw s' = Ok s''" "gin_current s'' t''" "gs_seats s'' = gs_seats s"
      "gs_version s'' = gs_version s" "gin_status t'' = InPlay" by blast
    with t ph lb GinAwaitingDeal inv' gin_turn_open show ?thesis by fastforce
  qed (use t ph lb inv' gin_turn_open [OF t(1)] in \<open>auto simp: gin_status_def\<close>)
qed

text \<open>What a move leaves: the won match, or the table with the next player, after the deal of the next hand if one is due.\<close>

lemma play_gin_Ok:
  assumes "play_gin cd raw kept doc u m = Ok d" and "decode cd doc = Some s" and "gs_version s = 1" and "gin_inv s"
  shows "\<exists>s'. gin_turn_user s = Some (Some u) \<and> gin_inv s' \<and> gs_version s' = 1 \<and> gs_seats s' = gs_seats s \<and> de_doc d = encode cd s' \<and>
    (de_finished d = None \<longrightarrow> gin_turn_user s' = Some (Some (de_next d))) \<and>
    (\<forall>w r. de_finished d = Some (Some w, r) \<longrightarrow> (\<exists>k. w = gin_user_of s' k))"
proof -
  let ?s = "s\<lparr>gs_revision := next_revision (gs_revision s)\<rparr>"
  have p: "gin_parse (Some s) = Ok s" using assms(3,4) by (simp add: gin_parse_iff)
  obtain s' out where a: "gin_turn_user s = Some (Some u)" "gin_apply_move ?s m = Ok (s', out)"
    using assms(1) by (auto simp: play_gin_def assms(2) p res_simps Let_def)
  have inv: "gin_inv ?s" using assms(4) by simp
  note st = gin_moved [OF inv a(2), of raw]
  then obtain label where label: "gin_label out = Some label" by blast
  have base: "gin_inv s'" "gs_seats s' = gs_seats s" "gs_version s' = 1" using st assms(3) by simp_all
  let ?made = "\<lambda>s' step dl. card_decided (encode cd s') (as_i64 (gs_revision s)) (gs_revision s') label step dl"
  have dl: "\<exists>dl. d = ?made s'' step dl"
    if "play_gin cd raw kept doc u m = rbind (Ok (s'', step)) (\<lambda>(s, card_step).
      rbind (case m of GinDraw _ \<Rightarrow> (case kept of None \<Rightarrow> Err SvcNoDeadline | Some deadline \<Rightarrow> Ok (Some deadline)) | GinThrow _ _ \<Rightarrow> Ok None)
        (\<lambda>deadline. Ok (?made s card_step deadline)))" for s'' step
    using trans [OF that [symmetric] assms(1)] by (auto simp: res_simps)
  show ?thesis
  proof (cases "go_phase out")
    case (GinWon k)
    with a label have "\<exists>dl. d = ?made s' (CardFinish (gin_user_of s' k) ReachedHundred) dl"
      by (intro dl) (simp add: play_gin_def assms(2) p rules_def Let_def ensure_def)
    with base a(1) show ?thesis by (intro exI [of _ s']) (auto simp: card_decided_def)
  next
    case GinAwaitingDeal
    with st obtain s'' v where d: "gin_deal_next raw s' = Ok s''" "gin_inv s''" "gs_seats s'' = gs_seats s" "gs_version s'' = 1"
      "gin_turn_user s'' = Some (Some v)" using assms(3) by auto
    with GinAwaitingDeal a label have "\<exists>dl. d = ?made s'' (CardPass v) dl"
      by (intro dl) (simp add: play_gin_def assms(2) p rules_def Let_def ensure_def card_pass_def)
    with d a(1) show ?thesis by (intro exI [of _ s'']) (auto simp: card_decided_def)
  next
    case (GinDrawing k)
    with st obtain v where v: "gin_turn_user s' = Some (Some v)" by auto
    with GinDrawing a label have "\<exists>dl. d = ?made s' (CardPass v) dl"
      by (intro dl) (simp add: play_gin_def assms(2) p rules_def Let_def ensure_def card_pass_def)
    with base v a(1) show ?thesis by (intro exI [of _ s']) (auto simp: card_decided_def)
  next
    case (GinDiscarding k)
    with st obtain v where v: "gin_turn_user s' = Some (Some v)" by auto
    with GinDiscarding a label have "\<exists>dl. d = ?made s' (CardPass v) dl"
      by (intro dl) (simp add: play_gin_def assms(2) p rules_def Let_def ensure_def card_pass_def)
    with base v a(1) show ?thesis by (intro exI [of _ s']) (auto simp: card_decided_def)
  qed
qed

lemma play_gin_safe:
  assumes "decode cd doc = Some s" and "gs_version s = 1" and "gin_inv s"
  shows "play_gin cd raw kept doc u m \<noteq> Panic"
proof -
  let ?s = "s\<lparr>gs_revision := next_revision (gs_revision s)\<rparr>"
  have p: "gin_parse (Some s) = Ok s" using assms(2,3) by (simp add: gin_parse_iff)
  have inv: "gin_inv ?s" using assms(3) by simp
  obtain t where "gin_current ?s t" using gin.inv_current [OF inv] by blast
  then have safe: "gin_apply_move ?s m \<noteq> Panic" using gin.apply_cases [of ?s t m] by (cases "gin_refusal t m") auto
  have "(case go_phase out of GinWon winner \<Rightarrow> Ok (s', CardFinish (gin_user_of s' winner) ReachedHundred)
      | GinAwaitingDeal \<Rightarrow> rbind (rules (gin_deal_next raw s')) (\<lambda>s. rbind (card_pass (gin_turn_user s)) (\<lambda>passed. Ok (s, passed)))
      | _ \<Rightarrow> rbind (card_pass (gin_turn_user s')) (\<lambda>passed. Ok (s', passed))) \<noteq> Panic \<and> gin_label out \<noteq> None"
    if "gin_apply_move ?s m = Ok (s', out)" for s' out
    using gin_moved [OF inv that, of raw] by (auto simp: rules_def card_pass_def split: gin_phase.splits)
  with safe show ?thesis
    using gin_turn_total [OF assms(3)]
    by (auto simp: play_gin_def assms(1) p res_simps Let_def split: prod.splits gin_move.splits option.splits)
qed

interpretation gin_daily: daily_rules "play_gin cd raw kept" "gin_legal cd" for cd :: "('j, gin_state) doc_codec" and raw kept
proof
  fix a b t u :: uuid and doc :: 'j and m d w r
  assume legal: "gin_legal cd a b t doc"
  then obtain s where s: "decode cd doc = Some s" "gs_version s = 1" "gin_inv s"
    "{fst (gs_seats s), snd (gs_seats s)} = {a, b}" "gin_turn_user s = Some (Some t)" and cd: "codec_ok cd" and ab: "a \<noteq> b"
    by (auto simp: gin_legal_def)
  have users: "gin_turn_user x = Some (Some v) \<Longrightarrow> gs_seats x = gs_seats s \<Longrightarrow> v = a \<or> v = b" for x v
    using gin_turn_in [of x v] gin_user_in [of x] s(4) by auto
  show "t = a \<or> t = b" using users s(5) by blast
  show "play_gin cd raw kept doc u m \<noteq> Panic" by (rule play_gin_safe [OF s(1-3)])
  show "u = a \<or> u = b" if "play_gin cd raw kept doc u m = Ok d"
    using play_gin_Ok [OF that s(1-3)] users by blast
  show "gin_legal cd a b (de_next d) (de_doc d) \<and> (de_next d = a \<or> de_next d = b)"
    if "play_gin cd raw kept doc t m = Ok d" "de_finished d = None"
  proof -
    from play_gin_Ok [OF that(1) s(1-3)] that(2) obtain s' where s': "gin_inv s'" "gs_version s' = 1" "gs_seats s' = gs_seats s"
      "de_doc d = encode cd s'" "gin_turn_user s' = Some (Some (de_next d))" by blast
    with users s(4) cd ab codec_okD [OF cd, of s'] show ?thesis by (auto simp: gin_legal_def)
  qed
  show "w = a \<or> w = b" if "play_gin cd raw kept doc t m = Ok d" "de_finished d = Some (Some w, r)"
  proof -
    from play_gin_Ok [OF that(1) s(1-3)] that(2) obtain s' k where "gs_seats s' = gs_seats s" "w = gin_user_of s' k" by blast
    with gin_user_in [of s' k] s(4) show ?thesis by auto
  qed
qed

end
