(* ===== verification/DailySvc.thy ===== *)
theory DailySvc
  imports DailyEngines DailyCards GamePayout
begin

text \<open>
  The daily match service (\<open>late-ssh/src/app/lobby/daily/svc.rs\<close>): challenges, moves, resignations, the
  sweeper of expired matches, and the payout of a win. The world is the table of matches, the chip
  and claim tables and what the service has broadcast. A call reads and writes the world in a few
  separate statements, and other calls run between them: a call is split at its first write into a
  part that only reads and leaves a job, and a part that runs the job.
\<close>

section \<open>The world\<close>

datatype daily_win_payout = WinPaid | Unplayed | PairDayCapped | PayoutFailed

datatype daily_finish_outcome = WonBy uuid daily_win_payout | DrawnGame

datatype daily_event =
  ChallengePosted uuid daily_game uuid
| ChallengeClaimed uuid uuid uuid
| MovePlayed uuid uuid string
| MatchFinished uuid daily_game uuid "uuid option" daily_finish_outcome daily_result
| ServiceError uuid svc_error

record 'j world =
  wd_rows :: "'j match_row list"
  wd_pay :: pay_db
  wd_events :: "daily_event list"
  wd_lounge :: "(uuid \<times> string \<times> uuid \<times> uuid \<times> uuid option) list"
  wd_metrics :: "daily_win_payout list"

text \<open>
  What the service takes from outside: the reading of a stored document, the printed form of ids, days
  and instants, the names of users, the reward templates, the codecs of the games, and the games whose
  rules this development does not have (\<open>en_chess\<close> for a chess move, \<open>en_deal\<close> for the opening position
  of chess and the pool games).
\<close>

record 'j svc_env =
  en_revision_text :: "'j \<Rightarrow> string option"
  en_revision_i64 :: "'j \<Rightarrow> int option"
  en_revision_u64 :: "'j \<Rightarrow> nat option"
  en_set_revision :: "'j \<Rightarrow> int \<Rightarrow> 'j"
  en_default_doc :: 'j
  en_id_text :: "uuid \<Rightarrow> string"
  en_day_text :: "int \<Rightarrow> string"
  en_stamp :: "int \<Rightarrow> string"
  en_username :: "uuid \<Rightarrow> string option"
  en_templates :: template_table
  en_c4 :: "('j, c4_state) doc_codec"
  en_rv :: "('j, rv_state) doc_codec"
  en_ck :: "('j, ck_state) doc_codec"
  en_bg :: "('j, bg_state) doc_codec"
  en_br :: "('j, br_state) doc_codec"
  en_bs :: "('j, bs_state) doc_codec"
  en_cb :: "('j, cb_state) doc_codec"
  en_gin :: "('j, gin_state) doc_codec"
  en_chess :: "daily_game \<Rightarrow> 'j \<Rightarrow> uuid \<Rightarrow> nat \<times> nat \<Rightarrow> (svc_error, 'j decided) res"
  en_deal :: "daily_game \<Rightarrow> uuid \<Rightarrow> uuid \<Rightarrow> 'j \<times> uuid"

text \<open>The readings of the two clocks during a call, and the ids the database draws for a grant.\<close>

record tick =
  tk_db :: int
  tk_app :: int
  tk_gate :: int
  tk_row :: int
  tk_ids :: "nat \<Rightarrow> uuid"

text \<open>The draws of an opening: a coin, the squares of the fleets, the dice and the shuffle.\<close>

record opening_draws =
  od_coin :: bool
  od_fleets :: "draw list"
  od_dice :: "(nat \<times> nat) list"
  od_shuffle :: "nat \<Rightarrow> nat"

definition DAILY_MAX_ACTIVE_ENTRIES :: int where "DAILY_MAX_ACTIVE_ENTRIES = 10"
definition DAILY_MOVE_HOURS :: int where "DAILY_MOVE_HOURS = 24"
definition DAILY_WIN_MIN_MOVES :: nat where "DAILY_WIN_MIN_MOVES = 5"

text \<open>An instant counts microseconds.\<close>

definition hours :: "int \<Rightarrow> int" where "hours n = n * 3600000000"

primrec win_db_str :: "daily_win_payout \<Rightarrow> string" where
  "win_db_str WinPaid = ''paid''"
| "win_db_str Unplayed = ''unplayed''"
| "win_db_str PairDayCapped = ''pair_day_capped''"
| "win_db_str PayoutFailed = ''failed''"

definition win_from_db_str :: "string \<Rightarrow> daily_win_payout option" where
  "win_from_db_str value = find_code [WinPaid, Unplayed, PairDayCapped, PayoutFailed] win_db_str value"

definition stored :: "(dm_error, 'a) res \<Rightarrow> (svc_error, 'a) res" where
  "stored m = (case m of Ok x \<Rightarrow> Ok x | Err e \<Rightarrow> Err (SvcStore e) | Panic \<Rightarrow> Panic)"

definition get_match :: "'j match_row list \<Rightarrow> uuid \<Rightarrow> 'j match_row option" where
  "get_match rows match_id = find (\<lambda>r. dm_id r = match_id) rows"

text \<open>\<open>get\<close>, \<open>filter\<close> on the status and \<open>ok_or_else\<close>.\<close>

definition with_match ::
  "'j match_row list \<Rightarrow> uuid \<Rightarrow> string \<Rightarrow> svc_error \<Rightarrow> ('j match_row \<Rightarrow> (svc_error, 'a) res) \<Rightarrow> (svc_error, 'a) res" where
  "with_match rows match_id status e k =
     (case get_match rows match_id of
        None \<Rightarrow> Err e
      | Some row \<Rightarrow> ensure (dm_status row = status) e (k row))"

definition with_game :: "'j match_row \<Rightarrow> (daily_game \<Rightarrow> (svc_error, 'a) res) \<Rightarrow> (svc_error, 'a) res" where
  "with_game row k = (case from_kind (dm_game_kind row) of None \<Rightarrow> Err SvcUnknownGame | Some game \<Rightarrow> k game)"

definition say :: "'j world \<Rightarrow> daily_event \<Rightarrow> 'j world" where
  "say w e = w\<lparr>wd_events := wd_events w @ [e]\<rparr>"

section \<open>Challenges\<close>

definition ensure_entry_capacity :: "'j world \<Rightarrow> uuid \<Rightarrow> (svc_error, 'a) res \<Rightarrow> (svc_error, 'a) res" where
  "ensure_entry_capacity w user k =
     ensure (int (count_active_entries (wd_rows w) user) < DAILY_MAX_ACTIVE_ENTRIES) SvcLimit k"

text \<open>The capacity is read in one statement and the challenge inserted in a later one.\<close>

definition post_challenge ::
  "'j svc_env \<Rightarrow> int \<Rightarrow> uuid \<Rightarrow> 'j world \<Rightarrow> uuid \<Rightarrow> daily_game \<Rightarrow> (svc_error, 'j world \<times> 'j match_row) res" where
  "post_challenge env now new_id w user game =
     rbind (stored (create_challenge now new_id (en_default_doc env) (wd_rows w) (game_kind game) user)) (\<lambda>(rows, row).
       Ok (say (w\<lparr>wd_rows := rows\<rparr>) (ChallengePosted (dm_id row) game (dm_challenger row)), row))"

definition opening_state ::
  "'j svc_env \<Rightarrow> opening_draws \<Rightarrow> daily_game \<Rightarrow> uuid \<Rightarrow> uuid \<Rightarrow> (svc_error, 'j \<times> uuid) res" where
  "opening_state env od game challenger claimer =
     (case game of
        Battleship \<Rightarrow>
          (case bs_new challenger claimer (od_fleets od) of
             None \<Rightarrow> Err SvcStillRolling
           | Some s \<Rightarrow> Ok (encode (en_bs env) s, if od_coin od then challenger else claimer))
      | ConnectFour \<Rightarrow> (let s = c4_new (od_coin od) challenger claimer in Ok (encode (en_c4 env) s, c4_red s))
      | Reversi \<Rightarrow> (let s = rv_new (od_coin od) challenger claimer in Ok (encode (en_rv env) s, rv_black s))
      | Checkers \<Rightarrow> (let s = ck_new (od_coin od) challenger claimer in Ok (encode (en_ck env) s, ck_red s))
      | Backgammon \<Rightarrow>
          (case bg_new (od_coin od) (od_dice od) challenger claimer of
             None \<Rightarrow> Err SvcStillRolling
           | Some s \<Rightarrow> Ok (encode (en_bg env) s, bg_white s))
      | Briscola \<Rightarrow>
          (let s = br_new (od_coin od) challenger claimer (od_shuffle od) in Ok (encode (en_br env) s, br_user_of s 0))
      | Cribbage \<Rightarrow>
          (let s = cb_new (od_coin od) (od_shuffle od) challenger claimer
           in expect (cb_turn_user s) (\<lambda>turn. case turn of None \<Rightarrow> Err SvcNoMover | Some first \<Rightarrow> Ok (encode (en_cb env) s, first)))
      | GinRummy \<Rightarrow>
          (let s = gin_new (od_coin od) (od_shuffle od) challenger claimer
           in expect (gin_turn_user s) (\<lambda>turn. case turn of None \<Rightarrow> Err SvcNoMover | Some first \<Rightarrow> Ok (encode (en_gin env) s, first)))
      | _ \<Rightarrow> Ok (en_deal env game challenger claimer))"

record 'j claim_job =
  cj_match :: uuid
  cj_user :: uuid
  cj_first :: uuid
  cj_doc :: 'j

text \<open>A claim up to its transaction, and the transaction: it creates the chat room of the match (\<open>None\<close>
  when that fails) and is undone as a whole when a step of it fails.\<close>

definition begin_claim ::
  "'j svc_env \<Rightarrow> opening_draws \<Rightarrow> 'j world \<Rightarrow> uuid \<Rightarrow> uuid \<Rightarrow> (svc_error, 'j claim_job) res" where
  "begin_claim env od w user match_id =
     ensure_entry_capacity w user
      (with_match (wd_rows w) match_id STATUS_OPEN SvcNotOpen (\<lambda>challenge.
       ensure (dm_challenger challenge \<noteq> user) SvcOwnChallenge
       (with_game challenge (\<lambda>game.
        rbind (opening_state env od game (dm_challenger challenge) user) (\<lambda>(doc, first).
        ensure (en_username env (dm_challenger challenge) \<noteq> None) SvcUnknownUser
       (ensure (en_username env user \<noteq> None) SvcUnknownUser
         (Ok \<lparr>cj_match = match_id, cj_user = user, cj_first = first, cj_doc = doc\<rparr>)))))))"

definition commit_claim ::
  "tick \<Rightarrow> uuid option \<Rightarrow> 'j world \<Rightarrow> 'j claim_job \<Rightarrow> (svc_error, 'j world \<times> 'j match_row) res" where
  "commit_claim tk room w job =
     (case claim (tk_db tk) (wd_rows w) (cj_match job) (cj_user job) (cj_first job)
             (tk_app tk + hours DAILY_MOVE_HOURS) (cj_doc job) of
        (rows, None) \<Rightarrow> Err SvcNotOpen
      | (rows, Some claimed) \<Rightarrow>
          (case room of
             None \<Rightarrow> Err SvcChatRoom
           | Some chat_room \<Rightarrow>
               Ok (say (w\<lparr>wd_rows := fst (set_chat_room rows (dm_id claimed) chat_room)\<rparr>)
                     (ChallengeClaimed (dm_id claimed) (dm_challenger claimed) (cj_user job)),
                   claimed\<lparr>dm_chat_room := Some chat_room\<rparr>)))"

definition cancel_open_challenge :: "int \<Rightarrow> 'j world \<Rightarrow> uuid \<Rightarrow> uuid \<Rightarrow> (svc_error, 'j world) res" where
  "cancel_open_challenge now w user match_id =
     (case cancel_challenge now (wd_rows w) match_id user of
        (rows, cancelled) \<Rightarrow> ensure (cancelled \<noteq> 0) SvcNotOpen (Ok (w\<lparr>wd_rows := rows\<rparr>)))"

definition see_result :: "int \<Rightarrow> 'j world \<Rightarrow> uuid \<Rightarrow> uuid \<Rightarrow> 'j world" where
  "see_result now w user match_id = w\<lparr>wd_rows := fst (mark_result_seen now (wd_rows w) match_id user)\<rparr>"

section \<open>Moves\<close>

definition move_prelude ::
  "int \<Rightarrow> 'j match_row list \<Rightarrow> uuid \<Rightarrow> uuid \<Rightarrow> (svc_error, 'j match_row \<times> daily_game) res" where
  "move_prelude now rows user match_id =
     with_match rows match_id STATUS_ACTIVE SvcNotActive (\<lambda>row.
     ensure (dm_turn row = Some user) SvcNotYourTurn
     (ensure (\<not> (case dm_deadline row of None \<Rightarrow> False | Some deadline \<Rightarrow> deadline \<le> now)) SvcExpired
     (with_game row (\<lambda>game. Ok (row, game)))))"

text \<open>The channels a move can arrive on, and the draws it may use up: the dice of the next roll and the next deal.\<close>

datatype move_request =
  CellMove nat nat | PathMove "nat list" | TurnMove "hop list" | CribbageTurn cb_move | GinTurn gin_move

record move_draws =
  md_dice :: "(nat \<times> nat) list"
  md_shuffle :: "nat \<Rightarrow> nat"

definition decide_cell ::
  "'j svc_env \<Rightarrow> int \<Rightarrow> daily_game \<Rightarrow> 'j \<Rightarrow> uuid \<Rightarrow> nat \<Rightarrow> nat \<Rightarrow> (svc_error, 'j decided) res" where
  "decide_cell env now game doc user a b =
     (case game of
        Chess \<Rightarrow> en_chess env game doc user (a, b)
      | Chess960 \<Rightarrow> en_chess env game doc user (a, b)
      | Battleship \<Rightarrow> play_battleship_shot (en_bs env) now doc user b
      | ConnectFour \<Rightarrow> play_connect4_drop (en_c4 env) doc user b
      | Reversi \<Rightarrow> play_reversi_move (en_rv env) doc user b
      | Briscola \<Rightarrow> play_briscola_card (en_br env) doc user b
      | _ \<Rightarrow> Err SvcWrongChannel)"

definition decide_move ::
  "'j svc_env \<Rightarrow> int \<Rightarrow> int option \<Rightarrow> move_draws \<Rightarrow> daily_game \<Rightarrow> 'j \<Rightarrow> uuid \<Rightarrow> move_request \<Rightarrow> (svc_error, 'j decided) res" where
  "decide_move env now kept draws game doc user req =
     (case req of
        CellMove a b \<Rightarrow> decide_cell env now game doc user a b
      | PathMove path \<Rightarrow> ensure (game = Checkers) SvcWrongChannel (play_checkers (en_ck env) doc user path)
      | TurnMove hops \<Rightarrow> ensure (game = Backgammon) SvcWrongChannel (play_backgammon (en_bg env) (md_dice draws) doc user hops)
      | CribbageTurn played \<Rightarrow> ensure (game = Cribbage) SvcWrongChannel (play_cribbage (en_cb env) (md_shuffle draws) doc user played)
      | GinTurn played \<Rightarrow> ensure (game = GinRummy) SvcWrongChannel (play_gin (en_gin env) (md_shuffle draws) kept doc user played))"

record 'j move_job =
  mj_row :: "'j match_row"
  mj_game :: daily_game
  mj_user :: uuid
  mj_decided :: "'j decided"

record 'j finish_job =
  fj_row :: "'j match_row"
  fj_game :: daily_game
  fj_winner :: "uuid option"
  fj_result :: daily_result
  fj_moves :: nat

definition begin_move ::
  "'j svc_env \<Rightarrow> tick \<Rightarrow> move_draws \<Rightarrow> 'j world \<Rightarrow> uuid \<Rightarrow> uuid \<Rightarrow> move_request \<Rightarrow> (svc_error, 'j move_job) res" where
  "begin_move env tk draws w user match_id req =
     rbind (move_prelude (tk_app tk) (wd_rows w) user match_id) (\<lambda>(row, game).
     rbind (decide_move env (tk_app tk) (dm_deadline row) draws game (dm_state row) user req) (\<lambda>d.
       Ok \<lparr>mj_row = row, mj_game = game, mj_user = user, mj_decided = d\<rparr>))"

definition deadline_of :: "tick \<Rightarrow> 'j decided \<Rightarrow> int" where
  "deadline_of tk d = (case de_deadline d of None \<Rightarrow> tk_app tk + hours DAILY_MOVE_HOURS | Some deadline \<Rightarrow> deadline)"

text \<open>The conditional write of a decided move; a finished match leaves a job for its payout. An error
  leaves the world as it was: the write it reports took no row.\<close>

definition commit_move ::
  "'j svc_env \<Rightarrow> tick \<Rightarrow> 'j world \<Rightarrow> 'j move_job \<Rightarrow> (svc_error, 'j world \<times> 'j finish_job option) res" where
  "commit_move env tk w job =
     (let row = mj_row job; d = mj_decided job; match_id = dm_id row;
          played = MovePlayed match_id (mj_user job) (de_label d)
      in case de_finished d of
           Some (winner, result) \<Rightarrow>
             rbind (stored (finish (en_revision_text env) (tk_db tk) (wd_rows w) match_id winner result (de_doc d) (de_base d)))
               (\<lambda>(rows, updated). ensure (updated = 1) SvcSuperseded
                 (Ok (say (w\<lparr>wd_rows := rows\<rparr>) played,
                      Some \<lparr>fj_row = row, fj_game = mj_game job, fj_winner = winner, fj_result = result,
                            fj_moves = de_revision d\<rparr>)))
         | None \<Rightarrow>
             rbind (stored (update_state (en_revision_text env) (tk_db tk) (wd_rows w) match_id (de_doc d) (mj_user job)
                     (de_next d) (deadline_of tk d) (de_base d)))
               (\<lambda>(rows, updated). ensure (updated = 1) SvcSuperseded
                 (Ok (say (w\<lparr>wd_rows := rows\<rparr>) played, None))))"

section \<open>Finishes\<close>

definition pay_winner ::
  "'j svc_env \<Rightarrow> tick \<Rightarrow> pay_db \<Rightarrow> 'j match_row \<Rightarrow> daily_game \<Rightarrow> uuid \<Rightarrow> nat \<Rightarrow> (svc_error, pay_db \<times> daily_win_payout) res" where
  "pay_winner env tk p row game winner moves_played =
     (if moves_played < DAILY_WIN_MIN_MOVES then Ok (p, Unplayed)
      else expect (if winner = dm_challenger row then dm_opponent row else Some (dm_challenger row)) (\<lambda>loser.
        let pair_day_key = en_id_text env loser @ '':'' @ en_day_text env (dm_created row)
        in case credit_per_event_pair_day_reward_template (en_id_text env) (en_stamp env) (tk_ids tk) (tk_gate tk) (tk_row tk)
                  (en_templates env) p winner (reward_key game) (en_id_text env (dm_id row)) pair_day_key (win_move game) of
             Ok (p', grant) \<Rightarrow> Ok (p', if rg_credited grant then WinPaid else PairDayCapped)
           | Err e \<Rightarrow> Ok (p, PayoutFailed)
           | Panic \<Rightarrow> Panic))"

text \<open>A failed write loses only the stored spelling.\<close>

definition record_win_payout :: "int \<Rightarrow> 'j match_row list \<Rightarrow> uuid \<Rightarrow> daily_win_payout \<Rightarrow> 'j match_row list" where
  "record_win_payout now rows match_id payout =
     (case set_win_payout now rows match_id (win_db_str payout) of Ok rows' \<Rightarrow> rows' | Err e \<Rightarrow> rows | Panic \<Rightarrow> rows)"

definition finish_events :: "'j svc_env \<Rightarrow> tick \<Rightarrow> 'j world \<Rightarrow> 'j finish_job \<Rightarrow> (svc_error, 'j world) res" where
  "finish_events env tk w job =
     (let row = fj_row job; match_id = dm_id row
      in rbind (case fj_winner job of
                  None \<Rightarrow> Ok (w, DrawnGame)
                | Some winner \<Rightarrow>
                    rbind (pay_winner env tk (wd_pay w) row (fj_game job) winner (fj_moves job)) (\<lambda>(p, payout).
                      Ok (w\<lparr>wd_pay := p, wd_metrics := wd_metrics w @ [payout],
                            wd_rows := record_win_payout (tk_db tk) (wd_rows w) match_id payout\<rparr>,
                          WonBy winner payout)))
           (\<lambda>(w, outcome).
             let w = say w (MatchFinished match_id (fj_game job) (dm_challenger row) (dm_opponent row) outcome (fj_result job))
             in Ok (case dm_opponent row of
                      None \<Rightarrow> w
                    | Some opponent \<Rightarrow>
                        w\<lparr>wd_lounge := wd_lounge w @
                            [(match_id, display_name (fj_game job), dm_challenger row, opponent, fj_winner job)]\<rparr>)))"

definition finish_all :: "'j svc_env \<Rightarrow> tick \<Rightarrow> 'j world \<Rightarrow> 'j finish_job option \<Rightarrow> (svc_error, 'j world) res" where
  "finish_all env tk w job = (case job of None \<Rightarrow> Ok w | Some j \<Rightarrow> finish_events env tk w j)"

section \<open>Resignations and forfeits\<close>

record 'j resign_job =
  rj_row :: "'j match_row"
  rj_game :: daily_game
  rj_winner :: uuid

definition begin_resign :: "'j world \<Rightarrow> uuid \<Rightarrow> uuid \<Rightarrow> (svc_error, 'j resign_job) res" where
  "begin_resign w user match_id =
     with_match (wd_rows w) match_id STATUS_ACTIVE SvcNotActive (\<lambda>row.
     with_game row (\<lambda>game.
       if dm_challenger row = user \<or> dm_opponent row = Some user
       then (case (if dm_challenger row = user then dm_opponent row else Some (dm_challenger row)) of
               None \<Rightarrow> Err SvcNoOpponent
             | Some winner \<Rightarrow> Ok \<lparr>rj_row = row, rj_game = game, rj_winner = winner\<rparr>)
       else Err SvcNotPlaying))"

text \<open>The revision the resignation was read at; the new document counts one more.\<close>

definition base_revision :: "'j svc_env \<Rightarrow> 'j \<Rightarrow> int" where
  "base_revision env doc = (case en_revision_i64 env doc of None \<Rightarrow> 0 | Some n \<Rightarrow> n)"

text \<open>\<open>None\<close>: another write came first. \<open>base_revision as u64\<close> wraps a negative number.\<close>

definition commit_resign ::
  "'j svc_env \<Rightarrow> tick \<Rightarrow> 'j world \<Rightarrow> 'j resign_job \<Rightarrow> (svc_error, ('j world \<times> 'j finish_job) option) res" where
  "commit_resign env tk w job =
     (let row = rj_row job; base = base_revision env (dm_state row);
          doc = en_set_revision env (dm_state row) (base + 1)
      in rbind (stored (finish (en_revision_text env) (tk_db tk) (wd_rows w) (dm_id row) (Some (rj_winner job)) Resign doc base))
           (\<lambda>(rows, updated).
             Ok (if updated = 1
                 then Some (w\<lparr>wd_rows := rows\<rparr>,
                            \<lparr>fj_row = row, fj_game = rj_game job, fj_winner = Some (rj_winner job), fj_result = Resign,
                             fj_moves = nat (base mod 2 ^ 64)\<rparr>)
                 else None)))"

text \<open>The eight tries; \<open>between i\<close> is what other calls do between the read and the write of a try.\<close>

fun resign_tries ::
  "'j svc_env \<Rightarrow> tick \<Rightarrow> (nat \<Rightarrow> 'j world \<Rightarrow> 'j world) \<Rightarrow> nat \<Rightarrow> 'j world \<Rightarrow> uuid \<Rightarrow> uuid \<Rightarrow> (svc_error, 'j world) res" where
  "resign_tries env tk between 0 w user match_id = Err SvcRaced"
| "resign_tries env tk between (Suc n) w user match_id =
     rbind (begin_resign w user match_id) (\<lambda>job.
     rbind (commit_resign env tk (between n w) job) (\<lambda>done.
       case done of
         Some (w', fin) \<Rightarrow> finish_events env tk w' fin
       | None \<Rightarrow> resign_tries env tk between n (between n w) user match_id))"

definition resign ::
  "'j svc_env \<Rightarrow> tick \<Rightarrow> (nat \<Rightarrow> 'j world \<Rightarrow> 'j world) \<Rightarrow> 'j world \<Rightarrow> uuid \<Rightarrow> uuid \<Rightarrow> (svc_error, 'j world) res" where
  "resign env tk between w user match_id = resign_tries env tk between 8 w user match_id"

text \<open>A forfeited match of an unknown game is skipped.\<close>

definition forfeit_job :: "'j svc_env \<Rightarrow> 'j match_row \<Rightarrow> 'j finish_job option" where
  "forfeit_job env row =
     (case from_kind (dm_game_kind row) of
        None \<Rightarrow> None
      | Some game \<Rightarrow>
          Some \<lparr>fj_row = row, fj_game = game, fj_winner = dm_winner row, fj_result = Timeout,
                fj_moves = (case en_revision_u64 env (dm_state row) of None \<Rightarrow> 0 | Some n \<Rightarrow> n)\<rparr>)"

definition begin_sweep :: "'j svc_env \<Rightarrow> int \<Rightarrow> 'j world \<Rightarrow> 'j world \<times> 'j finish_job list" where
  "begin_sweep env now w =
     (case forfeit_expired now (wd_rows w) of
        (rows, forfeited) \<Rightarrow> (w\<lparr>wd_rows := rows\<rparr>, List.map_filter (forfeit_job env) forfeited))"

fun finish_each :: "'j svc_env \<Rightarrow> (nat \<Rightarrow> tick) \<Rightarrow> 'j world \<Rightarrow> 'j finish_job list \<Rightarrow> (svc_error, 'j world) res" where
  "finish_each env tks w [] = Ok w"
| "finish_each env tks w (j # js) =
     rbind (finish_events env (tks (length js)) w j) (\<lambda>w. finish_each env tks w js)"

definition sweep_expired :: "'j svc_env \<Rightarrow> (nat \<Rightarrow> tick) \<Rightarrow> int \<Rightarrow> 'j world \<Rightarrow> (svc_error, 'j world) res" where
  "sweep_expired env tks now w = (case begin_sweep env now w of (w', jobs) \<Rightarrow> finish_each env tks w' jobs)"

section \<open>Whole calls\<close>

text \<open>A call with nothing between its parts, and a task, which tells its user of an error.\<close>

definition play_move ::
  "'j svc_env \<Rightarrow> tick \<Rightarrow> move_draws \<Rightarrow> 'j world \<Rightarrow> uuid \<Rightarrow> uuid \<Rightarrow> move_request \<Rightarrow> (svc_error, 'j world) res" where
  "play_move env tk draws w user match_id req =
     rbind (begin_move env tk draws w user match_id req) (\<lambda>job.
     rbind (commit_move env tk w job) (\<lambda>(w, fin). finish_all env tk w fin))"

definition claim_challenge ::
  "'j svc_env \<Rightarrow> tick \<Rightarrow> opening_draws \<Rightarrow> uuid option \<Rightarrow> 'j world \<Rightarrow> uuid \<Rightarrow> uuid \<Rightarrow> (svc_error, 'j world \<times> 'j match_row) res" where
  "claim_challenge env tk od room w user match_id =
     rbind (begin_claim env od w user match_id) (\<lambda>job. commit_claim tk room w job)"

definition post_checked ::
  "'j svc_env \<Rightarrow> int \<Rightarrow> uuid \<Rightarrow> 'j world \<Rightarrow> uuid \<Rightarrow> daily_game \<Rightarrow> (svc_error, 'j world \<times> 'j match_row) res" where
  "post_checked env now new_id w user game = ensure_entry_capacity w user (post_challenge env now new_id w user game)"

definition run_task :: "'j world \<Rightarrow> uuid \<Rightarrow> (svc_error, 'j world) res \<Rightarrow> 'j world option" where
  "run_task w user m =
     (case m of Ok w' \<Rightarrow> Some w' | Err e \<Rightarrow> Some (say w (ServiceError user e)) | Panic \<Rightarrow> None)"

subsection \<open>The openings\<close>

lemma c4_opening:
  "c4_version (c4_new coin a b) = 1 \<and> c4_wf (c4_drops (c4_new coin a b)) \<and> {c4_red (c4_new coin a b), c4_yellow (c4_new coin a b)} = {a, b} \<and>
   c4_turn (c4_new coin a b) = C4Red"
  by (auto simp: c4_new_def c4_turn_def c4_wf_def)

lemma rv_opening:
  "rv_version (rv_new coin a b) = 1 \<and> rv_inv (rv_new coin a b) \<and> {rv_black (rv_new coin a b), rv_white (rv_new coin a b)} = {a, b} \<and>
   rv_turn (rv_new coin a b) = Some RvBlack"
proof -
  have "legal_cells rv_starting_grid RvBlack \<noteq> []" by code_simp
  moreover have "rv_moves (rv_new coin a b) = []" by (simp add: rv_new_def split: prod.split)
  ultimately have "rv_turn (rv_new coin a b) = Some RvBlack" by (simp add: rv_turn_def rv_replay_def)
  then show ?thesis using rv_inv_new [of coin a b] by (auto simp: rv_new_def)
qed

lemma ck_opening:
  "ck_version (ck_new coin a b) = 1 \<and> ck_inv (ck_new coin a b) \<and> {ck_red (ck_new coin a b), ck_white (ck_new coin a b)} = {a, b} \<and>
   ck_turn (ck_new coin a b) = CkRed"
  using ck_inv_new by (auto simp: ck_new_def ck_turn_def)

lemma bg_opening:
  "bg_new coin dice a b = Some s \<Longrightarrow>
     bg_version s = 1 \<and> bg_inv s \<and> {bg_white s, bg_red s} = {a, b} \<and> bg_turn_of s = BgWhite \<and> bg_next_roll s \<noteq> None"
  using bg_new_inv [of coin dice a b s] by (cases coin) (auto simp: bg_new_def bg_turn_of_def Let_def)

lemma br_opening:
  "br_version (br_new coin a b raw) = 1 \<and> br_inv (br_new coin a b raw) \<and>
   {fst (br_seats (br_new coin a b raw)), snd (br_seats (br_new coin a b raw))} = {a, b} \<and>
   br_turn_user (br_new coin a b raw) = Some (br_user_of (br_new coin a b raw) 0)"
proof -
  have "length (br_deck (br_new coin a b raw)) = 40" using br_inv_deck [OF br_inv_new] by blast
  moreover have "br_plays (br_new coin a b raw) = []" by (simp add: br_new_def)
  ultimately have "table_of (br_new coin a b raw) = Some (opening_table (br_deck (br_new coin a b raw)))"
    by (simp add: br_table_40)
  then have "br_turn_user (br_new coin a b raw) = Some (br_user_of (br_new coin a b raw) 0)"
    by (simp add: br_turn_user_def opening_table_def)
  then show ?thesis using br_inv_new [of coin a b raw] by (auto simp: br_new_def)
qed

lemma bs_opening:
  "bs_new a b draws = Some s \<Longrightarrow> bs_version s = 1 \<and> bs_inv s \<and>
     {bs_user_id (fst (bs_sides s)), bs_user_id (snd (bs_sides s))} = {a, b}"
  using bs_inv_new by (auto simp: bs_new_def split: bind_splits)

lemma cb_opening_move:
  "cb_version (cb_new coin raw a b) = 1 \<and> cb_inv (cb_new coin raw a b) \<and>
   {fst (cb_seats (cb_new coin raw a b)), snd (cb_seats (cb_new coin raw a b))} = {a, b}"
  using cb_inv_new [of coin raw a b] by (auto simp: cb_new_def)

lemma gin_opening_move:
  "gs_version (gin_new coin raw a b) = 1 \<and> gin_inv (gin_new coin raw a b) \<and>
   {fst (gs_seats (gin_new coin raw a b)), snd (gs_seats (gin_new coin raw a b))} = {a, b}"
  using gin_inv_new [of coin raw a b] by (auto simp: gin_new_def)

section \<open>One contract for every game\<close>

lemma daily_rules_channel:
  assumes "daily_rules decide legal"
  shows "daily_rules (\<lambda>doc u req. case f req of None \<Rightarrow> Err e | Some m \<Rightarrow> decide doc u m) legal"
proof -
  note r = daily_rules.decide_safe [OF assms] daily_rules.decide_player [OF assms]
    daily_rules.decide_goes_on [OF assms] daily_rules.decide_ends [OF assms] daily_rules.legal_turn [OF assms]
  show ?thesis by unfold_locales (use r in \<open>auto split: option.splits\<close>)
qed

lemma daily_rules_closed:
  assumes "\<And>a b t doc. legal a b t doc \<Longrightarrow> t = a \<or> t = b"
  shows "daily_rules (\<lambda>doc u req. Err e) legal"
  by unfold_locales (use assms in auto)

text \<open>
  What a document of a match between \<open>a\<close> and \<open>b\<close> with \<open>t\<close> on the clock has to be: for the games of this
  development the engine's own condition, for the others an arbitrary predicate \<open>L\<close>.
\<close>

definition game_legal ::
  "'j svc_env \<Rightarrow> (daily_game \<Rightarrow> uuid \<Rightarrow> uuid \<Rightarrow> uuid \<Rightarrow> 'j \<Rightarrow> bool) \<Rightarrow> daily_game \<Rightarrow> uuid \<Rightarrow> uuid \<Rightarrow> uuid \<Rightarrow> 'j \<Rightarrow> bool" where
  "game_legal env L game =
     (case game of
        Battleship \<Rightarrow> bs_legal (en_bs env)
      | ConnectFour \<Rightarrow> c4_legal (en_c4 env)
      | Reversi \<Rightarrow> rv_legal (en_rv env)
      | Checkers \<Rightarrow> ck_legal (en_ck env)
      | Backgammon \<Rightarrow> bg_legal (en_bg env)
      | Briscola \<Rightarrow> br_legal (en_br env)
      | Cribbage \<Rightarrow> cb_legal (en_cb env)
      | GinRummy \<Rightarrow> gin_legal (en_gin env)
      | _ \<Rightarrow> L game)"

definition MODELLED_GAMES :: "daily_game set" where
  "MODELLED_GAMES = {Battleship, ConnectFour, Reversi, Checkers, Backgammon, Briscola, Cribbage, GinRummy}"

text \<open>What is asked of the environment: the codecs read back what they write, and the games that are not
  modelled keep the contract of the others and leave the clock to the service.\<close>

definition env_ok :: "'j svc_env \<Rightarrow> (daily_game \<Rightarrow> uuid \<Rightarrow> uuid \<Rightarrow> uuid \<Rightarrow> 'j \<Rightarrow> bool) \<Rightarrow> bool" where
  "env_ok env L \<longleftrightarrow>
     codec_ok (en_c4 env) \<and> codec_ok (en_rv env) \<and> codec_ok (en_ck env) \<and> codec_ok (en_bg env) \<and>
     codec_ok (en_br env) \<and> codec_ok (en_bs env) \<and> codec_ok (en_cb env) \<and> codec_ok (en_gin env) \<and>
     (\<forall>g. g \<notin> MODELLED_GAMES \<longrightarrow> daily_rules (en_chess env g) (L g)) \<and>
     (\<forall>g doc u m d. en_chess env g doc u m = Ok d \<longrightarrow> de_deadline d = None) \<and>
     (\<forall>g a b. g \<notin> MODELLED_GAMES \<longrightarrow> a \<noteq> b \<longrightarrow> (case en_deal env g a b of (doc, first) \<Rightarrow> L g a b first doc))"

lemma decide_move_channels:
  "decide_move env now kept draws Battleship = (\<lambda>doc u req. case (case req of CellMove a b \<Rightarrow> Some b | _ \<Rightarrow> None) of
     None \<Rightarrow> Err SvcWrongChannel | Some m \<Rightarrow> play_battleship_shot (en_bs env) now doc u m)"
  "decide_move env now kept draws ConnectFour = (\<lambda>doc u req. case (case req of CellMove a b \<Rightarrow> Some b | _ \<Rightarrow> None) of
     None \<Rightarrow> Err SvcWrongChannel | Some m \<Rightarrow> play_connect4_drop (en_c4 env) doc u m)"
  "decide_move env now kept draws Reversi = (\<lambda>doc u req. case (case req of CellMove a b \<Rightarrow> Some b | _ \<Rightarrow> None) of
     None \<Rightarrow> Err SvcWrongChannel | Some m \<Rightarrow> play_reversi_move (en_rv env) doc u m)"
  "decide_move env now kept draws Briscola = (\<lambda>doc u req. case (case req of CellMove a b \<Rightarrow> Some b | _ \<Rightarrow> None) of
     None \<Rightarrow> Err SvcWrongChannel | Some m \<Rightarrow> play_briscola_card (en_br env) doc u m)"
  "decide_move env now kept draws Checkers = (\<lambda>doc u req. case (case req of PathMove p \<Rightarrow> Some p | _ \<Rightarrow> None) of
     None \<Rightarrow> Err SvcWrongChannel | Some m \<Rightarrow> play_checkers (en_ck env) doc u m)"
  "decide_move env now kept draws Backgammon = (\<lambda>doc u req. case (case req of TurnMove h \<Rightarrow> Some h | _ \<Rightarrow> None) of
     None \<Rightarrow> Err SvcWrongChannel | Some m \<Rightarrow> play_backgammon (en_bg env) (md_dice draws) doc u m)"
  "g \<in> {Chess, Chess960} \<Longrightarrow> decide_move env now kept draws g = (\<lambda>doc u req. case (case req of CellMove a b \<Rightarrow> Some (a, b) | _ \<Rightarrow> None) of
     None \<Rightarrow> Err SvcWrongChannel | Some m \<Rightarrow> en_chess env g doc u m)"
  "decide_move env now kept draws Cribbage = (\<lambda>doc u req. case (case req of CribbageTurn m \<Rightarrow> Some m | _ \<Rightarrow> None) of
     None \<Rightarrow> Err SvcWrongChannel | Some m \<Rightarrow> play_cribbage (en_cb env) (md_shuffle draws) doc u m)"
  "decide_move env now kept draws GinRummy = (\<lambda>doc u req. case (case req of GinTurn m \<Rightarrow> Some m | _ \<Rightarrow> None) of
     None \<Rightarrow> Err SvcWrongChannel | Some m \<Rightarrow> play_gin (en_gin env) (md_shuffle draws) kept doc u m)"
  "g \<in> {EightBall, NineBall, Snooker} \<Longrightarrow> decide_move env now kept draws g = (\<lambda>doc u req. Err SvcWrongChannel)"
  by (auto simp: decide_move_def decide_cell_def ensure_def fun_eq_iff split: move_request.splits)

text \<open>The dispatch over all games is itself an instance of the contract.\<close>

lemma service_rules:
  assumes "env_ok env L"
  shows "daily_rules (decide_move env now kept draws g) (game_legal env L g)"
proof -
  have chess: "daily_rules (en_chess env g) (L g)" if "g \<notin> MODELLED_GAMES" for g using assms that by (simp add: env_ok_def)
  have others: "g \<notin> MODELLED_GAMES \<Longrightarrow> L g a b t doc \<Longrightarrow> t = a \<or> t = b" for g a b t doc
    using daily_rules.legal_turn [OF chess] by blast
  show ?thesis
  proof (cases g)
    case Battleship show ?thesis unfolding Battleship decide_move_channels game_legal_def daily_game.case
      by (rule daily_rules_channel [OF bs_daily.daily_rules_axioms])
  next
    case ConnectFour show ?thesis unfolding ConnectFour decide_move_channels game_legal_def daily_game.case
      by (rule daily_rules_channel [OF c4_daily.daily_rules_axioms])
  next
    case Reversi show ?thesis unfolding Reversi decide_move_channels game_legal_def daily_game.case
      by (rule daily_rules_channel [OF rv_daily.daily_rules_axioms])
  next
    case Checkers show ?thesis unfolding Checkers decide_move_channels game_legal_def daily_game.case
      by (rule daily_rules_channel [OF ck_daily.daily_rules_axioms])
  next
    case Backgammon show ?thesis unfolding Backgammon decide_move_channels game_legal_def daily_game.case
      by (rule daily_rules_channel [OF bg_daily.daily_rules_axioms])
  next
    case Briscola show ?thesis unfolding Briscola decide_move_channels game_legal_def daily_game.case
      by (rule daily_rules_channel [OF br_daily.daily_rules_axioms])
  next
    case Cribbage show ?thesis unfolding Cribbage decide_move_channels game_legal_def daily_game.case
      by (rule daily_rules_channel [OF cb_daily.daily_rules_axioms])
  next
    case GinRummy show ?thesis unfolding GinRummy decide_move_channels game_legal_def daily_game.case
      by (rule daily_rules_channel [OF gin_daily.daily_rules_axioms])
  next
    case Chess
    have "daily_rules (\<lambda>doc u req. case (case req of CellMove a b \<Rightarrow> Some (a, b) | _ \<Rightarrow> None) of
        None \<Rightarrow> Err SvcWrongChannel | Some m \<Rightarrow> en_chess env Chess doc u m) (L Chess)"
      by (rule daily_rules_channel [OF chess]) (simp add: MODELLED_GAMES_def)
    then show ?thesis using decide_move_channels(7) [of Chess env now kept draws] by (simp add: Chess game_legal_def)
  next
    case Chess960
    have "daily_rules (\<lambda>doc u req. case (case req of CellMove a b \<Rightarrow> Some (a, b) | _ \<Rightarrow> None) of
        None \<Rightarrow> Err SvcWrongChannel | Some m \<Rightarrow> en_chess env Chess960 doc u m) (L Chess960)"
      by (rule daily_rules_channel [OF chess]) (simp add: MODELLED_GAMES_def)
    then show ?thesis using decide_move_channels(7) [of Chess960 env now kept draws] by (simp add: Chess960 game_legal_def)
  qed (simp_all add: game_legal_def decide_move_channels, (rule daily_rules_closed, rule others, simp_all add: MODELLED_GAMES_def)+)
qed

text \<open>A draw of gin keeps the deadline of the row; every other move is given a fresh one.\<close>

lemma engines_fresh_deadline:
  "play_battleship_shot cd1 now doc u k = Ok d \<Longrightarrow> de_deadline d = None"
  "play_connect4_drop cd2 doc u k = Ok d \<Longrightarrow> de_deadline d = None"
  "play_reversi_move cd3 doc u k = Ok d \<Longrightarrow> de_deadline d = None"
  "play_checkers cd4 doc u path = Ok d \<Longrightarrow> de_deadline d = None"
  "play_backgammon cd5 dice doc u hops = Ok d \<Longrightarrow> de_deadline d = None"
  "play_briscola_card cd6 doc u k = Ok d \<Longrightarrow> de_deadline d = None"
  "play_cribbage cd7 raw doc u cm = Ok d \<Longrightarrow> de_deadline d = None"
  by (auto simp: play_battleship_shot_def play_connect4_drop_def play_reversi_move_def play_checkers_def play_backgammon_def
      play_briscola_card_def play_cribbage_def card_decided_def res_simps Let_def split: option.splits)

lemma gin_deadline:
  "play_gin cd raw kept doc u m = Ok d \<Longrightarrow> case m of GinDraw _ \<Rightarrow> kept \<noteq> None \<and> de_deadline d = kept | GinThrow _ _ \<Rightarrow> de_deadline d = None"
  by (auto simp: play_gin_def card_decided_def res_simps Let_def split: gin_move.splits option.splits)

lemma decided_deadline:
  assumes "env_ok env L" and "decide_move env now kept draws g doc u req = Ok d"
  shows "Some (deadline_of tk d) = (if \<exists>p. req = GinTurn (GinDraw p) then kept else Some (tk_app tk + hours DAILY_MOVE_HOURS))"
proof (cases req)
  case (CellMove a b)
  have "\<And>g m. en_chess env g doc u m = Ok d \<Longrightarrow> de_deadline d = None" using assms(1) unfolding env_ok_def by blast
  with assms(2) CellMove engines_fresh_deadline(1-3,6) have "de_deadline d = None"
    by (cases g) (fastforce simp: decide_move_def decide_cell_def)+
  with CellMove show ?thesis by (simp add: deadline_of_def)
next
  case (GinTurn m)
  with assms(2) have "play_gin (en_gin env) (md_shuffle draws) kept doc u m = Ok d" by (simp add: decide_move_def res_simps)
  from gin_deadline [OF this] GinTurn show ?thesis by (cases m) (auto simp: deadline_of_def)
qed (use assms(2) in \<open>auto simp: decide_move_def deadline_of_def res_simps dest: engines_fresh_deadline(4,5,7)\<close>)

text \<open>The opening position of a claim is legal.\<close>

lemma opening_legal:
  assumes "env_ok env L" and "a \<noteq> b" and "opening_state env od g a b = Ok (doc, first)"
  shows "game_legal env L g a b first doc"
proof -
  have cds: "codec_ok (en_c4 env)" "codec_ok (en_rv env)" "codec_ok (en_ck env)" "codec_ok (en_bg env)"
    "codec_ok (en_br env)" "codec_ok (en_bs env)" "codec_ok (en_cb env)" "codec_ok (en_gin env)" using assms(1) by (simp_all add: env_ok_def)
  have deal: "g \<notin> MODELLED_GAMES \<Longrightarrow> en_deal env g a b = (doc, first) \<Longrightarrow> L g a b first doc"
    using assms(1,2) unfolding env_ok_def by fastforce
  show ?thesis
  proof (cases g)
    case ConnectFour
    with assms have "doc = encode (en_c4 env) (c4_new (od_coin od) a b)" "first = c4_red (c4_new (od_coin od) a b)"
      by (auto simp: opening_state_def Let_def)
    with assms(2) cds c4_opening [of "od_coin od" a b] show ?thesis
      by (auto simp: ConnectFour game_legal_def c4_legal_def codec_okD)
  next
    case Reversi
    with assms have "doc = encode (en_rv env) (rv_new (od_coin od) a b)" "first = rv_black (rv_new (od_coin od) a b)"
      by (auto simp: opening_state_def Let_def)
    with assms(2) cds rv_opening [of "od_coin od" a b] show ?thesis
      by (auto simp: Reversi game_legal_def rv_legal_def codec_okD)
  next
    case Checkers
    with assms have "doc = encode (en_ck env) (ck_new (od_coin od) a b)" "first = ck_red (ck_new (od_coin od) a b)"
      by (auto simp: opening_state_def Let_def)
    with assms(2) cds ck_opening [of "od_coin od" a b] show ?thesis
      by (auto simp: Checkers game_legal_def ck_legal_def codec_okD)
  next
    case Backgammon
    with assms obtain s where "bg_new (od_coin od) (od_dice od) a b = Some s" "doc = encode (en_bg env) s" "first = bg_white s"
      by (auto simp: opening_state_def split: option.splits)
    with assms(2) cds bg_opening [of "od_coin od" "od_dice od" a b s] show ?thesis
      by (auto simp: Backgammon game_legal_def bg_legal_def codec_okD)
  next
    case Briscola
    with assms have "doc = encode (en_br env) (br_new (od_coin od) a b (od_shuffle od))"
      "first = br_user_of (br_new (od_coin od) a b (od_shuffle od)) 0"
      by (auto simp: opening_state_def Let_def)
    with assms(2) cds br_opening [of "od_coin od" a b "od_shuffle od"] show ?thesis
      by (auto simp: Briscola game_legal_def br_legal_def codec_okD)
  next
    case Battleship
    with assms obtain s where "bs_new a b (od_fleets od) = Some s" "doc = encode (en_bs env) s"
      "first = (if od_coin od then a else b)"
      by (auto simp: opening_state_def split: option.splits)
    with assms(2) cds bs_opening [of a b "od_fleets od" s] show ?thesis
      by (auto simp: Battleship game_legal_def bs_legal_def codec_okD)
  next
    case Cribbage
    let ?s = "cb_new (od_coin od) (od_shuffle od) a b"
    from assms Cribbage have "doc = encode (en_cb env) ?s" "cb_turn_user ?s = Some (Some first)"
      by (auto simp: opening_state_def res_simps Let_def split: option.splits)
    with assms(2) cds cb_opening_move [of "od_coin od" "od_shuffle od" a b] show ?thesis
      by (auto simp: Cribbage game_legal_def cb_legal_def codec_okD)
  next
    case GinRummy
    let ?s = "gin_new (od_coin od) (od_shuffle od) a b"
    from assms GinRummy have "doc = encode (en_gin env) ?s" "gin_turn_user ?s = Some (Some first)"
      by (auto simp: opening_state_def res_simps Let_def split: option.splits)
    with assms(2) cds gin_opening_move [of "od_coin od" "od_shuffle od" a b] show ?thesis
      by (auto simp: GinRummy game_legal_def gin_legal_def codec_okD)
  qed (use assms deal in \<open>auto simp: opening_state_def game_legal_def MODELLED_GAMES_def\<close>)
qed

end
