(* ===== verification/DailyRuns.thy ===== *)
theory DailyRuns
  imports DailySvc
begin

text \<open>
  Runs of the daily match service: any number of calls under way at once, each at the statement it has
  reached, the sweeper beside them, and any of them lost between two statements. What holds in every
  reachable world: the matches are in order and their documents legal, every match finishes once, and a
  win pays once and once per pair of players, game and day.
\<close>

section \<open>Rows over time\<close>

text \<open>\<open>later\<close> without its revisions, and with the posting date.\<close>

definition keeps :: "'j match_row \<Rightarrow> 'j match_row \<Rightarrow> bool" where
  "keeps r r' \<longleftrightarrow> later (\<lambda>_. None) r r' \<and> dm_created r' = dm_created r"

lemma keeps_refl [intro, simp]: "keeps r r"
  by (simp add: keeps_def later_refl)

lemma keeps_trans: "keeps a b \<Longrightarrow> keeps b c \<Longrightarrow> keeps a c"
  by (auto simp: keeps_def intro: later_trans)

lemma keeps_same: "keeps r r' \<Longrightarrow> dm_id r' = dm_id r \<and> dm_challenger r' = dm_challenger r \<and>
    dm_game_kind r' = dm_game_kind r \<and> dm_created r' = dm_created r"
  by (simp add: keeps_def later_def)

lemma keeps_active: "keeps r r' \<Longrightarrow> dm_status r = STATUS_ACTIVE \<Longrightarrow> dm_opponent r' = dm_opponent r"
  by (simp add: keeps_def later_def)

lemma keeps_finished: "keeps r r' \<Longrightarrow> dm_status r = STATUS_FINISHED \<Longrightarrow>
    dm_status r' = STATUS_FINISHED \<and> dm_opponent r' = dm_opponent r \<and> dm_winner r' = dm_winner r"
  by (simp add: keeps_def later_def)

definition row_legal ::
  "'j svc_env \<Rightarrow> (daily_game \<Rightarrow> uuid \<Rightarrow> uuid \<Rightarrow> uuid \<Rightarrow> 'j \<Rightarrow> bool) \<Rightarrow> 'j match_row \<Rightarrow> bool" where
  "row_legal env L r \<longleftrightarrow>
     (\<forall>g opp t. dm_status r = STATUS_ACTIVE \<longrightarrow> from_kind (dm_game_kind r) = Some g \<longrightarrow> dm_opponent r = Some opp \<longrightarrow>
        dm_turn r = Some t \<longrightarrow> game_legal env L g (dm_challenger r) opp t (dm_state r))"

definition table_ok ::
  "'j svc_env \<Rightarrow> (daily_game \<Rightarrow> uuid \<Rightarrow> uuid \<Rightarrow> uuid \<Rightarrow> 'j \<Rightarrow> bool) \<Rightarrow> 'j match_row list \<Rightarrow> bool" where
  "table_ok env L rows \<longleftrightarrow> rows_ok rows \<and> (\<forall>r \<in> set rows. row_legal env L r)"

definition leads :: "'j match_row list \<Rightarrow> 'j match_row list \<Rightarrow> bool" where
  "leads rows rows' \<longleftrightarrow> (\<forall>r \<in> set rows. \<exists>r' \<in> set rows'. keeps r r')"

lemma leads_refl [intro, simp]: "leads rows rows"
  by (auto simp: leads_def)

lemma leads_trans: "leads a b \<Longrightarrow> leads b c \<Longrightarrow> leads a c"
  unfolding leads_def using keeps_trans by blast

text \<open>An update is in order when every row it touches is.\<close>

lemma update_table:
  assumes "table_ok env L rows"
    and "\<And>r. r \<in> set rows \<Longrightarrow> p r \<Longrightarrow> row_ok r \<Longrightarrow> row_legal env L r \<Longrightarrow> keeps r (f r) \<and> row_ok (f r) \<and> row_legal env L (f r)"
  shows "table_ok env L (sql_update p f rows) \<and> leads rows (sql_update p f rows)"
proof -
  define h where "h r = (if p r then f r else r)" for r
  have h: "keeps r (h r)" "row_ok (h r)" "row_legal env L (h r)" if "r \<in> set rows" for r
    using assms that by (auto simp: table_ok_def rows_ok_def h_def)
  have u: "sql_update p f rows = map h rows" by (simp add: sql_update_def h_def)
  have "map dm_id (map h rows) = map dm_id rows" using h(1) keeps_same by force
  then have "distinct (map dm_id (map h rows))" using assms(1) unfolding table_ok_def rows_ok_def by metis
  with h show ?thesis unfolding u table_ok_def rows_ok_def leads_def set_map by blast
qed

lemmas row_order = row_ok_def players_ok_def plays_def keeps_def later_def row_legal_def

lemma get_match_in: "get_match rows m = Some r \<Longrightarrow> r \<in> set rows \<and> dm_id r = m"
  by (auto simp: get_match_def find_Some_iff)

lemma get_match_unique: "rows_ok rows \<Longrightarrow> r \<in> set rows \<Longrightarrow> get_match rows (dm_id r) = Some r"
proof -
  assume ok: "rows_ok rows" and r: "r \<in> set rows"
  then obtain x where x: "get_match rows (dm_id r) = Some x"
    unfolding get_match_def by (metis (mono_tags, lifting) find_None_iff option.exhaust)
  from get_match_in [OF this] ok r have "x = r" by (metis same_row)
  with x show ?thesis by simp
qed

text \<open>The writes of the service on the table.\<close>

lemma post_table:
  assumes "table_ok env L rows" and "create_challenge now i doc0 rows kind u = Ok (rows', r)"
  shows "table_ok env L rows' \<and> leads rows rows' \<and> (\<forall>x \<in> set rows'. x \<in> set rows \<or> dm_status x = STATUS_OPEN)"
proof -
  from assms(2) have r: "rows' = rows @ [r]" "dm_id r \<notin> set (map dm_id rows)" "dm_status r = STATUS_OPEN"
    "dm_opponent r = None" "dm_turn r = None" "dm_deadline r = None" "dm_winner r = None" "dm_result r = []"
    by (auto simp: create_challenge_def res_simps Let_def)
  then have "row_ok r" "row_legal env L r" by (simp_all add: row_ok_def row_legal_def)
  with assms(1) r show ?thesis by (auto simp: table_ok_def rows_ok_def leads_def)
qed

lemma claim_table:
  assumes "table_ok env L rows"
    and "\<And>r. r \<in> set rows \<Longrightarrow> dm_id r = m \<Longrightarrow> (first = u \<or> first = dm_challenger r) \<and>
      (\<forall>g. from_kind (dm_game_kind r) = Some g \<longrightarrow> game_legal env L g (dm_challenger r) u first doc)"
  shows "table_ok env L (sql_update (claim_guard m u) (claim_set now u first dl doc) rows) \<and>
    leads rows (sql_update (claim_guard m u) (claim_set now u first dl doc) rows)"
  by (rule update_table [OF assms(1)]) (use assms(2) in \<open>auto simp: claim_guard_def claim_set_def row_order\<close>)

lemma room_table:
  assumes "table_ok env L rows"
  shows "table_ok env L (fst (set_chat_room rows m room)) \<and> leads rows (fst (set_chat_room rows m room))"
  unfolding set_chat_room_def fst_conv by (rule update_table [OF assms]) (auto simp: row_order)

lemma cancel_table:
  assumes "table_ok env L rows" and "cancel_challenge now rows m u = (rows', n)"
  shows "table_ok env L rows' \<and> leads rows rows'"
proof -
  let ?p = "\<lambda>r. dm_id r = m \<and> dm_challenger r = u \<and> dm_status r = STATUS_OPEN"
    and ?f = "\<lambda>r. r\<lparr>dm_status := STATUS_CANCELLED, dm_updated := now\<rparr>"
  have "rows' = sql_update ?p ?f rows" using assms(2) by (simp add: cancel_challenge_def Let_def)
  moreover have "table_ok env L (sql_update ?p ?f rows) \<and> leads rows (sql_update ?p ?f rows)"
    by (rule update_table [OF assms(1)]) (auto simp: row_order)
  ultimately show ?thesis by simp
qed

lemma seen_table:
  assumes "table_ok env L rows"
  shows "table_ok env L (fst (mark_result_seen now rows m u)) \<and> leads rows (fst (mark_result_seen now rows m u))"
  unfolding mark_result_seen_def Let_def fst_conv by (rule update_table [OF assms]) (auto simp: row_order)

text \<open>Every payout has a spelling the column takes.\<close>

lemma record_win_payout_eq:
  "record_win_payout now rows m payout = sql_update (\<lambda>r. dm_id r = m \<and> dm_status r = STATUS_FINISHED)
     (\<lambda>r. r\<lparr>dm_win_payout := Some (win_db_str payout), dm_updated := now\<rparr>) rows"
  by (cases payout) (simp_all add: record_win_payout_def set_win_payout_def Let_def ensure_def)

lemma payout_table:
  assumes "table_ok env L rows"
  shows "table_ok env L (record_win_payout now rows m payout) \<and> leads rows (record_win_payout now rows m payout)"
  unfolding record_win_payout_eq by (rule update_table [OF assms]) (auto simp: row_order)

lemma move_table:
  assumes "table_ok env L rows" and "update_state rt now rows m doc u next_user dl e = Ok (rows', n)"
    and "\<And>r opp. r \<in> set rows \<Longrightarrow> dm_id r = m \<Longrightarrow> dm_status r = STATUS_ACTIVE \<Longrightarrow> dm_opponent r = Some opp \<Longrightarrow>
      plays r next_user \<and> (\<forall>g. from_kind (dm_game_kind r) = Some g \<longrightarrow> game_legal env L g (dm_challenger r) opp next_user doc)"
  shows "table_ok env L rows' \<and> leads rows rows'"
proof -
  let ?p = "\<lambda>r. (dm_id r = m \<and> dm_status r = STATUS_ACTIVE \<and> dm_turn r = Some u) \<and> stored_revision rt (dm_state r) = Some e"
  let ?f = "\<lambda>r. r\<lparr>dm_state := doc, dm_turn := Some next_user, dm_deadline := Some dl, dm_updated := now\<rparr>"
  have "rows' = sql_update ?p ?f rows"
    using assms(2) by (simp add: update_state_def guarded_write_def res_simps Let_def)
  moreover have "table_ok env L (sql_update ?p ?f rows) \<and> leads rows (sql_update ?p ?f rows)"
    by (rule update_table [OF assms(1)]) (use assms(3) in \<open>fastforce simp: row_order stored_revision_def\<close>)
  ultimately show ?thesis by simp
qed

lemma finish_table:
  assumes "table_ok env L rows" and "finish rt now rows m w result doc e = Ok (rows', n)"
    and "\<And>r. r \<in> set rows \<Longrightarrow> dm_id r = m \<Longrightarrow> dm_status r = STATUS_ACTIVE \<Longrightarrow> \<forall>x. w = Some x \<longrightarrow> plays r x"
  shows "table_ok env L rows' \<and> leads rows rows' \<and>
    (0 < n \<longrightarrow> (\<exists>r \<in> set rows. dm_id r = m \<and> dm_status r = STATUS_ACTIVE) \<and>
      (\<exists>r \<in> set rows'. dm_id r = m \<and> dm_status r = STATUS_FINISHED \<and> dm_winner r = w))"
proof -
  let ?p = "\<lambda>r. (dm_id r = m \<and> dm_status r = STATUS_ACTIVE) \<and> stored_revision rt (dm_state r) = Some e"
  let ?f = "\<lambda>r. r\<lparr>dm_status := STATUS_FINISHED, dm_winner := w, dm_result := result_str result,
              dm_state := doc, dm_turn := None, dm_deadline := None, dm_updated := now\<rparr>"
  have r': "rows' = sql_update ?p ?f rows" "n = sql_count ?p rows"
    using assms(2) by (auto simp: finish_def guarded_write_def res_simps Let_def)
  have "table_ok env L (sql_update ?p ?f rows) \<and> leads rows (sql_update ?p ?f rows)"
    by (rule update_table [OF assms(1)]) (use assms(3) in \<open>auto simp: row_order stored_revision_def\<close>)
  moreover have "(\<exists>r \<in> set rows. dm_id r = m \<and> dm_status r = STATUS_ACTIVE) \<and>
      (\<exists>r \<in> set rows'. dm_id r = m \<and> dm_status r = STATUS_FINISHED \<and> dm_winner r = w)" if pos: "0 < n"
  proof -
    obtain r where r: "r \<in> set rows" "?p r" "?f r \<in> set rows'"
      using sql_hit [of ?p rows ?f] pos unfolding r' by blast
    then show ?thesis by (intro conjI bexI [of _ r] bexI [of _ "?f r"]) simp_all
  qed
  ultimately show ?thesis using r'(1) by blast
qed

lemma forfeit_table:
  assumes "table_ok env L rows" and "forfeit_expired now rows = (rows', out)"
  shows "table_ok env L rows' \<and> leads rows rows' \<and>
    (\<forall>x \<in> set out. x \<in> set rows' \<and> dm_status x = STATUS_FINISHED \<and>
       (\<exists>r \<in> set rows. dm_id r = dm_id x \<and> dm_status r = STATUS_ACTIVE))"
proof -
  have r': "rows' = sql_update (expired now) (forfeit_set now) rows" "out = sql_returning (expired now) (forfeit_set now) rows"
    using assms(2) by (auto simp: forfeit_expired_def)
  have "table_ok env L (sql_update (expired now) (forfeit_set now) rows) \<and> leads rows (sql_update (expired now) (forfeit_set now) rows)"
    by (rule update_table [OF assms(1)]) (auto simp: expired_def forfeit_set_def row_order stored_revision_def simp del: result_str.simps)
  moreover have "\<forall>x \<in> set out. x \<in> set rows' \<and> dm_status x = STATUS_FINISHED \<and>
       (\<exists>r \<in> set rows. dm_id r = dm_id x \<and> dm_status r = STATUS_ACTIVE)"
    by (auto simp: r' sql_returning_def sql_update_def forfeit_set_def expired_def)
  ultimately show ?thesis using r' by simp
qed

section \<open>Calls under way\<close>

datatype 'j job =
  JClaim "'j claim_job" | JMove "'j move_job" | JResign "'j resign_job" | JFinish "'j finish_job"

definition finish_jobs :: "'j finish_job list \<Rightarrow> 'j job multiset" where
  "finish_jobs js = mset (map JFinish js)"

text \<open>A claim under the template of a daily game.\<close>

definition daily_claim :: "'j svc_env \<Rightarrow> payout_row \<Rightarrow> bool" where
  "daily_claim env c \<longleftrightarrow>
     (\<exists>g t active. en_templates env (reward_key g) = Some (t, active) \<and> rt_params t ''game'' = Some (pr_game c) \<and>
        rt_params t ''payout_kind'' = Some (pr_kind c))"

text \<open>
  One statement of some call. \<open>step_lost\<close>: a call fails or its process dies; \<open>step_cut\<close>: it dies
  between the grant of a payout and the broadcast; \<open>step_elsewhere\<close>: the rest of the program moves chips
  and pays rewards, under templates of its own.
\<close>

inductive svc_step :: "'j svc_env \<Rightarrow> 'j world \<times> 'j job multiset \<Rightarrow> 'j world \<times> 'j job multiset \<Rightarrow> bool" for env where
  step_post: "post_challenge env now i w u g = Ok (w', r) \<Longrightarrow> svc_step env (w, J) (w', J)"
| step_claim_begin: "begin_claim env od w u m = Ok c \<Longrightarrow> svc_step env (w, J) (w, add_mset (JClaim c) J)"
| step_claim_commit: "commit_claim tk room w c = Ok (w', r) \<Longrightarrow> svc_step env (w, add_mset (JClaim c) J) (w', J)"
| step_cancel: "cancel_open_challenge now w u m = Ok w' \<Longrightarrow> svc_step env (w, J) (w', J)"
| step_seen: "svc_step env (w, J) (see_result now w u m, J)"
| step_move_begin: "begin_move env tk draws w u m req = Ok j \<Longrightarrow> svc_step env (w, J) (w, add_mset (JMove j) J)"
| step_move_commit: "commit_move env tk w j = Ok (w', fin) \<Longrightarrow>
     svc_step env (w, add_mset (JMove j) J) (w', finish_jobs (case fin of None \<Rightarrow> [] | Some f \<Rightarrow> [f]) + J)"
| step_resign_begin: "begin_resign w u m = Ok j \<Longrightarrow> svc_step env (w, J) (w, add_mset (JResign j) J)"
| step_resign_commit: "commit_resign env tk w j = Ok (Some (w', f)) \<Longrightarrow>
     svc_step env (w, add_mset (JResign j) J) (w', finish_jobs [f] + J)"
| step_sweep: "begin_sweep env now w = (w', fs) \<Longrightarrow> svc_step env (w, J) (w', finish_jobs fs + J)"
| step_finish: "finish_events env tk w f = Ok w' \<Longrightarrow> svc_step env (w, add_mset (JFinish f) J) (w', J)"
| step_cut: "fj_winner f = Some u \<Longrightarrow> pay_winner env tk (wd_pay w) (fj_row f) (fj_game f) u (fj_moves f) = Ok (p, payout) \<Longrightarrow>
     svc_step env (w, add_mset (JFinish f) J) (w\<lparr>wd_pay := p\<rparr>, J)"
| step_lost: "svc_step env (w, add_mset j J) (w, J)"
| step_error: "svc_step env (w, J) (say w (ServiceError u e), J)"
| step_elsewhere: "pd_claims p = pd_claims (wd_pay w) @ rs \<Longrightarrow> \<forall>c \<in> set rs. \<not> daily_claim env c \<Longrightarrow>
     svc_step env (w, J) (w\<lparr>wd_pay := p\<rparr>, J)"

section \<open>What a job may rely on\<close>

definition anchored :: "'j match_row list \<Rightarrow> 'j match_row \<Rightarrow> bool" where
  "anchored rows row \<longleftrightarrow> dm_status row = STATUS_ACTIVE \<and> row_ok row \<and> (\<exists>r \<in> set rows. keeps row r)"

definition same_match :: "'j match_row \<Rightarrow> 'j match_row \<Rightarrow> bool" where
  "same_match a b \<longleftrightarrow> dm_id a = dm_id b \<and> dm_challenger a = dm_challenger b \<and> dm_opponent a = dm_opponent b \<and>
     dm_created a = dm_created b"

definition job_ok ::
  "'j svc_env \<Rightarrow> (daily_game \<Rightarrow> uuid \<Rightarrow> uuid \<Rightarrow> uuid \<Rightarrow> 'j \<Rightarrow> bool) \<Rightarrow> 'j match_row list \<Rightarrow> 'j job \<Rightarrow> bool" where
  "job_ok env L rows j =
     (case j of
        JClaim c \<Rightarrow> (\<exists>r \<in> set rows. dm_id r = cj_match c \<and> (cj_first c = cj_user c \<or> cj_first c = dm_challenger r) \<and>
          (\<forall>g. from_kind (dm_game_kind r) = Some g \<longrightarrow> game_legal env L g (dm_challenger r) (cj_user c) (cj_first c) (cj_doc c)))
      | JMove m \<Rightarrow> anchored rows (mj_row m) \<and> from_kind (dm_game_kind (mj_row m)) = Some (mj_game m) \<and>
          (de_finished (mj_decided m) = None \<longrightarrow> plays (mj_row m) (de_next (mj_decided m)) \<and>
             (\<forall>opp. dm_opponent (mj_row m) = Some opp \<longrightarrow>
                game_legal env L (mj_game m) (dm_challenger (mj_row m)) opp (de_next (mj_decided m)) (de_doc (mj_decided m)))) \<and>
          (\<forall>w result. de_finished (mj_decided m) = Some (Some w, result) \<longrightarrow> plays (mj_row m) w)
      | JResign m \<Rightarrow> anchored rows (rj_row m) \<and> plays (rj_row m) (rj_winner m)
      | JFinish f \<Rightarrow> (\<exists>r \<in> set rows. same_match r (fj_row f) \<and> dm_status r = STATUS_FINISHED \<and> dm_winner r = fj_winner f) \<and>
          players_ok (fj_row f) \<and> (\<forall>w. fj_winner f = Some w \<longrightarrow> plays (fj_row f) w))"

lemma anchored_leads: "anchored rows row \<Longrightarrow> leads rows rows' \<Longrightarrow> anchored rows' row"
  unfolding anchored_def leads_def using keeps_trans by blast

lemma job_ok_leads:
  assumes "job_ok env L rows j" and "leads rows rows'"
  shows "job_ok env L rows' j"
proof (cases j)
  case (JClaim c)
  with assms(1) obtain r where r: "r \<in> set rows" "dm_id r = cj_match c" "cj_first c = cj_user c \<or> cj_first c = dm_challenger r"
    "\<forall>g. from_kind (dm_game_kind r) = Some g \<longrightarrow> game_legal env L g (dm_challenger r) (cj_user c) (cj_first c) (cj_doc c)"
    by (auto simp: job_ok_def)
  from assms(2) r(1) obtain r' where "r' \<in> set rows'" "keeps r r'" by (auto simp: leads_def)
  with r keeps_same [of r r'] show ?thesis by (force simp: JClaim job_ok_def)
next
  case (JFinish f)
  with assms(1) obtain r where r: "r \<in> set rows" "same_match r (fj_row f)" "dm_status r = STATUS_FINISHED" "dm_winner r = fj_winner f"
    by (auto simp: job_ok_def)
  from assms(2) r(1) obtain r' where r': "r' \<in> set rows'" "keeps r r'" by (auto simp: leads_def)
  then have "same_match r' (fj_row f)" "dm_status r' = STATUS_FINISHED" "dm_winner r' = fj_winner f"
    using r keeps_same [OF r'(2)] keeps_finished [OF r'(2) r(3)] by (simp_all add: same_match_def)
  with r'(1) assms(1) show ?thesis by (auto simp: JFinish job_ok_def)
qed (use assms anchored_leads in \<open>auto simp: job_ok_def\<close>)

lemma with_match_Ok: "with_match rows m status e k = Ok x \<Longrightarrow>
    \<exists>r. r \<in> set rows \<and> dm_id r = m \<and> get_match rows m = Some r \<and> dm_status r = status \<and> k r = Ok x"
  by (auto simp: with_match_def ensure_def dest: get_match_in split: option.splits if_splits)

lemma with_game_Ok: "with_game r k = Ok x \<Longrightarrow> \<exists>g. from_kind (dm_game_kind r) = Some g \<and> k g = Ok x"
  by (auto simp: with_game_def split: option.splits)

lemma begin_claim_job:
  assumes "env_ok env L" and "begin_claim env od w u m = Ok c"
  shows "job_ok env L (wd_rows w) (JClaim c)"
proof -
  from assms(2) have "with_match (wd_rows w) m STATUS_OPEN SvcNotOpen (\<lambda>challenge.
       ensure (dm_challenger challenge \<noteq> u) SvcOwnChallenge
       (with_game challenge (\<lambda>game.
        rbind (opening_state env od game (dm_challenger challenge) u) (\<lambda>(doc, first).
        ensure (en_username env (dm_challenger challenge) \<noteq> None) SvcUnknownUser
       (ensure (en_username env u \<noteq> None) SvcUnknownUser
         (Ok \<lparr>cj_match = m, cj_user = u, cj_first = first, cj_doc = doc\<rparr>)))))) = Ok c"
    by (simp add: begin_claim_def ensure_entry_capacity_def res_simps)
  from with_match_Ok [OF this] obtain r where r: "r \<in> set (wd_rows w)" "dm_id r = m" "dm_challenger r \<noteq> u"
    "with_game r (\<lambda>game.
        rbind (opening_state env od game (dm_challenger r) u) (\<lambda>(doc, first).
        ensure (en_username env (dm_challenger r) \<noteq> None) SvcUnknownUser
       (ensure (en_username env u \<noteq> None) SvcUnknownUser
         (Ok \<lparr>cj_match = m, cj_user = u, cj_first = first, cj_doc = doc\<rparr>)))) = Ok c"
    by (auto simp: res_simps)
  from with_game_Ok [OF r(4)] obtain g doc first where g: "from_kind (dm_game_kind r) = Some g"
    "opening_state env od g (dm_challenger r) u = Ok (doc, first)" "c = \<lparr>cj_match = m, cj_user = u, cj_first = first, cj_doc = doc\<rparr>"
    by (auto simp: res_simps)
  have legal: "game_legal env L g (dm_challenger r) u first doc" by (rule opening_legal [OF assms(1) r(3) g(2)])
  have "first = u \<or> first = dm_challenger r" using daily_rules.legal_turn [OF service_rules [OF assms(1)] legal] by blast
  with r g legal show ?thesis by (auto simp: job_ok_def)
qed

lemma begin_move_job:
  assumes "env_ok env L" and "table_ok env L (wd_rows w)" and "begin_move env tk draws w u m req = Ok j"
  shows "job_ok env L (wd_rows w) (JMove j)"
proof -
  from assms(3) obtain row game d where d: "move_prelude (tk_app tk) (wd_rows w) u m = Ok (row, game)"
    "decide_move env (tk_app tk) (dm_deadline row) draws game (dm_state row) u req = Ok d"
    "j = \<lparr>mj_row = row, mj_game = game, mj_user = u, mj_decided = d\<rparr>"
    by (auto simp: begin_move_def res_simps)
  from with_match_Ok [OF d(1) [unfolded move_prelude_def]] have r: "row \<in> set (wd_rows w)" "dm_status row = STATUS_ACTIVE"
    "dm_turn row = Some u" "from_kind (dm_game_kind row) = Some game"
    by (auto simp: res_simps dest!: with_game_Ok)
  have ok: "row_ok row" "row_legal env L row" using assms(2) r(1) by (auto simp: table_ok_def rows_ok_def)
  then obtain opp where opp: "dm_opponent row = Some opp" using r(2) by (auto simp: row_ok_def players_ok_def)
  have legal: "game_legal env L game (dm_challenger row) opp u (dm_state row)"
    using ok(2) r opp by (simp add: row_legal_def)
  note rules = daily_rules.decide_goes_on [OF service_rules [OF assms(1)] legal d(2)]
    daily_rules.decide_ends [OF service_rules [OF assms(1)] legal d(2)]
  have "anchored (wd_rows w) row" using r ok by (auto simp: anchored_def)
  with rules r opp show ?thesis by (auto simp: job_ok_def d(3) plays_def)
qed

lemma begin_resign_job:
  assumes "table_ok env L (wd_rows w)" and "begin_resign w u m = Ok j"
  shows "job_ok env L (wd_rows w) (JResign j)"
proof -
  from with_match_Ok [OF assms(2) [unfolded begin_resign_def]] obtain row where
    row: "row \<in> set (wd_rows w)" "dm_status row = STATUS_ACTIVE" "dm_id row = m"
    and k: "with_game row (\<lambda>game. if dm_challenger row = u \<or> dm_opponent row = Some u
       then (case (if dm_challenger row = u then dm_opponent row else Some (dm_challenger row)) of
               None \<Rightarrow> Err SvcNoOpponent
             | Some winner \<Rightarrow> Ok \<lparr>rj_row = row, rj_game = game, rj_winner = winner\<rparr>)
       else Err SvcNotPlaying) = Ok j" by blast
  from with_game_Ok [OF k] have "rj_row j = row \<and> plays row (rj_winner j)"
    by (auto simp: plays_def split: if_splits option.splits)
  moreover have "anchored (wd_rows w) row" using row assms(1) by (auto simp: anchored_def table_ok_def rows_ok_def)
  ultimately show ?thesis by (simp add: job_ok_def)
qed

section \<open>What the writes do\<close>

text \<open>An anchored row and the row of its match now.\<close>

lemma anchored_now:
  assumes "anchored rows row" and "rows_ok rows" and "r \<in> set rows" and "dm_id r = dm_id row"
  shows "keeps row r \<and> dm_opponent r = dm_opponent row \<and> dm_challenger r = dm_challenger row \<and>
    dm_game_kind r = dm_game_kind row \<and> dm_created r = dm_created row \<and> (\<exists>opp. dm_opponent row = Some opp)"
proof -
  obtain r' where r': "r' \<in> set rows" "keeps row r'" and row: "row_ok row" "dm_status row = STATUS_ACTIVE"
    using assms(1) by (auto simp: anchored_def)
  have "r' = r" using same_row [OF assms(2) r'(1) assms(3)] keeps_same [OF r'(2)] assms(4) by simp
  with r'(2) keeps_same [OF r'(2)] keeps_active [OF r'(2) row(2)] row show ?thesis
    by (auto simp: row_ok_def players_ok_def)
qed

text \<open>A finish by a call leaves the job of its payout and a match that was not finished before.\<close>

definition finishes_with :: "'j match_row list \<Rightarrow> 'j match_row list \<Rightarrow> 'j finish_job \<Rightarrow> bool" where
  "finishes_with rows rows' f \<longleftrightarrow>
     (\<exists>r \<in> set rows. dm_id r = dm_id (fj_row f) \<and> dm_status r \<noteq> STATUS_FINISHED) \<and>
     (\<exists>r \<in> set rows'. same_match r (fj_row f) \<and> dm_status r = STATUS_FINISHED \<and> dm_winner r = fj_winner f) \<and>
     players_ok (fj_row f) \<and> (\<forall>w. fj_winner f = Some w \<longrightarrow> plays (fj_row f) w)"

lemma finishes_job: "finishes_with rows rows' f \<Longrightarrow> job_ok env L rows' (JFinish f)"
  by (auto simp: finishes_with_def job_ok_def)

lemma anchored_finish:
  assumes "table_ok env L rows" and "anchored rows row" and "\<forall>x. w = Some x \<longrightarrow> plays row x"
    and "finish rt now rows (dm_id row) w result doc e = Ok (rows', 1)"
  shows "table_ok env L rows' \<and> leads rows rows' \<and>
    finishes_with rows rows' \<lparr>fj_row = row, fj_game = g, fj_winner = w, fj_result = res, fj_moves = n\<rparr>"
proof -
  have ok: "rows_ok rows" using assms(1) by (simp add: table_ok_def)
  have "plays r x" if "r \<in> set rows" "dm_id r = dm_id row" "w = Some x" for r x
    using anchored_now [OF assms(2) ok that(1,2)] assms(3) that(3) by (auto simp: plays_def)
  then have fin: "table_ok env L rows' \<and> leads rows rows' \<and>
    (\<exists>r \<in> set rows. dm_id r = dm_id row \<and> dm_status r = STATUS_ACTIVE) \<and>
      (\<exists>r \<in> set rows'. dm_id r = dm_id row \<and> dm_status r = STATUS_FINISHED \<and> dm_winner r = w)"
    using finish_table [OF assms(1,4)] by auto
  then obtain r' where r': "r' \<in> set rows'" "dm_id r' = dm_id row" "dm_status r' = STATUS_FINISHED" "dm_winner r' = w" by blast
  have anch: "anchored rows' row" using anchored_leads [OF assms(2)] fin by blast
  moreover have "rows_ok rows'" using fin by (simp add: table_ok_def)
  ultimately have "same_match r' row" using anchored_now [OF _ _ r'(1,2)] r'(2) by (simp add: same_match_def)
  moreover have "players_ok row" using assms(2) by (auto simp: anchored_def row_ok_def)
  moreover obtain r where "r \<in> set rows" "dm_id r = dm_id row" "dm_status r \<noteq> STATUS_FINISHED" using fin by auto
  ultimately show ?thesis using fin r' assms(3) unfolding finishes_with_def by auto
qed

lemma commit_move_effect:
  assumes "table_ok env L (wd_rows w)" and "job_ok env L (wd_rows w) (JMove j)" and "commit_move env tk w j = Ok (w', fin)"
  shows "table_ok env L (wd_rows w') \<and> leads (wd_rows w) (wd_rows w') \<and> wd_pay w' = wd_pay w \<and>
    wd_events w' = wd_events w @ [MovePlayed (dm_id (mj_row j)) (mj_user j) (de_label (mj_decided j))] \<and>
    (\<forall>f. fin = Some f \<longrightarrow> finishes_with (wd_rows w) (wd_rows w') f)"
proof (cases "de_finished (mj_decided j)")
  case None
  from None assms(3) obtain rows where u: "update_state (en_revision_text env) (tk_db tk) (wd_rows w) (dm_id (mj_row j))
      (de_doc (mj_decided j)) (mj_user j) (de_next (mj_decided j)) (deadline_of tk (mj_decided j)) (de_base (mj_decided j)) = Ok (rows, 1)"
    and w': "w' = say (w\<lparr>wd_rows := rows\<rparr>) (MovePlayed (dm_id (mj_row j)) (mj_user j) (de_label (mj_decided j)))" "fin = None"
    by (auto simp: commit_move_def Let_def res_simps stored_def split: res.splits)
  have ok: "rows_ok (wd_rows w)" using assms(1) by (simp add: table_ok_def)
  have anch: "anchored (wd_rows w) (mj_row j)" using assms(2) by (simp add: job_ok_def)
  have "table_ok env L rows \<and> leads (wd_rows w) rows"
  proof (rule move_table [OF assms(1) u])
    fix r opp assume r: "r \<in> set (wd_rows w)" "dm_id r = dm_id (mj_row j)" "dm_status r = STATUS_ACTIVE" "dm_opponent r = Some opp"
    from anchored_now [OF anch ok r(1,2)] r(4) assms(2) None
    show "plays r (de_next (mj_decided j)) \<and> (\<forall>g. from_kind (dm_game_kind r) = Some g \<longrightarrow>
        game_legal env L g (dm_challenger r) opp (de_next (mj_decided j)) (de_doc (mj_decided j)))"
      by (auto simp: job_ok_def plays_def)
  qed
  with w' show ?thesis by (simp add: say_def)
next
  case (Some p)
  obtain winner result where p: "p = (winner, result)" by (cases p)
  with Some assms(3) obtain rows where u: "finish (en_revision_text env) (tk_db tk) (wd_rows w) (dm_id (mj_row j))
      winner result (de_doc (mj_decided j)) (de_base (mj_decided j)) = Ok (rows, 1)"
    and w': "w' = say (w\<lparr>wd_rows := rows\<rparr>) (MovePlayed (dm_id (mj_row j)) (mj_user j) (de_label (mj_decided j)))"
      "fin = Some \<lparr>fj_row = mj_row j, fj_game = mj_game j, fj_winner = winner, fj_result = result,
                            fj_moves = de_revision (mj_decided j)\<rparr>"
    by (auto simp: commit_move_def Let_def res_simps stored_def split: res.splits)
  have "anchored (wd_rows w) (mj_row j)" "\<forall>x. winner = Some x \<longrightarrow> plays (mj_row j) x"
    using assms(2) Some p by (auto simp: job_ok_def)
  from anchored_finish [OF assms(1) this u] w' show ?thesis by (auto simp: say_def)
qed

lemma commit_resign_effect:
  assumes "table_ok env L (wd_rows w)" and "job_ok env L (wd_rows w) (JResign j)" and "commit_resign env tk w j = Ok (Some (w', f))"
  shows "table_ok env L (wd_rows w') \<and> leads (wd_rows w) (wd_rows w') \<and> wd_pay w' = wd_pay w \<and> wd_events w' = wd_events w \<and>
    finishes_with (wd_rows w) (wd_rows w') f \<and> fj_row f = rj_row j \<and> fj_winner f = Some (rj_winner j) \<and> fj_game f = rj_game j"
proof -
  from assms(3) obtain doc base rows n where u: "finish (en_revision_text env) (tk_db tk) (wd_rows w) (dm_id (rj_row j))
      (Some (rj_winner j)) Resign doc base = Ok (rows, 1)" and w': "w' = w\<lparr>wd_rows := rows\<rparr>"
      "f = \<lparr>fj_row = rj_row j, fj_game = rj_game j, fj_winner = Some (rj_winner j), fj_result = Resign, fj_moves = n\<rparr>"
    by (auto simp: commit_resign_def Let_def res_simps stored_def split: res.splits if_splits)
  have "anchored (wd_rows w) (rj_row j)" "\<forall>x. Some (rj_winner j) = Some x \<longrightarrow> plays (rj_row j) x"
    using assms(2) by (auto simp: job_ok_def)
  from anchored_finish [OF assms(1) this u] w' show ?thesis by simp
qed

lemma sweep_effect:
  assumes "table_ok env L (wd_rows w)" and "begin_sweep env now w = (w', fs)"
  shows "table_ok env L (wd_rows w') \<and> leads (wd_rows w) (wd_rows w') \<and> wd_pay w' = wd_pay w \<and> wd_events w' = wd_events w \<and>
    (\<forall>f \<in> set fs. finishes_with (wd_rows w) (wd_rows w') f) \<and> distinct (map (\<lambda>f. dm_id (fj_row f)) fs)"
proof -
  obtain rows out where f: "forfeit_expired now (wd_rows w) = (rows, out)" by force
  then have w': "w' = w\<lparr>wd_rows := rows\<rparr>" "fs = List.map_filter (forfeit_job env) out"
    using assms(2) by (simp_all add: begin_sweep_def)
  note tab = forfeit_table [OF assms(1) f]
  have "finishes_with (wd_rows w) rows j" if j: "j \<in> set fs" for j
  proof -
    obtain x where x: "x \<in> set out" "forfeit_job env x = Some j"
      using j by (auto simp: w'(2) List.map_filter_def)
    then have jx: "fj_row j = x" "fj_winner j = dm_winner x" by (auto simp: forfeit_job_def split: option.splits)
    from tab x(1) have x_row: "x \<in> set rows" "dm_status x = STATUS_FINISHED"
      and was: "\<exists>r \<in> set (wd_rows w). dm_id r = dm_id x \<and> dm_status r = STATUS_ACTIVE" by auto
    from tab x_row(1) have "row_ok x" by (simp add: table_ok_def rows_ok_def)
    moreover from was have "\<exists>r \<in> set (wd_rows w). dm_id r = dm_id x \<and> dm_status r \<noteq> STATUS_FINISHED" by force
    moreover note x_row
    ultimately have "x \<in> set rows" "dm_status x = STATUS_FINISHED" "row_ok x"
      "\<exists>r \<in> set (wd_rows w). dm_id r = dm_id x \<and> dm_status r \<noteq> STATUS_FINISHED" by blast+
    then show ?thesis using jx by (auto simp: finishes_with_def same_match_def row_ok_def)
  qed
  moreover have "map (\<lambda>f. dm_id (fj_row f)) (List.map_filter (forfeit_job env) out) =
      map dm_id (filter (\<lambda>r. from_kind (dm_game_kind r) \<noteq> None) out)"
    by (induction out) (auto simp: List.map_filter_simps forfeit_job_def split: option.splits)
  moreover have "distinct (map dm_id out)"
  proof -
    have "map dm_id out = map dm_id (filter (expired now) (wd_rows w))"
      using f by (auto simp: forfeit_expired_def sql_returning_def forfeit_set_def)
    then show ?thesis using assms(1) by (simp add: table_ok_def rows_ok_def distinct_map_filter)
  qed
  ultimately show ?thesis using tab by (simp add: w' distinct_map_filter)
qed

lemma claim_effect:
  assumes "table_ok env L (wd_rows w)" and "job_ok env L (wd_rows w) (JClaim c)" and "commit_claim tk room w c = Ok (w', r)"
  shows "table_ok env L (wd_rows w') \<and> leads (wd_rows w) (wd_rows w') \<and> wd_pay w' = wd_pay w \<and>
    (\<exists>m x u. wd_events w' = wd_events w @ [ChallengeClaimed m x u])"
proof -
  let ?rows = "sql_update (claim_guard (cj_match c) (cj_user c)) (claim_set (tk_db tk) (cj_user c) (cj_first c)
     (tk_app tk + hours DAILY_MOVE_HOURS) (cj_doc c)) (wd_rows w)"
  from assms(3) obtain m x u r room' where w': "w' = say (w\<lparr>wd_rows := fst (set_chat_room ?rows r room')\<rparr>) (ChallengeClaimed m x u)"
    by (auto simp: commit_claim_def claim_def split: option.splits list.splits)
  have ok: "rows_ok (wd_rows w)" using assms(1) by (simp add: table_ok_def)
  have one: "table_ok env L ?rows \<and> leads (wd_rows w) ?rows"
  proof (rule claim_table [OF assms(1)])
    fix r assume r: "r \<in> set (wd_rows w)" "dm_id r = cj_match c"
    obtain x where x: "x \<in> set (wd_rows w)" "dm_id x = cj_match c" "cj_first c = cj_user c \<or> cj_first c = dm_challenger x"
      "\<forall>g. from_kind (dm_game_kind x) = Some g \<longrightarrow> game_legal env L g (dm_challenger x) (cj_user c) (cj_first c) (cj_doc c)"
      using assms(2) by (auto simp: job_ok_def)
    have "x = r" using same_row [OF ok x(1) r(1)] x(2) r(2) by simp
    with x show "(cj_first c = cj_user c \<or> cj_first c = dm_challenger r) \<and>
      (\<forall>g. from_kind (dm_game_kind r) = Some g \<longrightarrow> game_legal env L g (dm_challenger r) (cj_user c) (cj_first c) (cj_doc c))"
      by blast
  qed
  with room_table [of env L ?rows r room'] show ?thesis using w' by (auto simp: say_def intro: leads_trans)
qed

section \<open>Payouts\<close>

definition loser_of :: "'j match_row \<Rightarrow> uuid \<Rightarrow> uuid option" where
  "loser_of r w = (if w = dm_challenger r then dm_opponent r else Some (dm_challenger r))"

definition pair_key :: "'j svc_env \<Rightarrow> 'j match_row \<Rightarrow> uuid \<Rightarrow> string" where
  "pair_key env r w = (case loser_of r w of None \<Rightarrow> [] | Some loser \<Rightarrow> en_id_text env loser @ '':'' @ en_day_text env (dm_created r))"

text \<open>What a payout adds: nothing, or the two claims of the match, neither of them claimed before.\<close>

definition paid_for :: "'j svc_env \<Rightarrow> 'j match_row \<Rightarrow> uuid \<Rightarrow> pay_db \<Rightarrow> pay_db \<Rightarrow> bool" where
  "paid_for env row w p p' \<longleftrightarrow>
     (\<exists>c1 c2. pd_claims p' = pd_claims p @ [c1, c2] \<and> daily_claim env c1 \<and>
        row_key c1 = (w, pr_game c1, pr_kind c1, PER_EVENT_REWARD_PERIOD_KIND, en_id_text env (dm_id row)) \<and>
        row_key c2 = (w, pr_game c1, pr_kind c1, PAIR_DAY_REWARD_PERIOD_KIND, pair_key env row w) \<and>
        row_key c1 \<notin> row_key ` set (pd_claims p) \<and> row_key c2 \<notin> row_key ` set (pd_claims p))"

lemma pay_winner_effect:
  assumes "pay_winner env tk p row g w n = Ok (p', payout)"
  shows "if payout = WinPaid then DAILY_WIN_MIN_MOVES \<le> n \<and> paid_for env row w p p' else p' = p"
proof (cases "n < DAILY_WIN_MIN_MOVES")
  case True
  with assms show ?thesis by (auto simp: pay_winner_def)
next
  case False
  with assms obtain loser where loser: "loser_of row w = Some loser"
    by (auto simp: pay_winner_def res_simps loser_of_def)
  let ?keys = "[Unique PER_EVENT_REWARD_PERIOD_KIND (en_id_text env (dm_id row)), Unique PAIR_DAY_REWARD_PERIOD_KIND (pair_key env row w)]"
  let ?grant = "credit_per_event_pair_day_reward_template (en_id_text env) (en_stamp env) (tk_ids tk) (tk_gate tk) (tk_row tk)
      (en_templates env) p w (reward_key g) (en_id_text env (dm_id row)) (pair_key env row w) (win_move g)"
  have eq: "(case ?grant of Ok (p', grant) \<Rightarrow> Ok (p', if rg_credited grant then WinPaid else PairDayCapped)
             | Err e \<Rightarrow> Ok (p, PayoutFailed) | Panic \<Rightarrow> Panic) = (Ok (p', payout) :: (svc_error, pay_db \<times> daily_win_payout) res)"
    using assms False loser by (auto simp: pay_winner_def Let_def loser_of_def pair_key_def expect_def split: if_splits)
  show ?thesis
  proof (cases "payout = WinPaid")
    case paid: True
    with eq obtain grant where gr: "?grant = Ok (p', grant)" "rg_credited grant" by (auto split: res.splits if_splits)
    then obtain t gm kd c where t: "en_templates env (reward_key g) = Some (t, True)"
      "rt_params t ''game'' = Some gm" "rt_params t ''payout_kind'' = Some kd"
      "grant_multi (en_id_text env) (en_stamp env) (tk_ids tk) (tk_gate tk) (tk_row tk) p w gm kd ?keys (rt_chips t) (win_move g) = Ok (p', c)"
      "pc_credited c"
      by (auto simp: credit_per_event_pair_day_reward_template_def template_for_def graded_def get_active_by_key_def
          ensure_claim_policy_def template_game_def template_payout_kind_def required_param_str_def reward_grant_of_def res_simps
          split: option.splits if_splits)
    from grant_multi_cases [OF t(4)] t(5) have open_gates: "\<not> list_ex (gate_blocks p w gm kd (tk_gate tk)) ?keys"
      and rows: "pd_claims p' = pd_claims p @ key_rows (en_stamp env) (tk_ids tk) (tk_row tk) w gm kd (rt_chips t) ?keys"
      by (auto simp: credited_by_def split: if_splits)
    have "paid_for env row w p p'"
      unfolding paid_for_def rows key_rows_def using open_gates t(1-3)
      by (auto simp: key_row_def row_key_def daily_claim_def has_claimed_period_def)
    with paid False show ?thesis by simp
  next
    case unpaid: False
    have "p' = p"
    proof (cases ?grant)
      case (Ok q)
      then obtain p1 grant where q: "q = (p1, grant)" by (cases q)
      with Ok eq unpaid have ng: "\<not> rg_credited grant" "p1 = p'" by (auto split: if_splits)
      from Ok [unfolded q] ng obtain t :: reward_template and gm kd and c :: payout_claim where t: "grant_multi (en_id_text env) (en_stamp env) (tk_ids tk) (tk_gate tk) (tk_row tk)
          p w gm kd ?keys (rt_chips t) (win_move g) = Ok (p1, c)" "\<not> pc_credited c"
        by (auto simp: credit_per_event_pair_day_reward_template_def template_for_def graded_def get_active_by_key_def
          ensure_claim_policy_def template_game_def template_payout_kind_def required_param_str_def reward_grant_of_def res_simps
          split: option.splits if_splits)
      from grant_multi_cases [OF t(1)] t(2) ng(2) show ?thesis by (auto split: if_splits)
    qed (use eq in auto)
    with unpaid show ?thesis by simp
  qed
qed

section \<open>The invariant of a run\<close>

text \<open>Finished broadcasts of a match, claims paid for it, payouts under way for it, and whether it is finished.\<close>

definition announced :: "daily_event list \<Rightarrow> uuid \<Rightarrow> nat" where
  "announced es m = length (filter (\<lambda>e. case e of MatchFinished x _ _ _ _ _ \<Rightarrow> x = m | _ \<Rightarrow> False) es)"

definition pays_for :: "'j svc_env \<Rightarrow> uuid \<Rightarrow> payout_row \<Rightarrow> bool" where
  "pays_for env m c \<longleftrightarrow> daily_claim env c \<and> pr_period_kind c = PER_EVENT_REWARD_PERIOD_KIND \<and> pr_period_key c = en_id_text env m"

definition payments :: "'j svc_env \<Rightarrow> payout_row list \<Rightarrow> uuid \<Rightarrow> nat" where
  "payments env cs m = length (filter (pays_for env m) cs)"

definition finish_of :: "uuid \<Rightarrow> 'j job \<Rightarrow> bool" where
  "finish_of m j = (case j of JFinish f \<Rightarrow> dm_id (fj_row f) = m | _ \<Rightarrow> False)"

definition pending :: "'j job multiset \<Rightarrow> uuid \<Rightarrow> nat" where
  "pending J m = size (filter_mset (finish_of m) J)"

definition is_finished :: "'j match_row list \<Rightarrow> uuid \<Rightarrow> bool" where
  "is_finished rows m \<longleftrightarrow> (\<exists>r \<in> set rows. dm_id r = m \<and> dm_status r = STATUS_FINISHED)"

text \<open>A claim of a daily game is the payout of a finished match to its winner, beside the claim of its pair.\<close>

definition claim_ok :: "'j svc_env \<Rightarrow> 'j match_row list \<Rightarrow> payout_row list \<Rightarrow> payout_row \<Rightarrow> bool" where
  "claim_ok env rows cs c \<longleftrightarrow>
     (daily_claim env c \<and> pr_period_kind c = PER_EVENT_REWARD_PERIOD_KIND \<longrightarrow>
       (\<exists>r \<in> set rows. pr_period_key c = en_id_text env (dm_id r) \<and> dm_status r = STATUS_FINISHED \<and>
          dm_winner r = Some (pr_user c) \<and>
          (\<exists>c' \<in> set cs. row_key c' = (pr_user c, pr_game c, pr_kind c, PAIR_DAY_REWARD_PERIOD_KIND, pair_key env r (pr_user c)))))"

definition pairs_once :: "'j svc_env \<Rightarrow> 'j match_row list \<Rightarrow> payout_row list \<Rightarrow> bool" where
  "pairs_once env rows cs \<longleftrightarrow>
     (\<forall>r \<in> set rows. \<forall>r' \<in> set rows. \<forall>c \<in> set cs. \<forall>c' \<in> set cs.
        pays_for env (dm_id r) c \<longrightarrow> pays_for env (dm_id r') c' \<longrightarrow> pr_user c = pr_user c' \<longrightarrow> pr_game c = pr_game c' \<longrightarrow>
        pr_kind c = pr_kind c' \<longrightarrow> pair_key env r (pr_user c) = pair_key env r' (pr_user c) \<longrightarrow> r = r')"

definition svc_inv ::
  "'j svc_env \<Rightarrow> (daily_game \<Rightarrow> uuid \<Rightarrow> uuid \<Rightarrow> uuid \<Rightarrow> 'j \<Rightarrow> bool) \<Rightarrow> 'j world \<times> 'j job multiset \<Rightarrow> bool" where
  "svc_inv env L s \<longleftrightarrow>
     (case s of (w, J) \<Rightarrow>
        table_ok env L (wd_rows w) \<and> (\<forall>j \<in># J. job_ok env L (wd_rows w) j) \<and>
        (\<forall>m. announced (wd_events w) m + pending J m \<le> of_bool (is_finished (wd_rows w) m)) \<and>
        (\<forall>m. payments env (pd_claims (wd_pay w)) m + pending J m \<le> of_bool (is_finished (wd_rows w) m)) \<and>
        (\<forall>c \<in> set (pd_claims (wd_pay w)). claim_ok env (wd_rows w) (pd_claims (wd_pay w)) c) \<and>
        pairs_once env (wd_rows w) (pd_claims (wd_pay w)))"

lemma is_finished_leads: "leads rows rows' \<Longrightarrow> is_finished rows m \<Longrightarrow> is_finished rows' m"
  unfolding leads_def is_finished_def using keeps_same keeps_finished by metis

lemma same_match_keys: "same_match r r' \<Longrightarrow> pair_key env r w = pair_key env r' w"
  by (auto simp: same_match_def pair_key_def loser_of_def split: option.split)

lemma finished_kept: "keeps r r' \<Longrightarrow> dm_status r = STATUS_FINISHED \<Longrightarrow> same_match r r' \<and> dm_status r' = STATUS_FINISHED \<and> dm_winner r' = dm_winner r"
  using keeps_same [of r r'] keeps_finished [of r r'] by (simp add: same_match_def)

lemma claim_ok_leads:
  assumes "claim_ok env rows cs c" and "leads rows rows'"
  shows "claim_ok env rows' cs c"
  unfolding claim_ok_def
proof (intro impI)
  assume d: "daily_claim env c \<and> pr_period_kind c = PER_EVENT_REWARD_PERIOD_KIND"
  with assms(1) obtain r c' where r: "r \<in> set rows" "pr_period_key c = en_id_text env (dm_id r)" "dm_status r = STATUS_FINISHED"
    "dm_winner r = Some (pr_user c)" "c' \<in> set cs"
    "row_key c' = (pr_user c, pr_game c, pr_kind c, PAIR_DAY_REWARD_PERIOD_KIND, pair_key env r (pr_user c))"
    unfolding claim_ok_def by blast
  obtain r' where r': "r' \<in> set rows'" "keeps r r'" using assms(2) r(1) by (auto simp: leads_def)
  note k = finished_kept [OF r'(2) r(3)]
  with r r' same_match_keys [of r r' env "pr_user c"] show "\<exists>r \<in> set rows'. pr_period_key c = en_id_text env (dm_id r) \<and>
      dm_status r = STATUS_FINISHED \<and> dm_winner r = Some (pr_user c) \<and>
      (\<exists>c' \<in> set cs. row_key c' = (pr_user c, pr_game c, pr_kind c, PAIR_DAY_REWARD_PERIOD_KIND, pair_key env r (pr_user c)))"
    by (intro bexI [OF _ r'(1)] conjI bexI [OF _ r(5)]) (simp_all add: same_match_def)
qed

text \<open>The row of a claim, when ids print differently.\<close>

lemma claim_row:
  assumes "inj (en_id_text env)" and "rows_ok rows" and "claim_ok env rows cs c" and "pays_for env (dm_id r) c" and "r \<in> set rows"
  shows "dm_status r = STATUS_FINISHED \<and> dm_winner r = Some (pr_user c) \<and>
    (\<exists>c' \<in> set cs. row_key c' = (pr_user c, pr_game c, pr_kind c, PAIR_DAY_REWARD_PERIOD_KIND, pair_key env r (pr_user c)))"
proof -
  from assms(3,4) obtain x where x: "x \<in> set rows" "pr_period_key c = en_id_text env (dm_id x)" "dm_status x = STATUS_FINISHED"
    "dm_winner x = Some (pr_user c)"
    "\<exists>c' \<in> set cs. row_key c' = (pr_user c, pr_game c, pr_kind c, PAIR_DAY_REWARD_PERIOD_KIND, pair_key env x (pr_user c))"
    unfolding claim_ok_def pays_for_def by blast
  have "en_id_text env (dm_id x) = en_id_text env (dm_id r)" using x(2) assms(4) by (simp add: pays_for_def)
  then have "x = r" using assms(1) same_row [OF assms(2) x(1) assms(5)] by (simp add: inj_eq)
  with x show ?thesis by blast
qed

lemma pairs_once_leads:
  assumes inj: "inj (en_id_text env)" and ok: "rows_ok rows" and ok': "rows_ok rows'" and l: "leads rows rows'"
    and cs: "\<forall>c \<in> set cs. claim_ok env rows cs c" and once: "pairs_once env rows cs"
  shows "pairs_once env rows' cs"
  unfolding pairs_once_def
proof (intro ballI impI)
  fix a b c c' assume r: "a \<in> set rows'" "b \<in> set rows'" "c \<in> set cs" "c' \<in> set cs" "pays_for env (dm_id a) c" "pays_for env (dm_id b) c'"
    and eqs: "pr_user c = pr_user c'" "pr_game c = pr_game c'" "pr_kind c = pr_kind c'"
      "pair_key env a (pr_user c) = pair_key env b (pr_user c)"
  have older: "\<exists>x \<in> set rows. same_match x y" if "y \<in> set rows'" "d \<in> set cs" "pays_for env (dm_id y) d" for y d
  proof -
    from cs that(2,3) obtain x where x: "x \<in> set rows" "pr_period_key d = en_id_text env (dm_id x)" "dm_status x = STATUS_FINISHED"
      unfolding claim_ok_def pays_for_def by blast
    then have id: "dm_id x = dm_id y" using that(3) inj by (simp add: pays_for_def inj_eq)
    obtain x' where x': "x' \<in> set rows'" "keeps x x'" using l x(1) by (auto simp: leads_def)
    then have "x' = y" using same_row [OF ok' x'(1) that(1)] keeps_same [OF x'(2)] id by simp
    with finished_kept [OF x'(2) x(3)] x(1) show ?thesis by blast
  qed
  obtain x where x: "x \<in> set rows" "same_match x a" using older [OF r(1,3,5)] by blast
  obtain y where y: "y \<in> set rows" "same_match y b" using older [OF r(2,4,6)] by blast
  have "pays_for env (dm_id x) c" "pays_for env (dm_id y) c'" using x y r(5,6) by (simp_all add: same_match_def)
  moreover have "pair_key env x (pr_user c) = pair_key env y (pr_user c)"
    using eqs(4) same_match_keys [OF x(2)] same_match_keys [OF y(2)] by simp
  ultimately have "x = y" using once x(1) y(1) r(3,4) eqs(1-3) unfolding pairs_once_def by blast
  with x y have "dm_id a = dm_id b" by (simp add: same_match_def)
  with same_row [OF ok' r(1,2)] show "a = b" by blast
qed

text \<open>Steps that neither pay nor announce.\<close>

definition quiet :: "daily_event list \<Rightarrow> daily_event list \<Rightarrow> bool" where
  "quiet es es' \<longleftrightarrow> (\<forall>m. announced es' m = announced es m)"

lemma quiet_refl [simp]: "quiet es es"
  by (simp add: quiet_def)

lemma quiet_more [simp]:
  "quiet es (es @ [ChallengePosted a b c])" "quiet es (es @ [ChallengeClaimed x y z])" "quiet es (es @ [MovePlayed i j k])"
  "quiet es (es @ [ServiceError u e])"
  by (simp_all add: quiet_def announced_def)

lemma svc_inv_quiet:
  assumes "inj (en_id_text env)" and "svc_inv env L (w, J)" and "table_ok env L (wd_rows w')" and "leads (wd_rows w) (wd_rows w')"
    and "wd_pay w' = wd_pay w" and "quiet (wd_events w) (wd_events w')"
    and "\<forall>j \<in># J'. j \<in># J \<or> job_ok env L (wd_rows w') j"
    and "\<forall>m. pending J' m + of_bool (is_finished (wd_rows w) m) \<le> pending J m + of_bool (is_finished (wd_rows w') m)"
  shows "svc_inv env L (w', J')"
proof -
  have inv: "table_ok env L (wd_rows w)" "\<forall>j \<in># J. job_ok env L (wd_rows w) j"
    "\<forall>m. announced (wd_events w) m + pending J m \<le> of_bool (is_finished (wd_rows w) m)"
    "\<forall>m. payments env (pd_claims (wd_pay w)) m + pending J m \<le> of_bool (is_finished (wd_rows w) m)"
    "\<forall>c \<in> set (pd_claims (wd_pay w)). claim_ok env (wd_rows w) (pd_claims (wd_pay w)) c"
    "pairs_once env (wd_rows w) (pd_claims (wd_pay w))"
    using assms(2) by (simp_all add: svc_inv_def)
  have "\<forall>j \<in># J'. job_ok env L (wd_rows w') j" using assms(7) inv(2) job_ok_leads [OF _ assms(4)] by blast
  moreover have "announced (wd_events w') m + pending J' m \<le> of_bool (is_finished (wd_rows w') m)" for m
    using spec [OF inv(3), of m] spec [OF assms(8), of m] assms(6) by (simp add: quiet_def)
  moreover have "payments env (pd_claims (wd_pay w)) m + pending J' m \<le> of_bool (is_finished (wd_rows w') m)" for m
    using spec [OF inv(4), of m] spec [OF assms(8), of m] by simp
  moreover have "\<forall>c \<in> set (pd_claims (wd_pay w)). claim_ok env (wd_rows w') (pd_claims (wd_pay w)) c"
    using inv(5) claim_ok_leads [OF _ assms(4)] by blast
  moreover have "pairs_once env (wd_rows w') (pd_claims (wd_pay w))"
    by (rule pairs_once_leads [OF assms(1) _ _ assms(4) inv(5,6)]) (use inv(1) assms(3) in \<open>simp_all add: table_ok_def\<close>)
  ultimately show ?thesis using assms(3,5) by (simp add: svc_inv_def)
qed

lemma pending_simps [simp]:
  "pending (add_mset j J) m = (if finish_of m j then 1 else 0) + pending J m"
  "pending (A + B) m = pending A m + pending B m"
  by (simp_all add: pending_def)

lemma finish_of_simps [simp]:
  "finish_of m (JClaim c) = False" "finish_of m (JMove j) = False" "finish_of m (JResign r) = False"
  "finish_of m (JFinish f) = (dm_id (fj_row f) = m)"
  by (simp_all add: finish_of_def)

lemma pending_finish_jobs:
  assumes "distinct (map (\<lambda>f. dm_id (fj_row f)) fs)"
  shows "pending (finish_jobs fs) m = of_bool (\<exists>f \<in> set fs. dm_id (fj_row f) = m)"
  using assms
proof (induction fs)
  case (Cons f fs)
  then have "dm_id (fj_row f) \<notin> (\<lambda>f. dm_id (fj_row f)) ` set fs" by simp
  then have new: "\<forall>g \<in> set fs. dm_id (fj_row g) \<noteq> dm_id (fj_row f)" by (metis imageI)
  have "pending (finish_jobs (f # fs)) m = (if dm_id (fj_row f) = m then 1 else 0) + pending (finish_jobs fs) m"
    by (simp add: finish_jobs_def)
  with Cons new show ?case by auto
qed (simp add: finish_jobs_def pending_def)

lemma finish_jobs_in: "j \<in># finish_jobs fs \<longleftrightarrow> (\<exists>f \<in> set fs. j = JFinish f)"
  by (auto simp: finish_jobs_def)

lemma pending_mono: "J' \<subseteq># J \<Longrightarrow> pending J' m \<le> pending J m"
  by (simp add: pending_def multiset_filter_mono size_mset_mono)

text \<open>A step that finishes nothing.\<close>

lemma svc_inv_still:
  assumes "inj (en_id_text env)" and "svc_inv env L (w, J)" and "table_ok env L (wd_rows w') \<and> leads (wd_rows w) (wd_rows w')"
    and "wd_pay w' = wd_pay w" and "quiet (wd_events w) (wd_events w')" and "J' \<subseteq># J"
  shows "svc_inv env L (w', J')"
proof (rule svc_inv_quiet [OF assms(1,2) conjunct1 [OF assms(3)] conjunct2 [OF assms(3)] assms(4,5)])
  show "\<forall>j \<in># J'. j \<in># J \<or> job_ok env L (wd_rows w') j" using assms(6) by (auto dest: mset_subset_eqD)
  show "\<forall>m. pending J' m + of_bool (is_finished (wd_rows w) m) \<le> pending J m + of_bool (is_finished (wd_rows w') m)"
  proof
    fix m show "pending J' m + of_bool (is_finished (wd_rows w) m) \<le> pending J m + of_bool (is_finished (wd_rows w') m)"
      using pending_mono [OF assms(6), of m] is_finished_leads [OF conjunct2 [OF assms(3)], of m] by auto
  qed
qed

text \<open>A step that finishes matches and leaves the jobs of their payouts.\<close>

lemma svc_inv_finishing:
  assumes inj: "inj (en_id_text env)" and inv: "svc_inv env L (w, J)" and tab: "table_ok env L (wd_rows w')"
    and l: "leads (wd_rows w) (wd_rows w')" and pay: "wd_pay w' = wd_pay w" and q: "quiet (wd_events w) (wd_events w')"
    and fs: "\<forall>f \<in> set fs. finishes_with (wd_rows w) (wd_rows w') f" "distinct (map (\<lambda>f. dm_id (fj_row f)) fs)"
    and J': "J0 \<subseteq># J"
  shows "svc_inv env L (w', finish_jobs fs + J0)"
proof (rule svc_inv_quiet [OF inj inv tab l pay q])
  show "\<forall>j \<in># finish_jobs fs + J0. j \<in># J \<or> job_ok env L (wd_rows w') j"
    using fs(1) J' finishes_job by (fastforce simp: finish_jobs_in dest: mset_subset_eqD)
  have ok: "rows_ok (wd_rows w)" using inv by (simp add: svc_inv_def table_ok_def)
  have fresh: "\<not> is_finished (wd_rows w) (dm_id (fj_row f)) \<and> is_finished (wd_rows w') (dm_id (fj_row f))" if "f \<in> set fs" for f
  proof -
    have f: "finishes_with (wd_rows w) (wd_rows w') f" using fs(1) that by blast
    then obtain r where r: "r \<in> set (wd_rows w)" "dm_id r = dm_id (fj_row f)" "dm_status r \<noteq> STATUS_FINISHED"
      by (auto simp: finishes_with_def)
    have "\<not> is_finished (wd_rows w) (dm_id (fj_row f))"
    proof
      assume "is_finished (wd_rows w) (dm_id (fj_row f))"
      then obtain x where "x \<in> set (wd_rows w)" "dm_id x = dm_id (fj_row f)" "dm_status x = STATUS_FINISHED"
        by (auto simp: is_finished_def)
      with r same_row [OF ok, of x r] show False by simp
    qed
    moreover have "is_finished (wd_rows w') (dm_id (fj_row f))"
      using f by (auto simp: finishes_with_def is_finished_def same_match_def)
    ultimately show ?thesis ..
  qed
  show "\<forall>m. pending (finish_jobs fs + J0) m + of_bool (is_finished (wd_rows w) m) \<le> pending J m + of_bool (is_finished (wd_rows w') m)"
  proof
    fix m
    have p0: "pending J0 m \<le> pending J m" by (rule pending_mono [OF J'])
    show "pending (finish_jobs fs + J0) m + of_bool (is_finished (wd_rows w) m) \<le> pending J m + of_bool (is_finished (wd_rows w') m)"
    proof (cases "\<exists>f \<in> set fs. dm_id (fj_row f) = m")
      case True
      then have "\<not> is_finished (wd_rows w) m \<and> is_finished (wd_rows w') m" using fresh by blast
      with True p0 pending_finish_jobs [OF fs(2), of m] show ?thesis by simp
    next
      case False
      with p0 pending_finish_jobs [OF fs(2), of m] is_finished_leads [OF l, of m] show ?thesis by auto
    qed
  qed
qed

text \<open>The payout of a job: the job is used up, and with it goes at most one announcement and one payment.\<close>

lemma svc_inv_paying:
  assumes inj: "inj (en_id_text env)" and inv: "svc_inv env L (w, add_mset (JFinish f) J)"
    and tab: "table_ok env L (wd_rows w')" and l: "leads (wd_rows w) (wd_rows w')"
    and es: "\<forall>m. announced (wd_events w') m \<le> announced (wd_events w) m + of_bool (m = dm_id (fj_row f))"
    and pay: "wd_pay w' = wd_pay w \<or> (\<exists>u. fj_winner f = Some u \<and> paid_for env (fj_row f) u (wd_pay w) (wd_pay w'))"
  shows "svc_inv env L (w', J)"
proof -
  let ?m = "dm_id (fj_row f)" and ?cs = "pd_claims (wd_pay w)" and ?cs' = "pd_claims (wd_pay w')"
  have I: "table_ok env L (wd_rows w)" "job_ok env L (wd_rows w) (JFinish f)" "\<forall>j \<in># J. job_ok env L (wd_rows w) j"
    "\<forall>m. announced (wd_events w) m + (of_bool (m = ?m) + pending J m) \<le> of_bool (is_finished (wd_rows w) m)"
    "\<forall>m. payments env ?cs m + (of_bool (m = ?m) + pending J m) \<le> of_bool (is_finished (wd_rows w) m)"
    "\<forall>c \<in> set ?cs. claim_ok env (wd_rows w) ?cs c" "pairs_once env (wd_rows w) ?cs"
    using inv by (auto simp: svc_inv_def of_bool_def eq_commute)
  have fin: "of_bool (is_finished (wd_rows w) m) \<le> (of_bool (is_finished (wd_rows w') m) :: nat)" for m
    using is_finished_leads [OF l] by auto
  have jobs: "\<forall>j \<in># J. job_ok env L (wd_rows w') j" using I(3) job_ok_leads [OF _ l] by blast
  have ann: "announced (wd_events w') m + pending J m \<le> of_bool (is_finished (wd_rows w') m)" for m
    using spec [OF es, of m] spec [OF I(4), of m] fin [of m] by linarith
  have ok: "rows_ok (wd_rows w)" "rows_ok (wd_rows w')" using I(1) tab by (simp_all add: table_ok_def)
  show ?thesis
  proof (cases "wd_pay w' = wd_pay w")
    case True
    have "payments env ?cs m + pending J m \<le> of_bool (is_finished (wd_rows w') m)" for m
      using spec [OF I(5), of m] fin [of m] by linarith
    moreover have "\<forall>c \<in> set ?cs. claim_ok env (wd_rows w') ?cs c" using I(6) claim_ok_leads [OF _ l] by blast
    moreover have "pairs_once env (wd_rows w') ?cs" by (rule pairs_once_leads [OF inj ok l I(6,7)])
    ultimately show ?thesis using tab jobs ann True by (simp add: svc_inv_def)
  next
    case False
    with pay obtain u c1 c2 where u: "fj_winner f = Some u" and c: "?cs' = ?cs @ [c1, c2]" "daily_claim env c1"
      "row_key c1 = (u, pr_game c1, pr_kind c1, PER_EVENT_REWARD_PERIOD_KIND, en_id_text env ?m)"
      "row_key c2 = (u, pr_game c1, pr_kind c1, PAIR_DAY_REWARD_PERIOD_KIND, pair_key env (fj_row f) u)"
      "row_key c2 \<notin> row_key ` set ?cs"
      by (auto simp: paid_for_def)
    have c1: "pr_user c1 = u" "pr_period_kind c1 = PER_EVENT_REWARD_PERIOD_KIND" "pr_period_key c1 = en_id_text env ?m"
      and c2: "pr_period_kind c2 = PAIR_DAY_REWARD_PERIOD_KIND" using c(3,4) by (simp_all add: row_key_def)
    have kinds: "PAIR_DAY_REWARD_PERIOD_KIND \<noteq> PER_EVENT_REWARD_PERIOD_KIND"
      by (simp add: PAIR_DAY_REWARD_PERIOD_KIND_def PER_EVENT_REWARD_PERIOD_KIND_def)
    have pf: "pays_for env m c1 \<longleftrightarrow> m = ?m" "\<not> pays_for env m c2" for m
      using c(2) c1 c2 kinds inj by (auto simp: pays_for_def inj_eq)
    have "payments env ?cs' m + pending J m \<le> of_bool (is_finished (wd_rows w') m)" for m
    proof -
      have "payments env ?cs' m = payments env ?cs m + of_bool (m = ?m)" using pf by (simp add: payments_def c(1))
      with spec [OF I(5), of m] fin [of m] show ?thesis by linarith
    qed
    moreover have "\<forall>d \<in> set ?cs'. claim_ok env (wd_rows w') ?cs' d"
    proof
      fix d assume "d \<in> set ?cs'"
      then consider "d \<in> set ?cs" | "d = c1" | "d = c2" using c(1) by auto
      then show "claim_ok env (wd_rows w') ?cs' d"
      proof cases
        case 1
        then have "claim_ok env (wd_rows w') ?cs d" using I(6) claim_ok_leads [OF _ l] by blast
        then show ?thesis unfolding claim_ok_def c(1) by fastforce
      next
        case 2
        from job_ok_leads [OF I(2) l] obtain r where r: "r \<in> set (wd_rows w')" "same_match r (fj_row f)"
          "dm_status r = STATUS_FINISHED" "dm_winner r = Some u" by (auto simp: job_ok_def u)
        have "c2 \<in> set ?cs'" by (simp add: c(1))
        moreover have "row_key c2 = (pr_user c1, pr_game c1, pr_kind c1, PAIR_DAY_REWARD_PERIOD_KIND, pair_key env r (pr_user c1))"
          using c(4) c1(1) same_match_keys [OF r(2)] by simp
        moreover have "pr_period_key c1 = en_id_text env (dm_id r)" using c1(3) r(2) by (simp add: same_match_def)
        moreover have "dm_winner r = Some (pr_user c1)" using r(4) c1(1) by simp
        ultimately show ?thesis unfolding claim_ok_def 2 using r(1,3) by blast
      next
        case 3
        then show ?thesis using c2 kinds by (simp add: claim_ok_def)
      qed
    qed
    moreover have "pairs_once env (wd_rows w') ?cs'"
    proof -
      have old: "pairs_once env (wd_rows w') ?cs" by (rule pairs_once_leads [OF inj ok l I(6,7)])
      have new: False if H: "a \<in> set (wd_rows w')" "b \<in> set (wd_rows w')" "d \<in> set ?cs" "pays_for env (dm_id a) c1" "pays_for env (dm_id b) d"
        "u = pr_user d" "pr_game c1 = pr_game d" "pr_kind c1 = pr_kind d" "pair_key env a u = pair_key env b u" for a b d
      proof -
        have "claim_ok env (wd_rows w') ?cs d" using I(6) H(3) claim_ok_leads [OF _ l] by blast
        from claim_row [OF inj ok(2) this H(5,2)] obtain d' where d': "d' \<in> set ?cs"
          "row_key d' = (u, pr_game c1, pr_kind c1, PAIR_DAY_REWARD_PERIOD_KIND, pair_key env b u)" using H(6-8) by auto
        from job_ok_leads [OF I(2) l] obtain r where r: "r \<in> set (wd_rows w')" "same_match r (fj_row f)" by (auto simp: job_ok_def)
        have "dm_id a = dm_id r" using pf(1) H(4) r(2) by (auto simp: same_match_def)
        then have "a = r" using same_row [OF ok(2) H(1) r(1)] by blast
        then have "row_key d' = row_key c2" using d'(2) c(4) H(9) same_match_keys [OF r(2), of env u] by simp
        with d'(1) c(5) show False by (metis imageI)
      qed
      show ?thesis
        unfolding pairs_once_def
      proof (intro ballI impI)
        fix a b d e assume r: "a \<in> set (wd_rows w')" "b \<in> set (wd_rows w')" "d \<in> set ?cs'" "e \<in> set ?cs'"
          "pays_for env (dm_id a) d" "pays_for env (dm_id b) e"
          and eqs: "pr_user d = pr_user e" "pr_game d = pr_game e" "pr_kind d = pr_kind e" "pair_key env a (pr_user d) = pair_key env b (pr_user d)"
        have "d \<in> set ?cs \<or> d = c1" "e \<in> set ?cs \<or> e = c1" using r(3-6) pf(2) by (auto simp: c(1))
        then consider "d \<in> set ?cs" "e \<in> set ?cs" | "d = c1" "e = c1" | "d = c1" "e \<in> set ?cs" | "d \<in> set ?cs" "e = c1" by blast
        then show "a = b"
        proof cases
          case 1
          with old r eqs show ?thesis unfolding pairs_once_def by blast
        next
          case 2
          then have "dm_id a = dm_id b" using r(5,6) pf(1) by simp
          then show ?thesis using same_row [OF ok(2) r(1,2)] by blast
        next
          case 3
          with new [OF r(1,2) _ _ r(6)] r(5) eqs c1(1) show ?thesis by auto
        next
          case 4
          with new [OF r(2,1) _ _ r(5)] r(6) eqs c1(1) show ?thesis by auto
        qed
      qed
    qed
    ultimately show ?thesis using tab jobs ann by (simp add: svc_inv_def)
  qed
qed

lemma finish_events_effect:
  assumes "table_ok env L (wd_rows w)" and "finish_events env tk w f = Ok w'"
  shows "table_ok env L (wd_rows w') \<and> leads (wd_rows w) (wd_rows w') \<and>
    (\<forall>m. announced (wd_events w') m \<le> announced (wd_events w) m + of_bool (m = dm_id (fj_row f))) \<and>
    (wd_pay w' = wd_pay w \<or> (\<exists>u. fj_winner f = Some u \<and> paid_for env (fj_row f) u (wd_pay w) (wd_pay w')))"
proof -
  have ann: "announced (es @ [MatchFinished x g a b out res]) m = announced es m + of_bool (m = x)" for es x g a b out res m
    by (simp add: announced_def)
  show ?thesis
  proof (cases "fj_winner f")
    case None
    with assms(2) obtain g a b out res where "wd_pay w' = wd_pay w" "wd_rows w' = wd_rows w"
      "wd_events w' = wd_events w @ [MatchFinished (dm_id (fj_row f)) g a b out res]"
      by (auto simp: finish_events_def Let_def say_def split: option.splits)
    with assms(1) ann show ?thesis by simp
  next
    case (Some u)
    with assms(2) obtain p payout where p: "pay_winner env tk (wd_pay w) (fj_row f) (fj_game f) u (fj_moves f) = Ok (p, payout)"
      and w': "wd_pay w' = p" "wd_rows w' = record_win_payout (tk_db tk) (wd_rows w) (dm_id (fj_row f)) payout"
        "\<exists>g a b out res. wd_events w' = wd_events w @ [MatchFinished (dm_id (fj_row f)) g a b out res]"
      by (auto simp: finish_events_def Let_def say_def res_simps split: option.splits)
    have "p = wd_pay w \<or> paid_for env (fj_row f) u (wd_pay w) p"
      using pay_winner_effect [OF p] by (auto split: if_splits)
    with payout_table [OF assms(1)] w' ann Some show ?thesis by auto
  qed
qed

text \<open>A step keeps the invariant and only moves rows on.\<close>

definition advances ::
  "'j svc_env \<Rightarrow> (daily_game \<Rightarrow> uuid \<Rightarrow> uuid \<Rightarrow> uuid \<Rightarrow> 'j \<Rightarrow> bool) \<Rightarrow> 'j world \<times> 'j job multiset \<Rightarrow> 'j world \<times> 'j job multiset \<Rightarrow> bool" where
  "advances env L s s' \<longleftrightarrow> svc_inv env L s' \<and> leads (wd_rows (fst s)) (wd_rows (fst s'))"

lemma advances_still:
  assumes "inj (en_id_text env)" and "svc_inv env L (w, J)" and "table_ok env L (wd_rows w') \<and> leads (wd_rows w) (wd_rows w')"
    and "wd_pay w' = wd_pay w" and "quiet (wd_events w) (wd_events w')" and "J' \<subseteq># J"
  shows "advances env L (w, J) (w', J')"
  using svc_inv_still [OF assms] assms(3) by (simp add: advances_def)

lemma advances_finishing:
  assumes "inj (en_id_text env)" and "svc_inv env L (w, J)" and "table_ok env L (wd_rows w')"
    and "leads (wd_rows w) (wd_rows w')" and "wd_pay w' = wd_pay w" and "quiet (wd_events w) (wd_events w')"
    and "\<forall>f \<in> set fs. finishes_with (wd_rows w) (wd_rows w') f" and "distinct (map (\<lambda>f. dm_id (fj_row f)) fs)"
    and "J0 \<subseteq># J"
  shows "advances env L (w, J) (w', finish_jobs fs + J0)"
  using svc_inv_finishing [OF assms] assms(4) by (simp add: advances_def)

lemma advances_paying:
  assumes "inj (en_id_text env)" and "svc_inv env L (w, add_mset (JFinish f) J)"
    and "table_ok env L (wd_rows w')" and "leads (wd_rows w) (wd_rows w')"
    and "\<forall>m. announced (wd_events w') m \<le> announced (wd_events w) m + of_bool (m = dm_id (fj_row f))"
    and "wd_pay w' = wd_pay w \<or> (\<exists>u. fj_winner f = Some u \<and> paid_for env (fj_row f) u (wd_pay w) (wd_pay w'))"
  shows "advances env L (w, add_mset (JFinish f) J) (w', J)"
  using svc_inv_paying [OF assms] assms(4) by (simp add: advances_def)

lemma svc_step_advances:
  assumes "env_ok env L" and "inj (en_id_text env)" and "svc_step env s s'" and "svc_inv env L s"
  shows "advances env L s s'"
  using assms(3,4)
proof (induction rule: svc_step.induct)
  case (step_post now i w u g w' r J)
  then obtain rows where c: "create_challenge now i (en_default_doc env) (wd_rows w) (game_kind g) u = Ok (rows, r)"
    and w': "w' = say (w\<lparr>wd_rows := rows\<rparr>) (ChallengePosted (dm_id r) g (dm_challenger r))"
    by (auto simp: post_challenge_def stored_def res_simps split: res.splits)
  have t: "table_ok env L (wd_rows w)" using step_post(2) by (simp add: svc_inv_def)
  show ?case
    by (rule advances_still [OF assms(2) step_post(2)]) (use post_table [OF t c] w' in \<open>auto simp: say_def\<close>)
next
  case (step_claim_begin od w u m c J)
  then show ?case using begin_claim_job [OF assms(1) step_claim_begin(1)] by (auto simp: advances_def svc_inv_def)
next
  case (step_claim_commit tk room w c w' r J)
  then have t: "table_ok env L (wd_rows w)" "job_ok env L (wd_rows w) (JClaim c)" by (auto simp: svc_inv_def)
  note e = claim_effect [OF t step_claim_commit(1)]
  show ?case
    by (rule advances_still [OF assms(2) step_claim_commit(2)]) (use e in auto)
next
  case (step_cancel now w u m w' J)
  then obtain n where c: "cancel_challenge now (wd_rows w) m u = (wd_rows w', n)" and w': "w' = w\<lparr>wd_rows := wd_rows w'\<rparr>"
    by (auto simp: cancel_open_challenge_def res_simps split: prod.splits)
  have t: "table_ok env L (wd_rows w)" using step_cancel(2) by (simp add: svc_inv_def)
  have k: "wd_pay w' = wd_pay w" "wd_events w' = wd_events w" by (subst w', simp)+
  show ?case
    by (rule advances_still [OF assms(2) step_cancel(2)]) (use cancel_table [OF t c] k in auto)
next
  case (step_seen w J now u m)
  then have t: "table_ok env L (wd_rows w)" by (simp add: svc_inv_def)
  show ?case
    by (rule advances_still [OF assms(2) step_seen]) (use seen_table [OF t, of now m u] in \<open>auto simp: see_result_def\<close>)
next
  case (step_move_begin tk draws w u m req j J)
  then have t: "table_ok env L (wd_rows w)" by (simp add: svc_inv_def)
  show ?case using begin_move_job [OF assms(1) t step_move_begin(1)] step_move_begin(2) by (auto simp: advances_def svc_inv_def)
next
  case (step_move_commit tk w j w' fin J)
  then have t: "table_ok env L (wd_rows w)" "job_ok env L (wd_rows w) (JMove j)" by (auto simp: svc_inv_def)
  note e = commit_move_effect [OF t step_move_commit(1)]
  show ?case
    by (rule advances_finishing [OF assms(2) step_move_commit(2)]) (use e in \<open>auto split: option.splits\<close>)
next
  case (step_resign_begin w u m j J)
  then have t: "table_ok env L (wd_rows w)" by (simp add: svc_inv_def)
  show ?case using begin_resign_job [OF t step_resign_begin(1)] step_resign_begin(2) by (auto simp: advances_def svc_inv_def)
next
  case (step_resign_commit tk w j w' f J)
  then have t: "table_ok env L (wd_rows w)" "job_ok env L (wd_rows w) (JResign j)" by (auto simp: svc_inv_def)
  note e = commit_resign_effect [OF t step_resign_commit(1)]
  show ?case
    by (rule advances_finishing [OF assms(2) step_resign_commit(2)]) (use e in auto)
next
  case (step_sweep now w w' fs J)
  then have t: "table_ok env L (wd_rows w)" by (simp add: svc_inv_def)
  note e = sweep_effect [OF t step_sweep(1)]
  show ?case
    by (rule advances_finishing [OF assms(2) step_sweep(2)]) (use e in auto)
next
  case (step_finish tk w f w' J)
  then have t: "table_ok env L (wd_rows w)" by (simp add: svc_inv_def)
  note e = finish_events_effect [OF t step_finish(1)]
  show ?case by (rule advances_paying [OF assms(2) step_finish(2)]) (use e in auto)
next
  case (step_cut f u tk w p payout J)
  then have t: "table_ok env L (wd_rows w)" by (simp add: svc_inv_def)
  have "p = wd_pay w \<or> paid_for env (fj_row f) u (wd_pay w) p"
    using pay_winner_effect [OF step_cut(2)] by (auto split: if_splits)
  then show ?case by - (rule advances_paying [OF assms(2) step_cut(3)], use t step_cut(1) in auto)
next
  case (step_lost w j J)
  then have t: "table_ok env L (wd_rows w)" by (simp add: svc_inv_def)
  show ?case by (rule advances_still [OF assms(2) step_lost]) (use t in auto)
next
  case (step_error w J u e)
  then have t: "table_ok env L (wd_rows w)" by (simp add: svc_inv_def)
  show ?case by (rule advances_still [OF assms(2) step_error]) (use t in \<open>auto simp: say_def\<close>)
next
  case (step_elsewhere p w rs J)
  have other: "\<not> pays_for env m c" if "c \<in> set rs" for m c using step_elsewhere(2) that by (simp add: pays_for_def)
  then have "payments env (pd_claims p) m = payments env (pd_claims (wd_pay w)) m" for m
    using step_elsewhere(1) by (auto simp: payments_def filter_empty_conv)
  moreover have "\<forall>c \<in> set (pd_claims p). claim_ok env (wd_rows w) (pd_claims p) c"
    using step_elsewhere unfolding svc_inv_def claim_ok_def by fastforce
  moreover have "pairs_once env (wd_rows w) (pd_claims p)"
    using step_elsewhere other unfolding svc_inv_def pairs_once_def by (auto simp: step_elsewhere(1))
  ultimately show ?case using step_elsewhere(3) by (simp add: advances_def svc_inv_def)
qed

lemma svc_run_advances:
  assumes "env_ok env L" and "inj (en_id_text env)"
  shows "(svc_step env)\<^sup>*\<^sup>* s s' \<Longrightarrow> svc_inv env L s \<Longrightarrow> advances env L s s'"
proof (induction rule: rtranclp_induct)
  case (step t u)
  then have t: "svc_inv env L t" "leads (wd_rows (fst s)) (wd_rows (fst t))" by (simp_all add: advances_def)
  from svc_step_advances [OF assms step.hyps(2) t(1)] t(2) show ?case by (auto simp: advances_def intro: leads_trans)
qed (simp add: advances_def)

definition fresh_world :: "pay_db \<Rightarrow> 'j world" where
  "fresh_world p = \<lparr>wd_rows = [], wd_pay = p, wd_events = [], wd_lounge = [], wd_metrics = []\<rparr>"

lemma fresh_inv: "pd_claims p = [] \<Longrightarrow> svc_inv env L (fresh_world p, {#})"
  by (simp add: svc_inv_def fresh_world_def table_ok_def rows_ok_def announced_def payments_def pending_def pairs_once_def)

lemma reachable_inv:
  assumes "env_ok env L" and "inj (en_id_text env)" and "pd_claims p = []"
    and "(svc_step env)\<^sup>*\<^sup>* (fresh_world p, {#}) (w, J)"
  shows "svc_inv env L (w, J)"
  using svc_run_advances [OF assms(1,2,4) fresh_inv [OF assms(3)]] by (simp add: advances_def)

section \<open>The life of a match, abstractly\<close>

datatype abs_match =
  AOpen uuid | ARunning uuid uuid uuid | AOver uuid uuid "uuid option" | ACancelled

inductive abs_next :: "abs_match \<Rightarrow> abs_match \<Rightarrow> bool" where
  abs_cancel: "abs_next (AOpen a) ACancelled"
| abs_claim: "a \<noteq> b \<Longrightarrow> t = a \<or> t = b \<Longrightarrow> abs_next (AOpen a) (ARunning a b t)"
| abs_move: "t' = a \<or> t' = b \<Longrightarrow> abs_next (ARunning a b t) (ARunning a b t')"
| abs_end: "w = None \<or> w = Some a \<or> w = Some b \<Longrightarrow> abs_next (ARunning a b t) (AOver a b w)"

definition abs_row :: "'j match_row \<Rightarrow> abs_match" where
  "abs_row r =
     (case (dm_opponent r, dm_turn r) of
        (Some b, Some t) \<Rightarrow> ARunning (dm_challenger r) b t
      | (Some b, None) \<Rightarrow> AOver (dm_challenger r) b (dm_winner r)
      | (None, _) \<Rightarrow> (if dm_status r = STATUS_OPEN then AOpen (dm_challenger r) else ACancelled))"

definition abs_of :: "'j match_row list \<Rightarrow> uuid \<Rightarrow> abs_match option" where
  "abs_of rows m = map_option abs_row (get_match rows m)"

lemma keeps_abs:
  assumes "keeps r r'" and "row_ok r" and "row_ok r'"
  shows "abs_next\<^sup>*\<^sup>* (abs_row r) (abs_row r')"
proof -
  have two: "abs_next\<^sup>*\<^sup>* (AOpen a) (AOver a b w)" if "a \<noteq> b" "w = None \<or> w = Some a \<or> w = Some b" for a b w
    using abs_claim [OF that(1), of a] abs_end [OF that(2), of a] by (meson r_into_rtranclp rtranclp_trans)
  from assms(2) consider "dm_status r = STATUS_OPEN" "dm_opponent r = None" | "dm_status r = STATUS_CANCELLED" "dm_opponent r = None"
    | b t where "dm_status r = STATUS_ACTIVE" "dm_opponent r = Some b" "dm_turn r = Some t"
    | b where "dm_status r = STATUS_FINISHED" "dm_opponent r = Some b" "dm_turn r = None"
    by (auto simp: row_ok_def players_ok_def)
  then show ?thesis
  proof cases
    case 1
    from assms(3) show ?thesis unfolding row_ok_def
    proof (elim disjE conjE exE)
      fix t assume a: "dm_status r' = STATUS_ACTIVE" "players_ok r'" "dm_turn r' = Some t" "plays r' t"
      then obtain b where b: "dm_opponent r' = Some b" "b \<noteq> dm_challenger r'" by (auto simp: players_ok_def)
      have "abs_next (AOpen (dm_challenger r)) (ARunning (dm_challenger r) b t)"
        using a b keeps_same [OF assms(1)] by (intro abs_claim) (auto simp: plays_def)
      then show ?thesis using 1 a b keeps_same [OF assms(1)] by (auto simp: abs_row_def)
    next
      fix res assume a: "dm_status r' = STATUS_FINISHED" "players_ok r'" "dm_turn r' = None" "\<forall>w. dm_winner r' = Some w \<longrightarrow> plays r' w"
      then obtain b where b: "dm_opponent r' = Some b" "b \<noteq> dm_challenger r'" by (auto simp: players_ok_def)
      have "dm_winner r' = None \<or> dm_winner r' = Some (dm_challenger r) \<or> dm_winner r' = Some b"
        using a(4) b keeps_same [OF assms(1)] by (cases "dm_winner r'") (auto simp: plays_def)
      from two [OF _ this] show ?thesis using 1 a b keeps_same [OF assms(1)] by (auto simp: abs_row_def)
    qed (use 1 keeps_same [OF assms(1)] abs_cancel in \<open>auto simp: abs_row_def\<close>)
  next
    case 2
    then have "dm_status r' = STATUS_CANCELLED" using assms(1) by (simp add: keeps_def later_def)
    with assms(3) 2 show ?thesis by (auto simp: abs_row_def row_ok_def)
  next
    case (3 b t)
    then have o: "dm_opponent r' = Some b" using keeps_active [OF assms(1)] by simp
    show ?thesis
    proof (cases "dm_turn r'")
      case None
      then have "dm_status r' = STATUS_FINISHED" using assms(3) o by (auto simp: row_ok_def)
      then have "dm_winner r' = None \<or> dm_winner r' = Some (dm_challenger r) \<or> dm_winner r' = Some b"
        using assms(3) o keeps_same [OF assms(1)] by (cases "dm_winner r'") (auto simp: row_ok_def plays_def)
      from abs_end [OF this, of t] show ?thesis using 3 o None keeps_same [OF assms(1)] by (auto simp: abs_row_def)
    next
      case (Some t')
      then have "t' = dm_challenger r \<or> t' = b" using assms(3) o keeps_same [OF assms(1)] by (auto simp: row_ok_def plays_def)
      from abs_move [OF this, of t] show ?thesis using 3 o Some keeps_same [OF assms(1)] by (auto simp: abs_row_def)
    qed
  next
    case (4 b)
    note k = keeps_finished [OF assms(1) 4(1)] keeps_same [OF assms(1)]
    then have "dm_turn r' = None" using assms(3) 4 by (auto simp: row_ok_def)
    with k 4 show ?thesis by (simp add: abs_row_def)
  qed
qed


section \<open>Calls that nothing interrupts\<close>

lemma pay_winner_total:
  assumes "players_ok row"
  shows "\<exists>p' payout. pay_winner env tk p row g w n = Ok (p', payout)"
proof -
  obtain loser where loser: "(if w = dm_challenger row then dm_opponent row else Some (dm_challenger row)) = Some loser"
    using assms by (cases "w = dm_challenger row") (auto simp: players_ok_def)
  have "credit_per_event_pair_day_reward_template us stamp ids gate r tt q u key ev pair mv \<noteq> Panic"
    for us stamp ids gate r tt q u key ev pair mv
    using grant_multi_not_Panic
    by (auto simp: credit_per_event_pair_day_reward_template_def template_for_def graded_def get_active_by_key_def
        ensure_claim_policy_def template_game_def template_payout_kind_def required_param_str_def res_simps
        split: option.splits if_splits)
  then show ?thesis
    by (auto simp: pay_winner_def loser expect_def Let_def split: res.split)
qed

lemma finish_events_total:
  assumes "players_ok (fj_row f)"
  shows "\<exists>w'. finish_events env tk w f = Ok w' \<and> (\<forall>m. announced (wd_events w') m = announced (wd_events w) m + of_bool (m = dm_id (fj_row f))) \<and>
    (wd_rows w' = wd_rows w \<or> (\<exists>payout. wd_rows w' = record_win_payout (tk_db tk) (wd_rows w) (dm_id (fj_row f)) payout))"
proof (cases "fj_winner f")
  case None
  then show ?thesis by (auto simp: finish_events_def Let_def say_def announced_def split: option.split)
next
  case (Some u)
  obtain p payout where "pay_winner env tk (wd_pay w) (fj_row f) (fj_game f) u (fj_moves f) = Ok (p, payout)"
    using pay_winner_total [OF assms] by blast
  then show ?thesis using Some by (auto simp: finish_events_def Let_def say_def announced_def split: option.split)
qed

lemma finish_events_runs:
  assumes "players_ok (fj_row f)" and "wd_rows w = rows" and "dm_id (fj_row f) = m"
  obtains w' where "finish_events env tk w f = Ok w'" and "announced (wd_events w') m = announced (wd_events w) m + 1"
    and "wd_rows w' = rows \<or> (\<exists>payout. wd_rows w' = record_win_payout (tk_db tk) rows m payout)"
proof -
  obtain x where x: "finish_events env tk w f = Ok x"
    "\<forall>m. announced (wd_events x) m = announced (wd_events w) m + of_bool (m = dm_id (fj_row f))"
    "wd_rows x = wd_rows w \<or> (\<exists>payout. wd_rows x = record_win_payout (tk_db tk) (wd_rows w) (dm_id (fj_row f)) payout)"
    using finish_events_total [OF assms(1)] by blast
  show thesis by (rule that [OF x(1)]) (use x(2,3) assms(2,3) in \<open>simp_all only: refl simp_thms of_bool_eq\<close>)
qed

text \<open>One row of a table in order, written under a guard that holds of it.\<close>

lemma sql_one:
  assumes "rows_ok rows" and "r \<in> set rows" and "p r" and "\<And>x. p x \<Longrightarrow> dm_id x = dm_id r"
  shows "sql_count p rows = 1 \<and> sql_update p f rows = map (\<lambda>x. if x = r then f r else x) rows"
proof -
  have one: "p x \<longleftrightarrow> x = r" if "x \<in> set rows" for x
    using assms same_row [OF assms(1) that assms(2)] by blast
  have "distinct rows" using assms(1) by (simp add: rows_ok_def distinct_map)
  then have "length (filter (\<lambda>x. x = r) rows) = 1"
    using assms(2) by (simp add: distinct_length_filter Int_absorb2 Collect_conv_if)
  moreover have "filter p rows = filter (\<lambda>x. x = r) rows" using one by (auto intro: filter_cong)
  moreover have "sql_update p f rows = map (\<lambda>x. if x = r then f r else x) rows"
    unfolding sql_update_def using one by (auto intro: map_cong)
  ultimately show ?thesis by (simp add: sql_count_def)
qed

lemma finish_lands:
  assumes "rows_ok rows" and "r \<in> set rows" and "dm_status r = STATUS_ACTIVE" and "stored_revision rt (dm_state r) = Some e"
  shows "finish rt now rows (dm_id r) w result doc e = Ok (map (\<lambda>x. if x = r then
     r\<lparr>dm_status := STATUS_FINISHED, dm_winner := w, dm_result := result_str result,
       dm_state := doc, dm_turn := None, dm_deadline := None, dm_updated := now\<rparr> else x) rows, 1)"
proof -
  have "\<forall>x \<in> set rows. dm_id x = dm_id r \<and> dm_status x = STATUS_ACTIVE \<longrightarrow> stored_revision rt (dm_state x) \<noteq> None"
    using assms same_row [OF assms(1) _ assms(2)] by auto
  with sql_one [OF assms(1,2), of "\<lambda>x. (dm_id x = dm_id r \<and> dm_status x = STATUS_ACTIVE) \<and> stored_revision rt (dm_state x) = Some e"]
  show ?thesis using assms(3,4) by (simp add: finish_def guarded_write_def ensure_def Let_def)
qed

lemma update_lands:
  assumes "rows_ok rows" and "r \<in> set rows" and "dm_status r = STATUS_ACTIVE" and "dm_turn r = Some u"
    and "stored_revision rt (dm_state r) = Some e"
  shows "update_state rt now rows (dm_id r) doc u v dl e = Ok (map (\<lambda>x. if x = r then
     r\<lparr>dm_state := doc, dm_turn := Some v, dm_deadline := Some dl, dm_updated := now\<rparr> else x) rows, 1)"
proof -
  have "\<forall>x \<in> set rows. dm_id x = dm_id r \<and> dm_status x = STATUS_ACTIVE \<and> dm_turn x = Some u \<longrightarrow> stored_revision rt (dm_state x) \<noteq> None"
    using assms same_row [OF assms(1) _ assms(2)] by auto
  with sql_one [OF assms(1,2), of "\<lambda>x. (dm_id x = dm_id r \<and> dm_status x = STATUS_ACTIVE \<and> dm_turn x = Some u) \<and>
      stored_revision rt (dm_state x) = Some e"]
  show ?thesis using assms(3-5) by (simp add: update_state_def guarded_write_def ensure_def Let_def)
qed

lemma finished_row_stays:
  assumes "rows_ok rows" and "r \<in> set rows" and "dm_status r = STATUS_FINISHED"
    and "rows' = rows \<or> (\<exists>payout. rows' = record_win_payout now rows m payout)"
  shows "\<exists>r' \<in> set rows'. dm_id r' = dm_id r \<and> dm_status r' = STATUS_FINISHED \<and> dm_winner r' = dm_winner r \<and>
    dm_result r' = dm_result r \<and> dm_state r' = dm_state r"
  using assms(4)
proof
  assume "rows' = rows" with assms(2,3) show ?thesis by blast
next
  assume "\<exists>payout. rows' = record_win_payout now rows m payout"
  then obtain payout where rows': "rows' = record_win_payout now rows m payout" ..
  let ?f = "\<lambda>r. if dm_id r = m \<and> dm_status r = STATUS_FINISHED
     then r\<lparr>dm_win_payout := Some (win_db_str payout), dm_updated := now\<rparr> else r"
  have "?f r \<in> set rows'" using assms(2) by (simp add: rows' record_win_payout_eq sql_update_def)
  then show ?thesis using assms(3) by (intro bexI [of _ "?f r"]) auto
qed

section \<open>A small service\<close>

text \<open>Documents of the games of this development, and a toy game whose first move wins in place of the others.\<close>

datatype demo_doc =
  DocC4 c4_state | DocRv rv_state | DocCk ck_state | DocBg bg_state | DocBr br_state | DocBs bs_state | DocCb cb_state | DocGin gin_state
| DocToy nat uuid uuid

definition toy_move :: "daily_game \<Rightarrow> demo_doc \<Rightarrow> uuid \<Rightarrow> nat \<times> nat \<Rightarrow> (svc_error, demo_doc decided) res" where
  "toy_move g doc u m =
     (case doc of
        DocToy n a b \<Rightarrow> ensure (u = a \<or> u = b) SvcNotPlaying
          (Ok \<lparr>de_doc = DocToy (n + 9) a b, de_base = int n, de_revision = n + 9, de_finished = Some (Some u, Checkmate),
               de_next = u, de_label = ''e4'', de_deadline = None\<rparr>)
      | _ \<Rightarrow> Err SvcRules)"

definition toy_legal :: "daily_game \<Rightarrow> uuid \<Rightarrow> uuid \<Rightarrow> uuid \<Rightarrow> demo_doc \<Rightarrow> bool" where
  "toy_legal g a b t doc \<longleftrightarrow> (t = a \<or> t = b) \<and> (\<exists>n. doc = DocToy n a b)"

definition chess_template :: reward_template where
  "chess_template = \<lparr>rt_id = 5, rt_key = ''daily_chess_win_payout'', rt_kind = ''game'',
     rt_params = [''game'' \<mapsto> ''daily_chess'', ''payout_kind'' \<mapsto> ''win''], rt_chips = 500,
     rt_claim_policy = POLICY_PER_EVENT, rt_cooldown = None\<rparr>"

definition demo_env :: "demo_doc svc_env" where
  "demo_env = \<lparr>
     en_revision_text = (\<lambda>d. case d of DocToy n a b \<Rightarrow> Some (dec_string n) | _ \<Rightarrow> None),
     en_revision_i64 = (\<lambda>d. case d of DocToy n a b \<Rightarrow> Some (int n) | _ \<Rightarrow> None),
     en_revision_u64 = (\<lambda>d. case d of DocToy n a b \<Rightarrow> Some n | _ \<Rightarrow> None),
     en_set_revision = (\<lambda>d n. case d of DocToy m a b \<Rightarrow> DocToy (nat n) a b | _ \<Rightarrow> d),
     en_default_doc = DocToy 0 0 0,
     en_id_text = (\<lambda>u. replicate (unat u) CHR ''x''),
     en_day_text = (\<lambda>t. ''day''),
     en_stamp = (\<lambda>t. ''t''),
     en_username = (\<lambda>u. Some ''someone''),
     en_templates = [''daily_chess_win_payout'' \<mapsto> (chess_template, True)],
     en_c4 = \<lparr>decode = (\<lambda>d. case d of DocC4 s \<Rightarrow> Some s | _ \<Rightarrow> None), encode = DocC4\<rparr>,
     en_rv = \<lparr>decode = (\<lambda>d. case d of DocRv s \<Rightarrow> Some s | _ \<Rightarrow> None), encode = DocRv\<rparr>,
     en_ck = \<lparr>decode = (\<lambda>d. case d of DocCk s \<Rightarrow> Some s | _ \<Rightarrow> None), encode = DocCk\<rparr>,
     en_bg = \<lparr>decode = (\<lambda>d. case d of DocBg s \<Rightarrow> Some s | _ \<Rightarrow> None), encode = DocBg\<rparr>,
     en_br = \<lparr>decode = (\<lambda>d. case d of DocBr s \<Rightarrow> Some s | _ \<Rightarrow> None), encode = DocBr\<rparr>,
     en_bs = \<lparr>decode = (\<lambda>d. case d of DocBs s \<Rightarrow> Some s | _ \<Rightarrow> None), encode = DocBs\<rparr>,
     en_cb = \<lparr>decode = (\<lambda>d. case d of DocCb s \<Rightarrow> Some s | _ \<Rightarrow> None), encode = DocCb\<rparr>,
     en_gin = \<lparr>decode = (\<lambda>d. case d of DocGin s \<Rightarrow> Some s | _ \<Rightarrow> None), encode = DocGin\<rparr>,
     en_chess = toy_move,
     en_deal = (\<lambda>g a b. (DocToy 0 a b, a))\<rparr>"

lemma demo_env_ok: "env_ok demo_env toy_legal"
proof -
  have "daily_rules (toy_move g) (toy_legal g)" for g
    by unfold_locales (auto simp: toy_move_def toy_legal_def ensure_def split: if_splits)
  moreover have "toy_move g doc u m = Ok d \<Longrightarrow> de_deadline d = None" for g doc u m d
    by (auto simp: toy_move_def res_simps split: demo_doc.splits)
  ultimately show ?thesis by (simp add: env_ok_def demo_env_def codec_ok_def toy_legal_def)
qed

lemma demo_env_inj: "inj (en_id_text demo_env)"
proof (rule injI)
  fix x y assume "en_id_text demo_env x = en_id_text demo_env y"
  then have "length (replicate (unat x) CHR ''x'') = length (replicate (unat y) CHR ''x'')" by (simp add: demo_env_def)
  then show "x = y" by (simp add: word_unat_eq_iff)
qed

definition demo_tick :: tick where
  "demo_tick = \<lparr>tk_db = 0, tk_app = 0, tk_gate = 0, tk_row = 0, tk_ids = (\<lambda>i. if i = 0 then 10 else 11)\<rparr>"

definition demo_draws :: opening_draws where
  "demo_draws = \<lparr>od_coin = True, od_fleets = [], od_dice = [], od_shuffle = (\<lambda>i. i)\<rparr>"

definition demo_move_draws :: move_draws where
  "demo_move_draws = \<lparr>md_dice = [], md_shuffle = (\<lambda>i. i)\<rparr>"

definition demo_pay :: pay_db where "demo_pay = fresh_pay {1, 2} 0"

definition demo_open :: "demo_doc match_row" where
  "demo_open = \<lparr>dm_id = 7, dm_created = 0, dm_updated = 0, dm_game_kind = ''chess'', dm_status = STATUS_OPEN,
     dm_challenger = 1, dm_opponent = None, dm_turn = None, dm_deadline = None, dm_winner = None,
     dm_result = [], dm_state = DocToy 0 0 0, dm_challenger_seen = None, dm_opponent_seen = None, dm_chat_room = None,
     dm_win_payout = None, dm_started = None\<rparr>"

definition demo_running :: "demo_doc match_row" where
  "demo_running = demo_open\<lparr>dm_status := STATUS_ACTIVE, dm_opponent := Some 2, dm_turn := Some 1, dm_deadline := Some (hours 24),
     dm_state := DocToy 0 1 2, dm_started := Some 0, dm_chat_room := Some 9\<rparr>"

definition demo_world :: "demo_doc world" where
  "demo_world = (fresh_world demo_pay)\<lparr>wd_rows := [demo_running], wd_events := [ChallengePosted 7 Chess 1, ChallengeClaimed 7 1 2]\<rparr>"

definition demo_move :: "demo_doc move_job" where
  "demo_move = \<lparr>mj_row = demo_running, mj_game = Chess, mj_user = 1, mj_decided =
     \<lparr>de_doc = DocToy 9 1 2, de_base = 0, de_revision = 9, de_finished = Some (Some 1, Checkmate), de_next = 1, de_label = ''e4'', de_deadline = None\<rparr>\<rparr>"

lemma demo_chess: "from_kind ''chess'' = Some Chess"
  by code_simp

lemma demo_posted: "post_challenge demo_env 0 7 (fresh_world demo_pay) 1 Chess =
    Ok ((fresh_world demo_pay)\<lparr>wd_rows := [demo_open], wd_events := [ChallengePosted 7 Chess 1]\<rparr>, demo_open)"
  by (simp add: post_challenge_def create_challenge_def stored_def ensure_def Let_def say_def fresh_world_def demo_open_def demo_env_def)

lemma demo_claim_begun:
  "begin_claim demo_env demo_draws ((fresh_world demo_pay)\<lparr>wd_rows := [demo_open], wd_events := [ChallengePosted 7 Chess 1]\<rparr>) 2 7 =
    Ok \<lparr>cj_match = 7, cj_user = 2, cj_first = 1, cj_doc = DocToy 0 1 2\<rparr>"
  by (simp add: begin_claim_def ensure_entry_capacity_def count_active_entries_def sql_count_def DAILY_MAX_ACTIVE_ENTRIES_def
      with_match_def get_match_def with_game_def demo_open_def demo_chess opening_state_def demo_env_def ensure_def)

lemma demo_claimed:
  "\<exists>r. commit_claim demo_tick (Some 9) ((fresh_world demo_pay)\<lparr>wd_rows := [demo_open], wd_events := [ChallengePosted 7 Chess 1]\<rparr>)
     \<lparr>cj_match = 7, cj_user = 2, cj_first = 1, cj_doc = DocToy 0 1 2\<rparr> = Ok (demo_world, r)"
  by (simp add: commit_claim_def claim_def sql_update_def sql_returning_def claim_guard_def claim_set_def set_chat_room_def
      demo_open_def demo_tick_def say_def demo_world_def demo_running_def DAILY_MOVE_HOURS_def fresh_world_def)

lemma demo_reached: "(svc_step demo_env)\<^sup>*\<^sup>* (fresh_world demo_pay, {#}) (demo_world, {#})"
proof -
  from demo_claimed obtain r where c: "commit_claim demo_tick (Some 9)
     ((fresh_world demo_pay)\<lparr>wd_rows := [demo_open], wd_events := [ChallengePosted 7 Chess 1]\<rparr>)
     \<lparr>cj_match = 7, cj_user = 2, cj_first = 1, cj_doc = DocToy 0 1 2\<rparr> = Ok (demo_world, r)" by blast
  show ?thesis
    using step_post [OF demo_posted, of "{#}"] step_claim_begin [OF demo_claim_begun, of "{#}"] step_claim_commit [OF c, of demo_env "{#}"]
    by (meson r_into_rtranclp rtranclp.rtrancl_into_rtrancl)
qed

lemma demo_moved: "begin_move demo_env demo_tick demo_move_draws demo_world 1 7 (CellMove 12 28) = Ok demo_move"
  by (simp add: begin_move_def move_prelude_def with_match_def get_match_def with_game_def demo_world_def demo_running_def
      demo_open_def demo_chess demo_tick_def hours_def decide_move_def decide_cell_def demo_env_def toy_move_def ensure_def demo_move_def)

lemma demo_revision: "stored_revision (en_revision_text demo_env) (DocToy 0 a b) = Some 0"
proof -
  have "stored_revision (\<lambda>_ :: unit. Some (dec_string 0)) () = Some 0" by code_simp
  then show ?thesis by (simp add: stored_revision_def demo_env_def)
qed

definition demo_finish :: "demo_doc finish_job" where
  "demo_finish = \<lparr>fj_row = demo_running, fj_game = Chess, fj_winner = Some 1, fj_result = Checkmate, fj_moves = 9\<rparr>"

definition demo_over :: "demo_doc world" where
  "demo_over = demo_world\<lparr>wd_rows := [demo_running\<lparr>dm_status := STATUS_FINISHED, dm_winner := Some 1, dm_result := ''checkmate'',
       dm_state := DocToy 9 1 2, dm_turn := None, dm_deadline := None\<rparr>],
     wd_events := wd_events demo_world @ [MovePlayed 7 1 ''e4'']\<rparr>"

lemma demo_committed: "commit_move demo_env demo_tick demo_world demo_move = Ok (demo_over, Some demo_finish)"
proof -
  have ok: "rows_ok (wd_rows demo_world)"
    using svc_run_advances [OF demo_env_ok demo_env_inj demo_reached fresh_inv]
    by (simp add: advances_def svc_inv_def table_ok_def demo_pay_def fresh_pay_def)
  have "finish (en_revision_text demo_env) 0 (wd_rows demo_world) (dm_id demo_running) (Some 1) Checkmate (DocToy 9 1 2) 0 =
      Ok (wd_rows demo_over, 1)"
    using finish_lands [OF ok, of demo_running "en_revision_text demo_env" 0 0 "Some 1" Checkmate "DocToy 9 1 2"] demo_revision
    by (simp add: demo_world_def demo_over_def demo_running_def demo_open_def)
  then show ?thesis
    by (simp add: commit_move_def demo_move_def demo_tick_def stored_def ensure_def say_def demo_over_def demo_finish_def
        demo_running_def demo_open_def)
qed

lemma demo_grant:
  "\<exists>p g. credit_per_event_pair_day_reward_template (en_id_text demo_env) (en_stamp demo_env) (tk_ids demo_tick) 0 0
     (en_templates demo_env) demo_pay 1 (reward_key Chess) (en_id_text demo_env 7) (en_id_text demo_env 2 @ '':'' @ ''day'')
     (win_move Chess) = Ok (p, g) \<and> rg_credited g"
  by (simp add: credit_per_event_pair_day_reward_template_def template_for_def graded_def get_active_by_key_def
      ensure_claim_policy_def template_game_def template_payout_kind_def required_param_str_def demo_env_def chess_template_def
      demo_tick_def grant_multi_def demo_pay_def fresh_pay_def empty_db_def has_claimed_period_def insert_claim_def ensure_def
      row_checks_def key_row_def row_key_def not_blank_def pay_credit_def insert_chips_def reward_grant_of_def
      PER_EVENT_REWARD_PERIOD_KIND_def PAIR_DAY_REWARD_PERIOD_KIND_def)

lemma demo_paid:
  "\<exists>w'. finish_events demo_env demo_tick demo_over demo_finish = Ok w' \<and> announced (wd_events w') 7 = 1 \<and>
     payments demo_env (pd_claims (wd_pay w')) 7 = 1"
proof -
  from demo_grant obtain p g where g: "credit_per_event_pair_day_reward_template (en_id_text demo_env) (en_stamp demo_env)
     (tk_ids demo_tick) 0 0 (en_templates demo_env) demo_pay 1 (reward_key Chess) (en_id_text demo_env 7)
     (en_id_text demo_env 2 @ '':'' @ ''day'') (win_move Chess) = Ok (p, g)" "rg_credited g" by blast
  have day: "en_day_text demo_env 0 = ''day''" by (simp add: demo_env_def)
  have pay: "pay_winner demo_env demo_tick demo_pay demo_running Chess 1 9 = Ok (p, WinPaid)"
    using g day by (simp add: pay_winner_def DAILY_WIN_MIN_MOVES_def demo_running_def demo_open_def expect_def Let_def demo_tick_def)
  from pay_winner_effect [OF this] obtain c1 c2 where c: "pd_claims p = [c1, c2]" "daily_claim demo_env c1"
    "row_key c1 = (1, pr_game c1, pr_kind c1, PER_EVENT_REWARD_PERIOD_KIND, en_id_text demo_env 7)"
    "row_key c2 = (1, pr_game c1, pr_kind c1, PAIR_DAY_REWARD_PERIOD_KIND, pair_key demo_env demo_running 1)"
    by (auto simp: paid_for_def demo_pay_def fresh_pay_def demo_running_def demo_open_def)
  have "payments demo_env (pd_claims p) 7 = 1"
    using c by (simp add: payments_def pays_for_def row_key_def PER_EVENT_REWARD_PERIOD_KIND_def PAIR_DAY_REWARD_PERIOD_KIND_def)
  moreover obtain w' where "finish_events demo_env demo_tick demo_over demo_finish = Ok w'" "wd_pay w' = p"
    using pay by (auto simp: finish_events_def demo_finish_def Let_def demo_over_def demo_world_def fresh_world_def say_def
      split: option.splits)
  moreover have "announced (wd_events demo_over) 7 = 0"
    by (simp add: announced_def demo_over_def demo_world_def fresh_world_def)
  moreover have "players_ok (fj_row demo_finish)" by (simp add: demo_finish_def players_ok_def demo_running_def demo_open_def)
  moreover have "dm_id (fj_row demo_finish) = 7" by (simp add: demo_finish_def demo_running_def demo_open_def)
  ultimately show ?thesis using finish_events_total [of demo_finish demo_env demo_tick demo_over] by auto
qed

lemma demo_won: "\<exists>w'. (svc_step demo_env)\<^sup>*\<^sup>* (fresh_world demo_pay, {#}) (w', {#}) \<and> announced (wd_events w') 7 = 1 \<and>
    payments demo_env (pd_claims (wd_pay w')) 7 = 1"
proof -
  from demo_paid obtain w' where w': "finish_events demo_env demo_tick demo_over demo_finish = Ok w'" "announced (wd_events w') 7 = 1"
    "payments demo_env (pd_claims (wd_pay w')) 7 = 1" by blast
  have "svc_step demo_env (demo_world, {#JMove demo_move#}) (demo_over, finish_jobs [demo_finish] + {#})"
    using step_move_commit [OF demo_committed, of "{#}"] by simp
  then have "svc_step demo_env (demo_world, {#JMove demo_move#}) (demo_over, {#JFinish demo_finish#})" by (simp add: finish_jobs_def)
  with step_finish [OF w'(1), of "{#}"] step_move_begin [OF demo_moved, of "{#}"] demo_reached w'(2,3) show ?thesis
    by (meson rtranclp.rtrancl_into_rtrancl)
qed

lemma demo_pay_fresh: "pd_claims demo_pay = []"
  by (simp add: demo_pay_def fresh_pay_def)
section \<open>Properties\<close>

text \<open>C1. Every match ends once and pays once. However posts, claims, moves, resignations, sweeps and payouts
  interleave, and whichever of them are lost on the way: a match is announced as finished at most once and
  at most one payout claim is ever written for it; either only happens to a match stored as finished; and
  the claim is for the winner stored on it.\<close>

theorem match_pays_once:
  assumes "env_ok env L" and "inj (en_id_text env)" and "pd_claims p = []"
    and "(svc_step env)\<^sup>*\<^sup>* (fresh_world p, {#}) (w, J)"
  shows "announced (wd_events w) m \<le> 1 \<and> payments env (pd_claims (wd_pay w)) m \<le> 1 \<and>
    (announced (wd_events w) m + payments env (pd_claims (wd_pay w)) m > 0 \<longrightarrow> is_finished (wd_rows w) m) \<and>
    (\<forall>c \<in> set (pd_claims (wd_pay w)). pays_for env m c \<longrightarrow>
       (\<exists>r \<in> set (wd_rows w). dm_id r = m \<and> dm_status r = STATUS_FINISHED \<and> dm_winner r = Some (pr_user c)))"
proof -
  note inv = reachable_inv [OF assms]
  then have i: "announced (wd_events w) m + pending J m \<le> of_bool (is_finished (wd_rows w) m)"
    "payments env (pd_claims (wd_pay w)) m + pending J m \<le> of_bool (is_finished (wd_rows w) m)"
    and c: "\<forall>c \<in> set (pd_claims (wd_pay w)). claim_ok env (wd_rows w) (pd_claims (wd_pay w)) c"
    by (simp_all add: svc_inv_def)
  have "\<exists>r \<in> set (wd_rows w). dm_id r = m \<and> dm_status r = STATUS_FINISHED \<and> dm_winner r = Some (pr_user c)"
    if "c \<in> set (pd_claims (wd_pay w))" "pays_for env m c" for c
  proof -
    from c that obtain r where "r \<in> set (wd_rows w)" "pr_period_key c = en_id_text env (dm_id r)"
      "dm_status r = STATUS_FINISHED" "dm_winner r = Some (pr_user c)"
      unfolding claim_ok_def pays_for_def by blast
    with that(2) assms(2) show ?thesis by (auto simp: pays_for_def inj_eq)
  qed
  with i show ?thesis by (cases "is_finished (wd_rows w) m") auto
qed

theorem match_pays_once_witness:
  "\<exists>w. (svc_step demo_env)\<^sup>*\<^sup>* (fresh_world demo_pay, {#}) (w, {#}) \<and> payments demo_env (pd_claims (wd_pay w)) 7 = 1 \<and>
     announced (wd_events w) 7 = 1 \<and> is_finished (wd_rows w) 7"
proof -
  from demo_won obtain w where w: "(svc_step demo_env)\<^sup>*\<^sup>* (fresh_world demo_pay, {#}) (w, {#})"
    "payments demo_env (pd_claims (wd_pay w)) 7 = 1" "announced (wd_events w) 7 = 1" by blast
  with match_pays_once [OF demo_env_ok demo_env_inj demo_pay_fresh w(1), of 7] show ?thesis by auto
qed

text \<open>C16. The pair-day cap. In every reachable world two matches that paid the same winner under the same reward
  template, against the same opponent and posted on the same day, are one match.\<close>

theorem pair_day_cap:
  assumes "env_ok env L" and "inj (en_id_text env)" and "pd_claims p = []"
    and "(svc_step env)\<^sup>*\<^sup>* (fresh_world p, {#}) (w, J)"
    and "r \<in> set (wd_rows w)" and "r' \<in> set (wd_rows w)" and "c \<in> set (pd_claims (wd_pay w))" and "c' \<in> set (pd_claims (wd_pay w))"
    and "pays_for env (dm_id r) c" and "pays_for env (dm_id r') c'"
    and "dm_winner r = dm_winner r'" and "(pr_game c, pr_kind c) = (pr_game c', pr_kind c')"
    and "\<And>u. dm_winner r = Some u \<Longrightarrow> loser_of r u = loser_of r' u" and "en_day_text env (dm_created r) = en_day_text env (dm_created r')"
  shows "r = r'"
proof -
  note inv = reachable_inv [OF assms(1-4)]
  then have ok: "rows_ok (wd_rows w)" "pairs_once env (wd_rows w) (pd_claims (wd_pay w))"
    and c: "\<forall>c \<in> set (pd_claims (wd_pay w)). claim_ok env (wd_rows w) (pd_claims (wd_pay w)) c"
    by (simp_all add: svc_inv_def table_ok_def)
  have w: "dm_winner r = Some (pr_user c)" using claim_row [OF assms(2) ok(1) bspec [OF c assms(7)] assms(9,5)] by blast
  have w': "dm_winner r' = Some (pr_user c')" using claim_row [OF assms(2) ok(1) bspec [OF c assms(8)] assms(10,6)] by blast
  have "pair_key env r (pr_user c) = pair_key env r' (pr_user c)" using assms(13) [OF w] assms(14) by (auto simp: pair_key_def split: option.split)
  with ok(2) assms(5-10,12) w w' assms(11) show ?thesis unfolding pairs_once_def by auto
qed

theorem pair_day_cap_witness:
  "\<exists>w r c. (svc_step demo_env)\<^sup>*\<^sup>* (fresh_world demo_pay, {#}) (w, {#}) \<and> r \<in> set (wd_rows w) \<and> c \<in> set (pd_claims (wd_pay w)) \<and>
     pays_for demo_env (dm_id r) c \<and>
     (\<forall>r' \<in> set (wd_rows w). \<forall>c' \<in> set (pd_claims (wd_pay w)). pays_for demo_env (dm_id r') c' \<longrightarrow> dm_winner r = dm_winner r' \<longrightarrow>
        pr_game c = pr_game c' \<longrightarrow> pr_kind c = pr_kind c' \<longrightarrow> (\<forall>u. loser_of r u = loser_of r' u) \<longrightarrow> r = r')"
proof -
  from demo_won obtain w where w: "(svc_step demo_env)\<^sup>*\<^sup>* (fresh_world demo_pay, {#}) (w, {#})"
    "payments demo_env (pd_claims (wd_pay w)) 7 = 1" by blast
  then obtain c where c: "c \<in> set (pd_claims (wd_pay w))" "pays_for demo_env 7 c"
    by (auto simp: payments_def filter_empty_conv dest!: arg_cong [of _ _ "\<lambda>n. n \<noteq> 0"])
  note inv = reachable_inv [OF demo_env_ok demo_env_inj demo_pay_fresh w(1)]
  then have "claim_ok demo_env (wd_rows w) (pd_claims (wd_pay w)) c" using c(1) by (simp add: svc_inv_def)
  with c(2) demo_env_inj obtain r where r: "r \<in> set (wd_rows w)" "dm_id r = 7"
    unfolding claim_ok_def pays_for_def by (auto simp: inj_eq)
  have day: "en_day_text demo_env x = en_day_text demo_env y" for x y by (simp add: demo_env_def)
  have pr: "pays_for demo_env (dm_id r) c" using c(2) r(2) by simp
  have "r = r'" if "r' \<in> set (wd_rows w)" "c' \<in> set (pd_claims (wd_pay w))" "pays_for demo_env (dm_id r') c'" "dm_winner r = dm_winner r'"
    "pr_game c = pr_game c'" "pr_kind c = pr_kind c'" "\<forall>u. loser_of r u = loser_of r' u" for r' c'
    by (rule pair_day_cap [OF demo_env_ok demo_env_inj demo_pay_fresh w(1) r(1) that(1) c(1) that(2) pr that(3,4) _ _ day])
      (use that in auto)
  with w(1) r(1) c(1) pr show ?thesis by blast
qed

text \<open>C2. Every running match stays playable. In every reachable world the table is in order, and each running
  match of a game this development models holds a document its engine replays, between the two players of
  the row, with the player of the row's turn on the clock; no request for a move on it panics.\<close>

theorem running_matches_playable:
  assumes "env_ok env L" and "inj (en_id_text env)" and "pd_claims p = []"
    and "(svc_step env)\<^sup>*\<^sup>* (fresh_world p, {#}) (w, J)"
  shows "rows_ok (wd_rows w) \<and>
    (\<forall>r \<in> set (wd_rows w). dm_status r = STATUS_ACTIVE \<longrightarrow>
       (\<exists>opp t. dm_opponent r = Some opp \<and> dm_turn r = Some t \<and>
          (\<forall>g. from_kind (dm_game_kind r) = Some g \<longrightarrow> game_legal env L g (dm_challenger r) opp t (dm_state r)))) \<and>
    begin_move env tk draws w u m req \<noteq> Panic"
proof -
  have t: "table_ok env L (wd_rows w)" using reachable_inv [OF assms] by (simp add: svc_inv_def)
  have legal: "\<exists>opp t. dm_opponent r = Some opp \<and> dm_turn r = Some t \<and>
          (\<forall>g. from_kind (dm_game_kind r) = Some g \<longrightarrow> game_legal env L g (dm_challenger r) opp t (dm_state r))"
    if "r \<in> set (wd_rows w)" "dm_status r = STATUS_ACTIVE" for r
  proof -
    have "row_ok r" "row_legal env L r" using t that(1) by (simp_all add: table_ok_def rows_ok_def)
    with that(2) show ?thesis by (auto simp: row_ok_def players_ok_def row_legal_def)
  qed
  have "begin_move env tk draws w u m req \<noteq> Panic"
  proof
    assume "begin_move env tk draws w u m req = Panic"
    then consider "move_prelude (tk_app tk) (wd_rows w) u m = Panic"
      | row game where "move_prelude (tk_app tk) (wd_rows w) u m = Ok (row, game)"
        "decide_move env (tk_app tk) (dm_deadline row) draws game (dm_state row) u req = Panic"
      by (auto simp: begin_move_def res_simps)
    then show False
    proof cases
      case 1
      then show False by (auto simp: move_prelude_def with_match_def with_game_def ensure_def split: option.splits if_splits)
    next
      case (2 row game)
      from with_match_Ok [OF 2(1) [unfolded move_prelude_def]] have r: "row \<in> set (wd_rows w)" "dm_status row = STATUS_ACTIVE"
        "from_kind (dm_game_kind row) = Some game" by (auto simp: res_simps dest!: with_game_Ok)
      obtain opp t where "game_legal env L game (dm_challenger row) opp t (dm_state row)" using legal [OF r(1,2)] r(3) by blast
      from daily_rules.decide_safe [OF service_rules [OF assms(1)] this] 2(2) show False by blast
    qed
  qed
  with t legal show ?thesis by (simp add: table_ok_def)
qed

theorem running_matches_playable_witness:
  "rows_ok (wd_rows demo_world) \<and> (\<exists>r \<in> set (wd_rows demo_world). dm_status r = STATUS_ACTIVE) \<and>
   begin_move demo_env demo_tick demo_move_draws demo_world 1 7 (CellMove 12 28) \<noteq> Panic"
  using running_matches_playable [OF demo_env_ok demo_env_inj demo_pay_fresh demo_reached]
  by (simp add: demo_world_def demo_running_def)

text \<open>C3. The service refines the life of a match. Read abstractly, a match is open, running between two
  players with one of them on the clock, over with a winner of the two or none, or cancelled. Between any
  two worlds of a run, every match has taken only steps of that life: open to cancelled or to running
  against someone else, running to running or to over, and nothing afterwards.\<close>

theorem service_refines_life:
  assumes "env_ok env L" and "inj (en_id_text env)" and "pd_claims p = []"
    and "(svc_step env)\<^sup>*\<^sup>* (fresh_world p, {#}) (w, J)" and "(svc_step env)\<^sup>*\<^sup>* (w, J) (w', J')"
    and "abs_of (wd_rows w) m = Some x"
  shows "\<exists>y. abs_of (wd_rows w') m = Some y \<and> abs_next\<^sup>*\<^sup>* x y"
proof -
  note inv = reachable_inv [OF assms(1-4)]
  from svc_run_advances [OF assms(1,2,5) inv] have ok': "rows_ok (wd_rows w')" and l: "leads (wd_rows w) (wd_rows w')"
    by (simp_all add: advances_def svc_inv_def table_ok_def)
  have ok: "rows_ok (wd_rows w)" using inv by (simp add: svc_inv_def table_ok_def)
  obtain r where r: "get_match (wd_rows w) m = Some r" "x = abs_row r" using assms(6) by (auto simp: abs_of_def)
  obtain r' where r': "r' \<in> set (wd_rows w')" "keeps r r'" using l get_match_in [OF r(1)] by (auto simp: leads_def)
  have "get_match (wd_rows w') m = Some r'"
    using get_match_unique [OF ok' r'(1)] keeps_same [OF r'(2)] get_match_in [OF r(1)] by simp
  moreover have "row_ok r" "row_ok r'" using ok ok' get_match_in [OF r(1)] r'(1) by (simp_all add: rows_ok_def)
  ultimately show ?thesis using keeps_abs [OF r'(2)] r(2) by (simp add: abs_of_def)
qed

theorem service_refines_life_witness:
  "\<exists>w y. (svc_step demo_env)\<^sup>*\<^sup>* (demo_world, {#}) (w, {#}) \<and> abs_of (wd_rows demo_world) 7 = Some (ARunning 1 2 1) \<and>
     abs_of (wd_rows w) 7 = Some y \<and> abs_next\<^sup>*\<^sup>* (ARunning 1 2 1) y"
proof -
  have run: "(svc_step demo_env)\<^sup>*\<^sup>* (demo_world, {#}) (demo_over, {#})"
    using step_move_begin [OF demo_moved, of "{#}"] step_move_commit [OF demo_committed, of "{#}"]
      step_lost [of demo_env demo_over "JFinish demo_finish" "{#}"]
    by (simp add: finish_jobs_def)
  have abs: "abs_of (wd_rows demo_world) 7 = Some (ARunning 1 2 1)"
    by (simp add: abs_of_def get_match_def demo_world_def demo_running_def demo_open_def abs_row_def)
  from service_refines_life [OF demo_env_ok demo_env_inj demo_pay_fresh demo_reached run abs] run abs show ?thesis by blast
qed

text \<open>C18. A decided move lands. When nothing intervenes, a move the engine decided on for the player on the
  clock, read at the revision stored on its match, is written: it never panics, and either the match goes on
  with the new document, the next player and a day on the clock (a draw of gin keeps its clock), every other row as it was, or it is over with
  the winner and result the engine named and has been announced once.\<close>

theorem decided_move_lands:
  assumes "env_ok env L" and "inj (en_id_text env)" and "pd_claims p = []"
    and "(svc_step env)\<^sup>*\<^sup>* (fresh_world p, {#}) (w, J)"
    and "begin_move env tk draws w u m req = Ok j"
    and "stored_revision (en_revision_text env) (dm_state (mj_row j)) = Some (de_base (mj_decided j))"
  shows "\<exists>w'. play_move env tk draws w u m req = Ok w' \<and>
    (case de_finished (mj_decided j) of
       None \<Rightarrow> wd_rows w' = map (\<lambda>r. if r = mj_row j
           then r\<lparr>dm_state := de_doc (mj_decided j), dm_turn := Some (de_next (mj_decided j)),
                  dm_deadline := (if \<exists>pile. req = GinTurn (GinDraw pile) then dm_deadline r else Some (tk_app tk + hours 24)),
                  dm_updated := tk_db tk\<rparr> else r) (wd_rows w)
     | Some (winner, result) \<Rightarrow>
         announced (wd_events w') m = announced (wd_events w) m + 1 \<and>
         (\<exists>r \<in> set (wd_rows w'). dm_id r = m \<and> dm_status r = STATUS_FINISHED \<and> dm_winner r = winner \<and>
            dm_result r = result_str result \<and> dm_state r = de_doc (mj_decided j)))"
proof -
  note inv = reachable_inv [OF assms(1-4)]
  then have t: "table_ok env L (wd_rows w)" and ok: "rows_ok (wd_rows w)" by (simp_all add: svc_inv_def table_ok_def)
  from assms(5) obtain row game d where d: "move_prelude (tk_app tk) (wd_rows w) u m = Ok (row, game)"
    "decide_move env (tk_app tk) (dm_deadline row) draws game (dm_state row) u req = Ok d"
    "j = \<lparr>mj_row = row, mj_game = game, mj_user = u, mj_decided = d\<rparr>"
    by (auto simp: begin_move_def res_simps)
  from with_match_Ok [OF d(1) [unfolded move_prelude_def]] have r: "row \<in> set (wd_rows w)" "dm_status row = STATUS_ACTIVE"
    "dm_turn row = Some u" "dm_id row = m" by (auto simp: res_simps dest!: with_game_Ok)
  have rev: "stored_revision (en_revision_text env) (dm_state row) = Some (de_base d)" using assms(6) d(3) by simp
  have pl: "players_ok row" using ok r(1,2) by (auto simp: rows_ok_def row_ok_def)
  show ?thesis
  proof (cases "de_finished d")
    case None
    then show ?thesis
      using update_lands [OF ok r(1-3) rev] r(4) assms(5) d(3) decided_deadline [OF assms(1) d(2), of tk]
      by (auto simp: play_move_def commit_move_def stored_def ensure_def finish_all_def Let_def say_def DAILY_MOVE_HOURS_def)
  next
    case (Some q)
    obtain winner result where q: "q = (winner, result)" by (cases q)
    let ?over = "row\<lparr>dm_status := STATUS_FINISHED, dm_winner := winner, dm_result := result_str result,
       dm_state := de_doc d, dm_turn := None, dm_deadline := None, dm_updated := tk_db tk\<rparr>"
    let ?rows = "map (\<lambda>x. if x = row then ?over else x) (wd_rows w)"
    let ?f = "\<lparr>fj_row = row, fj_game = game, fj_winner = winner, fj_result = result, fj_moves = de_revision d\<rparr>"
    let ?w = "say (w\<lparr>wd_rows := ?rows\<rparr>) (MovePlayed m u (de_label d))"
    have c: "commit_move env tk w j = Ok (?w, Some ?f)"
      using finish_lands [OF ok r(1,2) rev] r(4) d(3) Some q
      by (simp add: commit_move_def stored_def ensure_def Let_def)
    have "players_ok (fj_row ?f)" using pl by simp
    then obtain w' where w': "finish_events env tk ?w ?f = Ok w'"
      "announced (wd_events w') m = announced (wd_events ?w) m + 1"
      "wd_rows w' = ?rows \<or> (\<exists>payout. wd_rows w' = record_win_payout (tk_db tk) ?rows m payout)"
      by (rule finish_events_runs [where w = ?w and rows = ?rows and m = m and env = env and tk = tk]) (simp_all add: say_def r(4))
    have jm: "job_ok env L (wd_rows w) (JMove j)" by (rule begin_move_job [OF assms(1) t assms(5)])
    have "rows_ok ?rows" using commit_move_effect [OF t jm c] by (simp add: say_def table_ok_def)
    from finished_row_stays [OF this _ _ w'(3), of ?over] r(1,4)
    have row: "\<exists>r \<in> set (wd_rows w'). dm_id r = m \<and> dm_status r = STATUS_FINISHED \<and> dm_winner r = winner \<and>
            dm_result r = result_str result \<and> dm_state r = de_doc d" by (auto simp del: result_str.simps)
    have "play_move env tk draws w u m req = Ok w'"
      using assms(5) c w'(1) by (simp add: play_move_def finish_all_def)
    then show ?thesis
      using w'(2) row Some q d(3) by (intro exI [of _ w']) (simp add: say_def announced_def del: result_str.simps)
  qed
qed

theorem decided_move_lands_witness:
  "\<exists>w'. play_move demo_env demo_tick demo_move_draws demo_world 1 7 (CellMove 12 28) = Ok w' \<and> announced (wd_events w') 7 = 1 \<and>
     (\<exists>r \<in> set (wd_rows w'). dm_id r = 7 \<and> dm_winner r = Some 1)"
proof -
  have rev: "stored_revision (en_revision_text demo_env) (dm_state (mj_row demo_move)) = Some (de_base (mj_decided demo_move))"
    using demo_revision by (simp add: demo_move_def demo_running_def demo_open_def)
  from decided_move_lands [OF demo_env_ok demo_env_inj demo_pay_fresh demo_reached demo_moved rev]
  show ?thesis by (auto simp: demo_move_def announced_def demo_world_def fresh_world_def)
qed



section \<open>The cap on entries\<close>

definition entry_of :: "uuid \<Rightarrow> 'j match_row \<Rightarrow> bool" where
  "entry_of u r \<longleftrightarrow> (dm_status r = STATUS_OPEN \<and> dm_challenger r = u) \<or>
     (dm_status r = STATUS_ACTIVE \<and> (dm_challenger r = u \<or> dm_opponent r = Some u))"

lemma count_entries: "count_active_entries rows u = length (filter (entry_of u) rows)"
  by (simp add: count_active_entries_def sql_count_def entry_of_def [abs_def])

lemma count_map_one:
  "distinct rows \<Longrightarrow> r \<in> set rows \<Longrightarrow>
     length (filter P (map (\<lambda>x. if x = r then y else x) rows)) + of_bool (P r) = length (filter P rows) + of_bool (P y)"
proof (induction rows)
  case (Cons x xs)
  show ?case
  proof (cases "x = r")
    case True
    then have "map (\<lambda>x. if x = r then y else x) xs = xs" using Cons.prems(1) by (auto intro: map_idI)
    with True show ?thesis by simp
  next
    case False
    with Cons show ?thesis by auto
  qed
qed simp

text \<open>C33. No one holds more than ten. A challenge posted or claimed by a call that nothing interrupts leaves its user
  with at most ten open challenges and running matches, one more than before, and everyone else with as
  many as before.\<close>

theorem entries_stay_capped:
  assumes "rows_ok (wd_rows w)"
  shows "(post_checked env now i w u g = Ok (w1, r1) \<longrightarrow>
      (\<forall>v. count_active_entries (wd_rows w1) v = count_active_entries (wd_rows w) v + of_bool (v = u)) \<and>
      count_active_entries (wd_rows w1) u \<le> 10) \<and>
    (claim_challenge env tk od room w u m = Ok (w2, r2) \<longrightarrow>
      (\<forall>v. count_active_entries (wd_rows w2) v = count_active_entries (wd_rows w) v + of_bool (v = u)) \<and>
      count_active_entries (wd_rows w2) u \<le> 10)"
proof (intro conjI impI)
  assume "post_checked env now i w u g = Ok (w1, r1)"
  then have cap: "count_active_entries (wd_rows w) u < 10"
    and c: "\<exists>r. wd_rows w1 = wd_rows w @ [r] \<and> dm_status r = STATUS_OPEN \<and> dm_challenger r = u"
    by (auto simp: post_checked_def ensure_entry_capacity_def DAILY_MAX_ACTIVE_ENTRIES_def post_challenge_def stored_def
        create_challenge_def res_simps Let_def say_def split: res.splits)
  then have n: "count_active_entries (wd_rows w1) v = count_active_entries (wd_rows w) v + of_bool (v = u)" for v
    by (auto simp: count_entries entry_of_def)
  from n show "\<forall>v. count_active_entries (wd_rows w1) v = count_active_entries (wd_rows w) v + of_bool (v = u)" by blast
  from n [of u] cap show "count_active_entries (wd_rows w1) u \<le> 10" by simp
next
  assume ok: "claim_challenge env tk od room w u m = Ok (w2, r2)"
  then obtain job where b: "begin_claim env od w u m = Ok job" and cc: "commit_claim tk room w job = Ok (w2, r2)"
    by (auto simp: claim_challenge_def res_simps)
  from b have cap: "count_active_entries (wd_rows w) u < 10" and user: "cj_user job = u"
    by (auto simp: begin_claim_def ensure_entry_capacity_def DAILY_MAX_ACTIVE_ENTRIES_def res_simps
        dest!: with_match_Ok with_game_Ok)
  let ?p = "claim_guard (cj_match job) u"
  let ?f = "claim_set (tk_db tk) u (cj_first job) (tk_app tk + hours DAILY_MOVE_HOURS) (cj_doc job)"
  from cc user obtain r room' x where r: "r \<in> set (wd_rows w)" "?p r"
    and rows: "wd_rows w2 = fst (set_chat_room (sql_update ?p ?f (wd_rows w)) x room')"
    by (fastforce simp: commit_claim_def claim_def sql_returning_def say_def filter_eq_Cons_iff split: option.splits list.splits)
  have one: "sql_update ?p ?f (wd_rows w) = map (\<lambda>x. if x = r then ?f r else x) (wd_rows w)"
    using sql_one [OF assms r(1), of ?p ?f] r(2) by (simp add: claim_guard_def)
  have room: "length (filter (entry_of v) (fst (set_chat_room rs x room'))) = length (filter (entry_of v) rs)" for v and rs :: "'a match_row list"
    by (simp add: set_chat_room_def sql_update_def filter_map comp_def entry_of_def [abs_def] if_distrib cong: if_cong)
  have d: "distinct (wd_rows w)" using assms by (simp add: rows_ok_def distinct_map)
  have n: "count_active_entries (wd_rows w2) v = count_active_entries (wd_rows w) v + of_bool (v = u)" for v
    using count_map_one [OF d r(1), of "entry_of v" "?f r"] r(2)
    by (auto simp: count_entries rows room one entry_of_def claim_guard_def claim_set_def split: if_splits)
  from n show "\<forall>v. count_active_entries (wd_rows w2) v = count_active_entries (wd_rows w) v + of_bool (v = u)" by blast
  from n [of u] cap show "count_active_entries (wd_rows w2) u \<le> 10" by simp
qed

theorem entries_stay_capped_witness:
  "\<exists>w r. post_checked demo_env 0 8 demo_world 1 Reversi = Ok (w, r) \<and> count_active_entries (wd_rows w) 1 = 2 \<and>
     count_active_entries (wd_rows w) 1 \<le> 10"
proof -
  have ok: "rows_ok (wd_rows demo_world)"
    using reachable_inv [OF demo_env_ok demo_env_inj demo_pay_fresh demo_reached] by (simp add: svc_inv_def table_ok_def)
  have one: "count_active_entries (wd_rows demo_world) 1 = 1"
    by (simp add: count_active_entries_def sql_count_def demo_world_def demo_running_def demo_open_def)
  obtain w r where p: "post_checked demo_env 0 8 demo_world 1 Reversi = Ok (w, r)"
    using one by (simp add: post_checked_def ensure_entry_capacity_def DAILY_MAX_ACTIVE_ENTRIES_def ensure_def post_challenge_def
        create_challenge_def stored_def Let_def demo_world_def demo_running_def demo_open_def)
  with entries_stay_capped [OF ok, of demo_env 0 8 1 Reversi w r] one show ?thesis by auto
qed

end
