(* ===== verification/PokerHand.thy ===== *)
theory PokerHand
  imports Cards "HOL-Library.List_Lexorder"
begin

text \<open>
  The value of a poker hand (\<open>evaluate_best_hand\<close> and its helpers in
  \<open>late-ssh/src/app/lobby/house/poker/svc.rs\<close>). A value is a category and five ranks, compared in that
  order. The last section states what the value must be, the greatest one that five of the cards show, and
  the lemmas before it lead there: the counts of the ranks, the sorted lists the code takes prefixes of, and
  the runs it scans for.
\<close>


section \<open>Values\<close>

datatype hand_value = HandValue (hv_category: nat) (hv_ranks: "nat list")

instantiation hand_value :: linorder
begin

definition less_eq_hand_value :: "hand_value \<Rightarrow> hand_value \<Rightarrow> bool" where
  "less_eq_hand_value v w \<longleftrightarrow>
     hv_category v < hv_category w \<or> (hv_category v = hv_category w \<and> hv_ranks v \<le> hv_ranks w)"

definition less_hand_value :: "hand_value \<Rightarrow> hand_value \<Rightarrow> bool" where
  "less_hand_value v w \<longleftrightarrow>
     hv_category v < hv_category w \<or> (hv_category v = hv_category w \<and> hv_ranks v < hv_ranks w)"

instance
  by standard (auto simp: less_eq_hand_value_def less_hand_value_def hand_value.expand)

end

record evaluated_hand =
  eh_value :: hand_value
  eh_label :: string

fun poker_rank_value :: "card_rank \<Rightarrow> nat" where
  "poker_rank_value FaceAce = 14"
| "poker_rank_value (FaceNumber v) = v"
| "poker_rank_value FaceJack = 11"
| "poker_rank_value FaceQueen = 12"
| "poker_rank_value FaceKing = 13"

abbreviation rank_of :: "playing_card \<Rightarrow> nat" where
  "rank_of c \<equiv> poker_rank_value (pc_rank c)"

definition evaluated :: "nat \<Rightarrow> nat list \<Rightarrow> string \<Rightarrow> evaluated_hand" where
  "evaluated category ranks label =
     \<lparr>eh_value = HandValue category (take 5 ranks @ replicate (5 - length ranks) 0), eh_label = label\<rparr>"


section \<open>Counting and sorting\<close>

text \<open>The map of the ranks and how often each appears; its order never matters.\<close>

fun bump_count :: "nat \<Rightarrow> (nat \<times> nat) list \<Rightarrow> (nat \<times> nat) list" where
  "bump_count r [] = [(r, 1)]"
| "bump_count r ((q, n) # counts) = (if q = r then (q, n + 1) # counts else (q, n) # bump_count r counts)"

definition rank_counts :: "playing_card list \<Rightarrow> (nat \<times> nat) list" where
  "rank_counts cards = fold (\<lambda>card. bump_count (rank_of card)) cards []"

text \<open>\<open>sort_unstable_by(|a, b| b.cmp(a))\<close>.\<close>

definition sort_down :: "nat list \<Rightarrow> nat list" where
  "sort_down xs = rev (sort xs)"

definition ranks_with_count_at_least :: "(nat \<times> nat) list \<Rightarrow> nat \<Rightarrow> nat list" where
  "ranks_with_count_at_least counts least = sort_down (map fst (filter (\<lambda>(_, n). least \<le> n) counts))"

definition highest_excluding :: "(nat \<times> nat) list \<Rightarrow> nat list \<Rightarrow> nat \<Rightarrow> nat list" where
  "highest_excluding counts excluded k =
     (let ranks = take k (sort_down (filter (\<lambda>r. r \<notin> set excluded) (map fst counts)))
      in ranks @ replicate (k - length ranks) 0)"

definition suit_ranks :: "card_suit \<Rightarrow> playing_card list \<Rightarrow> nat list" where
  "suit_ranks suit cards = map rank_of (filter (\<lambda>c. pc_suit c = suit) cards)"

definition flush_ranks :: "playing_card list \<Rightarrow> nat list option" where
  "flush_ranks cards =
     (case filter (\<lambda>suit. 5 \<le> length (suit_ranks suit cards)) CARD_SUITS of
        [] \<Rightarrow> None
      | suit # _ \<Rightarrow> Some (sort_down (suit_ranks suit cards)))"

text \<open>The scan of the sorted ranks: the length of the run that ends here, and the best end so far.\<close>

fun straight_scan :: "nat \<Rightarrow> nat option \<Rightarrow> nat list \<Rightarrow> nat option" where
  "straight_scan run best (a # b # ranks) =
     (if b = a + 1
      then straight_scan (run + 1) (if 5 \<le> run + 1 then Some b else best) (b # ranks)
      else straight_scan 1 best (b # ranks))"
| "straight_scan run best _ = best"

definition straight_high :: "nat list \<Rightarrow> nat option" where
  "straight_high ranks =
     (let ranks = remdups_adj (sort ranks);
          ranks = (if 14 \<in> set ranks then 1 # ranks else ranks)
      in straight_scan 1 None ranks)"

definition straight_flush_high :: "playing_card list \<Rightarrow> nat option" where
  "straight_flush_high cards =
     fold (\<lambda>suit best. case straight_high (suit_ranks suit cards) of
        None \<Rightarrow> best
      | Some high \<Rightarrow> Some (case best of None \<Rightarrow> high | Some b \<Rightarrow> max b high)) CARD_SUITS None"

definition evaluate_best_hand :: "playing_card list \<Rightarrow> evaluated_hand" where
  "evaluate_best_hand cards =
     (let ranks = rank_counts cards;
          quads = ranks_with_count_at_least ranks 4;
          trips = ranks_with_count_at_least ranks 3;
          pairs = ranks_with_count_at_least ranks 2
      in case straight_flush_high cards of
           Some high \<Rightarrow> evaluated 8 [high] ''straight flush''
         | None \<Rightarrow>
      (case quads of
           quad # _ \<Rightarrow> evaluated 7 [quad, highest_excluding ranks [quad] 1 ! 0] ''four of a kind''
         | [] \<Rightarrow>
      (case (case trips of
               [] \<Rightarrow> None
             | trip # _ \<Rightarrow> map_option (\<lambda>pair. (trip, pair))
                 (case find (\<lambda>r. r \<noteq> trip) pairs of
                    Some pair \<Rightarrow> Some pair
                  | None \<Rightarrow> find (\<lambda>r. r \<noteq> trip) trips)) of
           Some (trip, pair) \<Rightarrow> evaluated 6 [trip, pair] ''full house''
         | None \<Rightarrow>
      (case flush_ranks cards of
           Some flush \<Rightarrow> evaluated 5 (take 5 flush) ''flush''
         | None \<Rightarrow>
      (case straight_high (map fst ranks) of
           Some high \<Rightarrow> evaluated 4 [high] ''straight''
         | None \<Rightarrow>
      (case trips of
           trip # _ \<Rightarrow>
             (let kickers = highest_excluding ranks [trip] 2
              in evaluated 3 [trip, kickers ! 0, kickers ! 1] ''three of a kind'')
         | [] \<Rightarrow>
      (if 2 \<le> length pairs
       then evaluated 2 [pairs ! 0, pairs ! 1, highest_excluding ranks [pairs ! 0, pairs ! 1] 1 ! 0] ''two pair''
       else
      (case pairs of
           pair # _ \<Rightarrow>
             (let kickers = highest_excluding ranks [pair] 3
              in evaluated 1 [pair, kickers ! 0, kickers ! 1, kickers ! 2] ''one pair'')
         | [] \<Rightarrow> evaluated 0 (highest_excluding ranks [] 5) ''high card''))))))))"


section \<open>The deck\<close>

definition poker_fresh_deck :: "playing_card list" where
  "poker_fresh_deck =
     concat (map (\<lambda>suit. map (\<lambda>r. \<lparr>pc_suit = suit, pc_rank = r\<rparr>)
       (FaceAce # map FaceNumber [2..<11] @ [FaceJack, FaceQueen, FaceKing])) CARD_SUITS)"

text \<open>Each draw is \<open>next_u64() as usize\<close>, and the residue is taken of it.\<close>

definition poker_shuffle :: "(nat \<Rightarrow> 64 word) \<Rightarrow> playing_card list \<Rightarrow> playing_card list" where
  "poker_shuffle draws = fisher_yates (\<lambda>i. unat (draws i))"


section \<open>What five cards show\<close>

definition five_of :: "playing_card list \<Rightarrow> playing_card list \<Rightarrow> bool" where
  "five_of cards h \<longleftrightarrow> length h = 5 \<and> mset h \<subseteq># mset cards"

definition suited :: "playing_card list \<Rightarrow> bool" where
  "suited h \<longleftrightarrow> (\<exists>suit. \<forall>c \<in> set h. pc_suit c = suit)"

definition run_ranks :: "nat \<Rightarrow> nat list" where
  "run_ranks a = (if a = 5 then [5, 4, 3, 2, 14] else [a, a - 1, a - 2, a - 3, a - 4])"

text \<open>A hand may show several values (a full house also shows a pair); the best one counts.\<close>

inductive shows_value :: "playing_card list \<Rightarrow> hand_value \<Rightarrow> bool" where
  straight_flush: "suited h \<Longrightarrow> map rank_of h = run_ranks a \<Longrightarrow> 5 \<le> a \<Longrightarrow> shows_value h (HandValue 8 [a, 0, 0, 0, 0])"
| four: "map rank_of h = [a, a, a, a, b] \<Longrightarrow> shows_value h (HandValue 7 [a, b, 0, 0, 0])"
| full_house: "map rank_of h = [a, a, a, b, b] \<Longrightarrow> shows_value h (HandValue 6 [a, b, 0, 0, 0])"
| flush: "suited h \<Longrightarrow> sorted_wrt (\<ge>) (map rank_of h) \<Longrightarrow> length h = 5 \<Longrightarrow> shows_value h (HandValue 5 (map rank_of h))"
| straight: "map rank_of h = run_ranks a \<Longrightarrow> 5 \<le> a \<Longrightarrow> shows_value h (HandValue 4 [a, 0, 0, 0, 0])"
| three: "map rank_of h = [a, a, a, b, c] \<Longrightarrow> c \<le> b \<Longrightarrow> shows_value h (HandValue 3 [a, b, c, 0, 0])"
| two_pair: "map rank_of h = [a, a, b, b, c] \<Longrightarrow> b \<le> a \<Longrightarrow> shows_value h (HandValue 2 [a, b, c, 0, 0])"
| pair: "map rank_of h = [a, a, b, c, d] \<Longrightarrow> d \<le> c \<Longrightarrow> c \<le> b \<Longrightarrow> shows_value h (HandValue 1 [a, b, c, d, 0])"
| high_card: "sorted_wrt (\<ge>) (map rank_of h) \<Longrightarrow> length h = 5 \<Longrightarrow> shows_value h (HandValue 0 (map rank_of h))"


section \<open>Counts of the ranks\<close>

definition rank_total :: "playing_card list \<Rightarrow> nat \<Rightarrow> nat" where
  "rank_total cards r = count (mset (map rank_of cards)) r"

lemma rank_total_simps: "rank_total [] r = 0"
  "rank_total (cards @ [c]) r = rank_total cards r + (if rank_of c = r then 1 else 0)"
  by (auto simp: rank_total_def)

lemma bump_keys: "map fst (bump_count r m) = (if r \<in> set (map fst m) then map fst m else map fst m @ [r])"
  by (induction m) force+

lemma bump_map_of: "map_of (bump_count r m) = (map_of m)(r \<mapsto> (case map_of m r of None \<Rightarrow> 1 | Some n \<Rightarrow> n + 1))"
  by (induction m) auto

lemma rank_counts_snoc: "rank_counts (cards @ [c]) = bump_count (rank_of c) (rank_counts cards)"
  by (simp add: rank_counts_def)

lemma distinct_rank_keys: "distinct (map fst (rank_counts cards))"
proof (induction cards rule: rev_induct)
  case (snoc c cards)
  then show ?case by (simp add: rank_counts_snoc bump_keys)
qed (simp add: rank_counts_def)

lemma map_of_rank_counts:
  "map_of (rank_counts cards) r = (if rank_total cards r = 0 then None else Some (rank_total cards r))"
proof (induction cards arbitrary: r rule: rev_induct)
  case (snoc c cards)
  then show ?case by (simp add: rank_counts_snoc bump_map_of rank_total_simps)
qed (simp add: rank_counts_def rank_total_simps)

lemma rank_counts_mem: "(r, n) \<in> set (rank_counts cards) \<longleftrightarrow> 0 < n \<and> n = rank_total cards r"
  using map_of_eq_Some_iff [OF distinct_rank_keys [of cards], of r n]
  by (auto simp: map_of_rank_counts split: if_splits)

lemma rank_keys: "set (map fst (rank_counts cards)) = {r. 0 < rank_total cards r}"
proof -
  have "r \<in> set (map fst (rank_counts cards)) \<longleftrightarrow> (\<exists>n. (r, n) \<in> set (rank_counts cards))" for r by force
  then show ?thesis by (simp add: rank_counts_mem set_eq_iff)
qed

section \<open>Sorted lists\<close>

lemma sort_down_facts [simp]: "set (sort_down xs) = set xs" "length (sort_down xs) = length xs"
  "mset (sort_down xs) = mset xs" "distinct (sort_down xs) = distinct xs"
  by (simp_all add: sort_down_def)

lemma sorted_sort_down: "sorted_wrt (\<ge>) (sort_down xs)"
  using sorted_sort [of xs] by (simp add: sort_down_def sorted_wrt_rev)

text \<open>The first ranks of the sorted list are the greatest choice of that many.\<close>

lemma top_greatest:
  "sorted_wrt (\<ge>) xs \<Longrightarrow> sorted_wrt (\<ge>) ys \<Longrightarrow> mset xs \<subseteq># mset ys \<Longrightarrow> xs \<le> take (length xs) ys"
  for xs ys :: "nat list"
proof (induction xs arbitrary: ys)
  case (Cons x xs)
  obtain y zs where ys: "ys = y # zs" using Cons.prems(3) by (cases ys) auto
  have "x \<in> set ys" using mset_subset_eqD [OF Cons.prems(3), of x] by simp
  then have "x \<le> y" using Cons.prems(2) ys by auto
  moreover have "xs \<le> take (length xs) zs" if "x = y"
    by (rule Cons.IH) (use Cons.prems ys that in simp_all)
  ultimately show ?case unfolding ys by (cases "x = y") simp_all
qed simp

lemma counted_ranks:
  assumes "0 < k"
  shows "set (ranks_with_count_at_least (rank_counts cards) k) = {r. k \<le> rank_total cards r}"
    "sorted_wrt (\<ge>) (ranks_with_count_at_least (rank_counts cards) k)"
    "distinct (ranks_with_count_at_least (rank_counts cards) k)"
proof -
  have "r \<in> set (ranks_with_count_at_least m k) \<longleftrightarrow> (\<exists>n. (r, n) \<in> set m \<and> k \<le> n)" for r m
    unfolding ranks_with_count_at_least_def sort_down_facts by (induction m) auto
  then show "set (ranks_with_count_at_least (rank_counts cards) k) = {r. k \<le> rank_total cards r}"
    using assms by (auto simp: rank_counts_mem)
  show "sorted_wrt (\<ge>) (ranks_with_count_at_least (rank_counts cards) k)"
    by (simp add: ranks_with_count_at_least_def sorted_sort_down)
  show "distinct (ranks_with_count_at_least (rank_counts cards) k)"
    using distinct_map_filter [OF distinct_rank_keys] by (simp add: ranks_with_count_at_least_def)
qed

definition other_ranks :: "playing_card list \<Rightarrow> nat list \<Rightarrow> nat list" where
  "other_ranks cards excluded = sort_down (filter (\<lambda>r. r \<notin> set excluded) (map fst (rank_counts cards)))"

lemma other_ranks: "set (other_ranks cards ex) = {r. 0 < rank_total cards r} - set ex"
  "sorted_wrt (\<ge>) (other_ranks cards ex)" "distinct (other_ranks cards ex)"
  using rank_keys [of cards] distinct_rank_keys [of cards]
  by (auto simp: other_ranks_def sorted_sort_down simp del: set_map)

lemma highest_excluding_take:
  "k \<le> length (other_ranks cards ex) \<Longrightarrow> highest_excluding (rank_counts cards) ex k = take k (other_ranks cards ex)"
  by (simp add: highest_excluding_def other_ranks_def [symmetric] Let_def)

text \<open>Distinct ranks that are present and not excluded are no greater choice than the first ones.\<close>

lemma mset_distinct_subset:
  assumes "distinct xs" and "set xs \<subseteq> set ys"
  shows "mset xs \<subseteq># mset ys"
proof (rule mset_subset_eqI)
  fix a
  show "count (mset xs) a \<le> count (mset ys) a"
    using assms by (cases "a \<in> set xs") (auto simp: distinct_count_atmost_1 count_mset_gt_0 Suc_le_eq)
qed

lemma kickers_greatest:
  assumes "sorted_wrt (\<ge>) ks" and "distinct ks" and "set ks \<subseteq> {r. 0 < rank_total cards r} - set ex"
  shows "length ks \<le> length (other_ranks cards ex)"
    "ks \<le> highest_excluding (rank_counts cards) ex (length ks)"
proof -
  have sub: "mset ks \<subseteq># mset (other_ranks cards ex)"
    by (rule mset_distinct_subset) (use assms(2,3) in \<open>simp_all add: other_ranks(1)\<close>)
  show le: "length ks \<le> length (other_ranks cards ex)" using size_mset_mono [OF sub] by simp
  show "ks \<le> highest_excluding (rank_counts cards) ex (length ks)"
    unfolding highest_excluding_take [OF le] by (rule top_greatest [OF assms(1) other_ranks(2) sub])
qed

text \<open>When the ranks left are single, they are the cards left.\<close>

lemma single_ranks:
  assumes "\<And>r. r \<notin> set ex \<Longrightarrow> rank_total cards r \<le> 1"
  shows "mset (other_ranks cards ex) = filter_mset (\<lambda>r. r \<notin> set ex) (mset (map rank_of cards))"
proof (rule multiset_eqI)
  fix r
  have "count (mset (other_ranks cards ex)) r = (if r \<in> set (other_ranks cards ex) then 1 else 0)"
    using other_ranks(3) by (simp add: distinct_count_atmost_1)
  also have "\<dots> = (if r \<in> set ex then 0 else rank_total cards r)"
    using assms [of r] by (auto simp: other_ranks(1))
  finally show "count (mset (other_ranks cards ex)) r = count (filter_mset (\<lambda>r. r \<notin> set ex) (mset (map rank_of cards))) r"
    by (simp add: rank_total_def)
qed

lemma size_filter_in:
  "distinct ex \<Longrightarrow> size (filter_mset (\<lambda>r. r \<in> set ex) M) = sum_list (map (count M) ex)"
proof (induction ex)
  case (Cons e ex)
  have "filter_mset (\<lambda>r. r \<in> set (e # ex)) M = replicate_mset (count M e) e + filter_mset (\<lambda>r. r \<in> set ex) M"
    by (rule multiset_eqI) (use Cons.prems in auto)
  then show ?case using Cons by simp
qed simp

lemma size_split: "size (filter_mset P M) + size (filter_mset (\<lambda>r. \<not> P r) M) = size M"
  by (metis multiset_partition size_union)

lemma cards_left:
  assumes "distinct ex"
  shows "size (filter_mset (\<lambda>r. r \<notin> set ex) (mset (map rank_of cards))) + sum_list (map (rank_total cards) ex) = length cards"
proof -
  have "rank_total cards = count (mset (map rank_of cards))" by (rule ext) (simp add: rank_total_def)
  then show ?thesis
    using size_split [of "\<lambda>r. r \<in> set ex" "mset (map rank_of cards)"] size_filter_in [OF assms, of "mset (map rank_of cards)"]
    by (metis add.commute length_map size_mset)
qed

lemma length_other_ranks:
  assumes "\<And>r. r \<notin> set ex \<Longrightarrow> rank_total cards r \<le> 1" and "distinct ex"
  shows "length (other_ranks cards ex) + sum_list (map (rank_total cards) ex) = length cards"
  using cards_left [OF assms(2), of cards] single_ranks [OF assms(1)] by (metis size_mset)

lemma other_ranks_left:
  assumes "distinct ex" and "sum_list (map (rank_total cards) ex) < length cards"
  shows "0 < length (other_ranks cards ex)"
proof -
  have "filter_mset (\<lambda>r. r \<notin> set ex) (mset (map rank_of cards)) \<noteq> {#}"
    using cards_left [OF assms(1), of cards] assms(2) by (metis add_cancel_left_left less_irrefl size_empty)
  then obtain r where "r \<in># filter_mset (\<lambda>r. r \<notin> set ex) (mset (map rank_of cards))" by (rule multiset_nonemptyE)
  then have "r \<notin> set ex" "0 < rank_total cards r" by (simp_all add: rank_total_def)
  then have "r \<in> set (other_ranks cards ex)" by (simp add: other_ranks(1))
  then show ?thesis by (rule length_pos_if_in_set)
qed

section \<open>Runs\<close>

text \<open>A run of five ends at each \<open>h\<close> the scan meets; the last one is the greatest.\<close>

definition run_ends :: "nat \<Rightarrow> nat \<Rightarrow> nat list \<Rightarrow> nat set" where
  "run_ends run a xs = {h \<in> set xs. {h - 4..h} \<subseteq> {a + 1 - run..a} \<union> set xs}"

lemma straight_scan_max:
  assumes "sorted_wrt (<) (a # xs)" and "1 \<le> run" and "run \<le> a"
  shows "straight_scan run best (a # xs) = (if run_ends run a xs = {} then best else Some (Max (run_ends run a xs)))"
  using assms
proof (induction xs arbitrary: a run best)
  case (Cons b xs)
  have srt: "sorted_wrt (<) (b # xs)" "a < b" "\<And>x. x \<in> set xs \<Longrightarrow> b < x" using Cons.prems(1) by auto
  show ?case
  proof (cases "b = a + 1")
    case True
    have sets: "{b + 1 - (run + 1)..b} = {a + 1 - run..a} \<union> {b}" using True Cons.prems(2,3) by auto
    have here: "{b - 4..b} \<subseteq> {a + 1 - run..a} \<union> set (b # xs) \<longleftrightarrow> 5 \<le> run + 1"
    proof
      assume "5 \<le> run + 1"
      then show "{b - 4..b} \<subseteq> {a + 1 - run..a} \<union> set (b # xs)" using True by auto
    next
      assume sub: "{b - 4..b} \<subseteq> {a + 1 - run..a} \<union> set (b # xs)"
      show "5 \<le> run + 1"
      proof (rule ccontr)
        assume "\<not> 5 \<le> run + 1"
        then have "a - run \<in> {b - 4..b}" "a - run < b" "a - run \<notin> {a + 1 - run..a}"
          using True Cons.prems(2,3) by auto
        with sub srt(3) show False by force
      qed
    qed
    have "run_ends run a (b # xs) = run_ends (run + 1) b xs \<union> (if 5 \<le> run + 1 then {b} else {})"
      unfolding run_ends_def sets using here by auto
    moreover have "Max (insert b (run_ends (run + 1) b xs)) = Max (run_ends (run + 1) b xs)"
      if ne: "run_ends (run + 1) b xs \<noteq> {}"
    proof -
      obtain h where "h \<in> run_ends (run + 1) b xs" using ne by blast
      then have "b < h" "finite (run_ends (run + 1) b xs)" using srt(3) by (auto simp: run_ends_def)
      moreover from this have "h \<le> Max (run_ends (run + 1) b xs)" using \<open>h \<in> _\<close> by simp
      ultimately show ?thesis using ne by (simp add: max_def)
    qed
    ultimately show ?thesis using True Cons.IH [OF srt(1), of "run + 1"] Cons.prems(2,3) by auto
  next
    case False
    then have gap: "a + 1 < b" using srt(2) by simp
    have "run_ends run a (b # xs) = run_ends 1 b xs"
    proof -
      have "{h - 4..h} \<subseteq> {a + 1 - run..a} \<union> set (b # xs) \<longleftrightarrow> {h - 4..h} \<subseteq> {b} \<union> set xs" if "h \<in> set (b # xs)" for h
      proof
        assume sub: "{h - 4..h} \<subseteq> {a + 1 - run..a} \<union> set (b # xs)"
        have "a + 1 \<notin> {a + 1 - run..a} \<union> set (b # xs)" using gap srt(3) by force
        with sub have "a + 1 \<notin> {h - 4..h}" by blast
        moreover have "b \<le> h" using that srt(3) [of h] by auto
        ultimately have "a + 1 < h - 4" using gap by simp
        then have "{h - 4..h} \<inter> {a + 1 - run..a} = {}" by auto
        with sub show "{h - 4..h} \<subseteq> {b} \<union> set xs" by auto
      qed auto
      moreover have "\<not> {b - 4..b} \<subseteq> {b} \<union> set xs"
      proof
        assume "{b - 4..b} \<subseteq> {b} \<union> set xs"
        then have "b - 1 \<in> {b} \<union> set xs" by (rule subsetD) auto
        then show False using gap srt(3) [of "b - 1"] by auto
      qed
      ultimately show ?thesis by (auto simp: run_ends_def)
    qed
    then show ?thesis using False gap Cons.IH [OF srt(1), of 1] by auto
  qed
qed (simp add: run_ends_def)

text \<open>The ranks a straight may use: those present, and one for the ace.\<close>

definition low_ranks :: "nat set \<Rightarrow> nat set" where
  "low_ranks R = (if 14 \<in> R then insert 1 R else R)"

definition straights :: "nat set \<Rightarrow> nat set" where
  "straights R = {h. 5 \<le> h \<and> {h - 4..h} \<subseteq> low_ranks R}"

lemma finite_straights: "finite R \<Longrightarrow> finite (straights R)"
proof (rule finite_subset [of _ "low_ranks R"])
  show "straights R \<subseteq> low_ranks R"
  proof
    fix h assume "h \<in> straights R"
    then have "{h - 4..h} \<subseteq> low_ranks R" by (simp add: straights_def)
    then show "h \<in> low_ranks R" by auto
  qed
qed (simp add: low_ranks_def)

lemma strict_remdups_adj: "sorted xs \<Longrightarrow> sorted_wrt (<) (remdups_adj xs)" for xs :: "'a::linorder list"
  by (induction xs rule: remdups_adj.induct) auto

lemma straight_high_max:
  assumes "\<forall>r \<in> set ranks. 2 \<le> r"
  shows "straight_high ranks = (if straights (set ranks) = {} then None else Some (Max (straights (set ranks))))"
proof -
  let ?xs = "(if 14 \<in> set ranks then 1 # remdups_adj (sort ranks) else remdups_adj (sort ranks))"
  have srt: "sorted_wrt (<) ?xs"
    using assms strict_remdups_adj [of "sort ranks"] by auto
  have set: "set ?xs = low_ranks (set ranks)" by (simp add: low_ranks_def)
  have pos: "1 \<le> x" if "x \<in> set ?xs" for x using assms that by (auto split: if_splits)
  show ?thesis
  proof (cases ?xs)
    case Nil
    then have "low_ranks (set ranks) = {}" using set by simp
    then have "straights (set ranks) = {}" by (auto simp: straights_def)
    with Nil show ?thesis by (simp add: straight_high_def Let_def)
  next
    case (Cons a xs)
    have "run_ends 1 a xs = straights (set ranks)"
    proof -
      have U: "low_ranks (set ranks) = insert a (set xs)" using set unfolding Cons by simp
      have gt: "a < x" if "x \<in> set xs" for x using srt that unfolding Cons by simp
      have ge: "1 \<le> a" using pos unfolding Cons by simp
      show ?thesis
      proof (intro set_eqI iffI)
        fix h
        assume "h \<in> run_ends 1 a xs"
        then have h: "h \<in> set xs" "{h - 4..h} \<subseteq> insert a (set xs)" by (auto simp: run_ends_def)
        then have "a \<le> h - 4" using gt [of "h - 4"] by (metis atLeastAtMost_iff diff_le_self insertE le_refl less_imp_le subsetD)
        with ge h U show "h \<in> straights (set ranks)" by (auto simp: straights_def)
      next
        fix h
        assume "h \<in> straights (set ranks)"
        then have h: "5 \<le> h" "{h - 4..h} \<subseteq> insert a (set xs)" by (auto simp: straights_def U)
        have "h - 4 \<in> insert a (set xs)" using subsetD [OF h(2), of "h - 4"] by simp
        moreover have "h \<in> insert a (set xs)" using subsetD [OF h(2), of h] by simp
        ultimately have "a \<le> h - 4" "h \<in> insert a (set xs)" using gt [of "h - 4"] by auto
        with h show "h \<in> run_ends 1 a xs" by (auto simp: run_ends_def)
      qed
    qed
    moreover have "sorted_wrt (<) (a # xs)" "1 \<le> a" using srt pos unfolding Cons by simp_all
    ultimately show ?thesis
      using straight_scan_max [of a xs 1 None] Cons by (simp add: straight_high_def Let_def)
  qed
qed

lemma run_ranks_straight:
  assumes "5 \<le> a" and "set (run_ranks a) \<subseteq> R"
  shows "a \<in> straights R"
proof -
  have "{a - 4..a} \<subseteq> {a, a - 1, a - 2, a - 3, a - 4}" by auto
  then show ?thesis using assms by (fastforce simp: straights_def run_ranks_def low_ranks_def split: if_splits)
qed

lemma straight_run_ranks:
  assumes "a \<in> straights R" and "\<forall>r \<in> R. 2 \<le> r"
  shows "5 \<le> a" "set (run_ranks a) \<subseteq> R" "distinct (run_ranks a)"
proof -
  show a: "5 \<le> a" using assms(1) by (simp add: straights_def)
  have sub: "r \<in> low_ranks R" if "a - 4 \<le> r" "r \<le> a" for r using assms(1) that by (auto simp: straights_def)
  then have "r \<in> R" if "a - 4 \<le> r" "r \<le> a" "r \<noteq> 1" for r using that unfolding low_ranks_def by (metis insertE)
  moreover have "14 \<in> R" if "a = 5"
  proof (rule ccontr)
    assume "14 \<notin> R"
    then have "1 \<in> R" using sub [of 1] that by (simp add: low_ranks_def)
    then show False using assms(2) by auto
  qed
  ultimately show "set (run_ranks a) \<subseteq> R" using a by (auto simp: run_ranks_def)
  show "distinct (run_ranks a)" using a by (auto simp: run_ranks_def)
qed

lemma length_run_ranks [simp]: "length (run_ranks a) = 5"
  by (simp add: run_ranks_def)

lemma straight_high_facts:
  assumes "\<forall>r \<in> set ranks. 2 \<le> r"
  shows "straight_high ranks = None \<Longrightarrow> straights (set ranks) = {}"
    "straight_high ranks = Some a \<Longrightarrow> a \<in> straights (set ranks) \<and> (\<forall>h \<in> straights (set ranks). h \<le> a)"
proof -
  have "Max S \<in> S" if "finite S" "h \<in> S" for h and S :: "nat set" using that Max_in by blast
  then show "straight_high ranks = None \<Longrightarrow> straights (set ranks) = {}"
    "straight_high ranks = Some a \<Longrightarrow> a \<in> straights (set ranks) \<and> (\<forall>h \<in> straights (set ranks). h \<le> a)"
    using straight_high_max [OF assms] finite_straights [of "set ranks"] by (auto split: if_splits)
qed

section \<open>Cards of the deck\<close>

definition deck_rank :: "card_rank \<Rightarrow> bool" where
  "deck_rank r = (case r of FaceNumber v \<Rightarrow> 2 \<le> v \<and> v \<le> 10 | _ \<Rightarrow> True)"

lemma set_poker_deck: "set poker_fresh_deck = {c. deck_rank (pc_rank c)}"
proof -
  have "c \<in> set poker_fresh_deck \<longleftrightarrow> deck_rank (pc_rank c)" for c
    by (cases c; cases "pc_rank c"; cases "pc_suit c")
      (auto simp: poker_fresh_deck_def CARD_SUITS_def deck_rank_def image_iff split: card_rank.splits)
  then show ?thesis by blast
qed

lemma distinct_poker_deck: "distinct poker_fresh_deck" "length poker_fresh_deck = 52"
proof -
  show "length poker_fresh_deck = 52" by (simp add: poker_fresh_deck_def CARD_SUITS_def)
  show "distinct poker_fresh_deck"
    by (auto simp: poker_fresh_deck_def CARD_SUITS_def distinct_map inj_on_def)
qed

definition dealt_cards :: "playing_card list \<Rightarrow> bool" where
  "dealt_cards cards \<longleftrightarrow> distinct cards \<and> set cards \<subseteq> set poker_fresh_deck"

lemma deck_rank_range: "deck_rank r \<Longrightarrow> 2 \<le> poker_rank_value r \<and> poker_rank_value r \<le> 14"
  by (cases r) (auto simp: deck_rank_def)

lemma deck_rank_inj: "deck_rank r \<Longrightarrow> deck_rank q \<Longrightarrow> poker_rank_value r = poker_rank_value q \<Longrightarrow> r = q"
  by (cases r; cases q) (auto simp: deck_rank_def)

lemma dealt_ranks: "dealt_cards cards \<Longrightarrow> c \<in> set cards \<Longrightarrow> 2 \<le> rank_of c \<and> rank_of c \<le> 14"
  using deck_rank_range by (auto simp: dealt_cards_def set_poker_deck)

lemma rank_total_filter: "rank_total cards r = length (filter (\<lambda>c. rank_of c = r) cards)"
  by (induction cards) (simp_all add: rank_total_def)

text \<open>Four suits: no rank is dealt five times.\<close>

lemma rank_total_le_4:
  assumes "dealt_cards cards"
  shows "rank_total cards r \<le> 4"
proof -
  let ?xs = "filter (\<lambda>c. rank_of c = r) cards"
  have "inj_on pc_suit (set ?xs)"
  proof (rule inj_onI)
    fix c d assume "c \<in> set ?xs" "d \<in> set ?xs" "pc_suit c = pc_suit d"
    then have "deck_rank (pc_rank c)" "deck_rank (pc_rank d)" "rank_of c = rank_of d" "pc_suit c = pc_suit d"
      using assms by (auto simp: dealt_cards_def set_poker_deck)
    moreover from this have "pc_rank c = pc_rank d" using deck_rank_inj by blast
    ultimately show "c = d" by (cases c; cases d) simp
  qed
  moreover have "distinct ?xs" using assms by (simp add: dealt_cards_def)
  ultimately have "length ?xs = card (pc_suit ` set ?xs)" using distinct_card [of ?xs] card_image [of pc_suit "set ?xs"] by metis
  also have "\<dots> \<le> card {Hearts, Diamonds, Clubs, Spades}"
  proof (rule card_mono)
    show "pc_suit ` set ?xs \<subseteq> {Hearts, Diamonds, Clubs, Spades}" using card_suit.exhaust by blast
  qed simp
  finally show ?thesis by (simp add: rank_total_filter)
qed

section \<open>Hands among the cards\<close>

lemma hand_with_ranks:
  "mset rs \<subseteq># mset (map f cs) \<Longrightarrow> \<exists>h. mset h \<subseteq># mset cs \<and> map f h = rs"
proof (induction rs arbitrary: cs)
  case (Cons r rs)
  then have "r \<in> set (map f cs)" using mset_subset_eqD [OF Cons.prems, of r] by simp
  then obtain c where c: "c \<in> set cs" "f c = r" by auto
  then have m: "mset cs = add_mset c (mset (remove1 c cs))" by simp
  have "mset (map f cs) = add_mset r (mset (map f (remove1 c cs)))"
    unfolding mset_map by (subst m) (use c(2) in simp)
  then have "mset rs \<subseteq># mset (map f (remove1 c cs))" using Cons.prems by simp
  from Cons.IH [OF this] obtain h where h: "mset h \<subseteq># mset (remove1 c cs)" "map f h = rs" by blast
  have "mset (c # h) \<subseteq># mset cs" unfolding m mset.simps mset_subset_eq_add_mset_cancel by (rule h(1))
  moreover have "map f (c # h) = r # rs" using c(2) h(2) by simp
  ultimately show ?case by (intro exI [of _ "c # h"] conjI)
qed simp

lemma five_with_ranks:
  assumes "length rs = 5" and "\<And>r. count (mset rs) r \<le> rank_total cards r"
  obtains h where "five_of cards h" "map rank_of h = rs"
proof -
  have "mset rs \<subseteq># mset (map rank_of cards)" by (rule mset_subset_eqI) (use assms(2) in \<open>simp add: rank_total_def\<close>)
  then obtain h where "mset h \<subseteq># mset cards" "map rank_of h = rs" using hand_with_ranks by blast
  with assms(1) that show ?thesis by (metis five_of_def length_map)
qed

lemma five_of_suit:
  assumes "mset rs \<subseteq># mset (suit_ranks suit cards)" and "length rs = 5"
  obtains h where "five_of cards h" "map rank_of h = rs" "suited h"
proof -
  from hand_with_ranks [of rs rank_of "filter (\<lambda>c. pc_suit c = suit) cards"] assms(1)
  obtain h where h: "mset h \<subseteq># mset (filter (\<lambda>c. pc_suit c = suit) cards)" "map rank_of h = rs"
    by (auto simp: suit_ranks_def)
  then have "mset h \<subseteq># mset cards" by (metis mset_filter multiset_filter_subset subset_mset.order_trans)
  moreover have "suited h" unfolding suited_def using mset_subset_eqD [OF h(1)] by auto
  ultimately show ?thesis using that h(2) assms(2) by (metis five_of_def length_map)
qed

lemma five_counts: "five_of cards h \<Longrightarrow> count (mset (map rank_of h)) r \<le> rank_total cards r"
  unfolding five_of_def rank_total_def mset_map by (meson image_mset_subseteq_mono mset_subset_eq_count)

lemma five_suited:
  assumes "five_of cards h" and "suited h"
  obtains suit where "mset (map rank_of h) \<subseteq># mset (suit_ranks suit cards)"
proof -
  obtain suit where "\<forall>c \<in> set h. pc_suit c = suit" using assms(2) by (auto simp: suited_def)
  then have "filter_mset (\<lambda>c. pc_suit c = suit) (mset h) = mset h" by (simp add: filter_mset_eq_conv)
  then have "mset h \<subseteq># mset (filter (\<lambda>c. pc_suit c = suit) cards)"
    using assms(1) multiset_filter_mono [of "mset h" "mset cards" "\<lambda>c. pc_suit c = suit"] by (simp add: five_of_def)
  then have "mset (map rank_of h) \<subseteq># mset (suit_ranks suit cards)"
    unfolding suit_ranks_def mset_map by (rule image_mset_subseteq_mono)
  then show ?thesis by (rule that)
qed

lemma run_rank_set:
  assumes "mset (run_ranks a) \<subseteq># mset rs" and "5 \<le> a"
  shows "a \<in> straights (set rs)"
  using run_ranks_straight [OF assms(2)] set_mset_mono [OF assms(1)] by simp

text \<open>The highest straight of any suit.\<close>

lemma best_fold:
  fixes f :: "'s \<Rightarrow> nat option"
  defines "g \<equiv> \<lambda>s best. case f s of None \<Rightarrow> best | Some a \<Rightarrow> Some (case best of None \<Rightarrow> a | Some b \<Rightarrow> max b a)"
  shows "fold g xs best = None \<Longrightarrow> best = None \<and> (\<forall>s \<in> set xs. f s = None)"
    "fold g xs best = Some a \<Longrightarrow> (best = Some a \<or> (\<exists>s \<in> set xs. f s = Some a)) \<and>
       (\<forall>b. best = Some b \<longrightarrow> b \<le> a) \<and> (\<forall>s \<in> set xs. \<forall>b. f s = Some b \<longrightarrow> b \<le> a)"
proof (induction xs arbitrary: best)
  case (Cons s xs)
  {
    case 1
    then have "g s best = None" "\<forall>s \<in> set xs. f s = None" using Cons(1) [of "g s best"] by simp_all
    then show ?case by (auto simp: g_def split: option.splits)
  next
    case 2
    then have "fold g xs (g s best) = Some a" by simp
    from Cons(2) [OF this] show ?case
      by (auto simp: g_def max_def split: option.splits if_splits)
  }
qed simp_all

lemma set_suit_ranks: "dealt_cards cards \<Longrightarrow> \<forall>r \<in> set (suit_ranks suit cards). 2 \<le> r"
  using dealt_ranks by (auto simp: suit_ranks_def)

lemma straight_flush_facts:
  assumes "dealt_cards cards"
  shows "straight_flush_high cards = None \<Longrightarrow> straights (set (suit_ranks suit cards)) = {}"
    "straight_flush_high cards = Some a \<Longrightarrow> (\<exists>suit. a \<in> straights (set (suit_ranks suit cards))) \<and>
       (\<forall>suit. \<forall>h \<in> straights (set (suit_ranks suit cards)). h \<le> a)"
proof -
  have all: "suit \<in> set CARD_SUITS" for suit by (cases suit) (simp_all add: CARD_SUITS_def)
  note sh = straight_high_facts [OF set_suit_ranks [OF assms]]
  show "straight_flush_high cards = None \<Longrightarrow> straights (set (suit_ranks suit cards)) = {}"
  proof -
    assume "straight_flush_high cards = None"
    from best_fold(1) [OF this [unfolded straight_flush_high_def]] all sh(1) show ?thesis by blast
  qed
  assume a: "straight_flush_high cards = Some a"
  from best_fold(2) [OF a [unfolded straight_flush_high_def]]
  have b: "\<exists>s. straight_high (suit_ranks s cards) = Some a"
    "\<And>s b. straight_high (suit_ranks s cards) = Some b \<Longrightarrow> b \<le> a" using all by auto
  have "h \<le> a" if h: "h \<in> straights (set (suit_ranks suit cards))" for h suit
  proof (cases "straight_high (suit_ranks suit cards)")
    case None
    with sh(1) h show ?thesis by blast
  next
    case (Some b)
    with sh(2) [OF Some] b(2) [OF Some] h show ?thesis by fastforce
  qed
  with b(1) sh(2) show "(\<exists>suit. a \<in> straights (set (suit_ranks suit cards))) \<and>
       (\<forall>suit. \<forall>h \<in> straights (set (suit_ranks suit cards)). h \<le> a)" by blast
qed

section \<open>Flushes\<close>

lemma suit_lengths: "length (suit_ranks s cards) + length (suit_ranks t cards) \<le> length cards" if "s \<noteq> t"
  using that by (induction cards) (auto simp: suit_ranks_def)

lemma flush_facts:
  assumes "length cards \<le> 9"
  shows "flush_ranks cards = None \<Longrightarrow> length (suit_ranks suit cards) < 5"
    "flush_ranks cards = Some rs \<Longrightarrow> \<exists>suit. rs = sort_down (suit_ranks suit cards) \<and> 5 \<le> length (suit_ranks suit cards) \<and>
       (\<forall>s. 5 \<le> length (suit_ranks s cards) \<longrightarrow> s = suit)"
proof -
  have all: "suit \<in> set CARD_SUITS" by (cases suit) (simp_all add: CARD_SUITS_def)
  show "flush_ranks cards = None \<Longrightarrow> length (suit_ranks suit cards) < 5"
    using all by (auto simp: flush_ranks_def filter_empty_conv split: list.splits)
  assume "flush_ranks cards = Some rs"
  then obtain s ss where "filter (\<lambda>suit. 5 \<le> length (suit_ranks suit cards)) CARD_SUITS = s # ss"
    and rs: "rs = sort_down (suit_ranks s cards)" by (auto simp: flush_ranks_def split: list.splits)
  then have "s \<in> set (filter (\<lambda>suit. 5 \<le> length (suit_ranks suit cards)) CARD_SUITS)" by simp
  then have five: "5 \<le> length (suit_ranks s cards)" by simp
  have "t = s" if "5 \<le> length (suit_ranks t cards)" for t
    using suit_lengths [of t s cards] that five assms by linarith
  with rs five show "\<exists>suit. rs = sort_down (suit_ranks suit cards) \<and> 5 \<le> length (suit_ranks suit cards) \<and>
       (\<forall>s. 5 \<le> length (suit_ranks s cards) \<longrightarrow> s = suit)" by blast
qed

section \<open>The stages of the evaluation\<close>

lemma find_greatest:
  fixes xs :: "nat list"
  assumes "sorted_wrt (\<ge>) xs" and "find P xs = Some x"
  shows "x \<in> set xs \<and> P x \<and> (\<forall>y \<in> set xs. P y \<longrightarrow> y \<le> x)"
  using assms by (induction xs) (auto split: if_splits)

abbreviation hand_val :: "playing_card list \<Rightarrow> hand_value" where
  "hand_val cards \<equiv> eh_value (evaluate_best_hand cards)"

text \<open>Three of a rank beside two of another, as the code looks for them.\<close>

definition full_pair :: "playing_card list \<Rightarrow> (nat \<times> nat) option" where
  "full_pair cards =
     (case ranks_with_count_at_least (rank_counts cards) 3 of
        [] \<Rightarrow> None
      | trip # _ \<Rightarrow> map_option (\<lambda>pair. (trip, pair))
          (case find (\<lambda>r. r \<noteq> trip) (ranks_with_count_at_least (rank_counts cards) 2) of
             Some pair \<Rightarrow> Some pair
           | None \<Rightarrow> find (\<lambda>r. r \<noteq> trip) (ranks_with_count_at_least (rank_counts cards) 3)))"

lemma counted_Nil: "0 < k \<Longrightarrow> ranks_with_count_at_least (rank_counts cards) k = [] \<longleftrightarrow> (\<forall>r. rank_total cards r < k)"
  using counted_ranks(1) [of k cards] by (auto simp: not_le set_empty [symmetric] simp del: set_empty)

lemma counted_less: "0 < j \<Longrightarrow> j \<le> k \<Longrightarrow> ranks_with_count_at_least (rank_counts cards) j = [] \<Longrightarrow>
    ranks_with_count_at_least (rank_counts cards) k = []"
  by (simp add: counted_Nil) (meson less_le_trans)

lemma counted_head:
  assumes "0 < k" and "ranks_with_count_at_least (rank_counts cards) k = a # as"
  shows "k \<le> rank_total cards a" "\<And>r. k \<le> rank_total cards r \<Longrightarrow> r \<le> a"
  using counted_ranks(1,2) [OF assms(1), of cards] assms(2) by (auto simp: set_eq_iff)

lemma full_pair_facts:
  shows "full_pair cards = None \<Longrightarrow> 3 \<le> rank_total cards a \<Longrightarrow> 2 \<le> rank_total cards b \<Longrightarrow> a = b"
    "full_pair cards = Some (t, p) \<Longrightarrow> 3 \<le> rank_total cards t \<and> 2 \<le> rank_total cards p \<and> p \<noteq> t \<and>
       (\<forall>a. 3 \<le> rank_total cards a \<longrightarrow> a \<le> t) \<and> (\<forall>b. 2 \<le> rank_total cards b \<longrightarrow> b \<noteq> t \<longrightarrow> b \<le> p)"
proof -
  let ?trips = "ranks_with_count_at_least (rank_counts cards) 3"
    and ?pairs = "ranks_with_count_at_least (rank_counts cards) 2"
  note pairs = counted_ranks(1,2) [of 2 cards, simplified] and trips = counted_ranks(1) [of 3 cards, simplified]
  {
    assume none: "full_pair cards = None" and a: "3 \<le> rank_total cards a" and b: "2 \<le> rank_total cards b"
    obtain t ts where t: "?trips = t # ts" using a trips by (cases ?trips) auto
    with none have "find (\<lambda>r. r \<noteq> t) ?pairs = None" by (auto simp: full_pair_def split: option.splits)
    then have "r = t" if "2 \<le> rank_total cards r" for r using that pairs(1) by (auto simp: find_None_iff)
    from this [of a] this [of b] a b show "a = b" by simp
  next
    assume some: "full_pair cards = Some (t, p)"
    then obtain ts where t: "?trips = t # ts" by (auto simp: full_pair_def split: list.splits)
    note head = counted_head [of 3, OF _ t]
    show "3 \<le> rank_total cards t \<and> 2 \<le> rank_total cards p \<and> p \<noteq> t \<and>
       (\<forall>a. 3 \<le> rank_total cards a \<longrightarrow> a \<le> t) \<and> (\<forall>b. 2 \<le> rank_total cards b \<longrightarrow> b \<noteq> t \<longrightarrow> b \<le> p)"
    proof (cases "find (\<lambda>r. r \<noteq> t) ?pairs")
      case None
      then have "r = t" if "2 \<le> rank_total cards r" for r using that pairs(1) by (auto simp: find_None_iff)
      moreover obtain q where "find (\<lambda>r. r \<noteq> t) ?trips = Some q" using some t None by (auto simp: full_pair_def)
      then have "q \<noteq> t" "3 \<le> rank_total cards q" using trips by (auto simp: find_Some_iff set_eq_iff)
      ultimately show ?thesis by fastforce
    next
      case (Some q)
      then have "q = p" using some t by (auto simp: full_pair_def)
      with find_greatest [OF pairs(2) Some] pairs(1) head show ?thesis by auto
    qed
  }
qed

lemma eval_stages:
  obtains
    (straight_flush) a where "straight_flush_high cards = Some a" "hand_val cards = HandValue 8 [a, 0, 0, 0, 0]"
  | (four) a as where "straight_flush_high cards = None" "ranks_with_count_at_least (rank_counts cards) 4 = a # as"
      "hand_val cards = HandValue 7 [a, highest_excluding (rank_counts cards) [a] 1 ! 0, 0, 0, 0]"
  | (full_house) a b where "straight_flush_high cards = None" "ranks_with_count_at_least (rank_counts cards) 4 = []"
      "full_pair cards = Some (a, b)" "hand_val cards = HandValue 6 [a, b, 0, 0, 0]"
  | (flush) rs where "straight_flush_high cards = None" "ranks_with_count_at_least (rank_counts cards) 4 = []"
      "full_pair cards = None" "flush_ranks cards = Some rs" "hand_val cards = eh_value (evaluated 5 (take 5 rs) [])"
  | (straight) a where "straight_flush_high cards = None" "ranks_with_count_at_least (rank_counts cards) 4 = []"
      "full_pair cards = None" "flush_ranks cards = None" "straight_high (map fst (rank_counts cards)) = Some a"
      "hand_val cards = HandValue 4 [a, 0, 0, 0, 0]"
  | (three) a as where "straight_flush_high cards = None" "ranks_with_count_at_least (rank_counts cards) 4 = []"
      "full_pair cards = None" "flush_ranks cards = None" "straight_high (map fst (rank_counts cards)) = None"
      "ranks_with_count_at_least (rank_counts cards) 3 = a # as"
      "hand_val cards = HandValue 3 [a, highest_excluding (rank_counts cards) [a] 2 ! 0,
         highest_excluding (rank_counts cards) [a] 2 ! 1, 0, 0]"
  | (two_pair) a b as where "straight_flush_high cards = None" "ranks_with_count_at_least (rank_counts cards) 3 = []"
      "flush_ranks cards = None" "straight_high (map fst (rank_counts cards)) = None"
      "ranks_with_count_at_least (rank_counts cards) 2 = a # b # as"
      "hand_val cards = HandValue 2 [a, b, highest_excluding (rank_counts cards) [a, b] 1 ! 0, 0, 0]"
  | (pair) a where "straight_flush_high cards = None" "ranks_with_count_at_least (rank_counts cards) 3 = []"
      "flush_ranks cards = None" "straight_high (map fst (rank_counts cards)) = None"
      "ranks_with_count_at_least (rank_counts cards) 2 = [a]"
      "hand_val cards = HandValue 1 [a, highest_excluding (rank_counts cards) [a] 3 ! 0,
         highest_excluding (rank_counts cards) [a] 3 ! 1, highest_excluding (rank_counts cards) [a] 3 ! 2, 0]"
  | (high_card) "straight_flush_high cards = None" "ranks_with_count_at_least (rank_counts cards) 2 = []"
      "flush_ranks cards = None" "straight_high (map fst (rank_counts cards)) = None"
      "hand_val cards = eh_value (evaluated 0 (highest_excluding (rank_counts cards) [] 5) [])"
proof -
  let ?pairs = "ranks_with_count_at_least (rank_counts cards) 2"
  note e = evaluate_best_hand_def [of cards, unfolded Let_def, folded full_pair_def]
  show ?thesis
  proof (cases "straight_flush_high cards")
    case (Some a)
    with that(1) show ?thesis by (simp add: e evaluated_def numeral_eq_Suc)
  next
    case sf: None
    show ?thesis
    proof (cases "ranks_with_count_at_least (rank_counts cards) 4")
      case (Cons a as)
      with that(2) sf show ?thesis by (simp add: e evaluated_def numeral_eq_Suc)
    next
      case quads: Nil
      show ?thesis
      proof (cases "full_pair cards")
        case (Some ab)
        with that(3) [of "fst ab" "snd ab"] sf quads show ?thesis by (cases ab) (simp add: e evaluated_def numeral_eq_Suc)
      next
        case full: None
        show ?thesis
        proof (cases "flush_ranks cards")
          case (Some rs)
          with that(4) sf quads full show ?thesis by (simp add: e evaluated_def)
        next
          case flush: None
          show ?thesis
          proof (cases "straight_high (map fst (rank_counts cards))")
            case (Some a)
            with that(5) sf quads full flush show ?thesis by (simp add: e evaluated_def numeral_eq_Suc)
          next
            case straight: None
            show ?thesis
            proof (cases "ranks_with_count_at_least (rank_counts cards) 3")
              case (Cons a as)
              with that(6) sf quads full flush straight show ?thesis by (simp add: e evaluated_def numeral_eq_Suc)
            next
              case trips: Nil
              consider "?pairs = []" | a where "?pairs = [a]" | a b as where "?pairs = a # b # as"
                by (metis neq_Nil_conv)
              then show ?thesis
              proof cases
                case 1
                with that(9) sf quads full flush straight trips show ?thesis by (simp add: e evaluated_def)
              next
                case 2
                with that(8) sf quads full flush straight trips show ?thesis by (simp add: e evaluated_def numeral_eq_Suc)
              next
                case 3
                with that(7) sf quads full flush straight trips show ?thesis by (simp add: e evaluated_def numeral_eq_Suc)
              qed
            qed
          qed
        qed
      qed
    qed
  qed
qed

section \<open>The best value\<close>

inductive_cases shows_8: "shows_value h (HandValue 8 rs)"
inductive_cases shows_7: "shows_value h (HandValue 7 rs)"
inductive_cases shows_6: "shows_value h (HandValue 6 rs)"
inductive_cases shows_5: "shows_value h (HandValue 5 rs)"
inductive_cases shows_4: "shows_value h (HandValue 4 rs)"
inductive_cases shows_3: "shows_value h (HandValue 3 rs)"
inductive_cases shows_2: "shows_value h (HandValue 2 rs)"
inductive_cases shows_1: "shows_value h (HandValue (Suc 0) rs)"
inductive_cases shows_0: "shows_value h (HandValue 0 rs)"

definition beats_all :: "playing_card list \<Rightarrow> hand_value \<Rightarrow> bool" where
  "beats_all cards v \<longleftrightarrow> (\<forall>h w. five_of cards h \<longrightarrow> shows_value h w \<longrightarrow> w \<le> v)"

definition no_value :: "playing_card list \<Rightarrow> nat \<Rightarrow> bool" where
  "no_value cards k \<longleftrightarrow> (\<forall>h rs. five_of cards h \<longrightarrow> \<not> shows_value h (HandValue k rs))"

lemma beats_allI:
  assumes "\<And>k. c < k \<Longrightarrow> k \<le> 8 \<Longrightarrow> no_value cards k"
    and "\<And>h ss. five_of cards h \<Longrightarrow> shows_value h (HandValue c ss) \<Longrightarrow> ss \<le> rs"
  shows "beats_all cards (HandValue c rs)"
  unfolding beats_all_def
proof (intro allI impI)
  fix h w assume h: "five_of cards h" and w: "shows_value h w"
  obtain k ss where v: "w = HandValue k ss" by (cases w)
  have "k \<le> 8" using w unfolding v by cases simp_all
  then have "\<not> c < k" using assms(1) [of k] h w by (auto simp: v no_value_def)
  then show "w \<le> HandValue c rs" using assms(2) [OF h] w v by (cases "k = c") (auto simp: less_eq_hand_value_def)
qed

lemma pattern_counts: "five_of cards h \<Longrightarrow> map rank_of h = rs \<Longrightarrow> count (mset rs) r \<le> rank_total cards r"
  using five_counts by blast

lemma no_8: "dealt_cards cards \<Longrightarrow> straight_flush_high cards = None \<Longrightarrow> no_value cards 8"
  unfolding no_value_def using straight_flush_facts(1) run_rank_set by (fastforce elim!: shows_8 five_suited)

text \<open>What a shown value says of the counts.\<close>

lemma shown_7: "five_of cards h \<Longrightarrow> shows_value h (HandValue 7 rs) \<Longrightarrow>
    \<exists>a b. rs = [a, b, 0, 0, 0] \<and> (\<forall>r. count (mset [a, a, a, a, b]) r \<le> rank_total cards r)"
  by (erule shows_7, intro exI conjI allI, assumption, rule pattern_counts, assumption, assumption)

lemma shown_6: "five_of cards h \<Longrightarrow> shows_value h (HandValue 6 rs) \<Longrightarrow>
    \<exists>a b. rs = [a, b, 0, 0, 0] \<and> (\<forall>r. count (mset [a, a, a, b, b]) r \<le> rank_total cards r)"
  by (erule shows_6, intro exI conjI allI, assumption, rule pattern_counts, assumption, assumption)

lemma shown_3: "five_of cards h \<Longrightarrow> shows_value h (HandValue 3 rs) \<Longrightarrow>
    \<exists>a b c. rs = [a, b, c, 0, 0] \<and> c \<le> b \<and> (\<forall>r. count (mset [a, a, a, b, c]) r \<le> rank_total cards r)"
  by (erule shows_3, intro exI conjI allI, assumption, assumption, rule pattern_counts, assumption, assumption)

lemma shown_2: "five_of cards h \<Longrightarrow> shows_value h (HandValue 2 rs) \<Longrightarrow>
    \<exists>a b c. rs = [a, b, c, 0, 0] \<and> b \<le> a \<and> (\<forall>r. count (mset [a, a, b, b, c]) r \<le> rank_total cards r)"
  by (erule shows_2, intro exI conjI allI, assumption, assumption, rule pattern_counts, assumption, assumption)

lemma shown_1: "five_of cards h \<Longrightarrow> shows_value h (HandValue 1 rs) \<Longrightarrow>
    \<exists>a b c d. rs = [a, b, c, d, 0] \<and> d \<le> c \<and> c \<le> b \<and> (\<forall>r. count (mset [a, a, b, c, d]) r \<le> rank_total cards r)"
  unfolding One_nat_def by (erule shows_1, intro exI conjI allI, assumption, assumption, assumption, rule pattern_counts, assumption, assumption)

lemma no_7:
  assumes "ranks_with_count_at_least (rank_counts cards) 4 = []"
  shows "no_value cards 7"
  unfolding no_value_def
proof (intro allI impI notI)
  fix h rs assume "five_of cards h" "shows_value h (HandValue 7 rs)"
  from shown_7 [OF this] obtain a b where "count (mset [a, a, a, a, b]) a \<le> rank_total cards a" by blast
  moreover have "rank_total cards a < 4" using assms by (simp add: counted_Nil)
  ultimately show False by (simp split: if_splits)
qed

lemma no_6:
  assumes "dealt_cards cards" and "full_pair cards = None"
  shows "no_value cards 6"
  unfolding no_value_def
proof (intro allI impI notI)
  fix h rs assume "five_of cards h" "shows_value h (HandValue 6 rs)"
  from shown_6 [OF this] obtain a b where n: "\<forall>r. count (mset [a, a, a, b, b]) r \<le> rank_total cards r" by blast
  have "3 \<le> rank_total cards a" "2 \<le> rank_total cards b"
    using spec [OF n, of a] spec [OF n, of b] by (simp_all split: if_splits)
  then have "a = b" by (rule full_pair_facts(1) [OF assms(2)])
  then show False using spec [OF n, of a] rank_total_le_4 [OF assms(1), of a] by simp
qed

lemma no_5: "length cards \<le> 9 \<Longrightarrow> flush_ranks cards = None \<Longrightarrow> no_value cards 5"
  unfolding no_value_def
proof (intro allI impI notI)
  fix h rs assume c: "length cards \<le> 9" "flush_ranks cards = None" and h: "five_of cards h" "shows_value h (HandValue 5 rs)"
  then obtain suit where "mset (map rank_of h) \<subseteq># mset (suit_ranks suit cards)" by (auto elim!: shows_5 elim: five_suited)
  from size_mset_mono [OF this] have "5 \<le> length (suit_ranks suit cards)" using h(1) by (simp add: five_of_def)
  then show False using flush_facts(1) [OF c, of suit] by simp
qed

lemma rank_key_facts:
  assumes "dealt_cards cards"
  shows "\<forall>r \<in> set (map fst (rank_counts cards)). 2 \<le> r" "set (map rank_of cards) = set (map fst (rank_counts cards))"
proof -
  show "set (map rank_of cards) = set (map fst (rank_counts cards))"
    unfolding rank_keys rank_total_def by (auto simp: set_eq_iff)
  then show "\<forall>r \<in> set (map fst (rank_counts cards)). 2 \<le> r" using dealt_ranks [OF assms] by force
qed

lemma five_ranks: "five_of cards h \<Longrightarrow> set (map rank_of h) \<subseteq> set (map rank_of cards)"
  unfolding five_of_def using set_mset_mono by fastforce

lemma shown_straight:
  assumes "dealt_cards cards" and "five_of cards h" and "map rank_of h = run_ranks a" and "5 \<le> a"
  shows "a \<in> straights (set (map fst (rank_counts cards)))"
  using run_ranks_straight [OF assms(4)] five_ranks [OF assms(2)] assms(3) rank_key_facts(2) [OF assms(1)] by simp

lemma no_4: "dealt_cards cards \<Longrightarrow> straight_high (map fst (rank_counts cards)) = None \<Longrightarrow> no_value cards 4"
  unfolding no_value_def
  using straight_high_facts(1) [OF rank_key_facts(1)] shown_straight by (fastforce elim!: shows_4)

lemma no_3:
  assumes "ranks_with_count_at_least (rank_counts cards) 3 = []"
  shows "no_value cards 3"
  unfolding no_value_def
proof (intro allI impI notI)
  fix h rs assume "five_of cards h" "shows_value h (HandValue 3 rs)"
  from shown_3 [OF this] obtain a b c where "count (mset [a, a, a, b, c]) a \<le> rank_total cards a" by blast
  moreover have "rank_total cards a < 3" using assms by (simp add: counted_Nil)
  ultimately show False by (simp split: if_splits)
qed

lemma no_2:
  assumes "ranks_with_count_at_least (rank_counts cards) 3 = []"
    and "length (ranks_with_count_at_least (rank_counts cards) 2) < 2"
  shows "no_value cards 2"
  unfolding no_value_def
proof (intro allI impI notI)
  fix h rs assume "five_of cards h" "shows_value h (HandValue 2 rs)"
  from shown_2 [OF this] obtain a b c where n: "\<forall>r. count (mset [a, a, b, b, c]) r \<le> rank_total cards r" by blast
  have "rank_total cards a < 3" using assms by (simp add: counted_Nil)
  then have "a \<noteq> b" using spec [OF n, of a] by auto
  moreover have "{a, b} \<subseteq> set (ranks_with_count_at_least (rank_counts cards) 2)"
    using spec [OF n, of a] spec [OF n, of b] by (auto simp: counted_ranks(1) split: if_splits)
  from card_mono [OF finite_set this] have "card {a, b} \<le> length (ranks_with_count_at_least (rank_counts cards) 2)"
    using card_length [of "ranks_with_count_at_least (rank_counts cards) 2"] by simp
  ultimately show False using assms(2) by simp
qed

lemma no_1:
  assumes "ranks_with_count_at_least (rank_counts cards) 2 = []"
  shows "no_value cards 1"
  unfolding no_value_def
proof (intro allI impI notI)
  fix h rs assume "five_of cards h" "shows_value h (HandValue 1 rs)"
  from shown_1 [OF this] obtain a b c d where "count (mset [a, a, b, c, d]) a \<le> rank_total cards a" by blast
  moreover have "rank_total cards a < 2" using assms by (simp add: counted_Nil)
  ultimately show False by (simp split: if_splits)
qed

text \<open>Each stage: five cards show the value, and none shows a better one.\<close>

definition shown_best :: "playing_card list \<Rightarrow> hand_value \<Rightarrow> bool" where
  "shown_best cards v \<longleftrightarrow> (\<exists>h. five_of cards h \<and> shows_value h v) \<and> beats_all cards v"

lemma shown_bestI:
  assumes "length rs = 5" and "\<And>r. count (mset rs) r \<le> rank_total cards r"
    and "\<And>h. map rank_of h = rs \<Longrightarrow> shows_value h v" and "beats_all cards v"
  shows "shown_best cards v"
  using five_with_ranks [OF assms(1,2)] assms(3,4) unfolding shown_best_def by metis

lemma kicker_at:
  assumes "k \<le> length (other_ranks cards ex)" and "i < k"
  shows "highest_excluding (rank_counts cards) ex k ! i = other_ranks cards ex ! i"
    "0 < rank_total cards (other_ranks cards ex ! i)" "other_ranks cards ex ! i \<notin> set ex"
proof -
  show "highest_excluding (rank_counts cards) ex k ! i = other_ranks cards ex ! i"
    using assms by (simp add: highest_excluding_take)
  have "other_ranks cards ex ! i \<in> set (other_ranks cards ex)" using assms by simp
  then show "0 < rank_total cards (other_ranks cards ex ! i)" "other_ranks cards ex ! i \<notin> set ex"
    by (simp_all add: other_ranks(1))
qed

lemma kicker_order:
  assumes "i < j" and "j < length (other_ranks cards ex)"
  shows "other_ranks cards ex ! j < other_ranks cards ex ! i"
proof -
  have "other_ranks cards ex ! j \<le> other_ranks cards ex ! i"
    using other_ranks(2) [of cards ex] assms by (simp add: sorted_wrt_iff_nth_less)
  moreover have "other_ranks cards ex ! j \<noteq> other_ranks cards ex ! i"
    using other_ranks(3) [of cards ex] assms by (simp add: distinct_conv_nth)
  ultimately show ?thesis by simp
qed

lemma kicker_bound: "sorted_wrt (\<ge>) ks \<Longrightarrow> distinct ks \<Longrightarrow> set ks \<subseteq> {r. 0 < rank_total cards r} - set ex \<Longrightarrow>
    length ks = k \<Longrightarrow> ks \<le> highest_excluding (rank_counts cards) ex k"
  using kickers_greatest(2) by metis

lemma highest_list: "length (highest_excluding counts ex k) = k"
  by (simp add: highest_excluding_def Let_def)

lemma less_cases_8: "c < k \<Longrightarrow> k \<le> 8 \<Longrightarrow> (c < 1 \<and> k = 1) \<or> (c < 2 \<and> k = 2) \<or> (c < 3 \<and> k = 3) \<or> (c < 4 \<and> k = 4) \<or>
    (c < 5 \<and> k = 5) \<or> (c < 6 \<and> k = 6) \<or> (c < 7 \<and> k = 7) \<or> (c < 8 \<and> k = 8)" for c k :: nat
  by arith

definition evaluable :: "playing_card list \<Rightarrow> bool" where
  "evaluable cards \<longleftrightarrow> dealt_cards cards \<and> 5 \<le> length cards \<and> length cards \<le> 9"

lemma stage_8:
  assumes ok: "evaluable cards" and a: "straight_flush_high cards = Some a"
  shows "shown_best cards (HandValue 8 [a, 0, 0, 0, 0])"
proof -
  have dealt: "dealt_cards cards" using ok by (simp add: evaluable_def)
  note sf = straight_flush_facts(2) [OF dealt a]
  then obtain suit where s: "a \<in> straights (set (suit_ranks suit cards))" by blast
  note run = straight_run_ranks [OF s set_suit_ranks [OF dealt]]
  have "mset (run_ranks a) \<subseteq># mset (suit_ranks suit cards)" by (rule mset_distinct_subset [OF run(3,2)])
  then obtain h where "five_of cards h" "map rank_of h = run_ranks a" "suited h"
    by (rule five_of_suit) simp
  moreover have "beats_all cards (HandValue 8 [a, 0, 0, 0, 0])"
  proof (rule beats_allI)
    fix h ss assume h: "five_of cards h" "shows_value h (HandValue 8 ss)"
    then obtain b where b: "ss = [b, 0, 0, 0, 0]" "suited h" "map rank_of h = run_ranks b" "5 \<le> b" by (auto elim!: shows_8)
    obtain suit where "mset (map rank_of h) \<subseteq># mset (suit_ranks suit cards)" by (rule five_suited [OF h(1) b(2)])
    with b have "b \<in> straights (set (suit_ranks suit cards))" by (metis run_rank_set)
    with sf have "b \<le> a" by blast
    then show "ss \<le> [a, 0, 0, 0, 0]" using b(1) by auto
  qed simp
  ultimately show ?thesis unfolding shown_best_def using run(1) shows_value.straight_flush by blast
qed

lemma stage_7:
  assumes ok: "evaluable cards" and sf: "straight_flush_high cards = None" and q: "ranks_with_count_at_least (rank_counts cards) 4 = a # as"
  shows "shown_best cards (HandValue 7 [a, highest_excluding (rank_counts cards) [a] 1 ! 0, 0, 0, 0])"
proof -
  have dealt: "dealt_cards cards" and size: "5 \<le> length cards" using ok by (simp_all add: evaluable_def)
  note head = counted_head [OF _ q, simplified]
  have a: "rank_total cards a = 4" using head(1) rank_total_le_4 [OF dealt, of a] by simp
  have len: "1 \<le> length (other_ranks cards [a])" using other_ranks_left [of "[a]" cards] a size by (simp add: Suc_le_eq)
  note k = kicker_at [OF len, of 0, simplified]
  show ?thesis
  proof (rule shown_bestI [of "[a, a, a, a, other_ranks cards [a] ! 0]"])
    show "count (mset [a, a, a, a, other_ranks cards [a] ! 0]) r \<le> rank_total cards r" for r
      using a k by (auto simp: Suc_le_eq)
    show "beats_all cards (HandValue 7 [a, highest_excluding (rank_counts cards) [a] 1 ! 0, 0, 0, 0])"
    proof (rule beats_allI)
      fix h ss assume h: "five_of cards h" "shows_value h (HandValue 7 ss)"
      from shown_7 [OF this] obtain b c where b: "ss = [b, c, 0, 0, 0]" "\<forall>r. count (mset [b, b, b, b, c]) r \<le> rank_total cards r" by blast
      have le: "b \<le> a" using head(2) [of b] spec [OF b(2), of b] by (auto split: if_splits)
      have "c \<le> other_ranks cards [a] ! 0" if "b = a"
      proof -
        have "c \<noteq> a" using spec [OF b(2), of a] that a by auto
        then have "[c] \<le> highest_excluding (rank_counts cards) [a] 1"
          using spec [OF b(2), of c] that by (intro kicker_bound) auto
        then show ?thesis using len by (cases "other_ranks cards [a]") (auto simp: highest_excluding_take)
      qed
      then show "ss \<le> [a, highest_excluding (rank_counts cards) [a] 1 ! 0, 0, 0, 0]" using le b(1) k(1) by auto
    qed (use no_8 [OF dealt sf] in \<open>auto dest: less_cases_8\<close>)
  qed (use k(1) shows_value.four in \<open>auto simp: simp del: shows_value.simps\<close>)
qed

lemma stage_6:
  assumes ok: "evaluable cards" and sf: "straight_flush_high cards = None"
    and q: "ranks_with_count_at_least (rank_counts cards) 4 = []" and f: "full_pair cards = Some (a, b)"
  shows "shown_best cards (HandValue 6 [a, b, 0, 0, 0])"
proof (rule shown_bestI [of "[a, a, a, b, b]"])
  have dealt: "dealt_cards cards" using ok by (simp add: evaluable_def)
  note f = full_pair_facts(2) [OF f]
  show "count (mset [a, a, a, b, b]) r \<le> rank_total cards r" for r using f by auto
  show "beats_all cards (HandValue 6 [a, b, 0, 0, 0])"
  proof (rule beats_allI)
    fix h ss assume "five_of cards h" "shows_value h (HandValue 6 ss)"
    from shown_6 [OF this] obtain c d where ss: "ss = [c, d, 0, 0, 0]"
      and n: "\<forall>r. count (mset [c, c, c, d, d]) r \<le> rank_total cards r" by blast
    have "c \<noteq> d" using spec [OF n, of c] rank_total_le_4 [OF dealt, of c] by auto
    then have "3 \<le> rank_total cards c" "2 \<le> rank_total cards d" using spec [OF n, of c] spec [OF n, of d] by simp_all
    then have "c \<le> a" "c = a \<Longrightarrow> d \<le> b" using f \<open>c \<noteq> d\<close> by blast+
    then show "ss \<le> [a, b, 0, 0, 0]" unfolding ss by auto
  qed (use no_8 [OF dealt sf] no_7 [OF q] in \<open>auto dest: less_cases_8\<close>)
qed (use shows_value.full_house in auto)

lemma stage_5:
  assumes ok: "evaluable cards" and sf: "straight_flush_high cards = None"
    and q: "ranks_with_count_at_least (rank_counts cards) 4 = []" and f: "full_pair cards = None"
    and fl: "flush_ranks cards = Some rs"
  shows "shown_best cards (eh_value (evaluated 5 (take 5 rs) []))"
proof -
  have dealt: "dealt_cards cards" and le: "length cards \<le> 9" using ok by (simp_all add: evaluable_def)
  obtain suit where s: "rs = sort_down (suit_ranks suit cards)" "5 \<le> length (suit_ranks suit cards)"
    "\<forall>s. 5 \<le> length (suit_ranks s cards) \<longrightarrow> s = suit" using flush_facts(2) [OF le fl] by blast
  have v: "eh_value (evaluated 5 (take 5 rs) []) = HandValue 5 (take 5 rs)" "length (take 5 rs) = 5"
    using s(1,2) by (simp_all add: evaluated_def)
  have srt: "sorted_wrt (\<ge>) rs" unfolding s(1) by (rule sorted_sort_down)
  have "mset (take 5 rs) \<subseteq># mset rs" by (metis append_take_drop_id mset_append mset_subset_eq_add_left)
  then have "mset (take 5 rs) \<subseteq># mset (suit_ranks suit cards)" using s(1) by simp
  then obtain h where h: "five_of cards h" "map rank_of h = take 5 rs" "suited h" by (rule five_of_suit [OF _ v(2)])
  moreover have "shows_value h (HandValue 5 (map rank_of h))"
  proof (rule shows_value.flush [OF h(3)])
    show "sorted_wrt (\<ge>) (map rank_of h)" unfolding h(2) using srt by (rule sorted_wrt_take)
    show "length h = 5" using h(1) by (simp add: five_of_def)
  qed
  moreover have "beats_all cards (HandValue 5 (take 5 rs))"
  proof (rule beats_allI)
    fix h ss assume h: "five_of cards h" "shows_value h (HandValue 5 ss)"
    then have ss: "ss = map rank_of h" "suited h" "sorted_wrt (\<ge>) (map rank_of h)" "length h = 5" by (auto elim!: shows_5)
    obtain t where t: "mset (map rank_of h) \<subseteq># mset (suit_ranks t cards)" by (rule five_suited [OF h(1) ss(2)])
    have "5 \<le> length (suit_ranks t cards)" using size_mset_mono [OF t] ss(4) by simp
    then have "t = suit" using s(3) by blast
    then have "mset (map rank_of h) \<subseteq># mset rs" using t s(1) by simp
    from top_greatest [OF ss(3) srt this] show "ss \<le> take 5 rs" using ss(1,4) by simp
  qed (use no_8 [OF dealt sf] no_7 [OF q] no_6 [OF dealt f] in \<open>auto dest: less_cases_8\<close>)
  ultimately show ?thesis unfolding shown_best_def v(1) by metis
qed

lemma stage_4:
  assumes ok: "evaluable cards" and sf: "straight_flush_high cards = None"
    and q: "ranks_with_count_at_least (rank_counts cards) 4 = []" and f: "full_pair cards = None"
    and fl: "flush_ranks cards = None" and st: "straight_high (map fst (rank_counts cards)) = Some a"
  shows "shown_best cards (HandValue 4 [a, 0, 0, 0, 0])"
proof -
  have dealt: "dealt_cards cards" and le: "length cards \<le> 9" using ok by (simp_all add: evaluable_def)
  note keys = rank_key_facts [OF dealt]
  note sh = straight_high_facts(2) [OF keys(1) st]
  note run = straight_run_ranks [OF conjunct1 [OF sh] keys(1)]
  have "mset (run_ranks a) \<subseteq># mset (map rank_of cards)"
    by (rule mset_distinct_subset [OF run(3)]) (use run(2) keys(2) in simp)
  then obtain h where "mset h \<subseteq># mset cards" "map rank_of h = run_ranks a" using hand_with_ranks by blast
  moreover from this have "length h = 5" by (metis length_map length_run_ranks)
  moreover have "beats_all cards (HandValue 4 [a, 0, 0, 0, 0])"
  proof (rule beats_allI)
    fix h ss assume h: "five_of cards h" "shows_value h (HandValue 4 ss)"
    then obtain b where b: "ss = [b, 0, 0, 0, 0]" "map rank_of h = run_ranks b" "5 \<le> b" by (auto elim!: shows_4)
    have "b \<le> a" using shown_straight [OF dealt h(1) b(2,3)] sh by blast
    then show "ss \<le> [a, 0, 0, 0, 0]" using b(1) by auto
  qed (use no_8 [OF dealt sf] no_7 [OF q] no_6 [OF dealt f] no_5 [OF le fl] in \<open>auto dest: less_cases_8\<close>)
  ultimately show ?thesis unfolding shown_best_def five_of_def using run(1) shows_value.straight by blast
qed

lemma stage_3:
  assumes ok: "evaluable cards" and sf: "straight_flush_high cards = None"
    and q: "ranks_with_count_at_least (rank_counts cards) 4 = []" and f: "full_pair cards = None"
    and fl: "flush_ranks cards = None" and st: "straight_high (map fst (rank_counts cards)) = None"
    and t: "ranks_with_count_at_least (rank_counts cards) 3 = a # as"
  shows "shown_best cards (HandValue 3 [a, highest_excluding (rank_counts cards) [a] 2 ! 0,
    highest_excluding (rank_counts cards) [a] 2 ! 1, 0, 0])"
proof -
  have dealt: "dealt_cards cards" and size: "5 \<le> length cards" "length cards \<le> 9" using ok by (simp_all add: evaluable_def)
  note head = counted_head [OF _ t, simplified]
  have "rank_total cards a < 4" using q by (simp add: counted_Nil)
  then have a: "rank_total cards a = 3" using head(1) by simp
  have single: "rank_total cards r \<le> 1" if "r \<noteq> a" for r
    using full_pair_facts(1) [OF f, of a r] a that by fastforce
  have len: "2 \<le> length (other_ranks cards [a])" using length_other_ranks [of "[a]" cards] single a size(1) by simp
  note k0 = kicker_at [OF len, of 0, simplified] and k1 = kicker_at [OF len, of 1, simplified]
    and ord = kicker_order [of 0 1 cards "[a]"]
  show ?thesis
  proof (rule shown_bestI [of "[a, a, a, other_ranks cards [a] ! 0, other_ranks cards [a] ! 1]"])
    show "count (mset [a, a, a, other_ranks cards [a] ! 0, other_ranks cards [a] ! 1]) r \<le> rank_total cards r" for r
      using a k0 k1 ord len by (auto simp: Suc_le_eq)
    show "beats_all cards (HandValue 3 [a, highest_excluding (rank_counts cards) [a] 2 ! 0,
      highest_excluding (rank_counts cards) [a] 2 ! 1, 0, 0])"
    proof (rule beats_allI)
      fix h ss assume h: "five_of cards h" "shows_value h (HandValue 3 ss)"
      from shown_3 [OF this] obtain b c d where ss: "ss = [b, c, d, 0, 0]" "d \<le> c"
        and n: "\<forall>r. count (mset [b, b, b, c, d]) r \<le> rank_total cards r" by blast
      have le: "b \<le> a" using head(2) [of b] spec [OF n, of b] by (auto split: if_splits)
      have "[c, d] \<le> highest_excluding (rank_counts cards) [a] 2" if "b = a"
      proof (rule kicker_bound)
        have "c \<noteq> a" "d \<noteq> a" using spec [OF n, of a] that a by (auto split: if_splits)
        moreover from this have "c \<noteq> d" using spec [OF n, of c] single [of c] that by auto
        ultimately show "distinct [c, d]" "set [c, d] \<subseteq> {r. 0 < rank_total cards r} - set [a]"
          using spec [OF n, of c] spec [OF n, of d] that by auto
      qed (use ss in simp_all)
      moreover obtain x y where xy: "highest_excluding (rank_counts cards) [a] 2 = [x, y]"
        using highest_list [of "rank_counts cards" "[a]" 2] by (auto simp: length_Suc_conv numeral_eq_Suc)
      ultimately show "ss \<le> [a, highest_excluding (rank_counts cards) [a] 2 ! 0,
        highest_excluding (rank_counts cards) [a] 2 ! 1, 0, 0]" using le ss(1) by auto
    qed (use no_8 [OF dealt sf] no_7 [OF q] no_6 [OF dealt f] no_5 [OF size(2) fl] no_4 [OF dealt st] in \<open>auto dest: less_cases_8\<close>)
  qed (use k0(1) k1(1) ord len in \<open>auto intro: shows_value.three\<close>)
qed

lemma stage_2:
  assumes ok: "evaluable cards" and sf: "straight_flush_high cards = None"
    and t: "ranks_with_count_at_least (rank_counts cards) 3 = []"
    and fl: "flush_ranks cards = None" and st: "straight_high (map fst (rank_counts cards)) = None"
    and p: "ranks_with_count_at_least (rank_counts cards) 2 = a # b # as"
  shows "shown_best cards (HandValue 2 [a, b, highest_excluding (rank_counts cards) [a, b] 1 ! 0, 0, 0])"
proof -
  have dealt: "dealt_cards cards" and size: "5 \<le> length cards" "length cards \<le> 9" using ok by (simp_all add: evaluable_def)
  have lt: "rank_total cards r < 3" for r using t by (simp add: counted_Nil)
  have full: "full_pair cards = None" using t by (simp add: full_pair_def)
  have quads: "ranks_with_count_at_least (rank_counts cards) 4 = []" by (rule counted_less [OF _ _ t]) simp_all
  note pairs = counted_ranks [of 2 cards, simplified]
  have ab: "b < a" "2 \<le> rank_total cards a" "2 \<le> rank_total cards b" using pairs p by (auto simp: set_eq_iff le_less)
  then have n: "rank_total cards a = 2" "rank_total cards b = 2" using lt [of a] lt [of b] by simp_all
  have len: "1 \<le> length (other_ranks cards [a, b])"
    using other_ranks_left [of "[a, b]" cards] n ab(1) size by (simp add: Suc_le_eq)
  note k = kicker_at [OF len, of 0, simplified]
  show ?thesis
  proof (rule shown_bestI [of "[a, a, b, b, other_ranks cards [a, b] ! 0]"])
    show "count (mset [a, a, b, b, other_ranks cards [a, b] ! 0]) r \<le> rank_total cards r" for r
      using n k ab(1) by (auto simp: Suc_le_eq)
    show "beats_all cards (HandValue 2 [a, b, highest_excluding (rank_counts cards) [a, b] 1 ! 0, 0, 0])"
    proof (rule beats_allI)
      fix h ss assume h: "five_of cards h" "shows_value h (HandValue 2 ss)"
      from shown_2 [OF this] obtain c d e where ss: "ss = [c, d, e, 0, 0]" "d \<le> c"
        and m: "\<forall>r. count (mset [c, c, d, d, e]) r \<le> rank_total cards r" by blast
      have "c \<noteq> d" using spec [OF m, of c] lt [of c] by auto
      moreover have two: "2 \<le> rank_total cards c" "2 \<le> rank_total cards d"
        using spec [OF m, of c] spec [OF m, of d] by (auto split: if_splits)
      ultimately have "mset [c, d] \<subseteq># mset (a # b # as)"
        using pairs(1) p by (intro mset_distinct_subset) auto
      from top_greatest [OF _ _ this] have le: "[c, d] \<le> [a, b]" using ss(2) pairs(2) p by simp
      have "[e] \<le> highest_excluding (rank_counts cards) [a, b] 1" if "c = a" "d = b"
      proof (rule kicker_bound)
        have "e \<noteq> a" "e \<noteq> b" using spec [OF m, of a] spec [OF m, of b] n that ab(1) by auto
        then show "set [e] \<subseteq> {r. 0 < rank_total cards r} - set [a, b]" using spec [OF m, of e] that by auto
      qed simp_all
      moreover obtain x where "highest_excluding (rank_counts cards) [a, b] 1 = [x]"
        using highest_list [of "rank_counts cards" "[a, b]" 1] by (auto simp: length_Suc_conv)
      ultimately show "ss \<le> [a, b, highest_excluding (rank_counts cards) [a, b] 1 ! 0, 0, 0]"
        using le unfolding ss(1) by auto
    qed (use no_8 [OF dealt sf] no_7 [OF quads] no_6 [OF dealt full] no_5 [OF size(2) fl] no_4 [OF dealt st]
        no_3 [OF t] in \<open>auto dest: less_cases_8\<close>)
  qed (use k(1) ab(1) in \<open>auto intro: shows_value.two_pair\<close>)
qed

lemma stage_1:
  assumes ok: "evaluable cards" and sf: "straight_flush_high cards = None"
    and t: "ranks_with_count_at_least (rank_counts cards) 3 = []"
    and fl: "flush_ranks cards = None" and st: "straight_high (map fst (rank_counts cards)) = None"
    and p: "ranks_with_count_at_least (rank_counts cards) 2 = [a]"
  shows "shown_best cards (HandValue 1 [a, highest_excluding (rank_counts cards) [a] 3 ! 0,
    highest_excluding (rank_counts cards) [a] 3 ! 1, highest_excluding (rank_counts cards) [a] 3 ! 2, 0])"
proof -
  have dealt: "dealt_cards cards" and size: "5 \<le> length cards" "length cards \<le> 9" using ok by (simp_all add: evaluable_def)
  have lt: "rank_total cards r < 3" for r using t by (simp add: counted_Nil)
  have full: "full_pair cards = None" using t by (simp add: full_pair_def)
  have quads: "ranks_with_count_at_least (rank_counts cards) 4 = []" by (rule counted_less [OF _ _ t]) simp_all
  have only: "2 \<le> rank_total cards r \<longleftrightarrow> r = a" for r using counted_ranks(1) [of 2 cards] p by (auto simp: set_eq_iff)
  then have a: "rank_total cards a = 2" using lt [of a] by (metis One_nat_def Suc_1 antisym less_Suc_eq_le numeral_3_eq_3)
  have single: "rank_total cards r \<le> 1" if "r \<noteq> a" for r using only [of r] that by simp
  have len: "3 \<le> length (other_ranks cards [a])" using length_other_ranks [of "[a]" cards] single a size(1) by simp
  note k0 = kicker_at [OF len, of 0, simplified] and k1 = kicker_at [OF len, of 1, simplified]
    and k2 = kicker_at [OF len, of 2, simplified] and o1 = kicker_order [of 0 1 cards "[a]"] and o2 = kicker_order [of 1 2 cards "[a]"]
  show ?thesis
  proof (rule shown_bestI [of "[a, a, other_ranks cards [a] ! 0, other_ranks cards [a] ! 1, other_ranks cards [a] ! 2]"])
    show "count (mset [a, a, other_ranks cards [a] ! 0, other_ranks cards [a] ! 1, other_ranks cards [a] ! 2]) r
        \<le> rank_total cards r" for r
      using a k0 k1 k2 o1 o2 len by (auto simp: Suc_le_eq)
    show "beats_all cards (HandValue 1 [a, highest_excluding (rank_counts cards) [a] 3 ! 0,
      highest_excluding (rank_counts cards) [a] 3 ! 1, highest_excluding (rank_counts cards) [a] 3 ! 2, 0])"
    proof (rule beats_allI)
      fix h ss assume h: "five_of cards h" "shows_value h (HandValue 1 ss)"
      from shown_1 [OF this] obtain b c d e where ss: "ss = [b, c, d, e, 0]" "e \<le> d" "d \<le> c"
        and n: "\<forall>r. count (mset [b, b, c, d, e]) r \<le> rank_total cards r" by blast
      have b: "b = a" using only [of b] spec [OF n, of b] by (auto split: if_splits)
      have "[c, d, e] \<le> highest_excluding (rank_counts cards) [a] 3"
      proof (rule kicker_bound)
        have ne: "c \<noteq> a" "d \<noteq> a" "e \<noteq> a" using spec [OF n, of a] b a by (auto split: if_splits)
        then have "c \<noteq> d" "d \<noteq> e" using spec [OF n, of c] spec [OF n, of d] single [of c] single [of d] b by (auto split: if_splits)
        with ss ne show "distinct [c, d, e]" "set [c, d, e] \<subseteq> {r. 0 < rank_total cards r} - set [a]"
          using spec [OF n, of c] spec [OF n, of d] spec [OF n, of e] b by auto
      qed (use ss in simp_all)
      moreover obtain x y z where "highest_excluding (rank_counts cards) [a] 3 = [x, y, z]"
        using highest_list [of "rank_counts cards" "[a]" 3] by (auto simp: length_Suc_conv numeral_eq_Suc)
      ultimately show "ss \<le> [a, highest_excluding (rank_counts cards) [a] 3 ! 0,
        highest_excluding (rank_counts cards) [a] 3 ! 1, highest_excluding (rank_counts cards) [a] 3 ! 2, 0]"
        unfolding ss(1) b by auto
    qed (use no_8 [OF dealt sf] no_7 [OF quads] no_6 [OF dealt full] no_5 [OF size(2) fl] no_4 [OF dealt st]
        no_3 [OF t] no_2 [OF t] p in \<open>auto dest: less_cases_8\<close>)
    fix h :: "playing_card list"
    assume "map rank_of h = [a, a, other_ranks cards [a] ! 0, other_ranks cards [a] ! 1, other_ranks cards [a] ! 2]"
    then show "shows_value h (HandValue 1 [a, highest_excluding (rank_counts cards) [a] 3 ! 0,
      highest_excluding (rank_counts cards) [a] 3 ! 1, highest_excluding (rank_counts cards) [a] 3 ! 2, 0])"
      unfolding One_nat_def k0(1) k1(1) [unfolded One_nat_def] k2(1)
      by (rule shows_value.pair [unfolded One_nat_def]) (use o1 o2 len in simp_all)
  qed simp
qed

lemma stage_0:
  assumes ok: "evaluable cards" and sf: "straight_flush_high cards = None"
    and p: "ranks_with_count_at_least (rank_counts cards) 2 = []"
    and fl: "flush_ranks cards = None" and st: "straight_high (map fst (rank_counts cards)) = None"
  shows "shown_best cards (eh_value (evaluated 0 (highest_excluding (rank_counts cards) [] 5) []))"
proof -
  have dealt: "dealt_cards cards" and size: "5 \<le> length cards" "length cards \<le> 9" using ok by (simp_all add: evaluable_def)
  have single: "rank_total cards r \<le> 1" for r using p by (simp add: counted_Nil less_Suc_eq_le numeral_2_eq_2)
  have t: "ranks_with_count_at_least (rank_counts cards) 3 = []" by (rule counted_less [OF _ _ p]) simp_all
  have quads: "ranks_with_count_at_least (rank_counts cards) 4 = []" by (rule counted_less [OF _ _ p]) simp_all
  have full: "full_pair cards = None" using t by (simp add: full_pair_def)
  have len: "5 \<le> length (other_ranks cards [])" using length_other_ranks [of "[]" cards] single size(1) by simp
  let ?ks = "take 5 (other_ranks cards [])"
  have v: "eh_value (evaluated 0 (highest_excluding (rank_counts cards) [] 5) []) = HandValue 0 ?ks"
    using len by (simp add: evaluated_def highest_excluding_take)
  show ?thesis unfolding v
  proof (rule shown_bestI [of ?ks])
    have "mset ?ks \<subseteq># mset (map rank_of cards)"
    proof -
      have "mset (other_ranks cards []) = mset (map rank_of cards)" using single_ranks [of "[]" cards] single by simp
      then show ?thesis by (metis append_take_drop_id mset_append mset_subset_eq_add_left)
    qed
    then show "count (mset ?ks) r \<le> rank_total cards r" for r unfolding rank_total_def by (rule mset_subset_eq_count)
    fix h :: "playing_card list" assume h: "map rank_of h = ?ks"
    have "sorted_wrt (\<ge>) (map rank_of h)" unfolding h by (rule sorted_wrt_take [OF other_ranks(2)])
    moreover have "length h = 5" using arg_cong [OF h, of length] len by simp
    ultimately show "shows_value h (HandValue 0 ?ks)" unfolding h [symmetric] by (rule shows_value.high_card)
  next
    show "beats_all cards (HandValue 0 ?ks)"
    proof (rule beats_allI)
      fix h ss assume h: "five_of cards h" "shows_value h (HandValue 0 ss)"
      then have ss: "ss = map rank_of h" "sorted_wrt (\<ge>) ss" "length ss = 5" by (auto elim!: shows_0)
      have n: "count (mset ss) r \<le> 1" for r using five_counts [OF h(1), of r] single [of r] ss(1) by simp
      have "ss \<le> highest_excluding (rank_counts cards) [] 5"
      proof (rule kicker_bound [OF ss(2) _ _ ss(3)])
        have "count (mset ss) r = (if r \<in> set ss then 1 else 0)" for r
          using n [of r] count_mset_gt_0 [of r ss] by (cases "r \<in> set ss") (simp_all add: le_antisym Suc_leI)
        then show "distinct ss" by (simp add: distinct_count_atmost_1)
        show "set ss \<subseteq> {r. 0 < rank_total cards r} - set []"
        proof
          fix r assume "r \<in> set ss"
          then have "0 < count (mset (map rank_of h)) r" unfolding ss(1) by (rule count_mset_gt_0)
          then have "0 < rank_total cards r" using five_counts [OF h(1), of r] by (rule less_le_trans)
          then show "r \<in> {r. 0 < rank_total cards r} - set []" by simp
        qed
      qed
      then show "ss \<le> ?ks" using len by (simp add: highest_excluding_take)
    qed (use no_8 [OF dealt sf] no_7 [OF quads] no_6 [OF dealt full] no_5 [OF size(2) fl] no_4 [OF dealt st]
        no_3 [OF t] no_2 [OF t] no_1 [OF p] p in \<open>auto dest: less_cases_8\<close>)
  qed (use len in simp)
qed

section \<open>Properties\<close>

lemma hand_shown_best:
  assumes ok: "evaluable cards"
  shows "shown_best cards (hand_val cards)"
  by (cases rule: eval_stages [of cards])
    (simp_all only: stage_8 [OF ok] stage_7 [OF ok] stage_6 [OF ok] stage_5 [OF ok] stage_4 [OF ok] stage_3 [OF ok]
       stage_2 [OF ok] stage_1 [OF ok] stage_0 [OF ok])

text \<open>C12. The value of a poker hand. For between five and nine different cards of the deck (a seat has two,
  the board five), the evaluation returns a value that some five of the cards show, and no five of them show
  a better one: the straights with the ace low, the kickers and the ties are all as the rules of the game
  have them.\<close>

theorem poker_hand_exact:
  assumes "distinct cards" and "set cards \<subseteq> set poker_fresh_deck" and "5 \<le> length cards" and "length cards \<le> 9"
  shows "(\<exists>h. five_of cards h \<and> shows_value h (eh_value (evaluate_best_hand cards))) \<and>
    (\<forall>h w. five_of cards h \<longrightarrow> shows_value h w \<longrightarrow> w \<le> eh_value (evaluate_best_hand cards))"
  using hand_shown_best [of cards] assms by (simp add: evaluable_def dealt_cards_def shown_best_def beats_all_def)

definition wheel_cards :: "playing_card list" where
  "wheel_cards = map (\<lambda>(r, s). \<lparr>pc_suit = s, pc_rank = r\<rparr>)
     [(FaceAce, Spades), (FaceNumber 2, Hearts), (FaceNumber 3, Clubs), (FaceNumber 4, Spades),
      (FaceNumber 5, Hearts), (FaceKing, Clubs), (FaceKing, Spades)]"

theorem poker_hand_exact_witness:
  "(\<exists>h. five_of wheel_cards h \<and> shows_value h (HandValue 4 [5, 0, 0, 0, 0])) \<and>
   (\<nexists>h w. five_of wheel_cards h \<and> shows_value h w \<and> HandValue 4 [5, 0, 0, 0, 0] < w) \<and>
   evaluate_best_hand wheel_cards = \<lparr>eh_value = HandValue 4 [5, 0, 0, 0, 0], eh_label = ''straight''\<rparr>"
proof -
  have e: "evaluate_best_hand wheel_cards = \<lparr>eh_value = HandValue 4 [5, 0, 0, 0, 0], eh_label = ''straight''\<rparr>" by code_simp
  have "distinct wheel_cards" "length wheel_cards = 7" by code_simp+
  moreover have "set wheel_cards \<subseteq> set poker_fresh_deck"
    unfolding set_poker_deck by (simp add: wheel_cards_def deck_rank_def)
  ultimately show ?thesis using poker_hand_exact [of wheel_cards] e by (auto simp: not_less [symmetric])
qed

end
