(* ===== verification/PokerTable.thy ===== *)
theory PokerTable
  imports PokerHand "HOL-Library.While_Combinator"
begin

text \<open>
  The poker table: its settings (\<open>late-ssh/src/app/lobby/house/poker/settings.rs\<close>) and the state behind the
  table's lock with every operation on it (\<open>SharedState\<close> in \<open>late-ssh/src/app/lobby/house/poker/svc.rs\<close>). An
  array of \<open>MAX_SEATS\<close> entries is a function of the seat, an instant a number of nanoseconds, an \<open>i64\<close>
  an \<open>int\<close> with the saturation of its \<open>saturating\<close> operations written out. The reading of the clock, the
  draws of the shuffle and the id of a new hand are arguments. The status line is not modelled.
\<close>


section \<open>Settings\<close>

datatype poker_pace = PaceQuick | PaceStandard | PaceChill

primrec pace_timeout_secs :: "poker_pace \<Rightarrow> int" where
  "pace_timeout_secs PaceQuick = 20"
| "pace_timeout_secs PaceStandard = 45"
| "pace_timeout_secs PaceChill = 90"

record poker_settings =
  ps_pace :: poker_pace
  ps_small_blind :: int
  ps_starting_stack :: int

definition SMALL_BLIND_OPTIONS :: "int list" where "SMALL_BLIND_OPTIONS = [10, 25, 50, 100]"
definition STARTING_STACK_OPTIONS :: "int list" where "STARTING_STACK_OPTIONS = [100, 500, 1000, 2000, 5000]"

definition default_settings :: poker_settings where
  "default_settings = \<lparr>ps_pace = PaceStandard, ps_small_blind = 10, ps_starting_stack = 1000\<rparr>"

definition normalized :: "poker_settings \<Rightarrow> poker_settings" where
  "normalized s =
     (let s = (if ps_small_blind s \<notin> set SMALL_BLIND_OPTIONS
               then s\<lparr>ps_small_blind := ps_small_blind default_settings\<rparr> else s)
      in if ps_starting_stack s \<notin> set STARTING_STACK_OPTIONS
         then s\<lparr>ps_starting_stack := ps_starting_stack default_settings\<rparr> else s)"

text \<open>What \<open>serde_json\<close> reads of the three fields is the argument.\<close>

definition settings_from_json :: "poker_pace option \<Rightarrow> int option \<Rightarrow> int option \<Rightarrow> poker_settings" where
  "settings_from_json pace blind stack =
     normalized
       \<lparr>ps_pace = (case pace of None \<Rightarrow> ps_pace default_settings | Some p \<Rightarrow> p),
        ps_small_blind = (case blind of None \<Rightarrow> ps_small_blind default_settings | Some b \<Rightarrow> b),
        ps_starting_stack = (case stack of None \<Rightarrow> ps_starting_stack default_settings | Some b \<Rightarrow> b)\<rparr>"

definition small_blind_of :: "poker_settings \<Rightarrow> int" where
  "small_blind_of s = ps_small_blind (normalized s)"

definition big_blind_of :: "poker_settings \<Rightarrow> int" where
  "big_blind_of s = small_blind_of s * 2"

definition starting_stack_of :: "poker_settings \<Rightarrow> int" where
  "starting_stack_of s = ps_starting_stack (normalized s)"


section \<open>State\<close>

datatype poker_phase = PkWaiting | PkPostingBlinds | PkPreFlop | PkFlop | PkTurn | PkRiver | PkShowdown

definition is_action_phase :: "poker_phase \<Rightarrow> bool" where
  "is_action_phase p \<longleftrightarrow> p \<in> {PkPreFlop, PkFlop, PkTurn, PkRiver}"

datatype poker_action =
  PkSmallBlind | PkBigBlind | PkCheck | PkCall | PkBet | PkRaise | PkFold | PkAllIn

datatype commit_kind = CommitSmallBlind | CommitBigBlind | CommitCall | CommitBetRaise | CommitAllIn

record commit_request =
  cr_id :: "64 word"
  cr_user :: uuid
  cr_seat :: nat
  cr_amount :: int
  cr_hand :: uuid

record pending_commit =
  pn_id :: "64 word"
  pn_kind :: commit_kind
  pn_amount :: int
  pn_target :: int
  pn_raise :: int

record poker_settlement =
  se_user :: uuid
  se_hand :: uuid
  se_credit :: int

record settlement_update =
  su_user :: uuid
  su_credit :: int
  su_global :: int

record side_pot =
  sp_amount :: int
  sp_eligible :: "nat list"

record pot_award =
  aw_amount :: int
  aw_winners :: "nat list"

datatype action_outcome =
  OutcomeNone | OutcomeCommit commit_request | OutcomeSettlements "poker_settlement list"

record poker_table =
  pk_settings :: poker_settings
  pk_seats :: "nat \<Rightarrow> uuid option"
  pk_balances :: "nat \<Rightarrow> int"
  pk_hole :: "nat \<Rightarrow> playing_card list"
  pk_folded :: "nat \<Rightarrow> bool"
  pk_all_in :: "nat \<Rightarrow> bool"
  pk_acted :: "nat \<Rightarrow> bool"
  pk_last_action :: "nat \<Rightarrow> poker_action option"
  pk_leaving :: "nat \<Rightarrow> bool"
  pk_auto :: "nat \<Rightarrow> bool"
  pk_committed :: "nat \<Rightarrow> int"
  pk_street :: "nat \<Rightarrow> int"
  pk_payout :: "nat \<Rightarrow> int"
  pk_pending :: "nat \<Rightarrow> pending_commit option"
  pk_community :: "playing_card list"
  pk_deck :: "playing_card list"
  pk_dealer :: "nat option"
  pk_small_seat :: "nat option"
  pk_big_seat :: "nat option"
  pk_active :: "nat option"
  pk_phase :: poker_phase
  pk_hand_number :: "64 word"
  pk_hand_id :: uuid
  pk_winners :: "nat list"
  pk_winning_rank :: "string option"
  pk_current_bet :: int
  pk_min_raise :: int
  pk_pending_blinds :: nat
  pk_deadline :: "int option"
  pk_countdown_id :: "64 word"
  pk_countdown_seat :: "nat option"
  pk_settling :: bool
  pk_reveals :: bool
  pk_global :: "uuid \<Rightarrow> int option"
  pk_activity :: "nat \<Rightarrow> int"
  pk_generation :: "nat \<Rightarrow> 64 word"
  pk_missed :: "nat \<Rightarrow> nat"
  pk_next_request :: "64 word"

definition MAX_SEATS :: nat where [simp]: "MAX_SEATS = 4"
definition SEAT_IDLE_TIMEOUT_SECS :: int where "SEAT_IDLE_TIMEOUT_SECS = 5 * 60"
definition MAX_MISSED_ACTIONS :: nat where "MAX_MISSED_ACTIONS = 3"

definition from_secs :: "int \<Rightarrow> int" where "from_secs s = s * 1000000000"

definition sat_i64 :: "int \<Rightarrow> int" where
  "sat_i64 x = max (- (2 ^ 63)) (min (2 ^ 63 - 1) x)"

definition new_table :: "int \<Rightarrow> uuid \<Rightarrow> poker_settings \<Rightarrow> poker_table" where
  "new_table now hand settings =
     \<lparr>pk_settings = normalized settings, pk_seats = (\<lambda>_. None), pk_balances = (\<lambda>_. 0), pk_hole = (\<lambda>_. []),
      pk_folded = (\<lambda>_. False), pk_all_in = (\<lambda>_. False), pk_acted = (\<lambda>_. False), pk_last_action = (\<lambda>_. None),
      pk_leaving = (\<lambda>_. False), pk_auto = (\<lambda>_. False), pk_committed = (\<lambda>_. 0), pk_street = (\<lambda>_. 0),
      pk_payout = (\<lambda>_. 0), pk_pending = (\<lambda>_. None), pk_community = [], pk_deck = [], pk_dealer = None,
      pk_small_seat = None, pk_big_seat = None, pk_active = None, pk_phase = PkWaiting, pk_hand_number = 0,
      pk_hand_id = hand, pk_winners = [], pk_winning_rank = None, pk_current_bet = 0,
      pk_min_raise = big_blind_of (normalized settings), pk_pending_blinds = 0, pk_deadline = None,
      pk_countdown_id = 0, pk_countdown_seat = None, pk_settling = False, pk_reveals = False,
      pk_global = (\<lambda>_. None), pk_activity = (\<lambda>_. now), pk_generation = (\<lambda>_. 0), pk_missed = (\<lambda>_. 0),
      pk_next_request = 0\<rparr>"


section \<open>Queries\<close>

definition seat_index :: "poker_table \<Rightarrow> uuid \<Rightarrow> nat option" where
  "seat_index t u = find (\<lambda>i. pk_seats t i = Some u) [0..<MAX_SEATS]"

definition occupied_count :: "poker_table \<Rightarrow> nat" where
  "occupied_count t = length (filter (\<lambda>i. pk_seats t i \<noteq> None) [0..<MAX_SEATS])"

definition playable_seat :: "poker_table \<Rightarrow> nat \<Rightarrow> bool" where
  "playable_seat t i \<longleftrightarrow> pk_seats t i \<noteq> None \<and> pk_balances t i > 0"

definition playable_indices :: "poker_table \<Rightarrow> nat list" where
  "playable_indices t = filter (playable_seat t) [0..<MAX_SEATS]"

definition in_play :: "poker_table \<Rightarrow> nat \<Rightarrow> bool" where
  "in_play t i \<longleftrightarrow> pk_seats t i \<noteq> None \<and> length (pk_hole t i) = 2 \<and> \<not> pk_folded t i"

definition active_player_indices :: "poker_table \<Rightarrow> nat list" where
  "active_player_indices t = filter (in_play t) [0..<MAX_SEATS]"

definition actionable_player_indices :: "poker_table \<Rightarrow> nat list" where
  "actionable_player_indices t = filter (\<lambda>i. \<not> pk_all_in t i) (active_player_indices t)"

definition seats_after :: "nat \<Rightarrow> nat list" where
  "seats_after start = map (\<lambda>offset. (start + offset) mod MAX_SEATS) [1..<MAX_SEATS + 1]"

definition next_playable_after :: "poker_table \<Rightarrow> nat \<Rightarrow> nat option" where
  "next_playable_after t start = find (playable_seat t) (seats_after start)"

definition next_action_after :: "poker_table \<Rightarrow> nat \<Rightarrow> nat option" where
  "next_action_after t start = find (\<lambda>i. in_play t i \<and> \<not> pk_all_in t i) (seats_after start)"

definition blind_seats_for :: "poker_table \<Rightarrow> nat \<Rightarrow> nat \<times> nat" where
  "blind_seats_for t dealer =
     (let or_else = (\<lambda>m d. case m of None \<Rightarrow> d | Some i \<Rightarrow> i)
      in if length (playable_indices t) = 2 then (dealer, or_else (next_playable_after t dealer) dealer)
         else let small = or_else (next_playable_after t dealer) dealer
              in (small, or_else (next_playable_after t small) small))"

definition pot :: "poker_table \<Rightarrow> int" where
  "pot t = sum_list (map (pk_committed t) [0..<MAX_SEATS])"

definition to_call :: "poker_table \<Rightarrow> nat \<Rightarrow> int" where
  "to_call t i = sat_i64 (pk_current_bet t - pk_street t i)"

definition can_raise :: "poker_table \<Rightarrow> nat \<Rightarrow> bool" where
  "can_raise t i \<longleftrightarrow> is_action_phase (pk_phase t) \<and> in_play t i \<and> \<not> pk_all_in t i \<and> \<not> pk_acted t i"

definition street_complete :: "poker_table \<Rightarrow> bool" where
  "street_complete t \<longleftrightarrow>
     active_player_indices t \<noteq> [] \<and>
     list_all (\<lambda>i. pk_all_in t i \<or> (pk_acted t i \<and> pk_current_bet t \<le> pk_street t i)) (active_player_indices t)"

definition should_runout_to_showdown :: "poker_table \<Rightarrow> bool" where
  "should_runout_to_showdown t \<longleftrightarrow>
     1 < length (active_player_indices t) \<and> length (actionable_player_indices t) \<le> 1"


section \<open>Pots\<close>

definition evaluate_seat :: "poker_table \<Rightarrow> nat \<Rightarrow> evaluated_hand" where
  "evaluate_seat t i = evaluate_best_hand (pk_hole t i @ pk_community t)"

text \<open>One pot for each amount committed: the chips between the level before and this one.\<close>

fun pots_from :: "poker_table \<Rightarrow> int \<Rightarrow> int list \<Rightarrow> side_pot list" where
  "pots_from t previous [] = []"
| "pots_from t previous (level # levels) =
     (let contributors = filter (\<lambda>i. level \<le> pk_committed t i) [0..<MAX_SEATS]
      in \<lparr>sp_amount = (level - previous) * int (length contributors), sp_eligible = filter (in_play t) contributors\<rparr>
         # pots_from t level levels)"

definition pot_levels :: "poker_table \<Rightarrow> int list" where
  "pot_levels t = remdups_adj (sort (filter (\<lambda>a. a > 0) (map (pk_committed t) [0..<MAX_SEATS])))"

definition side_pots :: "poker_table \<Rightarrow> side_pot list" where
  "side_pots t = pots_from t 0 (pot_levels t)"

definition award_pot :: "poker_table \<Rightarrow> side_pot \<Rightarrow> pot_award" where
  "award_pot t p =
     (let scored = map (\<lambda>i. (i, evaluate_seat t i)) (sp_eligible p);
          best = Max (set (map (\<lambda>(_, hand). eh_value hand) scored))
      in \<lparr>aw_amount = sp_amount p, aw_winners = map fst (filter (\<lambda>(_, hand). eh_value hand = best) scored)\<rparr>)"

definition calculate_pot_awards :: "poker_table \<Rightarrow> pot_award list" where
  "calculate_pot_awards t = map (award_pot t) (filter (\<lambda>p. sp_eligible p \<noteq> [] \<and> sp_amount p > 0) (side_pots t))"

text \<open>An even split; the first winners take the odd chips.\<close>

fun share_out :: "int \<Rightarrow> int \<Rightarrow> int \<Rightarrow> nat list \<Rightarrow> (nat \<Rightarrow> int) \<Rightarrow> (nat \<Rightarrow> int)" where
  "share_out share remainder offset [] credits = credits"
| "share_out share remainder offset (w # ws) credits =
     share_out share remainder (offset + 1) ws
       (credits(w := credits w + (share + (if offset < remainder then 1 else 0))))"

definition credit_award :: "pot_award \<Rightarrow> (nat \<Rightarrow> int) \<Rightarrow> (nat \<Rightarrow> int)" where
  "credit_award award credits =
     (if aw_amount award \<le> 0 \<or> aw_winners award = [] then credits
      else let n = int (length (aw_winners award))
           in share_out (aw_amount award div n) (aw_amount award mod n) 0 (sort (aw_winners award)) credits)"

definition credits_from_awards :: "pot_award list \<Rightarrow> (nat \<Rightarrow> int)" where
  "credits_from_awards awards = fold credit_award awards (\<lambda>_. 0)"

definition settlements_from_credits :: "poker_table \<Rightarrow> (nat \<Rightarrow> int) \<Rightarrow> poker_settlement list" where
  "settlements_from_credits t credits =
     List.map_filter (\<lambda>i. case pk_seats t i of
         None \<Rightarrow> None
       | Some u \<Rightarrow> if pk_committed t i > 0
                   then Some \<lparr>se_user = u, se_hand = pk_hand_id t, se_credit = credits i\<rparr> else None) [0..<MAX_SEATS]"

definition settlements_for_single_winner :: "poker_table \<Rightarrow> nat \<Rightarrow> poker_settlement list" where
  "settlements_for_single_winner t winner =
     List.map_filter (\<lambda>i. case pk_seats t i of
         None \<Rightarrow> None
       | Some u \<Rightarrow> if pk_committed t i > 0
                   then Some \<lparr>se_user = u, se_hand = pk_hand_id t,
                              se_credit = (if i = winner then pot t else 0)\<rparr> else None) [0..<MAX_SEATS]"


section \<open>The end of a hand and of a street\<close>

type_synonym settled_table = "poker_table \<times> poker_settlement list"

definition clear_action_countdown :: "poker_table \<Rightarrow> poker_table" where
  "clear_action_countdown t = t\<lparr>pk_deadline := None, pk_countdown_seat := None\<rparr>"

definition finish_by_fold :: "nat \<Rightarrow> poker_table \<Rightarrow> settled_table" where
  "finish_by_fold winner t =
     (let t = clear_action_countdown (t\<lparr>pk_phase := PkShowdown, pk_active := None\<rparr>);
          t = t\<lparr>pk_winners := [winner], pk_winning_rank := None, pk_reveals := False,
                pk_payout := (pk_payout t)(winner := pot t - pk_committed t winner)\<rparr>;
          settlements = settlements_for_single_winner t winner
      in (t\<lparr>pk_settling := settlements \<noteq> []\<rparr>, settlements))"

definition back_to_waiting :: "poker_table \<Rightarrow> settled_table" where
  "back_to_waiting t = (clear_action_countdown (t\<lparr>pk_phase := PkWaiting, pk_active := None\<rparr>), [])"

text \<open>\<open>max_by_key\<close> returns the last of the greatest elements.\<close>

fun max_by_value :: "evaluated_hand list \<Rightarrow> evaluated_hand option" where
  "max_by_value [] = None"
| "max_by_value (h # hs) =
     (case max_by_value hs of
        None \<Rightarrow> Some h
      | Some best \<Rightarrow> if eh_value h \<le> eh_value best then Some best else Some h)"

definition finish_showdown :: "poker_table \<Rightarrow> settled_table" where
  "finish_showdown t =
     (let contenders = active_player_indices t
      in if contenders = [] then back_to_waiting t
         else
           let awards = calculate_pot_awards t;
               t = t\<lparr>pk_winners := sort (remdups (concat (map aw_winners awards))),
                     pk_winning_rank := map_option eh_label (max_by_value (map (evaluate_seat t) contenders))\<rparr>;
               t = clear_action_countdown (t\<lparr>pk_phase := PkShowdown, pk_active := None\<rparr>);
               t = t\<lparr>pk_reveals := True\<rparr>;
               credits = credits_from_awards awards;
               t = t\<lparr>pk_payout := (\<lambda>i. if i < MAX_SEATS \<and> credits i > 0 then credits i - pk_committed t i else pk_payout t i)\<rparr>;
               settlements = settlements_from_credits t credits
           in (t\<lparr>pk_settling := settlements \<noteq> []\<rparr>, settlements))"

definition deal_one :: "poker_table \<Rightarrow> poker_table" where
  "deal_one t =
     (if pk_deck t = [] then t
      else t\<lparr>pk_deck := butlast (pk_deck t), pk_community := pk_community t @ [last (pk_deck t)]\<rparr>)"

definition deal_community :: "nat \<Rightarrow> poker_table \<Rightarrow> poker_table" where
  "deal_community n t = (deal_one ^^ n) t"

definition deal_remaining_community :: "poker_table \<Rightarrow> poker_table" where
  "deal_remaining_community = while (\<lambda>t. length (pk_community t) < 5) (deal_community 1)"

definition set_first_action_for_new_street :: "poker_table \<Rightarrow> settled_table" where
  "set_first_action_for_new_street t =
     (if should_runout_to_showdown t then finish_showdown (deal_remaining_community t)
      else (t\<lparr>pk_active := next_action_after t (case pk_dealer t of None \<Rightarrow> 0 | Some d \<Rightarrow> d)\<rparr>, []))"

definition advance_street :: "poker_table \<Rightarrow> settled_table" where
  "advance_street t =
     (let t = t\<lparr>pk_acted := (\<lambda>_. False), pk_street := (\<lambda>_. 0), pk_current_bet := 0,
                pk_min_raise := big_blind_of (pk_settings t)\<rparr>
      in case pk_phase t of
           PkPreFlop \<Rightarrow> set_first_action_for_new_street ((deal_community 3 t)\<lparr>pk_phase := PkFlop\<rparr>)
         | PkFlop \<Rightarrow> set_first_action_for_new_street ((deal_community 1 t)\<lparr>pk_phase := PkTurn\<rparr>)
         | PkTurn \<Rightarrow> set_first_action_for_new_street ((deal_community 1 t)\<lparr>pk_phase := PkRiver\<rparr>)
         | PkRiver \<Rightarrow> finish_showdown t
         | _ \<Rightarrow> (t, []))"

definition advance_after_action :: "nat \<Rightarrow> poker_table \<Rightarrow> settled_table" where
  "advance_after_action acted t =
     (case active_player_indices t of
        [] \<Rightarrow> back_to_waiting t
      | [winner] \<Rightarrow> finish_by_fold winner t
      | _ \<Rightarrow>
          if street_complete t then
            if should_runout_to_showdown t then finish_showdown (deal_remaining_community t) else advance_street t
          else (t\<lparr>pk_active := next_action_after t acted\<rparr>, []))"

definition finish_blind_posting :: "poker_table \<Rightarrow> settled_table" where
  "finish_blind_posting t =
     (let t = t\<lparr>pk_current_bet := Max (set (map (pk_street t) [0..<MAX_SEATS])),
                pk_min_raise := big_blind_of (pk_settings t)\<rparr>
      in case active_player_indices t of
           [] \<Rightarrow> back_to_waiting t
         | [winner] \<Rightarrow> finish_by_fold winner t
         | _ \<Rightarrow>
             let t = t\<lparr>pk_phase := PkPreFlop\<rparr>;
                 start = (case pk_big_seat t of Some i \<Rightarrow> i | None \<Rightarrow> (case pk_dealer t of Some i \<Rightarrow> i | None \<Rightarrow> 0));
                 t = t\<lparr>pk_active := next_action_after t start\<rparr>
             in if pk_active t = None \<and> street_complete t then finish_showdown (deal_remaining_community t)
                else (t, []))"


section \<open>Countdown and automatic actions\<close>

definition action_countdown_remaining :: "int \<Rightarrow> poker_table \<Rightarrow> int option" where
  "action_countdown_remaining now t = map_option (\<lambda>deadline. max 0 (deadline - now)) (pk_deadline t)"

definition start_action_countdown_if_needed :: "int \<Rightarrow> poker_table \<Rightarrow> poker_table \<times> 64 word option" where
  "start_action_countdown_if_needed now t =
     (if \<not> is_action_phase (pk_phase t) then (clear_action_countdown t, None)
      else case pk_active t of
        None \<Rightarrow> (clear_action_countdown t, None)
      | Some i \<Rightarrow>
          if pk_pending t i \<noteq> None \<or> pk_folded t i \<or> pk_all_in t i \<or> length (pk_hole t i) \<noteq> 2
          then (clear_action_countdown t, None)
          else if pk_deadline t \<noteq> None \<and> pk_countdown_seat t = Some i then (t, None)
          else let t = t\<lparr>pk_countdown_id := pk_countdown_id t + 1, pk_countdown_seat := Some i,
                         pk_deadline := Some (now + from_secs (pace_timeout_secs (ps_pace (pk_settings t))))\<rparr>
               in (t, Some (pk_countdown_id t)))"

definition action_countdown_matches :: "poker_table \<Rightarrow> 64 word \<Rightarrow> bool" where
  "action_countdown_matches t countdown_id \<longleftrightarrow>
     is_action_phase (pk_phase t) \<and> pk_deadline t \<noteq> None \<and> pk_countdown_id t = countdown_id \<and>
     pk_active t = pk_countdown_seat t"

definition record_manual_action :: "nat \<Rightarrow> poker_table \<Rightarrow> poker_table" where
  "record_manual_action i t = clear_action_countdown (t\<lparr>pk_missed := (pk_missed t)(i := 0)\<rparr>)"

text \<open>Check when nothing is owed, fold otherwise: what a seat that does not answer does.\<close>

definition check_seat :: "nat \<Rightarrow> poker_table \<Rightarrow> poker_table" where
  "check_seat i t = t\<lparr>pk_acted := (pk_acted t)(i := True), pk_last_action := (pk_last_action t)(i \<mapsto> PkCheck)\<rparr>"

definition fold_seat :: "nat \<Rightarrow> poker_table \<Rightarrow> poker_table" where
  "fold_seat i t =
     t\<lparr>pk_folded := (pk_folded t)(i := True), pk_acted := (pk_acted t)(i := True),
       pk_last_action := (pk_last_action t)(i \<mapsto> PkFold)\<rparr>"

definition check_or_fold :: "nat \<Rightarrow> poker_table \<Rightarrow> poker_table" where
  "check_or_fold i t = (if to_call t i = 0 then check_seat i t else fold_seat i t)"

text \<open>\<open>for _ in 0..(MAX_SEATS * 4)\<close>, with the rounds left as the first argument.\<close>

fun auto_rounds :: "nat \<Rightarrow> poker_table \<Rightarrow> settled_table" where
  "auto_rounds 0 t = (t, [])"
| "auto_rounds (Suc n) t =
     (if pk_settling t \<or> \<not> is_action_phase (pk_phase t) then (t, [])
      else case pk_active t of
        None \<Rightarrow> (t, [])
      | Some i \<Rightarrow>
          if \<not> pk_auto t i \<or> pk_pending t i \<noteq> None \<or> length (pk_hole t i) \<noteq> 2 \<or> pk_folded t i \<or> pk_all_in t i
          then (t, [])
          else case advance_after_action i (check_or_fold i (clear_action_countdown t)) of
                 (t, settlements) \<Rightarrow> if settlements \<noteq> [] then (t, settlements) else auto_rounds n t)"

definition apply_auto_check_folds :: "poker_table \<Rightarrow> settled_table" where
  "apply_auto_check_folds t = auto_rounds (MAX_SEATS * 4) t"

definition apply_auto_check_folds_and_start_countdown ::
  "int \<Rightarrow> poker_table \<Rightarrow> poker_table \<times> poker_settlement list \<times> 64 word option" where
  "apply_auto_check_folds_and_start_countdown now t =
     (case apply_auto_check_folds t of
        (t, settlements) \<Rightarrow>
          (case start_action_countdown_if_needed now t of (t, countdown) \<Rightarrow> (t, settlements, countdown)))"


section \<open>Seats\<close>

definition sync_global_balance_value :: "uuid \<Rightarrow> int \<Rightarrow> poker_table \<Rightarrow> poker_table \<times> bool" where
  "sync_global_balance_value u balance t =
     (let balance = max balance 0
      in if pk_global t u = Some balance then (t, False)
         else (t\<lparr>pk_global := (pk_global t)(u \<mapsto> balance)\<rparr>, True))"

definition sit :: "uuid \<Rightarrow> int \<Rightarrow> poker_table \<Rightarrow> poker_table \<times> nat option" where
  "sit u global t =
     (let t = fst (sync_global_balance_value u global t);
          stack = starting_stack_of (pk_settings t)
      in if seat_index t u \<noteq> None then (t, None)
         else if global < stack then (t, None)
         else case find (\<lambda>i. pk_seats t i = None) [0..<MAX_SEATS] of
                None \<Rightarrow> (t, None)
              | Some i \<Rightarrow> (t\<lparr>pk_seats := (pk_seats t)(i \<mapsto> u), pk_balances := (pk_balances t)(i := stack)\<rparr>, Some i))"

definition sync_balance :: "uuid \<Rightarrow> int \<Rightarrow> poker_table \<Rightarrow> poker_table \<times> bool" where
  "sync_balance u balance t =
     (case sync_global_balance_value u balance t of
        (t, changed) \<Rightarrow>
          let balance = (case pk_global t u of None \<Rightarrow> 0 | Some b \<Rightarrow> b)
          in case seat_index t u of
               None \<Rightarrow> (t, changed)
             | Some i \<Rightarrow>
                 if balance < pk_balances t i then (t\<lparr>pk_balances := (pk_balances t)(i := balance)\<rparr>, True)
                 else (t, changed))"

definition remove_seat :: "nat \<Rightarrow> poker_table \<Rightarrow> poker_table" where
  "remove_seat i t =
     (let t = (case pk_seats t i of None \<Rightarrow> t | Some u \<Rightarrow> t\<lparr>pk_global := (pk_global t)(u := None)\<rparr>);
          t = t\<lparr>pk_seats := (pk_seats t)(i := None), pk_balances := (pk_balances t)(i := 0),
                pk_hole := (pk_hole t)(i := []), pk_folded := (pk_folded t)(i := False),
                pk_all_in := (pk_all_in t)(i := False), pk_acted := (pk_acted t)(i := False),
                pk_last_action := (pk_last_action t)(i := None), pk_leaving := (pk_leaving t)(i := False),
                pk_auto := (pk_auto t)(i := False), pk_committed := (pk_committed t)(i := 0),
                pk_street := (pk_street t)(i := 0), pk_pending := (pk_pending t)(i := None),
                pk_missed := (pk_missed t)(i := 0)\<rparr>
      in if occupied_count t = 0 then t\<lparr>pk_dealer := None\<rparr> else t)"

definition remove_leave_after_hand_seats :: "poker_table \<Rightarrow> poker_table" where
  "remove_leave_after_hand_seats t =
     fold (\<lambda>i t. if pk_leaving t i then remove_seat i t else t) [0..<MAX_SEATS] t"

definition leave :: "uuid \<Rightarrow> poker_table \<Rightarrow> settled_table" where
  "leave u t =
     (case seat_index t u of
        None \<Rightarrow> (t, [])
      | Some i \<Rightarrow>
          if pk_pending t i \<noteq> None \<or> pk_settling t then (t, [])
          else if pk_phase t = PkPostingBlinds then (t, [])
          else if is_action_phase (pk_phase t) \<and> length (pk_hole t i) = 2 then
            (let t = (fold_seat i t)\<lparr>pk_leaving := (pk_leaving t)(i := True)\<rparr>
             in if pk_active t = Some i then advance_after_action i t
                else case active_player_indices t of
                       [winner] \<Rightarrow> finish_by_fold winner t
                     | _ \<Rightarrow> (t, []))
          else (remove_seat i t, []))"

definition record_activity :: "int \<Rightarrow> uuid \<Rightarrow> poker_table \<Rightarrow> poker_table \<times> 64 word option" where
  "record_activity now u t =
     (case seat_index t u of
        None \<Rightarrow> (t, None)
      | Some i \<Rightarrow>
          let t = t\<lparr>pk_activity := (pk_activity t)(i := now),
                    pk_generation := (pk_generation t)(i := pk_generation t i + 1)\<rparr>
          in (t, Some (pk_generation t i)))"

definition kick_inactive_user ::
  "int \<Rightarrow> uuid \<Rightarrow> 64 word \<Rightarrow> poker_table \<Rightarrow> poker_table \<times> bool \<times> poker_settlement list" where
  "kick_inactive_user now u generation t =
     (case seat_index t u of
        None \<Rightarrow> (t, False, [])
      | Some i \<Rightarrow>
          if pk_generation t i \<noteq> generation \<or> max 0 (now - pk_activity t i) < from_secs SEAT_IDLE_TIMEOUT_SECS
          then (t, False, [])
          else if is_action_phase (pk_phase t) \<and> length (pk_hole t i) = 2 then
            (let t = (fold_seat i t)\<lparr>pk_leaving := (pk_leaving t)(i := True)\<rparr>;
                 (t, settlements) =
                   (if pk_active t = Some i then advance_after_action i t
                    else case active_player_indices t of
                           [winner] \<Rightarrow> finish_by_fold winner t
                         | _ \<Rightarrow> (t, []))
             in (t, True, settlements))
          else if \<not> is_action_phase (pk_phase t) \<and> pk_phase t \<noteq> PkPostingBlinds \<and> \<not> pk_settling t
          then (remove_seat i t, True, [])
          else (t, False, []))"


section \<open>Commits\<close>

text \<open>The seat is taken at each call, so the user id that the code expects is there.\<close>

definition set_pending_commit ::
  "nat \<Rightarrow> commit_kind \<Rightarrow> int \<Rightarrow> int \<Rightarrow> int \<Rightarrow> poker_table \<Rightarrow> poker_table \<times> commit_request" where
  "set_pending_commit i kind amount target_bet raise_size t =
     (let t = t\<lparr>pk_next_request := pk_next_request t + 1\<rparr>;
          request = \<lparr>cr_id = pk_next_request t, cr_user = the (pk_seats t i), cr_seat = i, cr_amount = amount,
                     cr_hand = pk_hand_id t\<rparr>
      in (t\<lparr>pk_pending := (pk_pending t)(i \<mapsto>
             \<lparr>pn_id = cr_id request, pn_kind = kind, pn_amount = amount, pn_target = target_bet,
              pn_raise = raise_size\<rparr>)\<rparr>, request))"

definition prepare_forced_commit ::
  "nat \<Rightarrow> commit_kind \<Rightarrow> int \<Rightarrow> poker_table \<Rightarrow> poker_table \<times> commit_request option" where
  "prepare_forced_commit i kind blind t =
     (if pk_seats t i = None \<or> length (pk_hole t i) \<noteq> 2 then (t, None)
      else
        let amount = max (min blind (pk_balances t i)) 0
        in if amount = 0
           then (t\<lparr>pk_folded := (pk_folded t)(i := True), pk_last_action := (pk_last_action t)(i \<mapsto> PkFold)\<rparr>, None)
           else let target_bet = pk_street t i + amount;
                    (t, request) = set_pending_commit i kind amount target_bet target_bet t
                in (t, Some request))"

definition deal_hole :: "nat \<Rightarrow> poker_table \<Rightarrow> poker_table" where
  "deal_hole i t =
     (if pk_deck t = [] then t
      else t\<lparr>pk_deck := butlast (pk_deck t), pk_hole := (pk_hole t)(i := pk_hole t i @ [last (pk_deck t)])\<rparr>)"

text \<open>The table cleared for a new hand.\<close>

definition clear_hand :: "(nat \<Rightarrow> 64 word) \<Rightarrow> poker_table \<Rightarrow> poker_table" where
  "clear_hand draws t =
     (clear_action_countdown
       (t\<lparr>pk_deck := poker_shuffle draws poker_fresh_deck, pk_community := [], pk_hole := (\<lambda>_. []),
          pk_folded := (\<lambda>_. False), pk_all_in := (\<lambda>_. False), pk_acted := (\<lambda>_. False),
          pk_last_action := (\<lambda>_. None), pk_leaving := (\<lambda>_. False), pk_committed := (\<lambda>_. 0),
          pk_street := (\<lambda>_. 0), pk_payout := (\<lambda>_. 0), pk_pending := (\<lambda>_. None), pk_winners := [],
          pk_winning_rank := None, pk_current_bet := 0, pk_min_raise := big_blind_of (pk_settings t),
          pk_pending_blinds := 0\<rparr>))\<lparr>pk_settling := False, pk_reveals := False, pk_active := None\<rparr>"

definition choose_dealer :: "uuid \<Rightarrow> poker_table \<Rightarrow> nat" where
  "choose_dealer u t =
     (case Option.bind (pk_dealer t) (next_playable_after t) of
        Some d \<Rightarrow> d
      | None \<Rightarrow>
          (case Option.bind (seat_index t u) (\<lambda>i. if pk_balances t i > 0 then Some i else None) of
             Some d \<Rightarrow> d
           | None \<Rightarrow> (case playable_indices t of d # _ \<Rightarrow> d | [] \<Rightarrow> 0)))"

definition deal_new_hand ::
  "(nat \<Rightarrow> 64 word) \<Rightarrow> uuid \<Rightarrow> uuid \<Rightarrow> poker_table \<Rightarrow> poker_table \<times> commit_request list" where
  "deal_new_hand draws hand u t =
     (let t = clear_hand draws t;
          dealer = choose_dealer u t;
          t = t\<lparr>pk_dealer := Some dealer\<rparr>;
          t = fold deal_hole (playable_indices t @ playable_indices t) t;
          (small, big) = blind_seats_for t dealer;
          t = t\<lparr>pk_small_seat := Some small, pk_big_seat := Some big, pk_phase := PkPostingBlinds,
                pk_hand_number := (if pk_hand_number t = - 1 then - 1 else pk_hand_number t + 1), pk_hand_id := hand\<rparr>;
          (t, r1) = prepare_forced_commit small CommitSmallBlind (small_blind_of (pk_settings t)) t;
          (t, r2) = (if big \<noteq> small
                     then prepare_forced_commit big CommitBigBlind (big_blind_of (pk_settings t)) t else (t, None));
          requests = List.map_filter id [r1, r2]
      in (t\<lparr>pk_pending_blinds := length requests\<rparr>, requests))"

definition start_hand ::
  "(nat \<Rightarrow> 64 word) \<Rightarrow> uuid \<Rightarrow> uuid \<Rightarrow> poker_table \<Rightarrow> poker_table \<times> commit_request list" where
  "start_hand draws hand u t =
     (if seat_index t u = None then (t, [])
      else if pk_settling t then (t, [])
      else if pk_phase t \<notin> {PkWaiting, PkShowdown} then (t, [])
      else if list_ex (\<lambda>i. pk_pending t i \<noteq> None) [0..<MAX_SEATS] then (t, [])
      else let t = remove_leave_after_hand_seats t
           in if length (playable_indices t) < 2 then (t, []) else deal_new_hand draws hand u t)"

definition validate_active_user :: "uuid \<Rightarrow> poker_table \<Rightarrow> nat option" where
  "validate_active_user u t =
     (if \<not> is_action_phase (pk_phase t) then None
      else case seat_index t u of
        None \<Rightarrow> None
      | Some i \<Rightarrow>
          if pk_pending t i \<noteq> None then None
          else if pk_active t \<noteq> Some i then None
          else if length (pk_hole t i) \<noteq> 2 \<or> pk_folded t i \<or> pk_all_in t i then None
          else Some i)"

definition commit_outcome ::
  "nat \<Rightarrow> commit_kind \<Rightarrow> int \<Rightarrow> int \<Rightarrow> int \<Rightarrow> poker_table \<Rightarrow> poker_table \<times> action_outcome" where
  "commit_outcome i kind amount target_bet raise_size t =
     (case set_pending_commit i kind amount target_bet raise_size t of (t, request) \<Rightarrow> (t, OutcomeCommit request))"

definition call_or_check :: "uuid \<Rightarrow> poker_table \<Rightarrow> poker_table \<times> action_outcome" where
  "call_or_check u t =
     (case validate_active_user u t of
        None \<Rightarrow> (t, OutcomeNone)
      | Some i \<Rightarrow>
          if to_call t i = 0
          then (case advance_after_action i (check_seat i (record_manual_action i t)) of
                  (t, settlements) \<Rightarrow> (t, OutcomeSettlements settlements))
          else
            let amount = min (to_call t i) (pk_balances t i)
            in if amount \<le> 0 then (t, OutcomeNone)
               else commit_outcome i (if amount = pk_balances t i then CommitAllIn else CommitCall) amount
                      (pk_street t i + amount) 0 (record_manual_action i t))"

definition bet_or_raise :: "uuid \<Rightarrow> int \<Rightarrow> poker_table \<Rightarrow> poker_table \<times> action_outcome" where
  "bet_or_raise u raise_by t =
     (case validate_active_user u t of
        None \<Rightarrow> (t, OutcomeNone)
      | Some i \<Rightarrow>
          if \<not> can_raise t i then (t, OutcomeNone)
          else if pk_balances t i \<le> 0 then (t, OutcomeNone)
          else
            let raise_by = max (max raise_by (pk_min_raise t)) (big_blind_of (pk_settings t));
                max_target = pk_street t i + pk_balances t i;
                target_bet = (if pk_current_bet t = 0 then min raise_by max_target
                              else min (pk_current_bet t + raise_by) max_target)
            in if target_bet \<le> pk_current_bet t \<and> target_bet < max_target then (t, OutcomeNone)
               else
                 let amount = target_bet - pk_street t i
                 in if amount \<le> 0 then (t, OutcomeNone)
                    else commit_outcome i (if amount = pk_balances t i then CommitAllIn else CommitBetRaise) amount
                           target_bet (max (target_bet - pk_current_bet t) 0) (record_manual_action i t))"

definition all_in :: "uuid \<Rightarrow> poker_table \<Rightarrow> poker_table \<times> action_outcome" where
  "all_in u t =
     (case validate_active_user u t of
        None \<Rightarrow> (t, OutcomeNone)
      | Some i \<Rightarrow>
          let amount = pk_balances t i; target_bet = pk_street t i + amount
          in if amount \<le> 0 then (t, OutcomeNone)
             else if target_bet > pk_current_bet t \<and> \<not> can_raise t i then (t, OutcomeNone)
             else commit_outcome i CommitAllIn amount target_bet (max (target_bet - pk_current_bet t) 0)
                    (record_manual_action i t))"

definition fold_hand :: "uuid \<Rightarrow> poker_table \<Rightarrow> settled_table" where
  "fold_hand u t =
     (case validate_active_user u t of
        None \<Rightarrow> (t, [])
      | Some i \<Rightarrow> advance_after_action i (fold_seat i (record_manual_action i t)))"

definition toggle_auto_check_fold :: "uuid \<Rightarrow> poker_table \<Rightarrow> poker_table" where
  "toggle_auto_check_fold u t =
     (case seat_index t u of
        None \<Rightarrow> t
      | Some i \<Rightarrow> t\<lparr>pk_auto := (pk_auto t)(i := \<not> pk_auto t i)\<rparr>)"

definition timeout_active_action :: "64 word \<Rightarrow> poker_table \<Rightarrow> poker_table \<times> poker_settlement list option" where
  "timeout_active_action countdown_id t =
     (if \<not> action_countdown_matches t countdown_id then (t, None)
      else case pk_active t of
        None \<Rightarrow> (t, None)
      | Some i \<Rightarrow>
          let t = clear_action_countdown t;
              t = t\<lparr>pk_missed := (pk_missed t)(i := min (pk_missed t i + 1) 255)\<rparr>;
              t = (if MAX_MISSED_ACTIONS \<le> pk_missed t i then t\<lparr>pk_leaving := (pk_leaving t)(i := True)\<rparr> else t)
          in case advance_after_action i (check_or_fold i t) of (t, settlements) \<Rightarrow> (t, Some settlements))"

definition reset_other_action_flags :: "nat \<Rightarrow> poker_table \<Rightarrow> poker_table" where
  "reset_other_action_flags actor t =
     t\<lparr>pk_acted := (\<lambda>i. if i < MAX_SEATS \<and> i \<noteq> actor \<and> length (pk_hole t i) = 2 \<and> \<not> pk_folded t i then False
                        else pk_acted t i)\<rparr>"

definition action_for_commit :: "commit_kind \<Rightarrow> int \<Rightarrow> poker_action" where
  "action_for_commit kind old_current_bet =
     (case kind of
        CommitSmallBlind \<Rightarrow> PkSmallBlind
      | CommitBigBlind \<Rightarrow> PkBigBlind
      | CommitCall \<Rightarrow> PkCall
      | CommitBetRaise \<Rightarrow> if old_current_bet = 0 then PkBet else PkRaise
      | CommitAllIn \<Rightarrow> PkAllIn)"

text \<open>The chips of a commit that was debited reach the pot, and its bet the street.\<close>

definition take_commit :: "nat \<Rightarrow> pending_commit \<Rightarrow> poker_table \<Rightarrow> poker_table" where
  "take_commit i p t =
     (let t = t\<lparr>pk_balances := (pk_balances t)(i := sat_i64 (pk_balances t i - pn_amount p)),
                pk_committed := (pk_committed t)(i := pk_committed t i + pn_amount p),
                pk_street := (pk_street t)(i := pk_street t i + pn_amount p)\<rparr>
      in if pk_balances t i = 0 then t\<lparr>pk_all_in := (pk_all_in t)(i := True)\<rparr> else t)"

definition raise_bet :: "nat \<Rightarrow> pending_commit \<Rightarrow> poker_table \<Rightarrow> poker_table" where
  "raise_bet i p t =
     (if pn_target p > pk_current_bet t then
        let raise_size = max (pn_raise p) (pn_target p - pk_current_bet t);
            full_raise = raise_size \<ge> pk_min_raise t;
            t = t\<lparr>pk_current_bet := pn_target p\<rparr>;
            t = (if full_raise then t\<lparr>pk_min_raise := raise_size\<rparr> else t)
        in if full_raise \<and> is_action_phase (pk_phase t) then reset_other_action_flags i t else t
      else t)"

definition apply_commit_success :: "commit_request \<Rightarrow> int \<Rightarrow> poker_table \<Rightarrow> settled_table" where
  "apply_commit_success r new_global t =
     (let i = cr_seat r
      in case pk_pending t i of
           None \<Rightarrow> (t, [])
         | Some p \<Rightarrow>
             if pn_id p \<noteq> cr_id r then (t, [])
             else
               let t = t\<lparr>pk_pending := (pk_pending t)(i := None)\<rparr>
               in if pn_amount p \<noteq> cr_amount r then (t, [])
                  else case pk_seats t i of
                         None \<Rightarrow> (t, [])
                       | Some u \<Rightarrow>
                           let t = fst (sync_global_balance_value u new_global t);
                               t = take_commit i p t;
                               old_current_bet = pk_current_bet t;
                               t = raise_bet i p t;
                               t = t\<lparr>pk_acted := (pk_acted t)(i := pn_kind p \<notin> {CommitSmallBlind, CommitBigBlind}),
                                     pk_last_action := (pk_last_action t)(i \<mapsto> action_for_commit (pn_kind p) old_current_bet)\<rparr>
                           in if pk_phase t = PkPostingBlinds then
                                let t = t\<lparr>pk_pending_blinds := pk_pending_blinds t - 1\<rparr>
                                in if pk_pending_blinds t = 0 then finish_blind_posting t else (t, [])
                              else advance_after_action i t)"

definition apply_commit_failure :: "commit_request \<Rightarrow> poker_table \<Rightarrow> settled_table" where
  "apply_commit_failure r t =
     (let i = cr_seat r
      in case pk_pending t i of
           None \<Rightarrow> (t, [])
         | Some p \<Rightarrow>
             if pn_id p \<noteq> cr_id r then (t, [])
             else
               let t = t\<lparr>pk_pending := (pk_pending t)(i := None)\<rparr>
               in if pk_phase t = PkPostingBlinds then
                    let t = t\<lparr>pk_folded := (pk_folded t)(i := True),
                              pk_last_action := (pk_last_action t)(i \<mapsto> PkFold),
                              pk_pending_blinds := pk_pending_blinds t - 1\<rparr>
                    in if pk_pending_blinds t = 0 then finish_blind_posting t else (t, [])
                  else (t, []))"

definition credit_update :: "settlement_update \<Rightarrow> poker_table \<Rightarrow> poker_table" where
  "credit_update update t =
     (let t = fst (sync_global_balance_value (su_user update) (su_global update) t)
      in if su_credit update > 0 then
           (case seat_index t (su_user update) of
              None \<Rightarrow> t
            | Some i \<Rightarrow> t\<lparr>pk_balances := (pk_balances t)(i := sat_i64 (pk_balances t i + su_credit update))\<rparr>)
         else t)"

definition complete_settlements :: "settlement_update list \<Rightarrow> poker_table \<Rightarrow> poker_table" where
  "complete_settlements updates t =
     (remove_leave_after_hand_seats (fold credit_update updates t))\<lparr>pk_settling := False\<rparr>"

definition settlement_failed :: "poker_table \<Rightarrow> poker_table" where
  "settlement_failed t = t\<lparr>pk_settling := False\<rparr>"


section \<open>Snapshots\<close>

record poker_seat =
  ss_user :: "uuid option"
  ss_card_count :: nat
  ss_revealed :: "playing_card list option"
  ss_folded :: bool
  ss_in_hand :: bool
  ss_last_action :: "poker_action option"
  ss_balance :: int
  ss_committed :: int
  ss_street :: int
  ss_all_in :: bool
  ss_pending :: bool
  ss_payout :: int

record public_snapshot =
  pb_seats :: "poker_seat list"
  pb_community :: "playing_card list"
  pb_dealer :: "nat option"
  pb_active :: "nat option"
  pb_phase :: poker_phase
  pb_hand_number :: "64 word"
  pb_winners :: "nat list"
  pb_winning_rank :: "string option"
  pb_pot :: int
  pb_current_bet :: int
  pb_min_raise :: int
  pb_small_blind :: int
  pb_big_blind :: int
  pb_starting_stack :: int
  pb_deadline :: "int option"
  pb_settling :: bool

record private_snapshot =
  pv_hole :: "playing_card list"
  pv_balance :: "int option"
  pv_global :: "int option"
  pv_to_call :: int
  pv_min_raise :: int
  pv_can_raise :: bool
  pv_auto :: bool

definition revealed_cards_for :: "poker_table \<Rightarrow> nat \<Rightarrow> playing_card list option" where
  "revealed_cards_for t i =
     (if pk_phase t \<noteq> PkShowdown \<or> \<not> pk_reveals t \<or> pk_seats t i = None \<or> pk_folded t i \<or> length (pk_hole t i) \<noteq> 2
      then None else Some (pk_hole t i))"

definition seat_snapshot :: "poker_table \<Rightarrow> nat \<Rightarrow> poker_seat" where
  "seat_snapshot t i =
     (let card_count = length (pk_hole t i)
      in \<lparr>ss_user = pk_seats t i, ss_card_count = card_count, ss_revealed = revealed_cards_for t i,
          ss_folded = (card_count > 0 \<and> pk_folded t i), ss_in_hand = (card_count > 0 \<and> pk_seats t i \<noteq> None),
          ss_last_action = pk_last_action t i, ss_balance = pk_balances t i, ss_committed = pk_committed t i,
          ss_street = pk_street t i, ss_all_in = pk_all_in t i, ss_pending = (pk_pending t i \<noteq> None),
          ss_payout = pk_payout t i\<rparr>)"

definition public_snapshot_of :: "poker_table \<Rightarrow> public_snapshot" where
  "public_snapshot_of t =
     \<lparr>pb_seats = map (seat_snapshot t) [0..<MAX_SEATS], pb_community = pk_community t, pb_dealer = pk_dealer t,
      pb_active = pk_active t, pb_phase = pk_phase t, pb_hand_number = pk_hand_number t,
      pb_winners = pk_winners t, pb_winning_rank = pk_winning_rank t, pb_pot = pot t,
      pb_current_bet = pk_current_bet t, pb_min_raise = pk_min_raise t,
      pb_small_blind = small_blind_of (pk_settings t), pb_big_blind = big_blind_of (pk_settings t),
      pb_starting_stack = starting_stack_of (pk_settings t), pb_deadline = pk_deadline t,
      pb_settling = pk_settling t\<rparr>"

definition private_snapshot_for :: "poker_table \<Rightarrow> uuid \<Rightarrow> private_snapshot" where
  "private_snapshot_for t u =
     (let seat = seat_index t u
      in \<lparr>pv_hole = (case seat of None \<Rightarrow> [] | Some i \<Rightarrow> pk_hole t i),
          pv_balance = map_option (pk_balances t) seat, pv_global = pk_global t u,
          pv_to_call = (case seat of None \<Rightarrow> 0 | Some i \<Rightarrow> to_call t i), pv_min_raise = pk_min_raise t,
          pv_can_raise = (case seat of None \<Rightarrow> False | Some i \<Rightarrow> can_raise t i),
          pv_auto = (case seat of None \<Rightarrow> False | Some i \<Rightarrow> pk_auto t i)\<rparr>)"

end
