(* ===== verification/PokerPots.thy ===== *)
theory PokerPots
  imports PokerTable
begin

text \<open>
  What the end of a hand pays (\<open>side_pots\<close>, \<open>calculate_pot_awards\<close>, \<open>credits_from_awards\<close> and the
  settlements of \<open>late-ssh/src/app/lobby/house/poker/svc.rs\<close>): the pots are layers of the chips committed,
  each shared by the best hands that reach it, so what a seat is paid has a closed form in the amounts
  committed.
\<close>


section \<open>Sharing one pot\<close>

lemma share_out_add:
  "share_out s r offset ws (\<lambda>i. f i + g i) i = f i + share_out s r offset ws g i"
proof (induction ws arbitrary: offset g)
  case (Cons w ws)
  let ?x = "s + (if offset < r then 1 else 0)"
  have "(\<lambda>i. f i + g i)(w := f w + g w + ?x) = (\<lambda>i. f i + (g(w := g w + ?x)) i)" by (rule ext) simp
  then show ?case unfolding share_out.simps by (metis Cons.IH)
qed simp

lemma share_out_out: "i \<notin> set ws \<Longrightarrow> share_out s r offset ws g i = g i"
  by (induction ws arbitrary: offset g) simp_all

lemma share_out_nonneg: "0 \<le> s \<Longrightarrow> 0 \<le> g i \<Longrightarrow> 0 \<le> share_out s r offset ws g i"
proof (induction ws arbitrary: offset g)
  case (Cons w ws)
  then show ?case unfolding share_out.simps by (intro Cons.IH) auto
qed simp

lemma sum_bump: "w < n \<Longrightarrow> (\<Sum>i<n. (g(w := g w + x)) i) = (\<Sum>i<n. g i) + x" for g :: "nat \<Rightarrow> int"
proof -
  assume w: "w < n"
  have "(\<Sum>i<n. (g(w := g w + x)) i) = (\<Sum>i<n. g i + (if i = w then x else 0))" by (rule sum.cong) auto
  then show ?thesis using w by (simp add: sum.distrib)
qed

lemma share_out_sum:
  "set ws \<subseteq> {..<n} \<Longrightarrow> (\<Sum>i<n. share_out s r offset ws g i) =
     (\<Sum>i<n. g i) + s * int (length ws) + max 0 (min (r - offset) (int (length ws)))"
proof (induction ws arbitrary: offset g)
  case (Cons w ws)
  let ?x = "s + (if offset < r then 1 else 0)"
  have "(\<Sum>i<n. share_out s r offset (w # ws) g i) =
      (\<Sum>i<n. (g(w := g w + ?x)) i) + s * int (length ws) + max 0 (min (r - (offset + 1)) (int (length ws)))"
    unfolding share_out.simps by (rule Cons.IH) (use Cons.prems in simp)
  also have "(\<Sum>i<n. (g(w := g w + ?x)) i) = (\<Sum>i<n. g i) + ?x" by (rule sum_bump) (use Cons.prems in simp)
  finally show ?case by (simp add: algebra_simps max_def min_def)
qed simp

definition award_gain :: "pot_award \<Rightarrow> nat \<Rightarrow> int" where
  "award_gain a = credit_award a (\<lambda>_. 0)"

lemma credit_award_add: "credit_award a g i = g i + award_gain a i"
  using share_out_add [of _ _ _ _ g "\<lambda>_. 0"] by (simp add: credit_award_def award_gain_def Let_def)

lemma credits_sum: "credits_from_awards awards i = sum_list (map (\<lambda>a. award_gain a i) awards)"
proof -
  have "fold credit_award awards g i = g i + sum_list (map (\<lambda>a. award_gain a i) awards)" for g
    by (induction awards arbitrary: g) (simp_all add: credit_award_add)
  then show ?thesis by (simp add: credits_from_awards_def)
qed

lemma award_gain_facts:
  assumes "0 < aw_amount a" and "aw_winners a \<noteq> []" and "set (aw_winners a) \<subseteq> {..<n}"
  shows "(\<Sum>i<n. award_gain a i) = aw_amount a" "0 \<le> award_gain a i" "i \<notin> set (aw_winners a) \<Longrightarrow> award_gain a i = 0"
    "i < n \<Longrightarrow> award_gain a i \<le> aw_amount a" "i < n \<Longrightarrow> set (aw_winners a) = {i} \<Longrightarrow> award_gain a i = aw_amount a"
proof -
  let ?n = "int (length (aw_winners a))"
  have g: "award_gain a = share_out (aw_amount a div ?n) (aw_amount a mod ?n) 0 (sort (aw_winners a)) (\<lambda>_. 0)"
    using assms(1,2) by (simp add: award_gain_def credit_award_def Let_def)
  have pos: "0 < ?n" using assms(2) by simp
  show nonneg: "0 \<le> award_gain a i" for i
    unfolding g by (rule share_out_nonneg) (use assms(1) pos in \<open>simp_all add: pos_imp_zdiv_nonneg_iff\<close>)
  show out: "i \<notin> set (aw_winners a) \<Longrightarrow> award_gain a i = 0" for i unfolding g by (simp add: share_out_out)
  have "0 \<le> aw_amount a mod ?n" "aw_amount a mod ?n < ?n" using pos by simp_all
  then have "(\<Sum>i<n. award_gain a i) = aw_amount a div ?n * ?n + aw_amount a mod ?n"
    unfolding g using assms(3) by (subst share_out_sum) (simp_all add: max_def min_def)
  then show total: "(\<Sum>i<n. award_gain a i) = aw_amount a" by simp
  show "award_gain a i \<le> aw_amount a" if "i < n"
    using sum_nonneg_leq_bound [of "{..<n}" "award_gain a" "aw_amount a" i] nonneg total that by simp
  assume i: "i < n" "set (aw_winners a) = {i}"
  then have "(\<Sum>j<n. award_gain a j) = (\<Sum>j<n. if j = i then award_gain a i else 0)"
    using out by (intro sum.cong) auto
  then show "award_gain a i = aw_amount a" using total i(1) by simp
qed


section \<open>Layers\<close>

definition layer :: "poker_table \<Rightarrow> int \<Rightarrow> int \<Rightarrow> side_pot" where
  "layer t previous level =
     \<lparr>sp_amount = (level - previous) * int (length (filter (\<lambda>i. level \<le> pk_committed t i) [0..<MAX_SEATS])),
      sp_eligible = filter (in_play t) (filter (\<lambda>i. level \<le> pk_committed t i) [0..<MAX_SEATS])\<rparr>"

lemma pots_from_layers: "pots_from t previous levels = map (\<lambda>(p, l). layer t p l) (zip (previous # levels) levels)"
  by (induction levels arbitrary: previous) (simp_all add: layer_def Let_def)

lemma count_int: "int (length (filter P [0..<n])) = (\<Sum>i<n. if P i then 1 else 0)"
  by (induction n) simp_all

definition layers_to :: "poker_table \<Rightarrow> int \<Rightarrow> int \<Rightarrow> int list \<Rightarrow> int" where
  "layers_to t x previous levels =
     sum_list (map (\<lambda>(p, l). if l \<le> x then sp_amount (layer t p l) else 0) (zip (previous # levels) levels))"

text \<open>The layers up to an amount hold what every seat committed up to it.\<close>

lemma layers_to_sum:
  assumes "sorted_wrt (<) (previous # levels)" and "x = previous \<or> x \<in> set levels"
    and "\<And>i. i < MAX_SEATS \<Longrightarrow> pk_committed t i \<le> previous \<or> pk_committed t i \<in> set levels"
  shows "layers_to t x previous levels = (\<Sum>i<MAX_SEATS. max previous (min (pk_committed t i) x) - previous)"
  using assms
proof (induction levels arbitrary: previous)
  case Nil
  then show ?case by (simp add: layers_to_def)
next
  case (Cons l levels)
  show ?case
  proof (cases "x = previous")
    case True
    have "layers_to t x previous (l # levels) = (\<Sum>_\<leftarrow>zip (previous # l # levels) (l # levels). 0)"
      unfolding layers_to_def using Cons.prems(1) True
      by (intro arg_cong [where f = sum_list] map_cong) (auto dest!: set_zip_rightD)
    then show ?thesis using True by simp
  next
    case False
    then have x: "x = l \<or> x \<in> set levels" "l \<le> x" using Cons.prems(1,2) by auto
    have closed: "pk_committed t i \<le> l \<or> pk_committed t i \<in> set levels" if "i < MAX_SEATS" for i
      using Cons.prems(1) Cons.prems(3) [OF that] by auto
    have "layers_to t x previous (l # levels) = sp_amount (layer t previous l) + layers_to t x l levels"
      using x(2) by (simp add: layers_to_def)
    also have "\<dots> = (\<Sum>i<MAX_SEATS. (l - previous) * (if l \<le> pk_committed t i then 1 else 0) +
        (max l (min (pk_committed t i) x) - l))"
      using Cons.IH [OF _ x(1) closed] Cons.prems(1)
      by (simp add: layer_def count_int sum.distrib sum_distrib_left del: MAX_SEATS_def)
    also have "\<dots> = (\<Sum>i<MAX_SEATS. max previous (min (pk_committed t i) x) - previous)"
    proof (rule sum.cong)
      fix i assume "i \<in> {..<MAX_SEATS}"
      then have "pk_committed t i \<le> previous \<or> l \<le> pk_committed t i" using Cons.prems(1) Cons.prems(3) [of i] by fastforce
      then show "(l - previous) * (if l \<le> pk_committed t i then 1 else 0) + (max l (min (pk_committed t i) x) - l) =
          max previous (min (pk_committed t i) x) - previous"
        using x(2) Cons.prems(1) by (auto simp: max_def min_def)
    qed simp
    finally show ?thesis .
  qed
qed

lemma pot_levels_facts: "sorted_wrt (<) (0 # pot_levels t)"
  "set (pot_levels t) = {a. 0 < a \<and> (\<exists>i < MAX_SEATS. a = pk_committed t i)}"
proof -
  let ?xs = "filter (\<lambda>a. a > 0) (map (pk_committed t) [0..<MAX_SEATS])"
  show s: "set (pot_levels t) = {a. 0 < a \<and> (\<exists>i < MAX_SEATS. a = pk_committed t i)}"
    by (auto simp: pot_levels_def)
  have "sorted_wrt (<) (pot_levels t)" unfolding pot_levels_def by (rule strict_remdups_adj) simp
  then show "sorted_wrt (<) (0 # pot_levels t)" using s by simp
qed

definition level_pairs :: "poker_table \<Rightarrow> (int \<times> int) list" where
  "level_pairs t = zip (0 # pot_levels t) (pot_levels t)"

lemma side_pots_layers: "side_pots t = map (\<lambda>(p, l). layer t p l) (level_pairs t)"
  by (simp add: side_pots_def pots_from_layers level_pairs_def)

lemma level_pairs_facts:
  assumes "(p, l) \<in> set (level_pairs t)"
  shows "p < l" "0 < l" "\<exists>i < MAX_SEATS. l = pk_committed t i"
proof -
  have "l \<in> set (pot_levels t)" using assms set_zip_rightD by (fastforce simp: level_pairs_def)
  then show "0 < l" "\<exists>i < MAX_SEATS. l = pk_committed t i" by (simp_all add: pot_levels_facts(2) del: MAX_SEATS_def)
  have "sorted_wrt (<) (x # ls) \<Longrightarrow> (p, l) \<in> set (zip (x # ls) ls) \<Longrightarrow> p < l" for x ls
    by (induction ls arbitrary: x) auto
  then show "p < l" using pot_levels_facts(1) assms unfolding level_pairs_def by blast
qed

lemma layer_facts:
  assumes "(p, l) \<in> set (level_pairs t)"
  shows "0 < sp_amount (layer t p l)"
    "set (sp_eligible (layer t p l)) = {i. i < MAX_SEATS \<and> l \<le> pk_committed t i \<and> in_play t i}"
proof -
  have "filter (\<lambda>i. l \<le> pk_committed t i) [0..<MAX_SEATS] \<noteq> []"
    using level_pairs_facts(3) [OF assms] by (auto simp: filter_empty_conv simp del: MAX_SEATS_def)
  then show "0 < sp_amount (layer t p l)" using level_pairs_facts(1) [OF assms] by (simp add: layer_def del: MAX_SEATS_def)
  show "set (sp_eligible (layer t p l)) = {i. i < MAX_SEATS \<and> l \<le> pk_committed t i \<and> in_play t i}"
    by (auto simp: layer_def simp del: MAX_SEATS_def)
qed

abbreviation hand_strength :: "poker_table \<Rightarrow> nat \<Rightarrow> hand_value" where
  "hand_strength t i \<equiv> eh_value (evaluate_seat t i)"

lemma award_pot_facts:
  assumes "sp_eligible p \<noteq> []"
  shows "aw_amount (award_pot t p) = sp_amount p"
    "set (aw_winners (award_pot t p)) =
       {i \<in> set (sp_eligible p). \<forall>j \<in> set (sp_eligible p). hand_strength t j \<le> hand_strength t i}"
    "aw_winners (award_pot t p) \<noteq> []"
proof -
  let ?V = "hand_strength t ` set (sp_eligible p)"
  have v: "?V \<noteq> {}" "finite ?V" using assms by simp_all
  have "map fst (filter (\<lambda>(_, hand). eh_value hand = m) (map (\<lambda>i. (i, evaluate_seat t i)) xs)) =
      filter (\<lambda>i. hand_strength t i = m) xs" for m xs by (induction xs) simp_all
  then have w: "set (aw_winners (award_pot t p)) = {i \<in> set (sp_eligible p). hand_strength t i = Max ?V}"
    by (simp add: award_pot_def Let_def image_image)
  then show "set (aw_winners (award_pot t p)) =
      {i \<in> set (sp_eligible p). \<forall>j \<in> set (sp_eligible p). hand_strength t j \<le> hand_strength t i}"
  proof -
    have "hand_strength t i = Max ?V \<longleftrightarrow> (\<forall>j \<in> set (sp_eligible p). hand_strength t j \<le> hand_strength t i)"
      if "i \<in> set (sp_eligible p)" for i
    proof
      assume "hand_strength t i = Max ?V"
      then show "\<forall>j \<in> set (sp_eligible p). hand_strength t j \<le> hand_strength t i" using Max_ge [OF v(2)] by simp
    next
      assume "\<forall>j \<in> set (sp_eligible p). hand_strength t j \<le> hand_strength t i"
      then show "hand_strength t i = Max ?V" using that by (intro Max_eqI [symmetric]) auto
    qed
    then show ?thesis unfolding w by blast
  qed
  obtain i where "i \<in> set (sp_eligible p)" "hand_strength t i = Max ?V" using Max_in [OF v(2,1)] by (metis imageE)
  then have "i \<in> set (aw_winners (award_pot t p))" unfolding w by simp
  then show "aw_winners (award_pot t p) \<noteq> []" by auto
  show "aw_amount (award_pot t p) = sp_amount p" by (simp add: award_pot_def Let_def)
qed

text \<open>What a seat takes of one layer.\<close>

definition layer_gain :: "poker_table \<Rightarrow> nat \<Rightarrow> int \<times> int \<Rightarrow> int" where
  "layer_gain t i pl =
     (let pot = layer t (fst pl) (snd pl)
      in if sp_eligible pot = [] then 0 else award_gain (award_pot t pot) i)"

abbreviation showdown_credit :: "poker_table \<Rightarrow> nat \<Rightarrow> int" where
  "showdown_credit t \<equiv> credits_from_awards (calculate_pot_awards t)"

lemma sum_list_filter: "sum_list (map f (filter P xs)) = sum_list (map (\<lambda>x. if P x then f x else 0) xs)" for f :: "'a \<Rightarrow> int"
  by (induction xs) simp_all

lemma showdown_credit_layers: "showdown_credit t i = sum_list (map (layer_gain t i) (level_pairs t))"
proof -
  have "showdown_credit t i =
      sum_list (map (\<lambda>p. if sp_eligible p \<noteq> [] \<and> sp_amount p > 0 then award_gain (award_pot t p) i else 0) (side_pots t))"
    by (simp add: credits_sum calculate_pot_awards_def sum_list_filter comp_def)
  also have "\<dots> = sum_list (map (layer_gain t i) (level_pairs t))"
    unfolding side_pots_layers map_map
    by (rule arg_cong [where f = sum_list], rule map_cong)
      (auto simp: layer_gain_def Let_def layer_facts(1))
  finally show ?thesis .
qed

lemma layer_gain_facts:
  assumes pl: "(p, l) \<in> set (level_pairs t)" and i: "i < MAX_SEATS"
  shows "0 \<le> layer_gain t i (p, l)" "layer_gain t i (p, l) \<le> sp_amount (layer t p l)"
    "\<not> in_play t i \<or> pk_committed t i < l \<Longrightarrow> layer_gain t i (p, l) = 0"
    "j < MAX_SEATS \<Longrightarrow> in_play t j \<Longrightarrow> pk_committed t i \<le> pk_committed t j \<Longrightarrow> hand_strength t i < hand_strength t j \<Longrightarrow>
       layer_gain t i (p, l) = 0"
    "in_play t i \<Longrightarrow> l \<le> pk_committed t i \<Longrightarrow>
       \<forall>j < MAX_SEATS. in_play t j \<longrightarrow> j \<noteq> i \<longrightarrow> hand_strength t j < hand_strength t i \<Longrightarrow>
       layer_gain t i (p, l) = sp_amount (layer t p l)"
proof -
  let ?pot = "layer t p l"
  have el: "set (sp_eligible ?pot) = {i. i < MAX_SEATS \<and> l \<le> pk_committed t i \<and> in_play t i}" by (rule layer_facts(2) [OF pl])
  define W where "W = {i \<in> set (sp_eligible ?pot). \<forall>j \<in> set (sp_eligible ?pot). hand_strength t j \<le> hand_strength t i}"
  have g: "0 \<le> layer_gain t i (p, l)" "layer_gain t i (p, l) \<le> sp_amount ?pot"
    "i \<notin> W \<Longrightarrow> layer_gain t i (p, l) = 0" "W = {i} \<Longrightarrow> layer_gain t i (p, l) = sp_amount ?pot"
  proof -
    consider "sp_eligible ?pot = []" | "sp_eligible ?pot \<noteq> []" by blast
    then have "0 \<le> layer_gain t i (p, l) \<and> layer_gain t i (p, l) \<le> sp_amount ?pot \<and>
      (i \<notin> W \<longrightarrow> layer_gain t i (p, l) = 0) \<and> (W = {i} \<longrightarrow> layer_gain t i (p, l) = sp_amount ?pot)"
    proof cases
      case 1
      then show ?thesis using layer_facts(1) [OF pl] by (simp add: layer_gain_def W_def)
    next
      case 2
      note a = award_pot_facts [OF 2, of t]
      have "set (aw_winners (award_pot t ?pot)) \<subseteq> {..<MAX_SEATS}" using a(2) el by auto
      note g = award_gain_facts [OF _ a(3) this, unfolded a(1), OF layer_facts(1) [OF pl]]
      have "layer_gain t i (p, l) = award_gain (award_pot t ?pot) i" using 2 by (simp add: layer_gain_def)
      moreover have "set (aw_winners (award_pot t ?pot)) = W" using a(2) by (simp add: W_def)
      ultimately show ?thesis using g(2-5) [of i] i by simp
    qed
    then show "0 \<le> layer_gain t i (p, l)" "layer_gain t i (p, l) \<le> sp_amount ?pot"
      "i \<notin> W \<Longrightarrow> layer_gain t i (p, l) = 0" "W = {i} \<Longrightarrow> layer_gain t i (p, l) = sp_amount ?pot" by blast+
  qed
  have W: "k \<in> W \<longleftrightarrow> k < MAX_SEATS \<and> l \<le> pk_committed t k \<and> in_play t k \<and>
      (\<forall>j. j < MAX_SEATS \<longrightarrow> l \<le> pk_committed t j \<longrightarrow> in_play t j \<longrightarrow> hand_strength t j \<le> hand_strength t k)" for k
    unfolding W_def el by blast
  show "0 \<le> layer_gain t i (p, l)" "layer_gain t i (p, l) \<le> sp_amount ?pot" by (rule g(1), rule g(2))
  show "\<not> in_play t i \<or> pk_committed t i < l \<Longrightarrow> layer_gain t i (p, l) = 0" by (rule g(3)) (auto simp: W)
  show "layer_gain t i (p, l) = 0" if "j < MAX_SEATS" "in_play t j" "pk_committed t i \<le> pk_committed t j"
    "hand_strength t i < hand_strength t j"
    by (rule g(3)) (use that in \<open>auto simp: W not_le intro: order_trans\<close>)
  assume best: "in_play t i" "l \<le> pk_committed t i" "\<forall>j < MAX_SEATS. in_play t j \<longrightarrow> j \<noteq> i \<longrightarrow> hand_strength t j < hand_strength t i"
  have le: "hand_strength t k \<le> hand_strength t i" if "k < MAX_SEATS" "in_play t k" for k
    using best(3) that by (cases "k = i") (auto intro: less_imp_le simp del: MAX_SEATS_def)
  have "k = i" if k: "k \<in> W" for k
  proof (rule ccontr)
    assume "k \<noteq> i"
    then have "hand_strength t k < hand_strength t i" using k best(3) by (simp add: W del: MAX_SEATS_def)
    moreover have "hand_strength t i \<le> hand_strength t k" using k best(1,2) i by (simp add: W del: MAX_SEATS_def)
    ultimately show False by simp
  qed
  moreover have "i \<in> W" using best(1,2) i le by (simp add: W del: MAX_SEATS_def)
  ultimately have "W = {i}" by blast
  then show "layer_gain t i (p, l) = sp_amount ?pot" by (rule g(4))
qed

text \<open>The chips of every seat up to an amount.\<close>

definition matched :: "poker_table \<Rightarrow> int \<Rightarrow> int" where
  "matched t x = (\<Sum>i<MAX_SEATS. min (pk_committed t i) x)"

lemma layers_matched:
  assumes "\<And>i. i < MAX_SEATS \<Longrightarrow> 0 \<le> pk_committed t i" and "x = 0 \<or> (\<exists>i < MAX_SEATS. x = pk_committed t i)"
  shows "sum_list (map (\<lambda>(p, l). if l \<le> x then sp_amount (layer t p l) else 0) (level_pairs t)) = matched t x"
proof -
  have x: "0 \<le> x" "x = 0 \<or> x \<in> set (pot_levels t)" using assms unfolding pot_levels_facts(2) by force+
  have "layers_to t x 0 (pot_levels t) = (\<Sum>i<MAX_SEATS. max 0 (min (pk_committed t i) x) - 0)"
  proof (rule layers_to_sum [OF pot_levels_facts(1) x(2)])
    fix i assume "i < MAX_SEATS"
    then show "pk_committed t i \<le> 0 \<or> pk_committed t i \<in> set (pot_levels t)" unfolding pot_levels_facts(2) by force
  qed
  also have "\<dots> = matched t x" unfolding matched_def
    by (rule sum.cong) (use assms(1) x(1) in \<open>auto simp: max_def min_def simp del: MAX_SEATS_def\<close>)
  finally show ?thesis by (simp add: layers_to_def level_pairs_def)
qed


section \<open>What a showdown pays\<close>

definition top_stake :: "poker_table \<Rightarrow> int" where
  "top_stake t = Max (set (0 # map (pk_committed t) (active_player_indices t)))"

lemma top_stake_le: "x \<le> top_stake t \<longleftrightarrow> x \<le> 0 \<or> (\<exists>i < MAX_SEATS. in_play t i \<and> x \<le> pk_committed t i)"
  by (subst top_stake_def, subst Max_ge_iff) (auto simp: active_player_indices_def simp del: MAX_SEATS_def)

lemma top_stake_in:
  assumes "\<And>i. i < MAX_SEATS \<Longrightarrow> 0 \<le> pk_committed t i"
  shows "top_stake t = 0 \<or> (\<exists>i < MAX_SEATS. top_stake t = pk_committed t i)"
  using Max_in [of "set (0 # map (pk_committed t) (active_player_indices t))"]
  by (auto simp: top_stake_def active_player_indices_def simp del: MAX_SEATS_def Max_insert)

lemma sum_sum_list: "(\<Sum>i<n. sum_list (map (f i) xs)) = sum_list (map (\<lambda>x. \<Sum>i<n. f i x) xs)" for f :: "nat \<Rightarrow> 'a \<Rightarrow> int"
  by (induction xs) (simp_all add: sum.distrib)

lemma layer_gain_sum:
  assumes pl: "(p, l) \<in> set (level_pairs t)"
  shows "(\<Sum>i<MAX_SEATS. layer_gain t i (p, l)) = (if l \<le> top_stake t then sp_amount (layer t p l) else 0)"
proof -
  have el: "sp_eligible (layer t p l) = [] \<longleftrightarrow> \<not> l \<le> top_stake t"
    using layer_facts(2) [OF pl] level_pairs_facts(2) [OF pl] unfolding top_stake_le
    by (auto simp: set_empty [symmetric] simp del: set_empty MAX_SEATS_def)
  show ?thesis
  proof (cases "sp_eligible (layer t p l) = []")
    case False
    note a = award_pot_facts [OF False, of t]
    have "set (aw_winners (award_pot t (layer t p l))) \<subseteq> {..<MAX_SEATS}"
      unfolding a(2) layer_facts(2) [OF pl] by blast
    from award_gain_facts(1) [OF _ a(3) this, unfolded a(1), OF layer_facts(1) [OF pl]] False el
    show ?thesis by (simp add: layer_gain_def)
  qed (use el in \<open>simp add: layer_gain_def\<close>)
qed

lemma showdown_total:
  assumes "\<And>i. i < MAX_SEATS \<Longrightarrow> 0 \<le> pk_committed t i"
  shows "(\<Sum>i<MAX_SEATS. showdown_credit t i) = matched t (top_stake t)"
proof -
  have "(\<Sum>i<MAX_SEATS. showdown_credit t i) = sum_list (map (\<lambda>pl. \<Sum>i<MAX_SEATS. layer_gain t i pl) (level_pairs t))"
    by (simp only: showdown_credit_layers sum_sum_list)
  also have "\<dots> = sum_list (map (\<lambda>(p, l). if l \<le> top_stake t then sp_amount (layer t p l) else 0) (level_pairs t))"
    by (rule arg_cong [where f = sum_list], rule map_cong [OF refl]) (auto simp: layer_gain_sum simp del: MAX_SEATS_def)
  finally show ?thesis using layers_matched [OF assms top_stake_in [OF assms]] by simp
qed

lemma sum_list_bound: "(\<And>x. x \<in> set xs \<Longrightarrow> f x \<le> (g x :: int)) \<Longrightarrow> sum_list (map f xs) \<le> sum_list (map g xs)"
  by (induction xs) (simp_all add: add_mono)

lemma showdown_credit_facts:
  assumes nn: "\<And>i. i < MAX_SEATS \<Longrightarrow> 0 \<le> pk_committed t i" and i: "i < MAX_SEATS"
  shows "0 \<le> showdown_credit t i" "showdown_credit t i \<le> matched t (pk_committed t i)"
    "\<not> in_play t i \<or> pk_committed t i = 0 \<Longrightarrow> showdown_credit t i = 0"
    "j < MAX_SEATS \<Longrightarrow> in_play t j \<Longrightarrow> pk_committed t i \<le> pk_committed t j \<Longrightarrow> hand_strength t i < hand_strength t j \<Longrightarrow>
       showdown_credit t i = 0"
    "in_play t i \<Longrightarrow> \<forall>j < MAX_SEATS. in_play t j \<longrightarrow> j \<noteq> i \<longrightarrow> hand_strength t j < hand_strength t i \<Longrightarrow>
       showdown_credit t i = matched t (pk_committed t i)"
proof -
  let ?upto = "\<lambda>(p, l). if l \<le> pk_committed t i then sp_amount (layer t p l) else 0"
  note g = layer_gain_facts [OF _ i]
  have m: "sum_list (map ?upto (level_pairs t)) = matched t (pk_committed t i)"
    by (rule layers_matched [OF nn], assumption, intro disjI2 exI conjI, rule i, rule refl)
  have zero: "showdown_credit t i = 0" if "\<And>p l. (p, l) \<in> set (level_pairs t) \<Longrightarrow> layer_gain t i (p, l) = 0"
  proof -
    have "map (layer_gain t i) (level_pairs t) = map (\<lambda>_. 0) (level_pairs t)" by (rule map_cong) (use that in auto)
    then show ?thesis unfolding showdown_credit_layers by (simp only: sum_list_0)
  qed
  show "0 \<le> showdown_credit t i" unfolding showdown_credit_layers
    by (rule sum_list_nonneg) (use g(1) in auto)
  show "showdown_credit t i \<le> matched t (pk_committed t i)" unfolding showdown_credit_layers m [symmetric]
  proof (rule sum_list_bound, clarsimp, intro conjI impI)
    fix p l assume pl: "(p, l) \<in> set (level_pairs t)"
    show "layer_gain t i (p, l) \<le> sp_amount (layer t p l)" by (rule g(2) [OF pl])
    assume "\<not> l \<le> pk_committed t i"
    then show "layer_gain t i (p, l) \<le> 0" using g(3) [OF pl] by simp
  qed
  show "showdown_credit t i = 0" if "\<not> in_play t i \<or> pk_committed t i = 0"
    by (rule zero) (use that g(3) level_pairs_facts(2) in fastforce)
  show "showdown_credit t i = 0" if "j < MAX_SEATS" "in_play t j" "pk_committed t i \<le> pk_committed t j"
    "hand_strength t i < hand_strength t j" by (rule zero) (rule g(4) [OF _ that])
  assume best: "in_play t i" "\<forall>j < MAX_SEATS. in_play t j \<longrightarrow> j \<noteq> i \<longrightarrow> hand_strength t j < hand_strength t i"
  have "map (layer_gain t i) (level_pairs t) = map ?upto (level_pairs t)"
  proof (rule map_cong, simp, clarsimp, intro conjI impI)
    fix p l assume pl: "(p, l) \<in> set (level_pairs t)"
    show "layer_gain t i (p, l) = sp_amount (layer t p l)" if "l \<le> pk_committed t i" by (rule g(5) [OF pl best(1) that best(2)])
    show "layer_gain t i (p, l) = 0" if "\<not> l \<le> pk_committed t i" using g(3) [OF pl] that by simp
  qed
  then show "showdown_credit t i = matched t (pk_committed t i)" unfolding showdown_credit_layers m [symmetric] by (simp only:)
qed

lemma sum_settlements:
  "sum_list (map se_credit (List.map_filter (\<lambda>i. case s i of None \<Rightarrow> None | Some u \<Rightarrow>
       if c i > 0 then Some \<lparr>se_user = u, se_hand = h, se_credit = f i\<rparr> else None) [0..<n])) =
   (\<Sum>i<n. if s i \<noteq> None \<and> c i > (0 :: int) then f i else 0)"
  unfolding List.map_filter_def by (induction n) (simp_all split: option.splits)

lemma credits_paid:
  assumes "\<And>i. i < MAX_SEATS \<Longrightarrow> 0 \<le> pk_committed t i"
  shows "sum_list (map se_credit (settlements_from_credits t (showdown_credit t))) = (\<Sum>i<MAX_SEATS. showdown_credit t i)"
proof -
  have "(if pk_seats t i \<noteq> None \<and> pk_committed t i > 0 then showdown_credit t i else 0) = showdown_credit t i" if "i < MAX_SEATS" for i
    using showdown_credit_facts(3) [OF assms that] assms [OF that] by (auto simp: in_play_def)
  then show ?thesis unfolding settlements_from_credits_def sum_settlements by (intro sum.cong) auto
qed

lemma settlements_same:
  assumes "pk_seats t' = pk_seats t" and "pk_committed t' = pk_committed t" and "pk_hand_id t' = pk_hand_id t"
  shows "settlements_from_credits t' credits = settlements_from_credits t credits"
    "settlements_for_single_winner t' w = settlements_for_single_winner t w"
  unfolding settlements_from_credits_def settlements_for_single_winner_def pot_def assms by (rule refl)+

lemma finish_showdown_settlements:
  "active_player_indices t \<noteq> [] \<Longrightarrow> snd (finish_showdown t) = settlements_from_credits t (showdown_credit t)"
  by (auto simp: finish_showdown_def Let_def clear_action_countdown_def intro: settlements_same(1))

text \<open>C13. What a showdown pays. With every commit nonnegative, the settlements pay out every chip up to the
  highest stake still in play, and nothing else. A seat is never paid more than the others matched, a seat
  that folded or is beaten by one that put in as much gets nothing, and the one best hand takes every chip
  that its stake matched.\<close>

theorem showdown_pays_exact:
  assumes "\<forall>i < MAX_SEATS. 0 \<le> pk_committed t i"
  shows "sum_list (map se_credit (snd (finish_showdown t))) = matched t (top_stake t) \<and>
    (\<forall>i < MAX_SEATS.
       0 \<le> showdown_credit t i \<and> showdown_credit t i \<le> matched t (pk_committed t i) \<and>
       (\<not> in_play t i \<longrightarrow> showdown_credit t i = 0) \<and>
       (\<forall>j < MAX_SEATS. in_play t j \<longrightarrow> pk_committed t i \<le> pk_committed t j \<longrightarrow> hand_strength t i < hand_strength t j \<longrightarrow>
          showdown_credit t i = 0) \<and>
       (in_play t i \<longrightarrow> (\<forall>j < MAX_SEATS. in_play t j \<longrightarrow> j \<noteq> i \<longrightarrow> hand_strength t j < hand_strength t i) \<longrightarrow>
          showdown_credit t i = matched t (pk_committed t i)))"
proof -
  have nn: "\<And>i. i < MAX_SEATS \<Longrightarrow> 0 \<le> pk_committed t i" using assms by blast
  have "sum_list (map se_credit (snd (finish_showdown t))) = matched t (top_stake t)"
  proof (cases "active_player_indices t = []")
    case True
    then have "top_stake t = 0" "snd (finish_showdown t) = []"
      by (simp_all add: top_stake_def finish_showdown_def back_to_waiting_def)
    moreover have "matched t 0 = (\<Sum>i<MAX_SEATS. 0)" unfolding matched_def
      by (rule sum.cong) (use nn in \<open>auto simp: min_def simp del: MAX_SEATS_def intro: antisym\<close>)
    ultimately show ?thesis by simp
  next
    case False
    then show ?thesis using finish_showdown_settlements credits_paid [OF nn] showdown_total [OF nn] by simp
  qed
  then show ?thesis using showdown_credit_facts [OF nn] by blast
qed

text \<open>A table at the showdown: a short stack all in, a folded seat and two that went on.\<close>

definition sample_showdown :: poker_table where
  "sample_showdown =
     (let c = (\<lambda>r s. \<lparr>pc_suit = s, pc_rank = r\<rparr>)
      in (new_table 0 1 default_settings)
        \<lparr>pk_seats := (!) [Some 1, Some 2, Some 3, Some 4], pk_phase := PkRiver,
         pk_hole := (!) [[c FaceAce Spades, c FaceAce Hearts], [c FaceKing Spades, c FaceKing Hearts],
                     [c FaceQueen Spades, c FaceQueen Hearts], [c FaceJack Spades, c FaceJack Hearts]],
         pk_folded := (!) [False, False, False, True],
         pk_community := [c (FaceNumber 2) Clubs, c (FaceNumber 3) Diamonds, c (FaceNumber 7) Clubs,
                          c (FaceNumber 9) Diamonds, c (FaceNumber 10) Clubs],
         pk_committed := (!) [50, 100, 100, 20]\<rparr>)"

theorem showdown_pays_exact_witness:
  "map se_credit (snd (finish_showdown sample_showdown)) = [170, 100, 0, 0] \<and>
   showdown_credit sample_showdown 0 = matched sample_showdown 50"
proof -
  have "\<forall>i < MAX_SEATS. 0 \<le> pk_committed sample_showdown i" by code_simp
  moreover have "in_play sample_showdown 0" "pk_committed sample_showdown 0 = 50"
    "\<forall>j < MAX_SEATS. in_play sample_showdown j \<longrightarrow> j \<noteq> 0 \<longrightarrow> hand_strength sample_showdown j < hand_strength sample_showdown 0"
    by code_simp+
  moreover have "map se_credit (snd (finish_showdown sample_showdown)) = [170, 100, 0, 0]" by code_simp
  ultimately show ?thesis using showdown_pays_exact [of sample_showdown] by (metis MAX_SEATS_def zero_less_numeral)
qed

end
