(* ===== verification/PokerRules.thy ===== *)
theory PokerRules
  imports PokerPots
begin

text \<open>
  The invariant of the poker table and what each operation of \<open>SharedState\<close>
  (\<open>late-ssh/src/app/lobby/house/poker/svc.rs\<close>) does to it: the seats and their stacks, the cards, the
  phases of a hand with the seat to act, and the settlements that end a hand.
\<close>


declare MAX_SEATS_def [simp del]

section \<open>Invariant\<close>

definition one_seat_each :: "(nat \<Rightarrow> uuid option) \<Rightarrow> bool" where
  "one_seat_each seats \<longleftrightarrow>
     (\<forall>i < MAX_SEATS. \<forall>j < MAX_SEATS. seats i \<noteq> None \<longrightarrow> seats i = seats j \<longrightarrow> i = j)"

definition seats_ok :: "poker_table \<Rightarrow> bool" where
  "seats_ok t \<longleftrightarrow>
     one_seat_each (pk_seats t) \<and>
     (\<forall>i < MAX_SEATS. pk_seats t i = None \<longrightarrow>
        pk_hole t i = [] \<and> pk_pending t i = None \<and> pk_committed t i = 0 \<and> pk_balances t i = 0)"

definition chips_ok :: "poker_table \<Rightarrow> bool" where
  "chips_ok t \<longleftrightarrow>
     (\<forall>i < MAX_SEATS. 0 \<le> pk_balances t i \<and> pk_balances t i < 2 ^ 63 \<and> 0 \<le> pk_committed t i \<and>
        (pk_hole t i = [] \<longrightarrow> pk_committed t i = 0))"

text \<open>Every card in a hand, on the board and in the stock.\<close>

definition cards_out :: "poker_table \<Rightarrow> playing_card list" where
  "cards_out t = concat (map (pk_hole t) [0..<MAX_SEATS]) @ pk_community t @ pk_deck t"

definition live :: "poker_table \<Rightarrow> bool" where
  "live t \<longleftrightarrow> pk_phase t = PkPostingBlinds \<or> is_action_phase (pk_phase t)"

definition cards_ok :: "poker_table \<Rightarrow> bool" where
  "cards_ok t \<longleftrightarrow>
     (\<forall>i < MAX_SEATS. pk_hole t i = [] \<or> length (pk_hole t i) = 2) \<and>
     mset (cards_out t) \<subseteq># mset poker_fresh_deck \<and> length (pk_community t) \<le> 5 \<and>
     (live t \<longrightarrow> 5 \<le> length (pk_community t) + length (pk_deck t))"

primrec street_cards :: "poker_phase \<Rightarrow> nat" where
  "street_cards PkWaiting = 0"
| "street_cards PkPostingBlinds = 0"
| "street_cards PkPreFlop = 0"
| "street_cards PkFlop = 3"
| "street_cards PkTurn = 4"
| "street_cards PkRiver = 5"
| "street_cards PkShowdown = 0"

definition pending_seats :: "poker_table \<Rightarrow> nat set" where
  "pending_seats t = {i. i < MAX_SEATS \<and> pk_pending t i \<noteq> None}"

definition pending_ok :: "poker_table \<Rightarrow> bool" where
  "pending_ok t \<longleftrightarrow>
     (\<forall>i < MAX_SEATS. \<forall>p. pk_pending t i = Some p \<longrightarrow>
        0 < pn_amount p \<and> pn_amount p \<le> pk_balances t i \<and> in_play t i \<and> \<not> pk_all_in t i)"

text \<open>Posting the blinds, acting, and between hands.\<close>

definition posting_ok :: "poker_table \<Rightarrow> bool" where
  "posting_ok t \<longleftrightarrow>
     \<not> pk_settling t \<and> pk_active t = None \<and> pk_deadline t = None \<and> pk_community t = [] \<and>
     0 < pk_pending_blinds t \<and> card (pending_seats t) = pk_pending_blinds t"

definition acting_ok :: "poker_table \<Rightarrow> bool" where
  "acting_ok t \<longleftrightarrow>
     \<not> pk_settling t \<and> length (pk_community t) = street_cards (pk_phase t) \<and> 2 \<le> length (active_player_indices t) \<and>
     (\<exists>a < MAX_SEATS. pk_active t = Some a \<and> in_play t a \<and> \<not> pk_all_in t a \<and> pending_seats t \<subseteq> {a} \<and>
        (pk_deadline t \<noteq> None \<longrightarrow> pk_pending t a = None))"

definition resting_ok :: "poker_table \<Rightarrow> bool" where
  "resting_ok t \<longleftrightarrow> pk_active t = None \<and> pk_deadline t = None \<and> pending_seats t = {}"

definition poker_ok :: "poker_table \<Rightarrow> bool" where
  "poker_ok t \<longleftrightarrow>
     seats_ok t \<and> chips_ok t \<and> cards_ok t \<and> pending_ok t \<and>
     (pk_phase t = PkPostingBlinds \<longrightarrow> posting_ok t) \<and> (is_action_phase (pk_phase t) \<longrightarrow> acting_ok t) \<and>
     (\<not> live t \<longrightarrow> resting_ok t)"

text \<open>A hand with no commit under way, before the next seat to act is found.\<close>

definition calm :: "poker_table \<Rightarrow> bool" where
  "calm t \<longleftrightarrow> seats_ok t \<and> chips_ok t \<and> cards_ok t \<and> live t \<and> pending_seats t = {} \<and> \<not> pk_settling t"

definition between_ok :: "poker_table \<Rightarrow> bool" where
  "between_ok t \<longleftrightarrow> calm t \<and> length (pk_community t) = street_cards (pk_phase t)"

definition paid_within :: "uuid \<Rightarrow> int \<Rightarrow> poker_settlement list \<Rightarrow> bool" where
  "paid_within h x ss \<longleftrightarrow>
     (\<forall>s \<in> set ss. se_hand s = h \<and> 0 \<le> se_credit s) \<and> sum_list (map se_credit ss) \<le> x"

text \<open>What a step that neither starts a hand nor moves a commit does.\<close>

definition table_step :: "poker_table \<Rightarrow> poker_table \<Rightarrow> poker_settlement list \<Rightarrow> bool" where
  "table_step t t' ss \<longleftrightarrow>
     poker_ok t' \<and> pk_hand_id t' = pk_hand_id t \<and>
     (\<forall>i < MAX_SEATS. pk_pending t' i = pk_pending t i \<and> (pk_pending t i \<noteq> None \<longrightarrow> pk_seats t' i = pk_seats t i)) \<and>
     (live t' \<longrightarrow> live t \<and> pot t' = pot t) \<and>
     (pk_settling t' \<longleftrightarrow> pk_settling t \<or> ss \<noteq> []) \<and>
     (ss \<noteq> [] \<longrightarrow> live t \<and> \<not> live t' \<and> paid_within (pk_hand_id t) (pot t) ss)"

lemmas ok_defs = seats_ok_def chips_ok_def cards_ok_def pending_ok_def posting_ok_def acting_ok_def resting_ok_def

lemma phases: "is_action_phase p \<Longrightarrow> p \<noteq> PkPostingBlinds \<and> p \<noteq> PkWaiting \<and> p \<noteq> PkShowdown"
  by (auto simp: is_action_phase_def)

lemma not_live: "\<not> live t \<longleftrightarrow> pk_phase t = PkWaiting \<or> pk_phase t = PkShowdown"
  by (cases "pk_phase t") (auto simp: live_def is_action_phase_def)

lemma is_action_phase_simps [simp]: "is_action_phase PkPreFlop" "is_action_phase PkFlop" "is_action_phase PkTurn"
  "is_action_phase PkRiver" "\<not> is_action_phase PkWaiting" "\<not> is_action_phase PkShowdown" "\<not> is_action_phase PkPostingBlinds"
  by (simp_all add: is_action_phase_def)

text \<open>The parts of the invariant only read some fields.\<close>

lemma seats_ok_same:
  "seats_ok t \<Longrightarrow> pk_seats t' = pk_seats t \<Longrightarrow> pk_hole t' = pk_hole t \<Longrightarrow> pk_pending t' = pk_pending t \<Longrightarrow>
     pk_committed t' = pk_committed t \<Longrightarrow> pk_balances t' = pk_balances t \<Longrightarrow> seats_ok t'"
  by (simp add: seats_ok_def)

lemma chips_ok_same:
  "chips_ok t \<Longrightarrow> pk_balances t' = pk_balances t \<Longrightarrow> pk_committed t' = pk_committed t \<Longrightarrow> pk_hole t' = pk_hole t \<Longrightarrow> chips_ok t'"
  by (simp only: chips_ok_def)

lemma cards_ok_same:
  "cards_ok t \<Longrightarrow> pk_hole t' = pk_hole t \<Longrightarrow> pk_community t' = pk_community t \<Longrightarrow> pk_deck t' = pk_deck t \<Longrightarrow>
     (live t' \<Longrightarrow> live t) \<Longrightarrow> cards_ok t'"
  by (auto simp: cards_ok_def cards_out_def)

lemma pending_seats_same: "pk_pending t' = pk_pending t \<Longrightarrow> pending_seats t' = pending_seats t"
  by (simp only: pending_seats_def)

text \<open>A step may start from any table that agrees on what it mentions.\<close>

lemma table_step_from:
  assumes "table_step t1 t' ss" and "pk_hand_id t1 = pk_hand_id t"
    and "\<And>i. i < MAX_SEATS \<Longrightarrow> pk_pending t1 i = pk_pending t i" and "\<And>i. i < MAX_SEATS \<Longrightarrow> pk_seats t1 i = pk_seats t i"
    and "live t1 \<Longrightarrow> live t" and "pot t1 = pot t" and "pk_settling t1 = pk_settling t"
  shows "table_step t t' ss"
  using assms unfolding table_step_def by simp

lemma table_step_trans:
  assumes "table_step t t1 ss1" and "table_step t1 t2 ss2"
  shows "table_step t t2 (ss1 @ ss2)"
proof (cases "ss1 = []")
  case True
  with assms show ?thesis unfolding table_step_def by auto
next
  case False
  then have "\<not> live t1" using assms(1) by (simp add: table_step_def)
  then have "ss2 = []" "\<not> live t2" using assms(2) by (auto simp: table_step_def)
  with assms False show ?thesis unfolding table_step_def by auto
qed


section \<open>The end of a hand\<close>

lemma pot_sum: "pot t = (\<Sum>i<MAX_SEATS. pk_committed t i)"
  by (simp add: pot_def interv_sum_list_conv_sum_set_nat atLeast0LessThan del: MAX_SEATS_def)

lemma pot_nonneg: "chips_ok t \<Longrightarrow> 0 \<le> pot t"
  unfolding pot_sum by (rule sum_nonneg) (simp add: chips_ok_def)

lemma matched_le_pot: "matched t x \<le> pot t"
  unfolding pot_sum matched_def by (rule sum_mono) simp

lemma settlement_hands:
  "s \<in> set (settlements_from_credits t credits) \<Longrightarrow> se_hand s = pk_hand_id t \<and> (\<exists>i < MAX_SEATS. se_credit s = credits i)"
  "s \<in> set (settlements_for_single_winner t w) \<Longrightarrow> se_hand s = pk_hand_id t \<and> (se_credit s = pot t \<or> se_credit s = 0)"
  by (auto simp: settlements_from_credits_def settlements_for_single_winner_def List.map_filter_def
      simp del: MAX_SEATS_def split: option.splits if_splits)

lemma resting_step:
  assumes "calm t" and "\<not> live t'" and "pk_active t' = None" and "pk_deadline t' = None"
    and same: "pk_seats t' = pk_seats t" "pk_balances t' = pk_balances t" "pk_committed t' = pk_committed t"
      "pk_hole t' = pk_hole t" "pk_pending t' = pk_pending t" "pk_hand_id t' = pk_hand_id t"
      "pk_community t' = pk_community t" "pk_deck t' = pk_deck t"
    and "pk_settling t' \<longleftrightarrow> ss \<noteq> []" and "ss \<noteq> [] \<Longrightarrow> paid_within (pk_hand_id t) (pot t) ss"
  shows "table_step t t' ss"
proof -
  have none: "pk_pending t i = None" if "i < MAX_SEATS" for i using assms(1) that by (auto simp: calm_def pending_seats_def)
  have "\<not> is_action_phase (pk_phase t')" "pk_phase t' \<noteq> PkPostingBlinds" using assms(2) by (auto simp: live_def)
  moreover have "seats_ok t" "chips_ok t" "cards_ok t" using assms(1) by (simp_all add: calm_def)
  then have "seats_ok t'" "chips_ok t'" "cards_ok t'"
    using assms(2) same seats_ok_same [of t t'] chips_ok_same [of t t'] cards_ok_same [of t t'] by simp_all
  moreover have "pending_ok t'" "resting_ok t'" using none assms(3,4) same by (auto simp: pending_ok_def resting_ok_def pending_seats_def)
  ultimately have "poker_ok t'" by (simp add: poker_ok_def)
  then show ?thesis using assms(1,2,9-) same by (auto simp: table_step_def calm_def)
qed

lemma back_to_waiting_step: "calm t \<Longrightarrow> back_to_waiting t = (t', ss) \<Longrightarrow> table_step t t' ss"
  by (rule resting_step) (auto simp: back_to_waiting_def clear_action_countdown_def live_def calm_def)

lemma fold_win_paid:
  "snd (finish_by_fold w t) = settlements_for_single_winner t w"
  "w < MAX_SEATS \<Longrightarrow> sum_list (map se_credit (settlements_for_single_winner t w)) =
     (if pk_seats t w \<noteq> None \<and> 0 < pk_committed t w then pot t else 0)"
proof -
  show "snd (finish_by_fold w t) = settlements_for_single_winner t w"
    by (auto simp: finish_by_fold_def Let_def clear_action_countdown_def intro: settlements_same(2))
  assume w: "w < MAX_SEATS"
  have "sum_list (map se_credit (settlements_for_single_winner t w)) =
      (\<Sum>i<MAX_SEATS. if i = w then (if pk_seats t w \<noteq> None \<and> 0 < pk_committed t w then pot t else 0) else 0)"
    unfolding settlements_for_single_winner_def sum_settlements by (rule sum.cong) auto
  then show "sum_list (map se_credit (settlements_for_single_winner t w)) =
     (if pk_seats t w \<noteq> None \<and> 0 < pk_committed t w then pot t else 0)" using w by simp
qed

lemma finish_by_fold_step:
  assumes c: "calm t" and w: "w < MAX_SEATS" and f: "finish_by_fold w t = (t', ss)"
  shows "table_step t t' ss"
proof (rule resting_step [OF c])
  have ss: "ss = settlements_for_single_winner t w" using fold_win_paid(1) [of w t] f by simp
  have "0 \<le> pot t" using c pot_nonneg by (simp add: calm_def)
  then show "paid_within (pk_hand_id t) (pot t) ss"
    unfolding paid_within_def ss fold_win_paid(2) [OF w] by (auto dest: settlement_hands(2))
qed (use f in \<open>auto simp: finish_by_fold_def Let_def clear_action_countdown_def live_def\<close>)

lemma finish_showdown_step:
  assumes c: "calm t" and f: "finish_showdown t = (t', ss)"
  shows "table_step t t' ss"
proof (cases "active_player_indices t = []")
  case True
  then show ?thesis using back_to_waiting_step [OF c] f by (simp add: finish_showdown_def)
next
  case False
  have nn: "\<And>i. i < MAX_SEATS \<Longrightarrow> 0 \<le> pk_committed t i" using c by (simp add: calm_def chips_ok_def)
  have ss: "ss = settlements_from_credits t (showdown_credit t)" using finish_showdown_settlements [OF False] f by simp
  show ?thesis
  proof (rule resting_step [OF c])
    show "paid_within (pk_hand_id t) (pot t) ss"
    proof -
      have "0 \<le> showdown_credit t i" if "i < MAX_SEATS" for i by (rule showdown_credit_facts(1)) (use nn that in auto)
      moreover have "sum_list (map se_credit ss) = matched t (top_stake t)" unfolding ss using credits_paid showdown_total nn by simp
      ultimately show ?thesis using matched_le_pot [of t "top_stake t"]
        unfolding paid_within_def by (auto simp: ss dest!: settlement_hands(1))
    qed
  qed (use f False in \<open>auto simp: finish_showdown_def Let_def clear_action_countdown_def live_def\<close>)
qed


section \<open>Dealing\<close>

lemma deal_one_pow:
  "n \<le> length (pk_deck t) \<Longrightarrow> (deal_one ^^ n) t =
     t\<lparr>pk_deck := take (length (pk_deck t) - n) (pk_deck t),
       pk_community := pk_community t @ rev (drop (length (pk_deck t) - n) (pk_deck t))\<rparr>"
proof (induction n arbitrary: t)
  case (Suc n)
  then obtain d x where d: "pk_deck t = d @ [x]" by (cases "pk_deck t" rule: rev_cases) auto
  then have n: "n \<le> length d" using Suc.prems by simp
  have "(deal_one ^^ Suc n) t = (deal_one ^^ n) (t\<lparr>pk_deck := d, pk_community := pk_community t @ [x]\<rparr>)"
    by (simp add: funpow_swap1 deal_one_def d)
  also have "\<dots> = t\<lparr>pk_deck := take (length d - n) d, pk_community := (pk_community t @ [x]) @ rev (drop (length d - n) d)\<rparr>"
    by (subst Suc.IH) (use n in simp_all)
  finally show ?case unfolding d using n by simp
qed simp

text \<open>The board is dealt from the end of the stock; the cards out stay the same.\<close>

definition dealt_on :: "nat \<Rightarrow> poker_table \<Rightarrow> poker_table \<Rightarrow> bool" where
  "dealt_on n t t' \<longleftrightarrow>
     (\<exists>d b. t' = t\<lparr>pk_deck := d, pk_community := b\<rparr> \<and> mset b + mset d = mset (pk_community t) + mset (pk_deck t) \<and>
        length b = length (pk_community t) + n)"

lemma deal_community_on: "n \<le> length (pk_deck t) \<Longrightarrow> dealt_on n t (deal_community n t)"
proof -
  assume n: "n \<le> length (pk_deck t)"
  let ?k = "length (pk_deck t) - n"
  have "mset (take ?k (pk_deck t)) + mset (drop ?k (pk_deck t)) = mset (pk_deck t)" by (metis append_take_drop_id mset_append)
  then show ?thesis unfolding dealt_on_def deal_community_def deal_one_pow [OF n]
    using n by (intro exI [of _ "take ?k (pk_deck t)"] exI [of _ "pk_community t @ rev (drop ?k (pk_deck t))"])
      (simp add: ac_simps)
qed

text \<open>\<open>while self.community.len() < 5\<close> ends with a full board when the stock has the cards.\<close>

lemma deal_remaining_on:
  assumes "length (pk_community t) \<le> 5" and "5 \<le> length (pk_community t) + length (pk_deck t)"
  shows "dealt_on (5 - length (pk_community t)) t (deal_remaining_community t)"
proof -
  have "deal_remaining_community t = deal_community n t"
    if "length (pk_community t) + n = 5" "n \<le> length (pk_deck t)" for n t
    using that
  proof (induction n arbitrary: t)
    case 0
    then show ?case by (simp add: deal_remaining_community_def while_unfold deal_community_def)
  next
    case (Suc n)
    then have ne: "pk_deck t \<noteq> []" by auto
    have "deal_remaining_community t = deal_remaining_community (deal_one t)"
      unfolding deal_remaining_community_def using Suc.prems(1) by (subst while_unfold) (simp add: deal_community_def)
    also have "\<dots> = deal_community n (deal_one t)"
      by (rule Suc.IH) (use Suc.prems ne in \<open>simp_all add: deal_one_def\<close>)
    finally show ?case by (simp add: deal_community_def funpow_swap1)
  qed
  from this [of t "5 - length (pk_community t)"] show ?thesis using assms deal_community_on [of "5 - length (pk_community t)" t] by simp
qed

lemma dealt_calm:
  assumes "dealt_on n t t'" and "calm t" and "length (pk_community t) + n \<le> 5"
  shows "calm t'" "length (pk_community t') = length (pk_community t) + n"
proof -
  from assms(1) obtain d b where t': "t' = t\<lparr>pk_deck := d, pk_community := b\<rparr>"
    and m: "mset b + mset d = mset (pk_community t) + mset (pk_deck t)" and l: "length b = length (pk_community t) + n"
    unfolding dealt_on_def by blast
  have size: "length b + length d = length (pk_community t) + length (pk_deck t)" using arg_cong [OF m, of size] by simp
  have "cards_ok t" "live t" using assms(2) by (simp_all add: calm_def)
  then have "cards_ok t'" using assms(3) l m size unfolding cards_ok_def cards_out_def live_def t' by simp
  moreover have "seats_ok t'" "chips_ok t'"
    using assms(2) seats_ok_same [of t t'] chips_ok_same [of t t'] by (simp_all add: calm_def t')
  ultimately show "calm t'" using assms(2) unfolding calm_def t' by (simp add: live_def pending_seats_def)
  show "length (pk_community t') = length (pk_community t) + n" using l t' by simp
qed

lemma in_play_same:
  assumes "pk_seats t' = pk_seats t" and "pk_hole t' = pk_hole t" and "pk_folded t' = pk_folded t"
  shows "in_play t' = in_play t" "active_player_indices t' = active_player_indices t"
proof -
  show "in_play t' = in_play t" using assms by (intro ext) (simp add: in_play_def)
  then show "active_player_indices t' = active_player_indices t" by (simp add: active_player_indices_def)
qed

lemma dealt_same:
  assumes "dealt_on n t t'"
  shows "pk_seats t' = pk_seats t" "pk_pending t' = pk_pending t" "pk_hand_id t' = pk_hand_id t" "live t' = live t"
    "pot t' = pot t" "pk_settling t' = pk_settling t" "active_player_indices t' = active_player_indices t"
  using assms in_play_same(2) [of t' t] by (auto simp: dealt_on_def live_def pot_def)

lemma runout_step:
  assumes c: "calm t" and f: "finish_showdown (deal_remaining_community t) = (t', ss)"
  shows "table_step t t' ss"
proof -
  have l: "length (pk_community t) \<le> 5" "5 \<le> length (pk_community t) + length (pk_deck t)"
    using c by (simp_all add: calm_def cards_ok_def)
  note d = deal_remaining_on [OF l]
  have "calm (deal_remaining_community t)" using dealt_calm(1) [OF d c] l(1) by simp
  from finish_showdown_step [OF this f] show ?thesis
    by (rule table_step_from) (simp_all only: dealt_same [OF d])
qed


section \<open>The next seat to act\<close>

lemma seats_after_set: "start < MAX_SEATS \<Longrightarrow> set (seats_after start) = {..<MAX_SEATS}"
proof -
  assume "start < MAX_SEATS"
  then have "start = 0 \<or> start = 1 \<or> start = 2 \<or> start = 3" by (auto simp: MAX_SEATS_def)
  then show ?thesis by (elim disjE) (auto simp: seats_after_def MAX_SEATS_def upt_rec)
qed

lemma seats_after_lt: "i \<in> set (seats_after start) \<Longrightarrow> i < MAX_SEATS"
  by (auto simp: seats_after_def MAX_SEATS_def)

lemma seats_after_all: "i < MAX_SEATS \<Longrightarrow> i \<in> set (seats_after start)"
proof -
  have "seats_after start = seats_after (start mod MAX_SEATS)" by (simp add: seats_after_def mod_simps)
  moreover have "start mod MAX_SEATS < MAX_SEATS" by (simp add: MAX_SEATS_def)
  ultimately show "i < MAX_SEATS \<Longrightarrow> i \<in> set (seats_after start)" using seats_after_set by auto
qed

lemma next_action_Some: "next_action_after t start = Some a \<Longrightarrow> a < MAX_SEATS \<and> in_play t a \<and> \<not> pk_all_in t a"
  by (auto simp: next_action_after_def find_Some_iff intro: seats_after_lt nth_mem)

lemma next_action_None: "next_action_after t start = None \<longleftrightarrow> (\<forall>i < MAX_SEATS. in_play t i \<longrightarrow> pk_all_in t i)"
  using seats_after_all seats_after_lt by (auto simp: next_action_after_def find_None_iff)

lemma active_players: "set (active_player_indices t) = {i. i < MAX_SEATS \<and> in_play t i}"
  by (auto simp: active_player_indices_def)

text \<open>A table where some seat in play can act.\<close>

lemma acting_table:
  assumes b: "between_ok t" and ph: "is_action_phase (pk_phase t)" and two: "2 \<le> length (active_player_indices t)"
    and a: "next_action_after t start = Some a"
  shows "table_step t (t\<lparr>pk_active := Some a\<rparr>) []"
proof -
  let ?t = "t\<lparr>pk_active := Some a\<rparr>"
  have c: "calm t" using b by (simp add: between_ok_def)
  then have none: "\<forall>i < MAX_SEATS. pk_pending t i = None" by (auto simp: calm_def pending_seats_def)
  have same: "in_play ?t = in_play t" "active_player_indices ?t = active_player_indices t" by (rule in_play_same; simp)+
  have "acting_ok ?t" unfolding acting_ok_def same
    using b two next_action_Some [OF a] none by (auto simp: between_ok_def calm_def pending_seats_def)
  moreover have "seats_ok ?t" "chips_ok ?t" "cards_ok ?t"
    using c seats_ok_same [of t ?t] chips_ok_same [of t ?t] cards_ok_same [of t ?t] by (simp_all add: calm_def live_def)
  moreover have "pending_ok ?t" using none by (simp add: pending_ok_def)
  ultimately have "poker_ok ?t" using ph phases [OF ph] by (simp add: poker_ok_def live_def)
  then show ?thesis using c by (simp add: table_step_def calm_def live_def pot_def)
qed

text \<open>When no seat in play can act, the street is complete and the board is run out.\<close>

lemma no_action_complete:
  "next_action_after t start = None \<Longrightarrow> active_player_indices t \<noteq> [] \<Longrightarrow> street_complete t"
  "next_action_after t start = None \<Longrightarrow> 1 < length (active_player_indices t) \<Longrightarrow> should_runout_to_showdown t"
proof -
  assume n: "next_action_after t start = None"
  then have all: "\<forall>i \<in> set (active_player_indices t). pk_all_in t i" by (simp add: next_action_None active_players)
  then show "active_player_indices t \<noteq> [] \<Longrightarrow> street_complete t" by (simp add: street_complete_def list_all_iff)
  have "actionable_player_indices t = []" unfolding actionable_player_indices_def using all by (simp add: filter_empty_conv)
  then show "1 < length (active_player_indices t) \<Longrightarrow> should_runout_to_showdown t" by (simp add: should_runout_to_showdown_def)
qed

lemma set_first_action_step:
  assumes b: "between_ok t" and ph: "is_action_phase (pk_phase t)" and two: "2 \<le> length (active_player_indices t)"
    and f: "set_first_action_for_new_street t = (t', ss)"
  shows "table_step t t' ss"
proof (cases "should_runout_to_showdown t")
  case True
  then show ?thesis using runout_step [of t] b f by (simp add: set_first_action_for_new_street_def between_ok_def)
next
  case False
  let ?start = "case pk_dealer t of None \<Rightarrow> 0 | Some d \<Rightarrow> d"
  obtain a where a: "next_action_after t ?start = Some a"
    using False no_action_complete(2) [of t ?start] two by (cases "next_action_after t ?start") auto
  with acting_table [OF b ph two a] f False show ?thesis by (simp add: set_first_action_for_new_street_def)
qed

lemma advance_street_step:
  assumes b: "between_ok t" and ph: "is_action_phase (pk_phase t)" and two: "2 \<le> length (active_player_indices t)"
    and f: "advance_street t = (t', ss)"
  shows "table_step t t' ss"
proof -
  define u where "u = t\<lparr>pk_acted := (\<lambda>_. False), pk_street := (\<lambda>_. 0), pk_current_bet := 0,
    pk_min_raise := big_blind_of (pk_settings t)\<rparr>"
  have c: "calm t" using b by (simp add: between_ok_def)
  have uu: "pk_phase u = pk_phase t" "pk_community u = pk_community t" by (simp_all add: u_def)
  have cu: "calm u" using c seats_ok_same [of t u] chips_ok_same [of t u] cards_ok_same [of t u] pending_seats_same [of u t]
    by (simp add: calm_def live_def u_def)
  have au: "active_player_indices u = active_player_indices t" by (rule in_play_same) (simp_all add: u_def)
  have to_t: "table_step t t' ss" if "table_step u t' ss"
    by (rule table_step_from [OF that]) (simp_all add: u_def live_def pot_def)
  have street: "table_step t t' ss"
    if s: "set_first_action_for_new_street ((deal_community n u)\<lparr>pk_phase := q\<rparr>) = (t', ss)"
      and q: "is_action_phase q" "length (pk_community t) + n = street_cards q" "0 < n" for n q
  proof -
    have "street_cards q \<le> 5" by (cases q) simp_all
    moreover have "5 \<le> length (pk_community u) + length (pk_deck u)" using cu by (simp add: calm_def cards_ok_def)
    ultimately have d: "dealt_on n u (deal_community n u)" using q(2) by (intro deal_community_on) (simp add: uu)
    let ?v = "(deal_community n u)\<lparr>pk_phase := q\<rparr>"
    have dc: "calm (deal_community n u)" "length (pk_community (deal_community n u)) = length (pk_community u) + n"
      using dealt_calm [OF d cu] q(2) \<open>street_cards q \<le> 5\<close> by (simp_all add: uu)
    have "calm ?v" using dc(1) seats_ok_same [of "deal_community n u" ?v] chips_ok_same [of "deal_community n u" ?v] cards_ok_same [of "deal_community n u" ?v] q(1)
        pending_seats_same [of ?v "deal_community n u"]
      by (simp add: calm_def live_def)
    then have bv: "between_ok ?v" using dc(2) q(2) by (simp add: between_ok_def uu)
    have av: "active_player_indices ?v = active_player_indices t"
      using in_play_same(2) [of ?v "deal_community n u"] dealt_same(7) [OF d] au by simp
    have "table_step ?v t' ss" by (rule set_first_action_step [OF bv _ _ s]) (use q(1) two av in simp_all)
    then have "table_step u t' ss"
      by (rule table_step_from) (use dealt_same [OF d] ph in \<open>simp_all add: uu live_def pot_def\<close>)
    then show ?thesis by (rule to_t)
  qed
  have len: "length (pk_community t) = street_cards (pk_phase t)" using b by (simp add: between_ok_def)
  note f = f [unfolded advance_street_def Let_def, folded u_def, unfolded uu]
  show ?thesis
  proof (cases "pk_phase t")
    case PkPreFlop
    then show ?thesis using street [where n = 3 and q = PkFlop] f len by simp
  next
    case PkFlop
    then show ?thesis using street [where n = 1 and q = PkTurn] f len by simp
  next
    case PkTurn
    then show ?thesis using street [where n = 1 and q = PkRiver] f len by simp
  next
    case PkRiver
    then show ?thesis using finish_showdown_step [OF cu] f to_t by simp
  qed (use ph in simp_all)
qed

lemma advance_step:
  assumes b: "between_ok t" and ph: "is_action_phase (pk_phase t)" and f: "advance_after_action acted t = (t', ss)"
  shows "table_step t t' ss"
proof -
  have c: "calm t" using b by (simp add: between_ok_def)
  consider "active_player_indices t = []" | w where "active_player_indices t = [w]" |
    x y ys where "active_player_indices t = x # y # ys" by (metis neq_Nil_conv)
  then show ?thesis
  proof cases
    case 1
    then show ?thesis using back_to_waiting_step [OF c] f by (simp add: advance_after_action_def)
  next
    case 2
    then have "w < MAX_SEATS" using active_players [of t] by auto
    then show ?thesis using finish_by_fold_step [OF c] f 2 by (simp add: advance_after_action_def)
  next
    case 3
    then have two: "2 \<le> length (active_player_indices t)" by simp
    have f: "(if street_complete t then
        if should_runout_to_showdown t then finish_showdown (deal_remaining_community t) else advance_street t
      else (t\<lparr>pk_active := next_action_after t acted\<rparr>, [])) = (t', ss)"
      using f 3 by (simp add: advance_after_action_def)
    show ?thesis
    proof (cases "street_complete t")
      case True
      then show ?thesis using f runout_step [OF c] advance_street_step [OF b ph two] by (simp split: if_splits)
    next
      case False
      then obtain a where a: "next_action_after t acted = Some a"
        using no_action_complete(1) [of t acted] 3 by (cases "next_action_after t acted") auto
      with acting_table [OF b ph two a] f False show ?thesis by simp
    qed
  qed
qed

lemma Max_street: "Max (set (map (pk_street t) [0..<MAX_SEATS])) = Max (pk_street t ` {..<MAX_SEATS})"
  by (simp add: atLeast0LessThan)

lemma finish_blind_posting_step:
  assumes b: "between_ok t" and ph: "pk_phase t = PkPostingBlinds" and d: "pk_deadline t = None"
    and f: "finish_blind_posting t = (t', ss)"
  shows "table_step t t' ss"
proof -
  define u where "u = t\<lparr>pk_current_bet := Max (set (map (pk_street t) [0..<MAX_SEATS])),
    pk_min_raise := big_blind_of (pk_settings t)\<rparr>"
  have c: "calm t" using b by (simp add: between_ok_def)
  have cu: "calm u" using c seats_ok_same [of t u] chips_ok_same [of t u] cards_ok_same [of t u] pending_seats_same [of u t]
    by (simp add: calm_def live_def u_def)
  have au: "active_player_indices u = active_player_indices t" by (rule in_play_same) (simp_all add: u_def)
  have to_t: "table_step t t' ss" if "table_step u t' ss"
    by (rule table_step_from [OF that]) (simp_all add: u_def live_def pot_def)
  let ?p = "u\<lparr>pk_phase := PkPreFlop\<rparr>"
  define start where "start = (case pk_big_seat ?p of Some i \<Rightarrow> i | None \<Rightarrow> (case pk_dealer ?p of Some i \<Rightarrow> i | None \<Rightarrow> 0))"
  let ?v = "?p\<lparr>pk_active := next_action_after ?p start\<rparr>"
  note f = f [unfolded finish_blind_posting_def Let_def, folded u_def, folded start_def]
  consider "active_player_indices u = []" | w where "active_player_indices u = [w]" |
    x y ys where "active_player_indices u = x # y # ys" by (metis neq_Nil_conv)
  then show ?thesis
  proof cases
    case 1
    then show ?thesis using back_to_waiting_step [OF cu] f to_t by simp
  next
    case 2
    then have "w < MAX_SEATS" using active_players [of u] by auto
    then show ?thesis using finish_by_fold_step [OF cu] f 2 to_t by simp
  next
    case 3
    have ap: "active_player_indices ?p = active_player_indices u" "active_player_indices ?v = active_player_indices u"
      by (rule in_play_same; simp)+
    have cp: "calm ?p" "calm ?v" using cu seats_ok_same [of u ?p] chips_ok_same [of u ?p] cards_ok_same [of u ?p]
        pending_seats_same [of ?p u] seats_ok_same [of u ?v] chips_ok_same [of u ?v] cards_ok_same [of u ?v]
        pending_seats_same [of ?v u] by (simp_all add: calm_def live_def u_def ph)
    have bp: "between_ok ?p" using b cp(1) ph by (simp add: between_ok_def u_def)
    have from_u: "table_step t t' ss" if "table_step w t' ss" "w = ?p \<or> w = ?v" for w
      by (rule to_t, rule table_step_from [OF that(1)]) (use that(2) ph in \<open>auto simp: live_def pot_def u_def\<close>)
    show ?thesis
    proof (cases "next_action_after ?p start")
      case None
      have e: "next_action_after ?v start = None" using None by (simp add: next_action_None in_play_def)
      have "street_complete ?v" by (rule no_action_complete(1) [OF e]) (simp add: ap 3)
      then have "finish_showdown (deal_remaining_community ?v) = (t', ss)" using f None 3 by simp
      from runout_step [OF cp(2) this] show ?thesis by (rule from_u) simp
    next
      case (Some a)
      have "table_step ?p (?p\<lparr>pk_active := Some a\<rparr>) []"
        by (rule acting_table [OF bp _ _ Some]) (use ap 3 in simp_all)
      moreover have "t' = ?p\<lparr>pk_active := Some a\<rparr>" "ss = []" using f 3 Some by simp_all
      ultimately have "table_step ?p t' ss" by (simp only:)
      then show ?thesis by (rule from_u) simp
    qed
  qed
qed


section \<open>Calls that move no chips\<close>

lemma table_parts:
  assumes "poker_ok t"
  shows "seats_ok t" "chips_ok t" "cards_ok t" "pending_ok t" "pk_phase t = PkPostingBlinds \<Longrightarrow> posting_ok t"
    "is_action_phase (pk_phase t) \<Longrightarrow> acting_ok t" "\<not> live t \<Longrightarrow> resting_ok t"
  using assms by (simp_all add: poker_ok_def)

lemma table_step_refl: "poker_ok t \<Longrightarrow> table_step t t []"
  by (simp add: table_step_def)

lemma live_settling: "poker_ok t \<Longrightarrow> live t \<Longrightarrow> \<not> pk_settling t"
  by (auto simp: poker_ok_def live_def posting_ok_def acting_ok_def)

lemma acting_between:
  "poker_ok t \<Longrightarrow> is_action_phase (pk_phase t) \<Longrightarrow> pending_seats t = {} \<Longrightarrow> between_ok t"
  using live_settling [of t] by (auto simp: between_ok_def calm_def poker_ok_def live_def acting_ok_def)

text \<open>The fields that the invariant between two actions reads.\<close>

definition same_play :: "poker_table \<Rightarrow> poker_table \<Rightarrow> bool" where
  "same_play t t' \<longleftrightarrow>
     pk_seats t' = pk_seats t \<and> pk_hole t' = pk_hole t \<and> pk_pending t' = pk_pending t \<and>
     pk_committed t' = pk_committed t \<and> pk_balances t' = pk_balances t \<and> pk_community t' = pk_community t \<and>
     pk_deck t' = pk_deck t \<and> pk_phase t' = pk_phase t \<and> pk_settling t' = pk_settling t \<and> pk_hand_id t' = pk_hand_id t"

lemma same_play_trans: "same_play t t1 \<Longrightarrow> same_play t1 t2 \<Longrightarrow> same_play t t2"
  by (simp add: same_play_def)

lemma between_same: "between_ok t \<Longrightarrow> same_play t t' \<Longrightarrow> between_ok t'"
  using seats_ok_same [of t t'] chips_ok_same [of t t'] cards_ok_same [of t t'] pending_seats_same [of t' t]
  by (simp add: between_ok_def calm_def same_play_def live_def)

lemma step_from_same: "table_step t1 t' ss \<Longrightarrow> same_play t t1 \<Longrightarrow> table_step t t' ss"
  by (erule table_step_from) (simp_all add: same_play_def live_def pot_def)

lemma same_play_simps [simp]: "same_play t (clear_action_countdown t)" "same_play t (check_seat i t)" "same_play t (fold_seat i t)"
  "same_play t (check_or_fold i t)" "same_play t (record_manual_action i t)"
  by (simp_all add: same_play_def clear_action_countdown_def check_seat_def fold_seat_def check_or_fold_def record_manual_action_def)

text \<open>An action that keeps those fields, then the next seat.\<close>

lemma action_step:
  assumes "poker_ok t" and "is_action_phase (pk_phase t)" and "pending_seats t = {}" and "same_play t t1"
    and "advance_after_action i t1 = (t', ss)"
  shows "table_step t t' ss"
proof -
  have "between_ok t1" using acting_between [OF assms(1-3)] assms(4) by (rule between_same)
  moreover have "is_action_phase (pk_phase t1)" using assms(2,4) by (simp add: same_play_def)
  ultimately have "table_step t1 t' ss" using assms(5) by (rule advance_step)
  then show ?thesis using assms(4) by (rule step_from_same)
qed

lemma active_pending:
  assumes "poker_ok t" and "is_action_phase (pk_phase t)" and "pk_active t = Some i" and "pk_pending t i = None"
  shows "pending_seats t = {}"
  using table_parts(6) [OF assms(1,2)] assms(3,4) by (auto simp: acting_ok_def pending_seats_def)

lemma auto_rounds_step: "poker_ok t \<Longrightarrow> auto_rounds n t = (t', ss) \<Longrightarrow> table_step t t' ss"
proof (induction n arbitrary: t t' ss)
  case (Suc n)
  show ?case
  proof (cases "pk_settling t \<or> \<not> is_action_phase (pk_phase t) \<or> pk_active t = None")
    case True
    then have "t' = t" "ss = []" using Suc.prems(2) by (auto split: option.splits if_splits)
    then show ?thesis using table_step_refl [OF Suc.prems(1)] by simp
  next
    case False
    then obtain i where i: "pk_active t = Some i" by auto
    show ?thesis
    proof (cases "\<not> pk_auto t i \<or> pk_pending t i \<noteq> None \<or> length (pk_hole t i) \<noteq> 2 \<or> pk_folded t i \<or> pk_all_in t i")
      case True
      then have "t' = t" "ss = []" using Suc.prems(2) False i by (auto split: if_splits)
      then show ?thesis using table_step_refl [OF Suc.prems(1)] by simp
    next
      case go: False
      obtain t1 ss1 where a: "advance_after_action i (check_or_fold i (clear_action_countdown t)) = (t1, ss1)" by (meson surj_pair)
      have s: "table_step t t1 ss1"
        by (rule action_step [OF Suc.prems(1) _ _ _ a])
          (use False go active_pending [OF Suc.prems(1) _ i] same_play_trans [OF same_play_simps(1) same_play_simps(4)] in auto)
      have e: "(if ss1 \<noteq> [] then (t1, ss1) else auto_rounds n t1) = (t', ss)" using Suc.prems(2) False go i a by (auto split: if_splits)
      show ?thesis
      proof (cases "ss1 = []")
        case True
        have "table_step t1 t' ss" by (rule Suc.IH) (use s e True in \<open>simp_all add: table_step_def\<close>)
        from table_step_trans [OF s this] True show ?thesis by simp
      qed (use s e in simp)
    qed
  qed
qed (simp add: table_step_refl)

lemma clear_countdown_ok: "poker_ok t \<Longrightarrow> poker_ok (clear_action_countdown t)"
proof -
  assume t: "poker_ok t"
  let ?t = "clear_action_countdown t"
  have p: "in_play ?t = in_play t" "active_player_indices ?t = active_player_indices t"
    by (rule in_play_same; simp add: clear_action_countdown_def)+
  have "pending_seats ?t = pending_seats t" "live ?t = live t" by (simp_all add: clear_action_countdown_def pending_seats_def live_def)
  moreover have "seats_ok ?t" "chips_ok ?t" "cards_ok ?t"
    using table_parts(1-3) [OF t] seats_ok_same [of t ?t] chips_ok_same [of t ?t] cards_ok_same [of t ?t]
    by (simp_all add: clear_action_countdown_def live_def)
  ultimately show ?thesis using t unfolding poker_ok_def pending_ok_def posting_ok_def acting_ok_def resting_ok_def p
    by (auto simp: clear_action_countdown_def)
qed

lemma countdown_ok:
  assumes t: "poker_ok t" and "is_action_phase (pk_phase t)" and "pk_active t = Some i" and "pk_pending t i = None"
  shows "poker_ok (t\<lparr>pk_countdown_id := c, pk_countdown_seat := s, pk_deadline := d\<rparr>)"
proof -
  let ?t = "t\<lparr>pk_countdown_id := c, pk_countdown_seat := s, pk_deadline := d\<rparr>"
  have p: "in_play ?t = in_play t" "active_player_indices ?t = active_player_indices t" by (rule in_play_same; simp)+
  have "pending_seats ?t = pending_seats t" "live ?t = live t" by (simp_all add: pending_seats_def live_def)
  moreover have "seats_ok ?t" "chips_ok ?t" "cards_ok ?t"
    using table_parts(1-3) [OF t] seats_ok_same [of t ?t] chips_ok_same [of t ?t] cards_ok_same [of t ?t]
    by (simp_all add: live_def)
  ultimately show ?thesis using t assms(2-) phases [OF assms(2)] unfolding poker_ok_def pending_ok_def acting_ok_def p
    by (auto simp: live_def)
qed

lemma countdown_step:
  assumes t: "poker_ok t" and f: "start_action_countdown_if_needed now t = (t', c)"
  shows "table_step t t' []"
proof -
  have "t' = t \<or> t' = clear_action_countdown t \<or>
      (\<exists>i c s d. is_action_phase (pk_phase t) \<and> pk_active t = Some i \<and> pk_pending t i = None \<and>
         t' = t\<lparr>pk_countdown_id := c, pk_countdown_seat := s, pk_deadline := d\<rparr>)"
    using f by (auto simp: start_action_countdown_if_needed_def Let_def split: if_splits option.splits)
  then show ?thesis
  proof (elim disjE exE conjE)
    assume "t' = clear_action_countdown t"
    then show ?thesis using step_from_same [OF table_step_refl [OF clear_countdown_ok [OF t]] same_play_simps(1)] by simp
  next
    fix i c s d
    assume a: "is_action_phase (pk_phase t)" "pk_active t = Some i" "pk_pending t i = None"
      and t': "t' = t\<lparr>pk_countdown_id := c, pk_countdown_seat := s, pk_deadline := d\<rparr>"
    show ?thesis unfolding t'
      by (rule step_from_same [OF table_step_refl [OF countdown_ok [OF t a]]]) (simp add: same_play_def)
  qed (simp add: table_step_refl [OF t])
qed

lemma tail_step:
  assumes t: "poker_ok t" and f: "apply_auto_check_folds_and_start_countdown now t = (t', ss, c)"
  shows "table_step t t' ss"
proof -
  obtain t1 ss1 where a: "apply_auto_check_folds t = (t1, ss1)" by (meson surj_pair)
  then have s: "table_step t t1 ss1" using auto_rounds_step [OF t] by (simp add: apply_auto_check_folds_def)
  then have ok: "poker_ok t1" by (simp add: table_step_def)
  obtain t2 c2 where b: "start_action_countdown_if_needed now t1 = (t2, c2)" by (meson surj_pair)
  have "t' = t2" "ss = ss1" using f a b by (simp_all add: apply_auto_check_folds_and_start_countdown_def)
  then show ?thesis using table_step_trans [OF s countdown_step [OF ok b]] by simp
qed

lemma seat_index_Some: "seat_index t u = Some i \<Longrightarrow> i < MAX_SEATS \<and> pk_seats t i = Some u"
  by (auto simp: seat_index_def find_Some_iff)

lemma seat_index_None: "seat_index t u = None \<Longrightarrow> i < MAX_SEATS \<Longrightarrow> pk_seats t i \<noteq> Some u"
  by (auto simp: seat_index_def find_None_iff)

lemma validate_Some:
  "validate_active_user u t = Some i \<Longrightarrow> is_action_phase (pk_phase t) \<and> i < MAX_SEATS \<and> pk_seats t i = Some u \<and>
     pk_pending t i = None \<and> pk_active t = Some i \<and> in_play t i \<and> \<not> pk_all_in t i"
  using seat_index_Some [of t u] by (auto simp: validate_active_user_def in_play_def split: if_splits option.splits)

lemma fold_hand_step: "poker_ok t \<Longrightarrow> fold_hand u t = (t', ss) \<Longrightarrow> table_step t t' ss"
proof (cases "validate_active_user u t")
  case (Some i)
  assume t: "poker_ok t" and f: "fold_hand u t = (t', ss)"
  note v = validate_Some [OF Some]
  have "advance_after_action i (fold_seat i (record_manual_action i t)) = (t', ss)" using f Some by (simp add: fold_hand_def)
  then show ?thesis using v active_pending [OF t, of i] same_play_trans [OF same_play_simps(5) same_play_simps(3)]
    by (intro action_step [OF t]) auto
qed (auto simp: fold_hand_def table_step_refl)

lemma check_step:
  assumes t: "poker_ok t" and v: "validate_active_user u t = Some i"
    and f: "advance_after_action i (check_seat i (record_manual_action i t)) = (t', ss)"
  shows "table_step t t' ss"
  using validate_Some [OF v] active_pending [OF t, of i] same_play_trans [OF same_play_simps(5) same_play_simps(2)]
  by (intro action_step [OF t _ _ _ f]) auto

lemma timeout_step:
  assumes t: "poker_ok t" and f: "timeout_active_action c t = (t', res)"
  shows "table_step t t' (case res of None \<Rightarrow> [] | Some ss \<Rightarrow> ss)"
proof (cases "action_countdown_matches t c \<and> pk_active t \<noteq> None")
  case True
  then obtain i where i: "pk_active t = Some i" by blast
  have ph: "is_action_phase (pk_phase t)" "pk_deadline t \<noteq> None" using True by (simp_all add: action_countdown_matches_def)
  then have "pk_pending t i = None" using table_parts(6) [OF t ph(1)] i by (auto simp: acting_ok_def)
  then have none: "pending_seats t = {}" by (rule active_pending [OF t ph(1) i])
  define t1 where "t1 = (clear_action_countdown t)\<lparr>pk_missed := (pk_missed t)(i := min (pk_missed t i + 1) 255)\<rparr>"
  define t2 where "t2 = (if MAX_MISSED_ACTIONS \<le> pk_missed t1 i then t1\<lparr>pk_leaving := (pk_leaving t1)(i := True)\<rparr> else t1)"
  obtain t3 ss where a: "advance_after_action i (check_or_fold i t2) = (t3, ss)" by (meson surj_pair)
  have r: "t' = t3" "res = Some ss"
    using f True i a by (auto simp: timeout_active_action_def Let_def t1_def t2_def clear_action_countdown_def split: if_splits)
  have "same_play t t2" by (simp add: t2_def t1_def same_play_def clear_action_countdown_def)
  then have "same_play t (check_or_fold i t2)" using same_play_trans same_play_simps(4) by blast
  from action_step [OF t ph(1) none this a] r show ?thesis by simp
next
  case False
  then have "t' = t" "res = None" using f by (auto simp: timeout_active_action_def split: option.splits if_splits)
  then show ?thesis by (simp add: table_step_refl [OF t])
qed


section \<open>Seats that come and go\<close>

lemma poker_ok_same:
  assumes t: "poker_ok t" and s: "same_play t t'" and "pk_folded t' = pk_folded t" and "pk_all_in t' = pk_all_in t"
    and "pk_active t' = pk_active t" and "pk_deadline t' = pk_deadline t" and "pk_pending_blinds t' = pk_pending_blinds t"
  shows "poker_ok t'"
proof -
  have p: "in_play t' = in_play t" "active_player_indices t' = active_player_indices t"
    by (rule in_play_same; use s assms(3) in \<open>simp add: same_play_def\<close>)+
  have e: "pending_seats t' = pending_seats t" "live t' = live t" using s by (simp_all add: same_play_def pending_seats_def live_def)
  have "seats_ok t'" "chips_ok t'" "cards_ok t'"
    using table_parts(1-3) [OF t] seats_ok_same [of t t'] chips_ok_same [of t t'] cards_ok_same [of t t'] s
    by (simp_all add: same_play_def live_def)
  moreover have "pending_ok t' = pending_ok t" "posting_ok t' = posting_ok t" "acting_ok t' = acting_ok t"
    "resting_ok t' = resting_ok t"
    using assms(2-) unfolding pending_ok_def posting_ok_def acting_ok_def resting_ok_def p e by (simp_all add: same_play_def)
  ultimately show ?thesis using t s unfolding poker_ok_def e by (simp add: same_play_def)
qed

lemma quiet_step:
  "poker_ok t \<Longrightarrow> same_play t t' \<Longrightarrow> pk_folded t' = pk_folded t \<Longrightarrow> pk_all_in t' = pk_all_in t \<Longrightarrow>
     pk_active t' = pk_active t \<Longrightarrow> pk_deadline t' = pk_deadline t \<Longrightarrow> pk_pending_blinds t' = pk_pending_blinds t \<Longrightarrow>
     table_step t t' []"
  by (rule step_from_same [OF table_step_refl [OF poker_ok_same]])

lemma toggle_step: "poker_ok t \<Longrightarrow> table_step t (toggle_auto_check_fold u t) []"
proof (cases "seat_index t u")
  case (Some i)
  then show "poker_ok t \<Longrightarrow> ?thesis" by (elim quiet_step) (simp_all add: toggle_auto_check_fold_def same_play_def)
qed (simp add: toggle_auto_check_fold_def table_step_refl)

lemma activity_step: "poker_ok t \<Longrightarrow> table_step t (fst (record_activity now u t)) []"
proof (cases "seat_index t u")
  case (Some i)
  then show "poker_ok t \<Longrightarrow> ?thesis" by (elim quiet_step) (simp_all add: record_activity_def Let_def same_play_def)
qed (simp add: record_activity_def table_step_refl)

lemma sync_global_fields: "\<exists>g. fst (sync_global_balance_value u b t) = t\<lparr>pk_global := g\<rparr>"
proof (cases "pk_global t u = Some (max b 0)")
  case True
  then show ?thesis by (intro exI [of _ "pk_global t"]) (simp add: sync_global_balance_value_def)
qed (auto simp: sync_global_balance_value_def Let_def)

lemma sync_global_step: "poker_ok t \<Longrightarrow> table_step t (fst (sync_global_balance_value u b t)) []"
proof -
  assume t: "poker_ok t"
  obtain g where g: "fst (sync_global_balance_value u b t) = t\<lparr>pk_global := g\<rparr>" using sync_global_fields by blast
  show ?thesis unfolding g by (rule quiet_step [OF t]) (simp_all add: same_play_def)
qed

text \<open>The stack of a seat that has no commit under way may change.\<close>

lemma balance_step:
  assumes t: "poker_ok t" and i: "i < MAX_SEATS" "pk_seats t i \<noteq> None" "pk_pending t i = None" and b: "0 \<le> b" "b < 2 ^ 63"
  shows "table_step t (t\<lparr>pk_balances := (pk_balances t)(i := b)\<rparr>) []"
proof -
  let ?t = "t\<lparr>pk_balances := (pk_balances t)(i := b)\<rparr>"
  have p: "in_play ?t = in_play t" "active_player_indices ?t = active_player_indices t" by (rule in_play_same; simp)+
  have e: "pending_seats ?t = pending_seats t" "live ?t = live t" "pot ?t = pot t" by (simp_all add: pending_seats_def live_def pot_def)
  have s: "seats_ok ?t" using table_parts(1) [OF t] i(2) by (auto simp: seats_ok_def)
  have c: "chips_ok ?t" using table_parts(2) [OF t] b by (simp add: chips_ok_def)
  have k: "cards_ok ?t" using table_parts(3) [OF t] cards_ok_same [of t ?t] by (simp add: live_def)
  have q: "pending_ok ?t" using table_parts(4) [OF t] i(3) unfolding pending_ok_def p by auto
  have "poker_ok ?t" using t s c k q unfolding poker_ok_def posting_ok_def acting_ok_def resting_ok_def p e by simp
  then show ?thesis by (simp add: table_step_def e)
qed

lemma sit_step:
  assumes t: "poker_ok t"
  shows "table_step t (fst (sit u global t)) []"
proof -
  define t1 where "t1 = fst (sync_global_balance_value u global t)"
  have s1: "table_step t t1 []" unfolding t1_def by (rule sync_global_step [OF t])
  then have ok: "poker_ok t1" by (simp add: table_step_def)
  let ?stack = "starting_stack_of (pk_settings t1)"
  let ?free = "find (\<lambda>i. pk_seats t1 i = None) [0..<MAX_SEATS]"
  have e: "fst (sit u global t) = (if seat_index t1 u \<noteq> None \<or> global < ?stack then t1 else case ?free of None \<Rightarrow> t1
      | Some i \<Rightarrow> t1\<lparr>pk_seats := (pk_seats t1)(i \<mapsto> u), pk_balances := (pk_balances t1)(i := ?stack)\<rparr>)"
    by (auto simp: sit_def Let_def t1_def [symmetric] split: option.splits)
  have "table_step t1 (fst (sit u global t)) []"
  proof (cases "seat_index t1 u \<noteq> None \<or> global < ?stack \<or> ?free = None")
    case True
    then show ?thesis unfolding e using table_step_refl [OF ok] by auto
  next
    case False
    then obtain i where f: "?free = Some i" by auto
    then have i: "i < MAX_SEATS" "pk_seats t1 i = None" by (auto simp: find_Some_iff)
    have none: "pk_seats t1 j \<noteq> Some u" if "j < MAX_SEATS" for j using False that seat_index_None by auto
    let ?t = "t1\<lparr>pk_seats := (pk_seats t1)(i \<mapsto> u), pk_balances := (pk_balances t1)(i := ?stack)\<rparr>"
    note p = table_parts [OF ok]
    have z: "pk_hole t1 i = []" "pk_pending t1 i = None" "pk_committed t1 i = 0" using p(1) i by (simp_all add: seats_ok_def)
    have play: "in_play ?t = in_play t1" using z(1) by (intro ext) (auto simp: in_play_def)
    then have act: "active_player_indices ?t = active_player_indices t1" by (simp add: active_player_indices_def)
    have eq: "pending_seats ?t = pending_seats t1" "live ?t = live t1" "pot ?t = pot t1"
      by (simp_all add: pending_seats_def live_def pot_def)
    have "one_seat_each (pk_seats t1)" using p(1) by (simp add: seats_ok_def)
    then have "one_seat_each ((pk_seats t1)(i \<mapsto> u))" using none unfolding one_seat_each_def by (metis fun_upd_apply)
    then have "seats_ok ?t" using p(1) by (simp add: seats_ok_def)
    moreover have "0 \<le> ?stack \<and> ?stack < 2 ^ 63"
      by (auto simp: starting_stack_of_def normalized_def Let_def STARTING_STACK_OPTIONS_def default_settings_def)
    then have "chips_ok ?t" using p(2) by (simp add: chips_ok_def)
    moreover have "cards_ok ?t" using p(3) cards_ok_same [of t1 ?t] by (simp add: live_def)
    moreover have "pending_ok ?t" using p(4) z(2) unfolding pending_ok_def play by auto
    ultimately have "poker_ok ?t"
      using ok unfolding poker_ok_def posting_ok_def acting_ok_def resting_ok_def play act eq by simp
    then have "table_step t1 ?t []" using z(2) by (simp add: table_step_def eq)
    then show ?thesis unfolding e using False f by simp
  qed
  from table_step_trans [OF s1 this] show ?thesis by simp
qed

lemma sync_balance_step:
  assumes t: "poker_ok t" and rest: "\<not> live t"
  shows "table_step t (fst (sync_balance u b t)) []"
proof -
  obtain t1 changed where s: "sync_global_balance_value u b t = (t1, changed)" by (meson surj_pair)
  have s1: "table_step t t1 []" using sync_global_step [OF t, of u b] s by simp
  have ok: "poker_ok t1" and r1: "\<not> live t1" using s1 rest by (auto simp: table_step_def)
  obtain g where g: "t1 = t\<lparr>pk_global := g\<rparr>" using sync_global_fields [of u b t] s by auto
  have gu: "pk_global t1 u = Some (max b 0)" using s by (auto simp: sync_global_balance_value_def Let_def split: if_splits)
  show ?thesis
  proof (cases "seat_index t1 u")
    case None
    then show ?thesis using s s1 by (simp add: sync_balance_def)
  next
    case (Some i)
    note i = seat_index_Some [OF Some]
    have "pk_pending t1 i = None" using table_parts(7) [OF ok r1] i by (auto simp: resting_ok_def pending_seats_def)
    moreover have "pk_balances t1 i < 2 ^ 63" using table_parts(2) [OF ok] i by (simp add: chips_ok_def)
    ultimately have "table_step t1 (t1\<lparr>pk_balances := (pk_balances t1)(i := max b 0)\<rparr>) []" if "max b 0 < pk_balances t1 i"
      by (intro balance_step [OF ok]) (use i that in auto)
    from table_step_trans [OF s1 this] s1 show ?thesis using s Some gu by (auto simp: sync_balance_def Let_def)
  qed
qed

lemma remove_seat_fields:
  "\<exists>g d. remove_seat i t = t\<lparr>pk_global := g, pk_seats := (pk_seats t)(i := None), pk_balances := (pk_balances t)(i := 0),
     pk_hole := (pk_hole t)(i := []), pk_folded := (pk_folded t)(i := False), pk_all_in := (pk_all_in t)(i := False),
     pk_acted := (pk_acted t)(i := False), pk_last_action := (pk_last_action t)(i := None),
     pk_leaving := (pk_leaving t)(i := False), pk_auto := (pk_auto t)(i := False),
     pk_committed := (pk_committed t)(i := 0), pk_street := (pk_street t)(i := 0),
     pk_pending := (pk_pending t)(i := None), pk_missed := (pk_missed t)(i := 0), pk_dealer := d\<rparr>"
proof -
  have "\<exists>g. (case pk_seats t i of None \<Rightarrow> t | Some u \<Rightarrow> t\<lparr>pk_global := (pk_global t)(u := None)\<rparr>) = t\<lparr>pk_global := g\<rparr>"
  proof (cases "pk_seats t i")
    case None
    then show ?thesis by (intro exI [of _ "pk_global t"]) simp
  qed auto
  then obtain g where g: "(case pk_seats t i of None \<Rightarrow> t | Some u \<Rightarrow> t\<lparr>pk_global := (pk_global t)(u := None)\<rparr>) = t\<lparr>pk_global := g\<rparr>" ..
  have d: "\<exists>d. (if c then u\<lparr>pk_dealer := None\<rparr> else u) = u\<lparr>pk_dealer := d\<rparr>" for c and u :: poker_table
  proof (cases c)
    case False
    then show ?thesis by (intro exI [of _ "pk_dealer u"]) simp
  qed auto
  let ?u = "t\<lparr>pk_global := g, pk_seats := (pk_seats t)(i := None), pk_balances := (pk_balances t)(i := 0),
     pk_hole := (pk_hole t)(i := []), pk_folded := (pk_folded t)(i := False), pk_all_in := (pk_all_in t)(i := False),
     pk_acted := (pk_acted t)(i := False), pk_last_action := (pk_last_action t)(i := None),
     pk_leaving := (pk_leaving t)(i := False), pk_auto := (pk_auto t)(i := False),
     pk_committed := (pk_committed t)(i := 0), pk_street := (pk_street t)(i := 0),
     pk_pending := (pk_pending t)(i := None), pk_missed := (pk_missed t)(i := 0)\<rparr>"
  have "remove_seat i t = (if occupied_count ?u = 0 then ?u\<lparr>pk_dealer := None\<rparr> else ?u)"
    unfolding remove_seat_def Let_def g by simp
  then show ?thesis using d [of "occupied_count ?u = 0" ?u] by (intro exI [of _ g]) (simp only:)
qed

lemma table_stepI:
  assumes "poker_ok t'" and "pk_hand_id t' = pk_hand_id t" and "pk_pending t' = pk_pending t"
    and "\<And>j. pk_pending t j \<noteq> None \<Longrightarrow> pk_seats t' j = pk_seats t j" and "live t' = live t"
    and "live t \<Longrightarrow> pot t' = pot t" and "pk_settling t' = pk_settling t"
  shows "table_step t t' []"
  using assms by (simp add: table_step_def)

lemma remove_seat_step:
  assumes t: "poker_ok t" and i: "i < MAX_SEATS" "pk_pending t i = None"
    and idle: "\<not> live t \<or> is_action_phase (pk_phase t) \<and> pk_hole t i = []"
  shows "table_step t (remove_seat i t) []"
proof -
  obtain g d where r: "remove_seat i t = t\<lparr>pk_global := g, pk_seats := (pk_seats t)(i := None), pk_balances := (pk_balances t)(i := 0),
     pk_hole := (pk_hole t)(i := []), pk_folded := (pk_folded t)(i := False), pk_all_in := (pk_all_in t)(i := False),
     pk_acted := (pk_acted t)(i := False), pk_last_action := (pk_last_action t)(i := None),
     pk_leaving := (pk_leaving t)(i := False), pk_auto := (pk_auto t)(i := False),
     pk_committed := (pk_committed t)(i := 0), pk_street := (pk_street t)(i := 0),
     pk_pending := (pk_pending t)(i := None), pk_missed := (pk_missed t)(i := 0), pk_dealer := d\<rparr>" (is "_ = ?t")
    using remove_seat_fields by blast
  note p = table_parts [OF t]
  have pend: "pk_pending ?t = pk_pending t" using i(2) by (intro ext) simp
  have e: "pending_seats ?t = pending_seats t" "live ?t = live t" using pend by (simp_all add: pending_seats_def live_def)
  have "one_seat_each ((pk_seats t)(i := None))" using p(1) unfolding seats_ok_def one_seat_each_def by (metis fun_upd_apply)
  then have s: "seats_ok ?t" using p(1) by (auto simp: seats_ok_def)
  have c: "chips_ok ?t" using p(2) by (auto simp: chips_ok_def)
  have "mset (concat (map ((pk_hole t)(i := [])) xs)) \<subseteq># mset (concat (map (pk_hole t) xs))" for xs
    by (induction xs) (auto intro: subset_mset.add_mono subset_mset.add_increasing)
  then have "mset (cards_out ?t) \<subseteq># mset (cards_out t)" by (simp add: cards_out_def)
  then have k: "cards_ok ?t" using p(3) subset_mset.order_trans by (auto simp: cards_ok_def e)
  have ok: "poker_ok ?t \<and> (live t \<longrightarrow> pot ?t = pot t)"
  proof (cases "live t")
    case False
    then have "pending_seats t = {}" "pk_active t = None" "pk_deadline t = None" using p(7) by (simp_all add: resting_ok_def)
    moreover from this have "pending_ok ?t" using pend by (auto simp: pending_ok_def pending_seats_def)
    ultimately show ?thesis using s c k False by (simp add: poker_ok_def e resting_ok_def) (simp add: live_def)
  next
    case True
    then have ph: "is_action_phase (pk_phase t)" "pk_hole t i = []" using idle by auto
    then have play: "in_play ?t = in_play t" by (intro ext) (auto simp: in_play_def)
    then have act: "active_player_indices ?t = active_player_indices t" by (simp add: active_player_indices_def)
    have a: "pk_all_in ?t j = pk_all_in t j" if "in_play t j" for j using that ph(2) by (auto simp: in_play_def)
    have zero: "pk_committed t i = 0" using p(2) i(1) ph(2) by (simp add: chips_ok_def)
    then have "pot ?t = pot t" by (auto simp: pot_def intro!: arg_cong [where f = sum_list])
    moreover have bal: "pk_balances ?t j = pk_balances t j" if "in_play t j" for j using that ph(2) by (auto simp: in_play_def)
    have "pending_ok ?t" using p(4) unfolding pending_ok_def play pend using a bal by metis
    moreover have "acting_ok ?t"
    proof -
      obtain b where b: "b < MAX_SEATS" "pk_active t = Some b" "in_play t b" "\<not> pk_all_in t b" "pending_seats t \<subseteq> {b}"
        "pk_deadline t \<noteq> None \<longrightarrow> pk_pending t b = None" using p(6) [OF ph(1)] unfolding acting_ok_def by blast
      moreover have "\<not> pk_all_in ?t b" using a [OF b(3)] b(4) by simp
      ultimately show ?thesis using p(6) [OF ph(1)] unfolding acting_ok_def act play e pend by (intro conjI exI [of _ b]) auto
    qed
    ultimately show ?thesis using s c k ph(1) phases [OF ph(1)] True by (simp add: poker_ok_def e)
  qed
  show ?thesis unfolding r
  proof (rule table_stepI [OF _ _ pend _ e(2)])
    show "poker_ok ?t" using ok by blast
    show "live t \<Longrightarrow> pot ?t = pot t" using ok by blast
    show "pk_seats ?t j = pk_seats t j" if "pk_pending t j \<noteq> None" for j using that i(2) by auto
  qed simp_all
qed

lemma leave_fields: "same_play t ((fold_seat i t)\<lparr>pk_leaving := x\<rparr>)"
  by (simp add: same_play_def fold_seat_def)

text \<open>A seat that folds out of turn: the hand goes on, or its last player wins.\<close>

lemma fold_out_ok:
  assumes t: "poker_ok t" and ph: "is_action_phase (pk_phase t)" and a: "pk_active t = Some a" "a \<noteq> i" and none: "pending_seats t = {}"
    and two: "2 \<le> length (active_player_indices ((fold_seat i t)\<lparr>pk_leaving := x\<rparr>))"
  shows "table_step t ((fold_seat i t)\<lparr>pk_leaving := x\<rparr>) []"
proof -
  let ?t = "(fold_seat i t)\<lparr>pk_leaving := x\<rparr>"
  note same = leave_fields [of t x i]
  have "seats_ok ?t" "chips_ok ?t" "cards_ok ?t" using between_same [OF acting_between [OF t ph none] same] by (simp_all add: between_ok_def calm_def)
  moreover have e: "pending_seats ?t = {}" "live ?t = live t" "pk_phase ?t = pk_phase t"
    using same none by (simp_all add: same_play_def pending_seats_def live_def)
  then have "pending_ok ?t" by (auto simp: pending_ok_def pending_seats_def)
  moreover have "in_play ?t j = in_play t j" if "j \<noteq> i" for j using that by (simp add: in_play_def fold_seat_def)
  then have "acting_ok ?t" using table_parts(6) [OF t ph] a none two unfolding acting_ok_def e(1)
    by (auto simp: fold_seat_def)
  ultimately have "poker_ok ?t" using ph phases [OF ph] by (simp add: poker_ok_def e live_def)
  then show ?thesis by (rule step_from_same [OF table_step_refl same])
qed

definition fold_out :: "nat \<Rightarrow> poker_table \<Rightarrow> settled_table" where
  "fold_out i t =
     (let t = (fold_seat i t)\<lparr>pk_leaving := (pk_leaving t)(i := True)\<rparr>
      in if pk_active t = Some i then advance_after_action i t
         else case active_player_indices t of [winner] \<Rightarrow> finish_by_fold winner t | _ \<Rightarrow> (t, []))"

lemma fold_out_step:
  assumes t: "poker_ok t" and ph: "is_action_phase (pk_phase t)" and none: "pending_seats t = {}"
    and f: "fold_out i t = (t', ss)"
  shows "table_step t t' ss"
proof -
  let ?t = "(fold_seat i t)\<lparr>pk_leaving := (pk_leaving t)(i := True)\<rparr>"
  note same = leave_fields [of t "(pk_leaving t)(i := True)" i]
  have active: "pk_active ?t = pk_active t" by (simp add: fold_seat_def)
  obtain a where a: "a < MAX_SEATS" "pk_active t = Some a" "in_play t a" using table_parts(6) [OF t ph] by (auto simp: acting_ok_def)
  show ?thesis
  proof (cases "a = i")
    case True
    then have "advance_after_action i ?t = (t', ss)" using f a(2) by (simp add: fold_out_def Let_def active)
    then show ?thesis by (rule action_step [OF t ph none same])
  next
    case False
    have f: "(case active_player_indices ?t of [winner] \<Rightarrow> finish_by_fold winner ?t | _ \<Rightarrow> (?t, [])) = (t', ss)"
      using f a(2) False by (simp add: fold_out_def Let_def active)
    have mem: "a \<in> set (active_player_indices ?t)" using a False by (simp add: active_players in_play_def fold_seat_def)
    consider w where "active_player_indices ?t = [w]" | x y ys where "active_player_indices ?t = x # y # ys"
      using mem by (metis empty_iff list.set(1) neq_Nil_conv)
    then show ?thesis
    proof cases
      case 1
      then have "w < MAX_SEATS" using active_players [of ?t] by auto
      moreover have "calm ?t" using between_same [OF acting_between [OF t ph none] same] by (simp add: between_ok_def)
      ultimately show ?thesis using f 1 finish_by_fold_step step_from_same [OF _ same] by simp
    next
      case 2
      have "table_step t ?t []" by (rule fold_out_ok [OF t ph a(2) False none]) (simp add: 2)
      then show ?thesis using f 2 by simp
    qed
  qed
qed

lemma leave_step:
  assumes t: "poker_ok t" and none: "pending_seats t = {}" and f: "leave u t = (t', ss)"
  shows "table_step t t' ss"
proof (cases "seat_index t u")
  case None
  then show ?thesis using f table_step_refl [OF t] by (simp add: leave_def)
next
  case (Some i)
  note i = seat_index_Some [OF Some]
  have p: "pk_pending t i = None" using none i by (auto simp: pending_seats_def)
  show ?thesis
  proof (cases "pk_settling t \<or> pk_phase t = PkPostingBlinds")
    case True
    then show ?thesis using f Some p table_step_refl [OF t] by (auto simp: leave_def split: if_splits)
  next
    case go: False
    show ?thesis
    proof (cases "is_action_phase (pk_phase t) \<and> length (pk_hole t i) = 2")
      case True
      then have "fold_out i t = (t', ss)" using f Some p go by (simp add: leave_def fold_out_def)
      then show ?thesis using fold_out_step [OF t _ none] True by blast
    next
      case False
      then have "t' = remove_seat i t" "ss = []" using f Some p go by (auto simp: leave_def)
      moreover have "\<not> live t \<or> is_action_phase (pk_phase t) \<and> pk_hole t i = []"
        using False go table_parts(3) [OF t] i by (auto simp: live_def cards_ok_def)
      ultimately show ?thesis using remove_seat_step [OF t] i p by blast
    qed
  qed
qed

lemma kick_step:
  assumes t: "poker_ok t" and none: "pending_seats t = {}" and f: "kick_inactive_user now u gen t = (t', changed, ss)"
  shows "table_step t t' ss"
proof (cases "seat_index t u")
  case None
  then show ?thesis using f table_step_refl [OF t] by (simp add: kick_inactive_user_def)
next
  case (Some i)
  note i = seat_index_Some [OF Some]
  have p: "pk_pending t i = None" using none i by (auto simp: pending_seats_def)
  consider "t' = t \<and> ss = []" | "is_action_phase (pk_phase t) \<and> fold_out i t = (t', ss)" |
    "\<not> live t \<and> t' = remove_seat i t \<and> ss = []"
    using f Some by (auto simp: kick_inactive_user_def fold_out_def Let_def live_def split: if_splits prod.splits)
  then show ?thesis
  proof cases
    case 1
    then show ?thesis using table_step_refl [OF t] by simp
  next
    case 2
    then show ?thesis using fold_out_step [OF t _ none] by blast
  next
    case 3
    then show ?thesis using remove_seat_step [OF t] i p by blast
  qed
qed

text \<open>Between two hands the seats that asked to leave are removed.\<close>

lemma remove_leaving_step:
  assumes "poker_ok t" and "\<not> live t"
  shows "table_step t (remove_leave_after_hand_seats t) []"
proof -
  have "table_step t (fold (\<lambda>i t. if pk_leaving t i then remove_seat i t else t) xs t) []"
    if "set xs \<subseteq> {..<MAX_SEATS}" "poker_ok t" "\<not> live t" for xs t
    using that
  proof (induction xs arbitrary: t)
    case Nil
    then show ?case by (simp add: table_step_refl)
  next
    case (Cons i xs)
    let ?t = "if pk_leaving t i then remove_seat i t else t"
    have "pk_pending t i = None" using table_parts(7) [OF Cons.prems(2,3)] Cons.prems(1) by (auto simp: resting_ok_def pending_seats_def)
    then have s: "table_step t ?t []" using remove_seat_step [OF Cons.prems(2), of i] table_step_refl Cons.prems by auto
    then have "poker_ok ?t" "\<not> live ?t" using Cons.prems(3) by (auto simp: table_step_def)
    from table_step_trans [OF s Cons.IH [OF _ this]] Cons.prems(1) show ?case by simp
  qed
  then show ?thesis unfolding remove_leave_after_hand_seats_def using assms by (simp add: subset_iff)
qed


section \<open>A new hand\<close>

lemma mset_fun_upd_concat:
  "distinct xs \<Longrightarrow> i \<in> set xs \<Longrightarrow> mset (concat (map (f(i := f i @ ys)) xs)) = mset (concat (map f xs)) + mset ys"
proof (induction xs)
  case (Cons x xs)
  show ?case
  proof (cases "x = i")
    case True
    then have "map (f(i := f i @ ys)) xs = map f xs" using Cons.prems(1) by auto
    then show ?thesis using True by (simp only: concat.simps list.map mset_append fun_upd_same) (simp add: ac_simps)
  next
    case False
    then show ?thesis using Cons by simp
  qed
qed simp

lemma deal_hole_fold:
  "length xs \<le> length (pk_deck t) \<Longrightarrow> set xs \<subseteq> {..<MAX_SEATS} \<Longrightarrow>
   \<exists>h d. fold deal_hole xs t = t\<lparr>pk_deck := d, pk_hole := h\<rparr> \<and>
     (\<forall>i. length (h i) = length (pk_hole t i) + count_list xs i) \<and> length d + length xs = length (pk_deck t) \<and>
     mset (concat (map h [0..<MAX_SEATS])) + mset d = mset (concat (map (pk_hole t) [0..<MAX_SEATS])) + mset (pk_deck t)"
proof (induction xs arbitrary: t)
  case Nil
  show ?case by (intro exI [of _ "pk_hole t"] exI [of _ "pk_deck t"]) simp
next
  case (Cons x xs)
  then obtain d c where d: "pk_deck t = d @ [c]" by (cases "pk_deck t" rule: rev_cases) auto
  let ?t = "t\<lparr>pk_deck := d, pk_hole := (pk_hole t)(x := pk_hole t x @ [c])\<rparr>"
  obtain h d' where f: "fold deal_hole xs ?t = ?t\<lparr>pk_deck := d', pk_hole := h\<rparr>"
    and l: "\<forall>i. length (h i) = length (pk_hole ?t i) + count_list xs i" "length d' + length xs = length d"
    and m: "mset (concat (map h [0..<MAX_SEATS])) + mset d' = mset (concat (map (pk_hole ?t) [0..<MAX_SEATS])) + mset d"
    using Cons.IH [of ?t] Cons.prems d by (simp del: fun_upd_apply) blast
  have "fold deal_hole (x # xs) t = t\<lparr>pk_deck := d', pk_hole := h\<rparr>" using f by (simp add: deal_hole_def d)
  moreover have "mset (concat (map (pk_hole ?t) [0..<MAX_SEATS])) = mset (concat (map (pk_hole t) [0..<MAX_SEATS])) + {#c#}"
    using Cons.prems(2) mset_fun_upd_concat [of "[0..<MAX_SEATS]" x "pk_hole t" "[c]"] by simp
  ultimately show ?case using l m d by (intro exI [of _ h] exI [of _ d']) auto
qed

lemma next_playable_Some: "next_playable_after t start = Some a \<Longrightarrow> a < MAX_SEATS \<and> playable_seat t a"
  by (auto simp: next_playable_after_def find_Some_iff intro: seats_after_lt nth_mem)

lemma seats_after_each: "seats_after 0 = [1, 2, 3, 0]" "seats_after 1 = [2, 3, 0, 1]" "seats_after 2 = [3, 0, 1, 2]"
  "seats_after 3 = [0, 1, 2, 3]"
  by code_simp+

lemma next_playable_other:
  assumes d: "d < MAX_SEATS" and j: "j < MAX_SEATS" "j \<noteq> d" "playable_seat t j"
  shows "\<exists>a. next_playable_after t d = Some a \<and> a \<noteq> d"
proof -
  have "d = 0 \<or> d = 1 \<or> d = 2 \<or> d = 3" "j = 0 \<or> j = 1 \<or> j = 2 \<or> j = 3" using d j(1) by (auto simp: MAX_SEATS_def)
  then show ?thesis using j(2,3) unfolding next_playable_after_def by (elim disjE) (simp_all add: seats_after_each seats_after_each(2) [simplified])
qed

lemma playables: "set (playable_indices t) = {i. i < MAX_SEATS \<and> playable_seat t i}"
  by (auto simp: playable_indices_def)

lemma two_playable:
  assumes "2 \<le> length (playable_indices t)"
  shows "\<exists>j < MAX_SEATS. j \<noteq> d \<and> playable_seat t j"
proof -
  have "distinct (playable_indices t)" by (simp add: playable_indices_def)
  then have "2 \<le> card (set (playable_indices t))" using assms by (simp add: distinct_card)
  then have "\<not> set (playable_indices t) \<subseteq> {d}" using card_mono [of "{d}" "set (playable_indices t)"] by fastforce
  then show ?thesis by (auto simp: playables)
qed

lemma choose_dealer_playable:
  assumes "2 \<le> length (playable_indices t)"
  shows "choose_dealer u t < MAX_SEATS \<and> playable_seat t (choose_dealer u t)"
proof -
  obtain x xs where p: "playable_indices t = x # xs" using assms by (cases "playable_indices t") auto
  then have "x \<in> set (playable_indices t)" by simp
  then have x: "x < MAX_SEATS \<and> playable_seat t x" by (simp add: playables)
  show ?thesis
  proof (cases "Option.bind (pk_dealer t) (next_playable_after t)")
    case (Some d)
    then have "d < MAX_SEATS \<and> playable_seat t d" using next_playable_Some by (auto simp: bind_eq_Some_conv)
    then show ?thesis using Some by (simp add: choose_dealer_def)
  next
    case None
    show ?thesis
    proof (cases "Option.bind (seat_index t u) (\<lambda>i. if pk_balances t i > 0 then Some i else None)")
      case (Some d)
      then have "d < MAX_SEATS \<and> playable_seat t d" using seat_index_Some [of t u]
        by (auto simp: bind_eq_Some_conv playable_seat_def split: if_splits)
      then show ?thesis using Some None by (simp add: choose_dealer_def)
    qed (use None p x in \<open>simp add: choose_dealer_def\<close>)
  qed
qed

text \<open>The two blinds are posted by two players.\<close>

lemma blind_seats:
  assumes two: "2 \<le> length (playable_indices t)" and d: "d < MAX_SEATS" "playable_seat t d" and b: "blind_seats_for t d = (small, big)"
  shows "small < MAX_SEATS" "playable_seat t small" "big < MAX_SEATS" "playable_seat t big" "big \<noteq> small"
proof -
  have next_one: "\<exists>a. next_playable_after t d = Some a \<and> a \<noteq> d \<and> a < MAX_SEATS \<and> playable_seat t a" if "d < MAX_SEATS" for d
    using next_playable_other [OF that] two_playable [OF two, of d] next_playable_Some by metis
  obtain a where a: "next_playable_after t d = Some a" "a \<noteq> d" "a < MAX_SEATS" "playable_seat t a" using next_one d by blast
  obtain c where c: "next_playable_after t a = Some c" "c \<noteq> a" "c < MAX_SEATS" "playable_seat t c" using next_one a by blast
  have "small = d \<and> big = a \<or> small = a \<and> big = c"
    using b unfolding blind_seats_for_def Let_def a(1) by (auto simp: c(1) split: if_splits)
  then show "small < MAX_SEATS" "playable_seat t small" "big < MAX_SEATS" "playable_seat t big" "big \<noteq> small" using d a c by auto
qed

text \<open>A forced commit of a seat that was dealt in.\<close>

lemma forced_commit:
  assumes "pk_seats t i = Some u" and "length (pk_hole t i) = 2" and "0 < blind" and "0 < pk_balances t i"
    and "prepare_forced_commit i kind blind t = (t', r)"
  shows "\<exists>p q. t' = t\<lparr>pk_next_request := pk_next_request t + 1, pk_pending := (pk_pending t)(i \<mapsto> p)\<rparr> \<and>
    r = Some q \<and> q = \<lparr>cr_id = pn_id p, cr_user = u, cr_seat = i, cr_amount = pn_amount p, cr_hand = pk_hand_id t\<rparr> \<and>
    0 < pn_amount p \<and> pn_amount p \<le> pk_balances t i"
proof -
  have "min blind (pk_balances t i) \<noteq> 0" using assms(3,4) by (simp add: min_def)
  then show ?thesis using assms by (auto simp: prepare_forced_commit_def set_pending_commit_def Let_def split: prod.splits)
qed

text \<open>The request of a seat and the commit it waits for.\<close>

definition request_of :: "poker_table \<Rightarrow> commit_request \<Rightarrow> bool" where
  "request_of t r \<longleftrightarrow>
     cr_seat r < MAX_SEATS \<and> pk_seats t (cr_seat r) = Some (cr_user r) \<and> cr_hand r = pk_hand_id t \<and>
     (\<exists>p. pk_pending t (cr_seat r) = Some p \<and> pn_id p = cr_id r \<and> pn_amount p = cr_amount r)"

definition hand_started :: "poker_table \<Rightarrow> uuid \<Rightarrow> poker_table \<Rightarrow> commit_request list \<Rightarrow> bool" where
  "hand_started t hand t' rs \<longleftrightarrow>
     \<not> live t \<and> \<not> pk_settling t \<and> poker_ok t' \<and> pk_phase t' = PkPostingBlinds \<and> pk_hand_id t' = hand \<and> pot t' = 0 \<and>
     list_all (request_of t') rs \<and> distinct (map cr_seat rs) \<and> set (map cr_seat rs) = pending_seats t'"

lemma small_blind_pos: "0 < small_blind_of s" "0 < big_blind_of s"
  by (auto simp: small_blind_of_def big_blind_of_def normalized_def SMALL_BLIND_OPTIONS_def default_settings_def Let_def)

lemma count_list_distinct: "distinct xs \<Longrightarrow> count_list xs x = (if x \<in> set xs then 1 else 0)"
  by (induction xs) auto

lemma length_fresh_deck: "length poker_fresh_deck = 52"
  using distinct_poker_deck by simp

text \<open>The table after the deal: two cards for each playable seat and the rest in the stock.\<close>

lemma dealt_cards:
  assumes "set xs \<subseteq> {..<MAX_SEATS}" and "distinct xs" and "pk_hole t = (\<lambda>_. [])" and "pk_community t = []"
    and deck: "mset (pk_deck t) = mset poker_fresh_deck"
  obtains h d where "fold deal_hole (xs @ xs) t = t\<lparr>pk_deck := d, pk_hole := h\<rparr>"
    and "\<And>i. length (h i) = (if i \<in> set xs then 2 else 0)"
    and "mset (concat (map h [0..<MAX_SEATS])) + mset d = mset poker_fresh_deck" and "5 \<le> length d"
proof -
  have len: "length xs \<le> 4" using card_mono [OF _ assms(1)] distinct_card [OF assms(2)] by (simp add: MAX_SEATS_def)
  have deck52: "length (pk_deck t) = 52" using arg_cong [OF deck, of size] by (simp add: length_fresh_deck)
  obtain h d where f: "fold deal_hole (xs @ xs) t = t\<lparr>pk_deck := d, pk_hole := h\<rparr>"
    and l: "\<forall>i. length (h i) = length (pk_hole t i) + count_list (xs @ xs) i" "length d + length (xs @ xs) = length (pk_deck t)"
    and m: "mset (concat (map h [0..<MAX_SEATS])) + mset d = mset (concat (map (pk_hole t) [0..<MAX_SEATS])) + mset (pk_deck t)"
    using deal_hole_fold [of "xs @ xs" t] len deck52 assms(1) by auto
  show thesis
  proof (rule that [OF f])
    show "length (h i) = (if i \<in> set xs then 2 else 0)" for i
      using l(1) assms(2,3) by (simp add: count_list_append count_list_distinct)
    show "mset (concat (map h [0..<MAX_SEATS])) + mset d = mset poker_fresh_deck" using m assms(3) deck by simp
    show "5 \<le> length d" using l(2) deck52 len by simp
  qed
qed

lemma playable_same:
  assumes "pk_seats t' = pk_seats t" and "pk_balances t' = pk_balances t"
  shows "playable_indices t' = playable_indices t"
proof -
  have "playable_seat t' = playable_seat t" using assms by (intro ext) (simp add: playable_seat_def)
  then show ?thesis by (simp add: playable_indices_def)
qed

text \<open>The table that waits for its two blinds.\<close>

lemma posting_table:
  assumes t: "poker_ok t" and rest: "\<not> live t" "\<not> pk_settling t"
    and s: "small < MAX_SEATS" "big < MAX_SEATS" "big \<noteq> small"
    and same: "pk_seats t' = pk_seats t" "pk_balances t' = pk_balances t" "pk_hole t' = h" "pk_deck t' = d" "pk_community t' = []"
      "pk_folded t' = (\<lambda>_. False)" "pk_all_in t' = (\<lambda>_. False)" "pk_committed t' = (\<lambda>_. 0)" "pk_active t' = None"
      "pk_deadline t' = None" "pk_phase t' = PkPostingBlinds" "pk_hand_id t' = hand" "pk_pending_blinds t' = 2"
    and settling: "\<not> pk_settling t'"
    and pend: "pk_pending t' = (\<lambda>_. None)(small \<mapsto> p, big \<mapsto> p')"
    and h: "\<And>i. i < MAX_SEATS \<Longrightarrow> length (h i) = (if playable_seat t i then 2 else 0)" and d: "5 \<le> length d"
    and m: "mset (concat (map h [0..<MAX_SEATS])) + mset d = mset poker_fresh_deck"
    and u: "pk_seats t small = Some us" "0 < pk_balances t small" "pk_seats t big = Some ub" "0 < pk_balances t big"
    and p: "0 < pn_amount p" "pn_amount p \<le> pk_balances t small" "0 < pn_amount p'" "pn_amount p' \<le> pk_balances t big"
    and rs: "rs = [\<lparr>cr_id = pn_id p, cr_user = us, cr_seat = small, cr_amount = pn_amount p, cr_hand = hand\<rparr>,
      \<lparr>cr_id = pn_id p', cr_user = ub, cr_seat = big, cr_amount = pn_amount p', cr_hand = hand\<rparr>]"
  shows "hand_started t hand t' rs"
proof -
  have pl: "playable_seat t small" "playable_seat t big" using u by (simp_all add: playable_seat_def)
  have none: "pk_hole t' i = []" if "i < MAX_SEATS" "pk_seats t i = None" for i using h [OF that(1)] that(2) same by (simp add: playable_seat_def)
  have ps: "pending_seats t' = {small, big}" using s by (auto simp: pending_seats_def pend)
  have l: "live t'" "\<not> is_action_phase (pk_phase t')" using same by (simp_all add: live_def)
  have "seats_ok t'"
  proof -
    have "pk_pending t' i = None" if "pk_seats t i = None" for i using that u by (auto simp: pend)
    then show ?thesis using table_parts(1) [OF t] none unfolding seats_ok_def same(1,2,8) by simp
  qed
  moreover have "chips_ok t'" using table_parts(2) [OF t] same by (simp add: chips_ok_def)
  moreover have "cards_ok t'"
  proof -
    have "\<forall>i < MAX_SEATS. h i = [] \<or> length (h i) = 2" using h by (metis length_0_conv)
    then show ?thesis using m d same by (simp add: cards_ok_def cards_out_def)
  qed
  moreover have "pending_ok t'" using h s u p pl unfolding pending_ok_def in_play_def same pend by (auto split: if_splits)
  moreover have "posting_ok t'" using same settling ps s(3) by (simp add: posting_ok_def)
  ultimately have "poker_ok t'" using l by (simp add: poker_ok_def)
  moreover have "list_all (request_of t') rs" using s u by (simp add: rs request_of_def same pend)
  ultimately show ?thesis using rest ps s same by (auto simp: hand_started_def rs pot_def)
qed

lemma deal_new_hand_started:
  assumes t: "poker_ok t" and rest: "\<not> live t" "\<not> pk_settling t" and two: "2 \<le> length (playable_indices t)"
    and f: "deal_new_hand draws hand u t = (t', rs)"
  shows "hand_started t hand t' rs"
proof -
  let ?c = "clear_hand draws t"
  let ?ps = "playable_indices t"
  have play: "playable_indices (x\<lparr>pk_deck := d, pk_hole := h\<rparr>) = playable_indices x"
    "playable_indices (x\<lparr>pk_dealer := e\<rparr>) = playable_indices x" "playable_indices ?c = ?ps" for x d h e
    by (rule playable_same; simp add: clear_hand_def clear_action_countdown_def)+
  define dealer where "dealer = choose_dealer u ?c"
  let ?c1 = "?c\<lparr>pk_dealer := Some dealer\<rparr>"
  have dealer: "dealer < MAX_SEATS" "playable_seat ?c dealer" using choose_dealer_playable [of ?c u] two by (simp_all add: dealer_def play)
  obtain h d where deal: "fold deal_hole (?ps @ ?ps) ?c1 = ?c1\<lparr>pk_deck := d, pk_hole := h\<rparr>"
    and h: "\<And>i. length (h i) = (if i \<in> set ?ps then 2 else 0)"
    and m: "mset (concat (map h [0..<MAX_SEATS])) + mset d = mset poker_fresh_deck" and d: "5 \<le> length d"
  proof (rule dealt_cards [of ?ps ?c1])
    show "set ?ps \<subseteq> {..<MAX_SEATS}" by (auto simp: playables)
    show "distinct ?ps" by (simp add: playable_indices_def)
  qed (simp_all add: clear_hand_def clear_action_countdown_def poker_shuffle_def mset_fisher_yates)
  let ?c2 = "?c1\<lparr>pk_deck := d, pk_hole := h\<rparr>"
  obtain small big where b: "blind_seats_for ?c2 dealer = (small, big)" by (meson surj_pair)
  have "playable_seat ?c2 dealer" using dealer(2) by (simp add: playable_seat_def)
  note bs = blind_seats [OF _ dealer(1) this b, unfolded play, OF two]
  let ?c3 = "?c2\<lparr>pk_small_seat := Some small, pk_big_seat := Some big, pk_phase := PkPostingBlinds,
    pk_hand_number := (if pk_hand_number ?c2 = - 1 then - 1 else pk_hand_number ?c2 + 1), pk_hand_id := hand\<rparr>"
  have same: "pk_seats ?c3 = pk_seats t" "pk_balances ?c3 = pk_balances t" by (simp_all add: clear_hand_def clear_action_countdown_def)
  have pl: "playable_seat ?c2 i \<longleftrightarrow> playable_seat t i" for i by (simp add: playable_seat_def clear_hand_def clear_action_countdown_def)
  have mem: "small \<in> set ?ps" "big \<in> set ?ps" using bs by (simp_all add: playables pl)
  obtain us ub where us: "pk_seats t small = Some us" "0 < pk_balances t small" and ub: "pk_seats t big = Some ub" "0 < pk_balances t big"
    using bs(2,4) unfolding pl unfolding playable_seat_def by blast
  obtain t5 r1 where c5: "prepare_forced_commit small CommitSmallBlind (small_blind_of (pk_settings ?c3)) ?c3 = (t5, r1)" by (meson surj_pair)
  obtain p q where t5: "t5 = ?c3\<lparr>pk_next_request := pk_next_request ?c3 + 1, pk_pending := (pk_pending ?c3)(small \<mapsto> p)\<rparr>"
    and r1: "r1 = Some q" "q = \<lparr>cr_id = pn_id p, cr_user = us, cr_seat = small, cr_amount = pn_amount p, cr_hand = pk_hand_id ?c3\<rparr>"
    and p: "0 < pn_amount p" "pn_amount p \<le> pk_balances t small"
    using forced_commit [OF _ _ _ _ c5, of us] us mem(1) small_blind_pos same h by auto
  obtain t6 r2 where c6: "prepare_forced_commit big CommitBigBlind (big_blind_of (pk_settings t5)) t5 = (t6, r2)" by (meson surj_pair)
  have same5: "pk_seats t5 = pk_seats t" "pk_balances t5 = pk_balances t" "pk_hole t5 = h" unfolding t5 using same by simp_all
  obtain p' q' where t6: "t6 = t5\<lparr>pk_next_request := pk_next_request t5 + 1, pk_pending := (pk_pending t5)(big \<mapsto> p')\<rparr>"
    and r2: "r2 = Some q'" "q' = \<lparr>cr_id = pn_id p', cr_user = ub, cr_seat = big, cr_amount = pn_amount p', cr_hand = pk_hand_id t5\<rparr>"
    and p': "0 < pn_amount p'" "pn_amount p' \<le> pk_balances t big"
    using forced_commit [OF _ _ _ _ c6, of ub] ub mem(2) small_blind_pos same5 h by auto
  have f3: "pk_seats ?c3 = pk_seats t" "pk_balances ?c3 = pk_balances t" "pk_hole ?c3 = h" "pk_deck ?c3 = d" "pk_community ?c3 = []"
      "pk_folded ?c3 = (\<lambda>_. False)" "pk_all_in ?c3 = (\<lambda>_. False)" "pk_committed ?c3 = (\<lambda>_. 0)" "pk_active ?c3 = None"
      "pk_deadline ?c3 = None" "pk_phase ?c3 = PkPostingBlinds" "pk_hand_id ?c3 = hand" "pk_settling ?c3 = False" "pk_pending ?c3 = (\<lambda>_. None)"
    by (simp_all add: clear_hand_def clear_action_countdown_def)
  have res: "t' = t6\<lparr>pk_pending_blinds := 2\<rparr>" "rs = [q, q']"
    using f bs(5) unfolding deal_new_hand_def Let_def play dealer_def [symmetric] deal b prod.case c5 r1(1)
    by (simp_all only: if_True simp_thms prod.case c6 r2(1)) (auto simp: List.map_filter_def)
  show ?thesis
  proof (rule posting_table [OF t rest, where h = h and d = d and small = small and big = big])
    show "pk_pending t' = (\<lambda>_. None)(small \<mapsto> p, big \<mapsto> p')"
      unfolding res(1) t6 t5 by (simp add: f3(14) [simplified])
    show "length (h i) = (if playable_seat t i then 2 else 0)" if "i < MAX_SEATS" for i using h that by (simp add: playables)
    show "rs = [\<lparr>cr_id = pn_id p, cr_user = us, cr_seat = small, cr_amount = pn_amount p, cr_hand = hand\<rparr>,
      \<lparr>cr_id = pn_id p', cr_user = ub, cr_seat = big, cr_amount = pn_amount p', cr_hand = hand\<rparr>]"
      unfolding res(2) r1(2) r2(2) t5 by simp
    show "pk_seats t' = pk_seats t" "pk_balances t' = pk_balances t" "pk_hole t' = h" "pk_deck t' = d" "pk_community t' = []"
      "pk_folded t' = (\<lambda>_. False)" "pk_all_in t' = (\<lambda>_. False)" "pk_committed t' = (\<lambda>_. 0)" "pk_active t' = None"
      "pk_deadline t' = None" "pk_phase t' = PkPostingBlinds" "pk_hand_id t' = hand" "\<not> pk_settling t'" "pk_pending_blinds t' = 2"
      using f3 unfolding res(1) t6 t5 by simp_all
    show "small < MAX_SEATS" "big < MAX_SEATS" "big \<noteq> small" by (fact bs)+
    show "0 < pn_amount p" "pn_amount p \<le> pk_balances t small" by (fact p)+
    show "0 < pn_amount p'" "pn_amount p' \<le> pk_balances t big" by (fact p')+
    show "pk_seats t small = Some us" "0 < pk_balances t small" by (fact us)+
    show "pk_seats t big = Some ub" "0 < pk_balances t big" by (fact ub)+
    show "mset (concat (map h [0..<MAX_SEATS])) + mset d = mset poker_fresh_deck" by (rule m)
    show "5 \<le> length d" by (rule d)
  qed
qed

lemma start_hand_started:
  assumes t: "poker_ok t" and f: "start_hand draws hand u t = (t', rs)"
  shows "rs = [] \<and> table_step t t' [] \<or> hand_started t hand t' rs"
proof (cases "seat_index t u = None \<or> pk_settling t \<or> pk_phase t \<notin> {PkWaiting, PkShowdown} \<or> list_ex (\<lambda>i. pk_pending t i \<noteq> None) [0..<MAX_SEATS]")
  case True
  then have "start_hand draws hand u t = (t, [])" by (auto simp: start_hand_def)
  then show ?thesis using f table_step_refl [OF t] by simp
next
  case go: False
  let ?t = "remove_leave_after_hand_seats t"
  have rest: "\<not> live t" "\<not> pk_settling t" using go by (auto simp: not_live)
  have s: "table_step t ?t []" using remove_leaving_step [OF t] rest by simp
  have f': "(if length (playable_indices ?t) < 2 then (?t, []) else deal_new_hand draws hand u ?t) = (t', rs)"
    using f go unfolding start_hand_def Let_def by (simp only: de_Morgan_disj not_not if_False simp_thms)
  show ?thesis
  proof (cases "length (playable_indices ?t) < 2")
    case True
    then show ?thesis using f' s by simp
  next
    case False
    then have "deal_new_hand draws hand u ?t = (t', rs)" "2 \<le> length (playable_indices ?t)" using f' by auto
    moreover have "poker_ok ?t" "\<not> live ?t" "\<not> pk_settling ?t" using s rest by (auto simp: table_step_def)
    ultimately have "hand_started ?t hand t' rs" using deal_new_hand_started by blast
    then show ?thesis using rest by (simp add: hand_started_def)
  qed
qed


section \<open>Commits\<close>

definition commit_made :: "poker_table \<Rightarrow> poker_table \<Rightarrow> commit_request \<Rightarrow> bool" where
  "commit_made t t' r \<longleftrightarrow>
     poker_ok t' \<and> live t \<and> live t' \<and> request_of t' r \<and> pending_seats t = {} \<and> pending_seats t' = {cr_seat r} \<and>
     pk_hand_id t' = pk_hand_id t \<and> pk_settling t' = pk_settling t \<and> pot t' = pot t"

definition outcome_ok :: "poker_table \<Rightarrow> poker_table \<times> action_outcome \<Rightarrow> bool" where
  "outcome_ok t result \<longleftrightarrow>
     (case result of (t', out) \<Rightarrow>
        (case out of
           OutcomeNone \<Rightarrow> t' = t
         | OutcomeCommit r \<Rightarrow> commit_made t t' r
         | OutcomeSettlements ss \<Rightarrow> table_step t t' ss))"

lemma outcome_none: "outcome_ok t (t, OutcomeNone)"
  by (simp add: outcome_ok_def)

lemma commit_outcome_ok:
  assumes t: "poker_ok t" and v: "validate_active_user u t = Some i" and a: "0 < amount" "amount \<le> pk_balances t i"
  shows "outcome_ok t (commit_outcome i kind amount target_bet raise_size (record_manual_action i t))"
proof -
  note w = validate_Some [OF v]
  then have none: "pending_seats t = {}" using active_pending [OF t, of i] by simp
  let ?p = "\<lparr>pn_id = pk_next_request t + 1, pn_kind = kind, pn_amount = amount, pn_target = target_bet, pn_raise = raise_size\<rparr>"
  let ?r = "\<lparr>cr_id = pk_next_request t + 1, cr_user = u, cr_seat = i, cr_amount = amount, cr_hand = pk_hand_id t\<rparr>"
  let ?t = "(record_manual_action i t)\<lparr>pk_next_request := pk_next_request t + 1, pk_pending := (pk_pending t)(i \<mapsto> ?p)\<rparr>"
  have c: "commit_outcome i kind amount target_bet raise_size (record_manual_action i t) = (?t, OutcomeCommit ?r)"
    using w by (simp add: commit_outcome_def set_pending_commit_def record_manual_action_def clear_action_countdown_def Let_def)
  have s: "same_play t (record_manual_action i t)" by simp
  have pl: "in_play ?t = in_play t" "active_player_indices ?t = active_player_indices t"
    by (rule in_play_same; simp add: record_manual_action_def clear_action_countdown_def)+
  have ps: "pending_seats ?t = {i}" using none w by (auto simp: pending_seats_def)
  have "seats_ok ?t" using table_parts(1) [OF t] w s by (auto simp: seats_ok_def same_play_def)
  moreover have "chips_ok ?t" using table_parts(2) [OF t] s by (simp add: chips_ok_def same_play_def)
  moreover have "cards_ok ?t" using table_parts(3) [OF t] s by (simp add: cards_ok_def cards_out_def same_play_def live_def)
  moreover have "pending_ok ?t"
    using w a none s unfolding pending_ok_def pl
    by (auto simp: pending_seats_def same_play_def record_manual_action_def clear_action_countdown_def)
  moreover have "acting_ok ?t"
    using w a table_parts(6) [OF t] ps unfolding acting_ok_def pl by (auto simp: record_manual_action_def clear_action_countdown_def)
  moreover have ph: "is_action_phase (pk_phase ?t)" "live ?t" "live t" using w by (auto simp: live_def record_manual_action_def clear_action_countdown_def)
  ultimately have "poker_ok ?t" using phases [OF ph(1)] by (simp add: poker_ok_def)
  moreover have "request_of ?t ?r" using w s by (simp add: request_of_def same_play_def)
  moreover have "pk_hand_id ?t = pk_hand_id t" "pk_settling ?t = pk_settling t" "pot ?t = pot t" using s by (simp_all add: same_play_def pot_def)
  ultimately show ?thesis using ph none ps unfolding c outcome_ok_def by (simp add: commit_made_def)
qed

lemma call_or_check_ok: "poker_ok t \<Longrightarrow> outcome_ok t (call_or_check u t)"
proof (cases "validate_active_user u t")
  case (Some i)
  assume t: "poker_ok t"
  show ?thesis
  proof (cases "to_call t i = 0")
    case True
    obtain t' ss where a: "advance_after_action i (check_seat i (record_manual_action i t)) = (t', ss)" by (meson surj_pair)
    then show ?thesis using check_step [OF t Some a] Some True by (simp add: call_or_check_def outcome_ok_def)
  next
    case False
    then show ?thesis using Some commit_outcome_ok [OF t Some] outcome_none by (auto simp: call_or_check_def Let_def)
  qed
qed (simp add: call_or_check_def outcome_none)

lemma bet_or_raise_ok: "poker_ok t \<Longrightarrow> outcome_ok t (bet_or_raise u x t)"
proof (cases "validate_active_user u t")
  case (Some i)
  assume t: "poker_ok t"
  show ?thesis using Some commit_outcome_ok [OF t Some] outcome_none by (auto simp: bet_or_raise_def Let_def)
qed (simp add: bet_or_raise_def outcome_none)

lemma all_in_ok: "poker_ok t \<Longrightarrow> outcome_ok t (all_in u t)"
proof (cases "validate_active_user u t")
  case (Some i)
  assume t: "poker_ok t"
  show ?thesis using Some commit_outcome_ok [OF t Some] outcome_none by (auto simp: all_in_def Let_def)
qed (simp add: all_in_def outcome_none)

text \<open>A commit that ends, for an amount that may be zero.\<close>

definition chips_moved :: "poker_table \<Rightarrow> nat \<Rightarrow> int \<Rightarrow> poker_table \<Rightarrow> bool" where
  "chips_moved t i a t2 \<longleftrightarrow>
     pk_seats t2 = pk_seats t \<and> pk_hole t2 = pk_hole t \<and> pk_community t2 = pk_community t \<and> pk_deck t2 = pk_deck t \<and>
     pk_phase t2 = pk_phase t \<and> pk_settling t2 = pk_settling t \<and> pk_hand_id t2 = pk_hand_id t \<and>
     pk_active t2 = pk_active t \<and> pk_deadline t2 = pk_deadline t \<and> pk_pending t2 = (pk_pending t)(i := None) \<and>
     pk_balances t2 = (pk_balances t)(i := pk_balances t i - a) \<and>
     pk_committed t2 = (pk_committed t)(i := pk_committed t i + a) \<and>
     (\<forall>j. j \<noteq> i \<longrightarrow> pk_folded t2 j = pk_folded t j \<and> pk_all_in t2 j = pk_all_in t j)"

lemma moved_ok:
  assumes t: "poker_ok t" and i: "i < MAX_SEATS" and p: "pk_pending t i = Some p" and a: "0 \<le> a" "a \<le> pn_amount p"
    and m: "chips_moved t i a t2"
  shows "seats_ok t2" "chips_ok t2" "cards_ok t2" "pending_ok t2" "pending_seats t2 = pending_seats t - {i}" "live t2 = live t"
    "pot t2 = pot t + a"
proof -
  have seated: "pk_seats t i \<noteq> None" using table_parts(1) [OF t] i p by (auto simp: seats_ok_def)
  have q: "pn_amount p \<le> pk_balances t i" "in_play t i" using table_parts(4) [OF t] i p by (auto simp: pending_ok_def)
  then have hole: "pk_hole t i \<noteq> []" by (auto simp: in_play_def)
  show "seats_ok t2" using table_parts(1) [OF t] m seated by (auto simp: seats_ok_def chips_moved_def)
  show "chips_ok t2" using table_parts(2) [OF t] m a q(1) hole i by (force simp: chips_ok_def chips_moved_def)
  show l: "live t2 = live t" using m by (simp add: live_def chips_moved_def)
  show "cards_ok t2" by (rule cards_ok_same [OF table_parts(3) [OF t]]) (use m l in \<open>simp_all add: chips_moved_def\<close>)
  show "pending_seats t2 = pending_seats t - {i}" using m by (auto simp: pending_seats_def chips_moved_def)
  have "in_play t2 j = in_play t j" if "j \<noteq> i" for j using m that by (simp add: in_play_def chips_moved_def)
  then show "pending_ok t2" using table_parts(4) [OF t] m by (auto simp: pending_ok_def chips_moved_def)
  have "(\<Sum>j<MAX_SEATS. pk_committed t2 j) = (\<Sum>j<MAX_SEATS. pk_committed t j + (if j = i then a else 0))"
    using m by (intro sum.cong) (auto simp: chips_moved_def)
  then show "pot t2 = pot t + a" using i by (simp add: pot_sum sum.distrib)
qed

definition commit_applied :: "poker_table \<Rightarrow> nat \<Rightarrow> int \<Rightarrow> poker_table \<Rightarrow> poker_settlement list \<Rightarrow> bool" where
  "commit_applied t i a t' ss \<longleftrightarrow>
     poker_ok t' \<and> pk_hand_id t' = pk_hand_id t \<and>
     (\<forall>j < MAX_SEATS. pk_pending t' j = (if j = i then None else pk_pending t j) \<and>
        (pk_pending t' j \<noteq> None \<longrightarrow> pk_seats t' j = pk_seats t j)) \<and>
     (live t' \<longrightarrow> pot t' = pot t + a) \<and> (pk_settling t' \<longleftrightarrow> ss \<noteq> []) \<and>
     (ss \<noteq> [] \<longrightarrow> \<not> live t' \<and> paid_within (pk_hand_id t) (pot t + a) ss)"

lemma applied_from_step:
  assumes t: "poker_ok t" and i: "i < MAX_SEATS" and p: "pk_pending t i = Some p" and a: "0 \<le> a" "a \<le> pn_amount p"
    and m: "chips_moved t i a t2" and s: "table_step t2 t' ss"
  shows "commit_applied t i a t' ss"
proof -
  note f = moved_ok [OF assms(1-6)]
  have "live t" by (rule ccontr) (use table_parts(7) [OF t] i p in \<open>auto simp: resting_ok_def pending_seats_def\<close>)
  then have "\<not> pk_settling t2" using live_settling [OF t] m by (simp add: chips_moved_def)
  then show ?thesis using s m unfolding table_step_def commit_applied_def f(7) by (auto simp: chips_moved_def split: if_splits)
qed

lemma applied_acting:
  assumes t: "poker_ok t" and i: "i < MAX_SEATS" and p: "pk_pending t i = Some p" and a: "0 \<le> a" "a \<le> pn_amount p"
    and m: "chips_moved t i a t2" and ph: "is_action_phase (pk_phase t)" and f: "advance_after_action i t2 = (t', ss)"
  shows "commit_applied t i a t' ss"
proof -
  note g = moved_ok [OF assms(1-6)]
  have "pending_seats t \<subseteq> {i}" using table_parts(6) [OF t ph] i p by (auto simp: acting_ok_def pending_seats_def)
  then have "pending_seats t2 = {}" using g(5) by auto
  moreover have "length (pk_community t2) = street_cards (pk_phase t2)" "\<not> pk_settling t2" "live t2" "is_action_phase (pk_phase t2)"
    using table_parts(6) [OF t ph] ph m g(6) by (auto simp: acting_ok_def chips_moved_def live_def)
  ultimately have "table_step t2 t' ss" using g f by (intro advance_step) (simp_all add: between_ok_def calm_def)
  then show ?thesis by (rule applied_from_step [OF assms(1-6)])
qed

lemma applied_posting:
  assumes t: "poker_ok t" and i: "i < MAX_SEATS" and p: "pk_pending t i = Some p" and a: "0 \<le> a" "a \<le> pn_amount p"
    and m: "chips_moved t i a t2" and ph: "pk_phase t = PkPostingBlinds" and n: "pk_pending_blinds t2 = pk_pending_blinds t - 1"
    and f: "(if pk_pending_blinds t2 = 0 then finish_blind_posting t2 else (t2, [])) = (t', ss)"
  shows "commit_applied t i a t' ss"
proof -
  note g = moved_ok [OF assms(1-6)]
  note q = table_parts(5) [OF t ph, unfolded posting_ok_def]
  have mem: "i \<in> pending_seats t" "finite (pending_seats t)" using i p by (auto simp: pending_seats_def)
  then have c: "card (pending_seats t2) = pk_pending_blinds t2" using q n by (simp add: g(5))
  have ph2: "pk_phase t2 = PkPostingBlinds" "live t2" "pk_deadline t2 = None" "\<not> pk_settling t2" "pk_active t2 = None" "pk_community t2 = []"
    using m ph q by (simp_all add: chips_moved_def live_def)
  have "table_step t2 t' ss"
  proof (cases "pk_pending_blinds t2 = 0")
    case True
    moreover have "finite (pending_seats t2)" by (simp add: pending_seats_def)
    ultimately have "pending_seats t2 = {}" using c by simp
    then have "between_ok t2" using g ph2 by (simp add: between_ok_def calm_def)
    then show ?thesis using \<open>pk_pending_blinds t2 = 0\<close> f ph2 by (intro finish_blind_posting_step) auto
  next
    case False
    then have "posting_ok t2" using ph2 c by (simp add: posting_ok_def)
    then have "poker_ok t2" using g ph2 by (simp add: poker_ok_def)
    then show ?thesis using False f table_step_refl by simp
  qed
  then show ?thesis by (rule applied_from_step [OF assms(1-6)])
qed

lemma sat_i64_id: "- (2 ^ 63) \<le> x \<Longrightarrow> x < 2 ^ 63 \<Longrightarrow> sat_i64 x = x"
  by (simp add: sat_i64_def)

lemma raise_bet_same:
  "same_play t (raise_bet i p t)" "pk_folded (raise_bet i p t) = pk_folded t" "pk_all_in (raise_bet i p t) = pk_all_in t"
  "pk_active (raise_bet i p t) = pk_active t" "pk_deadline (raise_bet i p t) = pk_deadline t"
  "pk_pending_blinds (raise_bet i p t) = pk_pending_blinds t"
  by (auto simp: raise_bet_def reset_other_action_flags_def same_play_def Let_def)

lemma take_commit_moved:
  assumes "0 \<le> pn_amount p" and "pn_amount p \<le> pk_balances t i" and "pk_balances t i < 2 ^ 63"
  shows "chips_moved t i (pn_amount p) (take_commit i p (t\<lparr>pk_pending := (pk_pending t)(i := None)\<rparr>))"
    "pk_pending_blinds (take_commit i p (t\<lparr>pk_pending := (pk_pending t)(i := None)\<rparr>)) = pk_pending_blinds t"
proof -
  have "sat_i64 (pk_balances t i - pn_amount p) = pk_balances t i - pn_amount p" using assms by (intro sat_i64_id) simp_all
  then show "chips_moved t i (pn_amount p) (take_commit i p (t\<lparr>pk_pending := (pk_pending t)(i := None)\<rparr>))"
    "pk_pending_blinds (take_commit i p (t\<lparr>pk_pending := (pk_pending t)(i := None)\<rparr>)) = pk_pending_blinds t"
    by (simp_all add: take_commit_def chips_moved_def Let_def)
qed

lemma moved_from_same:
  "chips_moved t i a t1 \<Longrightarrow> same_play t1 t2 \<Longrightarrow> pk_folded t2 = pk_folded t1 \<Longrightarrow> pk_all_in t2 = pk_all_in t1 \<Longrightarrow>
     pk_active t2 = pk_active t1 \<Longrightarrow> pk_deadline t2 = pk_deadline t1 \<Longrightarrow> chips_moved t i a t2"
  by (simp add: chips_moved_def same_play_def)

lemma moved_to_same:
  "chips_moved t1 i a t2 \<Longrightarrow> same_play t t1 \<Longrightarrow> pk_folded t1 = pk_folded t \<Longrightarrow> pk_all_in t1 = pk_all_in t \<Longrightarrow>
     pk_active t1 = pk_active t \<Longrightarrow> pk_deadline t1 = pk_deadline t \<Longrightarrow> chips_moved t i a t2"
  by (simp add: chips_moved_def same_play_def)

lemma request_pending:
  assumes "request_of t r"
  obtains p where "cr_seat r < MAX_SEATS" "pk_seats t (cr_seat r) = Some (cr_user r)" "pk_pending t (cr_seat r) = Some p"
    "pn_id p = cr_id r" "pn_amount p = cr_amount r" "cr_hand r = pk_hand_id t"
  using assms by (auto simp: request_of_def)

lemma request_acting: "poker_ok t \<Longrightarrow> request_of t r \<Longrightarrow> pk_phase t \<noteq> PkPostingBlinds \<Longrightarrow> is_action_phase (pk_phase t)"
  using table_parts(7) [of t] by (fastforce simp: live_def request_of_def resting_ok_def pending_seats_def)

text \<open>The chips of a commit that was debited are in the pot, once.\<close>

lemma apply_success_applied:
  assumes t: "poker_ok t" and r: "request_of t r" and f: "apply_commit_success r g t = (t', ss)"
  shows "commit_applied t (cr_seat r) (cr_amount r) t' ss"
proof -
  obtain p where i: "cr_seat r < MAX_SEATS" "pk_seats t (cr_seat r) = Some (cr_user r)" "pk_pending t (cr_seat r) = Some p"
    "pn_id p = cr_id r" "pn_amount p = cr_amount r" by (rule request_pending [OF r])
  let ?i = "cr_seat r"
  let ?t0 = "t\<lparr>pk_pending := (pk_pending t)(?i := None)\<rparr>"
  obtain gl where gl: "fst (sync_global_balance_value (cr_user r) g ?t0) = ?t0\<lparr>pk_global := gl\<rparr>" using sync_global_fields by blast
  let ?tg = "t\<lparr>pk_global := gl\<rparr>"
  define t1 where "t1 = take_commit ?i p (?t0\<lparr>pk_global := gl\<rparr>)"
  have "?t0\<lparr>pk_global := gl\<rparr> = ?tg\<lparr>pk_pending := (pk_pending ?tg)(?i := None)\<rparr>" by simp
  then have t1: "t1 = take_commit ?i p (?tg\<lparr>pk_pending := (pk_pending ?tg)(?i := None)\<rparr>)" unfolding t1_def by (rule arg_cong)
  define t2 where "t2 = (raise_bet ?i p t1)\<lparr>pk_acted := (pk_acted (raise_bet ?i p t1))(?i := pn_kind p \<notin> {CommitSmallBlind, CommitBigBlind}),
    pk_last_action := (pk_last_action (raise_bet ?i p t1))(?i \<mapsto> action_for_commit (pn_kind p) (pk_current_bet t1))\<rparr>"
  have am: "0 < pn_amount p" "pn_amount p \<le> pk_balances t ?i" "pk_balances t ?i < 2 ^ 63"
    using table_parts(2,4) [OF t] i(1,3) by (simp_all add: pending_ok_def chips_ok_def)
  have m1: "chips_moved ?tg ?i (pn_amount p) t1" "pk_pending_blinds t1 = pk_pending_blinds t"
    using take_commit_moved [of p ?tg ?i] am by (simp_all add: t1)
  have "chips_moved ?tg ?i (pn_amount p) t2"
    by (rule moved_from_same [OF m1(1) same_play_trans [OF raise_bet_same(1)]]) (simp_all add: t2_def same_play_def raise_bet_same)
  then have m: "chips_moved t ?i (cr_amount r) t2" unfolding i(5) by (rule moved_to_same) (simp_all add: same_play_def)
  have blinds: "pk_pending_blinds t2 = pk_pending_blinds t" "pk_phase t2 = pk_phase t"
    using m m1(2) by (simp_all add: t2_def raise_bet_same chips_moved_def)
  have a: "0 \<le> cr_amount r" "cr_amount r \<le> pn_amount p" using am i by simp_all
  have "apply_commit_success r g t = (if pk_phase t2 = PkPostingBlinds then
      let t = t2\<lparr>pk_pending_blinds := pk_pending_blinds t2 - 1\<rparr> in if pk_pending_blinds t = 0 then finish_blind_posting t else (t, [])
    else advance_after_action ?i t2)"
    using i by (simp add: apply_commit_success_def Let_def gl t2_def t1_def cong del: if_weak_cong)
  note eval = this [unfolded f, symmetric]
  show ?thesis
  proof (cases "pk_phase t = PkPostingBlinds")
    case True
    let ?t = "t2\<lparr>pk_pending_blinds := pk_pending_blinds t2 - 1\<rparr>"
    have "chips_moved t ?i (cr_amount r) ?t" by (rule moved_from_same [OF m]) (simp_all add: same_play_def)
    then show ?thesis by (rule applied_posting [OF t i(1,3) a _ True]) (use eval True blinds in \<open>auto simp: Let_def split: if_splits\<close>)
  next
    case False
    then have "is_action_phase (pk_phase t)" by (rule request_acting [OF t r])
    then show ?thesis by (rule applied_acting [OF t i(1,3) a m]) (use eval False blinds in simp)
  qed
qed

lemma apply_failure_applied:
  assumes t: "poker_ok t" and r: "request_of t r" and f: "apply_commit_failure r t = (t', ss)"
  shows "commit_applied t (cr_seat r) 0 t' ss"
proof -
  obtain p where i: "cr_seat r < MAX_SEATS" "pk_seats t (cr_seat r) = Some (cr_user r)" "pk_pending t (cr_seat r) = Some p"
    "pn_id p = cr_id r" "pn_amount p = cr_amount r" by (rule request_pending [OF r])
  let ?i = "cr_seat r"
  let ?t0 = "t\<lparr>pk_pending := (pk_pending t)(?i := None)\<rparr>"
  have a: "0 \<le> (0::int)" "0 \<le> pn_amount p" using table_parts(4) [OF t] i by (auto simp: pending_ok_def)
  show ?thesis
  proof (cases "pk_phase t = PkPostingBlinds")
    case True
    let ?t = "?t0\<lparr>pk_folded := (pk_folded t)(?i := True), pk_last_action := (pk_last_action t)(?i \<mapsto> PkFold),
      pk_pending_blinds := pk_pending_blinds t - 1\<rparr>"
    have "chips_moved t ?i 0 ?t" by (simp add: chips_moved_def)
    moreover have "pk_pending_blinds ?t = pk_pending_blinds t - 1" by simp
    moreover have "(if pk_pending_blinds ?t = 0 then finish_blind_posting ?t else (?t, [])) = (t', ss)"
      using f i True by (auto simp: apply_commit_failure_def Let_def split: if_splits)
    ultimately show ?thesis by (rule applied_posting [OF t i(1,3) a _ True])
  next
    case False
    have res: "t' = ?t0" "ss = []" using f i False by (simp_all add: apply_commit_failure_def Let_def)
    have ph: "is_action_phase (pk_phase t)" by (rule request_acting [OF t r False])
    have m: "chips_moved t ?i 0 ?t0" by (simp add: chips_moved_def)
    note g = moved_ok [OF t i(1,3) a m]
    have pl: "in_play ?t0 = in_play t" "active_player_indices ?t0 = active_player_indices t" by (rule in_play_same; simp)+
    have "acting_ok ?t0"
    proof -
      obtain a where "a < MAX_SEATS" "pk_active t = Some a" "in_play t a" "\<not> pk_all_in t a" "pending_seats t \<subseteq> {a}"
        using table_parts(6) [OF t ph] unfolding acting_ok_def by blast
      moreover from this have "a = ?i" using i by (auto simp: pending_seats_def)
      ultimately show ?thesis using table_parts(6) [OF t ph] g(5) unfolding acting_ok_def pl by (intro conjI exI [of _ ?i]) auto
    qed
    then have "poker_ok ?t0" using g ph phases [OF ph] by (simp add: poker_ok_def live_def)
    then show ?thesis unfolding res by (rule applied_from_step [OF t i(1,3) a m table_step_refl])
  qed
qed


section \<open>Payouts that are done\<close>

definition paid_table :: "poker_table \<Rightarrow> poker_table \<Rightarrow> bool" where
  "paid_table t t' \<longleftrightarrow> poker_ok t' \<and> \<not> live t' \<and> \<not> pk_settling t' \<and> pk_hand_id t' = pk_hand_id t"

lemma credit_update_step:
  assumes t: "poker_ok t" and rest: "\<not> live t"
  shows "table_step t (credit_update x t) []"
proof -
  obtain g where g: "fst (sync_global_balance_value (su_user x) (su_global x) t) = t\<lparr>pk_global := g\<rparr>" using sync_global_fields by blast
  let ?t = "t\<lparr>pk_global := g\<rparr>"
  have s: "table_step t ?t []" using sync_global_step [OF t, of "su_user x" "su_global x"] by (simp add: g)
  then have ok: "poker_ok ?t" by (simp add: table_step_def)
  show ?thesis
  proof (cases "0 < su_credit x \<and> seat_index ?t (su_user x) \<noteq> None")
    case True
    then obtain i where i: "seat_index ?t (su_user x) = Some i" by blast
    let ?b = "sat_i64 (pk_balances ?t i + su_credit x)"
    have j: "i < MAX_SEATS" "pk_seats ?t i \<noteq> None" using seat_index_Some [OF i] by auto
    then have none: "pk_pending ?t i = None" using table_parts(7) [OF t rest] by (auto simp: resting_ok_def pending_seats_def)
    have "0 \<le> pk_balances t i" using table_parts(2) [OF t] j(1) by (simp add: chips_ok_def)
    then have b: "0 \<le> ?b" "?b < 2 ^ 63" using True by (simp_all add: sat_i64_def)
    have "credit_update x t = ?t\<lparr>pk_balances := (pk_balances ?t)(i := ?b)\<rparr>" using True i by (simp add: credit_update_def g)
    then show ?thesis using table_step_trans [OF s balance_step [OF ok j none b]] by simp
  next
    case False
    then have "credit_update x t = ?t" by (auto simp: credit_update_def g Let_def)
    then show ?thesis using s by simp
  qed
qed

lemma credit_updates_step: "poker_ok t \<Longrightarrow> \<not> live t \<Longrightarrow> table_step t (fold credit_update xs t) []"
proof (induction xs arbitrary: t)
  case (Cons x xs)
  have s: "table_step t (credit_update x t) []" by (rule credit_update_step [OF Cons.prems])
  then have "poker_ok (credit_update x t)" "\<not> live (credit_update x t)" using Cons.prems(2) by (auto simp: table_step_def)
  from table_step_trans [OF s Cons.IH [OF this]] show ?case by simp
qed (simp add: table_step_refl)

lemma not_settling_ok: "poker_ok t \<Longrightarrow> \<not> live t \<Longrightarrow> paid_table t (t\<lparr>pk_settling := False\<rparr>)"
proof -
  assume t: "poker_ok t" and rest: "\<not> live t"
  let ?t = "t\<lparr>pk_settling := False\<rparr>"
  have p: "in_play ?t = in_play t" "active_player_indices ?t = active_player_indices t" by (rule in_play_same; simp)+
  have e: "pending_seats ?t = pending_seats t" "live ?t = live t" by (simp_all add: pending_seats_def live_def)
  have "seats_ok ?t" "chips_ok ?t" "cards_ok ?t"
    using t seats_ok_same [of t ?t] chips_ok_same [of t ?t] cards_ok_same [of t ?t] e by (simp_all add: poker_ok_def)
  moreover have "pending_ok ?t" "resting_ok ?t" using t rest p e by (simp_all add: poker_ok_def pending_ok_def resting_ok_def)
  moreover have "\<not> is_action_phase (pk_phase t)" "pk_phase t \<noteq> PkPostingBlinds" using rest by (auto simp: live_def)
  ultimately show ?thesis using rest e by (simp add: poker_ok_def paid_table_def)
qed

lemma settlement_failed_paid: "poker_ok t \<Longrightarrow> \<not> live t \<Longrightarrow> paid_table t (settlement_failed t)"
  unfolding settlement_failed_def by (rule not_settling_ok)

lemma complete_settlements_paid:
  assumes t: "poker_ok t" and rest: "\<not> live t"
  shows "paid_table t (complete_settlements xs t)"
proof -
  let ?t1 = "fold credit_update xs t"
  have s1: "table_step t ?t1 []" by (rule credit_updates_step [OF t rest])
  then have "poker_ok ?t1" "\<not> live ?t1" using rest by (auto simp: table_step_def)
  then have s2: "table_step t (remove_leave_after_hand_seats ?t1) []" using table_step_trans [OF s1 remove_leaving_step] by simp
  then have "poker_ok (remove_leave_after_hand_seats ?t1)" "\<not> live (remove_leave_after_hand_seats ?t1)"
    "pk_hand_id (remove_leave_after_hand_seats ?t1) = pk_hand_id t" using rest by (auto simp: table_step_def)
  then show ?thesis using not_settling_ok unfolding complete_settlements_def paid_table_def by simp
qed

text \<open>The table of a new room.\<close>

lemma new_poker_ok: "poker_ok (new_table now hand settings)" "\<not> live (new_table now hand settings)"
  "\<not> pk_settling (new_table now hand settings)" "pending_seats (new_table now hand settings) = {}"
proof -
  let ?t = "new_table now hand settings"
  show l: "\<not> live ?t" "\<not> pk_settling ?t" "pending_seats ?t = {}" by (simp_all add: new_table_def live_def pending_seats_def)
  have "cards_out ?t = []" by (simp add: cards_out_def new_table_def)
  then have "cards_ok ?t" using l(1) by (simp add: cards_ok_def) (simp add: new_table_def)
  moreover have "seats_ok ?t" "chips_ok ?t" "pending_ok ?t" "resting_ok ?t" "pk_phase ?t = PkWaiting"
    by (simp_all add: ok_defs one_seat_each_def new_table_def pending_seats_def)
  ultimately show "poker_ok ?t" using l(1) by (simp add: poker_ok_def)
qed


section \<open>What the players see\<close>

lemma hidden_same:
  assumes "\<And>i. i < MAX_SEATS \<Longrightarrow> length (h i) = length (pk_hole t i)" and "i < MAX_SEATS"
  shows "in_play (t\<lparr>pk_hole := h, pk_deck := d\<rparr>) i = in_play t i"
    "to_call (t\<lparr>pk_hole := h, pk_deck := d\<rparr>) i = to_call t i"
    "can_raise (t\<lparr>pk_hole := h, pk_deck := d\<rparr>) i = can_raise t i"
    "pot (t\<lparr>pk_hole := h, pk_deck := d\<rparr>) = pot t"
  using assms by (simp_all add: in_play_def to_call_def can_raise_def pot_def)

lemma hidden_seat:
  assumes "\<And>i. i < MAX_SEATS \<Longrightarrow> length (h i) = length (pk_hole t i)" and "i < MAX_SEATS"
    and "revealed_cards_for t i \<noteq> None \<Longrightarrow> h i = pk_hole t i"
  shows "seat_snapshot (t\<lparr>pk_hole := h, pk_deck := d\<rparr>) i = seat_snapshot t i"
proof -
  have "revealed_cards_for (t\<lparr>pk_hole := h, pk_deck := d\<rparr>) i = revealed_cards_for t i"
    using assms by (auto simp: revealed_cards_for_def split: if_splits)
  then show ?thesis using assms(1) [OF assms(2)] by (simp add: seat_snapshot_def)
qed

text \<open>C14. Nobody learns a card that was not shown. The public snapshot does not depend on the stock or on the
  cards of a seat that does not reveal them, and a player's private snapshot does not depend on the stock or
  on any other player's cards: tables that differ in nothing else give the same snapshots. Cards are
  revealed only at a showdown, by players who did not fold, and a hand won by folds reveals none.\<close>

theorem poker_cards_hidden:
  assumes "\<forall>i < MAX_SEATS. length (h i) = length (pk_hole t i)"
    and "\<forall>i < MAX_SEATS. revealed_cards_for t i \<noteq> None \<longrightarrow> h i = pk_hole t i"
  shows "public_snapshot_of (t\<lparr>pk_hole := h, pk_deck := d\<rparr>) = public_snapshot_of t \<and>
    (\<forall>u. (\<forall>i. seat_index t u = Some i \<longrightarrow> h i = pk_hole t i) \<longrightarrow>
       private_snapshot_for (t\<lparr>pk_hole := h, pk_deck := d\<rparr>) u = private_snapshot_for t u) \<and>
    (\<forall>i. revealed_cards_for t i \<noteq> None \<longrightarrow> pk_phase t = PkShowdown \<and> \<not> pk_folded t i) \<and>
    (\<forall>w i. revealed_cards_for (fst (finish_by_fold w t)) i = None)"
proof (intro conjI allI impI)
  let ?t = "t\<lparr>pk_hole := h, pk_deck := d\<rparr>"
  have len: "\<And>i. i < MAX_SEATS \<Longrightarrow> length (h i) = length (pk_hole t i)" using assms(1) by blast
  have "map (seat_snapshot ?t) [0..<MAX_SEATS] = map (seat_snapshot t) [0..<MAX_SEATS]"
    using hidden_seat [OF len] assms(2) by (intro map_cong) auto
  then show "public_snapshot_of ?t = public_snapshot_of t"
    using hidden_same(4) [OF len, of 0] by (simp add: public_snapshot_of_def MAX_SEATS_def)
  show "private_snapshot_for ?t u = private_snapshot_for t u" if own: "\<forall>i. seat_index t u = Some i \<longrightarrow> h i = pk_hole t i" for u
  proof -
    have s: "seat_index ?t u = seat_index t u" by (simp add: seat_index_def)
    show ?thesis
    proof (cases "seat_index t u")
      case (Some i)
      then show ?thesis using hidden_same(2,3) [OF len, of i] seat_index_Some [OF Some] own by (simp add: private_snapshot_for_def s Let_def)
    qed (simp add: private_snapshot_for_def s Let_def)
  qed
  show "pk_phase t = PkShowdown" "\<not> pk_folded t i" if "revealed_cards_for t i \<noteq> None" for i
    using that by (auto simp: revealed_cards_for_def split: if_splits)
  show "revealed_cards_for (fst (finish_by_fold w t)) i = None" for w i
    by (simp add: finish_by_fold_def Let_def clear_action_countdown_def revealed_cards_for_def)
qed

definition swapped_cards :: "nat \<Rightarrow> playing_card list" where
  "swapped_cards = (pk_hole sample_showdown)(0 := pk_hole sample_showdown 1, 1 := pk_hole sample_showdown 0)"

theorem poker_cards_hidden_witness:
  "public_snapshot_of (sample_showdown\<lparr>pk_hole := swapped_cards, pk_deck := []\<rparr>) = public_snapshot_of sample_showdown \<and>
   private_snapshot_for (sample_showdown\<lparr>pk_hole := swapped_cards, pk_deck := []\<rparr>) 4 = private_snapshot_for sample_showdown 4 \<and>
   hd (swapped_cards 0) \<noteq> hd (pk_hole sample_showdown 0)"
proof -
  have "list_all (\<lambda>i. length (swapped_cards i) = length (pk_hole sample_showdown i)) [0..<MAX_SEATS]"
    "list_all (\<lambda>i. revealed_cards_for sample_showdown i = None) [0..<MAX_SEATS]" by code_simp+
  then have h: "\<forall>i < MAX_SEATS. length (swapped_cards i) = length (pk_hole sample_showdown i)"
    "\<forall>i < MAX_SEATS. revealed_cards_for sample_showdown i \<noteq> None \<longrightarrow> swapped_cards i = pk_hole sample_showdown i"
    by (auto simp: list_all_iff)
  have "list_all (\<lambda>i. seat_index sample_showdown 4 = Some i \<longrightarrow> swapped_cards i = pk_hole sample_showdown i) [0..<MAX_SEATS]" by code_simp
  then have own: "\<forall>i. seat_index sample_showdown 4 = Some i \<longrightarrow> swapped_cards i = pk_hole sample_showdown i"
    using seat_index_Some by (fastforce simp: list_all_iff)
  have "hd (swapped_cards 0) \<noteq> hd (pk_hole sample_showdown 0)" by code_simp
  then show ?thesis using poker_cards_hidden [OF h] own by blast
qed

end
