(* ===== verification/PokerRuns.thy ===== *)
theory PokerRuns
  imports PokerRules GamePayout
begin

text \<open>
  The tasks of \<open>PokerService\<close> (\<open>late-ssh/src/app/lobby/house/poker/svc.rs\<close>) around the table's lock and
  the chip service: what each task does while it holds the lock, the debit of a bet and the payouts of a
  hand between two locks, and the runs in which these steps interleave. The instant a task reads is its
  argument. A timer that a task starts is not kept: it may fire at any instant, with any number.
\<close>


section \<open>Tasks\<close>

text \<open>What a task leaves behind: the table, the commits to debit, and the settlements of each
  payout task it spawns.\<close>

type_synonym served = "poker_table \<times> commit_request list \<times> poker_settlement list list"

definition batch :: "poker_settlement list \<Rightarrow> poker_settlement list list" where
  "batch ss = (if ss = [] then [] else [ss])"

text \<open>The end of most tasks: automatic actions and the countdown, before the lock is released.\<close>

definition with_auto :: "int \<Rightarrow> settled_table \<Rightarrow> served" where
  "with_auto now = (\<lambda>(t, settlements).
     (case apply_auto_check_folds_and_start_countdown now t of
        (t, auto_settlements, _) \<Rightarrow> (t, [], batch (settlements @ auto_settlements))))"

definition sit_task :: "int \<Rightarrow> uuid \<Rightarrow> int \<Rightarrow> poker_table \<Rightarrow> served" where
  "sit_task now u balance t =
     (case sit u balance t of (t, seat_joined) \<Rightarrow> (fst (record_activity now u t), [], []))"

definition leave_seat_task :: "int \<Rightarrow> uuid \<Rightarrow> poker_table \<Rightarrow> served" where
  "leave_seat_task now u t = with_auto now (leave u t)"

definition start_hand_task :: "int \<Rightarrow> (nat \<Rightarrow> 64 word) \<Rightarrow> uuid \<Rightarrow> uuid \<Rightarrow> poker_table \<Rightarrow> served" where
  "start_hand_task now draws hand u t =
     (case start_hand draws hand u t of (t, requests) \<Rightarrow> (fst (record_activity now u t), requests, []))"

text \<open>The settlements of the action and those of the automatic actions are paid by tasks of their own.\<close>

definition outcome_task :: "int \<Rightarrow> uuid \<Rightarrow> poker_table \<times> action_outcome \<Rightarrow> served" where
  "outcome_task now u = (\<lambda>(t, outcome).
     (case apply_auto_check_folds_and_start_countdown now (fst (record_activity now u t)) of
        (t, auto_settlements, _) \<Rightarrow>
          (t, (case outcome of OutcomeCommit r \<Rightarrow> [r] | _ \<Rightarrow> []),
           (case outcome of OutcomeSettlements ss \<Rightarrow> batch ss | _ \<Rightarrow> []) @ batch auto_settlements)))"

definition call_or_check_task :: "int \<Rightarrow> uuid \<Rightarrow> poker_table \<Rightarrow> served" where
  "call_or_check_task now u t = outcome_task now u (call_or_check u t)"

definition bet_or_raise_task :: "int \<Rightarrow> uuid \<Rightarrow> int \<Rightarrow> poker_table \<Rightarrow> served" where
  "bet_or_raise_task now u raise_by t = outcome_task now u (bet_or_raise u raise_by t)"

definition all_in_task :: "int \<Rightarrow> uuid \<Rightarrow> poker_table \<Rightarrow> served" where
  "all_in_task now u t = outcome_task now u (all_in u t)"

definition fold_task :: "int \<Rightarrow> uuid \<Rightarrow> poker_table \<Rightarrow> served" where
  "fold_task now u t =
     (case fold_hand u t of (t, settlements) \<Rightarrow> with_auto now (fst (record_activity now u t), settlements))"

definition toggle_auto_check_fold_task :: "int \<Rightarrow> uuid \<Rightarrow> poker_table \<Rightarrow> served" where
  "toggle_auto_check_fold_task now u t =
     with_auto now (fst (record_activity now u (toggle_auto_check_fold u t)), [])"

definition sync_balance_task :: "uuid \<Rightarrow> int \<Rightarrow> poker_table \<Rightarrow> served" where
  "sync_balance_task u balance t = (fst (sync_balance u balance t), [], [])"

definition touch_activity_task :: "int \<Rightarrow> uuid \<Rightarrow> poker_table \<Rightarrow> served" where
  "touch_activity_task now u t = (fst (record_activity now u t), [], [])"

definition inactivity_kick :: "int \<Rightarrow> uuid \<Rightarrow> 64 word \<Rightarrow> poker_table \<Rightarrow> served" where
  "inactivity_kick now u generation t =
     (case kick_inactive_user now u generation t of
        (t, changed, settlements) \<Rightarrow> if changed then with_auto now (t, settlements) else (t, [], []))"

text \<open>The clock's task looks again while time is left.\<close>

definition action_timeout :: "int \<Rightarrow> 64 word \<Rightarrow> poker_table \<Rightarrow> served" where
  "action_timeout now countdown_id t =
     (if \<not> action_countdown_matches t countdown_id then (t, [], [])
      else if (case action_countdown_remaining now t of None \<Rightarrow> False | Some remaining \<Rightarrow> remaining \<noteq> 0) then (t, [], [])
      else case timeout_active_action countdown_id t of
        (t, settlements) \<Rightarrow> with_auto now (t, (case settlements of None \<Rightarrow> [] | Some ss \<Rightarrow> ss)))"


section \<open>Debits and payouts\<close>

definition apply_move ::
  "chip_db \<Rightarrow> uuid \<Rightarrow> chip_move \<Rightarrow> int \<Rightarrow> string \<Rightarrow> (chip_error, chip_db \<times> int option) res" where
  "apply_move db u mv amount ref =
     rbind (apply_chips db u mv amount ref) (\<lambda>(db, chips). Ok (db, map_option uc_balance chips))"

text \<open>The debit of a bet. An error and an account that is short have the same effect on the table.\<close>

definition commit_debit :: "(uuid \<Rightarrow> string) \<Rightarrow> chip_db \<Rightarrow> commit_request \<Rightarrow> chip_db \<times> int option" where
  "commit_debit us db r =
     (case apply_move db (cr_user r) PokerBet (cr_amount r) (us (cr_hand r)) of
        Ok (db', new_balance) \<Rightarrow> (db', new_balance)
      | _ \<Rightarrow> (db, None))"

definition commit_landed :: "int \<Rightarrow> commit_request \<Rightarrow> int option \<Rightarrow> poker_table \<Rightarrow> served" where
  "commit_landed now r result t =
     with_auto now (case result of
         Some new_balance \<Rightarrow> apply_commit_success r new_balance t
       | None \<Rightarrow> apply_commit_failure r t)"

text \<open>One settlement: the winnings, or the floor for a seat that won nothing.\<close>

definition persist_settlement ::
  "(uuid \<Rightarrow> string) \<Rightarrow> chip_db \<Rightarrow> poker_settlement \<Rightarrow> chip_db \<times> settlement_update option" where
  "persist_settlement us db s =
     (let update = (\<lambda>balance. Some \<lparr>su_user = se_user s, su_credit = se_credit s, su_global = balance\<rparr>)
      in if se_credit s = 0 then
           (case restore_floor db (se_user s) (us (se_hand s)) of
              Ok (db', chips) \<Rightarrow> (db', update (uc_balance chips))
            | _ \<Rightarrow> (db, None))
         else
           (case credit_payout db (se_user s) PokerPayout (se_credit s) (us (se_hand s)) of
              Ok (db', balance) \<Rightarrow> (db', update balance)
            | _ \<Rightarrow> (db, None)))"

text \<open>A payout task: the settlements left, the updates of those paid, and whether one failed.\<close>

record payout_task =
  pt_left :: "poker_settlement list"
  pt_updates :: "settlement_update list"
  pt_failed :: bool

definition payout_start :: "poker_settlement list \<Rightarrow> payout_task" where
  "payout_start ss = \<lparr>pt_left = ss, pt_updates = [], pt_failed = False\<rparr>"

definition payout_next :: "settlement_update option \<Rightarrow> payout_task \<Rightarrow> payout_task" where
  "payout_next update p =
     (case update of
        None \<Rightarrow> p\<lparr>pt_left := tl (pt_left p), pt_failed := True\<rparr>
      | Some u \<Rightarrow> p\<lparr>pt_left := tl (pt_left p), pt_updates := pt_updates p @ [u]\<rparr>)"

definition payout_finish :: "payout_task \<Rightarrow> poker_table \<Rightarrow> poker_table" where
  "payout_finish p t = (if pt_failed p then settlement_failed t else complete_settlements (pt_updates p) t)"


section \<open>Runs\<close>

datatype table_call =
  CallSit uuid int
| CallLeave uuid
| CallStart "nat \<Rightarrow> 64 word" uuid uuid
| CallCheck uuid
| CallRaise uuid int
| CallAllIn uuid
| CallFold uuid
| CallToggle uuid
| CallSync uuid int
| CallTouch uuid
| CallKick uuid "64 word"
| CallTimeout "64 word"

primrec serve :: "int \<Rightarrow> table_call \<Rightarrow> poker_table \<Rightarrow> served" where
  "serve now (CallSit u b) t = sit_task now u b t"
| "serve now (CallLeave u) t = leave_seat_task now u t"
| "serve now (CallStart draws hand u) t = start_hand_task now draws hand u t"
| "serve now (CallCheck u) t = call_or_check_task now u t"
| "serve now (CallRaise u n) t = bet_or_raise_task now u n t"
| "serve now (CallAllIn u) t = all_in_task now u t"
| "serve now (CallFold u) t = fold_task now u t"
| "serve now (CallToggle u) t = toggle_auto_check_fold_task now u t"
| "serve now (CallSync u b) t = sync_balance_task u b t"
| "serve now (CallTouch u) t = touch_activity_task now u t"
| "serve now (CallKick u g) t = inactivity_kick now u g t"
| "serve now (CallTimeout c) t = action_timeout now c t"

record poker_world =
  pw_table :: poker_table
  pw_db :: chip_db
  pw_asked :: "commit_request list"
  pw_known :: "(commit_request \<times> int option) list"
  pw_paying :: "payout_task list"
  pw_hands :: "uuid list"

definition pass :: "served \<Rightarrow> poker_world \<Rightarrow> poker_world" where
  "pass = (\<lambda>(t, requests, batches) w.
     w\<lparr>pw_table := t, pw_asked := pw_asked w @ requests, pw_paying := pw_paying w @ map payout_start batches\<rparr>)"

text \<open>What the ledger holds for one hand: the bets debited and the winnings paid.\<close>

definition rows_of :: "chip_move \<Rightarrow> string \<Rightarrow> chip_db \<Rightarrow> int" where
  "rows_of mv ref = sum_delta (\<lambda>r. lr_reason r = reason mv \<and> lr_source_ref r = ref)"

definition hand_bets :: "(uuid \<Rightarrow> string) \<Rightarrow> chip_db \<Rightarrow> uuid \<Rightarrow> int" where
  "hand_bets us db h = - rows_of PokerBet (us h) db"

definition hand_winnings :: "(uuid \<Rightarrow> string) \<Rightarrow> chip_db \<Rightarrow> uuid \<Rightarrow> int" where
  "hand_winnings us db h = rows_of PokerPayout (us h) db"

text \<open>The orderly calls: no seat leaves while a commit is under way, a balance is read again only between
  two hands (as the client does), and the id of a new hand is fresh.\<close>

definition orderly :: "(uuid \<Rightarrow> string) \<Rightarrow> poker_world \<Rightarrow> table_call \<Rightarrow> bool" where
  "orderly us w c \<longleftrightarrow>
     (case c of
        CallLeave _ \<Rightarrow> pending_seats (pw_table w) = {}
      | CallKick _ _ \<Rightarrow> pending_seats (pw_table w) = {}
      | CallSync _ _ \<Rightarrow> \<not> live (pw_table w)
      | CallStart _ hand _ \<Rightarrow>
          us hand \<notin> us ` set (pw_hands w) \<and> hand_bets us (pw_db w) hand = 0 \<and> hand_winnings us (pw_db w) hand = 0
      | _ \<Rightarrow> True)"

definition hands_after :: "table_call \<Rightarrow> uuid list \<Rightarrow> uuid list" where
  "hands_after c hands = (case c of CallStart _ hand _ \<Rightarrow> hand # hands | _ \<Rightarrow> hands)"

text \<open>One step: a task that holds the lock, among the calls \<open>ok\<close>, a debit, a payout, or the rest of the
  program, which does not touch the rows of this table's hands. A debit or a payout whose answer is lost may
  have been made.\<close>

inductive poker_step :: "(poker_world \<Rightarrow> table_call \<Rightarrow> bool) \<Rightarrow> (uuid \<Rightarrow> string) \<Rightarrow> poker_world \<Rightarrow> poker_world \<Rightarrow> bool"
  for ok us where
  step_call: "ok w c \<Longrightarrow>
     poker_step ok us w (pass (serve now c (pw_table w)) (w\<lparr>pw_hands := hands_after c (pw_hands w)\<rparr>))"
| step_debit: "r \<in> set (pw_asked w) \<Longrightarrow> commit_debit us (pw_db w) r = (db, result) \<Longrightarrow>
     poker_step ok us w (w\<lparr>pw_db := db, pw_asked := remove1 r (pw_asked w), pw_known := pw_known w @ [(r, result)]\<rparr>)"
| step_debit_lost: "r \<in> set (pw_asked w) \<Longrightarrow> commit_debit us (pw_db w) r = (db, result) \<Longrightarrow> db' = db \<or> db' = pw_db w \<Longrightarrow>
     poker_step ok us w (w\<lparr>pw_db := db', pw_asked := remove1 r (pw_asked w), pw_known := pw_known w @ [(r, None)]\<rparr>)"
| step_land: "(r, result) \<in> set (pw_known w) \<Longrightarrow>
     poker_step ok us w (pass (commit_landed now r result (pw_table w)) (w\<lparr>pw_known := remove1 (r, result) (pw_known w)\<rparr>))"
| step_pay: "pw_paying w = ps @ p # qs \<Longrightarrow> pt_left p = s # ss \<Longrightarrow> persist_settlement us (pw_db w) s = (db, update) \<Longrightarrow>
     poker_step ok us w (w\<lparr>pw_db := db, pw_paying := ps @ payout_next update p # qs\<rparr>)"
| step_pay_lost: "pw_paying w = ps @ p # qs \<Longrightarrow> pt_left p = s # ss \<Longrightarrow> persist_settlement us (pw_db w) s = (db, update) \<Longrightarrow>
     db' = db \<or> db' = pw_db w \<Longrightarrow> poker_step ok us w (w\<lparr>pw_db := db', pw_paying := ps @ payout_next None p # qs\<rparr>)"
| step_paid: "pw_paying w = ps @ p # qs \<Longrightarrow> pt_left p = [] \<Longrightarrow>
     poker_step ok us w (w\<lparr>pw_table := payout_finish p (pw_table w), pw_paying := ps @ qs\<rparr>)"
| step_elsewhere: "(\<And>h. h \<in> set (pw_hands w) \<Longrightarrow>
       hand_bets us db h = hand_bets us (pw_db w) h \<and> hand_winnings us db h = hand_winnings us (pw_db w) h) \<Longrightarrow>
     poker_step ok us w (w\<lparr>pw_db := db\<rparr>)"

abbreviation orderly_run :: "(uuid \<Rightarrow> string) \<Rightarrow> poker_world \<Rightarrow> poker_world \<Rightarrow> bool" where
  "orderly_run us \<equiv> (poker_step (orderly us) us)\<^sup>*\<^sup>*"

definition opening_world :: "int \<Rightarrow> uuid \<Rightarrow> poker_settings \<Rightarrow> chip_db \<Rightarrow> poker_world" where
  "opening_world now hand settings db =
     \<lparr>pw_table = new_table now hand settings, pw_db = db, pw_asked = [], pw_known = [], pw_paying = [], pw_hands = []\<rparr>"


section \<open>The ledger rows of a hand\<close>

lemma poker_reasons: "reason PokerBet \<noteq> reason PokerPayout" "reason FloorRestore \<noteq> reason PokerBet"
  "reason FloorRestore \<noteq> reason PokerPayout"
  by simp_all

lemma rows_of_posted:
  "posted db db' u d mv ref row \<Longrightarrow>
     rows_of mv' ref' db' = rows_of mv' ref' db + (if reason mv = reason mv' \<and> ref = ref' then d else 0)"
  by (auto simp: posted_def log_move_def rows_of_def sum_delta_def)

lemma commit_debit_rows:
  assumes "commit_debit us db r = (db', result)"
  shows "hand_winnings us db' h = hand_winnings us db h"
    "hand_bets us db' h = hand_bets us db h + (if result = None \<or> us (cr_hand r) \<noteq> us h then 0 else cr_amount r)"
    "hand_bets us db h \<le> hand_bets us db' h"
proof -
  have "db' = db \<and> result = None \<or> (\<exists>row. posted db db' (cr_user r) (- cr_amount r) PokerBet (us (cr_hand r)) row \<and>
      result = Some (uc_balance row) \<and> 0 < cr_amount r)"
  proof (cases "apply_chips db (cr_user r) PokerBet (cr_amount r) (us (cr_hand r))")
    case (Ok x)
    obtain db1 chips where x: "x = (db1, chips)" by fastforce
    then have r: "db' = db1" "result = map_option uc_balance chips" using assms Ok by (simp_all add: commit_debit_def apply_move_def)
    show ?thesis
    proof (cases chips)
      case None
      then show ?thesis using apply_None Ok x r by auto
    next
      case (Some row)
      then show ?thesis using apply_Some [of db "cr_user r" PokerBet "cr_amount r" "us (cr_hand r)" db1 row] Ok x r by auto
    qed
  qed (use assms in \<open>auto simp: commit_debit_def apply_move_def\<close>)
  then show "hand_winnings us db' h = hand_winnings us db h"
    "hand_bets us db' h = hand_bets us db h + (if result = None \<or> us (cr_hand r) \<noteq> us h then 0 else cr_amount r)"
    "hand_bets us db h \<le> hand_bets us db' h"
    using poker_reasons by (auto simp: hand_winnings_def hand_bets_def rows_of_posted simp del: reason.simps)
qed

lemma restore_floor_rows:
  assumes "restore_floor db u ref = Ok (db', chips)"
  shows "rows_of PokerBet ref' db' = rows_of PokerBet ref' db" "rows_of PokerPayout ref' db' = rows_of PokerPayout ref' db"
proof -
  have "db_ledger db' = db_ledger db \<or> (\<exists>x. db_ledger db' = db_ledger db @ [x] \<and> lr_reason x = reason FloorRestore)"
    using assms by (auto simp: restore_floor_def insert_chips_def update_chips_def log_move_def res_simps returning_Ok Let_def
      split: option.splits if_splits)
  then obtain rows where "db_ledger db' = db_ledger db @ rows" "\<forall>r \<in> set rows. lr_reason r = reason FloorRestore"
    by (metis append_Nil2 empty_iff list.set(1) set_ConsD)
  moreover from this(2) have "filter (\<lambda>r. lr_reason r = reason PokerBet \<and> lr_source_ref r = ref') rows = []"
    "filter (\<lambda>r. lr_reason r = reason PokerPayout \<and> lr_source_ref r = ref') rows = []"
    using poker_reasons by (auto simp: filter_empty_conv simp del: reason.simps)
  ultimately show "rows_of PokerBet ref' db' = rows_of PokerBet ref' db" "rows_of PokerPayout ref' db' = rows_of PokerPayout ref' db"
    by (simp_all add: rows_of_def sum_delta_def)
qed

lemma persist_settlement_rows:
  assumes "persist_settlement us db s = (db', update)" and "0 \<le> se_credit s"
  shows "hand_bets us db' h = hand_bets us db h"
    "hand_winnings us db' h = hand_winnings us db h + (if update = None \<or> us (se_hand s) \<noteq> us h then 0 else se_credit s)"
    "hand_winnings us db' h \<le> hand_winnings us db h + (if us (se_hand s) \<noteq> us h then 0 else se_credit s)"
proof -
  have "hand_bets us db' h = hand_bets us db h \<and>
    hand_winnings us db' h = hand_winnings us db h + (if update = None \<or> us (se_hand s) \<noteq> us h then 0 else se_credit s)"
  proof (cases "se_credit s = 0")
    case True
    then show ?thesis
    proof (cases "restore_floor db (se_user s) (us (se_hand s))")
      case (Ok x)
      obtain db1 chips where x: "x = (db1, chips)" by fastforce
      then show ?thesis using True Ok assms(1) restore_floor_rows by (auto simp: persist_settlement_def hand_bets_def hand_winnings_def)
    qed (use True assms(1) in \<open>auto simp: persist_settlement_def\<close>)
  next
    case False
    show ?thesis
    proof (cases "apply_chips db (se_user s) PokerPayout (se_credit s) (us (se_hand s))")
      case (Ok x)
      obtain db1 chips where x: "x = (db1, chips)" by fastforce
      show ?thesis
      proof (cases chips)
        case None
        then show ?thesis using False Ok x assms(1) by (auto simp: persist_settlement_def credit_payout_def)
      next
        case (Some row)
        then have "posted db db1 (se_user s) (se_credit s) PokerPayout (us (se_hand s)) row"
          using apply_Some [of db "se_user s" PokerPayout "se_credit s" "us (se_hand s)" db1 row] Ok x by auto
        then show ?thesis using False Ok x Some assms(1) poker_reasons
          by (auto simp: persist_settlement_def credit_payout_def hand_winnings_def hand_bets_def rows_of_posted simp del: reason.simps)
      qed
    qed (use False assms(1) in \<open>auto simp: persist_settlement_def credit_payout_def\<close>)
  qed
  then show "hand_bets us db' h = hand_bets us db h"
    "hand_winnings us db' h = hand_winnings us db h + (if update = None \<or> us (se_hand s) \<noteq> us h then 0 else se_credit s)"
    "hand_winnings us db' h \<le> hand_winnings us db h + (if us (se_hand s) \<noteq> us h then 0 else se_credit s)"
    using assms(2) by auto
qed


section \<open>The invariant of a run\<close>

text \<open>While a seat has to act, its commit is under way or its clock runs.\<close>

definition clock_ok :: "poker_table \<Rightarrow> bool" where
  "clock_ok t \<longleftrightarrow>
     (\<forall>a. is_action_phase (pk_phase t) \<longrightarrow> pk_active t = Some a \<longrightarrow> pk_pending t a = None \<longrightarrow>
        pk_deadline t \<noteq> None \<and> pk_countdown_seat t = Some a)"

definition in_flight :: "poker_world \<Rightarrow> commit_request list" where
  "in_flight w = pw_asked w @ map fst (pw_known w)"

definition flight_ok :: "poker_world \<Rightarrow> bool" where
  "flight_ok w \<longleftrightarrow>
     (\<forall>r \<in> set (in_flight w). request_of (pw_table w) r) \<and> distinct (map cr_seat (in_flight w)) \<and>
     set (map cr_seat (in_flight w)) = pending_seats (pw_table w)"

text \<open>Chips that were debited and did not reach the pot yet, and chips that are still to be paid.\<close>

definition landed :: "commit_request \<times> int option \<Rightarrow> int" where
  "landed = (\<lambda>(r, result). if result = None then 0 else cr_amount r)"

definition owed :: "payout_task \<Rightarrow> int" where
  "owed p = sum_list (map se_credit (pt_left p))"

definition staked :: "poker_world \<Rightarrow> int" where
  "staked w =
     (if live (pw_table w) then pot (pw_table w) + sum_list (map landed (pw_known w))
      else sum_list (map owed (pw_paying w)))"

definition paying_ok :: "poker_world \<Rightarrow> bool" where
  "paying_ok w \<longleftrightarrow>
     length (pw_paying w) = (if pk_settling (pw_table w) then 1 else 0) \<and>
     (\<forall>p \<in> set (pw_paying w). \<forall>s \<in> set (pt_left p). 0 \<le> se_credit s \<and> se_hand s = pk_hand_id (pw_table w))"

definition books_ok :: "(uuid \<Rightarrow> string) \<Rightarrow> poker_world \<Rightarrow> bool" where
  "books_ok us w \<longleftrightarrow>
     inj_on us (set (pw_hands w)) \<and>
     (live (pw_table w) \<or> pk_settling (pw_table w) \<longrightarrow> pk_hand_id (pw_table w) \<in> set (pw_hands w)) \<and>
     (\<forall>h \<in> set (pw_hands w). hand_winnings us (pw_db w) h +
        (if h = pk_hand_id (pw_table w) then staked w else 0) \<le> hand_bets us (pw_db w) h)"

definition core_ok :: "(uuid \<Rightarrow> string) \<Rightarrow> poker_world \<Rightarrow> bool" where
  "core_ok us w \<longleftrightarrow> poker_ok (pw_table w) \<and> flight_ok w \<and> paying_ok w \<and> books_ok us w"

definition world_ok :: "(uuid \<Rightarrow> string) \<Rightarrow> poker_world \<Rightarrow> bool" where
  "world_ok us w \<longleftrightarrow> core_ok us w \<and> clock_ok (pw_table w)"

lemma core_parts:
  assumes "core_ok us w"
  shows "poker_ok (pw_table w)" "flight_ok w" "paying_ok w" "books_ok us w"
  using assms by (simp_all add: core_ok_def)

text \<open>The commits of the table and the requests under way are the same.\<close>

lemma no_flight: "flight_ok w \<Longrightarrow> pending_seats (pw_table w) = {} \<longleftrightarrow> in_flight w = []"
  by (auto simp: flight_ok_def)

lemma rest_flight: "core_ok us w \<Longrightarrow> \<not> live (pw_table w) \<Longrightarrow> in_flight w = []"
  using no_flight [of w] table_parts(7) [of "pw_table w"] by (simp add: core_ok_def resting_ok_def)

lemma landed_nonneg:
  assumes "core_ok us w"
  shows "0 \<le> sum_list (map landed (pw_known w))"
proof (rule sum_list_nonneg)
  fix x assume "x \<in> set (map landed (pw_known w))"
  then obtain r result where r: "(r, result) \<in> set (pw_known w)" "x = landed (r, result)" by auto
  then have "r \<in> set (in_flight w)" by (force simp: in_flight_def)
  then have "request_of (pw_table w) r" using assms by (simp add: core_ok_def flight_ok_def)
  then obtain p where "cr_seat r < MAX_SEATS" "pk_pending (pw_table w) (cr_seat r) = Some p" "pn_amount p = cr_amount r"
    by (rule request_pending)
  then have "0 < cr_amount r" using table_parts(4) [OF core_parts(1) [OF assms]] unfolding pending_ok_def by metis
  then show "0 \<le> x" using r by (simp add: landed_def)
qed

lemma staked_nonneg:
  assumes "core_ok us w"
  shows "0 \<le> staked w"
proof (cases "live (pw_table w)")
  case True
  then show ?thesis using landed_nonneg [OF assms] pot_nonneg [OF table_parts(2) [OF core_parts(1) [OF assms]]] by (simp add: staked_def)
next
  case False
  have "0 \<le> owed p" if "p \<in> set (pw_paying w)" for p unfolding owed_def
    by (rule sum_list_nonneg) (use core_parts(3) [OF assms] that in \<open>auto simp: paying_ok_def\<close>)
  then show ?thesis using False by (auto simp: staked_def intro!: sum_list_nonneg)
qed

text \<open>A step that does not raise what is at stake keeps the books.\<close>

lemma books_le:
  "books_ok us w \<Longrightarrow> h \<in> set (pw_hands w) \<Longrightarrow>
     hand_winnings us (pw_db w) h + (if h = pk_hand_id (pw_table w) then staked w else 0) \<le> hand_bets us (pw_db w) h"
  by (simp add: books_ok_def)

lemma books_keep:
  assumes b: "books_ok us w" and "pw_hands w' = pw_hands w" and "pw_db w' = pw_db w"
    and "pk_hand_id (pw_table w') = pk_hand_id (pw_table w)" and "staked w' \<le> staked w"
    and "live (pw_table w') \<or> pk_settling (pw_table w') \<Longrightarrow> live (pw_table w) \<or> pk_settling (pw_table w)"
  shows "books_ok us w'"
proof -
  have "hand_winnings us (pw_db w) h + (if h = pk_hand_id (pw_table w) then staked w' else 0) \<le> hand_bets us (pw_db w) h"
    if "h \<in> set (pw_hands w)" for h using books_le [OF b that] assms(5) by (simp split: if_splits)
  then show ?thesis using assms by (auto simp: books_ok_def)
qed


section \<open>Tasks that hold the lock\<close>

lemma pass_fields [simp]:
  "pw_table (pass (t, rs, bs) w) = t" "pw_db (pass (t, rs, bs) w) = pw_db w" "pw_hands (pass (t, rs, bs) w) = pw_hands w"
  "pw_asked (pass (t, rs, bs) w) = pw_asked w @ rs" "pw_known (pass (t, rs, bs) w) = pw_known w"
  "pw_paying (pass (t, rs, bs) w) = pw_paying w @ map payout_start bs"
  by (simp_all add: pass_def)

lemma flight_step:
  assumes "flight_ok w" and "table_step (pw_table w) t' ss" and "pw_table w' = t'" and "in_flight w' = in_flight w"
  shows "flight_ok w'"
proof -
  have p: "\<forall>i < MAX_SEATS. pk_pending t' i = pk_pending (pw_table w) i \<and> (pk_pending (pw_table w) i \<noteq> None \<longrightarrow> pk_seats t' i = pk_seats (pw_table w) i)"
    "pk_hand_id t' = pk_hand_id (pw_table w)" using assms(2) by (simp_all add: table_step_def)
  then have "pending_seats t' = pending_seats (pw_table w)" by (auto simp: pending_seats_def)
  moreover have "request_of t' r" if "request_of (pw_table w) r" for r using that p by (auto simp: request_of_def)
  ultimately show ?thesis using assms by (simp add: flight_ok_def)
qed

lemma served_core:
  assumes w: "core_ok us w" and s: "table_step (pw_table w) t' ss"
  shows "core_ok us (pass (t', [], batch ss) w)"
proof -
  let ?w = "pass (t', [], batch ss) w"
  let ?t = "pw_table w"
  note p = core_parts [OF w]
  have t': "poker_ok t'" "pk_hand_id t' = pk_hand_id ?t" "live t' \<Longrightarrow> live ?t \<and> pot t' = pot ?t"
    "pk_settling t' \<longleftrightarrow> pk_settling ?t \<or> ss \<noteq> []" "ss \<noteq> [] \<Longrightarrow> live ?t \<and> \<not> live t' \<and> paid_within (pk_hand_id ?t) (pot ?t) ss"
    using s by (simp_all add: table_step_def)
  have f: "flight_ok ?w" by (rule flight_step [OF p(2) s]) (simp_all add: in_flight_def)
  have quiet: "pw_paying w = []" if "live ?t" using live_settling [OF p(1) that] p(3) by (simp add: paying_ok_def)
  have pay: "paying_ok ?w"
  proof (cases "ss = []")
    case True
    then show ?thesis using p(3) t' by (simp add: paying_ok_def batch_def)
  next
    case False
    then have "pw_paying ?w = [payout_start ss]" "pk_settling t'" using t' quiet by (simp_all add: batch_def)
    then show ?thesis using t'(2,5) False by (simp add: paying_ok_def payout_start_def paid_within_def)
  qed
  have "staked ?w \<le> staked w"
  proof (cases "live t'")
    case True
    then show ?thesis using t' by (simp add: staked_def)
  next
    case out: False
    show ?thesis
    proof (cases "ss = []")
      case True
      then show ?thesis using out quiet staked_nonneg [OF w] by (cases "live ?t") (simp_all add: staked_def batch_def)
    next
      case False
      then have "staked ?w = sum_list (map se_credit ss)" using out t' quiet by (simp add: staked_def batch_def owed_def payout_start_def)
      also have "\<dots> \<le> pot ?t" using t'(5) [OF False] by (simp add: paid_within_def)
      also have "\<dots> \<le> staked w" using t'(5) [OF False] landed_nonneg [OF w] by (simp add: staked_def)
      finally show ?thesis .
    qed
  qed
  then have "books_ok us ?w" using t' by (intro books_keep [OF p(4)]) auto
  then show ?thesis using t'(1) f pay by (simp add: core_ok_def)
qed

lemma tail_clock:
  assumes t: "poker_ok t" and f: "apply_auto_check_folds_and_start_countdown now t = (t', ss, c)"
  shows "clock_ok t'"
proof -
  obtain t1 ss1 where a: "apply_auto_check_folds t = (t1, ss1)" by (meson surj_pair)
  then have ok: "poker_ok t1" using auto_rounds_step [OF t] by (simp add: apply_auto_check_folds_def table_step_def)
  have b: "start_action_countdown_if_needed now t1 = (t', c)" using f a
    by (auto simp: apply_auto_check_folds_and_start_countdown_def split: prod.splits)
  show ?thesis
  proof (cases "is_action_phase (pk_phase t1)")
    case False
    then show ?thesis using b by (auto simp: start_action_countdown_if_needed_def clock_ok_def clear_action_countdown_def)
  next
    case True
    then obtain i where i: "pk_active t1 = Some i" "in_play t1 i" "\<not> pk_all_in t1 i" using table_parts(6) [OF ok] by (auto simp: acting_ok_def)
    then show ?thesis using b by (auto simp: start_action_countdown_if_needed_def clock_ok_def clear_action_countdown_def in_play_def Let_def split: if_splits)
  qed
qed

lemma batch_append: "ss1 = [] \<or> ss2 = [] \<Longrightarrow> batch (ss1 @ ss2) = batch ss1 @ batch ss2"
  by (auto simp: batch_def)

lemma pass_pass: "pass (t2, [], bs2) (pass (t1, rs, bs1) w) = pass (t2, rs, bs1 @ bs2) w"
  by (simp add: pass_def)

text \<open>The automatic actions after a task that settled do nothing.\<close>

lemma core_auto:
  assumes c: "core_ok us (pass (t1, rs, batch ss1) w)" and f: "apply_auto_check_folds_and_start_countdown now t1 = (t2, ss2, x)"
    and settled: "ss1 \<noteq> [] \<Longrightarrow> \<not> live t1"
  shows "world_ok us (pass (t2, rs, batch ss1 @ batch ss2) w)" "batch ss1 @ batch ss2 = batch (ss1 @ ss2)"
proof -
  have ok: "poker_ok t1" using core_parts(1) [OF c] by simp
  have s: "table_step t1 t2 ss2" by (rule tail_step [OF ok f])
  have "core_ok us (pass (t2, [], batch ss2) (pass (t1, rs, batch ss1) w))" by (rule served_core [OF c]) (simp add: s)
  then show "world_ok us (pass (t2, rs, batch ss1 @ batch ss2) w)" using tail_clock [OF ok f] by (simp add: world_ok_def pass_pass)
  have "ss1 = [] \<or> ss2 = []" using s settled by (auto simp: table_step_def)
  then show "batch ss1 @ batch ss2 = batch (ss1 @ ss2)" by (simp add: batch_append)
qed

lemma with_auto_ok:
  assumes c: "core_ok us (pass (t1, [], batch ss1) w)" and settled: "ss1 \<noteq> [] \<Longrightarrow> \<not> live t1"
  shows "world_ok us (pass (with_auto now (t1, ss1)) w)"
proof -
  obtain t2 ss2 x where f: "apply_auto_check_folds_and_start_countdown now t1 = (t2, ss2, x)" by (metis surj_pair)
  show ?thesis using core_auto [OF c f settled] by (simp add: with_auto_def f)
qed

lemma step_auto_ok:
  "core_ok us w \<Longrightarrow> table_step (pw_table w) t1 ss1 \<Longrightarrow> world_ok us (pass (with_auto now (t1, ss1)) w)"
  by (rule with_auto_ok [OF served_core]) (simp_all add: table_step_def)

lemma pass_nothing: "pass (t, [], []) w = pass (t, [], batch []) w"
  by (simp add: batch_def)

lemma activity_fields: "\<exists>a g. fst (record_activity now u t) = t\<lparr>pk_activity := a, pk_generation := g\<rparr>"
proof (cases "seat_index t u")
  case None
  then show ?thesis by (intro exI [of _ "pk_activity t"] exI [of _ "pk_generation t"]) (simp add: record_activity_def)
qed (auto simp: record_activity_def Let_def)

lemma clock_same:
  "clock_ok t \<Longrightarrow> pk_phase t' = pk_phase t \<Longrightarrow> pk_active t' = pk_active t \<Longrightarrow> pk_pending t' = pk_pending t \<Longrightarrow>
     pk_deadline t' = pk_deadline t \<Longrightarrow> pk_countdown_seat t' = pk_countdown_seat t \<Longrightarrow> clock_ok t'"
  by (simp add: clock_ok_def)

lemma clock_activity: "clock_ok t \<Longrightarrow> clock_ok (fst (record_activity now u t))"
proof -
  assume c: "clock_ok t"
  obtain a g where r: "fst (record_activity now u t) = t\<lparr>pk_activity := a, pk_generation := g\<rparr>" using activity_fields by blast
  show ?thesis by (rule clock_same [OF c]) (simp_all add: r)
qed

lemma clock_off: "\<not> live t \<or> pk_phase t = PkPostingBlinds \<Longrightarrow> clock_ok t"
  by (auto simp: clock_ok_def live_def)

lemma clock_sit: "clock_ok t \<Longrightarrow> clock_ok (fst (sit u b t))"
proof -
  assume c: "clock_ok t"
  obtain g where g: "fst (sync_global_balance_value u b t) = t\<lparr>pk_global := g\<rparr>" using sync_global_fields by blast
  show ?thesis by (rule clock_same [OF c]) (simp_all add: sit_def g Let_def split: option.splits)
qed

text \<open>A step that settles nothing, then the activity of the user.\<close>

lemma quiet_served:
  assumes w: "core_ok us w" and s: "table_step (pw_table w) t' []" and c: "clock_ok t'"
  shows "world_ok us (pass (fst (record_activity now u t'), [], []) w)"
proof -
  have "poker_ok t'" using s by (simp add: table_step_def)
  then have "table_step (pw_table w) (fst (record_activity now u t')) []" using table_step_trans [OF s activity_step] by simp
  from served_core [OF w this] show ?thesis using clock_activity [OF c] by (simp add: world_ok_def pass_nothing)
qed

lemma core_commit:
  assumes w: "core_ok us w" and c: "commit_made (pw_table w) t' r"
  shows "core_ok us (pass (t', [r], []) w)"
proof -
  let ?w = "pass (t', [r], []) w"
  let ?t = "pw_table w"
  note p = core_parts [OF w]
  have m: "poker_ok t'" "live ?t" "live t'" "request_of t' r" "pending_seats t' = {cr_seat r}" "pk_hand_id t' = pk_hand_id ?t"
    "pk_settling t' = pk_settling ?t" "pot t' = pot ?t" using c by (simp_all add: commit_made_def)
  have none: "in_flight w = []" using no_flight [OF p(2)] c by (simp add: commit_made_def)
  then have "flight_ok ?w" using m by (simp add: flight_ok_def in_flight_def)
  moreover have "paying_ok ?w" using p(3) m by (simp add: paying_ok_def)
  moreover have "books_ok us ?w" by (rule books_keep [OF p(4)]) (use m in \<open>simp_all add: staked_def\<close>)
  ultimately show ?thesis using m(1) by (simp add: core_ok_def)
qed

lemma outcome_served:
  assumes w: "core_ok us w" and f: "outcome_ok (pw_table w) result"
  shows "world_ok us (pass (outcome_task now u result) w)"
proof -
  obtain t1 out where r: "result = (t1, out)" by fastforce
  define rs where "rs = (case out of OutcomeCommit r \<Rightarrow> [r] | _ \<Rightarrow> [])"
  define ss1 where "ss1 = (case out of OutcomeSettlements ss \<Rightarrow> ss | _ \<Rightarrow> [])"
  let ?t = "fst (record_activity now u t1)"
  obtain t2 ss2 x where a: "apply_auto_check_folds_and_start_countdown now ?t = (t2, ss2, x)" by (metis surj_pair)
  have eq: "outcome_task now u result = (t2, rs, batch ss1 @ batch ss2)"
    by (cases out) (simp_all add: outcome_task_def r a rs_def ss1_def batch_def)
  have c1: "core_ok us (pass (t1, rs, batch ss1) w)"
  proof (cases out)
    case OutcomeNone
    then have "t1 = pw_table w" using f by (simp add: outcome_ok_def r)
    then show ?thesis using served_core [OF w table_step_refl [OF core_parts(1) [OF w]]] OutcomeNone by (simp add: rs_def ss1_def)
  next
    case (OutcomeCommit q)
    then have "commit_made (pw_table w) t1 q" using f by (simp add: outcome_ok_def r)
    then show ?thesis using core_commit [OF w] OutcomeCommit by (simp add: rs_def ss1_def batch_def)
  next
    case (OutcomeSettlements ss)
    then have "table_step (pw_table w) t1 ss" using f by (simp add: outcome_ok_def r)
    then show ?thesis using served_core [OF w] OutcomeSettlements by (simp add: rs_def ss1_def)
  qed
  have settled: "\<not> live t1" if "ss1 \<noteq> []"
    using that f by (auto simp: ss1_def outcome_ok_def r table_step_def split: action_outcome.splits)
  have ok: "poker_ok t1" using core_parts(1) [OF c1] by simp
  have s: "table_step t1 ?t []" by (rule activity_step [OF ok])
  have "core_ok us (pass (?t, [], batch []) (pass (t1, rs, batch ss1) w))" by (rule served_core [OF c1]) (simp add: s)
  then have "core_ok us (pass (?t, rs, batch ss1) w)" by (simp add: pass_pass batch_def [of "[]"])
  moreover have "\<not> live ?t" if "ss1 \<noteq> []" using settled [OF that] s by (auto simp: table_step_def)
  ultimately show ?thesis unfolding eq using core_auto(1) [OF _ a] by blast
qed

text \<open>A new hand, with an id that no row carries.\<close>

lemma core_new_hand:
  assumes w: "core_ok us w" and fresh: "us hand \<notin> us ` set (pw_hands w)" "hand_bets us (pw_db w) hand = 0" "hand_winnings us (pw_db w) hand = 0"
  shows "core_ok us (w\<lparr>pw_hands := hand # pw_hands w\<rparr>)"
proof -
  let ?w = "w\<lparr>pw_hands := hand # pw_hands w\<rparr>"
  note p = core_parts [OF w]
  have st: "staked ?w = staked w" by (simp add: staked_def)
  have zero: "staked w = 0" if "pk_hand_id (pw_table w) = hand"
  proof -
    have "\<not> live (pw_table w)" "\<not> pk_settling (pw_table w)" using p(4) fresh(1) that by (auto simp: books_ok_def)
    then show ?thesis using p(3) by (simp add: staked_def paying_ok_def)
  qed
  have "hand_winnings us (pw_db w) h + (if h = pk_hand_id (pw_table w) then staked ?w else 0) \<le> hand_bets us (pw_db w) h"
    if "h = hand \<or> h \<in> set (pw_hands w)" for h
    unfolding st using that zero fresh(2,3) books_le [OF p(4), of h] by (cases "h = hand") auto
  then have "books_ok us ?w" using p(4) fresh(1) by (auto simp: books_ok_def)
  moreover have "flight_ok ?w" "paying_ok ?w" using p by (simp_all add: flight_ok_def paying_ok_def in_flight_def)
  ultimately show ?thesis using p(1) by (simp add: core_ok_def)
qed

lemma core_started:
  assumes w: "core_ok us w" and hand: "hand \<in> set (pw_hands w)" and s: "hand_started (pw_table w) hand t' rs"
  shows "core_ok us (pass (t', rs, []) w)"
proof -
  let ?w = "pass (t', rs, []) w"
  note p = core_parts [OF w]
  have m: "poker_ok t'" "\<not> live (pw_table w)" "\<not> pk_settling (pw_table w)" "pk_phase t' = PkPostingBlinds" "pk_hand_id t' = hand" "pot t' = 0"
    "\<forall>r \<in> set rs. request_of t' r" "distinct (map cr_seat rs)" "set (map cr_seat rs) = pending_seats t'"
    using s by (auto simp: hand_started_def list_all_iff)
  have l: "live t'" using m(4) by (simp add: live_def)
  have none: "in_flight w = []" "pw_paying w = []" using rest_flight [OF w m(2)] p(3) m(3) by (simp_all add: paying_ok_def)
  then have "flight_ok ?w" using m by (simp add: flight_ok_def in_flight_def)
  moreover have "paying_ok ?w" using none live_settling [OF m(1) l] by (simp add: paying_ok_def)
  moreover have "books_ok us ?w"
  proof -
    have "staked ?w = 0" using none l m(6) by (simp add: staked_def in_flight_def)
    moreover have "hand_winnings us (pw_db w) h \<le> hand_bets us (pw_db w) h" if "h \<in> set (pw_hands w)" for h
      using books_le [OF p(4) that] staked_nonneg [OF w] by (simp split: if_splits)
    ultimately show ?thesis using p(4) hand m(5) by (auto simp: books_ok_def)
  qed
  ultimately show ?thesis using m(1) by (simp add: core_ok_def)
qed

lemma table_call_ok:
  assumes w: "world_ok us w" and o: "orderly us w c"
  shows "world_ok us (pass (serve now c (pw_table w)) (w\<lparr>pw_hands := hands_after c (pw_hands w)\<rparr>))"
proof -
  let ?t = "pw_table w"
  have core: "core_ok us w" and clock: "clock_ok ?t" using w by (simp_all add: world_ok_def)
  have t: "poker_ok ?t" by (rule core_parts(1) [OF core])
  have same: "w\<lparr>pw_hands := hands_after c (pw_hands w)\<rparr> = w" if "\<And>draws hand u. c \<noteq> CallStart draws hand u"
    using that by (cases c) (auto simp: hands_after_def)
  have idle: "world_ok us (pass (?t, [], []) w)"
    using served_core [OF core table_step_refl [OF t]] clock by (simp add: world_ok_def pass_nothing)
  note act = table_step_trans [OF _ activity_step, simplified]
  show ?thesis
  proof (cases c)
    case (CallSit u b)
    have s: "table_step ?t (fst (sit u b ?t)) []" by (rule sit_step [OF t])
    show ?thesis using quiet_served [OF core s clock_sit [OF clock]] same CallSit by (simp add: sit_task_def case_prod_beta)
  next
    case (CallLeave u)
    then have none: "pending_seats ?t = {}" using o by (simp add: orderly_def)
    obtain t1 ss where l: "leave u ?t = (t1, ss)" by fastforce
    show ?thesis using step_auto_ok [OF core leave_step [OF t none l]] same CallLeave by (simp add: leave_seat_task_def l)
  next
    case (CallStart draws hand u)
    let ?w = "w\<lparr>pw_hands := hand # pw_hands w\<rparr>"
    have core': "core_ok us ?w" using core_new_hand [OF core, of hand] o CallStart by (simp add: orderly_def)
    obtain t1 rs where h: "start_hand draws hand u ?t = (t1, rs)" by fastforce
    have "world_ok us (pass (fst (record_activity now u t1), rs, []) ?w)" using start_hand_started [OF t h]
    proof (elim disjE conjE)
      assume s: "rs = []" "table_step ?t t1 []"
      have "t1 = ?t" if "live ?t" using h that by (auto simp: start_hand_def live_def split: if_splits)
      then have "t1 = ?t \<or> \<not> live t1" using s(2) by (auto simp: table_step_def)
      then have "clock_ok t1" using clock clock_off by blast
      then show ?thesis using quiet_served [OF core'] s by simp
    next
      assume s: "hand_started ?t hand t1 rs"
      have c1: "core_ok us (pass (t1, rs, []) ?w)" by (rule core_started [OF core']) (use s in simp_all)
      have ok: "poker_ok t1" "pk_phase t1 = PkPostingBlinds" using s by (simp_all add: hand_started_def)
      have "core_ok us (pass (fst (record_activity now u t1), [], batch []) (pass (t1, rs, []) ?w))"
        by (rule served_core [OF c1]) (simp add: activity_step [OF ok(1)])
      moreover have "clock_ok (fst (record_activity now u t1))" by (rule clock_activity [OF clock_off]) (simp add: ok)
      ultimately show ?thesis by (simp add: world_ok_def pass_pass batch_def)
    qed
    then show ?thesis using CallStart by (simp add: start_hand_task_def h hands_after_def)
  next
    case (CallCheck u)
    then show ?thesis using outcome_served [OF core call_or_check_ok [OF t]] same by (simp add: call_or_check_task_def)
  next
    case (CallRaise u n)
    then show ?thesis using outcome_served [OF core bet_or_raise_ok [OF t]] same by (simp add: bet_or_raise_task_def)
  next
    case (CallAllIn u)
    then show ?thesis using outcome_served [OF core all_in_ok [OF t]] same by (simp add: all_in_task_def)
  next
    case (CallFold u)
    obtain t1 ss where f: "fold_hand u ?t = (t1, ss)" by fastforce
    then have s: "table_step ?t t1 ss" by (rule fold_hand_step [OF t])
    then have "poker_ok t1" by (simp add: table_step_def)
    from table_step_trans [OF s activity_step [OF this]] have "table_step ?t (fst (record_activity now u t1)) ss" by simp
    from step_auto_ok [OF core this] show ?thesis using same CallFold by (simp add: fold_task_def f)
  next
    case (CallToggle u)
    have s: "table_step ?t (toggle_auto_check_fold u ?t) []" by (rule toggle_step [OF t])
    then have "poker_ok (toggle_auto_check_fold u ?t)" by (simp add: table_step_def)
    from table_step_trans [OF s activity_step [OF this]]
    have "table_step ?t (fst (record_activity now u (toggle_auto_check_fold u ?t))) []" by simp
    from step_auto_ok [OF core this] show ?thesis using same CallToggle by (simp add: toggle_auto_check_fold_task_def)
  next
    case (CallSync u b)
    then have rest: "\<not> live ?t" using o by (simp add: orderly_def)
    have s: "table_step ?t (fst (sync_balance u b ?t)) []" by (rule sync_balance_step [OF t rest])
    then have "clock_ok (fst (sync_balance u b ?t))" using rest by (intro clock_off) (auto simp: table_step_def)
    then show ?thesis using served_core [OF core s] same CallSync by (simp add: sync_balance_task_def world_ok_def pass_nothing)
  next
    case (CallTouch u)
    show ?thesis using quiet_served [OF core table_step_refl [OF t] clock] same CallTouch by (simp add: touch_activity_task_def)
  next
    case (CallKick u g)
    then have none: "pending_seats ?t = {}" using o by (simp add: orderly_def)
    obtain t1 ch ss where k: "kick_inactive_user now u g ?t = (t1, ch, ss)" by (metis surj_pair)
    show ?thesis
    proof (cases ch)
      case True
      then show ?thesis using step_auto_ok [OF core kick_step [OF t none k]] same CallKick by (simp add: inactivity_kick_def k)
    next
      case False
      then have "t1 = ?t" using k by (auto simp: kick_inactive_user_def Let_def split: option.splits if_splits prod.splits)
      then show ?thesis using idle same CallKick False by (simp add: inactivity_kick_def k)
    qed
  next
    case (CallTimeout x)
    obtain t1 res where f: "timeout_active_action x ?t = (t1, res)" by fastforce
    have "world_ok us (pass (with_auto now (t1, case res of None \<Rightarrow> [] | Some ss \<Rightarrow> ss)) w)"
      by (rule step_auto_ok [OF core timeout_step [OF t f]])
    then show ?thesis using idle same CallTimeout by (simp add: action_timeout_def f)
  qed
qed


section \<open>Debits and payouts keep the invariant\<close>

lemma debited_ok:
  assumes w: "world_ok us w" and r: "r \<in> set (pw_asked w)"
    and win: "\<And>h. hand_winnings us db h = hand_winnings us (pw_db w) h"
    and bet: "\<And>h. hand_bets us (pw_db w) h + (if result = None \<or> us (cr_hand r) \<noteq> us h then 0 else cr_amount r) \<le> hand_bets us db h"
  shows "world_ok us (w\<lparr>pw_db := db, pw_asked := remove1 r (pw_asked w), pw_known := pw_known w @ [(r, result)]\<rparr>)"
    (is "world_ok us ?w")
proof -
  let ?t = "pw_table w"
  have core: "core_ok us w" and clock: "clock_ok ?t" using w by (simp_all add: world_ok_def)
  note p = core_parts [OF core]
  have m: "mset (in_flight ?w) = mset (in_flight w)" using r by (simp add: in_flight_def)
  then have ms: "mset (map cr_seat (in_flight ?w)) = mset (map cr_seat (in_flight w))" by (metis mset_map)
  have f: "flight_ok ?w"
    using p(2) mset_eq_setD [OF m] mset_eq_setD [OF ms] mset_eq_imp_distinct_iff [OF ms] by (simp add: flight_ok_def)
  have req: "request_of ?t r" using p(2) r by (simp add: flight_ok_def in_flight_def)
  then have hand: "cr_hand r = pk_hand_id ?t" by (simp add: request_of_def)
  have l: "live ?t" by (rule ccontr) (use rest_flight [OF core] r in \<open>auto simp: in_flight_def\<close>)
  have st: "staked ?w = staked w + landed (r, result)" using l by (simp add: staked_def)
  have "hand_winnings us db h + (if h = pk_hand_id ?t then staked ?w else 0) \<le> hand_bets us db h" if "h \<in> set (pw_hands w)" for h
  proof -
    have "us (cr_hand r) = us h \<longleftrightarrow> h = pk_hand_id ?t" using p(4) that l by (auto simp: books_ok_def inj_on_def hand)
    then show ?thesis unfolding st landed_def prod.case
      using books_le [OF p(4) that] bet [of h] win [of h] by (cases result) (auto split: if_splits)
  qed
  then have "books_ok us ?w" using p(4) by (simp add: books_ok_def)
  moreover have "paying_ok ?w" using p(3) by (simp add: paying_ok_def)
  ultimately show ?thesis using f p(1) clock by (simp add: world_ok_def core_ok_def)
qed

lemma landed_remove1: "x \<in> set xs \<Longrightarrow> sum_list (map landed xs) = landed x + sum_list (map landed (remove1 x xs))"
  by (rule sum_list_map_remove1)

lemma landed_core:
  assumes core: "core_ok us w" and k: "(r, result) \<in> set (pw_known w)"
    and c: "commit_applied (pw_table w) (cr_seat r) (landed (r, result)) t' ss"
  shows "core_ok us (pass (t', [], batch ss) (w\<lparr>pw_known := remove1 (r, result) (pw_known w)\<rparr>))" (is "core_ok us ?w")
proof -
  let ?t = "pw_table w"
  note p = core_parts [OF core]
  have a: "poker_ok t'" "pk_hand_id t' = pk_hand_id ?t" "live t' \<Longrightarrow> pot t' = pot ?t + landed (r, result)" "pk_settling t' \<longleftrightarrow> ss \<noteq> []"
    "ss \<noteq> [] \<Longrightarrow> \<not> live t' \<and> paid_within (pk_hand_id ?t) (pot ?t + landed (r, result)) ss"
    and pend: "\<And>j. j < MAX_SEATS \<Longrightarrow> pk_pending t' j = (if j = cr_seat r then None else pk_pending ?t j)"
    and seats: "\<And>j. j < MAX_SEATS \<Longrightarrow> pk_pending t' j \<noteq> None \<Longrightarrow> pk_seats t' j = pk_seats ?t j"
    using c by (simp_all add: commit_applied_def)
  have rm: "r \<in> set (in_flight w)" using k by (force simp: in_flight_def)
  have l: "live ?t" by (rule ccontr) (use rest_flight [OF core] rm in auto)
  have quiet: "pw_paying w = []" using live_settling [OF p(1) l] p(3) by (simp add: paying_ok_def)
  have m: "mset (in_flight w) = add_mset r (mset (in_flight ?w))"
  proof -
    have "mset (pw_known w) = add_mset (r, result) (mset (remove1 (r, result) (pw_known w)))" using k by simp
    from arg_cong [OF this, of "image_mset fst"]
    have "image_mset fst (mset (pw_known w)) = add_mset r (image_mset fst (mset (remove1 (r, result) (pw_known w))))" by simp
    then show ?thesis by (simp add: in_flight_def)
  qed
  then have ms: "mset (map cr_seat (in_flight w)) = mset (cr_seat r # map cr_seat (in_flight ?w))"
    using arg_cong [OF m, of "image_mset cr_seat"] by simp
  have d: "distinct (cr_seat r # map cr_seat (in_flight ?w))" "set (cr_seat r # map cr_seat (in_flight ?w)) = pending_seats ?t"
    using p(2) mset_eq_setD [OF ms] mset_eq_imp_distinct_iff [OF ms] by (simp_all add: flight_ok_def)
  have "pending_seats t' = pending_seats ?t - {cr_seat r}" by (auto simp: pending_seats_def pend split: if_splits)
  then have "set (map cr_seat (in_flight ?w)) = pending_seats t'" unfolding d(2) [symmetric] using d(1) by simp
  moreover have "request_of t' q" if q: "q \<in> set (in_flight ?w)" for q
  proof -
    have "q \<in> set (in_flight w)" using mset_eq_setD [OF m [folded mset.simps(2)]] q by simp
    then have "request_of ?t q" using p(2) by (simp add: flight_ok_def)
    moreover have "cr_seat q \<noteq> cr_seat r" using d(1) q by (metis distinct.simps(2) image_eqI list.set_map)
    ultimately show ?thesis using pend [of "cr_seat q"] seats [of "cr_seat q"] a(2) by (auto simp: request_of_def)
  qed
  ultimately have f: "flight_ok ?w" using d(1) by (simp add: flight_ok_def)
  have pay: "paying_ok ?w"
  proof (cases "ss = []")
    case False
    then show ?thesis using a(2,4) a(5) [OF False] quiet by (simp add: paying_ok_def payout_start_def paid_within_def batch_def)
  qed (use a(4) quiet in \<open>simp add: paying_ok_def batch_def\<close>)
  have st: "staked w = pot ?t + landed (r, result) + sum_list (map landed (remove1 (r, result) (pw_known w)))"
    using l landed_remove1 [OF k] by (simp add: staked_def)
  have "staked ?w \<le> staked w"
  proof (cases "live t'")
    case True
    then show ?thesis using a(3) st by (simp add: staked_def)
  next
    case False
    have "in_flight ?w = []" using table_parts(7) [OF a(1) False] f no_flight [OF f] by (simp add: resting_ok_def)
    then have rest: "remove1 (r, result) (pw_known w) = []" by (simp add: in_flight_def)
    show ?thesis
    proof (cases "ss = []")
      case True
      then show ?thesis using False quiet staked_nonneg [OF core] by (simp add: staked_def batch_def)
    next
      case ne: False
      then have "staked ?w = sum_list (map se_credit ss)" using False quiet by (simp add: staked_def batch_def owed_def payout_start_def)
      then show ?thesis using a(5) [OF ne] st rest by (simp add: paid_within_def)
    qed
  qed
  then have "books_ok us ?w" using a(2) l by (intro books_keep [OF p(4)]) auto
  then show ?thesis using a(1) f pay by (simp add: core_ok_def)
qed

lemma landing_ok:
  assumes w: "world_ok us w" and k: "(r, result) \<in> set (pw_known w)"
  shows "world_ok us (pass (commit_landed now r result (pw_table w)) (w\<lparr>pw_known := remove1 (r, result) (pw_known w)\<rparr>))"
proof -
  have core: "core_ok us w" using w by (simp add: world_ok_def)
  note p = core_parts [OF core]
  have "r \<in> set (in_flight w)" using k by (force simp: in_flight_def)
  then have req: "request_of (pw_table w) r" using p(2) by (simp add: flight_ok_def)
  define q where "q = (case result of Some g \<Rightarrow> apply_commit_success r g (pw_table w) | None \<Rightarrow> apply_commit_failure r (pw_table w))"
  obtain t1 ss where t1: "q = (t1, ss)" by fastforce
  have a: "commit_applied (pw_table w) (cr_seat r) (landed (r, result)) t1 ss"
    using apply_success_applied [OF p(1) req] apply_failure_applied [OF p(1) req] t1 unfolding q_def
    by (cases result) (auto simp: landed_def)
  then have "ss \<noteq> [] \<Longrightarrow> \<not> live t1" by (simp add: commit_applied_def)
  from with_auto_ok [OF landed_core [OF core k a] this] show ?thesis unfolding commit_landed_def q_def [symmetric] t1 .
qed

lemma payout_next_left [simp]: "pt_left (payout_next update p) = tl (pt_left p)"
  by (simp add: payout_next_def split: option.splits)

lemma paying_one:
  "paying_ok w \<Longrightarrow> pw_paying w = ps @ p # qs \<Longrightarrow> ps = [] \<and> qs = [] \<and> pk_settling (pw_table w)"
  by (auto simp: paying_ok_def split: if_splits)

lemma paying_next_ok:
  assumes w: "world_ok us w" and pay: "pw_paying w = ps @ p # qs" "pt_left p = s # ss"
    and bet: "\<And>h. hand_bets us db h = hand_bets us (pw_db w) h"
    and win: "\<And>h. hand_winnings us db h \<le> hand_winnings us (pw_db w) h + (if us (se_hand s) \<noteq> us h then 0 else se_credit s)"
  shows "world_ok us (w\<lparr>pw_db := db, pw_paying := ps @ payout_next update p # qs\<rparr>)" (is "world_ok us ?w")
proof -
  let ?t = "pw_table w"
  have core: "core_ok us w" and clock: "clock_ok ?t" using w by (simp_all add: world_ok_def)
  note q = core_parts [OF core]
  note one = paying_one [OF q(3) pay(1)]
  have l: "\<not> live ?t" using live_settling [OF q(1)] one by blast
  have s: "0 \<le> se_credit s" "se_hand s = pk_hand_id ?t" using q(3) pay by (auto simp: paying_ok_def)
  have st: "staked w = se_credit s + staked ?w" using l one pay by (simp add: staked_def owed_def)
  have "hand_winnings us db h + (if h = pk_hand_id ?t then staked ?w else 0) \<le> hand_bets us db h" if "h \<in> set (pw_hands w)" for h
  proof -
    have "us (se_hand s) = us h \<longleftrightarrow> h = pk_hand_id ?t" using q(4) that one by (auto simp: books_ok_def inj_on_def s)
    then show ?thesis using books_le [OF q(4) that] bet [of h] win [of h] st by (simp split: if_splits)
  qed
  then have "books_ok us ?w" using q(4) by (simp add: books_ok_def)
  moreover have "paying_ok ?w" using q(3) pay one by (simp add: paying_ok_def)
  moreover have "flight_ok ?w" using q(2) by (simp add: flight_ok_def in_flight_def)
  ultimately show ?thesis using q(1) clock by (simp add: world_ok_def core_ok_def)
qed

lemma payout_finish_ok:
  assumes w: "world_ok us w" and pay: "pw_paying w = ps @ p # qs"
  shows "world_ok us (w\<lparr>pw_table := payout_finish p (pw_table w), pw_paying := ps @ qs\<rparr>)" (is "world_ok us ?w")
proof -
  let ?t = "pw_table w"
  let ?t' = "payout_finish p ?t"
  have core: "core_ok us w" using w by (simp add: world_ok_def)
  note q = core_parts [OF core]
  note one = paying_one [OF q(3) pay]
  have l: "\<not> live ?t" using live_settling [OF q(1)] one by blast
  have t': "poker_ok ?t'" "\<not> live ?t'" "\<not> pk_settling ?t'" "pk_hand_id ?t' = pk_hand_id ?t"
    using settlement_failed_paid [OF q(1) l] complete_settlements_paid [OF q(1) l] by (simp_all add: payout_finish_def paid_table_def)
  have "in_flight w = []" by (rule rest_flight [OF core l])
  then have "flight_ok ?w" using table_parts(7) [OF t'(1,2)] by (simp add: flight_ok_def in_flight_def resting_ok_def)
  moreover have "paying_ok ?w" using one t'(3) by (simp add: paying_ok_def)
  moreover have "books_ok us ?w" by (rule books_keep [OF q(4)]) (use t' one staked_nonneg [OF core] in \<open>simp_all add: staked_def\<close>)
  ultimately show ?thesis using t'(1) clock_off [of ?t'] t'(2) by (simp add: world_ok_def core_ok_def)
qed


section \<open>Every reachable state\<close>

lemma elsewhere_ok:
  assumes w: "world_ok us w" and same: "\<And>h. h \<in> set (pw_hands w) \<Longrightarrow>
      hand_bets us db h = hand_bets us (pw_db w) h \<and> hand_winnings us db h = hand_winnings us (pw_db w) h"
  shows "world_ok us (w\<lparr>pw_db := db\<rparr>)"
proof -
  have st: "staked (w\<lparr>pw_db := db\<rparr>) = staked w" by (simp add: staked_def)
  have b: "books_ok us w" using w by (simp add: world_ok_def core_ok_def)
  have "hand_winnings us db h + (if h = pk_hand_id (pw_table w) then staked (w\<lparr>pw_db := db\<rparr>) else 0)
      \<le> hand_bets us db h" if "h \<in> set (pw_hands w)" for h
    unfolding st using books_le [OF b that] same [OF that] by simp
  then have "books_ok us (w\<lparr>pw_db := db\<rparr>)" using b by (simp add: books_ok_def)
  then show ?thesis using w by (simp add: world_ok_def core_ok_def flight_ok_def in_flight_def paying_ok_def)
qed

lemma poker_step_ok: "poker_step (orderly us) us w w' \<Longrightarrow> world_ok us w \<Longrightarrow> world_ok us w'"
proof (induction rule: poker_step.induct)
  case (step_call w c)
  then show ?case by (intro table_call_ok)
next
  case (step_debit r w db result)
  show ?case by (rule debited_ok [OF step_debit(3,1)]) (use commit_debit_rows [OF step_debit(2)] in simp_all)
next
  case (step_debit_lost r w db result db')
  show ?case by (rule debited_ok [OF step_debit_lost(4,1)]) (use step_debit_lost(3) commit_debit_rows [OF step_debit_lost(2)] in auto)
next
  case (step_land r result w now)
  then show ?case by (intro landing_ok)
next
  case (step_pay w ps p qs s ss db update)
  have "0 \<le> se_credit s" using step_pay by (auto simp: world_ok_def core_ok_def paying_ok_def)
  from persist_settlement_rows [OF step_pay(3) this] show ?case by (intro paying_next_ok [OF step_pay(4,1,2)]) auto
next
  case (step_pay_lost w ps p qs s ss db update db')
  have s: "0 \<le> se_credit s" using step_pay_lost by (auto simp: world_ok_def core_ok_def paying_ok_def)
  from persist_settlement_rows [OF step_pay_lost(3) s] show ?case
    using s step_pay_lost(4) by (intro paying_next_ok [OF step_pay_lost(5,1,2)]) auto
next
  case (step_paid w ps p qs)
  then show ?case by (intro payout_finish_ok)
next
  case (step_elsewhere w db)
  then show ?case by (intro elsewhere_ok)
qed

lemma opening_ok: "world_ok us (opening_world now hand settings db)"
proof -
  let ?t = "new_table now hand settings"
  note n = new_poker_ok [of now hand settings]
  have "clock_ok ?t" by (rule clock_off) (simp add: n)
  then show ?thesis using n by (simp add: world_ok_def core_ok_def flight_ok_def in_flight_def paying_ok_def books_ok_def opening_world_def)
qed

lemma poker_run_ok:
  assumes "orderly_run us (opening_world now hand settings db) w"
  shows "world_ok us w"
  using assms by (induction rule: rtranclp_induct) (auto intro: opening_ok poker_step_ok)

lemma distinct_subset_mset: "mset xs \<subseteq># mset ys \<Longrightarrow> distinct ys \<Longrightarrow> distinct xs \<and> set xs \<subseteq> set ys"
proof -
  assume "mset xs \<subseteq># mset ys" and d: "distinct ys"
  then obtain zs where "mset ys = mset (xs @ zs)" by (metis ex_mset mset_append subset_mset.le_iff_add)
  then show "distinct xs \<and> set xs \<subseteq> set ys" using d mset_eq_imp_distinct_iff mset_eq_setD by fastforce
qed

text \<open>C5. In every orderly run of a poker table, with bets and payouts that interleave in any way and
  fail at any point, no user has two seats, stacks and bets are never negative and stacks stay 64-bit
  integers, every seat holds no card or two, no card is at two places among the hands, the board and the
  stock and all come from the deck, while seats act the board has the cards of its street, and every debit
  under way is the pending commit of its seat, for a positive amount within the seat's stack.\<close>

theorem poker_table_safe:
  assumes "orderly_run us (opening_world now hand settings db) w"
  shows "one_seat_each (pk_seats (pw_table w)) \<and>
    list_all (\<lambda>i. 0 \<le> pk_balances (pw_table w) i \<and> pk_balances (pw_table w) i < 2 ^ 63 \<and>
      0 \<le> pk_committed (pw_table w) i \<and> length (pk_hole (pw_table w) i) \<in> {0, 2}) [0..<MAX_SEATS] \<and>
    distinct (cards_out (pw_table w)) \<and> set (cards_out (pw_table w)) \<subseteq> set poker_fresh_deck \<and>
    (is_action_phase (pk_phase (pw_table w)) \<longrightarrow> length (pk_community (pw_table w)) = street_cards (pk_phase (pw_table w))) \<and>
    (\<forall>r \<in> set (in_flight w). 0 < cr_amount r \<and> cr_amount r \<le> pk_balances (pw_table w) (cr_seat r) \<and>
       pk_seats (pw_table w) (cr_seat r) = Some (cr_user r) \<and>
       map_option pn_amount (pk_pending (pw_table w) (cr_seat r)) = Some (cr_amount r))"
proof -
  let ?t = "pw_table w"
  have w: "core_ok us w" using poker_run_ok [OF assms] by (simp add: world_ok_def)
  note p = table_parts [OF core_parts(1) [OF w]]
  have "one_seat_each (pk_seats ?t)" using p(1) by (simp add: seats_ok_def)
  moreover have "list_all (\<lambda>i. 0 \<le> pk_balances ?t i \<and> pk_balances ?t i < 2 ^ 63 \<and> 0 \<le> pk_committed ?t i \<and>
      length (pk_hole ?t i) \<in> {0, 2}) [0..<MAX_SEATS]" using p(2,3) by (auto simp: list_all_iff chips_ok_def cards_ok_def)
  moreover have "distinct (cards_out ?t) \<and> set (cards_out ?t) \<subseteq> set poker_fresh_deck"
    by (rule distinct_subset_mset) (use p(3) distinct_poker_deck in \<open>simp_all add: cards_ok_def\<close>)
  moreover have "is_action_phase (pk_phase ?t) \<longrightarrow> length (pk_community ?t) = street_cards (pk_phase ?t)" using p(6) by (simp add: acting_ok_def)
  moreover have "0 < cr_amount r \<and> cr_amount r \<le> pk_balances ?t (cr_seat r) \<and> pk_seats ?t (cr_seat r) = Some (cr_user r) \<and>
       map_option pn_amount (pk_pending ?t (cr_seat r)) = Some (cr_amount r)" if "r \<in> set (in_flight w)" for r
  proof -
    have "request_of ?t r" using core_parts(2) [OF w] that by (simp add: flight_ok_def)
    then obtain q where q: "cr_seat r < MAX_SEATS" "pk_seats ?t (cr_seat r) = Some (cr_user r)" "pk_pending ?t (cr_seat r) = Some q"
      "pn_amount q = cr_amount r" by (rule request_pending)
    then show ?thesis using p(4) unfolding pending_ok_def by auto
  qed
  ultimately show ?thesis by blast
qed

text \<open>C4. In every orderly run of a poker table, whatever debits and payouts fail or are answered too late,
  the winnings the ledger holds for a hand never exceed the bets it holds for that hand.\<close>

theorem poker_books:
  assumes "orderly_run us (opening_world now hand settings db) w" and "h \<in> set (pw_hands w)"
  shows "hand_winnings us (pw_db w) h \<le> hand_bets us (pw_db w) h"
proof -
  have w: "core_ok us w" using poker_run_ok [OF assms(1)] by (simp add: world_ok_def)
  show ?thesis using books_le [OF core_parts(4) [OF w] assms(2)] staked_nonneg [OF w] by (simp split: if_splits)
qed


section \<open>A hand that nobody plays\<close>

text \<open>What a seat's turn brings nearer to the end of the hand: the streets left, the players and the turns
  they have on this street, and the seats between the one to act and the first that has something to do.\<close>

definition open_seat :: "poker_table \<Rightarrow> nat \<Rightarrow> bool" where
  "open_seat t i \<longleftrightarrow> in_play t i \<and> \<not> pk_all_in t i \<and> (\<not> pk_acted t i \<or> pk_street t i < pk_current_bet t)"

primrec streets_left :: "poker_phase \<Rightarrow> nat" where
  "streets_left PkWaiting = 0"
| "streets_left PkPostingBlinds = 4"
| "streets_left PkPreFlop = 3"
| "streets_left PkFlop = 2"
| "streets_left PkTurn = 1"
| "streets_left PkRiver = 0"
| "streets_left PkShowdown = 0"

definition turns_left :: "poker_table \<Rightarrow> nat" where
  "turns_left t = (\<Sum>i<MAX_SEATS. if in_play t i then (if pk_acted t i then 1 else 2) else 0)"

definition open_gap :: "poker_table \<Rightarrow> nat \<Rightarrow> nat" where
  "open_gap t a =
     (if open_seat t a then 0 else if open_seat t ((a + 1) mod MAX_SEATS) then 1
      else if open_seat t ((a + 2) mod MAX_SEATS) then 2 else 3)"

definition hand_left :: "poker_table \<Rightarrow> nat" where
  "hand_left t = 100 * streets_left (pk_phase t) + 8 * turns_left t +
     (case pk_active t of None \<Rightarrow> 0 | Some a \<Rightarrow> open_gap t a)"

definition nearer :: "poker_table \<Rightarrow> poker_table \<Rightarrow> bool" where
  "nearer t t' \<longleftrightarrow> \<not> live t' \<or> is_action_phase (pk_phase t') \<and> hand_left t' < hand_left t"

lemma turns_left_le: "turns_left t \<le> 8"
proof -
  have "turns_left t \<le> (\<Sum>i<MAX_SEATS. 2)" unfolding turns_left_def by (rule sum_mono) simp
  then show ?thesis by (simp add: MAX_SEATS_def)
qed

lemma open_gap_le3: "open_gap t a \<le> 3"
  by (simp add: open_gap_def)

lemma hand_left_bounds:
  "hand_left t \<le> 100 * streets_left (pk_phase t) + 67" "100 * streets_left (pk_phase t) \<le> hand_left t"
proof -
  have "(case pk_active t of None \<Rightarrow> 0 | Some a \<Rightarrow> open_gap t a) \<le> 3" using open_gap_le3 by (simp split: option.split)
  then show "hand_left t \<le> 100 * streets_left (pk_phase t) + 67" "100 * streets_left (pk_phase t) \<le> hand_left t"
    using turns_left_le [of t] by (simp_all add: hand_left_def)
qed

lemma mod_seats: "(x mod MAX_SEATS + y) mod MAX_SEATS = (x + y) mod MAX_SEATS"
  by (rule mod_add_left_eq)

lemma open_gap_le: "open_seat t ((a + m) mod MAX_SEATS) \<Longrightarrow> a < MAX_SEATS \<Longrightarrow> open_gap t a \<le> m"
proof -
  assume o: "open_seat t ((a + m) mod MAX_SEATS)" and a: "a < MAX_SEATS"
  consider "m = 0" | "m = 1" | "m = 2" | "3 \<le> m" by linarith
  then show ?thesis using o a open_gap_le3 [of t a] by cases (auto simp: open_gap_def)
qed

lemma open_gap_at:
  assumes a: "a < MAX_SEATS" and j: "j < MAX_SEATS" "open_seat t j"
  shows "open_seat t ((a + open_gap t a) mod MAX_SEATS)"
proof -
  let ?m = "(j + MAX_SEATS - a) mod MAX_SEATS"
  have "(a + ?m) mod MAX_SEATS = j" using a j(1) by (simp add: mod_simps MAX_SEATS_def)
  then have o: "open_seat t ((a + ?m) mod MAX_SEATS)" using j(2) by simp
  have "?m = 0 \<or> ?m = 1 \<or> ?m = 2 \<or> ?m = 3" by (auto simp: MAX_SEATS_def)
  then show ?thesis using o a by (elim disjE) (auto simp: open_gap_def)
qed

lemma next_action_offset:
  assumes "next_action_after t a = Some b"
  obtains k where "1 \<le> k" "b = (a + k) mod MAX_SEATS"
    "\<And>m. 1 \<le> m \<Longrightarrow> m < k \<Longrightarrow> \<not> (in_play t ((a + m) mod MAX_SEATS) \<and> \<not> pk_all_in t ((a + m) mod MAX_SEATS))"
proof -
  obtain i where i: "i < length (seats_after a)" "b = seats_after a ! i"
    "\<forall>j < i. \<not> (in_play t (seats_after a ! j) \<and> \<not> pk_all_in t (seats_after a ! j))"
    using assms unfolding next_action_after_def find_Some_iff by blast
  have at: "seats_after a ! j = (a + (j + 1)) mod MAX_SEATS" if "j < MAX_SEATS" for j
    using that unfolding seats_after_def by (subst nth_map) (simp_all add: ac_simps del: upt_Suc)
  have l: "i < MAX_SEATS" using i(1) by (simp add: seats_after_def del: upt_Suc)
  show thesis
  proof (rule that [of "i + 1"])
    show "b = (a + (i + 1)) mod MAX_SEATS" using i(2) at [OF l] by simp
    show "\<not> (in_play t ((a + m) mod MAX_SEATS) \<and> \<not> pk_all_in t ((a + m) mod MAX_SEATS))" if "1 \<le> m" "m < i + 1" for m
      using i(3) at [of "m - 1"] that l by (auto dest!: spec [of _ "m - 1"])
  qed simp
qed

text \<open>A seat with nothing to do passes the turn towards the seat that has.\<close>

lemma open_gap_shrinks:
  assumes a: "a < MAX_SEATS" "\<not> open_seat t a" and j: "j < MAX_SEATS" "open_seat t j" and n: "next_action_after t a = Some b"
  shows "open_gap t b < open_gap t a"
proof -
  let ?g = "open_gap t a"
  have o: "open_seat t ((a + ?g) mod MAX_SEATS)" by (rule open_gap_at [OF a(1) j])
  have g: "1 \<le> ?g" using a(2) by (auto simp: open_gap_def)
  obtain k where k: "1 \<le> k" "b = (a + k) mod MAX_SEATS"
    and none: "\<And>m. 1 \<le> m \<Longrightarrow> m < k \<Longrightarrow> \<not> (in_play t ((a + m) mod MAX_SEATS) \<and> \<not> pk_all_in t ((a + m) mod MAX_SEATS))"
    using next_action_offset [OF n] by blast
  have le: "k \<le> ?g" by (rule ccontr) (use none [of ?g] g o in \<open>simp add: open_seat_def\<close>)
  have "(b + (?g - k)) mod MAX_SEATS = (a + k + (?g - k)) mod MAX_SEATS" unfolding k(2) by (rule mod_seats)
  also have "a + k + (?g - k) = a + ?g" using le by simp
  finally have "(b + (?g - k)) mod MAX_SEATS = (a + ?g) mod MAX_SEATS" .
  then have "open_gap t b \<le> ?g - k" using o by (intro open_gap_le) (simp_all add: k(2) MAX_SEATS_def)
  then show ?thesis using k(1) g by linarith
qed

text \<open>The end of a street.\<close>

lemma shown_down:
  "\<not> live (fst (back_to_waiting t))" "\<not> live (fst (finish_by_fold w t))" "\<not> live (fst (finish_showdown t))"
proof -
  show b: "\<not> live (fst (back_to_waiting t))" for t by (simp add: back_to_waiting_def clear_action_countdown_def live_def)
  show "\<not> live (fst (finish_by_fold w t))" by (simp add: finish_by_fold_def clear_action_countdown_def live_def Let_def)
  show "\<not> live (fst (finish_showdown t))" using b [of t] by (simp add: finish_showdown_def clear_action_countdown_def live_def Let_def)
qed

lemma street_end:
  assumes s: "set_first_action_for_new_street t = (t', ss)"
  shows "\<not> live t' \<or> pk_phase t' = pk_phase t"
  using s shown_down(3) [of "deal_remaining_community t"] by (auto simp: set_first_action_for_new_street_def split: if_splits)

lemma advance_street_left:
  assumes ph: "is_action_phase (pk_phase t)" and f: "advance_street t = (t', ss)"
  shows "\<not> live t' \<or> is_action_phase (pk_phase t') \<and> streets_left (pk_phase t') + 1 = streets_left (pk_phase t)"
proof -
  define u where "u = t\<lparr>pk_acted := (\<lambda>_. False), pk_street := (\<lambda>_. 0), pk_current_bet := 0,
    pk_min_raise := big_blind_of (pk_settings t)\<rparr>"
  show ?thesis
  proof (cases "pk_phase t")
    case PkPreFlop
    then have "set_first_action_for_new_street ((deal_community 3 u)\<lparr>pk_phase := PkFlop\<rparr>) = (t', ss)" using f by (simp add: advance_street_def u_def)
    from street_end [OF this] PkPreFlop show ?thesis by auto
  next
    case PkFlop
    then have "set_first_action_for_new_street ((deal_community 1 u)\<lparr>pk_phase := PkTurn\<rparr>) = (t', ss)" using f by (simp add: advance_street_def u_def)
    from street_end [OF this] PkFlop show ?thesis by auto
  next
    case PkTurn
    then have "set_first_action_for_new_street ((deal_community 1 u)\<lparr>pk_phase := PkRiver\<rparr>) = (t', ss)" using f by (simp add: advance_street_def u_def)
    from street_end [OF this] PkTurn show ?thesis by auto
  next
    case PkRiver
    then have "finish_showdown u = (t', ss)" using f by (simp add: advance_street_def u_def)
    then show ?thesis using shown_down(3) [of u] by simp
  qed (use ph in simp_all)
qed

lemma turns_same:
  assumes "in_play t' = in_play t" and "pk_all_in t' = pk_all_in t" and "pk_acted t' = pk_acted t"
    and "pk_street t' = pk_street t" and "pk_current_bet t' = pk_current_bet t"
  shows "turns_left t' = turns_left t" "open_seat t' = open_seat t" "open_gap t' = open_gap t"
    "next_action_after t' = next_action_after t"
proof -
  show "turns_left t' = turns_left t" unfolding turns_left_def assms ..
  show o: "open_seat t' = open_seat t" using assms by (intro ext) (simp add: open_seat_def)
  show "open_gap t' = open_gap t" by (intro ext) (simp add: open_gap_def o)
  show "next_action_after t' = next_action_after t" using assms by (intro ext) (simp add: next_action_after_def)
qed

lemma turn_taken:
  assumes a: "a < MAX_SEATS" "in_play t a" and n: "\<not> (pk_acted t a \<and> to_call t a = 0)"
  shows "turns_left (check_or_fold a t) < turns_left t"
  unfolding turns_left_def
proof (rule sum_strict_mono_ex1)
  show "\<forall>i \<in> {..<MAX_SEATS}. (if in_play (check_or_fold a t) i then if pk_acted (check_or_fold a t) i then 1 else 2 else 0)
      \<le> (if in_play t i then if pk_acted t i then 1 else (2::nat) else 0)"
    by (auto simp: check_or_fold_def check_seat_def fold_seat_def in_play_def)
  show "\<exists>i \<in> {..<MAX_SEATS}. (if in_play (check_or_fold a t) i then if pk_acted (check_or_fold a t) i then 1 else 2 else 0)
      < (if in_play t i then if pk_acted t i then 1 else (2::nat) else 0)"
    using a n by (intro bexI [of _ a]) (auto simp: check_or_fold_def check_seat_def fold_seat_def in_play_def)
qed simp

text \<open>The turn of a seat that checks or folds.\<close>

lemma turn_nearer:
  assumes ph: "is_action_phase (pk_phase t)" and a: "a < MAX_SEATS" "pk_active t = Some a" "in_play t a" "\<not> pk_all_in t a"
    and t1: "t1 = check_or_fold a t" and f: "advance_after_action a t1 = (t', ss)"
  shows "nearer t t'"
proof -
  have ph1: "is_action_phase (pk_phase t1)" "streets_left (pk_phase t1) = streets_left (pk_phase t)"
    using ph by (simp_all add: t1 check_or_fold_def check_seat_def fold_seat_def)
  consider "active_player_indices t1 = []" | w where "active_player_indices t1 = [w]" | x y ys where "active_player_indices t1 = x # y # ys"
    by (metis neq_Nil_conv)
  then show ?thesis
  proof cases
    case 1
    then show ?thesis using f shown_down(1) [of t1] by (simp add: advance_after_action_def nearer_def)
  next
    case 2
    then show ?thesis using f shown_down(2) [of w t1] by (simp add: advance_after_action_def nearer_def)
  next
    case 3
    show ?thesis
    proof (cases "street_complete t1")
      case True
      have "finish_showdown (deal_remaining_community t1) = (t', ss) \<or> advance_street t1 = (t', ss)"
        using f 3 True by (auto simp: advance_after_action_def split: if_splits)
      then show ?thesis
      proof
        assume "finish_showdown (deal_remaining_community t1) = (t', ss)"
        then show ?thesis using shown_down(3) [of "deal_remaining_community t1"] by (simp add: nearer_def)
      next
        assume "advance_street t1 = (t', ss)"
        from advance_street_left [OF ph1(1) this] show ?thesis
          using hand_left_bounds [of t] hand_left_bounds [of t'] ph1(2) by (auto simp: nearer_def)
      qed
    next
      case False
      then obtain j where j: "j < MAX_SEATS" "open_seat t1 j"
        using 3 active_players [of t1] by (auto simp: street_complete_def list_all_iff open_seat_def not_le)
      then obtain b where b: "next_action_after t1 a = Some b" using next_action_None [of t1 a] by (cases "next_action_after t1 a") (auto simp: open_seat_def)
      have t': "t' = t1\<lparr>pk_active := Some b\<rparr>" using f 3 False b by (simp add: advance_after_action_def)
      have same: "turns_left t' = turns_left t1" "open_gap t' b = open_gap t1 b" "pk_phase t' = pk_phase t1"
        using turns_same [of t' t1] in_play_same(1) [of t' t1] by (simp_all add: t')
      have left: "hand_left t' = 100 * streets_left (pk_phase t) + 8 * turns_left t1 + open_gap t1 b"
        "hand_left t = 100 * streets_left (pk_phase t) + 8 * turns_left t + open_gap t a"
        using ph1(2) same a(2) by (simp_all add: hand_left_def t')
      have "8 * turns_left t1 + open_gap t1 b < 8 * turns_left t + open_gap t a"
      proof (cases "pk_acted t a \<and> to_call t a = 0")
        case True
        have "pk_current_bet t \<le> pk_street t a" using True by (auto simp: to_call_def sat_i64_def max_def min_def split: if_splits)
        then have "\<not> open_seat t a" using True by (simp add: open_seat_def)
        moreover have e: "open_seat t1 = open_seat t" "next_action_after t1 a = next_action_after t a" "turns_left t1 = turns_left t"
        proof -
          have c: "t1 = check_seat a t" using True by (simp add: t1 check_or_fold_def)
          then have "pk_acted t1 = pk_acted t" using True by (intro ext) (simp add: check_seat_def)
          then show "open_seat t1 = open_seat t" "next_action_after t1 a = next_action_after t a" "turns_left t1 = turns_left t"
            using turns_same [of t1 t] in_play_same(1) [of t1 t] by (simp_all add: c check_seat_def)
        qed
        ultimately have "open_gap t b < open_gap t a" using open_gap_shrinks [OF a(1) _ j(1), of t b] j(2) b by simp
        moreover have "open_gap t1 b = open_gap t b" by (simp add: open_gap_def e)
        ultimately show ?thesis using e by simp
      next
        case False
        have "turns_left t1 < turns_left t" unfolding t1 by (rule turn_taken [OF a(1,3) False])
        then show ?thesis using open_gap_le3 [of t1 b] by linarith
      qed
      then show ?thesis using left ph1(1) same(3) by (simp add: nearer_def)
    qed
  qed
qed

lemma hand_left_same:
  assumes "in_play t' = in_play t" and "pk_all_in t' = pk_all_in t" and "pk_acted t' = pk_acted t"
    and "pk_street t' = pk_street t" and "pk_current_bet t' = pk_current_bet t" and "pk_phase t' = pk_phase t" and "pk_active t' = pk_active t"
  shows "hand_left t' = hand_left t"
  by (simp only: hand_left_def turns_same [OF assms(1-5)] assms(6,7))

text \<open>The turn as it is taken after the clock of the seat was stopped.\<close>

lemma stopped_turn_nearer:
  assumes t: "poker_ok t" and ph: "is_action_phase (pk_phase t)" and a: "pk_active t = Some a" and s: "same_play t t0"
    and same: "pk_folded t0 = pk_folded t" "pk_all_in t0 = pk_all_in t" "pk_acted t0 = pk_acted t" "pk_street t0 = pk_street t"
      "pk_current_bet t0 = pk_current_bet t" "pk_active t0 = pk_active t"
    and f: "advance_after_action a (check_or_fold a t0) = (t', ss)"
  shows "nearer t t'"
proof -
  have p: "in_play t0 = in_play t" by (rule in_play_same(1)) (use s same in \<open>simp_all add: same_play_def\<close>)
  have "hand_left t0 = hand_left t" by (rule hand_left_same) (use p s same in \<open>simp_all add: same_play_def\<close>)
  moreover have "a < MAX_SEATS" "in_play t a" "\<not> pk_all_in t a" using table_parts(6) [OF t ph] a by (auto simp: acting_ok_def)
  then have "nearer t0 t'" using ph a p s same by (intro turn_nearer [OF _ _ _ _ _ refl f]) (simp_all add: same_play_def)
  ultimately show ?thesis by (simp add: nearer_def)
qed

lemma nearer_trans: "nearer t t1 \<Longrightarrow> is_action_phase (pk_phase t1) \<Longrightarrow> nearer t1 t2 \<Longrightarrow> nearer t t2"
  by (auto simp: nearer_def live_def)

lemma auto_rounds_nearer:
  "poker_ok t \<Longrightarrow> is_action_phase (pk_phase t) \<Longrightarrow> auto_rounds n t = (t', ss) \<Longrightarrow> t' = t \<or> nearer t t'"
proof (induction n arbitrary: t)
  case (Suc n)
  obtain i where i: "pk_active t = Some i" using table_parts(6) [OF Suc.prems(1,2)] by (auto simp: acting_ok_def)
  show ?case
  proof (cases "pk_settling t \<or> \<not> pk_auto t i \<or> pk_pending t i \<noteq> None \<or> length (pk_hole t i) \<noteq> 2 \<or> pk_folded t i \<or> pk_all_in t i")
    case True
    then show ?thesis using Suc.prems(2,3) i by (auto split: if_splits)
  next
    case False
    obtain t1 ss1 where a: "advance_after_action i (check_or_fold i (clear_action_countdown t)) = (t1, ss1)" by fastforce
    have near: "nearer t t1" by (rule stopped_turn_nearer [OF Suc.prems(1,2) i _ _ _ _ _ _ _ a])
        (simp_all add: same_play_def clear_action_countdown_def)
    have r: "(if ss1 \<noteq> [] then (t1, ss1) else auto_rounds n t1) = (t', ss)" using Suc.prems(2,3) i False a by simp
    show ?thesis
    proof (cases "ss1 = [] \<and> is_action_phase (pk_phase t1)")
      case True
      have "same_play t (check_or_fold i (clear_action_countdown t))" by (rule same_play_trans [of t "clear_action_countdown t"]) simp_all
      moreover have "pending_seats t = {}" using active_pending [OF Suc.prems(1,2) i] False by simp
      ultimately have "table_step t t1 ss1" using a by (intro action_step [OF Suc.prems(1,2)])
      then have "poker_ok t1" by (simp add: table_step_def)
      with True r have "t' = t1 \<or> nearer t1 t'" by (intro Suc.IH) simp_all
      then show ?thesis using near nearer_trans [OF near] True by auto
    next
      case False
      then have "t' = t1" using r by (cases n) (auto split: if_splits)
      then show ?thesis using near by simp
    qed
  qed
qed simp

lemma tail_nearer:
  assumes t: "poker_ok t" and near: "nearer t0 t" and f: "apply_auto_check_folds_and_start_countdown now t = (t', ss, c)"
  shows "nearer t0 t'"
proof -
  obtain t1 ss1 where a: "apply_auto_check_folds t = (t1, ss1)" by (meson surj_pair)
  have b: "start_action_countdown_if_needed now t1 = (t', c)" using f a
    by (auto simp: apply_auto_check_folds_and_start_countdown_def split: prod.splits)
  have ne: "nearer t0 t1"
  proof (cases "is_action_phase (pk_phase t)")
    case True
    then show ?thesis using auto_rounds_nearer [OF t True] a near nearer_trans [OF near True] by (auto simp: apply_auto_check_folds_def)
  next
    case False
    then have "t1 = t" using a by (simp add: apply_auto_check_folds_def MAX_SEATS_def numeral_eq_Suc)
    then show ?thesis using near by simp
  qed
  have same: "pk_seats t' = pk_seats t1 \<and> pk_hole t' = pk_hole t1 \<and> pk_folded t' = pk_folded t1 \<and> pk_all_in t' = pk_all_in t1 \<and>
      pk_acted t' = pk_acted t1 \<and> pk_street t' = pk_street t1 \<and> pk_current_bet t' = pk_current_bet t1 \<and>
      pk_phase t' = pk_phase t1 \<and> pk_active t' = pk_active t1"
    using b by (auto simp: start_action_countdown_if_needed_def clear_action_countdown_def Let_def split: if_splits option.splits)
  then have "hand_left t' = hand_left t1" by (intro hand_left_same in_play_same(1)) simp_all
  then show ?thesis using ne same by (simp add: nearer_def live_def)
qed

text \<open>The clock of the seat to act runs out, at its deadline.\<close>

definition clock_expires :: "poker_table \<Rightarrow> poker_table" where
  "clock_expires t =
     fst (action_timeout (case pk_deadline t of None \<Rightarrow> 0 | Some d \<Rightarrow> d) (pk_countdown_id t) t)"

lemma expiry_nearer:
  assumes t: "poker_ok t" and ph: "is_action_phase (pk_phase t)" and none: "pending_seats t = {}" and c: "clock_ok t"
  shows "poker_ok (clock_expires t)" "clock_ok (clock_expires t)" "pending_seats (clock_expires t) = {}" "nearer t (clock_expires t)"
proof -
  obtain a where a: "a < MAX_SEATS" "pk_active t = Some a" using table_parts(6) [OF t ph] by (auto simp: acting_ok_def)
  have p: "pk_pending t a = None" using none a(1) by (auto simp: pending_seats_def)
  then obtain d where d: "pk_deadline t = Some d" "pk_countdown_seat t = Some a" using c ph a by (auto simp: clock_ok_def)
  have m: "action_countdown_matches t (pk_countdown_id t)" using ph a d by (simp add: action_countdown_matches_def)
  define t0 where "t0 = (let t = clear_action_countdown t; t = t\<lparr>pk_missed := (pk_missed t)(a := min (pk_missed t a + 1) 255)\<rparr>
    in if MAX_MISSED_ACTIONS \<le> pk_missed t a then t\<lparr>pk_leaving := (pk_leaving t)(a := True)\<rparr> else t)"
  have t0: "same_play t t0 \<and> pk_folded t0 = pk_folded t \<and> pk_all_in t0 = pk_all_in t \<and> pk_acted t0 = pk_acted t \<and>
      pk_street t0 = pk_street t \<and> pk_current_bet t0 = pk_current_bet t \<and> pk_active t0 = pk_active t"
    by (simp add: t0_def Let_def same_play_def clear_action_countdown_def)
  obtain t1 ss where f: "advance_after_action a (check_or_fold a t0) = (t1, ss)" by fastforce
  have "timeout_active_action (pk_countdown_id t) t = (case advance_after_action a (check_or_fold a t0) of (t, s) \<Rightarrow> (t, Some s))"
    using m a by (simp add: timeout_active_action_def t0_def Let_def)
  then have e: "timeout_active_action (pk_countdown_id t) t = (t1, Some ss)" by (simp add: f)
  obtain t2 ss2 x where g: "apply_auto_check_folds_and_start_countdown d t1 = (t2, ss2, x)" by (metis surj_pair)
  have r: "clock_expires t = t2" using m d by (simp add: clock_expires_def action_timeout_def action_countdown_remaining_def e with_auto_def g)
  have s1: "table_step t t1 ss" using timeout_step [OF t e] by simp
  then have ok1: "poker_ok t1" by (simp add: table_step_def)
  have s2: "table_step t t2 (ss @ ss2)" by (rule table_step_trans [OF s1 tail_step [OF ok1 g]])
  show "poker_ok (clock_expires t)" using s2 by (simp add: r table_step_def)
  show "clock_ok (clock_expires t)" using tail_clock [OF ok1 g] by (simp add: r)
  show "pending_seats (clock_expires t) = {}" using s2 none by (auto simp: r table_step_def pending_seats_def)
  have "nearer t t1" by (rule stopped_turn_nearer [OF t ph a(2) _ _ _ _ _ _ _ f]) (use t0 in simp_all)
  then show "nearer t (clock_expires t)" unfolding r by (rule tail_nearer [OF ok1 _ g])
qed

lemma expiries_end:
  "poker_ok t \<Longrightarrow> is_action_phase (pk_phase t) \<Longrightarrow> pending_seats t = {} \<Longrightarrow> clock_ok t \<Longrightarrow>
     \<exists>n. \<not> live ((clock_expires ^^ n) t)"
proof (induction "hand_left t" arbitrary: t rule: less_induct)
  case less
  note e = expiry_nearer [OF less.prems]
  show ?case
  proof (cases "live (clock_expires t)")
    case False
    then show ?thesis by (intro exI [of _ 1]) simp
  next
    case True
    then have "is_action_phase (pk_phase (clock_expires t))" "hand_left (clock_expires t) < hand_left t" using e(4) by (simp_all add: nearer_def)
    from less.hyps [OF this(2) e(1) this(1) e(3,2)] obtain n where "\<not> live ((clock_expires ^^ n) (clock_expires t))" by blast
    then show ?thesis by (intro exI [of _ "Suc n"]) (simp add: funpow_swap1)
  qed
qed

text \<open>C6. A hand never hangs. In every orderly run of a poker table, while blinds are posted a debit is under
  way; while seats act, the seat to act is in play with chips behind, and when no debit is under way the
  hand ends even if nobody plays: some number of expiries of the clock finishes it; and while the table is
  settling its payout task is there.\<close>

theorem poker_never_stuck:
  assumes "orderly_run us (opening_world now hand settings db) w"
  shows "(pk_phase (pw_table w) = PkPostingBlinds \<longrightarrow> in_flight w \<noteq> []) \<and>
    (is_action_phase (pk_phase (pw_table w)) \<longrightarrow>
       (\<exists>a < MAX_SEATS. pk_active (pw_table w) = Some a \<and> in_play (pw_table w) a \<and> \<not> pk_all_in (pw_table w) a) \<and>
       (in_flight w = [] \<longrightarrow> (\<exists>n. \<not> live ((clock_expires ^^ n) (pw_table w))))) \<and>
    (pk_settling (pw_table w) \<longrightarrow> pw_paying w \<noteq> [])"
proof -
  let ?t = "pw_table w"
  have w: "core_ok us w" "clock_ok ?t" using poker_run_ok [OF assms] by (simp_all add: world_ok_def)
  note p = core_parts [OF w(1)]
  have "in_flight w \<noteq> []" if "pk_phase ?t = PkPostingBlinds"
    using table_parts(5) [OF p(1) that] no_flight [OF p(2)] by (auto simp: posting_ok_def)
  moreover have "\<exists>a < MAX_SEATS. pk_active ?t = Some a \<and> in_play ?t a \<and> \<not> pk_all_in ?t a" if "is_action_phase (pk_phase ?t)"
    using table_parts(6) [OF p(1) that] by (auto simp: acting_ok_def)
  moreover have "\<exists>n. \<not> live ((clock_expires ^^ n) ?t)" if "is_action_phase (pk_phase ?t)" "in_flight w = []"
    using expiries_end [OF p(1) that(1) _ w(2)] no_flight [OF p(2)] that(2) by blast
  moreover have "pw_paying w \<noteq> []" if "pk_settling ?t" using p(3) that by (auto simp: paying_ok_def)
  ultimately show ?thesis by blast
qed


section \<open>Concrete runs\<close>

text \<open>A script of steps that each take the oldest debit, answer or payout; it is a run of the relation.\<close>

datatype run_move = MoveCall int table_call | MoveDebit | MoveLand int | MovePay | MovePaid

lemma pending_seats_code [code]: "pending_seats t = set (filter (\<lambda>i. pk_pending t i \<noteq> None) [0..<MAX_SEATS])"
  by (auto simp: pending_seats_def)

definition script_move ::
  "(poker_world \<Rightarrow> table_call \<Rightarrow> bool) \<Rightarrow> (uuid \<Rightarrow> string) \<Rightarrow> run_move \<Rightarrow> poker_world \<Rightarrow> poker_world option" where
  "script_move ok us m w =
     (case m of
        MoveCall now c \<Rightarrow>
          if ok w c then Some (pass (serve now c (pw_table w)) (w\<lparr>pw_hands := hands_after c (pw_hands w)\<rparr>)) else None
      | MoveDebit \<Rightarrow>
          (case pw_asked w of
             [] \<Rightarrow> None
           | r # rs \<Rightarrow> (case commit_debit us (pw_db w) r of (db, result) \<Rightarrow>
               Some (w\<lparr>pw_db := db, pw_asked := remove1 r (pw_asked w), pw_known := pw_known w @ [(r, result)]\<rparr>)))
      | MoveLand now \<Rightarrow>
          (case pw_known w of
             [] \<Rightarrow> None
           | (r, result) # rs \<Rightarrow> Some (pass (commit_landed now r result (pw_table w))
               (w\<lparr>pw_known := remove1 (r, result) (pw_known w)\<rparr>)))
      | MovePay \<Rightarrow>
          (case pw_paying w of
             [] \<Rightarrow> None
           | p # qs \<Rightarrow> (case pt_left p of
               [] \<Rightarrow> None
             | s # ss \<Rightarrow> (case persist_settlement us (pw_db w) s of (db, update) \<Rightarrow>
                 Some (w\<lparr>pw_db := db, pw_paying := payout_next update p # qs\<rparr>))))
      | MovePaid \<Rightarrow>
          (case pw_paying w of
             [] \<Rightarrow> None
           | p # qs \<Rightarrow>
               if pt_left p = [] then Some (w\<lparr>pw_table := payout_finish p (pw_table w), pw_paying := qs\<rparr>) else None))"

fun script_moves ::
  "(poker_world \<Rightarrow> table_call \<Rightarrow> bool) \<Rightarrow> (uuid \<Rightarrow> string) \<Rightarrow> run_move list \<Rightarrow> poker_world \<Rightarrow> poker_world option" where
  "script_moves ok us [] w = Some w"
| "script_moves ok us (m # ms) w = Option.bind (script_move ok us m w) (script_moves ok us ms)"

lemma script_move_step:
  assumes f: "script_move ok us m w = Some w'"
  shows "poker_step ok us w w'"
proof (cases m)
  case (MoveCall now c)
  then show ?thesis using f by (auto simp: script_move_def split: if_splits intro: step_call)
next
  case MoveDebit
  then obtain r rs where a: "pw_asked w = r # rs" using f by (auto simp: script_move_def split: list.splits)
  obtain db result where d: "commit_debit us (pw_db w) r = (db, result)" by fastforce
  have "w' = w\<lparr>pw_db := db, pw_asked := remove1 r (pw_asked w), pw_known := pw_known w @ [(r, result)]\<rparr>"
    using f MoveDebit a d by (simp add: script_move_def)
  then show ?thesis using step_debit [OF _ d] a by simp
next
  case (MoveLand now)
  then obtain r result rs where k: "pw_known w = (r, result) # rs" using f by (auto simp: script_move_def split: list.splits)
  have "w' = pass (commit_landed now r result (pw_table w)) (w\<lparr>pw_known := remove1 (r, result) (pw_known w)\<rparr>)"
    using f MoveLand k by (simp add: script_move_def)
  then show ?thesis using step_land [of r result w ok us now] k by simp
next
  case MovePay
  then obtain p qs s ss where p: "pw_paying w = [] @ p # qs" "pt_left p = s # ss"
    using f by (auto simp: script_move_def split: list.splits)
  obtain db update where d: "persist_settlement us (pw_db w) s = (db, update)" by fastforce
  have "w' = w\<lparr>pw_db := db, pw_paying := [] @ payout_next update p # qs\<rparr>" using f MovePay p d by (simp add: script_move_def)
  then show ?thesis using step_pay [OF p d] by simp
next
  case MovePaid
  then obtain p qs where p: "pw_paying w = [] @ p # qs" "pt_left p = []" using f by (auto simp: script_move_def split: list.splits if_splits)
  have "w' = w\<lparr>pw_table := payout_finish p (pw_table w), pw_paying := [] @ qs\<rparr>" using f MovePaid p by (simp add: script_move_def)
  then show ?thesis using step_paid [OF p] by simp
qed

lemma script_moves_run: "script_moves ok us ms w = Some w' \<Longrightarrow> (poker_step ok us)\<^sup>*\<^sup>* w w'"
proof (induction ms arbitrary: w)
  case (Cons m ms)
  then obtain w1 where "script_move ok us m w = Some w1" "script_moves ok us ms w1 = Some w'" by (auto simp: bind_eq_Some_conv)
  then show ?case using Cons.IH converse_rtranclp_into_rtranclp script_move_step by metis
qed simp

definition played :: "(poker_world \<Rightarrow> table_call \<Rightarrow> bool) \<Rightarrow> (uuid \<Rightarrow> string) \<Rightarrow> run_move list \<Rightarrow> poker_world \<Rightarrow> poker_world" where
  "played ok us ms w = the (script_moves ok us ms w)"

lemma played_run: "map_option (\<lambda>_. ()) (script_moves ok us ms w) = Some () \<Longrightarrow> (poker_step ok us)\<^sup>*\<^sup>* w (played ok us ms w)"
  by (auto simp: played_def intro: script_moves_run)

text \<open>Two or three players, a hand with its blinds posted, and the rows of that hand.\<close>

definition demo_ref :: "uuid \<Rightarrow> string" where
  "demo_ref h = (if h = 7 then ''7'' else ''0'')"

definition demo_players :: "uuid list \<Rightarrow> poker_world" where
  "demo_players us =
     opening_world 0 0 default_settings
       \<lparr>db_users = set us, db_chips = (\<lambda>u. if u \<in> set us then Some \<lparr>uc_balance = 5000, uc_last_stipend_date = None\<rparr> else None),
        db_ledger = [], db_now = 0\<rparr>"

definition demo_blinds :: "uuid list \<Rightarrow> run_move list" where
  "demo_blinds us =
     map (\<lambda>u. MoveCall 0 (CallSit u 5000)) us @
     [MoveCall 0 (CallStart (\<lambda>_. 0) 7 (hd us)), MoveDebit, MoveDebit, MoveLand 0, MoveLand 0]"

definition demo_preflop :: poker_world where
  "demo_preflop = played (orderly demo_ref) demo_ref (demo_blinds [1, 2]) (demo_players [1, 2])"

lemma demo_preflop_run: "orderly_run demo_ref (demo_players [1, 2]) demo_preflop"
  unfolding demo_preflop_def by (rule played_run) code_simp

definition demo_folded :: poker_world where
  "demo_folded = played (orderly demo_ref) demo_ref
     (demo_blinds [1, 2] @ [MoveCall 0 (CallFold 1), MovePay, MovePay, MovePaid]) (demo_players [1, 2])"

lemma demo_folded_run: "orderly_run demo_ref (demo_players [1, 2]) demo_folded"
  unfolding demo_folded_def by (rule played_run) code_simp

theorem poker_table_safe_witness:
  "one_seat_each (pk_seats (pw_table demo_preflop)) \<and> distinct (cards_out (pw_table demo_preflop)) \<and>
   length (cards_out (pw_table demo_preflop)) = 52 \<and> pk_balances (pw_table demo_preflop) 1 = 980"
proof (intro conjI)
  note s = poker_table_safe [OF demo_preflop_run [unfolded demo_players_def]]
  show "one_seat_each (pk_seats (pw_table demo_preflop))" "distinct (cards_out (pw_table demo_preflop))" using s by simp_all
  show "length (cards_out (pw_table demo_preflop)) = 52" "pk_balances (pw_table demo_preflop) 1 = 980" by code_simp+
qed

theorem poker_books_witness:
  "hand_winnings demo_ref (pw_db demo_folded) 7 \<le> hand_bets demo_ref (pw_db demo_folded) 7 \<and>
   hand_winnings demo_ref (pw_db demo_folded) 7 = 30"
proof
  have "7 \<in> set (pw_hands demo_folded)" by code_simp
  then show "hand_winnings demo_ref (pw_db demo_folded) 7 \<le> hand_bets demo_ref (pw_db demo_folded) 7"
    by (rule poker_books [OF demo_folded_run [unfolded demo_players_def]])
  show "hand_winnings demo_ref (pw_db demo_folded) 7 = 30" by code_simp
qed

theorem poker_never_stuck_witness:
  "pk_active (pw_table demo_preflop) = Some 0 \<and> (\<exists>n. \<not> live ((clock_expires ^^ n) (pw_table demo_preflop)))"
proof
  show "pk_active (pw_table demo_preflop) = Some 0" by code_simp
  have "is_action_phase (pk_phase (pw_table demo_preflop))" "in_flight demo_preflop = []" by code_simp+
  then show "\<exists>n. \<not> live ((clock_expires ^^ n) (pw_table demo_preflop))"
    using poker_never_stuck [OF demo_preflop_run [unfolded demo_players_def]] by blast
qed



end
