(* ===== verification/Spec2Isabelle.thy ===== *)
theory Spec2Isabelle
  imports Prelude Policy ChipMove ChipLedger Roster Connect4 Reversi Battleship Cards StdDeck Briscola Checkers
    HandsMatch CribbageCount Cribbage CribbageMatch GinMelds Gin GinMatch DailyMatch Backgammon GamePayout DailyEngines DailyCards DailySvc DailyRuns
    PokerHand PokerTable PokerPots PokerRules PokerRuns
begin

text \<open>
  \<^bold>\<open>late.sh, the rules and the money.\<close> late.sh is an SSH clubhouse: a chat, correspondence games, arcade
  games and a chip economy behind one terminal application (\<open>late-ssh\<close>), over PostgreSQL (\<open>late-core\<close>).
  This development models the part of it that decides things: who may do what to whom, what a chip
  movement writes, what a stored match may become, what a legal move of each correspondence
  game is, and how a hand is played and paid at the poker table. Terminal drawing, network I/O, and the programs the clubhouse only hosts are left out.

  \<^bold>\<open>How the parts interact.\<close> A moderation command asks \<open>Policy\<close> whether an actor may act on a target.
  A daily match is a row of \<open>daily_matches\<close> (\<open>DailyMatch\<close>): a challenge is created open, claimed once,
  written move by move under a revision compare-and-swap, and finished, cancelled or forfeited. Its
  \<open>state\<close> column holds the JSON of one of the rules engines (\<open>Connect4\<close>, \<open>Reversi\<close>, \<open>Battleship\<close>,
  \<open>Briscola\<close>, \<open>Checkers\<close>, \<open>Backgammon\<close>, \<open>Cribbage\<close>, \<open>Gin\<close>), named by the roster of games (\<open>Roster\<close>). The
  daily match service loads a row, asks the engine (\<open>DailyEngines\<close>, \<open>DailyCards\<close>), writes the decided state back
  and, when the match is over, pays the winner (\<open>DailySvc\<close>): under the reward template of the game and behind the once-only keys of
  the match and of its pair and day (\<open>GamePayout\<close>), by the chip move the roster names (\<open>ChipMove\<close>), through
  the accounts and the ledger (\<open>ChipLedger\<close>). \<open>DailyRuns\<close> lets any number of these calls interleave.
  The poker table is a room of its own: its state is behind one lock, its tasks debit bets and pay winnings
  through the same accounts between two locks (\<open>PokerTable\<close>, \<open>PokerRuns\<close>, \<open>ChipLedger\<close>, \<open>GamePayout\<close>).

  \<^bold>\<open>Theories.\<close>
  \<^item> \<open>Prelude\<close>: \<open>res\<close>, the outcome of a fallible Rust function (value, error, panic), with \<open>ensure\<close> and
    \<open>expect\<close>; integer casts and decimal printing; boards and their row-major scans; replays
    (\<open>fold_opt\<close>); and the interfaces \<open>code_table\<close> (an enum stored as text), \<open>rules_engine\<close> and
    \<open>logged_engine\<close> (a stored game whose accepted moves keep an invariant, never panic and only append
    to the history), \<open>two_sides\<close> (the two seats of a match and their users).
  \<^item> \<open>Policy\<close> (\<open>late-ssh/src/moderation/policy.rs\<close>): tiers as a linear order, capability sets as the
    64-bit words of \<open>bitflags!\<close>, and every decision function. Its lemmas give the whole decision as one
    condition, the monotonicity in the tier and in the standing, and the strict dominance of the actor.
  \<^item> \<open>ChipMove\<close>, \<open>ChipLedger\<close> (\<open>late-core/src/models/chips.rs\<close>): the roster of chip moves with its
    spelling tables, and every \<open>UserChips\<close> operation over explicit \<open>user_chips\<close> and \<open>chip_ledger\<close>
    tables. A statement is one atomic update; an operation that fails returns no tables, since its
    transaction rolls back. The lemmas show that the ledger explains every balance change, that the
    transfers conserve chips and that a guarded debit never leaves less than its floor.
  \<^item> \<open>Roster\<close> (\<open>late-ssh/src/app/lobby/daily/games.rs\<close>): the games, labels, payouts and chip moves.
  \<^item> \<open>DailyMatch\<close> (\<open>late-core/src/models/daily_match.rs\<close>): the SQL statements on a match row with their
    NULL semantics, the step relation \<open>match_step\<close> of a row's life, and the revision guard.
  \<^item> \<open>Connect4\<close>, \<open>Reversi\<close>, \<open>Battleship\<close>, \<open>Briscola\<close>, \<open>Checkers\<close>
    (\<open>late-ssh/src/app/lobby/daily/\<close>, files of those names): each stored state is a record, the board or
    table is derived by replaying its history as the code does, and \<open>apply_*\<close> returns the new state with
    the outcome shown to the players. Each has the specification of a legal move (a bracketed run of
    discs, four in a line, a maximal jump chain, the winner of a trick) proved equivalent to the code's
    search, the exact effect of a move, and a session theorem: from a fresh match, whatever is
    submitted, no move panics and the stored history stays replayable.
  \<^item> \<open>Backgammon\<close> (\<open>late-ssh/src/app/lobby/daily/backgammon.rs\<close>): the stored turns and roll, the search for the
    longest sequences of hops, the turn with its error branches and the roll that passes for a blocked
    player. Its lemmas show that the legal turns are exactly the maximal plays of the rules, that the
    roll ends and leaves a player with a move or a finished match, and the exact effect of a turn.
  \<^item> \<open>HandsMatch\<close>: the interface of a card match played in hands, \<open>dealt_match\<close> (the replay of stored deals and moves, with the
    laws of its step and its deal) and \<open>stored_match\<close> (the stored state, its moves and its deals), from which
    follow the invariant of the state, its engine, and that every state with the invariant was played.
    Cribbage and gin are its instances.
  \<^item> \<open>CribbageCount\<close>, \<open>Cribbage\<close>, \<open>CribbageMatch\<close> (\<open>late-ssh/src/app/lobby/daily/cribbage.rs\<close>): the count of a
    hand over the masks of five cards and the points of a pegged card, each proved to be what the rules say;
    then the table (discard, pegging with its go, show, the race to 61) with the invariant of a hand; then
    the stored match: its books, its end, and that the documents read back are the played matches.
  \<^item> \<open>GinMelds\<close>, \<open>Gin\<close>, \<open>GinMatch\<close> (\<open>late-ssh/src/app/lobby/daily/gin.rs\<close>): the search for melds over 16-bit masks,
    proved optimal over all families of disjoint melds, and laying off; the table (draw, throw, knock, the
    dead hand, the race to 100) with the invariant of a hand; the stored match, what a knock pays, and the
    documents. A hand of gin has no bound: both players may draw from the discard pile for ever.
  \<^item> \<open>GamePayout\<close> (\<open>late-core/src/models/game_payout.rs\<close>, \<open>late-core/src/models/reward.rs\<close> and the credits of
    \<open>late-ssh/src/app/games/chips/svc.rs\<close>): the claim rows under their constraints, the once-only and
    cooldown gates, the templates and every credit. The lemmas show that a grant is all or nothing, that
    a gate stays shut, and that the books stay balanced.
  \<^item> \<open>DailyEngines\<close>, \<open>DailyCards\<close> (\<open>late-ssh/src/app/lobby/daily/svc.rs\<close>, the \<open>play_*\<close> methods up to their first write): each
    game's move as a decision (the card games of several hands deal the next hand within it), and the interface \<open>daily_rules\<close> (a legal document, a player on the clock,
    no panic, a legal document again or a winner who plays) with every engine an instance of it.
  \<^item> \<open>DailySvc\<close>, \<open>DailyRuns\<close> (the rest of that file): challenges, claims, the move prelude and channels, the
    conditional write, resignations, the sweeper, the payout and the broadcasts over a world of tables
    and broadcasts; then \<open>svc_step\<close>, one statement of one of any number of calls under way, lost calls
    included, with its invariant. The lemmas show that a match ends and pays once, that running
    matches stay playable, and that the service refines the life of a match.
  \<^item> \<open>Cards\<close>, \<open>StdDeck\<close> (\<open>late-ssh/src/app/games/cards.rs\<close>, \<open>late-ssh/src/app/lobby/daily/std_deck.rs\<close>): the faces,
    the numbered deck, the Fisher-Yates shuffle and the whole-deck check, through the interface
    \<open>card_codec\<close>.

  \<^item> \<open>PokerHand\<close> (\<open>late-ssh/src/app/lobby/house/poker/svc.rs\<close>, the hand evaluation, the deck and the shuffle): the value
    of five to seven cards, proved to be the greatest value that any five of them show.
  \<^item> \<open>PokerTable\<close> (\<open>settings.rs\<close> of the same directory, and \<open>SharedState\<close> in its \<open>svc.rs\<close>): the record behind the lock and every
    operation on it, from the deal to the settlements, with the public and the private snapshot. \<open>PokerPots\<close>
    holds what a showdown pays: the side pots of the code against the stakes that were matched.
  \<^item> \<open>PokerRules\<close>: the invariant \<open>poker_ok\<close> of the table and, for each operation, what it keeps and what it
    settles (\<open>table_step\<close>, \<open>commit_made\<close>, \<open>commit_applied\<close>, \<open>hand_started\<close>); what the snapshots hide.
  \<^item> \<open>PokerRuns\<close> (\<open>PokerService\<close>): the tasks, the debits and the payouts, as the step relation \<open>poker_step\<close> of a world of the table, the
    chip tables and the tasks under way, where debits and payouts may fail or be answered too late. Its
    properties hold of the runs whose calls are \<open>orderly\<close>: no seat leaves while a debit is under way,
    a client's balance is only read again between hands, hand ids are fresh. Two concrete runs show what
    goes wrong: a hand paid twice when the first condition is dropped, and, with every condition, a pot
    that nobody is paid.

  \<^bold>\<open>Parameters.\<close> Code outside the repository is an argument of the definitions: the raw draws of the
  \<open>rand\<close> crate (a coin, a list of naturals reduced to the requested range), the value serde decodes
  from a JSON document (an option, \<open>None\<close> for a corrupt document), the text of a UUID, and the text
  that PostgreSQL's \<open>->>\<close> reads at the key \<open>revision\<close>. Clock readings are integers, read anew by each
  statement that reads one. \<open>DailySvc.svc_env\<close> collects what the service takes from outside; its last two
  fields stand for the games without a model here (\<open>en_chess\<close> decides a chess move, \<open>en_deal\<close> opens chess
  and pool). \<open>DailySvc.env_ok\<close> asks that a written state reads back and that those games keep
  the contract \<open>daily_rules\<close>; \<open>DailyRuns.demo_env\<close> is an environment that does.

  \<^bold>\<open>Bounds and fuel.\<close> Loops are structural recursion or recursion with a termination proof (the
  capture search of checkers removes a square from those left to jump). \<open>Reversi.rv_line\<close> walks one
  ray with fuel 8; lemma \<open>rv_line_fuel\<close> shows that a larger fuel gives the same run, because a ray leaves the
  board within eight steps. \<open>usize\<close> values that count list elements or board indices are naturals;
  \<open>u8\<close> casts wrap (\<open>as_u8\<close>); balances are integers with the \<open>BIGINT\<close> range checked where the database
  checks it; the revision cast checks the same range. At the poker table an \<open>i64\<close> is an integer, with the
  saturation of the \<open>saturating\<close> operations written out and the stacks proved to stay in range; ids and generations are
  64-bit words. \<open>deal_remaining_community\<close> is the \<open>while\<close> combinator; lemma \<open>deal_remaining_on\<close> shows that it ends, because the stock
  has the cards. \<open>auto_rounds\<close> counts the sixteen rounds of the code's own loop. The measure
  \<open>hand_left\<close> (streets, turns of the street, seats to the next turn) falls at every expiry of the clock.

  \<^bold>\<open>Left out.\<close> The lobby snapshot and the aim broadcast of the daily service, its worker tasks and the
  chat rooms it creates; chess and the pool games; blackjack and the other real-time house tables (of poker: the screens, the status
  line, the labels and the watch channels), the arcade,
  chat, the doors, audio, IRC, the web pages and the terminal interface. Notification triggers and
  cascading deletes of users are not part of the table models.

  \<^bold>\<open>Plan.\<close> Next, in this order: the settlement of blackjack, the arcade boards (2048, minesweeper, the sliding puzzle), the lobby snapshot, then the
  moderation command parser over \<open>Policy\<close>.
\<close>

end
